(* ===== verification/Prelude.thy ===== *)
theory Prelude
  imports Main "HOL-Library.Word"
begin

text \<open>
  The prelude of the development: names of the machine types the C code uses, the generic
  facts on lists, words and options the components share, and the interfaces (locales)
  that several components implement or rely on:

  \<^item> \<open>byte_sink\<close>: a growing or bounded output buffer that takes one byte at a time;
  \<^item> \<open>codec\<close>: an encoder and a decoder that inverts it.

  Integers of the C type \<open>int\<close> that only hold lengths and positions are \<open>nat\<close> or \<open>int\<close>;
  where the code relies on wrap-around or on bits they are words of the C width.
\<close>

unbundle bit_operations_syntax

section \<open>Machine types\<close>

type_synonym byte = "8 word"
type_synonym bytes = "byte list"

text \<open>The numeric value of a C character constant, and of a string literal without its NUL.\<close>

definition ch :: "char \<Rightarrow> byte" where
  "ch c = of_char c"

definition cstr :: "string \<Rightarrow> bytes" where
  "cstr s = map ch s"

text \<open>
  The memory a \<open>const void *src, int src_size\<close> argument denotes: a negative size means
  \<open>strlen\<close>. The list is the object the pointer addresses; callers pass a size within it,
  or a string with its terminating NUL inside.
\<close>

definition src_bytes :: "bytes \<Rightarrow> int \<Rightarrow> bytes" where
  "src_bytes src src_size =
     (if src_size < 0 then takeWhile (\<lambda>b. b \<noteq> 0) src else take (nat src_size) src)"

lemma src_bytes_all [simp]: "src_bytes src (int (length src)) = src"
  by (simp add: src_bytes_def)

lemma src_bytes_strlen:
  "0 \<notin> set src \<Longrightarrow> src_bytes (src @ 0 # rest) (- 1) = src"
  by (simp add: src_bytes_def takeWhile_append takeWhile_eq_all_conv [THEN iffD2])

section \<open>Collections of facts\<close>

named_theorems c_defs \<open>definitions of the model that proofs unfold together\<close>
named_theorems table_simps \<open>facts that evaluate the constant tables\<close>

section \<open>Lists\<close>

lemma foldl_put_append: "foldl f (foldl f s xs) ys = foldl f s (xs @ ys)"
  by simp

lemma take_append_le [simp]:
  "length xs \<le> n \<Longrightarrow> take n (xs @ ys) = xs @ take (n - length xs) ys"
  by simp

lemma take_list_update_snoc:
  "n < length xs \<Longrightarrow> take (Suc n) (xs[n := x]) = take n xs @ [x]"
  by (simp add: take_Suc_conv_app_nth)

text \<open>A property of every byte follows from the 256 cases.\<close>

lemma byte_cases_nat:
  assumes "\<And>n. n < 256 \<Longrightarrow> P (of_nat n)"
  shows "P (b :: byte)"
proof -
  have "unat b < 256" using unsigned_less [of b] by simp
  then have "P (of_nat (unat b))" by (rule assms)
  then show ?thesis by simp
qed

lemma unat_byte_less [simp]: "unat (b :: byte) < 256"
  using unsigned_less [of b] by simp

lemma all_byte_iff: "(\<forall>b :: byte. P b) \<longleftrightarrow> (\<forall>n \<in> set [0..<256]. P (of_nat n))"
  by (auto intro: byte_cases_nat)

text \<open>Equations on bytes, bit by bit.\<close>

lemma all_less_8:
  "(\<forall>n < (8::nat). P n) \<longleftrightarrow> P 0 \<and> P 1 \<and> P 2 \<and> P 3 \<and> P 4 \<and> P 5 \<and> P 6 \<and> P 7"
  by (simp add: numeral_eq_Suc All_less_Suc) blast

lemma byte_eq_iff:
  "x = y \<longleftrightarrow> (bit x 0 = bit y 0 \<and> bit x 1 = bit y 1 \<and> bit x 2 = bit y 2 \<and> bit x 3 = bit y 3
     \<and> bit x 4 = bit y 4 \<and> bit x 5 = bit y 5 \<and> bit x 6 = bit y 6 \<and> bit x 7 = bit y 7)"
  for x y :: byte
proof -
  have "x = y \<longleftrightarrow> (\<forall>n < 8. bit x n = bit y n)" by (auto intro: bit_word_eqI)
  then show ?thesis by (simp add: all_less_8)
qed

lemma bit_byte_beyond: "8 \<le> n \<Longrightarrow> bit (b :: byte) n = False"
  using bit_imp_le_length [of b n] by auto

lemma byte_less_64: "x < (64::byte) \<longleftrightarrow> \<not> bit x 6 \<and> \<not> bit x 7"
proof -
  have "x < 64 \<longleftrightarrow> drop_bit 6 x = 0"
    by (simp add: word_less_nat_alt drop_bit_eq_div unat_div word_unat_eq_iff div_eq_0_iff)
  also have "\<dots> \<longleftrightarrow> \<not> bit x 6 \<and> \<not> bit x 7"
    by (simp add: byte_eq_iff bit_drop_bit_eq bit_byte_beyond)
  finally show ?thesis .
qed

lemmas byte_bits = byte_eq_iff bit_simps bit_byte_beyond byte_less_64

text \<open>A loop over a list whose body may fail.\<close>

primrec foldM :: "('a \<Rightarrow> 's \<Rightarrow> 's option) \<Rightarrow> 'a list \<Rightarrow> 's \<Rightarrow> 's option" where
  "foldM f [] s = Some s"
| "foldM f (x # xs) s = Option.bind (f x s) (foldM f xs)"

lemma foldM_append: "foldM f (xs @ ys) s = Option.bind (foldM f xs s) (foldM f ys)"
proof (induction xs arbitrary: s)
  case (Cons x xs)
  then show ?case by (cases "f x s") simp_all
qed simp

section \<open>Sorted association lists\<close>

text \<open>The entries of a map in the order of their keys: an entry is replaced or comes to its place.\<close>

fun obj_put :: "'k::linorder \<Rightarrow> 'v \<Rightarrow> ('k \<times> 'v) list \<Rightarrow> ('k \<times> 'v) list" where
  "obj_put k v [] = [(k, v)]"
| "obj_put k v ((k', v') # m) =
     (if k = k' then (k, v) # m
      else if k < k' then (k, v) # (k', v') # m
      else (k', v') # obj_put k v m)"

lemma obj_put_keys: "set (map fst (obj_put k v m)) = insert k (set (map fst m))"
  by (induction k v m rule: obj_put.induct) auto

lemma obj_put_sorted: "sorted_wrt (<) (map fst m) \<Longrightarrow> sorted_wrt (<) (map fst (obj_put k v m))"
proof (induction k v m rule: obj_put.induct)
  case (2 k v k' v' m)
  then show ?case using obj_put_keys [of k v m] by (auto dest: less_trans)
qed simp

lemma obj_put_vals: "set (map snd (obj_put k v m)) \<subseteq> insert v (set (map snd m))"
  by (induction k v m rule: obj_put.induct) auto

lemma obj_put_map_of: "sorted_wrt (<) (map fst m) \<Longrightarrow> map_of (obj_put k v m) = (map_of m)(k \<mapsto> v)"
proof (induction k v m rule: obj_put.induct)
  case (2 k v k' v' m)
  then show ?case by (cases "k < k'") (auto simp: fun_upd_twist)
qed simp

lemma obj_put_length:
  "sorted_wrt (<) (map fst m) \<Longrightarrow> length (obj_put k v m) = length m + (if k \<in> set (map fst m) then 0 else 1)"
proof (induction k v m rule: obj_put.induct)
  case (2 k v k' v' m)
  then show ?case by (cases "k < k'") (auto dest: less_asym)
qed simp

section \<open>Interfaces\<close>

text \<open>
  Clipping to an optional capacity: \<open>None\<close> is a buffer that grows, \<open>Some n\<close> a static
  buffer of \<open>n\<close> bytes that drops what does not fit.
\<close>

fun clip :: "nat option \<Rightarrow> 'a list \<Rightarrow> 'a list" where
  "clip None xs = xs"
| "clip (Some n) xs = take n xs"

lemma clip_clip_append [simp]: "clip c (clip c xs @ ys) = clip c (xs @ ys)"
  by (cases c) (auto simp: min_def)

lemma clip_Nil [simp]: "clip c [] = []"
  by (cases c) auto

lemma length_clip_None: "c = None \<Longrightarrow> clip c xs = xs"
  by simp

locale byte_sink =
  fixes put :: "'s \<Rightarrow> byte \<Rightarrow> 's"
    and content :: "'s \<Rightarrow> bytes"
    and capacity :: "'s \<Rightarrow> nat option"
    and ok :: "'s \<Rightarrow> bool"
  assumes ok_put: "ok s \<Longrightarrow> ok (put s b)"
    and capacity_put: "ok s \<Longrightarrow> capacity (put s b) = capacity s"
    and content_put: "ok s \<Longrightarrow> content (put s b) = clip (capacity s) (content s @ [b])"
    and content_fits: "ok s \<Longrightarrow> clip (capacity s) (content s) = content s"
begin

lemma ok_puts: "ok s \<Longrightarrow> ok (foldl put s bs)"
  by (induction bs arbitrary: s) (auto simp: ok_put)

lemma capacity_puts: "ok s \<Longrightarrow> capacity (foldl put s bs) = capacity s"
  by (induction bs arbitrary: s) (auto simp: ok_put capacity_put)

lemma content_puts: "ok s \<Longrightarrow> content (foldl put s bs) = clip (capacity s) (content s @ bs)"
proof (induction bs arbitrary: s)
  case Nil
  then show ?case by (simp add: content_fits)
next
  case (Cons b bs)
  then show ?case by (simp add: ok_put capacity_put content_put)
qed

lemma content_puts_growing:
  "ok s \<Longrightarrow> capacity s = None \<Longrightarrow> content (foldl put s bs) = content s @ bs"
  by (simp add: content_puts)

end

locale codec =
  fixes enc :: "'a list \<Rightarrow> 'b list"
    and dec :: "'b list \<Rightarrow> 'a list"
    and valid :: "'a list \<Rightarrow> bool"
  assumes dec_enc: "valid x \<Longrightarrow> dec (enc x) = x"
begin

lemma enc_inj: "valid x \<Longrightarrow> valid y \<Longrightarrow> enc x = enc y \<Longrightarrow> x = y"
  by (metis dec_enc)

lemma enc_inj_on: "inj_on enc {x. valid x}"
  by (rule inj_onI) (auto intro: enc_inj)

lemma enc_dec_range: "z \<in> enc ` {x. valid x} \<Longrightarrow> enc (dec z) = z"
  by (auto simp: dec_enc)

end

end
