(* ===== verification/Buf.thy ===== *)
theory Buf
  imports Prelude
begin

text \<open>
  The byte buffer \<open>zbuf_t\<close> (\<open>zc.h\<close>, \<open>src/stdlib/buf.c\<close>), on which every encoder and
  serializer of the library writes.

  The state is the C struct: the allocated array \<open>zb_data\<close> (a cell is \<open>None\<close> while its
  content is indeterminate), the length, the capacity and the static flag. The array has
  one cell more than the capacity, for the terminating NUL. The fields \<open>len\<close> and \<open>size\<close> are
  signed 31-bit bit-fields in C, which hold at most \<open>2 ^ 30 - 1\<close>; here they are unbounded. The
  two agree as long as the buffer fits (\<open>zbuf_fits\<close>). The capacity never shrinks, so a buffer
  that fits at the end has fitted all the time, and \<open>sized\<close>, a part of every contract below,
  bounds it by the data: what stays below \<open>2 ^ 29\<close> bytes fits. Beyond that \<open>zbuf_need_space\<close>
  overflows in C (\<open>zbuf_need_space_overflow\<close>), and the model says nothing about the code.
\<close>

section \<open>State\<close>

record zbuf =
  zb_data :: "byte option list"
  zb_len :: nat
  zb_size :: nat
  zb_static :: bool

text \<open>\<open>zmalloc\<close> returns indeterminate cells, \<open>zrealloc\<close> keeps the old ones.\<close>

definition zmalloc :: "nat \<Rightarrow> 'a option list" where
  "zmalloc n = replicate n None"

definition zrealloc :: "'a option list \<Rightarrow> nat \<Rightarrow> 'a option list" where
  "zrealloc xs n = take n xs @ replicate (n - length xs) None"

lemma length_zmalloc [simp]: "length (zmalloc n) = n"
  by (simp add: zmalloc_def)

lemma length_zrealloc [simp]: "length (zrealloc xs n) = n"
  by (simp add: zrealloc_def)

lemma take_zrealloc [simp]: "m \<le> n \<Longrightarrow> m \<le> length xs \<Longrightarrow> take m (zrealloc xs n) = take m xs"
  by (simp add: zrealloc_def min_def)

section \<open>Operations\<close>

definition zbuf_terminate :: "zbuf \<Rightarrow> zbuf" where
  "zbuf_terminate bf = bf\<lparr>zb_data := (zb_data bf)[zb_len bf := Some 0]\<rparr>"

definition zbuf_reset :: "zbuf \<Rightarrow> zbuf" where
  "zbuf_reset bf = bf\<lparr>zb_len := 0, zb_data := (zb_data bf)[0 := Some 0]\<rparr>"

definition zbuf_truncate :: "zbuf \<Rightarrow> int \<Rightarrow> zbuf" where
  "zbuf_truncate bf new_len =
     (if int (zb_len bf) > new_len \<and> new_len > - 1
      then bf\<lparr>zb_len := nat new_len, zb_data := (zb_data bf)[nat new_len := Some 0]\<rparr>
      else bf)"

definition zbuf_init :: "int \<Rightarrow> zbuf" where
  "zbuf_init size0 =
     (let size1 = (if size0 < 0 then 13 else if size0 = 0 then 1 else nat size0)
      in \<lparr>zb_data = (zmalloc (size1 + 1))[0 := Some 0], zb_len = 0, zb_size = size1,
          zb_static = False\<rparr>)"

text \<open>\<open>ZSTACK_BUF\<close>: a static buffer over \<open>n + 1\<close> bytes of the caller's stack.\<close>

definition zstack_buf :: "nat \<Rightarrow> zbuf" where
  "zstack_buf n = \<lparr>zb_data = (zmalloc (n + 1))[0 := Some 0], zb_len = 0, zb_size = n,
     zb_static = True\<rparr>"

definition zbuf_need_space :: "zbuf \<Rightarrow> int \<Rightarrow> zbuf \<times> int" where
  "zbuf_need_space bf need =
     (if zb_static bf then (bf, - 1)
      else let left = int (zb_size bf) - int (zb_len bf); incr = need - left in
        if incr < 0 then (bf, left)
        else let incr' = (if incr < int (zb_size bf) then int (zb_size bf) else incr);
                 size' = zb_size bf + nat incr'
             in (bf\<lparr>zb_size := size', zb_data := zrealloc (zb_data bf) (size' + 1)\<rparr>,
                 left + incr'))"

text \<open>
  The store branch of the macro \<open>ZBUF_PUT\<close>, then the macro and \<open>zbuf_put_do\<close>, which expand
  each other. \<open>zbuf_put_do\<close> makes room and runs the macro again; the macro then takes the
  store branch, or drops the byte when the buffer is static. (With a length beyond the
  capacity, which \<open>zbuf_ok\<close> excludes, the C functions would call each other for ever.)
\<close>

definition zbuf_store :: "zbuf \<Rightarrow> byte \<Rightarrow> zbuf" where
  "zbuf_store bf c = bf\<lparr>zb_data := (zb_data bf)[zb_len bf := Some c], zb_len := zb_len bf + 1\<rparr>"

definition zbuf_put_do :: "zbuf \<Rightarrow> byte \<Rightarrow> zbuf" where
  "zbuf_put_do bf c =
     (let bf1 = (if zb_len bf = zb_size bf then fst (zbuf_need_space bf 1) else bf)
      in if zb_len bf1 < zb_size bf1 then zbuf_store bf1 c else bf1)"

definition ZBUF_PUT :: "zbuf \<Rightarrow> byte \<Rightarrow> zbuf" where
  "ZBUF_PUT bf c =
     (if zb_len bf < zb_size bf then zbuf_store bf c
      else if zb_static bf then bf
      else zbuf_put_do bf c)"

definition zbuf_put :: "zbuf \<Rightarrow> byte \<Rightarrow> zbuf" where
  "zbuf_put bf c = zbuf_terminate (ZBUF_PUT bf c)"

text \<open>\<open>while (len-- && *src) ZBUF_PUT\<close>: copy up to \<open>n\<close> bytes, stopping at a NUL.\<close>

fun zbuf_copy_str :: "zbuf \<Rightarrow> bytes \<Rightarrow> nat \<Rightarrow> zbuf" where
  "zbuf_copy_str bf (c # src) (Suc n) =
     (if c = 0 then bf else zbuf_copy_str (ZBUF_PUT bf c) src n)"
| "zbuf_copy_str bf _ _ = bf"

definition zbuf_strncpy :: "zbuf \<Rightarrow> bytes \<Rightarrow> int \<Rightarrow> zbuf" where
  "zbuf_strncpy bf src n =
     (let bf1 = zbuf_reset bf
      in zbuf_terminate (if n > 0 then zbuf_copy_str bf1 src (nat n) else bf1))"

definition zbuf_strncat :: "zbuf \<Rightarrow> bytes \<Rightarrow> int \<Rightarrow> zbuf" where
  "zbuf_strncat bf src n =
     zbuf_terminate (if n > 0 then zbuf_copy_str bf src (nat n) else bf)"

text \<open>\<open>memcpy\<close> into the array behind the current data.\<close>

definition zbuf_memcpy_tail :: "zbuf \<Rightarrow> bytes \<Rightarrow> zbuf" where
  "zbuf_memcpy_tail bf src =
     bf\<lparr>zb_data := take (zb_len bf) (zb_data bf) @ map Some src
                    @ drop (zb_len bf + length src) (zb_data bf),
        zb_len := zb_len bf + length src\<rparr>"

text \<open>
  The body that \<open>zbuf_strcpy\<close>, \<open>zbuf_strcat\<close>, \<open>zbuf_memcpy\<close> and \<open>zbuf_memcat\<close> share: ask
  for room, then one \<open>memcpy\<close> if there is enough, else byte by byte.
\<close>

definition zbuf_bulk :: "zbuf \<Rightarrow> bytes \<Rightarrow> zbuf" where
  "zbuf_bulk bf src =
     (case zbuf_need_space bf (int (length src) + 1) of (bf1, left) \<Rightarrow>
        if left > int (length src)
        then (if length src > 0 then zbuf_memcpy_tail bf1 src else bf1)
        else foldl ZBUF_PUT bf1 src)"

definition zbuf_strcpy :: "zbuf \<Rightarrow> bytes \<Rightarrow> zbuf" where
  "zbuf_strcpy bf src = zbuf_terminate (zbuf_bulk (zbuf_reset bf) (src_bytes src (- 1)))"

definition zbuf_strcat :: "zbuf \<Rightarrow> bytes \<Rightarrow> zbuf" where
  "zbuf_strcat bf src =
     (let s = src_bytes src (- 1)
      in zbuf_terminate (if length s > 0 then zbuf_bulk bf s else bf))"

definition zbuf_memcpy :: "zbuf \<Rightarrow> bytes \<Rightarrow> int \<Rightarrow> zbuf" where
  "zbuf_memcpy bf src n =
     (let bf1 = zbuf_reset bf
      in zbuf_terminate (if n > 0 then zbuf_bulk bf1 (take (nat n) src) else bf1))"

definition zbuf_memcat :: "zbuf \<Rightarrow> bytes \<Rightarrow> int \<Rightarrow> zbuf" where
  "zbuf_memcat bf src n = zbuf_terminate (if n > 0 then zbuf_bulk bf (take (nat n) src) else bf)"

text \<open>The loop of \<open>zbuf_trim_right_rn\<close>: drop trailing line feeds and carriage returns.\<close>

fun trim_rn_len :: "byte option list \<Rightarrow> nat \<Rightarrow> nat" where
  "trim_rn_len d 0 = 0"
| "trim_rn_len d (Suc n) =
     (if d ! n = Some 10 then trim_rn_len d n
      else if d ! n = Some 13 then trim_rn_len d n
      else Suc n)"

definition zbuf_trim_right_rn :: "zbuf \<Rightarrow> zbuf" where
  "zbuf_trim_right_rn bf = zbuf_terminate (bf\<lparr>zb_len := trim_rn_len (zb_data bf) (zb_len bf)\<rparr>)"

lemmas zbuf_base_defs [c_defs] =
  zbuf_terminate_def zbuf_reset_def zbuf_need_space_def zbuf_store_def zbuf_put_do_def
  ZBUF_PUT_def zbuf_put_def zbuf_memcpy_tail_def

section \<open>Invariant and abstraction\<close>

text \<open>The bit-fields hold the capacity, and so the length.\<close>

definition zbuf_fits :: "zbuf \<Rightarrow> bool" where
  "zbuf_fits bf \<longleftrightarrow> zb_size bf < 2 ^ 30"

definition zbuf_bytes :: "zbuf \<Rightarrow> bytes" where
  "zbuf_bytes bf = map the (take (zb_len bf) (zb_data bf))"

definition zbuf_cap :: "zbuf \<Rightarrow> nat option" where
  "zbuf_cap bf = (if zb_static bf then Some (zb_size bf) else None)"

definition zbuf_ok :: "zbuf \<Rightarrow> bool" where
  "zbuf_ok bf \<longleftrightarrow> length (zb_data bf) = zb_size bf + 1 \<and> zb_len bf \<le> zb_size bf
     \<and> None \<notin> set (take (zb_len bf) (zb_data bf))"

definition zbuf_terminated :: "zbuf \<Rightarrow> bool" where
  "zbuf_terminated bf \<longleftrightarrow> zb_len bf < length (zb_data bf) \<and> zb_data bf ! zb_len bf = Some 0"

lemma length_zbuf_bytes [simp]: "zbuf_ok bf \<Longrightarrow> length (zbuf_bytes bf) = zb_len bf"
  by (simp add: zbuf_ok_def zbuf_bytes_def)

lemma zbuf_ok_init: "zbuf_ok (zbuf_init n)"
  by (simp add: zbuf_init_def zbuf_ok_def Let_def)

lemma zbuf_init_empty [simp]: "zbuf_bytes (zbuf_init n) = []" "zbuf_cap (zbuf_init n) = None"
  by (simp_all add: zbuf_init_def zbuf_bytes_def zbuf_cap_def Let_def)

lemma zbuf_ok_stack: "zbuf_ok (zstack_buf n)"
  by (simp add: zstack_buf_def zbuf_ok_def)

lemma zstack_buf_empty [simp]: "zbuf_bytes (zstack_buf n) = []" "zbuf_cap (zstack_buf n) = Some n"
  by (simp_all add: zstack_buf_def zbuf_bytes_def zbuf_cap_def)

subsection \<open>Writing behind the data\<close>

lemma zbuf_ok_terminate [simp]: "zbuf_ok bf \<Longrightarrow> zbuf_ok (zbuf_terminate bf)"
  by (simp add: zbuf_ok_def zbuf_terminate_def)

lemma zbuf_bytes_terminate [simp]: "zbuf_bytes (zbuf_terminate bf) = zbuf_bytes bf"
  by (simp add: zbuf_bytes_def zbuf_terminate_def)

lemma zbuf_cap_terminate [simp]: "zbuf_cap (zbuf_terminate bf) = zbuf_cap bf"
  by (simp add: zbuf_cap_def zbuf_terminate_def)

lemma zb_len_terminate [simp]: "zb_len (zbuf_terminate bf) = zb_len bf"
  by (simp add: zbuf_terminate_def)

lemma zbuf_terminated_terminate: "zbuf_ok bf \<Longrightarrow> zbuf_terminated (zbuf_terminate bf)"
  by (simp add: zbuf_ok_def zbuf_terminate_def zbuf_terminated_def)

lemma zbuf_reset_facts [simp]:
  "zbuf_ok bf \<Longrightarrow> zbuf_ok (zbuf_reset bf)"
  "zbuf_bytes (zbuf_reset bf) = []"
  "zbuf_cap (zbuf_reset bf) = zbuf_cap bf"
  by (simp_all add: zbuf_ok_def zbuf_reset_def zbuf_bytes_def zbuf_cap_def)

lemma zbuf_need_space_facts:
  assumes "zbuf_ok bf" and "zbuf_need_space bf need = (bf', left)"
  shows "zbuf_ok bf'" and "zbuf_bytes bf' = zbuf_bytes bf" and "zbuf_cap bf' = zbuf_cap bf"
    and "zb_len bf' = zb_len bf" and "zb_static bf' = zb_static bf"
    and "zb_static bf \<Longrightarrow> bf' = bf \<and> left = - 1"
    and "\<not> zb_static bf \<Longrightarrow> left = int (zb_size bf') - int (zb_len bf') \<and> need \<le> left"
  using assms
  by (auto simp: zbuf_ok_def zbuf_need_space_def zbuf_bytes_def zbuf_cap_def Let_def nat_add_distrib
      split: if_splits)

lemma zbuf_store_facts:
  assumes "zbuf_ok bf" and "zb_len bf < zb_size bf"
  shows "zbuf_ok (zbuf_store bf c)" and "zbuf_bytes (zbuf_store bf c) = zbuf_bytes bf @ [c]"
    and "zbuf_cap (zbuf_store bf c) = zbuf_cap bf"
  using assms
  by (auto simp: zbuf_ok_def zbuf_store_def zbuf_bytes_def zbuf_cap_def take_list_update_snoc)

lemma clip_fits: "zbuf_ok bf \<Longrightarrow> clip (zbuf_cap bf) (zbuf_bytes bf) = zbuf_bytes bf"
  by (auto simp: zbuf_cap_def zbuf_ok_def zbuf_bytes_def)

lemma clip_room:
  "zbuf_ok bf \<Longrightarrow> zb_len bf < zb_size bf \<Longrightarrow>
   clip (zbuf_cap bf) (zbuf_bytes bf @ [c]) = zbuf_bytes bf @ [c]"
  by (simp add: zbuf_cap_def)

lemma clip_full:
  "zbuf_ok bf \<Longrightarrow> zb_static bf \<Longrightarrow> \<not> zb_len bf < zb_size bf \<Longrightarrow>
   clip (zbuf_cap bf) (zbuf_bytes bf @ ys) = zbuf_bytes bf"
  by (simp add: zbuf_cap_def zbuf_ok_def zbuf_bytes_def)

lemma ZBUF_PUT_facts:
  assumes "zbuf_ok bf"
  shows "zbuf_ok (ZBUF_PUT bf c)" (is ?ok)
    and "zbuf_bytes (ZBUF_PUT bf c) = clip (zbuf_cap bf) (zbuf_bytes bf @ [c])" (is ?bytes)
    and "zbuf_cap (ZBUF_PUT bf c) = zbuf_cap bf" (is ?cap)
proof -
  consider (room) "zb_len bf < zb_size bf"
    | (full) "\<not> zb_len bf < zb_size bf" "zb_static bf"
    | (grow) "zb_len bf = zb_size bf" "\<not> zb_static bf"
    using assms by (force simp: zbuf_ok_def)
  then have "?ok \<and> ?bytes \<and> ?cap"
  proof cases
    case room
    with assms show ?thesis by (simp add: ZBUF_PUT_def zbuf_store_facts clip_room)
  next
    case full
    with assms show ?thesis by (simp add: ZBUF_PUT_def clip_full)
  next
    case grow
    obtain bf1 left where n: "zbuf_need_space bf 1 = (bf1, left)" by fastforce
    note f = zbuf_need_space_facts [OF assms n]
    from f(7) grow have "zb_len bf1 < zb_size bf1" by simp
    moreover from grow have "zbuf_cap bf = None" by (simp add: zbuf_cap_def)
    ultimately show ?thesis using grow n f
      by (simp add: ZBUF_PUT_def zbuf_put_do_def zbuf_store_facts)
  qed
  then show ?ok and ?bytes and ?cap by simp_all
qed

interpretation zraw: byte_sink ZBUF_PUT zbuf_bytes zbuf_cap zbuf_ok
  by unfold_locales (simp_all add: ZBUF_PUT_facts clip_fits)

interpretation zb: byte_sink zbuf_put zbuf_bytes zbuf_cap zbuf_ok
  by unfold_locales (simp_all add: zbuf_put_def ZBUF_PUT_facts clip_fits)

subsection \<open>Bulk writes agree with byte-wise writes\<close>

lemma zbuf_memcpy_tail_facts:
  assumes "zbuf_ok bf" and "zb_len bf + length src \<le> zb_size bf"
  shows "zbuf_ok (zbuf_memcpy_tail bf src)"
    and "zbuf_bytes (zbuf_memcpy_tail bf src) = zbuf_bytes bf @ src"
    and "zbuf_cap (zbuf_memcpy_tail bf src) = zbuf_cap bf"
  using assms
  by (auto simp: zbuf_ok_def zbuf_memcpy_tail_def zbuf_bytes_def zbuf_cap_def comp_def)

lemma zbuf_bulk_facts:
  assumes "zbuf_ok bf"
  shows "zbuf_ok (zbuf_bulk bf src)" (is ?ok)
    and "zbuf_bytes (zbuf_bulk bf src) = clip (zbuf_cap bf) (zbuf_bytes bf @ src)" (is ?bytes)
    and "zbuf_cap (zbuf_bulk bf src) = zbuf_cap bf" (is ?cap)
proof -
  obtain bf1 left where n: "zbuf_need_space bf (int (length src) + 1) = (bf1, left)" by fastforce
  note f = zbuf_need_space_facts [OF assms n]
  have "?ok \<and> ?bytes \<and> ?cap"
  proof (cases "left > int (length src)")
    case True
    with f(6) have s: "\<not> zb_static bf" by (cases "zb_static bf") auto
    with f(7) True have "zb_len bf1 + length src \<le> zb_size bf1" by linarith
    moreover from s have "zbuf_cap bf = None" by (simp add: zbuf_cap_def)
    ultimately show ?thesis using f(1-3) n True
      by (auto simp: zbuf_bulk_def zbuf_memcpy_tail_facts)
  next
    case False
    with f(1-3) n show ?thesis
      by (simp add: zbuf_bulk_def zraw.ok_puts zraw.content_puts zraw.capacity_puts)
  qed
  then show ?ok and ?bytes and ?cap by simp_all
qed

lemma zbuf_copy_str_foldl:
  "zbuf_copy_str bf src n = foldl ZBUF_PUT bf (takeWhile (\<lambda>b. b \<noteq> 0) (take n src))"
  by (induction bf src n rule: zbuf_copy_str.induct) auto

subsection \<open>How the capacity grows\<close>

definition sized :: "zbuf \<Rightarrow> zbuf \<Rightarrow> bool" where
  "sized bf bf' \<longleftrightarrow> zb_size bf \<le> zb_size bf' \<and> zb_size bf' \<le> max (zb_size bf) (2 * (length (zbuf_bytes bf') + 1))"

lemma sized_refl [simp]: "sized bf bf"
  by (simp add: sized_def)

lemma sized_terminate [simp]: "sized bf (zbuf_terminate bf') = sized bf bf'"
  by (simp add: sized_def) (simp add: zbuf_terminate_def)

lemma sized_reset [simp]: "sized (zbuf_reset bf) bf' = sized bf bf'"
  by (simp add: sized_def zbuf_reset_def)

lemma sized_emptied [simp]: "sized bf (zbuf_reset bf)"
  by (simp add: sized_def zbuf_reset_def)

lemma sized_trans:
  "sized b1 b2 \<Longrightarrow> sized b2 b3 \<Longrightarrow> length (zbuf_bytes b2) \<le> length (zbuf_bytes b3) \<Longrightarrow> sized b1 b3"
  by (auto simp: sized_def max_def split: if_splits)

lemma sized_fits: "sized bf bf' \<Longrightarrow> zbuf_fits bf \<Longrightarrow> length (zbuf_bytes bf') + 1 < 2 ^ 29 \<Longrightarrow> zbuf_fits bf'"
  by (simp add: sized_def zbuf_fits_def max_def split: if_splits)

lemma sized_fits_before: "sized bf bf' \<Longrightarrow> zbuf_fits bf' \<Longrightarrow> zbuf_fits bf"
  by (simp add: sized_def zbuf_fits_def)

lemma ZBUF_PUT_length: "zbuf_ok bf \<Longrightarrow> length (zbuf_bytes bf) \<le> length (zbuf_bytes (ZBUF_PUT bf c))"
  using clip_fits [of bf] by (cases "zbuf_cap bf") (auto simp: ZBUF_PUT_facts min_def dest!: arg_cong [of _ _ length])

lemma sized_put:
  assumes "zbuf_ok bf"
  shows "sized bf (ZBUF_PUT bf c)"
proof (cases "zb_len bf < zb_size bf \<or> zb_static bf")
  case True
  then have "zb_size (ZBUF_PUT bf c) = zb_size bf" by (auto simp: ZBUF_PUT_def zbuf_store_def)
  then show ?thesis by (simp add: sized_def)
next
  case False
  then have l: "zb_len bf = zb_size bf" "\<not> zb_static bf" using assms by (auto simp: zbuf_ok_def)
  have "length (zbuf_bytes (ZBUF_PUT bf c)) = zb_len bf + 1"
    using assms l by (simp add: ZBUF_PUT_facts zbuf_cap_def)
  moreover have "zb_size (ZBUF_PUT bf c) = zb_size bf + max 1 (zb_size bf)"
    using l by (auto simp: ZBUF_PUT_def zbuf_put_do_def zbuf_need_space_def zbuf_store_def Let_def max_def)
  ultimately show ?thesis using l by (simp add: sized_def)
qed

lemma sized_puts: "zbuf_ok bf \<Longrightarrow> sized bf (foldl ZBUF_PUT bf xs)"
proof (induction xs arbitrary: bf)
  case (Cons x xs)
  let ?b = "ZBUF_PUT bf x"
  have ok: "zbuf_ok ?b" using Cons.prems by (simp add: ZBUF_PUT_facts)
  have mono: "zbuf_ok b \<Longrightarrow> length (zbuf_bytes b) \<le> length (zbuf_bytes (foldl ZBUF_PUT b ys))" for b ys
  proof (induction ys arbitrary: b)
    case (Cons y ys)
    have "zbuf_ok (ZBUF_PUT b y)" using Cons.prems by (simp add: ZBUF_PUT_facts)
    from Cons.IH [OF this] ZBUF_PUT_length [OF Cons.prems, of y] show ?case by simp
  qed simp
  show ?case using sized_trans [OF sized_put [OF Cons.prems] Cons.IH [OF ok] mono [OF ok]] by simp
qed simp

lemma sized_bulk:
  assumes "zbuf_ok bf"
  shows "sized bf (zbuf_bulk bf src)"
proof (cases "zb_static bf")
  case True
  then have "zbuf_bulk bf src = foldl ZBUF_PUT bf src" by (simp add: zbuf_bulk_def zbuf_need_space_def)
  then show ?thesis using sized_puts [OF assms] by simp
next
  case False
  obtain bf1 left where n: "zbuf_need_space bf (int (length src) + 1) = (bf1, left)" by fastforce
  note f = zbuf_need_space_facts [OF assms n]
  have "left > int (length src)" using f(7) False by simp
  then have b: "zb_size (zbuf_bulk bf src) = zb_size bf1" using n by (simp add: zbuf_bulk_def zbuf_memcpy_tail_def)
  have l: "length (zbuf_bytes (zbuf_bulk bf src)) = zb_len bf + length src"
    using zbuf_bulk_facts(2) [OF assms, of src] False assms by (simp add: zbuf_cap_def)
  have "zb_size bf \<le> zb_size bf1 \<and> zb_size bf1 \<le> max (zb_size bf) (2 * (zb_len bf + length src + 1))"
    using n assms False by (auto simp: zbuf_need_space_def zbuf_ok_def Let_def split: if_splits)
  then show ?thesis by (simp add: sized_def b l)
qed

lemma sized_reset_writes:
  assumes "zbuf_ok bf"
  shows "sized bf (zbuf_bulk (zbuf_reset bf) src)" "sized bf (foldl ZBUF_PUT (zbuf_reset bf) src)"
  using sized_bulk [of "zbuf_reset bf" src] sized_puts [of "zbuf_reset bf" src] assms by simp_all

lemmas zbuf_write_facts = sized_reset_writes
  zbuf_bulk_facts zbuf_copy_str_foldl zraw.ok_puts zraw.content_puts zraw.capacity_puts sized_bulk sized_puts

text \<open>
  The contract every writing operation meets: what it leaves is a well-formed, NUL-terminated
  buffer of the same kind, whose content is the old content and the given bytes, clipped to
  the capacity of a static buffer, and whose capacity is bounded by it.
\<close>

definition writes :: "zbuf \<Rightarrow> zbuf \<Rightarrow> bytes \<Rightarrow> bool" where
  "writes bf bf' content \<longleftrightarrow> zbuf_ok bf' \<and> zbuf_terminated bf' \<and> zbuf_cap bf' = zbuf_cap bf
     \<and> zbuf_bytes bf' = clip (zbuf_cap bf) content \<and> sized bf bf'"

lemma writes_terminate:
  assumes "zbuf_ok bf'" and "zbuf_cap bf' = zbuf_cap bf"
    and "zbuf_bytes bf' = clip (zbuf_cap bf) content" and "sized bf bf'"
  shows "writes bf (zbuf_terminate bf') content"
  using assms by (simp add: writes_def zbuf_terminated_terminate)

lemma zbuf_put_writes: "zbuf_ok bf \<Longrightarrow> writes bf (zbuf_put bf c) (zbuf_bytes bf @ [c])"
  unfolding zbuf_put_def by (rule writes_terminate) (simp_all add: ZBUF_PUT_facts sized_put)

lemma zbuf_put_length: "zbuf_ok bf \<Longrightarrow> length (zbuf_bytes bf) \<le> length (zbuf_bytes (zbuf_put bf c))"
  using ZBUF_PUT_length by (simp add: zbuf_put_def)

lemma sized_zbuf_puts: "zbuf_ok bf \<Longrightarrow> sized bf (foldl zbuf_put bf xs) \<and> length (zbuf_bytes bf) \<le> length (zbuf_bytes (foldl zbuf_put bf xs))"
proof (induction xs arbitrary: bf)
  case (Cons x xs)
  have ok: "zbuf_ok (zbuf_put bf x)" using Cons.prems by (simp add: zbuf_put_def ZBUF_PUT_facts)
  have s: "sized bf (zbuf_put bf x)" using sized_put [OF Cons.prems] by (simp add: zbuf_put_def)
  from Cons.IH [OF ok] sized_trans [OF s] zbuf_put_length [OF Cons.prems, of x] show ?case by auto
qed simp

lemma zbuf_puts_writes:
  "zbuf_ok bf \<Longrightarrow> writes bf (zbuf_terminate (foldl zbuf_put bf bs)) (zbuf_bytes bf @ bs)"
  by (rule writes_terminate) (simp_all add: zb.ok_puts zb.content_puts zb.capacity_puts sized_zbuf_puts)

text \<open>The same without the terminating NUL, which composes along a loop that writes step by step.\<close>

definition appends :: "zbuf \<Rightarrow> zbuf \<Rightarrow> bytes \<Rightarrow> bool" where
  "appends bf bf' xs \<longleftrightarrow> zbuf_ok bf' \<and> zbuf_cap bf' = zbuf_cap bf
     \<and> zbuf_bytes bf' = clip (zbuf_cap bf) (zbuf_bytes bf @ xs) \<and> sized bf bf'"

lemma appends_Nil: "zbuf_ok bf \<Longrightarrow> appends bf bf []"
  by (simp add: appends_def clip_fits)

lemma appends_ok: "appends bf bf' xs \<Longrightarrow> zbuf_ok bf'"
  by (simp add: appends_def)

lemma clip_longer: "clip c ys = ys \<Longrightarrow> length ys \<le> length (clip c (ys @ xs))"
  by (cases c) (auto simp: min_def dest!: arg_cong [of _ _ length])

lemma appends_trans:
  assumes "appends b1 b2 xs" "appends b2 b3 ys"
  shows "appends b1 b3 (xs @ ys)"
proof -
  have "length (zbuf_bytes b2) \<le> length (zbuf_bytes b3)"
    using assms clip_longer [OF clip_fits, of b2 ys] by (simp add: appends_def)
  then show ?thesis using assms sized_trans [of b1 b2 b3] by (simp add: appends_def)
qed

lemma appends_put: "zbuf_ok bf \<Longrightarrow> appends bf (zbuf_put bf c) [c]"
  using zbuf_put_writes [of bf c] by (simp add: appends_def writes_def)

lemma appends_puts: "zbuf_ok bf \<Longrightarrow> appends bf (foldl zbuf_put bf xs) xs"
  by (simp add: appends_def zb.ok_puts zb.content_puts zb.capacity_puts sized_zbuf_puts)

lemma appends_writes: "appends bf bf' xs \<Longrightarrow> writes bf (zbuf_terminate bf') (zbuf_bytes bf @ xs)"
  by (simp add: appends_def writes_terminate)

lemma appends_growing:
  "appends bf bf' xs \<Longrightarrow> zbuf_cap bf = None \<Longrightarrow> zbuf_bytes bf' = zbuf_bytes bf @ xs"
  by (simp add: appends_def)

lemma zbuf_strncpy_writes:
  "zbuf_ok bf \<Longrightarrow>
   writes bf (zbuf_strncpy bf src n) (takeWhile (\<lambda>b. b \<noteq> 0) (take (nat n) src))"
  unfolding zbuf_strncpy_def Let_def
  by (rule writes_terminate) (simp_all add: zbuf_write_facts clip_fits)

lemma zbuf_strncat_writes:
  "zbuf_ok bf \<Longrightarrow>
   writes bf (zbuf_strncat bf src n) (zbuf_bytes bf @ takeWhile (\<lambda>b. b \<noteq> 0) (take (nat n) src))"
  unfolding zbuf_strncat_def
  by (rule writes_terminate) (simp_all add: zbuf_write_facts clip_fits)

lemma zbuf_strcpy_writes: "zbuf_ok bf \<Longrightarrow> writes bf (zbuf_strcpy bf src) (src_bytes src (- 1))"
  unfolding zbuf_strcpy_def
  by (rule writes_terminate) (simp_all add: zbuf_write_facts)

lemma zbuf_strcat_writes:
  "zbuf_ok bf \<Longrightarrow> writes bf (zbuf_strcat bf src) (zbuf_bytes bf @ src_bytes src (- 1))"
  unfolding zbuf_strcat_def Let_def
  by (rule writes_terminate) (simp_all add: zbuf_write_facts clip_fits)

lemma appends_strcat: "zbuf_ok bf \<Longrightarrow> appends bf (zbuf_strcat bf src) (src_bytes src (- 1))"
  using zbuf_strcat_writes [of bf src] by (simp add: appends_def writes_def)

lemma zbuf_memcpy_writes: "zbuf_ok bf \<Longrightarrow> writes bf (zbuf_memcpy bf src n) (take (nat n) src)"
  unfolding zbuf_memcpy_def Let_def
  by (rule writes_terminate) (simp_all add: zbuf_write_facts clip_fits)

lemma zbuf_memcat_writes:
  "zbuf_ok bf \<Longrightarrow> writes bf (zbuf_memcat bf src n) (zbuf_bytes bf @ take (nat n) src)"
  unfolding zbuf_memcat_def
  by (rule writes_terminate) (simp_all add: zbuf_write_facts clip_fits)

lemma appends_memcat: "zbuf_ok bf \<Longrightarrow> appends bf (zbuf_memcat bf src n) (take (nat n) src)"
  using zbuf_memcat_writes [of bf src n] by (simp add: appends_def writes_def)

lemma trim_rn_len_le: "trim_rn_len d n \<le> n"
  by (induction d n rule: trim_rn_len.induct) auto

lemma trim_rn_len_take:
  assumes "n \<le> length d" and "None \<notin> set (take n d)"
  shows "map the (take (trim_rn_len d n) d) =
    rev (dropWhile (\<lambda>b. b = 10 \<or> b = 13) (rev (map the (take n d))))"
  using assms
proof (induction d n rule: trim_rn_len.induct)
  case (1 d)
  then show ?case by simp
next
  case (2 d n)
  then have "take (Suc n) d = take n d @ [d ! n]" by (simp add: take_Suc_conv_app_nth)
  with 2 show ?case by (cases "d ! n") (auto simp: take_Suc_conv_app_nth)
qed

lemma zbuf_trim_right_rn_writes:
  assumes "zbuf_ok bf"
  shows "writes bf (zbuf_trim_right_rn bf)
    (rev (dropWhile (\<lambda>b. b = 10 \<or> b = 13) (rev (zbuf_bytes bf))))"
proof -
  let ?n = "trim_rn_len (zb_data bf) (zb_len bf)"
  let ?bf = "bf\<lparr>zb_len := ?n\<rparr>"
  have "set (take ?n (zb_data bf)) \<subseteq> set (take (zb_len bf) (zb_data bf))"
    by (rule set_take_subset_set_take [OF trim_rn_len_le])
  then have ok: "zbuf_ok ?bf"
    using assms le_trans [OF trim_rn_len_le] by (auto simp: zbuf_ok_def)
  have "zbuf_bytes ?bf = rev (dropWhile (\<lambda>b. b = 10 \<or> b = 13) (rev (zbuf_bytes bf)))"
    using assms trim_rn_len_take [of "zb_len bf" "zb_data bf"]
    by (simp add: zbuf_bytes_def zbuf_ok_def)
  with ok show ?thesis unfolding zbuf_trim_right_rn_def
    by (intro writes_terminate) (auto simp: zbuf_cap_def sized_def dest: clip_fits)
qed

section \<open>Capacity\<close>

lemma zbuf_need_space_size:
  assumes "\<not> zb_static bf" and "zb_len bf \<le> zb_size bf"
  shows "int (zb_size (fst (zbuf_need_space bf need))) =
    (if need < int (zb_size bf) - int (zb_len bf) then int (zb_size bf)
     else max (2 * int (zb_size bf)) (int (zb_len bf) + need))"
  using assms by (simp add: zbuf_need_space_def Let_def max_def)

section \<open>Properties\<close>

definition fitting_write :: "zbuf \<Rightarrow> zbuf \<Rightarrow> bytes \<Rightarrow> bool" where
  "fitting_write bf bf' content \<longleftrightarrow> writes bf bf' content \<and> zb_size bf \<le> zb_size bf' \<and> zbuf_fits bf'"

lemma fitting_writeI:
  assumes "writes bf bf' content" "zbuf_fits bf" "length content + 1 < 2 ^ 29"
  shows "fitting_write bf bf' content"
proof -
  have "length (zbuf_bytes bf') \<le> length content"
    using assms(1) by (cases "zbuf_cap bf") (simp_all add: writes_def)
  then have len: "length (zbuf_bytes bf') + 1 < 2 ^ 29" using assms(3) by simp
  have sz: "sized bf bf'" using assms(1) by (simp add: writes_def)
  show ?thesis using assms(1) sized_fits [OF sz assms(2) len] sz unfolding fitting_write_def sized_def by blast
qed

text \<open>C20: Every writing operation of the buffer (one byte, a counted block, a C string, a bounded
  string, and the copying variants that first reset the buffer) leaves a well-formed
  NUL-terminated buffer of the same kind whose content is exactly the requested bytes appended
  (or copied), clipped to the capacity of a static buffer; the \<open>memcpy\<close> fast path and the
  byte-wise path agree. The data and what is written stay below 2 to the 29 bytes; then the
  capacity stays in its 31-bit field.\<close>

theorem zbuf_write_contract:
  assumes "zbuf_ok bf" "zbuf_fits bf" "length (zbuf_bytes bf) + length src + 2 < 2 ^ 29"
  shows "fitting_write bf (zbuf_put bf c) (zbuf_bytes bf @ [c])
    \<and> fitting_write bf (zbuf_memcat bf src n) (zbuf_bytes bf @ take (nat n) src)
    \<and> fitting_write bf (zbuf_strcat bf src) (zbuf_bytes bf @ takeWhile (\<lambda>b. b \<noteq> 0) src)
    \<and> fitting_write bf (zbuf_strncat bf src n)
        (zbuf_bytes bf @ takeWhile (\<lambda>b. b \<noteq> 0) (take (nat n) src))
    \<and> fitting_write bf (zbuf_memcpy bf src n) (take (nat n) src)
    \<and> fitting_write bf (zbuf_strcpy bf src) (takeWhile (\<lambda>b. b \<noteq> 0) src)
    \<and> fitting_write bf (zbuf_strncpy bf src n) (takeWhile (\<lambda>b. b \<noteq> 0) (take (nat n) src))"
proof -
  have len: "length (zbuf_bytes bf @ [c]) + 1 < 2 ^ 29" "length (zbuf_bytes bf @ take (nat n) src) + 1 < 2 ^ 29"
    "length (zbuf_bytes bf @ takeWhile (\<lambda>b. b \<noteq> 0) src) + 1 < 2 ^ 29"
    "length (zbuf_bytes bf @ takeWhile (\<lambda>b. b \<noteq> 0) (take (nat n) src)) + 1 < 2 ^ 29"
    "length (take (nat n) src) + 1 < 2 ^ 29" "length (takeWhile (\<lambda>b. b \<noteq> 0) src) + 1 < 2 ^ 29"
    "length (takeWhile (\<lambda>b. b \<noteq> 0) (take (nat n) src)) + 1 < 2 ^ 29"
    using assms(3) length_takeWhile_le [of "\<lambda>b. b \<noteq> 0" src] length_takeWhile_le [of "\<lambda>b. b \<noteq> 0" "take (nat n) src"] by simp_all
  have src: "src_bytes src (- 1) = takeWhile (\<lambda>b. b \<noteq> 0) src" by (simp add: src_bytes_def)
  note w = zbuf_put_writes [OF assms(1), of c] zbuf_memcat_writes [OF assms(1), of src n]
    zbuf_strcat_writes [OF assms(1), of src, unfolded src] zbuf_strncat_writes [OF assms(1), of src n]
    zbuf_memcpy_writes [OF assms(1), of src n] zbuf_strcpy_writes [OF assms(1), of src, unfolded src]
    zbuf_strncpy_writes [OF assms(1), of src n]
  show ?thesis
    by (intro conjI) (rule fitting_writeI [OF w(1) assms(2) len(1)] fitting_writeI [OF w(2) assms(2) len(2)]
      fitting_writeI [OF w(3) assms(2) len(3)] fitting_writeI [OF w(4) assms(2) len(4)] fitting_writeI [OF w(5) assms(2) len(5)]
      fitting_writeI [OF w(6) assms(2) len(6)] fitting_writeI [OF w(7) assms(2) len(7)])+
qed

theorem zbuf_write_contract_witness:
  "zbuf_ok (zstack_buf 3) \<and> zbuf_fits (zstack_buf 3) \<and>
   zbuf_bytes (zbuf_memcat (zstack_buf 3) [65, 66, 67, 68] 4) = [65, 66, 67]"
proof -
  have ok: "zbuf_ok (zstack_buf 3)" "zbuf_fits (zstack_buf 3)"
    "length (zbuf_bytes (zstack_buf 3)) + length [65, 66, 67, 68 :: byte] + 2 < 2 ^ 29"
    by (simp_all add: zbuf_ok_stack zbuf_fits_def) (simp add: zstack_buf_def)
  from zbuf_write_contract [OF ok, of 0 4] ok show ?thesis
    by (simp add: writes_def fitting_write_def)
qed

text \<open>C32: Asking for room never shrinks the buffer, at most doubles it or makes it exactly as large
  as needed, and while the data and the request stay below 2 to the 29 the capacity fits the 31-bit
  field of the C struct.\<close>

theorem zbuf_need_space_bound:
  assumes "zbuf_ok bf" and "zb_size bf < 2 ^ 29" and "int (zb_len bf) + need < 2 ^ 29"
  shows "zb_size bf \<le> zb_size (fst (zbuf_need_space bf need))
    \<and> zb_size (fst (zbuf_need_space bf need)) < 2 ^ 30
    \<and> zbuf_bytes (fst (zbuf_need_space bf need)) = zbuf_bytes bf"
proof (cases "zb_static bf")
  case True
  with assms show ?thesis by (simp add: zbuf_need_space_def)
next
  case False
  from assms(1) have "zb_len bf \<le> zb_size bf" by (simp add: zbuf_ok_def)
  note s = zbuf_need_space_size [OF False this, of need]
  have "zbuf_bytes (fst (zbuf_need_space bf need)) = zbuf_bytes bf"
    using zbuf_need_space_facts(2) [OF assms(1)] by (metis prod.collapse)
  with s assms(2,3) show ?thesis by (auto split: if_splits)
qed

theorem zbuf_need_space_bound_witness:
  "zbuf_ok (zbuf_init 5) \<and> zb_size (fst (zbuf_need_space (zbuf_init 5) 100)) < 2 ^ 30"
proof -
  have ok: "zbuf_ok (zbuf_init 5)" by (rule zbuf_ok_init)
  moreover have "zb_size (zbuf_init 5) < 2 ^ 29" and "int (zb_len (zbuf_init 5)) + 100 < 2 ^ 29"
    by (simp_all add: zbuf_init_def)
  ultimately show ?thesis using zbuf_need_space_bound by blast
qed

text \<open>A full buffer of 2 to the 29 bytes or more does not fit after it has grown: in C the sum overflows
  the 31-bit field.\<close>

theorem zbuf_need_space_overflow:
  assumes "\<not> zb_static bf" "zb_len bf = zb_size bf" "2 ^ 29 \<le> zb_size bf" "0 < need"
  shows "\<not> zbuf_fits (fst (zbuf_need_space bf need))"
  using assms by (simp add: zbuf_fits_def zbuf_need_space_def Let_def) linarith

text \<open>The remaining capacity after \<open>zbuf_need_space\<close> is at least the requested amount, and it can
  be exactly that amount, although the header documents that the remaining capacity becomes greater
  than the request.\<close>

theorem zbuf_need_space_not_greater:
  "(\<forall>bf need. zbuf_ok bf \<longrightarrow> \<not> zb_static bf \<longrightarrow> need \<le> snd (zbuf_need_space bf need))
   \<and> snd (zbuf_need_space (zbuf_init 1) 5) = 5"
proof (intro conjI allI impI)
  fix bf need
  assume a: "zbuf_ok bf" "\<not> zb_static bf"
  then show "need \<le> snd (zbuf_need_space bf need)"
    using zbuf_need_space_facts(7) [OF a(1)] by (metis prod.collapse)
qed (simp add: zbuf_need_space_def zbuf_init_def)

text \<open>\<open>zbuf_trim_right_rn\<close> removes exactly the trailing line feeds and carriage returns and
  keeps the buffer well-formed and terminated.\<close>

theorem zbuf_trim_right_rn_spec:
  assumes "zbuf_ok bf"
  shows "writes bf (zbuf_trim_right_rn bf)
    (rev (dropWhile (\<lambda>b. b = 10 \<or> b = 13) (rev (zbuf_bytes bf))))"
  using assms by (rule zbuf_trim_right_rn_writes)

end
