(* ===== verification/Base64.thy ===== *)
theory Base64
  imports Buf
begin

text \<open>
  Base64 (\<open>src/encode/base64.c\<close>): the encoder with its optional MIME line folding, the
  permissive decoder, and the two length functions. The encoder and the decoder write on a
  buffer of theory \<open>Buf\<close>, one \<open>zbuf_put\<close> per byte, as the C loops do. The position
  variable \<open>src_pos\<close> of a loop is the list of bytes still to be read.

  All arithmetic is on bytes: the C expressions are computed in \<open>int\<close> and their values fit a
  byte, or are cut to one by the assignment to an \<open>unsigned char\<close>.
\<close>

section \<open>Tables\<close>

definition b64enc :: bytes where
  "b64enc = cstr ''ABCDEFGHIJKLMNOPQRSTUVWXYZabcdefghijklmnopqrstuvwxyz0123456789+/''"

definition zvar_base64_decode_table :: bytes where
  "zvar_base64_decode_table =
    [255, 255, 255, 255, 255, 255, 255, 255, 255, 255, 255, 255, 255, 255, 255, 255,
     255, 255, 255, 255, 255, 255, 255, 255, 255, 255, 255, 255, 255, 255, 255, 255,
     255, 255, 255, 255, 255, 255, 255, 255, 255, 255, 255, 62, 255, 255, 255, 63,
     52, 53, 54, 55, 56, 57, 58, 59, 60, 61, 255, 255, 255, 255, 255, 255,
     255, 0, 1, 2, 3, 4, 5, 6, 7, 8, 9, 10, 11, 12, 13, 14,
     15, 16, 17, 18, 19, 20, 21, 22, 23, 24, 25, 255, 255, 255, 255, 255,
     255, 26, 27, 28, 29, 30, 31, 32, 33, 34, 35, 36, 37, 38, 39, 40,
     41, 42, 43, 44, 45, 46, 47, 48, 49, 50, 51, 255, 255, 255, 255, 255,
     255, 255, 255, 255, 255, 255, 255, 255, 255, 255, 255, 255, 255, 255, 255, 255,
     255, 255, 255, 255, 255, 255, 255, 255, 255, 255, 255, 255, 255, 255, 255, 255,
     255, 255, 255, 255, 255, 255, 255, 255, 255, 255, 255, 255, 255, 255, 255, 255,
     255, 255, 255, 255, 255, 255, 255, 255, 255, 255, 255, 255, 255, 255, 255, 255,
     255, 255, 255, 255, 255, 255, 255, 255, 255, 255, 255, 255, 255, 255, 255, 255,
     255, 255, 255, 255, 255, 255, 255, 255, 255, 255, 255, 255, 255, 255, 255, 255,
     255, 255, 255, 255, 255, 255, 255, 255, 255, 255, 255, 255, 255, 255, 255, 255,
     255, 255, 255, 255, 255, 255, 255, 255, 255, 255, 255, 255, 255, 255, 255, 255]"

definition b64_char :: "byte \<Rightarrow> byte" where
  "b64_char i = b64enc ! unat i"

definition b64_val :: "byte \<Rightarrow> byte" where
  "b64_val c = zvar_base64_decode_table ! unat c"

section \<open>Encoder\<close>

text \<open>The four characters of one turn of the loop, by the number of bytes left.\<close>

fun b64_quad :: "bytes \<Rightarrow> bytes" where
  "b64_quad [] = []"
| "b64_quad [a] =
     [b64_char (drop_bit 2 a), b64_char (push_bit 4 (a AND 3)), ch CHR ''='', ch CHR ''='']"
| "b64_quad [a, b] =
     [b64_char (drop_bit 2 a),
      b64_char (push_bit 4 (a AND 3) OR drop_bit 4 b),
      b64_char (push_bit 2 (b AND 15)), ch CHR ''='']"
| "b64_quad (a # b # c # _) =
     [b64_char (drop_bit 2 a),
      b64_char (push_bit 4 (a AND 3) OR drop_bit 4 b),
      b64_char (push_bit 2 (b AND 15) OR drop_bit 6 (c AND 192)),
      b64_char (c AND 63)]"

text \<open>One turn: put the four characters, and after every 19th turn of a MIME text a CRLF.\<close>

definition b64_fold :: "bool \<Rightarrow> nat \<Rightarrow> nat \<times> bytes" where
  "b64_fold mime_flag mime_count =
     (if mime_flag then (if mime_count + 1 = 19 then (0, [13, 10]) else (mime_count + 1, []))
      else (mime_count, []))"

function zbase64_encode_loop :: "zbuf \<Rightarrow> bytes \<Rightarrow> bool \<Rightarrow> nat \<Rightarrow> zbuf" where
  "zbase64_encode_loop str src mime_flag mime_count =
     (if src = [] then str
      else let str1 = foldl zbuf_put str (b64_quad src);
               (count', crlf) = b64_fold mime_flag mime_count;
               str2 = foldl zbuf_put str1 crlf
           in zbase64_encode_loop str2 (drop 3 src) mime_flag count')"
  by pat_completeness auto
termination
  by (relation "measure (\<lambda>(_, src, _, _). length src)") auto

declare zbase64_encode_loop.simps [simp del]

definition zbase64_encode :: "bytes \<Rightarrow> int \<Rightarrow> zbuf \<Rightarrow> bool \<Rightarrow> zbuf" where
  "zbase64_encode src src_size str mime_flag =
     zbuf_terminate (zbase64_encode_loop str (src_bytes src src_size) mime_flag 0)"

section \<open>Decoder\<close>

text \<open>
  The macro \<open>___get_next_ch\<close>: skip blanks and line ends, and a percent sign with the two bytes
  after it. At the end of the input it yields \<open>'='\<close> when \<open>br\<close> is set and leaves the function
  otherwise (\<open>None\<close>).
\<close>

function b64_next_ch :: "bool \<Rightarrow> bytes \<Rightarrow> (byte \<times> bytes) option" where
  "b64_next_ch br src =
     (case src of
        [] \<Rightarrow> if br then Some (ch CHR ''='', []) else None
      | c # rest \<Rightarrow>
          if c = ch CHR '' '' \<or> c = 13 \<or> c = 10 then b64_next_ch br rest
          else if c = ch CHR ''%'' then b64_next_ch br (drop 2 rest)
          else Some (c, rest))"
  by pat_completeness auto
termination
  by (relation "measure (\<lambda>(_, src). length src)") auto

declare b64_next_ch.simps [simp del]

text \<open>
  The four reads of one turn. \<open>src_pos\<close> may pass the end after a percent sign, which the code
  treats as the end.
\<close>

definition b64_read4 :: "bytes \<Rightarrow> (byte \<times> byte \<times> byte \<times> byte \<times> bytes) option" where
  "b64_read4 src =
     (case b64_next_ch False src of None \<Rightarrow> None | Some (c0, s0) \<Rightarrow>
      (case b64_next_ch False s0 of None \<Rightarrow> None | Some (c1, s1) \<Rightarrow>
       (case b64_next_ch True s1 of None \<Rightarrow> None | Some (c2, s2) \<Rightarrow>
        (case b64_next_ch True s2 of None \<Rightarrow> None | Some (c3, s3) \<Rightarrow>
          Some (c0, c1, c2, c3, s3)))))"

text \<open>
  What one turn does with its four characters: give up (\<open>break\<close> with \<open>ret = -1\<close>), or put some
  bytes and go on. A padded group ends the inner loop with \<open>ret = 1\<close>, after which \<open>retry\<close>
  starts it again on what is left: both continue with the rest of the input.
\<close>

datatype b64_step = B64_stop | B64_put bytes

definition b64_group :: "byte \<Rightarrow> byte \<Rightarrow> byte \<Rightarrow> byte \<Rightarrow> b64_step" where
  "b64_group c0 c1 c2 c3 =
     (let i0 = b64_val c0; i1 = b64_val c1; i2 = b64_val c2; i3 = b64_val c3 in
      if i0 = 255 then B64_stop
      else if i1 = 255 then B64_stop
      else let o0 = push_bit 2 i0 OR drop_bit 4 i1 in
        if i2 = 255 then
          (if c2 \<noteq> ch CHR ''='' \<or> c3 \<noteq> ch CHR ''='' then B64_stop else B64_put [o0])
        else let o1 = push_bit 4 i1 OR drop_bit 2 i2 in
          if i3 = 255 then
            (if c3 \<noteq> ch CHR ''='' then B64_stop else B64_put [o0, o1])
          else B64_put [o0, o1, (push_bit 6 i2 AND 192) OR i3])"

lemma b64_next_ch_length: "b64_next_ch br src = Some (c, rest) \<Longrightarrow> length rest \<le> length src"
proof (induction br src rule: b64_next_ch.induct)
  case (1 br src)
  then show ?case
    by (subst (asm) (3) b64_next_ch.simps) (fastforce split: list.splits if_splits)
qed

lemma b64_next_ch_shrinks:
  "b64_next_ch False src = Some (c, rest) \<Longrightarrow> length rest < length src"
proof (induction False src rule: b64_next_ch.induct)
  case (1 src)
  then show ?case
    by (subst (asm) (3) b64_next_ch.simps) (fastforce split: list.splits if_splits)
qed

lemma b64_read4_shrinks:
  assumes "b64_read4 src = Some (c0, c1, c2, c3, rest)"
  shows "length rest < length src"
proof -
  from assms obtain s0 s1 s2 where "b64_next_ch False src = Some (c0, s0)"
    and "b64_next_ch False s0 = Some (c1, s1)" and "b64_next_ch True s1 = Some (c2, s2)"
    and "b64_next_ch True s2 = Some (c3, rest)"
    by (auto simp: b64_read4_def split: option.splits)
  then show ?thesis
    using b64_next_ch_shrinks [of src] b64_next_ch_length by (meson le_less_trans)
qed

function zbase64_decode_loop :: "zbuf \<Rightarrow> bytes \<Rightarrow> zbuf" where
  "zbase64_decode_loop str src =
     (if src = [] then str
      else case b64_read4 src of
        None \<Rightarrow> str
      | Some (c0, c1, c2, c3, rest) \<Rightarrow>
          (case b64_group c0 c1 c2 c3 of
             B64_stop \<Rightarrow> str
           | B64_put out \<Rightarrow> zbase64_decode_loop (foldl zbuf_put str out) rest))"
  by pat_completeness auto
termination
  by (relation "measure (\<lambda>(_, src). length src)") (auto dest: b64_read4_shrinks)

declare zbase64_decode_loop.simps [simp del]

definition zbase64_decode :: "bytes \<Rightarrow> int \<Rightarrow> zbuf \<Rightarrow> zbuf" where
  "zbase64_decode src src_size str =
     zbuf_terminate (zbase64_decode_loop str (src_bytes src src_size))"

section \<open>Lengths\<close>

fun b64_valid_from :: "bytes \<Rightarrow> nat \<Rightarrow> nat" where
  "b64_valid_from [] i = i"
| "b64_valid_from (c # src) i =
     (if c = 13 \<or> c = 10 \<or> c = ch CHR ''='' then b64_valid_from src (i + 1)
      else if b64_val c = 255 then i
      else b64_valid_from src (i + 1))"

definition zbase64_decode_get_valid_len :: "bytes \<Rightarrow> int \<Rightarrow> nat" where
  "zbase64_decode_get_valid_len src src_size = b64_valid_from (src_bytes src src_size) 0"

definition zbase64_encode_get_min_len :: "nat \<Rightarrow> bool \<Rightarrow> nat" where
  "zbase64_encode_get_min_len in_len mime_flag =
     (let ret = in_len * 4 div 3 + 4;
          ret = (if mime_flag then ret + ((in_len div (76 * 3 div 4)) + 1) * 2 + 2 else ret)
      in ret + 1)"

section \<open>The table and the alphabet\<close>

definition b64_codes :: "nat list" where
  "b64_codes = [65..<91] @ [97..<123] @ [48..<58] @ [43, 47]"

lemma b64enc_codes: "map unat b64enc = b64_codes"
  by (simp add: b64enc_def b64_codes_def cstr_def ch_def upt_rec)

lemma decode_table_codes: "map ((!) zvar_base64_decode_table) b64_codes = map of_nat [0..<64]"
  by (simp add: zvar_base64_decode_table_def b64_codes_def upt_rec)

lemma length_b64_codes [simp]: "length b64_codes = 64"
  by (simp add: b64_codes_def)

lemma unat_b64_char:
  assumes "i < 64"
  shows "unat (b64_char i) = b64_codes ! unat i"
proof -
  have "length b64enc = 64" using arg_cong [OF b64enc_codes, of length] by simp
  moreover have "unat i < 64" using assms by (simp add: word_less_nat_alt)
  ultimately have "map unat b64enc ! unat i = unat (b64_char i)" by (simp add: b64_char_def)
  then show ?thesis by (simp add: b64enc_codes)
qed

lemma b64_codes_set: "c \<in> set b64_codes \<Longrightarrow> c \<notin> {32, 13, 10, 37, 61}"
  by (auto simp: b64_codes_def)

lemma b64_char_facts:
  assumes "i < 64"
  shows "b64_val (b64_char i) = i" and "b64_char i \<noteq> ch CHR '' ''" and "b64_char i \<noteq> 13"
    and "b64_char i \<noteq> 10" and "b64_char i \<noteq> ch CHR ''%''" and "b64_char i \<noteq> ch CHR ''=''"
proof -
  from assms have n: "unat i < 64" by (simp add: word_less_nat_alt)
  have "map ((!) zvar_base64_decode_table) b64_codes ! unat i = map of_nat [0..<64] ! unat i"
    by (simp only: decode_table_codes)
  with n assms show "b64_val (b64_char i) = i"
    by (simp add: b64_val_def unat_b64_char)
  have "unat (b64_char i) \<in> set b64_codes" using n by (simp add: unat_b64_char [OF assms])
  from b64_codes_set [OF this]
  show "b64_char i \<noteq> ch CHR '' ''" and "b64_char i \<noteq> 13"
    and "b64_char i \<noteq> 10" and "b64_char i \<noteq> ch CHR ''%''" and "b64_char i \<noteq> ch CHR ''=''"
    by (auto simp: ch_def)
qed

lemma sextet_bounds [simp]:
  "drop_bit 2 (a :: byte) < 64" "push_bit 4 (a AND 3) < 64" "push_bit 2 (b AND 15 :: byte) < 64"
  "push_bit 4 (a AND 3) OR drop_bit 4 b < 64"
  "push_bit 2 (b AND 15) OR drop_bit 6 (c AND 192) < 64" "c AND 63 < 64"
  by (simp_all add: byte_bits)

text \<open>The bytes a group of sextets carries are the bytes the sextets were cut from.\<close>

lemma regroup:
  "push_bit 2 (drop_bit 2 a) OR drop_bit 4 (push_bit 4 (a AND 3) OR drop_bit 4 b) = (a :: byte)"
  "push_bit 2 (drop_bit 2 a) OR drop_bit 4 (push_bit 4 (a AND 3)) = (a :: byte)"
  "push_bit 4 (push_bit 4 (a AND 3) OR drop_bit 4 b)
     OR drop_bit 2 (push_bit 2 (b AND 15) OR drop_bit 6 (c AND 192)) = (b :: byte)"
  "push_bit 4 (push_bit 4 (a AND 3) OR drop_bit 4 b) OR drop_bit 2 (push_bit 2 (b AND 15)) = b"
  "(push_bit 6 (push_bit 2 (b AND 15) OR drop_bit 6 (c AND 192)) AND 192) OR (c AND 63) = c"
  by (simp_all add: byte_bits)

lemma sextet_not_255: "i < 64 \<Longrightarrow> i \<noteq> (255 :: byte)"
  by auto

lemma b64_val_pad: "b64_val (ch CHR ''='') = 255"
  by code_simp

section \<open>The text that is written\<close>

text \<open>The same recursions without the buffer: the text the encoder writes and the bytes the
  decoder writes.\<close>

function b64_text :: "bytes \<Rightarrow> bool \<Rightarrow> nat \<Rightarrow> bytes" where
  "b64_text src mime_flag mime_count =
     (if src = [] then []
      else b64_quad src @ snd (b64_fold mime_flag mime_count)
           @ b64_text (drop 3 src) mime_flag (fst (b64_fold mime_flag mime_count)))"
  by pat_completeness auto
termination
  by (relation "measure (\<lambda>(src, _, _). length src)") auto

function b64_plain :: "bytes \<Rightarrow> bytes" where
  "b64_plain src =
     (if src = [] then []
      else case b64_read4 src of
        None \<Rightarrow> []
      | Some (c0, c1, c2, c3, rest) \<Rightarrow>
          (case b64_group c0 c1 c2 c3 of B64_stop \<Rightarrow> [] | B64_put out \<Rightarrow> out @ b64_plain rest))"
  by pat_completeness auto
termination
  by (relation "measure length") (auto dest: b64_read4_shrinks)

declare b64_text.simps [simp del] b64_plain.simps [simp del]

lemma zbase64_encode_loop_foldl:
  "zbase64_encode_loop str src f k = foldl zbuf_put str (b64_text src f k)"
proof (induction str src f k rule: zbase64_encode_loop.induct)
  case (1 str src f k)
  then show ?case
    by (subst zbase64_encode_loop.simps, subst b64_text.simps) (simp add: split_beta Let_def)
qed

lemma zbase64_decode_loop_foldl: "zbase64_decode_loop str src = foldl zbuf_put str (b64_plain src)"
proof (induction str src rule: zbase64_decode_loop.induct)
  case (1 str src)
  then show ?case
    by (subst zbase64_decode_loop.simps, subst b64_plain.simps)
       (auto split: option.splits b64_step.splits)
qed

lemma zbase64_encode_writes:
  "zbuf_ok str \<Longrightarrow>
   writes str (zbase64_encode src n str f) (zbuf_bytes str @ b64_text (src_bytes src n) f 0)"
  by (simp add: zbase64_encode_def zbase64_encode_loop_foldl zbuf_puts_writes)

lemma zbase64_decode_writes:
  "zbuf_ok str \<Longrightarrow>
   writes str (zbase64_decode src n str) (zbuf_bytes str @ b64_plain (src_bytes src n))"
  by (simp add: zbase64_decode_def zbase64_decode_loop_foldl zbuf_puts_writes)

section \<open>Round trip\<close>

lemma b64_next_ch_char [simp]:
  "i < 64 \<Longrightarrow> b64_next_ch br (b64_char i # rest) = Some (b64_char i, rest)"
  by (subst b64_next_ch.simps) (simp add: b64_char_facts)

lemma b64_next_ch_pad [simp]:
  "b64_next_ch br (ch CHR ''='' # rest) = Some (ch CHR ''='', rest)"
  by (subst b64_next_ch.simps) (simp add: ch_def)

lemma b64_next_ch_crlf [simp]:
  "b64_next_ch br (13 # rest) = b64_next_ch br rest"
  "b64_next_ch br (10 # rest) = b64_next_ch br rest"
  by (subst b64_next_ch.simps, simp)+

lemma b64_plain_Nil [simp]: "b64_plain [] = []"
  by (simp add: b64_plain.simps)

lemma b64_read4_crlf [simp]: "b64_read4 (13 # 10 # rest) = b64_read4 rest"
  by (simp add: b64_read4_def)

lemma b64_plain_crlf: "b64_plain (13 # 10 # rest) = b64_plain rest"
proof (cases "rest = []")
  case True
  then show ?thesis
    by (simp add: b64_plain.simps [of "[13, 10]"] b64_read4_def b64_next_ch.simps [of False "[]"])
next
  case False
  then show ?thesis
    by (simp add: b64_plain.simps [of "13 # 10 # rest"] b64_plain.simps [of rest])
qed

lemma b64_plain_chars4:
  assumes "i0 < 64" "i1 < 64" "i2 < 64" "i3 < 64"
  shows "b64_plain (b64_char i0 # b64_char i1 # b64_char i2 # b64_char i3 # rest) =
    [push_bit 2 i0 OR drop_bit 4 i1, push_bit 4 i1 OR drop_bit 2 i2, (push_bit 6 i2 AND 192) OR i3]
    @ b64_plain rest"
  using assms
  by (subst b64_plain.simps)
     (simp add: b64_read4_def b64_group_def b64_char_facts sextet_not_255 Let_def)

lemma b64_plain_chars3:
  assumes "i0 < 64" "i1 < 64" "i2 < 64"
  shows "b64_plain (b64_char i0 # b64_char i1 # b64_char i2 # ch CHR ''='' # rest) =
    [push_bit 2 i0 OR drop_bit 4 i1, push_bit 4 i1 OR drop_bit 2 i2] @ b64_plain rest"
  using assms
  by (subst b64_plain.simps)
     (simp add: b64_read4_def b64_group_def b64_char_facts b64_val_pad sextet_not_255 Let_def)

lemma b64_plain_chars2:
  assumes "i0 < 64" "i1 < 64"
  shows "b64_plain (b64_char i0 # b64_char i1 # ch CHR ''='' # ch CHR ''='' # rest) =
    [push_bit 2 i0 OR drop_bit 4 i1] @ b64_plain rest"
  using assms
  by (subst b64_plain.simps)
     (simp add: b64_read4_def b64_group_def b64_char_facts b64_val_pad sextet_not_255 Let_def)

lemma b64_plain_quad:
  assumes "src \<noteq> []"
  shows "b64_plain (b64_quad src @ rest) = take 3 src @ b64_plain rest"
proof (cases src rule: b64_quad.cases)
  case 1
  with assms show ?thesis by simp
next
  case (2 a)
  then show ?thesis
    using b64_plain_chars2 [OF sextet_bounds(1,2), of a a rest] by (simp only: b64_quad.simps regroup) simp
next
  case (3 a b)
  then show ?thesis
    using b64_plain_chars3 [OF sextet_bounds(1,4,3), of a a b b rest]
    by (simp only: b64_quad.simps regroup) simp
next
  case (4 a b c r)
  then show ?thesis
    using b64_plain_chars4 [OF sextet_bounds(1,4,5,6), of a a b b c c rest]
    by (simp only: b64_quad.simps regroup) simp
qed

lemma b64_plain_fold: "b64_plain (snd (b64_fold f k) @ rest) = b64_plain rest"
  by (simp add: b64_fold_def b64_plain_crlf)

lemma b64_plain_text: "b64_plain (b64_text src f k) = src"
proof (induction src f k rule: b64_text.induct)
  case (1 src f k)
  then show ?case
    by (subst b64_text.simps) (simp add: b64_plain_quad b64_plain_fold)
qed

interpretation b64: codec "\<lambda>src. b64_text src f 0" b64_plain "\<lambda>_. True"
  by unfold_locales (rule b64_plain_text)

section \<open>Lengths\<close>

lemma length_b64_quad: "src \<noteq> [] \<Longrightarrow> length (b64_quad src) = 4"
  by (cases src rule: b64_quad.cases) auto

lemma quads_step:
  assumes "0 < n"
  shows "(n + 2) div 3 = Suc ((n - 3 + 2) div (3::nat))"
proof (cases "n < 3")
  case True
  with assms have "n = 1 \<or> n = 2" by auto
  then show ?thesis by auto
next
  case False
  then obtain m where "n = m + 3" by (metis add.commute le_Suc_ex not_less)
  then show ?thesis using div_add_self2 [of 3 "m + 2"] by (simp add: ac_simps)
qed

lemma length_b64_text:
  assumes "k < 19"
  shows "length (b64_text src f k) = 4 * ((length src + 2) div 3)
    + (if f then 2 * ((k + (length src + 2) div 3) div 19) else 0)"
  using assms
proof (induction src f k rule: b64_text.induct)
  case (1 src f k)
  show ?case
  proof (cases "src = []")
    case True
    with 1 show ?thesis by (subst b64_text.simps) simp
  next
    case False
    let ?k = "fst (b64_fold f k)"
    have "?k < 19" using "1.prems" by (auto simp: b64_fold_def)
    note IH = "1.IH" [OF False this]
    have q: "(length src + 2) div 3 = Suc ((length (drop 3 src) + 2) div 3)"
      using quads_step [of "length src"] False by simp
    show ?thesis
      using False "1.prems" IH
      by (subst b64_text.simps, unfold q) (cases f; cases "k = 18"; simp add: length_b64_quad b64_fold_def div_add_self1 [of "19 :: nat"])
  qed
qed

lemma min_len_suffices: "length (b64_text src f 0) < zbase64_encode_get_min_len (length src) f"
proof -
  let ?n = "length src"
  have "(?n + 2) div 3 div 19 = (?n + 2) div 57" by (simp add: div_mult2_eq [symmetric])
  also have "\<dots> \<le> (?n + 57) div 57" by (rule div_le_mono) simp
  finally have "(?n + 2) div 3 div 19 \<le> ?n div 57 + 1" by simp
  moreover have "4 * ((?n + 2) div 3) \<le> ?n * 4 div 3 + 4" by linarith
  ultimately show ?thesis
    by (simp add: length_b64_text zbase64_encode_get_min_len_def Let_def)
qed

definition b64_text_char :: "byte \<Rightarrow> bool" where
  "b64_text_char c \<longleftrightarrow> c \<in> {13, 10, ch CHR ''=''} \<or> b64_val c \<noteq> 255"

lemma b64_quad_text_char: "c \<in> set (b64_quad src) \<Longrightarrow> b64_text_char c"
  by (cases src rule: b64_quad.cases)
     (auto simp only: b64_quad.simps set_simps b64_text_char_def b64_char_facts sextet_bounds
       sextet_not_255 insert_iff empty_iff)

lemma b64_text_chars: "c \<in> set (b64_text src f k) \<Longrightarrow> b64_text_char c"
proof (induction src f k rule: b64_text.induct)
  case (1 src f k)
  then show ?case
    by (subst (asm) (2) b64_text.simps)
       (auto simp: b64_fold_def b64_text_char_def dest: b64_quad_text_char split: if_splits)
qed

lemma b64_valid_from_all: "\<forall>c \<in> set src. b64_text_char c \<Longrightarrow> b64_valid_from src i = i + length src"
  by (induction src i rule: b64_valid_from.induct) (auto simp: b64_text_char_def)

section \<open>Properties\<close>



text \<open>The length that \<open>zbase64_encode_get_min_len\<close> computes is enough: a static buffer with that
  many bytes, the terminating NUL included, receives the whole encoding, so decoding it gives the
  source back.\<close>

theorem base64_min_len_fits:
  assumes "zbase64_encode_get_min_len (length src) mime_flag \<le> n + 1"
    and "zbuf_ok b2" "zbuf_cap b2 = None"
    and "enc = zbuf_bytes (zbase64_encode src (int (length src)) (zstack_buf n) mime_flag)"
  shows "length enc \<le> n \<and>
    zbuf_bytes (zbase64_decode enc (int (length enc)) b2) = zbuf_bytes b2 @ src"
proof -
  have "length (b64_text src mime_flag 0) \<le> n"
    using min_len_suffices [of src mime_flag] assms(1) by linarith
  with zbase64_encode_writes [OF zbuf_ok_stack, of n src "int (length src)" mime_flag] assms(4)
  have t: "enc = b64_text src mime_flag 0" and "length enc \<le> n" by (simp_all add: writes_def)
  then show ?thesis
    using zbase64_decode_writes [OF assms(2), of enc "int (length enc)"] assms(3)
    by (simp add: writes_def b64.dec_enc)
qed

end
