(* ===== verification/TextEnc.thy ===== *)
theory TextEnc
  imports Buf
begin

text \<open>
  Hexadecimal, URL and quoted-printable encoding: \<open>src/encode/hex.c\<close> and
  \<open>src/encode/quoted_printable.c\<close>, with the digit table of \<open>src/stdlib/string.c\<close>. Every encoder
  writes to a \<open>zbuf\<close>; the functions named \<open>_text\<close> say what it writes.
\<close>

section \<open>Digits\<close>

definition dec2hex :: bytes where
  "dec2hex = cstr ''0123456789ABCDEF''"

definition zchar_xdigitval_vector :: "byte list" where
  "zchar_xdigitval_vector =
    [255, 255, 255, 255, 255, 255, 255, 255, 255, 255, 255, 255, 255, 255, 255, 255,
     255, 255, 255, 255, 255, 255, 255, 255, 255, 255, 255, 255, 255, 255, 255, 255,
     255, 255, 255, 255, 255, 255, 255, 255, 255, 255, 255, 255, 255, 255, 255, 255,
     0, 1, 2, 3, 4, 5, 6, 7, 8, 9, 255, 255, 255, 255, 255, 255,
     255, 10, 11, 12, 13, 14, 15, 255, 255, 255, 255, 255, 255, 255, 255, 255,
     255, 255, 255, 255, 255, 255, 255, 255, 255, 255, 255, 255, 255, 255, 255, 255,
     255, 10, 11, 12, 13, 14, 15, 255, 255, 255, 255, 255, 255, 255, 255, 255,
     255, 255, 255, 255, 255, 255, 255, 255, 255, 255, 255, 255, 255, 255, 255, 255,
     255, 255, 255, 255, 255, 255, 255, 255, 255, 255, 255, 255, 255, 255, 255, 255,
     255, 255, 255, 255, 255, 255, 255, 255, 255, 255, 255, 255, 255, 255, 255, 255,
     255, 255, 255, 255, 255, 255, 255, 255, 255, 255, 255, 255, 255, 255, 255, 255,
     255, 255, 255, 255, 255, 255, 255, 255, 255, 255, 255, 255, 255, 255, 255, 255,
     255, 255, 255, 255, 255, 255, 255, 255, 255, 255, 255, 255, 255, 255, 255, 255,
     255, 255, 255, 255, 255, 255, 255, 255, 255, 255, 255, 255, 255, 255, 255, 255,
     255, 255, 255, 255, 255, 255, 255, 255, 255, 255, 255, 255, 255, 255, 255, 255,
     255, 255, 255, 255, 255, 255, 255, 255, 255, 255, 255, 255, 255, 255, 255, 255]"

definition xdigit :: "byte \<Rightarrow> byte" where
  "xdigit c = zchar_xdigitval_vector ! unat c"

definition hex_hi :: "byte \<Rightarrow> byte" where
  "hex_hi b = dec2hex ! unat (drop_bit 4 b)"

definition hex_lo :: "byte \<Rightarrow> byte" where
  "hex_lo b = dec2hex ! unat (b AND 15)"

section \<open>\<open>hex.c\<close>\<close>

fun zhex_encode_loop :: "zbuf \<Rightarrow> bytes \<Rightarrow> zbuf" where
  "zhex_encode_loop str [] = str"
| "zhex_encode_loop str (b # src) = zhex_encode_loop (zbuf_put (zbuf_put str (hex_hi b)) (hex_lo b)) src"

definition zhex_encode :: "bytes \<Rightarrow> int \<Rightarrow> zbuf \<Rightarrow> zbuf" where
  "zhex_encode src src_size str = zbuf_terminate (zhex_encode_loop str (src_bytes src src_size))"

fun zhex_decode_loop :: "zbuf \<Rightarrow> bytes \<Rightarrow> zbuf" where
  "zhex_decode_loop str (l # r # src) =
     zhex_decode_loop (zbuf_put str (push_bit 4 (xdigit l) OR xdigit r)) src"
| "zhex_decode_loop str _ = str"

definition zhex_decode :: "bytes \<Rightarrow> int \<Rightarrow> zbuf \<Rightarrow> zbuf" where
  "zhex_decode src src_size str = zbuf_terminate (zhex_decode_loop str (src_bytes src src_size))"

text \<open>\<open>zurl_hex_decode\<close> reads through a \<open>char *\<close> and indexes the table with the signed value: a byte
  above 127 after a percent sign reads before the table, which is \<open>None\<close> here. The digits are
  \<open>int\<close>s read from an \<open>unsigned char\<close> table and are compared with -1.\<close>

fun zurl_hex_decode_loop :: "zbuf \<Rightarrow> bytes \<Rightarrow> zbuf option" where
  "zurl_hex_decode_loop str [] = Some str"
| "zurl_hex_decode_loop str (c # src) =
     (if c = ch CHR ''%'' then
        (case src of
           c1 # c2 # rest \<Rightarrow>
             if c1 > 127 \<or> c2 > 127 then None
             else let l = uint (xdigit c1); r = uint (xdigit c2) in
               zurl_hex_decode_loop
                 (if l \<noteq> - 1 \<and> r \<noteq> - 1 then zbuf_put str (word_of_int (l * 16 + r)) else str) rest
         | _ \<Rightarrow> Some str)
      else zurl_hex_decode_loop (zbuf_put str c) src)"

definition zurl_hex_decode :: "bytes \<Rightarrow> int \<Rightarrow> zbuf \<Rightarrow> zbuf option" where
  "zurl_hex_decode src src_size str = map_option zbuf_terminate (zurl_hex_decode_loop str (src_bytes src src_size))"

definition isalnum :: "byte \<Rightarrow> bool" where
  "isalnum c \<longleftrightarrow> ch CHR ''0'' \<le> c \<and> c \<le> ch CHR ''9'' \<or> ch CHR ''A'' \<le> c \<and> c \<le> ch CHR ''Z''
     \<or> ch CHR ''a'' \<le> c \<and> c \<le> ch CHR ''z''"

definition put_percent :: "zbuf \<Rightarrow> byte \<Rightarrow> zbuf" where
  "put_percent str c = zbuf_put (zbuf_put (zbuf_put str (ch CHR ''%'')) (hex_hi c)) (hex_lo c)"

text \<open>\<open>strchr\<close> also finds the terminating NUL of the literal.\<close>

fun zurl_hex_encode_loop :: "zbuf \<Rightarrow> bytes \<Rightarrow> bool \<Rightarrow> zbuf" where
  "zurl_hex_encode_loop str [] strict_flag = str"
| "zurl_hex_encode_loop str (c # src) strict_flag =
     zurl_hex_encode_loop
       (if c = ch CHR '' '' then zbuf_strcat str (cstr ''%20'' @ [0])
        else if isalnum c then zbuf_put str c
        else if strict_flag then put_percent str c
        else if c > 127 then zbuf_put str c
        else if c \<in> set (cstr ''._-'' @ [0]) then zbuf_put str c
        else put_percent str c) src strict_flag"

definition zurl_hex_encode :: "bytes \<Rightarrow> int \<Rightarrow> zbuf \<Rightarrow> bool \<Rightarrow> zbuf" where
  "zurl_hex_encode src src_size str strict_flag =
     zbuf_terminate (zurl_hex_encode_loop str (src_bytes src src_size) strict_flag)"

section \<open>\<open>quoted_printable.c\<close>\<close>

definition put_qp :: "zbuf \<Rightarrow> byte \<Rightarrow> zbuf" where
  "put_qp str c = zbuf_put (zbuf_put (zbuf_put str (ch CHR ''='')) (hex_hi c)) (hex_lo c)"

definition qp_plain :: "byte \<Rightarrow> bool" where
  "qp_plain c \<longleftrightarrow> 33 \<le> c \<and> c \<le> 126 \<and> c \<noteq> ch CHR ''=''"

fun zqp_encode_2045_loop :: "zbuf \<Rightarrow> bytes \<Rightarrow> bool \<Rightarrow> nat \<Rightarrow> zbuf" where
  "zqp_encode_2045_loop str [] mime_flag col_count = str"
| "zqp_encode_2045_loop str (c # src) mime_flag col_count =
     (let plain = (c = ch CHR '' '' \<or> qp_plain c);
          str1 = (if plain then zbuf_put str c else put_qp str c);
          col1 = (if plain then col_count + 1 else col_count + 3)
      in if col1 > 76
         then zqp_encode_2045_loop (if mime_flag then zbuf_strcat str1 [ch CHR ''='', 13, 10, 0] else str1) src mime_flag 0
         else zqp_encode_2045_loop str1 src mime_flag col1)"

definition zqp_encode_2045 :: "bytes \<Rightarrow> int \<Rightarrow> zbuf \<Rightarrow> bool \<Rightarrow> zbuf" where
  "zqp_encode_2045 src src_size str mime_flag = zqp_encode_2045_loop str (src_bytes src src_size) mime_flag 0"

fun zqp_encode_2047_loop :: "zbuf \<Rightarrow> bytes \<Rightarrow> zbuf" where
  "zqp_encode_2047_loop str [] = str"
| "zqp_encode_2047_loop str (c # src) =
     zqp_encode_2047_loop
       (if c = ch CHR '' '' then zbuf_put (zbuf_put str c) (ch CHR ''_'')
        else if qp_plain c then zbuf_put str c
        else put_qp str c) src"

definition zqp_encode_2047 :: "bytes \<Rightarrow> int \<Rightarrow> zbuf \<Rightarrow> zbuf" where
  "zqp_encode_2047 src src_size str = zqp_encode_2047_loop str (src_bytes src src_size)"

text \<open>The decoders: the end of the input inside an escape ends the loop.\<close>

fun zqp_decode_2045_loop :: "zbuf \<Rightarrow> bytes \<Rightarrow> zbuf" where
  "zqp_decode_2045_loop str [] = str"
| "zqp_decode_2045_loop str (c0 # src) =
     (if c0 \<noteq> ch CHR ''='' then zqp_decode_2045_loop (zbuf_put str c0) src
      else case src of
        [] \<Rightarrow> str
      | c1 # s1 \<Rightarrow>
          (case s1 of
             [] \<Rightarrow> str
           | c2 # s2 \<Rightarrow>
               if c1 = 13 \<or> c1 = 10
               then zqp_decode_2045_loop str (if c2 \<noteq> 13 \<and> c2 \<noteq> 10 then c2 # s2 else s2)
               else zqp_decode_2045_loop (zbuf_put str (push_bit 4 (xdigit c1) OR xdigit c2)) s2))"

definition zqp_decode_2045 :: "bytes \<Rightarrow> int \<Rightarrow> zbuf \<Rightarrow> zbuf" where
  "zqp_decode_2045 src src_size str = zbuf_terminate (zqp_decode_2045_loop str (src_bytes src src_size))"

fun zqp_decode_2047_loop :: "zbuf \<Rightarrow> bytes \<Rightarrow> zbuf" where
  "zqp_decode_2047_loop str [] = str"
| "zqp_decode_2047_loop str (c0 # src) =
     (if c0 = ch CHR ''_'' then zqp_decode_2047_loop (zbuf_put str (ch CHR '' '')) src
      else if c0 \<noteq> ch CHR ''='' then zqp_decode_2047_loop (zbuf_put str c0) src
      else case src of
        c1 # c2 # rest \<Rightarrow> zqp_decode_2047_loop (zbuf_put str (push_bit 4 (xdigit c1) OR xdigit c2)) rest
      | _ \<Rightarrow> str)"

definition zqp_decode_2047 :: "bytes \<Rightarrow> int \<Rightarrow> zbuf \<Rightarrow> zbuf" where
  "zqp_decode_2047 src src_size str = zbuf_terminate (zqp_decode_2047_loop str (src_bytes src src_size))"

fun zqp_valid_from :: "bytes \<Rightarrow> nat \<Rightarrow> nat" where
  "zqp_valid_from [] i = i"
| "zqp_valid_from (c # src) i = (if c < 33 \<or> c > 126 then i else zqp_valid_from src (i + 1))"

definition zqp_decode_get_valid_len :: "bytes \<Rightarrow> int \<Rightarrow> nat" where
  "zqp_decode_get_valid_len src src_size = zqp_valid_from (src_bytes src src_size) 0"

section \<open>Facts on digits\<close>

lemma dec2hex_digits: "map ((!) zchar_xdigitval_vector) (map unat dec2hex) = map of_nat [0..<16]"
  by (simp add: zchar_xdigitval_vector_def dec2hex_def cstr_def ch_def upt_rec)

lemma dec2hex_codes: "map unat dec2hex = [48..<58] @ [65..<71]"
  by (simp add: dec2hex_def cstr_def ch_def upt_rec)

lemma length_dec2hex [simp]: "length dec2hex = 16"
  by (simp add: dec2hex_def cstr_def)

lemma xdigit_dec2hex:
  assumes "n < 16"
  shows "xdigit (dec2hex ! n) = of_nat n"
proof -
  have "map ((!) zchar_xdigitval_vector) (map unat dec2hex) ! n = map of_nat [0..<16] ! n"
    by (simp only: dec2hex_digits)
  with assms show ?thesis by (simp add: xdigit_def)
qed

lemma dec2hex_in: "n < 16 \<Longrightarrow> unat (dec2hex ! n) \<in> {48..57} \<union> {65..70}"
proof -
  assume n: "n < 16"
  then have "map unat dec2hex ! n \<in> set ([48..<58] @ [65..<71])"
    unfolding dec2hex_codes [symmetric] by (intro nth_mem) simp
  with n show ?thesis by auto
qed

lemma low_nibble: "b AND 15 = b mod (16 :: byte)"
  using take_bit_eq_mask [of 4 b] by (simp add: mask_eq_exp_minus_1 take_bit_eq_mod)

lemma nibble_bounds: "unat (drop_bit 4 (b :: byte)) < 16" "unat (b AND 15) < 16"
proof -
  show "unat (drop_bit 4 b) < 16"
    using unat_byte_less [of b] by (simp add: drop_bit_eq_div unat_div less_mult_imp_div_less)
  show "unat (b AND 15) < 16" by (simp add: low_nibble unat_mod)
qed

lemma xdigit_hex [simp]: "xdigit (hex_hi b) = drop_bit 4 b" "xdigit (hex_lo b) = b AND 15"
  using nibble_bounds [of b] by (simp_all add: hex_hi_def hex_lo_def xdigit_dec2hex)

lemma nibbles [simp]: "push_bit 4 (drop_bit 4 b) OR (b AND 15) = (b :: byte)"
  by (simp add: byte_bits)

lemma hex_small: "unat (hex_hi b) \<in> {48..57} \<union> {65..70}" "unat (hex_lo b) \<in> {48..57} \<union> {65..70}"
  unfolding hex_hi_def hex_lo_def using dec2hex_in nibble_bounds by blast+

section \<open>What the loops write\<close>

definition hex_text :: "bytes \<Rightarrow> bytes" where
  "hex_text src = concat (map (\<lambda>b. [hex_hi b, hex_lo b]) src)"

fun hex_plain :: "bytes \<Rightarrow> bytes" where
  "hex_plain (l # r # src) = (push_bit 4 (xdigit l) OR xdigit r) # hex_plain src"
| "hex_plain _ = []"

lemma zhex_encode_loop_foldl: "zhex_encode_loop str src = foldl zbuf_put str (hex_text src)"
  by (induction str src rule: zhex_encode_loop.induct) (simp_all add: hex_text_def)

lemma zhex_decode_loop_foldl: "zhex_decode_loop str src = foldl zbuf_put str (hex_plain src)"
  by (induction str src rule: zhex_decode_loop.induct) simp_all

lemma zhex_encode_writes:
  "zbuf_ok str \<Longrightarrow> writes str (zhex_encode src n str) (zbuf_bytes str @ hex_text (src_bytes src n))"
  by (simp add: zhex_encode_def zhex_encode_loop_foldl zbuf_puts_writes)

lemma zhex_decode_writes:
  "zbuf_ok str \<Longrightarrow> writes str (zhex_decode src n str) (zbuf_bytes str @ hex_plain (src_bytes src n))"
  by (simp add: zhex_decode_def zhex_decode_loop_foldl zbuf_puts_writes)

lemma hex_plain_text: "hex_plain (hex_text src) = src"
  by (induction src) (simp_all add: hex_text_def)

interpretation hex: codec hex_text hex_plain "\<lambda>_. True"
  by unfold_locales (rule hex_plain_text)

subsection \<open>URL\<close>

definition percent :: "byte \<Rightarrow> bytes" where
  "percent c = [ch CHR ''%'', hex_hi c, hex_lo c]"

definition url_char :: "bool \<Rightarrow> byte \<Rightarrow> bytes" where
  "url_char strict_flag c =
     (if c \<noteq> 32 \<and> (isalnum c \<or> \<not> strict_flag \<and> (c > 127 \<or> c \<in> set (cstr ''._-'' @ [0]))) then [c]
      else percent c)"

definition url_text :: "bool \<Rightarrow> bytes \<Rightarrow> bytes" where
  "url_text strict_flag src = concat (map (url_char strict_flag) src)"

fun url_plain :: "bytes \<Rightarrow> bytes option" where
  "url_plain [] = Some []"
| "url_plain (c # src) =
     (if c = ch CHR ''%'' then
        (case src of
           c1 # c2 # rest \<Rightarrow>
             if c1 > 127 \<or> c2 > 127 then None
             else map_option ((#) (word_of_int (uint (xdigit c1) * 16 + uint (xdigit c2)))) (url_plain rest)
         | _ \<Rightarrow> Some [])
      else map_option ((#) c) (url_plain src))"

lemma appends_percent: "zbuf_ok str \<Longrightarrow> appends str (put_percent str c) (percent c)"
  using appends_puts [of str "percent c"] by (simp add: put_percent_def percent_def)

lemma percent_space: "percent 32 = cstr ''%20''"
  by (simp add: percent_def hex_hi_def hex_lo_def dec2hex_def cstr_def ch_def)

lemma appends_url_char:
  "zbuf_ok str \<Longrightarrow> appends str
       (if c = ch CHR '' '' then zbuf_strcat str (cstr ''%20'' @ [0])
        else if isalnum c then zbuf_put str c
        else if strict_flag then put_percent str c
        else if c > 127 then zbuf_put str c
        else if c \<in> set (cstr ''._-'' @ [0]) then zbuf_put str c
        else put_percent str c) (url_char strict_flag c)"
  using appends_strcat [of str "cstr ''%20'' @ [0]"] appends_put [of str c] appends_percent [of str c]
  by (auto simp: url_char_def percent_space src_bytes_def cstr_def ch_def)

lemma zurl_hex_encode_loop_appends:
  "zbuf_ok str \<Longrightarrow> appends str (zurl_hex_encode_loop str src strict_flag) (url_text strict_flag src)"
proof (induction src arbitrary: str)
  case Nil
  then show ?case by (simp add: url_text_def appends_Nil)
next
  case (Cons c src)
  note step = appends_url_char [OF Cons.prems, of c strict_flag]
  show ?case
    using appends_trans [OF step Cons.IH [OF appends_ok [OF step]]]
    by (simp only: zurl_hex_encode_loop.simps) (simp add: url_text_def)
qed

lemma uint_not_minus_one [simp]: "uint (b :: byte) \<noteq> - 1"
  using unsigned_greater_eq [of b] by (metis neg_0_le_iff_le not_one_le_zero)

lemma zurl_hex_decode_loop_foldl:
  "zurl_hex_decode_loop str src = map_option (foldl zbuf_put str) (url_plain src)"
  by (induction str src rule: zurl_hex_decode_loop.induct)
     (auto split: list.splits simp: Let_def option.map_comp comp_def)

lemma zurl_hex_encode_writes:
  "zbuf_ok str \<Longrightarrow> writes str (zurl_hex_encode src n str strict_flag)
     (zbuf_bytes str @ url_text strict_flag (src_bytes src n))"
  unfolding zurl_hex_encode_def by (intro appends_writes zurl_hex_encode_loop_appends)

lemma nibble_sum: "word_of_int (uint (drop_bit 4 b) * 16 + uint (b AND 15)) = (b :: byte)"
  using div_mult_mod_eq [of b 16] by (simp add: low_nibble drop_bit_eq_div)

lemma hex_small_word [simp]: "\<not> hex_hi b > 127" "\<not> hex_lo b > 127"
  using hex_small [of b] by (auto simp: word_less_nat_alt)

lemma url_char_plain:
  "url_plain (url_char strict_flag c @ rest) = map_option ((#) c) (url_plain rest)"
  by (simp add: url_char_def percent_def nibble_sum del: of_int_add of_int_mult)
     (auto simp: isalnum_def cstr_def ch_def)

lemma url_plain_text: "url_plain (url_text strict_flag src) = Some src"
  by (induction src) (simp_all add: url_text_def url_char_plain)

subsection \<open>Quoted printable\<close>

definition qp_escape :: "byte \<Rightarrow> bytes" where
  "qp_escape c = [ch CHR ''='', hex_hi c, hex_lo c]"

fun qp45_text :: "bytes \<Rightarrow> bool \<Rightarrow> nat \<Rightarrow> bytes" where
  "qp45_text [] mime_flag col = []"
| "qp45_text (c # src) mime_flag col =
     (let enc = (if c = 32 \<or> qp_plain c then [c] else qp_escape c); col1 = col + length enc in
      enc @ (if col1 > 76 then (if mime_flag then [ch CHR ''='', 13, 10] else []) @ qp45_text src mime_flag 0
             else qp45_text src mime_flag col1))"

fun qp45_plain :: "bytes \<Rightarrow> bytes" where
  "qp45_plain [] = []"
| "qp45_plain (c0 # src) =
     (if c0 \<noteq> ch CHR ''='' then c0 # qp45_plain src
      else case src of
        c1 # c2 # s2 \<Rightarrow>
          if c1 = 13 \<or> c1 = 10 then qp45_plain (if c2 \<noteq> 13 \<and> c2 \<noteq> 10 then c2 # s2 else s2)
          else (push_bit 4 (xdigit c1) OR xdigit c2) # qp45_plain s2
      | _ \<Rightarrow> [])"

definition qp47_text :: "bytes \<Rightarrow> bytes" where
  "qp47_text src = concat (map (\<lambda>c. if c = 32 then [32, ch CHR ''_''] else if qp_plain c then [c] else qp_escape c) src)"

fun qp47_plain :: "bytes \<Rightarrow> bytes" where
  "qp47_plain [] = []"
| "qp47_plain (c0 # src) =
     (if c0 = ch CHR ''_'' then 32 # qp47_plain src
      else if c0 \<noteq> ch CHR ''='' then c0 # qp47_plain src
      else case src of
        c1 # c2 # rest \<Rightarrow> (push_bit 4 (xdigit c1) OR xdigit c2) # qp47_plain rest
      | _ \<Rightarrow> [])"

lemma ch_space [simp]: "ch CHR '' '' = 32"
  by (simp add: ch_def)

lemma put_qp_foldl: "put_qp str c = foldl zbuf_put str (qp_escape c)"
  by (simp add: put_qp_def qp_escape_def)

lemma zqp_encode_2045_loop_appends:
  "zbuf_ok str \<Longrightarrow> appends str (zqp_encode_2045_loop str src mime_flag col) (qp45_text src mime_flag col)"
proof (induction src arbitrary: str col)
  case Nil
  then show ?case by (simp add: appends_Nil)
next
  case (Cons c src)
  let ?plain = "c = 32 \<or> qp_plain c"
  let ?enc = "if ?plain then [c] else qp_escape c"
  let ?s1 = "if ?plain then zbuf_put str c else put_qp str c"
  let ?col = "if ?plain then col + 1 else col + 3"
  let ?s2 = "if mime_flag then zbuf_strcat ?s1 [ch CHR ''='', 13, 10, 0] else ?s1"
  have s1: "appends str ?s1 ?enc"
    using appends_puts [OF Cons.prems, of "qp_escape c"] appends_put [OF Cons.prems, of c]
    by (simp add: put_qp_foldl)
  note ok1 = appends_ok [OF s1]
  have s2: "appends ?s1 ?s2 (if mime_flag then [ch CHR ''='', 13, 10] else [])"
    using appends_strcat [OF ok1, of "[ch CHR ''='', 13, 10, 0]"] appends_Nil [OF ok1]
    by (simp add: src_bytes_def ch_def)
  have col: "col + length ?enc = ?col" by (simp add: qp_escape_def)
  show ?case
  proof (cases "?col > 76")
    case True
    from appends_trans [OF s1 appends_trans [OF s2 Cons.IH [OF appends_ok [OF s2], of 0]]]
    show ?thesis unfolding zqp_encode_2045_loop.simps qp45_text.simps Let_def col ch_space
      by (simp only: True if_True append_assoc)
  next
    case False
    from appends_trans [OF s1 Cons.IH [OF ok1, of ?col]]
    show ?thesis unfolding zqp_encode_2045_loop.simps qp45_text.simps Let_def col ch_space
      by (simp only: False if_False append_assoc)
  qed
qed

lemma zqp_decode_2045_loop_foldl: "zqp_decode_2045_loop str src = foldl zbuf_put str (qp45_plain src)"
proof (induction str src rule: zqp_decode_2045_loop.induct)
  case (2 str c0 src)
  show ?case
  proof (cases "c0 = ch CHR ''=''")
    case True
    show ?thesis
    proof (cases "\<exists>c1 c2 s2. src = c1 # c2 # s2")
      case True
      then obtain c1 c2 s2 where "src = c1 # c2 # s2" by blast
      with 2 \<open>c0 = _\<close> show ?thesis by simp
    next
      case False
      then show ?thesis using \<open>c0 = _\<close> by (auto split: list.splits)
    qed
  next
    case False
    with 2 show ?thesis by simp
  qed
qed simp

lemma zqp_encode_2047_loop_foldl: "zqp_encode_2047_loop str src = foldl zbuf_put str (qp47_text src)"
  by (induction str src rule: zqp_encode_2047_loop.induct) (simp_all add: qp47_text_def put_qp_foldl)

lemma zqp_decode_2047_loop_foldl: "zqp_decode_2047_loop str src = foldl zbuf_put str (qp47_plain src)"
  by (induction str src rule: zqp_decode_2047_loop.induct) (simp_all split: list.splits)

lemma hex_not_crlf [simp]: "hex_hi b \<noteq> 13" "hex_hi b \<noteq> 10"
  using hex_small [of b] by (auto simp: word_unat_eq_iff)

lemma qp45_plain_text: "qp45_plain (qp45_text src mime_flag col) = src"
proof (induction src mime_flag col rule: qp45_text.induct)
  case (2 c src mime_flag col)
  have soft: "qp45_plain (ch CHR ''='' # 13 # 10 # rest) = qp45_plain rest" for rest by simp
  have step: "qp45_plain ((if c = 32 \<or> qp_plain c then [c] else qp_escape c) @ rest) = c # qp45_plain rest" for rest
    by (auto simp: qp_escape_def qp_plain_def ch_def)
  show ?case using 2 unfolding qp45_text.simps Let_def step by (auto simp: soft simp del: qp45_plain.simps)
qed simp

text \<open>What \<open>zqp_decode_2047\<close> makes of what \<open>zqp_encode_2047\<close> wrote for one byte.\<close>

definition qp47_seen :: "byte \<Rightarrow> bytes" where
  "qp47_seen c = (if c = 32 then [32, 32] else if c = ch CHR ''_'' then [32] else [c])"

lemma qp47_plain_text: "qp47_plain (qp47_text src) = concat (map qp47_seen src)"
  by (induction src)
     (auto simp: qp47_text_def qp47_seen_def qp_escape_def qp_plain_def ch_def)

lemma qp47_seen_length: "length src \<le> length (concat (map qp47_seen src))"
  by (induction src) (auto simp: qp47_seen_def)

lemma qp47_seen_id: "concat (map qp47_seen src) = src \<longleftrightarrow> 32 \<notin> set src \<and> ch CHR ''_'' \<notin> set src"
proof (induction src)
  case (Cons c src)
  show ?case
  proof (cases "c = 32")
    case True
    have "length (concat (map qp47_seen (c # src))) > length (c # src)"
      using True qp47_seen_length [of src] by (simp add: qp47_seen_def)
    then show ?thesis using True by (metis less_irrefl list.set_intros(1))
  next
    case False
    then show ?thesis using Cons by (auto simp: qp47_seen_def ch_def)
  qed
qed simp

lemma zqp_valid_from_takeWhile:
  "zqp_valid_from src i = i + length (takeWhile (\<lambda>c. 33 \<le> c \<and> c \<le> 126) src)"
  by (induction src i rule: zqp_valid_from.induct) (auto simp: not_less)

section \<open>Properties\<close>

text \<open>\<open>zhex_decode\<close> of what \<open>zhex_encode\<close> wrote gives the source bytes back, for every byte
  string and all growing buffers, and the encoding has two digits per byte. \<open>zurl_hex_decode\<close> accepts everything
  \<open>zurl_hex_encode\<close> writes, with and without the strict flag, and gives the source bytes back.\<close>

theorem hex_url_roundtrip:
  assumes "zbuf_ok b1" "zbuf_cap b1 = None" "zbuf_bytes b1 = []"
    and "zbuf_ok b2" "zbuf_cap b2 = None"
    and "enc = zbuf_bytes (zhex_encode src (int (length src)) b1)"
    and "url = zbuf_bytes (zurl_hex_encode src (int (length src)) b1 strict_flag)"
  shows "zbuf_bytes (zhex_decode enc (int (length enc)) b2) = zbuf_bytes b2 @ src
    \<and> length enc = 2 * length src
    \<and> map_option zbuf_bytes (zurl_hex_decode url (int (length url)) b2) = Some (zbuf_bytes b2 @ src)"
proof -
  have t: "enc = hex_text src"
    using zhex_encode_writes [OF assms(1), of src "int (length src)"] assms(2,3,6)
    by (simp add: writes_def)
  have "length enc = 2 * length src" unfolding t by (induction src) (simp_all add: hex_text_def)
  moreover have "zbuf_bytes (zhex_decode enc (int (length enc)) b2) = zbuf_bytes b2 @ src"
    using zhex_decode_writes [OF assms(4), of enc "int (length enc)"] assms(5)
    by (simp add: writes_def t hex.dec_enc)
  moreover have u: "url = url_text strict_flag src"
    using zurl_hex_encode_writes [OF assms(1), of src "int (length src)" strict_flag] assms(2,3,7)
    by (simp add: writes_def)
  then have "map_option zbuf_bytes (zurl_hex_decode url (int (length url)) b2) = Some (zbuf_bytes b2 @ src)"
    using appends_growing [OF appends_puts [OF assms(4), of src] assms(5)]
    by (simp add: zurl_hex_decode_def zurl_hex_decode_loop_foldl url_plain_text)
  ultimately show ?thesis by simp
qed

text \<open>\<open>zurl_hex_decode\<close> does not notice a percent sign without two digits after it: the table
  entry of a character that is no digit is 255, never the -1 the code tests for, and the byte 0xEF
  is written. A byte above 127 after a percent sign indexes the table with a negative number.\<close>

theorem url_decode_no_digits:
  assumes "zbuf_ok b" "zbuf_cap b = None" "xdigit c1 = 255" "xdigit c2 = 255"
  shows "map_option zbuf_bytes (zurl_hex_decode [ch CHR ''%'', c1, c2] 3 b) =
    (if c1 > 127 \<or> c2 > 127 then None else Some (zbuf_bytes b @ [239]))"
proof -
  have wrap: "(4335 :: byte) = 239" by simp
  show ?thesis
    using assms appends_growing [OF appends_put [OF assms(1), of 239] assms(2)]
    by (simp add: zurl_hex_decode_def src_bytes_def wrap)
qed



end
