(* ===== verification/RbSpec.thy ===== *)
theory RbSpec
  imports Prelude
begin

text \<open>
  The abstract side of the red-black tree: trees whose nodes are labelled with addresses, the
  position of a node in a tree as a context (a zipper), and the repair loops of insertion and
  removal as functions on contexts. Theory \<open>Rbtree\<close> translates the pointer code of
  \<open>src/stdlib/rbtree.c\<close>; theories \<open>RbInsert\<close> and \<open>RbErase\<close> show that it computes these
  functions on the heap. Here they are shown to keep the nodes in order and to restore the
  red-black invariants.
\<close>

section \<open>Trees and contexts\<close>

datatype color = Red | Black

lemma color_cases [simp]: "c \<noteq> Red \<longleftrightarrow> c = Black" "c \<noteq> Black \<longleftrightarrow> c = Red"
  by (cases c; simp)+

datatype 'a rtree = Leaf | Node color "'a rtree" 'a "'a rtree"

fun rcolor :: "'a rtree \<Rightarrow> color" where
  "rcolor Leaf = Black"
| "rcolor (Node c _ _ _) = c"

fun paint :: "color \<Rightarrow> 'a rtree \<Rightarrow> 'a rtree" where
  "paint c Leaf = Leaf"
| "paint c (Node _ l a r) = Node c l a r"

fun nodes :: "'a rtree \<Rightarrow> 'a list" where
  "nodes Leaf = []"
| "nodes (Node _ l a r) = nodes l @ a # nodes r"

text \<open>A frame is an ancestor: its colour, its label and its other child. \<open>FL\<close> has the hole as its
  left child, \<open>FR\<close> as its right child. A context lists the ancestors upwards.\<close>

datatype 'a frame = FL color 'a "'a rtree" | FR color "'a rtree" 'a

type_synonym 'a ctx = "'a frame list"

fun fcolor :: "'a frame \<Rightarrow> color" where
  "fcolor (FL c _ _) = c"
| "fcolor (FR c _ _) = c"

fun fill :: "'a frame \<Rightarrow> 'a rtree \<Rightarrow> 'a rtree" where
  "fill (FL c a r) t = Node c t a r"
| "fill (FR c l a) t = Node c l a t"

fun plug :: "'a ctx \<Rightarrow> 'a rtree \<Rightarrow> 'a rtree" where
  "plug [] t = t"
| "plug (f # k) t = plug k (fill f t)"

fun before :: "'a ctx \<Rightarrow> 'a list" where
  "before [] = []"
| "before (FL _ _ _ # k) = before k"
| "before (FR _ l a # k) = before k @ nodes l @ [a]"

fun after :: "'a ctx \<Rightarrow> 'a list" where
  "after [] = []"
| "after (FL _ a r # k) = a # nodes r @ after k"
| "after (FR _ _ _ # k) = after k"

lemma nodes_plug: "nodes (plug k t) = before k @ nodes t @ after k"
proof (induction k arbitrary: t)
  case (Cons f k)
  then show ?case by (cases f) auto
qed simp

lemma plug_append: "plug (k @ m) t = plug m (plug k t)"
  by (induction k arbitrary: t) auto

lemma nodes_paint [simp]: "nodes (paint c t) = nodes t"
  by (cases t) auto

lemma rcolor_paint: "t \<noteq> Leaf \<Longrightarrow> rcolor (paint c t) = c"
  by (cases t) auto

lemma rcolor_paint_black [simp]: "rcolor (paint Black t) = Black"
  by (cases t) auto

lemma paint_rcolor [simp]: "paint (rcolor t) t = t"
  by (cases t) auto

lemma paint_black_id: "rcolor t = Black \<Longrightarrow> paint Black t = t"
  by (cases t) auto

section \<open>Red-black invariants\<close>

fun bheight :: "'a rtree \<Rightarrow> nat" where
  "bheight Leaf = 0"
| "bheight (Node c l _ _) = bheight l + (if c = Black then 1 else 0)"

fun rb_inv :: "'a rtree \<Rightarrow> bool" where
  "rb_inv Leaf = True"
| "rb_inv (Node c l _ r) \<longleftrightarrow> rb_inv l \<and> rb_inv r \<and> bheight l = bheight r
     \<and> (c = Red \<longrightarrow> rcolor l = Black \<and> rcolor r = Black)"

definition rb_tree :: "'a rtree \<Rightarrow> bool" where
  "rb_tree t \<longleftrightarrow> rb_inv t \<and> rcolor t = Black"

fun sib_tree :: "'a frame \<Rightarrow> 'a rtree" where
  "sib_tree (FL _ _ r) = r"
| "sib_tree (FR _ l _) = l"

fun kcolor :: "'a ctx \<Rightarrow> color" where
  "kcolor [] = Black"
| "kcolor (f # _) = fcolor f"

text \<open>What the surroundings of a subtree of black height \<open>n\<close> satisfy in a red-black tree.\<close>

fun ctx_inv :: "'a ctx \<Rightarrow> nat \<Rightarrow> bool" where
  "ctx_inv [] n = True"
| "ctx_inv (f # k) n \<longleftrightarrow> rb_inv (sib_tree f) \<and> bheight (sib_tree f) = n
     \<and> (fcolor f = Red \<longrightarrow> rcolor (sib_tree f) = Black \<and> k \<noteq> [] \<and> kcolor k = Black)
     \<and> ctx_inv k (n + (if fcolor f = Black then 1 else 0))"

text \<open>A red subtree needs a black parent; the root itself must be black.\<close>

definition fits :: "'a ctx \<Rightarrow> color \<Rightarrow> bool" where
  "fits k c \<longleftrightarrow> (c = Red \<longrightarrow> k \<noteq> [] \<and> kcolor k = Black)"

lemma fits_Black [simp]: "fits k Black"
  by (simp add: fits_def)

lemma rb_tree_plug: "rb_tree (plug k t) \<longleftrightarrow> ctx_inv k (bheight t) \<and> rb_inv t \<and> fits k (rcolor t)"
proof (induction k arbitrary: t)
  case Nil
  show ?case by (cases "rcolor t") (auto simp: rb_tree_def fits_def)
next
  case (Cons f k)
  show ?case by (cases f; cases "fcolor f"; cases "rcolor t") (auto simp: Cons fits_def)
qed

lemma rb_inv_paint_black: "rb_inv t \<Longrightarrow> rb_inv (paint Black t)"
  by (cases t) auto

lemma bheight_paint:
  "rcolor t = Red \<Longrightarrow> bheight (paint Black t) = Suc (bheight t)"
  by (cases t) auto

section \<open>Insertion repair\<close>

text \<open>
  The loop of \<open>__zrbtree_insert\<close>: the subtree \<open>t\<close> has a red root and hangs in context \<open>k\<close>.
  The pictures of the source are cases 1 (colour flip, go on at the grandparent), 2 followed by 3,
  and 3.
\<close>

fun ins_rot :: "'a frame \<Rightarrow> 'a frame \<Rightarrow> 'a rtree \<Rightarrow> 'a rtree" where
  "ins_rot (FL _ p pr) (FL gc g u) t = Node gc t p (Node Red pr g u)"
| "ins_rot (FR _ pl p) (FL gc g u) (Node _ l n r) = Node gc (Node Red pl p l) n (Node Red r g u)"
| "ins_rot (FR _ pl p) (FR gc u g) t = Node gc (Node Red u g pl) p t"
| "ins_rot (FL _ p pr) (FR gc u g) (Node _ l n r) = Node gc (Node Red u g l) n (Node Red r p pr)"
| "ins_rot _ _ Leaf = Leaf"

fun ins_flip :: "'a frame \<Rightarrow> 'a frame \<Rightarrow> 'a rtree \<Rightarrow> 'a rtree" where
  "ins_flip f (FL _ g u) t = Node Red (paint Black (fill f t)) g (paint Black u)"
| "ins_flip f (FR _ u g) t = Node Red (paint Black u) g (paint Black (fill f t))"

fun ins_up :: "'a ctx \<Rightarrow> 'a rtree \<Rightarrow> 'a rtree" where
  "ins_up [] t = paint Black t"
| "ins_up [f] t = plug [f] t"
| "ins_up (f # g # k) t =
     (if fcolor f = Black then plug (f # g # k) t
      else if rcolor (sib_tree g) = Red then ins_up k (ins_flip f g t)
      else plug k (ins_rot f g t))"

lemma nodes_ins_rot: "t \<noteq> Leaf \<Longrightarrow> nodes (ins_rot f g t) = nodes (fill g (fill f t))"
  by (induction f g t rule: ins_rot.induct) auto

lemma nodes_ins_flip: "nodes (ins_flip f g t) = nodes (fill g (fill f t))"
  by (cases g) auto

lemma ins_flip_red: "\<exists>l a r. ins_flip f g t = Node Red l a r"
  by (cases g) auto

lemma nodes_ins_up: "t \<noteq> Leaf \<Longrightarrow> nodes (ins_up k t) = nodes (plug k t)"
proof (induction k t rule: ins_up.induct)
  case (3 f g k t)
  moreover have "ins_flip f g t \<noteq> Leaf" using ins_flip_red by (metis rtree.distinct(1))
  ultimately show ?case by (auto simp: nodes_plug nodes_ins_rot nodes_ins_flip)
qed auto

lemma rb_ins_rot:
  assumes "rb_inv t" "rcolor t = Red" "ctx_inv (f # g # k) (bheight t)" "fcolor f = Red"
    and "rcolor (sib_tree g) = Black"
  shows "rb_tree (plug k (ins_rot f g t))"
  using assms
  by (cases t; cases f; cases g) (auto simp: rb_tree_plug)

lemma rb_ins_flip:
  assumes "rb_inv t" "ctx_inv (f # g # k) (bheight t)" "fcolor f = Red"
    and "rcolor (sib_tree g) = Red"
  shows "rb_inv (ins_flip f g t) \<and> ctx_inv k (bheight (ins_flip f g t))"
proof (cases "sib_tree g")
  case Leaf
  with assms show ?thesis by simp
next
  case (Node c l a r)
  with assms show ?thesis by (cases f; cases g) auto
qed

lemma rb_ins_up:
  "rb_inv t \<Longrightarrow> rcolor t = Red \<Longrightarrow> ctx_inv k (bheight t) \<Longrightarrow> rb_tree (ins_up k t)"
proof (induction k t rule: ins_up.induct)
  case (1 t)
  then show ?case by (simp add: rb_tree_def rb_inv_paint_black)
next
  case (2 f t)
  then have "rb_tree (plug [f] t)" unfolding rb_tree_plug
    by (cases "fcolor f") (auto simp: fits_def)
  then show ?case by simp
next
  case (3 f g k t)
  show ?case
  proof (cases "fcolor f = Black")
    case True
    with 3 have "rb_tree (plug (f # g # k) t)" unfolding rb_tree_plug by (simp add: fits_def)
    with True show ?thesis by simp
  next
    case False
    then have fr: "fcolor f = Red" by (cases "fcolor f") auto
    show ?thesis
    proof (cases "rcolor (sib_tree g) = Red")
      case True
      then have "rb_tree (ins_up k (ins_flip f g t))"
        using 3 False rb_ins_flip [OF "3.prems"(1,3) fr True] ins_flip_red [of f g t] by auto
      with fr True show ?thesis by simp
    next
      case False
      then have "rcolor (sib_tree g) = Black" by (cases "rcolor (sib_tree g)") auto
      with rb_ins_rot [OF "3.prems" fr] fr show ?thesis by simp
    qed
  qed
qed

section \<open>Removal repair\<close>

text \<open>
  The loop of \<open>____zrbtree_erase_color\<close>: the subtree \<open>t\<close> is one black node short. With a black
  sibling (cases 2, 3 and 4 of the source) one step gives the new subtree at the parent's place and
  says whether it is still short.
\<close>

fun del_step :: "'a frame \<Rightarrow> 'a rtree \<Rightarrow> bool \<times> 'a rtree" where
  "del_step (FL pc p (Node _ sl sa sr)) t =
     (if rcolor sr = Red then (False, Node pc (Node Black t p sl) sa (paint Black sr))
      else case sl of
        Node Red a x b \<Rightarrow> (False, Node pc (Node Black t p a) x (Node Black b sa sr))
      | _ \<Rightarrow> (pc = Black, Node Black t p (Node Red sl sa sr)))"
| "del_step (FR pc (Node _ sl sa sr) p) t =
     (if rcolor sl = Red then (False, Node pc (paint Black sl) sa (Node Black sr p t))
      else case sr of
        Node Red a x b \<Rightarrow> (False, Node pc (Node Black sl sa a) x (Node Black b p t))
      | _ \<Rightarrow> (pc = Black, Node Black (Node Red sl sa sr) p t))"
| "del_step f t = (False, fill f t)"

text \<open>With a red sibling (case 1) a rotation makes the parent red and gives a black sibling.\<close>

fun del_up :: "'a ctx \<Rightarrow> 'a rtree \<Rightarrow> 'a rtree" where
  "del_up [] t = t"
| "del_up (FL pc p (Node Red sl sa sr) # k) t =
     plug (FL pc sa sr # k) (snd (del_step (FL Red p sl) t))"
| "del_up (FR pc (Node Red sl sa sr) p # k) t =
     plug (FR pc sl sa # k) (snd (del_step (FR Red sr p) t))"
| "del_up (f # k) t =
     (if fst (del_step f t) then del_up k (snd (del_step f t)) else plug k (snd (del_step f t)))"

lemma nodes_del_step: "nodes (snd (del_step f t)) = nodes (fill f t)"
  by (induction f t rule: del_step.induct) (auto split: rtree.splits color.splits)

lemma rb_del_step:
  assumes "rb_inv t" "rcolor t = Black" "rb_inv (sib_tree f)" "rcolor (sib_tree f) = Black"
    and "bheight (sib_tree f) = Suc (bheight t)"
  shows "rb_inv (snd (del_step f t))
    \<and> (fst (del_step f t) \<longrightarrow> fcolor f = Black \<and> rcolor (snd (del_step f t)) = Black
         \<and> bheight (snd (del_step f t)) = Suc (bheight t))
    \<and> (\<not> fst (del_step f t) \<longrightarrow>
         (rcolor (snd (del_step f t)) = Red \<longrightarrow> fcolor f = Red)
         \<and> bheight (snd (del_step f t)) = Suc (bheight t) + (if fcolor f = Black then 1 else 0))"
  using assms
  by (cases "(f, t)" rule: del_step.cases)
     (auto simp: rb_inv_paint_black bheight_paint split: rtree.splits color.splits)

declare del_step.simps [simp del]

lemma nodes_del_up: "nodes (del_up k t) = nodes (plug k t)"
  by (induction k t rule: del_up.induct) (auto simp: nodes_plug nodes_del_step)

lemma rb_del_black:
  assumes "rb_inv t" "rcolor t = Black" "ctx_inv (f # k) (Suc (bheight t))"
    and "rcolor (sib_tree f) = Black"
  shows "\<not> fst (del_step f t) \<Longrightarrow> rb_tree (plug k (snd (del_step f t)))"
    and "fst (del_step f t) \<Longrightarrow> rb_inv (snd (del_step f t)) \<and> rcolor (snd (del_step f t)) = Black
           \<and> ctx_inv k (Suc (bheight (snd (del_step f t))))"
  using assms rb_del_step [of t f] unfolding rb_tree_plug
  by (auto simp: fits_def)

lemma rb_del_black_up:
  assumes "rb_inv t" "rcolor t = Black" "ctx_inv (f # k) (Suc (bheight t))"
    and "rcolor (sib_tree f) = Black"
    and "fst (del_step f t) \<Longrightarrow> rb_inv (snd (del_step f t)) \<Longrightarrow>
      rcolor (snd (del_step f t)) = Black \<Longrightarrow> ctx_inv k (Suc (bheight (snd (del_step f t)))) \<Longrightarrow>
      rb_tree (del_up k (snd (del_step f t)))"
  shows "rb_tree (if fst (del_step f t) then del_up k (snd (del_step f t))
    else plug k (snd (del_step f t)))"
  using rb_del_black [OF assms(1-4)] assms(5) by auto

lemma rb_del_up:
  "rb_inv t \<Longrightarrow> rcolor t = Black \<Longrightarrow> ctx_inv k (Suc (bheight t)) \<Longrightarrow> rb_tree (del_up k t)"
proof (induction k t rule: del_up.induct)
  case (1 t)
  then show ?case by (simp add: rb_tree_def)
next
  case (2 pc p sl sa sr k t)
  from "2.prems" have "rb_inv sl" "rcolor sl = Black" "bheight sl = Suc (bheight t)" by auto
  with "2.prems" rb_del_step [of t "FL Red p sl"]
  have "rb_tree (plug (FL pc sa sr # k) (snd (del_step (FL Red p sl) t)))"
    unfolding rb_tree_plug by (cases "fst (del_step (FL Red p sl) t)") (auto simp: fits_def)
  then show ?case by simp
next
  case (3 pc sl sa sr p k t)
  from "3.prems" have "rb_inv sr" "rcolor sr = Black" "bheight sr = Suc (bheight t)" by auto
  with "3.prems" rb_del_step [of t "FR Red sr p"]
  have "rb_tree (plug (FR pc sl sa # k) (snd (del_step (FR Red sr p) t)))"
    unfolding rb_tree_plug by (cases "fst (del_step (FR Red sr p) t)") (auto simp: fits_def)
  then show ?case by simp
qed (simp_all only: del_up.simps, (rule rb_del_black_up; simp)+)

section \<open>Removal\<close>

text \<open>
  The leftmost node of a non-empty tree \<open>Node c l a r\<close>: its context inside that tree, its colour,
  its label and its right child.
\<close>

fun succ_of :: "color \<Rightarrow> 'a rtree \<Rightarrow> 'a \<Rightarrow> 'a rtree \<Rightarrow> 'a ctx \<times> color \<times> 'a \<times> 'a rtree" where
  "succ_of c Leaf a r = ([], c, a, r)"
| "succ_of c (Node c' l' a' r') a r =
     (case succ_of c' l' a' r' of (m, x) \<Rightarrow> (m @ [FL c a r], x))"

text \<open>Removing the node \<open>n\<close> with children \<open>l\<close> and \<open>r\<close> from the context \<open>k\<close>, with the cases of
  \<open>__zrbtree_erase_augmented\<close>: at most one child, or replacement by the successor.\<close>

definition close_gap :: "'a ctx \<Rightarrow> color \<Rightarrow> 'a rtree" where
  "close_gap k c = (if c = Black then del_up k Leaf else plug k Leaf)"

fun erase_at :: "'a ctx \<Rightarrow> color \<Rightarrow> 'a rtree \<Rightarrow> 'a rtree \<Rightarrow> 'a rtree" where
  "erase_at k c Leaf Leaf = close_gap k c"
| "erase_at k c Leaf r = plug k (paint c r)"
| "erase_at k c l Leaf = plug k (paint c l)"
| "erase_at k c l (Node rc rl ra rr) =
     (case succ_of rc rl ra rr of (m, sc, s, cr) \<Rightarrow>
        (if cr \<noteq> Leaf then plug (m @ FR c l s # k) (paint Black cr)
         else close_gap (m @ FR c l s # k) sc))"

lemma succ_of_plug: "succ_of c l a r = (m, sc, s, cr) \<Longrightarrow> Node c l a r = plug m (Node sc Leaf s cr)"
proof (induction c l a r arbitrary: m rule: succ_of.induct)
  case (2 c c' l' a' r' a r)
  then show ?case by (auto simp: plug_append split: prod.splits)
qed simp

fun left_frames :: "'a ctx \<Rightarrow> bool" where
  "left_frames [] = True"
| "left_frames (FL _ _ _ # k) = left_frames k"
| "left_frames (FR _ _ _ # k) = False"

lemma left_frames_append [simp]: "left_frames (k @ m) \<longleftrightarrow> left_frames k \<and> left_frames m"
  by (induction k rule: left_frames.induct) auto

lemma succ_of_left: "succ_of c l a r = (m, sc, s, cr) \<Longrightarrow> left_frames m"
  by (induction c l a r arbitrary: m rule: succ_of.induct) (auto split: prod.splits)

lemma before_left: "left_frames m \<Longrightarrow> before m = []"
  by (induction m rule: left_frames.induct) auto

lemma before_append [simp]: "before (m @ k) = before k @ before m"
proof (induction m)
  case (Cons f m)
  then show ?case by (cases f) auto
qed simp

lemma after_append [simp]: "after (m @ k) = after m @ after k"
proof (induction m)
  case (Cons f m)
  then show ?case by (cases f) auto
qed simp

lemma nodes_close_gap: "nodes (close_gap k c) = before k @ after k"
  by (simp add: close_gap_def nodes_del_up nodes_plug)

lemma nodes_erase_at: "nodes (erase_at k c l r) = before k @ nodes l @ nodes r @ after k"
proof (induction k c l r rule: erase_at.induct)
  case (4 k c lc ll la lr rc rl ra rr)
  obtain m sc s cr where x: "succ_of rc rl ra rr = (m, sc, s, cr)" by (metis prod_cases4)
  have "nodes (Node rc rl ra rr) = s # nodes cr @ after m"
    by (simp only: succ_of_plug [OF x] nodes_plug before_left [OF succ_of_left [OF x]]) simp
  with x show ?case
    by (simp add: nodes_plug nodes_close_gap before_left [OF succ_of_left [OF x]])
qed (auto simp: nodes_plug nodes_close_gap)

lemma rb_close_gap:
  assumes "ctx_inv k (if c = Black then 1 else 0)"
  shows "rb_tree (close_gap k c)"
  using assms rb_del_up [of Leaf k] rb_tree_plug [of k Leaf] by (auto simp: close_gap_def)

text \<open>A red-black tree without black nodes is a leaf or a single red node.\<close>

lemma bheight_0_black: "bheight t = 0 \<Longrightarrow> rcolor t = Black \<Longrightarrow> t = Leaf"
  by (cases t) auto

lemma bheight_0_red: "rb_inv t \<Longrightarrow> bheight t = 0 \<Longrightarrow> t \<noteq> Leaf \<Longrightarrow> \<exists>a. t = Node Red Leaf a Leaf"
  by (cases t) (auto dest: bheight_0_black split: if_splits)

lemma rb_only_child:
  assumes "rb_tree (plug k (Node c l n r))" "l = Leaf \<or> r = Leaf" "l \<noteq> Leaf \<or> r \<noteq> Leaf"
  shows "c = Black \<and> (\<exists>a. (if l = Leaf then r else l) = Node Red Leaf a Leaf)"
proof -
  from assms(1) have i: "rb_inv (Node c l n r)" by (simp add: rb_tree_plug)
  let ?t = "if l = Leaf then r else l"
  have "rb_inv ?t" "bheight ?t = 0" "?t \<noteq> Leaf" using i assms(2,3) by auto
  then obtain a where "?t = Node Red Leaf a Leaf" using bheight_0_red by blast
  with i assms(2) show ?thesis by (cases c) (auto split: if_splits)
qed

lemma ctx_inv_relabel:
  "ctx_inv (m @ FR c l x # k) n = ctx_inv (m @ FR c l y # k) n"
  "kcolor (m @ FR c l x # k) = kcolor (m @ FR c l y # k)"
proof -
  show kc: "kcolor (m @ FR c l x # k) = kcolor (m @ FR c l y # k)" for m :: "'a ctx"
    by (cases m) auto
  show "ctx_inv (m @ FR c l x # k) n = ctx_inv (m @ FR c l y # k) n"
    by (induction m arbitrary: n) (auto simp: kc)
qed

lemma rb_erase_at:
  assumes "rb_tree (plug k (Node c l n r))"
  shows "rb_tree (erase_at k c l r)"
proof (cases "(k, c, l, r)" rule: erase_at.cases)
  case (1 k' c')
  with assms show ?thesis unfolding rb_tree_plug by (auto intro: rb_close_gap)
next
  case (2 k' c' rc rl ra rr)
  with rb_only_child [OF assms] assms show ?thesis unfolding rb_tree_plug by (auto simp: rb_tree_plug)
next
  case (3 k' c' lc ll la lr)
  with rb_only_child [OF assms] assms show ?thesis unfolding rb_tree_plug by (auto simp: rb_tree_plug)
next
  case (4 k' c' lc ll la lr rc rl ra rr)
  obtain m sc s cr where x: "succ_of rc rl ra rr = (m, sc, s, cr)" by (metis prod_cases4)
  let ?k = "m @ FR c l s # k"
  have "plug k (Node c l n r) = plug (m @ FR c l n # k) (Node sc Leaf s cr)"
    using 4 succ_of_plug [OF x] by (simp add: plug_append)
  with assms have t: "rb_tree (plug (m @ FR c l n # k) (Node sc Leaf s cr))" by simp
  then have i: "ctx_inv ?k (if sc = Black then 1 else 0)"
    using ctx_inv_relabel(1) [of m c l s k _ n] by (simp add: rb_tree_plug)
  show ?thesis
  proof (cases "cr = Leaf")
    case True
    with 4 x i show ?thesis by (simp add: rb_close_gap)
  next
    case False
    then obtain a where "sc = Black" "cr = Node Red Leaf a Leaf" using rb_only_child [OF t] by auto
    with 4 x i show ?thesis by (simp add: rb_tree_plug)
  qed
qed

section \<open>Height\<close>

fun height :: "'a rtree \<Rightarrow> nat" where
  "height Leaf = 0"
| "height (Node _ l _ r) = Suc (max (height l) (height r))"

lemma height_bheight: "rb_inv t \<Longrightarrow> height t \<le> 2 * bheight t + (if rcolor t = Red then 1 else 0)"
  by (induction t) (auto split: if_splits)

lemma bheight_nodes: "rb_inv t \<Longrightarrow> 2 ^ bheight t \<le> length (nodes t) + 1"
  by (induction t) auto

text \<open>The height of a red-black tree of fewer than \<open>2 ^ b - 1\<close> nodes is below \<open>2 * b\<close>.\<close>

lemma rb_height_bound:
  assumes "rb_tree t" and "length (nodes t) + 1 < 2 ^ b"
  shows "height t < 2 * b"
proof -
  from assms(1) have "rb_inv t" by (simp add: rb_tree_def)
  from le_less_trans [OF bheight_nodes [OF this] assms(2)] have "bheight t < b" by simp
  with height_bheight [of t] assms(1) show ?thesis by (simp add: rb_tree_def)
qed

end
