(* ===== verification/Rbtree.thy ===== *)
theory Rbtree
  imports RbSpec "HOL-Library.Monad_Syntax"
begin

text \<open>
  The intrusive red-black tree of \<open>src/stdlib/rbtree.c\<close>, statement by statement, on an explicit
  heap. A node is the C struct: the parent address and the colour bit packed into one word
  \<open>parent_color\<close>, and the two children. The state is the root variable of \<open>zrbtree_t\<close> and the
  heap of nodes. Every access goes through a pointer; reading through NULL or an unmapped
  address is \<open>None\<close>, so a theorem that a function returns \<open>Some\<close> also says that it does not
  touch invalid memory. The loops are \<open>partial_function (option)\<close>: not returning is \<open>None\<close> too.

  The augmented variants only add calls of user callbacks on data outside the nodes; the
  non-augmented entry points, whose callbacks are empty, are the ones translated.
\<close>

section \<open>Nodes, heap and packed words\<close>

type_synonym addr = "64 word"

record rbnode =
  parent_color :: addr
  right :: addr
  left :: addr

record rbs =
  root :: addr
  heap :: "addr \<rightharpoonup> rbnode"

fun cbit :: "color \<Rightarrow> addr" where
  "cbit Red = 0"
| "cbit Black = 1"

text \<open>\<open>__ZRBTREE_PARENT\<close>, \<open>__zrbtree_is_black\<close> and \<open>__zrbtree_is_red\<close> on a packed word.\<close>

definition pc_parent :: "addr \<Rightarrow> addr" where
  "pc_parent pc = pc AND NOT 3"

definition pc_is_black :: "addr \<Rightarrow> bool" where
  "pc_is_black pc \<longleftrightarrow> pc AND 1 \<noteq> 0"

definition pc_is_red :: "addr \<Rightarrow> bool" where
  "pc_is_red pc \<longleftrightarrow> \<not> pc AND 1 \<noteq> 0"

text \<open>Loads and stores through a pointer.\<close>

definition get :: "rbs \<Rightarrow> addr \<Rightarrow> rbnode option" where
  "get s a = (if a = 0 then None else heap s a)"

definition upd :: "rbs \<Rightarrow> addr \<Rightarrow> (rbnode \<Rightarrow> rbnode) \<Rightarrow> rbs option" where
  "upd s a f = (case get s a of None \<Rightarrow> None | Some n \<Rightarrow> Some (s\<lparr>heap := (heap s)(a \<mapsto> f n)\<rparr>))"

abbreviation set_pc :: "rbs \<Rightarrow> addr \<Rightarrow> addr \<Rightarrow> rbs option" where
  "set_pc s a v \<equiv> upd s a (\<lambda>n. n\<lparr>parent_color := v\<rparr>)"

abbreviation set_left :: "rbs \<Rightarrow> addr \<Rightarrow> addr \<Rightarrow> rbs option" where
  "set_left s a v \<equiv> upd s a (\<lambda>n. n\<lparr>left := v\<rparr>)"

abbreviation set_right :: "rbs \<Rightarrow> addr \<Rightarrow> addr \<Rightarrow> rbs option" where
  "set_right s a v \<equiv> upd s a (\<lambda>n. n\<lparr>right := v\<rparr>)"

section \<open>Helpers\<close>

definition zrbtree_set_parent :: "rbs \<Rightarrow> addr \<Rightarrow> addr \<Rightarrow> rbs option" where
  "zrbtree_set_parent s rb p = do {
     n \<leftarrow> get s rb;
     set_pc s rb ((parent_color n AND 1) OR p) }"

definition zrbtree_set_parent_color :: "rbs \<Rightarrow> addr \<Rightarrow> addr \<Rightarrow> color \<Rightarrow> rbs option" where
  "zrbtree_set_parent_color s rb p c = set_pc s rb (p OR cbit c)"

definition zrbtree_set_black :: "rbs \<Rightarrow> addr \<Rightarrow> rbs option" where
  "zrbtree_set_black s rb = upd s rb (\<lambda>n. n\<lparr>parent_color := parent_color n OR 1\<rparr>)"

definition zrbtree_change_child :: "rbs \<Rightarrow> addr \<Rightarrow> addr \<Rightarrow> addr \<Rightarrow> rbs option" where
  "zrbtree_change_child s old new_node parent =
     (if parent \<noteq> 0 then do {
        pn \<leftarrow> get s parent;
        (if left pn = old then set_left s parent new_node else set_right s parent new_node) }
      else Some (s\<lparr>root := new_node\<rparr>))"

definition zrbtree_rotate_set_parents :: "rbs \<Rightarrow> addr \<Rightarrow> addr \<Rightarrow> color \<Rightarrow> rbs option" where
  "zrbtree_rotate_set_parents s old new_node c = do {
     on \<leftarrow> get s old;
     s1 \<leftarrow> set_pc s new_node (parent_color on);
     s2 \<leftarrow> zrbtree_set_parent_color s1 old new_node c;
     zrbtree_change_child s2 old new_node (pc_parent (parent_color on)) }"

text \<open>\<open>if (tmp) zrbtree_set_parent_color(tmp, p, RB_BLACK)\<close>, and the same with \<open>set_parent\<close>.\<close>

definition set_parent_black_opt :: "rbs \<Rightarrow> addr \<Rightarrow> addr \<Rightarrow> rbs option" where
  "set_parent_black_opt s tmp p = (if tmp \<noteq> 0 then zrbtree_set_parent_color s tmp p Black else Some s)"

definition set_parent_opt :: "rbs \<Rightarrow> addr \<Rightarrow> addr \<Rightarrow> rbs option" where
  "set_parent_opt s tmp p = (if tmp \<noteq> 0 then zrbtree_set_parent s tmp p else Some s)"

text \<open>\<open>tmp && zrbtree_is_red(tmp)\<close> and \<open>!tmp || zrbtree_is_black(tmp)\<close>.\<close>

definition is_red_opt :: "rbs \<Rightarrow> addr \<Rightarrow> bool option" where
  "is_red_opt s tmp =
     (if tmp \<noteq> 0 then do { n \<leftarrow> get s tmp; Some (pc_is_red (parent_color n)) } else Some False)"

definition is_black_opt :: "rbs \<Rightarrow> addr \<Rightarrow> bool option" where
  "is_black_opt s tmp =
     (if tmp = 0 then Some True else do { n \<leftarrow> get s tmp; Some (pc_is_black (parent_color n)) })"

section \<open>Insertion: \<open>__zrbtree_insert\<close>\<close>

text \<open>Case 1: colour flip; the loop goes on at the grandparent, whose parent is returned.\<close>

definition insert_flip :: "rbs \<Rightarrow> addr \<Rightarrow> addr \<Rightarrow> addr \<Rightarrow> (rbs \<times> addr) option" where
  "insert_flip s tmp parent gparent = do {
     s1 \<leftarrow> zrbtree_set_parent_color s tmp gparent Black;
     s2 \<leftarrow> zrbtree_set_parent_color s1 parent gparent Black;
     gn \<leftarrow> get s2 gparent;
     let parent' = pc_parent (parent_color gn);
     s3 \<leftarrow> zrbtree_set_parent_color s2 gparent parent' Red;
     Some (s3, parent') }"

text \<open>Cases 2 and 3 when the parent is the left child of the grandparent, and mirrored. Case 2
  returns the new \<open>parent\<close> and \<open>tmp\<close>.\<close>

definition insert_case2_left :: "rbs \<Rightarrow> addr \<Rightarrow> addr \<Rightarrow> (rbs \<times> addr \<times> addr) option" where
  "insert_case2_left s node parent = do {
     nn \<leftarrow> get s node;
     let tmp = left nn;
     s1 \<leftarrow> set_right s parent tmp;
     s2 \<leftarrow> set_left s1 node parent;
     s3 \<leftarrow> set_parent_black_opt s2 tmp parent;
     s4 \<leftarrow> zrbtree_set_parent_color s3 parent node Red;
     nn' \<leftarrow> get s4 node;
     Some (s4, node, right nn') }"

definition insert_rotate_left :: "rbs \<Rightarrow> addr \<Rightarrow> addr \<Rightarrow> addr \<Rightarrow> rbs option" where
  "insert_rotate_left s node parent gparent = do {
     pn \<leftarrow> get s parent;
     (s1, parent', tmp) \<leftarrow>
       (if node = right pn then insert_case2_left s node parent else Some (s, parent, right pn));
     s2 \<leftarrow> set_left s1 gparent tmp;
     s3 \<leftarrow> set_right s2 parent' gparent;
     s4 \<leftarrow> set_parent_black_opt s3 tmp gparent;
     zrbtree_rotate_set_parents s4 gparent parent' Red }"

definition insert_case2_right :: "rbs \<Rightarrow> addr \<Rightarrow> addr \<Rightarrow> (rbs \<times> addr \<times> addr) option" where
  "insert_case2_right s node parent = do {
     nn \<leftarrow> get s node;
     let tmp = right nn;
     s1 \<leftarrow> set_left s parent tmp;
     s2 \<leftarrow> set_right s1 node parent;
     s3 \<leftarrow> set_parent_black_opt s2 tmp parent;
     s4 \<leftarrow> zrbtree_set_parent_color s3 parent node Red;
     nn' \<leftarrow> get s4 node;
     Some (s4, node, left nn') }"

definition insert_rotate_right :: "rbs \<Rightarrow> addr \<Rightarrow> addr \<Rightarrow> addr \<Rightarrow> rbs option" where
  "insert_rotate_right s node parent gparent = do {
     pn \<leftarrow> get s parent;
     (s1, parent', tmp) \<leftarrow>
       (if node = left pn then insert_case2_right s node parent else Some (s, parent, left pn));
     s2 \<leftarrow> set_right s1 gparent tmp;
     s3 \<leftarrow> set_left s2 parent' gparent;
     s4 \<leftarrow> set_parent_black_opt s3 tmp gparent;
     zrbtree_rotate_set_parents s4 gparent parent' Red }"

text \<open>The loop. \<open>zrbtree_red_parent\<close> reads the packed word as an address without masking it,
  which is right because a red node's colour bit is 0.\<close>

partial_function (option) zrbtree_insert_loop :: "rbs \<Rightarrow> addr \<Rightarrow> addr \<Rightarrow> rbs option" where
  "zrbtree_insert_loop s node parent =
     (if parent = 0 then zrbtree_set_parent_color s node 0 Black
      else Option.bind (get s parent) (\<lambda>pn.
        if pc_is_black (parent_color pn) then Some s
        else let gparent = parent_color pn in
          Option.bind (get s gparent) (\<lambda>gn.
            if parent \<noteq> right gn
            then Option.bind (is_red_opt s (right gn)) (\<lambda>red.
              if red
              then Option.bind (insert_flip s (right gn) parent gparent)
                     (\<lambda>(s', parent'). zrbtree_insert_loop s' gparent parent')
              else insert_rotate_left s node parent gparent)
            else Option.bind (is_red_opt s (left gn)) (\<lambda>red.
              if red
              then Option.bind (insert_flip s (left gn) parent gparent)
                     (\<lambda>(s', parent'). zrbtree_insert_loop s' gparent parent')
              else insert_rotate_right s node parent gparent))))"

definition zrbtree_insert_color :: "rbs \<Rightarrow> addr \<Rightarrow> rbs option" where
  "zrbtree_insert_color s node = do { n \<leftarrow> get s node; zrbtree_insert_loop s node (parent_color n) }"

section \<open>Removal\<close>

text \<open>The \<open>do ... while (tmp)\<close> loop that walks down to the successor; it returns \<open>parent\<close> and
  \<open>successor\<close>.\<close>

partial_function (option) successor_loop :: "rbs \<Rightarrow> addr \<Rightarrow> addr \<Rightarrow> (addr \<times> addr) option" where
  "successor_loop s successor tmp =
     Option.bind (get s tmp) (\<lambda>tn.
       if left tn \<noteq> 0 then successor_loop s tmp (left tn) else Some (successor, tmp))"

text \<open>Cases 1 of \<open>__zrbtree_erase_augmented\<close>: the node has no left child, or no right child.\<close>

definition erase_no_left :: "rbs \<Rightarrow> addr \<Rightarrow> rbnode \<Rightarrow> (rbs \<times> addr) option" where
  "erase_no_left s node nn = do {
     let pc = parent_color nn;
     let child = right nn;
     let parent = pc_parent pc;
     s1 \<leftarrow> zrbtree_change_child s node child parent;
     (if child \<noteq> 0 then do { s2 \<leftarrow> set_pc s1 child pc; Some (s2, 0) }
      else Some (s1, if pc_is_black pc then parent else 0)) }"

definition erase_no_right :: "rbs \<Rightarrow> addr \<Rightarrow> rbnode \<Rightarrow> (rbs \<times> addr) option" where
  "erase_no_right s node nn = do {
     let tmp = left nn;
     s1 \<leftarrow> set_pc s tmp (parent_color nn);
     s2 \<leftarrow> zrbtree_change_child s1 node tmp (pc_parent (parent_color nn));
     Some (s2, 0) }"

text \<open>Cases 2 and 3: the successor is the right child, or leftmost below it. Returns \<open>parent\<close>,
  \<open>successor\<close> and \<open>child2\<close>.\<close>

definition erase_splice :: "rbs \<Rightarrow> addr \<Rightarrow> (rbs \<times> addr \<times> addr \<times> addr) option" where
  "erase_splice s child = do {
     cn \<leftarrow> get s child;
     (if left cn = 0 then Some (s, child, child, right cn)
      else do {
        (parent, successor) \<leftarrow> successor_loop s child (left cn);
        sn \<leftarrow> get s successor;
        s1 \<leftarrow> set_left s parent (right sn);
        s2 \<leftarrow> set_right s1 successor child;
        s3 \<leftarrow> zrbtree_set_parent s2 child successor;
        Some (s3, parent, successor, right sn) }) }"

definition erase_two_children :: "rbs \<Rightarrow> addr \<Rightarrow> rbnode \<Rightarrow> (rbs \<times> addr) option" where
  "erase_two_children s node nn = do {
     (s1, parent, successor, child2) \<leftarrow> erase_splice s (right nn);
     nn1 \<leftarrow> get s1 node;
     s2 \<leftarrow> set_left s1 successor (left nn1);
     s3 \<leftarrow> zrbtree_set_parent s2 (left nn1) successor;
     nn3 \<leftarrow> get s3 node;
     let pc = parent_color nn3;
     s4 \<leftarrow> zrbtree_change_child s3 node successor (pc_parent pc);
     (if child2 \<noteq> 0 then do {
        s5 \<leftarrow> set_pc s4 successor pc;
        s6 \<leftarrow> zrbtree_set_parent_color s5 child2 parent Black;
        Some (s6, 0) }
      else do {
        sn \<leftarrow> get s4 successor;
        s5 \<leftarrow> set_pc s4 successor pc;
        Some (s5, if pc_is_black (parent_color sn) then parent else 0) }) }"

definition zrbtree_erase_augmented :: "rbs \<Rightarrow> addr \<Rightarrow> (rbs \<times> addr) option" where
  "zrbtree_erase_augmented s node = do {
     nn \<leftarrow> get s node;
     (if left nn = 0 then erase_no_left s node nn
      else if right nn = 0 then erase_no_right s node nn
      else erase_two_children s node nn) }"

subsection \<open>The repair loop \<open>____zrbtree_erase_color\<close>\<close>

text \<open>Case 2, for both sides. It returns the next \<open>parent\<close>, or NULL when the loop ends.\<close>

definition erase_case2 :: "rbs \<Rightarrow> addr \<Rightarrow> addr \<Rightarrow> (rbs \<times> addr) option" where
  "erase_case2 s sibling parent = do {
     s1 \<leftarrow> zrbtree_set_parent_color s sibling parent Red;
     pn \<leftarrow> get s1 parent;
     (if pc_is_red (parent_color pn) then do { s2 \<leftarrow> zrbtree_set_black s1 parent; Some (s2, 0) }
      else Some (s1, pc_parent (parent_color pn))) }"

definition erase_case1_left :: "rbs \<Rightarrow> addr \<Rightarrow> addr \<Rightarrow> (rbs \<times> addr) option" where
  "erase_case1_left s parent sibling = do {
     sn \<leftarrow> get s sibling;
     let tmp1 = left sn;
     s1 \<leftarrow> set_right s parent tmp1;
     s2 \<leftarrow> set_left s1 sibling parent;
     s3 \<leftarrow> zrbtree_set_parent_color s2 tmp1 parent Black;
     s4 \<leftarrow> zrbtree_rotate_set_parents s3 parent sibling Red;
     Some (s4, tmp1) }"

definition erase_case3_left :: "rbs \<Rightarrow> addr \<Rightarrow> addr \<Rightarrow> addr \<Rightarrow> rbs option" where
  "erase_case3_left s parent sibling tmp2 = do {
     tn \<leftarrow> get s tmp2;
     let tmp1 = right tn;
     s1 \<leftarrow> set_left s sibling tmp1;
     s2 \<leftarrow> set_right s1 tmp2 sibling;
     s3 \<leftarrow> set_right s2 parent tmp2;
     set_parent_black_opt s3 tmp1 sibling }"

definition erase_case4_left :: "rbs \<Rightarrow> addr \<Rightarrow> addr \<Rightarrow> addr \<Rightarrow> rbs option" where
  "erase_case4_left s parent sibling tmp1 = do {
     sn \<leftarrow> get s sibling;
     let tmp2 = left sn;
     s1 \<leftarrow> set_right s parent tmp2;
     s2 \<leftarrow> set_left s1 sibling parent;
     s3 \<leftarrow> zrbtree_set_parent_color s2 tmp1 sibling Black;
     s4 \<leftarrow> set_parent_opt s3 tmp2 parent;
     zrbtree_rotate_set_parents s4 parent sibling Black }"

text \<open>Cases 2 to 4 with a black sibling, then a whole turn, for a node that is a left child.\<close>

definition erase_black_left :: "rbs \<Rightarrow> addr \<Rightarrow> addr \<Rightarrow> (rbs \<times> addr) option" where
  "erase_black_left s parent sibling = do {
     sn \<leftarrow> get s sibling;
     let tmp1 = right sn;
     b1 \<leftarrow> is_black_opt s tmp1;
     (if b1 then do {
        let tmp2 = left sn;
        b2 \<leftarrow> is_black_opt s tmp2;
        (if b2 then erase_case2 s sibling parent
         else do {
           s1 \<leftarrow> erase_case3_left s parent sibling tmp2;
           s2 \<leftarrow> erase_case4_left s1 parent tmp2 sibling;
           Some (s2, 0) }) }
      else do { s1 \<leftarrow> erase_case4_left s parent sibling tmp1; Some (s1, 0) }) }"

definition erase_turn_left :: "rbs \<Rightarrow> addr \<Rightarrow> addr \<Rightarrow> (rbs \<times> addr) option" where
  "erase_turn_left s parent sibling = do {
     sn \<leftarrow> get s sibling;
     (s1, sibling') \<leftarrow>
       (if pc_is_red (parent_color sn) then erase_case1_left s parent sibling else Some (s, sibling));
     erase_black_left s1 parent sibling' }"

text \<open>The mirrored branch.\<close>

definition erase_case1_right :: "rbs \<Rightarrow> addr \<Rightarrow> addr \<Rightarrow> (rbs \<times> addr) option" where
  "erase_case1_right s parent sibling = do {
     sn \<leftarrow> get s sibling;
     let tmp1 = right sn;
     s1 \<leftarrow> set_left s parent tmp1;
     s2 \<leftarrow> set_right s1 sibling parent;
     s3 \<leftarrow> zrbtree_set_parent_color s2 tmp1 parent Black;
     s4 \<leftarrow> zrbtree_rotate_set_parents s3 parent sibling Red;
     Some (s4, tmp1) }"

definition erase_case3_right :: "rbs \<Rightarrow> addr \<Rightarrow> addr \<Rightarrow> addr \<Rightarrow> rbs option" where
  "erase_case3_right s parent sibling tmp2 = do {
     tn \<leftarrow> get s tmp2;
     let tmp1 = left tn;
     s1 \<leftarrow> set_right s sibling tmp1;
     s2 \<leftarrow> set_left s1 tmp2 sibling;
     s3 \<leftarrow> set_left s2 parent tmp2;
     set_parent_black_opt s3 tmp1 sibling }"

definition erase_case4_right :: "rbs \<Rightarrow> addr \<Rightarrow> addr \<Rightarrow> addr \<Rightarrow> rbs option" where
  "erase_case4_right s parent sibling tmp1 = do {
     sn \<leftarrow> get s sibling;
     let tmp2 = right sn;
     s1 \<leftarrow> set_left s parent tmp2;
     s2 \<leftarrow> set_right s1 sibling parent;
     s3 \<leftarrow> zrbtree_set_parent_color s2 tmp1 sibling Black;
     s4 \<leftarrow> set_parent_opt s3 tmp2 parent;
     zrbtree_rotate_set_parents s4 parent sibling Black }"

definition erase_black_right :: "rbs \<Rightarrow> addr \<Rightarrow> addr \<Rightarrow> (rbs \<times> addr) option" where
  "erase_black_right s parent sibling = do {
     sn \<leftarrow> get s sibling;
     let tmp1 = left sn;
     b1 \<leftarrow> is_black_opt s tmp1;
     (if b1 then do {
        let tmp2 = right sn;
        b2 \<leftarrow> is_black_opt s tmp2;
        (if b2 then erase_case2 s sibling parent
         else do {
           s1 \<leftarrow> erase_case3_right s parent sibling tmp2;
           s2 \<leftarrow> erase_case4_right s1 parent tmp2 sibling;
           Some (s2, 0) }) }
      else do { s1 \<leftarrow> erase_case4_right s parent sibling tmp1; Some (s1, 0) }) }"

definition erase_turn_right :: "rbs \<Rightarrow> addr \<Rightarrow> addr \<Rightarrow> (rbs \<times> addr) option" where
  "erase_turn_right s parent sibling = do {
     sn \<leftarrow> get s sibling;
     (s1, sibling') \<leftarrow>
       (if pc_is_red (parent_color sn) then erase_case1_right s parent sibling else Some (s, sibling));
     erase_black_right s1 parent sibling' }"

partial_function (option) zrbtree_erase_loop :: "rbs \<Rightarrow> addr \<Rightarrow> addr \<Rightarrow> rbs option" where
  "zrbtree_erase_loop s node parent =
     Option.bind (get s parent) (\<lambda>pn.
       Option.bind
         (if node \<noteq> right pn then erase_turn_left s parent (right pn)
          else erase_turn_right s parent (left pn))
         (\<lambda>(s', next). if next \<noteq> 0 then zrbtree_erase_loop s' parent next else Some s'))"

definition zrbtree_erase :: "rbs \<Rightarrow> addr \<Rightarrow> rbs option" where
  "zrbtree_erase s node = do {
     (s1, rebalance) \<leftarrow> zrbtree_erase_augmented s node;
     (if rebalance \<noteq> 0 then zrbtree_erase_loop s1 0 rebalance else Some s1) }"

end
