(* ===== verification/RbHeap.thy ===== *)
theory RbHeap
  imports Rbtree
begin

text \<open>
  How an abstract tree lies in the heap, and what the primitive stores of \<open>Rbtree\<close> do to it: the
  predicates \<open>at\<close> (a subtree below a given parent), \<open>ctx_at\<close> (the surroundings of a subtree),
  \<open>holds\<close> (both, with all nodes distinct) and \<open>rep\<close> (a whole tree), with the frame lemmas the
  proofs of insertion and removal rest on.
\<close>

section \<open>Packed words\<close>

definition aligned :: "addr \<Rightarrow> bool" where
  "aligned p \<longleftrightarrow> p AND 3 = 0"

lemma bit_3: "bit (3 :: addr) n \<longleftrightarrow> n = 0 \<or> n = 1"
proof -
  have m: "(3 :: addr) = mask 2" by (simp add: mask_eq_exp_minus_1)
  show ?thesis unfolding m by (auto simp: bit_mask_iff)
qed

lemma aligned_bits: "aligned p \<longleftrightarrow> \<not> bit p 0 \<and> \<not> bit p 1"
proof
  assume "aligned p"
  then have "\<not> bit (p AND 3) n" for n by (simp add: aligned_def)
  from this [of 0] this [of 1] show "\<not> bit p 0 \<and> \<not> bit p 1"
    by (simp only: bit_and_iff bit_3) simp
next
  assume "\<not> bit p 0 \<and> \<not> bit p 1"
  then show "aligned p" unfolding aligned_def
    by (intro bit_word_eqI) (auto simp only: bit_and_iff bit_3 bit_0_eq bot_apply bot_bool_def)
qed

lemma aligned_0 [simp]: "aligned 0"
  by (simp add: aligned_def)

lemma pack_simps [simp]:
  assumes "aligned p"
  shows "pc_parent (p OR cbit c) = p" and "pc_is_black (p OR cbit c) \<longleftrightarrow> c = Black"
    and "pc_is_red (p OR cbit c) \<longleftrightarrow> c = Red" and "(p OR cbit c) AND 1 = cbit c"
proof -
  have b: "\<not> bit p 0" "\<not> bit p 1" using assms by (simp_all add: aligned_bits)
  have one: "x AND 1 = (if bit x 0 then 1 else 0)" for x :: addr
    by (simp add: and_one_eq odd_iff_mod_2_eq_one bit_0)
  show "pc_parent (p OR cbit c) = p"
  proof (rule bit_word_eqI)
    fix n
    assume "n < LENGTH(64)"
    then show "bit (pc_parent (p OR cbit c)) n = bit p n"
      unfolding pc_parent_def bit_and_iff bit_or_iff bit_not_iff bit_3
      using b by (cases c; cases "n = 0") (auto simp: bit_1_iff)
  qed
  show i: "(p OR cbit c) AND 1 = cbit c" using b by (cases c) (auto simp: one bit_simps)
  show "pc_is_black (p OR cbit c) \<longleftrightarrow> c = Black" and "pc_is_red (p OR cbit c) \<longleftrightarrow> c = Red"
    unfolding pc_is_black_def pc_is_red_def i by (cases c; simp)+
qed

lemma pack_red [simp]:
  assumes "aligned p"
  shows "pc_parent p = p" "\<not> pc_is_black p" "pc_is_red p" "p AND 1 = 0"
  using pack_simps [OF assms, of Red] by simp_all

lemma pack_black [simp]:
  assumes "aligned p"
  shows "pc_parent (p OR 1) = p" "pc_is_black (p OR 1)" "\<not> pc_is_red (p OR 1)" "(p OR 1) AND 1 = 1"
  using pack_simps [OF assms, of Black] by simp_all

lemmas pack_root [simp] = pack_black [OF aligned_0, simplified]

lemma or_black_1 [simp]: "(p OR cbit c) OR 1 = p OR (1 :: addr)"
  by (cases c) (auto simp: or.assoc)

lemma cbit_or [simp]: "cbit c OR p = p OR cbit c"
  by (simp add: or.commute)

section \<open>Trees in the heap\<close>

fun rootof :: "addr rtree \<Rightarrow> addr" where
  "rootof Leaf = 0"
| "rootof (Node _ _ a _) = a"

fun at :: "(addr \<rightharpoonup> rbnode) \<Rightarrow> addr \<Rightarrow> addr rtree \<Rightarrow> bool" where
  "at h p Leaf = True"
| "at h p (Node c l a r) \<longleftrightarrow> a \<noteq> 0 \<and> aligned a
     \<and> h a = Some \<lparr>parent_color = p OR cbit c, right = rootof r, left = rootof l\<rparr>
     \<and> at h a l \<and> at h a r"

fun faddr :: "addr frame \<Rightarrow> addr" where
  "faddr (FL _ a _) = a"
| "faddr (FR _ _ a) = a"

fun ctxaddr :: "addr ctx \<Rightarrow> addr" where
  "ctxaddr [] = 0"
| "ctxaddr (f # _) = faddr f"

fun fnode :: "addr frame \<Rightarrow> addr \<Rightarrow> addr \<Rightarrow> rbnode" where
  "fnode (FL c _ r) up x = \<lparr>parent_color = up OR cbit c, right = rootof r, left = x\<rparr>"
| "fnode (FR c l _) up x = \<lparr>parent_color = up OR cbit c, right = x, left = rootof l\<rparr>"

fun ctx_at :: "rbs \<Rightarrow> addr ctx \<Rightarrow> addr \<Rightarrow> bool" where
  "ctx_at s [] x \<longleftrightarrow> root s = x"
| "ctx_at s (f # k) x \<longleftrightarrow> faddr f \<noteq> 0 \<and> aligned (faddr f)
     \<and> heap s (faddr f) = Some (fnode f (ctxaddr k) x)
     \<and> at (heap s) (faddr f) (sib_tree f) \<and> ctx_at s k (faddr f)"

definition cnodes :: "'a ctx \<Rightarrow> 'a list" where
  "cnodes k = before k @ after k"

definition holds :: "rbs \<Rightarrow> addr ctx \<Rightarrow> addr rtree \<Rightarrow> bool" where
  "holds s k t \<longleftrightarrow> ctx_at s k (rootof t) \<and> at (heap s) (ctxaddr k) t \<and> distinct (cnodes k @ nodes t)"

abbreviation rep :: "rbs \<Rightarrow> addr rtree \<Rightarrow> bool" where
  "rep s t \<equiv> holds s [] t"

definition same_outside :: "rbs \<Rightarrow> rbs \<Rightarrow> addr set \<Rightarrow> bool" where
  "same_outside s s' A \<longleftrightarrow> (\<forall>a. a \<notin> A \<longrightarrow> heap s' a = heap s a)"

lemma cnodes_Nil [simp]: "cnodes [] = []"
  by (simp add: cnodes_def)

lemma set_cnodes_Cons [simp]:
  "set (cnodes (f # k)) = insert (faddr f) (set (nodes (sib_tree f)) \<union> set (cnodes k))"
  by (cases f) (auto simp: cnodes_def)

lemma set_nodes_plug: "set (nodes (plug k t)) = set (cnodes k) \<union> set (nodes t)"
  by (auto simp: nodes_plug cnodes_def)

lemma distinct_fill: "distinct (cnodes (f # k) @ nodes t) \<longleftrightarrow> distinct (cnodes k @ nodes (fill f t))"
  by (cases f) (auto simp: cnodes_def)

lemma holds_fill: "holds s (f # k) t \<longleftrightarrow> holds s k (fill f t)"
  unfolding holds_def distinct_fill by (cases f) auto

lemma rep_plug: "rep s (plug k t) \<longleftrightarrow> holds s k t"
  by (induction k arbitrary: t) (simp_all add: holds_fill)

subsection \<open>Frames\<close>

lemma at_cong: "(\<And>a. a \<in> set (nodes t) \<Longrightarrow> h' a = h a) \<Longrightarrow> at h' p t = at h p t"
  by (induction t arbitrary: p) auto

lemma ctx_at_cong:
  "root s' = root s \<Longrightarrow> (\<And>a. a \<in> set (cnodes k) \<Longrightarrow> heap s' a = heap s a) \<Longrightarrow>
   ctx_at s' k x = ctx_at s k x"
proof (induction k arbitrary: x)
  case (Cons f k)
  then have "at (heap s') (faddr f) (sib_tree f) = at (heap s) (faddr f) (sib_tree f)"
    by (intro at_cong) simp
  with Cons show ?case by simp
qed simp

lemma at_upd_other [simp]: "a \<notin> set (nodes t) \<Longrightarrow> at (h(a := n)) p t = at h p t"
  by (rule at_cong) auto

lemma at_rootof: "at h p t \<Longrightarrow> rootof t = 0 \<longleftrightarrow> t = Leaf"
  by (cases t) auto

lemma rootof_in: "t \<noteq> Leaf \<Longrightarrow> rootof t \<in> set (nodes t)"
  by (cases t) auto

lemma rootof_notin: "a \<notin> set (nodes t) \<Longrightarrow> a \<noteq> 0 \<Longrightarrow> rootof t \<noteq> a"
  by (cases t) auto

lemma at_nonzero: "at h p t \<Longrightarrow> a \<in> set (nodes t) \<Longrightarrow> a \<noteq> 0"
  by (induction t arbitrary: p) auto

subsection \<open>Writing the root of a subtree\<close>

text \<open>The heap after the root of \<open>t\<close> got parent \<open>q\<close> and colour \<open>c\<close>.\<close>

fun set_root :: "(addr \<rightharpoonup> rbnode) \<Rightarrow> addr rtree \<Rightarrow> addr \<Rightarrow> color \<Rightarrow> (addr \<rightharpoonup> rbnode)" where
  "set_root h Leaf q c = h"
| "set_root h (Node _ l a r) q c =
     h(a \<mapsto> \<lparr>parent_color = q OR cbit c, right = rootof r, left = rootof l\<rparr>)"

lemma set_root_other [simp]: "a \<notin> set (nodes t) \<Longrightarrow> set_root h t q c a = h a"
  by (cases t) auto

lemma at_set_root_other [simp]:
  "set (nodes t) \<inter> set (nodes u) = {} \<Longrightarrow> at (set_root h t q c) p u = at h p u"
  by (rule at_cong, rule set_root_other) blast

lemma at_set_root: "at h p t \<Longrightarrow> distinct (nodes t) \<Longrightarrow> at (set_root h t q c) q (paint c t)"
  by (cases t) auto

lemma rootof_paint [simp]: "rootof (paint c t) = rootof t"
  by (cases t) auto

lemma get_heap [simp]: "a \<noteq> 0 \<Longrightarrow> get s a = heap s a"
  by (simp add: get_def)

lemma upd_Some: "get s a = Some n \<Longrightarrow> upd s a f = Some (s\<lparr>heap := (heap s)(a \<mapsto> f n)\<rparr>)"
  by (simp add: upd_def)

lemma set_parent_color_root:
  assumes "at (heap s) p t" "t \<noteq> Leaf"
  shows "zrbtree_set_parent_color s (rootof t) q c = Some (s\<lparr>heap := set_root (heap s) t q c\<rparr>)"
  using assms by (cases t) (auto simp: zrbtree_set_parent_color_def upd_Some)

lemma set_parent_root:
  assumes "at (heap s) p t" "t \<noteq> Leaf" "aligned p"
  shows "zrbtree_set_parent s (rootof t) q = Some (s\<lparr>heap := set_root (heap s) t q (rcolor t)\<rparr>)"
  using assms by (cases t) (auto simp: zrbtree_set_parent_def upd_Some)

lemma set_parent_black_opt_root:
  "at (heap s) p t \<Longrightarrow> set_parent_black_opt s (rootof t) q = Some (s\<lparr>heap := set_root (heap s) t q Black\<rparr>)"
  using at_rootof [of "heap s" p t]
  by (cases "t = Leaf") (auto simp: set_parent_black_opt_def set_parent_color_root)

lemma set_parent_opt_root:
  "at (heap s) p t \<Longrightarrow> aligned p \<Longrightarrow>
   set_parent_opt s (rootof t) q = Some (s\<lparr>heap := set_root (heap s) t q (rcolor t)\<rparr>)"
  using at_rootof [of "heap s" p t]
  by (cases "t = Leaf") (auto simp: set_parent_opt_def set_parent_root)

lemma is_red_opt_root:
  "at (heap s) p t \<Longrightarrow> aligned p \<Longrightarrow> is_red_opt s (rootof t) = Some (rcolor t = Red)"
  by (cases t) (auto simp: is_red_opt_def)

lemma is_black_opt_root:
  "at (heap s) p t \<Longrightarrow> aligned p \<Longrightarrow> is_black_opt s (rootof t) = Some (rcolor t = Black)"
  by (cases t) (auto simp: is_black_opt_def)

subsection \<open>Writing the hole of a context\<close>

fun rehole :: "rbs \<Rightarrow> addr ctx \<Rightarrow> addr \<Rightarrow> rbs" where
  "rehole s [] x = s\<lparr>root := x\<rparr>"
| "rehole s (f # k) x = s\<lparr>heap := (heap s)(faddr f \<mapsto> fnode f (ctxaddr k) x)\<rparr>"

lemma heap_rehole_other [simp]: "a \<notin> set (cnodes k) \<Longrightarrow> heap (rehole s k x) a = heap s a"
  by (cases k) auto

lemma at_rehole_other [simp]:
  "set (cnodes k) \<inter> set (nodes t) = {} \<Longrightarrow> at (heap (rehole s k x)) p t = at (heap s) p t"
  by (rule at_cong, rule heap_rehole_other) blast

lemma ctx_at_rehole:
  assumes "ctx_at s k old" "distinct (cnodes k)"
  shows "ctx_at (rehole s k x) k x"
proof (cases k)
  case Nil
  then show ?thesis by simp
next
  case (Cons f m)
  have d: "faddr f \<notin> set (nodes (sib_tree f))" "faddr f \<notin> set (cnodes m)"
    using assms(2) Cons by (cases f; auto simp: cnodes_def)+
  then have "ctx_at (rehole s k x) m (faddr f) = ctx_at s m (faddr f)"
    by (intro ctx_at_cong) (auto simp: Cons)
  with assms(1) Cons d show ?thesis by simp
qed

lemma change_child_hole:
  assumes "ctx_at s k old" "old \<noteq> 0" "old \<notin> set (cnodes k)"
  shows "zrbtree_change_child s old x (ctxaddr k) = Some (rehole s k x)"
proof (cases k)
  case Nil
  then show ?thesis by (simp add: zrbtree_change_child_def)
next
  case (Cons f m)
  with assms have n: "old \<notin> set (nodes (sib_tree f))" by simp
  show ?thesis
  proof (cases f)
    case (FL c a r)
    with assms Cons show ?thesis by (simp add: zrbtree_change_child_def upd_Some)
  next
    case (FR c l a)
    with n assms(2) have "rootof l \<noteq> old" by (auto dest: rootof_notin)
    with FR assms Cons show ?thesis by (simp add: zrbtree_change_child_def upd_Some)
  qed
qed

section \<open>Symbolic execution\<close>

text \<open>
  For automatic proofs the parent of a moved subtree and the old content of a hole are hidden:
  \<open>placed\<close> says that a subtree lies somewhere in the heap, \<open>open_ctx\<close> that the surroundings are
  in place. The rules collected in \<open>rb_exec\<close> run the code on such a heap.
\<close>

definition placed :: "(addr \<rightharpoonup> rbnode) \<Rightarrow> addr rtree \<Rightarrow> bool" where
  "placed h t \<longleftrightarrow> (\<exists>p. aligned p \<and> at h p t)"

definition open_ctx :: "rbs \<Rightarrow> addr ctx \<Rightarrow> bool" where
  "open_ctx s k \<longleftrightarrow> (\<exists>x. ctx_at s k x)"

lemma placedI: "at h p t \<Longrightarrow> aligned p \<Longrightarrow> placed h t"
  by (auto simp: placed_def)

lemma open_ctxI: "ctx_at s k x \<Longrightarrow> open_ctx s k"
  by (auto simp: open_ctx_def)

text \<open>A step that leaves \<open>t\<close> in context \<open>k\<close> and writes only nodes of the tree.\<close>

definition turns :: "rbs \<Rightarrow> rbs \<Rightarrow> addr ctx \<Rightarrow> addr rtree \<Rightarrow> bool" where
  "turns s s' k t \<longleftrightarrow> holds s' k t \<and> same_outside s s' (set (cnodes k) \<union> set (nodes t))"

named_theorems rb_exec \<open>rules that execute the pointer code on a heap that holds a tree\<close>

lemma placed_other [rb_exec]:
  "a \<notin> set (nodes t) \<Longrightarrow> placed (h(a := n)) t = placed h t"
  "set (nodes u) \<inter> set (nodes t) = {} \<Longrightarrow> placed (set_root h u q c) t = placed h t"
  "set (nodes t) \<inter> set (nodes u) = {} \<Longrightarrow> placed (set_root h u q c) t = placed h t"
  by (simp_all add: placed_def Int_commute)

lemma at_other [rb_exec]:
  "set (nodes t) \<inter> set (nodes u) = {} \<Longrightarrow> at (set_root h u q c) p t = at h p t"
  by (simp add: Int_commute)

lemma at_set_root_same [rb_exec]:
  "placed h t \<Longrightarrow> distinct (nodes t) \<Longrightarrow> rcolor t = c \<Longrightarrow> at (set_root h t q c) q t"
  "placed h t \<Longrightarrow> distinct (nodes t) \<Longrightarrow> at (set_root h t q c) q (paint c t)"
  using at_set_root [of h _ t q c] paint_rcolor [of t] by (auto simp: placed_def)

lemma ctx_at_other [rb_exec]:
  "a \<notin> set (cnodes k) \<Longrightarrow> ctx_at (s\<lparr>heap := h(a := n)\<rparr>) k x = ctx_at (s\<lparr>heap := h\<rparr>) k x"
  "set (cnodes k) \<inter> set (nodes u) = {} \<Longrightarrow>
   ctx_at (s\<lparr>heap := set_root h u q c\<rparr>) k x = ctx_at (s\<lparr>heap := h\<rparr>) k x"
proof -
  show "a \<notin> set (cnodes k) \<Longrightarrow> ctx_at (s\<lparr>heap := h(a := n)\<rparr>) k x = ctx_at (s\<lparr>heap := h\<rparr>) k x"
    by (rule ctx_at_cong) auto
  show "set (cnodes k) \<inter> set (nodes u) = {} \<Longrightarrow>
     ctx_at (s\<lparr>heap := set_root h u q c\<rparr>) k x = ctx_at (s\<lparr>heap := h\<rparr>) k x"
    by (rule ctx_at_cong, simp, simp, rule set_root_other) blast
qed

lemma open_ctx_other [rb_exec]:
  "a \<notin> set (cnodes k) \<Longrightarrow> open_ctx (s\<lparr>heap := h(a := n)\<rparr>) k = open_ctx (s\<lparr>heap := h\<rparr>) k"
  "set (cnodes k) \<inter> set (nodes u) = {} \<Longrightarrow>
   open_ctx (s\<lparr>heap := set_root h u q c\<rparr>) k = open_ctx (s\<lparr>heap := h\<rparr>) k"
  by (simp_all add: open_ctx_def ctx_at_other)

lemma holds_rehole [rb_exec]:
  "open_ctx s k \<Longrightarrow> holds (rehole s k x) k t \<longleftrightarrow>
     x = rootof t \<and> at (heap s) (ctxaddr k) t \<and> distinct (cnodes k @ nodes t)"
proof -
  assume "open_ctx s k"
  then obtain y where y: "ctx_at s k y" by (auto simp: open_ctx_def)
  have u: "ctx_at (rehole s k x) k z \<longleftrightarrow> z = x" if "distinct (cnodes k)" for z
  proof (cases k)
    case (Cons f m)
    with ctx_at_rehole [OF y that, of x] show ?thesis by (cases f) auto
  qed auto
  show ?thesis unfolding holds_def
    by (cases "distinct (cnodes k @ nodes t)") (auto simp: u)
qed

lemma moved_root [rb_exec]:
  "placed (heap s) t \<Longrightarrow>
   set_parent_black_opt s (rootof t) q = Some (s\<lparr>heap := set_root (heap s) t q Black\<rparr>)"
  "placed (heap s) t \<Longrightarrow>
   set_parent_opt s (rootof t) q = Some (s\<lparr>heap := set_root (heap s) t q (rcolor t)\<rparr>)"
  "placed (heap s) t \<Longrightarrow> t \<noteq> Leaf \<Longrightarrow>
   zrbtree_set_parent_color s (rootof t) q c = Some (s\<lparr>heap := set_root (heap s) t q c\<rparr>)"
  "placed (heap s) t \<Longrightarrow> t \<noteq> Leaf \<Longrightarrow>
   zrbtree_set_parent s (rootof t) q = Some (s\<lparr>heap := set_root (heap s) t q (rcolor t)\<rparr>)"
  "placed (heap s) t \<Longrightarrow> is_red_opt s (rootof t) = Some (rcolor t = Red)"
  "placed (heap s) t \<Longrightarrow> is_black_opt s (rootof t) = Some (rcolor t = Black)"
  by (auto simp: placed_def set_parent_black_opt_root set_parent_opt_root set_parent_color_root
      set_parent_root is_red_opt_root is_black_opt_root)

lemma rootof_neq [rb_exec]:
  "a \<notin> set (nodes t) \<Longrightarrow> a \<noteq> 0 \<Longrightarrow> (rootof t = a) = False"
  "a \<notin> set (nodes t) \<Longrightarrow> a \<noteq> 0 \<Longrightarrow> (a = rootof t) = False"
  using rootof_notin by metis+

lemmas [rb_exec] = turns_def same_outside_def upd_def zrbtree_set_parent_color_def zrbtree_rotate_set_parents_def
  change_child_hole Int_Un_distrib Int_Un_distrib2 Let_def

text \<open>The premises of a proof about a subtree in its surroundings.\<close>

lemma holdsD:
  assumes "holds s k t"
  shows "ctx_at s k (rootof t)" "at (heap s) (ctxaddr k) t" "distinct (cnodes k @ nodes t)"
    and "aligned (ctxaddr k)" "open_ctx s k"
  using assms by (auto simp: holds_def open_ctx_def intro: placedI) (cases k; auto)

end
