(* ===== verification/RbInsert.thy ===== *)
theory RbInsert
  imports RbHeap
begin

text \<open>
  The pointer code of insertion computes \<open>ins_up\<close> of theory \<open>RbSpec\<close>: one lemma per case of the
  loop, then the loop by induction on the ancestors of the inserted node.
\<close>

section \<open>One step of the loop\<close>

lemma insert_rotate_FL_FL:
  assumes "holds s k (Node gc (Node Red (Node Red l n r) p pr) g u)" "rcolor pr = Black"
  shows "\<exists>s'. insert_rotate_left s n p g = Some s'
    \<and> turns s s' k (Node gc (Node Red l n r) p (Node Red pr g u))"
proof -
  note d = holdsD [OF assms(1)]
  from d have "placed (heap s) pr" by (auto intro: placedI)
  with d assms(2) show ?thesis
    by (simp add: insert_rotate_left_def rb_exec) auto
qed

lemma insert_rotate_FR_FR:
  assumes "holds s k (Node gc u g (Node Red pl p (Node Red l n r)))" "rcolor pl = Black"
  shows "\<exists>s'. insert_rotate_right s n p g = Some s'
    \<and> turns s s' k (Node gc (Node Red u g pl) p (Node Red l n r))"
proof -
  note d = holdsD [OF assms(1)]
  from d have "placed (heap s) pl" by (auto intro: placedI)
  with d assms(2) show ?thesis
    by (simp add: insert_rotate_right_def rb_exec) auto
qed

lemma insert_rotate_FR_FL:
  assumes "holds s k (Node gc (Node Red pl p (Node Red l n r)) g u)"
    and "rcolor l = Black" "rcolor r = Black"
  shows "\<exists>s'. insert_rotate_left s n p g = Some s'
    \<and> turns s s' k (Node gc (Node Red pl p l) n (Node Red r g u))"
proof -
  note d = holdsD [OF assms(1)]
  from d have "placed (heap s) l" "placed (heap s) r" by (auto intro: placedI)
  with d assms(2,3) show ?thesis
    by (simp add: insert_rotate_left_def insert_case2_left_def rb_exec) auto
qed

lemma insert_rotate_FL_FR:
  assumes "holds s k (Node gc u g (Node Red (Node Red l n r) p pr))"
    and "rcolor l = Black" "rcolor r = Black"
  shows "\<exists>s'. insert_rotate_right s n p g = Some s'
    \<and> turns s s' k (Node gc (Node Red u g l) n (Node Red r p pr))"
proof -
  note d = holdsD [OF assms(1)]
  from d have "placed (heap s) l" "placed (heap s) r" by (auto intro: placedI)
  with d assms(2,3) show ?thesis
    by (simp add: insert_rotate_right_def insert_case2_right_def rb_exec) auto
qed

lemma insert_flip_FL:
  assumes "holds s k (Node gc (Node Red l p r) g u)" "u \<noteq> Leaf"
  shows "\<exists>s'. insert_flip s (rootof u) p g = Some (s', ctxaddr k)
    \<and> turns s s' k (Node Red (Node Black l p r) g (paint Black u))"
proof -
  obtain uc ul ua ur where u: "u = Node uc ul ua ur" using assms(2) by (cases u) auto
  note d = holdsD [OF assms(1)]
  then show ?thesis
    unfolding u by (simp add: insert_flip_def rb_exec holds_def) auto
qed

lemma insert_flip_FR:
  assumes "holds s k (Node gc u g (Node Red l p r))" "u \<noteq> Leaf"
  shows "\<exists>s'. insert_flip s (rootof u) p g = Some (s', ctxaddr k)
    \<and> turns s s' k (Node Red (paint Black u) g (Node Black l p r))"
proof -
  obtain uc ul ua ur where u: "u = Node uc ul ua ur" using assms(2) by (cases u) auto
  note d = holdsD [OF assms(1)]
  then show ?thesis
    unfolding u by (simp add: insert_flip_def rb_exec holds_def) auto
qed

section \<open>The loop\<close>

lemma turns_rep:
  "turns s s' k t \<Longrightarrow> rep s' (plug k t) \<and> same_outside s s' (set (nodes (plug k t)))"
  by (simp add: turns_def rep_plug set_nodes_plug)

lemma same_outside_trans:
  "same_outside s s1 A \<Longrightarrow> same_outside s1 s2 A \<Longrightarrow> same_outside s s2 A"
  by (auto simp: same_outside_def)

text \<open>One turn of the loop at a red parent: what it does to the tree around the grandparent.\<close>

definition insert_turn :: "rbs \<Rightarrow> addr \<Rightarrow> addr frame \<Rightarrow> addr frame \<Rightarrow> addr ctx \<Rightarrow> addr rtree \<Rightarrow> bool" where
  "insert_turn s n f g k t \<longleftrightarrow>
     (if rcolor (sib_tree g) = Red
      then \<exists>s'. zrbtree_insert_loop s n (faddr f) = zrbtree_insert_loop s' (faddr g) (ctxaddr k)
             \<and> turns s s' k (ins_flip f g t)
      else \<exists>s'. zrbtree_insert_loop s n (faddr f) = Some s' \<and> turns s s' k (ins_rot f g t))"

lemma insert_turn_left:
  assumes h: "holds s k (Node gc (fill f (Node Red l n r)) g u)" and f: "fcolor f = Red"
    and "rcolor (sib_tree f) = Black" "rcolor l = Black" "rcolor r = Black"
  shows "insert_turn s n f (FL gc g u) k (Node Red l n r)"
proof (cases "rcolor u = Red")
  note d = holdsD [OF h]
  from d have p: "placed (heap s) u" by (auto intro: placedI)
  case True
  then obtain s' where s': "insert_flip s (rootof u) (faddr f) g = Some (s', ctxaddr k)"
      "turns s s' k (ins_flip f (FL gc g u) (Node Red l n r))"
    using h f True by (cases f; cases u) (auto dest!: insert_flip_FL)
  have "zrbtree_insert_loop s n (faddr f) = zrbtree_insert_loop s' g (ctxaddr k)"
    using d f p s'(1) True
    by (cases f) (auto simp: zrbtree_insert_loop.simps [of s n] rb_exec)
  with s' True show ?thesis by (auto simp: insert_turn_def)
next
  note d = holdsD [OF h]
  from d have p: "placed (heap s) u" by (auto intro: placedI)
  case False
  obtain s' where s': "insert_rotate_left s n (faddr f) g = Some s'"
      "turns s s' k (ins_rot f (FL gc g u) (Node Red l n r))"
    using assms by (cases f) (auto dest!: insert_rotate_FL_FL insert_rotate_FR_FL)
  have "zrbtree_insert_loop s n (faddr f) = Some s'"
    using d f p s'(1) False
    by (cases f) (auto simp: zrbtree_insert_loop.simps [of s n] rb_exec)
  with s' False show ?thesis by (auto simp: insert_turn_def)
qed

lemma insert_turn_right:
  assumes h: "holds s k (Node gc u g (fill f (Node Red l n r)))" and f: "fcolor f = Red"
    and "rcolor (sib_tree f) = Black" "rcolor l = Black" "rcolor r = Black"
  shows "insert_turn s n f (FR gc u g) k (Node Red l n r)"
proof (cases "rcolor u = Red")
  note d = holdsD [OF h]
  from d have p: "placed (heap s) u" by (auto intro: placedI)
  case True
  then obtain s' where s': "insert_flip s (rootof u) (faddr f) g = Some (s', ctxaddr k)"
      "turns s s' k (ins_flip f (FR gc u g) (Node Red l n r))"
    using h f True by (cases f; cases u) (auto dest!: insert_flip_FR)
  have "zrbtree_insert_loop s n (faddr f) = zrbtree_insert_loop s' g (ctxaddr k)"
    using d f p s'(1) True
    by (cases f) (auto simp: zrbtree_insert_loop.simps [of s n] rb_exec)
  with s' True show ?thesis by (auto simp: insert_turn_def)
next
  note d = holdsD [OF h]
  from d have p: "placed (heap s) u" by (auto intro: placedI)
  case False
  obtain s' where s': "insert_rotate_right s n (faddr f) g = Some s'"
      "turns s s' k (ins_rot f (FR gc u g) (Node Red l n r))"
    using assms by (cases f) (auto dest!: insert_rotate_FR_FR insert_rotate_FL_FR)
  have "zrbtree_insert_loop s n (faddr f) = Some s'"
    using d f p s'(1) False
    by (cases f) (auto simp: zrbtree_insert_loop.simps [of s n] rb_exec)
  with s' False show ?thesis by (auto simp: insert_turn_def)
qed

text \<open>The result of the loop: the tree \<open>ins_up k t\<close>, and nothing written outside of it.\<close>

definition inserted :: "rbs option \<Rightarrow> rbs \<Rightarrow> addr ctx \<Rightarrow> addr rtree \<Rightarrow> bool" where
  "inserted res s k t \<longleftrightarrow>
     (\<exists>s'. res = Some s' \<and> rep s' (ins_up k t) \<and> same_outside s s' (set (nodes (plug k t))))"

lemma inserted_flip:
  assumes "turns s s1 k (ins_flip f g t)" "inserted res s1 k (ins_flip f g t)"
    and "fcolor f = Red" "rcolor (sib_tree g) = Red"
  shows "inserted res s (f # g # k) t"
proof -
  from assms(2) obtain s' where s': "res = Some s'" "rep s' (ins_up k (ins_flip f g t))"
    "same_outside s1 s' (set (nodes (plug k (ins_flip f g t))))" by (auto simp: inserted_def)
  have n: "nodes (plug (f # g # k) t) = nodes (plug k (ins_flip f g t))"
    by (simp add: nodes_plug nodes_ins_flip)
  from turns_rep [OF assms(1)] s'(3)
  have "same_outside s s' (set (nodes (plug k (ins_flip f g t))))" by (blast intro: same_outside_trans)
  with s' assms(3,4) show ?thesis unfolding inserted_def n by simp
qed

lemma inserted_rot:
  assumes "turns s s' k (ins_rot f g t)" "fcolor f = Red" "rcolor (sib_tree g) = Black" "t \<noteq> Leaf"
  shows "inserted (Some s') s (f # g # k) t"
  using turns_rep [OF assms(1)] assms(2-4) by (simp add: inserted_def nodes_plug nodes_ins_rot)

lemma insert_black_parent:
  assumes "holds s (f # k) (Node Red l n r)" "fcolor f = Black"
  shows "inserted (zrbtree_insert_loop s n (faddr f)) s (f # k) (Node Red l n r)"
proof -
  have "zrbtree_insert_loop s n (faddr f) = Some s"
    using holdsD [OF assms(1)] holdsD(4) [of s k "fill f (Node Red l n r)"] assms
    by (cases f) (auto simp: zrbtree_insert_loop.simps [of s n] holds_fill)
  moreover have "ins_up (f # k) (Node Red l n r) = plug (f # k) (Node Red l n r)"
    using assms(2) by (cases k) auto
  ultimately show ?thesis
    using assms(1) rep_plug [of s "f # k"] by (simp add: inserted_def same_outside_def)
qed

lemma insert_loop_correct:
  assumes "holds s k (Node Red l n r)" "rb_inv (Node Red l n r)"
    and "ctx_inv k (bheight (Node Red l n r))"
  shows "inserted (zrbtree_insert_loop s n (ctxaddr k)) s k (Node Red l n r)"
  using assms
proof (induction k "Node Red l n r" arbitrary: s l n r rule: ins_up.induct)
  case 1
  from holdsD [OF "1.prems"(1)] show ?case
    by (simp add: zrbtree_insert_loop.simps [of s n] rb_exec holds_def inserted_def)
next
  case (2 f)
  then have "fcolor f = Black" by (cases "fcolor f") auto
  with 2 show ?case using insert_black_parent by simp
next
  case (3 f g k)
  show ?case
  proof (cases "fcolor f = Black")
    case True
    with "3.prems" show ?thesis using insert_black_parent by simp
  next
    case False
    then have f: "fcolor f = Red" by simp
    have b: "rcolor (sib_tree f) = Black" "rcolor l = Black" "rcolor r = Black"
      using "3.prems" f by auto
    have t: "insert_turn s n f g k (Node Red l n r)"
      using "3.prems"(1) f b by (cases g) (auto simp: holds_fill intro: insert_turn_left insert_turn_right)
    obtain l' r' where fl: "ins_flip f g (Node Red l n r) = Node Red l' (faddr g) r'"
      by (cases g) auto
    show ?thesis
    proof (cases "rcolor (sib_tree g) = Red")
      case True
      with t obtain s1 where s1: "zrbtree_insert_loop s n (faddr f) =
          zrbtree_insert_loop s1 (faddr g) (ctxaddr k)" "turns s s1 k (ins_flip f g (Node Red l n r))"
        by (auto simp: insert_turn_def)
      have "inserted (zrbtree_insert_loop s1 (faddr g) (ctxaddr k)) s1 k (Node Red l' (faddr g) r')"
        using "3.hyps" [OF False True fl] s1(2) rb_ins_flip [OF "3.prems"(2,3) f True]
        unfolding fl turns_def by blast
      with inserted_flip [OF s1(2) _ f True] s1(1) fl show ?thesis by simp
    next
      case False
      with t obtain s' where "zrbtree_insert_loop s n (faddr f) = Some s'"
          "turns s s' k (ins_rot f g (Node Red l n r))"
        by (auto simp: insert_turn_def)
      with inserted_rot [OF _ f] False show ?thesis by simp
    qed
  qed
qed

end
