(* ===== verification/RbErase.thy ===== *)
theory RbErase
  imports RbInsert
begin

text \<open>
  The pointer code of removal computes \<open>erase_at\<close> and \<open>del_up\<close> of theory \<open>RbSpec\<close>: the four
  cases of the repair loop on both sides, the loop, the search for the successor and the splice.
\<close>

section \<open>The cases of the repair loop\<close>

lemma erase_case4_left_ok:
  assumes "holds s k (Node pc t p (Node sc sl sa sr))" "sr \<noteq> Leaf"
  shows "\<exists>s'. erase_case4_left s p sa (rootof sr) = Some s'
    \<and> turns s s' k (Node pc (Node Black t p sl) sa (paint Black sr))"
proof -
  obtain rc rl ra rr where r: "sr = Node rc rl ra rr" using assms(2) by (cases sr) auto
  note d = holdsD [OF assms(1)]
  from d have "placed (heap s) sl" by (auto intro: placedI)
  with d show ?thesis
    unfolding r by (simp add: erase_case4_left_def rb_exec) auto
qed

lemma erase_case4_right_ok:
  assumes "holds s k (Node pc (Node sc sl sa sr) p t)" "sl \<noteq> Leaf"
  shows "\<exists>s'. erase_case4_right s p sa (rootof sl) = Some s'
    \<and> turns s s' k (Node pc (paint Black sl) sa (Node Black sr p t))"
proof -
  obtain rc rl ra rr where r: "sl = Node rc rl ra rr" using assms(2) by (cases sl) auto
  note d = holdsD [OF assms(1)]
  from d have "placed (heap s) sr" by (auto intro: placedI)
  with d show ?thesis
    unfolding r by (simp add: erase_case4_right_def rb_exec) auto
qed

lemma erase_case34_left_ok:
  assumes "holds s k (Node pc t p (Node Black (Node Red a x b) sa sr))"
    and "rcolor a = Black" "rcolor b = Black"
  shows "\<exists>s1 s'. erase_case3_left s p sa x = Some s1 \<and> erase_case4_left s1 p x sa = Some s'
    \<and> turns s s' k (Node pc (Node Black t p a) x (Node Black b sa sr))"
proof -
  note d = holdsD [OF assms(1)]
  from d have "placed (heap s) a" "placed (heap s) b" by (auto intro: placedI)
  with d assms(2,3) show ?thesis
    by (simp add: erase_case3_left_def erase_case4_left_def rb_exec) auto
qed

lemma erase_case34_right_ok:
  assumes "holds s k (Node pc (Node Black sl sa (Node Red a x b)) p t)"
    and "rcolor a = Black" "rcolor b = Black"
  shows "\<exists>s1 s'. erase_case3_right s p sa x = Some s1 \<and> erase_case4_right s1 p x sa = Some s'
    \<and> turns s s' k (Node pc (Node Black sl sa a) x (Node Black b p t))"
proof -
  note d = holdsD [OF assms(1)]
  from d have "placed (heap s) a" "placed (heap s) b" by (auto intro: placedI)
  with d assms(2,3) show ?thesis
    by (simp add: erase_case3_right_def erase_case4_right_def rb_exec) auto
qed

lemma erase_case2_left_ok:
  assumes "holds s k (Node pc t p (Node Black sl sa sr))"
  shows "\<exists>s'. erase_case2 s sa p = Some (s', if pc = Black then ctxaddr k else 0)
    \<and> turns s s' k (Node Black t p (Node Red sl sa sr))"
  using holdsD [OF assms]
  by (cases pc; simp add: erase_case2_def zrbtree_set_black_def rb_exec holds_def) auto

lemma erase_case2_right_ok:
  assumes "holds s k (Node pc (Node Black sl sa sr) p t)"
  shows "\<exists>s'. erase_case2 s sa p = Some (s', if pc = Black then ctxaddr k else 0)
    \<and> turns s s' k (Node Black (Node Red sl sa sr) p t)"
  using holdsD [OF assms]
  by (cases pc; simp add: erase_case2_def zrbtree_set_black_def rb_exec holds_def) auto

lemma erase_case1_left_ok:
  assumes "holds s k (Node pc t p (Node Red sl sa sr))" "sl \<noteq> Leaf" "rcolor sl = Black"
  shows "\<exists>s'. erase_case1_left s p sa = Some (s', rootof sl)
    \<and> turns s s' k (Node pc (Node Red t p sl) sa sr)"
proof -
  obtain rc rl ra rr where r: "sl = Node rc rl ra rr" using assms(2) by (cases sl) auto
  from holdsD [OF assms(1)] assms(3) show ?thesis
    unfolding r by (simp add: erase_case1_left_def rb_exec) auto
qed

lemma erase_case1_right_ok:
  assumes "holds s k (Node pc (Node Red sl sa sr) p t)" "sr \<noteq> Leaf" "rcolor sr = Black"
  shows "\<exists>s'. erase_case1_right s p sa = Some (s', rootof sr)
    \<and> turns s s' k (Node pc sl sa (Node Red sr p t))"
proof -
  obtain rc rl ra rr where r: "sr = Node rc rl ra rr" using assms(2) by (cases sr) auto
  from holdsD [OF assms(1)] assms(3) show ?thesis
    unfolding r by (simp add: erase_case1_right_def rb_exec) auto
qed

section \<open>A turn of the loop\<close>

text \<open>What a turn does at the frame \<open>f\<close> with the short subtree \<open>t\<close> in its hole: it returns the
  next parent, NULL when the repair is complete.\<close>

definition erase_turn :: "(rbs \<times> addr) option \<Rightarrow> rbs \<Rightarrow> addr frame \<Rightarrow> addr ctx \<Rightarrow> addr rtree \<Rightarrow> bool" where
  "erase_turn res s f k t \<longleftrightarrow>
     (\<exists>s'. res = Some (s', if fst (del_step f t) then ctxaddr k else 0)
        \<and> turns s s' k (snd (del_step f t)))"

lemma not_red_cases:
  assumes "rcolor u \<noteq> Red"
  shows "(case u of Leaf \<Rightarrow> x | Node Red a b c \<Rightarrow> f a b c | Node Black a b c \<Rightarrow> x) = x"
  using assms by (auto split: rtree.splits color.splits)

lemma erase_black_left_ok:
  assumes h: "holds s k (Node pc t p (Node Black sl sa sr))"
    and "rb_inv sl" "rb_inv sr"
  shows "erase_turn (erase_black_left s p sa) s (FL pc p (Node Black sl sa sr)) k t"
proof -
  from holdsD(2) [OF h] have p: "placed (heap s) sl" "placed (heap s) sr" by (auto intro: placedI)
  obtain q where g: "get s sa = Some \<lparr>parent_color = q, right = rootof sr, left = rootof sl\<rparr>"
    using holdsD(2) [OF h] by auto
  note e = erase_turn_def erase_black_left_def del_step.simps g moved_root(6) [OF p(1)]
    moved_root(6) [OF p(2)] Let_def
  consider (far) "rcolor sr = Red"
    | (near) a x b where "rcolor sr = Black" "sl = Node Red a x b" "rcolor a = Black" "rcolor b = Black"
    | (none) "rcolor sr = Black" "rcolor sl = Black"
    using assms(2) by (cases "rcolor sr"; cases sl; cases "rcolor sl") simp_all
  then show ?thesis
  proof cases
    case far
    then have "sr \<noteq> Leaf" by auto
    from erase_case4_left_ok [OF h this] far show ?thesis by (auto simp: e)
  next
    case near
    with erase_case34_left_ok [of s k pc t p a x b sa sr] moved_root(6) [OF p(1)] h show ?thesis by (auto simp: e)
  next
    case none
    with erase_case2_left_ok [OF h] show ?thesis by (auto simp: e not_red_cases)
  qed
qed

lemma erase_black_right_ok:
  assumes h: "holds s k (Node pc (Node Black sl sa sr) p t)"
    and "rb_inv sl" "rb_inv sr"
  shows "erase_turn (erase_black_right s p sa) s (FR pc (Node Black sl sa sr) p) k t"
proof -
  from holdsD(2) [OF h] have p: "placed (heap s) sl" "placed (heap s) sr" by (auto intro: placedI)
  obtain q where g: "get s sa = Some \<lparr>parent_color = q, right = rootof sr, left = rootof sl\<rparr>"
    using holdsD(2) [OF h] by auto
  note e = erase_turn_def erase_black_right_def del_step.simps g moved_root(6) [OF p(1)]
    moved_root(6) [OF p(2)] Let_def
  consider (far) "rcolor sl = Red"
    | (near) a x b where "rcolor sl = Black" "sr = Node Red a x b" "rcolor a = Black" "rcolor b = Black"
    | (none) "rcolor sr = Black" "rcolor sl = Black"
    using assms(3) by (cases "rcolor sl"; cases sr; cases "rcolor sr") simp_all
  then show ?thesis
  proof cases
    case far
    then have "sl \<noteq> Leaf" by auto
    from erase_case4_right_ok [OF h this] far show ?thesis by (auto simp: e)
  next
    case near
    with erase_case34_right_ok [of s k pc sl sa a x b p t] moved_root(6) [OF p(2)] h show ?thesis by (auto simp: e)
  next
    case none
    with erase_case2_right_ok [OF h] show ?thesis by (auto simp: e not_red_cases)
  qed
qed

lemma del_step_red: "fcolor f = Red \<Longrightarrow> \<not> fst (del_step f t)"
  by (cases "(f, t)" rule: del_step.cases)
     (auto simp: del_step.simps split: rtree.splits color.splits)

lemma turns_trans:
  assumes "turns s s1 (f # k) u" "turns s1 s2 (f # k) t" "set (nodes t) = set (nodes u)"
  shows "turns s s2 k (fill f t)"
proof -
  have n: "set (cnodes k) \<union> set (nodes (fill f t)) = set (cnodes (f # k)) \<union> set (nodes u)"
    using assms(3) by (cases f) auto
  from assms(1,2) have "same_outside s s2 (set (cnodes (f # k)) \<union> set (nodes u))"
    unfolding turns_def assms(3) by (blast intro: same_outside_trans)
  with assms(2) show ?thesis unfolding turns_def n holds_fill by blast
qed

lemma erase_turn_left_red:
  assumes h: "holds s k (Node pc t p (Node Red sl sa sr))" and i: "rb_inv sl" "sl \<noteq> Leaf" "rcolor sl = Black"
  shows "\<exists>s'. erase_turn_left s p sa = Some (s', 0)
    \<and> turns s s' k (fill (FL pc sa sr) (snd (del_step (FL Red p sl) t)))"
proof -
  obtain al a ar where sl: "sl = Node Black al a ar" using i by (cases sl) auto
  obtain s1 where s1: "erase_case1_left s p sa = Some (s1, a)" "turns s s1 k (Node pc (Node Red t p sl) sa sr)"
    using erase_case1_left_ok [OF h i(2,3)] sl by auto
  then have h1: "holds s1 (FL pc sa sr # k) (Node Red t p (Node Black al a ar))"
    by (simp add: turns_def holds_fill sl)
  obtain s' where s': "erase_black_left s1 p a = Some (s', 0)"
      "turns s1 s' (FL pc sa sr # k) (snd (del_step (FL Red p sl) t))"
    using erase_black_left_ok [OF h1] i(1) del_step_red [of "FL Red p sl" t]
    by (auto simp: erase_turn_def sl)
  have "erase_turn_left s p sa = Some (s', 0)"
    using holdsD [OF h] s1(1) s'(1) by (auto simp: erase_turn_left_def)
  moreover have "turns s s1 (FL pc sa sr # k) (Node Red t p sl)"
    using s1(2) by (auto simp: turns_def holds_fill same_outside_def)
  then have "turns s s' k (fill (FL pc sa sr) (snd (del_step (FL Red p sl) t)))"
    using s'(2) by (rule turns_trans) (simp add: nodes_del_step)
  ultimately show ?thesis by blast
qed

lemma erase_turn_right_red:
  assumes h: "holds s k (Node pc (Node Red sl sa sr) p t)" and i: "rb_inv sr" "sr \<noteq> Leaf" "rcolor sr = Black"
  shows "\<exists>s'. erase_turn_right s p sa = Some (s', 0)
    \<and> turns s s' k (fill (FR pc sl sa) (snd (del_step (FR Red sr p) t)))"
proof -
  obtain al a ar where sr: "sr = Node Black al a ar" using i by (cases sr) auto
  obtain s1 where s1: "erase_case1_right s p sa = Some (s1, a)" "turns s s1 k (Node pc sl sa (Node Red sr p t))"
    using erase_case1_right_ok [OF h i(2,3)] sr by auto
  then have h1: "holds s1 (FR pc sl sa # k) (Node Red (Node Black al a ar) p t)"
    by (simp add: turns_def holds_fill sr)
  obtain s' where s': "erase_black_right s1 p a = Some (s', 0)"
      "turns s1 s' (FR pc sl sa # k) (snd (del_step (FR Red sr p) t))"
    using erase_black_right_ok [OF h1] i(1) del_step_red [of "FR Red sr p" t]
    by (auto simp: erase_turn_def sr)
  have "erase_turn_right s p sa = Some (s', 0)"
    using holdsD [OF h] s1(1) s'(1) by (auto simp: erase_turn_right_def)
  moreover have "turns s s1 (FR pc sl sa # k) (Node Red sr p t)"
    using s1(2) by (auto simp: turns_def holds_fill same_outside_def)
  then have "turns s s' k (fill (FR pc sl sa) (snd (del_step (FR Red sr p) t)))"
    using s'(2) by (rule turns_trans) (simp add: nodes_del_step)
  ultimately show ?thesis by blast
qed

lemma erase_turn_black:
  "holds s k (Node pc t p (Node Black sl sa sr)) \<Longrightarrow> erase_turn_left s p sa = erase_black_left s p sa"
  "holds s k (Node pc (Node Black sl sa sr) p t) \<Longrightarrow> erase_turn_right s p sa = erase_black_right s p sa"
  by (drule holdsD(2), simp add: erase_turn_left_def erase_turn_right_def)+

section \<open>The repair loop\<close>

text \<open>The turn the loop takes at a frame.\<close>

definition loop_turn :: "rbs \<Rightarrow> addr frame \<Rightarrow> (rbs \<times> addr) option" where
  "loop_turn s f = (case f of FL _ p u \<Rightarrow> erase_turn_left s p (rootof u)
                            | FR _ u p \<Rightarrow> erase_turn_right s p (rootof u))"

lemma erase_loop_turn:
  assumes "holds s (f # k) t" "sib_tree f \<noteq> Leaf" "loop_turn s f = Some (s', x)"
  shows "zrbtree_erase_loop s (rootof t) (faddr f) =
    (if x \<noteq> 0 then zrbtree_erase_loop s' (faddr f) x else Some s')"
proof (cases f)
  case (FL c p u)
  then have "rootof t \<noteq> rootof u"
    using assms(1,2) holdsD(2,3) [of s k "Node c t p u"]
    by (cases u; cases t) (auto simp: holds_fill)
  with assms FL holdsD(2) [of s k "Node c t p u"] show ?thesis
    by (subst zrbtree_erase_loop.simps) (auto simp: holds_fill loop_turn_def)
next
  case (FR c u p)
  with assms holdsD(2) [of s k "Node c u p t"] show ?thesis
    by (subst zrbtree_erase_loop.simps) (auto simp: holds_fill loop_turn_def)
qed

lemma loop_turn_black:
  assumes "holds s (f # k) t" "sib_tree f = Node Black sl sa sr" "rb_inv (sib_tree f)"
  shows "erase_turn (loop_turn s f) s f k t"
  using assms erase_turn_black [of s k]
  by (cases f) (auto simp: loop_turn_def holds_fill intro: erase_black_left_ok erase_black_right_ok)

lemma del_step_root: "fst (del_step f t) \<Longrightarrow> rootof (snd (del_step f t)) = faddr f"
  by (cases "(f, t)" rule: del_step.cases)
     (auto simp: del_step.simps split: rtree.splits color.splits if_splits)

lemma del_up_black:
  "sib_tree f = Node Black sl sa sr \<Longrightarrow> del_up (f # k) t =
     (if fst (del_step f t) then del_up k (snd (del_step f t)) else plug k (snd (del_step f t)))"
  by (cases f) auto

lemma loop_turn_red:
  assumes "holds s (f # k) t" "sib_tree f = Node Red sl sa sr" "ctx_inv (f # k) (Suc (bheight t))"
  shows "\<exists>s' u. loop_turn s f = Some (s', 0) \<and> del_up (f # k) t = plug k u \<and> turns s s' k u"
proof (cases f)
  case (FL c p u)
  with assms have "rb_inv sl" "sl \<noteq> Leaf" "rcolor sl = Black" by auto
  from erase_turn_left_red [OF _ this, of s k c t p sa sr] show ?thesis
    using FL assms by (auto simp: loop_turn_def holds_fill)
next
  case (FR c u p)
  with assms have "rb_inv sr" "sr \<noteq> Leaf" "rcolor sr = Black" by auto
  from erase_turn_right_red [OF _ this, of s k c sl sa p t] show ?thesis
    using FR assms by (auto simp: loop_turn_def holds_fill)
qed

text \<open>The result of a repair: the tree \<open>del_up k t\<close>, and nothing written outside of it.\<close>

definition repaired :: "rbs option \<Rightarrow> rbs \<Rightarrow> addr ctx \<Rightarrow> addr rtree \<Rightarrow> bool" where
  "repaired res s k t \<longleftrightarrow>
     (\<exists>s'. res = Some s' \<and> rep s' (del_up k t) \<and> same_outside s s' (set (nodes (plug k t))))"

lemma repaired_turns:
  assumes "turns s s' k u" "del_up (f # k) t = plug k u"
  shows "repaired (Some s') s (f # k) t"
  using turns_rep [OF assms(1)] nodes_del_up [of "f # k" t] assms(2) by (simp add: repaired_def)

lemma repaired_step:
  assumes "turns s s1 k u" "repaired res s1 k u" "del_up (f # k) t = del_up k u"
  shows "repaired res s (f # k) t"
proof -
  from assms(2) obtain s' where s': "res = Some s'" "rep s' (del_up k u)"
    "same_outside s1 s' (set (nodes (plug k u)))" by (auto simp: repaired_def)
  have n: "nodes (plug (f # k) t) = nodes (plug k u)"
    using nodes_del_up [of "f # k" t] nodes_del_up [of k u] assms(3) by simp
  from turns_rep [OF assms(1)] s'(3)
  have "same_outside s s' (set (nodes (plug k u)))" by (blast intro: same_outside_trans)
  with s' assms(3) show ?thesis unfolding repaired_def n by simp
qed

lemma erase_loop_step:
  assumes "holds s (f # k) t" "rb_inv t" "rcolor t = Black" "ctx_inv (f # k) (Suc (bheight t))"
  obtains (stop) s1 u where "zrbtree_erase_loop s (rootof t) (faddr f) = Some s1" "turns s s1 k u"
      "del_up (f # k) t = plug k u"
    | (up) s1 u where "k \<noteq> []" "turns s s1 k u" "del_up (f # k) t = del_up k u"
      "zrbtree_erase_loop s (rootof t) (faddr f) = zrbtree_erase_loop s1 (rootof u) (ctxaddr k)"
      "rb_inv u" "rcolor u = Black" "ctx_inv k (Suc (bheight u))"
proof (cases "sib_tree f")
  case Leaf
  with assms(4) have False by simp
  then show thesis ..
next
  case (Node c sl sa sr)
  note turn = erase_loop_turn [OF assms(1)]
  show thesis
  proof (cases c)
    case Red
    with loop_turn_red [OF assms(1) _ assms(4)] Node turn that(1) show thesis by fastforce
  next
    case Black
    let ?u = "snd (del_step f t)" and ?x = "if fst (del_step f t) then ctxaddr k else 0"
    have sib: "sib_tree f = Node Black sl sa sr" "rb_inv (sib_tree f)" "rcolor (sib_tree f) = Black"
      using Node Black assms(4) by simp_all
    obtain s1 where s1: "loop_turn s f = Some (s1, ?x)" "turns s s1 k ?u"
      using loop_turn_black [OF assms(1) sib(1,2)] by (auto simp: erase_turn_def)
    note loop = turn [OF _ s1(1)] and upd = del_up_black [OF sib(1), of k t]
    have k: "ctxaddr k \<noteq> 0" if "k \<noteq> []"
      using holdsD(1) [of s k "fill f t"] assms(1) that by (cases k) (auto simp: holds_fill)
    show thesis
    proof (cases "fst (del_step f t) \<and> k \<noteq> []")
      case True
      then have "zrbtree_erase_loop s (rootof t) (faddr f) = zrbtree_erase_loop s1 (rootof ?u) (ctxaddr k)"
        using loop sib k del_step_root [of f t] by simp
      with True s1 upd rb_del_black(2) [OF assms(2-4) sib(3)] show thesis by (intro that(2)) auto
    next
      case False
      with s1 upd loop sib show thesis by (intro that(1)) auto
    qed
  qed
qed

lemma erase_loop_correct:
  assumes "holds s (f # k) t" "rb_inv t" "rcolor t = Black" "ctx_inv (f # k) (Suc (bheight t))"
  shows "repaired (zrbtree_erase_loop s (rootof t) (faddr f)) s (f # k) t"
  using assms
proof (induction k arbitrary: s f t)
  case Nil
  from Nil show ?case by (rule erase_loop_step) (auto intro: repaired_turns)
next
  case (Cons g k)
  from Cons.prems show ?case
  proof (rule erase_loop_step)
    fix s1 u
    assume "turns s s1 (g # k) u" "del_up (f # g # k) t = del_up (g # k) u"
      and l: "zrbtree_erase_loop s (rootof t) (faddr f) = zrbtree_erase_loop s1 (rootof u) (ctxaddr (g # k))"
      and "rb_inv u" "rcolor u = Black" "ctx_inv (g # k) (Suc (bheight u))"
    moreover from this have "repaired (zrbtree_erase_loop s1 (rootof u) (faddr g)) s1 (g # k) u"
      by (intro Cons.IH) (auto simp: turns_def)
    ultimately show ?thesis using repaired_step by (simp add: l)
  qed (auto intro: repaired_turns)
qed

section \<open>Segments of a context\<close>

text \<open>The frames \<open>m\<close> between a node with parent address \<open>p\<close> above and the address \<open>x\<close> in the hole
  below.\<close>

fun segup :: "addr ctx \<Rightarrow> addr \<Rightarrow> addr" where
  "segup [] p = p"
| "segup (f # _) p = faddr f"

fun topaddr :: "addr ctx \<Rightarrow> addr \<Rightarrow> addr" where
  "topaddr [] x = x"
| "topaddr (f # m) x = topaddr m (faddr f)"

fun seg :: "(addr \<rightharpoonup> rbnode) \<Rightarrow> addr ctx \<Rightarrow> addr \<Rightarrow> addr \<Rightarrow> bool" where
  "seg h [] p x = True"
| "seg h (f # m) p x \<longleftrightarrow> faddr f \<noteq> 0 \<and> aligned (faddr f) \<and> h (faddr f) = Some (fnode f (segup m p) x)
     \<and> at h (faddr f) (sib_tree f) \<and> seg h m p (faddr f)"

lemma segup_ctxaddr: "ctxaddr (m @ k) = segup m (ctxaddr k)"
  by (cases m) auto

lemma ctx_at_append:
  "ctx_at s (m @ k) x \<longleftrightarrow> seg (heap s) m (ctxaddr k) x \<and> ctx_at s k (topaddr m x)"
  by (induction m arbitrary: x) (auto simp: segup_ctxaddr)

lemma seg_cong: "(\<And>a. a \<in> set (cnodes m) \<Longrightarrow> h' a = h a) \<Longrightarrow> seg h' m p x = seg h m p x"
proof (induction m arbitrary: x)
  case (Cons f m)
  then have "at h' (faddr f) (sib_tree f) = at h (faddr f) (sib_tree f)"
    by (intro at_cong) simp
  with Cons show ?case by simp
qed simp

lemma set_cnodes_append [simp]: "set (cnodes (m @ k)) = set (cnodes m) \<union> set (cnodes k)"
  by (auto simp: cnodes_def)

lemma distinct_cnodes_Cons:
  "distinct (cnodes (f # k)) \<longleftrightarrow>
     distinct (nodes (sib_tree f)) \<and> distinct (cnodes k) \<and> faddr f \<notin> set (nodes (sib_tree f))
     \<and> faddr f \<notin> set (cnodes k) \<and> set (nodes (sib_tree f)) \<inter> set (cnodes k) = {}"
  by (cases f) (auto simp: cnodes_def)

lemma distinct_cnodes_append:
  "distinct (cnodes (m @ k)) \<longleftrightarrow> distinct (cnodes m) \<and> distinct (cnodes k) \<and> set (cnodes m) \<inter> set (cnodes k) = {}"
  for m :: "addr ctx"
  by (induction m) (auto simp: distinct_cnodes_Cons)

lemma topaddr_in: "m \<noteq> [] \<Longrightarrow> topaddr m x \<in> set (cnodes m)"
proof (induction m arbitrary: x)
  case (Cons f m)
  then show ?case by (cases m) auto
qed simp

lemma seg_bottom:
  assumes "seg h (f # m) p x" "distinct (cnodes (f # m))"
  shows "seg (h(faddr f \<mapsto> fnode f (segup m p) y)) (f # m) p y"
proof -
  have "seg (h(faddr f \<mapsto> fnode f (segup m p) y)) m p (faddr f) = seg h m p (faddr f)"
    using assms(2) by (intro seg_cong) (auto simp: distinct_cnodes_Cons)
  with assms show ?thesis by (auto simp: distinct_cnodes_Cons)
qed

text \<open>Giving the topmost frame another parent.\<close>

lemma fnode_set_parent:
  "aligned p \<Longrightarrow> (fnode f p x)\<lparr>parent_color := (parent_color (fnode f p x) AND 1) OR q\<rparr> = fnode f q x"
  by (cases f) auto

lemma seg_top:
  assumes "seg (heap s) m p x" "distinct (cnodes m)" "m \<noteq> []" "aligned p"
  shows "\<exists>h. zrbtree_set_parent s (topaddr m x) q = Some (s\<lparr>heap := h\<rparr>) \<and> seg h m q x
    \<and> (\<forall>a. a \<noteq> topaddr m x \<longrightarrow> h a = heap s a)"
  using assms
proof (induction m arbitrary: x)
  case (Cons f m)
  show ?case
  proof (cases m)
    case Nil
    let ?h = "(heap s)(faddr f \<mapsto> fnode f q x)"
    from Nil Cons.prems have n: "heap s (faddr f) = Some (fnode f p x)" "faddr f \<noteq> 0"
        "aligned (faddr f)" and a: "at ?h (faddr f) (sib_tree f)"
      by (auto simp: distinct_cnodes_Cons)
    have "zrbtree_set_parent s (faddr f) q = Some (s\<lparr>heap := ?h\<rparr>)"
      using n fnode_set_parent [OF Cons.prems(4), of f x q]
      by (simp add: zrbtree_set_parent_def upd_Some)
    with a n have "zrbtree_set_parent s (faddr f) q = Some (s\<lparr>heap := ?h\<rparr>) \<and> seg ?h [f] q x
        \<and> (\<forall>a. a \<noteq> faddr f \<longrightarrow> ?h a = heap s a)" by simp
    then show ?thesis unfolding Nil topaddr.simps by blast
  next
    case (Cons g m')
    have d: "topaddr m (faddr f) \<in> set (cnodes m)" using Cons by (intro topaddr_in) simp
    obtain h where h: "zrbtree_set_parent s (topaddr m (faddr f)) q = Some (s\<lparr>heap := h\<rparr>)"
        "seg h m q (faddr f)" "\<forall>a. a \<noteq> topaddr m (faddr f) \<longrightarrow> h a = heap s a"
      using Cons.IH [of "faddr f"] Cons.prems Cons by (auto simp: distinct_cnodes_Cons)
    have "h a = heap s a" if "a \<in> set (nodes (sib_tree f))" for a
      using that h(3) d Cons.prems(2) unfolding distinct_cnodes_Cons by (metis IntI empty_iff)
    then have "at h (faddr f) (sib_tree f) = at (heap s) (faddr f) (sib_tree f)" by (rule at_cong)
    moreover have "h (faddr f) = heap s (faddr f)"
      using h(3) d Cons.prems(2) unfolding distinct_cnodes_Cons by metis
    ultimately show ?thesis using h Cons Cons.prems(1) by (intro exI [of _ h]) auto
  qed
qed simp

section \<open>The successor\<close>

text \<open>Walking down the left spine below \<open>a\<close> finds the leftmost node and its parent.\<close>

lemma successor_loop_correct:
  assumes "at (heap s) q (Node c l a r)" "succ_of c l a r = (m, sc, x, cr)"
  shows "successor_loop s p a = Some (segup m p, x)"
  using assms
proof (induction c l a r arbitrary: q p m rule: succ_of.induct)
  case (1 c a r)
  then show ?case by (subst successor_loop.simps) auto
next
  case (2 c c' l' a' r' a r)
  obtain m' where m: "succ_of c' l' a' r' = (m', sc, x, cr)" "m = m' @ [FL c a r]"
    using "2.prems"(2) by (auto split: prod.splits)
  from 2(1) [OF _ m(1), of a a] "2.prems"(1) have "successor_loop s a a' = Some (segup m' a, x)" by auto
  with "2.prems"(1) m(2) show ?case
    by (subst successor_loop.simps) (cases m'; auto)
qed

lemma succ_of_top: "succ_of c l a r = (m, sc, x, cr) \<Longrightarrow> topaddr m x = a"
proof (induction c l a r arbitrary: m rule: succ_of.induct)
  case (2 c c' l' a' r' a r)
  have "topaddr (k @ [f]) y = faddr f" for k f y by (induction k arbitrary: y) auto
  with 2 show ?case by (auto split: prod.splits)
qed simp

text \<open>The state after the successor \<open>x\<close> was cut out of the right subtree: the segment \<open>m\<close> hangs
  below \<open>x\<close>, with the successor's right child in its hole.\<close>

definition spliced :: "rbs \<Rightarrow> rbs \<Rightarrow> addr ctx \<Rightarrow> addr \<Rightarrow> color \<Rightarrow> addr \<Rightarrow> addr rtree \<Rightarrow> bool" where
  "spliced s s' m n sc x cr \<longleftrightarrow> root s' = root s
     \<and> heap s' x = Some \<lparr>parent_color = segup m n OR cbit sc, right = topaddr m (rootof cr), left = 0\<rparr>
     \<and> seg (heap s') m x (rootof cr) \<and> same_outside s s' (insert x (set (cnodes m)))"

lemma topaddr_any: "m \<noteq> [] \<Longrightarrow> topaddr m x = topaddr m y"
  by (cases m) auto

lemma erase_splice_deep:
  assumes h: "holds s (m @ FR c l n # k) (Node sc Leaf x cr)"
    and r: "at (heap s) n (Node rc rl ra rr)" and u: "succ_of rc rl ra rr = (m, sc, x, cr)"
    and "rl \<noteq> Leaf"
  shows "\<exists>s'. erase_splice s ra = Some (s', segup m x, x, rootof cr) \<and> spliced s s' m n sc x cr"
proof -
  obtain lc ll la lr where rl: "rl = Node lc ll la lr" using assms(4) by (cases rl) auto
  then have "m \<noteq> []" using u by (auto split: prod.splits)
  then obtain f m' where m: "m = f # m'" by (cases m) auto
  obtain fc fa fr where f: "f = FL fc fa fr"
    using succ_of_left [OF u] m by (cases f) auto
  note d = holdsD [OF h]
  have dm: "distinct (cnodes m)" "x \<notin> set (cnodes m)" "aligned n"
    using d(1,3) by (auto simp: distinct_cnodes_append ctx_at_append)
  have sg: "seg (heap s) m n x" using d(1) by (simp add: ctx_at_append)
  obtain m1 where m1: "succ_of lc ll la lr = (m1, sc, x, cr)" "m = m1 @ [FL rc ra rr]"
    using u rl by (auto split: prod.splits)
  have loop: "successor_loop s ra la = Some (fa, x)"
    using successor_loop_correct [OF _ m1(1), of s ra ra] r rl m1(2) m f by (cases m1) auto
  define s1 where "s1 = s\<lparr>heap := (heap s)(fa \<mapsto> fnode f (segup m' n) (rootof cr),
    x \<mapsto> \<lparr>parent_color = fa OR cbit sc, right = ra, left = 0\<rparr>)\<rparr>"
  have "seg ((heap s)(fa \<mapsto> fnode f (segup m' n) (rootof cr))) m n (rootof cr)"
    using seg_bottom [of "heap s" f m' n x "rootof cr"] sg dm(1) m f by simp
  then have sg1: "seg (heap s1) m n (rootof cr)"
    using dm(2) by (subst seg_cong) (auto simp: s1_def)
  have top: "topaddr m (rootof cr) = ra"
    using succ_of_top [OF u] topaddr_any \<open>m \<noteq> []\<close> by metis
  obtain h' where h': "zrbtree_set_parent s1 ra x = Some (s1\<lparr>heap := h'\<rparr>)"
      "seg h' m x (rootof cr)" "\<forall>a. a \<noteq> ra \<longrightarrow> h' a = heap s1 a"
    using seg_top [OF sg1 dm(1) \<open>m \<noteq> []\<close> dm(3), of x] by (auto simp: top)
  have "erase_splice s ra = Some (s1\<lparr>heap := h'\<rparr>, fa, x, rootof cr)"
    using r rl loop d(1,2) h'(1) dm m f
    by (auto simp: erase_splice_def s1_def upd_def segup_ctxaddr)
  moreover have in_m: "ra \<in> set (cnodes m)" "fa \<in> set (cnodes m)" and "segup m n = fa"
    using topaddr_in [OF \<open>m \<noteq> []\<close>, of "rootof cr"] top m f by auto
  then have "spliced s (s1\<lparr>heap := h'\<rparr>) m n sc x cr"
    using h'(2,3) dm(2) unfolding spliced_def same_outside_def top by (auto simp: s1_def)
  ultimately show ?thesis using m f by auto
qed

lemma erase_splice_ok:
  assumes "holds s (m @ FR c l n # k) (Node sc Leaf x cr)"
    and "at (heap s) n (Node rc rl ra rr)" and "succ_of rc rl ra rr = (m, sc, x, cr)"
  shows "\<exists>s'. erase_splice s ra = Some (s', segup m x, x, rootof cr) \<and> spliced s s' m n sc x cr"
proof (cases "rl = Leaf")
  case True
  with assms(2,3) show ?thesis
    by (auto simp: erase_splice_def spliced_def same_outside_def)
qed (rule erase_splice_deep [OF assms])

section \<open>Cutting out the node\<close>

text \<open>The node \<open>n\<close> is out: the tree \<open>u\<close> is in place in the context \<open>k\<close>; the returned node, when
  it is not NULL, is the parent of a subtree that is one black node short.\<close>

definition cuts :: "(rbs \<times> addr) option \<Rightarrow> rbs \<Rightarrow> addr set \<Rightarrow> addr ctx \<Rightarrow> addr rtree \<Rightarrow> bool \<Rightarrow> bool" where
  "cuts res s A k u short \<longleftrightarrow>
     (\<exists>s'. res = Some (s', if short then ctxaddr k else 0) \<and> holds s' k u \<and> same_outside s s' A)"

text \<open>The state when the successor \<open>x\<close> has taken over the left subtree of \<open>n\<close>.\<close>

definition linked :: "rbs \<Rightarrow> rbs \<Rightarrow> addr ctx \<Rightarrow> addr ctx \<Rightarrow> addr rtree \<Rightarrow> addr \<Rightarrow> color \<Rightarrow> addr \<Rightarrow> addr rtree \<Rightarrow> bool" where
  "linked s s5 m k l n sc x cr \<longleftrightarrow> ctx_at s5 k n \<and> heap s5 n = heap s n
     \<and> heap s5 x = Some \<lparr>parent_color = segup m n OR cbit sc, right = topaddr m (rootof cr), left = rootof l\<rparr>
     \<and> seg (heap s5) m x (rootof cr) \<and> at (heap s5) x l \<and> at (heap s5) x cr
     \<and> same_outside s s5 (insert x (set (cnodes m) \<union> set (nodes l)))"

lemma holds_relabel:
  assumes "holds s (m @ FR c l n # k) (Node sc Leaf x cr)"
  shows "ctx_at s k n" "at (heap s) n l" "at (heap s) x cr" "x \<noteq> 0" "n \<noteq> 0" "aligned x" "aligned n"
    and "heap s n = Some \<lparr>parent_color = ctxaddr k OR cbit c, right = topaddr m x, left = rootof l\<rparr>"
    and "distinct (cnodes m)" "distinct (cnodes k)" "distinct (nodes l)" "distinct (nodes cr)"
    and "n \<notin> set (cnodes m)" "n \<notin> set (cnodes k)" "n \<notin> set (nodes l)" "n \<notin> set (nodes cr)"
    and "x \<notin> set (cnodes m)" "x \<notin> set (cnodes k)" "x \<notin> set (nodes l)" "x \<notin> set (nodes cr)" "x \<noteq> n"
    and "set (cnodes m) \<inter> set (cnodes k) = {}" "set (cnodes m) \<inter> set (nodes l) = {}"
    and "set (cnodes m) \<inter> set (nodes cr) = {}" "set (cnodes k) \<inter> set (nodes l) = {}"
    and "set (cnodes k) \<inter> set (nodes cr) = {}" "set (nodes l) \<inter> set (nodes cr) = {}"
  using holdsD [OF assms]
  by (auto simp: ctx_at_append distinct_cnodes_append distinct_cnodes_Cons)

lemma same_outside_keeps:
  assumes "same_outside s s' A"
  shows "A \<inter> set (nodes t) = {} \<Longrightarrow> at (heap s') p t = at (heap s) p t"
    and "A \<inter> set (cnodes k) = {} \<Longrightarrow> root s' = root s \<Longrightarrow> ctx_at s' k y = ctx_at s k y"
proof -
  from assms have o: "heap s' a = heap s a" if "a \<notin> A" for a
    using that by (simp add: same_outside_def)
  show "A \<inter> set (nodes t) = {} \<Longrightarrow> at (heap s') p t = at (heap s) p t"
    by (rule at_cong, rule o) blast
  show "A \<inter> set (cnodes k) = {} \<Longrightarrow> root s' = root s \<Longrightarrow> ctx_at s' k y = ctx_at s k y"
    by (rule ctx_at_cong, assumption, rule o) blast
qed

lemma erase_link:
  assumes p: "spliced s s3 m n sc x cr" and h: "holds s (m @ FR c l n # k) (Node sc Leaf x cr)"
    and "l \<noteq> Leaf"
  shows "\<exists>s4 s5. set_left s3 x (rootof l) = Some s4 \<and> zrbtree_set_parent s4 (rootof l) x = Some s5
    \<and> linked s s5 m k l n sc x cr"
proof -
  obtain lc ll la lr where l: "l = Node lc ll la lr" using assms(3) by (cases l) auto
  note r = holds_relabel [OF h]
  have o: "same_outside s s3 (insert x (set (cnodes m)))" and "root s3 = root s"
    using p by (simp_all add: spliced_def)
  then have a: "at (heap s3) n l" "at (heap s3) x cr" "ctx_at s3 k n" "heap s3 n = heap s n"
    using same_outside_keeps [OF o] r by (auto simp: same_outside_def)
  have "seg ((heap s3)(x \<mapsto> u, la \<mapsto> v)) m x (rootof cr) = seg (heap s3) m x (rootof cr)" for u v
    using r l by (intro seg_cong) auto
  with p a r show ?thesis unfolding l
    by (auto simp: upd_def zrbtree_set_parent_def linked_def spliced_def same_outside_def rb_exec)
qed

lemma seg_other:
  "a \<notin> set (cnodes m) \<Longrightarrow> seg (h(a := v)) m p x = seg h m p x"
  "set (cnodes m) \<inter> set (nodes t) = {} \<Longrightarrow> seg (set_root h t q c) m p x = seg h m p x"
  "set (cnodes m) \<inter> set (cnodes k) = {} \<Longrightarrow> seg (heap (rehole s k y)) m p x = seg (heap s) m p x"
proof -
  show "a \<notin> set (cnodes m) \<Longrightarrow> seg (h(a := v)) m p x = seg h m p x"
    by (rule seg_cong) auto
  show "set (cnodes m) \<inter> set (nodes t) = {} \<Longrightarrow> seg (set_root h t q c) m p x = seg h m p x"
    by (rule seg_cong, rule set_root_other) blast
  show "set (cnodes m) \<inter> set (cnodes k) = {} \<Longrightarrow> seg (heap (rehole s k y)) m p x = seg (heap s) m p x"
    by (rule seg_cong, rule heap_rehole_other) blast
qed

lemma heap_update_id [simp]: "s\<lparr>heap := heap s\<rparr> = s"
  by simp

text \<open>The final state of the splice.\<close>

definition moved_in :: "rbs \<Rightarrow> addr ctx \<Rightarrow> addr ctx \<Rightarrow> color \<Rightarrow> addr rtree \<Rightarrow> addr \<Rightarrow> addr rtree \<Rightarrow> rbs" where
  "moved_in s m k c l x cr = (rehole s k x)\<lparr>heap := set_root ((heap (rehole s k x))(x \<mapsto>
     \<lparr>parent_color = ctxaddr k OR cbit c, right = topaddr m (rootof cr), left = rootof l\<rparr>))
     cr (segup m x) Black\<rparr>"

lemma moved_in_holds:
  assumes h: "holds s (m @ FR c l n # k) (Node sc Leaf x cr)" and p: "linked s s5 m k l n sc x cr"
  shows "holds (moved_in s5 m k c l x cr) (m @ FR c l x # k) (paint Black cr)"
proof -
  note r = holds_relabel [OF h]
  let ?s = "moved_in s5 m k c l x cr"
  have sg: "seg (heap ?s) m x (rootof cr)"
    using p r by (simp add: moved_in_def linked_def seg_other)
  have "ctx_at (rehole s5 k x) k x"
    using p r(10) by (auto simp: linked_def intro: ctx_at_rehole)
  then have k: "ctx_at ?s k x" using r by (simp add: moved_in_def ctx_at_other)
  have l: "at (heap ?s) x l" using p r by (simp add: moved_in_def linked_def rb_exec)
  have x: "heap ?s x = Some (fnode (FR c l x) (ctxaddr k) (topaddr m (rootof cr)))"
    using r by (simp add: moved_in_def)
  have c: "at (heap ?s) (segup m x) (paint Black cr)"
    using p r by (auto simp: moved_in_def linked_def intro: at_set_root)
  have "distinct (cnodes (m @ FR c l x # k) @ nodes (paint Black cr))"
    using r by (auto simp: distinct_cnodes_append distinct_cnodes_Cons)
  with sg k l x c r show ?thesis
    by (simp add: holds_def ctx_at_append segup_ctxaddr)
qed

lemma moved_in_outside:
  assumes h: "holds s (m @ FR c l n # k) (Node sc Leaf x cr)" and p: "linked s s5 m k l n sc x cr"
  shows "same_outside s (moved_in s5 m k c l x cr) (set (nodes (plug (m @ FR c l n # k) (Node sc Leaf x cr))))"
  using p unfolding same_outside_def linked_def moved_in_def set_nodes_plug by auto

lemma erase_two_children_ok:
  assumes h: "holds s (m @ FR c l n # k) (Node sc Leaf x cr)"
    and r: "at (heap s) n (Node rc rl ra rr)" and u: "succ_of rc rl ra rr = (m, sc, x, cr)"
    and l: "l \<noteq> Leaf" and nn: "right nn = ra"
  shows "cuts (erase_two_children s n nn) s (set (nodes (plug (m @ FR c l n # k) (Node sc Leaf x cr))))
    (m @ FR c l x # k) (paint Black cr) (cr = Leaf \<and> sc = Black)"
proof -
  obtain s3 where s3: "erase_splice s ra = Some (s3, segup m x, x, rootof cr)" "spliced s s3 m n sc x cr"
    using erase_splice_ok [OF h r u] by blast
  obtain s4 s5 where s5: "set_left s3 x (rootof l) = Some s4" "zrbtree_set_parent s4 (rootof l) x = Some s5"
      "linked s s5 m k l n sc x cr"
    using erase_link [OF s3(2) h l] by blast
  note q = holds_relabel [OF h]
  have n3: "get s3 n = heap s n"
    using s3(2) q by (auto simp: spliced_def same_outside_def)
  have c: "zrbtree_change_child s5 n x (ctxaddr k) = Some (rehole s5 k x)"
    using s5(3) q by (intro change_child_hole) (auto simp: linked_def)
  let ?s6 = "rehole s5 k x"
  let ?s7 = "?s6\<lparr>heap := (heap ?s6)(x \<mapsto> \<lparr>parent_color = ctxaddr k OR cbit c,
      right = topaddr m (rootof cr), left = rootof l\<rparr>)\<rparr>"
  have n5: "get s5 n = heap s n" and x6: "get ?s6 x = heap s5 x"
    using s5(3) q by (simp_all add: linked_def)
  have w: "set_pc ?s6 x (ctxaddr k OR cbit c) = Some ?s7"
    using s5(3) x6 by (simp add: upd_Some linked_def)
  have "at (heap ?s7) x cr" using s5(3) q by (simp add: linked_def)
  then have v: "cr \<noteq> Leaf \<Longrightarrow> zrbtree_set_parent_color ?s7 (rootof cr) (segup m x) Black =
      Some (moved_in s5 m k c l x cr)" and z: "rootof cr = 0 \<longleftrightarrow> cr = Leaf"
    by (simp_all add: set_parent_color_root moved_in_def at_rootof)
  have al: "aligned (segup m n)" "aligned (ctxaddr k)"
    using holdsD(4) [OF h] q holdsD(1) [OF h] by (cases k; cases m; auto simp: ctx_at_append)+
  have "erase_two_children s n nn = Some (moved_in s5 m k c l x cr,
      if cr = Leaf \<and> sc = Black then segup m x else 0)"
    using s5(3) by (cases "cr = Leaf")
      (simp_all add: erase_two_children_def nn s3(1) n3 q(8) s5(1,2) n5 al c w v z x6 linked_def
        moved_in_def Let_def)
  with moved_in_holds [OF h s5(3)] moved_in_outside [OF h s5(3)] show ?thesis
    by (simp add: cuts_def segup_ctxaddr)
qed

lemma erase_leaf_ok:
  assumes "holds s k (Node c Leaf n Leaf)"
  shows "cuts (zrbtree_erase_augmented s n) s (set (nodes (plug k (Node c Leaf n Leaf)))) k Leaf (c = Black)"
  using holdsD [OF assms]
  by (auto simp: cuts_def zrbtree_erase_augmented_def erase_no_left_def set_nodes_plug rb_exec)

lemma erase_only_right_ok:
  assumes "holds s k (Node c Leaf n r)" "r \<noteq> Leaf"
  shows "cuts (zrbtree_erase_augmented s n) s (set (nodes (plug k (Node c Leaf n r)))) k (paint c r) False"
proof -
  obtain rc rl ra rr where r: "r = Node rc rl ra rr" using assms(2) by (cases r) auto
  note d = holdsD [OF assms(1)]
  let ?s = "(rehole s k ra)\<lparr>heap := (heap (rehole s k ra))(ra \<mapsto>
    \<lparr>parent_color = ctxaddr k OR cbit c, right = rootof rr, left = rootof rl\<rparr>)\<rparr>"
  have "ctx_at (rehole s k ra) k ra" using d(1,3) by (auto intro: ctx_at_rehole)
  with d have "holds ?s k (paint c r)" unfolding r by (auto simp: holds_def ctx_at_other Int_Un_distrib)
  moreover have "zrbtree_erase_augmented s n = Some (?s, 0)"
    using d unfolding r by (auto simp: zrbtree_erase_augmented_def erase_no_left_def rb_exec)
  ultimately show ?thesis unfolding cuts_def r by (auto simp: same_outside_def set_nodes_plug)
qed

lemma erase_only_left_ok:
  assumes "holds s k (Node c l n Leaf)" "l \<noteq> Leaf"
  shows "cuts (zrbtree_erase_augmented s n) s (set (nodes (plug k (Node c l n Leaf)))) k (paint c l) False"
proof -
  obtain lc ll la lr where l: "l = Node lc ll la lr" using assms(2) by (cases l) auto
  from holdsD [OF assms(1)] show ?thesis unfolding l
    by (auto simp: cuts_def zrbtree_erase_augmented_def erase_no_right_def set_nodes_plug rb_exec)
qed

lemma erase_both_ok:
  assumes h: "holds s k (Node c l n (Node rc rl ra rr))" and l: "l \<noteq> Leaf"
    and u: "succ_of rc rl ra rr = (m, sc, x, cr)"
  shows "cuts (zrbtree_erase_augmented s n) s (set (nodes (plug k (Node c l n (Node rc rl ra rr)))))
    (m @ FR c l x # k) (paint Black cr) (cr = Leaf \<and> sc = Black)"
proof -
  have p: "plug (m @ FR c l n # k) (Node sc Leaf x cr) = plug k (Node c l n (Node rc rl ra rr))"
    by (simp add: plug_append succ_of_plug [OF u])
  have h': "holds s (m @ FR c l n # k) (Node sc Leaf x cr)"
    using h p by (metis rep_plug)
  obtain lc ll la lr where "l = Node lc ll la lr" using l by (cases l) auto
  with holdsD(2) [OF h] erase_two_children_ok [OF h' _ u l, unfolded p] show ?thesis
    by (auto simp: zrbtree_erase_augmented_def)
qed

section \<open>Removal\<close>

lemma cut_done:
  assumes "cuts (zrbtree_erase_augmented s n) s A k u False"
  shows "\<exists>s'. zrbtree_erase s n = Some s' \<and> rep s' (plug k u) \<and> same_outside s s' A"
  using assms by (auto simp: cuts_def zrbtree_erase_def rep_plug)

lemma cut_close:
  assumes "cuts (zrbtree_erase_augmented s n) s A k Leaf (c = Black)"
    and "ctx_inv k (if c = Black then 1 else 0)" "set (cnodes k) \<subseteq> A"
  shows "\<exists>s'. zrbtree_erase s n = Some s' \<and> rep s' (close_gap k c) \<and> same_outside s s' A"
proof (cases "c = Black \<and> k \<noteq> []")
  case False
  then have "close_gap k c = plug k Leaf" by (auto simp: close_gap_def)
  with False assms(1) show ?thesis by (auto simp: cuts_def zrbtree_erase_def rep_plug)
next
  case True
  then obtain f k' where k: "k = f # k'" by (cases k) auto
  from assms(1) True k obtain s1 where s1: "zrbtree_erase_augmented s n = Some (s1, faddr f)"
      "holds s1 (f # k') Leaf" "same_outside s s1 A" by (auto simp: cuts_def)
  have "repaired (zrbtree_erase_loop s1 (rootof Leaf) (faddr f)) s1 (f # k') Leaf"
    using s1(2) assms(2) True k by (intro erase_loop_correct) auto
  then obtain s' where s': "zrbtree_erase_loop s1 0 (faddr f) = Some s'" "rep s' (del_up k Leaf)"
      "same_outside s1 s' (set (cnodes k))"
    unfolding repaired_def k set_nodes_plug by auto
  from s'(3) assms(3) s1(3) have "same_outside s s' A" by (auto simp: same_outside_def)
  moreover have "faddr f \<noteq> 0" using s1(2) by (simp add: holds_def)
  ultimately show ?thesis using s' s1(1) True by (simp add: zrbtree_erase_def close_gap_def)
qed

lemma erase_correct:
  assumes h: "holds s k (Node c l n r)" and t: "rb_tree (plug k (Node c l n r))"
  shows "\<exists>s'. zrbtree_erase s n = Some s' \<and> rep s' (erase_at k c l r)
    \<and> same_outside s s' (set (nodes (plug k (Node c l n r))))"
proof (cases "(k, c, l, r)" rule: erase_at.cases)
  case (1 k' c')
  with h t erase_leaf_ok [of s k c n] show ?thesis
    by (auto simp: rb_tree_plug set_nodes_plug intro: cut_close)
next
  case (2 k' c' rc rl ra rr)
  with h cut_done [OF erase_only_right_ok [of s k c n r]] show ?thesis by auto
next
  case (3 k' c' lc ll la lr)
  with h cut_done [OF erase_only_left_ok [of s k c l n]] show ?thesis by auto
next
  case (4 k' c' lc ll la lr rc rl ra rr)
  obtain m sc x cr where u: "succ_of rc rl ra rr = (m, sc, x, cr)" by (metis prod_cases4)
  let ?A = "set (nodes (plug k (Node c l n (Node rc rl ra rr))))"
  have ct: "cuts (zrbtree_erase_augmented s n) s ?A (m @ FR c l x # k) (paint Black cr) (cr = Leaf \<and> sc = Black)"
    using 4 h by (intro erase_both_ok u) auto
  have t': "rb_tree (plug (m @ FR c l n # k) (Node sc Leaf x cr))"
    using t 4 by (simp add: plug_append succ_of_plug [OF u, symmetric])
  show ?thesis
  proof (cases "cr = Leaf")
    case True
    have "set (cnodes (m @ FR c l x # k)) \<subseteq> ?A"
      unfolding succ_of_plug [OF u] by (auto simp: set_nodes_plug)
    moreover have "ctx_inv (m @ FR c l x # k) (if sc = Black then 1 else 0)"
      using t' True ctx_inv_relabel(1) [of m c l x k _ n] by (simp add: rb_tree_plug)
    ultimately show ?thesis using 4 u True cut_close [of s n ?A "m @ FR c l x # k" sc] ct by simp
  next
    case False
    with ct 4 u cut_done [of s n ?A "m @ FR c l x # k" "paint Black cr"] show ?thesis by simp
  qed
qed

end
