(* ===== verification/RbIndex.thy ===== *)
theory RbIndex
  imports RbSearch
begin

text \<open>
  What the red-black tree promises to its clients, as facts on the list of its nodes in order:
  \<open>rbt s ns\<close> says that the heap \<open>s\<close> holds a well-formed tree with exactly the nodes \<open>ns\<close>. The
  locale \<open>node_index\<close> is the interface the containers are built on; it is interpreted on the
  pointer code at the end.
\<close>

section \<open>The abstraction\<close>

definition rbt :: "rbs \<Rightarrow> addr list \<Rightarrow> bool" where
  "rbt s ns \<longleftrightarrow> (\<exists>t. rep s t \<and> rb_tree t \<and> nodes t = ns)"

lemma rbtI: "rep s t \<Longrightarrow> rb_tree t \<Longrightarrow> nodes t = ns \<Longrightarrow> rbt s ns"
  by (auto simp: rbt_def)

lemma nodes_split:
  "nodes t = xs @ n # ys \<Longrightarrow>
   \<exists>k c l r. t = plug k (Node c l n r) \<and> before k @ nodes l = xs \<and> nodes r @ after k = ys"
proof (induction t arbitrary: xs ys)
  case (Node c l a r)
  consider (left) zs where "nodes l = xs @ n # zs" "ys = zs @ a # nodes r"
    | (here) "n = a" "xs = nodes l" "ys = nodes r"
    | (right) zs where "nodes r = zs @ n # ys" "xs = nodes l @ a # zs"
    using Node.prems by (auto simp: append_eq_append_conv2 append_eq_Cons_conv Cons_eq_append_conv)
  then show ?case
  proof cases
    case left
    from Node.IH(1) [OF left(1)] obtain k c' l' r' where k: "l = plug k (Node c' l' n r')"
      "before k @ nodes l' = xs" "nodes r' @ after k = zs" by blast
    then have "Node c l a r = plug (k @ [FL c a r]) (Node c' l' n r')
        \<and> before (k @ [FL c a r]) @ nodes l' = xs \<and> nodes r' @ after (k @ [FL c a r]) = ys"
      using left by (auto simp: plug_append)
    then show ?thesis by blast
  next
    case here
    then have "Node c l a r = plug [] (Node c l n r) \<and> before [] @ nodes l = xs \<and> nodes r @ after [] = ys"
      by simp
    then show ?thesis by blast
  next
    case right
    from Node.IH(2) [OF right(1)] obtain k c' l' r' where k: "r = plug k (Node c' l' n r')"
      "before k @ nodes l' = zs" "nodes r' @ after k = ys" by blast
    then have "Node c l a r = plug (k @ [FR c l a]) (Node c' l' n r')
        \<and> before (k @ [FR c l a]) @ nodes l' = xs \<and> nodes r' @ after (k @ [FR c l a]) = ys"
      using right by (auto simp: plug_append)
    then show ?thesis by blast
  qed
qed simp

text \<open>Opening a tree at one of its nodes.\<close>

lemma rbt_split:
  assumes "rbt s (xs @ n # ys)"
  obtains k c l r where "holds s k (Node c l n r)" "rb_tree (plug k (Node c l n r))"
    "before k @ nodes l = xs" "nodes r @ after k = ys"
    "nodes (plug k (Node c l n r)) = xs @ n # ys"
proof -
  from assms obtain t where t: "rep s t" "rb_tree t" "nodes t = xs @ n # ys" by (auto simp: rbt_def)
  from nodes_split [OF t(3)] obtain k c l r where k: "t = plug k (Node c l n r)"
    "before k @ nodes l = xs" "nodes r @ after k = ys" by blast
  with t that show thesis by (simp add: rep_plug)
qed

lemma rbt_distinct: "rbt s ns \<Longrightarrow> distinct ns"
  by (auto simp: rbt_def holds_def)

lemma rbt_nodes: "rbt s ns \<Longrightarrow> a \<in> set ns \<Longrightarrow> a \<noteq> 0 \<and> aligned a \<and> heap s a \<noteq> None"
proof -
  have "at h p t \<Longrightarrow> a \<in> set (nodes t) \<Longrightarrow> a \<noteq> 0 \<and> aligned a \<and> h a \<noteq> None" for h p t
    by (induction t arbitrary: p) auto
  then show "rbt s ns \<Longrightarrow> a \<in> set ns \<Longrightarrow> a \<noteq> 0 \<and> aligned a \<and> heap s a \<noteq> None"
    unfolding rbt_def holds_def by blast
qed

lemma rbt_cong:
  assumes "rbt s ns" "root s' = root s" "\<And>a. a \<in> set ns \<Longrightarrow> heap s' a = heap s a"
  shows "rbt s' ns"
proof -
  from assms(1) obtain t where t: "rep s t" "rb_tree t" "nodes t = ns" by (auto simp: rbt_def)
  then have "at (heap s') 0 t = at (heap s) 0 t" using assms(3) by (intro at_cong) auto
  with t assms(2) show ?thesis unfolding rbt_def holds_def by auto
qed

lemma rbt_init: "rbt (zrbtree_init s) []"
  by (rule rbtI [of _ Leaf]) (auto simp: zrbtree_init_def holds_def rb_tree_def)

section \<open>Removal\<close>

lemma rbt_erase:
  assumes "rbt s (xs @ n # ys)"
  shows "\<exists>s'. zrbtree_erase s n = Some s' \<and> rbt s' (xs @ ys) \<and> same_outside s s' (set (xs @ n # ys))"
proof -
  from assms obtain k c l r where k: "holds s k (Node c l n r)" "rb_tree (plug k (Node c l n r))"
    "before k @ nodes l = xs" "nodes r @ after k = ys" "nodes (plug k (Node c l n r)) = xs @ n # ys"
    by (rule rbt_split)
  have "nodes (erase_at k c l r) = xs @ ys" using k(3,4) by (simp add: nodes_erase_at flip: k(3,4))
  with erase_correct [OF k(1,2)] rb_erase_at [OF k(2)] k(5) show ?thesis by (auto intro: rbtI)
qed

section \<open>Navigation\<close>

lemma leftmost_ok:
  "at (heap s) p (Node c l a r) \<Longrightarrow> leftmost_loop s a = Some (hd (nodes (Node c l a r)))"
proof (induction l arbitrary: p c a r)
  case Leaf
  then show ?case by (subst leftmost_loop.simps) auto
next
  case (Node c' l' a' r')
  then have "leftmost_loop s a' = Some (hd (nodes (Node c' l' a' r')))" by auto
  with Node.prems show ?case by (subst leftmost_loop.simps) (auto simp: hd_append)
qed

lemma rightmost_ok:
  "at (heap s) p (Node c l a r) \<Longrightarrow> rightmost_loop s a = Some (last (nodes (Node c l a r)))"
proof (induction r arbitrary: p c l a)
  case Leaf
  then show ?case by (subst rightmost_loop.simps) auto
next
  case (Node c' l' a' r')
  then have "rightmost_loop s a' = Some (last (nodes (Node c' l' a' r')))" by auto
  with Node.prems show ?case by (subst rightmost_loop.simps) auto
qed

definition head_or :: "addr list \<Rightarrow> addr" where
  "head_or xs = (if xs = [] then 0 else hd xs)"

definition last_or :: "addr list \<Rightarrow> addr" where
  "last_or xs = (if xs = [] then 0 else last xs)"

lemma rbt_first: "rbt s ns \<Longrightarrow> zrbtree_first s = Some (head_or ns)"
proof -
  assume "rbt s ns"
  then obtain t where t: "rep s t" "nodes t = ns" by (auto simp: rbt_def)
  then show ?thesis using leftmost_ok [of s 0]
    by (cases t) (auto simp: holds_def zrbtree_first_def head_or_def hd_append)
qed

lemma rbt_last: "rbt s ns \<Longrightarrow> zrbtree_last s = Some (last_or ns)"
proof -
  assume "rbt s ns"
  then obtain t where t: "rep s t" "nodes t = ns" by (auto simp: rbt_def)
  then show ?thesis using rightmost_ok [of s 0]
    by (cases t) (auto simp: holds_def zrbtree_last_def last_or_def)
qed

lemma pc_parent_cbit [simp]: "pc_parent (cbit c) = 0"
  using pack_simps(1) [OF aligned_0, of c] by simp

lemma next_up_ok: "holds s k t \<Longrightarrow> t \<noteq> Leaf \<Longrightarrow> next_up_loop s (rootof t) = Some (head_or (after k))"
proof (induction k arbitrary: t)
  case Nil
  then show ?case
    by (cases t; subst next_up_loop.simps) (auto simp: holds_def head_or_def)
next
  case (Cons f k)
  then have h: "holds s k (fill f t)" by (simp add: holds_fill)
  note d = holdsD [OF Cons.prems(1)] holdsD [OF h]
  show ?case
  proof (cases f)
    case (FL c a r)
    have "rootof t \<noteq> rootof r" using d FL Cons.prems(2) by (cases t; cases r) auto
    with d FL Cons.prems(2) show ?thesis
      by (cases t; subst next_up_loop.simps) (auto simp: head_or_def)
  next
    case (FR c l a)
    with Cons.IH [OF h] have "next_up_loop s a = Some (head_or (after k))" by simp
    with d FR Cons.prems(2) show ?thesis
      by (cases t; subst next_up_loop.simps) auto
  qed
qed

lemma prev_up_ok: "holds s k t \<Longrightarrow> t \<noteq> Leaf \<Longrightarrow> prev_up_loop s (rootof t) = Some (last_or (before k))"
proof (induction k arbitrary: t)
  case Nil
  then show ?case
    by (cases t; subst prev_up_loop.simps) (auto simp: holds_def last_or_def)
next
  case (Cons f k)
  then have h: "holds s k (fill f t)" by (simp add: holds_fill)
  note d = holdsD [OF Cons.prems(1)] holdsD [OF h]
  show ?case
  proof (cases f)
    case (FL c a r)
    with Cons.IH [OF h] have "prev_up_loop s a = Some (last_or (before k))" by simp
    with d FL Cons.prems(2) show ?thesis
      by (cases t; subst prev_up_loop.simps) auto
  next
    case (FR c l a)
    have "rootof t \<noteq> rootof l" using d FR Cons.prems(2) by (cases t; cases l) auto
    with d FR Cons.prems(2) show ?thesis
      by (cases t; subst prev_up_loop.simps) (auto simp: last_or_def)
  qed
qed

lemma not_empty_node:
  assumes "holds s k (Node c l n r)"
  shows "ctxaddr k OR cbit c \<noteq> n"
proof
  assume e: "ctxaddr k OR cbit c = n"
  note d = holdsD [OF assms]
  from d have "pc_parent (ctxaddr k OR cbit c) = ctxaddr k" "pc_parent n = n" by simp_all
  with d e show False by (cases k) auto
qed

lemma rbt_next:
  assumes "rbt s (xs @ n # ys)"
  shows "zrbtree_next s n = Some (head_or ys)"
proof -
  from assms obtain k c l r where k: "holds s k (Node c l n r)" "nodes r @ after k = ys"
    by (rule rbt_split)
  note d = holdsD [OF k(1)]
  show ?thesis
  proof (cases r)
    case Leaf
    with next_up_ok [OF k(1)] d k not_empty_node [OF k(1)] show ?thesis
      by (auto simp: zrbtree_next_def)
  next
    case (Node rc rl ra rr)
    with leftmost_ok [of s n rc rl ra rr] d k not_empty_node [OF k(1)] show ?thesis
      by (auto simp: zrbtree_next_def head_or_def hd_append)
  qed
qed

lemma rbt_prev:
  assumes "rbt s (xs @ n # ys)"
  shows "zrbtree_prev s n = Some (last_or xs)"
proof -
  from assms obtain k c l r where k: "holds s k (Node c l n r)" "before k @ nodes l = xs"
    by (rule rbt_split)
  note d = holdsD [OF k(1)]
  show ?thesis
  proof (cases l)
    case Leaf
    with prev_up_ok [OF k(1)] d k not_empty_node [OF k(1)] show ?thesis
      by (auto simp: zrbtree_prev_def)
  next
    case (Node lc ll la lr)
    with rightmost_ok [of s n lc ll la lr] d k not_empty_node [OF k(1)] show ?thesis
      by (auto simp: zrbtree_prev_def last_or_def)
  qed
qed

section \<open>Replacing a node\<close>

lemma rbt_replace:
  assumes "rbt s (xs @ n # ys)" and v: "v \<noteq> 0" "aligned v" "v \<notin> set (xs @ n # ys)" "heap s v \<noteq> None"
  shows "\<exists>s'. zrbtree_replace_node s n v = Some s' \<and> rbt s' (xs @ v # ys)
    \<and> same_outside s s' (insert v (set (xs @ n # ys)))"
proof -
  from assms(1) obtain k c l r where k: "holds s k (Node c l n r)" "rb_tree (plug k (Node c l n r))"
    "before k @ nodes l = xs" "nodes r @ after k = ys" "nodes (plug k (Node c l n r)) = xs @ n # ys"
    by (rule rbt_split)
  note d = holdsD [OF k(1)]
  let ?s1 = "rehole s k v"
  let ?h2 = "set_root (heap ?s1) l v (rcolor l)"
  let ?h3 = "set_root ?h2 r v (rcolor r)"
  let ?s4 = "?s1\<lparr>heap := ?h3(v \<mapsto> \<lparr>parent_color = ctxaddr k OR cbit c, right = rootof r, left = rootof l\<rparr>)\<rparr>"
  have f: "v \<notin> set (cnodes k)" "v \<notin> set (nodes l)" "v \<notin> set (nodes r)" "v \<noteq> n"
    using v(3) k(5) set_nodes_plug [of k "Node c l n r"] by auto
  have a: "at (heap ?s1) n l" "at (heap ?s1) n r" "placed ?h2 r" "placed (heap ?s1) l"
    using d by (auto simp: Int_Un_distrib rb_exec intro: placedI)
  have e: "zrbtree_replace_node s n v = Some ?s4"
    using d a f v by (auto simp: zrbtree_replace_node_def rb_exec)
  have "at ?h3 v l" "at ?h3 v r"
    using d a at_set_root_same(1) [of "heap ?s1" l "rcolor l" v] at_set_root_same(1) [of ?h2 r "rcolor r" v]
    by (auto simp: rb_exec Int_commute)
  moreover have "ctx_at ?s1 k v" using d(1,3) by (auto intro: ctx_at_rehole)
  then have "ctx_at ?s4 k v" using d f by (simp add: ctx_at_other Int_Un_distrib)
  ultimately have "holds ?s4 k (Node c l v r)" using d f v by (auto simp: holds_def)
  then have "rep ?s4 (plug k (Node c l v r))" by (simp add: rep_plug)
  moreover have "rb_tree (plug k (Node c l v r))" using k(2) by (auto simp: rb_tree_plug)
  moreover have "nodes (plug k (Node c l v r)) = xs @ v # ys" using k(3,4) by (auto simp: nodes_plug)
  ultimately have "rbt ?s4 (xs @ v # ys)" by (rule rbtI)
  moreover have "same_outside s ?s4 (insert v (set (xs @ n # ys)))"
    unfolding k(5) [symmetric] set_nodes_plug by (auto simp: same_outside_def)
  ultimately show ?thesis using e by blast
qed

section \<open>Keys\<close>

text \<open>A comparison function that orders the nodes by a key.\<close>

definition compares :: "(addr \<Rightarrow> addr \<Rightarrow> int) \<Rightarrow> (addr \<Rightarrow> 'k::linorder) \<Rightarrow> bool" where
  "compares cmp key \<longleftrightarrow> (\<forall>a b. (cmp a b < 0 \<longleftrightarrow> key a < key b) \<and> (cmp a b > 0 \<longleftrightarrow> key b < key a))"

definition ascending :: "(addr \<Rightarrow> 'k::linorder) \<Rightarrow> addr list \<Rightarrow> bool" where
  "ascending key ns \<longleftrightarrow> sorted_wrt (\<lambda>a b. key a < key b) ns"

lemma ascending_simps [simp]:
  "ascending key []"
  "ascending key (a # ns) \<longleftrightarrow> (\<forall>b\<in>set ns. key a < key b) \<and> ascending key ns"
  "ascending key (xs @ ys) \<longleftrightarrow>
     ascending key xs \<and> ascending key ys \<and> (\<forall>a\<in>set xs. \<forall>b\<in>set ys. key a < key b)"
  by (auto simp: ascending_def sorted_wrt_append)

lemma ascending_cong: "(\<And>a. a \<in> set ns \<Longrightarrow> key' a = key a) \<Longrightarrow> ascending key' ns = ascending key ns"
  by (induction ns) auto

text \<open>The node with key \<open>x\<close>, or NULL.\<close>

definition locate :: "(addr \<Rightarrow> 'k) \<Rightarrow> 'k \<Rightarrow> addr list \<Rightarrow> addr" where
  "locate key x ns = (case find (\<lambda>a. key a = x) ns of None \<Rightarrow> 0 | Some a \<Rightarrow> a)"

lemma locate_simps [simp]:
  "locate key x [] = 0"
  "locate key x (a # ns) = (if key a = x then a else locate key x ns)"
  by (simp_all add: locate_def)

lemma locate_none: "x \<notin> key ` set ns \<Longrightarrow> locate key x ns = 0"
  by (induction ns) auto

lemma locate_append:
  "locate key x (xs @ ys) = (if x \<in> key ` set xs then locate key x xs else locate key x ys)"
  by (induction xs) auto

lemma locate_eq:
  assumes "ascending key ns" "a \<in> set ns"
  shows "locate key (key a) ns = a"
  using assms
proof (induction ns)
  case (Cons b ns)
  show ?case
  proof (cases "a = b")
    case False
    with Cons.prems have "a \<in> set ns" "key b < key a" by auto
    with Cons show ?thesis by auto
  qed simp
qed simp

lemma find_loop_ok:
  assumes "compares cmp key" "at (heap s) p t" "ascending key (nodes t)"
  shows "find_loop cmp s v (rootof t) = Some (locate key (key v) (nodes t))"
  using assms(2,3)
proof (induction t arbitrary: p)
  case Leaf
  then show ?case by (subst find_loop.simps) auto
next
  case (Node c l a r)
  then have IH: "find_loop cmp s v (rootof l) = Some (locate key (key v) (nodes l))"
    "find_loop cmp s v (rootof r) = Some (locate key (key v) (nodes r))" by auto
  have step: "find_loop cmp s v a = (if key v < key a then find_loop cmp s v (rootof l)
      else if key a < key v then find_loop cmp s v (rootof r) else Some a)"
    using Node.prems assms(1) by (subst find_loop.simps) (auto simp: compares_def)
  have l: "key v \<notin> key ` set (nodes l)" if "\<not> key v < key a"
    using that Node.prems(2) by force
  have r: "key v \<notin> key ` set (nodes r)" if "key v < key a"
    using that Node.prems(2) by force
  show ?case
    using l r by (auto simp: step IH locate_append locate_none)
qed

lemma rbt_find:
  assumes "rbt s ns" "compares cmp key" "ascending key ns"
  shows "zrbtree_find cmp s v = Some (locate key (key v) ns)"
  using assms find_loop_ok [of cmp key s 0 _ v] by (auto simp: rbt_def zrbtree_find_def holds_def)

section \<open>Insertion\<close>

fun link_of :: "addr ctx \<Rightarrow> link" where
  "link_of [] = LinkRoot"
| "link_of (FL _ a _ # _) = LinkLeft a"
| "link_of (FR _ _ a # _) = LinkRight a"

fun descend :: "('k::linorder) \<Rightarrow> (addr \<Rightarrow> 'k) \<Rightarrow> addr ctx \<Rightarrow> addr rtree \<Rightarrow> addr + addr ctx" where
  "descend x key k Leaf = Inr k"
| "descend x key k (Node c l a r) =
     (if x < key a then descend x key (FL c a r # k) l
      else if key a < x then descend x key (FR c l a # k) r
      else Inl a)"

lemma attach_loop_ok:
  assumes "compares cmp key" "holds s k t"
  shows "attach_loop cmp s v (link_of k) (ctxaddr k) =
    Some (map_sum (\<lambda>a. a) (\<lambda>k'. (ctxaddr k', link_of k')) (descend (key v) key k t))"
  using assms(2)
proof (induction t arbitrary: k)
  case Leaf
  then have "deref s (link_of k) = Some 0"
    by (cases k rule: link_of.cases) (auto simp: holds_def)
  then show ?case by (subst attach_loop.simps) simp
next
  case (Node c l a r)
  have d: "deref s (link_of k) = Some a" "a \<noteq> 0"
    using Node.prems by (cases k rule: link_of.cases; auto simp: holds_def)+
  have "holds s (FL c a r # k) l" "holds s (FR c l a # k) r"
    using Node.prems by (simp_all add: holds_fill)
  note IH = Node.IH(1) [OF this(1)] Node.IH(2) [OF this(2)]
  show ?case
    using IH d assms(1) by (subst attach_loop.simps) (auto simp: compares_def)
qed

lemma descend_plug: "descend x key k t = Inr k' \<Longrightarrow> plug k' Leaf = plug k t"
  by (induction t arbitrary: k) (auto split: if_splits)

lemma descend_found: "descend x key k t = Inl a \<Longrightarrow> a \<in> set (nodes t) \<and> key a = x"
  by (induction t arbitrary: k) (auto split: if_splits)

lemma descend_order:
  assumes "descend x key k t = Inr k'" "ascending key (nodes t)"
    and "\<forall>a\<in>set (before k). key a < x" "\<forall>a\<in>set (after k). x < key a"
  shows "(\<forall>a\<in>set (before k'). key a < x) \<and> (\<forall>a\<in>set (after k'). x < key a)"
  using assms
proof (induction t arbitrary: k)
  case (Node c l a r)
  show ?case
  proof (cases "x < key a")
    case True
    with Node.prems show ?thesis by (intro Node.IH(1) [of "FL c a r # k"]) force+
  next
    case False
    with Node.prems have "key a < x" by (auto split: if_splits)
    with False Node.prems show ?thesis by (intro Node.IH(2) [of "FR c l a # k"]) force+
  qed
qed simp

lemma link_node_ok:
  assumes "holds s k Leaf" and v: "v \<noteq> 0" "aligned v" "v \<notin> set (cnodes k)" "heap s v \<noteq> None"
  shows "\<exists>s'. zrbtree_link_node s v (ctxaddr k) (link_of k) = Some s'
    \<and> holds s' k (Node Red Leaf v Leaf) \<and> same_outside s s' (insert v (set (cnodes k)))"
proof -
  obtain n where n: "heap s v = Some n" using v(4) by auto
  define s1 where "s1 = s\<lparr>heap := (heap s)(v \<mapsto> n\<lparr>parent_color := ctxaddr k, right := 0, left := 0\<rparr>)\<rparr>"
  note d = holdsD [OF assms(1)]
  have c: "ctx_at s1 k 0" using d v by (simp add: s1_def ctx_at_other)
  then have "store s1 (link_of k) v = Some (rehole s1 k v)"
    using d v by (cases k rule: link_of.cases) (auto simp: s1_def upd_Some)
  then have "zrbtree_link_node s v (ctxaddr k) (link_of k) = Some (rehole s1 k v)"
    using v n by (simp add: zrbtree_link_node_def upd_Some s1_def)
  moreover have "ctx_at (rehole s1 k v) k v" using c d(3) by (auto intro: ctx_at_rehole)
  then have "holds (rehole s1 k v) k (Node Red Leaf v Leaf)"
    using d v by (simp add: holds_def s1_def)
  moreover have "same_outside s (rehole s1 k v) (insert v (set (cnodes k)))"
    by (auto simp: same_outside_def s1_def)
  ultimately show ?thesis by blast
qed

text \<open>Where a new node with key \<open>x\<close> goes.\<close>

definition place :: "(addr \<Rightarrow> 'k::linorder) \<Rightarrow> addr \<Rightarrow> addr list \<Rightarrow> addr list" where
  "place key v ns = filter (\<lambda>a. key a < key v) ns @ v # filter (\<lambda>a. key v < key a) ns"

lemma place_eq:
  "\<forall>a\<in>set xs. key a < key v \<Longrightarrow> \<forall>a\<in>set ys. key v < key a \<Longrightarrow> place key v (xs @ ys) = xs @ v # ys"
proof -
  assume a: "\<forall>a\<in>set xs. key a < key v" "\<forall>a\<in>set ys. key v < key a"
  then have "filter (\<lambda>a. key a < key v) ys = []" "filter (\<lambda>a. key v < key a) xs = []"
    by (auto simp: filter_empty_conv dest: less_asym)
  with a show ?thesis by (simp add: place_def)
qed

lemma rbt_attach:
  assumes "rbt s ns" "compares cmp key" "ascending key ns"
    and v: "v \<noteq> 0" "aligned v" "v \<notin> set ns" "heap s v \<noteq> None"
  shows "if key v \<in> key ` set ns then zrbtree_attach cmp s v = Some (s, locate key (key v) ns)
    else \<exists>s'. zrbtree_attach cmp s v = Some (s', v) \<and> rbt s' (place key v ns)
      \<and> same_outside s s' (insert v (set ns))"
proof -
  obtain t where t: "rep s t" "rb_tree t" "nodes t = ns" using assms(1) by (auto simp: rbt_def)
  have loop: "attach_loop cmp s v LinkRoot 0 =
      Some (map_sum (\<lambda>a. a) (\<lambda>k'. (ctxaddr k', link_of k')) (descend (key v) key [] t))"
    using attach_loop_ok [OF assms(2) t(1), of v] by simp
  show ?thesis
  proof (cases "descend (key v) key [] t")
    case (Inl a)
    from descend_found [OF Inl] t(3) have a: "a \<in> set ns" "key a = key v" by simp_all
    with imageI [OF a(1), of key] locate_eq [OF assms(3) a(1)] loop Inl show ?thesis
      by (simp add: zrbtree_attach_def)
  next
    case (Inr k)
    have p: "plug k Leaf = t" using descend_plug [OF Inr] by simp
    have o: "\<forall>a\<in>set (before k). key a < key v" "\<forall>a\<in>set (after k). key v < key a"
      using descend_order [OF Inr] assms(3) t(3) by auto
    have n: "ns = before k @ after k" using p t(3) nodes_plug [of k Leaf] by simp
    have "holds s k Leaf" using t(1) p rep_plug [of s k Leaf] by simp
    moreover have "v \<notin> set (cnodes k)" using v(3) n by (simp add: cnodes_def)
    ultimately obtain s1 where s1: "zrbtree_link_node s v (ctxaddr k) (link_of k) = Some s1"
        "holds s1 k (Node Red Leaf v Leaf)" "same_outside s s1 (insert v (set ns))"
      using link_node_ok [of s k v] v n by (auto simp: cnodes_def)
    have i: "ctx_inv k (bheight (Node Red Leaf v Leaf))" using t(2) p rb_tree_plug [of k Leaf] by simp
    have g: "get s1 v = Some \<lparr>parent_color = ctxaddr k, right = 0, left = 0\<rparr>"
      using holdsD(2) [OF s1(2)] by simp
    obtain s2 where s2: "zrbtree_insert_loop s1 v (ctxaddr k) = Some s2"
        "rep s2 (ins_up k (Node Red Leaf v Leaf))"
        "same_outside s1 s2 (set (nodes (plug k (Node Red Leaf v Leaf))))"
      using insert_loop_correct [OF s1(2) _ i] by (auto simp: inserted_def)
    have "zrbtree_attach cmp s v = Some (s2, v)"
      using loop s1(1) s2(1) g by (simp add: zrbtree_attach_def Inr zrbtree_insert_color_def)
    moreover have "rbt s2 (place key v ns)"
      using s2(2) rb_ins_up [OF _ _ i] nodes_ins_up [of "Node Red Leaf v Leaf" k]
      by (intro rbtI) (auto simp: n place_eq [OF o] nodes_plug)
    moreover have "same_outside s s2 (insert v (set ns))"
      using s1(3) s2(3) n by (auto simp: same_outside_def nodes_plug)
    moreover have "key v \<notin> key ` set ns" using o n by (auto simp: image_iff)
    ultimately show ?thesis by simp
  qed
qed

section \<open>Nearest nodes\<close>

text \<open>The greatest node whose key is at most \<open>x\<close>.\<close>

definition below :: "(addr \<Rightarrow> 'k::linorder) \<Rightarrow> 'k \<Rightarrow> addr list \<Rightarrow> addr list" where
  "below key x ns = filter (\<lambda>a. key a \<le> x) ns"

lemma near_prev_loop_ok:
  assumes "compares cmp key" "at (heap s) p t" "ascending key (nodes t)"
  shows "near_prev_loop cmp s v (rootof t) q =
    Some (if below key (key v) (nodes t) = [] then q else last (below key (key v) (nodes t)))"
  using assms(2,3)
proof (induction t arbitrary: p q)
  case Leaf
  then show ?case by (subst near_prev_loop.simps) (auto simp: below_def)
next
  case (Node c l a r)
  have r: "filter (\<lambda>b. key b \<le> key v) (nodes r) = []" if "key v \<le> key a"
    using that Node.prems(2) by (force simp: filter_empty_conv)
  show ?case
    using Node assms(1) r
    by (subst near_prev_loop.simps) (auto simp: compares_def below_def not_less)
qed

lemma near_next_loop_same:
  assumes "compares cmp key" "at (heap s) p t"
  shows "near_next_loop cmp s v (rootof t) q = near_prev_loop cmp s v (rootof t) q"
  using assms(2)
proof (induction t arbitrary: p q)
  case (Node c l a r)
  then show ?case
    using assms(1) by (subst near_prev_loop.simps, subst near_next_loop.simps) (auto simp: compares_def)
qed (subst near_prev_loop.simps, subst near_next_loop.simps, simp)

lemma rbt_near_prev:
  assumes "rbt s ns" "compares cmp key" "ascending key ns"
  shows "zrbtree_near_prev cmp s v = Some (last_or (below key (key v) ns))"
  using assms near_prev_loop_ok [of cmp key s 0 _ v]
  by (auto simp: rbt_def zrbtree_near_prev_def holds_def last_or_def)

lemma rbt_near_next_is_prev:
  assumes "rbt s ns" "compares cmp key"
  shows "zrbtree_near_next cmp s v = zrbtree_near_prev cmp s v"
  using assms near_next_loop_same [of cmp key s 0 _ v]
  by (auto simp: rbt_def zrbtree_near_prev_def zrbtree_near_next_def holds_def)

end
