(* ===== verification/RbWalk.thy ===== *)
theory RbWalk
  imports RbIndex "HOL-Library.Multiset"
begin

text \<open>
  \<open>zrbtree_walk\<close>: the traversal with an explicit stack of 64 entries. The callback is not run; the
  model records the nodes it is called on, and leaves out the return for a NULL callback. A write past the stack is the error \<open>StackOverflow\<close>.
\<close>

datatype walk_error = StackOverflow

type_synonym walk_stack = "(addr \<times> nat) list"

definition bump :: "walk_stack \<Rightarrow> nat \<Rightarrow> walk_stack" where
  "bump lst i = lst[i := (fst (lst ! i), Suc (snd (lst ! i)))]"

partial_function (option) walk_loop ::
  "rbs \<Rightarrow> walk_stack \<Rightarrow> nat \<Rightarrow> addr list \<Rightarrow> (walk_error + addr list) option" where
  "walk_loop s lst idx calls =
     (let node = fst (lst ! idx); lrs = snd (lst ! idx) in
      if node = 0 \<or> lrs = 2
      then let calls' = (if node \<noteq> 0 then calls @ [node] else calls) in
        if idx = 0 then Some (Inr calls') else walk_loop s (bump lst (idx - 1)) (idx - 1) calls'
      else if idx + 1 \<ge> 64 then Some (Inl StackOverflow)
      else Option.bind (get s node) (\<lambda>nn.
        walk_loop s (lst[idx + 1 := (if lrs = 0 then left nn else right nn, 0)]) (idx + 1) calls))"

definition zrbtree_walk :: "rbs \<Rightarrow> (walk_error + addr list) option" where
  "zrbtree_walk s = walk_loop s ((replicate 64 (0, 0))[0 := (root s, 0)]) 0 []"

fun post :: "'a rtree \<Rightarrow> 'a list" where
  "post Leaf = []"
| "post (Node _ l a r) = post l @ post r @ [a]"

lemma mset_post: "mset (post t) = mset (nodes t)"
  by (induction t) auto

text \<open>What the loop does once the subtree at the top of the stack is done.\<close>

definition popped :: "rbs \<Rightarrow> walk_stack \<Rightarrow> nat \<Rightarrow> addr list \<Rightarrow> (walk_error + addr list) option" where
  "popped s lst idx calls =
     (if idx = 0 then Some (Inr calls) else walk_loop s (bump lst (idx - 1)) (idx - 1) calls)"

lemma walk_down:
  assumes "lst ! idx = (a, lrs)" "a \<noteq> 0" "lrs < 2" "idx + 1 < 64" "heap s a = Some nn"
  shows "walk_loop s lst idx calls =
    walk_loop s (lst[idx + 1 := (if lrs = 0 then left nn else right nn, 0)]) (idx + 1) calls"
  using assms by (subst walk_loop.simps) (simp add: Let_def)

lemma walk_up:
  assumes "lst ! idx = (a, 2)" "a \<noteq> 0"
  shows "walk_loop s lst idx calls = popped s lst idx (calls @ [a])"
  using assms by (subst walk_loop.simps) (simp add: Let_def popped_def)

lemma walk_subtree:
  assumes "at (heap s) p t" "lst ! idx = (rootof t, 0)" "idx + height t < 64" "length lst = 64"
  shows "\<exists>lst'. length lst' = 64 \<and> (\<forall>i<idx. lst' ! i = lst ! i)
    \<and> walk_loop s lst idx calls = popped s lst' idx (calls @ post t)"
  using assms
proof (induction t arbitrary: p lst idx calls)
  case Leaf
  then have "walk_loop s lst idx calls = popped s lst idx (calls @ post Leaf)"
    by (subst walk_loop.simps) (simp add: Let_def popped_def)
  with Leaf show ?case by blast
next
  case (Node c l a r)
  then have h: "heap s a = Some \<lparr>parent_color = p OR cbit c, right = rootof r, left = rootof l\<rparr>"
    "a \<noteq> 0" "idx + 1 < 64" "idx + 1 + height l < 64" "idx + 1 + height r < 64"
    "at (heap s) a l" "at (heap s) a r" "lst ! idx = (a, 0)" "length lst = 64" by auto
  let ?l0 = "lst[idx + 1 := (rootof l, 0)]"
  obtain l1 where l1: "length l1 = 64" "\<forall>i<idx + 1. l1 ! i = ?l0 ! i"
      "walk_loop s ?l0 (idx + 1) calls = popped s l1 (idx + 1) (calls @ post l)"
    using Node.IH(1) [of a ?l0 "idx + 1" calls] h by auto
  let ?m0 = "bump l1 idx"
  have m0: "?m0 ! idx = (a, 1)" "length ?m0 = 64" "\<forall>i<idx. ?m0 ! i = lst ! i"
    using l1 h by (auto simp: bump_def)
  let ?m1 = "?m0[idx + 1 := (rootof r, 0)]"
  obtain l2 where l2: "length l2 = 64" "\<forall>i<idx + 1. l2 ! i = ?m1 ! i"
      "walk_loop s ?m1 (idx + 1) (calls @ post l) = popped s l2 (idx + 1) (calls @ post l @ post r)"
    using Node.IH(2) [of a ?m1 "idx + 1" "calls @ post l"] h m0 by auto
  let ?n = "bump l2 idx"
  have n: "?n ! idx = (a, 2)" "length ?n = 64" "\<forall>i<idx. ?n ! i = lst ! i"
    using l2 m0 h by (auto simp: bump_def)
  have "walk_loop s lst idx calls = walk_loop s ?m0 idx (calls @ post l)"
    using walk_down [OF h(8,2) _ h(3,1), of calls] l1(3) by (simp add: popped_def)
  also have "\<dots> = walk_loop s ?n idx (calls @ post l @ post r)"
    using walk_down [OF m0(1) h(2) _ h(3,1)] l2(3) by (simp add: popped_def)
  also have "\<dots> = popped s ?n idx (calls @ post (Node c l a r))"
    using walk_up [OF n(1) h(2)] by simp
  finally show ?case using n by blast
qed

text \<open>The stack is large enough for every tree of fewer than \<open>2 ^ 32 - 1\<close> nodes, and the callback
  runs on each node once, on the children before their parent.\<close>

lemma walk_rep:
  assumes "rep s t" "rb_tree t" "length (nodes t) + 1 < 2 ^ 32"
  shows "zrbtree_walk s = Some (Inr (post t))"
proof -
  have "height t < 64" using rb_height_bound [OF assms(2), of 32] assms(3) by simp
  moreover have "at (heap s) 0 t" "root s = rootof t" using assms(1) by (simp_all add: holds_def)
  moreover have "((replicate 64 (0, 0))[0 := (rootof t, 0)]) ! 0 = (rootof t, 0 :: nat)"
    by (subst nth_list_update_eq) simp_all
  ultimately show ?thesis
    using walk_subtree [of s 0 t "(replicate 64 (0, 0))[0 := (rootof t, 0)]" 0 "[]"]
    by (auto simp: zrbtree_walk_def popped_def)
qed

end
