(* ===== verification/RbProps.thy ===== *)
theory RbProps
  imports RbWalk
begin

text \<open>
  The properties of the red-black tree code, on the list of nodes of a well-formed tree
  (\<open>rbt s ns\<close>: the heap holds a tree with black root, no red node with a red child and equally many
  black nodes on all paths, whose nodes in order are \<open>ns\<close>).
\<close>

section \<open>A concrete tree\<close>

text \<open>Three nodes at the addresses 8, 16 and 24 in a heap with a free cell at 32.\<close>

definition ex3 :: rbs where
  "ex3 = \<lparr>root = 16, heap = [16 \<mapsto> \<lparr>parent_color = 1, right = 24, left = 8\<rparr>,
     8 \<mapsto> \<lparr>parent_color = 16, right = 0, left = 0\<rparr>,
     24 \<mapsto> \<lparr>parent_color = 16, right = 0, left = 0\<rparr>,
     32 \<mapsto> \<lparr>parent_color = 7, right = 7, left = 7\<rparr>]\<rparr>"

lemma aligned_ex: "aligned 8" "aligned 16" "aligned 24" "aligned 32"
  by (simp_all add: aligned_def)

lemma rbt_ex3: "rbt ex3 [8, 16, 24]"
  by (rule rbtI [of _ "Node Black (Node Red Leaf 8 Leaf) 16 (Node Red Leaf 24 Leaf)"])
     (auto simp: holds_def ex3_def rb_tree_def aligned_ex)

definition addr_cmp :: "addr \<Rightarrow> addr \<Rightarrow> int" where
  "addr_cmp a b = (if a < b then - 1 else if b < a then 1 else 0)"

lemma compares_addr: "compares addr_cmp id"
  by (auto simp: compares_def addr_cmp_def)

section \<open>Properties\<close>

text \<open>C1: Attaching a node that is not in the tree: when a node with an equal key is there, that node
  is returned and nothing is written; otherwise the new node is linked in at its place in the
  order, the result is again a well-formed red-black tree, and only nodes of the tree and the new
  node are written. The search and the repair loop terminate.\<close>

theorem zrbtree_attach_spec:
  assumes "rbt s ns" "compares cmp key" "ascending key ns"
    and "v \<noteq> 0" "aligned v" "v \<notin> set ns" "heap s v \<noteq> None"
  shows "if key v \<in> key ` set ns then zrbtree_attach cmp s v = Some (s, locate key (key v) ns)
    else \<exists>s'. zrbtree_attach cmp s v = Some (s', v) \<and> rbt s' (place key v ns)
      \<and> same_outside s s' (insert v (set ns))"
  by (rule rbt_attach [OF assms])

theorem zrbtree_attach_spec_witness:
  "\<exists>s'. zrbtree_attach addr_cmp ex3 32 = Some (s', 32) \<and> rbt s' [8, 16, 24, 32]
     \<and> same_outside ex3 s' {32, 8, 16, 24}"
proof -
  have "heap ex3 32 \<noteq> None" by (simp add: ex3_def)
  with zrbtree_attach_spec [OF rbt_ex3 compares_addr, of 32] aligned_ex show ?thesis
    by (simp add: place_def)
qed

text \<open>C2: Removing any node of the tree: the loops terminate, the other nodes stay in their order,
  the result is again a well-formed red-black tree, and only nodes of the tree are written.\<close>

theorem zrbtree_erase_spec:
  assumes "rbt s (xs @ n # ys)"
  shows "\<exists>s'. zrbtree_erase s n = Some s' \<and> rbt s' (xs @ ys) \<and> same_outside s s' (set (xs @ n # ys))"
  by (rule rbt_erase [OF assms])

theorem zrbtree_erase_spec_witness:
  "\<exists>s'. zrbtree_erase ex3 16 = Some s' \<and> rbt s' [8, 24] \<and> same_outside ex3 s' {8, 16, 24}"
  using zrbtree_erase_spec [of ex3 "[8]" 16 "[24]"] rbt_ex3 by simp

text \<open>C29: Searching and iterating: \<open>zrbtree_find\<close> returns the node with the key of the probe, or NULL when
  there is none; \<open>zrbtree_near_prev\<close> returns the last node whose key is at most the key of the probe (an
  equal key included), and \<open>zrbtree_near_next\<close> returns the same node: it does not search upwards; the
  iteration functions follow the order of the nodes in both directions and end with NULL.\<close>

theorem zrbtree_search_spec:
  assumes "rbt s (xs @ n # ys)" "compares cmp key" "ascending key (xs @ n # ys)"
  shows "zrbtree_find cmp s v = Some (locate key (key v) (xs @ n # ys))
    \<and> zrbtree_near_prev cmp s v = Some (last_or (below key (key v) (xs @ n # ys)))
    \<and> zrbtree_near_next cmp s v = Some (last_or (below key (key v) (xs @ n # ys)))
    \<and> zrbtree_first s = Some (head_or (xs @ n # ys)) \<and> zrbtree_last s = Some (last_or (xs @ n # ys))
    \<and> zrbtree_next s n = Some (head_or ys) \<and> zrbtree_prev s n = Some (last_or xs)"
  using rbt_find [OF assms] rbt_near_prev [OF assms] rbt_near_next_is_prev [OF assms(1,2)]
  by (simp add: rbt_first [OF assms(1)] rbt_last [OF assms(1)] rbt_next [OF assms(1)] rbt_prev [OF assms(1)])

theorem zrbtree_search_spec_witness:
  "zrbtree_find addr_cmp ex3 24 = Some 24 \<and> zrbtree_near_prev addr_cmp ex3 20 = Some 16
     \<and> zrbtree_first ex3 = Some 8 \<and> zrbtree_next ex3 16 = Some 24 \<and> zrbtree_prev ex3 16 = Some 8"
  using zrbtree_search_spec [of ex3 "[8]" 16 "[24]" addr_cmp id 24] zrbtree_search_spec [of ex3 "[8]" 16 "[24]" addr_cmp id 20]
    rbt_ex3 compares_addr by (simp add: below_def head_or_def last_or_def)

text \<open>Replacing a node by another one keeps the tree and puts the new node in the place of the
  old one.\<close>

theorem zrbtree_replace_node_spec:
  assumes "rbt s (xs @ n # ys)" "v \<noteq> 0" "aligned v" "v \<notin> set (xs @ n # ys)" "heap s v \<noteq> None"
  shows "\<exists>s'. zrbtree_replace_node s n v = Some s' \<and> rbt s' (xs @ v # ys)
    \<and> same_outside s s' (insert v (set (xs @ n # ys)))"
  by (rule rbt_replace [OF assms])

text \<open>C28: The recursive walk with its stack of 64 entries never overruns the stack on a tree of fewer
  than \<open>2 ^ 32 - 1\<close> nodes, and calls the callback exactly once on every node.\<close>

theorem zrbtree_walk_spec:
  assumes "rbt s ns" "length ns + 1 < 2 ^ 32"
  shows "\<exists>calls. zrbtree_walk s = Some (Inr calls) \<and> mset calls = mset ns"
  using assms walk_rep mset_post unfolding rbt_def by blast

theorem zrbtree_walk_spec_witness:
  "\<exists>calls. zrbtree_walk ex3 = Some (Inr calls) \<and> mset calls = mset [8, 16, 24]"
  using zrbtree_walk_spec [OF rbt_ex3] by simp

end
