(* ===== verification/NodeMap.thy ===== *)
theory NodeMap
  imports RbIndex
begin

text \<open>
  What the containers \<open>zdict\<close>, \<open>zmap\<close>, \<open>zdictlong\<close> and \<open>zlongmap\<close> have in common: nodes with a
  key and a value linked into a red-black tree, a length counter, and the scheme of their update
  functions (attach a node of the caller's stack frame; when it went in, replace it by an allocated
  one). The locale \<open>assoc_store\<close> is the contract they share.
\<close>

section \<open>State\<close>

record ('k, 'v) cnode =
  key :: 'k
  val :: 'v

record ('k, 'v) cont =
  tree :: rbs
  data :: "addr \<rightharpoonup> ('k, 'v) cnode"
  len :: "32 word"

text \<open>What a call gets from its stack frame and from \<open>zmalloc\<close>: the address of the local node, the
  address of a new node, and the uninitialised content of both.\<close>

record 'v env =
  mp_n :: addr
  mp_np :: addr
  junk :: rbnode
  junkv :: 'v

definition push_local :: "'v env \<Rightarrow> 'k \<Rightarrow> ('k, 'v) cont \<Rightarrow> ('k, 'v) cont" where
  "push_local e k m = m\<lparr>tree := (tree m)\<lparr>heap := (heap (tree m))(mp_n e \<mapsto> junk e)\<rparr>,
     data := (data m)(mp_n e \<mapsto> \<lparr>key = k, val = junkv e\<rparr>)\<rparr>"

definition drop_node :: "addr \<Rightarrow> ('k, 'v) cont \<Rightarrow> ('k, 'v) cont" where
  "drop_node a m = m\<lparr>tree := (tree m)\<lparr>heap := (heap (tree m))(a := None)\<rparr>, data := (data m)(a := None)\<rparr>"

definition alloc_node :: "'v env \<Rightarrow> ('k, 'v) cnode \<Rightarrow> ('k, 'v) cont \<Rightarrow> ('k, 'v) cont" where
  "alloc_node e n m = m\<lparr>tree := (tree m)\<lparr>heap := (heap (tree m))(mp_np e \<mapsto> junk e)\<rparr>,
     data := (data m)(mp_np e \<mapsto> n)\<rparr>"

definition key_at :: "(addr \<rightharpoonup> ('k, 'v) cnode) \<Rightarrow> addr \<Rightarrow> 'k" where
  "key_at d a = key (the (d a))"

definition node_cmp :: "('k \<Rightarrow> 'k \<Rightarrow> int) \<Rightarrow> (addr \<rightharpoonup> ('k, 'v) cnode) \<Rightarrow> addr \<Rightarrow> addr \<Rightarrow> int" where
  "node_cmp kc d a b = kc (key_at d a) (key_at d b)"

section \<open>The shared operations\<close>

definition node_update ::
  "('k \<Rightarrow> 'k \<Rightarrow> int) \<Rightarrow> 'v env \<Rightarrow> ('k, 'v) cont \<Rightarrow> 'k \<Rightarrow> ('v \<Rightarrow> 'v) \<Rightarrow> 'v
   \<Rightarrow> (('k, 'v) cont \<times> addr \<times> 'v option) option" where
  "node_update kc e m k renew new_val = do {
     let m1 = push_local e k m;
     (t1, rb_np) \<leftarrow> zrbtree_attach (node_cmp kc (data m1)) (tree m1) (mp_n e);
     (if rb_np \<noteq> mp_n e then do {
        n \<leftarrow> data m1 rb_np;
        Some (drop_node (mp_n e)
          (m1\<lparr>tree := t1, data := (data m1)(rb_np \<mapsto> n\<lparr>val := renew (val n)\<rparr>)\<rparr>), rb_np, Some (val n)) }
      else do {
        let m2 = alloc_node e \<lparr>key = k, val = new_val\<rparr> (m1\<lparr>tree := t1\<rparr>);
        t2 \<leftarrow> zrbtree_replace_node (tree m2) (mp_n e) (mp_np e);
        Some (drop_node (mp_n e) (m2\<lparr>tree := t2, len := len m2 + 1\<rparr>), mp_np e, None) }) }"

definition node_find :: "('k \<Rightarrow> 'k \<Rightarrow> int) \<Rightarrow> 'v env \<Rightarrow> ('k, 'v) cont \<Rightarrow> 'k \<Rightarrow> addr option" where
  "node_find kc e m k =
     (let m1 = push_local e k m in zrbtree_find (node_cmp kc (data m1)) (tree m1) (mp_n e))"

definition node_near_prev :: "('k \<Rightarrow> 'k \<Rightarrow> int) \<Rightarrow> 'v env \<Rightarrow> ('k, 'v) cont \<Rightarrow> 'k \<Rightarrow> addr option" where
  "node_near_prev kc e m k =
     (let m1 = push_local e k m in zrbtree_near_prev (node_cmp kc (data m1)) (tree m1) (mp_n e))"

definition node_near_next :: "('k \<Rightarrow> 'k \<Rightarrow> int) \<Rightarrow> 'v env \<Rightarrow> ('k, 'v) cont \<Rightarrow> 'k \<Rightarrow> addr option" where
  "node_near_next kc e m k =
     (let m1 = push_local e k m in zrbtree_near_next (node_cmp kc (data m1)) (tree m1) (mp_n e))"

text \<open>\<open>zrbtree_detach\<close> followed by \<open>zfree\<close>; the result carries the node's last value.\<close>

definition node_unlink :: "('k, 'v) cont \<Rightarrow> addr \<Rightarrow> (('k, 'v) cont \<times> 'v) option" where
  "node_unlink m a = do {
     (t1, a') \<leftarrow> zrbtree_detach (tree m) a;
     n \<leftarrow> data m a;
     Some (drop_node a (m\<lparr>tree := t1\<rparr>), val n) }"

text \<open>\<open>while ((n = first(m))) { detach; free }\<close>.\<close>

partial_function (option) free_loop :: "('k, 'v) cont \<Rightarrow> ('k, 'v) cont option" where
  "free_loop m = Option.bind (zrbtree_first (tree m)) (\<lambda>n.
     if n = 0 then Some m
     else Option.bind (node_unlink m n) (\<lambda>(m', _). free_loop m'))"

section \<open>Invariant and abstraction\<close>

text \<open>A comparison of keys that follows a linear order of their ranks.\<close>

definition ranks :: "('k \<Rightarrow> 'k \<Rightarrow> int) \<Rightarrow> ('k \<Rightarrow> 'o::linorder) \<Rightarrow> bool" where
  "ranks kc rank \<longleftrightarrow> inj rank
     \<and> (\<forall>a b. (kc a b < 0 \<longleftrightarrow> rank a < rank b) \<and> (kc a b > 0 \<longleftrightarrow> rank b < rank a))"

definition cinv :: "('k \<Rightarrow> 'o::linorder) \<Rightarrow> ('k, 'v) cont \<Rightarrow> addr list \<Rightarrow> bool" where
  "cinv rank m ns \<longleftrightarrow> rbt (tree m) ns \<and> ascending (rank \<circ> key_at (data m)) ns
     \<and> dom (data m) = set ns \<and> len m = of_nat (length ns)"

definition fresh_env :: "'v env \<Rightarrow> addr list \<Rightarrow> bool" where
  "fresh_env e ns \<longleftrightarrow> mp_n e \<noteq> 0 \<and> mp_np e \<noteq> 0 \<and> aligned (mp_n e) \<and> aligned (mp_np e)
     \<and> mp_n e \<noteq> mp_np e \<and> mp_n e \<notin> set ns \<and> mp_np e \<notin> set ns"

definition entries :: "(addr \<rightharpoonup> ('k, 'v) cnode) \<Rightarrow> addr list \<Rightarrow> ('k \<times> 'v) list" where
  "entries d ns = map (\<lambda>a. (key_at d a, val (the (d a)))) ns"

lemma ranks_compares: "ranks kc rank \<Longrightarrow> compares (node_cmp kc d) (rank \<circ> key_at d)"
  by (auto simp: ranks_def compares_def node_cmp_def)

lemma rbt_push:
  assumes "rbt t ns" "a \<notin> set ns"
  shows "rbt (t\<lparr>heap := (heap t)(a := x)\<rparr>) ns"
  using assms by (intro rbt_cong [OF assms(1)]) auto

lemma key_at_push: "key_at (data (push_local e k m)) a = (if a = mp_n e then k else key_at (data m) a)"
  by (simp add: push_local_def key_at_def)

lemma push_local_inv:
  assumes "cinv rank m ns" "fresh_env e ns"
  shows "rbt (tree (push_local e k m)) ns" "ascending (rank \<circ> key_at (data (push_local e k m))) ns"
    and "heap (tree (push_local e k m)) (mp_n e) \<noteq> None"
    and "a \<in> set ns \<Longrightarrow> key_at (data (push_local e k m)) a = key_at (data m) a"
proof -
  show "rbt (tree (push_local e k m)) ns"
    using assms by (auto simp: push_local_def cinv_def fresh_env_def intro: rbt_push)
  have *: "key_at (data (push_local e k m)) a = key_at (data m) a" if "a \<in> set ns" for a
    using assms(2) that by (auto simp: key_at_push fresh_env_def)
  then show "a \<in> set ns \<Longrightarrow> key_at (data (push_local e k m)) a = key_at (data m) a" .
  show "ascending (rank \<circ> key_at (data (push_local e k m))) ns"
    using assms(1) ascending_cong [of ns "rank \<circ> key_at (data (push_local e k m))" "rank \<circ> key_at (data m)"] *
    by (auto simp: cinv_def)
  show "heap (tree (push_local e k m)) (mp_n e) \<noteq> None" by (simp add: push_local_def)
qed

lemma locate_cong:
  "(\<And>a. a \<in> set ns \<Longrightarrow> (f a = x) = (g a = y)) \<Longrightarrow> locate f x ns = locate g y ns"
  by (induction ns) auto

lemma push_locate:
  assumes "cinv rank m ns" "fresh_env e ns" "ranks kc rank"
  shows "locate (rank \<circ> key_at (data (push_local e k m))) (rank k) ns = locate (key_at (data m)) k ns"
    and "rank k \<in> (rank \<circ> key_at (data (push_local e k m))) ` set ns \<longleftrightarrow> k \<in> key_at (data m) ` set ns"
proof -
  have r: "rank x = rank y \<longleftrightarrow> x = y" for x y using assms(3) by (auto simp: ranks_def inj_eq)
  show "locate (rank \<circ> key_at (data (push_local e k m))) (rank k) ns = locate (key_at (data m)) k ns"
    using push_local_inv(4) [OF assms(1,2)] by (intro locate_cong) (simp add: r)
  show "rank k \<in> (rank \<circ> key_at (data (push_local e k m))) ` set ns \<longleftrightarrow> k \<in> key_at (data m) ` set ns"
    using push_local_inv(4) [OF assms(1,2)] by (auto simp: image_iff r)
qed

section \<open>Lookup\<close>

lemma node_find_ok:
  assumes "cinv rank m ns" "fresh_env e ns" "ranks kc rank"
  shows "node_find kc e m k = Some (locate (key_at (data m)) k ns)"
proof -
  note p = push_local_inv [OF assms(1,2), where k = k]
  from rbt_find [OF p(1) ranks_compares [OF assms(3)] p(2), of "mp_n e"] push_locate(1) [OF assms]
  show ?thesis by (simp add: node_find_def key_at_push Let_def)
qed

lemma node_near_prev_ok:
  assumes "cinv rank m ns" "fresh_env e ns" "ranks kc rank"
  shows "node_near_prev kc e m k = Some (last_or (filter (\<lambda>a. rank (key_at (data m) a) \<le> rank k) ns))"
proof -
  note p = push_local_inv [OF assms(1,2), where k = k]
  have "below (rank \<circ> key_at (data (push_local e k m))) (rank k) ns =
      filter (\<lambda>a. rank (key_at (data m) a) \<le> rank k) ns"
    unfolding below_def using p(4) by (intro filter_cong) auto
  with rbt_near_prev [OF p(1) ranks_compares [OF assms(3)] p(2), of "mp_n e"]
  show ?thesis by (simp add: node_near_prev_def key_at_push Let_def)
qed

lemma node_near_next_is_prev:
  assumes "cinv rank m ns" "fresh_env e ns" "ranks kc rank"
  shows "node_near_next kc e m k = node_near_prev kc e m k"
  using rbt_near_next_is_prev [OF push_local_inv(1) [OF assms(1,2)] ranks_compares [OF assms(3)]]
  by (simp add: node_near_next_def node_near_prev_def Let_def)

section \<open>Update\<close>

definition keys_place :: "('k \<Rightarrow> 'o::linorder) \<Rightarrow> (addr \<rightharpoonup> ('k, 'v) cnode) \<Rightarrow> 'k \<Rightarrow> addr \<Rightarrow> addr list \<Rightarrow> addr list" where
  "keys_place rank d k a ns =
     filter (\<lambda>b. rank (key_at d b) < rank k) ns @ a # filter (\<lambda>b. rank k < rank (key_at d b)) ns"

lemma set_keys_place:
  assumes "ranks kc rank" "k \<notin> key_at d ` set ns"
  shows "set (keys_place rank d k a ns) = insert a (set ns)"
proof -
  have "rank (key_at d b) < rank k \<or> rank k < rank (key_at d b)" if "b \<in> set ns" for b
    using assms that by (auto simp: ranks_def inj_eq neq_iff [symmetric])
  then show ?thesis by (auto simp: keys_place_def)
qed

lemma length_keys_place:
  assumes "ranks kc rank" "k \<notin> key_at d ` set ns"
  shows "length (keys_place rank d k a ns) = Suc (length ns)"
proof -
  have "rank k < rank (key_at d b) \<longleftrightarrow> \<not> rank (key_at d b) < rank k" if "b \<in> set ns" for b
    using assms that by (auto simp: ranks_def inj_eq neq_iff [symmetric] not_less le_less)
  then have "filter (\<lambda>b. rank k < rank (key_at d b)) ns = filter (\<lambda>b. \<not> rank (key_at d b) < rank k) ns"
    by (intro filter_cong) auto
  then show ?thesis
    using sum_length_filter_compl [of "\<lambda>b. rank (key_at d b) < rank k" ns] by (simp add: keys_place_def)
qed

lemma ascending_filter: "ascending f ns \<Longrightarrow> ascending f (filter P ns)"
  by (simp add: ascending_def sorted_wrt_filter)

lemma cinv_new_val:
  assumes "cinv rank m ns" "data m a = Some n" "key n' = key n" "rbt (tree m') ns"
    and "data m' = (data m)(a \<mapsto> n')" "len m' = len m"
  shows "cinv rank m' ns"
proof -
  have "key_at (data m') b = key_at (data m) b" for b using assms by (simp add: key_at_def)
  with assms show ?thesis by (auto simp: cinv_def comp_def insert_absorb)
qed

lemma node_update_old:
  assumes "cinv rank m ns" "fresh_env e ns" "ranks kc rank" "k \<in> key_at (data m) ` set ns"
  defines "a \<equiv> locate (key_at (data m)) k ns"
  shows "\<exists>m' n. data m a = Some n \<and> key n = k \<and> a \<in> set ns
    \<and> node_update kc e m k renew new_val = Some (m', a, Some (val n))
    \<and> cinv rank m' ns \<and> data m' = (data m)(a \<mapsto> n\<lparr>val := renew (val n)\<rparr>)"
proof -
  note p = push_local_inv [OF assms(1,2), where k = k]
  let ?m1 = "push_local e k m"
  from assms(4) obtain b where b: "b \<in> set ns" "key_at (data m) b = k" by auto
  have "ascending (rank \<circ> key_at (data m)) ns" using assms(1) by (simp add: cinv_def)
  from locate_eq [OF this b(1)] b(2) have "locate (rank \<circ> key_at (data m)) (rank k) ns = b" by simp
  moreover have "locate (rank \<circ> key_at (data m)) (rank k) ns = a"
    unfolding a_def using assms(3) by (intro locate_cong) (auto simp: ranks_def inj_eq)
  ultimately have a: "a = b" by simp
  from assms(1) b obtain n where n: "data m a = Some n" "key n = k"
    by (auto simp: cinv_def key_at_def a domD dest!: equalityD2)
  have ne: "a \<noteq> mp_n e" using assms(2) b a by (auto simp: fresh_env_def)
  have "zrbtree_attach (node_cmp kc (data ?m1)) (tree ?m1) (mp_n e) = Some (tree ?m1, a)"
    using rbt_attach [OF p(1) ranks_compares [OF assms(3)] p(2), of "mp_n e"] p(3) assms(2,4)
      push_locate [OF assms(1-3)] by (simp add: key_at_push fresh_env_def a_def)
  moreover have "data ?m1 a = Some n" using n ne by (simp add: push_local_def)
  moreover define m' where "m' = drop_node (mp_n e) (?m1\<lparr>data := (data ?m1)(a \<mapsto> n\<lparr>val := renew (val n)\<rparr>)\<rparr>)"
  ultimately have u: "node_update kc e m k renew new_val = Some (m', a, Some (val n))"
    using ne by (simp add: node_update_def Let_def)
  have "data m (mp_n e) = None" using assms(1,2) by (auto simp: cinv_def fresh_env_def)
  then have d: "data m' = (data m)(a \<mapsto> n\<lparr>val := renew (val n)\<rparr>)" "len m' = len m"
    using ne by (auto simp: m'_def drop_node_def push_local_def fun_eq_iff)
  have t: "rbt (tree m') ns"
    using rbt_push [OF p(1), of "mp_n e" None] assms(2) by (simp add: m'_def drop_node_def fresh_env_def)
  have "cinv rank m' ns" by (rule cinv_new_val [OF assms(1) n(1) _ t d]) simp
  with u d n b a show ?thesis by blast
qed

lemma node_update_new:
  assumes "cinv rank m ns" "fresh_env e ns" "ranks kc rank" "k \<notin> key_at (data m) ` set ns"
  shows "\<exists>m'. node_update kc e m k renew new_val = Some (m', mp_np e, None)
    \<and> cinv rank m' (keys_place rank (data m) k (mp_np e) ns)
    \<and> data m' = (data m)(mp_np e \<mapsto> \<lparr>key = k, val = new_val\<rparr>)"
proof -
  note p = push_local_inv [OF assms(1,2), where k = k]
  let ?m1 = "push_local e k m" and ?v = "mp_n e" and ?w = "mp_np e"
  let ?xs = "filter (\<lambda>b. rank (key_at (data m) b) < rank k) ns"
  let ?ys = "filter (\<lambda>b. rank k < rank (key_at (data m) b)) ns"
  have fr: "?v \<noteq> 0" "?w \<noteq> 0" "aligned ?v" "aligned ?w" "?v \<noteq> ?w" "?v \<notin> set ns" "?w \<notin> set ns"
    using assms(2) by (simp_all add: fresh_env_def)
  have "place (rank \<circ> key_at (data ?m1)) ?v ns = ?xs @ ?v # ?ys"
    using p(4) by (simp add: place_def key_at_push cong: filter_cong)
  then obtain t1 where t1: "zrbtree_attach (node_cmp kc (data ?m1)) (tree ?m1) ?v = Some (t1, ?v)"
      "rbt t1 (?xs @ ?v # ?ys)"
    using rbt_attach [OF p(1) ranks_compares [OF assms(3)] p(2), of ?v] p(3) fr assms(4)
      push_locate(2) [OF assms(1-3)] by (auto simp: key_at_push)
  let ?t1 = "t1\<lparr>heap := (heap t1)(?w \<mapsto> junk e)\<rparr>"
  have nin: "?w \<notin> set (?xs @ ?v # ?ys)" "?v \<notin> set (?xs @ ?w # ?ys)" using fr by auto
  from rbt_push [OF t1(2) nin(1)] have "rbt ?t1 (?xs @ ?v # ?ys)" .
  then obtain t2 where t2: "zrbtree_replace_node ?t1 ?v ?w = Some t2" "rbt t2 (?xs @ ?w # ?ys)"
    using rbt_replace [of ?t1 ?xs ?v ?ys ?w] fr nin(1) by auto
  define m' where "m' = drop_node ?v (?m1\<lparr>tree := t2, data := (data ?m1)(?w \<mapsto> \<lparr>key = k, val = new_val\<rparr>),
    len := len m + 1\<rparr>)"
  have u: "node_update kc e m k renew new_val = Some (m', ?w, None)"
    using t1(1) t2(1)
    by (simp add: node_update_def alloc_node_def m'_def Let_def push_local_def drop_node_def)
  have nd: "data m ?v = None" using assms(1) fr by (auto simp: cinv_def)
  have d: "data m' = (data m)(?w \<mapsto> \<lparr>key = k, val = new_val\<rparr>)"
    using nd fr by (auto simp: m'_def drop_node_def push_local_def fun_eq_iff)
  have t: "rbt (tree m') (?xs @ ?w # ?ys)"
    using rbt_push [OF t2(2) nin(2), of None] by (simp add: m'_def drop_node_def)
  have ka: "key_at (data m') b = (if b = ?w then k else key_at (data m) b)" for b
    by (simp add: d key_at_def)
  have asc: "ascending (rank \<circ> key_at (data m)) ns" using assms(1) by (simp add: cinv_def)
  have "ascending (rank \<circ> key_at (data m')) zs" if "ascending (rank \<circ> key_at (data m)) zs" "set zs \<subseteq> set ns" for zs
  proof -
    have "ascending (rank \<circ> key_at (data m')) zs = ascending (rank \<circ> key_at (data m)) zs"
      using that(2) fr by (intro ascending_cong) (auto simp: ka)
    with that(1) show ?thesis by simp
  qed
  then have "ascending (rank \<circ> key_at (data m')) (?xs @ ?w # ?ys)"
    using ascending_filter [OF asc] fr by (auto simp: ka)
  moreover have "dom (data m') = set (?xs @ ?w # ?ys)"
    using set_keys_place [OF assms(3,4), of ?w] assms(1) by (simp add: d keys_place_def cinv_def)
  moreover have "len m' = of_nat (length (?xs @ ?w # ?ys))"
    using length_keys_place [OF assms(3,4), of ?w] assms(1)
    by (simp add: keys_place_def cinv_def m'_def drop_node_def)
  ultimately have "cinv rank m' (?xs @ ?w # ?ys)" using t by (simp add: cinv_def)
  with u d show ?thesis by (auto simp: keys_place_def)
qed

section \<open>Removal\<close>

text \<open>The invariant without the counter, for the loops that update the counter at their end.\<close>

definition cbase :: "('k \<Rightarrow> 'o::linorder) \<Rightarrow> ('k, 'v) cont \<Rightarrow> addr list \<Rightarrow> bool" where
  "cbase rank m ns \<longleftrightarrow> rbt (tree m) ns \<and> ascending (rank \<circ> key_at (data m)) ns \<and> dom (data m) = set ns"

lemma cinv_base: "cinv rank m ns \<longleftrightarrow> cbase rank m ns \<and> len m = of_nat (length ns)"
  by (auto simp: cinv_def cbase_def)

lemma node_unlink_ok:
  assumes "cbase rank m (xs @ a # ys)"
  shows "\<exists>m' n. data m a = Some n \<and> node_unlink m a = Some (m', val n)
    \<and> cbase rank m' (xs @ ys) \<and> data m' = (data m)(a := None) \<and> len m' = len m"
proof -
  have r: "rbt (tree m) (xs @ a # ys)" and dm: "dom (data m) = set (xs @ a # ys)"
    using assms by (simp_all add: cbase_def)
  obtain t1 where t1: "zrbtree_erase (tree m) a = Some t1" "rbt t1 (xs @ ys)"
    using rbt_erase [OF r] by blast
  obtain n where n: "data m a = Some n" using dm by (auto simp: set_eq_iff dom_def)
  define m' where "m' = drop_node a (m\<lparr>tree := t1\<rparr>)"
  have u: "node_unlink m a = Some (m', val n)"
    using t1(1) n by (simp add: node_unlink_def zrbtree_detach_def m'_def)
  have nin: "a \<notin> set (xs @ ys)" using rbt_distinct [OF r] by auto
  have d: "data m' = (data m)(a := None)" "len m' = len m" by (simp_all add: m'_def drop_node_def)
  have "rbt (tree m') (xs @ ys)"
    using rbt_push [OF t1(2) nin, of None] by (simp add: m'_def drop_node_def)
  moreover have "ascending (rank \<circ> key_at (data m')) (xs @ ys) = ascending (rank \<circ> key_at (data m)) (xs @ ys)"
    using nin by (intro ascending_cong) (auto simp: d key_at_def)
  then have "ascending (rank \<circ> key_at (data m')) (xs @ ys)" using assms by (auto simp: cbase_def)
  ultimately have "cbase rank m' (xs @ ys)" using dm nin d by (auto simp: cbase_def)
  with u d n show ?thesis by blast
qed

lemma cbase_first: "cbase rank m ns \<Longrightarrow> zrbtree_first (tree m) = Some (head_or ns)"
  by (simp add: cbase_def rbt_first)

lemma cbase_nonzero: "cbase rank m ns \<Longrightarrow> a \<in> set ns \<Longrightarrow> a \<noteq> 0"
  using rbt_nodes by (auto simp: cbase_def)

lemma free_loop_ok:
  "cbase rank m ns \<Longrightarrow> \<exists>m'. free_loop m = Some m' \<and> cbase rank m' [] \<and> len m' = len m"
proof (induction ns arbitrary: m)
  case Nil
  then show ?case using cbase_first [OF Nil] by (subst free_loop.simps) (simp add: head_or_def)
next
  case (Cons a ns)
  obtain m1 v where m1: "node_unlink m a = Some (m1, v)" "cbase rank m1 ns" "len m1 = len m"
    using node_unlink_ok [of rank m "[]" a ns] Cons.prems by auto
  from Cons.IH [OF m1(2)] m1 cbase_first [OF Cons.prems] cbase_nonzero [OF Cons.prems, of a]
  show ?case by (subst free_loop.simps) (auto simp: head_or_def)
qed

section \<open>The container as a map\<close>

definition stores :: "('k \<Rightarrow> 'o::linorder) \<Rightarrow> ('v \<Rightarrow> bool) \<Rightarrow> ('v \<Rightarrow> 'w) \<Rightarrow> ('k, 'v) cont \<Rightarrow> ('k \<rightharpoonup> 'w) \<Rightarrow> bool" where
  "stores rank vok view m f \<longleftrightarrow> (\<exists>ns. cinv rank m ns)
     \<and> (\<forall>a n. data m a = Some n \<longrightarrow> vok (val n) \<and> f (key n) = Some (view (val n)))
     \<and> dom f = key ` ran (data m)"

definition env_ok :: "'v env \<Rightarrow> ('k, 'v) cont \<Rightarrow> bool" where
  "env_ok e m \<longleftrightarrow> mp_n e \<noteq> 0 \<and> mp_np e \<noteq> 0 \<and> aligned (mp_n e) \<and> aligned (mp_np e) \<and> mp_n e \<noteq> mp_np e
     \<and> data m (mp_n e) = None \<and> data m (mp_np e) = None"

lemma env_ok_fresh: "env_ok e m \<Longrightarrow> cinv rank m ns \<Longrightarrow> fresh_env e ns"
  by (auto simp: env_ok_def fresh_env_def cinv_def)

lemma cinv_keys:
  assumes "cinv rank m ns"
  shows "key ` ran (data m) = key_at (data m) ` set ns"
proof -
  have "a \<in> set ns \<longleftrightarrow> (\<exists>n. data m a = Some n)" for a using assms by (auto simp: cinv_def)
  then show ?thesis by (force simp: ran_def key_at_def image_iff)
qed

lemma cinv_inj:
  assumes "cinv rank m ns" "data m a = Some n" "data m b = Some n'" "key n = key n'"
  shows "a = b"
proof -
  have ab: "a \<in> set ns" "b \<in> set ns" using assms(1-3) by (auto simp: cinv_def)
  have asc: "ascending (rank \<circ> key_at (data m)) ns" using assms(1) by (simp add: cinv_def)
  from locate_eq [OF asc ab(1)] locate_eq [OF asc ab(2)] assms(2-4) show ?thesis
    by (simp add: key_at_def)
qed

lemma stores_update:
  assumes "stores rank vok view m f" "env_ok e m" "ranks kc rank"
    and v: "vok new_val" "view new_val = w"
    and r: "\<And>v. vok v \<Longrightarrow> vok (renew v) \<and> view (renew v) = w"
  shows "\<exists>m' a old. node_update kc e m k renew new_val = Some (m', a, old)
    \<and> stores rank vok view m' (f(k \<mapsto> w)) \<and> map_option view old = f k"
proof -
  from assms(1) obtain ns where i: "cinv rank m ns"
    and f: "\<And>a n. data m a = Some n \<Longrightarrow> vok (val n) \<and> f (key n) = Some (view (val n))"
    and df: "dom f = key ` ran (data m)" by (auto simp: stores_def)
  note fr = env_ok_fresh [OF assms(2) i]
  show ?thesis
  proof (cases "k \<in> key_at (data m) ` set ns")
    case True
    let ?a = "locate (key_at (data m)) k ns"
    obtain m' n where u: "data m ?a = Some n" "key n = k"
        "node_update kc e m k renew new_val = Some (m', ?a, Some (val n))" "cinv rank m' ns"
        "data m' = (data m)(?a \<mapsto> n\<lparr>val := renew (val n)\<rparr>)"
      using node_update_old [OF i fr assms(3) True] by blast
    have o: "key n' \<noteq> k" if "data m b = Some n'" "b \<noteq> ?a" for b n'
      using cinv_inj [OF i that(1) u(1)] that(2) u(2) by auto
    have "key ` ran (data m') = key ` ran (data m)"
      unfolding cinv_keys [OF i] cinv_keys [OF u(4)] using u(1,5) by (force simp: key_at_def image_iff)
    then have "stores rank vok view m' (f(k \<mapsto> w))"
      using u f o r df True unfolding stores_def cinv_keys [OF i, symmetric]
      by (auto split: if_splits)
    with u f show ?thesis by force
  next
    case False
    obtain m' where u: "node_update kc e m k renew new_val = Some (m', mp_np e, None)"
        "cinv rank m' (keys_place rank (data m) k (mp_np e) ns)"
        "data m' = (data m)(mp_np e \<mapsto> \<lparr>key = k, val = new_val\<rparr>)"
      using node_update_new [OF i fr assms(3) False] by blast
    have k: "k \<notin> key ` ran (data m)" using False cinv_keys [OF i] by simp
    have "ran (data m') = insert \<lparr>key = k, val = new_val\<rparr> (ran (data m))"
      unfolding u(3) using assms(2) by (simp add: env_ok_def)
    moreover have "key n \<noteq> k" if "data m a = Some n" for a n
      using k that by (auto simp: ran_def)
    ultimately have "stores rank vok view m' (f(k \<mapsto> w))"
      using u f v df unfolding stores_def by (auto split: if_splits)
    moreover have "f k = None" using k df by auto
    ultimately show ?thesis using u by auto
  qed
qed

lemma stores_find:
  assumes "stores rank vok view m f" "env_ok e m" "ranks kc rank"
  shows "\<exists>a. node_find kc e m k = Some a \<and>
    (case f k of None \<Rightarrow> a = 0
     | Some w \<Rightarrow> a \<noteq> 0 \<and> (\<exists>n. data m a = Some n \<and> key n = k \<and> view (val n) = w))"
proof -
  from assms(1) obtain ns where i: "cinv rank m ns"
    and f: "\<And>a n. data m a = Some n \<Longrightarrow> f (key n) = Some (view (val n))"
    and df: "dom f = key ` ran (data m)" by (auto simp: stores_def)
  let ?a = "locate (key_at (data m)) k ns"
  have l: "node_find kc e m k = Some ?a"
    by (rule node_find_ok [OF i env_ok_fresh [OF assms(2) i] assms(3)])
  show ?thesis
  proof (cases "k \<in> key_at (data m) ` set ns")
    case True
    then obtain b where b: "b \<in> set ns" "key_at (data m) b = k" by auto
    obtain n where n: "data m b = Some n" using i b by (auto simp: cinv_def)
    have "locate (key_at (data m)) k ns = locate (rank \<circ> key_at (data m)) (rank k) ns"
      using assms(3) by (intro locate_cong) (auto simp: ranks_def inj_eq)
    also have "\<dots> = b" using locate_eq [of "rank \<circ> key_at (data m)" ns b] i b by (auto simp: cinv_def)
    finally have "?a = b" .
    moreover have "b \<noteq> 0" using cbase_nonzero [of rank m ns b] i b by (simp add: cinv_base)
    ultimately show ?thesis using l n b f [OF n] by (auto simp: key_at_def)
  next
    case False
    then have "f k = None" using df cinv_keys [OF i] by auto
    with l False show ?thesis by (simp add: locate_none)
  qed
qed

lemma cinv_split:
  assumes "cinv rank m ns" "data m a = Some n"
  obtains xs ys where "ns = xs @ a # ys" "a \<notin> set xs" "a \<notin> set ys"
proof -
  have "a \<in> set ns" using assms by (auto simp: cinv_def)
  moreover have "distinct ns" using assms(1) by (auto simp: cinv_def intro: rbt_distinct)
  ultimately show thesis using that by (fastforce dest: split_list)
qed

lemma stores_unlink:
  assumes "stores rank vok view m f" "data m a = Some n"
  shows "\<exists>m'. node_unlink m a = Some (m', val n)
    \<and> stores rank vok view (m'\<lparr>len := len m' - 1\<rparr>) (f(key n := None))"
proof -
  from assms(1) obtain ns where i: "cinv rank m ns"
    and f: "\<And>a n. data m a = Some n \<Longrightarrow> vok (val n) \<and> f (key n) = Some (view (val n))"
    and df: "dom f = key ` ran (data m)" by (auto simp: stores_def)
  from cinv_split [OF i assms(2)] obtain xs ys where ns: "ns = xs @ a # ys" "a \<notin> set xs" "a \<notin> set ys" .
  obtain m' where u: "node_unlink m a = Some (m', val n)" "cbase rank m' (xs @ ys)"
      "data m' = (data m)(a := None)" "len m' = len m"
    using node_unlink_ok [of rank m xs a ys] i ns assms(2) by (auto simp: cinv_base)
  have c: "cinv rank (m'\<lparr>len := len m' - 1\<rparr>) (xs @ ys)"
    using u i ns by (simp add: cinv_base cbase_def)
  have o: "key n' \<noteq> key n" if "data m b = Some n'" "b \<noteq> a" for b n'
    using cinv_inj [OF i that(1) assms(2)] that(2) by auto
  have "key ` ran (data m') = key ` ran (data m) - {key n}"
    using u(3) o assms(2) by (auto simp: ran_def image_iff split: if_splits) (metis option.inject)
  then have "stores rank vok view (m'\<lparr>len := len m' - 1\<rparr>) (f(key n := None))"
    using c f df o u(3) unfolding stores_def by (auto split: if_splits)
  with u show ?thesis by blast
qed

lemma stores_empty:
  assumes "cbase rank m []" "len m = 0"
  shows "stores rank vok view m Map.empty"
  using assms by (auto simp: stores_def cinv_base cbase_def intro!: exI [of _ "[]"])

lemma stores_len:
  assumes "stores rank vok view m f"
  shows "finite (dom f) \<and> len m = of_nat (card (dom f))"
proof -
  from assms obtain ns where i: "cinv rank m ns" and df: "dom f = key_at (data m) ` set ns"
    by (auto simp: stores_def cinv_keys)
  have "inj_on (key_at (data m)) (set ns)"
  proof (rule inj_onI)
    fix a b
    assume "a \<in> set ns" "b \<in> set ns" "key_at (data m) a = key_at (data m) b"
    moreover from this i obtain n n' where "data m a = Some n" "data m b = Some n'"
      unfolding cinv_def by blast
    ultimately show "a = b" using cinv_inj [OF i] by (simp add: key_at_def)
  qed
  moreover have "distinct ns" using i by (auto simp: cinv_def intro: rbt_distinct)
  ultimately show ?thesis using i df by (simp add: card_image distinct_card cinv_def)
qed

section \<open>The contract of an associative container\<close>

text \<open>A sequence of updates, each with its own environment.\<close>

fun puts :: "('e \<Rightarrow> 's \<Rightarrow> bool) \<Rightarrow> ('e \<Rightarrow> 's \<Rightarrow> 'k \<Rightarrow> 'i \<Rightarrow> 's option) \<Rightarrow> 's \<Rightarrow> ('e \<times> 'k \<times> 'i) list \<Rightarrow> 's option" where
  "puts ok put s [] = Some s"
| "puts ok put s ((e, k, v) # us) =
     (if ok e s then Option.bind (put e s k v) (\<lambda>s'. puts ok put s' us) else None)"

text \<open>Operations may fail (\<open>None\<close>) only outside of the contract; \<open>ok e s\<close> says that the
  environment \<open>e\<close> of a call provides unused memory.\<close>

locale assoc_store =
  fixes abstracts :: "'s \<Rightarrow> ('k \<rightharpoonup> 'w) \<Rightarrow> bool"
    and ok :: "'e \<Rightarrow> 's \<Rightarrow> bool"
    and put :: "'e \<Rightarrow> 's \<Rightarrow> 'k \<Rightarrow> 'i \<Rightarrow> 's option"
    and del :: "'e \<Rightarrow> 's \<Rightarrow> 'k \<Rightarrow> 's option"
    and look :: "'e \<Rightarrow> 's \<Rightarrow> 'k \<Rightarrow> 'w option option"
    and content :: "'i \<Rightarrow> 'w"
  assumes put_ok: "abstracts s f \<Longrightarrow> ok e s \<Longrightarrow> \<exists>s'. put e s k v = Some s' \<and> abstracts s' (f(k \<mapsto> content v))"
    and del_ok: "abstracts s f \<Longrightarrow> ok e s \<Longrightarrow> \<exists>s'. del e s k = Some s' \<and> abstracts s' (f(k := None))"
    and look_ok: "abstracts s f \<Longrightarrow> ok e s \<Longrightarrow> look e s k = Some (f k)"
begin

lemma look_put:
  assumes "abstracts s f" "ok e s" "put e s k v = Some s'" "ok e' s'"
  shows "look e' s' k' = (if k' = k then Some (Some (content v)) else Some (f k'))"
  using put_ok [OF assms(1,2), of k v] look_ok [of s' _ e' k'] assms(3,4) by fastforce

lemma look_del:
  assumes "abstracts s f" "ok e s" "del e s k = Some s'" "ok e' s'"
  shows "look e' s' k' = (if k' = k then Some None else Some (f k'))"
  using del_ok [OF assms(1,2), of k] look_ok [of s' _ e' k'] assms(3,4) by fastforce

lemma puts_ok:
  "abstracts s f \<Longrightarrow> puts ok put s us = Some s' \<Longrightarrow>
   abstracts s' (f ++ map_of (rev (map (\<lambda>(e, k, v). (k, content v)) us)))"
proof (induction us arbitrary: s f)
  case (Cons u us)
  obtain e k v where u: "u = (e, k, v)" by (cases u) auto
  with Cons.prems have ok: "ok e s" by (auto split: if_splits)
  from put_ok [OF Cons.prems(1) ok, of k v] obtain s1
    where s1: "put e s k v = Some s1" "abstracts s1 (f(k \<mapsto> content v))" by blast
  let ?c = "\<lambda>(e, k, v). (k, content v)"
  have "f(k \<mapsto> content v) ++ map_of (rev (map ?c us)) = f ++ map_of (rev (map ?c (u # us)))"
    by (rule ext) (auto simp: u map_add_def split: option.splits)
  moreover have "puts ok put s1 us = Some s'" using s1 Cons.prems(2) ok by (simp add: u)
  ultimately show ?case using Cons.IH [OF s1(2)] by metis
qed auto

end

end
