(* ===== verification/CStr.thy ===== *)
theory CStr
  imports Prelude "HOL-Library.List_Lexorder"
begin

text \<open>
  C strings: byte lists without a NUL, as a type of its own, and \<open>strcmp\<close>: the difference of the
  first bytes that differ, where the end of a string counts as 0. It orders the strings
  lexicographically.
\<close>

typedef cstring = "{s :: bytes. 0 \<notin> set s}"
  morphisms str_bytes Abs_cstring
  by (rule exI [of _ "[]"]) simp

text \<open>The string a \<open>char *\<close> to the given memory denotes.\<close>

definition cs :: "bytes \<Rightarrow> cstring" where
  "cs bs = Abs_cstring (takeWhile (\<lambda>b. b \<noteq> 0) bs)"

lemma str_bytes_cs [simp]: "str_bytes (cs bs) = takeWhile (\<lambda>b. b \<noteq> 0) bs"
  unfolding cs_def by (rule Abs_cstring_inverse) (auto dest: set_takeWhileD)

lemma no_nul [simp]: "0 \<notin> set (str_bytes s)"
  using str_bytes by simp

lemma cs_str_bytes [simp]: "cs (str_bytes s) = s"
proof -
  have "takeWhile (\<lambda>b. b \<noteq> 0) (str_bytes s) = str_bytes s"
    by (rule takeWhile_eq_all_conv [THEN iffD2]) (metis no_nul)
  then show ?thesis unfolding cs_def by (simp only: str_bytes_inverse)
qed

lemma cs_eq_iff: "cs a = cs b \<longleftrightarrow> takeWhile (\<lambda>b. b \<noteq> 0) a = takeWhile (\<lambda>b. b \<noteq> 0) b"
  by (metis str_bytes_cs str_bytes_inject)

instantiation cstring :: linorder
begin

definition less_eq_cstring :: "cstring \<Rightarrow> cstring \<Rightarrow> bool" where
  "less_eq_cstring a b \<longleftrightarrow> str_bytes a \<le> str_bytes b"

definition less_cstring :: "cstring \<Rightarrow> cstring \<Rightarrow> bool" where
  "less_cstring a b \<longleftrightarrow> str_bytes a < str_bytes b"

instance
  by standard (auto simp: less_eq_cstring_def less_cstring_def str_bytes_inject [symmetric])

end

instantiation cstring :: equal
begin

definition equal_cstring :: "cstring \<Rightarrow> cstring \<Rightarrow> bool" where
  "equal_cstring a b \<longleftrightarrow> str_bytes a = str_bytes b"

instance
  by standard (simp add: equal_cstring_def str_bytes_inject)

end

fun bytes_cmp :: "bytes \<Rightarrow> bytes \<Rightarrow> int" where
  "bytes_cmp [] [] = 0"
| "bytes_cmp [] (y # ys) = - uint y"
| "bytes_cmp (x # xs) [] = uint x"
| "bytes_cmp (x # xs) (y # ys) = (if x = y then bytes_cmp xs ys else uint x - uint y)"

definition strcmp :: "cstring \<Rightarrow> cstring \<Rightarrow> int" where
  "strcmp a b = bytes_cmp (str_bytes a) (str_bytes b)"

lemma uint_pos: "(x :: byte) \<noteq> 0 \<Longrightarrow> 0 < uint x"
  by (metis uint_0_iff uint_nonnegative order_le_less)

lemma bytes_cmp_order:
  assumes "0 \<notin> set a" "0 \<notin> set b"
  shows "(bytes_cmp a b < 0 \<longleftrightarrow> a < b) \<and> (bytes_cmp a b > 0 \<longleftrightarrow> b < a)"
  using assms
proof (induction a b rule: bytes_cmp.induct)
  case (2 y ys)
  then have "0 < uint y" by (intro uint_pos) auto
  then show ?case by simp
next
  case (3 x xs)
  then have "0 < uint x" by (intro uint_pos) auto
  then show ?case by simp
next
  case (4 x xs y ys)
  then show ?case by (auto simp: word_less_def word_uint_eq_iff)
qed simp

lemma strcmp_order: "strcmp a b < 0 \<longleftrightarrow> a < b" "strcmp a b > 0 \<longleftrightarrow> b < a"
  using bytes_cmp_order [of "str_bytes a" "str_bytes b"] by (auto simp: strcmp_def less_cstring_def)

section \<open>Case-insensitive comparison and booleans\<close>

definition tolower :: "byte \<Rightarrow> byte" where
  "tolower c = (if ch CHR ''A'' \<le> c \<and> c \<le> ch CHR ''Z'' then c + 32 else c)"

text \<open>\<open>!strcasecmp(a, b)\<close> in the C locale.\<close>

definition strcaseeq :: "bytes \<Rightarrow> bytes \<Rightarrow> bool" where
  "strcaseeq a b \<longleftrightarrow> map tolower a = map tolower b"

definition zstr_to_bool :: "cstring \<Rightarrow> int \<Rightarrow> int" where
  "zstr_to_bool s def =
     (let b = str_bytes s in
      if b = cstr ''1'' \<or> strcaseeq b (cstr ''y'') \<or> strcaseeq b (cstr ''yes'') \<or> strcaseeq b (cstr ''true'') then 1
      else if b = cstr ''0'' \<or> strcaseeq b (cstr ''n'') \<or> strcaseeq b (cstr ''no'') \<or> strcaseeq b (cstr ''false'') then 0
      else def)"

end
