(* ===== verification/Maps.thy ===== *)
theory Maps
  imports NodeMap CStr
begin

text \<open>
  The containers \<open>zmap\<close> (\<open>src/stdlib/map.c\<close>: string keys, pointer values), \<open>zlongmap\<close>
  (\<open>longmap.c\<close>: integer keys, pointer values) and \<open>zdictlong\<close> (\<open>dictlong.c\<close>: string keys, integer
  values). The sources are three copies of one scheme, and so are the definitions; the lemmas come
  from theory \<open>NodeMap\<close>.
\<close>

section \<open>\<open>zmap\<close>\<close>

type_synonym zmap = "(cstring, addr) cont"

definition zmap_zrbtree_cmp :: "(addr \<rightharpoonup> (cstring, addr) cnode) \<Rightarrow> addr \<Rightarrow> addr \<Rightarrow> int" where
  "zmap_zrbtree_cmp d n1 n2 = strcmp (key_at d n1) (key_at d n2)"

definition zmap_create :: "rbs \<Rightarrow> zmap" where
  "zmap_create t = \<lparr>tree = zrbtree_init t, data = Map.empty, len = 0\<rparr>"

definition zmap_update :: "addr env \<Rightarrow> zmap \<Rightarrow> cstring \<Rightarrow> addr \<Rightarrow> (zmap \<times> addr \<times> addr) option" where
  "zmap_update e m k v = do {
     let m1 = push_local e k m;
     (t1, rb_np) \<leftarrow> zrbtree_attach (zmap_zrbtree_cmp (data m1)) (tree m1) (mp_n e);
     (if rb_np \<noteq> mp_n e then do {
        n \<leftarrow> data m1 rb_np;
        Some (drop_node (mp_n e) (m1\<lparr>tree := t1, data := (data m1)(rb_np \<mapsto> n\<lparr>val := v\<rparr>)\<rparr>), rb_np, val n) }
      else do {
        let m2 = alloc_node e \<lparr>key = k, val = v\<rparr> (m1\<lparr>tree := t1\<rparr>);
        t2 \<leftarrow> zrbtree_replace_node (tree m2) (mp_n e) (mp_np e);
        Some (drop_node (mp_n e) (m2\<lparr>tree := t2, len := len m2 + 1\<rparr>), mp_np e, 0) }) }"

text \<open>The lookups return the node and what they store through \<open>value\<close>.\<close>

definition zmap_value :: "zmap \<Rightarrow> addr \<Rightarrow> (addr \<times> addr) option" where
  "zmap_value m rb_np = (if rb_np \<noteq> 0 then do { n \<leftarrow> data m rb_np; Some (rb_np, val n) } else Some (0, 0))"

definition zmap_find :: "addr env \<Rightarrow> zmap \<Rightarrow> cstring \<Rightarrow> (addr \<times> addr) option" where
  "zmap_find e m k = do {
     let m1 = push_local e k m;
     rb_np \<leftarrow> zrbtree_find (zmap_zrbtree_cmp (data m1)) (tree m1) (mp_n e);
     zmap_value m rb_np }"

definition zmap_find_near_prev :: "addr env \<Rightarrow> zmap \<Rightarrow> cstring \<Rightarrow> (addr \<times> addr) option" where
  "zmap_find_near_prev e m k = do {
     let m1 = push_local e k m;
     rb_np \<leftarrow> zrbtree_near_prev (zmap_zrbtree_cmp (data m1)) (tree m1) (mp_n e);
     zmap_value m rb_np }"

definition zmap_find_near_next :: "addr env \<Rightarrow> zmap \<Rightarrow> cstring \<Rightarrow> (addr \<times> addr) option" where
  "zmap_find_near_next e m k = do {
     let m1 = push_local e k m;
     rb_np \<leftarrow> zrbtree_near_next (zmap_zrbtree_cmp (data m1)) (tree m1) (mp_n e);
     zmap_value m rb_np }"

definition zmap_delete_node :: "zmap \<Rightarrow> addr \<Rightarrow> (zmap \<times> addr) option" where
  "zmap_delete_node m n = do {
     (t1, _) \<leftarrow> zrbtree_detach (tree m) n;
     nn \<leftarrow> data m n;
     Some (drop_node n (m\<lparr>tree := t1, len := len m - 1\<rparr>), val nn) }"

definition zmap_delete :: "addr env \<Rightarrow> zmap \<Rightarrow> cstring \<Rightarrow> (zmap \<times> bool \<times> addr option) option" where
  "zmap_delete e m k = do {
     (n, _) \<leftarrow> zmap_find e m k;
     (if n = 0 then Some (m, False, None)
      else do {
        (t1, _) \<leftarrow> zrbtree_detach (tree m) n;
        nn \<leftarrow> data m n;
        Some (drop_node n (m\<lparr>tree := t1, len := len m - 1\<rparr>), True, Some (val nn)) }) }"

definition zmap_node_update :: "zmap \<Rightarrow> addr \<Rightarrow> addr \<Rightarrow> (zmap \<times> addr) option" where
  "zmap_node_update m n v = do {
     nn \<leftarrow> data m n;
     Some (m\<lparr>data := (data m)(n \<mapsto> nn\<lparr>val := v\<rparr>)\<rparr>, val nn) }"


definition zmap_first :: "zmap \<Rightarrow> addr option" where
  "zmap_first m = zrbtree_first (tree m)"

definition zmap_last :: "zmap \<Rightarrow> addr option" where
  "zmap_last m = zrbtree_last (tree m)"

definition zmap_prev :: "zmap \<Rightarrow> addr \<Rightarrow> addr option" where
  "zmap_prev m node = zrbtree_prev (tree m) node"

definition zmap_next :: "zmap \<Rightarrow> addr \<Rightarrow> addr option" where
  "zmap_next m node = zrbtree_next (tree m) node"

text \<open>\<open>zmap_free\<close>, up to the release of the container itself.\<close>

definition zmap_free :: "zmap \<Rightarrow> zmap option" where
  "zmap_free m = free_loop m"

partial_function (option) zmap_reset :: "zmap \<Rightarrow> zmap option" where
  "zmap_reset m = Option.bind (zmap_first m) (\<lambda>n.
     if n = 0 then Some m
     else Option.bind (zmap_delete_node m n) (\<lambda>(m', _). zmap_reset m'))"

section \<open>\<open>zlongmap\<close>\<close>

type_synonym zlongmap = "(64 word, addr) cont"

definition zlongmap_zrbtree_cmp :: "(addr \<rightharpoonup> (64 word, addr) cnode) \<Rightarrow> addr \<Rightarrow> addr \<Rightarrow> int" where
  "zlongmap_zrbtree_cmp d n1 n2 = 
     (if sint (key_at d n1) > sint (key_at d n2) then 1
      else if sint (key_at d n1) < sint (key_at d n2) then - 1 else 0)"

definition zlongmap_create :: "rbs \<Rightarrow> zlongmap" where
  "zlongmap_create t = \<lparr>tree = zrbtree_init t, data = Map.empty, len = 0\<rparr>"

definition zlongmap_update :: "addr env \<Rightarrow> zlongmap \<Rightarrow> 64 word \<Rightarrow> addr \<Rightarrow> (zlongmap \<times> addr \<times> addr) option" where
  "zlongmap_update e m k v = do {
     let m1 = push_local e k m;
     (t1, rb_np) \<leftarrow> zrbtree_attach (zlongmap_zrbtree_cmp (data m1)) (tree m1) (mp_n e);
     (if rb_np \<noteq> mp_n e then do {
        n \<leftarrow> data m1 rb_np;
        Some (drop_node (mp_n e) (m1\<lparr>tree := t1, data := (data m1)(rb_np \<mapsto> n\<lparr>val := v\<rparr>)\<rparr>), rb_np, val n) }
      else do {
        let m2 = alloc_node e \<lparr>key = k, val = v\<rparr> (m1\<lparr>tree := t1\<rparr>);
        t2 \<leftarrow> zrbtree_replace_node (tree m2) (mp_n e) (mp_np e);
        Some (drop_node (mp_n e) (m2\<lparr>tree := t2, len := len m2 + 1\<rparr>), mp_np e, 0) }) }"

text \<open>The lookups return the node and what they store through \<open>value\<close>.\<close>

definition zlongmap_value :: "zlongmap \<Rightarrow> addr \<Rightarrow> (addr \<times> addr) option" where
  "zlongmap_value m rb_np = (if rb_np \<noteq> 0 then do { n \<leftarrow> data m rb_np; Some (rb_np, val n) } else Some (0, 0))"

definition zlongmap_find :: "addr env \<Rightarrow> zlongmap \<Rightarrow> 64 word \<Rightarrow> (addr \<times> addr) option" where
  "zlongmap_find e m k = do {
     let m1 = push_local e k m;
     rb_np \<leftarrow> zrbtree_find (zlongmap_zrbtree_cmp (data m1)) (tree m1) (mp_n e);
     zlongmap_value m rb_np }"

definition zlongmap_find_near_prev :: "addr env \<Rightarrow> zlongmap \<Rightarrow> 64 word \<Rightarrow> (addr \<times> addr) option" where
  "zlongmap_find_near_prev e m k = do {
     let m1 = push_local e k m;
     rb_np \<leftarrow> zrbtree_near_prev (zlongmap_zrbtree_cmp (data m1)) (tree m1) (mp_n e);
     zlongmap_value m rb_np }"

definition zlongmap_find_near_next :: "addr env \<Rightarrow> zlongmap \<Rightarrow> 64 word \<Rightarrow> (addr \<times> addr) option" where
  "zlongmap_find_near_next e m k = do {
     let m1 = push_local e k m;
     rb_np \<leftarrow> zrbtree_near_next (zlongmap_zrbtree_cmp (data m1)) (tree m1) (mp_n e);
     zlongmap_value m rb_np }"

definition zlongmap_delete_node :: "zlongmap \<Rightarrow> addr \<Rightarrow> (zlongmap \<times> addr) option" where
  "zlongmap_delete_node m n = do {
     (t1, _) \<leftarrow> zrbtree_detach (tree m) n;
     nn \<leftarrow> data m n;
     Some (drop_node n (m\<lparr>tree := t1, len := len m - 1\<rparr>), val nn) }"

definition zlongmap_delete :: "addr env \<Rightarrow> zlongmap \<Rightarrow> 64 word \<Rightarrow> (zlongmap \<times> bool \<times> addr option) option" where
  "zlongmap_delete e m k = do {
     (n, _) \<leftarrow> zlongmap_find e m k;
     (if n = 0 then Some (m, False, None)
      else do {
        (t1, _) \<leftarrow> zrbtree_detach (tree m) n;
        nn \<leftarrow> data m n;
        Some (drop_node n (m\<lparr>tree := t1, len := len m - 1\<rparr>), True, Some (val nn)) }) }"

definition zlongmap_node_update :: "zlongmap \<Rightarrow> addr \<Rightarrow> addr \<Rightarrow> (zlongmap \<times> addr) option" where
  "zlongmap_node_update m n v = do {
     nn \<leftarrow> data m n;
     Some (m\<lparr>data := (data m)(n \<mapsto> nn\<lparr>val := v\<rparr>)\<rparr>, val nn) }"


definition zlongmap_first :: "zlongmap \<Rightarrow> addr option" where
  "zlongmap_first m = zrbtree_first (tree m)"

definition zlongmap_last :: "zlongmap \<Rightarrow> addr option" where
  "zlongmap_last m = zrbtree_last (tree m)"

definition zlongmap_prev :: "zlongmap \<Rightarrow> addr \<Rightarrow> addr option" where
  "zlongmap_prev m node = zrbtree_prev (tree m) node"

definition zlongmap_next :: "zlongmap \<Rightarrow> addr \<Rightarrow> addr option" where
  "zlongmap_next m node = zrbtree_next (tree m) node"

text \<open>\<open>zlongmap_free\<close>, up to the release of the container itself.\<close>

definition zlongmap_free :: "zlongmap \<Rightarrow> zlongmap option" where
  "zlongmap_free m = free_loop m"

partial_function (option) zlongmap_reset :: "zlongmap \<Rightarrow> zlongmap option" where
  "zlongmap_reset m = Option.bind (zlongmap_first m) (\<lambda>n.
     if n = 0 then Some m
     else Option.bind (zlongmap_delete_node m n) (\<lambda>(m', _). zlongmap_reset m'))"

section \<open>\<open>zdictlong\<close>\<close>

type_synonym zdictlong = "(cstring, 64 word) cont"

definition zdictlong_zrbtree_cmp :: "(addr \<rightharpoonup> (cstring, 64 word) cnode) \<Rightarrow> addr \<Rightarrow> addr \<Rightarrow> int" where
  "zdictlong_zrbtree_cmp d n1 n2 = strcmp (key_at d n1) (key_at d n2)"

definition zdictlong_create :: "rbs \<Rightarrow> zdictlong" where
  "zdictlong_create t = \<lparr>tree = zrbtree_init t, data = Map.empty, len = 0\<rparr>"

definition zdictlong_update :: "64 word env \<Rightarrow> zdictlong \<Rightarrow> cstring \<Rightarrow> 64 word \<Rightarrow> (zdictlong \<times> addr) option" where
  "zdictlong_update e m k v = do {
     let m1 = push_local e k m;
     (t1, rb_np) \<leftarrow> zrbtree_attach (zdictlong_zrbtree_cmp (data m1)) (tree m1) (mp_n e);
     (if rb_np \<noteq> mp_n e then do {
        n \<leftarrow> data m1 rb_np;
        Some (drop_node (mp_n e) (m1\<lparr>tree := t1, data := (data m1)(rb_np \<mapsto> n\<lparr>val := v\<rparr>)\<rparr>), rb_np) }
      else do {
        let m2 = alloc_node e \<lparr>key = k, val = v\<rparr> (m1\<lparr>tree := t1\<rparr>);
        t2 \<leftarrow> zrbtree_replace_node (tree m2) (mp_n e) (mp_np e);
        Some (drop_node (mp_n e) (m2\<lparr>tree := t2, len := len m2 + 1\<rparr>), mp_np e) }) }"

text \<open>The lookups return the node and what they store through \<open>value\<close>.\<close>

definition zdictlong_value :: "zdictlong \<Rightarrow> addr \<Rightarrow> (addr \<times> 64 word) option" where
  "zdictlong_value m rb_np = (if rb_np \<noteq> 0 then do { n \<leftarrow> data m rb_np; Some (rb_np, val n) } else Some (0, 0))"

definition zdictlong_find :: "64 word env \<Rightarrow> zdictlong \<Rightarrow> cstring \<Rightarrow> (addr \<times> 64 word) option" where
  "zdictlong_find e m k = do {
     let m1 = push_local e k m;
     rb_np \<leftarrow> zrbtree_find (zdictlong_zrbtree_cmp (data m1)) (tree m1) (mp_n e);
     zdictlong_value m rb_np }"

definition zdictlong_find_near_prev :: "64 word env \<Rightarrow> zdictlong \<Rightarrow> cstring \<Rightarrow> (addr \<times> 64 word) option" where
  "zdictlong_find_near_prev e m k = do {
     let m1 = push_local e k m;
     rb_np \<leftarrow> zrbtree_near_prev (zdictlong_zrbtree_cmp (data m1)) (tree m1) (mp_n e);
     zdictlong_value m rb_np }"

definition zdictlong_find_near_next :: "64 word env \<Rightarrow> zdictlong \<Rightarrow> cstring \<Rightarrow> (addr \<times> 64 word) option" where
  "zdictlong_find_near_next e m k = do {
     let m1 = push_local e k m;
     rb_np \<leftarrow> zrbtree_near_next (zdictlong_zrbtree_cmp (data m1)) (tree m1) (mp_n e);
     zdictlong_value m rb_np }"

definition zdictlong_delete_node :: "zdictlong \<Rightarrow> addr \<Rightarrow> zdictlong option" where
  "zdictlong_delete_node m n = do {
     (t1, _) \<leftarrow> zrbtree_detach (tree m) n;
     nn \<leftarrow> data m n;
     Some (drop_node n (m\<lparr>tree := t1, len := len m - 1\<rparr>)) }"

definition zdictlong_delete :: "64 word env \<Rightarrow> zdictlong \<Rightarrow> cstring \<Rightarrow> zdictlong option" where
  "zdictlong_delete e m k = do {
     (n, _) \<leftarrow> zdictlong_find e m k;
     (if n = 0 then Some m
      else do {
        (t1, _) \<leftarrow> zrbtree_detach (tree m) n;
        nn \<leftarrow> data m n;
        Some (drop_node n (m\<lparr>tree := t1, len := len m - 1\<rparr>)) }) }"


definition zdictlong_first :: "zdictlong \<Rightarrow> addr option" where
  "zdictlong_first m = zrbtree_first (tree m)"

definition zdictlong_last :: "zdictlong \<Rightarrow> addr option" where
  "zdictlong_last m = zrbtree_last (tree m)"

definition zdictlong_prev :: "zdictlong \<Rightarrow> addr \<Rightarrow> addr option" where
  "zdictlong_prev m node = zrbtree_prev (tree m) node"

definition zdictlong_next :: "zdictlong \<Rightarrow> addr \<Rightarrow> addr option" where
  "zdictlong_next m node = zrbtree_next (tree m) node"

text \<open>\<open>zdictlong_free\<close>, up to the release of the container itself.\<close>

definition zdictlong_free :: "zdictlong \<Rightarrow> zdictlong option" where
  "zdictlong_free m = free_loop m"

definition zdictlong_reset :: "zdictlong \<Rightarrow> zdictlong option" where
  "zdictlong_reset m = do { m1 \<leftarrow> free_loop m; Some (m1\<lparr>len := 0\<rparr>) }"

section \<open>Correctness\<close>

text \<open>The keys of the three containers and their orders.\<close>

definition long_cmp :: "64 word \<Rightarrow> 64 word \<Rightarrow> int" where
  "long_cmp a b = (if sint a > sint b then 1 else if sint a < sint b then - 1 else 0)"

lemma id_ranks: "ranks strcmp id"
  by (simp add: ranks_def strcmp_order)

lemma sint_ranks: "ranks long_cmp sint"
  by (auto simp: ranks_def long_cmp_def inj_def intro: signed_word_eqI)

lemma map_option_bind: "map_option g (Option.bind x h) = Option.bind x (map_option g \<circ> h)"
  by (cases x) auto

lemma bind_cong': "x = y \<Longrightarrow> (\<And>a. y = Some a \<Longrightarrow> f a = g a) \<Longrightarrow> Option.bind x f = Option.bind y g"
  by (cases y) auto

subsection \<open>\<open>zmap\<close>\<close>

lemma zmap_cmp: "zmap_zrbtree_cmp d = node_cmp strcmp d"
  by (intro ext) (simp add: zmap_zrbtree_cmp_def node_cmp_def)

abbreviation zmap_map :: "zmap \<Rightarrow> (cstring \<rightharpoonup> addr) \<Rightarrow> bool" where
  "zmap_map m f \<equiv> stores id (\<lambda>_. True) id m f"

lemma zmap_update_node:
  "zmap_update e m k v = map_option (\<lambda>(m', a, old). (m', a, case old of None \<Rightarrow> 0 | Some w \<Rightarrow> w)) (node_update strcmp e m k (\<lambda>_. v) v)"
  unfolding zmap_update_def node_update_def zmap_cmp Let_def
  by (auto simp: map_option_bind intro!: bind_cong' split: option.splits)

lemma zmap_find_node: "zmap_find e m k = Option.bind (node_find strcmp e m k) (zmap_value m)"
  by (simp add: zmap_find_def node_find_def zmap_cmp Let_def)

lemma zmap_update_ok:
  assumes "zmap_map m f" "env_ok e m"
  shows "\<exists>m' a. zmap_update e m k v = Some (m', a, case f k of None \<Rightarrow> 0 | Some w \<Rightarrow> w) \<and> zmap_map m' (f(k \<mapsto> v))"
proof -
  obtain m' a old where "node_update strcmp e m k (\<lambda>_. v) v = Some (m', a, old)"
      "zmap_map m' (f(k \<mapsto> v))" "map_option id old = f k"
    using stores_update [OF assms id_ranks, of v v "\<lambda>_. v" k] by auto
  then show ?thesis by (auto simp: zmap_update_node option.map_id)
qed

lemma zmap_find_ok:
  assumes "zmap_map m f" "env_ok e m"
  shows "\<exists>a. zmap_find e m k = Some (a, case f k of None \<Rightarrow> 0 | Some w \<Rightarrow> w)
    \<and> (a = 0 \<longleftrightarrow> f k = None) \<and> (a \<noteq> 0 \<longrightarrow> (\<exists>n. data m a = Some n \<and> key n = k))"
  using stores_find [OF assms id_ranks, of k]
  by (auto simp: zmap_find_node zmap_value_def split: option.splits)

lemma zmap_delete_ok:
  assumes "zmap_map m f" "env_ok e m"
  shows "\<exists>m'. zmap_delete e m k = Some (m', f k \<noteq> None, f k) \<and> zmap_map m' (f(k := None))"
proof -
  obtain a where a: "zmap_find e m k = Some (a, case f k of None \<Rightarrow> 0 | Some w \<Rightarrow> w)"
      "a = 0 \<longleftrightarrow> f k = None" "a \<noteq> 0 \<longrightarrow> (\<exists>n. data m a = Some n \<and> key n = k)"
    using zmap_find_ok [OF assms] by blast
  show ?thesis
  proof (cases "f k")
    case None
    with a(1,2) assms(1) show ?thesis by (simp add: zmap_delete_def fun_upd_idem)
  next
    case (Some w)
    with a(2,3) obtain n where n: "data m a = Some n" "key n = k" by auto
    with assms(1) Some have w: "val n = w" by (auto simp: stores_def)
    obtain m1 where m1: "node_unlink m a = Some (m1, val n)"
        "zmap_map (m1\<lparr>len := len m1 - 1\<rparr>) (f(k := None))"
      using stores_unlink [OF assms(1) n(1)] n(2) by auto
    then have "zmap_delete e m k = Some (m1\<lparr>len := len m1 - 1\<rparr>, True, Some w)"
      using a(1,2) n(1) Some w
      by (auto simp: zmap_delete_def node_unlink_def drop_node_def split: bind_splits)
    with m1(2) Some show ?thesis by simp
  qed
qed

interpretation zmap: assoc_store zmap_map env_ok
  "\<lambda>e m k v. map_option fst (zmap_update e m k v)"
  "\<lambda>e m k. map_option fst (zmap_delete e m k)"
  "\<lambda>e m k. map_option (\<lambda>(a, v). if a = 0 then None else Some v) (zmap_find e m k)"
  "id :: addr \<Rightarrow> addr"
proof
  fix m e k v and f :: "cstring \<rightharpoonup> addr"
  assume a: "zmap_map m f" "env_ok e m"
  show "\<exists>m'. map_option fst (zmap_update e m k v) = Some m' \<and> zmap_map m' (f(k \<mapsto> id v))"
    using zmap_update_ok [OF a, of k v] by auto
  show "\<exists>m'. map_option fst (zmap_delete e m k) = Some m' \<and> zmap_map m' (f(k := None))"
    using zmap_delete_ok [OF a, of k] by auto
  show "map_option (\<lambda>(a, v). if a = 0 then None else Some v) (zmap_find e m k) = Some (f k)"
    using zmap_find_ok [OF a, of k] by (auto split: option.splits)
qed

subsection \<open>\<open>zlongmap\<close>\<close>

lemma zlongmap_cmp: "zlongmap_zrbtree_cmp d = node_cmp long_cmp d"
  by (intro ext) (simp add: zlongmap_zrbtree_cmp_def node_cmp_def long_cmp_def)

abbreviation zlongmap_map :: "zlongmap \<Rightarrow> (64 word \<rightharpoonup> addr) \<Rightarrow> bool" where
  "zlongmap_map m f \<equiv> stores sint (\<lambda>_. True) id m f"

lemma zlongmap_update_node:
  "zlongmap_update e m k v = map_option (\<lambda>(m', a, old). (m', a, case old of None \<Rightarrow> 0 | Some w \<Rightarrow> w)) (node_update long_cmp e m k (\<lambda>_. v) v)"
  unfolding zlongmap_update_def node_update_def zlongmap_cmp Let_def
  by (auto simp: map_option_bind intro!: bind_cong' split: option.splits)

lemma zlongmap_find_node: "zlongmap_find e m k = Option.bind (node_find long_cmp e m k) (zlongmap_value m)"
  by (simp add: zlongmap_find_def node_find_def zlongmap_cmp Let_def)

lemma zlongmap_update_ok:
  assumes "zlongmap_map m f" "env_ok e m"
  shows "\<exists>m' a. zlongmap_update e m k v = Some (m', a, case f k of None \<Rightarrow> 0 | Some w \<Rightarrow> w) \<and> zlongmap_map m' (f(k \<mapsto> v))"
proof -
  obtain m' a old where "node_update long_cmp e m k (\<lambda>_. v) v = Some (m', a, old)"
      "zlongmap_map m' (f(k \<mapsto> v))" "map_option id old = f k"
    using stores_update [OF assms sint_ranks, of v v "\<lambda>_. v" k] by auto
  then show ?thesis by (auto simp: zlongmap_update_node option.map_id)
qed

lemma zlongmap_find_ok:
  assumes "zlongmap_map m f" "env_ok e m"
  shows "\<exists>a. zlongmap_find e m k = Some (a, case f k of None \<Rightarrow> 0 | Some w \<Rightarrow> w)
    \<and> (a = 0 \<longleftrightarrow> f k = None) \<and> (a \<noteq> 0 \<longrightarrow> (\<exists>n. data m a = Some n \<and> key n = k))"
  using stores_find [OF assms sint_ranks, of k]
  by (auto simp: zlongmap_find_node zlongmap_value_def split: option.splits)

lemma zlongmap_delete_ok:
  assumes "zlongmap_map m f" "env_ok e m"
  shows "\<exists>m'. zlongmap_delete e m k = Some (m', f k \<noteq> None, f k) \<and> zlongmap_map m' (f(k := None))"
proof -
  obtain a where a: "zlongmap_find e m k = Some (a, case f k of None \<Rightarrow> 0 | Some w \<Rightarrow> w)"
      "a = 0 \<longleftrightarrow> f k = None" "a \<noteq> 0 \<longrightarrow> (\<exists>n. data m a = Some n \<and> key n = k)"
    using zlongmap_find_ok [OF assms] by blast
  show ?thesis
  proof (cases "f k")
    case None
    with a(1,2) assms(1) show ?thesis by (simp add: zlongmap_delete_def fun_upd_idem)
  next
    case (Some w)
    with a(2,3) obtain n where n: "data m a = Some n" "key n = k" by auto
    with assms(1) Some have w: "val n = w" by (auto simp: stores_def)
    obtain m1 where m1: "node_unlink m a = Some (m1, val n)"
        "zlongmap_map (m1\<lparr>len := len m1 - 1\<rparr>) (f(k := None))"
      using stores_unlink [OF assms(1) n(1)] n(2) by auto
    then have "zlongmap_delete e m k = Some (m1\<lparr>len := len m1 - 1\<rparr>, True, Some w)"
      using a(1,2) n(1) Some w
      by (auto simp: zlongmap_delete_def node_unlink_def drop_node_def split: bind_splits)
    with m1(2) Some show ?thesis by simp
  qed
qed

interpretation zlongmap: assoc_store zlongmap_map env_ok
  "\<lambda>e m k v. map_option fst (zlongmap_update e m k v)"
  "\<lambda>e m k. map_option fst (zlongmap_delete e m k)"
  "\<lambda>e m k. map_option (\<lambda>(a, v). if a = 0 then None else Some v) (zlongmap_find e m k)"
  "id :: addr \<Rightarrow> addr"
proof
  fix m e k v and f :: "64 word \<rightharpoonup> addr"
  assume a: "zlongmap_map m f" "env_ok e m"
  show "\<exists>m'. map_option fst (zlongmap_update e m k v) = Some m' \<and> zlongmap_map m' (f(k \<mapsto> id v))"
    using zlongmap_update_ok [OF a, of k v] by auto
  show "\<exists>m'. map_option fst (zlongmap_delete e m k) = Some m' \<and> zlongmap_map m' (f(k := None))"
    using zlongmap_delete_ok [OF a, of k] by auto
  show "map_option (\<lambda>(a, v). if a = 0 then None else Some v) (zlongmap_find e m k) = Some (f k)"
    using zlongmap_find_ok [OF a, of k] by (auto split: option.splits)
qed

subsection \<open>\<open>zdictlong\<close>\<close>

lemma zdictlong_cmp: "zdictlong_zrbtree_cmp d = node_cmp strcmp d"
  by (intro ext) (simp add: zdictlong_zrbtree_cmp_def node_cmp_def)

abbreviation zdictlong_map :: "zdictlong \<Rightarrow> (cstring \<rightharpoonup> 64 word) \<Rightarrow> bool" where
  "zdictlong_map m f \<equiv> stores id (\<lambda>_. True) id m f"

lemma zdictlong_update_node:
  "zdictlong_update e m k v = map_option (\<lambda>(m', a, old). (m', a)) (node_update strcmp e m k (\<lambda>_. v) v)"
  unfolding zdictlong_update_def node_update_def zdictlong_cmp Let_def
  by (auto simp: map_option_bind intro!: bind_cong' split: option.splits)

lemma zdictlong_find_node: "zdictlong_find e m k = Option.bind (node_find strcmp e m k) (zdictlong_value m)"
  by (simp add: zdictlong_find_def node_find_def zdictlong_cmp Let_def)

lemma zdictlong_update_ok:
  assumes "zdictlong_map m f" "env_ok e m"
  shows "\<exists>m' a. zdictlong_update e m k v = Some (m', a) \<and> zdictlong_map m' (f(k \<mapsto> v))"
proof -
  obtain m' a old where "node_update strcmp e m k (\<lambda>_. v) v = Some (m', a, old)"
      "zdictlong_map m' (f(k \<mapsto> v))" "map_option id old = f k"
    using stores_update [OF assms id_ranks, of v v "\<lambda>_. v" k] by auto
  then show ?thesis by (auto simp: zdictlong_update_node option.map_id)
qed

lemma zdictlong_find_ok:
  assumes "zdictlong_map m f" "env_ok e m"
  shows "\<exists>a. zdictlong_find e m k = Some (a, case f k of None \<Rightarrow> 0 | Some w \<Rightarrow> w)
    \<and> (a = 0 \<longleftrightarrow> f k = None) \<and> (a \<noteq> 0 \<longrightarrow> (\<exists>n. data m a = Some n \<and> key n = k))"
  using stores_find [OF assms id_ranks, of k]
  by (auto simp: zdictlong_find_node zdictlong_value_def split: option.splits)

lemma zdictlong_delete_ok:
  assumes "zdictlong_map m f" "env_ok e m"
  shows "\<exists>m'. zdictlong_delete e m k = Some m' \<and> zdictlong_map m' (f(k := None))"
proof -
  obtain a where a: "zdictlong_find e m k = Some (a, case f k of None \<Rightarrow> 0 | Some w \<Rightarrow> w)"
      "a = 0 \<longleftrightarrow> f k = None" "a \<noteq> 0 \<longrightarrow> (\<exists>n. data m a = Some n \<and> key n = k)"
    using zdictlong_find_ok [OF assms] by blast
  show ?thesis
  proof (cases "f k")
    case None
    with a(1,2) assms(1) show ?thesis by (simp add: zdictlong_delete_def fun_upd_idem)
  next
    case (Some w)
    with a(2,3) obtain n where n: "data m a = Some n" "key n = k" by auto
    with assms(1) Some have w: "val n = w" by (auto simp: stores_def)
    obtain m1 where m1: "node_unlink m a = Some (m1, val n)"
        "zdictlong_map (m1\<lparr>len := len m1 - 1\<rparr>) (f(k := None))"
      using stores_unlink [OF assms(1) n(1)] n(2) by auto
    then have "zdictlong_delete e m k = Some (m1\<lparr>len := len m1 - 1\<rparr>)"
      using a(1,2) n(1) Some w
      by (auto simp: zdictlong_delete_def node_unlink_def drop_node_def split: bind_splits)
    with m1(2) Some show ?thesis by simp
  qed
qed

interpretation zdictlong: assoc_store zdictlong_map env_ok
  "\<lambda>e m k v. map_option fst (zdictlong_update e m k v)"
  "\<lambda>e m k. zdictlong_delete e m k"
  "\<lambda>e m k. map_option (\<lambda>(a, v). if a = 0 then None else Some v) (zdictlong_find e m k)"
  "id :: 64 word \<Rightarrow> 64 word"
proof
  fix m e k v and f :: "cstring \<rightharpoonup> 64 word"
  assume a: "zdictlong_map m f" "env_ok e m"
  show "\<exists>m'. map_option fst (zdictlong_update e m k v) = Some m' \<and> zdictlong_map m' (f(k \<mapsto> id v))"
    using zdictlong_update_ok [OF a, of k v] by auto
  show "\<exists>m'. zdictlong_delete e m k = Some m' \<and> zdictlong_map m' (f(k := None))"
    using zdictlong_delete_ok [OF a, of k] by auto
  show "map_option (\<lambda>(a, v). if a = 0 then None else Some v) (zdictlong_find e m k) = Some (f k)"
    using zdictlong_find_ok [OF a, of k] by (auto split: option.splits)
qed

subsection \<open>Emptying a container\<close>

lemma zmap_delete_node_unlink:
  "zmap_delete_node m n = map_option (\<lambda>(m', v). (m'\<lparr>len := len m' - 1\<rparr>, v)) (node_unlink m n)"
  unfolding zmap_delete_node_def node_unlink_def
  by (auto simp: map_option_bind drop_node_def intro!: bind_cong' split: option.splits)

lemma zmap_reset_ok: "cinv rank m ns \<Longrightarrow> \<exists>m'. zmap_reset m = Some m' \<and> cinv rank m' []"
proof (induction ns arbitrary: m)
  case Nil
  then have b: "cbase rank m []" by (simp add: cinv_base)
  from cbase_first [OF b] have "zrbtree_first (tree m) = Some 0" by (simp add: head_or_def)
  with Nil show ?case by (subst zmap_reset.simps) (simp add: zmap_first_def)
next
  case (Cons a ns)
  then have b: "cbase rank m (a # ns)" by (simp add: cinv_base)
  obtain m1 v where m1: "node_unlink m a = Some (m1, v)" "cbase rank m1 ns" "len m1 = len m"
    using node_unlink_ok [of rank m "[]" a ns] b by auto
  then have "cinv rank (m1\<lparr>len := len m1 - 1\<rparr>) ns"
    using Cons.prems by (simp add: cinv_base cbase_def)
  from Cons.IH [OF this] m1(1) cbase_first [OF b] cbase_nonzero [OF b, of a]
  show ?case by (subst zmap_reset.simps) (auto simp: zmap_first_def zmap_delete_node_unlink head_or_def)
qed

lemma zlongmap_delete_node_unlink:
  "zlongmap_delete_node m n = map_option (\<lambda>(m', v). (m'\<lparr>len := len m' - 1\<rparr>, v)) (node_unlink m n)"
  unfolding zlongmap_delete_node_def node_unlink_def
  by (auto simp: map_option_bind drop_node_def intro!: bind_cong' split: option.splits)

lemma zlongmap_reset_ok: "cinv rank m ns \<Longrightarrow> \<exists>m'. zlongmap_reset m = Some m' \<and> cinv rank m' []"
proof (induction ns arbitrary: m)
  case Nil
  then have b: "cbase rank m []" by (simp add: cinv_base)
  from cbase_first [OF b] have "zrbtree_first (tree m) = Some 0" by (simp add: head_or_def)
  with Nil show ?case by (subst zlongmap_reset.simps) (simp add: zlongmap_first_def)
next
  case (Cons a ns)
  then have b: "cbase rank m (a # ns)" by (simp add: cinv_base)
  obtain m1 v where m1: "node_unlink m a = Some (m1, v)" "cbase rank m1 ns" "len m1 = len m"
    using node_unlink_ok [of rank m "[]" a ns] b by auto
  then have "cinv rank (m1\<lparr>len := len m1 - 1\<rparr>) ns"
    using Cons.prems by (simp add: cinv_base cbase_def)
  from Cons.IH [OF this] m1(1) cbase_first [OF b] cbase_nonzero [OF b, of a]
  show ?case by (subst zlongmap_reset.simps) (auto simp: zlongmap_first_def zlongmap_delete_node_unlink head_or_def)
qed


end
