(* ===== verification/Dict.thy ===== *)
theory Dict
  imports Maps Buf
begin

text \<open>
  The container \<open>zdict\<close> of \<open>src/stdlib/dict.c\<close>: string keys and byte buffers as values. It has the
  scheme of theory \<open>Maps\<close>; the abstract value of an entry is the content of its buffer.
\<close>

type_synonym zdict = "(cstring, zbuf) cont"

definition zdict_zrbtree_cmp :: "(addr \<rightharpoonup> (cstring, zbuf) cnode) \<Rightarrow> addr \<Rightarrow> addr \<Rightarrow> int" where
  "zdict_zrbtree_cmp d n1 n2 = strcmp (key_at d n1) (key_at d n2)"

definition zdict_create :: "rbs \<Rightarrow> zdict" where
  "zdict_create t = \<lparr>tree = zrbtree_init t, data = Map.empty, len = 0\<rparr>"

text \<open>\<open>value\<close> is the memory the argument points to; a negative length means a C string.\<close>

definition zdict_update_string :: "zbuf env \<Rightarrow> zdict \<Rightarrow> cstring \<Rightarrow> bytes \<Rightarrow> int \<Rightarrow> (zdict \<times> addr) option" where
  "zdict_update_string e m k value value_len0 = do {
     let m1 = push_local e k m;
     (t1, rb_np) \<leftarrow> zrbtree_attach (zdict_zrbtree_cmp (data m1)) (tree m1) (mp_n e);
     let value_len = (if value_len0 < 0 then int (length (takeWhile (\<lambda>b. b \<noteq> 0) value)) else value_len0);
     (if rb_np \<noteq> mp_n e then do {
        n \<leftarrow> data m1 rb_np;
        Some (drop_node (mp_n e) (m1\<lparr>tree := t1,
          data := (data m1)(rb_np \<mapsto> n\<lparr>val := zbuf_memcpy (val n) value value_len\<rparr>)\<rparr>), rb_np) }
      else do {
        let m2 = alloc_node e \<lparr>key = k, val = zbuf_memcpy (zbuf_init value_len) value value_len\<rparr> (m1\<lparr>tree := t1\<rparr>);
        t2 \<leftarrow> zrbtree_replace_node (tree m2) (mp_n e) (mp_np e);
        Some (drop_node (mp_n e) (m2\<lparr>tree := t2, len := len m2 + 1\<rparr>), mp_np e) }) }"

definition zdict_update :: "zbuf env \<Rightarrow> zdict \<Rightarrow> cstring \<Rightarrow> zbuf \<Rightarrow> (zdict \<times> addr) option" where
  "zdict_update e m k value = do {
     let m1 = push_local e k m;
     (t1, rb_np) \<leftarrow> zrbtree_attach (zdict_zrbtree_cmp (data m1)) (tree m1) (mp_n e);
     (if rb_np \<noteq> mp_n e then do {
        n \<leftarrow> data m1 rb_np;
        Some (drop_node (mp_n e) (m1\<lparr>tree := t1,
          data := (data m1)(rb_np \<mapsto> n\<lparr>val := zbuf_memcpy (val n) (zbuf_bytes value) (int (zb_len value))\<rparr>)\<rparr>), rb_np) }
      else do {
        let m2 = alloc_node e \<lparr>key = k, val = zbuf_memcpy (zbuf_init (int (zb_len value)))
                   (zbuf_bytes value) (int (zb_len value))\<rparr> (m1\<lparr>tree := t1\<rparr>);
        t2 \<leftarrow> zrbtree_replace_node (tree m2) (mp_n e) (mp_np e);
        Some (drop_node (mp_n e) (m2\<lparr>tree := t2, len := len m2 + 1\<rparr>), mp_np e) }) }"

text \<open>The lookups return the node and the buffer \<open>*value\<close> points to (\<open>None\<close> for NULL).\<close>

definition zdict_value :: "zdict \<Rightarrow> addr \<Rightarrow> (addr \<times> zbuf option) option" where
  "zdict_value m rb_np = (if rb_np \<noteq> 0 then do { n \<leftarrow> data m rb_np; Some (rb_np, Some (val n)) } else Some (0, None))"

definition zdict_find :: "zbuf env \<Rightarrow> zdict \<Rightarrow> cstring \<Rightarrow> (addr \<times> zbuf option) option" where
  "zdict_find e m k = do {
     let m1 = push_local e k m;
     rb_np \<leftarrow> zrbtree_find (zdict_zrbtree_cmp (data m1)) (tree m1) (mp_n e);
     zdict_value m rb_np }"

definition zdict_find_near_prev :: "zbuf env \<Rightarrow> zdict \<Rightarrow> cstring \<Rightarrow> (addr \<times> zbuf option) option" where
  "zdict_find_near_prev e m k = do {
     let m1 = push_local e k m;
     rb_np \<leftarrow> zrbtree_near_prev (zdict_zrbtree_cmp (data m1)) (tree m1) (mp_n e);
     zdict_value m rb_np }"

definition zdict_find_near_next :: "zbuf env \<Rightarrow> zdict \<Rightarrow> cstring \<Rightarrow> (addr \<times> zbuf option) option" where
  "zdict_find_near_next e m k = do {
     let m1 = push_local e k m;
     rb_np \<leftarrow> zrbtree_near_next (zdict_zrbtree_cmp (data m1)) (tree m1) (mp_n e);
     zdict_value m rb_np }"

definition zdict_delete_node :: "zdict \<Rightarrow> addr \<Rightarrow> zdict option" where
  "zdict_delete_node m n = do {
     (t1, _) \<leftarrow> zrbtree_detach (tree m) n;
     nn \<leftarrow> data m n;
     Some (drop_node n (m\<lparr>tree := t1, len := len m - 1\<rparr>)) }"

definition zdict_delete :: "zbuf env \<Rightarrow> zdict \<Rightarrow> cstring \<Rightarrow> zdict option" where
  "zdict_delete e m k = do {
     (n, _) \<leftarrow> zdict_find e m k;
     (if n = 0 then Some m
      else do {
        (t1, _) \<leftarrow> zrbtree_detach (tree m) n;
        nn \<leftarrow> data m n;
        Some (drop_node n (m\<lparr>tree := t1, len := len m - 1\<rparr>)) }) }"

definition zdict_first :: "zdict \<Rightarrow> addr option" where
  "zdict_first m = zrbtree_first (tree m)"

definition zdict_last :: "zdict \<Rightarrow> addr option" where
  "zdict_last m = zrbtree_last (tree m)"

definition zdict_prev :: "zdict \<Rightarrow> addr \<Rightarrow> addr option" where
  "zdict_prev m node = zrbtree_prev (tree m) node"

definition zdict_next :: "zdict \<Rightarrow> addr \<Rightarrow> addr option" where
  "zdict_next m node = zrbtree_next (tree m) node"

text \<open>\<open>zdict_free\<close> up to the release of the dictionary itself, and \<open>zdict_reset\<close>.\<close>

definition zdict_free :: "zdict \<Rightarrow> zdict option" where
  "zdict_free m = free_loop m"

definition zdict_reset :: "zdict \<Rightarrow> zdict option" where
  "zdict_reset m = do { m1 \<leftarrow> free_loop m; Some (m1\<lparr>len := 0\<rparr>) }"

text \<open>The typed getters, with NULL for a missing dictionary or default.\<close>

definition zdict_get_str :: "zbuf env \<Rightarrow> zdict option \<Rightarrow> cstring \<Rightarrow> cstring option \<Rightarrow> cstring option option" where
  "zdict_get_str e dict name def =
     (case dict of None \<Rightarrow> Some def
      | Some m \<Rightarrow> do {
          (_, str_val) \<leftarrow> zdict_find e m name;
          (case str_val of None \<Rightarrow> Some def | Some bf \<Rightarrow> Some (Some (cs (zbuf_bytes bf)))) })"

definition zdict_get_bool :: "zbuf env \<Rightarrow> zdict option \<Rightarrow> cstring \<Rightarrow> int \<Rightarrow> int option" where
  "zdict_get_bool e dict name def = do {
     str_val \<leftarrow> zdict_get_str e dict name None;
     (case str_val of
        Some s \<Rightarrow> if str_bytes s \<noteq> [] then Some (zstr_to_bool s def) else Some def
      | None \<Rightarrow> Some def) }"

section \<open>Correctness\<close>

definition value_ok :: "zbuf \<Rightarrow> bool" where
  "value_ok b \<longleftrightarrow> zbuf_ok b \<and> zbuf_cap b = None"

abbreviation zdict_map :: "zdict \<Rightarrow> (cstring \<rightharpoonup> bytes) \<Rightarrow> bool" where
  "zdict_map m f \<equiv> stores id value_ok zbuf_bytes m f"

lemma zdict_cmp: "zdict_zrbtree_cmp d = node_cmp strcmp d"
  by (intro ext) (simp add: zdict_zrbtree_cmp_def node_cmp_def)

lemma zdict_update_string_node:
  fixes src :: bytes and vl :: int
  defines "n \<equiv> if vl < 0 then int (length (takeWhile (\<lambda>b. b \<noteq> 0) src)) else vl"
  shows "zdict_update_string e m k src vl = map_option (\<lambda>(m', a, old). (m', a))
    (node_update strcmp e m k (\<lambda>b. zbuf_memcpy b src n) (zbuf_memcpy (zbuf_init n) src n))"
  unfolding zdict_update_string_def node_update_def zdict_cmp Let_def n_def
  by (auto simp: map_option_bind intro!: bind_cong' split: option.splits)

lemma zdict_update_node:
  "zdict_update e m k b = map_option (\<lambda>(m', a, old). (m', a))
    (node_update strcmp e m k (\<lambda>v. zbuf_memcpy v (zbuf_bytes b) (int (zb_len b)))
      (zbuf_memcpy (zbuf_init (int (zb_len b))) (zbuf_bytes b) (int (zb_len b))))"
  unfolding zdict_update_def node_update_def zdict_cmp Let_def
  by (auto simp: map_option_bind intro!: bind_cong' split: option.splits)

lemma value_ok_memcpy:
  "value_ok b \<Longrightarrow> value_ok (zbuf_memcpy b src n) \<and> zbuf_bytes (zbuf_memcpy b src n) = take (nat n) src"
  using zbuf_memcpy_writes [of b src n] by (auto simp: value_ok_def writes_def)

lemma value_ok_init: "value_ok (zbuf_init n)"
  by (simp add: value_ok_def zbuf_ok_init)

lemma zdict_update_string_ok:
  assumes "zdict_map m f" "env_ok e m"
  shows "\<exists>m' a. zdict_update_string e m k src n = Some (m', a) \<and> zdict_map m' (f(k \<mapsto> src_bytes src n))"
proof -
  have t: "take (length (takeWhile (\<lambda>b. b \<noteq> 0) src)) src = takeWhile (\<lambda>b. b \<noteq> 0) src"
    by (metis append_eq_conv_conj takeWhile_dropWhile_id)
  let ?n = "if n < 0 then int (length (takeWhile (\<lambda>b. b \<noteq> 0) src)) else n"
  have n: "take (nat ?n) src = src_bytes src n" by (simp add: src_bytes_def t)
  from stores_update [OF assms id_ranks, of "zbuf_memcpy (zbuf_init ?n) src ?n" "src_bytes src n"
      "\<lambda>b. zbuf_memcpy b src ?n" k] value_ok_memcpy [OF value_ok_init, of ?n src ?n] value_ok_memcpy
  show ?thesis by (auto simp: zdict_update_string_node n)
qed

lemma zdict_update_ok:
  assumes "zdict_map m f" "env_ok e m" "zbuf_ok b"
  shows "\<exists>m' a. zdict_update e m k b = Some (m', a) \<and> zdict_map m' (f(k \<mapsto> zbuf_bytes b))"
proof -
  have n: "take (nat (int (zb_len b))) (zbuf_bytes b) = zbuf_bytes b"
    using assms(3) by simp
  from stores_update [OF assms(1,2) id_ranks, of "zbuf_memcpy (zbuf_init (int (zb_len b))) (zbuf_bytes b) (int (zb_len b))"
      "zbuf_bytes b" "\<lambda>v. zbuf_memcpy v (zbuf_bytes b) (int (zb_len b))" k]
    value_ok_memcpy [OF value_ok_init, of "int (zb_len b)" "zbuf_bytes b" "int (zb_len b)"]
    value_ok_memcpy [of _ "zbuf_bytes b" "int (zb_len b)"]
  show ?thesis unfolding n by (auto simp: zdict_update_node)
qed

lemma zdict_find_ok:
  assumes "zdict_map m f" "env_ok e m"
  shows "\<exists>a v. zdict_find e m k = Some (a, v) \<and> map_option zbuf_bytes v = f k
    \<and> (a = 0 \<longleftrightarrow> f k = None) \<and> (a \<noteq> 0 \<longrightarrow> (\<exists>n. data m a = Some n \<and> key n = k))"
proof -
  have "zdict_find e m k = Option.bind (node_find strcmp e m k) (zdict_value m)"
    by (simp add: zdict_find_def node_find_def zdict_cmp Let_def)
  with stores_find [OF assms id_ranks, of k] show ?thesis
    by (auto simp: zdict_value_def split: option.splits)
qed

lemma zdict_delete_ok:
  assumes "zdict_map m f" "env_ok e m"
  shows "\<exists>m'. zdict_delete e m k = Some m' \<and> zdict_map m' (f(k := None))"
proof -
  obtain a v where a: "zdict_find e m k = Some (a, v)" "a = 0 \<longleftrightarrow> f k = None"
      "a \<noteq> 0 \<longrightarrow> (\<exists>n. data m a = Some n \<and> key n = k)"
    using zdict_find_ok [OF assms] by blast
  show ?thesis
  proof (cases "f k")
    case None
    with a(1,2) assms(1) show ?thesis by (simp add: zdict_delete_def fun_upd_idem)
  next
    case (Some w)
    with a(2,3) obtain n where n: "data m a = Some n" "key n = k" by auto
    obtain m1 where m1: "node_unlink m a = Some (m1, val n)"
        "zdict_map (m1\<lparr>len := len m1 - 1\<rparr>) (f(k := None))"
      using stores_unlink [OF assms(1) n(1)] n(2) by auto
    then have "zdict_delete e m k = Some (m1\<lparr>len := len m1 - 1\<rparr>)"
      using a(1,2) n(1) Some
      by (auto simp: zdict_delete_def node_unlink_def drop_node_def split: bind_splits)
    with m1(2) show ?thesis by simp
  qed
qed

interpretation zdict: assoc_store zdict_map env_ok
  "\<lambda>e m k (value, n). map_option fst (zdict_update_string e m k value n)"
  zdict_delete
  "\<lambda>e m k. map_option (\<lambda>(a, v). map_option zbuf_bytes v) (zdict_find e m k)"
  "\<lambda>(value, n). src_bytes value n"
proof
  fix m e k and f :: "cstring \<rightharpoonup> bytes" and v :: "bytes \<times> int"
  assume a: "zdict_map m f" "env_ok e m"
  show "\<exists>m'. (case v of (value, n) \<Rightarrow> map_option fst (zdict_update_string e m k value n)) = Some m'
      \<and> zdict_map m' (f(k \<mapsto> case v of (value, n) \<Rightarrow> src_bytes value n))"
    using zdict_update_string_ok [OF a, of k "fst v" "snd v"] by (cases v) auto
  show "\<exists>m'. zdict_delete e m k = Some m' \<and> zdict_map m' (f(k := None))"
    by (rule zdict_delete_ok [OF a])
  show "map_option (\<lambda>(a, v). map_option zbuf_bytes v) (zdict_find e m k) = Some (f k)"
    using zdict_find_ok [OF a, of k] by auto
qed

lemma zdict_create_ok: "zdict_map (zdict_create t) Map.empty"
  by (rule stores_empty) (auto simp: zdict_create_def cbase_def rbt_init)

lemma zdict_reset_ok:
  assumes "zdict_map m f"
  shows "\<exists>m'. zdict_reset m = Some m' \<and> zdict_map m' Map.empty"
proof -
  from assms obtain ns where "cbase id m ns" by (auto simp: stores_def cinv_base)
  from free_loop_ok [OF this] obtain m1 where m1: "free_loop m = Some m1" "cbase id m1 []" by blast
  then have "cbase id (m1\<lparr>len := 0\<rparr>) []" by (simp add: cbase_def)
  with m1(1) stores_empty [of id "m1\<lparr>len := 0\<rparr>"] show ?thesis by (auto simp: zdict_reset_def)
qed

lemma zdict_get_str_ok:
  assumes "zdict_map m f" "env_ok e m"
  shows "zdict_get_str e (Some m) k d = Some (case f k of None \<Rightarrow> d | Some w \<Rightarrow> Some (cs w))"
  using zdict_find_ok [OF assms, of k]
  by (auto simp: zdict_get_str_def split: option.splits)

end
