(* ===== verification/MapProps.thy ===== *)
theory MapProps
  imports Dict
begin

text \<open>
  The properties of the four containers on the red-black tree, on the finite map a container
  stores. \<open>env_ok e m\<close> says that the stack frame and \<open>zmalloc\<close> provide aligned cells outside of
  the container.
\<close>

section \<open>A concrete environment\<close>

definition ex_env :: "'v \<Rightarrow> 'v env" where
  "ex_env x = \<lparr>mp_n = 64, mp_np = 128, junk = \<lparr>parent_color = 3, right = 5, left = 9\<rparr>, junkv = x\<rparr>"

definition ex_rbs :: rbs where
  "ex_rbs = \<lparr>root = 77, heap = Map.empty\<rparr>"

lemma ex_env_ok: "data m = Map.empty \<Longrightarrow> env_ok (ex_env x) m"
  by (simp add: env_ok_def ex_env_def aligned_def)

lemma create_ok: "zmap_map (zmap_create t) Map.empty" "zlongmap_map (zlongmap_create t) Map.empty"
  "zdictlong_map (zdictlong_create t) Map.empty"
  by (rule stores_empty, simp_all add: zmap_create_def zlongmap_create_def zdictlong_create_def
      cbase_def rbt_init)+

lemma create_env:
  "env_ok (ex_env x) (zmap_create t)" "env_ok (ex_env x) (zlongmap_create t)"
  "env_ok (ex_env x) (zdictlong_create t)" "env_ok (ex_env y) (zdict_create t)"
  by (rule ex_env_ok, simp add: zmap_create_def zlongmap_create_def zdictlong_create_def zdict_create_def)+

lemma zmap_all:
  assumes "zmap_map m f" "env_ok e m"
  shows "(\<exists>m' a. zmap_update e m k v = Some (m', a, case f k of None \<Rightarrow> 0 | Some w \<Rightarrow> w) \<and> zmap_map m' (f(k \<mapsto> v)))
    \<and> (\<exists>a. zmap_find e m k = Some (a, case f k of None \<Rightarrow> 0 | Some w \<Rightarrow> w) \<and> (a = 0 \<longleftrightarrow> f k = None))
    \<and> (\<exists>m'. zmap_delete e m k = Some (m', f k \<noteq> None, f k) \<and> zmap_map m' (f(k := None)))"
  using zmap_update_ok [OF assms] zmap_find_ok [OF assms] zmap_delete_ok [OF assms] by blast

lemma zlongmap_all:
  assumes "zlongmap_map m f" "env_ok e m"
  shows "(\<exists>m' a. zlongmap_update e m k v = Some (m', a, case f k of None \<Rightarrow> 0 | Some w \<Rightarrow> w) \<and> zlongmap_map m' (f(k \<mapsto> v)))
    \<and> (\<exists>a. zlongmap_find e m k = Some (a, case f k of None \<Rightarrow> 0 | Some w \<Rightarrow> w) \<and> (a = 0 \<longleftrightarrow> f k = None))
    \<and> (\<exists>m'. zlongmap_delete e m k = Some (m', f k \<noteq> None, f k) \<and> zlongmap_map m' (f(k := None)))"
  using zlongmap_update_ok [OF assms] zlongmap_find_ok [OF assms] zlongmap_delete_ok [OF assms] by blast

lemma zdictlong_all:
  assumes "zdictlong_map m f" "env_ok e m"
  shows "(\<exists>m' a. zdictlong_update e m k v = Some (m', a) \<and> zdictlong_map m' (f(k \<mapsto> v)))
    \<and> (\<exists>a. zdictlong_find e m k = Some (a, case f k of None \<Rightarrow> 0 | Some w \<Rightarrow> w) \<and> (a = 0 \<longleftrightarrow> f k = None))
    \<and> (\<exists>m'. zdictlong_delete e m k = Some m' \<and> zdictlong_map m' (f(k := None)))"
  using zdictlong_update_ok [OF assms] zdictlong_find_ok [OF assms] zdictlong_delete_ok [OF assms] by blast

section \<open>Properties\<close>

text \<open>C27: \<open>zmap\<close>, \<open>zlongmap\<close> (whose keys are compared as signed 64-bit integers) and \<open>zdictlong\<close>: an update
  maps the key to the value, keeps every other entry and, for the first two, reports the previous value; a
  lookup returns the stored value or NULL; a removal takes out exactly that key and, for the first two, says
  whether it was there. Each operation returns, and keeps the tree ordered and balanced and the counter
  exact.\<close>

theorem maps_contract:
  assumes "zmap_map m f" "env_ok e m" "zlongmap_map lm lf" "env_ok e lm" "zdictlong_map dm df" "env_ok e dm"
  shows "(\<exists>m' a. zmap_update e m k v = Some (m', a, case f k of None \<Rightarrow> 0 | Some w \<Rightarrow> w) \<and> zmap_map m' (f(k \<mapsto> v)))
    \<and> (\<exists>a. zmap_find e m k = Some (a, case f k of None \<Rightarrow> 0 | Some w \<Rightarrow> w) \<and> (a = 0 \<longleftrightarrow> f k = None))
    \<and> (\<exists>m'. zmap_delete e m k = Some (m', f k \<noteq> None, f k) \<and> zmap_map m' (f(k := None)))
    \<and> (\<exists>m' a. zlongmap_update e lm l v = Some (m', a, case lf l of None \<Rightarrow> 0 | Some w \<Rightarrow> w) \<and> zlongmap_map m' (lf(l \<mapsto> v)))
    \<and> (\<exists>a. zlongmap_find e lm l = Some (a, case lf l of None \<Rightarrow> 0 | Some w \<Rightarrow> w) \<and> (a = 0 \<longleftrightarrow> lf l = None))
    \<and> (\<exists>m'. zlongmap_delete e lm l = Some (m', lf l \<noteq> None, lf l) \<and> zlongmap_map m' (lf(l := None)))
    \<and> (\<exists>m' a. zdictlong_update e dm k v = Some (m', a) \<and> zdictlong_map m' (df(k \<mapsto> v)))
    \<and> (\<exists>a. zdictlong_find e dm k = Some (a, case df k of None \<Rightarrow> 0 | Some w \<Rightarrow> w) \<and> (a = 0 \<longleftrightarrow> df k = None))
    \<and> (\<exists>m'. zdictlong_delete e dm k = Some m' \<and> zdictlong_map m' (df(k := None)))"
  using zmap_all [OF assms(1,2), of k v] zlongmap_all [OF assms(3,4), of l v] zdictlong_all [OF assms(5,6), of k v]
  by (simp only: conj_assoc simp_thms)

theorem maps_contract_witness:
  "(\<exists>m' a. zmap_update (ex_env 0) (zmap_create ex_rbs) (cs [97]) 5 = Some (m', a, 0) \<and> zmap_map m' [cs [97] \<mapsto> 5])
   \<and> (\<exists>m'. zlongmap_delete (ex_env 0) (zlongmap_create ex_rbs) 3 = Some (m', False, None) \<and> zlongmap_map m' Map.empty)"
  using maps_contract [OF create_ok(1) [of ex_rbs] create_env(1) [of 0 ex_rbs] create_ok(2) [of ex_rbs] create_env(2) [of 0 ex_rbs]
      create_ok(3) [of ex_rbs] create_env(3) [of 0 ex_rbs], of "cs [97]" 5 3] by (simp add: fun_upd_idem)

text \<open>C6: \<open>zdict\<close>: updates store a copy of the given bytes (up to the NUL when the length is
  negative), lookups see the stored bytes, removals take out exactly that key, and the counter is
  the number of keys.\<close>

theorem zdict_contract:
  assumes "zdict_map m f" "env_ok e m"
  shows "(\<exists>m' a. zdict_update_string e m k src n = Some (m', a) \<and> zdict_map m' (f(k \<mapsto> src_bytes src n)))
    \<and> (zbuf_ok b \<longrightarrow> (\<exists>m' a. zdict_update e m k b = Some (m', a) \<and> zdict_map m' (f(k \<mapsto> zbuf_bytes b))))
    \<and> (\<exists>a v. zdict_find e m k = Some (a, v) \<and> map_option zbuf_bytes v = f k \<and> (a = 0 \<longleftrightarrow> f k = None))
    \<and> (\<exists>m'. zdict_delete e m k = Some m' \<and> zdict_map m' (f(k := None)))
    \<and> len m = of_nat (card (dom f))"
  using zdict_update_string_ok [OF assms] zdict_update_ok [OF assms] zdict_find_ok [OF assms]
    zdict_delete_ok [OF assms] stores_len [OF assms(1)] by blast

theorem zdict_contract_witness:
  "\<exists>m' a. zdict_update_string (ex_env (zbuf_init 1)) (zdict_create ex_rbs) (cs [97]) [1, 2, 0, 3] (- 1)
      = Some (m', a) \<and> zdict_map m' [cs [97] \<mapsto> [1, 2]]"
  using zdict_contract [OF zdict_create_ok [of ex_rbs] create_env(4) [of "zbuf_init 1" ex_rbs], of "cs [97]" "[1, 2, 0, 3]" "- 1"]
  by (simp add: src_bytes_def)

text \<open>After any sequence of updates from an empty \<open>zdict\<close> every key has the bytes of its last
  update.\<close>

theorem zdict_updates:
  assumes "puts env_ok (\<lambda>e m k (src, n). map_option fst (zdict_update_string e m k src n)) (zdict_create t) us = Some m"
  shows "zdict_map m (map_of (rev (map (\<lambda>(e, k, v). (k, src_bytes (fst v) (snd v))) us)))"
  using zdict.puts_ok [OF zdict_create_ok assms] by (simp add: case_prod_beta)

text \<open>\<open>zdict_reset\<close> returns and leaves an empty dictionary; \<open>zmap_reset\<close> and \<open>zlongmap_reset\<close>
  remove every node and bring the counter to 0.\<close>

theorem containers_reset:
  assumes "zdict_map d f" "cinv rank m ns" "cinv rank' lm ns'"
  shows "(\<exists>d'. zdict_reset d = Some d' \<and> zdict_map d' Map.empty)
    \<and> (\<exists>m'. zmap_reset m = Some m' \<and> cinv rank m' [])
    \<and> (\<exists>lm'. zlongmap_reset lm = Some lm' \<and> cinv rank' lm' [])"
  using zdict_reset_ok [OF assms(1)] zmap_reset_ok [OF assms(2)] zlongmap_reset_ok [OF assms(3)] by blast

end
