(* ===== verification/Vector.thy ===== *)
theory Vector
  imports Prelude
begin

text \<open>
  The pointer vector of \<open>src/stdlib/vector.c\<close>: an allocation of \<open>size + 1\<close> cells, an offset of the
  first element in it and a NULL cell behind the last one. Every access of the code is an access
  to the list \<open>mem\<close> of cells (\<open>None\<close> is an uninitialised cell); the invariant keeps all of them in
  range. The locale \<open>deque\<close> is the contract of a double-ended queue, shared with \<open>zlist\<close>.
\<close>

section \<open>The contract of a double-ended queue\<close>

locale deque =
  fixes abstracts :: "'s \<Rightarrow> 'a list \<Rightarrow> bool"
    and ok :: "'e \<Rightarrow> 's \<Rightarrow> bool"
    and push :: "'e \<Rightarrow> 's \<Rightarrow> 'a \<Rightarrow> 's option"
    and unshift :: "'e \<Rightarrow> 's \<Rightarrow> 'a \<Rightarrow> 's option"
    and pop :: "'s \<Rightarrow> ('s \<times> 'a option) option"
    and shift :: "'s \<Rightarrow> ('s \<times> 'a option) option"
  assumes push_ok: "abstracts s xs \<Longrightarrow> ok e s \<Longrightarrow> \<exists>s'. push e s x = Some s' \<and> abstracts s' (xs @ [x])"
    and unshift_ok: "abstracts s xs \<Longrightarrow> ok e s \<Longrightarrow> \<exists>s'. unshift e s x = Some s' \<and> abstracts s' (x # xs)"
    and pop_ok: "abstracts s xs \<Longrightarrow>
      \<exists>s'. pop s = Some (s', if xs = [] then None else Some (last xs)) \<and> abstracts s' (butlast xs)"
    and shift_ok: "abstracts s xs \<Longrightarrow>
      \<exists>s'. shift s = Some (s', if xs = [] then None else Some (hd xs)) \<and> abstracts s' (tl xs)"
begin

lemma pop_push:
  assumes "abstracts s xs" "ok e s" "push e s x = Some s1"
  shows "\<exists>s2. pop s1 = Some (s2, Some x) \<and> abstracts s2 xs"
  using push_ok [OF assms(1,2), of x] pop_ok [of s1 "xs @ [x]"] assms(3) by auto

lemma shift_unshift:
  assumes "abstracts s xs" "ok e s" "unshift e s x = Some s1"
  shows "\<exists>s2. shift s1 = Some (s2, Some x) \<and> abstracts s2 xs"
  using unshift_ok [OF assms(1,2), of x] shift_ok [of s1 "x # xs"] assms(3) by auto

lemma shift_push:
  assumes "abstracts s xs" "ok e s" "push e s x = Some s1" "xs \<noteq> []"
  shows "\<exists>s2. shift s1 = Some (s2, Some (hd xs)) \<and> abstracts s2 (tl xs @ [x])"
  using push_ok [OF assms(1,2), of x] shift_ok [of s1 "xs @ [x]"] assms(3,4) by auto

end

section \<open>State\<close>

type_synonym ptr = "64 word"

record zvector =
  mem :: "ptr option list"
  vlen :: nat
  vsize :: nat
  offset :: nat

text \<open>\<open>v->data[i]\<close> as a location, and a store to it.\<close>

definition vset :: "zvector \<Rightarrow> nat \<Rightarrow> ptr \<Rightarrow> zvector" where
  "vset v i x = v\<lparr>mem := (mem v)[offset v + i := Some x]\<rparr>"

definition vget :: "zvector \<Rightarrow> nat \<Rightarrow> ptr" where
  "vget v i = the (mem v ! (offset v + i))"

text \<open>The element-wise copy loops: upwards (\<open>for (i=0;i<n;i++)\<close>) and downwards
  (\<open>for (i=n-1;i>-1;i--)\<close>).\<close>

fun copy_up :: "'a list \<Rightarrow> nat \<Rightarrow> nat \<Rightarrow> nat \<Rightarrow> nat \<Rightarrow> 'a list" where
  "copy_up m dst src i 0 = m"
| "copy_up m dst src i (Suc n) = copy_up (m[dst + i := m ! (src + i)]) dst src (Suc i) n"

fun copy_down :: "'a list \<Rightarrow> nat \<Rightarrow> nat \<Rightarrow> nat \<Rightarrow> 'a list" where
  "copy_down m dst src 0 = m"
| "copy_down m dst src (Suc i) = copy_down (m[dst + i := m ! (src + i)]) dst src i"

section \<open>Operations\<close>

definition vec_left :: "zvector \<Rightarrow> int" where
  "vec_left v = (int (vsize v) - int (offset v)) - int (vlen v)"

definition zvector_init :: "int \<Rightarrow> zvector" where
  "zvector_init size0 =
     (let size1 = (if size0 < 0 then 13 else if size0 = 0 then 1 else nat size0)
      in \<lparr>mem = (replicate (size1 + 1) None)[0 := Some 0], vlen = 0, vsize = size1, offset = 0\<rparr>)"

definition zvector_push :: "zvector \<Rightarrow> ptr \<Rightarrow> zvector" where
  "zvector_push v0 x =
     (let v = (if vec_left v0 < 1
               then v0\<lparr>mem := take (vsize v0 * 2 + 1) (mem v0) @ replicate (vsize v0 * 2 + 1 - length (mem v0)) None,
                       vsize := vsize v0 * 2\<rparr>
               else v0);
          v1 = (vset v (vlen v) x)\<lparr>vlen := vlen v + 1\<rparr>
      in vset v1 (vlen v1) 0)"

definition zvector_unshift :: "zvector \<Rightarrow> ptr \<Rightarrow> zvector" where
  "zvector_unshift v x =
     (let v1 =
        (if offset v = 0
         then if vec_left v > 100
           then vset (v\<lparr>mem := copy_down (mem v) 100 0 (vlen v), offset := 99\<rparr>) 0 x
           else (let nsize = vsize v * 2 + 100
                 in vset (v\<lparr>mem := replicate 100 None @ take (vlen v) (mem v)
                                  @ replicate (nsize + 1 - 100 - vlen v) None,
                          offset := 99, vsize := nsize\<rparr>) 0 x)
         else vset (v\<lparr>offset := offset v - 1\<rparr>) 0 x);
        v2 = v1\<lparr>vlen := vlen v1 + 1\<rparr>
      in vset v2 (vlen v2) 0)"

text \<open>The removals return what they store through \<open>val\<close> and the return code.\<close>

definition zvector_pop :: "zvector \<Rightarrow> zvector \<times> ptr \<times> bool" where
  "zvector_pop v =
     (if vlen v < 1 then (v, 0, False)
      else let x = vget v (vlen v - 1); v1 = v\<lparr>vlen := vlen v - 1\<rparr>
        in (vset v1 (vlen v1) 0, x, True))"

definition zvector_shift :: "zvector \<Rightarrow> zvector \<times> ptr \<times> bool" where
  "zvector_shift v =
     (if vlen v < 1 then (v, 0, False)
      else let x = vget v 0; v1 = v\<lparr>offset := offset v + 1, vlen := vlen v - 1\<rparr>;
          v2 = (if offset v1 > 200
                then vset (v1\<lparr>mem := copy_up (mem v1) 100 (offset v1) 0 (vlen v1), offset := 100\<rparr>) (vlen v1) 0
                else v1)
        in (v2, x, True))"

definition zvector_insert :: "zvector \<Rightarrow> int \<Rightarrow> ptr \<Rightarrow> zvector" where
  "zvector_insert v idx0 x =
     (let n = vlen v; idx = (if idx0 < 0 then n else nat idx0)
      in if idx = 0 then zvector_unshift v x
         else if idx = n then zvector_push v x
         else if idx < n then
           (let v1 = zvector_push v 0;
                v2 = v1\<lparr>mem := copy_down (mem v1) (offset v1 + idx + 1) (offset v1 + idx) (n - idx)\<rparr>;
                v3 = vset v2 idx x
            in vset v3 (vlen v3) 0)
         else zvector_push (((\<lambda>w. zvector_push w 0) ^^ (idx - n)) v) x)"

definition zvector_delete :: "zvector \<Rightarrow> int \<Rightarrow> zvector \<times> ptr \<times> bool" where
  "zvector_delete v idx =
     (if idx < 0 \<or> idx \<ge> int (vlen v) then (v, 0, False)
      else if idx = 0 then zvector_shift v
      else let i = nat idx; x = vget v i;
          v1 = v\<lparr>mem := copy_up (mem v) (offset v) (offset v + 1) i (vlen v - i), vlen := vlen v - 1\<rparr>
        in (vset v1 (vlen v1) 0, x, True))"

definition zvector_reset :: "zvector \<Rightarrow> zvector" where
  "zvector_reset v = vset (v\<lparr>vlen := 0\<rparr>) 0 0"

text \<open>A negative length becomes the length of the vector, and NULL is written in front of the elements:
  \<open>None\<close>.\<close>

definition zvector_truncate :: "zvector \<Rightarrow> int \<Rightarrow> zvector option" where
  "zvector_truncate v new_len =
     (if new_len < int (vlen v)
      then if new_len < 0 then None else Some (vset (v\<lparr>vlen := nat new_len\<rparr>) (nat new_len) 0)
      else Some (vset v (vlen v) 0))"

section \<open>Invariant\<close>

definition elems :: "zvector \<Rightarrow> ptr list" where
  "elems v = map the (take (vlen v) (drop (offset v) (mem v)))"

text \<open>All cells of the elements are in the allocation and hold a value, and NULL follows them.\<close>

definition vec :: "zvector \<Rightarrow> ptr list \<Rightarrow> bool" where
  "vec v xs \<longleftrightarrow> length (mem v) = vsize v + 1 \<and> 1 \<le> vsize v \<and> offset v + vlen v \<le> vsize v
     \<and> vlen v = length xs \<and> (\<forall>i < length xs. mem v ! (offset v + i) = Some (xs ! i))
     \<and> mem v ! (offset v + vlen v) = Some 0"

lemma vec_elems: "vec v xs \<Longrightarrow> elems v = xs"
  by (auto simp: vec_def elems_def intro!: nth_equalityI)

lemma vec_unique: "vec v xs \<Longrightarrow> vec v ys \<Longrightarrow> xs = ys"
  using vec_elems by metis

subsection \<open>The copy loops are moves\<close>

lemma length_copy_up [simp]: "length (copy_up m dst src i n) = length m"
  by (induction m dst src i n rule: copy_up.induct) auto

lemma length_copy_down [simp]: "length (copy_down m dst src n) = length m"
  by (induction m dst src n rule: copy_down.induct) auto

lemma nth_copy_up:
  assumes "dst \<le> src" "dst + i + n \<le> length m"
  shows "copy_up m dst src i n ! j =
    (if dst + i \<le> j \<and> j < dst + i + n then m ! (src + (j - dst)) else m ! j)"
  using assms
proof (induction m dst src i n rule: copy_up.induct)
  case (2 m dst src i n)
  then show ?case by (auto simp: nth_list_update)
qed auto

lemma nth_copy_down:
  assumes "src \<le> dst" "dst + n \<le> length m"
  shows "copy_down m dst src n ! j =
    (if dst \<le> j \<and> j < dst + n then m ! (src + (j - dst)) else m ! j)"
  using assms
proof (induction m dst src n rule: copy_down.induct)
  case (2 m dst src i)
  then show ?case by (auto simp: nth_list_update)
qed auto

section \<open>Functional behaviour\<close>

lemma vec_init: "vec (zvector_init n) []"
  by (auto simp: vec_def zvector_init_def Let_def)

lemma vec_grow:
  assumes "vec v xs" "vsize v \<le> n"
  shows "vec (v\<lparr>mem := take (n + 1) (mem v) @ replicate (n + 1 - length (mem v)) None, vsize := n\<rparr>) xs"
  using assms by (auto simp: vec_def nth_append)

text \<open>Writing an element and the NULL behind it, when there is room.\<close>

lemma vec_snoc:
  assumes "vec v xs" "offset v + vlen v < vsize v"
  shows "vec (vset (vset v (vlen v) x\<lparr>vlen := vlen v + 1\<rparr>) (vlen v + 1) 0) (xs @ [x])"
  using assms by (auto simp: vec_def vset_def nth_list_update nth_append)

lemma vec_push:
  assumes "vec v xs"
  shows "vec (zvector_push v x) (xs @ [x])"
proof (cases "vec_left v < 1")
  case True
  let ?v = "v\<lparr>mem := take (vsize v * 2 + 1) (mem v) @ replicate (vsize v * 2 + 1 - length (mem v)) None,
    vsize := vsize v * 2\<rparr>"
  have "vec ?v xs" using vec_grow [OF assms, of "vsize v * 2"] by simp
  moreover have "offset ?v + vlen ?v < vsize ?v" using assms by (auto simp: vec_def)
  ultimately show ?thesis using vec_snoc [of ?v xs x] True
    by (simp add: zvector_push_def Let_def vset_def)
next
  case False
  then have "offset v + vlen v < vsize v" by (simp add: vec_left_def)
  from vec_snoc [OF assms this, of x] False show ?thesis
    by (simp add: zvector_push_def Let_def vset_def)
qed

lemma vec_pushes: "vec v xs \<Longrightarrow> vec (((\<lambda>w. zvector_push w x) ^^ n) v) (xs @ replicate n x)"
  by (induction n) (auto dest: vec_push simp: replicate_append_same [symmetric] simp flip: append_assoc)

text \<open>Writing an element in front, when the cell before the first element is free.\<close>

lemma vec_nth_pred:
  "vec w xs \<Longrightarrow> 0 < i \<Longrightarrow> i \<le> length xs \<Longrightarrow> mem w ! (offset w + i - Suc 0) = Some (xs ! (i - Suc 0))"
  by (cases i) (auto simp: vec_def)

lemma vec_nth_Suc:
  "vec w xs \<Longrightarrow> Suc i < length xs \<Longrightarrow> mem w ! Suc (offset w + i) = Some (xs ! Suc i)"
  by (auto simp: vec_def dest!: spec [of _ "Suc i"])

lemma vec_cons:
  assumes "vec w xs" "0 < offset w"
  shows "vec (vset (vset (w\<lparr>offset := offset w - 1\<rparr>) 0 x\<lparr>vlen := vlen w + 1\<rparr>) (vlen w + 1) 0) (x # xs)"
  using assms vec_nth_pred [OF assms(1)] by (auto simp: vec_def vset_def nth_list_update nth_Cons' nth_append)

lemma vec_unshift:
  assumes "vec v xs"
  shows "vec (zvector_unshift v x) (x # xs)"
proof -
  let ?n = "vsize v * 2 + 100"
  define w where "w =
    (if offset v \<noteq> 0 then v
     else if vec_left v > 100 then v\<lparr>mem := (copy_down (mem v) 100 0 (vlen v))[100 + vlen v := Some 0], offset := 100\<rparr>
     else v\<lparr>mem := (replicate 100 None @ take (vlen v) (mem v) @ replicate (?n + 1 - 100 - vlen v) None)
              [100 + vlen v := Some 0], offset := 100, vsize := ?n\<rparr>)"
  have "vec w xs \<and> 0 < offset w"
    using assms by (auto simp: w_def vec_def vec_left_def nth_copy_down nth_list_update nth_append)
  moreover have "zvector_unshift v x =
      vset (vset (w\<lparr>offset := offset w - 1\<rparr>) 0 x\<lparr>vlen := vlen w + 1\<rparr>) (vlen w + 1) 0"
    using assms by (auto simp: zvector_unshift_def w_def vset_def Let_def list_update_swap)
  ultimately show ?thesis using vec_cons by simp
qed

lemma vec_pop:
  assumes "vec v xs"
  shows "vec (fst (zvector_pop v)) (butlast xs)
    \<and> snd (zvector_pop v) = (if xs = [] then (0, False) else (last xs, True))"
  using assms
  by (auto simp: zvector_pop_def vec_def vset_def vget_def Let_def nth_list_update nth_butlast last_conv_nth)

lemma vec_tl: "vec v xs \<Longrightarrow> xs \<noteq> [] \<Longrightarrow> vec (v\<lparr>offset := offset v + 1, vlen := vlen v - 1\<rparr>) (tl xs)"
  by (cases xs) (auto simp: vec_def)

lemma vec_slide:
  assumes "vec v xs" "offset v > 200"
  shows "vec (vset (v\<lparr>mem := copy_up (mem v) 100 (offset v) 0 (vlen v), offset := 100\<rparr>) (vlen v) 0) xs"
  using assms by (auto simp: vec_def vset_def nth_copy_up nth_list_update)

lemma vec_shift:
  assumes "vec v xs"
  shows "vec (fst (zvector_shift v)) (tl xs)
    \<and> snd (zvector_shift v) = (if xs = [] then (0, False) else (hd xs, True))"
proof (cases "xs = []")
  case True
  with assms show ?thesis by (auto simp: zvector_shift_def vec_def)
next
  case False
  note t = vec_tl [OF assms False]
  have "vget v 0 = hd xs" "\<not> vlen v < 1"
    using assms False by (auto simp: vec_def vget_def hd_conv_nth)
  with t vec_slide [OF t] False show ?thesis by (simp add: zvector_shift_def Let_def)
qed

lemma vec_reset: "vec v xs \<Longrightarrow> vec (zvector_reset v) []"
  by (auto simp: zvector_reset_def vec_def vset_def)

lemma vec_truncate:
  assumes "vec v xs"
  shows "if n < 0 then zvector_truncate v n = None
    else \<exists>v'. zvector_truncate v n = Some v' \<and> vec v' (take (nat n) xs) \<and> vsize v' = vsize v \<and> offset v' = offset v"
  using assms by (auto simp: zvector_truncate_def vec_def vset_def nth_list_update min_def nat_less_iff)

lemma vec_delete:
  assumes "vec v xs"
  shows "let r = zvector_delete v idx; i = nat idx in
    if 0 \<le> idx \<and> i < length xs
    then vec (fst r) (take i xs @ drop (Suc i) xs) \<and> snd r = (xs ! i, True)
    else r = (v, 0, False)"
proof (cases "0 < idx \<and> nat idx < length xs")
  case False
  with vec_shift [OF assms] assms show ?thesis
    by (cases xs) (auto simp: zvector_delete_def Let_def vec_def)
next
  case True
  let ?i = "nat idx"
  let ?v = "v\<lparr>mem := copy_up (mem v) (offset v) (offset v + 1) ?i (vlen v - ?i), vlen := vlen v - 1\<rparr>"
  have d: "zvector_delete v idx = (vset ?v (vlen v - 1) 0, vget v ?i, True)"
    using True assms by (auto simp: zvector_delete_def Let_def vec_def)
  have "vec (vset ?v (vlen v - 1) 0) (take ?i xs @ drop (Suc ?i) xs)"
    using True assms vec_nth_Suc [OF assms] by (auto simp: vec_def vset_def nth_copy_up nth_list_update nth_append)
  moreover have "vget v ?i = xs ! ?i" using True assms by (simp add: vec_def vget_def)
  ultimately show ?thesis using True d by (simp add: Let_def)
qed

lemma vec_insert_mid:
  assumes "vec v xs" "0 < i" "i < length xs"
  shows "vec (zvector_insert v (int i) x) (take i xs @ x # drop i xs)"
proof -
  let ?w = "zvector_push v 0"
  have w: "vec ?w (xs @ [0])" by (rule vec_push [OF assms(1)])
  have "vlen v = length xs" using assms(1) by (simp add: vec_def)
  then have "zvector_insert v (int i) x =
      vset (vset (?w\<lparr>mem := copy_down (mem ?w) (offset ?w + i + 1) (offset ?w + i) (length xs - i)\<rparr>) i x) (vlen ?w) 0"
    using assms(2,3) by (simp add: zvector_insert_def Let_def vset_def)
  with w vec_nth_pred [OF w] assms(2,3) show ?thesis
    by (auto simp: vec_def vset_def nth_copy_down nth_list_update nth_append nth_Cons')
qed

lemma vec_insert:
  assumes "vec v xs"
  shows "vec (zvector_insert v idx x)
    (if idx < 0 then xs @ [x]
     else if nat idx \<le> length xs then take (nat idx) xs @ x # drop (nat idx) xs
     else xs @ replicate (nat idx - length xs) 0 @ [x])"
proof -
  have n: "vlen v = length xs" using assms by (simp add: vec_def)
  consider "0 < idx" "nat idx < length xs" | "idx < 0 \<and> xs \<noteq> [] \<or> 0 < idx \<and> nat idx = length xs"
    | "idx = 0 \<or> idx < 0 \<and> xs = []" | "0 < idx" "length xs < nat idx" by linarith
  then show ?thesis
  proof cases
    case 1
    with vec_insert_mid [OF assms, of "nat idx" x] show ?thesis by auto
  next
    case 2
    then have "zvector_insert v idx x = zvector_push v x" using n by (auto simp: zvector_insert_def Let_def)
    with vec_push [OF assms, of x] 2 show ?thesis by auto
  next
    case 3
    then have "zvector_insert v idx x = zvector_unshift v x" using n by (auto simp: zvector_insert_def Let_def)
    with vec_unshift [OF assms, of x] 3 show ?thesis by auto
  next
    case 4
    then have "zvector_insert v idx x = zvector_push (((\<lambda>w. zvector_push w 0) ^^ (nat idx - length xs)) v) x"
      using n by (auto simp: zvector_insert_def Let_def)
    with vec_push [OF vec_pushes [OF assms, of "nat idx - length xs" 0], of x] 4 show ?thesis by auto
  qed
qed

section \<open>The size of the allocation\<close>

text \<open>
  The code computes the number of bytes of the allocation in the type \<open>int\<close> (the parameter of \<open>zmalloc\<close> and
  \<open>zrealloc\<close>), so it has to stay below \<open>2 ^ 31\<close>. The vector doubles only when it is full, and its offset
  is at most 200, so this is a bound on the number of elements. The allocation never shrinks: when it
  fits at the end of an operation, it has fitted all the time.
\<close>

definition vec_fits :: "zvector \<Rightarrow> bool" where
  "vec_fits v \<longleftrightarrow> (vsize v + 1) * 8 < 2 ^ 31 \<and> offset v \<le> 200"

definition turns :: "zvector \<Rightarrow> zvector \<Rightarrow> ptr list \<Rightarrow> bool" where
  "turns v v' ys \<longleftrightarrow> vec v' ys \<and> vsize v \<le> vsize v' \<and> vec_fits v'"

lemma init_fits: "n < 2 ^ 28 - 1 \<Longrightarrow> vec_fits (zvector_init n)"
  by (auto simp: vec_fits_def zvector_init_def Let_def)

lemma turns_push:
  assumes "vec v xs" "vec_fits v" "length xs + 400 < 2 ^ 27"
  shows "turns v (zvector_push v x) (xs @ [x])"
proof -
  have "vec_fits (zvector_push v x) \<and> vsize v \<le> vsize (zvector_push v x)"
    using assms by (auto simp: zvector_push_def vec_fits_def vec_def vec_left_def vset_def Let_def)
  then show ?thesis using vec_push [OF assms(1)] by (simp add: turns_def)
qed

lemma turns_pushes:
  assumes "vec v xs" "vec_fits v" "length xs + n + 400 < 2 ^ 27"
  shows "turns v (((\<lambda>w. zvector_push w x) ^^ n) v) (xs @ replicate n x)"
  using assms(3)
proof (induction n)
  case (Suc n)
  then have t: "turns v (((\<lambda>w. zvector_push w x) ^^ n) v) (xs @ replicate n x)" by simp
  then have "turns (((\<lambda>w. zvector_push w x) ^^ n) v) (zvector_push (((\<lambda>w. zvector_push w x) ^^ n) v) x) ((xs @ replicate n x) @ [x])"
    using Suc.prems by (intro turns_push) (simp_all add: turns_def)
  with t show ?case by (simp add: turns_def replicate_append_same)
qed (use assms in \<open>simp add: turns_def\<close>)

lemma turns_unshift:
  assumes "vec v xs" "vec_fits v" "length xs + 400 < 2 ^ 27"
  shows "turns v (zvector_unshift v x) (x # xs)"
proof -
  have "vec_fits (zvector_unshift v x) \<and> vsize v \<le> vsize (zvector_unshift v x)"
    using assms by (auto simp: zvector_unshift_def vec_fits_def vec_def vec_left_def vset_def Let_def)
  then show ?thesis using vec_unshift [OF assms(1)] by (simp add: turns_def)
qed

lemma turns_shrink:
  assumes "vec v xs" "vec_fits v"
  shows "turns v (fst (zvector_pop v)) (butlast xs)" "turns v (fst (zvector_shift v)) (tl xs)"
    "turns v (zvector_reset v) []"
proof -
  have "vec_fits (fst (zvector_pop v)) \<and> vsize v \<le> vsize (fst (zvector_pop v))"
    "vec_fits (fst (zvector_shift v)) \<and> vsize v \<le> vsize (fst (zvector_shift v))"
    "vec_fits (zvector_reset v) \<and> vsize v \<le> vsize (zvector_reset v)"
    using assms(2) by (simp_all add: zvector_pop_def zvector_shift_def zvector_reset_def vec_fits_def vset_def Let_def)
  then show "turns v (fst (zvector_pop v)) (butlast xs)" "turns v (fst (zvector_shift v)) (tl xs)" "turns v (zvector_reset v) []"
    using vec_pop [OF assms(1)] vec_shift [OF assms(1)] vec_reset [OF assms(1)] by (simp_all add: turns_def)
qed

lemma turns_delete:
  assumes "vec v xs" "vec_fits v" "0 \<le> idx \<and> nat idx < length xs"
  shows "turns v (fst (zvector_delete v idx)) (take (nat idx) xs @ drop (Suc (nat idx)) xs)"
proof -
  have "vec_fits (fst (zvector_delete v idx)) \<and> vsize v \<le> vsize (fst (zvector_delete v idx))"
    using assms(2) by (simp add: zvector_delete_def zvector_shift_def vec_fits_def vset_def Let_def)
  then show ?thesis using vec_delete [OF assms(1), of idx] assms(3) by (simp add: turns_def Let_def)
qed

lemma turns_insert:
  assumes "vec v xs" "vec_fits v" "max (length xs) (nat idx) + 400 < 2 ^ 27"
  shows "turns v (zvector_insert v idx x)
    (if idx < 0 then xs @ [x]
     else if nat idx \<le> length xs then take (nat idx) xs @ x # drop (nat idx) xs
     else xs @ replicate (nat idx - length xs) 0 @ [x])"
proof -
  have n: "vlen v = length xs" using assms(1) by (simp add: vec_def)
  have len: "length xs + 400 < 2 ^ 27" using assms(3) by simp
  have sz: "vec_fits (zvector_insert v idx x) \<and> vsize v \<le> vsize (zvector_insert v idx x)"
  proof (cases "idx < 0 \<or> nat idx \<le> length xs")
    case True
    have "vsize (zvector_insert v idx x) \<in> {vsize (zvector_unshift v x), vsize (zvector_push v x), vsize (zvector_push v 0)}
      \<and> offset (zvector_insert v idx x) \<in> {offset (zvector_unshift v x), offset (zvector_push v x), offset (zvector_push v 0)}"
      using True n by (auto simp: zvector_insert_def Let_def vset_def)
    then show ?thesis
      using turns_unshift [OF assms(1,2) len] turns_push [OF assms(1,2) len] by (auto simp: turns_def vec_fits_def)
  next
    case False
    let ?k = "nat idx - length xs" and ?w = "((\<lambda>w. zvector_push w 0) ^^ (nat idx - length xs)) v"
    have "length xs + ?k + 400 < 2 ^ 27" using assms(3) False by simp
    from turns_pushes [OF assms(1,2) this] have w: "turns v ?w (xs @ replicate ?k 0)" .
    then have "turns ?w (zvector_push ?w x) ((xs @ replicate ?k 0) @ [x])"
      using assms(3) False by (intro turns_push) (simp_all add: turns_def)
    moreover have "zvector_insert v idx x = zvector_push ?w x" using n False by (auto simp: zvector_insert_def Let_def)
    ultimately show ?thesis using w by (simp add: turns_def)
  qed
  then show ?thesis using vec_insert [OF assms(1), of idx x] by (simp only: turns_def)
qed

interpretation zvector: deque vec "\<lambda>_ _. True"
  "\<lambda>(_ :: unit) v x. Some (zvector_push v x)" "\<lambda>_ v x. Some (zvector_unshift v x)"
  "\<lambda>v. case zvector_pop v of (v', x, b) \<Rightarrow> Some (v', if b then Some x else None)"
  "\<lambda>v. case zvector_shift v of (v', x, b) \<Rightarrow> Some (v', if b then Some x else None)"
proof
  fix v xs
  assume "vec v xs"
  from vec_pop [OF this] vec_shift [OF this]
  show "\<exists>v'. (case zvector_pop v of (v', x, b) \<Rightarrow> Some (v', if b then Some x else None)) =
      Some (v', if xs = [] then None else Some (last xs)) \<and> vec v' (butlast xs)"
    and "\<exists>v'. (case zvector_shift v of (v', x, b) \<Rightarrow> Some (v', if b then Some x else None)) =
      Some (v', if xs = [] then None else Some (hd xs)) \<and> vec v' (tl xs)"
    by (auto simp: case_prod_beta split: if_splits)
qed (auto intro: vec_push vec_unshift)

section \<open>Properties\<close>

text \<open>C21: The vector is a list of pointers with constant access at both ends: \<open>push\<close>, \<open>unshift\<close>,
  \<open>pop\<close> and \<open>shift\<close> add and remove at the end and at the front, and every store stays inside the
  allocation, also when the code moves the elements or reallocates; a NULL cell always follows the
  last element. \<open>zvector_insert\<close> puts the element at the index and moves the following ones up, appends for
  a negative index, and fills with NULL up to an index beyond the end; \<open>zvector_delete\<close> removes the
  element at a valid index and does nothing for any other; \<open>zvector_truncate\<close> keeps a prefix, and for a
  negative length leaves the vector broken. Below \<open>2 ^ 27 - 400\<close> elements the allocation has less than
  \<open>2 ^ 31\<close> bytes, which the code passes to \<open>zmalloc\<close> and \<open>zrealloc\<close> as an \<open>int\<close>.\<close>

theorem zvector_contract:
  assumes "vec v xs" "vec_fits v" "max (length xs) (nat idx) + 400 < 2 ^ 27"
  shows "turns v (zvector_push v x) (xs @ [x]) \<and> turns v (zvector_unshift v x) (x # xs)
    \<and> turns v (fst (zvector_pop v)) (butlast xs) \<and> turns v (fst (zvector_shift v)) (tl xs)
    \<and> snd (zvector_pop v) = (if xs = [] then (0, False) else (last xs, True))
    \<and> snd (zvector_shift v) = (if xs = [] then (0, False) else (hd xs, True))
    \<and> turns v (zvector_insert v idx x)
        (if idx < 0 then xs @ [x]
         else if nat idx \<le> length xs then take (nat idx) xs @ x # drop (nat idx) xs
         else xs @ replicate (nat idx - length xs) 0 @ [x])
    \<and> (if 0 \<le> idx \<and> nat idx < length xs
       then turns v (fst (zvector_delete v idx)) (take (nat idx) xs @ drop (Suc (nat idx)) xs)
         \<and> snd (zvector_delete v idx) = (xs ! nat idx, True)
       else zvector_delete v idx = (v, 0, False))
    \<and> (if n < 0 then zvector_truncate v n = None
       else \<exists>v'. zvector_truncate v n = Some v' \<and> turns v v' (take (nat n) xs))
    \<and> turns v (zvector_reset v) []"
proof -
  have len: "length xs + 400 < 2 ^ 27" using assms(3) by simp
  have "if n < 0 then zvector_truncate v n = None
       else \<exists>v'. zvector_truncate v n = Some v' \<and> turns v v' (take (nat n) xs)"
    using vec_truncate [OF assms(1), of n] assms(2) by (auto simp: turns_def vec_fits_def split: if_splits)
  then show ?thesis
    using turns_push [OF assms(1,2) len, of x] turns_unshift [OF assms(1,2) len, of x] turns_shrink [OF assms(1,2)]
      vec_pop [OF assms(1)] vec_shift [OF assms(1)] turns_insert [OF assms, of x] turns_delete [OF assms(1,2), of idx]
      vec_delete [OF assms(1), of idx] by (simp add: Let_def)
qed

theorem zvector_contract_witness:
  "turns (zvector_init 3) (zvector_unshift (zvector_init 3) 5) [5]
   \<and> turns (zvector_init 3) (zvector_insert (zvector_init 3) 2 5) [0, 0, 5]"
proof -
  have "replicate 2 0 = [0, 0 :: ptr]" by (simp add: numeral_2_eq_2)
  then show ?thesis using zvector_contract [OF vec_init init_fits, of 3 2 5 1] by simp
qed

end
