(* ===== verification/LinkList.thy ===== *)
theory LinkList
  imports Vector "HOL-Library.Monad_Syntax"
begin

text \<open>
  The doubly linked lists: the \<open>ZMLINK\<close> macros of \<open>zc.h\<close> on memory cells, and their users \<open>zlink\<close>
  (\<open>src/stdlib/link.c\<close>, intrusive nodes) and \<open>zlist\<close> (\<open>src/stdlib/list.c\<close>, nodes with a value and
  a counter). A load or store through NULL or to a cell that is not allocated is \<open>None\<close>.
\<close>

section \<open>State\<close>

record lnode =
  lprev :: ptr
  lnext :: ptr
  lvalue :: ptr

record lk =
  lhead :: ptr
  ltail :: ptr
  cells :: "ptr \<rightharpoonup> lnode"

record zlist = lk +
  llen :: "32 word"

definition lget :: "'a lk_scheme \<Rightarrow> ptr \<Rightarrow> lnode option" where
  "lget s a = (if a = 0 then None else cells s a)"

definition lupd :: "'a lk_scheme \<Rightarrow> ptr \<Rightarrow> (lnode \<Rightarrow> lnode) \<Rightarrow> 'a lk_scheme option" where
  "lupd s a f = (case lget s a of None \<Rightarrow> None | Some n \<Rightarrow> Some (s\<lparr>cells := (cells s)(a \<mapsto> f n)\<rparr>))"

abbreviation set_prev :: "'a lk_scheme \<Rightarrow> ptr \<Rightarrow> ptr \<Rightarrow> 'a lk_scheme option" where
  "set_prev s a v \<equiv> lupd s a (\<lambda>n. n\<lparr>lprev := v\<rparr>)"

abbreviation set_next :: "'a lk_scheme \<Rightarrow> ptr \<Rightarrow> ptr \<Rightarrow> 'a lk_scheme option" where
  "set_next s a v \<equiv> lupd s a (\<lambda>n. n\<lparr>lnext := v\<rparr>)"

section \<open>The macros\<close>

definition mlink_first :: "'a lk_scheme \<Rightarrow> ptr \<Rightarrow> 'a lk_scheme option" where
  "mlink_first s node = do {
     s1 \<leftarrow> lupd s node (\<lambda>n. n\<lparr>lprev := 0, lnext := 0\<rparr>);
     Some (s1\<lparr>lhead := node, ltail := node\<rparr>) }"

definition mlink_at_tail :: "'a lk_scheme \<Rightarrow> ptr \<Rightarrow> 'a lk_scheme option" where
  "mlink_at_tail s node = do {
     s1 \<leftarrow> set_next s (ltail s) node;
     s2 \<leftarrow> set_prev s1 node (ltail s);
     s3 \<leftarrow> set_next s2 node 0;
     Some (s3\<lparr>ltail := node\<rparr>) }"

definition mlink_at_head :: "'a lk_scheme \<Rightarrow> ptr \<Rightarrow> 'a lk_scheme option" where
  "mlink_at_head s node = do {
     s1 \<leftarrow> set_prev s (lhead s) node;
     s2 \<leftarrow> set_next s1 node (lhead s);
     s3 \<leftarrow> set_prev s2 node 0;
     Some (s3\<lparr>lhead := node\<rparr>) }"

definition ZMLINK_APPEND :: "'a lk_scheme \<Rightarrow> ptr \<Rightarrow> 'a lk_scheme option" where
  "ZMLINK_APPEND s node = (if lhead s = 0 then mlink_first s node else mlink_at_tail s node)"

definition ZMLINK_PREPEND :: "'a lk_scheme \<Rightarrow> ptr \<Rightarrow> 'a lk_scheme option" where
  "ZMLINK_PREPEND s node = (if lhead s = 0 then mlink_first s node else mlink_at_head s node)"

definition mlink_before :: "'a lk_scheme \<Rightarrow> ptr \<Rightarrow> ptr \<Rightarrow> 'a lk_scheme option" where
  "mlink_before s node before = do {
     bn \<leftarrow> lget s before;
     s1 \<leftarrow> set_prev s node (lprev bn);
     s2 \<leftarrow> set_next s1 node before;
     bn2 \<leftarrow> lget s2 before;
     s3 \<leftarrow> set_next s2 (lprev bn2) node;
     set_prev s3 before node }"

definition ZMLINK_ATTACH_BEFORE :: "'a lk_scheme \<Rightarrow> ptr \<Rightarrow> ptr \<Rightarrow> 'a lk_scheme option" where
  "ZMLINK_ATTACH_BEFORE s node before =
     (if lhead s = 0 then mlink_first s node
      else if before = 0 then mlink_at_tail s node
      else if before = lhead s then mlink_at_head s node
      else mlink_before s node before)"

definition ZMLINK_DETACH :: "'a lk_scheme \<Rightarrow> ptr \<Rightarrow> 'a lk_scheme option" where
  "ZMLINK_DETACH s node = do {
     n \<leftarrow> lget s node;
     s1 \<leftarrow> (if lprev n \<noteq> 0 then set_next s (lprev n) (lnext n) else Some (s\<lparr>lhead := lnext n\<rparr>));
     n1 \<leftarrow> lget s1 node;
     (if lnext n1 \<noteq> 0 then set_prev s1 (lnext n1) (lprev n1) else Some (s1\<lparr>ltail := lprev n1\<rparr>)) }"

text \<open>The second list of a concatenation is given by its ends.\<close>

definition ZMLINK_CONCAT :: "'a lk_scheme \<Rightarrow> ptr \<Rightarrow> ptr \<Rightarrow> 'a lk_scheme option" where
  "ZMLINK_CONCAT s head_2 tail_2 =
     (if head_2 \<noteq> 0 then do {
        s1 \<leftarrow> (if lhead s \<noteq> 0 then do {
                  s0 \<leftarrow> set_next s (ltail s) head_2;
                  set_prev s0 head_2 (ltail s) }
                else Some (s\<lparr>lhead := head_2\<rparr>));
        Some (s1\<lparr>ltail := tail_2\<rparr>) }
      else Some s)"

section \<open>\<open>zlink\<close>\<close>

definition zlink_init :: "'a lk_scheme \<Rightarrow> 'a lk_scheme" where
  "zlink_init s = s\<lparr>lhead := 0, ltail := 0\<rparr>"

definition zlink_attach_before :: "lk \<Rightarrow> ptr \<Rightarrow> ptr \<Rightarrow> (lk \<times> ptr) option" where
  "zlink_attach_before s node before = do { s1 \<leftarrow> ZMLINK_ATTACH_BEFORE s node before; Some (s1, node) }"

definition zlink_detach :: "lk \<Rightarrow> ptr \<Rightarrow> (lk \<times> ptr) option" where
  "zlink_detach s node =
     (if node = 0 then Some (s, 0) else do { s1 \<leftarrow> ZMLINK_DETACH s node; Some (s1, node) })"

definition zlink_push :: "lk \<Rightarrow> ptr \<Rightarrow> (lk \<times> ptr) option" where
  "zlink_push s node = do { s1 \<leftarrow> ZMLINK_APPEND s node; Some (s1, node) }"

definition zlink_unshift :: "lk \<Rightarrow> ptr \<Rightarrow> (lk \<times> ptr) option" where
  "zlink_unshift s node = do { s1 \<leftarrow> ZMLINK_PREPEND s node; Some (s1, node) }"

definition zlink_pop :: "lk \<Rightarrow> (lk \<times> ptr) option" where
  "zlink_pop s =
     (if ltail s = 0 then Some (s, 0) else do { s1 \<leftarrow> ZMLINK_DETACH s (ltail s); Some (s1, ltail s) })"

definition zlink_shift :: "lk \<Rightarrow> (lk \<times> ptr) option" where
  "zlink_shift s =
     (if lhead s = 0 then Some (s, 0) else do { s1 \<leftarrow> ZMLINK_DETACH s (lhead s); Some (s1, lhead s) })"

section \<open>\<open>zlist\<close>\<close>

definition zlist_init :: "zlist \<Rightarrow> zlist" where
  "zlist_init s = s\<lparr>lhead := 0, ltail := 0, llen := 0\<rparr>"

definition zlist_attach_before :: "zlist \<Rightarrow> ptr \<Rightarrow> ptr \<Rightarrow> zlist option" where
  "zlist_attach_before s n before = do {
     s1 \<leftarrow> ZMLINK_ATTACH_BEFORE s n before;
     Some (s1\<lparr>llen := llen s1 + 1\<rparr>) }"

definition zlist_detach :: "zlist \<Rightarrow> ptr \<Rightarrow> zlist option" where
  "zlist_detach s n = do {
     s1 \<leftarrow> ZMLINK_DETACH s n;
     Some (s1\<lparr>llen := llen s1 - 1\<rparr>) }"

text \<open>\<open>a\<close> is the address \<open>zcalloc\<close> returns.\<close>

definition zlist_add_before :: "ptr \<Rightarrow> zlist \<Rightarrow> ptr \<Rightarrow> ptr \<Rightarrow> (zlist \<times> ptr) option" where
  "zlist_add_before a s v before = do {
     let s1 = s\<lparr>cells := (cells s)(a \<mapsto> \<lparr>lprev = 0, lnext = 0, lvalue = 0\<rparr>)\<rparr>;
     s2 \<leftarrow> lupd s1 a (\<lambda>n. n\<lparr>lvalue := v\<rparr>);
     s3 \<leftarrow> zlist_attach_before s2 a before;
     Some (s3, a) }"

definition zlist_delete :: "zlist \<Rightarrow> ptr \<Rightarrow> (zlist \<times> ptr option) option" where
  "zlist_delete s n =
     (if n = 0 then Some (s, None)
      else do {
        nn \<leftarrow> lget s n;
        s1 \<leftarrow> zlist_detach s n;
        Some (s1\<lparr>cells := (cells s1)(n := None)\<rparr>, Some (lvalue nn)) })"

definition zlist_push :: "ptr \<Rightarrow> zlist \<Rightarrow> ptr \<Rightarrow> (zlist \<times> ptr) option" where
  "zlist_push a l v = zlist_add_before a l v 0"

definition zlist_unshift :: "ptr \<Rightarrow> zlist \<Rightarrow> ptr \<Rightarrow> (zlist \<times> ptr) option" where
  "zlist_unshift a l v = zlist_add_before a l v (lhead l)"

definition zlist_pop :: "zlist \<Rightarrow> (zlist \<times> ptr option) option" where
  "zlist_pop l = zlist_delete l (ltail l)"

definition zlist_shift :: "zlist \<Rightarrow> (zlist \<times> ptr option) option" where
  "zlist_shift l = zlist_delete l (lhead l)"

partial_function (option) zlist_reset :: "zlist \<Rightarrow> zlist option" where
  "zlist_reset l =
     (if llen l \<noteq> 0 then Option.bind (zlist_pop l) (\<lambda>(l', _). zlist_reset l') else Some l)"

partial_function (option) zlist_fini_loop :: "zlist \<Rightarrow> ptr \<Rightarrow> zlist option" where
  "zlist_fini_loop l n =
     (if n \<noteq> 0 then Option.bind (lget l n) (\<lambda>nn.
        zlist_fini_loop (l\<lparr>cells := (cells l)(n := None)\<rparr>) (lnext nn))
      else Some l)"

definition zlist_fini :: "zlist \<Rightarrow> zlist option" where
  "zlist_fini l = zlist_fini_loop l (lhead l)"

section \<open>Chains of nodes\<close>

text \<open>A chain lists nodes with their values; \<open>p\<close> is the node before it, \<open>q\<close> the one behind.\<close>

fun front :: "(ptr \<times> ptr) list \<Rightarrow> ptr \<Rightarrow> ptr" where
  "front [] q = q"
| "front ((a, _) # _) q = a"

fun rear :: "ptr \<Rightarrow> (ptr \<times> ptr) list \<Rightarrow> ptr" where
  "rear p [] = p"
| "rear p ((a, _) # es) = rear a es"

fun chain :: "(ptr \<rightharpoonup> lnode) \<Rightarrow> ptr \<Rightarrow> (ptr \<times> ptr) list \<Rightarrow> ptr \<Rightarrow> bool" where
  "chain h p [] q = True"
| "chain h p ((a, v) # es) q \<longleftrightarrow> a \<noteq> 0 \<and> h a = Some \<lparr>lprev = p, lnext = front es q, lvalue = v\<rparr> \<and> chain h a es q"

definition dll :: "'a lk_scheme \<Rightarrow> (ptr \<times> ptr) list \<Rightarrow> bool" where
  "dll s es \<longleftrightarrow> distinct (map fst es) \<and> lhead s = front es 0 \<and> ltail s = rear 0 es \<and> chain (cells s) 0 es 0"

lemma front_append [simp]: "front (xs @ ys) q = front xs (front ys q)"
  by (cases xs; cases "hd xs") auto

lemma rear_append [simp]: "rear p (xs @ ys) = rear (rear p xs) ys"
  by (induction p xs rule: rear.induct) auto

lemma chain_append [simp]:
  "chain h p (xs @ ys) q \<longleftrightarrow> chain h p xs (front ys q) \<and> chain h (rear p xs) ys q"
  by (induction h p xs q rule: chain.induct) auto

lemma chain_other [simp]: "a \<notin> fst ` set es \<Longrightarrow> chain (h(a := x)) p es q = chain h p es q"
  by (induction h p es q rule: chain.induct) auto

lemma front_zero: "chain h p es q \<Longrightarrow> front es 0 = 0 \<longleftrightarrow> es = []"
  by (cases es; cases "hd es") auto

lemma chain_nonzero: "chain h p es q \<Longrightarrow> 0 \<notin> fst ` set es"
  by (induction h p es q rule: chain.induct) auto

lemma rear_in: "es \<noteq> [] \<Longrightarrow> rear p es \<in> fst ` set es"
proof (induction p es rule: rear.induct)
  case (2 p a v es)
  then show ?case by (cases es) auto
qed simp


text \<open>A node at the end of a chain, with what lies behind it.\<close>

lemma chain_snoc:
  "chain h p (es @ [(a, v)]) q \<longleftrightarrow> chain h p es a \<and> a \<noteq> 0 \<and> h a = Some \<lparr>lprev = rear p es, lnext = q, lvalue = v\<rparr>"
  by auto

section \<open>The macros on chains\<close>

lemmas link_exec = lupd_def lget_def mlink_first_def mlink_at_tail_def mlink_at_head_def mlink_before_def

lemma front_rear_neq:
  assumes "n \<noteq> 0" "n \<notin> fst ` set es"
  shows "front es 0 \<noteq> n" "rear 0 es \<noteq> n"
  using assms rear_in [of es 0] by (cases es; cases "hd es"; force)+

lemma dll_append:
  assumes "dll s es" "n \<noteq> 0" "n \<notin> fst ` set es" "cells s n = Some x"
  shows "\<exists>s'. ZMLINK_APPEND s n = Some s' \<and> dll s' (es @ [(n, lvalue x)])
    \<and> lk.more s' = lk.more s \<and> dom (cells s') = dom (cells s)"
proof (cases es rule: rev_cases)
  case Nil
  with assms show ?thesis
    by (auto simp: ZMLINK_APPEND_def link_exec dll_def insert_absorb domI)
next
  case (snoc ys e)
  obtain a v where e: "e = (a, v)" by (cases e)
  with assms snoc front_zero [of "cells s" 0 es 0] show ?thesis
    by (auto simp: ZMLINK_APPEND_def link_exec dll_def chain_snoc insert_absorb domI)
qed

lemma dll_prepend:
  assumes "dll s es" "n \<noteq> 0" "n \<notin> fst ` set es" "cells s n = Some x"
  shows "\<exists>s'. ZMLINK_PREPEND s n = Some s' \<and> dll s' ((n, lvalue x) # es)
    \<and> lk.more s' = lk.more s \<and> dom (cells s') = dom (cells s)"
proof (cases es)
  case Nil
  with assms show ?thesis
    by (auto simp: ZMLINK_PREPEND_def link_exec dll_def insert_absorb domI)
next
  case (Cons e ys)
  obtain a v where e: "e = (a, v)" by (cases e)
  with assms Cons show ?thesis
    by (auto simp: ZMLINK_PREPEND_def link_exec dll_def insert_absorb domI)
qed

lemma dll_before:
  assumes "dll s (xs @ (b, w) # ys)" "n \<noteq> 0" "n \<notin> fst ` set (xs @ (b, w) # ys)" "cells s n = Some x"
  shows "\<exists>s'. ZMLINK_ATTACH_BEFORE s n b = Some s' \<and> dll s' (xs @ (n, lvalue x) # (b, w) # ys)
    \<and> lk.more s' = lk.more s \<and> dom (cells s') = dom (cells s)"
proof (cases xs rule: rev_cases)
  case Nil
  with assms show ?thesis
    by (auto simp: ZMLINK_ATTACH_BEFORE_def link_exec dll_def insert_absorb domI)
next
  case (snoc zs e)
  obtain a v where e: "e = (a, v)" by (cases e)
  have "front zs a \<noteq> b" using assms(1) snoc e by (cases zs; cases "hd zs") (auto simp: dll_def)
  moreover have "front zs a \<noteq> 0"
    using assms(1) snoc e by (cases zs; cases "hd zs") (auto simp: dll_def)
  ultimately show ?thesis using assms snoc e
    by (auto simp: ZMLINK_ATTACH_BEFORE_def link_exec dll_def insert_absorb domI image_Un)
qed

lemma dll_detach:
  assumes "dll s (xs @ (n, v) # ys)"
  shows "\<exists>s'. ZMLINK_DETACH s n = Some s' \<and> dll s' (xs @ ys)
    \<and> lk.more s' = lk.more s \<and> dom (cells s') = dom (cells s) \<and> cells s' n = cells s n"
proof -
  obtain xs' e where xs: "xs = [] \<or> xs = xs' @ [e]" by (cases xs rule: rev_cases) auto
  obtain ys' f where ys: "ys = [] \<or> ys = f # ys'" by (cases ys) auto
  obtain a u b w where "e = (a, u)" "f = (b, w)" by (cases e; cases f)
  with assms xs ys show ?thesis
    by (elim disjE) (auto simp: ZMLINK_DETACH_def lupd_def lget_def dll_def insert_absorb domI)
qed

lemma attach_before_ends:
  "ZMLINK_ATTACH_BEFORE s n 0 = ZMLINK_APPEND s n"
  "ZMLINK_ATTACH_BEFORE s n (lhead s) = ZMLINK_PREPEND s n"
  by (auto simp: ZMLINK_ATTACH_BEFORE_def ZMLINK_APPEND_def ZMLINK_PREPEND_def)

text \<open>Concatenation: the second list lies in the same memory, apart from the first one.\<close>

lemma dll_concat:
  assumes "dll s xs" "dll (s\<lparr>lhead := h2, ltail := t2\<rparr>) ys" "fst ` set xs \<inter> fst ` set ys = {}"
  shows "\<exists>s'. ZMLINK_CONCAT s h2 t2 = Some s' \<and> dll s' (xs @ ys)"
proof -
  obtain xs' e where xs: "xs = [] \<or> xs = xs' @ [e]" by (cases xs rule: rev_cases) auto
  obtain ys' f where ys: "ys = [] \<or> ys = f # ys'" by (cases ys) auto
  obtain a u b w where "e = (a, u)" "f = (b, w)" by (cases e; cases f)
  moreover have "front xs 0 = 0 \<longleftrightarrow> xs = []" using assms(1) by (auto simp: dll_def front_zero)
  ultimately show ?thesis using assms xs ys
    by (elim disjE) (auto simp: ZMLINK_CONCAT_def lupd_def lget_def dll_def image_Un)
qed

section \<open>\<open>zlist\<close> as a list of values\<close>

definition zl :: "zlist \<Rightarrow> (ptr \<times> ptr) list \<Rightarrow> bool" where
  "zl s es \<longleftrightarrow> dll s es \<and> llen s = of_nat (length es)"

lemma llen_more: "lk.more s' = lk.more s \<Longrightarrow> llen s' = llen s" for s s' :: zlist
  by (cases s; cases s') (simp add: lk.defs zlist.defs)

lemma dll_llen [simp]: "dll (s\<lparr>llen := n\<rparr>) es = dll s es"
  by (simp add: dll_def)

text \<open>A new cell does not disturb the list.\<close>

lemma dll_new_cell: "dll s es \<Longrightarrow> a \<notin> fst ` set es \<Longrightarrow> dll (s\<lparr>cells := (cells s)(a := x)\<rparr>) es"
  by (simp add: dll_def)

lemma zlist_add_ok:
  assumes "zl s es" "a \<noteq> 0" "a \<notin> fst ` set es"
    and b: "before = 0 \<and> ys = [] \<and> xs = es \<or> before = lhead s \<and> xs = [] \<and> ys = es
      \<or> (\<exists>w zs. es = xs @ ys \<and> ys = (before, w) # zs)"
  shows "\<exists>s'. zlist_add_before a s v before = Some (s', a) \<and> zl s' (xs @ (a, v) # ys)"
proof -
  let ?s = "s\<lparr>cells := (cells s)(a \<mapsto> \<lparr>lprev = 0, lnext = 0, lvalue = v\<rparr>)\<rparr>"
  have d: "dll ?s es" using assms(1,3) by (simp add: zl_def dll_new_cell)
  have c: "cells ?s a = Some \<lparr>lprev = 0, lnext = 0, lvalue = v\<rparr>" by simp
  consider (tail) "before = 0" "ys = []" "xs = es" | (head) "before = lhead ?s" "xs = []" "ys = es"
    | (mid) w zs where "es = xs @ (before, w) # zs" "ys = (before, w) # zs"
    using b by auto
  then have "\<exists>s'. ZMLINK_ATTACH_BEFORE ?s a before = Some s' \<and> dll s' (xs @ (a, v) # ys)
      \<and> lk.more s' = lk.more ?s"
  proof cases
    case tail
    with dll_append [OF d assms(2,3) c] show ?thesis unfolding tail(1) attach_before_ends by auto
  next
    case head
    with dll_prepend [OF d assms(2,3) c] show ?thesis unfolding head(1) attach_before_ends by auto
  next
    case mid
    with dll_before [OF d [unfolded mid(1)] assms(2) _ c] assms(3) show ?thesis by auto
  qed
  then obtain s' where s': "ZMLINK_ATTACH_BEFORE ?s a before = Some s'" "dll s' (xs @ (a, v) # ys)"
      "lk.more s' = lk.more ?s" by blast
  have l: "llen s' = llen s" using llen_more [OF s'(3)] by simp
  have "zlist_add_before a s v before = Some (s'\<lparr>llen := llen s' + 1\<rparr>, a)"
    using assms(2) s'(1) by (simp add: zlist_add_before_def zlist_attach_before_def lupd_def lget_def)
  moreover have "zl (s'\<lparr>llen := llen s' + 1\<rparr>) (xs @ (a, v) # ys)"
    using s'(2) l assms(1) b by (auto simp: zl_def)
  ultimately show ?thesis by blast
qed

lemma zlist_delete_ok:
  assumes "zl s (xs @ (n, v) # ys)"
  shows "\<exists>s'. zlist_delete s n = Some (s', Some v) \<and> zl s' (xs @ ys)"
proof -
  have d: "dll s (xs @ (n, v) # ys)" using assms by (simp add: zl_def)
  then obtain s1 where s1: "ZMLINK_DETACH s n = Some s1" "dll s1 (xs @ ys)" "llen s1 = llen s"
    using dll_detach [OF d] llen_more [of _ s] by blast
  have n: "lget s n = Some \<lparr>lprev = rear 0 xs, lnext = front ys 0, lvalue = v\<rparr>" "n \<noteq> 0" "n \<notin> fst ` set (xs @ ys)"
    using d by (auto simp: dll_def lget_def)
  let ?s = "s1\<lparr>llen := llen s1 - 1, cells := (cells s1)(n := None)\<rparr>"
  have "dll ?s (xs @ ys)" using dll_new_cell [OF s1(2) n(3), of None] by (simp add: dll_def)
  then have "zl ?s (xs @ ys)" using s1(3) assms by (simp add: zl_def)
  moreover have "zlist_delete s n = Some (?s, Some v)"
    using n s1 by (simp add: zlist_delete_def zlist_detach_def)
  ultimately show ?thesis by blast
qed

lemma zlist_pop_ok:
  assumes "zl s es"
  shows "\<exists>s'. zlist_pop s = Some (s', if es = [] then None else Some (snd (last es))) \<and> zl s' (butlast es)"
proof (cases es rule: rev_cases)
  case Nil
  with assms show ?thesis by (auto simp: zlist_pop_def zlist_delete_def zl_def dll_def)
next
  case (snoc xs e)
  obtain a v where "e = (a, v)" by (cases e)
  with assms snoc zlist_delete_ok [of s xs a v "[]"] show ?thesis
    by (auto simp: zlist_pop_def zl_def dll_def)
qed

lemma zlist_shift_ok:
  assumes "zl s es"
  shows "\<exists>s'. zlist_shift s = Some (s', if es = [] then None else Some (snd (hd es))) \<and> zl s' (tl es)"
proof (cases es)
  case Nil
  with assms show ?thesis by (auto simp: zlist_shift_def zlist_delete_def zl_def dll_def)
next
  case (Cons e xs)
  obtain a v where "e = (a, v)" by (cases e)
  with assms Cons zlist_delete_ok [of s "[]" a v xs] show ?thesis
    by (auto simp: zlist_shift_def zl_def dll_def)
qed

text \<open>The reset loop is controlled by the counter, which is exact below \<open>2 ^ 32\<close> nodes.\<close>

lemma zlist_reset_ok:
  "zl s es \<Longrightarrow> length es < 2 ^ 32 \<Longrightarrow> \<exists>s'. zlist_reset s = Some s' \<and> zl s' []"
proof (induction es arbitrary: s rule: rev_induct)
  case Nil
  then show ?case by (subst zlist_reset.simps) (auto simp: zl_def)
next
  case (snoc e es)
  have "llen s \<noteq> 0"
  proof
    assume "llen s = 0"
    then have "(of_nat (length (es @ [e])) :: 32 word) = 0" using snoc.prems(1) by (simp add: zl_def)
    then have "2 ^ 32 dvd length (es @ [e])" unfolding word_of_nat_eq_0_iff by simp
    from nat_dvd_not_less [OF _ snoc.prems(2)] this show False by simp
  qed
  obtain s1 x where s1: "zlist_pop s = Some (s1, x)" "zl s1 es"
    using zlist_pop_ok [OF snoc.prems(1)] by auto
  with snoc \<open>llen s \<noteq> 0\<close> show ?case by (subst zlist_reset.simps) auto
qed

definition zlist_env :: "ptr \<Rightarrow> zlist \<Rightarrow> bool" where
  "zlist_env a s \<longleftrightarrow> a \<noteq> 0 \<and> cells s a = None"

lemma zlist_env_fresh: "zl s es \<Longrightarrow> zlist_env a s \<Longrightarrow> a \<notin> fst ` set es"
proof -
  have "chain h p es q \<Longrightarrow> a \<in> fst ` set es \<Longrightarrow> h a \<noteq> None" for h p q
    by (induction h p es q rule: chain.induct) auto
  then show "zl s es \<Longrightarrow> zlist_env a s \<Longrightarrow> a \<notin> fst ` set es"
    unfolding zl_def dll_def zlist_env_def by blast
qed

definition zlist_vals :: "zlist \<Rightarrow> ptr list \<Rightarrow> bool" where
  "zlist_vals s xs \<longleftrightarrow> (\<exists>es. zl s es \<and> map snd es = xs)"

lemma zlist_push_ok:
  assumes "zl s es" "zlist_env a s"
  shows "\<exists>s'. zlist_push a s v = Some (s', a) \<and> zl s' (es @ [(a, v)])"
  using zlist_add_ok [OF assms(1), of a 0 "[]" es v] zlist_env_fresh [OF assms] assms(2)
  by (auto simp: zlist_push_def zlist_env_def)

lemma zlist_unshift_ok:
  assumes "zl s es" "zlist_env a s"
  shows "\<exists>s'. zlist_unshift a s v = Some (s', a) \<and> zl s' ((a, v) # es)"
  using zlist_add_ok [OF assms(1), of a "lhead s" es "[]" v] zlist_env_fresh [OF assms] assms(2)
  by (auto simp: zlist_unshift_def zlist_env_def)

interpretation zlist: deque zlist_vals zlist_env
  "\<lambda>a s v. map_option fst (zlist_push a s v)" "\<lambda>a s v. map_option fst (zlist_unshift a s v)"
  zlist_pop zlist_shift
proof
  fix s xs a v
  assume "zlist_vals s xs"
  then obtain es where es: "zl s es" "xs = map snd es" by (auto simp: zlist_vals_def)
  show "\<exists>s'. zlist_pop s = Some (s', if xs = [] then None else Some (last xs)) \<and> zlist_vals s' (butlast xs)"
    using zlist_pop_ok [OF es(1)] es(2) by (auto simp: zlist_vals_def last_map map_butlast [symmetric])
  show "\<exists>s'. zlist_shift s = Some (s', if xs = [] then None else Some (hd xs)) \<and> zlist_vals s' (tl xs)"
    using zlist_shift_ok [OF es(1)] es(2) by (auto simp: zlist_vals_def hd_map map_tl [symmetric])
  assume e: "zlist_env a s"
  show "\<exists>s'. map_option fst (zlist_push a s v) = Some s' \<and> zlist_vals s' (xs @ [v])"
    using zlist_push_ok [OF es(1) e, of v] es(2) by (force simp: zlist_vals_def)
  show "\<exists>s'. map_option fst (zlist_unshift a s v) = Some s' \<and> zlist_vals s' (v # xs)"
    using zlist_unshift_ok [OF es(1) e, of v] es(2) by (force simp: zlist_vals_def)
qed

lemma zlist_init_ok: "zl (zlist_init s) []"
  by (simp add: zlist_init_def zl_def dll_def)

lemma fini_loop_ok:
  "chain (cells l) p es 0 \<Longrightarrow> distinct (map fst es) \<Longrightarrow>
   \<exists>l'. zlist_fini_loop l (front es 0) = Some l' \<and> (\<forall>a. cells l' a = (if a \<in> fst ` set es then None else cells l a))"
proof (induction es arbitrary: l p)
  case Nil
  then show ?case by (subst zlist_fini_loop.simps) simp
next
  case (Cons e es)
  obtain a v where e: "e = (a, v)" by (cases e)
  let ?l = "l\<lparr>cells := (cells l)(a := None)\<rparr>"
  have c: "chain (cells ?l) a es 0" "distinct (map fst es)" using Cons.prems e by simp_all
  obtain l' where "zlist_fini_loop ?l (front es 0) = Some l'"
      "\<forall>b. cells l' b = (if b \<in> fst ` set es then None else cells ?l b)"
    using Cons.IH [OF c] by blast
  with Cons.prems e show ?case by (subst zlist_fini_loop.simps) (auto simp: lget_def)
qed

lemma zlist_fini_ok:
  assumes "zl s es"
  shows "\<exists>s'. zlist_fini s = Some s' \<and> (\<forall>a. cells s' a = (if a \<in> fst ` set es then None else cells s a))"
proof -
  have "chain (cells s) 0 es 0" "distinct (map fst es)" "lhead s = front es 0"
    using assms by (simp_all add: zl_def dll_def)
  with fini_loop_ok [of s 0 es] show ?thesis by (simp add: zlist_fini_def)
qed

section \<open>Properties\<close>

text \<open>Two nodes at 8 and 16, and an unlinked one at 24.\<close>

definition ex_link :: lk where
  "ex_link = \<lparr>lhead = 8, ltail = 16, cells = [8 \<mapsto> \<lparr>lprev = 0, lnext = 16, lvalue = 1\<rparr>,
     16 \<mapsto> \<lparr>lprev = 8, lnext = 0, lvalue = 2\<rparr>, 24 \<mapsto> \<lparr>lprev = 5, lnext = 5, lvalue = 3\<rparr>]\<rparr>"

lemma dll_ex: "dll ex_link [(8, 1), (16, 2)]"
  by (simp add: dll_def ex_link_def)

text \<open>C22: The link macros keep the list doubly linked, without a cycle and with both ends exact:
  attaching a node before another one puts it there, at the end for NULL; detaching a node removes
  exactly that one, wherever it is, and no other node moves.\<close>

theorem zlink_spec:
  assumes "dll s (xs @ (b, w) # ys)" "n \<noteq> 0" "n \<notin> fst ` set (xs @ (b, w) # ys)" "cells s n = Some x"
  shows "(\<exists>s'. zlink_attach_before s n b = Some (s', n) \<and> dll s' (xs @ (n, lvalue x) # (b, w) # ys))
    \<and> (\<exists>s'. zlink_push s n = Some (s', n) \<and> dll s' (xs @ (b, w) # ys @ [(n, lvalue x)]))
    \<and> (\<exists>s'. zlink_unshift s n = Some (s', n) \<and> dll s' ((n, lvalue x) # xs @ (b, w) # ys))
    \<and> (\<exists>s'. zlink_detach s b = Some (s', b) \<and> dll s' (xs @ ys))"
proof -
  have "b \<noteq> 0" using assms(1) by (auto simp: dll_def)
  with dll_before [OF assms] dll_append [OF assms] dll_prepend [OF assms] dll_detach [OF assms(1)]
  show ?thesis
    by (auto simp: zlink_attach_before_def zlink_push_def zlink_unshift_def zlink_detach_def)
qed

theorem zlink_spec_witness:
  "\<exists>s'. zlink_attach_before ex_link 24 16 = Some (s', 24) \<and> dll s' [(8, 1), (24, 3), (16, 2)]"
proof -
  have "cells ex_link 24 = Some \<lparr>lprev = 5, lnext = 5, lvalue = 3\<rparr>" by (simp add: ex_link_def)
  with zlink_spec [of ex_link "[(8, 1)]" 16 2 "[]" 24] dll_ex show ?thesis by simp
qed

text \<open>\<open>zlist\<close> is a double-ended queue of values with an exact counter: each of its operations
  returns and has the effect of the list operation of the same name; \<open>zlist_reset\<close> ends with an empty list
  for every list of fewer than \<open>2 ^ 32\<close> nodes, and \<open>zlist_fini\<close> frees every node of the list and nothing
  else, without touching a freed node.\<close>

theorem zlist_deque:
  assumes "zl s es" "zlist_env a s" "length es < 2 ^ 32"
  shows "(\<exists>s'. zlist_push a s v = Some (s', a) \<and> zl s' (es @ [(a, v)]))
    \<and> (\<exists>s'. zlist_unshift a s v = Some (s', a) \<and> zl s' ((a, v) # es))
    \<and> (\<exists>s'. zlist_pop s = Some (s', if es = [] then None else Some (snd (last es))) \<and> zl s' (butlast es))
    \<and> (\<exists>s'. zlist_shift s = Some (s', if es = [] then None else Some (snd (hd es))) \<and> zl s' (tl es))
    \<and> (\<exists>s'. zlist_reset s = Some s' \<and> zl s' [])
    \<and> (\<exists>s'. zlist_fini s = Some s' \<and> (\<forall>a. cells s' a = (if a \<in> fst ` set es then None else cells s a)))"
  using zlist_push_ok [OF assms(1,2)] zlist_unshift_ok [OF assms(1,2)] zlist_pop_ok [OF assms(1)]
    zlist_shift_ok [OF assms(1)] zlist_reset_ok [OF assms(1,3)] zlist_fini_ok [OF assms(1)] by blast

end
