(* ===== verification/Json.thy ===== *)
theory Json
  imports CStr Vector "HOL-Library.Monad_Syntax"
begin

text \<open>
  The JSON values of \<open>src/json/json.c\<close>: nodes in a store, linked by pointers to their elements and
  to their parent. A node carries the union of the C struct and its type as one tagged value. The
  vector of an array is the list of its elements (theory \<open>Vector\<close> proves that contract of
  \<open>zvector\<close>), the map of an object its entries in the order of the keys (the contract of \<open>zmap\<close>,
  theory \<open>MapProps\<close>). \<open>'d\<close> is the type of the doubles. An access through NULL or to a released
  node is \<open>None\<close>.
\<close>

section \<open>State\<close>

type_synonym jref = nat

datatype 'd jval =
    VNull
  | VBool int
  | VString bytes
  | VLong "64 word"
  | VDouble 'd
  | VObject "(cstring \<times> jref) list"
  | VArray "jref list"

record 'd jnode =
  jval :: "'d jval"
  jparent :: jref

text \<open>\<open>jfree\<close> is the address the next allocation returns.\<close>

record 'd jheap =
  jcells :: "jref \<rightharpoonup> 'd jnode"
  jfree :: jref

definition jget :: "'d jheap \<Rightarrow> jref \<Rightarrow> 'd jnode option" where
  "jget h p = (if p = 0 then None else jcells h p)"

definition jput :: "'d jheap \<Rightarrow> jref \<Rightarrow> 'd jval \<Rightarrow> 'd jheap option" where
  "jput h p v = do { n \<leftarrow> jget h p; Some (h\<lparr>jcells := (jcells h)(p \<mapsto> n\<lparr>jval := v\<rparr>)\<rparr>) }"

definition jset_parent :: "'d jheap \<Rightarrow> jref \<Rightarrow> jref \<Rightarrow> 'd jheap option" where
  "jset_parent h p q = do { n \<leftarrow> jget h p; Some (h\<lparr>jcells := (jcells h)(p \<mapsto> n\<lparr>jparent := q\<rparr>)\<rparr>) }"

definition jrelease :: "'d jheap \<Rightarrow> jref \<Rightarrow> 'd jheap" where
  "jrelease h p = h\<lparr>jcells := (jcells h)(p := None)\<rparr>"

section \<open>Creation\<close>

definition jalloc :: "'d jval \<Rightarrow> 'd jheap \<Rightarrow> 'd jheap \<times> jref" where
  "jalloc v h = (h\<lparr>jcells := (jcells h)(jfree h \<mapsto> \<lparr>jval = v, jparent = 0\<rparr>), jfree := jfree h + 1\<rparr>, jfree h)"

definition zjson_create :: "'d jheap \<Rightarrow> 'd jheap \<times> jref" where
  "zjson_create = jalloc VNull"

definition zjson_create_bool :: "int \<Rightarrow> 'd jheap \<Rightarrow> 'd jheap \<times> jref" where
  "zjson_create_bool b = jalloc (VBool b)"

definition zjson_create_long :: "64 word \<Rightarrow> 'd jheap \<Rightarrow> 'd jheap \<times> jref" where
  "zjson_create_long l = jalloc (VLong l)"

definition zjson_create_double :: "'d \<Rightarrow> 'd jheap \<Rightarrow> 'd jheap \<times> jref" where
  "zjson_create_double d = jalloc (VDouble d)"

definition zjson_create_string :: "bytes \<Rightarrow> int \<Rightarrow> 'd jheap \<Rightarrow> 'd jheap \<times> jref" where
  "zjson_create_string s n = jalloc (VString (src_bytes s n))"

definition zjson_create_array :: "'d jheap \<Rightarrow> 'd jheap \<times> jref" where
  "zjson_create_array = jalloc (VArray [])"

definition zjson_create_object :: "'d jheap \<Rightarrow> 'd jheap \<times> jref" where
  "zjson_create_object = jalloc (VObject [])"

section \<open>Release\<close>

text \<open>The loop of \<open>zjson_reset\<close>: the stack of nodes to delete, its top first. An array gives up its
  last element, an object its first one; the node comes back until it is empty.\<close>

definition jrelease_other :: "'d jheap \<Rightarrow> jref \<Rightarrow> jref \<Rightarrow> 'd jheap" where
  "jrelease_other h j js = (if js \<noteq> j then jrelease h js else h)"

partial_function (option) reset_loop :: "'d jheap \<Rightarrow> jref \<Rightarrow> jref list \<Rightarrow> 'd jheap option" where
  "reset_loop h j st =
     (case st of
        [] \<Rightarrow> Some h
      | js # st' \<Rightarrow>
          if js = 0 then reset_loop h j st'
          else Option.bind (jget h js) (\<lambda>n.
            case jval n of
              VArray es \<Rightarrow>
                if es = [] then reset_loop (jrelease_other h j js) j st'
                else Option.bind (jput h js (VArray (butlast es))) (\<lambda>h1. reset_loop h1 j (last es # js # st'))
            | VObject es \<Rightarrow>
                if es = [] then reset_loop (jrelease_other h j js) j st'
                else Option.bind (jput h js (VObject (tl es))) (\<lambda>h1. reset_loop h1 j (snd (hd es) # js # st'))
            | _ \<Rightarrow> reset_loop (jrelease_other h j js) j st'))"

definition zjson_reset :: "'d jheap \<Rightarrow> jref \<Rightarrow> 'd jheap option" where
  "zjson_reset h j = do { h1 \<leftarrow> reset_loop h j [j]; jput h1 j VNull }"

definition is_array :: "'d jval \<Rightarrow> bool" where
  "is_array v = (case v of VArray _ \<Rightarrow> True | _ \<Rightarrow> False)"

definition is_object :: "'d jval \<Rightarrow> bool" where
  "is_object v = (case v of VObject _ \<Rightarrow> True | _ \<Rightarrow> False)"

definition is_string :: "'d jval \<Rightarrow> bool" where
  "is_string v = (case v of VString _ \<Rightarrow> True | _ \<Rightarrow> False)"

definition is_long :: "'d jval \<Rightarrow> bool" where
  "is_long v = (case v of VLong _ \<Rightarrow> True | _ \<Rightarrow> False)"

definition is_double :: "'d jval \<Rightarrow> bool" where
  "is_double v = (case v of VDouble _ \<Rightarrow> True | _ \<Rightarrow> False)"

definition is_bool :: "'d jval \<Rightarrow> bool" where
  "is_bool v = (case v of VBool _ \<Rightarrow> True | _ \<Rightarrow> False)"

definition zjson_free :: "'d jheap \<Rightarrow> jref \<Rightarrow> 'd jheap option" where
  "zjson_free h j =
     (if j = 0 then Some h
      else do {
        n \<leftarrow> jget h j;
        h1 \<leftarrow> (if is_object (jval n) \<or> is_array (jval n) then zjson_reset h j else Some h);
        Some (jrelease h1 j) })"

section \<open>Typed access\<close>

text \<open>The accessors turn a node of another type into an empty one of the wanted type.\<close>

definition jas :: "('d jval \<Rightarrow> bool) \<Rightarrow> 'd jval \<Rightarrow> 'd jheap \<Rightarrow> jref \<Rightarrow> 'd jheap option" where
  "jas is_kind dflt h j = do {
     n \<leftarrow> jget h j;
     h1 \<leftarrow> (if \<not> is_kind (jval n) then zjson_reset h j else Some h);
     n1 \<leftarrow> jget h1 j;
     (case jval n1 of VNull \<Rightarrow> jput h1 j dflt | _ \<Rightarrow> Some h1) }"

definition zjson_get_string_value :: "'d jheap \<Rightarrow> jref \<Rightarrow> 'd jheap option" where
  "zjson_get_string_value = jas is_string (VString [])"

definition zjson_get_long_value :: "'d jheap \<Rightarrow> jref \<Rightarrow> 'd jheap option" where
  "zjson_get_long_value = jas is_long (VLong 0)"

definition zjson_get_double_value :: "'d::zero jheap \<Rightarrow> jref \<Rightarrow> 'd jheap option" where
  "zjson_get_double_value = jas is_double (VDouble 0)"

definition zjson_get_bool_value :: "'d jheap \<Rightarrow> jref \<Rightarrow> 'd jheap option" where
  "zjson_get_bool_value = jas is_bool (VBool 0)"

text \<open>The array and the object accessors return the vector and the map.\<close>

definition zjson_get_array_value :: "'d jheap \<Rightarrow> jref \<Rightarrow> ('d jheap \<times> jref list) option" where
  "zjson_get_array_value h j = do {
     h1 \<leftarrow> jas is_array (VArray []) h j;
     n \<leftarrow> jget h1 j;
     (case jval n of VArray es \<Rightarrow> Some (h1, es) | _ \<Rightarrow> None) }"

definition zjson_get_object_value :: "'d jheap \<Rightarrow> jref \<Rightarrow> ('d jheap \<times> (cstring \<times> jref) list) option" where
  "zjson_get_object_value h j = do {
     h1 \<leftarrow> jas is_object (VObject []) h j;
     n \<leftarrow> jget h1 j;
     (case jval n of VObject es \<Rightarrow> Some (h1, es) | _ \<Rightarrow> None) }"

section \<open>Arrays\<close>

definition zjson_array_get :: "'d jheap \<Rightarrow> jref \<Rightarrow> int \<Rightarrow> ('d jheap \<times> jref) option" where
  "zjson_array_get h j idx =
     (if idx < 0 then Some (h, 0)
      else do {
        (h1, es) \<leftarrow> zjson_get_array_value h j;
        Some (h1, if int (length es) \<le> idx then 0 else es ! nat idx) })"

definition zjson_array_get_len :: "'d jheap \<Rightarrow> jref \<Rightarrow> ('d jheap \<times> nat) option" where
  "zjson_array_get_len h j = do { (h1, es) \<leftarrow> zjson_get_array_value h j; Some (h1, length es) }"

definition zjson_array_push :: "'d jheap \<Rightarrow> jref \<Rightarrow> jref \<Rightarrow> 'd jheap option" where
  "zjson_array_push h j element = do {
     h1 \<leftarrow> jset_parent h element j;
     (h2, es) \<leftarrow> zjson_get_array_value h1 j;
     jput h2 j (VArray (es @ [element])) }"

definition zjson_array_unshift :: "'d jheap \<Rightarrow> jref \<Rightarrow> jref \<Rightarrow> 'd jheap option" where
  "zjson_array_unshift h j element = do {
     h1 \<leftarrow> jset_parent h element j;
     (h2, es) \<leftarrow> zjson_get_array_value h1 j;
     jput h2 j (VArray (element # es)) }"

text \<open>\<open>zjson_array_pop\<close> and \<open>zjson_array_shift\<close> pass \<open>(void **)tmpj\<close>, a null pointer, to the vector,
  not the address of \<open>tmpj\<close>: \<open>tmpj\<close> stays NULL. The result is the return code and what is stored
  through \<open>element\<close> (0 in every case).\<close>

definition zjson_array_pop :: "'d jheap \<Rightarrow> jref \<Rightarrow> bool \<Rightarrow> ('d jheap \<times> bool \<times> jref option) option" where
  "zjson_array_pop h j want = do {
     (h1, es) \<leftarrow> zjson_get_array_value h j;
     let tmpj = 0;
     (if es \<noteq> [] then do {
        h2 \<leftarrow> jput h1 j (VArray (butlast es));
        h3 \<leftarrow> (if tmpj \<noteq> 0 then jset_parent h2 tmpj 0 else Some h2);
        (if want then Some (h3, True, Some tmpj) else do { h4 \<leftarrow> zjson_free h3 tmpj; Some (h4, True, None) }) }
      else Some (h1, False, if want then Some 0 else None)) }"

definition zjson_array_shift :: "'d jheap \<Rightarrow> jref \<Rightarrow> bool \<Rightarrow> ('d jheap \<times> bool \<times> jref option) option" where
  "zjson_array_shift h j want = do {
     (h1, es) \<leftarrow> zjson_get_array_value h j;
     let tmpj = 0;
     (if es \<noteq> [] then do {
        h2 \<leftarrow> jput h1 j (VArray (tl es));
        h3 \<leftarrow> (if tmpj \<noteq> 0 then jset_parent h2 tmpj 0 else Some h2);
        (if want then Some (h3, True, Some tmpj) else do { h4 \<leftarrow> zjson_free h3 tmpj; Some (h4, True, None) }) }
      else Some (h1, False, if want then Some 0 else None)) }"

text \<open>What happens with a replaced or removed element: it is handed out, or released.\<close>

definition hand_out :: "'d jheap \<Rightarrow> jref \<Rightarrow> bool \<Rightarrow> ('d jheap \<times> jref option) option" where
  "hand_out h tmpj want =
     (if want then do {
        h1 \<leftarrow> (if tmpj \<noteq> 0 then jset_parent h tmpj 0 else Some h);
        Some (h1, Some tmpj) }
      else if tmpj \<noteq> 0 then do { h1 \<leftarrow> zjson_free h tmpj; Some (h1, None) }
      else Some (h, None))"

text \<open>The effect of \<open>zvector_insert\<close> on the elements (\<open>vec_insert\<close> in \<open>Vector\<close>).\<close>

definition list_insert :: "int \<Rightarrow> jref \<Rightarrow> jref list \<Rightarrow> jref list" where
  "list_insert idx x xs =
     (if idx < 0 then xs @ [x]
      else if nat idx \<le> length xs then take (nat idx) xs @ x # drop (nat idx) xs
      else xs @ replicate (nat idx - length xs) 0 @ [x])"

definition zjson_array_update :: "'d jheap \<Rightarrow> jref \<Rightarrow> int \<Rightarrow> jref \<Rightarrow> bool \<Rightarrow> ('d jheap \<times> jref option) option" where
  "zjson_array_update h j idx0 element want = do {
     h1 \<leftarrow> jset_parent h element j;
     (h2, es) \<leftarrow> zjson_get_array_value h1 j;
     let idx = (if idx0 < 0 then int (length es) else idx0);
     (if idx < int (length es) then do {
        h3 \<leftarrow> jput h2 j (VArray (es[nat idx := element]));
        hand_out h3 (es ! nat idx) want }
      else do {
        h3 \<leftarrow> jput h2 j (VArray (list_insert idx element es));
        hand_out h3 0 want }) }"

text \<open>\<open>zjson_array_insert\<close> does not set the parent of the element.\<close>

definition zjson_array_insert :: "'d jheap \<Rightarrow> jref \<Rightarrow> int \<Rightarrow> jref \<Rightarrow> 'd jheap option" where
  "zjson_array_insert h j idx element = do {
     (h1, es) \<leftarrow> zjson_get_array_value h j;
     jput h1 j (VArray (list_insert idx element es)) }"

definition zjson_array_delete :: "'d jheap \<Rightarrow> jref \<Rightarrow> int \<Rightarrow> bool \<Rightarrow> ('d jheap \<times> jref option) option" where
  "zjson_array_delete h j idx want = do {
     (h1, es) \<leftarrow> zjson_get_array_value h j;
     (if 0 \<le> idx \<and> nat idx < length es then do {
        h2 \<leftarrow> jput h1 j (VArray (take (nat idx) es @ drop (Suc (nat idx)) es));
        hand_out h2 (es ! nat idx) want }
      else Some (h1, if want then Some 0 else None)) }"

section \<open>Objects\<close>

text \<open>\<open>zmap_update\<close> on the entries in key order is \<open>obj_put\<close>; \<open>zmap_delete\<close> and \<open>zmap_find\<close> follow.\<close>

definition obj_del :: "'k \<Rightarrow> ('k \<times> 'v) list \<Rightarrow> ('k \<times> 'v) list" where
  "obj_del k m = filter (\<lambda>e. fst e \<noteq> k) m"

definition obj_find :: "'k \<Rightarrow> ('k \<times> jref) list \<Rightarrow> jref" where
  "obj_find k m = (case map_of m k of None \<Rightarrow> 0 | Some r \<Rightarrow> r)"

definition zjson_object_get :: "'d jheap \<Rightarrow> jref \<Rightarrow> cstring \<Rightarrow> ('d jheap \<times> jref) option" where
  "zjson_object_get h j k = do {
     (h1, es) \<leftarrow> zjson_get_object_value h j;
     Some (h1, obj_find k es) }"

definition zjson_object_get_len :: "'d jheap \<Rightarrow> jref \<Rightarrow> ('d jheap \<times> nat) option" where
  "zjson_object_get_len h j = do { (h1, es) \<leftarrow> zjson_get_object_value h j; Some (h1, length es) }"

definition zjson_object_update :: "'d jheap \<Rightarrow> jref \<Rightarrow> cstring \<Rightarrow> jref \<Rightarrow> bool \<Rightarrow> ('d jheap \<times> jref option) option" where
  "zjson_object_update h j k element want = do {
     h1 \<leftarrow> jset_parent h element j;
     (h2, es) \<leftarrow> zjson_get_object_value h1 j;
     h3 \<leftarrow> jput h2 j (VObject (obj_put k element es));
     hand_out h3 (obj_find k es) want }"

definition zjson_object_delete :: "'d jheap \<Rightarrow> jref \<Rightarrow> cstring \<Rightarrow> bool \<Rightarrow> ('d jheap \<times> jref option) option" where
  "zjson_object_delete h j k want = do {
     (h1, es) \<leftarrow> zjson_get_object_value h j;
     h2 \<leftarrow> jput h1 j (VObject (obj_del k es));
     hand_out h2 (obj_find k es) want }"

section \<open>Paths\<close>

text \<open>The index loop: decimal digits, in the width of \<open>int\<close>; \<open>None\<close> for any other character.\<close>

fun path_index :: "bytes \<Rightarrow> 32 word \<Rightarrow> 32 word option" where
  "path_index [] idx = Some idx"
| "path_index (c # p2) idx =
     (if 48 \<le> c \<and> c \<le> 57 then path_index p2 (idx * 10 + ucast (c - 48)) else None)"

definition path_step :: "'d jheap \<Rightarrow> jref \<Rightarrow> bytes \<Rightarrow> jref option" where
  "path_step h jn ps = do {
     n \<leftarrow> jget h jn;
     (case jval n of
        VArray _ \<Rightarrow>
          (case path_index ps 0 of
             None \<Rightarrow> Some 0
           | Some idx \<Rightarrow> do { (_, r) \<leftarrow> zjson_array_get h jn (sint idx); Some r })
      | VObject _ \<Rightarrow> do { (_, r) \<leftarrow> zjson_object_get h jn (cs ps); Some r }
      | _ \<Rightarrow> Some 0) }"

fun path_loop :: "'d jheap \<Rightarrow> jref \<Rightarrow> bytes list \<Rightarrow> jref option" where
  "path_loop h jn [] = Some jn"
| "path_loop h jn (ps # rest) =
     (if jn = 0 then Some 0 else do { jn1 \<leftarrow> path_step h jn ps; path_loop h jn1 rest })"

text \<open>\<open>strchr(ps, '/')\<close>, and the string cut there.\<close>

fun path_split :: "bytes \<Rightarrow> bytes list" where
  "path_split [] = [[]]"
| "path_split (c # s) =
     (if c = ch CHR ''/'' then [] # path_split s
      else (case path_split s of [] \<Rightarrow> [[c]] | p # ps \<Rightarrow> (c # p) # ps))"

definition zjson_get_element_by_path :: "'d jheap \<Rightarrow> jref \<Rightarrow> cstring \<Rightarrow> jref option" where
  "zjson_get_element_by_path h j path =
     (if str_bytes path = [] then Some j else path_loop h j (path_split (str_bytes path)))"

text \<open>The variant with one argument per component, up to the terminating NULL.\<close>

definition zjson_get_element_by_path_vec :: "'d jheap \<Rightarrow> jref \<Rightarrow> cstring list \<Rightarrow> jref option" where
  "zjson_get_element_by_path_vec h j path =
     (case path of
        [] \<Rightarrow> Some 0
      | path0 # _ \<Rightarrow> if str_bytes path0 = [] then Some 0 else path_loop h j (map str_bytes path))"

partial_function (option) zjson_get_top :: "'d jheap \<Rightarrow> jref \<Rightarrow> jref option" where
  "zjson_get_top h r = Option.bind (jget h r) (\<lambda>n.
     if jparent n \<noteq> 0 then zjson_get_top h (jparent n) else Some r)"

end
