(* ===== verification/JsonTree.thy ===== *)
theory JsonTree
  imports Json
begin

text \<open>
  JSON documents as trees, the relation between a tree and the nodes that represent it, and what
  \<open>zjson_reset\<close> and \<open>zjson_free\<close> do to such nodes: every node below is released exactly once and
  no other node changes.
\<close>

section \<open>Trees and their nodes\<close>

datatype 'd json =
    JNull
  | JBool int
  | JString bytes
  | JLong "64 word"
  | JDouble 'd
  | JObject "(cstring \<times> 'd json) list"
  | JArray "'d json list"

text \<open>The value a node holds, and a list of nodes with disjoint sets of nodes below them.\<close>

definition jat :: "(jref \<rightharpoonup> 'd jnode) \<Rightarrow> jref \<Rightarrow> 'd jval option" where
  "jat c p = (if p = 0 then None else map_option jval (c p))"

fun forest :: "((jref \<rightharpoonup> 'd jnode) \<Rightarrow> jref \<Rightarrow> jref set \<Rightarrow> bool) list \<Rightarrow> (jref \<rightharpoonup> 'd jnode) \<Rightarrow> jref list
    \<Rightarrow> jref set \<Rightarrow> bool" where
  "forest [] c [] S = (S = {})"
| "forest (r # rs) c (p # ps) S = (\<exists>S1 S2. r c p S1 \<and> forest rs c ps S2 \<and> S1 \<inter> S2 = {} \<and> S = S1 \<union> S2)"
| "forest _ c _ S = False"

text \<open>\<open>rep t c p S\<close>: the nodes \<open>S\<close> of the store \<open>c\<close> represent the tree \<open>t\<close>, with the root \<open>p\<close>.\<close>

primrec rep :: "'d json \<Rightarrow> (jref \<rightharpoonup> 'd jnode) \<Rightarrow> jref \<Rightarrow> jref set \<Rightarrow> bool" where
  "rep JNull c p S = (jat c p = Some VNull \<and> S = {p})"
| "rep (JBool b) c p S = (jat c p = Some (VBool b) \<and> S = {p})"
| "rep (JString s) c p S = (jat c p = Some (VString s) \<and> S = {p})"
| "rep (JLong l) c p S = (jat c p = Some (VLong l) \<and> S = {p})"
| "rep (JDouble d) c p S = (jat c p = Some (VDouble d) \<and> S = {p})"
| "rep (JObject m) c p S = (\<exists>es S'. jat c p = Some (VObject es)
     \<and> map fst es = map fst (map (map_prod id rep) m)
     \<and> forest (map snd (map (map_prod id rep) m)) c (map snd es) S' \<and> p \<notin> S' \<and> S = insert p S')"
| "rep (JArray ts) c p S = (\<exists>ps S'. jat c p = Some (VArray ps)
     \<and> forest (map rep ts) c ps S' \<and> p \<notin> S' \<and> S = insert p S')"

text \<open>The same with the components of an object in one list.\<close>

lemma rep_JObject: "rep (JObject m) c p S \<longleftrightarrow> (\<exists>es S'. jat c p = Some (VObject es)
    \<and> map fst es = map fst m \<and> forest (map rep (map snd m)) c (map snd es) S' \<and> p \<notin> S' \<and> S = insert p S')"
  by (simp add: comp_def)

declare rep.simps(6) [simp del]

lemma rep_root: "rep t c p S \<Longrightarrow> p \<in> S \<and> p \<noteq> 0"
  by (cases t) (auto simp: rep_JObject jat_def split: if_splits)

lemma forest_length: "forest rs c ps S \<Longrightarrow> length ps = length rs"
  by (induction rs c ps S rule: forest.induct) auto

lemma forest_append:
  "length ps = length rs \<Longrightarrow> forest (rs @ rs') c (ps @ ps') S \<longleftrightarrow>
     (\<exists>S1 S2. forest rs c ps S1 \<and> forest rs' c ps' S2 \<and> S1 \<inter> S2 = {} \<and> S = S1 \<union> S2)"
proof (induction ps rs arbitrary: S rule: list_induct2)
  case (Cons p ps r rs)
  show ?case (is "?l \<longleftrightarrow> ?r")
  proof
    assume ?l
    then obtain S1 A B where "r c p S1" "forest rs c ps A" "forest rs' c ps' B" "A \<inter> B = {}"
      "S1 \<inter> (A \<union> B) = {}" "S = S1 \<union> (A \<union> B)"
      by (auto simp: Cons.IH)
    then have "forest (r # rs) c (p # ps) (S1 \<union> A)" "forest rs' c ps' B" "(S1 \<union> A) \<inter> B = {}" "S = (S1 \<union> A) \<union> B"
      by auto
    then show ?r by blast
  next
    assume ?r
    then obtain S1 A B where "r c p S1" "forest rs c ps A" "forest rs' c ps' B" "S1 \<inter> A = {}"
      "(S1 \<union> A) \<inter> B = {}" "S = (S1 \<union> A) \<union> B"
      by auto
    then have "r c p S1" "forest (rs @ rs') c (ps @ ps') (A \<union> B)" "S1 \<inter> (A \<union> B) = {}" "S = S1 \<union> (A \<union> B)"
      by (auto simp: Cons.IH)
    then show ?l by (simp only: append_Cons forest.simps) blast
  qed
qed simp

lemma forest_snoc:
  "forest (rs @ [r]) c ps S \<longleftrightarrow> (\<exists>qs q S1 S2. ps = qs @ [q] \<and> forest rs c qs S1 \<and> r c q S2
     \<and> S1 \<inter> S2 = {} \<and> S = S1 \<union> S2)" (is "?l \<longleftrightarrow> ?r")
proof
  assume ?l
  then have "length ps = Suc (length rs)" using forest_length by force
  then obtain qs q where "ps = qs @ [q]" "length qs = length rs"
    by (metis length_append_singleton Suc_inject append_butlast_last_id list.size(3) nat.simps(3))
  with \<open>?l\<close> show ?r by (auto simp: forest_append)
next
  assume ?r
  then show ?l using forest_append forest_length by fastforce
qed

text \<open>A representation depends on its own nodes only.\<close>

lemma jat_cong: "c p = c' p \<Longrightarrow> jat c p = jat c' p"
  by (simp add: jat_def)

lemma forest_jat:
  assumes "\<And>t p S. t \<in> set ts \<Longrightarrow> rep t c p S \<Longrightarrow> (\<forall>q \<in> S. jat c q = jat c' q) \<Longrightarrow> rep t c' p S"
    and "forest (map rep ts) c ps S" "\<forall>q \<in> S. jat c q = jat c' q"
  shows "forest (map rep ts) c' ps S"
  using assms
proof (induction ts arbitrary: ps S)
  case Nil
  then show ?case by (cases ps) auto
next
  case (Cons t ts)
  from Cons.prems(2) obtain p qs S1 S2 where ps: "ps = p # qs" and t: "rep t c p S1"
    and f: "forest (map rep ts) c qs S2" and S: "S1 \<inter> S2 = {}" "S = S1 \<union> S2"
    by (cases ps) auto
  have "rep t c' p S1" using Cons.prems(1) [OF _ t] Cons.prems(3) S by simp
  moreover have "forest (map rep ts) c' qs S2"
    by (rule Cons.IH [OF Cons.prems(1) f]) (use Cons.prems(3) S in simp_all)
  ultimately show ?case unfolding ps using S by (simp only: list.map forest.simps) blast
qed

lemma rep_jat: "rep t c p S \<Longrightarrow> \<forall>q \<in> S. jat c q = jat c' q \<Longrightarrow> rep t c' p S"
proof (induction t arbitrary: p S)
  case (JObject m)
  from JObject.prems(1) obtain es S' where es: "jat c p = Some (VObject es)" "map fst es = map fst m"
    "forest (map rep (map snd m)) c (map snd es) S'" "p \<notin> S'" "S = insert p S'"
    by (auto simp: rep_JObject)
  have "forest (map rep (map snd m)) c' (map snd es) S'"
  proof (rule forest_jat [OF _ es(3)])
    show "rep t c' q T" if "t \<in> set (map snd m)" "rep t c q T" "\<forall>x \<in> T. jat c x = jat c' x" for t q T
      using that by (auto intro: JObject.IH)
  qed (use JObject.prems es in auto)
  moreover have "jat c' p = Some (VObject es)"
    using es JObject.prems(2) by simp
  ultimately show ?case using es(2,4,5) unfolding rep_JObject by blast
next
  case (JArray ts)
  from JArray.prems(1) obtain ps S' where ps: "jat c p = Some (VArray ps)"
    "forest (map rep ts) c ps S'" "p \<notin> S'" "S = insert p S'"
    by auto
  have "forest (map rep ts) c' ps S'"
    by (rule forest_jat [OF JArray.IH ps(2)]) (use JArray.prems(2) ps(4) in simp_all)
  moreover have "jat c' p = Some (VArray ps)"
    using ps JArray.prems(2) by simp
  ultimately show ?case using ps(3,4) unfolding rep.simps by blast
qed simp_all

lemma rep_cong: "rep t c p S \<Longrightarrow> \<forall>q \<in> S. c q = c' q \<Longrightarrow> rep t c' p S"
  by (rule rep_jat) (auto simp: jat_def)

lemma forest_frame_jat:
  "forest (map rep ts) c ps S \<Longrightarrow> \<forall>q \<in> S. jat c q = jat c' q \<Longrightarrow> forest (map rep ts) c' ps S"
  using forest_jat [of ts c c' ps S] rep_jat by metis

lemma forest_frame:
  "forest (map rep ts) c ps S \<Longrightarrow> \<forall>q \<in> S. c q = c' q \<Longrightarrow> forest (map rep ts) c' ps S"
  by (rule forest_frame_jat) (auto simp: jat_def)

section \<open>Release\<close>

definition jwithout :: "'d jheap \<Rightarrow> jref set \<Rightarrow> 'd jheap" where
  "jwithout h S = h\<lparr>jcells := (jcells h) |` (- S)\<rparr>"

lemma restrict_UNIV [simp]: "m |` UNIV = m"
  by (simp add: restrict_map_def)

lemma jwithout_simps [simp]:
  "jwithout (jwithout h S) T = jwithout h (S \<union> T)" "jwithout h {} = h"
  "jcells (jwithout h S) = jcells h |` (- S)" "jfree (jwithout h S) = jfree h"
  by (simp_all add: jwithout_def)

lemma jrelease_jwithout: "jrelease (jwithout h S) p = jwithout h (insert p S)"
  unfolding jrelease_def jwithout_def by (intro jheap.equality) (auto simp: restrict_map_def)

lemma jget_jat: "jat (jcells h) p = map_option jval (jget h p)"
  by (simp add: jat_def jget_def)

lemma jat_SomeD: "jat (jcells h) p = Some v \<Longrightarrow> \<exists>n. jget h p = Some n \<and> jval n = v \<and> p \<noteq> 0"
  by (auto simp: jget_jat jget_def split: if_splits)

text \<open>The loop gives up the nodes of one subtree and goes on with the rest of its stack.\<close>

lemma reset_loop_Nil: "reset_loop h j [] = Some h"
  by (simp add: reset_loop.simps)

lemma reset_loop_Cons:
  "reset_loop h j (js # st) =
     (if js = 0 then reset_loop h j st
      else Option.bind (jget h js) (\<lambda>n.
        case jval n of
          VArray es \<Rightarrow>
            if es = [] then reset_loop (jrelease_other h j js) j st
            else Option.bind (jput h js (VArray (butlast es))) (\<lambda>h1. reset_loop h1 j (last es # js # st))
        | VObject es \<Rightarrow>
            if es = [] then reset_loop (jrelease_other h j js) j st
            else Option.bind (jput h js (VObject (tl es))) (\<lambda>h1. reset_loop h1 j (snd (hd es) # js # st))
        | _ \<Rightarrow> reset_loop (jrelease_other h j js) j st))"
  by (subst reset_loop.simps) simp

text \<open>\<open>drops\<close>: the loop can drop the subtree at \<open>q\<close>.\<close>

definition drops :: "'d json \<Rightarrow> bool" where
  "drops t \<longleftrightarrow> (\<forall>h j q S st. rep t (jcells h) q S \<longrightarrow> j \<notin> S \<longrightarrow>
     reset_loop h j (q # st) = reset_loop (jwithout h S) j st)"

text \<open>Emptying the node \<open>js\<close>: what the loop does until it meets \<open>js\<close> with no elements left.\<close>

definition jbare :: "'d jheap \<Rightarrow> jref \<Rightarrow> 'd jval \<Rightarrow> jref set \<Rightarrow> 'd jheap" where
  "jbare h js v S = (jwithout h S)\<lparr>jcells := (jcells h |` (- S))(js := map_option (\<lambda>n. n\<lparr>jval := v\<rparr>) (jcells h js))\<rparr>"

lemma jbare_empty:
  assumes "jget h js = Some n" "jval n = v"
  shows "jbare h js v {} = h"
proof -
  have "jcells h js = Some n" using assms(1) by (simp add: jget_def split: if_splits)
  moreover have "n\<lparr>jval := v\<rparr> = n" using assms(2) by (cases n) simp
  ultimately show ?thesis by (simp add: jbare_def fun_upd_idem)
qed

lemma empty_array:
  assumes "\<And>t. t \<in> set ts \<Longrightarrow> drops t"
    and "jget h js = Some n" "jval n = VArray ps" "forest (map rep ts) (jcells h) ps S" "js \<notin> S" "j \<notin> S"
  shows "reset_loop h j (js # st) = reset_loop (jbare h js (VArray []) S) j (js # st)"
  using assms
proof (induction ts arbitrary: h n ps S rule: rev_induct)
  case Nil
  then have "ps = []" "S = {}" by (cases ps; simp)+
  moreover have "jbare h js (VArray []) {} = h"
    using Nil.prems(2,3) \<open>ps = []\<close> by (simp add: jbare_empty)
  ultimately show ?case by simp
next
  case (snoc t ts)
  from snoc.prems(4) obtain qs q S1 S2 where q: "ps = qs @ [q]" "forest (map rep ts) (jcells h) qs S1"
    "rep t (jcells h) q S2" "S1 \<inter> S2 = {}" "S = S1 \<union> S2"
    by (auto simp: forest_snoc)
  let ?h1 = "h\<lparr>jcells := (jcells h)(js \<mapsto> n\<lparr>jval := VArray qs\<rparr>)\<rparr>"
  let ?h2 = "jwithout ?h1 S2"
  have js: "js \<noteq> 0" "jcells h js = Some n" "js \<notin> S1" "js \<notin> S2"
    using snoc.prems(2,5) q(5) by (auto simp: jget_def split: if_splits)
  have "reset_loop h j (js # st) = reset_loop ?h1 j (q # js # st)"
    using js snoc.prems(2,3) q(1) by (subst reset_loop_Cons) (simp add: jput_def)
  also have "\<dots> = reset_loop ?h2 j (js # st)"
  proof -
    have "rep t (jcells ?h1) q S2" using q(3) by (rule rep_cong) (use js in auto)
    with snoc.prems(1) [of t] snoc.prems(6) q(5) show ?thesis by (auto simp: drops_def)
  qed
  also have "\<dots> = reset_loop (jbare ?h2 js (VArray []) S1) j (js # st)"
  proof (rule snoc.IH)
    show "jget ?h2 js = Some (n\<lparr>jval := VArray qs\<rparr>)" using js by (simp add: jget_def)
    show "forest (map rep ts) (jcells ?h2) qs S1"
      using q(2) by (rule forest_frame) (use js q(4) in \<open>auto simp: restrict_map_def\<close>)
  qed (use snoc.prems(1,6) js q in auto)
  also have "jbare ?h2 js (VArray []) S1 = jbare h js (VArray []) S"
    unfolding jbare_def using js q(5)
    by (intro jheap.equality) (auto simp: restrict_map_def fun_eq_iff)
  finally show ?case .
qed

lemma empty_object:
  assumes "\<And>t. t \<in> set ts \<Longrightarrow> drops t"
    and "jget h js = Some n" "jval n = VObject es" "forest (map rep ts) (jcells h) (map snd es) S"
      "js \<notin> S" "j \<notin> S"
  shows "reset_loop h j (js # st) = reset_loop (jbare h js (VObject []) S) j (js # st)"
  using assms
proof (induction ts arbitrary: h n es S)
  case Nil
  then have "es = []" "S = {}" by (cases es; simp)+
  moreover have "jbare h js (VObject []) {} = h"
    using Nil.prems(2,3) \<open>es = []\<close> by (simp add: jbare_empty)
  ultimately show ?case by simp
next
  case (Cons t ts)
  from Cons.prems(4) obtain e es' S1 S2 where q: "es = e # es'" "rep t (jcells h) (snd e) S1"
    "forest (map rep ts) (jcells h) (map snd es') S2" "S1 \<inter> S2 = {}" "S = S1 \<union> S2"
    by (cases es) auto
  let ?h1 = "h\<lparr>jcells := (jcells h)(js \<mapsto> n\<lparr>jval := VObject es'\<rparr>)\<rparr>"
  let ?h2 = "jwithout ?h1 S1"
  have js: "js \<noteq> 0" "jcells h js = Some n" "js \<notin> S1" "js \<notin> S2"
    using Cons.prems(2,5) q(5) by (auto simp: jget_def split: if_splits)
  have "reset_loop h j (js # st) = reset_loop ?h1 j (snd e # js # st)"
    using js Cons.prems(2,3) q(1) by (subst reset_loop_Cons) (simp add: jput_def)
  also have "\<dots> = reset_loop ?h2 j (js # st)"
  proof -
    have "rep t (jcells ?h1) (snd e) S1" using q(2) by (rule rep_cong) (use js in auto)
    with Cons.prems(1) [of t] Cons.prems(6) q(5) show ?thesis by (auto simp: drops_def)
  qed
  also have "\<dots> = reset_loop (jbare ?h2 js (VObject []) S2) j (js # st)"
  proof (rule Cons.IH)
    show "jget ?h2 js = Some (n\<lparr>jval := VObject es'\<rparr>)" using js by (simp add: jget_def)
    show "forest (map rep ts) (jcells ?h2) (map snd es') S2"
      using q(3) by (rule forest_frame) (use js q(4) in \<open>auto simp: restrict_map_def\<close>)
  qed (use Cons.prems(1,6) js q in auto)
  also have "jbare ?h2 js (VObject []) S2 = jbare h js (VObject []) S"
    unfolding jbare_def using js q(5)
    by (intro jheap.equality) (auto simp: restrict_map_def fun_eq_iff)
  finally show ?case .
qed

text \<open>An emptied node is released, unless it is the one the reset is for.\<close>

lemma finish_bare:
  assumes "jget h js = Some n" "js \<notin> S" "v = VArray [] \<or> v = VObject []"
  shows "reset_loop (jbare h js v S) j (js # st) =
    reset_loop (if js = j then jbare h js v S else jwithout h (insert js S)) j st"
proof -
  have js: "js \<noteq> 0" "jcells h js = Some n" using assms(1) by (auto simp: jget_def split: if_splits)
  then have "jget (jbare h js v S) js = Some (n\<lparr>jval := v\<rparr>)" by (simp add: jget_def jbare_def)
  moreover have "jrelease (jbare h js v S) js = jwithout h (insert js S)"
    unfolding jrelease_def jbare_def jwithout_def
    by (intro jheap.equality) (auto simp: restrict_map_def)
  ultimately show ?thesis using js assms(3)
    by (subst reset_loop_Cons) (auto simp: jrelease_other_def)
qed

lemma drops_all: "drops t"
proof (induction t)
  case (JObject m)
  show ?case unfolding drops_def
  proof (intro allI impI)
    fix h :: "'a jheap" and j q S st
    assume r: "rep (JObject m) (jcells h) q S" and j: "j \<notin> S"
    then obtain es S' where es: "jat (jcells h) q = Some (VObject es)"
      "forest (map rep (map snd m)) (jcells h) (map snd es) S'" "q \<notin> S'" "S = insert q S'"
      by (auto simp: rep_JObject)
    from es(1) obtain n where n: "jget h q = Some n" "jval n = VObject es" by (auto dest: jat_SomeD)
    have d: "drops t" if "t \<in> set (map snd m)" for t using that JObject.IH by auto
    show "reset_loop h j (q # st) = reset_loop (jwithout h S) j st"
      using empty_object [OF d n es(2,3), of j st] finish_bare [OF n(1) es(3), of "VObject []" j st] j es(4)
      by simp
  qed
next
  case (JArray ts)
  show ?case unfolding drops_def
  proof (intro allI impI)
    fix h :: "'a jheap" and j q S st
    assume r: "rep (JArray ts) (jcells h) q S" and j: "j \<notin> S"
    then obtain ps S' where ps: "jat (jcells h) q = Some (VArray ps)"
      "forest (map rep ts) (jcells h) ps S'" "q \<notin> S'" "S = insert q S'"
      by auto
    from ps(1) obtain n where n: "jget h q = Some n" "jval n = VArray ps" by (auto dest: jat_SomeD)
    show "reset_loop h j (q # st) = reset_loop (jwithout h S) j st"
      using empty_array [OF JArray.IH n ps(2,3), of j st] finish_bare [OF n(1) ps(3), of "VArray []" j st] j ps(4)
      by simp
  qed
qed (auto simp: drops_def reset_loop_Cons jrelease_other_def jrelease_jwithout [of _ "{}", simplified] dest!: jat_SomeD)

text \<open>\<open>jreset h p S\<close>: the node \<open>p\<close> is null and the other nodes of \<open>S\<close> are gone.\<close>

definition jreset :: "'d jheap \<Rightarrow> jref \<Rightarrow> jref set \<Rightarrow> 'd jheap" where
  "jreset h p S = jbare h p VNull (S - {p})"

lemma jput_jbare: "jget h p = Some n \<Longrightarrow> jput (jbare h p v S) p VNull = Some (jbare h p VNull S)"
  by (auto simp: jput_def jget_def jbare_def split: if_splits)

lemma zjson_reset_rep:
  assumes "rep t (jcells h) p S"
  shows "zjson_reset h p = Some (jreset h p S)"
proof -
  from assms obtain v where v: "jat (jcells h) p = Some v" by (cases t) (auto simp: rep_JObject)
  then obtain n where n: "jget h p = Some n" "jval n = v" "p \<noteq> 0" by (auto dest: jat_SomeD)
  have "\<exists>w. reset_loop h p [p] = Some (jbare h p w (S - {p}))"
  proof (cases t)
    case (JObject m)
    with assms v n obtain es S' where es: "v = VObject es"
      "forest (map rep (map snd m)) (jcells h) (map snd es) S'" "p \<notin> S'" "S = insert p S'"
      by (auto simp: rep_JObject)
    with empty_object [OF drops_all n(1) _ es(2,3,3), of "[]"] finish_bare [OF n(1) es(3), of "VObject []" p "[]"] n
    show ?thesis by (auto simp: reset_loop_Nil)
  next
    case (JArray ts)
    with assms v n obtain ps S' where ps: "v = VArray ps"
      "forest (map rep ts) (jcells h) ps S'" "p \<notin> S'" "S = insert p S'"
      by auto
    with empty_array [OF drops_all n(1) _ ps(2,3,3), of "[]"] finish_bare [OF n(1) ps(3), of "VArray []" p "[]"] n
    show ?thesis by (auto simp: reset_loop_Nil)
  qed (use assms n v in \<open>auto simp: reset_loop_Cons reset_loop_Nil jrelease_other_def jbare_empty intro!: exI [of _ v]\<close>)
  then show ?thesis using n by (auto simp: zjson_reset_def jreset_def jput_jbare)
qed

end
