(* ===== verification/JsonText.thy ===== *)
theory JsonText
  imports JsonTree TextEnc
begin

text \<open>
  \<open>zjson_serialize\<close> of \<open>src/json/serialize.c\<close>: the iterative printer, which keeps three parallel
  vectors as its stack (node, index, map iterator), here one list of frames. An iterator is the key
  it stands at, \<open>None\<close> is the end. What \<open>printf\<close> makes of a double is a parameter, and so is the
  cast of a double to an integer.
\<close>

section \<open>Printing\<close>

record 'd dfmt =
  trunc :: "'d \<Rightarrow> int"
  fmt_e :: "'d \<Rightarrow> bytes"
  fmt_lf :: "'d \<Rightarrow> bytes"

text \<open>\<open>%zd\<close>.\<close>

fun dec_digits :: "nat \<Rightarrow> bytes" where
  "dec_digits n = (if n < 10 then [48 + of_nat n] else dec_digits (n div 10) @ [48 + of_nat (n mod 10)])"

declare dec_digits.simps [simp del]

definition fmt_zd :: "64 word \<Rightarrow> bytes" where
  "fmt_zd l = (if sint l < 0 then ch CHR ''-'' # dec_digits (nat (- sint l)) else dec_digits (nat (sint l)))"

definition zbuf_printf_1024 :: "zbuf \<Rightarrow> bytes \<Rightarrow> zbuf" where
  "zbuf_printf_1024 bf formatted =
     (let n = (if length formatted < 1024 then length formatted else 1024 - 1)
      in zbuf_memcat bf (take 1023 formatted @ [0]) (int n))"

definition json_hex_chars :: bytes where
  "json_hex_chars = cstr ''0123456789abcdef''"

text \<open>\<open>___serialize_string\<close>, by character.\<close>

definition put_two :: "zbuf \<Rightarrow> char \<Rightarrow> zbuf" where
  "put_two bf c = zbuf_put (zbuf_put bf 92) (ch c)"

definition serialize_char :: "zbuf \<Rightarrow> byte \<Rightarrow> zbuf" where
  "serialize_char bf c =
     (if c = 92 then zbuf_put (zbuf_put bf 92) 92
      else if c = 47 then put_two bf (CHR ''/'')
      else if c = 34 then zbuf_put (zbuf_put bf 92) 34
      else if c = 8 then put_two bf (CHR ''b'')
      else if c = 12 then put_two bf (CHR ''f'')
      else if c = 10 then put_two bf (CHR ''n'')
      else if c = 13 then put_two bf (CHR ''r'')
      else if c = 9 then put_two bf (CHR ''t'')
      else if c < 32 then
        zbuf_put (zbuf_put (zbuf_strcat bf (92 # cstr ''u00'' @ [0]))
          (json_hex_chars ! unat (drop_bit 4 c))) (json_hex_chars ! unat (c AND 15))
      else zbuf_put bf c)"

definition serialize_string :: "zbuf \<Rightarrow> bytes \<Rightarrow> zbuf" where
  "serialize_string bf s = zbuf_put (foldl serialize_char (zbuf_put bf 34) s) 34"

text \<open>\<open>zmap_first\<close> and \<open>zmap_next\<close> on the entries of an object.\<close>

definition obj_first :: "('k \<times> 'v) list \<Rightarrow> 'k option" where
  "obj_first m = (case m of [] \<Rightarrow> None | e # _ \<Rightarrow> Some (fst e))"

fun obj_next :: "('k \<times> 'v) list \<Rightarrow> 'k \<Rightarrow> 'k option" where
  "obj_next [] k = None"
| "obj_next (e # m) k = (if fst e = k then obj_first m else obj_next m k)"

section \<open>The loop\<close>

type_synonym jframe = "jref \<times> nat \<times> cstring option"

text \<open>One turn: the frame that was popped, the frames below it, the output.\<close>

definition serialize_array :: "jref list \<Rightarrow> jref \<Rightarrow> nat \<Rightarrow> jframe list \<Rightarrow> zbuf \<Rightarrow> jframe list \<times> zbuf" where
  "serialize_array es p idx fr result =
     (if length es = 0 then (fr, zbuf_strcat result (cstr ''[]'' @ [0]))
      else if idx = 0 then ((p, idx + 1, None) # fr, zbuf_put result 91)
      else if idx = length es + 1 then (fr, zbuf_put result 93)
      else ((if idx - 1 < length es then es ! (idx - 1) else 0, 0, None) # (p, idx + 1, None) # fr,
            if idx > 1 \<and> idx < length es + 1 then zbuf_put result 44 else result))"

definition serialize_object ::
  "(cstring \<times> jref) list \<Rightarrow> jref \<Rightarrow> nat \<Rightarrow> cstring option \<Rightarrow> jframe list \<Rightarrow> zbuf \<Rightarrow> jframe list \<times> zbuf" where
  "serialize_object es p idx map_it fr result =
     (if length es = 0 then (fr, zbuf_strcat result (cstr ''{}'' @ [0]))
      else case map_it of
        None \<Rightarrow>
          if idx = 0 then ((p, 1, obj_first es) # fr, zbuf_put result 123)
          else (fr, zbuf_put result 125)
      | Some k \<Rightarrow>
          let r1 = (if map_it \<noteq> obj_first es then zbuf_put result 44 else result);
              r2 = serialize_string r1 (str_bytes k)
          in ((obj_find k es, 0, None) # (p, 1, obj_next es k) # fr, zbuf_put r2 58))"

definition serialize_turn ::
  "'d dfmt \<Rightarrow> 'd jheap \<Rightarrow> jframe \<Rightarrow> jframe list \<Rightarrow> zbuf \<Rightarrow> (jframe list \<times> zbuf) option" where
  "serialize_turn df h f fr result =
     (case f of (p, idx, map_it) \<Rightarrow>
        if p = 0 then Some (fr, zbuf_strcat result (cstr ''null'' @ [0]))
        else do {
          n \<leftarrow> jget h p;
          Some (case jval n of
              VNull \<Rightarrow> (fr, zbuf_strcat result (cstr ''null'' @ [0]))
            | VString s \<Rightarrow> (fr, serialize_string result s)
            | VBool b \<Rightarrow> (fr, zbuf_strcat result (cstr (if b \<noteq> 0 then ''true'' else ''false'') @ [0]))
            | VLong l \<Rightarrow> (fr, zbuf_printf_1024 result (fmt_zd l))
            | VDouble d \<Rightarrow>
                (fr, zbuf_printf_1024 result
                  (if trunc df d > 1000000000000 \<or> trunc df d < - 1000000000000 then fmt_e df d else fmt_lf df d))
            | VArray es \<Rightarrow> serialize_array es p idx fr result
            | VObject es \<Rightarrow> serialize_object es p idx map_it fr result) })"

partial_function (option) serialize_loop :: "'d dfmt \<Rightarrow> 'd jheap \<Rightarrow> jframe list \<Rightarrow> zbuf \<Rightarrow> zbuf option" where
  "serialize_loop df h fr result =
     (case fr of
        [] \<Rightarrow> Some result
      | f # fr1 \<Rightarrow> Option.bind (serialize_turn df h f fr1 result) (\<lambda>(fr2, result2). serialize_loop df h fr2 result2))"

definition zjson_serialize :: "'d dfmt \<Rightarrow> 'd jheap \<Rightarrow> jref \<Rightarrow> zbuf \<Rightarrow> zbuf option" where
  "zjson_serialize df h j result = serialize_loop df h [(j, 0, None)] result"

section \<open>The text of a document\<close>

definition esc :: "byte \<Rightarrow> bytes" where
  "esc c =
     (if c = 92 then [92, 92] else if c = 47 then [92, 47] else if c = 34 then [92, 34]
      else if c = 8 then [92, 98] else if c = 12 then [92, 102] else if c = 10 then [92, 110]
      else if c = 13 then [92, 114] else if c = 9 then [92, 116]
      else if c < 32 then [92, 117, 48, 48, json_hex_chars ! unat (drop_bit 4 c), json_hex_chars ! unat (c AND 15)]
      else [c])"

definition string_text :: "bytes \<Rightarrow> bytes" where
  "string_text s = 34 # concat (map esc s) @ [34]"

text \<open>A list of texts with a comma before each but the first.\<close>

fun seps :: "bool \<Rightarrow> bytes list \<Rightarrow> bytes" where
  "seps first [] = []"
| "seps first (x # xs) = (if first then [] else [44]) @ x @ seps False xs"

definition double_text :: "'d dfmt \<Rightarrow> 'd \<Rightarrow> bytes" where
  "double_text df d =
     take 1023 (if trunc df d > 1000000000000 \<or> trunc df d < - 1000000000000 then fmt_e df d else fmt_lf df d)"

primrec json_text :: "'d dfmt \<Rightarrow> 'd json \<Rightarrow> bytes" where
  "json_text df JNull = cstr ''null''"
| "json_text df (JBool b) = cstr (if b \<noteq> 0 then ''true'' else ''false'')"
| "json_text df (JString s) = string_text s"
| "json_text df (JLong l) = fmt_zd l"
| "json_text df (JDouble d) = double_text df d"
| "json_text df (JObject m) =
     [123] @ seps True (map (\<lambda>e. string_text (str_bytes (fst e)) @ [58] @ snd e) (map (map_prod id (json_text df)) m)) @ [125]"
| "json_text df (JArray ts) = [91] @ seps True (map (json_text df) ts) @ [93]"

text \<open>The keys of an object are in strictly ascending order, as the map keeps them.\<close>

primrec json_wf :: "'d json \<Rightarrow> bool" where
  "json_wf JNull = True"
| "json_wf (JBool b) = True"
| "json_wf (JString s) = True"
| "json_wf (JLong l) = True"
| "json_wf (JDouble d) = True"
| "json_wf (JObject m) = (sorted_wrt (<) (map fst (map (map_prod id json_wf) m)) \<and> list_all snd (map (map_prod id json_wf) m))"
| "json_wf (JArray ts) = list_all id (map json_wf ts)"

lemma json_text_JObject: "json_text df (JObject m) =
    123 # seps True (map (\<lambda>e. string_text (str_bytes (fst e)) @ 58 # json_text df (snd e)) m) @ [125]"
  by (simp add: comp_def)

lemma json_wf_JObject: "json_wf (JObject m) \<longleftrightarrow> sorted_wrt (<) (map fst m) \<and> (\<forall>t \<in> set (map snd m). json_wf t)"
  by (auto simp: list_all_iff)

lemma json_wf_JArray: "json_wf (JArray ts) \<longleftrightarrow> (\<forall>t \<in> set ts. json_wf t)"
  by (simp add: list_all_iff)

declare json_text.simps(6) [simp del] json_wf.simps(6,7) [simp del]

section \<open>The printer writes the text\<close>

lemma appends_put_two: "zbuf_ok bf \<Longrightarrow> appends bf (zbuf_put (zbuf_put bf a) b) [a, b]"
  using appends_puts [of bf "[a, b]"] by simp

lemma appends_serialize_char:
  assumes "zbuf_ok bf"
  shows "appends bf (serialize_char bf c) (esc c)"
proof (cases "c < 32 \<and> c \<notin> {8, 9, 10, 12, 13}")
  case True
  let ?u = "zbuf_strcat bf (92 # cstr ''u00'' @ [0])"
  have u: "appends bf ?u [92, 117, 48, 48]"
    using appends_strcat [OF assms, of "92 # cstr ''u00'' @ [0]"] by (simp add: src_bytes_def cstr_def ch_def)
  from True have "c \<notin> {92, 47, 34}" by auto
  with appends_trans [OF u appends_put_two [OF appends_ok [OF u]]] True show ?thesis
    by (simp add: serialize_char_def esc_def)
next
  case False
  then show ?thesis
    using appends_put_two [OF assms] appends_put [OF assms, of c]
    by (auto simp: serialize_char_def esc_def put_two_def ch_def)
qed

lemma appends_foldl:
  assumes "\<And>b x. zbuf_ok b \<Longrightarrow> appends b (f b x) (g x)" and "zbuf_ok bf"
  shows "appends bf (foldl f bf xs) (concat (map g xs))"
  using assms(2)
proof (induction xs arbitrary: bf)
  case (Cons x xs)
  note step = assms(1) [OF Cons.prems, of x]
  show ?case using appends_trans [OF step Cons.IH [OF appends_ok [OF step]]] by simp
qed (simp add: appends_Nil)

lemma appends_serialize_string:
  assumes "zbuf_ok bf"
  shows "appends bf (serialize_string bf s) (string_text s)"
proof -
  note a = appends_put [OF assms, of 34]
  have b: "appends bf (foldl serialize_char (zbuf_put bf 34) s) ([34] @ concat (map esc s))"
    by (rule appends_trans [OF a]) (rule appends_foldl [OF appends_serialize_char appends_ok [OF a]])
  show ?thesis
    using appends_trans [OF b appends_put [OF appends_ok [OF b], of 34]]
    by (simp add: serialize_string_def string_text_def)
qed

lemma appends_lit: "zbuf_ok bf \<Longrightarrow> 0 \<notin> set s \<Longrightarrow> appends bf (zbuf_strcat bf (s @ [0])) s"
  using appends_strcat [of bf "s @ [0]"] src_bytes_strlen [of s "[]"] by simp

lemma appends_printf: "zbuf_ok bf \<Longrightarrow> appends bf (zbuf_printf_1024 bf s) (take 1023 s)"
  using appends_memcat [of bf "take 1023 s @ [0]" "int (if length s < 1024 then length s else 1024 - 1)"]
  by (auto simp: zbuf_printf_1024_def Let_def)

lemma length_dec_digits: "n < 10 ^ k \<Longrightarrow> 0 < k \<Longrightarrow> length (dec_digits n) \<le> k"
proof (induction k arbitrary: n)
  case (Suc k)
  show ?case
  proof (cases "n < 10")
    case True
    then show ?thesis by (simp add: dec_digits.simps [of n])
  next
    case False
    with Suc.prems(1) have "n div 10 < 10 ^ k" "0 < k"
      by (auto simp: less_mult_imp_div_less mult.commute intro: gr0I)
    with Suc.IH [of "n div 10"] show ?thesis by (subst dec_digits.simps) simp
  qed
qed simp

lemma sint_bounds: "- (2 ^ 63) \<le> sint (l :: 64 word)" "sint (l :: 64 word) < 2 ^ 63"
  using sint_greater_eq [of l] sint_less [of l] by simp_all

lemma length_fmt_zd: "length (fmt_zd l) \<le> 20"
proof -
  have "nat (sint l) < 10 ^ 19" "nat (- sint l) < 10 ^ 19" using sint_bounds [of l] by auto
  then show ?thesis
    using length_dec_digits [of "nat (sint l)" 19] length_dec_digits [of "nat (- sint l)" 19]
    by (auto simp: fmt_zd_def)
qed

lemma take_fmt_zd [simp]: "take 1023 (fmt_zd l) = fmt_zd l"
  using length_fmt_zd [of l] by simp

text \<open>\<open>prints\<close>: the loop prints the node on top and goes on with the frames below.\<close>

definition prints :: "'d dfmt \<Rightarrow> 'd jheap \<Rightarrow> jref \<Rightarrow> bytes \<Rightarrow> bool" where
  "prints df h p txt \<longleftrightarrow> (\<forall>fr out. zbuf_ok out \<longrightarrow>
     (\<exists>out'. serialize_loop df h ((p, 0, None) # fr) out = serialize_loop df h fr out' \<and> appends out out' txt))"

lemma serialize_loop_Cons:
  "serialize_turn df h f fr out = Some (fr2, out2) \<Longrightarrow> serialize_loop df h (f # fr) out = serialize_loop df h fr2 out2"
  by (subst serialize_loop.simps) simp

lemma prints_scalar:
  assumes "\<And>fr out. serialize_turn df h (p, 0, None) fr out = Some (fr, g out)"
    and "\<And>out. zbuf_ok out \<Longrightarrow> appends out (g out) txt"
  shows "prints df h p txt"
  unfolding prints_def using serialize_loop_Cons [OF assms(1)] assms(2) by blast

lemma turn_array:
  "jget h p = Some n \<Longrightarrow> jval n = VArray es \<Longrightarrow> p \<noteq> 0 \<Longrightarrow>
   serialize_turn df h (p, idx, it) fr out = Some (serialize_array es p idx fr out)"
  by (simp add: serialize_turn_def)

lemma turn_object:
  "jget h p = Some n \<Longrightarrow> jval n = VObject es \<Longrightarrow> p \<noteq> 0 \<Longrightarrow>
   serialize_turn df h (p, idx, it) fr out = Some (serialize_object es p idx it fr out)"
  by (simp add: serialize_turn_def)

lemma prints_elements:
  assumes "jget h p = Some n" "jval n = VArray es" "p \<noteq> 0" "list_all2 (prints df h) es txts"
    and "i \<le> length es" "es \<noteq> []" "zbuf_ok out"
  shows "\<exists>out'. serialize_loop df h ((p, i + 1, None) # fr) out = serialize_loop df h fr out'
    \<and> appends out out' (seps (i = 0) (drop i txts) @ [93])"
  using assms(5,7)
proof (induction "length es - i" arbitrary: i out)
  case 0
  then have "i = length es" "length txts = length es" using assms(4) by (auto simp: list_all2_lengthD)
  then have "serialize_loop df h ((p, i + 1, None) # fr) out = serialize_loop df h fr (zbuf_put out 93)"
    using assms(6) by (intro serialize_loop_Cons) (simp add: turn_array [OF assms(1-3)] serialize_array_def)
  with appends_put [OF 0(3), of 93] \<open>i = _\<close> \<open>length txts = _\<close> show ?case by auto
next
  case (Suc k)
  then have i: "i < length es" "length txts = length es" using assms(4) by (auto simp: list_all2_lengthD)
  have k: "k = length es - (i + 1)" using Suc.hyps(2) by linarith
  let ?o1 = "if i > 0 then zbuf_put out 44 else out"
  have o1: "appends out ?o1 (if i = 0 then [] else [44])"
    using appends_put [OF Suc.prems(2), of 44] appends_Nil [OF Suc.prems(2)] by simp
  have "serialize_loop df h ((p, i + 1, None) # fr) out =
      serialize_loop df h ((es ! i, 0, None) # (p, i + 1 + 1, None) # fr) ?o1"
    using assms(6) i by (intro serialize_loop_Cons) (simp add: turn_array [OF assms(1-3)] serialize_array_def)
  moreover have "prints df h (es ! i) (txts ! i)" using assms(4) i by (simp add: list_all2_conv_all_nth)
  then obtain o2 where o2: "serialize_loop df h ((es ! i, 0, None) # (p, i + 1 + 1, None) # fr) ?o1 =
      serialize_loop df h ((p, i + 1 + 1, None) # fr) o2" "appends ?o1 o2 (txts ! i)"
    using appends_ok [OF o1] unfolding prints_def by blast
  moreover obtain o3 where o3: "serialize_loop df h ((p, i + 1 + 1, None) # fr) o2 = serialize_loop df h fr o3"
    "appends o2 o3 (seps (i + 1 = 0) (drop (i + 1) txts) @ [93])"
    using Suc.hyps(1) [OF k _ appends_ok [OF o2(2)]] i by auto
  moreover have "drop i txts = txts ! i # drop (i + 1) txts" using i by (simp add: Cons_nth_drop_Suc)
  ultimately show ?case using appends_trans [OF o1 appends_trans [OF o2(2) o3(2)]] by auto
qed

lemma prints_array:
  assumes "jget h p = Some n" "jval n = VArray es" "p \<noteq> 0" "list_all2 (prints df h) es txts"
  shows "prints df h p (91 # seps True txts @ [93])"
proof (cases "es = []")
  case True
  with assms show ?thesis
    by (intro prints_scalar [where g = "\<lambda>out. zbuf_strcat out (cstr ''[]'' @ [0])"])
       (auto simp: turn_array serialize_array_def cstr_def ch_def dest: appends_lit [of _ "[91, 93]"])
next
  case False
  show ?thesis unfolding prints_def
  proof (intro allI impI)
    fix fr out
    assume ok: "zbuf_ok out"
    note o1 = appends_put [OF ok, of 91]
    have "serialize_loop df h ((p, 0, None) # fr) out = serialize_loop df h ((p, 0 + 1, None) # fr) (zbuf_put out 91)"
      using False by (intro serialize_loop_Cons) (simp add: turn_array [OF assms(1-3)] serialize_array_def)
    moreover obtain o2 where "serialize_loop df h ((p, 0 + 1, None) # fr) (zbuf_put out 91) = serialize_loop df h fr o2"
      "appends (zbuf_put out 91) o2 (seps True txts @ [93])"
      using prints_elements [OF assms _ False appends_ok [OF o1], of 0 fr] by auto
    ultimately show "\<exists>out'. serialize_loop df h ((p, 0, None) # fr) out = serialize_loop df h fr out'
        \<and> appends out out' (91 # seps True txts @ [93])"
      using appends_trans [OF o1] by (metis append_Cons append_Nil)
  qed
qed

lemma obj_at:
  assumes "distinct (map fst (pre @ e # suf))"
  shows "obj_next (pre @ e # suf) (fst e) = obj_first suf" "obj_find (fst e) (pre @ e # suf) = snd e"
    and "obj_first (pre @ e # suf) = Some (fst e) \<longleftrightarrow> pre = []"
  using assms by (induction pre) (auto simp: obj_find_def obj_first_def)

lemma prints_members:
  assumes "jget h p = Some n" "jval n = VObject es" "p \<noteq> 0" "distinct (map fst es)" "es \<noteq> []"
    and "es = pre @ suf" "list_all2 (\<lambda>e txt. prints df h (snd e) txt) suf txts" "zbuf_ok out"
  shows "\<exists>out'. serialize_loop df h ((p, 1, obj_first suf) # fr) out = serialize_loop df h fr out'
    \<and> appends out out' (seps (pre = [])
        (map2 (\<lambda>e txt. string_text (str_bytes (fst e)) @ 58 # txt) suf txts) @ [125])"
  using assms(6-8)
proof (induction suf arbitrary: pre txts out)
  case Nil
  then have "serialize_loop df h ((p, 1, obj_first []) # fr) out = serialize_loop df h fr (zbuf_put out 125)"
    using assms(5) by (intro serialize_loop_Cons) (simp add: turn_object [OF assms(1-3)] serialize_object_def obj_first_def)
  with appends_put [OF Nil(3), of 125] show ?case by auto
next
  case (Cons e suf)
  from Cons.prems(2) obtain x txts' where t: "txts = x # txts'" "prints df h (snd e) x"
    "list_all2 (\<lambda>e txt. prints df h (snd e) txt) suf txts'"
    by (cases txts) auto
  note at = obj_at [OF assms(4) [unfolded Cons.prems(1)], folded Cons.prems(1)]
  let ?o1 = "if pre \<noteq> [] then zbuf_put out 44 else out"
  let ?o2 = "zbuf_put (serialize_string ?o1 (str_bytes (fst e))) 58"
  have o1: "appends out ?o1 (if pre = [] then [] else [44])"
    using appends_put [OF Cons.prems(3), of 44] appends_Nil [OF Cons.prems(3)] by simp
  note o2 = appends_serialize_string [OF appends_ok [OF o1], of "str_bytes (fst e)"]
  note o3 = appends_put [OF appends_ok [OF o2], of 58]
  note pre = appends_trans [OF o1 appends_trans [OF o2 o3]]
  have "serialize_loop df h ((p, 1, obj_first (e # suf)) # fr) out =
      serialize_loop df h ((snd e, 0, None) # (p, 1, obj_first suf) # fr) ?o2"
    using assms(5) at
    by (intro serialize_loop_Cons)
       (auto simp: turn_object [OF assms(1-3)] serialize_object_def obj_first_def [of "e # suf"] Let_def)
  moreover obtain o4 where o4: "serialize_loop df h ((snd e, 0, None) # (p, 1, obj_first suf) # fr) ?o2 =
      serialize_loop df h ((p, 1, obj_first suf) # fr) o4" "appends ?o2 o4 x"
    using t(2) appends_ok [OF o3] unfolding prints_def by blast
  moreover obtain o5 where "serialize_loop df h ((p, 1, obj_first suf) # fr) o4 = serialize_loop df h fr o5"
    "appends o4 o5 (seps False (map2 (\<lambda>e txt. string_text (str_bytes (fst e)) @ 58 # txt) suf txts') @ [125])"
    using Cons.IH [of "pre @ [e]" txts' o4] Cons.prems(1) t(3) appends_ok [OF o4(2)] by auto
  ultimately show ?case using appends_trans [OF pre appends_trans [OF o4(2)]] t(1) by auto
qed

lemma prints_object:
  assumes "jget h p = Some n" "jval n = VObject es" "p \<noteq> 0" "distinct (map fst es)"
    and "list_all2 (\<lambda>e txt. prints df h (snd e) txt) es txts"
  shows "prints df h p (123 # seps True (map2 (\<lambda>e txt. string_text (str_bytes (fst e)) @ 58 # txt) es txts) @ [125])"
proof (cases "es = []")
  case True
  with assms show ?thesis
    by (intro prints_scalar [where g = "\<lambda>out. zbuf_strcat out (cstr ''{}'' @ [0])"])
       (auto simp: turn_object serialize_object_def cstr_def ch_def dest: appends_lit [of _ "[123, 125]"])
next
  case False
  show ?thesis unfolding prints_def
  proof (intro allI impI)
    fix fr out
    assume ok: "zbuf_ok out"
    note o1 = appends_put [OF ok, of 123]
    have "serialize_loop df h ((p, 0, None) # fr) out = serialize_loop df h ((p, 1, obj_first es) # fr) (zbuf_put out 123)"
      using False by (intro serialize_loop_Cons) (simp add: turn_object [OF assms(1-3)] serialize_object_def)
    moreover obtain o2 where "serialize_loop df h ((p, 1, obj_first es) # fr) (zbuf_put out 123) = serialize_loop df h fr o2"
      "appends (zbuf_put out 123) o2
        (seps True (map2 (\<lambda>e txt. string_text (str_bytes (fst e)) @ 58 # txt) es txts) @ [125])"
      using prints_members [OF assms(1-4) False _ assms(5) appends_ok [OF o1], of "[]" fr] by auto
    ultimately show "\<exists>out'. serialize_loop df h ((p, 0, None) # fr) out = serialize_loop df h fr out'
        \<and> appends out out' (123 # seps True (map2 (\<lambda>e txt. string_text (str_bytes (fst e)) @ 58 # txt) es txts) @ [125])"
      using appends_trans [OF o1] by (metis append_Cons append_Nil)
  qed
qed

lemma forest_prints:
  assumes "\<And>t p S. t \<in> set ts \<Longrightarrow> rep t c p S \<Longrightarrow> prints df h p (json_text df t)"
    and "forest (map rep ts) c ps S"
  shows "list_all2 (prints df h) ps (map (json_text df) ts)"
  using assms
proof (induction ts arbitrary: ps S)
  case Nil
  then show ?case by (cases ps) auto
next
  case (Cons t ts)
  then show ?case by (cases ps) auto
qed

lemma distinct_sorted_keys: "sorted_wrt (<) (ks :: 'k::linorder list) \<Longrightarrow> distinct ks"
  by (induction ks) auto

lemma appends_zd: "zbuf_ok bf \<Longrightarrow> appends bf (zbuf_printf_1024 bf (fmt_zd l)) (fmt_zd l)"
  using appends_printf [of bf "fmt_zd l"] by simp

lemma appends_double:
  "zbuf_ok bf \<Longrightarrow> trunc df d > 1000000000000 \<or> trunc df d < - 1000000000000 \<Longrightarrow>
   appends bf (zbuf_printf_1024 bf (fmt_e df d)) (double_text df d)"
  "zbuf_ok bf \<Longrightarrow> \<not> trunc df d > 1000000000000 \<Longrightarrow> \<not> trunc df d < - 1000000000000 \<Longrightarrow>
   appends bf (zbuf_printf_1024 bf (fmt_lf df d)) (double_text df d)"
  using appends_printf by (simp_all add: double_text_def)

lemma no_nul_words: "0 \<notin> set (cstr ''null'')" "0 \<notin> set (cstr ''true'')" "0 \<notin> set (cstr ''false'')"
  by (simp_all add: cstr_def ch_def)

lemmas appends_scalars = appends_zd appends_double appends_serialize_string
  no_nul_words [THEN [2] appends_lit]

lemma map2_fst:
  "map fst es = map fst m \<Longrightarrow> map2 (\<lambda>e x. f (str_bytes (fst e)) @ 58 # x) es (map g m) = map (\<lambda>e. f (str_bytes (fst e)) @ 58 # g e) m"
proof (induction es arbitrary: m)
  case (Cons e es)
  then show ?case by (cases m) auto
qed simp

lemma rep_prints: "rep t (jcells h) p S \<Longrightarrow> json_wf t \<Longrightarrow> prints df h p (json_text df t)"
proof (induction t arbitrary: p S)
  case (JObject m)
  from JObject.prems(1) obtain es S' where es: "jat (jcells h) p = Some (VObject es)" "map fst es = map fst m"
    "forest (map rep (map snd m)) (jcells h) (map snd es) S'"
    by (auto simp: rep_JObject)
  from es(1) obtain n where n: "jget h p = Some n" "jval n = VObject es" "p \<noteq> 0" by (auto dest: jat_SomeD)
  have wf: "sorted_wrt (<) (map fst m)" "\<forall>t \<in> set (map snd m). json_wf t"
    using JObject.prems(2) by (simp_all add: json_wf_JObject)
  have "list_all2 (prints df h) (map snd es) (map (json_text df) (map snd m))"
  proof (rule forest_prints [OF _ es(3)])
    show "prints df h q (json_text df t)" if "t \<in> set (map snd m)" "rep t (jcells h) q T" for t q T
      using that wf(2) by (auto intro: JObject.IH)
  qed
  then have "list_all2 (\<lambda>e txt. prints df h (snd e) txt) es (map (\<lambda>e. json_text df (snd e)) m)"
    by (simp add: list_all2_map1 list.rel_map comp_def)
  from prints_object [OF n _ this] wf(1) es(2)
  have "prints df h p (123 # seps True (map2 (\<lambda>e txt. string_text (str_bytes (fst e)) @ 58 # txt) es
      (map (\<lambda>e. json_text df (snd e)) m)) @ [125])" by (simp add: distinct_sorted_keys)
  moreover have "map2 (\<lambda>e txt. string_text (str_bytes (fst e)) @ 58 # txt) es (map (\<lambda>e. json_text df (snd e)) m)
      = map (\<lambda>e. string_text (str_bytes (fst e)) @ 58 # json_text df (snd e)) m"
    using es(2) by (rule map2_fst)
  ultimately show ?case by (simp add: json_text_JObject)
next
  case (JArray ts)
  from JArray.prems(1) obtain ps S' where ps: "jat (jcells h) p = Some (VArray ps)"
    "forest (map rep ts) (jcells h) ps S'"
    by auto
  from ps(1) obtain n where n: "jget h p = Some n" "jval n = VArray ps" "p \<noteq> 0" by (auto dest: jat_SomeD)
  have "list_all2 (prints df h) ps (map (json_text df) ts)"
    using JArray.IH JArray.prems(2) by (intro forest_prints [OF _ ps(2)]) (auto simp: json_wf_JArray)
  from prints_array [OF n this] show ?case by simp
qed (auto dest!: jat_SomeD intro!: prints_scalar appends_scalars simp: serialize_turn_def)

lemma zjson_serialize_appends:
  assumes "rep t (jcells h) j S" "json_wf t" "zbuf_ok out"
  shows "\<exists>out'. zjson_serialize df h j out = Some out' \<and> appends out out' (json_text df t)"
proof -
  obtain out' where "serialize_loop df h [(j, 0, None)] out = serialize_loop df h [] out'"
    and "appends out out' (json_text df t)"
    using rep_prints [OF assms(1,2), of df] assms(3) unfolding prints_def by blast
  then show ?thesis by (auto simp: zjson_serialize_def serialize_loop.simps [of df h "[]"])
qed

end
