(* ===== verification/JsonParse.thy ===== *)
theory JsonParse
  imports JsonText
begin

text \<open>
  \<open>zjson_unserialize\<close> of \<open>src/json/serialize.c\<close>: a loop with a stack of nodes that are still to be
  filled. The text still to be read, from \<open>ps\<close> to \<open>str_end\<close>, is a list of bytes; the temporary
  buffer \<open>tmpkey\<close> is the list of the bytes put into it. \<open>atof\<close> is a parameter. A jump to \<open>err\<close> is
  \<open>Stop False\<close>; an access to a node that does not exist would be \<open>None\<close>.
\<close>

section \<open>Tokens\<close>

definition blank :: "byte \<Rightarrow> bool" where
  "blank c \<longleftrightarrow> c = 32 \<or> c = 9 \<or> c = 13 \<or> c = 10"

definition ignore_blank :: "bytes \<Rightarrow> bytes" where
  "ignore_blank ps = dropWhile blank ps"

definition ncr_decode :: "nat \<Rightarrow> bytes" where
  "ncr_decode ins =
     (if ins < 128 then [of_nat ins]
      else if ins < 2048 then [of_nat (ins div 64 + 192), of_nat (ins mod 64 + 128)]
      else if ins < 65536 then
        [of_nat (ins div 4096 + 224), of_nat (ins div 64 mod 64 + 128), of_nat (ins mod 64 + 128)]
      else if ins < 2097152 then
        [of_nat (ins div 262144 + 240), of_nat (ins div 4096 mod 64 + 128), of_nat (ins div 64 mod 64 + 128),
         of_nat (ins mod 64 + 128)]
      else [])"

text \<open>The four digits after \<open>\u\<close>. The table has 255, not -1, for a character that is no digit.\<close>

definition uval :: "byte \<Rightarrow> byte \<Rightarrow> byte \<Rightarrow> byte \<Rightarrow> nat" where
  "uval a b c d = ((unat (xdigit a) * 16 + unat (xdigit b)) * 16 + unat (xdigit c)) * 16 + unat (xdigit d)"

definition unescape :: "byte \<Rightarrow> bytes" where
  "unescape ch2 =
     (if ch2 = 92 then [92] else if ch2 = 47 then [47] else if ch2 = 34 then [34] else if ch2 = 39 then [39]
      else if ch2 = 98 then [8] else if ch2 = 102 then [12] else if ch2 = 114 then [13]
      else if ch2 = 110 then [10] else if ch2 = 116 then [9] else [92, ch2])"

fun fetch_loop :: "byte \<Rightarrow> bytes \<Rightarrow> bytes \<Rightarrow> bytes \<times> bytes" where
  "fetch_loop q [] str = (str, [])"
| "fetch_loop q (c # ps) str =
     (if c = 34 then (if q = 34 then (str, ps) else fetch_loop q ps (str @ [c]))
      else if c = 39 then (if q = 39 then (str, ps) else fetch_loop q ps (str @ [c]))
      else case ps of
        [] \<Rightarrow> (str, [])
      | ch2 # ps2 \<Rightarrow>
          if c = 92 then
            (if ch2 = 117 then
               (case ps2 of
                  a # b # d # e # ps3 \<Rightarrow> fetch_loop q ps3 (str @ ncr_decode (uval a b d e))
                | _ \<Rightarrow> (str, ps2))
             else fetch_loop q ps2 (str @ unescape ch2))
          else fetch_loop q ps (str @ [c]))"

definition fetch_string :: "bytes \<Rightarrow> bytes \<times> bytes" where
  "fetch_string ps = fetch_loop (hd ps) (tl ps) []"

definition fetch_string2 :: "bytes \<Rightarrow> bytes \<times> bytes" where
  "fetch_string2 ps =
     (let stop = (\<lambda>c. c = 13 \<or> c = 10 \<or> c = 32 \<or> c = 9 \<or> c = 58)
      in (takeWhile (\<lambda>c. \<not> stop c) ps, dropWhile (\<lambda>c. \<not> stop c) ps))"

definition isdigit :: "byte \<Rightarrow> bool" where
  "isdigit c \<longleftrightarrow> 48 \<le> c \<and> c \<le> 57"

definition isalpha :: "byte \<Rightarrow> bool" where
  "isalpha c \<longleftrightarrow> 65 \<le> c \<and> c \<le> 90 \<or> 97 \<le> c \<and> c \<le> 122"

definition number_char :: "byte \<Rightarrow> bool" where
  "number_char c \<longleftrightarrow> c \<in> {45, 43, 46, 69, 101} \<or> isdigit c"

text \<open>\<open>atol\<close>: leading blanks, a sign, the digits, saturating as \<open>strtol\<close> does.\<close>

definition isspace :: "byte \<Rightarrow> bool" where
  "isspace c \<longleftrightarrow> c = 32 \<or> 9 \<le> c \<and> c \<le> 13"

fun digits_val :: "bytes \<Rightarrow> int \<Rightarrow> int" where
  "digits_val [] v = v"
| "digits_val (c # s) v = (if isdigit c then digits_val s (v * 10 + uint (c - 48)) else v)"

definition atol :: "bytes \<Rightarrow> 64 word" where
  "atol s =
     (let s1 = dropWhile isspace s;
          neg = (case s1 of c # _ \<Rightarrow> c = 45 | [] \<Rightarrow> False);
          s2 = (case s1 of c # r \<Rightarrow> if c = 45 \<or> c = 43 then r else s1 | [] \<Rightarrow> []);
          v = (if neg then - digits_val s2 0 else digits_val s2 0)
      in word_of_int (max (- (2 ^ 63)) (min (2 ^ 63 - 1) v)))"

section \<open>One turn of the loop\<close>

datatype 'd outcome = Next "'d jheap" bytes "jref list" | Stop bool "'d jheap"

lemma ignore_blank_length: "ignore_blank ps = c # r \<Longrightarrow> length r < length ps"
  unfolding ignore_blank_def by (metis Suc_le_lessD length_Cons length_dropWhile_le)

text \<open>The commas before a member or an element, with their number; \<open>None\<close> at the end of the text.\<close>

function skip_commas :: "bytes \<Rightarrow> nat \<Rightarrow> (byte \<times> bytes \<times> nat) option" where
  "skip_commas ps n =
     (case ignore_blank ps of
        [] \<Rightarrow> None
      | c # r \<Rightarrow> if c \<noteq> 44 then Some (c, r, n) else skip_commas r (n + 1))"
  by pat_completeness auto
termination skip_commas
  by (relation "measure (\<lambda>(ps, _). length ps)") (auto dest: ignore_blank_length)

declare skip_commas.simps [simp del]

definition object_turn ::
  "'d jheap \<Rightarrow> bytes \<Rightarrow> jref \<Rightarrow> jref list \<Rightarrow> (cstring \<times> jref) list \<Rightarrow> 'd outcome option" where
  "object_turn h ps cur st es =
     (case skip_commas ps 0 of
        None \<Rightarrow> Some (Stop False h)
      | Some (c, r, comma_count) \<Rightarrow>
          if c = 125 then Some (Next h r st)
          else if length es > 0 \<and> comma_count = 0 then Some (Stop False h)
          else (let (key, ps2) = (if c = 34 \<or> c = 39 then fetch_string (c # r) else fetch_string2 (c # r));
                    (h1, new_json) = zjson_create h
                in do {
                  (h2, old_json) \<leftarrow> zjson_object_update h1 cur (cs key) new_json True;
                  (case old_json of
                     Some (Suc old) \<Rightarrow> do { h3 \<leftarrow> zjson_free h2 (Suc old); Some (Stop False h3) }
                   | _ \<Rightarrow>
                       (case ignore_blank ps2 of
                          [] \<Rightarrow> Some (Stop False h2)
                        | d # ps3 \<Rightarrow>
                            if d \<noteq> 58 then Some (Stop False h2)
                            else Some (Next h2 ps3 (new_json # cur # st)))) }))"

fun push_nulls :: "'d jheap \<Rightarrow> jref \<Rightarrow> nat \<Rightarrow> 'd jheap option" where
  "push_nulls h cur 0 = Some h"
| "push_nulls h cur (Suc n) =
     (let (h1, new_json) = zjson_create h in do { h2 \<leftarrow> zjson_array_push h1 cur new_json; push_nulls h2 cur n })"

definition array_turn :: "'d jheap \<Rightarrow> bytes \<Rightarrow> jref \<Rightarrow> jref list \<Rightarrow> 'd outcome option" where
  "array_turn h ps cur st =
     (case skip_commas ps 0 of
        None \<Rightarrow> Some (Stop False h)
      | Some (c, r, comma_count) \<Rightarrow>
          if c = 93 then do { h1 \<leftarrow> push_nulls h cur comma_count; Some (Next h1 r st) }
          else do {
            h1 \<leftarrow> push_nulls h cur (comma_count - 1);
            (h2, n) \<leftarrow> zjson_array_get_len h1 cur;
            (if n > 0 \<and> comma_count < 1 then Some (Stop False h2)
             else let (h3, new_json) = zjson_create h2 in do {
               h4 \<leftarrow> zjson_array_push h3 cur new_json;
               Some (Next h4 (c # r) (new_json # cur # st)) }) })"

definition number_turn :: "(bytes \<Rightarrow> 'd::zero) \<Rightarrow> 'd jheap \<Rightarrow> bytes \<Rightarrow> jref \<Rightarrow> jref list \<Rightarrow> 'd outcome option" where
  "number_turn atof h ps cur st =
     (let tmpkey = takeWhile number_char ps;
          r = dropWhile number_char ps
      in if 46 \<in> set tmpkey \<or> 101 \<in> set tmpkey \<or> 69 \<in> set tmpkey
         then do { h1 \<leftarrow> zjson_get_double_value h cur; h2 \<leftarrow> jput h1 cur (VDouble (atof tmpkey)); Some (Next h2 r st) }
         else do { h1 \<leftarrow> zjson_get_long_value h cur; h2 \<leftarrow> jput h1 cur (VLong (atol tmpkey)); Some (Next h2 r st) })"

definition word_turn :: "'d jheap \<Rightarrow> bytes \<Rightarrow> jref \<Rightarrow> jref list \<Rightarrow> 'd outcome option" where
  "word_turn h ps cur st =
     (let tmpkey = map tolower (takeWhile isalpha ps);
          r = dropWhile isalpha ps
      in if length tmpkey > 10 then Some (Stop False h)
         else if tmpkey = cstr ''null'' \<or> tmpkey = cstr ''undefined'' then do { h1 \<leftarrow> zjson_reset h cur; Some (Next h1 r st) }
         else if tmpkey = cstr ''true'' then
           do { h1 \<leftarrow> zjson_get_bool_value h cur; h2 \<leftarrow> jput h1 cur (VBool 1); Some (Next h2 r st) }
         else if tmpkey = cstr ''false'' then
           do { h1 \<leftarrow> zjson_get_bool_value h cur; h2 \<leftarrow> jput h1 cur (VBool 0); Some (Next h2 r st) }
         else Some (Stop False h))"

definition string_turn :: "'d jheap \<Rightarrow> bytes \<Rightarrow> jref \<Rightarrow> jref list \<Rightarrow> 'd jval \<Rightarrow> 'd outcome option" where
  "string_turn h ps cur st v =
     (let (tmpkey, r) = fetch_string ps
      in if \<not> is_string v \<and> (case v of VNull \<Rightarrow> False | _ \<Rightarrow> True) then Some (Stop False h)
         else do { h1 \<leftarrow> zjson_get_string_value h cur; h2 \<leftarrow> jput h1 cur (VString tmpkey); Some (Next h2 r st) })"

definition unserialize_turn :: "(bytes \<Rightarrow> 'd::zero) \<Rightarrow> 'd jheap \<Rightarrow> bytes \<Rightarrow> jref list \<Rightarrow> 'd outcome option" where
  "unserialize_turn atof h ps st =
     (case ignore_blank ps of
        [] \<Rightarrow> Some (Stop True h)
      | c # r \<Rightarrow>
          (case st of
             [] \<Rightarrow> Some (Stop True h)
           | cur # st' \<Rightarrow> do {
               n \<leftarrow> jget h cur;
               (case jval n of
                  VObject es \<Rightarrow> object_turn h (c # r) cur st' es
                | VArray es \<Rightarrow> array_turn h (c # r) cur st'
                | v \<Rightarrow>
                    if c = 123 then do { (h1, _) \<leftarrow> zjson_get_object_value h cur; Some (Next h1 r (cur # st')) }
                    else if c = 91 then do { (h1, _) \<leftarrow> zjson_get_array_value h cur; Some (Next h1 r (cur # st')) }
                    else if c = 34 \<or> c = 39 then string_turn h (c # r) cur st' v
                    else if c = 45 \<or> isdigit c then number_turn atof h (c # r) cur st'
                    else word_turn h (c # r) cur st') }))"

partial_function (option) unserialize_loop ::
  "(bytes \<Rightarrow> 'd::zero) \<Rightarrow> 'd jheap \<Rightarrow> bytes \<Rightarrow> jref list \<Rightarrow> ('d jheap \<times> bool) option" where
  "unserialize_loop atof h ps st =
     (if ps = [] then Some (h, True)
      else Option.bind (unserialize_turn atof h ps st) (\<lambda>out.
        case out of
          Next h1 ps1 st1 \<Rightarrow> unserialize_loop atof h1 ps1 st1
        | Stop ret h1 \<Rightarrow> Some (h1, ret)))"

definition zjson_unserialize :: "(bytes \<Rightarrow> 'd::zero) \<Rightarrow> 'd jheap \<Rightarrow> jref \<Rightarrow> bytes \<Rightarrow> int \<Rightarrow> ('d jheap \<times> bool) option" where
  "zjson_unserialize atof h j jstr jlen = do {
     h1 \<leftarrow> zjson_reset h j;
     (h2, ret) \<leftarrow> unserialize_loop atof h1 (src_bytes jstr jlen) [j];
     h3 \<leftarrow> (if \<not> ret then zjson_reset h2 j else Some h2);
     Some (h3, ret) }"

end
