(* ===== verification/JsonRound.thy ===== *)
theory JsonRound
  imports JsonParse
begin

text \<open>
  The parser reads back what the printer wrote: first the tokens (escaped strings, numbers, words),
  then whole documents, by induction on the tree.
\<close>

section \<open>Tokens\<close>

lemma json_hex_digits: "map ((!) zchar_xdigitval_vector) (map unat json_hex_chars) = map of_nat [0..<16]"
  by (simp add: zchar_xdigitval_vector_def json_hex_chars_def cstr_def ch_def upt_rec)

lemma length_json_hex_chars [simp]: "length json_hex_chars = 16"
  by (simp add: json_hex_chars_def cstr_def)

lemma xdigit_json_hex:
  assumes "n < 16"
  shows "xdigit (json_hex_chars ! n) = of_nat n"
proof -
  have "map ((!) zchar_xdigitval_vector) (map unat json_hex_chars) ! n = map of_nat [0..<16] ! n"
    by (simp only: json_hex_digits)
  with assms show ?thesis by (simp add: xdigit_def)
qed

lemma xdigit_zero: "xdigit 48 = 0"
  by code_simp

lemma uval_esc: "uval 48 48 (json_hex_chars ! unat (drop_bit 4 c)) (json_hex_chars ! unat (c AND 15)) = unat c"
  for c :: byte
proof -
  have "unat (drop_bit 4 c) * 16 + unat (c AND 15) = unat c"
    by (simp add: drop_bit_eq_div low_nibble unat_div unat_mod)
  then show ?thesis
    using nibble_bounds [of c] by (simp add: uval_def xdigit_json_hex xdigit_zero)
qed

lemma fetch_esc:
  assumes "t \<noteq> []"
  shows "fetch_loop 34 (esc c @ t) str = fetch_loop 34 t (str @ [c])"
proof (cases "c < 32 \<and> c \<notin> {8, 9, 10, 12, 13}")
  case True
  then have "unat c < 128" by (simp add: word_less_nat_alt)
  with True show ?thesis by (auto simp: esc_def uval_esc ncr_decode_def)
next
  case False
  obtain t1 t2 where "t = t1 # t2" using assms by (cases t) auto
  with False show ?thesis by (auto simp: esc_def unescape_def)
qed

lemma fetch_string_text: "fetch_loop 34 (concat (map esc s) @ 34 # rest) str = (str @ s, rest)"
  by (induction s arbitrary: str) (simp_all add: fetch_esc)

lemma fetch_string_text': "fetch_string (string_text s @ rest) = (s, rest)"
  using fetch_string_text [of s rest "[]"] by (simp add: fetch_string_def string_text_def)

lemma digit_val: "n < 10 \<Longrightarrow> uint (of_nat n :: byte) = int n"
  by (simp add: uint_nat unat_of_nat)

lemma digit_char: "n < 10 \<Longrightarrow> isdigit (48 + of_nat n)"
proof -
  assume "n < 10"
  then have "unat (48 + of_nat n :: byte) = 48 + n" by (simp add: unat_word_ariths unat_of_nat)
  then show "isdigit (48 + of_nat n)" using \<open>n < 10\<close> by (simp add: isdigit_def word_le_nat_alt)
qed

lemma dec_digits_isdigit: "c \<in> set (dec_digits n) \<Longrightarrow> isdigit c"
proof (induction n rule: dec_digits.induct)
  case (1 n)
  then show ?case
    by (subst (asm) (2) dec_digits.simps) (auto simp: digit_char split: if_splits)
qed

lemma digits_val_append: "\<forall>c \<in> set xs. isdigit c \<Longrightarrow> digits_val (xs @ ys) v = digits_val ys (digits_val xs v)"
  by (induction xs arbitrary: v) auto

lemma digits_val_dec: "digits_val (dec_digits n) 0 = int n"
proof (induction n rule: dec_digits.induct)
  case (1 n)
  show ?case
  proof (cases "n < 10")
    case True
    then show ?thesis by (subst dec_digits.simps) (simp add: digit_char digit_val)
  next
    case False
    have "int (n div 10) * 10 + int (n mod 10) = int n"
      by (metis div_mult_mod_eq of_nat_add of_nat_mult of_nat_numeral)
    with 1 False dec_digits_isdigit show ?thesis
      by (subst dec_digits.simps) (simp add: digits_val_append digit_char digit_val)
  qed
qed

lemma dec_digits_hd: "\<exists>c r. dec_digits n = c # r \<and> isdigit c"
proof -
  have "dec_digits n \<noteq> []" by (subst dec_digits.simps) simp
  then show ?thesis using dec_digits_isdigit by (metis list.exhaust list.set_intros(1))
qed

lemma isdigit_facts: "isdigit c \<Longrightarrow> c \<noteq> 45 \<and> c \<noteq> 43 \<and> c \<noteq> 46 \<and> c \<noteq> 101 \<and> c \<noteq> 69 \<and> \<not> isspace c \<and> \<not> blank c
    \<and> c \<notin> {123, 91, 34, 39, 44, 93, 125, 58}"
  by (auto simp: isdigit_def isspace_def blank_def word_le_nat_alt)

lemma atol_fmt_zd: "atol (fmt_zd l) = l"
proof -
  obtain c r where d: "dec_digits (nat (sint l)) = c # r" "isdigit c" using dec_digits_hd by blast
  have "dropWhile isspace (fmt_zd l) = fmt_zd l"
    using isdigit_facts [OF d(2)] d(1) by (auto simp: fmt_zd_def isspace_def ch_def)
  moreover have "max (- (2 ^ 63)) (min (2 ^ 63 - 1) (sint l)) = sint l" using sint_bounds [of l] by simp
  ultimately show ?thesis
    using isdigit_facts [OF d(2)] d(1) digits_val_dec [of "nat (sint l)"] digits_val_dec [of "nat (- sint l)"]
    by (auto simp: atol_def Let_def fmt_zd_def ch_def)
qed

section \<open>Documents\<close>

text \<open>What may follow a value: the end, a comma or a closing bracket.\<close>

definition closes :: "bytes \<Rightarrow> bool" where
  "closes rest \<longleftrightarrow> (case rest of [] \<Rightarrow> True | c # _ \<Rightarrow> c \<in> {44, 93, 125})"

text \<open>What \<open>printf\<close> and \<open>atof\<close> have to do for a double that is to be read back: its text is a number
  with a point or an exponent, and \<open>atof\<close> gives the double again.\<close>

definition double_ok :: "'d dfmt \<Rightarrow> (bytes \<Rightarrow> 'd) \<Rightarrow> 'd \<Rightarrow> bool" where
  "double_ok df atof d \<longleftrightarrow> (let s = double_text df d in
     s \<noteq> [] \<and> (hd s = 45 \<or> isdigit (hd s)) \<and> list_all number_char s \<and> (46 \<in> set s \<or> 101 \<in> set s \<or> 69 \<in> set s)
     \<and> atof s = d)"

text \<open>Documents that can be read back: booleans are 0 or 1, keys are in order, doubles are printed
  exactly.\<close>

primrec readable :: "'d dfmt \<Rightarrow> (bytes \<Rightarrow> 'd) \<Rightarrow> 'd json \<Rightarrow> bool" where
  "readable df atof JNull = True"
| "readable df atof (JBool b) = (b = 0 \<or> b = 1)"
| "readable df atof (JString s) = True"
| "readable df atof (JLong l) = True"
| "readable df atof (JDouble d) = double_ok df atof d"
| "readable df atof (JObject m) =
     (sorted_wrt (<) (map fst (map (map_prod id (readable df atof)) m))
      \<and> list_all snd (map (map_prod id (readable df atof)) m))"
| "readable df atof (JArray ts) = list_all id (map (readable df atof) ts)"

lemma readable_JObject:
  "readable df atof (JObject m) \<longleftrightarrow> sorted_wrt (<) (map fst m) \<and> (\<forall>t \<in> set (map snd m). readable df atof t)"
  by (auto simp: list_all_iff)

lemma readable_JArray: "readable df atof (JArray ts) \<longleftrightarrow> (\<forall>t \<in> set ts. readable df atof t)"
  by (simp add: list_all_iff)

declare readable.simps(6,7) [simp del]

text \<open>No text of a value starts with a blank, a comma or a closing bracket.\<close>

definition opens :: "bytes \<Rightarrow> bool" where
  "opens s \<longleftrightarrow> (case s of [] \<Rightarrow> False | c # _ \<Rightarrow> \<not> blank c \<and> c \<notin> {44, 93, 125})"

lemma opens_append: "opens s \<Longrightarrow> opens (s @ t)"
  by (cases s) (auto simp: opens_def)

lemma json_text_opens: "readable df atof t \<Longrightarrow> opens (json_text df t)"
proof (cases t)
  case (JLong l)
  obtain c r where "dec_digits (nat (sint l)) = c # r" "isdigit c" using dec_digits_hd by blast
  with JLong isdigit_facts [of c] show ?thesis by (auto simp: opens_def fmt_zd_def ch_def blank_def)
next
  case (JDouble d)
  assume "readable df atof t"
  with JDouble show ?thesis
    using isdigit_facts [of "hd (double_text df d)"]
    by (cases "double_text df d") (auto simp: opens_def double_ok_def Let_def blank_def)
qed (auto simp: opens_def cstr_def ch_def blank_def string_text_def json_text_JObject)

lemma ignore_opens: "opens s \<Longrightarrow> ignore_blank s = s"
  by (cases s) (auto simp: opens_def ignore_blank_def)

lemma skip_opens: "opens s \<Longrightarrow> \<exists>c r. s = c # r \<and> skip_commas s n = Some (c, r, n) \<and> c \<notin> {44, 93, 125}"
  by (cases s) (auto simp: opens_def skip_commas.simps [of "_ # _"] ignore_blank_def)

lemma skip_comma: "skip_commas (44 # s) n = skip_commas s (Suc n)"
  by (subst skip_commas.simps) (simp add: ignore_blank_def blank_def)

lemma skip_close: "c \<in> {93, 125} \<Longrightarrow> skip_commas (c # s) n = Some (c, s, n)"
  by (subst skip_commas.simps) (auto simp: ignore_blank_def blank_def)

section \<open>Filling nodes\<close>

text \<open>The node \<open>p\<close> with a new value, and with a new null node in addition.\<close>

abbreviation jfill :: "'d jheap \<Rightarrow> jref \<Rightarrow> 'd jval \<Rightarrow> 'd jheap" where
  "jfill h p v \<equiv> jbare h p v {}"

definition jadd :: "'d jheap \<Rightarrow> jref \<Rightarrow> 'd jval \<Rightarrow> 'd jheap" where
  "jadd h p v = (jfill h p v)\<lparr>jcells := (jcells (jfill h p v))(jfree h \<mapsto> \<lparr>jval = VNull, jparent = p\<rparr>),
     jfree := jfree h + 1\<rparr>"

lemma jfill_cells: "jcells (jfill h p v) = (jcells h)(p := map_option (\<lambda>n. n\<lparr>jval := v\<rparr>) (jcells h p))"
  "jfree (jfill h p v) = jfree h"
  by (simp_all add: jbare_def)

lemma jat_jfill: "jat (jcells (jfill h p v)) q = (if q = p \<and> jat (jcells h) p \<noteq> None then Some v else jat (jcells h) q)"
  by (auto simp: jat_def jfill_cells option.map_comp comp_def split: option.splits)

lemma jput_jat: "jat (jcells h) p = Some w \<Longrightarrow> jput h p v = Some (jfill h p v)"
  by (auto simp: jput_def jget_def jat_def jbare_def split: if_splits)

lemma jfill_jfill: "jfill (jfill h p v) p w = jfill h p w"
  by (simp add: jbare_def option.map_comp comp_def)

lemma reset_null: "jat (jcells h) p = Some VNull \<Longrightarrow> zjson_reset h p = Some h"
proof -
  assume a: "jat (jcells h) p = Some VNull"
  then obtain n where "jget h p = Some n" "jval n = VNull" by (auto dest: jat_SomeD)
  with zjson_reset_rep [of JNull h p "{p}"] a show ?thesis by (simp add: jreset_def jbare_empty)
qed

lemma jas_null:
  assumes "jat (jcells h) p = Some VNull" "\<not> k VNull"
  shows "jas k d h p = Some (jfill h p d)"
proof -
  from assms(1) obtain n where "jget h p = Some n" "jval n = VNull" by (auto dest: jat_SomeD)
  with assms(2) reset_null [OF assms(1)] jput_jat [OF assms(1), of d] show ?thesis by (simp add: jas_def)
qed

lemma jas_same:
  assumes "jat (jcells h) p = Some v" "k v" "v \<noteq> VNull"
  shows "jas k d h p = Some h"
proof -
  from assms(1) obtain n where "jget h p = Some n" "jval n = v" by (auto dest: jat_SomeD)
  with assms(2,3) show ?thesis by (simp add: jas_def split: jval.splits)
qed

lemma get_array_same: "jat (jcells h) p = Some (VArray es) \<Longrightarrow> zjson_get_array_value h p = Some (h, es)"
  using jas_same [of h p "VArray es" is_array "VArray []"]
  by (auto simp: zjson_get_array_value_def is_array_def dest: jat_SomeD)

lemma get_object_same: "jat (jcells h) p = Some (VObject es) \<Longrightarrow> zjson_get_object_value h p = Some (h, es)"
  using jas_same [of h p "VObject es" is_object "VObject []"]
  by (auto simp: zjson_get_object_value_def is_object_def dest: jat_SomeD)

lemma get_array_null:
  "jat (jcells h) p = Some VNull \<Longrightarrow> zjson_get_array_value h p = Some (jfill h p (VArray []), [])"
  using jas_null [of h p is_array "VArray []"] jat_jfill [of h p "VArray []" p]
  by (auto simp: zjson_get_array_value_def is_array_def dest: jat_SomeD)

lemma get_object_null:
  "jat (jcells h) p = Some VNull \<Longrightarrow> zjson_get_object_value h p = Some (jfill h p (VObject []), [])"
  using jas_null [of h p is_object "VObject []"] jat_jfill [of h p "VObject []" p]
  by (auto simp: zjson_get_object_value_def is_object_def dest: jat_SomeD)

text \<open>A new element: allocated, its parent set, and linked.\<close>

definition jnew :: "'d jheap \<Rightarrow> jref \<Rightarrow> 'd jheap" where
  "jnew h p = h\<lparr>jcells := (jcells h)(jfree h \<mapsto> \<lparr>jval = VNull, jparent = p\<rparr>), jfree := jfree h + 1\<rparr>"

lemma create_parent:
  "0 < jfree h \<Longrightarrow> jset_parent (fst (zjson_create h)) (jfree h) p = Some (jnew h p)"
  by (simp add: zjson_create_def jalloc_def jset_parent_def jget_def jnew_def)

lemma jat_jnew: "q \<noteq> jfree h \<Longrightarrow> jat (jcells (jnew h p)) q = jat (jcells h) q"
  "0 < jfree h \<Longrightarrow> jat (jcells (jnew h p)) (jfree h) = Some VNull"
  by (simp_all add: jat_def jnew_def)

lemma jfill_jnew: "p < jfree h \<Longrightarrow> jfill (jnew h p) p v = jadd h p v"
  unfolding jadd_def jnew_def jbare_def by (intro jheap.equality) (auto simp: fun_upd_twist)

lemma push_new:
  assumes "jat (jcells h) p = Some (VArray es)" "p < jfree h"
  shows "zjson_array_push (fst (zjson_create h)) p (jfree h) = Some (jadd h p (VArray (es @ [jfree h])))"
proof -
  have "jat (jcells (jnew h p)) p = Some (VArray es)" using assms by (simp add: jat_jnew)
  then show ?thesis using assms(2) get_array_same [of "jnew h p" p es] jput_jat [of "jnew h p" p]
    by (simp add: zjson_array_push_def create_parent jfill_jnew)
qed

lemma update_new:
  assumes "jat (jcells h) p = Some (VObject es)" "p < jfree h" "k \<notin> set (map fst es)"
  shows "zjson_object_update (fst (zjson_create h)) p k (jfree h) True =
    Some (jadd h p (VObject (obj_put k (jfree h) es)), Some 0)"
proof -
  have "jat (jcells (jnew h p)) p = Some (VObject es)" using assms by (simp add: jat_jnew)
  moreover have "obj_find k es = 0" using assms(3) by (simp add: obj_find_def map_of_eq_None_iff [THEN iffD2])
  ultimately show ?thesis using assms(2) get_object_same [of "jnew h p" p es] jput_jat [of "jnew h p" p]
    by (simp add: zjson_object_update_def create_parent jfill_jnew hand_out_def)
qed

lemma jadd_facts:
  assumes "p < jfree h" "jat (jcells h) p = Some w"
  shows "jfree (jadd h p v) = jfree h + 1" "jat (jcells (jadd h p v)) p = Some v"
    and "jat (jcells (jadd h p v)) (jfree h) = Some VNull"
    and "q \<noteq> p \<Longrightarrow> q \<noteq> jfree h \<Longrightarrow> jcells (jadd h p v) q = jcells h q"
  using assms by (auto simp: jadd_def jbare_def jat_def split: if_splits)

lemma obj_put_last: "\<forall>k' \<in> set (map fst es). k' < k \<Longrightarrow> obj_put k v es = es @ [(k, v)]"
  by (induction es) (auto dest: less_imp_not_less)

section \<open>Reading documents\<close>

lemma loop_Next:
  "ps \<noteq> [] \<Longrightarrow> unserialize_turn atof h ps st = Some (Next h1 ps1 st1) \<Longrightarrow>
   unserialize_loop atof h ps st = unserialize_loop atof h1 ps1 st1"
  by (subst unserialize_loop.simps) simp

text \<open>\<open>grows\<close>: the nodes of \<open>S\<close> are \<open>p\<close> and new ones, and no other old node has changed.\<close>

definition grows :: "'d jheap \<Rightarrow> 'd jheap \<Rightarrow> jref \<Rightarrow> jref set \<Rightarrow> bool" where
  "grows h h' p S \<longleftrightarrow> S \<subseteq> insert p {jfree h..<jfree h'} \<and> jfree h \<le> jfree h'
     \<and> (\<forall>q < jfree h. q \<noteq> p \<longrightarrow> jcells h' q = jcells h q)"

definition reads :: "'d dfmt \<Rightarrow> (bytes \<Rightarrow> 'd::zero) \<Rightarrow> 'd json \<Rightarrow> bool" where
  "reads df atof t \<longleftrightarrow> (\<forall>h p st rest. jat (jcells h) p = Some VNull \<longrightarrow> p < jfree h \<longrightarrow> closes rest \<longrightarrow>
     (\<exists>h' S. unserialize_loop atof h (json_text df t @ rest) (p # st) = unserialize_loop atof h' rest st
       \<and> rep t (jcells h') p S \<and> grows h h' p S))"

lemma turn_null:
  assumes "jat (jcells h) p = Some VNull" "\<not> blank c"
  shows "unserialize_turn atof h (c # r) (p # st) =
    (if c = 123 then Some (Next (jfill h p (VObject [])) r (p # st))
     else if c = 91 then Some (Next (jfill h p (VArray [])) r (p # st))
     else if c = 34 \<or> c = 39 then string_turn h (c # r) p st VNull
     else if c = 45 \<or> isdigit c then number_turn atof h (c # r) p st
     else word_turn h (c # r) p st)"
proof -
  from assms(1) obtain n where "jget h p = Some n" "jval n = VNull" by (auto dest: jat_SomeD)
  then show ?thesis using assms
    by (simp add: unserialize_turn_def ignore_blank_def get_object_null get_array_null)
qed

lemma turn_container:
  assumes "\<not> blank c"
  shows "jat (jcells h) p = Some (VArray es) \<Longrightarrow> unserialize_turn atof h (c # r) (p # st) = array_turn h (c # r) p st"
    and "jat (jcells h) p = Some (VObject m) \<Longrightarrow> unserialize_turn atof h (c # r) (p # st) = object_turn h (c # r) p st m"
  using assms by (auto simp: unserialize_turn_def ignore_blank_def dest!: jat_SomeD)

text \<open>A scalar is one turn that fills the node.\<close>

lemma reads_scalar:
  assumes "\<And>h p st rest. jat (jcells h) p = Some VNull \<Longrightarrow> closes rest \<Longrightarrow>
      unserialize_turn atof h (json_text df t @ rest) (p # st) = Some (Next (jfill h p v) rest st)"
    and "json_text df t \<noteq> []" "\<And>c p. jat c p = Some v \<Longrightarrow> rep t c p {p}"
  shows "reads df atof t"
  unfolding reads_def
proof (intro allI impI)
  fix h :: "'a jheap" and p st rest
  assume a: "jat (jcells h) p = Some VNull" "p < jfree h" "closes rest"
  have "unserialize_loop atof h (json_text df t @ rest) (p # st) = unserialize_loop atof (jfill h p v) rest st"
    using assms(1) [OF a(1,3)] assms(2) by (intro loop_Next) simp_all
  moreover have "rep t (jcells (jfill h p v)) p {p}" using a(1) by (intro assms(3)) (simp add: jat_jfill)
  moreover have "grows h (jfill h p v) p {p}" by (simp add: grows_def jfill_cells)
  ultimately show "\<exists>h' S. unserialize_loop atof h (json_text df t @ rest) (p # st) = unserialize_loop atof h' rest st
       \<and> rep t (jcells h') p S \<and> grows h h' p S" by blast
qed

lemma jfill_null: "jat (jcells h) p = Some VNull \<Longrightarrow> jfill h p VNull = h"
  using jbare_empty by (fastforce dest!: jat_SomeD)

lemma closes_stop:
  "closes rest \<Longrightarrow> takeWhile isalpha rest = [] \<and> dropWhile isalpha rest = rest"
  "closes rest \<Longrightarrow> takeWhile number_char rest = [] \<and> dropWhile number_char rest = rest"
  by (auto simp: closes_def isalpha_def number_char_def isdigit_def word_le_nat_alt split: list.splits)

lemma word_token:
  assumes "\<forall>c \<in> set w. isalpha c" "closes rest"
  shows "takeWhile isalpha (w @ rest) = w" "dropWhile isalpha (w @ rest) = rest"
  using assms closes_stop(1) [OF assms(2)] by (simp_all add: takeWhile_append dropWhile_append)

lemma number_token:
  assumes "\<forall>c \<in> set w. number_char c" "closes rest"
  shows "takeWhile number_char (w @ rest) = w" "dropWhile number_char (w @ rest) = rest"
  using assms closes_stop(2) [OF assms(2)] by (simp_all add: takeWhile_append dropWhile_append)

lemma json_words:
  "\<forall>c \<in> set (cstr ''null''). isalpha c" "\<forall>c \<in> set (cstr ''true''). isalpha c"
  "\<forall>c \<in> set (cstr ''false''). isalpha c"
  "map tolower (cstr ''null'') = cstr ''null''" "map tolower (cstr ''true'') = cstr ''true''"
  "map tolower (cstr ''false'') = cstr ''false''"
  by (simp_all add: cstr_def ch_def isalpha_def tolower_def)

lemma reads_JNull: "reads df atof JNull"
proof (rule reads_scalar [where v = VNull])
  fix h :: "'a jheap" and p st rest
  assume a: "jat (jcells h) p = Some VNull" "closes rest"
  have w: "word_turn h (cstr ''null'' @ rest) p st = Some (Next h rest st)"
    using a word_token [OF json_words(1) a(2)] json_words(4) reset_null [OF a(1)]
    by (simp add: word_turn_def Let_def cstr_def)
  then show "unserialize_turn atof h (json_text df JNull @ rest) (p # st) = Some (Next (jfill h p VNull) rest st)"
    using turn_null [OF a(1), of "ch CHR ''n''"] a(1)
    by (simp add: cstr_def ch_def blank_def isdigit_def jfill_null)
qed (auto simp: cstr_def)

lemma fill_value:
  assumes "jat (jcells h) p = Some VNull" "\<not> k VNull"
  shows "Option.bind (jas k d h p) (\<lambda>h1. Option.bind (jput h1 p v) (\<lambda>h2. Some (Next h2 r st))) =
    Some (Next (jfill h p v) r st)"
  using assms jput_jat [of "jfill h p d" p d v]
  by (simp add: jas_null jat_jfill jfill_jfill)

lemma reads_JBool:
  assumes "b = 0 \<or> b = 1"
  shows "reads df atof (JBool b)"
proof (rule reads_scalar [where v = "VBool b"])
  fix h :: "'a jheap" and p st rest
  assume a: "jat (jcells h) p = Some VNull" "closes rest"
  let ?w = "cstr (if b \<noteq> 0 then ''true'' else ''false'')"
  have k: "\<not> is_bool VNull" by (simp add: is_bool_def)
  have w: "word_turn h (?w @ rest) p st = Some (Next (jfill h p (VBool b)) rest st)"
    using assms word_token [OF json_words(2) a(2)] word_token [OF json_words(3) a(2)] json_words(5,6)
      fill_value [of h p is_bool, OF a(1) k]
    by (auto simp: word_turn_def Let_def zjson_get_bool_value_def) (simp_all add: cstr_def ch_def)
  then show "unserialize_turn atof h (json_text df (JBool b) @ rest) (p # st) = Some (Next (jfill h p (VBool b)) rest st)"
    using turn_null [OF a(1), of "ch CHR ''t''"] turn_null [OF a(1), of "ch CHR ''f''"]
    by (simp add: cstr_def ch_def blank_def isdigit_def split: if_splits)
qed (auto simp: cstr_def)

lemma reads_JString: "reads df atof (JString x)"
proof (rule reads_scalar [where v = "VString x"])
  fix h :: "'a jheap" and p st rest
  assume a: "jat (jcells h) p = Some VNull" "closes rest"
  have k: "\<not> is_string VNull" by (simp add: is_string_def)
  have "string_turn h (string_text x @ rest) p st VNull = Some (Next (jfill h p (VString x)) rest st)"
    using fill_value [of h p is_string, OF a(1) k] by (simp add: string_turn_def fetch_string_text' zjson_get_string_value_def)
  then show "unserialize_turn atof h (json_text df (JString x) @ rest) (p # st) = Some (Next (jfill h p (VString x)) rest st)"
    using turn_null [OF a(1), of 34] by (simp add: string_text_def blank_def)
qed (auto simp: string_text_def)

lemma turn_number:
  assumes "jat (jcells h) p = Some VNull" "closes rest" "s \<noteq> []" "hd s = 45 \<or> isdigit (hd s)" "\<forall>c \<in> set s. number_char c"
  shows "unserialize_turn atof h (s @ rest) (p # st) = number_turn atof h (s @ rest) p st"
    and "takeWhile number_char (s @ rest) = s" "dropWhile number_char (s @ rest) = rest"
proof -
  obtain c r where s: "s = c # r" using assms(3) by (cases s) auto
  then have "\<not> blank c \<and> c \<notin> {123, 91, 34, 39}" using assms(4) isdigit_facts [of c] by (auto simp: blank_def)
  then show "unserialize_turn atof h (s @ rest) (p # st) = number_turn atof h (s @ rest) p st"
    using s assms(4) turn_null [OF assms(1), of c] by auto
qed (use number_token [OF assms(5,2)] in simp_all)

lemma reads_JLong: "reads df atof (JLong l)"
proof (rule reads_scalar [where v = "VLong l"])
  fix h :: "'a jheap" and p st rest
  assume a: "jat (jcells h) p = Some VNull" "closes rest"
  have k: "\<not> is_long VNull" by (simp add: is_long_def)
  obtain c r where d: "dec_digits (nat (sint l)) = c # r" "isdigit c" using dec_digits_hd by blast
  have chars: "c = 45 \<or> isdigit c" if "c \<in> set (fmt_zd l)" for c
    using that dec_digits_isdigit by (auto simp: fmt_zd_def ch_def split: if_splits)
  have ne: "fmt_zd l \<noteq> []" using d by (auto simp: fmt_zd_def)
  have nodouble: "46 \<notin> set (fmt_zd l)" "101 \<notin> set (fmt_zd l)" "69 \<notin> set (fmt_zd l)"
    using chars isdigit_facts by fastforce+
  have "hd (fmt_zd l) = 45 \<or> isdigit (hd (fmt_zd l))" "\<forall>c \<in> set (fmt_zd l). number_char c"
    using chars ne by (auto simp: number_char_def)
  note t = turn_number [OF a ne this]
  show "unserialize_turn atof h (json_text df (JLong l) @ rest) (p # st) = Some (Next (jfill h p (VLong l)) rest st)"
    using fill_value [of h p is_long, OF a(1) k] nodouble
    by (simp add: t number_turn_def zjson_get_long_value_def atol_fmt_zd)
next
  show "json_text df (JLong l) \<noteq> []" using dec_digits_hd [of "nat (sint l)"] by (auto simp: fmt_zd_def)
qed simp

lemma reads_JDouble:
  assumes "double_ok df atof d"
  shows "reads df atof (JDouble d)"
proof (rule reads_scalar [where v = "VDouble d"])
  fix h :: "'a jheap" and p st rest
  assume a: "jat (jcells h) p = Some VNull" "closes rest"
  have k: "\<not> is_double VNull" by (simp add: is_double_def)
  have o: "double_text df d \<noteq> []" "hd (double_text df d) = 45 \<or> isdigit (hd (double_text df d))"
    "\<forall>c \<in> set (double_text df d). number_char c"
    and e: "46 \<in> set (double_text df d) \<or> 101 \<in> set (double_text df d) \<or> 69 \<in> set (double_text df d)"
    "atof (double_text df d) = d"
    using assms by (auto simp: double_ok_def Let_def list_all_iff)
  note t = turn_number [OF a o]
  show "unserialize_turn atof h (json_text df (JDouble d) @ rest) (p # st) = Some (Next (jfill h p (VDouble d)) rest st)"
    using fill_value [of h p is_double, OF a(1) k] e by (simp add: t number_turn_def zjson_get_double_value_def)
next
  show "json_text df (JDouble d) \<noteq> []" using assms by (simp add: double_ok_def Let_def)
qed simp

subsection \<open>Containers\<close>

lemma seps_closes: "closes (seps False xs @ c # rest)" if "c = 93 \<or> c = 125"
  using that by (cases xs) (auto simp: closes_def)

lemma array_next:
  assumes "jat (jcells h) p = Some (VArray qs)" "p < jfree h" "opens x"
  shows "unserialize_loop atof h ((if qs = [] then [] else [44]) @ x) (p # st) =
    unserialize_loop atof (jadd h p (VArray (qs @ [jfree h]))) x (jfree h # p # st)"
proof -
  obtain c r where x: "x = c # r" "c \<notin> {44, 93, 125}" "skip_commas x 0 = Some (c, r, 0)"
    using skip_opens [OF assms(3), of 0] by blast
  have x1: "skip_commas x (Suc 0) = Some (c, r, Suc 0)"
    using skip_opens [OF assms(3), of "Suc 0"] x(1) by auto
  have nb: "\<not> blank c" "\<not> blank 44" using assms(3) x(1) by (auto simp: opens_def blank_def)
  have "zjson_array_get_len h p = Some (h, length qs)"
    using get_array_same [OF assms(1)] by (simp add: zjson_array_get_len_def)
  then have "array_turn h ((if qs = [] then [] else [44]) @ x) p st =
      Some (Next (jadd h p (VArray (qs @ [jfree h]))) x (jfree h # p # st))"
    using push_new [OF assms(1,2)] x x1
    by (simp add: array_turn_def skip_comma zjson_create_def jalloc_def)
  then show ?thesis
    using turn_container(1) [OF _ assms(1)] nb x(1) by (intro loop_Next) auto
qed

lemma array_close:
  assumes "jat (jcells h) p = Some (VArray qs)"
  shows "unserialize_loop atof h (93 # rest) (p # st) = unserialize_loop atof h rest st"
  using turn_container(1) [OF _ assms, of 93 atof rest st]
  by (intro loop_Next) (simp_all add: array_turn_def skip_close blank_def)

text \<open>\<open>built h0 h b p\<close>: from \<open>h0\<close> to \<open>h\<close> only \<open>p\<close> and nodes from \<open>b\<close> on have changed.\<close>

definition built :: "'d jheap \<Rightarrow> 'd jheap \<Rightarrow> jref \<Rightarrow> jref \<Rightarrow> bool" where
  "built h0 h b p \<longleftrightarrow> p < b \<and> b \<le> jfree h0 \<and> jfree h0 \<le> jfree h
     \<and> (\<forall>q < b. q \<noteq> p \<longrightarrow> jcells h q = jcells h0 q)"

lemma built_trans: "built h0 h1 b p \<Longrightarrow> built h1 h2 b p \<Longrightarrow> built h0 h2 b p"
  by (auto simp: built_def)

text \<open>One more component of a container: a new node, filled by the turns that read its text.\<close>

lemma component:
  assumes "jat (jcells h) p = Some w" "b \<le> jfree h" "p < b" "S0 \<subseteq> {b..<jfree h}"
    and "reads df atof t" "closes rest"
  obtains h' S where
    "unserialize_loop atof (jadd h p v) (json_text df t @ rest) (jfree h # st) = unserialize_loop atof h' rest st"
    "rep t (jcells h') (jfree h) S" "S \<subseteq> {jfree h..<jfree h'}" "jat (jcells h') p = Some v" "built h h' b p"
    "\<forall>q \<in> S0. jcells h' q = jcells h q"
proof -
  have p: "p < jfree h" using assms(2,3) by simp
  note a = jadd_facts [OF p assms(1), where v = v]
  obtain h' S where h': "unserialize_loop atof (jadd h p v) (json_text df t @ rest) (jfree h # st) = unserialize_loop atof h' rest st"
    "rep t (jcells h') (jfree h) S" "grows (jadd h p v) h' (jfree h) S"
    using assms(5,6) a(1,3) unfolding reads_def by (metis less_add_one)
  have "jcells h' p = jcells (jadd h p v) p" using h'(3) p a(1) by (simp add: grows_def)
  then have "jat (jcells h') p = Some v" using a(2) jat_cong by metis
  moreover have "S \<subseteq> {jfree h..<jfree h'}" "built h h' b p" "\<forall>q \<in> S0. jcells h' q = jcells h q"
    using h'(3) a(1,4) assms(2-4) p by (force simp: grows_def built_def)+
  ultimately show thesis using h'(1,2) that by blast
qed

lemma forest_more:
  assumes "forest (map rep dn) c qs S0" "\<forall>q \<in> S0. c' q = c q" "rep t c' r S" "S0 \<inter> S = {}"
  shows "forest (map rep (dn @ [t])) c' (qs @ [r]) (S0 \<union> S)"
proof -
  have "forest (map rep dn) c' qs S0" by (rule forest_frame [OF assms(1)]) (use assms(2) in simp)
  then show ?thesis using assms(3,4) by (auto simp: forest_snoc)
qed

lemma reads_elements:
  assumes "\<And>t. t \<in> set ts \<Longrightarrow> reads df atof t \<and> opens (json_text df t)"
    and "jat (jcells h) p = Some (VArray qs)" "forest (map rep dn) (jcells h) qs S0" "S0 \<subseteq> {b..<jfree h}"
    and "p < b" "b \<le> jfree h"
  shows "\<exists>h' qs' S'. unserialize_loop atof h (seps (qs = []) (map (json_text df) ts) @ 93 # rest) (p # st) =
      unserialize_loop atof h' rest st
    \<and> jat (jcells h') p = Some (VArray qs') \<and> forest (map rep (dn @ ts)) (jcells h') qs' S'
    \<and> S' \<subseteq> {b..<jfree h'} \<and> built h h' b p"
  using assms
proof (induction ts arbitrary: h qs dn S0)
  case Nil
  then show ?case using array_close [OF Nil.prems(2)]
    by (intro exI [of _ h] exI [of _ qs] exI [of _ S0]) (simp add: built_def)
next
  case (Cons t ts)
  let ?R = "seps False (map (json_text df) ts) @ 93 # rest"
  let ?v = "VArray (qs @ [jfree h])"
  have t: "reads df atof t" "opens (json_text df t @ ?R)" using Cons.prems(1) [of t] by (simp_all add: opens_append)
  have cl: "closes ?R" by (rule seps_closes) simp
  obtain h1 S1 where h1: "unserialize_loop atof (jadd h p ?v) (json_text df t @ ?R) (jfree h # p # st) = unserialize_loop atof h1 ?R (p # st)"
    "rep t (jcells h1) (jfree h) S1" "S1 \<subseteq> {jfree h..<jfree h1}" "jat (jcells h1) p = Some ?v" "built h h1 b p"
    "\<forall>q \<in> S0. jcells h1 q = jcells h q"
    by (rule component [OF Cons.prems(2,6,5,4) t(1) cl, where v = ?v and st = "p # st"])
  have "S0 \<inter> S1 = {}" using h1(3) Cons.prems(4) by fastforce
  note f = forest_more [OF Cons.prems(3) h1(6,2) this]
  have sub: "S0 \<union> S1 \<subseteq> {b..<jfree h1}" using h1(3,5) Cons.prems(4,6) by (fastforce simp: built_def)
  have "unserialize_loop atof h (seps (qs = []) (map (json_text df) (t # ts)) @ 93 # rest) (p # st) =
      unserialize_loop atof (jadd h p ?v) (json_text df t @ ?R) (jfree h # p # st)"
    using array_next [OF Cons.prems(2) _ t(2), of atof st] Cons.prems(5,6) by simp
  moreover obtain h' qs' S' where h': "unserialize_loop atof h1 ?R (p # st) = unserialize_loop atof h' rest st"
    "jat (jcells h') p = Some (VArray qs')" "forest (map rep ((dn @ [t]) @ ts)) (jcells h') qs' S'"
    "S' \<subseteq> {b..<jfree h'}" "built h1 h' b p"
    using Cons.IH [OF Cons.prems(1) h1(4) f sub Cons.prems(5)] h1(5) by (auto simp: built_def)
  ultimately show ?case using h1(1) built_trans [OF h1(5) h'(5)] by auto
qed

lemma reads_JArray:
  assumes "\<And>t. t \<in> set ts \<Longrightarrow> reads df atof t \<and> opens (json_text df t)"
  shows "reads df atof (JArray ts)"
  unfolding reads_def
proof (intro allI impI)
  fix h :: "'a jheap" and p st rest
  assume a: "jat (jcells h) p = Some VNull" "p < jfree h" "closes rest"
  let ?h = "jfill h p (VArray [])"
  have "unserialize_loop atof h (json_text df (JArray ts) @ rest) (p # st) =
      unserialize_loop atof ?h (seps True (map (json_text df) ts) @ 93 # rest) (p # st)"
    using turn_null [OF a(1), of 91] by (intro loop_Next) (simp_all add: blank_def)
  moreover have v: "jat (jcells ?h) p = Some (VArray [])" using a(1) by (simp add: jat_jfill)
  moreover obtain h' qs' S' where h': "unserialize_loop atof ?h (seps True (map (json_text df) ts) @ 93 # rest) (p # st) =
      unserialize_loop atof h' rest st" "jat (jcells h') p = Some (VArray qs')" "forest (map rep ts) (jcells h') qs' S'"
    "S' \<subseteq> {jfree h..<jfree h'}" "built ?h h' (jfree h) p"
    using reads_elements [of ts df atof ?h p "[]" "[]" "{}" "jfree h" rest st, OF assms v] a(2)
    by (auto simp: jfill_cells)
  moreover have "rep (JArray ts) (jcells h') p (insert p S')" using h'(2-4) a(2) by auto
  moreover have "grows h h' p (insert p S')" using h'(4,5) by (auto simp: grows_def built_def jfill_cells)
  ultimately show "\<exists>h' S. unserialize_loop atof h (json_text df (JArray ts) @ rest) (p # st) = unserialize_loop atof h' rest st
       \<and> rep (JArray ts) (jcells h') p S \<and> grows h h' p S" by metis
qed

lemma object_close:
  assumes "jat (jcells h) p = Some (VObject es)"
  shows "unserialize_loop atof h (125 # rest) (p # st) = unserialize_loop atof h rest st"
  using turn_container(2) [OF _ assms, of 125 atof rest st]
  by (intro loop_Next) (simp_all add: object_turn_def skip_close blank_def)

lemma object_next:
  assumes "jat (jcells h) p = Some (VObject es)" "p < jfree h" "\<forall>k' \<in> set (map fst es). k' < k"
  shows "unserialize_loop atof h ((if es = [] then [] else [44]) @ string_text (str_bytes k) @ 58 # x) (p # st) =
    unserialize_loop atof (jadd h p (VObject (es @ [(k, jfree h)]))) x (jfree h # p # st)"
proof -
  let ?s = "string_text (str_bytes k) @ 58 # x"
  obtain r where r: "?s = 34 # r" by (simp add: string_text_def)
  have f: "fetch_string (34 # r) = (str_bytes k, 58 # x)"
    using fetch_string_text' [of "str_bytes k" "58 # x"] by (simp add: r)
  have sk: "skip_commas (34 # r) n = Some (34, r, n)" for n
    by (subst skip_commas.simps) (simp add: ignore_blank_def blank_def)
  have "k \<notin> set (map fst es)" using assms(3) by blast
  from update_new [OF assms(1,2) this]
  have "object_turn h ((if es = [] then [] else [44]) @ ?s) p st es =
      Some (Next (jadd h p (VObject (es @ [(k, jfree h)]))) x (jfree h # p # st))"
    unfolding r using f sk obj_put_last [OF assms(3)]
    by (simp add: object_turn_def skip_comma zjson_create_def jalloc_def ignore_blank_def blank_def)
  then show ?thesis unfolding r
    using turn_container(2) [OF _ assms(1)] by (intro loop_Next) (auto simp: blank_def)
qed

abbreviation member_text :: "'d dfmt \<Rightarrow> cstring \<times> 'd json \<Rightarrow> bytes" where
  "member_text df e \<equiv> string_text (str_bytes (fst e)) @ 58 # json_text df (snd e)"

lemma reads_members:
  assumes "\<And>t. t \<in> set (map snd m) \<Longrightarrow> reads df atof t" "sorted_wrt (<) (map fst es @ map fst m)"
    and "jat (jcells h) p = Some (VObject es)" "forest (map rep dn) (jcells h) (map snd es) S0" "S0 \<subseteq> {b..<jfree h}"
    and "p < b" "b \<le> jfree h"
  shows "\<exists>h' es' S'. unserialize_loop atof h (seps (es = []) (map (member_text df) m) @ 125 # rest) (p # st) =
      unserialize_loop atof h' rest st
    \<and> jat (jcells h') p = Some (VObject es') \<and> map fst es' = map fst es @ map fst m
    \<and> forest (map rep (dn @ map snd m)) (jcells h') (map snd es') S'
    \<and> S' \<subseteq> {b..<jfree h'} \<and> built h h' b p"
  using assms
proof (induction m arbitrary: h es dn S0)
  case Nil
  then show ?case using object_close [OF Nil.prems(3)]
    by (intro exI [of _ h] exI [of _ es] exI [of _ S0]) (simp add: built_def)
next
  case (Cons e m)
  let ?R = "seps False (map (member_text df) m) @ 125 # rest"
  let ?es = "es @ [(fst e, jfree h)]"
  have t: "reads df atof (snd e)" using Cons.prems(1) by simp
  have cl: "closes ?R" by (rule seps_closes) simp
  obtain h1 S1 where h1: "unserialize_loop atof (jadd h p (VObject ?es)) (json_text df (snd e) @ ?R) (jfree h # p # st) =
      unserialize_loop atof h1 ?R (p # st)"
    "rep (snd e) (jcells h1) (jfree h) S1" "S1 \<subseteq> {jfree h..<jfree h1}" "jat (jcells h1) p = Some (VObject ?es)"
    "built h h1 b p" "\<forall>q \<in> S0. jcells h1 q = jcells h q"
    by (rule component [OF Cons.prems(3,7,6,5) t cl, where v = "VObject ?es" and st = "p # st"])
  have "S0 \<inter> S1 = {}" using h1(3) Cons.prems(5) by fastforce
  note f = forest_more [OF Cons.prems(4) h1(6,2) this]
  have sub: "S0 \<union> S1 \<subseteq> {b..<jfree h1}" using h1(3,5) Cons.prems(5,7) by (fastforce simp: built_def)
  have "\<forall>k' \<in> set (map fst es). k' < fst e" using Cons.prems(2) by (auto simp: sorted_wrt_append)
  from object_next [OF Cons.prems(3) _ this, of atof "json_text df (snd e) @ ?R" st] Cons.prems(6,7)
  have "unserialize_loop atof h (seps (es = []) (map (member_text df) (e # m)) @ 125 # rest) (p # st) =
      unserialize_loop atof (jadd h p (VObject ?es)) (json_text df (snd e) @ ?R) (jfree h # p # st)" by simp
  moreover obtain h' es' S' where h': "unserialize_loop atof h1 ?R (p # st) = unserialize_loop atof h' rest st"
    "jat (jcells h') p = Some (VObject es')" "map fst es' = map fst ?es @ map fst m"
    "forest (map rep ((dn @ [snd e]) @ map snd m)) (jcells h') (map snd es') S'"
    "S' \<subseteq> {b..<jfree h'}" "built h1 h' b p"
    using Cons.IH [of ?es h1 "dn @ [snd e]" "S0 \<union> S1"] Cons.prems(1,2,6) f sub h1(4,5) by (auto simp: built_def)
  ultimately show ?case using h1(1) built_trans [OF h1(5) h'(6)] by auto
qed

lemma reads_JObject:
  assumes "\<And>t. t \<in> set (map snd m) \<Longrightarrow> reads df atof t" "sorted_wrt (<) (map fst m)"
  shows "reads df atof (JObject m)"
  unfolding reads_def
proof (intro allI impI)
  fix h :: "'a jheap" and p st rest
  assume a: "jat (jcells h) p = Some VNull" "p < jfree h" "closes rest"
  let ?h = "jfill h p (VObject [])"
  have "unserialize_loop atof h (json_text df (JObject m) @ rest) (p # st) =
      unserialize_loop atof ?h (seps True (map (member_text df) m) @ 125 # rest) (p # st)"
    using turn_null [OF a(1), of 123] by (intro loop_Next) (simp_all add: blank_def json_text_JObject)
  moreover have v: "jat (jcells ?h) p = Some (VObject [])" using a(1) by (simp add: jat_jfill)
  moreover obtain h' es' S' where h': "unserialize_loop atof ?h (seps True (map (member_text df) m) @ 125 # rest) (p # st) =
      unserialize_loop atof h' rest st" "jat (jcells h') p = Some (VObject es')" "map fst es' = map fst m"
    "forest (map rep (map snd m)) (jcells h') (map snd es') S'"
    "S' \<subseteq> {jfree h..<jfree h'}" "built ?h h' (jfree h) p"
    using reads_members [of m df atof "[]" ?h p "[]" "{}" "jfree h" rest st, OF assms(1) _ v] a(2) assms(2)
    by (auto simp: jfill_cells)
  moreover have "rep (JObject m) (jcells h') p (insert p S')" using h'(2-5) a(2) by (auto simp: rep_JObject)
  moreover have "grows h h' p (insert p S')" using h'(5,6) by (auto simp: grows_def built_def jfill_cells)
  ultimately show "\<exists>h' S. unserialize_loop atof h (json_text df (JObject m) @ rest) (p # st) = unserialize_loop atof h' rest st
       \<and> rep (JObject m) (jcells h') p S \<and> grows h h' p S" by metis
qed

lemma readable_reads: "readable df atof t \<Longrightarrow> reads df atof t"
proof (induction t)
  case (JObject m)
  then have "sorted_wrt (<) (map fst m)" "\<forall>t \<in> set (map snd m). readable df atof t"
    by (simp_all add: readable_JObject)
  with JObject.IH show ?case by (intro reads_JObject) auto
next
  case (JArray ts)
  then show ?case using json_text_opens [of df atof] by (intro reads_JArray) (auto simp: readable_JArray)
qed (simp_all add: reads_JNull reads_JBool reads_JString reads_JLong reads_JDouble)

lemma readable_wf: "readable df atof t \<Longrightarrow> json_wf t"
  by (induction t) (auto simp: readable_JObject readable_JArray json_wf_JObject json_wf_JArray)

text \<open>Reading the text of a document into a node that represents any other document.\<close>

lemma zjson_unserialize_text:
  assumes "readable df atof t" "rep t0 (jcells h) j S0" "j < jfree h"
  shows "\<exists>h' S. zjson_unserialize atof h j (json_text df t) (int (length (json_text df t))) = Some (h', True)
    \<and> rep t (jcells h') j S \<and> (\<forall>q < jfree h. q \<notin> S0 \<longrightarrow> jcells h' q = jcells h q)"
proof -
  let ?h1 = "jreset h j S0"
  note root = rep_root [OF assms(2)]
  have jcell: "jat (jcells h) j \<noteq> None" using assms(2) by (cases t0) (auto simp: rep_JObject)
  then have null: "jat (jcells ?h1) j = Some VNull" by (auto simp: jreset_def jbare_def jat_def split: if_splits)
  have free: "jfree ?h1 = jfree h" by (simp add: jreset_def jbare_def)
  obtain h' S where h': "unserialize_loop atof ?h1 (json_text df t @ []) [j] = unserialize_loop atof h' [] []"
    "rep t (jcells h') j S" "grows ?h1 h' j S"
    using readable_reads [OF assms(1)] null assms(3) free unfolding reads_def closes_def
    by (metis (mono_tags, lifting) list.case(1))
  have "unserialize_loop atof h' [] [] = Some (h', True)" by (simp add: unserialize_loop.simps)
  then have "zjson_unserialize atof h j (json_text df t) (int (length (json_text df t))) = Some (h', True)"
    using h'(1) zjson_reset_rep [OF assms(2)] by (simp add: zjson_unserialize_def)
  moreover have "jcells h' q = jcells h q" if "q < jfree h" "q \<notin> S0" for q
  proof -
    have "q \<noteq> j" using root that(2) by auto
    then have "jcells h' q = jcells ?h1 q" using h'(3) that(1) free by (simp add: grows_def)
    then show ?thesis using that(2) \<open>q \<noteq> j\<close> by (simp add: jreset_def jbare_def)
  qed
  ultimately show ?thesis using h'(2) by blast
qed

end
