(* ===== verification/JsonSafe.thy ===== *)
theory JsonSafe
  imports JsonRound
begin

text \<open>
  \<open>zjson_unserialize\<close> on an arbitrary text: it returns, it never touches a node that does not exist,
  and the node it fills represents a document afterwards, whether the text is well-formed or not.
\<close>

section \<open>Replacing a part of a document\<close>

text \<open>\<open>part R ts c S q\<close>: the node \<open>q\<close> of the nodes \<open>S\<close> that represent the documents \<open>ts\<close> (in the sense
  of \<open>R\<close>) is the root of a part of one of them, and any document that is put there, in nodes that do
  not meet the others, gives documents again.\<close>

definition refits :: "('d json list \<Rightarrow> (jref \<rightharpoonup> 'd jnode) \<Rightarrow> jref set \<Rightarrow> bool) \<Rightarrow> 'd json list \<Rightarrow> (jref \<rightharpoonup> 'd jnode)
    \<Rightarrow> jref set \<Rightarrow> jref \<Rightarrow> jref set \<Rightarrow> bool" where
  "refits R ts c S q Sq \<longleftrightarrow> (\<forall>c' tq' Sq'. rep tq' c' q Sq' \<longrightarrow> Sq' \<inter> (S - Sq) = {} \<longrightarrow>
     (\<forall>x \<in> S - Sq. jat c' x = jat c x) \<longrightarrow>
     (\<exists>ts'. length ts' = length ts \<and> R ts' c' (S - Sq \<union> Sq')
       \<and> ((\<forall>t \<in> set ts. json_wf t) \<longrightarrow> json_wf tq' \<longrightarrow> (\<forall>t \<in> set ts'. json_wf t))))"

definition part :: "('d json list \<Rightarrow> (jref \<rightharpoonup> 'd jnode) \<Rightarrow> jref set \<Rightarrow> bool) \<Rightarrow> 'd json list \<Rightarrow> (jref \<rightharpoonup> 'd jnode)
    \<Rightarrow> jref set \<Rightarrow> jref \<Rightarrow> bool" where
  "part R ts c S q \<longleftrightarrow> (\<exists>tq Sq. rep tq c q Sq \<and> Sq \<subseteq> S \<and> ((\<forall>t \<in> set ts. json_wf t) \<longrightarrow> json_wf tq)
     \<and> refits R ts c S q Sq)"

abbreviation one :: "jref \<Rightarrow> 'd json list \<Rightarrow> (jref \<rightharpoonup> 'd jnode) \<Rightarrow> jref set \<Rightarrow> bool" where
  "one p ts c S \<equiv> (\<exists>t. ts = [t] \<and> rep t c p S)"

abbreviation many :: "jref list \<Rightarrow> 'd json list \<Rightarrow> (jref \<rightharpoonup> 'd jnode) \<Rightarrow> jref set \<Rightarrow> bool" where
  "many ps ts c S \<equiv> forest (map rep ts) c ps S"

lemma refitI:
  assumes "length ts' = length ts" "R ts' c' S"
    and "\<forall>t \<in> set ts. json_wf t \<Longrightarrow> json_wf tq' \<Longrightarrow> \<forall>t \<in> set ts'. json_wf t"
  shows "\<exists>ts'. length ts' = length ts \<and> R ts' c' S
    \<and> ((\<forall>t \<in> set ts. json_wf t) \<longrightarrow> json_wf tq' \<longrightarrow> (\<forall>t \<in> set ts'. json_wf t))"
  using assms by blast

lemma refitsD:
  assumes "refits R ts c S q Sq" "rep tq' c' q Sq'" "Sq' \<inter> (S - Sq) = {}" "\<forall>x \<in> S - Sq. jat c' x = jat c x"
  obtains ts' where "length ts' = length ts" "R ts' c' (S - Sq \<union> Sq')"
    "(\<forall>t \<in> set ts. json_wf t) \<longrightarrow> json_wf tq' \<longrightarrow> (\<forall>t \<in> set ts'. json_wf t)"
  using assms unfolding refits_def by blast

lemma part_root:
  assumes "rep t c q S"
  shows "part (one q) [t] c S q"
proof -
  have "refits (one q) [t] c S q S" unfolding refits_def
  proof (intro allI impI)
    fix c' tq' Sq'
    assume "rep tq' c' q Sq'"
    then show "\<exists>ts'. length ts' = length [t] \<and> one q ts' c' (S - S \<union> Sq')
        \<and> ((\<forall>t \<in> set [t]. json_wf t) \<longrightarrow> json_wf tq' \<longrightarrow> (\<forall>t \<in> set ts'. json_wf t))"
      by (intro exI [of _ "[tq']"]) simp
  qed
  with assms show ?thesis unfolding part_def by (intro exI [of _ t] exI [of _ S]) simp
qed

lemma many_Cons:
  "rep t c p S1 \<Longrightarrow> many qs ts c S2 \<Longrightarrow> S1 \<inter> S2 = {} \<Longrightarrow> many (p # qs) (t # ts) c (S1 \<union> S2)"
  unfolding list.map forest.simps by blast

lemma part_forest:
  assumes "\<And>t p S. t \<in> set ts \<Longrightarrow> rep t c p S \<Longrightarrow> q \<in> S \<Longrightarrow> part (one p) [t] c S q"
    and "many ps ts c S" "q \<in> S"
  shows "part (many ps) ts c S q"
  using assms
proof (induction ts arbitrary: ps S)
  case Nil
  then show ?case by (cases ps) auto
next
  case (Cons t ts)
  from Cons.prems(2) obtain p qs S1 S2 where ps: "ps = p # qs" and t: "rep t c p S1"
    and f: "many qs ts c S2" and S: "S1 \<inter> S2 = {}" "S = S1 \<union> S2"
    by (cases ps) auto
  show ?case
  proof (cases "q \<in> S1")
    case True
    from Cons.prems(1) [OF _ t True] obtain tq Sq where *: "rep tq c q Sq" "Sq \<subseteq> S1" "json_wf t \<longrightarrow> json_wf tq"
      "refits (one p) [t] c S1 q Sq"
      by (auto simp: part_def)
    have "refits (many ps) (t # ts) c S q Sq" unfolding refits_def
    proof (intro allI impI)
      fix c' tq' Sq'
      assume a: "rep tq' c' q Sq'" "Sq' \<inter> (S - Sq) = {}" "\<forall>x \<in> S - Sq. jat c' x = jat c x"
      have "Sq' \<inter> (S1 - Sq) = {}" "\<forall>x \<in> S1 - Sq. jat c' x = jat c x" using a S by auto
      from refitsD [OF *(4) a(1) this]
      obtain t' where t': "rep t' c' p (S1 - Sq \<union> Sq')" "json_wf t \<longrightarrow> json_wf tq' \<longrightarrow> json_wf t'"
        by (metis list.set_intros(1) set_ConsD empty_iff list.set(1))
      have "S2 \<subseteq> S - Sq" using S *(2) by auto
      then have "\<forall>x \<in> S2. jat c x = jat c' x" using a(3) by (simp add: subset_iff)
      with f have "many qs ts c' S2" by (rule forest_frame_jat)
      moreover have "(S1 - Sq \<union> Sq') \<inter> S2 = {}" "S - Sq \<union> Sq' = (S1 - Sq \<union> Sq') \<union> S2"
        using a(2) S *(2) by auto
      ultimately have "many ps (t' # ts) c' (S - Sq \<union> Sq')" using many_Cons [OF t'(1)] unfolding ps by simp
      then show "\<exists>ts'. length ts' = length (t # ts) \<and> many ps ts' c' (S - Sq \<union> Sq')
          \<and> ((\<forall>t \<in> set (t # ts). json_wf t) \<longrightarrow> json_wf tq' \<longrightarrow> (\<forall>t \<in> set ts'. json_wf t))"
        by (rule refitI [rotated]) (use t'(2) in simp_all)
    qed
    with * S show ?thesis unfolding part_def by (intro exI [of _ tq] exI [of _ Sq]) auto
  next
    case False
    with Cons.prems(3) S have "q \<in> S2" by simp
    from Cons.IH [OF Cons.prems(1) f this] obtain tq Sq where *: "rep tq c q Sq" "Sq \<subseteq> S2"
      "(\<forall>t \<in> set ts. json_wf t) \<longrightarrow> json_wf tq" "refits (many qs) ts c S2 q Sq"
      by (auto simp: part_def)
    have "refits (many ps) (t # ts) c S q Sq" unfolding refits_def
    proof (intro allI impI)
      fix c' tq' Sq'
      assume a: "rep tq' c' q Sq'" "Sq' \<inter> (S - Sq) = {}" "\<forall>x \<in> S - Sq. jat c' x = jat c x"
      have "Sq' \<inter> (S2 - Sq) = {}" "\<forall>x \<in> S2 - Sq. jat c' x = jat c x" using a S by auto
      from refitsD [OF *(4) a(1) this] obtain ts' where t': "length ts' = length ts" "many qs ts' c' (S2 - Sq \<union> Sq')"
        "(\<forall>t \<in> set ts. json_wf t) \<longrightarrow> json_wf tq' \<longrightarrow> (\<forall>t \<in> set ts'. json_wf t)"
        by blast
      have "S1 \<subseteq> S - Sq" using S *(2) by auto
      then have "\<forall>x \<in> S1. jat c x = jat c' x" using a(3) by (simp add: subset_iff)
      with t have "rep t c' p S1" by (rule rep_jat)
      moreover have "S1 \<inter> (S2 - Sq \<union> Sq') = {}" "S - Sq \<union> Sq' = S1 \<union> (S2 - Sq \<union> Sq')"
        using a(2) S *(2) by auto
      ultimately have "many ps (t # ts') c' (S - Sq \<union> Sq')" using many_Cons [OF _ t'(2)] unfolding ps by simp
      then show "\<exists>ts'. length ts' = length (t # ts) \<and> many ps ts' c' (S - Sq \<union> Sq')
          \<and> ((\<forall>t \<in> set (t # ts). json_wf t) \<longrightarrow> json_wf tq' \<longrightarrow> (\<forall>t \<in> set ts'. json_wf t))"
        by (rule refitI [rotated]) (use t'(1,3) in simp_all)
    qed
    with * S show ?thesis unfolding part_def by (intro exI [of _ tq] exI [of _ Sq]) auto
  qed
qed

lemma rep_part: "rep t c p S \<Longrightarrow> q \<in> S \<Longrightarrow> part (one p) [t] c S q"
proof (induction t arbitrary: p S)
  case (JObject m)
  show ?case
  proof (cases "q = p")
    case True
    with JObject.prems(1) show ?thesis by (simp add: part_root)
  next
    case False
    from JObject.prems(1) obtain es S' where es: "jat c p = Some (VObject es)" "map fst es = map fst m"
      "many (map snd es) (map snd m) c S'" "p \<notin> S'" "S = insert p S'"
      by (auto simp: rep_JObject)
    have "part (many (map snd es)) (map snd m) c S' q"
      by (rule part_forest [OF _ es(3)]) (use JObject.IH JObject.prems(2) False es(5) in auto)
    then obtain tq Sq where *: "rep tq c q Sq" "Sq \<subseteq> S'" "(\<forall>t \<in> set (map snd m). json_wf t) \<longrightarrow> json_wf tq"
      "refits (many (map snd es)) (map snd m) c S' q Sq"
      unfolding part_def by blast
    have "refits (one p) [JObject m] c S q Sq" unfolding refits_def
    proof (intro allI impI)
      fix c' tq' Sq'
      assume a: "rep tq' c' q Sq'" "Sq' \<inter> (S - Sq) = {}" "\<forall>x \<in> S - Sq. jat c' x = jat c x"
      have "Sq' \<inter> (S' - Sq) = {}" "\<forall>x \<in> S' - Sq. jat c' x = jat c x" using a es(5) by auto
      from refitsD [OF *(4) a(1) this] obtain ts' where t': "length ts' = length (map snd m)"
        "many (map snd es) ts' c' (S' - Sq \<union> Sq')"
        "(\<forall>t \<in> set (map snd m). json_wf t) \<longrightarrow> json_wf tq' \<longrightarrow> (\<forall>t \<in> set ts'. json_wf t)"
        by blast
      let ?m = "zip (map fst m) ts'"
      have m: "map fst ?m = map fst m" "map snd ?m = ts'" using t'(1) by simp_all
      have p: "p \<notin> S' - Sq \<union> Sq'" "S - Sq \<union> Sq' = insert p (S' - Sq \<union> Sq')" "jat c' p = jat c p"
        using a(2,3) es(4,5) *(2) by auto
      have r: "rep (JObject ?m) c' p (S - Sq \<union> Sq')"
        unfolding rep_JObject m by (rule exI [of _ es], rule exI [of _ "S' - Sq \<union> Sq'"]) (use es(1,2) t'(2) p in simp)
      have w: "json_wf (JObject m) \<longrightarrow> json_wf tq' \<longrightarrow> json_wf (JObject ?m)"
        unfolding json_wf_JObject m using t'(3) by blast
      from r have "one p [JObject ?m] c' (S - Sq \<union> Sq')" by blast
      then show "\<exists>ts'. length ts' = length [JObject m] \<and> one p ts' c' (S - Sq \<union> Sq')
          \<and> ((\<forall>t \<in> set [JObject m]. json_wf t) \<longrightarrow> json_wf tq' \<longrightarrow> (\<forall>t \<in> set ts'. json_wf t))"
        by (rule refitI [rotated]) (use w in simp_all)
    qed
    then show ?thesis using * es(5) unfolding part_def
      by (intro exI [of _ tq] exI [of _ Sq]) (auto simp: json_wf_JObject)
  qed
next
  case (JArray ts)
  show ?case
  proof (cases "q = p")
    case True
    with JArray.prems(1) show ?thesis by (simp add: part_root)
  next
    case False
    from JArray.prems(1) obtain ps S' where ps: "jat c p = Some (VArray ps)" "many ps ts c S'" "p \<notin> S'" "S = insert p S'"
      by auto
    have "part (many ps) ts c S' q"
      by (rule part_forest [OF _ ps(2)]) (use JArray.IH JArray.prems(2) False ps(4) in auto)
    then obtain tq Sq where *: "rep tq c q Sq" "Sq \<subseteq> S'" "(\<forall>t \<in> set ts. json_wf t) \<longrightarrow> json_wf tq"
      "refits (many ps) ts c S' q Sq"
      unfolding part_def by blast
    have "refits (one p) [JArray ts] c S q Sq" unfolding refits_def
    proof (intro allI impI)
      fix c' tq' Sq'
      assume a: "rep tq' c' q Sq'" "Sq' \<inter> (S - Sq) = {}" "\<forall>x \<in> S - Sq. jat c' x = jat c x"
      have "Sq' \<inter> (S' - Sq) = {}" "\<forall>x \<in> S' - Sq. jat c' x = jat c x" using a ps(4) by auto
      from refitsD [OF *(4) a(1) this] obtain ts' where t': "length ts' = length ts"
        "many ps ts' c' (S' - Sq \<union> Sq')"
        "(\<forall>t \<in> set ts. json_wf t) \<longrightarrow> json_wf tq' \<longrightarrow> (\<forall>t \<in> set ts'. json_wf t)"
        by blast
      have p: "p \<notin> S' - Sq \<union> Sq'" "S - Sq \<union> Sq' = insert p (S' - Sq \<union> Sq')" "jat c' p = jat c p"
        using a(2,3) ps(3,4) *(2) by auto
      have "rep (JArray ts') c' p (S - Sq \<union> Sq')"
        unfolding rep.simps by (rule exI [of _ ps], rule exI [of _ "S' - Sq \<union> Sq'"]) (use ps(1) t'(2) p in simp)
      then have "one p [JArray ts'] c' (S - Sq \<union> Sq')" by blast
      then show "\<exists>ts'. length ts' = length [JArray ts] \<and> one p ts' c' (S - Sq \<union> Sq')
          \<and> ((\<forall>t \<in> set [JArray ts]. json_wf t) \<longrightarrow> json_wf tq' \<longrightarrow> (\<forall>t \<in> set ts'. json_wf t))"
        by (rule refitI [rotated]) (use t'(3) in \<open>simp_all add: json_wf_JArray\<close>)
    qed
    then show ?thesis using * ps(4) unfolding part_def
      by (intro exI [of _ tq] exI [of _ Sq]) (auto simp: json_wf_JArray)
  qed
qed (simp_all add: part_root)

section \<open>The invariant of the loop\<close>

text \<open>\<open>sound h0 j h st\<close>: the node \<open>j\<close> represents a document whose other nodes are newer than \<open>h0\<close>, the
  stack \<open>st\<close> holds nodes of it, no other node of \<open>h0\<close> has changed, and there is no other new node.\<close>

definition sound_in :: "'d jheap \<Rightarrow> jref \<Rightarrow> 'd jheap \<Rightarrow> 'd json \<Rightarrow> jref set \<Rightarrow> bool" where
  "sound_in h0 j h t S \<longleftrightarrow> rep t (jcells h) j S \<and> json_wf t \<and> S \<subseteq> insert j {jfree h0..<jfree h} \<and> j < jfree h0
     \<and> jfree h0 \<le> jfree h \<and> (\<forall>q < jfree h0. q \<noteq> j \<longrightarrow> jcells h q = jcells h0 q)
     \<and> (\<forall>q. jcells h q \<noteq> None \<longrightarrow> q < jfree h0 \<or> q \<in> S)"

definition sound :: "'d jheap \<Rightarrow> jref \<Rightarrow> 'd jheap \<Rightarrow> jref list \<Rightarrow> bool" where
  "sound h0 j h st \<longleftrightarrow> (\<exists>t S. sound_in h0 j h t S \<and> set st \<subseteq> S)"

lemma sound_mono: "sound h0 j h st \<Longrightarrow> set st' \<subseteq> set st \<Longrightarrow> sound h0 j h st'"
  unfolding sound_def by blast

text \<open>A change below one node \<open>q\<close>: it keeps the invariant if \<open>q\<close> represents a document again.\<close>

lemma sound_change:
  assumes "sound_in h0 j h t S" "q \<in> S"
  obtains tq Sq where "rep tq (jcells h) q Sq" "json_wf tq" "Sq \<subseteq> S"
    "\<And>h' tq' Sq'. rep tq' (jcells h') q Sq' \<Longrightarrow> json_wf tq' \<Longrightarrow> Sq' \<subseteq> Sq \<union> {jfree h..<jfree h'} \<Longrightarrow> jfree h \<le> jfree h' \<Longrightarrow>
       (\<And>x. x < jfree h \<Longrightarrow> x \<notin> Sq \<Longrightarrow> jcells h' x = jcells h x) \<Longrightarrow>
       (\<And>x. jcells h' x \<noteq> None \<Longrightarrow> x \<notin> Sq' \<Longrightarrow> x \<notin> Sq \<and> jcells h' x = jcells h x) \<Longrightarrow> \<exists>t'. sound_in h0 j h' t' (S - Sq \<union> Sq')"
proof -
  from assms(1) have r: "rep t (jcells h) j S" and w: "json_wf t" and b: "S \<subseteq> insert j {jfree h0..<jfree h}"
    "j < jfree h0" "jfree h0 \<le> jfree h" "\<forall>q < jfree h0. q \<noteq> j \<longrightarrow> jcells h q = jcells h0 q"
    "\<forall>q. jcells h q \<noteq> None \<longrightarrow> q < jfree h0 \<or> q \<in> S"
    by (simp_all add: sound_in_def)
  from rep_part [OF r assms(2)] w obtain tq Sq where p: "rep tq (jcells h) q Sq" "Sq \<subseteq> S" "json_wf tq"
    "refits (one j) [t] (jcells h) S q Sq"
    by (auto simp: part_def)
  have "\<exists>t'. sound_in h0 j h' t' (S - Sq \<union> Sq')"
    if a: "rep tq' (jcells h') q Sq'" "json_wf tq'" "Sq' \<subseteq> Sq \<union> {jfree h..<jfree h'}" "jfree h \<le> jfree h'"
      "\<And>x. x < jfree h \<Longrightarrow> x \<notin> Sq \<Longrightarrow> jcells h' x = jcells h x"
      "\<And>x. jcells h' x \<noteq> None \<Longrightarrow> x \<notin> Sq' \<Longrightarrow> x \<notin> Sq \<and> jcells h' x = jcells h x" for h' tq' Sq'
  proof -
    have lt: "x < jfree h" if "x \<in> S" for x using that b by fastforce
    have d: "Sq' \<inter> (S - Sq) = {}" using a(3) lt by fastforce
    have e: "\<forall>x \<in> S - Sq. jat (jcells h') x = jat (jcells h) x" using a(5) lt by (simp add: jat_def)
    obtain ts' where ts: "length ts' = length [t]" "one j ts' (jcells h') (S - Sq \<union> Sq')"
      "(\<forall>t \<in> set [t]. json_wf t) \<longrightarrow> json_wf tq' \<longrightarrow> (\<forall>t \<in> set ts'. json_wf t)"
      by (rule refitsD [OF p(4) a(1) d e])
    then obtain t' where t': "rep t' (jcells h') j (S - Sq \<union> Sq')" "json_wf t'" using w a(2) by auto
    have old: "Sq \<subseteq> insert j {jfree h0..<jfree h}" using p(2) b(1) by blast
    have "jcells h' x = jcells h0 x" if x: "x < jfree h0" "x \<noteq> j" for x
      using a(5) [of x] x b(3,4) old by fastforce
    moreover have "S - Sq \<union> Sq' \<subseteq> insert j {jfree h0..<jfree h'}"
      using a(3,4) b(1,3) p(2) by fastforce
    moreover have "x < jfree h0 \<or> x \<in> S - Sq \<union> Sq'" if "jcells h' x \<noteq> None" for x
    proof (cases "x \<in> Sq'")
      case False
      with a(6) [OF that] have "x \<notin> Sq" "jcells h x \<noteq> None" using that by auto
      with b(5) show ?thesis by blast
    qed simp
    ultimately show ?thesis using t' b(2,3) a(4) unfolding sound_in_def by (intro exI [of _ t']) simp
  qed
  with p that show thesis by blast
qed

text \<open>A node without elements is filled.\<close>

definition scalar :: "'d jval \<Rightarrow> bool" where
  "scalar v \<longleftrightarrow> \<not> is_array v \<and> \<not> is_object v"

text \<open>Values that a node without elements can hold, as documents.\<close>

definition leaf :: "'d jval \<Rightarrow> 'd json" where
  "leaf v = (case v of VNull \<Rightarrow> JNull | VBool b \<Rightarrow> JBool b | VString s \<Rightarrow> JString s | VLong l \<Rightarrow> JLong l
     | VDouble d \<Rightarrow> JDouble d | VArray _ \<Rightarrow> JArray [] | VObject _ \<Rightarrow> JObject [])"

definition empty_val :: "'d jval \<Rightarrow> bool" where
  "empty_val v \<longleftrightarrow> scalar v \<or> v = VArray [] \<or> v = VObject []"

lemma rep_leaf: "jat c p = Some v \<Longrightarrow> empty_val v \<Longrightarrow> rep (leaf v) c p {p} \<and> json_wf (leaf v)"
  by (cases v) (auto simp: leaf_def empty_val_def scalar_def is_array_def is_object_def rep_JObject json_wf_JObject json_wf_JArray)

lemma rep_scalar: "rep t c p S \<Longrightarrow> jat c p = Some v \<Longrightarrow> scalar v \<Longrightarrow> S = {p}"
  by (cases t) (auto simp: scalar_def is_array_def is_object_def rep_JObject)

lemma sound_fill:
  assumes "sound h0 j h (p # st)" "jat (jcells h) p = Some v" "scalar v" "empty_val w"
  shows "sound h0 j (jfill h p w) (p # st)"
proof -
  from assms(1) obtain t S where s: "sound_in h0 j h t S" "set (p # st) \<subseteq> S" unfolding sound_def by blast
  then have "p \<in> S" by simp
  with s(1) obtain tq Sq where q: "rep tq (jcells h) p Sq" "json_wf tq" "Sq \<subseteq> S"
    "\<And>h' tq' Sq'. rep tq' (jcells h') p Sq' \<Longrightarrow> json_wf tq' \<Longrightarrow> Sq' \<subseteq> Sq \<union> {jfree h..<jfree h'} \<Longrightarrow> jfree h \<le> jfree h' \<Longrightarrow>
       (\<And>x. x < jfree h \<Longrightarrow> x \<notin> Sq \<Longrightarrow> jcells h' x = jcells h x) \<Longrightarrow>
       (\<And>x. jcells h' x \<noteq> None \<Longrightarrow> x \<notin> Sq' \<Longrightarrow> x \<notin> Sq \<and> jcells h' x = jcells h x) \<Longrightarrow> \<exists>t'. sound_in h0 j h' t' (S - Sq \<union> Sq')"
    by (rule sound_change) blast
  have Sq: "Sq = {p}" using rep_scalar [OF q(1) assms(2,3)] .
  have "jat (jcells (jfill h p w)) p = Some w" using assms(2) by (simp add: jat_jfill)
  note leaf = rep_leaf [OF this assms(4)]
  have "\<exists>t'. sound_in h0 j (jfill h p w) t' (S - Sq \<union> {p})"
    by (rule q(4) [of "leaf w"]) (use leaf Sq in \<open>simp_all add: jfill_cells\<close>)
  then obtain t' where "sound_in h0 j (jfill h p w) t' (S - Sq \<union> {p})" by blast
  moreover have "S - Sq \<union> {p} = S" using Sq q(3) by auto
  ultimately show ?thesis using s(2) unfolding sound_def by auto
qed

lemma jfill_id: "jat (jcells h) p = Some v \<Longrightarrow> jfill h p v = h"
  using jbare_empty by (fastforce dest!: jat_SomeD)

lemma reset_scalar:
  assumes "jat (jcells h) p = Some v" "scalar v"
  shows "zjson_reset h p = Some (jfill h p VNull)"
proof -
  have "rep (leaf v) (jcells h) p {p}" using rep_leaf [OF assms(1)] assms(2) by (simp add: empty_val_def)
  from zjson_reset_rep [OF this] show ?thesis by (simp add: jreset_def)
qed

lemma jas_scalar:
  assumes "jat (jcells h) p = Some v" "scalar v" "\<not> k VNull" "d \<noteq> VNull"
  shows "jas k d h p = Some (jfill h p (if k v then v else d))"
proof (cases "k v")
  case True
  then have "v \<noteq> VNull" using assms(3) by auto
  with True assms(1) show ?thesis by (simp add: jas_same jfill_id)
next
  case False
  from assms(1) obtain n where n: "jget h p = Some n" "jval n = v" by (auto dest: jat_SomeD)
  let ?h = "jfill h p VNull"
  have null: "jat (jcells ?h) p = Some VNull" using assms(1) by (simp add: jat_jfill)
  then obtain n1 where "jget ?h p = Some n1" "jval n1 = VNull" by (auto dest: jat_SomeD)
  with n False reset_scalar [OF assms(1,2)] jput_jat [OF null, of d] show ?thesis
    by (simp add: jas_def jfill_jfill)
qed

lemma fill_any:
  assumes "jat (jcells h) p = Some v" "scalar v" "\<not> k VNull" "d \<noteq> VNull"
  shows "Option.bind (jas k d h p) (\<lambda>h1. Option.bind (jput h1 p w) (\<lambda>h2. Some (Next h2 r st))) =
    Some (Next (jfill h p w) r st)"
proof -
  let ?u = "if k v then v else d"
  have "jat (jcells (jfill h p ?u)) p = Some ?u" using assms(1) by (simp add: jat_jfill)
  from jput_jat [OF this, of w] show ?thesis using jas_scalar [of h p v k d, OF assms] by (simp add: jfill_jfill)
qed

lemma get_container_scalar:
  assumes "jat (jcells h) p = Some v" "scalar v"
  shows "zjson_get_array_value h p = Some (jfill h p (VArray []), [])"
    and "zjson_get_object_value h p = Some (jfill h p (VObject []), [])"
proof -
  have k: "\<not> is_array v" "\<not> is_object v" using assms(2) by (simp_all add: scalar_def)
  have "jat (jcells (jfill h p w)) p = Some w" for w using assms(1) by (simp add: jat_jfill)
  then have n: "\<exists>n. jget (jfill h p w) p = Some n \<and> jval n = w" for w by (metis jat_SomeD)
  show "zjson_get_array_value h p = Some (jfill h p (VArray []), [])"
    using jas_scalar [OF assms, of is_array "VArray []"] n [of "VArray []"] k
    by (auto simp: is_array_def zjson_get_array_value_def)
  show "zjson_get_object_value h p = Some (jfill h p (VObject []), [])"
    using jas_scalar [OF assms, of is_object "VObject []"] n [of "VObject []"] k
    by (auto simp: is_object_def zjson_get_object_value_def)
qed

text \<open>A null element at the end of an array.\<close>

lemma sound_less: "sound h0 j h st \<Longrightarrow> q \<in> set st \<Longrightarrow> q < jfree h"
  unfolding sound_def sound_in_def by fastforce

lemma rep_null_new: "p < jfree h \<Longrightarrow> jat (jcells h) p = Some w \<Longrightarrow> rep JNull (jcells (jadd h p v)) (jfree h) {jfree h}"
  by (simp add: jadd_facts)

lemma jadd_jat:
  assumes "p < jfree h" "jat (jcells h) p = Some w" "q \<noteq> p" "q \<noteq> jfree h"
  shows "jat (jcells (jadd h p v)) q = jat (jcells h) q"
  using jadd_facts(4) [OF assms(1,2), of q v] assms(3,4) by (simp add: jat_def)

lemma sound_push:
  assumes "sound h0 j h (p # st)" "jat (jcells h) p = Some (VArray qs)"
  shows "sound h0 j (jadd h p (VArray (qs @ [jfree h]))) (jfree h # p # st)"
proof -
  let ?h = "jadd h p (VArray (qs @ [jfree h]))"
  have p: "p < jfree h" using sound_less [OF assms(1)] by simp
  note a = jadd_facts [OF p assms(2), where v = "VArray (qs @ [jfree h])"]
  from assms(1) obtain t S where s: "sound_in h0 j h t S" "set (p # st) \<subseteq> S" unfolding sound_def by blast
  have lt: "x < jfree h" if "x \<in> S" for x using that s(1) unfolding sound_in_def by fastforce
  from s have "p \<in> S" by simp
  with s(1) obtain tq Sq where q: "rep tq (jcells h) p Sq" "json_wf tq" "Sq \<subseteq> S"
    "\<And>h' tq' Sq'. rep tq' (jcells h') p Sq' \<Longrightarrow> json_wf tq' \<Longrightarrow> Sq' \<subseteq> Sq \<union> {jfree h..<jfree h'} \<Longrightarrow> jfree h \<le> jfree h' \<Longrightarrow>
       (\<And>x. x < jfree h \<Longrightarrow> x \<notin> Sq \<Longrightarrow> jcells h' x = jcells h x) \<Longrightarrow>
       (\<And>x. jcells h' x \<noteq> None \<Longrightarrow> x \<notin> Sq' \<Longrightarrow> x \<notin> Sq \<and> jcells h' x = jcells h x) \<Longrightarrow> \<exists>t'. sound_in h0 j h' t' (S - Sq \<union> Sq')"
    by (rule sound_change) blast
  from q(1) assms(2) obtain ts S' where ts: "tq = JArray ts" "many qs ts (jcells h) S'" "p \<notin> S'" "Sq = insert p S'"
    by (cases tq) (auto simp: rep_JObject)
  have old: "x \<noteq> p \<and> x \<noteq> jfree h" if "x \<in> S'" for x using that ts(3,4) q(3) lt [of x] by auto
  then have "\<forall>x \<in> S'. jcells h x = jcells ?h x" using a(4) by simp
  with ts(2) have "many qs ts (jcells ?h) S'" by (rule forest_frame)
  then have "many (qs @ [jfree h]) (ts @ [JNull]) (jcells ?h) (S' \<union> {jfree h})"
    using rep_null_new [OF p assms(2)] old by (simp only: map_append list.map forest_snoc) blast
  then have "rep (JArray (ts @ [JNull])) (jcells ?h) p (insert p (S' \<union> {jfree h}))"
    unfolding rep.simps by (intro exI conjI) (use a(2) ts(3) p in auto)
  moreover have "json_wf (JArray (ts @ [JNull]))" using q(2) ts(1) by (simp add: json_wf_JArray)
  ultimately obtain t' where "sound_in h0 j ?h t' (S - Sq \<union> insert p (S' \<union> {jfree h}))"
    using q(4) [of "JArray (ts @ [JNull])" ?h "insert p (S' \<union> {jfree h})"] a(1,4) ts(4) by auto
  moreover have "S - Sq \<union> insert p (S' \<union> {jfree h}) = insert (jfree h) S" using ts(4) q(3) by auto
  ultimately show ?thesis using s(2) unfolding sound_def by auto
qed

text \<open>A null member of an object; \<open>So\<close> are the nodes of the member it replaces, if there is one.\<close>

lemma forest_put:
  assumes "many (map snd es) (map snd m) c S" "map fst es = map fst m" "sorted_wrt (<) (map fst m)"
    and "rep tn c r Sr" "Sr \<inter> S = {}"
  shows "\<exists>So. many (map snd (obj_put k r es)) (map snd (obj_put k tn m)) c (S - So \<union> Sr)
    \<and> map fst (obj_put k r es) = map fst (obj_put k tn m) \<and> So \<subseteq> S
    \<and> (if obj_find k es = 0 then So = {} else \<exists>told. rep told c (obj_find k es) So)"
  using assms
proof (induction m arbitrary: es S)
  case Nil
  then have "es = []" "S = {}" by auto
  with Nil.prems(4) show ?case by (auto simp: obj_find_def)
next
  case (Cons e m)
  obtain k' t' where e: "e = (k', t')" by (cases e)
  from Cons.prems(1,2) obtain r' es' S1 S2 where es: "es = (k', r') # es'" "map fst es' = map fst m"
    "rep t' c r' S1" "many (map snd es') (map snd m) c S2" "S1 \<inter> S2 = {}" "S = S1 \<union> S2"
    unfolding e by (cases es) auto
  have r': "r' \<noteq> 0" using rep_root [OF es(3)] by simp
  consider "k = k'" | "k < k'" | "k' < k" by (meson less_linear)
  then show ?case
  proof cases
    case 1
    have "many (r # map snd es') (tn # map snd m) c (Sr \<union> S2)"
      using Cons.prems(5) es(6) by (intro many_Cons Cons.prems(4) es(4)) auto
    moreover have "S - S1 \<union> Sr = Sr \<union> S2" using es(5,6) by auto
    ultimately show ?thesis using 1 es r' e by (intro exI [of _ S1]) (auto simp: obj_find_def)
  next
    case 2
    have "k \<notin> set (map fst es)" using 2 Cons.prems(3) es(1,2) unfolding e by (auto dest: less_trans)
    then have "obj_find k es = 0" by (simp add: obj_find_def map_of_eq_None_iff [THEN iffD2])
    moreover have "many (r # map snd es) (tn # map snd (e # m)) c (Sr \<union> S)"
      using Cons.prems(5) by (intro many_Cons Cons.prems(4,1)) auto
    ultimately show ?thesis using 2 es(1) e Cons.prems(2) by (intro exI [of _ "{}"]) (auto simp: Un_commute)
  next
    case 3
    then have ne: "k \<noteq> k'" "\<not> k < k'" by auto
    have "Sr \<inter> S2 = {}" "sorted_wrt (<) (map fst m)" using Cons.prems(3,5) es(6) e by auto
    from Cons.IH [OF es(4,2) this(2) Cons.prems(4) this(1)] obtain So where
      So: "many (map snd (obj_put k r es')) (map snd (obj_put k tn m)) c (S2 - So \<union> Sr)"
      "map fst (obj_put k r es') = map fst (obj_put k tn m)" "So \<subseteq> S2"
      "if obj_find k es' = 0 then So = {} else \<exists>told. rep told c (obj_find k es') So"
      by blast
    have "many (r' # map snd (obj_put k r es')) (t' # map snd (obj_put k tn m)) c (S1 \<union> (S2 - So \<union> Sr))"
      using Cons.prems(5) es(5,6) by (intro many_Cons es(3) So(1)) auto
    moreover have "S - So \<union> Sr = S1 \<union> (S2 - So \<union> Sr)" using es(5,6) So(3) by auto
    moreover have "obj_find k es = obj_find k es'" using ne es(1) by (simp add: obj_find_def)
    ultimately show ?thesis using So(2-4) ne es(1,6) e by (intro exI [of _ So]) auto
  qed
qed

lemma json_wf_put:
  assumes "json_wf (JObject m)"
  shows "json_wf (JObject (obj_put k JNull m))"
proof -
  have "json_wf t" if "t \<in> set (map snd (obj_put k JNull m))" for t
    using subsetD [OF obj_put_vals that] assms by (auto simp: json_wf_JObject)
  then show ?thesis using obj_put_sorted [of m k JNull] assms unfolding json_wf_JObject by blast
qed

lemma zjson_free_rep:
  assumes "rep t (jcells h) p S"
  shows "zjson_free h p = Some (jwithout h S)"
proof -
  from assms obtain v where v: "jat (jcells h) p = Some v" by (cases t) (auto simp: rep_JObject)
  then obtain n where n: "jget h p = Some n" "jval n = v" "p \<noteq> 0" by (auto dest: jat_SomeD)
  have "p \<in> S" using rep_root [OF assms] by simp
  then have r: "jrelease (jreset h p S) p = jwithout h S"
    unfolding jrelease_def jreset_def jbare_def jwithout_def by (intro jheap.equality) (auto simp: restrict_map_def)
  show ?thesis
  proof (cases "scalar v")
    case True
    then have "S = {p}" using rep_scalar [OF assms v] by simp
    then show ?thesis using True n jrelease_jwithout [of h "{}" p] by (simp add: zjson_free_def scalar_def)
  next
    case False
    then show ?thesis using n zjson_reset_rep [OF assms] r by (auto simp: zjson_free_def scalar_def)
  qed
qed

lemma jwithout_gone: "x \<in> S \<Longrightarrow> jcells (jwithout h S) x = None"
  by (simp add: jwithout_def)

lemma sound_member:
  assumes "sound h0 j h (p # st)" "jat (jcells h) p = Some (VObject es)"
  shows "\<exists>h2 old. zjson_object_update (fst (zjson_create h)) p k (jfree h) True = Some (h2, Some old)
    \<and> (if old = 0 then sound h0 j h2 (jfree h # p # st) \<and> jat (jcells h2) (jfree h) = Some VNull
       else \<exists>h3. zjson_free h2 old = Some h3 \<and> sound h0 j h3 [])"
proof -
  let ?v = "VObject (obj_put k (jfree h) es)"
  let ?h = "jadd h p ?v"
  let ?old = "obj_find k es"
  have p: "p < jfree h" using sound_less [OF assms(1)] by simp
  note a = jadd_facts [OF p assms(2), where v = ?v]
  have upd: "zjson_object_update (fst (zjson_create h)) p k (jfree h) True = hand_out ?h ?old True"
  proof -
    have "jat (jcells (jnew h p)) p = Some (VObject es)" using assms(2) p by (simp add: jat_jnew)
    then show ?thesis using p get_object_same [of "jnew h p" p es] jput_jat [of "jnew h p" p]
      by (simp add: zjson_object_update_def create_parent jfill_jnew)
  qed
  from assms(1) obtain t S where s: "sound_in h0 j h t S" "set (p # st) \<subseteq> S" unfolding sound_def by blast
  have lt: "x < jfree h" if "x \<in> S" for x using that s(1) unfolding sound_in_def by fastforce
  from s have "p \<in> S" by simp
  with s(1) obtain tq Sq where q: "rep tq (jcells h) p Sq" "json_wf tq" "Sq \<subseteq> S"
    "\<And>h' tq' Sq'. rep tq' (jcells h') p Sq' \<Longrightarrow> json_wf tq' \<Longrightarrow> Sq' \<subseteq> Sq \<union> {jfree h..<jfree h'} \<Longrightarrow> jfree h \<le> jfree h' \<Longrightarrow>
       (\<And>x. x < jfree h \<Longrightarrow> x \<notin> Sq \<Longrightarrow> jcells h' x = jcells h x) \<Longrightarrow>
       (\<And>x. jcells h' x \<noteq> None \<Longrightarrow> x \<notin> Sq' \<Longrightarrow> x \<notin> Sq \<and> jcells h' x = jcells h x) \<Longrightarrow> \<exists>t'. sound_in h0 j h' t' (S - Sq \<union> Sq')"
    by (rule sound_change) blast
  from q(1) assms(2) obtain m S' where m: "tq = JObject m" "map fst es = map fst m" "many (map snd es) (map snd m) (jcells h) S'"
    "p \<notin> S'" "Sq = insert p S'"
    by (cases tq) (auto simp: rep_JObject)
  have old: "x \<noteq> p \<and> x \<noteq> jfree h" if "x \<in> S'" for x using that m(4,5) q(3) lt [of x] by auto
  then have "\<forall>x \<in> S'. jcells h x = jcells ?h x" using a(4) by simp
  with m(3) have f: "many (map snd es) (map snd m) (jcells ?h) S'" by (rule forest_frame)
  have sorted: "sorted_wrt (<) (map fst m)" using q(2) m(1) by (simp add: json_wf_JObject)
  have "{jfree h} \<inter> S' = {}" using old by auto
  from forest_put [OF f m(2) sorted rep_null_new [OF p assms(2)] this, of k] obtain So where
    So: "many (map snd (obj_put k (jfree h) es)) (map snd (obj_put k JNull m)) (jcells ?h) (S' - So \<union> {jfree h})"
    "map fst (obj_put k (jfree h) es) = map fst (obj_put k JNull m)" "So \<subseteq> S'"
    "if ?old = 0 then So = {} else \<exists>told. rep told (jcells ?h) ?old So"
    by blast
  let ?Sq = "insert p (S' - So \<union> {jfree h})"
  have wf: "json_wf (JObject (obj_put k JNull m))" using q(2) m(1) json_wf_put by blast
  have r: "rep (JObject (obj_put k JNull m)) (jcells ?h) p ?Sq"
    unfolding rep_JObject using So(1,2) a(2) m(4) p
    by (intro exI [of _ "obj_put k (jfree h) es"] exI [of _ "S' - So \<union> {jfree h}"]) auto
  show ?thesis
  proof (cases "?old = 0")
    case True
    with So(4) have e: "So = {}" by simp
    have "\<exists>t'. sound_in h0 j ?h t' (S - Sq \<union> ?Sq)"
      by (rule q(4) [OF r wf]) (use a(1,4) m(5) e in auto)
    then obtain t' where "sound_in h0 j ?h t' (S - Sq \<union> ?Sq)" by blast
    moreover have "S - Sq \<union> ?Sq = insert (jfree h) S" using m(5) q(3) e by auto
    ultimately have "sound h0 j ?h (jfree h # p # st)" using s(2) unfolding sound_def by auto
    with True upd a(3) show ?thesis by (simp add: hand_out_def)
  next
    case False
    with So(4) obtain told where told: "rep told (jcells ?h) ?old So" by auto
    have oin: "?old \<in> So" "?old \<noteq> 0" using rep_root [OF told] by simp_all
    then have "?old \<in> S'" using So(3) by blast
    obtain n where n: "jget ?h ?old = Some n" using told by (cases told) (auto simp: rep_JObject dest: jat_SomeD)
    let ?h2 = "?h\<lparr>jcells := (jcells ?h)(?old \<mapsto> n\<lparr>jparent := 0\<rparr>)\<rparr>"
    have ho: "hand_out ?h ?old True = Some (?h2, Some ?old)"
      using False n by (simp add: hand_out_def jset_parent_def)
    have jat2: "jat (jcells ?h2) x = jat (jcells ?h) x" for x using n by (auto simp: jat_def jget_def split: if_splits)
    then have "rep told (jcells ?h2) ?old So" using rep_jat [OF told] by simp
    then have fr: "zjson_free ?h2 ?old = Some (jwithout ?h2 So)" by (rule zjson_free_rep)
    let ?h3 = "jwithout ?h2 So"
    have d: "?Sq \<inter> So = {}" using So(3) m(4) old by auto
    have "\<forall>x \<in> ?Sq. jat (jcells ?h) x = jat (jcells ?h3) x"
    proof
      fix x
      assume "x \<in> ?Sq"
      then have "x \<notin> So" by (metis d IntI emptyE)
      then show "jat (jcells ?h) x = jat (jcells ?h3) x" using oin(1) by (auto simp: jat_def)
    qed
    with r have r3: "rep (JObject (obj_put k JNull m)) (jcells ?h3) p ?Sq" by (rule rep_jat)
    have rest: "x \<notin> Sq \<and> jcells ?h3 x = jcells h x" if "jcells ?h3 x \<noteq> None" "x \<notin> ?Sq" for x
    proof -
      have "x \<notin> So" using that(1) oin(1) by (metis jwithout_gone)
      then have "x \<notin> Sq" "x \<noteq> ?old" "x \<noteq> p" "x \<noteq> jfree h" using that(2) m(5) \<open>?old \<in> So\<close> by auto
      then show ?thesis using \<open>x \<notin> So\<close> a(4) [of x] by simp
    qed
    have "jcells ?h3 x = jcells h x" if "x < jfree h" "x \<notin> Sq" for x
    proof -
      have "x \<notin> So" "x \<noteq> ?old" "x \<noteq> p" using that(2) So(3) m(5) \<open>?old \<in> S'\<close> by auto
      then show ?thesis using that(1) a(4) [of x] by simp
    qed
    then obtain t' where "sound_in h0 j ?h3 t' (S - Sq \<union> ?Sq)"
      using q(4) [OF r3 wf _ _ _ rest] a(1) m(5) by auto
    then have "sound h0 j ?h3 []" unfolding sound_def by auto
    with False upd ho fr show ?thesis by simp
  qed
qed

section \<open>Every turn makes progress\<close>

definition fuel :: "'d jheap \<Rightarrow> bytes \<Rightarrow> jref list \<Rightarrow> nat" where
  "fuel h ps st = 2 * length ps +
     (case st of [] \<Rightarrow> 0 | p # _ \<Rightarrow> (case jat (jcells h) p of Some v \<Rightarrow> if scalar v then 0 else 1 | None \<Rightarrow> 0))"

lemma fuel_le: "fuel h ps st \<le> 2 * length ps + 1" "2 * length ps \<le> fuel h ps st"
  by (simp_all add: fuel_def split: list.splits option.splits)

text \<open>What a turn may yield.\<close>

definition good :: "'d jheap \<Rightarrow> jref \<Rightarrow> nat \<Rightarrow> 'd outcome option \<Rightarrow> bool" where
  "good h0 j n out \<longleftrightarrow> (case out of
      None \<Rightarrow> False
    | Some (Next h ps st) \<Rightarrow> sound h0 j h st \<and> fuel h ps st < n
    | Some (Stop ret h) \<Rightarrow> sound h0 j h [])"

lemma good_Stop: "sound h0 j h st \<Longrightarrow> good h0 j n (Some (Stop ret h))"
  by (auto simp: good_def intro: sound_mono)

lemma good_Next: "sound h0 j h st \<Longrightarrow> 2 * length ps + 1 < n \<Longrightarrow> good h0 j n (Some (Next h ps st))"
  using fuel_le(1) [of h ps st] by (simp add: good_def)

lemma skip_commas_length: "skip_commas ps n = Some (c, r, k) \<Longrightarrow> length r < length ps"
proof (induction ps n rule: skip_commas.induct)
  case (1 ps n)
  then show ?case
    by (subst (asm) (2) skip_commas.simps)
       (auto split: list.splits if_splits dest!: ignore_blank_length)
qed

lemma fetch_loop_length: "length (snd (fetch_loop q ps str)) \<le> length ps"
proof (induction q ps str rule: fetch_loop.induct)
  case (2 q c ps str)
  show ?case
  proof (cases ps)
    case Nil
    then show ?thesis by simp
  next
    case (Cons ch2 ps2)
    consider (quote) "c = 34 \<or> c = 39" | (unicode) "c = 92" "ch2 = 117" | (escape) "c = 92" "ch2 \<noteq> 117"
      | (plain) "c \<notin> {34, 39, 92}" by auto
    then show ?thesis
    proof cases
      case quote
      with 2(1,2) show ?thesis by (auto intro: le_SucI)
    next
      case unicode
      show ?thesis
      proof (cases "\<exists>a b d e ps3. ps2 = a # b # d # e # ps3")
        case True
        then obtain a b d e ps3 where "ps2 = a # b # d # e # ps3" by blast
        with unicode Cons 2(3) show ?thesis by (simp add: le_SucI)
      next
        case False
        with unicode Cons show ?thesis by (auto split: list.splits)
      qed
    next
      case escape
      with Cons 2(4) show ?thesis by (simp add: le_SucI)
    next
      case plain
      with Cons 2(5) show ?thesis by (simp add: le_SucI)
    qed
  qed
qed simp

lemma fetch_length: "fetch_string (c # r) = (s, ps2) \<Longrightarrow> length ps2 \<le> length r"
  using fetch_loop_length [of c r "[]"] by (simp add: fetch_string_def)

lemma fetch2_length: "fetch_string2 ps = (s, ps2) \<Longrightarrow> length ps2 \<le> length ps"
  by (auto simp: fetch_string2_def Let_def length_dropWhile_le)

lemma good_object_turn:
  assumes "sound h0 j h (p # st)" "jat (jcells h) p = Some (VObject es)" "2 * length ps < n"
  shows "good h0 j n (object_turn h ps p st es)"
proof (cases "skip_commas ps 0")
  case None
  then show ?thesis using good_Stop [OF assms(1)] by (simp add: object_turn_def)
next
  case (Some x)
  obtain c r k where x: "skip_commas ps 0 = Some (c, r, k)" using Some by (cases x) auto
  have len: "length r < length ps" using skip_commas_length [OF x] .
  obtain key ps2 where key: "(if c = 34 \<or> c = 39 then fetch_string (c # r) else fetch_string2 (c # r)) = (key, ps2)"
    by (meson surj_pair)
  have len2: "length ps2 \<le> Suc (length r)"
    using key fetch_length [of c r key ps2] fetch2_length [of "c # r" key ps2] by (auto split: if_splits)
  obtain h2 old where u: "zjson_object_update (fst (zjson_create h)) p (cs key) (jfree h) True = Some (h2, Some old)"
    "if old = 0 then sound h0 j h2 (jfree h # p # st) \<and> jat (jcells h2) (jfree h) = Some VNull
     else \<exists>h3. zjson_free h2 old = Some h3 \<and> sound h0 j h3 []"
    using sound_member [OF assms(1,2), of "cs key"] by blast
  have snd: "snd (zjson_create h) = jfree h" by (simp add: zjson_create_def jalloc_def)
  have rest: "ignore_blank ps2 = d # ps3 \<Longrightarrow> length ps3 < length ps" for d ps3
    using ignore_blank_length [of ps2 d ps3] len len2 by simp
  show ?thesis
  proof (cases old)
    case 0
    with u(2) have s2: "sound h0 j h2 (jfree h # p # st)" by simp
    show ?thesis
      using x key u(1) snd 0 assms(1,3) len rest
      by (auto simp: object_turn_def split_beta Let_def split: list.splits intro!: good_Stop [OF assms(1)]
        good_Stop [OF s2] good_Next [OF s2] good_Next [OF sound_mono [OF assms(1)]])
  next
    case (Suc o)
    with u(2) obtain h3 where h3: "zjson_free h2 old = Some h3" "sound h0 j h3 []" by auto
    show ?thesis
      using x key u(1) snd Suc assms(1,3) len h3(1)
      by (auto simp: object_turn_def split_beta Let_def split: list.splits intro!: good_Stop [OF assms(1)]
        good_Stop [OF h3(2)] good_Next [OF sound_mono [OF assms(1)]])
  qed
qed

lemma sound_push_nulls:
  assumes "sound h0 j h (p # st)" "jat (jcells h) p = Some (VArray qs)"
  shows "\<exists>h' qs'. push_nulls h p n = Some h' \<and> sound h0 j h' (p # st) \<and> jat (jcells h') p = Some (VArray qs')"
  using assms
proof (induction n arbitrary: h qs)
  case (Suc n)
  have p: "p < jfree h" using sound_less [OF Suc.prems(1)] by simp
  let ?h = "jadd h p (VArray (qs @ [jfree h]))"
  have "sound h0 j ?h (p # st)" using sound_push [OF Suc.prems] by (rule sound_mono) auto
  with jadd_facts(2) [OF p Suc.prems(2)] Suc.IH [of ?h] push_new [OF Suc.prems(2) p] show ?case
    by (simp add: split_beta zjson_create_def jalloc_def)
qed auto

lemma good_array_turn:
  assumes "sound h0 j h (p # st)" "jat (jcells h) p = Some (VArray qs)" "2 * length ps < n"
  shows "good h0 j n (array_turn h ps p st)"
proof (cases "skip_commas ps 0")
  case None
  then show ?thesis using good_Stop [OF assms(1)] by (simp add: array_turn_def)
next
  case (Some x)
  obtain c r k where x: "skip_commas ps 0 = Some (c, r, k)" using Some by (cases x) auto
  have len: "length r < length ps" using skip_commas_length [OF x] .
  show ?thesis
  proof (cases "c = 93")
    case True
    obtain h1 where h1: "push_nulls h p k = Some h1" "sound h0 j h1 (p # st)"
      using sound_push_nulls [OF assms(1,2), of k] by blast
    have "sound h0 j h1 st" using h1(2) by (rule sound_mono) auto
    then show ?thesis using True x h1(1) len assms(3) by (auto simp: array_turn_def intro!: good_Next)
  next
    case False
    obtain h1 qs1 where h1: "push_nulls h p (k - 1) = Some h1" "sound h0 j h1 (p # st)" "jat (jcells h1) p = Some (VArray qs1)"
      using sound_push_nulls [OF assms(1,2), of "k - 1"] by blast
    have p: "p < jfree h1" using sound_less [OF h1(2)] by simp
    let ?h = "jadd h1 p (VArray (qs1 @ [jfree h1]))"
    have "fuel ?h (c # r) (jfree h1 # p # st) = 2 * length (c # r)"
      using jadd_facts(3) [OF p h1(3)] by (simp add: fuel_def scalar_def is_array_def is_object_def)
    then have "good h0 j n (Some (Next ?h (c # r) (jfree h1 # p # st)))"
      using sound_push [OF h1(2,3)] len assms(3) by (simp add: good_def)
    moreover have "zjson_array_get_len h1 p = Some (h1, length qs1)"
      using get_array_same [OF h1(3)] by (simp add: zjson_array_get_len_def)
    ultimately show ?thesis
      using False x h1(1) push_new [OF h1(3) p] good_Stop [OF h1(2)]
      by (simp add: array_turn_def split_beta zjson_create_def jalloc_def)
  qed
qed

lemma good_fill:
  assumes "sound h0 j h (p # st)" "jat (jcells h) p = Some v" "scalar v" "empty_val w" "2 * length ps + 1 < n"
  shows "good h0 j n (Some (Next (jfill h p w) ps st))"
  by (rule good_Next [OF sound_mono [OF sound_fill [OF assms(1-4)]] assms(5)]) auto

lemma scalar_vals:
  "empty_val VNull" "empty_val (VBool b)" "empty_val (VString s)" "empty_val (VLong l)" "empty_val (VDouble d)"
  by (simp_all add: empty_val_def scalar_def is_array_def is_object_def)

lemma kinds_null: "\<not> is_string VNull" "\<not> is_long VNull" "\<not> is_double VNull" "\<not> is_bool VNull"
  by (simp_all add: is_string_def is_long_def is_double_def is_bool_def)

lemma good_string_turn:
  assumes "sound h0 j h (p # st)" "jat (jcells h) p = Some v" "scalar v" "2 * length (c # r) \<le> n"
  shows "good h0 j n (string_turn h (c # r) p st v)"
proof -
  obtain s ps2 where f: "fetch_string (c # r) = (s, ps2)" by fastforce
  have "2 * length ps2 + 1 < n" using fetch_length [OF f] assms(4) by simp
  note g = good_fill [OF assms(1-3) scalar_vals(3) this]
  show ?thesis
    using f good_Stop [OF assms(1)] g fill_any [of h p v is_string "VString []", OF assms(2,3) kinds_null(1)]
    by (simp add: string_turn_def zjson_get_string_value_def)
qed

lemma drop_shorter: "P c \<Longrightarrow> length (dropWhile P (c # r)) \<le> length r"
  by (simp add: length_dropWhile_le)

lemma good_number_turn:
  assumes "sound h0 j h (p # st)" "jat (jcells h) p = Some v" "scalar v" "2 * length (c # r) \<le> n" "number_char c"
  shows "good h0 j n (number_turn atof h (c # r) p st)"
proof -
  have "2 * length (dropWhile number_char (c # r)) + 1 < n" using drop_shorter [of number_char c r] assms(4,5) by simp
  note g = good_fill [OF assms(1-3) _ this]
  show ?thesis unfolding number_turn_def Let_def zjson_get_double_value_def zjson_get_long_value_def
    using fill_any [of h p v is_double "VDouble 0", OF assms(2,3) kinds_null(3)]
      fill_any [of h p v is_long "VLong 0", OF assms(2,3) kinds_null(2)] g [OF scalar_vals(4)] g [OF scalar_vals(5)]
    by simp
qed

lemma good_word_turn:
  assumes "sound h0 j h (p # st)" "jat (jcells h) p = Some v" "scalar v" "2 * length (c # r) \<le> n"
  shows "good h0 j n (word_turn h (c # r) p st)"
proof (cases "isalpha c")
  case True
  have "2 * length (dropWhile isalpha (c # r)) + 1 < n" using drop_shorter [of isalpha c r, OF True] assms(4) by simp
  note g = good_fill [OF assms(1-3) _ this]
  show ?thesis unfolding word_turn_def Let_def zjson_get_bool_value_def
    using fill_any [of h p v is_bool "VBool 0", OF assms(2,3) kinds_null(4)] g [OF scalar_vals(1)] g [OF scalar_vals(2)]
      good_Stop [OF assms(1)] reset_scalar [OF assms(2,3)]
    by simp
next
  case False
  then show ?thesis using good_Stop [OF assms(1)] by (simp add: word_turn_def cstr_def)
qed

lemma sound_jat: "sound h0 j h (p # st) \<Longrightarrow> \<exists>v. jat (jcells h) p = Some v"
proof -
  assume "sound h0 j h (p # st)"
  then obtain t S where s: "sound_in h0 j h t S" "p \<in> S" unfolding sound_def by auto
  from sound_change [OF s] obtain tq Sq where "rep tq (jcells h) p Sq" by metis
  then show ?thesis by (cases tq) (auto simp: rep_JObject)
qed

lemma good_turn:
  assumes "sound h0 j h st"
  shows "good h0 j (fuel h ps st) (unserialize_turn atof h ps st)"
proof (cases "ignore_blank ps")
  case Nil
  then show ?thesis using good_Stop [OF assms] by (simp add: unserialize_turn_def)
next
  case c: (Cons c r)
  show ?thesis
  proof (cases st)
    case Nil
    then show ?thesis using c good_Stop [OF assms] by (simp add: unserialize_turn_def)
  next
    case (Cons p st')
    note s = assms [unfolded Cons]
    obtain v where v: "jat (jcells h) p = Some v" using sound_jat [OF s] by blast
    then obtain nd where n: "jget h p = Some nd" "jval nd = v" by (auto dest: jat_SomeD)
    have len: "length (c # r) \<le> length ps" using ignore_blank_length [OF c] by simp
    show ?thesis
    proof (cases "scalar v")
      case False
      then have f: "fuel h ps st = 2 * length ps + 1" using v Cons by (simp add: fuel_def)
      with False n v c Cons len show ?thesis
        using good_object_turn [OF s, of _ "c # r" "fuel h ps st"] good_array_turn [OF s, of _ "c # r" "fuel h ps st"]
        by (cases v) (auto simp: unserialize_turn_def scalar_def is_array_def is_object_def)
    next
      case True
      let ?n = "fuel h ps st"
      have f: "2 * length (c # r) \<le> ?n" using fuel_le(2) [of ps h st] len by linarith
      have "2 * length r + 1 < ?n" using f by simp
      note e = this
      have o: "good h0 j ?n (Some (Next (jfill h p w) r (p # st')))" if "empty_val w" for w
        by (rule good_Next [OF sound_fill [OF s v True that] e])
      have num: "c = 45 \<or> isdigit c \<Longrightarrow> number_char c" by (auto simp: number_char_def)
      have "unserialize_turn atof h ps st =
          (if c = 123 then Some (Next (jfill h p (VObject [])) r (p # st'))
           else if c = 91 then Some (Next (jfill h p (VArray [])) r (p # st'))
           else if c = 34 \<or> c = 39 then string_turn h (c # r) p st' v
           else if c = 45 \<or> isdigit c then number_turn atof h (c # r) p st'
           else word_turn h (c # r) p st')"
        using True n c Cons get_container_scalar [OF v True]
        by (cases v) (simp_all add: unserialize_turn_def scalar_def is_array_def is_object_def)
      then show ?thesis
        using o [of "VObject []"] o [of "VArray []"] good_string_turn [OF s v True f] num
          good_number_turn [OF s v True f, of atof] good_word_turn [OF s v True f]
        by (simp add: empty_val_def)
    qed
  qed
qed

lemma unserialize_loop_total:
  assumes "sound h0 j h st"
  shows "\<exists>h' ret. unserialize_loop atof h ps st = Some (h', ret) \<and> sound h0 j h' []"
  using assms
proof (induction "fuel h ps st" arbitrary: h ps st rule: less_induct)
  case less
  show ?case
  proof (cases "ps = []")
    case True
    then show ?thesis using sound_mono [OF less.prems, of "[]"] by (auto simp: unserialize_loop.simps)
  next
    case False
    note g = good_turn [OF less.prems, of ps atof]
    then obtain out where out: "unserialize_turn atof h ps st = Some out" by (auto simp: good_def split: option.splits)
    show ?thesis
    proof (cases out)
      case (Next h1 ps1 st1)
      with g out have "sound h0 j h1 st1" "fuel h1 ps1 st1 < fuel h ps st" by (simp_all add: good_def)
      with less.hyps [of h1 ps1 st1] Next out False show ?thesis by (subst unserialize_loop.simps) simp
    next
      case (Stop ret h1)
      with g out False show ?thesis by (subst unserialize_loop.simps) (simp add: good_def)
    qed
  qed
qed

lemma zjson_unserialize_total:
  assumes "rep t0 (jcells h) j S0" "j < jfree h" "\<forall>q \<in> dom (jcells h). q < jfree h"
  shows "\<exists>h' ret t S. zjson_unserialize atof h j jstr jlen = Some (h', ret) \<and> rep t (jcells h') j S \<and> json_wf t
    \<and> (\<not> ret \<longrightarrow> t = JNull) \<and> (\<forall>q < jfree h. q \<notin> S0 \<longrightarrow> jcells h' q = jcells h q)
    \<and> dom (jcells h') \<subseteq> (dom (jcells h) - S0) \<union> S"
proof -
  let ?h0 = "jreset h j S0"
  note root = rep_root [OF assms(1)]
  have "jat (jcells h) j \<noteq> None" using assms(1) by (cases t0) (auto simp: rep_JObject)
  then have null: "jat (jcells ?h0) j = Some VNull" by (auto simp: jreset_def jbare_def jat_def split: if_splits)
  have free: "jfree ?h0 = jfree h" by (simp add: jreset_def jbare_def)
  have old: "jcells ?h0 q = jcells h q" if "q \<notin> S0" for q using that root by (auto simp: jreset_def jbare_def)
  have gone: "jcells ?h0 q = None" if "q \<in> S0" "q \<noteq> j" for q using that by (simp add: jreset_def jbare_def)
  have new: "q < jfree h" if "jcells ?h0 q \<noteq> None" for q
  proof (cases "q \<in> S0")
    case True
    then have "q = j" using gone [OF True] that by (rule_tac ccontr) simp
    with assms(2) show ?thesis by simp
  next
    case False
    with old that assms(3) show ?thesis by (simp add: domIff)
  qed
  have "sound_in ?h0 j ?h0 JNull {j}" using null assms(2) free new by (simp add: sound_in_def)
  then have "sound ?h0 j ?h0 [j]" unfolding sound_def by (intro exI [of _ JNull] exI [of _ "{j}"]) simp
  from unserialize_loop_total [OF this] obtain h1 ret where
    h1: "unserialize_loop atof ?h0 (src_bytes jstr jlen) [j] = Some (h1, ret)" "sound ?h0 j h1 []" by blast
  from h1(2) obtain t S where t: "rep t (jcells h1) j S" "json_wf t" "S \<subseteq> insert j {jfree h..<jfree h1}"
    "\<forall>q < jfree h. q \<noteq> j \<longrightarrow> jcells h1 q = jcells ?h0 q" "\<forall>q. jcells h1 q \<noteq> None \<longrightarrow> q < jfree h \<or> q \<in> S"
    unfolding sound_def sound_in_def free by blast
  have keep: "jcells h1 q = jcells h q" if "q < jfree h" "q \<notin> S0" for q
    using t(4) that old root by metis
  have dom: "q \<in> dom (jcells h) - S0" if "jcells h1 q \<noteq> None" "q \<notin> S" for q
  proof -
    have "q \<noteq> j" using rep_root [OF t(1)] that(2) by blast
    moreover have "q < jfree h" using t(5) that by blast
    ultimately have "jcells ?h0 q \<noteq> None" "q \<noteq> j" using t(4) that(1) by auto
    then show ?thesis using gone [of q] old [of q] by (cases "q \<in> S0") auto
  qed
  show ?thesis
  proof (cases ret)
    case True
    then have "zjson_unserialize atof h j jstr jlen = Some (h1, True)"
      using h1(1) zjson_reset_rep [OF assms(1)] by (simp add: zjson_unserialize_def)
    moreover have "dom (jcells h1) \<subseteq> (dom (jcells h) - S0) \<union> S" using dom by blast
    ultimately show ?thesis using t(1,2) keep by blast
  next
    case False
    let ?h2 = "jreset h1 j S"
    have "zjson_unserialize atof h j jstr jlen = Some (?h2, False)"
      using False h1(1) zjson_reset_rep [OF assms(1)] zjson_reset_rep [OF t(1)] by (simp add: zjson_unserialize_def)
    moreover have "jat (jcells h1) j \<noteq> None" using t(1) by (cases t) (auto simp: rep_JObject)
    then have "rep JNull (jcells ?h2) j {j}" by (auto simp: jreset_def jbare_def jat_def split: if_splits)
    moreover have "jcells ?h2 q = jcells h q" if "q < jfree h" "q \<notin> S0" for q
    proof -
      have "q \<notin> S" "q \<noteq> j" using t(3) that root by auto
      then show ?thesis using keep [OF that] by (simp add: jreset_def jbare_def)
    qed
    moreover have "dom (jcells ?h2) \<subseteq> (dom (jcells h) - S0) \<union> {j}"
    proof
      fix q assume "q \<in> dom (jcells ?h2)"
      then have "q \<noteq> j \<Longrightarrow> q \<notin> S \<and> jcells h1 q \<noteq> None" by (auto simp: jreset_def jbare_def split: if_splits)
      then show "q \<in> (dom (jcells h) - S0) \<union> {j}" using dom by blast
    qed
    ultimately show ?thesis by (intro exI [of _ ?h2] exI [of _ False] exI [of _ JNull] exI [of _ "{j}"]) simp
  qed
qed

end
