(* ===== verification/JsonProps.thy ===== *)
theory JsonProps
  imports JsonSafe
begin

text \<open>
  The properties of the JSON component, on the documents the nodes represent: release, insertion,
  path lookup, the printer, the parser, and the printer followed by the parser.
\<close>

section \<open>Path lookup on documents\<close>

text \<open>An index is a decimal number, read as an \<open>int\<close> (in which a number of more than nine digits can wrap).\<close>

definition is_index :: "bytes \<Rightarrow> bool" where
  "is_index ps \<longleftrightarrow> (\<forall>c \<in> set ps. 48 \<le> c \<and> c \<le> 57)"

definition decimal :: "bytes \<Rightarrow> nat" where
  "decimal ps = (\<Sum>i < length ps. unat (ps ! i - 48) * 10 ^ (length ps - 1 - i))"

definition json_index :: "bytes \<Rightarrow> int" where
  "json_index ps = sint (of_nat (decimal ps) :: 32 word)"

definition json_step :: "'d json \<Rightarrow> bytes \<Rightarrow> 'd json option" where
  "json_step t ps =
     (case t of
        JArray ts \<Rightarrow>
          if is_index ps \<and> 0 \<le> json_index ps \<and> nat (json_index ps) < length ts then Some (ts ! nat (json_index ps)) else None
      | JObject m \<Rightarrow> map_of m (cs ps)
      | _ \<Rightarrow> None)"

fun json_path :: "'d json \<Rightarrow> bytes list \<Rightarrow> 'd json option" where
  "json_path t [] = Some t"
| "json_path t (ps # rest) = (case json_step t ps of None \<Rightarrow> None | Some t1 \<Rightarrow> json_path t1 rest)"

text \<open>The components of a path: they have no slash, and joined by slashes they are the path.\<close>

fun slashed :: "bytes list \<Rightarrow> bytes" where
  "slashed [] = []"
| "slashed [p] = p"
| "slashed (p # ps) = p @ ch CHR ''/'' # slashed ps"

definition components :: "bytes \<Rightarrow> bytes list \<Rightarrow> bool" where
  "components s ps \<longleftrightarrow> ps \<noteq> [] \<and> (\<forall>p \<in> set ps. ch CHR ''/'' \<notin> set p) \<and> s = slashed ps"

lemma decimal_Cons: "decimal (c # ps) = unat (c - 48) * 10 ^ length ps + decimal ps"
  by (simp add: decimal_def sum.lessThan_Suc_shift del: sum.lessThan_Suc)

lemma path_index_decimal:
  "path_index ps idx = (if is_index ps then Some (idx * 10 ^ length ps + of_nat (decimal ps)) else None)"
proof (induction ps arbitrary: idx)
  case (Cons c ps)
  have "(of_nat (decimal (c # ps)) :: 32 word) = ucast (c - 48) * 10 ^ length ps + of_nat (decimal ps)"
    unfolding decimal_Cons by (simp only: of_nat_add of_nat_mult of_nat_power of_nat_numeral unsigned_of_nat [symmetric]) simp
  then have "(idx * 10 + ucast (c - 48)) * 10 ^ length ps + of_nat (decimal ps) = idx * 10 ^ length (c # ps) + of_nat (decimal (c # ps))"
    by (simp only: distrib_right mult.assoc add.assoc list.size power_Suc add_Suc_right add_0_right)
  with Cons [of "idx * 10 + ucast (c - 48)"] show ?case by (simp add: is_index_def)
qed (simp add: is_index_def decimal_def)

lemma path_split_nonempty: "path_split s \<noteq> []"
  by (induction s) (auto split: list.splits)

lemma components_path_split: "components s (path_split s)"
proof (induction s)
  case (Cons c s)
  obtain p ps where s: "path_split s = p # ps" using path_split_nonempty by (cases "path_split s") auto
  with Cons show ?case by (cases ps) (auto simp: components_def)
qed (simp add: components_def)

lemma components_unique: "components s ps \<Longrightarrow> ps = path_split s"
proof (induction s arbitrary: ps)
  case Nil
  then obtain p qs where ps: "ps = p # qs" by (cases ps) (auto simp: components_def)
  with Nil show ?case by (cases qs) (auto simp: components_def)
next
  case cons: (Cons c s)
  then obtain p qs where ps: "ps = p # qs" by (cases ps) (auto simp: components_def)
  show ?case
  proof (cases p)
    case Nil
    then have "c = ch CHR ''/''" "components s qs" using cons.prems ps by (cases qs; simp add: components_def)+
    then show ?thesis using cons.IH [of qs] ps Nil by simp
  next
    case (Cons d p')
    then have c: "d = c" "c \<noteq> ch CHR ''/''" "components s (p' # qs)" using cons.prems ps by (cases qs; auto simp: components_def)+
    from cons.IH [OF c(3)] have "path_split s = p' # qs" by (rule sym)
    then show ?thesis using c ps Cons by simp
  qed
qed

text \<open>\<open>shows_at c S r t\<close>: \<open>r\<close> is the node of the document \<open>t\<close> inside of \<open>S\<close>, NULL for no document.\<close>

definition shows_at :: "(jref \<rightharpoonup> 'd jnode) \<Rightarrow> jref set \<Rightarrow> jref \<Rightarrow> 'd json option \<Rightarrow> bool" where
  "shows_at c S r t \<longleftrightarrow> (case t of None \<Rightarrow> r = 0 | Some t1 \<Rightarrow> r \<noteq> 0 \<and> (\<exists>S' \<subseteq> S. rep t1 c r S'))"

lemma shows_at_rep: "rep t c p S \<Longrightarrow> shows_at c S p (Some t)"
  using rep_root unfolding shows_at_def by fastforce

lemma shows_at_mono: "shows_at c S r t \<Longrightarrow> S \<subseteq> S' \<Longrightarrow> shows_at c S' r t"
  unfolding shows_at_def by (cases t) auto

lemma forest_nth: "many ps ts c S \<Longrightarrow> i < length ts \<Longrightarrow> shows_at c S (ps ! i) (Some (ts ! i))"
proof (induction ts arbitrary: ps S i)
  case (Cons t ts)
  from Cons.prems(1) obtain p qs S1 S2 where ps: "ps = p # qs" and t: "rep t c p S1"
    and f: "many qs ts c S2" and S: "S = S1 \<union> S2"
    by (cases ps) auto
  show ?case
  proof (cases i)
    case 0
    then show ?thesis using shows_at_mono [OF shows_at_rep [OF t]] ps S by simp
  next
    case (Suc i')
    then have "shows_at c S2 (qs ! i') (Some (ts ! i'))" using Cons.IH [OF f] Cons.prems(2) by simp
    then show ?thesis using shows_at_mono [of c S2] ps S Suc by simp
  qed
qed simp

lemma forest_find:
  assumes "many (map snd es) (map snd m) c S" "map fst es = map fst m"
  shows "shows_at c S (obj_find k es) (map_of m k)"
  using assms
proof (induction m arbitrary: es S)
  case (Cons km m)
  from Cons.prems obtain p es' S1 S2 where es: "es = (fst km, p) # es'" and t: "rep (snd km) c p S1"
    and f: "many (map snd es') (map snd m) c S2" "map fst es' = map fst m" and S: "S = S1 \<union> S2"
    by (cases es) auto
  show ?case
  proof (cases "fst km = k")
    case True
    then show ?thesis using shows_at_mono [OF shows_at_rep [OF t]] es S by (cases km) (simp add: obj_find_def)
  next
    case False
    with Cons.IH [OF f] have "shows_at c S2 (obj_find k es) (map_of (km # m) k)"
      by (cases km) (simp add: obj_find_def es)
    then show ?thesis by (rule shows_at_mono) (simp add: S)
  qed
qed (simp add: obj_find_def shows_at_def)

lemma path_step_rep:
  assumes "rep t (jcells h) p S"
  shows "\<exists>r. path_step h p ps = Some r \<and> shows_at (jcells h) S r (json_step t ps)"
proof (cases t)
  case (JArray ts)
  with assms obtain es S' where es: "jat (jcells h) p = Some (VArray es)" "many es ts (jcells h) S'" "S' \<subseteq> S"
    by auto
  then obtain n where n: "jget h p = Some n" "jval n = VArray es" by (auto dest: jat_SomeD)
  have len: "length es = length ts" using forest_length [OF es(2)] by simp
  show ?thesis
  proof (cases "is_index ps")
    case True
    let ?i = "json_index ps"
    have i: "path_index ps 0 = Some (of_nat (decimal ps))" "sint (of_nat (decimal ps) :: 32 word) = ?i"
      using True by (simp_all add: path_index_decimal json_index_def)
    have "shows_at (jcells h) S (es ! nat ?i) (Some (ts ! nat ?i))" if "nat ?i < length ts"
      using shows_at_mono [OF forest_nth [OF es(2) that] es(3)] .
    moreover have "zjson_array_get h p ?i = Some (h, if 0 \<le> ?i \<and> nat ?i < length ts then es ! nat ?i else 0)"
      using get_array_same [OF es(1)] len by (auto simp: zjson_array_get_def)
    ultimately show ?thesis using n i True JArray by (auto simp: path_step_def json_step_def shows_at_def)
  next
    case False
    then show ?thesis using n JArray by (simp add: path_step_def json_step_def shows_at_def path_index_decimal)
  qed
next
  case (JObject m)
  with assms obtain es S' where es: "jat (jcells h) p = Some (VObject es)" "map fst es = map fst m"
    "many (map snd es) (map snd m) (jcells h) S'" "S' \<subseteq> S"
    by (auto simp: rep_JObject)
  then obtain n where n: "jget h p = Some n" "jval n = VObject es" by (auto dest: jat_SomeD)
  have "path_step h p ps = Some (obj_find (cs ps) es)"
    using n get_object_same [OF es(1)] by (simp add: path_step_def zjson_object_get_def)
  moreover have "shows_at (jcells h) S (obj_find (cs ps) es) (map_of m (cs ps))"
    using shows_at_mono [OF forest_find [OF es(3,2)] es(4)] .
  ultimately show ?thesis using JObject by (simp add: json_step_def)
qed (use assms in \<open>auto simp: path_step_def json_step_def shows_at_def dest!: jat_SomeD\<close>)

lemma path_loop_rep:
  assumes "shows_at (jcells h) S p t"
  shows "\<exists>r. path_loop h p ps = Some r
    \<and> shows_at (jcells h) S r (case t of None \<Rightarrow> None | Some t1 \<Rightarrow> json_path t1 ps)"
  using assms
proof (induction ps arbitrary: p t)
  case Nil
  then show ?case by (cases t) simp_all
next
  case (Cons s ps)
  show ?case
  proof (cases t)
    case None
    then show ?thesis using Cons.prems by (simp add: shows_at_def)
  next
    case (Some t1)
    with Cons.prems obtain S' where r: "p \<noteq> 0" "rep t1 (jcells h) p S'" "S' \<subseteq> S" by (auto simp: shows_at_def)
    from path_step_rep [OF r(2)] obtain q where q: "path_step h p s = Some q" "shows_at (jcells h) S' q (json_step t1 s)"
      by blast
    from Cons.IH [OF shows_at_mono [OF q(2) r(3)]] show ?thesis
      using r(1) q(1) Some by (simp split: option.splits)
  qed
qed

section \<open>Insertion\<close>

lemma jset_parent_jat:
  assumes "jat (jcells h) x = Some v"
  obtains h1 where "jset_parent h x j = Some h1" "\<And>q. jat (jcells h1) q = jat (jcells h) q" "jfree h1 = jfree h"
    "\<And>q. q \<noteq> x \<Longrightarrow> jcells h1 q = jcells h q" "map_option jparent (jcells h1 x) = Some j"
proof -
  from assms obtain n where n: "jget h x = Some n" "x \<noteq> 0" by (auto dest: jat_SomeD)
  let ?h = "h\<lparr>jcells := (jcells h)(x \<mapsto> n\<lparr>jparent := j\<rparr>)\<rparr>"
  have "jat (jcells ?h) q = jat (jcells h) q" for q using n by (auto simp: jat_def jget_def)
  then show thesis using n that [of ?h] by (simp add: jset_parent_def)
qed

lemma rep_jatE:
  assumes "rep t c p S"
  obtains v where "jat c p = Some v" "p \<in> S" "p \<noteq> 0"
  using assms rep_root [OF assms] by (cases t) (auto simp: rep_JObject)

text \<open>Filling the root leaves the nodes below as they are.\<close>

lemma many_jfill:
  assumes "many ps ts (jcells h) S" "p \<notin> S"
  shows "many ps ts (jcells (jfill h p v)) S"
proof (rule forest_frame_jat [OF assms(1)])
  show "\<forall>q \<in> S. jat (jcells h) q = jat (jcells (jfill h p v)) q"
    using assms(2) by (auto simp: jat_jfill)
qed

lemma push_rep:
  assumes "rep (JArray ts) (jcells h) j S" "rep t (jcells h) x Sx" "S \<inter> Sx = {}"
  shows "\<exists>h'. zjson_array_push h j x = Some h' \<and> rep (JArray (ts @ [t])) (jcells h') j (S \<union> Sx)
    \<and> (\<forall>q. q \<noteq> j \<longrightarrow> q \<noteq> x \<longrightarrow> jcells h' q = jcells h q) \<and> map_option jparent (jcells h' x) = Some j"
proof -
  obtain v where v: "jat (jcells h) x = Some v" "x \<in> Sx" using rep_jatE [OF assms(2)] by blast
  obtain h1 where h1: "jset_parent h x j = Some h1" "\<And>q. jat (jcells h1) q = jat (jcells h) q"
    "\<And>q. q \<noteq> x \<Longrightarrow> jcells h1 q = jcells h q" "map_option jparent (jcells h1 x) = Some j"
    using jset_parent_jat [OF v(1)] by metis
  from assms(1) obtain ps S' where ps: "jat (jcells h) j = Some (VArray ps)" "many ps ts (jcells h) S'" "j \<notin> S'" "S = insert j S'"
    by auto
  let ?h = "jfill h1 j (VArray (ps @ [x]))"
  have j1: "jat (jcells h1) j = Some (VArray ps)" using ps(1) h1(2) by simp
  have xj: "x \<noteq> j" using v(2) ps(4) assms(3) by auto
  have "many ps ts (jcells h1) S'" using forest_frame_jat [OF ps(2)] h1(2) by simp
  then have f: "many ps ts (jcells ?h) S'" using ps(3) by (rule many_jfill)
  have "rep t (jcells h1) x Sx" using rep_jat [OF assms(2)] h1(2) by simp
  moreover have "\<forall>q \<in> Sx. jat (jcells h1) q = jat (jcells ?h) q" using assms(3) ps(4) by (auto simp: jat_jfill)
  ultimately have x: "rep t (jcells ?h) x Sx" by (rule rep_jat)
  have "many (ps @ [x]) (ts @ [t]) (jcells ?h) (S' \<union> Sx)"
    unfolding map_append list.map using f x assms(3) ps(4) by (subst forest_snoc) blast
  moreover have "jat (jcells ?h) j = Some (VArray (ps @ [x]))" using j1 by (simp add: jat_jfill)
  moreover have "j \<notin> S' \<union> Sx" "S \<union> Sx = insert j (S' \<union> Sx)" using ps(3,4) assms(3) by auto
  ultimately have "rep (JArray (ts @ [t])) (jcells ?h) j (S \<union> Sx)" unfolding rep.simps by blast
  moreover have "zjson_array_push h j x = Some ?h"
    using h1(1) get_array_same [OF j1] jput_jat [OF j1] by (simp add: zjson_array_push_def)
  ultimately show ?thesis using h1(3,4) xj by (intro exI [of _ ?h]) (simp add: jfill_cells)
qed

text \<open>An object gets a member; the node the key had before is released with the nodes below it.\<close>

lemma update_rep:
  assumes "rep (JObject m) (jcells h) j S" "sorted_wrt (<) (map fst m)" "rep t (jcells h) x Sx" "S \<inter> Sx = {}"
  shows "\<exists>h' So. zjson_object_update h j k x False = Some (h', None) \<and> So \<subseteq> S
    \<and> rep (JObject (obj_put k t m)) (jcells h') j (S - So \<union> Sx) \<and> (\<forall>q \<in> So. jcells h' q = None)
    \<and> (\<forall>q. q \<noteq> j \<longrightarrow> q \<noteq> x \<longrightarrow> q \<notin> So \<longrightarrow> jcells h' q = jcells h q)
    \<and> (map_of m k = None \<longrightarrow> So = {}) \<and> map_option jparent (jcells h' x) = Some j"
proof -
  obtain v where v: "jat (jcells h) x = Some v" "x \<in> Sx" using rep_jatE [OF assms(3)] by blast
  obtain h1 where h1: "jset_parent h x j = Some h1" "\<And>q. jat (jcells h1) q = jat (jcells h) q"
    "\<And>q. q \<noteq> x \<Longrightarrow> jcells h1 q = jcells h q" "map_option jparent (jcells h1 x) = Some j"
    using jset_parent_jat [OF v(1)] by metis
  from assms(1) obtain es S' where es: "jat (jcells h) j = Some (VObject es)" "map fst es = map fst m"
    "many (map snd es) (map snd m) (jcells h) S'" "j \<notin> S'" "S = insert j S'"
    by (auto simp: rep_JObject)
  let ?h = "jfill h1 j (VObject (obj_put k x es))"
  let ?old = "obj_find k es"
  have j1: "jat (jcells h1) j = Some (VObject es)" using es(1) h1(2) by simp
  have xj: "x \<noteq> j" using v(2) es(5) assms(4) by auto
  have "many (map snd es) (map snd m) (jcells h1) S'" using forest_frame_jat [OF es(3)] h1(2) by simp
  then have f: "many (map snd es) (map snd m) (jcells ?h) S'" using es(4) by (rule many_jfill)
  have "rep t (jcells h1) x Sx" using rep_jat [OF assms(3)] h1(2) by simp
  moreover have "\<forall>q \<in> Sx. jat (jcells h1) q = jat (jcells ?h) q" using assms(4) es(5) by (auto simp: jat_jfill)
  ultimately have x: "rep t (jcells ?h) x Sx" by (rule rep_jat)
  have "Sx \<inter> S' = {}" using assms(4) es(5) by auto
  from forest_put [OF f es(2) assms(2) x this, of k] obtain So where
    So: "many (map snd (obj_put k x es)) (map snd (obj_put k t m)) (jcells ?h) (S' - So \<union> Sx)"
    "map fst (obj_put k x es) = map fst (obj_put k t m)" "So \<subseteq> S'"
    "if ?old = 0 then So = {} else \<exists>told. rep told (jcells ?h) ?old So"
    by blast
  have d: "(S - So \<union> Sx) \<inter> So = {}" "j \<notin> So" "x \<notin> So" using So(3) assms(4) es(4,5) v(2) by auto
  have "j \<notin> S' - So \<union> Sx" "S - So \<union> Sx = insert j (S' - So \<union> Sx)" using es(4,5) assms(4) d(2) by auto
  moreover have "jat (jcells ?h) j = Some (VObject (obj_put k x es))" using j1 by (simp add: jat_jfill)
  ultimately have r: "rep (JObject (obj_put k t m)) (jcells ?h) j (S - So \<union> Sx)"
    unfolding rep_JObject using So(1,2) by blast
  let ?h' = "jwithout ?h So"
  have r': "rep (JObject (obj_put k t m)) (jcells ?h') j (S - So \<union> Sx)"
  proof (rule rep_cong [OF r], rule ballI)
    fix q
    assume "q \<in> S - So \<union> Sx"
    then have "q \<notin> So" using d(1) by blast
    then show "jcells ?h q = jcells ?h' q" by (simp add: jwithout_def)
  qed
  have upd: "zjson_object_update h j k x False = hand_out ?h ?old False"
    using h1(1) get_object_same [OF j1] jput_jat [OF j1] by (simp add: zjson_object_update_def)
  have "hand_out ?h ?old False = Some (?h', None)"
  proof (cases "?old = 0")
    case True
    then show ?thesis using So(4) by (simp add: hand_out_def jwithout_def)
  next
    case False
    then obtain told where "rep told (jcells ?h) ?old So" using So(4) by auto
    from zjson_free_rep [OF this] False show ?thesis by (simp add: hand_out_def)
  qed
  moreover have "So = {}" if "map_of m k = None"
    using So(4) forest_find [OF f es(2), of k] that by (simp add: shows_at_def)
  moreover have "jcells ?h' q = jcells h q" if "q \<noteq> j" "q \<noteq> x" "q \<notin> So" for q
    using that h1(3) by (simp add: jwithout_def jfill_cells)
  moreover have "map_option jparent (jcells ?h' x) = Some j"
    using h1(4) xj d(3) by (simp add: jwithout_def jfill_cells)
  ultimately show ?thesis using r' upd So(3) es(5)
    by (intro exI [of _ ?h'] exI [of _ So]) (auto simp: jwithout_gone)
qed

section \<open>A concrete store\<close>

text \<open>The document \<open>[7, {"k": "v"}]\<close> in the nodes 1 to 4 and a loose \<open>true\<close> in node 5. Doubles are
  printed as \<open>1.0\<close> and read as 1.\<close>

definition ex_fmt :: "int dfmt" where
  "ex_fmt = \<lparr>trunc = (\<lambda>d. d), fmt_e = (\<lambda>d. [49, 46, 48]), fmt_lf = (\<lambda>d. [49, 46, 48])\<rparr>"

definition ex_heap :: "int jheap" where
  "ex_heap = \<lparr>jcells = [1 \<mapsto> \<lparr>jval = VArray [2, 3], jparent = 0\<rparr>, 2 \<mapsto> \<lparr>jval = VLong 7, jparent = 1\<rparr>,
       3 \<mapsto> \<lparr>jval = VObject [(cs [107], 4)], jparent = 1\<rparr>, 4 \<mapsto> \<lparr>jval = VString [118], jparent = 3\<rparr>,
       5 \<mapsto> \<lparr>jval = VBool 1, jparent = 0\<rparr>],
     jfree = 6\<rparr>"

definition ex_doc :: "int json" where
  "ex_doc = JArray [JLong 7, JObject [(cs [107], JString [118])]]"

lemma ex_rep_obj: "rep (JObject [(cs [107], JString [118])]) (jcells ex_heap) 3 {3, 4}"
  unfolding rep_JObject by (intro exI [of _ "[(cs [107], 4)]"] exI [of _ "{4}"]) (simp add: ex_heap_def jat_def)

lemma ex_rep: "rep ex_doc (jcells ex_heap) 1 {1, 2, 3, 4}"
proof -
  have "rep (JLong 7) (jcells ex_heap) 2 {2}" by (simp add: ex_heap_def jat_def)
  then have "many [2, 3] [JLong 7, JObject [(cs [107], JString [118])]] (jcells ex_heap) ({2} \<union> ({3, 4} \<union> {}))"
    by (rule many_Cons) (rule many_Cons [OF ex_rep_obj], simp_all)
  moreover have "jat (jcells ex_heap) 1 = Some (VArray [2, 3])" by (simp add: ex_heap_def jat_def)
  moreover have "1 \<notin> {2} \<union> ({3, 4} \<union> {} :: jref set)" "{1, 2, 3, 4} = insert 1 ({2} \<union> ({3, 4} \<union> {} :: jref set))" by auto
  ultimately show ?thesis unfolding ex_doc_def rep.simps by blast
qed

lemma ex_rep_true: "rep (JBool 1) (jcells ex_heap) 5 {5}"
  by (simp add: ex_heap_def jat_def)

lemma ex_wf: "json_wf ex_doc" "readable ex_fmt (\<lambda>_. 1) ex_doc"
  by (simp_all add: ex_doc_def json_wf_JArray json_wf_JObject readable_JArray readable_JObject)

lemma ex_free: "\<forall>q \<in> dom (jcells ex_heap). q < jfree ex_heap"
  by (auto simp: ex_heap_def split: if_splits)

section \<open>Properties\<close>

text \<open>C23: \<open>zjson_reset\<close> and \<open>zjson_free\<close> on the nodes of a document end, whatever its depth, without
  touching a released node: \<open>zjson_free\<close> releases exactly the nodes of the document,
  \<open>zjson_reset\<close> exactly the ones below the root, which becomes null; every other node stays as it
  was.\<close>

theorem zjson_free_exact:
  assumes "rep t (jcells h) p S"
  shows "(\<exists>h'. zjson_free h p = Some h' \<and> jfree h' = jfree h
      \<and> (\<forall>q. jcells h' q = (if q \<in> S then None else jcells h q)))
    \<and> (\<exists>h'. zjson_reset h p = Some h' \<and> jfree h' = jfree h \<and> rep JNull (jcells h') p {p}
      \<and> (\<forall>q. q \<noteq> p \<longrightarrow> jcells h' q = (if q \<in> S then None else jcells h q)))"
proof
  show "\<exists>h'. zjson_free h p = Some h' \<and> jfree h' = jfree h \<and> (\<forall>q. jcells h' q = (if q \<in> S then None else jcells h q))"
    using zjson_free_rep [OF assms] by (auto simp: jwithout_def)
  have "rep JNull (jcells (jreset h p S)) p {p}"
    using rep_jatE [OF assms] by (fastforce simp: jreset_def jbare_def jat_def split: if_splits)
  then show "\<exists>h'. zjson_reset h p = Some h' \<and> jfree h' = jfree h \<and> rep JNull (jcells h') p {p}
      \<and> (\<forall>q. q \<noteq> p \<longrightarrow> jcells h' q = (if q \<in> S then None else jcells h q))"
    using zjson_reset_rep [OF assms] by (auto simp: jreset_def jbare_def jwithout_def)
qed

theorem zjson_free_exact_witness:
  "\<exists>h'. zjson_free ex_heap 1 = Some h' \<and> jcells h' 3 = None \<and> jcells h' 5 = jcells ex_heap 5"
proof -
  from zjson_free_exact [OF ex_rep] obtain h' where
    "zjson_free ex_heap 1 = Some h'" "\<forall>q. jcells h' q = (if q \<in> {1, 2, 3, 4} then None else jcells ex_heap q)"
    by blast
  then show ?thesis by simp
qed

text \<open>C26: Building documents: \<open>zjson_array_push\<close> of a separate document makes it the last element of
  the array, \<open>zjson_object_update\<close> makes it the member of that key, in the place of the key order,
  and releases the previous member with all its nodes. The new node gets its parent, no other node
  changes.\<close>

theorem zjson_insert_contract:
  assumes "rep t (jcells h) x Sx" "S \<inter> Sx = {}"
  shows "(rep (JArray ts) (jcells h) j S \<longrightarrow>
      (\<exists>h'. zjson_array_push h j x = Some h' \<and> rep (JArray (ts @ [t])) (jcells h') j (S \<union> Sx)
        \<and> (\<forall>q. q \<noteq> j \<longrightarrow> q \<noteq> x \<longrightarrow> jcells h' q = jcells h q) \<and> map_option jparent (jcells h' x) = Some j))
    \<and> (rep (JObject m) (jcells h) j S \<longrightarrow> sorted_wrt (<) (map fst m) \<longrightarrow>
      (\<exists>h' So. zjson_object_update h j k x False = Some (h', None) \<and> So \<subseteq> S
        \<and> rep (JObject (obj_put k t m)) (jcells h') j (S - So \<union> Sx) \<and> (\<forall>q \<in> So. jcells h' q = None)
        \<and> (\<forall>q. q \<noteq> j \<longrightarrow> q \<noteq> x \<longrightarrow> q \<notin> So \<longrightarrow> jcells h' q = jcells h q)
        \<and> (map_of m k = None \<longrightarrow> So = {}) \<and> map_option jparent (jcells h' x) = Some j))"
  by (intro conjI impI) (erule push_rep [OF _ assms], erule (1) update_rep [OF _ _ assms])

theorem zjson_insert_contract_witness:
  "\<exists>h' So. zjson_object_update ex_heap 3 (cs [107]) 5 False = Some (h', None)
     \<and> rep (JObject [(cs [107], JBool 1)]) (jcells h') 3 ({3, 4} - So \<union> {5})"
proof -
  have d: "{3, 4} \<inter> {5 :: jref} = {}" by simp
  have s: "sorted_wrt (<) (map fst [(cs [107], JString [118] :: int json)])" by simp
  note * = zjson_insert_contract [OF ex_rep_true d, of _ 3 "[(cs [107], JString [118])]" "cs [107]",
      THEN conjunct2, THEN mp, OF ex_rep_obj, THEN mp, OF s]
  from * obtain h' So where "zjson_object_update ex_heap 3 (cs [107]) 5 False = Some (h', None)"
    "rep (JObject (obj_put (cs [107]) (JBool 1) [(cs [107], JString [118])])) (jcells h') 3 ({3, 4} - So \<union> {5})"
    by blast
  then show ?thesis by (intro exI [of _ h'] exI [of _ So]) simp
qed

text \<open>C24: \<open>zjson_get_element_by_path\<close> refines the lookup in the document: the path has one list of components
  between its slashes; a component is a member's key in an object and a decimal index in an array. The node that is
  returned represents the part at that path, the whole document for an empty path, and it is NULL exactly when the
  document has no such part: no such key, an index that is no number (the empty one is 0) or not smaller than the
  length, or a component below a value without parts.\<close>

theorem zjson_get_element_by_path_refines:
  assumes "rep t (jcells h) j S"
  shows "(\<exists>!ps. components (str_bytes path) ps)
    \<and> (\<forall>ps. components (str_bytes path) ps \<longrightarrow> (\<exists>r. zjson_get_element_by_path h j path = Some r
        \<and> shows_at (jcells h) S r (if str_bytes path = [] then Some t else json_path t ps)))"
proof (intro conjI allI impI)
  show "\<exists>!ps. components (str_bytes path) ps" using components_path_split components_unique by blast
next
  fix ps
  assume "components (str_bytes path) ps"
  then have "ps = path_split (str_bytes path)" by (rule components_unique)
  then show "\<exists>r. zjson_get_element_by_path h j path = Some r
      \<and> shows_at (jcells h) S r (if str_bytes path = [] then Some t else json_path t ps)"
    using path_loop_rep [OF shows_at_rep [OF assms], of ps] shows_at_rep [OF assms]
    by (auto simp: zjson_get_element_by_path_def)
qed

theorem zjson_get_element_by_path_refines_witness:
  "\<exists>r. zjson_get_element_by_path ex_heap 1 (cs [49, 47, 107]) = Some r
     \<and> shows_at (jcells ex_heap) {1, 2, 3, 4} r (Some (JString [118]))"
proof -
  have c: "components (str_bytes (cs [49, 47, 107])) [[49], [107]]" by (simp add: components_def str_bytes_cs ch_def)
  have i: "json_index [49] = 1" "is_index [49]" by (simp_all add: json_index_def decimal_def is_index_def)
  have "json_path ex_doc [[49], [107]] = Some (JString [118])" by (simp add: ex_doc_def json_step_def i)
  moreover have "str_bytes (cs [49, 47, 107]) \<noteq> []" by (simp add: str_bytes_cs)
  moreover note zjson_get_element_by_path_refines [OF ex_rep, THEN conjunct2, rule_format, OF c]
  ultimately show ?thesis by simp
qed

text \<open>C25: \<open>zjson_serialize\<close> returns for every document and appends exactly its text to the buffer (as
  far as a fixed-size buffer takes it).\<close>

theorem zjson_serialize_text:
  assumes "rep t (jcells h) j S" "json_wf t" "zbuf_ok out"
  shows "\<exists>out'. zjson_serialize df h j out = Some out' \<and> zbuf_ok out'
    \<and> zbuf_bytes out' = clip (zbuf_cap out) (zbuf_bytes out @ json_text df t)"
  using zjson_serialize_appends [OF assms, of df] unfolding appends_def by blast

theorem zjson_serialize_text_witness:
  "\<exists>out'. zjson_serialize ex_fmt ex_heap 1 (zbuf_init 4) = Some out' \<and> zbuf_bytes out' = json_text ex_fmt ex_doc"
  using zjson_serialize_text [OF ex_rep ex_wf(1) zbuf_ok_init, of ex_fmt 4] by auto

text \<open>C5: Printing a document into an empty growing buffer and parsing the bytes of the buffer gives
  the same document again, provided the doubles in it survive the two conversions of the C
  library and booleans are 0 or 1. No node outside of the one that is filled changes.\<close>

theorem zjson_round_trip:
  assumes "rep t (jcells h) j S" "readable df atof t" "zbuf_ok out" "zbuf_bytes out = []" "zbuf_cap out = None"
    and "rep t0 (jcells g) i S0" "i < jfree g"
  shows "\<exists>out' g' S'. zjson_serialize df h j out = Some out'
    \<and> zjson_unserialize atof g i (zbuf_bytes out') (int (length (zbuf_bytes out'))) = Some (g', True)
    \<and> rep t (jcells g') i S' \<and> (\<forall>q < jfree g. q \<notin> S0 \<longrightarrow> jcells g' q = jcells g q)"
proof -
  from zjson_serialize_appends [OF assms(1) readable_wf [OF assms(2)] assms(3)] obtain out' where
    "zjson_serialize df h j out = Some out'" "appends out out' (json_text df t)" by blast
  with assms(4,5) zjson_unserialize_text [OF assms(2,6,7)] show ?thesis
    by (auto simp: appends_def)
qed

theorem zjson_round_trip_witness:
  "\<exists>out' g' S'. zjson_serialize ex_fmt ex_heap 1 (zbuf_init 4) = Some out'
     \<and> zjson_unserialize (\<lambda>_. 1) ex_heap 5 (zbuf_bytes out') (int (length (zbuf_bytes out'))) = Some (g', True)
     \<and> rep ex_doc (jcells g') 5 S'"
proof -
  have "5 < jfree ex_heap" by (simp add: ex_heap_def)
  from zjson_round_trip [OF ex_rep ex_wf(2) zbuf_ok_init _ _ ex_rep_true this, of 4] show ?thesis by auto
qed

text \<open>C4: \<open>zjson_unserialize\<close> is safe on every input: for any bytes it returns, never follows a NULL
  or dangling pointer, leaves a node that represents a document with ordered keys (null when it
  fails), changes no node outside of the previous content, and leaks no node: what exists
  afterwards existed before and is not part of the old content, or belongs to the new document.\<close>

theorem zjson_unserialize_safe:
  assumes "rep t0 (jcells h) j S0" "j < jfree h" "\<forall>q \<in> dom (jcells h). q < jfree h"
  shows "\<exists>h' ret t S. zjson_unserialize atof h j jstr jlen = Some (h', ret) \<and> rep t (jcells h') j S \<and> json_wf t
    \<and> (\<not> ret \<longrightarrow> t = JNull) \<and> (\<forall>q < jfree h. q \<notin> S0 \<longrightarrow> jcells h' q = jcells h q)
    \<and> dom (jcells h') \<subseteq> (dom (jcells h) - S0) \<union> S"
  by (rule zjson_unserialize_total [OF assms])

theorem zjson_unserialize_safe_witness:
  "\<exists>h' ret t S. zjson_unserialize (\<lambda>_. 1) ex_heap 1 [91, 123, 44] 3 = Some (h', ret) \<and> rep t (jcells h') 1 S
     \<and> dom (jcells h') \<subseteq> {5} \<union> S"
proof -
  have "1 < jfree ex_heap" by (simp add: ex_heap_def)
  from zjson_unserialize_safe [OF ex_rep this ex_free, of "\<lambda>_. 1" "[91, 123, 44]" 3]
  obtain h' ret t S where *: "zjson_unserialize (\<lambda>_. 1) ex_heap 1 [91, 123, 44] 3 = Some (h', ret)"
    "rep t (jcells h') 1 S" "dom (jcells h') \<subseteq> (dom (jcells ex_heap) - {1, 2, 3, 4}) \<union> S"
    by blast
  moreover have "dom (jcells ex_heap) - {1, 2, 3, 4} \<subseteq> {5}" by (auto simp: ex_heap_def)
  ultimately show ?thesis by blast
qed

text \<open>C33: \<open>zjson_array_pop\<close> and \<open>zjson_array_shift\<close> take the element out of the array, but hand out
  NULL and neither release it nor clear its parent: the node of the element stays behind, reachable
  by nothing.\<close>

theorem zjson_array_pop_loses:
  assumes "jat (jcells h) j = Some (VArray es)" "es \<noteq> []"
  shows "(\<exists>h'. zjson_array_pop h j want = Some (h', True, if want then Some 0 else None)
      \<and> jat (jcells h') j = Some (VArray (butlast es)) \<and> (\<forall>q. q \<noteq> j \<longrightarrow> jcells h' q = jcells h q))
    \<and> (\<exists>h'. zjson_array_shift h j want = Some (h', True, if want then Some 0 else None)
      \<and> jat (jcells h') j = Some (VArray (tl es)) \<and> (\<forall>q. q \<noteq> j \<longrightarrow> jcells h' q = jcells h q))"
proof -
  have "jat (jcells (jfill h j v)) j = Some v" for v using assms(1) by (simp add: jat_jfill)
  moreover have "jput h j v = Some (jfill h j v)" for v by (rule jput_jat [OF assms(1)])
  moreover have "q \<noteq> j \<Longrightarrow> jcells (jfill h j v) q = jcells h q" for v q by (simp add: jfill_cells)
  ultimately show ?thesis using assms(2) get_array_same [OF assms(1)]
    by (simp add: zjson_array_pop_def zjson_array_shift_def zjson_free_def)
qed

theorem zjson_array_pop_loses_witness:
  "\<exists>h'. zjson_array_pop ex_heap 1 True = Some (h', True, Some 0) \<and> jat (jcells h') 1 = Some (VArray [2])
     \<and> jcells h' 3 = jcells ex_heap 3"
proof -
  have "jat (jcells ex_heap) 1 = Some (VArray [2, 3])" by (simp add: ex_heap_def jat_def)
  from zjson_array_pop_loses [OF this, of True] show ?thesis by auto
qed

end
