(* ===== verification/Pack.thy ===== *)
theory Pack
  imports Buf CStr "HOL-Library.Monad_Syntax"
begin

text \<open>
  Numbers in bytes: the big-endian integers of \<open>zc.h\<close> (\<open>zint_pack\<close>, \<open>zint_unpack\<close> and the three and
  two byte forms), the hash \<open>zhash_djb\<close>, and the compressed integers and length-prefixed data of
  \<open>src/stdlib/cint_and_data.c\<close>. A memory access outside of the object is \<open>None\<close>.
\<close>

section \<open>Big-endian integers\<close>

definition zint_unpack :: "bytes \<Rightarrow> 32 word" where
  "zint_unpack p =
     (let n = ucast (p ! 0);
          n = push_bit 8 n OR ucast (p ! 1);
          n = push_bit 8 n OR ucast (p ! 2)
      in push_bit 8 n OR ucast (p ! 3))"

definition zint_pack :: "32 word \<Rightarrow> bytes" where
  "zint_pack num =
     (let p3 = ucast (num AND 255);
          num = drop_bit 8 num;
          p2 = ucast (num AND 255);
          num = drop_bit 8 num;
          p1 = ucast (num AND 255);
          num = drop_bit 8 num;
          p0 = ucast (num AND 255)
      in [p0, p1, p2, p3])"

definition zint_unpack3 :: "bytes \<Rightarrow> 32 word" where
  "zint_unpack3 p =
     (let n = ucast (p ! 0);
          n = push_bit 8 n OR ucast (p ! 1)
      in push_bit 8 n OR ucast (p ! 2))"

definition zint_pack3 :: "32 word \<Rightarrow> bytes" where
  "zint_pack3 num =
     (let p2 = ucast (num AND 255);
          num = drop_bit 8 num;
          p1 = ucast (num AND 255);
          num = drop_bit 8 num;
          p0 = ucast (num AND 255)
      in [p0, p1, p2])"

definition zint_unpack2 :: "bytes \<Rightarrow> 32 word" where
  "zint_unpack2 p = (let n = ucast (p ! 0) in push_bit 8 n OR ucast (p ! 1))"

definition zint_pack2 :: "32 word \<Rightarrow> bytes" where
  "zint_pack2 num =
     (let p1 = ucast (num AND 255);
          num = drop_bit 8 num;
          p0 = ucast (num AND 255)
      in [p0, p1])"

section \<open>Hash\<close>

definition hash_step :: "32 word \<Rightarrow> byte \<Rightarrow> 32 word" where
  "hash_step hash p = (hash + push_bit 5 hash) XOR ucast p"

definition zhash_djb_with_initial :: "bytes \<Rightarrow> 32 word \<Rightarrow> 32 word" where
  "zhash_djb_with_initial buf initial = foldl hash_step initial buf"

definition zhash_djb :: "bytes \<Rightarrow> 32 word" where
  "zhash_djb buf = foldl hash_step 5381 buf"

section \<open>Compressed integers\<close>

text \<open>Seven bits a byte, the lowest first; the last byte has its top bit set. The loop of a
  negative number does not end, since its arithmetic shift stays negative.\<close>

definition cint_byte :: "int \<Rightarrow> byte" where
  "cint_byte left =
     (let c = left AND 127 in of_int (if drop_bit 7 left = 0 then c OR 128 else c))"

partial_function (option) zcint_put :: "int \<Rightarrow> bytes \<Rightarrow> bytes option" where
  "zcint_put left buf =
     (if drop_bit 7 left = 0 then Some (buf @ [cint_byte left])
      else zcint_put (drop_bit 7 left) (buf @ [cint_byte left]))"

partial_function (option) escape_loop :: "zbuf \<Rightarrow> int \<Rightarrow> zbuf option" where
  "escape_loop zb left =
     (if drop_bit 7 left = 0 then Some (ZBUF_PUT zb (cint_byte left))
      else escape_loop (ZBUF_PUT zb (cint_byte left)) (drop_bit 7 left))"

text \<open>\<open>left\<close> is set before a negative \<open>len\<close> is replaced by the length of the string.\<close>

definition zcint_data_escape :: "zbuf \<Rightarrow> bytes \<Rightarrow> int \<Rightarrow> zbuf option" where
  "zcint_data_escape zb data len0 = do {
     let left = len0;
     let len = int (length (src_bytes data len0));
     zb1 \<leftarrow> escape_loop zb left;
     Some (if len > 0 then zbuf_memcat zb1 data len else zb1) }"

definition zcint_data_escape_pp :: "zbuf \<Rightarrow> bytes list \<Rightarrow> zbuf option" where
  "zcint_data_escape_pp zb pp =
     foldl (\<lambda>r s. Option.bind r (\<lambda>zb. zcint_data_escape zb s (- 1))) (Some zb) pp"

text \<open>The length at the front of \<open>buf\<close>: \<open>i\<close> bytes were read before; \<open>Inl\<close> is the end of the input
  (the code reads no byte there), \<open>None\<close> a read outside of the object.\<close>

fun cint_scan :: "bytes \<Rightarrow> nat \<Rightarrow> nat \<Rightarrow> 32 word \<Rightarrow> nat \<Rightarrow> (unit + nat \<times> 32 word \<times> bytes) option" where
  "cint_scan [] src_size i len shift = (if i = src_size then Some (Inl ()) else None)"
| "cint_scan (c # buf) src_size i len shift =
     (if i = src_size then Some (Inl ())
      else let len = len OR push_bit shift (ucast (c AND 127))
           in if c AND 128 \<noteq> 0 then Some (Inr (i + 1, len, buf))
              else cint_scan buf src_size (i + 1) len (shift + 7))"

text \<open>The result: the return value with the data, \<open>Some None\<close> for \<open>-1\<close>.\<close>

definition zcint_data_unescape :: "bytes \<Rightarrow> nat \<Rightarrow> (int \<times> bytes) option option" where
  "zcint_data_unescape src_data src_size = do {
     r \<leftarrow> cint_scan src_data src_size 0 0 0;
     (case r of
        Inl _ \<Rightarrow> Some None
      | Inr (i, len, buf) \<Rightarrow>
          if int i + sint len > int src_size then Some None
          else Some (Some (int i + sint len, take (nat (sint len)) buf))) }"

text \<open>\<open>i\<close> restarts at 0 for every entry, but \<open>src_size\<close> stays the size of the whole input. A negative
  length would move \<open>buf\<close> back; such an entry is a fault here.\<close>

fun unescape_all_loop :: "bytes \<Rightarrow> nat \<Rightarrow> nat \<Rightarrow> bytes list \<Rightarrow> bytes list option" where
  "unescape_all_loop buf src_size 0 vec = Some vec"
| "unescape_all_loop buf src_size (Suc space) vec = do {
     r \<leftarrow> cint_scan buf src_size 0 0 0;
     (case r of
        Inl _ \<Rightarrow> Some vec
      | Inr (i, len, buf1) \<Rightarrow>
          if int i + sint len > int src_size then Some vec
          else if sint len < 0 \<or> int (length buf1) < sint len then None
          else unescape_all_loop (drop (nat (sint len)) buf1) src_size space (vec @ [take (nat (sint len)) buf1])) }"

definition zcint_data_unescape_all :: "bytes \<Rightarrow> nat \<Rightarrow> nat \<Rightarrow> bytes list option" where
  "zcint_data_unescape_all src_data src_size vec_size = unescape_all_loop src_data src_size vec_size []"

section \<open>Facts\<close>

lemma length_zint_pack [simp]: "length (zint_pack n) = 4" "length (zint_pack3 n) = 3" "length (zint_pack2 n) = 2"
  by (simp_all add: zint_pack_def zint_pack3_def zint_pack2_def Let_def)

lemma sint_of_nat_small: "n < 2 ^ 31 \<Longrightarrow> sint (of_nat n :: 32 word) = int n"
  by (simp add: signed_of_nat signed_take_bit_int_eq_self)

lemma ucast_and_255: "(ucast (n AND 255) :: byte) = ucast (n :: 32 word)"
proof -
  have "n AND 255 = take_bit 8 n" by (simp add: take_bit_eq_mask mask_eq_exp_minus_1)
  then show ?thesis by (intro bit_word_eqI) (auto simp: bit_simps)
qed

lemma zint_unpack_pack [simp]: "zint_unpack (zint_pack n @ rest) = n"
proof -
  have "zint_unpack (zint_pack n @ rest) = push_bit 8 (push_bit 8 (push_bit 8 (ucast (ucast (drop_bit 24 n) :: byte))
      OR ucast (ucast (drop_bit 16 n) :: byte)) OR ucast (ucast (drop_bit 8 n) :: byte)) OR ucast (ucast n :: byte)"
    by (simp add: zint_unpack_def zint_pack_def Let_def ucast_and_255 drop_bit_drop_bit)
  also have "\<dots> = n" (is "?l = n")
  proof (rule bit_word_eqI)
    fix k
    assume k: "k < LENGTH(32)"
    consider "k < 8" | "8 \<le> k \<and> k < 16" | "16 \<le> k \<and> k < 24" | "24 \<le> k \<and> k < 32" using k by fastforce
    then show "bit ?l k = bit n k" by cases (auto simp: bit_simps)
  qed
  finally show ?thesis .
qed

lemma zint_unpack3_pack: "zint_unpack3 (zint_pack3 n @ rest) = take_bit 24 n"
proof -
  have "zint_unpack3 (zint_pack3 n @ rest) = push_bit 8 (push_bit 8 (ucast (ucast (drop_bit 16 n) :: byte))
      OR ucast (ucast (drop_bit 8 n) :: byte)) OR ucast (ucast n :: byte)"
    by (simp add: zint_unpack3_def zint_pack3_def Let_def ucast_and_255 drop_bit_drop_bit)
  also have "\<dots> = take_bit 24 n" (is "?l = _")
  proof (rule bit_word_eqI)
    fix k
    assume k: "k < LENGTH(32)"
    consider "k < 8" | "8 \<le> k \<and> k < 16" | "16 \<le> k \<and> k < 24" | "24 \<le> k \<and> k < 32" using k by fastforce
    then show "bit ?l k = bit (take_bit 24 n) k" by cases (auto simp: bit_simps)
  qed
  finally show ?thesis .
qed

lemma zint_unpack2_pack: "zint_unpack2 (zint_pack2 n @ rest) = take_bit 16 n"
proof -
  have "zint_unpack2 (zint_pack2 n @ rest) = push_bit 8 (ucast (ucast (drop_bit 8 n) :: byte)) OR ucast (ucast n :: byte)"
    by (simp add: zint_unpack2_def zint_pack2_def Let_def ucast_and_255)
  also have "\<dots> = take_bit 16 n" (is "?l = _")
  proof (rule bit_word_eqI)
    fix k
    assume k: "k < LENGTH(32)"
    consider "k < 8" | "8 \<le> k \<and> k < 16" | "16 \<le> k \<and> k < 32" using k by fastforce
    then show "bit ?l k = bit (take_bit 16 n) k" by cases (auto simp: bit_simps)
  qed
  finally show ?thesis .
qed

section \<open>Compressed integers: encoding and decoding\<close>

text \<open>The bytes of a number.\<close>

fun cint_bytes :: "nat \<Rightarrow> bytes" where
  "cint_bytes n = (if n div 128 = 0 then [of_nat (n + 128)] else of_nat (n mod 128) # cint_bytes (n div 128))"

declare cint_bytes.simps [simp del]

lemma drop_bit_7_nat: "drop_bit 7 (int n) = int (n div 128)"
  by (simp add: drop_bit_eq_div zdiv_int)

lemma and_127_nat: "int n AND 127 = int (n mod 128)"
proof -
  have "int n AND 127 = take_bit 7 (int n)" by (simp add: take_bit_eq_mask mask_eq_exp_minus_1)
  then show ?thesis by (simp add: take_bit_eq_mod zmod_int)
qed

lemma or_128: "n < 128 \<Longrightarrow> int n OR 128 = int n + 128"
proof -
  assume "n < 128"
  then have n: "int n = take_bit 7 (int n)" by (simp add: take_bit_eq_mod)
  have b: "bit (128 :: int) k \<longleftrightarrow> k = 7" for k using bit_exp_iff [of 7 k, where 'a = int] by simp
  have "take_bit 7 (int n) AND 128 = 0" by (rule bit_eqI) (auto simp: bit_simps b)
  then have "take_bit 7 (int n) + 128 = take_bit 7 (int n) OR 128" by (rule disjunctive_add_eq_or)
  with n show ?thesis by simp
qed

lemma cint_byte_nat: "cint_byte (int n) = (if n div 128 = 0 then of_nat (n + 128) else of_nat (n mod 128))"
  by (auto simp: cint_byte_def Let_def drop_bit_7_nat and_127_nat or_128 div_eq_0_iff)

lemma zcint_put_nat: "zcint_put (int n) buf = Some (buf @ cint_bytes n)"
proof (induction n arbitrary: buf rule: cint_bytes.induct)
  case (1 n)
  show ?case
    by (subst zcint_put.simps, subst cint_bytes.simps) (use 1 in \<open>simp add: drop_bit_7_nat cint_byte_nat\<close>)
qed

lemma escape_loop_nat: "escape_loop zb (int n) = Some (foldl ZBUF_PUT zb (cint_bytes n))"
proof (induction n arbitrary: zb rule: cint_bytes.induct)
  case (1 n)
  show ?case
    by (subst escape_loop.simps, subst cint_bytes.simps) (use 1 in \<open>simp add: drop_bit_7_nat cint_byte_nat\<close>)
qed

text \<open>A negative number is shifted to a negative number, so the loops return for the others only.\<close>

lemma shifted_out: "drop_bit 7 l = (0 :: int) \<Longrightarrow> 0 \<le> l"
  by (metis drop_bit_nonnegative_int_iff order_refl)

lemma zcint_put_returns:
  assumes "zcint_put left buf = Some r"
  shows "0 \<le> left"
proof (rule zcint_put.raw_induct [OF _ assms, of "\<lambda>left buf r. 0 \<le> left"])
  show "0 \<le> left" if "\<And>left buf r. f left buf = Some r \<Longrightarrow> 0 \<le> left"
    "(if drop_bit 7 left = 0 then Some (buf @ [cint_byte left])
      else f (drop_bit 7 left) (buf @ [cint_byte left])) = Some r" for f left buf r
    using that(1) [of "drop_bit 7 left"] that(2) shifted_out [of left] by (simp split: if_splits)
qed

lemma escape_loop_returns:
  assumes "escape_loop zb left = Some r"
  shows "0 \<le> left"
proof (rule escape_loop.raw_induct [OF _ assms, of "\<lambda>zb left r. 0 \<le> left"])
  show "0 \<le> left" if "\<And>zb left r. f zb left = Some r \<Longrightarrow> 0 \<le> left"
    "(if drop_bit 7 left = 0 then Some (ZBUF_PUT zb (cint_byte left))
      else f (ZBUF_PUT zb (cint_byte left)) (drop_bit 7 left)) = Some r" for f zb left r
    using that(1) [of _ "drop_bit 7 left"] that(2) shifted_out [of left] by (simp split: if_splits)
qed

text \<open>Decoding.\<close>

lemma cint_digit_codes: "list_all (\<lambda>n. (of_nat n :: byte) AND 128 = 0 \<and> (ucast ((of_nat n :: byte) AND 127) :: 32 word) = of_nat n
    \<and> (of_nat (n + 128) :: byte) AND 128 \<noteq> 0 \<and> (ucast ((of_nat (n + 128) :: byte) AND 127) :: 32 word) = of_nat n) [0..<128]"
  by code_simp

lemma cint_digit:
  assumes "n < 128"
  shows "(of_nat n :: byte) AND 128 = 0" "(ucast ((of_nat n :: byte) AND 127) :: 32 word) = of_nat n"
    "(of_nat (n + 128) :: byte) AND 128 \<noteq> 0" "(ucast ((of_nat (n + 128) :: byte) AND 127) :: 32 word) = of_nat n"
  using cint_digit_codes assms unfolding list_all_iff by (metis atLeastLessThan_iff le0 set_upt)+

lemma of_nat_digits: "(of_nat n :: 32 word) = of_nat (n mod 128) OR push_bit 7 (of_nat (n div 128))"
proof -
  have "bit n k = bit (take_bit 7 n OR push_bit 7 (drop_bit 7 n)) k" for k
    by (cases "k < 7") (simp_all add: bit_simps)
  then have "n = take_bit 7 n OR push_bit 7 (drop_bit 7 n)" by (rule bit_eqI)
  then have "(of_nat n :: 32 word) = of_nat (take_bit 7 n OR push_bit 7 (drop_bit 7 n))" by simp
  also have "\<dots> = of_nat (n mod 128) OR push_bit 7 (of_nat (n div 128))"
    by (simp add: of_nat_or_eq of_nat_push_bit take_bit_eq_mod drop_bit_eq_div)
  finally show ?thesis .
qed

lemma cint_scan_bytes:
  "i + length (cint_bytes n) \<le> src_size \<Longrightarrow> cint_scan (cint_bytes n @ rest) src_size i len shift
     = Some (Inr (i + length (cint_bytes n), len OR push_bit shift (of_nat n), rest))"
proof (induction n arbitrary: i len shift rule: cint_bytes.induct)
  case (1 n)
  show ?case
  proof (cases "n div 128 = 0")
    case True
    then have "n < 128" by (simp add: div_eq_0_iff)
    with 1 cint_digit [of n] True show ?thesis by (simp add: cint_bytes.simps [of n])
  next
    case False
    have d: "push_bit shift (of_nat n :: 32 word) = push_bit shift (of_nat (n mod 128)) OR push_bit (shift + 7) (of_nat (n div 128))"
      by (subst of_nat_digits) (simp add: push_bit_or push_bit_push_bit)
    from False 1 cint_digit [of "n mod 128"] show ?thesis
      by (simp add: cint_bytes.simps [of n] Let_def d or.assoc)
  qed
qed

text \<open>The escaped form of data shorter than 2 GB, and its way back.\<close>

definition cint_text :: "bytes \<Rightarrow> bytes" where
  "cint_text data = cint_bytes (length data) @ data"

lemma appends_raw: "zbuf_ok zb \<Longrightarrow> appends zb (foldl ZBUF_PUT zb xs) xs"
  using zraw.content_puts [of zb xs] zraw.ok_puts [of zb xs] zraw.capacity_puts [of zb xs] sized_puts [of zb xs] by (simp add: appends_def)

lemma zcint_data_escape_appends:
  assumes "zbuf_ok zb"
  shows "\<exists>zb'. zcint_data_escape zb data (int (length data)) = Some zb' \<and> appends zb zb' (cint_text data)"
proof -
  let ?zb1 = "foldl ZBUF_PUT zb (cint_bytes (length data))"
  have a: "appends zb ?zb1 (cint_bytes (length data))" by (rule appends_raw [OF assms])
  have "appends ?zb1 (zbuf_memcat ?zb1 data (int (length data))) data"
    using appends_memcat [OF appends_ok [OF a], of data "int (length data)"] by simp
  from appends_trans [OF a this]
  have "appends zb (if data \<noteq> [] then zbuf_memcat ?zb1 data (int (length data)) else ?zb1) (cint_text data)"
    using a by (cases "data = []") (simp_all add: cint_text_def)
  moreover have "zcint_data_escape zb data (int (length data))
      = Some (if data \<noteq> [] then zbuf_memcat ?zb1 data (int (length data)) else ?zb1)"
    using escape_loop_nat [of zb "length data"] by (auto simp: zcint_data_escape_def src_bytes_def)
  ultimately show ?thesis by blast
qed

lemma zcint_data_unescape_text:
  assumes "length data < 2 ^ 31"
  shows "zcint_data_unescape (cint_text data @ rest) (length (cint_text data) + k)
    = Some (Some (int (length (cint_text data)), data))"
proof -
  have "sint (of_nat (length data) :: 32 word) = int (length data)"
    using assms by (rule sint_of_nat_small)
  then show ?thesis by (simp add: zcint_data_unescape_def cint_text_def cint_scan_bytes)
qed

definition escape_all :: "zbuf \<Rightarrow> bytes list \<Rightarrow> zbuf option" where
  "escape_all zb ds = foldM (\<lambda>d zb. zcint_data_escape zb d (int (length d))) ds zb"

lemma escape_all_appends:
  "zbuf_ok zb \<Longrightarrow> \<exists>zb'. escape_all zb ds = Some zb' \<and> appends zb zb' (concat (map cint_text ds))"
proof (induction ds arbitrary: zb)
  case Nil
  then show ?case by (simp add: escape_all_def appends_Nil)
next
  case (Cons d ds)
  from zcint_data_escape_appends [OF Cons.prems] obtain zb1 where
    z1: "zcint_data_escape zb d (int (length d)) = Some zb1" "appends zb zb1 (cint_text d)" by blast
  from Cons.IH [OF appends_ok [OF z1(2)]] obtain zb2 where
    z2: "escape_all zb1 ds = Some zb2" "appends zb1 zb2 (concat (map cint_text ds))" by blast
  show ?case using z1(1) z2(1) appends_trans [OF z1(2) z2(2)] by (simp add: escape_all_def)
qed

lemma unescape_all_text:
  assumes "length (concat (map cint_text ds)) \<le> src_size" "src_size < 2 ^ 31"
  shows "unescape_all_loop (concat (map cint_text ds) @ rest) src_size (length ds + k) vec
    = unescape_all_loop rest src_size k (vec @ ds)"
  using assms(1)
proof (induction ds arbitrary: vec)
  case (Cons d ds)
  have l: "length (cint_bytes (length d)) + length d \<le> src_size" using Cons.prems by (simp add: cint_text_def)
  then have d: "sint (of_nat (length d) :: 32 word) = int (length d)" using assms(2) by (intro sint_of_nat_small) simp
  have "int (length (cint_bytes (length d))) + int (length d) \<le> int src_size" using l by simp
  then show ?case using Cons l d by (simp add: cint_text_def cint_scan_bytes)
qed simp

section \<open>Properties\<close>

text \<open>C30: Data that zcint_data_escape wrote one after the other into a growing buffer comes back: the single
  reader zcint_data_unescape returns the first piece and its encoded length, and zcint_data_unescape_all, asked for as
  many pieces as were written, returns all of them, for any bytes and lengths below half a gigabyte in total, and the
  buffer still fits its 31-bit fields.\<close>

theorem cint_data_roundtrip:
  assumes "zbuf_ok zb" "zbuf_cap zb = None" "zbuf_bytes zb = []" "zbuf_fits zb"
    and "length (concat (map cint_text (d # ds))) + 1 < 2 ^ 29"
  shows "\<exists>zb'. escape_all zb (d # ds) = Some zb' \<and> zbuf_ok zb' \<and> zbuf_fits zb'
    \<and> zcint_data_unescape (zbuf_bytes zb') (length (zbuf_bytes zb')) = Some (Some (int (length (cint_text d)), d))
    \<and> zcint_data_unescape_all (zbuf_bytes zb') (length (zbuf_bytes zb')) (length (d # ds)) = Some (d # ds)"
proof -
  let ?x = "concat (map cint_text (d # ds))"
  from escape_all_appends [OF assms(1)] obtain zb' where
    z: "escape_all zb (d # ds) = Some zb'" "appends zb zb' ?x" by blast
  have x: "zbuf_bytes zb' = ?x" using appends_growing [OF z(2) assms(2)] assms(3) by simp
  have fits: "zbuf_fits zb'"
    using sized_fits [of zb zb'] z(2) assms(4,5) unfolding x [symmetric] by (simp add: appends_def)
  have l: "length ?x < 2 ^ 31" using assms(5) by (simp del: concat.simps list.map)
  then have "length d < 2 ^ 31" by (simp add: cint_text_def)
  from zcint_data_unescape_text [OF this, of "concat (map cint_text ds)" "length (concat (map cint_text ds))"]
  have "zcint_data_unescape ?x (length ?x) = Some (Some (int (length (cint_text d)), d))" by simp
  moreover have "zcint_data_unescape_all ?x (length ?x) (length (d # ds)) = Some (d # ds)"
    using unescape_all_text [OF order_refl l, of "[]" 0 "[]"] by (simp add: zcint_data_unescape_all_def del: concat.simps list.map)
  ultimately show ?thesis using z(1) appends_ok [OF z(2)] fits unfolding x [symmetric] by (intro exI conjI)
qed

theorem cint_data_roundtrip_witness:
  "\<exists>zb'. escape_all (zbuf_init 8) [[97], [], [98, 99]] = Some zb'
    \<and> zcint_data_unescape_all (zbuf_bytes zb') (length (zbuf_bytes zb')) 3 = Some [[97], [], [98, 99]]"
proof -
  have "zbuf_ok (zbuf_init 8)" "zbuf_cap (zbuf_init 8) = None" "zbuf_bytes (zbuf_init 8) = []" "zbuf_fits (zbuf_init 8)"
    by (simp_all add: zbuf_ok_init zbuf_fits_def) (simp add: zbuf_init_def)
  moreover have "length (concat (map cint_text [[97], [], [98, 99]])) + 1 < 2 ^ 29" by (simp add: cint_text_def cint_bytes.simps)
  moreover have "length [[97], [], [98, 99] :: bytes] = 3" by simp
  ultimately show ?thesis using cint_data_roundtrip [of "zbuf_init 8" "[97]" "[[], [98, 99]]"] by metis
qed

text \<open>zcint_data_unescape_all compares every piece with the size of the whole input, not with what is left
  of it: asked for more pieces than a well-formed non-empty input holds, it reads past the end of the input.\<close>

theorem zcint_data_unescape_all_overreads:
  assumes "ds \<noteq> []" "length (concat (map cint_text ds)) < 2 ^ 31" "length ds < vec_size"
  shows "zcint_data_unescape_all (concat (map cint_text ds)) (length (concat (map cint_text ds))) vec_size = None"
proof -
  let ?x = "concat (map cint_text ds)"
  obtain k where k: "vec_size = length ds + Suc k" using assms(3) less_iff_Suc_add by auto
  obtain d es where "ds = d # es" using assms(1) by (cases ds) auto
  then have "?x \<noteq> []" by (simp add: cint_text_def cint_bytes.simps [of "length d"])
  then show ?thesis using unescape_all_text [OF order_refl assms(2), of "[]" "Suc k" "[]"] k
    by (simp add: zcint_data_unescape_all_def)
qed

text \<open>zcint_data_escape never returns when it is given the length -1 for a terminated string: the number it
  writes is still -1, and its loop shifts it to the right for ever. So zcint_data_escape_pp never returns for a
  non-empty list of strings.\<close>

theorem zcint_data_escape_diverges:
  "zcint_data_escape zb data (- 1) = None \<and> zcint_data_escape_pp zb (s # pp) = None"
proof -
  have "escape_loop zb (- 1) = None" using escape_loop_returns [of zb "- 1"] by (cases "escape_loop zb (- 1)") auto
  then have n: "zcint_data_escape zb x (- 1) = None" for x by (simp add: zcint_data_escape_def Let_def)
  have "foldl (\<lambda>r s. Option.bind r (\<lambda>zb. zcint_data_escape zb s (- 1))) None pp = None" by (induction pp) simp_all
  with n show ?thesis by (simp add: zcint_data_escape_pp_def)
qed

end
