(* ===== verification/CdbBuild.thy ===== *)
theory CdbBuild
  imports Pack
begin

text \<open>
  The builder of constant databases, \<open>src/cdb/builder.c\<close>: for every key length a hash table whose
  buckets are chains sorted by key, and the in-memory file into which \<open>zcdb_builder_compile\<close> writes
  the database. The chains, linked by \<open>next\<close> and owned by the table, are lists. \<open>zfatal\<close>, an access
  outside of an object and the overflow of an \<open>int\<close> are \<open>None\<close>.
\<close>

section \<open>Hash tables\<close>

record builder_node =
  bn_key :: zbuf
  bn_val :: zbuf

record builder_table =
  hash_node_vector :: "builder_node list list"
  hash_node_size :: nat
  bt_count :: nat
  bt_klen :: nat

definition memcmp :: "bytes \<Rightarrow> bytes \<Rightarrow> nat \<Rightarrow> int" where
  "memcmp a b n = bytes_cmp (take n a) (take n b)"

text \<open>A node moves into its chain; an equal key is the fatal case.\<close>

fun chain_insert :: "builder_node \<Rightarrow> nat \<Rightarrow> builder_node list \<Rightarrow> builder_node list option" where
  "chain_insert n1 klen [] = Some [n1]"
| "chain_insert n1 klen (node # chain) =
     (let r = memcmp (zbuf_bytes (bn_key n1)) (zbuf_bytes (bn_key node)) klen in
      if r = 0 then None
      else if r < 0 then Some (n1 # node # chain)
      else map_option (Cons node) (chain_insert n1 klen chain))"

definition rehash_node :: "nat \<Rightarrow> nat \<Rightarrow> builder_node \<Rightarrow> builder_node list list \<Rightarrow> builder_node list list option" where
  "rehash_node klen hsize n1 hv = do {
     let thash = unat (zhash_djb (take klen (zbuf_bytes (bn_key n1)))) mod hsize;
     chain \<leftarrow> chain_insert n1 klen (hv ! thash);
     Some (hv[thash := chain]) }"

definition builder_table_reset_hash_node_size :: "builder_table \<Rightarrow> nat \<Rightarrow> builder_table option" where
  "builder_table_reset_hash_node_size table hsize = do {
     hv \<leftarrow> foldM (rehash_node (bt_klen table) hsize) (concat (hash_node_vector table)) (replicate hsize []);
     Some (table\<lparr>hash_node_vector := hv, hash_node_size := hsize\<rparr>) }"

definition builder_table_create :: "nat \<Rightarrow> builder_table" where
  "builder_table_create klen =
     \<lparr>hash_node_vector = replicate 3 [], hash_node_size = 3, bt_count = 0, bt_klen = klen\<rparr>"

definition node_new :: "bytes \<Rightarrow> bytes \<Rightarrow> builder_node" where
  "node_new key val =
     \<lparr>bn_key = zbuf_memcpy (zbuf_init (int (length key))) key (int (length key)),
      bn_val = zbuf_memcpy (zbuf_init (int (length val))) val (int (length val))\<rparr>"

text \<open>The chain with the value of the key, and whether there is a new node.\<close>

fun chain_update :: "bytes \<Rightarrow> bytes \<Rightarrow> builder_node list \<Rightarrow> builder_node list \<times> bool" where
  "chain_update key val [] = ([node_new key val], True)"
| "chain_update key val (node # chain) =
     (let r = memcmp key (zbuf_bytes (bn_key node)) (length key) in
      if r = 0 then (node\<lparr>bn_val := zbuf_memcpy (bn_val node) val (int (length val))\<rparr> # chain, False)
      else if r < 0 then (node_new key val # node # chain, True)
      else (let (chain', new) = chain_update key val chain in (node # chain', new)))"

definition builder_table_update_token :: "builder_table \<Rightarrow> bytes \<Rightarrow> bytes \<Rightarrow> builder_table option" where
  "builder_table_update_token table key val =
     (let thash = unat (zhash_djb key) mod hash_node_size table;
          (chain, new) = chain_update key val (hash_node_vector table ! thash);
          table = table\<lparr>hash_node_vector := (hash_node_vector table)[thash := chain]\<rparr>
      in if \<not> new then Some table
         else let table = table\<lparr>bt_count := bt_count table + 1\<rparr>
              in if bt_count table > hash_node_size table
                 then builder_table_reset_hash_node_size table (hash_node_size table * 2 + 1)
                 else Some table)"

section \<open>The builder\<close>

record zcdb_builder =
  table_vector :: "builder_table option list"
  max_klen :: nat
  b_count :: int
  val_length_min :: nat
  val_length_max :: nat
  b_data :: "byte option list"
  b_capability :: nat
  b_size :: nat
  b_cursor :: nat
  b_error :: bool
  b_over :: bool

definition zvar_zcdb_max_key_len :: nat where
  "zvar_zcdb_max_key_len = 4096"

definition zcdb_builder_create :: zcdb_builder where
  "zcdb_builder_create =
     \<lparr>table_vector = replicate (zvar_zcdb_max_key_len + 1) None, max_klen = 0, b_count = 0,
      val_length_min = 0, val_length_max = 0, b_data = zmalloc (1024 + 10), b_capability = 1024,
      b_size = 0, b_cursor = 0, b_error = False, b_over = False\<rparr>"

definition zcdb_builder_update :: "zcdb_builder \<Rightarrow> bytes \<Rightarrow> int \<Rightarrow> bytes \<Rightarrow> int \<Rightarrow> zcdb_builder option" where
  "zcdb_builder_update b key0 klen0 val0 vlen0 =
     (let key = src_bytes key0 klen0; klen = length key;
          val = src_bytes val0 vlen0; vlen = length val
      in if klen > zvar_zcdb_max_key_len then None
         else do {
           let mk = (if klen > max_klen b then klen else max_klen b);
           let table = (case table_vector b ! klen of None \<Rightarrow> builder_table_create klen | Some t \<Rightarrow> t);
           let n = b_count b - int (bt_count table);
           let lo = (if vlen \<noteq> 0 \<and> val_length_min b = 0 then vlen else val_length_min b);
           let hi = (if vlen \<noteq> 0 \<and> val_length_max b = 0 then vlen else val_length_max b);
           let hi = (if vlen > hi then vlen else hi);
           let lo = (if vlen < lo then vlen else lo);
           table \<leftarrow> builder_table_update_token table key val;
           Some (b\<lparr>max_klen := mk, table_vector := (table_vector b)[klen := Some table],
                   val_length_min := lo, val_length_max := hi, b_count := n + int (bt_count table)\<rparr>) })"

section \<open>The file\<close>

datatype whence = SEEK_SET | SEEK_END

definition zcdb_builder_fseek :: "zcdb_builder \<Rightarrow> nat \<Rightarrow> whence \<Rightarrow> zcdb_builder" where
  "zcdb_builder_fseek b offset whence =
     (let cursor = (case whence of SEEK_SET \<Rightarrow> int offset | SEEK_END \<Rightarrow> int (b_size b) - int offset);
          cursor = (if cursor > int (b_size b) then int (b_size b) else cursor);
          cursor = (if cursor < 0 then 0 else cursor)
      in b\<lparr>b_cursor := nat cursor\<rparr>)"

text \<open>The capacity doubles until the data fits; an \<open>int\<close> cannot hold \<open>2 ^ 31\<close>.\<close>

partial_function (option) grow_capability ::
    "nat \<Rightarrow> nat \<Rightarrow> nat \<Rightarrow> byte option list \<Rightarrow> (nat \<times> byte option list) option" where
  "grow_capability cap cursor need data =
     (if int cap - int cursor > int need then Some (cap, data)
      else if cap * 2 \<ge> 2 ^ 31 then None
      else grow_capability (cap * 2) cursor need (zrealloc data (cap * 2 + 10)))"

definition zcdb_builder_fwrite :: "byte option list \<Rightarrow> nat \<Rightarrow> zcdb_builder \<Rightarrow> zcdb_builder option" where
  "zcdb_builder_fwrite ptr need b =
     (if b_error b then Some b
      else if length ptr < need then None
      else do {
        (cap, data) \<leftarrow> grow_capability (b_capability b) (b_cursor b) need (b_data b);
        (if length data < b_cursor b + need then None
         else let data = take (b_cursor b) data @ take need ptr @ drop (b_cursor b + need) data;
                  cursor = b_cursor b + need
              in Some (b\<lparr>b_capability := cap, b_data := data, b_cursor := cursor,
                         b_size := (if cursor > b_size b then cursor else b_size b)\<rparr>)) })"

definition fwrite_bytes :: "bytes \<Rightarrow> zcdb_builder \<Rightarrow> zcdb_builder option" where
  "fwrite_bytes bs b = zcdb_builder_fwrite (map Some bs) (length bs) b"

abbreviation seek_end :: "zcdb_builder \<Rightarrow> zcdb_builder" where
  "seek_end b \<equiv> zcdb_builder_fseek b 0 SEEK_END"

abbreviation seek_set :: "nat \<Rightarrow> zcdb_builder \<Rightarrow> zcdb_builder" where
  "seek_set offset b \<equiv> zcdb_builder_fseek b offset SEEK_SET"

section \<open>Compilation\<close>

definition zero4 :: bytes where
  "zero4 = [0, 0, 0, 0]"

text \<open>Values of different lengths: the key and a slot for the offset of the value, then the values.\<close>

definition write_slot :: "nat \<Rightarrow> builder_node \<Rightarrow> zcdb_builder \<Rightarrow> zcdb_builder option" where
  "write_slot tbi node b = do {
     b \<leftarrow> (if tbi \<noteq> 0 then zcdb_builder_fwrite (zb_data (bn_key node)) tbi b else Some b);
     fwrite_bytes zero4 b }"

definition write_value :: "nat \<Rightarrow> nat \<Rightarrow> nat \<times> builder_node \<Rightarrow> zcdb_builder \<Rightarrow> zcdb_builder option" where
  "write_value tbi offset3 nin b =
     (let (ni, node) = nin; vlen = zb_len (bn_val node) in
      if vlen = 0 then Some b
      else do {
        let b = seek_end b;
        let offset4 = b_cursor b;
        intbuf \<leftarrow> zcint_put (int vlen) [];
        b \<leftarrow> fwrite_bytes intbuf b;
        b \<leftarrow> zcdb_builder_fwrite (zb_data (bn_val node)) vlen b;
        let b = seek_set ((offset3 + (tbi + 4) * ni) + tbi) b;
        fwrite_bytes (zint_pack (of_nat offset4)) b })"

text \<open>Values of one length: the key and the value.\<close>

definition write_fixed :: "nat \<Rightarrow> nat \<Rightarrow> builder_node \<Rightarrow> zcdb_builder \<Rightarrow> zcdb_builder option" where
  "write_fixed tbi val_length node b = do {
     b \<leftarrow> (if tbi \<noteq> 0 then zcdb_builder_fwrite (zb_data (bn_key node)) tbi b else Some b);
     (if val_length \<noteq> 0 then zcdb_builder_fwrite (zb_data (bn_val node)) val_length b else Some b) }"

definition write_records :: "nat \<Rightarrow> nat \<Rightarrow> builder_node list \<Rightarrow> zcdb_builder \<Rightarrow> zcdb_builder option" where
  "write_records tbi val_length chain b =
     (if val_length = 536870912 then do {
        let offset3 = b_cursor b;
        b \<leftarrow> foldM (write_slot tbi) chain b;
        foldM (write_value tbi offset3) (enumerate 0 chain) b }
      else foldM (write_fixed tbi val_length) chain b)"

definition compile_chain :: "nat \<Rightarrow> nat \<Rightarrow> nat \<Rightarrow> nat \<times> builder_node list \<Rightarrow> zcdb_builder \<Rightarrow> zcdb_builder option" where
  "compile_chain tbi val_length offset1 hic b = do {
     let (hi, chain) = hic;
     let b = seek_end b;
     let offset2 = b_cursor b;
     let b = seek_set (offset1 + 4 * hi) b;
     (if chain = [] then fwrite_bytes zero4 b
      else do {
        b \<leftarrow> fwrite_bytes (zint_pack (of_nat offset2)) b;
        let b = seek_end b;
        b \<leftarrow> fwrite_bytes (zint_pack (of_nat (length chain))) b;
        write_records tbi val_length chain b }) }"

definition compile_table :: "nat \<Rightarrow> nat \<times> builder_table option \<Rightarrow> zcdb_builder \<Rightarrow> zcdb_builder option" where
  "compile_table val_length tbt b = do {
     let (tbi, ht) = tbt;
     let b = seek_end b;
     (if b_cursor b > 2147483648 - 1024 * 1024 * 100 then None
      else do {
        let offset1 = b_cursor b;
        let b = seek_set (24 + 4 * tbi) b;
        (case ht of
           None \<Rightarrow> fwrite_bytes zero4 b
         | Some ht \<Rightarrow> do {
             b \<leftarrow> fwrite_bytes (zint_pack (of_nat offset1)) b;
             let b = seek_end b;
             b \<leftarrow> fwrite_bytes (zint_pack (of_nat (hash_node_size ht))) b;
             let offset1 = b_cursor b;
             b \<leftarrow> foldM (\<lambda>_. fwrite_bytes zero4) [0..<hash_node_size ht] b;
             foldM (compile_chain tbi val_length offset1) (enumerate 0 (hash_node_vector ht)) b }) }) }"

definition compiled_val_length :: "zcdb_builder \<Rightarrow> nat" where
  "compiled_val_length b = (if val_length_min b = val_length_max b then val_length_max b else 536870912)"

text \<open>The 24 bytes of \<open>intbuf\<close>; the third number is written again at the end.\<close>

definition cdb_head :: "zcdb_builder \<Rightarrow> bytes" where
  "cdb_head b = cstr ''ZCDB'' @ cstr ''0001'' @ zint_pack (of_int (b_count b)) @ zint_pack (of_int (b_count b))
     @ zint_pack (of_nat (max_klen b))
     @ zint_pack (if val_length_min b = val_length_max b then of_int (b_count b) else 536870912)"

definition zcdb_builder_compile :: "zcdb_builder \<Rightarrow> (zcdb_builder \<times> int) option" where
  "zcdb_builder_compile b =
     (if b_error b then Some (b, - 1)
      else if b_over b then Some (b, 1)
      else do {
        let b = b\<lparr>b_over := True\<rparr>;
        let val_length = compiled_val_length b;
        let tables = take (max_klen b + 1) (table_vector b);
        b \<leftarrow> fwrite_bytes (cdb_head b) b;
        b \<leftarrow> foldM (\<lambda>_. fwrite_bytes zero4) [0..<max_klen b + 1] b;
        b \<leftarrow> foldM (compile_table val_length) (enumerate 0 tables) b;
        let b = seek_end b;
        let dblen = b_cursor b;
        let b = seek_set 8 b;
        b \<leftarrow> fwrite_bytes (zint_pack (of_nat dblen)) b;
        let b = seek_set 20 b;
        b \<leftarrow> fwrite_bytes (zint_pack (of_nat val_length)) b;
        Some (b, if b_error b then - 1 else 1) })"

definition zcdb_builder_get_compiled_data :: "zcdb_builder \<Rightarrow> byte option list" where
  "zcdb_builder_get_compiled_data b = b_data b"

definition zcdb_builder_get_compiled_len :: "zcdb_builder \<Rightarrow> nat" where
  "zcdb_builder_get_compiled_len b = b_size b"

end
