(* ===== verification/CdbTable.thy ===== *)
theory CdbTable
  imports CdbBuild
begin

text \<open>
  What the hash tables and the builder store: a finite map from keys to values. The chains are
  sorted, every key is in the bucket of its hash, the counters are exact.
\<close>

section \<open>Chains\<close>

definition nkey :: "builder_node \<Rightarrow> bytes" where
  "nkey n = zbuf_bytes (bn_key n)"

definition nval :: "builder_node \<Rightarrow> bytes" where
  "nval n = zbuf_bytes (bn_val n)"

definition kv :: "builder_node \<Rightarrow> bytes \<times> bytes" where
  "kv n = (nkey n, nval n)"

lemma kv_simps [simp]: "fst (kv n) = nkey n" "snd (kv n) = nval n"
  by (simp_all add: kv_def)

definition node_ok :: "nat \<Rightarrow> builder_node \<Rightarrow> bool" where
  "node_ok klen n \<longleftrightarrow> zbuf_ok (bn_key n) \<and> zbuf_ok (bn_val n) \<and> zbuf_cap (bn_val n) = None \<and> length (nkey n) = klen"

definition chain_ok :: "nat \<Rightarrow> builder_node list \<Rightarrow> bool" where
  "chain_ok klen chain \<longleftrightarrow> (\<forall>n \<in> set chain. node_ok klen n) \<and> sorted_wrt (<) (map nkey chain)"

lemma memcmp_order:
  assumes "length a = n" "length b = n"
  shows "memcmp a b n < 0 \<longleftrightarrow> a < b" "memcmp a b n = 0 \<longleftrightarrow> a = b"
proof -
  have "(bytes_cmp a b < 0 \<longleftrightarrow> a < b) \<and> (bytes_cmp a b = 0 \<longleftrightarrow> a = b)" if "length a = length b" for a b
    using that by (induction a b rule: bytes_cmp.induct) (auto simp: word_less_def word_uint_eq_iff)
  from this [of a b] assms show "memcmp a b n < 0 \<longleftrightarrow> a < b" "memcmp a b n = 0 \<longleftrightarrow> a = b"
    by (simp_all add: memcmp_def)
qed

lemma zbuf_memcpy_exact:
  assumes "zbuf_ok bf" "zbuf_cap bf = None"
  shows "zbuf_ok (zbuf_memcpy bf xs (int (length xs)))" "zbuf_bytes (zbuf_memcpy bf xs (int (length xs))) = xs"
    "zbuf_cap (zbuf_memcpy bf xs (int (length xs))) = None"
  using zbuf_memcpy_writes [OF assms(1), of xs "int (length xs)"] assms(2) by (simp_all add: writes_def)

lemma node_new_ok: "node_ok (length key) (node_new key val)" "kv (node_new key val) = (key, val)"
  using zbuf_memcpy_exact [OF zbuf_ok_init zbuf_init_empty(2)]
  by (simp_all add: node_ok_def node_new_def nkey_def nval_def kv_def)

lemma chain_update_ok:
  assumes "chain_ok klen chain" "length key = klen" "chain_update key val chain = (chain', new)"
  shows "(\<forall>n \<in> set chain'. node_ok klen n) \<and> map kv chain' = obj_put key val (map kv chain)
    \<and> (new \<longleftrightarrow> key \<notin> set (map nkey chain))"
  using assms
proof (induction chain arbitrary: chain' new)
  case Nil
  then show ?case using node_new_ok [of key val] by auto
next
  case (Cons n chain)
  have n: "node_ok klen n" "chain_ok klen chain" "\<forall>k \<in> set (map nkey chain). nkey n < k"
    using Cons.prems(1) by (simp_all add: chain_ok_def)
  have cmp: "memcmp key (zbuf_bytes (bn_key n)) (length key) < 0 \<longleftrightarrow> key < nkey n"
    "memcmp key (zbuf_bytes (bn_key n)) (length key) = 0 \<longleftrightarrow> key = nkey n"
    using memcmp_order [of key klen "nkey n"] n(1) Cons.prems(2) by (simp_all add: node_ok_def nkey_def)
  consider "key = nkey n" | "key < nkey n" | "nkey n < key" by (rule linorder_cases) auto
  then show ?case
  proof cases
    case 1
    with Cons.prems(3) cmp have c: "chain' = n\<lparr>bn_val := zbuf_memcpy (bn_val n) val (int (length val))\<rparr> # chain" "\<not> new"
      by (simp_all add: Let_def)
    have "node_ok klen (n\<lparr>bn_val := zbuf_memcpy (bn_val n) val (int (length val))\<rparr>)"
      "kv (n\<lparr>bn_val := zbuf_memcpy (bn_val n) val (int (length val))\<rparr>) = (key, val)"
      using n(1) 1 zbuf_memcpy_exact [of "bn_val n" val] by (simp_all add: node_ok_def kv_def nkey_def nval_def)
    with c n(2) 1 show ?thesis by (simp add: chain_ok_def kv_def)
  next
    case 2
    with Cons.prems(3) cmp have "chain' = node_new key val # n # chain" "new" by (auto simp: Let_def)
    with 2 n node_new_ok [of key val] Cons.prems(2) show ?thesis by (auto simp: chain_ok_def kv_def)
  next
    case 3
    then have "\<not> key < nkey n" "key \<noteq> nkey n" by auto
    with Cons.prems(3) cmp obtain c' where c: "chain_update key val chain = (c', new)" "chain' = n # c'"
      by (cases "chain_update key val chain") (simp add: Let_def)
    from Cons.IH [OF n(2) Cons.prems(2) c(1)] 3 c(2) n(1) show ?thesis by (auto simp: kv_def)
  qed
qed

lemma chain_insert_ok:
  assumes "chain_ok klen chain" "node_ok klen n1" "nkey n1 \<notin> set (map nkey chain)"
  shows "\<exists>chain'. chain_insert n1 klen chain = Some chain' \<and> (\<forall>n \<in> set chain'. node_ok klen n)
    \<and> map kv chain' = obj_put (nkey n1) (nval n1) (map kv chain)"
  using assms
proof (induction chain)
  case Nil
  then show ?case by (simp add: kv_def)
next
  case (Cons n chain)
  have n: "node_ok klen n" "chain_ok klen chain" using Cons.prems(1) by (simp_all add: chain_ok_def)
  have cmp: "memcmp (zbuf_bytes (bn_key n1)) (zbuf_bytes (bn_key n)) klen < 0 \<longleftrightarrow> nkey n1 < nkey n"
    "memcmp (zbuf_bytes (bn_key n1)) (zbuf_bytes (bn_key n)) klen = 0 \<longleftrightarrow> nkey n1 = nkey n"
    using memcmp_order [of "nkey n1" klen "nkey n"] n(1) Cons.prems(2) by (simp_all add: node_ok_def nkey_def)
  from Cons.IH [OF n(2) Cons.prems(2)] Cons.prems(3) obtain c where
    "chain_insert n1 klen chain = Some c" "\<forall>n \<in> set c. node_ok klen n"
    "map kv c = obj_put (nkey n1) (nval n1) (map kv chain)" by auto
  then show ?case using cmp Cons.prems n by (cases "nkey n1 < nkey n") (auto simp: Let_def kv_def [of n] kv_def [of n1] chain_ok_def)
qed

lemma chain_ok_put:
  assumes "chain_ok klen chain" "\<forall>n \<in> set chain'. node_ok klen n" "map kv chain' = obj_put k v (map kv chain)"
  shows "chain_ok klen chain'" "map_of (map kv chain') = (map_of (map kv chain))(k \<mapsto> v)"
    "set (map nkey chain') = insert k (set (map nkey chain))"
    "length chain' = length chain + (if k \<in> set (map nkey chain) then 0 else 1)"
proof -
  have e: "map fst (map kv c) = map nkey c" for c by simp
  have s: "sorted_wrt (<) (map fst (map kv chain))" using assms(1) unfolding e chain_ok_def by blast
  show "chain_ok klen chain'"
    using obj_put_sorted [OF s, of k v] assms(2) unfolding assms(3) [symmetric] e chain_ok_def by blast
  show "map_of (map kv chain') = (map_of (map kv chain))(k \<mapsto> v)" unfolding assms(3) by (rule obj_put_map_of [OF s])
  show "set (map nkey chain') = insert k (set (map nkey chain))"
    using obj_put_keys [of k v "map kv chain"] unfolding assms(3) [symmetric] e by blast
  show "length chain' = length chain + (if k \<in> set (map nkey chain) then 0 else 1)"
    using obj_put_length [OF s, of k v] unfolding assms(3) [symmetric] e by simp
qed

section \<open>Tables\<close>

definition bucket :: "nat \<Rightarrow> bytes \<Rightarrow> nat" where
  "bucket hsize k = unat (zhash_djb k) mod hsize"

definition bmap :: "builder_node list list \<Rightarrow> bytes \<rightharpoonup> bytes" where
  "bmap vec k = map_of (map kv (vec ! bucket (length vec) k)) k"

definition buckets_ok :: "nat \<Rightarrow> builder_node list list \<Rightarrow> bool" where
  "buckets_ok klen vec \<longleftrightarrow> vec \<noteq> []
     \<and> (\<forall>i < length vec. chain_ok klen (vec ! i) \<and> (\<forall>n \<in> set (vec ! i). bucket (length vec) (nkey n) = i))"

lemma bucket_less: "buckets_ok klen vec \<Longrightarrow> bucket (length vec) k < length vec"
  by (simp add: buckets_ok_def bucket_def)

lemma buckets_empty:
  assumes "0 < hsize"
  shows "buckets_ok klen (replicate hsize [])" "bmap (replicate hsize []) = Map.empty"
proof -
  show "buckets_ok klen (replicate hsize [])" using assms by (simp add: buckets_ok_def chain_ok_def)
  from bucket_less [OF this] show "bmap (replicate hsize []) = Map.empty" by (auto simp: bmap_def)
qed

lemma length_concat_update:
  assumes "i < length xss"
  shows "length (concat (xss[i := ys])) + length (xss ! i) = length (concat xss) + length ys"
  using assms
proof (induction xss arbitrary: i)
  case (Cons xs xss)
  then show ?case by (cases i) simp_all
qed simp

text \<open>One chain of the table is replaced by one that has the entry.\<close>

lemma buckets_put:
  fixes vec k
  defines "i \<equiv> bucket (length vec) k"
  assumes "buckets_ok klen vec" "\<forall>n \<in> set chain'. node_ok klen n" "map kv chain' = obj_put k v (map kv (vec ! i))"
  shows "buckets_ok klen (vec[i := chain'])" "bmap (vec[i := chain']) = (bmap vec)(k \<mapsto> v)"
    "length (concat (vec[i := chain'])) = length (concat vec) + (if bmap vec k = None then 1 else 0)"
proof -
  have i: "i < length vec" using bucket_less [OF assms(2)] by (simp add: i_def)
  have c: "chain_ok klen (vec ! i)" "\<forall>n \<in> set (vec ! i). bucket (length vec) (nkey n) = i"
    using assms(2) i by (simp_all add: buckets_ok_def)
  note p = chain_ok_put [OF c(1) assms(3,4)]
  have "\<forall>n \<in> set chain'. bucket (length vec) (nkey n) = i"
    using p(3) c(2) i_def by fastforce
  then show "buckets_ok klen (vec[i := chain'])"
    using assms(2) p(1) i by (auto simp: buckets_ok_def nth_list_update)
  show "bmap (vec[i := chain']) = (bmap vec)(k \<mapsto> v)"
    using p(2) i by (auto simp: bmap_def i_def nth_list_update fun_eq_iff)
  have "bmap vec k = None \<longleftrightarrow> k \<notin> set (map nkey (vec ! i))"
    by (auto simp: bmap_def i_def map_of_eq_None_iff image_image)
  then show "length (concat (vec[i := chain'])) = length (concat vec) + (if bmap vec k = None then 1 else 0)"
    using length_concat_update [OF i, of chain'] p(4) by (auto split: if_splits)
qed

text \<open>The nodes of a table, over all chains.\<close>

lemma buckets_nodes:
  assumes "buckets_ok klen vec"
  shows "\<forall>n \<in> set (concat vec). node_ok klen n" "distinct (map nkey (concat vec))"
    "map_of (map kv (concat vec)) = bmap vec"
proof -
  have c: "chain_ok klen (vec ! i)" "\<forall>n \<in> set (vec ! i). bucket (length vec) (nkey n) = i" if "i < length vec" for i
    using assms that by (simp_all add: buckets_ok_def)
  show "\<forall>n \<in> set (concat vec). node_ok klen n"
    using c(1) by (fastforce simp: chain_ok_def in_set_conv_nth)
  have "distinct (map nkey (concat (take m vec)))" if "m \<le> length vec" for m
    using that
  proof (induction m)
    case (Suc m)
    then have m: "m < length vec" by simp
    have "distinct (map nkey (vec ! m))" using c(1) [OF m] strict_sorted_iff by (auto simp: chain_ok_def)
    moreover have "nkey ` set (concat (take m vec)) \<inter> nkey ` set (vec ! m) = {}"
    proof -
      have a: "bucket (length vec) k \<noteq> m" if "k \<in> nkey ` set (concat (take m vec))" for k
      proof -
        from that obtain n xs where n: "k = nkey n" "n \<in> set xs" "xs \<in> set (take m vec)" by auto
        from n(3) obtain j where "j < m" "xs = vec ! j" using m by (auto simp: in_set_conv_nth)
        then show ?thesis using c(2) [of j] m n(1,2) by simp
      qed
      show ?thesis
      proof (rule equals0I)
        fix k
        assume "k \<in> nkey ` set (concat (take m vec)) \<inter> nkey ` set (vec ! m)"
        then have k: "k \<in> nkey ` set (concat (take m vec))" "k \<in> nkey ` set (vec ! m)" by simp_all
        from k(2) have "bucket (length vec) k = m" using c(2) [OF m] by (elim imageE) simp
        with a [OF k(1)] show False by simp
      qed
    qed
    moreover have "distinct (map nkey (concat (take m vec)))" using Suc by simp
    ultimately show ?case by (simp add: take_Suc_conv_app_nth [OF m])
  qed simp
  from this [of "length vec"] show d: "distinct (map nkey (concat vec))" by simp
  have d': "distinct (map fst (map kv (concat vec)))" using d by (simp add: comp_def)
  have di: "distinct (map fst (map kv (vec ! bucket (length vec) k)))" for k
    using c(1) [OF bucket_less [OF assms]] strict_sorted_iff by (auto simp: chain_ok_def comp_def)
  have "map_of (map kv (concat vec)) k = Some v \<longleftrightarrow> bmap vec k = Some v" for k v
  proof -
    have "(k, v) \<in> set (map kv (concat vec)) \<longleftrightarrow> (k, v) \<in> set (map kv (vec ! bucket (length vec) k))"
    proof
      assume "(k, v) \<in> set (map kv (concat vec))"
      then obtain n where n: "n \<in> set (concat vec)" "kv n = (k, v)" by (metis imageE list.set_map)
      then obtain j where "j < length vec" "n \<in> set (vec ! j)" by (metis in_set_conv_nth set_concat UN_E)
      moreover from this c(2) n(2) have "bucket (length vec) k = j" by (auto simp: kv_def)
      ultimately show "(k, v) \<in> set (map kv (vec ! bucket (length vec) k))" using n(2) by force
    next
      assume "(k, v) \<in> set (map kv (vec ! bucket (length vec) k))"
      then show "(k, v) \<in> set (map kv (concat vec))" using bucket_less [OF assms, of k] by force
    qed
    then show ?thesis using d' di [of k] by (simp only: bmap_def map_of_eq_Some_iff)
  qed
  then show "map_of (map kv (concat vec)) = bmap vec" by (metis (no_types) ext not_None_eq)
qed

text \<open>Growing the table moves all nodes; no key is there twice, so the fatal case does not occur.\<close>

lemma rehash_ok:
  assumes "buckets_ok klen hv" "length hv = hsize" "\<forall>n \<in> set ns. node_ok klen n" "distinct (map nkey ns)"
    "\<forall>n \<in> set ns. bmap hv (nkey n) = None"
  shows "\<exists>hv'. foldM (rehash_node klen hsize) ns hv = Some hv' \<and> buckets_ok klen hv' \<and> length hv' = hsize
    \<and> bmap hv' = bmap hv ++ map_of (map kv ns) \<and> length (concat hv') = length (concat hv) + length ns"
  using assms
proof (induction ns arbitrary: hv)
  case (Cons n ns)
  let ?i = "bucket (length hv) (nkey n)"
  have n: "node_ok klen n" "bmap hv (nkey n) = None" using Cons.prems(3,5) by simp_all
  have i: "?i < length hv" using bucket_less [OF Cons.prems(1)] .
  then have ci: "chain_ok klen (hv ! ?i)" using Cons.prems(1) by (simp add: buckets_ok_def)
  have "nkey n \<notin> set (map nkey (hv ! ?i))"
    using n(2) by (auto simp: bmap_def map_of_eq_None_iff image_image)
  from chain_insert_ok [OF ci n(1) this] obtain c where c: "chain_insert n klen (hv ! ?i) = Some c"
    "\<forall>n \<in> set c. node_ok klen n" "map kv c = obj_put (nkey n) (nval n) (map kv (hv ! ?i))" by blast
  note p = buckets_put [OF Cons.prems(1) c(2,3)]
  let ?hv = "hv[?i := c]"
  have "take klen (zbuf_bytes (bn_key n)) = nkey n" using n(1) by (simp add: node_ok_def nkey_def)
  then have step: "rehash_node klen hsize n hv = Some ?hv"
    using c(1) Cons.prems(2) by (simp add: rehash_node_def bucket_def)
  have "\<exists>hv'. foldM (rehash_node klen hsize) ns ?hv = Some hv' \<and> buckets_ok klen hv' \<and> length hv' = hsize
      \<and> bmap hv' = bmap ?hv ++ map_of (map kv ns) \<and> length (concat hv') = length (concat ?hv) + length ns"
  proof (rule Cons.IH [OF p(1)])
    show "\<forall>n' \<in> set ns. bmap ?hv (nkey n') = None"
    proof
      fix n'
      assume "n' \<in> set ns"
      moreover from this have "nkey n' \<noteq> nkey n" using Cons.prems(4) by (metis distinct.simps(2) image_eqI list.map(2) list.set_map)
      ultimately show "bmap ?hv (nkey n') = None" using Cons.prems(5) p(2) by simp
    qed
  qed (use Cons.prems in simp_all)
  then obtain hv' where hv': "foldM (rehash_node klen hsize) ns ?hv = Some hv'" "buckets_ok klen hv'" "length hv' = hsize"
    "bmap hv' = bmap ?hv ++ map_of (map kv ns)" "length (concat hv') = length (concat ?hv) + length ns" by blast
  have "nkey n \<notin> dom (map_of (map kv ns))" using Cons.prems(4) by (auto simp: dom_map_of_conv_image_fst image_image)
  then have "bmap hv' = bmap hv ++ map_of (map kv (n # ns))"
    unfolding hv'(4) p(2) by (auto simp: map_add_def kv_def fun_eq_iff split: option.splits)
  moreover have "length (concat hv') = length (concat hv) + length (n # ns)" using hv'(5) p(3) n(2) by simp
  ultimately show ?case using hv'(1,2,3) step by (intro exI [of _ hv']) (simp only: foldM.simps bind.bind_lunit simp_thms)
qed simp

definition table_ok :: "nat \<Rightarrow> builder_table \<Rightarrow> bool" where
  "table_ok klen t \<longleftrightarrow> bt_klen t = klen \<and> length (hash_node_vector t) = hash_node_size t
     \<and> buckets_ok klen (hash_node_vector t) \<and> bt_count t = length (concat (hash_node_vector t))
     \<and> hash_node_size t \<le> 2 * bt_count t + 3"

definition table_map :: "builder_table \<Rightarrow> bytes \<rightharpoonup> bytes" where
  "table_map t = bmap (hash_node_vector t)"

lemma table_create_ok: "table_ok klen (builder_table_create klen)" "table_map (builder_table_create klen) = Map.empty"
  using buckets_empty [of 3] by (simp_all add: table_ok_def table_map_def builder_table_create_def)

lemma reset_hash_node_size_ok:
  assumes "table_ok klen t" "0 < hsize" "hsize \<le> 2 * bt_count t + 3"
  shows "\<exists>t'. builder_table_reset_hash_node_size t hsize = Some t' \<and> table_ok klen t' \<and> table_map t' = table_map t
    \<and> bt_count t' = bt_count t \<and> hash_node_size t' = hsize"
proof -
  have t: "bt_klen t = klen" "buckets_ok klen (hash_node_vector t)" "bt_count t = length (concat (hash_node_vector t))"
    using assms(1) by (simp_all add: table_ok_def)
  note e = buckets_empty [OF assms(2)]
  from rehash_ok [OF e(1) _ buckets_nodes(1,2) [OF t(2)], of hsize] e(2) obtain hv where
    "foldM (rehash_node klen hsize) (concat (hash_node_vector t)) (replicate hsize []) = Some hv" "buckets_ok klen hv"
    "length hv = hsize" "bmap hv = map_of (map kv (concat (hash_node_vector t)))" "length (concat hv) = length (concat (hash_node_vector t))"
    by auto
  with t buckets_nodes(3) [OF t(2)] assms(3) show ?thesis
    by (simp add: builder_table_reset_hash_node_size_def table_ok_def table_map_def)
qed

lemma update_token_ok:
  assumes "table_ok klen t" "length key = klen"
  shows "\<exists>t'. builder_table_update_token t key val = Some t' \<and> table_ok klen t' \<and> table_map t' = (table_map t)(key \<mapsto> val)
    \<and> bt_count t' = bt_count t + (if table_map t key = None then 1 else 0)"
proof -
  let ?v = "hash_node_vector t"
  let ?i = "bucket (length ?v) key"
  have t: "bt_klen t = klen" "length ?v = hash_node_size t" "buckets_ok klen ?v" "bt_count t = length (concat ?v)"
    "hash_node_size t \<le> 2 * bt_count t + 3"
    using assms(1) by (simp_all add: table_ok_def)
  obtain c new where c: "chain_update key val (?v ! ?i) = (c, new)" by (cases "chain_update key val (?v ! ?i)")
  have ci: "chain_ok klen (?v ! ?i)" using t(3) bucket_less [OF t(3)] by (simp add: buckets_ok_def)
  from chain_update_ok [OF ci assms(2) c] have u: "\<forall>n \<in> set c. node_ok klen n" "map kv c = obj_put key val (map kv (?v ! ?i))"
    "new \<longleftrightarrow> table_map t key = None"
    by (auto simp: table_map_def bmap_def map_of_eq_None_iff image_image)
  note p = buckets_put [OF t(3) u(1,2)]
  let ?t = "t\<lparr>hash_node_vector := ?v[?i := c], bt_count := bt_count t + (if new then 1 else 0)\<rparr>"
  have ok: "table_ok klen ?t" "table_map ?t = (table_map t)(key \<mapsto> val)"
    using p t u(3) by (simp_all add: table_ok_def table_map_def)
  have b: "unat (zhash_djb key) mod hash_node_size t = ?i" using t(2) by (simp add: bucket_def)
  show ?thesis
  proof (cases "new \<and> bt_count t + 1 > hash_node_size t")
    case True
    with reset_hash_node_size_ok [OF ok(1), of "hash_node_size t * 2 + 1"] obtain t' where
      "builder_table_reset_hash_node_size ?t (hash_node_size t * 2 + 1) = Some t'" "table_ok klen t'"
      "table_map t' = table_map ?t" "bt_count t' = bt_count t + 1" by auto
    with True ok(2) u(3) c b show ?thesis by (simp add: builder_table_update_token_def)
  next
    case False
    then have "builder_table_update_token t key val = Some ?t"
      using c b by (cases new) (simp_all add: builder_table_update_token_def)
    with ok u(3) show ?thesis by simp
  qed
qed

section \<open>The builder\<close>

definition tables_count :: "builder_table option list \<Rightarrow> int" where
  "tables_count ts = sum_list (map (\<lambda>t. case t of None \<Rightarrow> 0 | Some t \<Rightarrow> int (bt_count t)) ts)"

definition builder_ok :: "zcdb_builder \<Rightarrow> bool" where
  "builder_ok b \<longleftrightarrow> length (table_vector b) = zvar_zcdb_max_key_len + 1 \<and> max_klen b \<le> zvar_zcdb_max_key_len
     \<and> (\<forall>i t. i < length (table_vector b) \<longrightarrow> table_vector b ! i = Some t \<longrightarrow> table_ok i t \<and> i \<le> max_klen b)
     \<and> b_count b = tables_count (table_vector b)"

text \<open>The map a builder has collected.\<close>

definition cdb_map :: "zcdb_builder \<Rightarrow> bytes \<rightharpoonup> bytes" where
  "cdb_map b k =
     (if length k < length (table_vector b)
      then (case table_vector b ! length k of None \<Rightarrow> None | Some t \<Rightarrow> table_map t k)
      else None)"

lemma tables_count_update:
  assumes "i < length ts"
  shows "tables_count (ts[i := Some t])
    = tables_count ts + int (bt_count t) - (case ts ! i of None \<Rightarrow> 0 | Some t0 \<Rightarrow> int (bt_count t0))"
  using assms
proof (induction ts arbitrary: i)
  case (Cons t0 ts)
  then show ?case by (cases i) (auto simp: tables_count_def)
qed simp

lemma builder_create_ok: "builder_ok zcdb_builder_create" "cdb_map zcdb_builder_create = Map.empty"
proof -
  show "builder_ok zcdb_builder_create"
    by (auto simp: builder_ok_def zcdb_builder_create_def tables_count_def sum_list_replicate nth_Cons' split: if_splits)
  show "cdb_map zcdb_builder_create = Map.empty"
    by (rule ext) (simp add: cdb_map_def zcdb_builder_create_def del: replicate.simps)
qed

text \<open>What the lengths of the values say, as long as no value is empty.\<close>

definition lengths_ok :: "zcdb_builder \<Rightarrow> bool" where
  "lengths_ok b \<longleftrightarrow> (val_length_max b = 0 \<longrightarrow> val_length_min b = 0 \<and> cdb_map b = Map.empty)
     \<and> (val_length_max b \<noteq> 0 \<longrightarrow> 0 < val_length_min b) \<and> val_length_max b < 2 ^ 31
     \<and> (\<forall>v \<in> ran (cdb_map b). val_length_min b \<le> length v \<and> length v \<le> val_length_max b)"

lemma builder_update_ok:
  assumes "builder_ok b" "length key \<le> zvar_zcdb_max_key_len"
  shows "\<exists>b'. zcdb_builder_update b key (int (length key)) val (int (length val)) = Some b' \<and> builder_ok b'
    \<and> cdb_map b' = (cdb_map b)(key \<mapsto> val)
    \<and> b_data b' = b_data b \<and> b_capability b' = b_capability b \<and> b_size b' = b_size b \<and> b_cursor b' = b_cursor b
    \<and> b_error b' = b_error b \<and> b_over b' = b_over b
    \<and> b_count b' = b_count b + (if cdb_map b key = None then 1 else 0)
    \<and> (\<forall>i. i \<noteq> length key \<longrightarrow> table_vector b' ! i = table_vector b ! i)
    \<and> (val \<noteq> [] \<longrightarrow> length val < 2 ^ 31 \<longrightarrow> lengths_ok b \<longrightarrow> lengths_ok b')"
proof -
  let ?k = "length key"
  let ?tv = "table_vector b"
  let ?t = "case ?tv ! ?k of None \<Rightarrow> builder_table_create ?k | Some t \<Rightarrow> t"
  have b: "length ?tv = zvar_zcdb_max_key_len + 1" "max_klen b \<le> zvar_zcdb_max_key_len" "b_count b = tables_count ?tv"
    "\<And>i t. i < length ?tv \<Longrightarrow> ?tv ! i = Some t \<Longrightarrow> table_ok i t \<and> i \<le> max_klen b"
    using assms(1) by (simp_all add: builder_ok_def)
  have k: "?k < length ?tv" using assms(2) b(1) by simp
  have t: "table_ok ?k ?t" "table_map ?t key = cdb_map b key" "length k' = ?k \<Longrightarrow> table_map ?t k' = cdb_map b k'" for k'
    using b(4) [OF k] table_create_ok [of ?k] k by (auto simp: cdb_map_def split: option.splits)
  obtain t' where t': "builder_table_update_token ?t key val = Some t'" "table_ok ?k t'" "table_map t' = (table_map ?t)(key \<mapsto> val)"
    "bt_count t' = bt_count ?t + (if table_map ?t key = None then 1 else 0)"
    using update_token_ok [OF t(1)] by blast
  let ?min = "if length val \<noteq> 0 \<and> val_length_min b = 0 then length val else val_length_min b"
  let ?max = "if length val \<noteq> 0 \<and> val_length_max b = 0 then length val else val_length_max b"
  let ?b = "b\<lparr>max_klen := if ?k > max_klen b then ?k else max_klen b, table_vector := ?tv[?k := Some t'],
    val_length_min := if length val < ?min then length val else ?min,
    val_length_max := if length val > ?max then length val else ?max,
    b_count := b_count b - int (bt_count ?t) + int (bt_count t')\<rparr>"
  have "zcdb_builder_update b key (int ?k) val (int (length val)) = Some ?b"
    using assms(2) t'(1) unfolding zcdb_builder_update_def Let_def src_bytes_all
    by (simp only: bind.bind_lunit not_le [symmetric] if_False simp_thms)
  moreover have "?tv[?k := Some t'] ! i = Some t \<Longrightarrow> i < length ?tv \<Longrightarrow> table_ok i t \<and> i \<le> max_klen ?b" for i t
    using b(4) [of i t] t'(2) by (cases "i = ?k") (auto simp: k)
  then have "builder_ok ?b"
    using b k table_create_ok [of ?k] tables_count_update [OF k, of t'] assms(2)
    by (auto simp: builder_ok_def builder_table_create_def split: option.splits)
  moreover have m: "cdb_map ?b = (cdb_map b)(key \<mapsto> val)"
    using t'(3) t(3) k by (auto simp: cdb_map_def nth_list_update fun_eq_iff)
  moreover have "lengths_ok ?b" if "val \<noteq> []" "length val < 2 ^ 31" "lengths_ok b"
  proof -
    have r: "ran (cdb_map ?b) \<subseteq> insert (val) (ran (cdb_map b))" unfolding m by (auto simp: ran_def)
    have l: "v \<in> ran (cdb_map b) \<Longrightarrow> val_length_min b \<le> length v \<and> length v \<le> val_length_max b" for v
      using that(3) by (simp add: lengths_ok_def)
    have "val_length_min ?b \<le> length v \<and> length v \<le> val_length_max ?b" if "v \<in> ran (cdb_map ?b)" for v
      using subsetD [OF r that] l [of v] \<open>lengths_ok b\<close> by (auto simp: lengths_ok_def)
    moreover have "0 < val_length_min ?b" "0 < val_length_max ?b" "val_length_max ?b < 2 ^ 31" using that by (auto simp: lengths_ok_def)
    ultimately show ?thesis unfolding lengths_ok_def by simp
  qed
  ultimately show ?thesis using t'(4) t(2) by (intro exI [of _ ?b]) simp
qed

end
