(* ===== verification/CdbFile.thy ===== *)
theory CdbFile
  imports CdbTable
begin

text \<open>
  The bytes \<open>zcdb_builder_compile\<close> writes: the layout of a database as a function of what the builder
  stores, and the proof that the writes, most of which go back to a slot that was left empty, leave
  exactly that layout in the file.
\<close>

section \<open>The file under writes\<close>

definition file_at :: "zcdb_builder \<Rightarrow> bytes \<Rightarrow> nat \<Rightarrow> bool" where
  "file_at b d c \<longleftrightarrow> \<not> b_error b \<and> (\<exists>k \<le> 20. b_capability b = 2 ^ (10 + k)) \<and> length (b_data b) = b_capability b + 10
     \<and> b_size b = length d \<and> length d \<le> b_capability b \<and> take (length d) (b_data b) = map Some d
     \<and> b_cursor b = c \<and> c \<le> length d"

definition keeps :: "zcdb_builder \<Rightarrow> zcdb_builder \<Rightarrow> bool" where
  "keeps b b' \<longleftrightarrow> table_vector b' = table_vector b \<and> max_klen b' = max_klen b \<and> b_count b' = b_count b
     \<and> val_length_min b' = val_length_min b \<and> val_length_max b' = val_length_max b \<and> b_over b' = b_over b"

text \<open>\<open>runs m b d c\<close>: the computation \<open>m\<close>, started with the builder \<open>b\<close>, returns with the file \<open>d\<close> and the cursor \<open>c\<close>.\<close>

definition runs :: "zcdb_builder option \<Rightarrow> zcdb_builder \<Rightarrow> bytes \<Rightarrow> nat \<Rightarrow> bool" where
  "runs m b d c \<longleftrightarrow> (\<exists>b'. m = Some b' \<and> file_at b' d c \<and> keeps b b')"

lemma keeps_refl [simp]: "keeps b b"
  by (simp add: keeps_def)

lemma keeps_trans: "keeps a b \<Longrightarrow> keeps b c \<Longrightarrow> keeps a c"
  by (simp add: keeps_def)

lemma runs_Some: "file_at b d c \<Longrightarrow> runs (Some b) b d c"
  by (simp add: runs_def)

lemma runs_bind:
  assumes "runs m b d c" "\<And>b'. file_at b' d c \<Longrightarrow> keeps b b' \<Longrightarrow> runs (f b') b' d' c'"
  shows "runs (Option.bind m f) b d' c'"
  using assms unfolding runs_def by (metis keeps_trans bind.bind_lunit)

lemma runs_step: "m = Some b1 \<Longrightarrow> keeps b b1 \<Longrightarrow> runs (f b1) b1 d c \<Longrightarrow> runs (Option.bind m f) b d c"
  unfolding runs_def using keeps_trans by (metis bind.bind_lunit)

lemma runs_keeps: "keeps b b1 \<Longrightarrow> runs m b1 d c \<Longrightarrow> runs m b d c"
  unfolding runs_def using keeps_trans by blast

lemma seek_end_file: "file_at b d c \<Longrightarrow> file_at (seek_end b) d (length d)"
  by (simp add: file_at_def zcdb_builder_fseek_def)

lemma seek_set_file: "file_at b d c \<Longrightarrow> p \<le> length d \<Longrightarrow> file_at (seek_set p b) d p"
  by (simp add: file_at_def zcdb_builder_fseek_def)

lemma seek_keeps [simp]: "keeps b (zcdb_builder_fseek b p w)" "keeps (zcdb_builder_fseek b p w) b"
  by (simp_all add: keeps_def zcdb_builder_fseek_def Let_def)

lemma runs_seek: "runs m (zcdb_builder_fseek b p w) d c \<longleftrightarrow> runs m b d c"
  unfolding runs_def using keeps_trans seek_keeps by blast

lemma cursor_file: "file_at b d c \<Longrightarrow> b_cursor b = c"
  by (simp add: file_at_def)

lemma grow_ok:
  assumes "k \<le> 20" "cursor + need < 2 ^ 30" "length data = 2 ^ (10 + k) + 10"
  shows "\<exists>k' data'. grow_capability (2 ^ (10 + k)) cursor need data = Some (2 ^ (10 + k'), data') \<and> k \<le> k' \<and> k' \<le> 20
    \<and> length data' = 2 ^ (10 + k') + 10 \<and> take (2 ^ (10 + k)) data' = take (2 ^ (10 + k)) data \<and> cursor + need < 2 ^ (10 + k')"
  using assms
proof (induction "20 - k" arbitrary: k data)
  case 0
  then have "k = 20" by simp
  with 0 show ?case by (subst grow_capability.simps) (auto intro!: exI [of _ 20])
next
  case (Suc n)
  show ?case
  proof (cases "cursor + need < 2 ^ (10 + k)")
    case True
    then have "int (2 ^ (10 + k)) - int cursor > int need" by linarith
    then have "grow_capability (2 ^ (10 + k)) cursor need data = Some (2 ^ (10 + k), data)"
      by (subst grow_capability.simps) simp
    with True Suc.prems show ?thesis by blast
  next
    case False
    then have ge: "\<not> int (2 ^ (10 + k)) - int cursor > int need" by linarith
    have "k < 20" using Suc.hyps(2) by simp
    then have "(2 :: nat) ^ (10 + k) < 2 ^ 30" by (intro power_strict_increasing) simp_all
    then have le: "\<not> 2 ^ 31 \<le> 2 ^ (10 + k) * (2 :: nat)" by simp
    let ?data = "zrealloc data (2 ^ (10 + Suc k) + 10)"
    have "n = 20 - Suc k" "Suc k \<le> 20" using Suc.hyps(2) by simp_all
    from Suc.hyps(1) [OF this Suc.prems(2)] obtain k' data' where
      g: "grow_capability (2 ^ (10 + Suc k)) cursor need ?data = Some (2 ^ (10 + k'), data')" "Suc k \<le> k'" "k' \<le> 20"
      "length data' = 2 ^ (10 + k') + 10" "take (2 ^ (10 + Suc k)) data' = take (2 ^ (10 + Suc k)) ?data"
      "cursor + need < 2 ^ (10 + k')" by (metis length_zrealloc)
    have "take (2 ^ (10 + k)) data' = take (2 ^ (10 + k)) ?data"
      using arg_cong [OF g(5), of "take (2 ^ (10 + k))"] by (simp add: min_def)
    also have "\<dots> = take (2 ^ (10 + k)) data"
    proof (rule take_zrealloc)
      have "(2 :: nat) ^ (10 + k) \<le> 2 ^ (10 + Suc k)" by (intro power_increasing) simp_all
      then show "(2 :: nat) ^ (10 + k) \<le> 2 ^ (10 + Suc k) + 10" by linarith
    qed (simp add: Suc.prems(3))
    finally have "take (2 ^ (10 + k)) data' = take (2 ^ (10 + k)) data" .
    moreover have "grow_capability (2 ^ (10 + k)) cursor need data = Some (2 ^ (10 + k'), data')"
    proof -
      have tw: "2 ^ (10 + k) * 2 = (2 :: nat) ^ (10 + Suc k)" by (simp only: add_Suc_right power_Suc mult.commute)
      show ?thesis using g(1) by (subst grow_capability.simps) (simp only: ge le [unfolded tw] tw if_False)
    qed
    ultimately show ?thesis using g by (intro exI [of _ k'] exI [of _ data']) simp
  qed
qed

definition put_at :: "bytes \<Rightarrow> nat \<Rightarrow> bytes \<Rightarrow> bytes" where
  "put_at d c xs = take c d @ xs @ drop (c + length xs) d"

lemma put_at_end [simp]: "put_at d (length d) xs = d @ xs"
  by (simp add: put_at_def)

lemma put_at_mid: "length a = c \<Longrightarrow> length old = length xs \<Longrightarrow> put_at (a @ old @ r) c xs = a @ xs @ r"
  by (simp add: put_at_def)

lemma fwrite_file:
  assumes "file_at b d c" "take n ptr = map Some xs" "length xs = n" "c + n < 2 ^ 30"
  shows "runs (zcdb_builder_fwrite ptr n b) b (put_at d c xs) (c + n)"
proof -
  from assms(1) obtain k where f: "\<not> b_error b" "k \<le> 20" "b_capability b = 2 ^ (10 + k)" "length (b_data b) = 2 ^ (10 + k) + 10"
    "b_size b = length d" "length d \<le> 2 ^ (10 + k)" "take (length d) (b_data b) = map Some d" "b_cursor b = c" "c \<le> length d"
    by (auto simp: file_at_def)
  from grow_ok [OF f(2) assms(4) f(4)] obtain k' data where
    g: "grow_capability (2 ^ (10 + k)) c n (b_data b) = Some (2 ^ (10 + k'), data)" "k \<le> k'" "k' \<le> 20"
    "length data = 2 ^ (10 + k') + 10" "take (2 ^ (10 + k)) data = take (2 ^ (10 + k)) (b_data b)" "c + n < 2 ^ (10 + k')"
    by blast
  have n: "n \<le> length ptr" using assms(2,3) by (metis length_map length_take min.cobounded1)
  have len: "length (put_at d c xs) = max (c + n) (length d)" using f(9) assms(3) by (auto simp: put_at_def)
  have d: "take (length d) data = map Some d"
    using arg_cong [OF g(5), of "take (length d)"] f(6,7) by (simp add: min_def)
  let ?data = "take c data @ take n ptr @ drop (c + n) data"
  have cap: "(2 :: nat) ^ (10 + k) \<le> 2 ^ (10 + k')" using g(2) by simp
  have "take c data = map Some (take c d)"
    using arg_cong [OF d, of "take c"] f(9) by (simp add: min_def take_map)
  moreover have "take (max (c + n) (length d) - (c + n)) (drop (c + n) data) = map Some (drop (c + n) d)"
  proof (cases "c + n \<le> length d")
    case True
    then show ?thesis using arg_cong [OF d, of "drop (c + n)"] by (simp add: drop_take max_def drop_map)
  qed (simp add: max_def)
  ultimately have "take (max (c + n) (length d)) ?data = map Some (put_at d c xs)"
    using assms(2,3) n f(9) len g(4,6) by (simp add: put_at_def min_def)
  moreover have "length (take c data @ take n ptr @ drop (c + n) data) = length data" using n g(4,6) by simp
  moreover have "max (c + n) (length d) \<le> 2 ^ (10 + k')"
    by (rule max.boundedI [OF less_imp_le [OF g(6)] order_trans [OF f(6) cap]])
  moreover have "zcdb_builder_fwrite ptr n b = Some (b\<lparr>b_capability := 2 ^ (10 + k'), b_data := ?data, b_cursor := c + n,
      b_size := (if c + n > length d then c + n else length d)\<rparr>)"
    using f n g by (simp add: zcdb_builder_fwrite_def Let_def)
  ultimately show ?thesis unfolding runs_def file_at_def keeps_def using f(1) g(3,4) len by (auto simp: max_def)
qed

lemma fwrite_bytes_file: "file_at b d c \<Longrightarrow> c + length xs < 2 ^ 30 \<Longrightarrow> runs (fwrite_bytes xs b) b (put_at d c xs) (c + length xs)"
  using fwrite_file [of b d c "length xs" "map Some xs" xs] by (simp add: fwrite_bytes_def)

lemma append_file:
  "file_at b d (length d) \<Longrightarrow> length (d @ xs) < 2 ^ 30 \<Longrightarrow> runs (fwrite_bytes xs b) b (d @ xs) (length (d @ xs))"
  using fwrite_bytes_file [of b d "length d" xs] by simp

section \<open>Slots and blocks\<close>

text \<open>A vector of offsets (each after a prefix, the key of a record), followed by the blocks the
  offsets point to: an item without a block has the offset 0.\<close>

definition slots :: "bytes list \<Rightarrow> nat list \<Rightarrow> bytes" where
  "slots ks ps = concat (map2 (\<lambda>k p. k @ zint_pack (of_nat p)) ks ps)"

fun place :: "(nat \<Rightarrow> 'x \<Rightarrow> bytes option) \<Rightarrow> nat \<Rightarrow> 'x list \<Rightarrow> nat list \<times> bytes" where
  "place blk o1 [] = ([], [])"
| "place blk o1 (x # xs) =
     (case blk o1 x of
        None \<Rightarrow> (let (ps, bs) = place blk o1 xs in (0 # ps, bs))
      | Some bl \<Rightarrow> (let (ps, bs) = place blk (o1 + length bl) xs in (o1 # ps, bl @ bs)))"

definition placed :: "(nat \<Rightarrow> 'x \<Rightarrow> bytes option) \<Rightarrow> nat \<Rightarrow> bytes list \<Rightarrow> 'x list \<Rightarrow> bytes" where
  "placed blk o1 ks xs =
     (let (ps, bs) = place blk (o1 + length (concat ks) + 4 * length xs) xs in slots ks ps @ bs)"

lemma slots_Nil [simp]: "slots [] ps = []" "slots ks [] = []"
  by (simp_all add: slots_def)

lemma slots_Cons [simp]: "slots (k # ks) (p # ps) = k @ zint_pack (of_nat p) @ slots ks ps"
  by (simp add: slots_def)

lemma length_slots: "length ps = length ks \<Longrightarrow> length (slots ks ps) = length (concat ks) + 4 * length ks"
proof (induction ks arbitrary: ps)
  case (Cons k ks)
  then show ?case by (cases ps) simp_all
qed simp

lemma length_place [simp]: "length (fst (place blk o1 xs)) = length xs"
  by (induction blk o1 xs rule: place.induct) (auto split: option.splits prod.splits)

lemma concat_same_length: "\<forall>k \<in> set ks. length k = K \<Longrightarrow> length (concat ks) = K * length ks"
  by (induction ks) simp_all

lemma length_placed_ge:
  assumes "length ks = length xs"
  shows "length (concat ks) + 4 * length xs \<le> length (placed blk o1 ks xs)"
proof -
  obtain ps bs where pl: "place blk (o1 + length (concat ks) + 4 * length xs) xs = (ps, bs)" by (rule prod.exhaust)
  then have "length ps = length ks" using length_place [of blk "o1 + length (concat ks) + 4 * length xs" xs] assms by simp
  then show ?thesis using pl assms by (simp add: placed_def length_slots)
qed

text \<open>Where a slot is, and what a write into it does.\<close>

lemma slots_split:
  assumes "length ps = length ks" "\<forall>k \<in> set ks. length k = K" "i < length ks"
  shows "\<exists>a r. slots ks ps = a @ ks ! i @ zint_pack (of_nat (ps ! i)) @ r \<and> length a = (K + 4) * i
    \<and> (\<forall>p. slots ks (ps[i := p]) = a @ ks ! i @ zint_pack (of_nat p) @ r)"
  using assms
proof (induction ks arbitrary: ps i)
  case (Cons k ks)
  then obtain p ps' where e: "ps = p # ps'" "length ps' = length ks" by (cases ps) auto
  show ?case
  proof (cases i)
    case 0
    then show ?thesis using e by (intro exI [of _ "[]"] exI [of _ "slots ks ps'"]) simp
  next
    case (Suc i')
    then obtain a r where "slots ks ps' = a @ ks ! i' @ zint_pack (of_nat (ps' ! i')) @ r" "length a = (K + 4) * i'"
      "\<forall>p. slots ks (ps'[i' := p]) = a @ ks ! i' @ zint_pack (of_nat p) @ r"
      using Cons.IH [OF e(2), of i'] Cons.prems by auto
    then show ?thesis using e Suc Cons.prems(2) by (intro exI [of _ "k @ zint_pack (of_nat p) @ a"] exI [of _ r]) simp
  qed
qed simp

lemma put_slot:
  assumes "length ps = length ks" "\<forall>k \<in> set ks. length k = K" "i < length ks"
  shows "put_at (pre @ slots ks ps @ r) (length pre + (K + 4) * i + K) (zint_pack (of_nat p)) = pre @ slots ks (ps[i := p]) @ r"
proof -
  obtain a r' where s: "slots ks ps = a @ ks ! i @ zint_pack (of_nat (ps ! i)) @ r'" "length a = (K + 4) * i"
    "\<And>p. slots ks (ps[i := p]) = a @ ks ! i @ zint_pack (of_nat p) @ r'"
    using slots_split [OF assms] by blast
  have "length (ks ! i) = K" using assms(2,3) by simp
  then have l: "length (pre @ a @ ks ! i) = length pre + (K + 4) * i + K" using s(2) by simp
  have "pre @ slots ks ps @ r = (pre @ a @ ks ! i) @ zint_pack (of_nat (ps ! i)) @ (r' @ r)" using s(1) by simp
  then show ?thesis using put_at_mid [OF l, of "zint_pack (of_nat (ps ! i))"] s(3) by simp
qed

text \<open>A loop that handles one item after the other, each with its block and its slot.\<close>

definition block_len :: "(nat \<Rightarrow> 'x \<Rightarrow> bytes option) \<Rightarrow> nat \<Rightarrow> 'x \<Rightarrow> nat" where
  "block_len blk o1 x = (case blk o1 x of None \<Rightarrow> 0 | Some bl \<Rightarrow> length bl)"

definition fills :: "(nat \<times> 'x \<Rightarrow> zcdb_builder \<Rightarrow> zcdb_builder option) \<Rightarrow> (nat \<Rightarrow> 'x \<Rightarrow> bytes option) \<Rightarrow> bytes \<Rightarrow> bytes list
    \<Rightarrow> 'x list \<Rightarrow> bool" where
  "fills f blk pre ks xs \<longleftrightarrow> (\<forall>i ps blob c b. i < length xs \<longrightarrow> length ps = length ks \<longrightarrow> ps ! i = 0 \<longrightarrow>
     file_at b (pre @ slots ks ps @ blob) c \<longrightarrow>
     length (pre @ slots ks ps @ blob) + block_len blk (length (pre @ slots ks ps @ blob)) (xs ! i) < 2 ^ 30 \<longrightarrow>
     (\<exists>c'. runs (f (i, xs ! i) b) b
        (case blk (length (pre @ slots ks ps @ blob)) (xs ! i) of
           None \<Rightarrow> pre @ slots ks ps @ blob
         | Some bl \<Rightarrow> pre @ slots ks (ps[i := length (pre @ slots ks ps @ blob)]) @ blob @ bl) c'))"

lemma foldM_fills:
  assumes "fills f blk pre ks xs" "length ks = length xs" "xs = ys @ zs" "length qs = length ys"
    and "file_at b (pre @ slots ks (qs @ replicate (length zs) 0) @ blob) c"
    and "o1 = length (pre @ slots ks (qs @ replicate (length zs) 0) @ blob)"
    and "o1 + length (snd (place blk o1 zs)) < 2 ^ 30"
  shows "\<exists>c'. runs (foldM f (enumerate (length ys) zs) b) b
    (pre @ slots ks (qs @ fst (place blk o1 zs)) @ blob @ snd (place blk o1 zs)) c'"
  using assms
proof (induction zs arbitrary: ys qs b blob c o1)
  case Nil
  then show ?case using runs_Some by auto
next
  case (Cons z zs)
  let ?i = "length ys"
  let ?ps = "qs @ replicate (length (z # zs)) 0"
  let ?d = "pre @ slots ks ?ps @ blob"
  have len: "length ?ps = length ks" "?i < length xs" "xs ! ?i = z" "?ps ! ?i = 0"
    using Cons.prems(2-4) by (simp_all add: nth_append)
  have up: "?ps[?i := p] = (qs @ [p]) @ replicate (length zs) 0" for p
    using Cons.prems(4) by (simp add: list_update_append)
  have xs: "xs = (ys @ [z]) @ zs" using Cons.prems(3) by simp
  have same: "length (slots ks ps) = length (slots ks ?ps)" if "length ps = length ks" for ps
    using that len(1) by (simp add: length_slots)
  have bnd: "length ?d + block_len blk (length ?d) (xs ! ?i) < 2 ^ 30"
    using Cons.prems(7) unfolding Cons.prems(6) [symmetric] len(3)
    by (auto simp: block_len_def split: option.splits prod.splits)
  from Cons.prems(1) [unfolded fills_def, rule_format, OF len(2,1,4) Cons.prems(5) bnd] obtain c1 where
    step: "runs (f (?i, z) b) b (case blk o1 z of None \<Rightarrow> ?d | Some bl \<Rightarrow> pre @ slots ks (?ps[?i := o1]) @ blob @ bl) c1"
    unfolding Cons.prems(6) [symmetric] len(3) by blast
  then obtain b1 where b1: "f (?i, z) b = Some b1" "keeps b b1"
    "file_at b1 (case blk o1 z of None \<Rightarrow> ?d | Some bl \<Rightarrow> pre @ slots ks (?ps[?i := o1]) @ blob @ bl) c1"
    unfolding runs_def by blast
  have "\<exists>c'. runs (foldM f (enumerate (length (ys @ [z])) zs) b1) b1
      (pre @ slots ks (qs @ fst (place blk o1 (z # zs))) @ blob @ snd (place blk o1 (z # zs))) c'"
  proof (cases "blk o1 z")
    case None
    obtain ps bs where pl: "place blk o1 zs = (ps, bs)" by (cases "place blk o1 zs")
    have "\<exists>c'. runs (foldM f (enumerate (length (ys @ [z])) zs) b1) b1
        (pre @ slots ks ((qs @ [0]) @ fst (place blk o1 zs)) @ blob @ snd (place blk o1 zs)) c'"
    proof (rule Cons.IH [OF Cons.prems(1,2) xs])
      show "file_at b1 (pre @ slots ks ((qs @ [0]) @ replicate (length zs) 0) @ blob) c1" using b1(3) None by simp
      show "o1 = length (pre @ slots ks ((qs @ [0]) @ replicate (length zs) 0) @ blob)" using Cons.prems(6) by simp
      show "o1 + length (snd (place blk o1 zs)) < 2 ^ 30" using Cons.prems(7) None pl by simp
    qed (use Cons.prems(4) in simp)
    then show ?thesis using None pl by simp
  next
    case (Some bl)
    let ?o = "o1 + length bl"
    obtain ps bs where pl: "place blk ?o zs = (ps, bs)" by (cases "place blk ?o zs")
    have "\<exists>c'. runs (foldM f (enumerate (length (ys @ [z])) zs) b1) b1
        (pre @ slots ks ((qs @ [o1]) @ fst (place blk ?o zs)) @ (blob @ bl) @ snd (place blk ?o zs)) c'"
    proof (rule Cons.IH [OF Cons.prems(1,2) xs])
      show "file_at b1 (pre @ slots ks ((qs @ [o1]) @ replicate (length zs) 0) @ blob @ bl) c1" using b1(3) Some up by simp
      have "length ((qs @ [o1]) @ replicate (length zs) 0) = length ks" using len(1) by simp
      from same [OF this] show "?o = length (pre @ slots ks ((qs @ [o1]) @ replicate (length zs) 0) @ blob @ bl)"
        using Cons.prems(6) by simp
      show "?o + length (snd (place blk ?o zs)) < 2 ^ 30" using Cons.prems(7) Some pl by simp
    qed (use Cons.prems(4) in simp)
    then show ?thesis using Some pl by simp
  qed
  then obtain c' where "runs (foldM f (enumerate (Suc ?i) zs) b1) b1
      (pre @ slots ks (qs @ fst (place blk o1 (z # zs))) @ blob @ snd (place blk o1 (z # zs))) c'" by auto
  then have "runs (Option.bind (f (?i, z) b) (foldM f (enumerate (Suc ?i) zs))) b
      (pre @ slots ks (qs @ fst (place blk o1 (z # zs))) @ blob @ snd (place blk o1 (z # zs))) c'"
    by (rule runs_step [OF b1(1,2)])
  then show ?case by auto
qed

lemma foldM_placed:
  assumes "fills f blk pre ks xs" "length ks = length xs" "file_at b (pre @ slots ks (replicate (length xs) 0)) c"
    and "length (pre @ placed blk (length pre) ks xs) < 2 ^ 30"
  shows "\<exists>c'. runs (foldM f (enumerate 0 xs) b) b (pre @ placed blk (length pre) ks xs) c'"
proof -
  let ?o = "length pre + length (concat ks) + 4 * length xs"
  obtain ps bs where pl: "place blk ?o xs = (ps, bs)" by (cases "place blk ?o xs")
  have "length (slots ks (fst (place blk ?o xs))) = length (concat ks) + 4 * length xs"
    using assms(2) by (simp add: length_slots)
  with assms(4) pl have s: "?o + length (snd (place blk ?o xs)) < 2 ^ 30" by (simp add: placed_def)
  have o1: "?o = length (pre @ slots ks ([] @ replicate (length xs) 0) @ [])" using assms(2) by (simp add: length_slots)
  have "file_at b (pre @ slots ks ([] @ replicate (length xs) 0) @ []) c" using assms(3) by simp
  from foldM_fills [OF assms(1,2) _ _ this o1 s, of "[]"] pl show ?thesis by (simp add: placed_def)
qed

section \<open>Layout\<close>

definition val_block :: "nat \<Rightarrow> builder_node \<Rightarrow> bytes option" where
  "val_block o1 n = (if nval n = [] then None else Some (cint_text (nval n)))"

definition records :: "nat \<Rightarrow> nat \<Rightarrow> builder_node list \<Rightarrow> bytes" where
  "records vl o1 chain =
     (if vl = 536870912 then placed val_block o1 (map nkey chain) chain
      else concat (map (\<lambda>n. nkey n @ nval n) chain))"

definition bucket_block :: "nat \<Rightarrow> nat \<Rightarrow> builder_node list \<Rightarrow> bytes option" where
  "bucket_block vl o1 chain =
     (if chain = [] then None else Some (zint_pack (of_nat (length chain)) @ records vl (o1 + 4) chain))"

definition offsets :: "'x list \<Rightarrow> bytes list" where
  "offsets xs = replicate (length xs) []"

definition table_block :: "nat \<Rightarrow> nat \<Rightarrow> builder_table option \<Rightarrow> bytes option" where
  "table_block vl o1 t =
     map_option (\<lambda>t. zint_pack (of_nat (hash_node_size t))
       @ placed (bucket_block vl) (o1 + 4) (offsets (hash_node_vector t)) (hash_node_vector t)) t"

definition cdb_layout :: "zcdb_builder \<Rightarrow> bytes" where
  "cdb_layout b =
     (let vl = compiled_val_length b;
          body = placed (table_block vl) 24 (offsets (take (max_klen b + 1) (table_vector b))) (take (max_klen b + 1) (table_vector b))
      in cstr ''ZCDB'' @ cstr ''0001'' @ zint_pack (of_nat (24 + length body)) @ zint_pack (of_int (b_count b))
         @ zint_pack (of_nat (max_klen b)) @ zint_pack (of_nat vl) @ body)"

lemma offsets_simps [simp]: "length (offsets xs) = length xs" "concat (offsets xs) = []" "k \<in> set (offsets xs) \<Longrightarrow> k = []"
  "i < length xs \<Longrightarrow> offsets xs ! i = []"
  by (auto simp: offsets_def)

lemma zero4_pack: "zero4 = zint_pack (of_nat 0)"
  by (simp add: zero4_def zint_pack_def)

lemma length_zero4 [simp]: "length zero4 = 4"
  by (simp add: zero4_def)

lemma foldM_append_file:
  assumes "\<And>x b d. x \<in> set xs \<Longrightarrow> file_at b d (length d) \<Longrightarrow> length (d @ g x) < 2 ^ 30 \<Longrightarrow> runs (f x b) b (d @ g x) (length (d @ g x))"
    and "file_at b d (length d)" "length (d @ concat (map g xs)) < 2 ^ 30"
  shows "runs (foldM f xs b) b (d @ concat (map g xs)) (length (d @ concat (map g xs)))"
  using assms
proof (induction xs arbitrary: b d)
  case (Cons x xs)
  have "runs (f x b) b (d @ g x) (length (d @ g x))" by (rule Cons.prems(1)) (use Cons.prems(2,3) in simp_all)
  moreover have "runs (foldM f xs b') b' ((d @ g x) @ concat (map g xs)) (length ((d @ g x) @ concat (map g xs)))"
    if "file_at b' (d @ g x) (length (d @ g x))" for b'
    by (rule Cons.IH [OF Cons.prems(1) that]) (use Cons.prems(3) in simp_all)
  ultimately have "runs (Option.bind (f x b) (foldM f xs)) b ((d @ g x) @ concat (map g xs)) (length ((d @ g x) @ concat (map g xs)))"
    by (rule runs_bind) simp
  then show ?case by simp
qed (simp add: runs_Some)

lemma zeros_file:
  assumes "file_at b d (length d)" "length d + 4 * length xs < 2 ^ 30"
  shows "runs (foldM (\<lambda>_. fwrite_bytes zero4) [0..<length xs] b) b (d @ slots (offsets xs) (replicate (length xs) 0))
    (length (d @ slots (offsets xs) (replicate (length xs) 0)))"
proof -
  have "concat (map (\<lambda>_. zero4) [0..<n]) = slots (replicate n []) (replicate n 0)" for n
    by (induction n) (simp_all add: map_replicate_const zero4_pack [symmetric], simp add: slots_def zero4_pack)
  then have e: "concat (map (\<lambda>_. zero4) [0..<length xs]) = slots (offsets xs) (replicate (length xs) 0)" by (simp add: offsets_def)
  have "length (d @ concat (map (\<lambda>_. zero4) [0..<length xs])) < 2 ^ 30"
    using assms(2) unfolding e by (simp add: length_slots)
  from foldM_append_file [OF _ assms(1) this, of "\<lambda>_. fwrite_bytes zero4"] append_file show ?thesis unfolding e by blast
qed

text \<open>The data of a \<open>zbuf_t\<close> in memory.\<close>

lemma zbuf_memory: "zbuf_ok bf \<Longrightarrow> take (zb_len bf) (zb_data bf) = map Some (zbuf_bytes bf)"
  unfolding zbuf_ok_def zbuf_bytes_def
  by (auto simp: comp_def intro!: map_idI [symmetric]) (metis option.collapse)

lemma append_zbuf:
  assumes "file_at b d (length d)" "zbuf_ok bf" "n = length (zbuf_bytes bf)" "length (d @ zbuf_bytes bf) < 2 ^ 30"
  shows "runs (if n \<noteq> 0 then zcdb_builder_fwrite (zb_data bf) n b else Some b) b (d @ zbuf_bytes bf) (length (d @ zbuf_bytes bf))"
proof (cases "n = 0")
  case True
  then show ?thesis using assms(1,3) by (simp add: runs_Some)
next
  case False
  have "take n (zb_data bf) = map Some (zbuf_bytes bf)" using zbuf_memory [OF assms(2)] assms(2,3) by simp
  from fwrite_file [OF assms(1) this] assms(3,4) False show ?thesis by simp
qed

section \<open>Compilation writes the layout\<close>

definition nodes_ok :: "nat \<Rightarrow> nat \<Rightarrow> builder_node list \<Rightarrow> bool" where
  "nodes_ok klen vl chain \<longleftrightarrow> (\<forall>n \<in> set chain. node_ok klen n \<and> (vl \<noteq> 536870912 \<longrightarrow> length (nval n) = vl))"

lemma append_key:
  assumes "file_at b d (length d)" "node_ok klen n" "length (d @ nkey n) < 2 ^ 30"
  shows "runs (if klen \<noteq> 0 then zcdb_builder_fwrite (zb_data (bn_key n)) klen b else Some b) b (d @ nkey n) (length (d @ nkey n))"
  using append_zbuf [OF assms(1), of "bn_key n" klen] assms(2,3) unfolding node_ok_def nkey_def by blast

lemma append_val:
  assumes "file_at b d (length d)" "node_ok klen n" "nval n \<noteq> []" "length (d @ nval n) < 2 ^ 30"
  shows "runs (zcdb_builder_fwrite (zb_data (bn_val n)) (length (nval n)) b) b (d @ nval n) (length (d @ nval n))"
proof -
  have "zbuf_ok (bn_val n)" using assms(2) by (simp add: node_ok_def)
  from append_zbuf [OF assms(1) this refl] assms(4)
  have "runs (if length (nval n) \<noteq> 0 then zcdb_builder_fwrite (zb_data (bn_val n)) (length (nval n)) b else Some b) b
      (d @ nval n) (length (d @ nval n))" unfolding nval_def by blast
  moreover have "length (nval n) \<noteq> 0" using assms(3) by simp
  ultimately show ?thesis by (simp only: if_True not_False_eq_True)
qed

lemma patch_slot:
  assumes "file_at b (pre @ slots ks ps @ r) c" "length ps = length ks" "\<forall>k \<in> set ks. length k = K" "i < length ks"
    "length (pre @ slots ks ps @ r) < 2 ^ 30"
  shows "runs (fwrite_bytes (zint_pack (of_nat p)) (seek_set (length pre + (K + 4) * i + K) b)) b
    (pre @ slots ks (ps[i := p]) @ r) (length pre + (K + 4) * i + K + 4)"
proof -
  let ?pos = "length pre + (K + 4) * i + K"
  have "(K + 4) * (i + 1) \<le> (K + 4) * length ks" using assms(4) by (intro mult_le_mono2) simp
  then have pos: "?pos + 4 \<le> length (pre @ slots ks ps @ r)"
    using assms(2) concat_same_length [OF assms(3)] by (simp add: length_slots algebra_simps)
  then have "file_at (seek_set ?pos b) (pre @ slots ks ps @ r) ?pos" using seek_set_file [OF assms(1)] by simp
  from fwrite_bytes_file [OF this, of "zint_pack (of_nat p)"] pos assms(5) put_slot [OF assms(2-4), of pre r p]
  show ?thesis by (simp add: runs_seek)
qed

lemma fills_values:
  assumes "nodes_ok klen vl chain"
  shows "fills (write_value klen (length pre)) val_block pre (map nkey chain) chain"
  unfolding fills_def
proof (intro allI impI)
  fix i ps blob c b
  let ?n = "chain ! i"
  let ?ks = "map nkey chain"
  let ?d = "pre @ slots ?ks ps @ blob"
  assume i: "i < length chain" and ps: "length ps = length ?ks" "ps ! i = 0" and f: "file_at b ?d c"
    and l: "length ?d + block_len val_block (length ?d) ?n < 2 ^ 30"
  have n: "node_ok klen ?n" using assms i by (simp add: nodes_ok_def)
  have vlen: "zb_len (bn_val ?n) = length (nval ?n)" using n by (simp add: node_ok_def nval_def)
  have K: "\<forall>k \<in> set ?ks. length k = klen" using assms by (simp add: nodes_ok_def node_ok_def)
  show "\<exists>c'. runs (write_value klen (length pre) (i, ?n) b) b
      (case val_block (length ?d) ?n of None \<Rightarrow> ?d | Some bl \<Rightarrow> pre @ slots ?ks (ps[i := length ?d]) @ blob @ bl) c'"
  proof (cases "nval ?n = []")
    case True
    then show ?thesis using runs_Some [OF f] vlen by (auto simp: write_value_def val_block_def)
  next
    case False
    let ?v = "nval ?n"
    let ?c = "cint_bytes (length ?v)"
    have len: "length ?d + length ?c + length ?v < 2 ^ 30" using l False by (simp add: block_len_def val_block_def cint_text_def)
    let ?pos = "length pre + (klen + 4) * i + klen"
    have patch: "runs (fwrite_bytes (zint_pack (of_nat (length ?d))) (seek_set ?pos b3)) b3
        (pre @ slots ?ks (ps[i := length ?d]) @ blob @ cint_text ?v) (?pos + 4)"
      if "file_at b3 ((?d @ ?c) @ ?v) (length ((?d @ ?c) @ ?v))" for b3
    proof -
      have "file_at b3 (pre @ slots ?ks ps @ (blob @ cint_text ?v)) (length ((?d @ ?c) @ ?v))"
        using that by (simp add: cint_text_def)
      from patch_slot [OF this ps(1) K, of i "length ?d"] i len show ?thesis by (simp add: cint_text_def)
    qed
    have vals: "runs (Option.bind (zcdb_builder_fwrite (zb_data (bn_val ?n)) (length ?v) b2)
        (\<lambda>b. fwrite_bytes (zint_pack (of_nat (length ?d))) (seek_set ?pos b))) b2
        (pre @ slots ?ks (ps[i := length ?d]) @ blob @ cint_text ?v) (?pos + 4)"
      if "file_at b2 (?d @ ?c) (length (?d @ ?c))" for b2
      by (rule runs_bind [OF append_val [OF that n False]]) (use len in simp, rule patch)
    have "runs (fwrite_bytes ?c (seek_end b)) (seek_end b) (?d @ ?c) (length (?d @ ?c))"
      using append_file [OF seek_end_file [OF f], of ?c] len by simp
    then have first: "runs (fwrite_bytes ?c (seek_end b)) b (?d @ ?c) (length (?d @ ?c))" by (simp only: runs_seek)
    have "runs (Option.bind (fwrite_bytes ?c (seek_end b)) (\<lambda>b. Option.bind (zcdb_builder_fwrite (zb_data (bn_val ?n)) (length ?v) b)
        (\<lambda>b. fwrite_bytes (zint_pack (of_nat (length ?d))) (seek_set ?pos b)))) b
        (pre @ slots ?ks (ps[i := length ?d]) @ blob @ cint_text ?v) (?pos + 4)"
      by (rule runs_bind [OF first vals])
    then show ?thesis using False vlen cursor_file [OF seek_end_file [OF f]]
      by (intro exI [of _ "?pos + 4"]) (simp add: write_value_def val_block_def zcint_put_nat Let_def)
  qed
qed

lemma write_slot_file:
  assumes "file_at b d (length d)" "node_ok klen n" "length (d @ nkey n @ zero4) < 2 ^ 30"
  shows "runs (write_slot klen n b) b (d @ nkey n @ zero4) (length (d @ nkey n @ zero4))"
  unfolding write_slot_def
proof (rule runs_bind [OF append_key [OF assms(1,2)]])
  show "runs (fwrite_bytes zero4 b') b' (d @ nkey n @ zero4) (length (d @ nkey n @ zero4))"
    if "file_at b' (d @ nkey n) (length (d @ nkey n))" for b'
    using append_file [OF that, of zero4] assms(3) by simp
qed (use assms(3) in simp)

lemma write_fixed_file:
  assumes "file_at b d (length d)" "node_ok klen n" "length (nval n) = vl" "length (d @ nkey n @ nval n) < 2 ^ 30"
  shows "runs (write_fixed klen vl n b) b (d @ nkey n @ nval n) (length (d @ nkey n @ nval n))"
  unfolding write_fixed_def
proof (rule runs_bind [OF append_key [OF assms(1,2)]])
  show "runs (if vl \<noteq> 0 then zcdb_builder_fwrite (zb_data (bn_val n)) vl b' else Some b') b'
      (d @ nkey n @ nval n) (length (d @ nkey n @ nval n))"
    if "file_at b' (d @ nkey n) (length (d @ nkey n))" for b'
    using append_zbuf [OF that, of "bn_val n" vl] assms by (simp add: node_ok_def nval_def)
qed (use assms(4) in simp)

lemma concat_slots: "concat (map (\<lambda>n. g n @ zero4) xs) = slots (map g xs) (replicate (length xs) 0)"
  by (induction xs) (simp_all add: zero4_pack)

lemma records_file:
  assumes "file_at b d (length d)" "nodes_ok klen vl chain" "length (d @ records vl (length d) chain) < 2 ^ 30"
  shows "\<exists>c. runs (write_records klen vl chain b) b (d @ records vl (length d) chain) c"
proof (cases "vl = 536870912")
  case True
  let ?s = "slots (map nkey chain) (replicate (length chain) 0)"
  have l: "length (d @ concat (map (\<lambda>n. nkey n @ zero4) chain)) < 2 ^ 30"
    using length_placed_ge [of "map nkey chain" chain val_block "length d"] assms(3) True
    by (simp add: records_def concat_slots length_slots)
  have slots: "runs (foldM (write_slot klen) chain b) b (d @ ?s) (length (d @ ?s))"
    unfolding concat_slots [symmetric]
    by (rule foldM_append_file [OF _ assms(1) l]) (use assms(2) write_slot_file in \<open>simp add: nodes_ok_def\<close>)
  then obtain b1 where b1: "foldM (write_slot klen) chain b = Some b1" "file_at b1 (d @ ?s) (length (d @ ?s))" "keeps b b1"
    unfolding runs_def by blast
  from foldM_placed [OF fills_values [OF assms(2)] _ b1(2)] assms(3) True obtain c where
    "runs (foldM (write_value klen (length d)) (enumerate 0 chain) b1) b1 (d @ placed val_block (length d) (map nkey chain) chain) c"
    by (auto simp: records_def)
  from runs_step [OF b1(1,3), of "\<lambda>b. foldM (write_value klen (length d)) (enumerate 0 chain) b", OF this]
  show ?thesis using True cursor_file [OF assms(1)] by (auto simp: records_def write_records_def)
next
  case False
  have "runs (foldM (write_fixed klen vl) chain b) b (d @ concat (map (\<lambda>n. nkey n @ nval n) chain))
      (length (d @ concat (map (\<lambda>n. nkey n @ nval n) chain)))"
    by (rule foldM_append_file [OF _ assms(1)])
      (use assms(2,3) False write_fixed_file in \<open>simp_all add: nodes_ok_def records_def\<close>)
  then show ?thesis using False by (auto simp: records_def write_records_def)
qed

lemma fills_chains:
  assumes "\<forall>chain \<in> set hv. nodes_ok klen vl chain"
  shows "fills (compile_chain klen vl (length pre)) (bucket_block vl) pre (offsets hv) hv"
  unfolding fills_def
proof (intro allI impI)
  fix i ps blob c b
  let ?ch = "hv ! i"
  let ?ks = "offsets hv"
  let ?d = "pre @ slots ?ks ps @ blob"
  assume i: "i < length hv" and ps: "length ps = length ?ks" "ps ! i = 0" and f: "file_at b ?d c"
    and l: "length ?d + block_len (bucket_block vl) (length ?d) ?ch < 2 ^ 30"
  have n: "nodes_ok klen vl ?ch" using assms i by simp
  have cur: "b_cursor (seek_end b) = length ?d" using cursor_file [OF seek_end_file [OF f]] .
  note patch = patch_slot [where K = 0, OF seek_end_file [OF f] ps(1), of i]
  show "\<exists>c'. runs (compile_chain klen vl (length pre) (i, ?ch) b) b
      (case bucket_block vl (length ?d) ?ch of None \<Rightarrow> ?d | Some bl \<Rightarrow> pre @ slots ?ks (ps[i := length ?d]) @ blob @ bl) c'"
  proof (cases "?ch = []")
    case True
    have "ps[i := 0] = ps" using ps(2) by (metis list_update_id)
    with patch [of 0] i l True show ?thesis
      by (auto simp: compile_chain_def bucket_block_def zero4_pack runs_seek)
  next
    case False
    let ?p = "pre @ slots ?ks (ps[i := length ?d]) @ blob"
    let ?c = "zint_pack (of_nat (length ?ch))"
    have len: "length ?p = length ?d" using ps(1) by (simp add: length_slots)
    from patch [of "length ?d"] i l have "runs (fwrite_bytes (zint_pack (of_nat (length ?d))) (seek_set (length pre + 4 * i) (seek_end b))) b ?p (length pre + 4 * i + 4)"
      by (simp add: runs_seek)
    then obtain b1 where b1: "fwrite_bytes (zint_pack (of_nat (length ?d))) (seek_set (length pre + 4 * i) (seek_end b)) = Some b1"
      "file_at b1 ?p (length pre + 4 * i + 4)" "keeps b b1" unfolding runs_def by blast
    have lc: "length (?p @ ?c @ records vl (length ?p + 4) ?ch) < 2 ^ 30"
      using l False len by (simp add: block_len_def bucket_block_def)
    from append_file [OF seek_end_file [OF b1(2)], of ?c] lc obtain b2 where
      b2: "fwrite_bytes ?c (seek_end b1) = Some b2" "file_at b2 (?p @ ?c) (length (?p @ ?c))" "keeps b1 b2"
      unfolding runs_seek by (auto simp: runs_def)
    have len4: "length (?p @ ?c) = length ?p + 4" by simp
    have "length ((?p @ ?c) @ records vl (length (?p @ ?c)) ?ch) < 2 ^ 30" using lc unfolding len4 by simp
    from records_file [OF b2(2) n this] obtain c' where
      r: "runs (write_records klen vl ?ch b2) b2 ((?p @ ?c) @ records vl (length ?p + 4) ?ch) c'" unfolding len4 by blast
    have k: "keeps b b2" using b1(3) b2(3) keeps_trans by blast
    have "compile_chain klen vl (length pre) (i, ?ch) b = write_records klen vl ?ch b2"
      using False b1(1) b2(1) cur by (simp add: compile_chain_def)
    moreover have "bucket_block vl (length ?d) ?ch = Some (?c @ records vl (length ?p + 4) ?ch)"
      using False len by (simp add: bucket_block_def)
    ultimately show ?thesis using r runs_keeps [OF k] by auto
  qed
qed

definition table_fits :: "nat \<Rightarrow> nat \<Rightarrow> builder_table \<Rightarrow> bool" where
  "table_fits vl klen t \<longleftrightarrow> length (hash_node_vector t) = hash_node_size t
     \<and> (\<forall>chain \<in> set (hash_node_vector t). nodes_ok klen vl chain)"

lemma table_file:
  assumes "file_at b d (length d)" "table_fits vl klen t" "length (d @ the (table_block vl (length d) (Some t))) < 2 ^ 30"
  shows "\<exists>c. runs (do {
      b \<leftarrow> fwrite_bytes (zint_pack (of_nat (hash_node_size t))) b;
      let offset1 = b_cursor b;
      b \<leftarrow> foldM (\<lambda>_. fwrite_bytes zero4) [0..<hash_node_size t] b;
      foldM (compile_chain klen vl offset1) (enumerate 0 (hash_node_vector t)) b }) b
    (d @ the (table_block vl (length d) (Some t))) c"
proof -
  let ?v = "hash_node_vector t"
  let ?s = "zint_pack (of_nat (hash_node_size t))"
  let ?e = "d @ ?s"
  have t: "length ?v = hash_node_size t" "\<forall>chain \<in> set ?v. nodes_ok klen vl chain"
    using assms(2) by (simp_all add: table_fits_def)
  have e: "length ?e = length d + 4" by simp
  have bl: "d @ the (table_block vl (length d) (Some t)) = ?e @ placed (bucket_block vl) (length ?e) (offsets ?v) ?v"
    unfolding e by (simp add: table_block_def)
  have l: "length (?e @ placed (bucket_block vl) (length ?e) (offsets ?v) ?v) < 2 ^ 30" using assms(3) unfolding bl .
  then have l0: "length ?e + 4 * length ?v < 2 ^ 30"
    using length_placed_ge [of "offsets ?v" ?v "bucket_block vl" "length ?e"] by simp
  from append_file [OF assms(1), of ?s] l0 obtain b1 where b1: "fwrite_bytes ?s b = Some b1" "file_at b1 ?e (length ?e)" "keeps b b1"
    by (auto simp: runs_def)
  from zeros_file [OF b1(2) l0] obtain b2 where b2: "foldM (\<lambda>_. fwrite_bytes zero4) [0..<length ?v] b1 = Some b2"
    "file_at b2 (?e @ slots (offsets ?v) (replicate (length ?v) 0)) (length (?e @ slots (offsets ?v) (replicate (length ?v) 0)))" "keeps b1 b2"
    unfolding runs_def by blast
  from foldM_placed [OF fills_chains [OF t(2)] offsets_simps(1) b2(2) l] obtain c where
    r: "runs (foldM (compile_chain klen vl (length ?e)) (enumerate 0 ?v) b2) b2 (?e @ placed (bucket_block vl) (length ?e) (offsets ?v) ?v) c"
    by blast
  have "runs (foldM (compile_chain klen vl (length ?e)) (enumerate 0 ?v) b2) b (?e @ placed (bucket_block vl) (length ?e) (offsets ?v) ?v) c"
    using runs_keeps [OF keeps_trans [OF b1(3) b2(3)] r] .
  then show ?thesis unfolding bl using b1(1) b2(1) t(1) cursor_file [OF b1(2)] by (intro exI [of _ c]) simp
qed

lemma fills_tables:
  assumes "length pre = 24" "\<And>i t. i < length ts \<Longrightarrow> ts ! i = Some t \<Longrightarrow> table_fits vl i t"
  shows "fills (compile_table vl) (table_block vl) pre (offsets ts) ts"
  unfolding fills_def
proof (intro allI impI)
  fix i ps blob c b
  let ?ks = "offsets ts"
  let ?d = "pre @ slots ?ks ps @ blob"
  assume i: "i < length ts" and ps: "length ps = length ?ks" "ps ! i = 0" and f: "file_at b ?d c"
    and l: "length ?d + block_len (table_block vl) (length ?d) (ts ! i) < 2 ^ 30"
  have cur: "b_cursor (seek_end b) = length ?d" using cursor_file [OF seek_end_file [OF f]] .
  have small: "\<not> length ?d > 2147483648 - 1024 * 1024 * 100" using l by simp
  note patch = patch_slot [where K = 0, OF seek_end_file [OF f] ps(1), of i]
  show "\<exists>c'. runs (compile_table vl (i, ts ! i) b) b
      (case table_block vl (length ?d) (ts ! i) of None \<Rightarrow> ?d | Some bl \<Rightarrow> pre @ slots ?ks (ps[i := length ?d]) @ blob @ bl) c'"
  proof (cases "ts ! i")
    case None
    have "ps[i := 0] = ps" using ps(2) by (metis list_update_id)
    with patch [of 0] i l None small cur assms(1) show ?thesis
      by (auto simp: compile_table_def table_block_def zero4_pack runs_seek)
  next
    case (Some t)
    let ?p = "pre @ slots ?ks (ps[i := length ?d]) @ blob"
    have len: "length ?p = length ?d" using ps(1) by (simp add: length_slots)
    from patch [of "length ?d"] i l
    have "runs (fwrite_bytes (zint_pack (of_nat (length ?d))) (seek_set (24 + 4 * i) (seek_end b))) b ?p (24 + 4 * i + 4)"
      using assms(1) by (simp add: runs_seek)
    then obtain b1 where b1: "fwrite_bytes (zint_pack (of_nat (length ?d))) (seek_set (24 + 4 * i) (seek_end b)) = Some b1"
      "file_at b1 ?p (24 + 4 * i + 4)" "keeps b b1" unfolding runs_def by blast
    let ?bl = "the (table_block vl (length ?p) (Some t))"
    have "length (?p @ ?bl) < 2 ^ 30" using l Some len by (simp add: block_len_def table_block_def)
    from table_file [OF seek_end_file [OF b1(2)] assms(2) [OF i Some] this] obtain c' where
      r: "runs (do {
        b \<leftarrow> fwrite_bytes (zint_pack (of_nat (hash_node_size t))) (seek_end b1);
        let offset1 = b_cursor b;
        b \<leftarrow> foldM (\<lambda>_. fwrite_bytes zero4) [0..<hash_node_size t] b;
        foldM (compile_chain i vl offset1) (enumerate 0 (hash_node_vector t)) b }) b1 (?p @ ?bl) c'"
      unfolding runs_seek by blast
    have "compile_table vl (i, ts ! i) b = do {
        b \<leftarrow> fwrite_bytes (zint_pack (of_nat (hash_node_size t))) (seek_end b1);
        let offset1 = b_cursor b;
        b \<leftarrow> foldM (\<lambda>_. fwrite_bytes zero4) [0..<hash_node_size t] b;
        foldM (compile_chain i vl offset1) (enumerate 0 (hash_node_vector t)) b }"
      using Some b1(1) cur small by (simp add: compile_table_def)
    moreover have "table_block vl (length ?d) (ts ! i) = Some ?bl" using Some len by (simp add: table_block_def)
    ultimately show ?thesis using runs_keeps [OF b1(3) r] by auto
  qed
qed

section \<open>The whole file\<close>

lemma length_cdb_head [simp]: "length (cdb_head b) = 24"
  by (simp add: cdb_head_def cstr_def)

text \<open>A builder whose file is still empty.\<close>

definition fresh :: "zcdb_builder \<Rightarrow> bool" where
  "fresh b \<longleftrightarrow> file_at b [] 0 \<and> \<not> b_over b"

definition compiles :: "zcdb_builder \<Rightarrow> bytes \<Rightarrow> zcdb_builder \<Rightarrow> bool" where
  "compiles b d b' \<longleftrightarrow> zcdb_builder_compile b = Some (b', 1)
     \<and> take (zcdb_builder_get_compiled_len b') (zcdb_builder_get_compiled_data b') = map Some d"

lemma compile_layout:
  assumes "fresh b" "length (cdb_layout b) < 2 ^ 30" "max_klen b < length (table_vector b)"
    and "\<And>i t. i \<le> max_klen b \<Longrightarrow> table_vector b ! i = Some t \<Longrightarrow> table_fits (compiled_val_length b) i t"
  shows "\<exists>b'. compiles b (cdb_layout b) b'"
proof -
  let ?b = "b\<lparr>b_over := True\<rparr>"
  let ?vl = "compiled_val_length b"
  let ?ts = "take (max_klen b + 1) (table_vector b)"
  let ?body = "placed (table_block ?vl) 24 (offsets ?ts) ?ts"
  let ?h = "cdb_head b"
  have f: "file_at ?b [] (length [])" "\<not> b_error b" "\<not> b_over b" using assms(1) by (simp_all add: fresh_def file_at_def)
  have ts: "length ?ts = max_klen b + 1" using assms(3) by simp
  have lb: "24 + length ?body < 2 ^ 30" using assms(2) by (simp add: cdb_layout_def cstr_def Let_def)
  then have l0: "length ?h + 4 * length ?ts < 2 ^ 30"
    using length_placed_ge [of "offsets ?ts" ?ts "table_block ?vl" 24] by simp
  have hd: "cdb_head ?b = ?h" by (simp add: cdb_head_def)
  from append_file [OF f(1), of ?h] obtain b1 where b1: "fwrite_bytes ?h ?b = Some b1" "file_at b1 ?h (length ?h)" "keeps ?b b1"
    by (auto simp: runs_def)
  from zeros_file [OF b1(2) l0] obtain b2 where b2: "foldM (\<lambda>_. fwrite_bytes zero4) [0..<length ?ts] b1 = Some b2"
    "file_at b2 (?h @ slots (offsets ?ts) (replicate (length ?ts) 0)) (length (?h @ slots (offsets ?ts) (replicate (length ?ts) 0)))" "keeps b1 b2"
    unfolding runs_def by blast
  have fi: "fills (compile_table ?vl) (table_block ?vl) ?h (offsets ?ts) ?ts"
    by (rule fills_tables) (use assms(3,4) in simp_all)
  have "length (?h @ placed (table_block ?vl) (length ?h) (offsets ?ts) ?ts) < 2 ^ 30" using lb by simp
  from foldM_placed [OF fi offsets_simps(1) b2(2) this] obtain b3 c where
    b3: "foldM (compile_table ?vl) (enumerate 0 ?ts) b2 = Some b3" "file_at b3 (?h @ ?body) c" "keeps b2 b3"
    by (auto simp: runs_def)
  let ?n = "24 + length ?body"
  let ?d1 = "cstr ''ZCDB'' @ cstr ''0001'' @ zint_pack (of_nat ?n) @ zint_pack (of_int (b_count b)) @ zint_pack (of_nat (max_klen b))
    @ zint_pack (if val_length_min b = val_length_max b then of_int (b_count b) else 536870912) @ ?body"
  have e4: "b_cursor (seek_end b3) = ?n" using cursor_file [OF seek_end_file [OF b3(2)]] by simp
  have "put_at (?h @ ?body) 8 (zint_pack (of_nat ?n)) = ?d1"
    using put_at_mid [of "cstr ''ZCDB'' @ cstr ''0001''" 8 "zint_pack (of_int (b_count b))" "zint_pack (of_nat ?n)"]
    by (simp add: cdb_head_def cstr_def)
  moreover have "file_at (seek_set 8 (seek_end b3)) (?h @ ?body) 8" by (rule seek_set_file [OF seek_end_file [OF b3(2)]]) simp
  ultimately obtain b4 where b4: "fwrite_bytes (zint_pack (of_nat ?n)) (seek_set 8 (seek_end b3)) = Some b4" "file_at b4 ?d1 12"
    using fwrite_bytes_file [of "seek_set 8 (seek_end b3)" "?h @ ?body" 8 "zint_pack (of_nat ?n)"] by (auto simp: runs_def)
  have "put_at ?d1 20 (zint_pack (of_nat ?vl)) = cdb_layout b"
    using put_at_mid [of "cstr ''ZCDB'' @ cstr ''0001'' @ zint_pack (of_nat ?n) @ zint_pack (of_int (b_count b)) @ zint_pack (of_nat (max_klen b))" 20
        "zint_pack (if val_length_min b = val_length_max b then of_int (b_count b) else 536870912)" "zint_pack (of_nat ?vl)"]
    by (simp add: cdb_layout_def cstr_def Let_def)
  moreover have "file_at (seek_set 20 b4) ?d1 20" by (rule seek_set_file [OF b4(2)]) (simp add: cstr_def)
  ultimately obtain b5 where b5: "fwrite_bytes (zint_pack (of_nat ?vl)) (seek_set 20 b4) = Some b5" "file_at b5 (cdb_layout b) 24"
    using fwrite_bytes_file [of "seek_set 20 b4" ?d1 20 "zint_pack (of_nat ?vl)"] by (auto simp: runs_def)
  have "max_klen b1 = max_klen b" "compiled_val_length ?b = ?vl" "table_vector ?b = table_vector b"
    using b1(3) by (simp_all add: keeps_def compiled_val_length_def)
  then have "zcdb_builder_compile b = Some (b5, 1)"
    using f(2,3) hd b1(1) b2(1) ts b3(1) e4 b4(1) b5 by (simp add: zcdb_builder_compile_def file_at_def)
  with b5(2) show ?thesis
    by (auto simp: compiles_def file_at_def zcdb_builder_get_compiled_data_def zcdb_builder_get_compiled_len_def)
qed

end
