(* ===== verification/CdbFind.thy ===== *)
theory CdbFind
  imports CdbFile
begin

text \<open>
  The reader of constant databases, \<open>src/cdb/reader.c\<close>: opening and lookup, on the bytes of the
  database. A read outside of them and a division by zero are \<open>None\<close>. A value is the position and
  the length that \<open>*val\<close> and \<open>*vlen\<close> get; the position \<open>None\<close> is \<open>zblank_buffer\<close>.
\<close>

section \<open>Reading\<close>

definition rd4u :: "bytes \<Rightarrow> int \<Rightarrow> 32 word option" where
  "rd4u data p = (if 0 \<le> p \<and> p + 4 \<le> int (length data) then Some (zint_unpack (drop (nat p) data)) else None)"

definition rd4 :: "bytes \<Rightarrow> int \<Rightarrow> int option" where
  "rd4 data p = map_option sint (rd4u data p)"

text \<open>\<open>!strncmp(data, lit, strlen(lit))\<close>.\<close>

fun mem_eq :: "bytes \<Rightarrow> bytes \<Rightarrow> bool option" where
  "mem_eq data [] = Some True"
| "mem_eq [] (x # lit) = None"
| "mem_eq (y # data) (x # lit) = (if y = x then mem_eq data lit else Some False)"

record zcdb =
  c_data :: bytes
  max_key_length :: int
  c_val_length :: int
  c_count :: int

definition zcdb_open_from_data :: "bytes \<Rightarrow> zcdb option option" where
  "zcdb_open_from_data data = do {
     magic \<leftarrow> mem_eq data (cstr ''ZCDB'');
     (if \<not> magic then Some None
      else do {
        version \<leftarrow> mem_eq (drop 4 data) (cstr ''0001'');
        (if \<not> version then Some None
         else do {
           count \<leftarrow> rd4 data 12;
           mkl \<leftarrow> rd4 data 16;
           vl \<leftarrow> rd4 data 20;
           Some (Some \<lparr>c_data = data, max_key_length = mkl, c_val_length = vl, c_count = count\<rparr>) }) }) }"

text \<open>The mapped file is given as its bytes, \<open>None\<close> if it cannot be opened.\<close>

definition zcdb_open :: "bytes option \<Rightarrow> zcdb option option" where
  "zcdb_open cdb_file =
     (case cdb_file of
        None \<Rightarrow> Some None
      | Some data \<Rightarrow>
          if length data < 12 then Some None
          else do {
            file_len \<leftarrow> rd4 data 8;
            (if file_len > int (length data) then Some None else zcdb_open_from_data data) })"

section \<open>Lookup\<close>

text \<open>The binary search over records of \<open>step\<close> bytes: the position of the record, or \<open>Some None\<close>.\<close>

function search_loop :: "bytes \<Rightarrow> int \<Rightarrow> int \<Rightarrow> bytes \<Rightarrow> int \<Rightarrow> int \<Rightarrow> int option option" where
  "search_loop data base step key left right =
     (if left \<le> right then
        let middle = (left + right) div 2; key_p = base + middle * step in
        if key_p < 0 \<or> key_p + int (length key) > int (length data) then None
        else let cmp_r = memcmp key (drop (nat key_p) data) (length key) in
             if cmp_r = 0 then Some (Some key_p)
             else if cmp_r < 0 then search_loop data base step key left (middle - 1)
             else search_loop data base step key (middle + 1) right
      else Some None)"
  by pat_completeness auto
termination search_loop
  by (relation "measure (\<lambda>(_, _, _, _, left, right). nat (right - left + 1))") auto

declare search_loop.simps [simp del]

text \<open>The length in front of a value, and the number of bytes it takes.\<close>

fun read_size :: "bytes \<Rightarrow> 32 word \<Rightarrow> nat \<Rightarrow> nat \<Rightarrow> (32 word \<times> nat) option" where
  "read_size [] size1 shift n = None"
| "read_size (c # data) size1 shift n =
     (let size1 = size1 OR push_bit shift (ucast (c AND 127))
      in if c AND 128 \<noteq> 0 then Some (size1, n + 1) else read_size data size1 (shift + 7) (n + 1))"

definition zcdb_value :: "zcdb \<Rightarrow> int \<Rightarrow> (int option \<times> int) option" where
  "zcdb_value cdb p =
     (if c_val_length cdb = 536870912 then do {
        offset \<leftarrow> rd4 (c_data cdb) p;
        (if offset = 0 then Some (None, 0)
         else if offset < 0 then None
         else do {
           (size1, n) \<leftarrow> read_size (drop (nat offset) (c_data cdb)) 0 0 0;
           Some (Some (offset + int n), sint size1) }) }
      else Some (Some p, c_val_length cdb))"

definition find_partD :: "zcdb \<Rightarrow> bytes \<Rightarrow> int \<Rightarrow> (int option \<times> int) option option" where
  "find_partD cdb key partD = do {
     let klen = int (length key);
     ncount \<leftarrow> rd4 (c_data cdb) partD;
     (if ncount < 1 then Some None
      else do {
        let step = klen + (if c_val_length cdb = 536870912 then 4 else c_val_length cdb);
        r \<leftarrow> search_loop (c_data cdb) (partD + 4) step key 0 (ncount - 1);
        (case r of
           None \<Rightarrow> Some None
         | Some key_p \<Rightarrow> map_option Some (zcdb_value cdb (key_p + klen))) }) }"

definition find_partC :: "zcdb \<Rightarrow> bytes \<Rightarrow> int \<Rightarrow> (int option \<times> int) option option" where
  "find_partC cdb key partC = do {
     hash_vector_size \<leftarrow> rd4u (c_data cdb) partC;
     (if hash_vector_size = 0 then None
      else do {
        let h = (if length key \<noteq> 0 then zhash_djb key else 0) mod hash_vector_size;
        partD \<leftarrow> rd4 (c_data cdb) (partC + 4 + 4 * sint h);
        (if partD = 0 then Some None else find_partD cdb key partD) }) }"

definition zcdb_find :: "zcdb \<Rightarrow> bytes \<Rightarrow> int \<Rightarrow> (int option \<times> int) option option" where
  "zcdb_find cdb key0 klen0 =
     (let key = src_bytes key0 klen0; klen = int (length key) in
      if klen > max_key_length cdb then Some None
      else do {
        partC \<leftarrow> rd4 (c_data cdb) (24 + 4 * klen);
        (if partC = 0 then Some None else find_partC cdb key partC) })"

definition zcdb_get_count :: "zcdb \<Rightarrow> int" where
  "zcdb_get_count cdb = c_count cdb"

section \<open>Blocks in the file\<close>

lemma rd4_pack:
  assumes "d = A @ zint_pack (of_nat n) @ R" "int (length A) = p" "n < 2 ^ 31"
  shows "rd4 d p = Some (int n)" "rd4u d p = Some (of_nat n)"
proof -
  have p: "0 \<le> p" "nat p = length A" using assms(2) by auto
  show u: "rd4u d p = Some (of_nat n)" using assms(1,2) p by (simp add: rd4u_def)
  have "sint (of_nat n :: 32 word) = int n" using assms(3) by (rule sint_of_nat_small)
  then show "rd4 d p = Some (int n)" by (simp add: rd4_def u)
qed

lemma place_nth:
  assumes "place blk o1 xs = (ps, bs)" "i < length xs" "\<And>o2 o3 x. blk o2 x = None \<longleftrightarrow> blk o3 x = None"
  shows "case blk (ps ! i) (xs ! i) of
      None \<Rightarrow> ps ! i = 0
    | Some bl \<Rightarrow> \<exists>a r. bs = a @ bl @ r \<and> ps ! i = o1 + length a"
  using assms(1,2)
proof (induction xs arbitrary: o1 ps bs i)
  case (Cons x xs)
  show ?case
  proof (cases "blk o1 x")
    case None
    obtain ps' bs' where p: "place blk o1 xs = (ps', bs')" by (rule prod.exhaust)
    with Cons.prems(1) None have e: "ps = 0 # ps'" "bs = bs'" by simp_all
    have "blk 0 x = None" using None assms(3) by blast
    show ?thesis
    proof (cases i)
      case 0
      then show ?thesis using \<open>blk 0 x = None\<close> e by simp
    next
      case (Suc j)
      show ?thesis using Cons.IH [OF p, of j] Cons.prems(2) unfolding Suc e nth_Cons_Suc by simp
    qed
  next
    case (Some bl)
    obtain ps' bs' where p: "place blk (o1 + length bl) xs = (ps', bs')" by (rule prod.exhaust)
    with Cons.prems(1) Some have e: "ps = o1 # ps'" "bs = bl @ bs'" by simp_all
    show ?thesis
    proof (cases i)
      case 0
      then show ?thesis using Some e by (auto intro!: exI [of _ "[]"])
    next
      case (Suc j)
      with Cons.IH [OF p, of j] Cons.prems(2)
      have "case blk (ps' ! j) (xs ! j) of None \<Rightarrow> ps' ! j = 0
        | Some bl' \<Rightarrow> \<exists>a r. bs' = a @ bl' @ r \<and> ps' ! j = o1 + length bl + length a" by simp
      then show ?thesis using Suc e by (auto split: option.splits) (metis append.assoc length_append add.assoc)
    qed
  qed
qed simp

text \<open>The offset of the item \<open>i\<close> in a file that contains the vector and its blocks.\<close>

lemma placed_nth:
  assumes "d = A @ placed blk (length A) ks xs @ R" "length ks = length xs" "\<forall>k \<in> set ks. length k = K" "i < length xs"
    "\<And>o2 o3 x. blk o2 x = None \<longleftrightarrow> blk o3 x = None"
  shows "\<exists>p B S. d = B @ ks ! i @ zint_pack (of_nat p) @ S \<and> length B = length A + (K + 4) * i
    \<and> (case blk p (xs ! i) of
         None \<Rightarrow> p = 0
       | Some bl \<Rightarrow> length A + 4 \<le> p \<and> (\<exists>C T. d = C @ bl @ T \<and> length C = p))"
proof -
  let ?o = "length A + length (concat ks) + 4 * length xs"
  obtain ps bs where pl: "place blk ?o xs = (ps, bs)" by (rule prod.exhaust)
  have len: "length ps = length ks" using length_place [of blk ?o xs] pl assms(2) by simp
  have d: "d = A @ slots ks ps @ bs @ R" using assms(1) pl by (simp add: placed_def)
  obtain a r where s: "slots ks ps = a @ ks ! i @ zint_pack (of_nat (ps ! i)) @ r" "length a = (K + 4) * i"
    using slots_split [OF len assms(3)] assms(2,4) by metis
  have lo: "length (A @ slots ks ps) = ?o" using len assms(2) by (simp add: length_slots)
  have "case blk (ps ! i) (xs ! i) of None \<Rightarrow> ps ! i = 0
      | Some bl \<Rightarrow> length A + 4 \<le> ps ! i \<and> (\<exists>C T. d = C @ bl @ T \<and> length C = ps ! i)"
  proof (cases "blk (ps ! i) (xs ! i)")
    case None
    then show ?thesis using place_nth [OF pl assms(4,5)] by simp
  next
    case (Some bl)
    then obtain a' r' where "bs = a' @ bl @ r'" "ps ! i = ?o + length a'" using place_nth [OF pl assms(4,5)] by auto
    then have "d = (A @ slots ks ps @ a') @ bl @ (r' @ R)" "length (A @ slots ks ps @ a') = ps ! i" "length A + 4 \<le> ps ! i"
      using d lo assms(4) by (auto simp del: length_concat)
    then show ?thesis using Some by (simp only: option.case) blast
  qed
  moreover have "d = (A @ a) @ ks ! i @ zint_pack (of_nat (ps ! i)) @ (r @ bs @ R)" using d s(1) by simp
  moreover have "length (A @ a) = length A + (K + 4) * i" using s(2) by simp
  ultimately show ?thesis by blast
qed

section \<open>Binary search\<close>

text \<open>The records are sorted by the keys at their front.\<close>

definition recs_at :: "bytes \<Rightarrow> nat \<Rightarrow> nat \<Rightarrow> bytes list \<Rightarrow> bool" where
  "recs_at d base step ks \<longleftrightarrow> (\<forall>i < length ks. \<exists>A R. d = A @ ks ! i @ R \<and> length A = base + step * i)"

lemma search_loop_ok:
  assumes "recs_at d base step ks" "sorted_wrt (<) ks" "\<forall>k \<in> set ks. length k = length key"
    and "0 \<le> left" "right < int (length ks)"
    and "\<And>i. i < length ks \<Longrightarrow> int i < left \<Longrightarrow> ks ! i < key" "\<And>i. i < length ks \<Longrightarrow> right < int i \<Longrightarrow> key < ks ! i"
  shows "search_loop d (int base) (int step) key left right = Some (if key \<in> set ks then
      Some (int base + int (THE i. i < length ks \<and> ks ! i = key) * int step) else None)"
  using assms(4-)
proof (induction "nat (right - left + 1)" arbitrary: left right rule: less_induct)
  case less
  have dis: "distinct ks" using assms(2) strict_sorted_iff by blast
  show ?case
  proof (cases "left \<le> right")
    case False
    have "ks ! i \<noteq> key" if "i < length ks" for i
      using less.prems(3) [OF that] less.prems(4) [OF that] False by (cases "int i < left") auto
    then have "key \<notin> set ks" by (auto simp: in_set_conv_nth)
    then show ?thesis using False by (simp add: search_loop.simps)
  next
    case True
    let ?m = "(left + right) div 2"
    let ?i = "nat ?m"
    have m: "left \<le> ?m" "?m \<le> right" using True by linarith+
    then have i: "?i < length ks" "int ?i = ?m" using less.prems(1,2) by linarith+
    from assms(1) i(1) obtain A R where A: "d = A @ ks ! ?i @ R" "length A = base + step * ?i" by (auto simp: recs_at_def)
    have kl: "length (ks ! ?i) = length key" using assms(3) i(1) by simp
    have pos: "int base + ?m * int step = int (length A)" using A(2) i(2) by (simp add: mult.commute)
    have cmp: "memcmp key (drop (nat (int (length A))) d) (length key) < 0 \<longleftrightarrow> key < ks ! ?i"
      "memcmp key (drop (nat (int (length A))) d) (length key) = 0 \<longleftrightarrow> key = ks ! ?i"
      using memcmp_order [of key "length key" "ks ! ?i"] kl A(1) by (simp_all add: memcmp_def)
    have inb: "\<not> (int (length A) < 0 \<or> int (length A) + int (length key) > int (length d))" using A(1) kl by simp
    note unf = search_loop.simps [of d "int base" "int step" key left right, unfolded Let_def pos]
    consider "key = ks ! ?i" | "key < ks ! ?i" | "ks ! ?i < key" by (rule linorder_cases) auto
    then show ?thesis
    proof cases
      case 1
      have "(THE j. j < length ks \<and> ks ! j = key) = ?i"
        using i(1) 1 dis nth_eq_iff_index_eq by (intro the_equality) auto
      then show ?thesis using unf True inb cmp 1 i pos by (simp add: in_set_conv_nth) metis
    next
      case 2
      have lt: "key < ks ! j" if "j < length ks" "?m - 1 < int j" for j
      proof (cases "j = ?i")
        case False
        then have "?i < j" using that(2) i(2) by linarith
        then have "ks ! ?i < ks ! j" using assms(2) that(1) by (simp add: sorted_wrt_nth_less)
        with 2 show ?thesis by simp
      qed (use 2 in simp)
      have "search_loop d (int base) (int step) key left (?m - 1) = Some (if key \<in> set ks then
          Some (int base + int (THE i. i < length ks \<and> ks ! i = key) * int step) else None)"
        by (rule less.hyps) (use m less.prems lt in \<open>simp_all\<close>)
      then show ?thesis using unf True inb cmp 2 by auto
    next
      case 3
      have lt: "ks ! j < key" if "j < length ks" "int j < ?m + 1" for j
      proof (cases "j = ?i")
        case False
        then have "j < ?i" using that(2) i(2) by linarith
        then have "ks ! j < ks ! ?i" using assms(2) i(1) by (simp add: sorted_wrt_nth_less)
        with 3 show ?thesis by simp
      qed (use 3 in simp)
      have "search_loop d (int base) (int step) key (?m + 1) right = Some (if key \<in> set ks then
          Some (int base + int (THE i. i < length ks \<and> ks ! i = key) * int step) else None)"
        by (rule less.hyps) (use m less.prems lt in \<open>simp_all\<close>)
      then show ?thesis using unf True inb cmp 3 by auto
    qed
  qed
qed

lemma search_ok:
  assumes "recs_at d base step ks" "sorted_wrt (<) ks" "\<forall>k \<in> set ks. length k = length key"
  shows "(key \<notin> set ks \<longrightarrow> search_loop d (int base) (int step) key 0 (int (length ks) - 1) = Some None)
    \<and> (i < length ks \<longrightarrow> ks ! i = key \<longrightarrow> search_loop d (int base) (int step) key 0 (int (length ks) - 1)
         = Some (Some (int (base + step * i))))"
proof -
  have r: "search_loop d (int base) (int step) key 0 (int (length ks) - 1) = Some (if key \<in> set ks then
      Some (int base + int (THE i. i < length ks \<and> ks ! i = key) * int step) else None)"
    by (rule search_loop_ok [OF assms]) simp_all
  have "distinct ks" using assms(2) strict_sorted_iff by blast
  then have "i < length ks \<Longrightarrow> ks ! i = key \<Longrightarrow> (THE i. i < length ks \<and> ks ! i = key) = i"
    using nth_eq_iff_index_eq by (intro the_equality) auto
  with r show ?thesis by (auto simp: mult.commute)
qed

section \<open>Values\<close>

lemma read_size_bytes:
  "read_size (cint_bytes m @ rest) size1 shift n = Some (size1 OR push_bit shift (of_nat m), n + length (cint_bytes m))"
proof (induction m arbitrary: size1 shift n rule: cint_bytes.induct)
  case (1 m)
  show ?case
  proof (cases "m div 128 = 0")
    case True
    then have "m < 128" by (simp add: div_eq_0_iff)
    with cint_digit [of m] True show ?thesis by (simp add: cint_bytes.simps [of m])
  next
    case False
    have d: "push_bit shift (of_nat m :: 32 word) = push_bit shift (of_nat (m mod 128)) OR push_bit (shift + 7) (of_nat (m div 128))"
      by (subst of_nat_digits) (simp add: push_bit_or push_bit_push_bit)
    from False 1 cint_digit [of "m mod 128"] show ?thesis
      by (simp add: cint_bytes.simps [of m] Let_def d or.assoc)
  qed
qed

definition value_bytes :: "bytes \<Rightarrow> int option \<times> int \<Rightarrow> bytes" where
  "value_bytes d pn = (case fst pn of None \<Rightarrow> [] | Some p \<Rightarrow> take (nat (snd pn)) (drop (nat p) d))"

text \<open>\<open>answers d r m\<close>: the result \<open>r\<close> of a lookup in the database \<open>d\<close> is the value \<open>m\<close>.\<close>

definition answers :: "bytes \<Rightarrow> (int option \<times> int) option \<Rightarrow> bytes option \<Rightarrow> bool" where
  "answers d r m \<longleftrightarrow> (case m of None \<Rightarrow> r = None
     | Some v \<Rightarrow> \<exists>p n. r = Some (p, n) \<and> n = int (length v) \<and> value_bytes d (p, n) = v)"

text \<open>The record \<open>i\<close> of a chain: its key, and its value through \<open>zcdb_value\<close>.\<close>

definition step_of :: "nat \<Rightarrow> nat \<Rightarrow> nat" where
  "step_of vl klen = klen + (if vl = 536870912 then 4 else vl)"

lemma concat_nth:
  assumes "\<forall>x \<in> set xs. length x = K" "i < length xs"
  shows "\<exists>a r. concat xs = a @ xs ! i @ r \<and> length a = K * i"
proof -
  from arg_cong [OF id_take_nth_drop [OF assms(2)], of concat]
  have "concat xs = concat (take i xs) @ xs ! i @ concat (drop (Suc i) xs)" by (simp only: concat_append concat.simps)
  moreover have "\<forall>x \<in> set (take i xs). length x = K" using assms(1) by (meson in_set_takeD)
  then have "length (concat (take i xs)) = K * i" using concat_same_length [of "take i xs" K] assms(2) by simp
  ultimately show ?thesis by blast
qed

lemma record_nth:
  assumes "d = A @ records vl (length A) chain @ R" "nodes_ok klen vl chain" "i < length chain" "length d < 2 ^ 30"
    "c_data cdb = d" "c_val_length cdb = int vl"
  shows "\<exists>B S. d = B @ nkey (chain ! i) @ S \<and> length B = length A + step_of vl klen * i
    \<and> (\<exists>r. zcdb_value cdb (int (length B + klen)) = Some r \<and> answers d (Some r) (Some (nval (chain ! i))))"
proof (cases "vl = 536870912")
  case True
  let ?ks = "map nkey chain"
  have K: "\<forall>k \<in> set ?ks. length k = klen" using assms(2) by (auto simp: nodes_ok_def node_ok_def)
  have d: "d = A @ placed val_block (length A) ?ks chain @ R" using assms(1) True by (simp add: records_def)
  have uniform: "\<And>o2 o3 x. val_block o2 x = None \<longleftrightarrow> val_block o3 x = None" by (simp add: val_block_def)
  obtain p B S where B: "d = B @ ?ks ! i @ zint_pack (of_nat p) @ S" "length B = length A + (klen + 4) * i"
    "case val_block p (chain ! i) of None \<Rightarrow> p = 0
       | Some bl \<Rightarrow> length A + 4 \<le> p \<and> (\<exists>C T. d = C @ bl @ T \<and> length C = p)"
    using placed_nth [OF d _ K assms(3) uniform] by auto
  have ki: "length (nkey (chain ! i)) = klen" using assms(2,3) by (simp add: nodes_ok_def node_ok_def)
  let ?v = "nval (chain ! i)"
  have "\<exists>r. zcdb_value cdb (int (length B + klen)) = Some r \<and> answers d (Some r) (Some ?v)"
  proof (cases "?v = []")
    case v: True
    then have "p = 0" using B(3) by (simp add: val_block_def)
    with rd4_pack [of d "B @ nkey (chain ! i)" 0 S "int (length B + klen)"] B(1) ki assms(3)
    have "rd4 d (int (length B + klen)) = Some 0" by simp
    then show ?thesis using v assms(5,6) True by (simp add: zcdb_value_def answers_def value_bytes_def)
  next
    case v: False
    with B(3) obtain C T where C: "d = C @ cint_text ?v @ T" "length C = p" "4 \<le> p" by (auto simp: val_block_def)
    have p: "p < 2 ^ 31" using C(1,2) assms(4) by simp
    have off: "rd4 d (int (length B + klen)) = Some (int p)"
      using rd4_pack [of d "B @ nkey (chain ! i)" p S "int (length B + klen)"] B(1) ki assms(3) p by simp
    have "length ?v < 2 ^ 31" using C(1) assms(4) by (simp add: cint_text_def)
    then have sv: "sint (of_nat (length ?v) :: 32 word) = int (length ?v)" by (rule sint_of_nat_small)
    have "read_size (drop p d) 0 0 0 = Some (of_nat (length ?v), length (cint_bytes (length ?v)))"
      using C(1,2) read_size_bytes [of "length ?v" "?v @ T" 0 0 0] by (simp add: cint_text_def)
    then have "zcdb_value cdb (int (length B + klen)) = Some (Some (int p + int (length (cint_bytes (length ?v)))), int (length ?v))"
      using off assms(5,6) True C(3) sv by (simp add: zcdb_value_def)
    moreover have "take (length ?v) (drop (nat (int p + int (length (cint_bytes (length ?v))))) d) = ?v"
      using C(1,2) by (simp add: cint_text_def nat_add_distrib)
    ultimately show ?thesis by (simp add: answers_def value_bytes_def)
  qed
  then show ?thesis using B(1,2) True assms(3) by (intro exI [of _ B] exI [of _ "zint_pack (of_nat p) @ S"]) (simp add: step_of_def)
next
  case False
  let ?r = "\<lambda>n. nkey n @ nval n"
  have K: "\<forall>x \<in> set (map ?r chain). length x = klen + vl" using assms(2) False by (auto simp: nodes_ok_def node_ok_def)
  from concat_nth [OF K, of i] assms(3) obtain a r where a: "concat (map ?r chain) = a @ ?r (chain ! i) @ r" "length a = (klen + vl) * i"
    by auto
  let ?B = "A @ a"
  have d: "d = ?B @ nkey (chain ! i) @ nval (chain ! i) @ r @ R" using assms(1) a(1) False by (simp add: records_def)
  have l: "length (nkey (chain ! i)) = klen" "length (nval (chain ! i)) = vl"
    using assms(2,3) False by (simp_all add: nodes_ok_def node_ok_def)
  have "zcdb_value cdb (int (length ?B + klen)) = Some (Some (int (length ?B + klen)), int vl)"
    using assms(6) False by (simp add: zcdb_value_def)
  moreover have "take vl (drop (length ?B + klen) d) = nval (chain ! i)" unfolding d using l by simp
  then have "value_bytes d (Some (int (length ?B + klen)), int vl) = nval (chain ! i)"
    unfolding value_bytes_def fst_conv snd_conv option.case nat_int .
  then have "answers d (Some (Some (int (length ?B + klen)), int vl)) (Some (nval (chain ! i)))"
    using l(2) unfolding answers_def option.case by blast
  ultimately have "\<exists>r. zcdb_value cdb (int (length ?B + klen)) = Some r \<and> answers d (Some r) (Some (nval (chain ! i)))"
    by blast
  then show ?thesis using d a(2) False by (intro exI [of _ ?B] exI [of _ "nval (chain ! i) @ r @ R"]) (simp add: step_of_def)
qed

section \<open>Lookup in a compiled database\<close>

lemma bucket_word:
  assumes "0 < hsize" "hsize < 2 ^ 31"
  shows "(of_nat hsize :: 32 word) \<noteq> 0" "sint (h mod of_nat hsize :: 32 word) = int (unat h mod hsize)"
proof -
  have u: "unat (of_nat hsize :: 32 word) = hsize" using assms(2) by (simp add: unat_of_nat)
  then show "(of_nat hsize :: 32 word) \<noteq> 0" using assms(1) by auto
  have m: "unat (h mod of_nat hsize) = unat h mod hsize" by (simp add: unat_mod u)
  then have "unat (h mod of_nat hsize) < 2 ^ 31" using assms by (metis mod_less_divisor order.strict_trans)
  then show "sint (h mod of_nat hsize) = int (unat h mod hsize)"
  proof -
    have "(of_nat (unat (h mod of_nat hsize)) :: 32 word) = h mod of_nat hsize" by (simp only: of_nat_unat ucast_id)
    with sint_of_nat_small [of "unat (h mod of_nat hsize)"] m \<open>unat (h mod of_nat hsize) < 2 ^ 31\<close> show ?thesis by metis
  qed
qed

definition chain_answer :: "builder_node list \<Rightarrow> bytes \<Rightarrow> bytes option" where
  "chain_answer chain key = map_of (map kv chain) key"

lemma chain_answer_nth:
  assumes "sorted_wrt (<) (map nkey chain)"
  shows "key \<notin> set (map nkey chain) \<Longrightarrow> chain_answer chain key = None"
    "i < length chain \<Longrightarrow> nkey (chain ! i) = key \<Longrightarrow> chain_answer chain key = Some (nval (chain ! i))"
proof -
  show "key \<notin> set (map nkey chain) \<Longrightarrow> chain_answer chain key = None"
    by (auto simp: chain_answer_def map_of_eq_None_iff image_image)
  have "distinct (map fst (map kv chain))" using assms strict_sorted_iff by (auto simp: comp_def)
  then show "i < length chain \<Longrightarrow> nkey (chain ! i) = key \<Longrightarrow> chain_answer chain key = Some (nval (chain ! i))"
    unfolding chain_answer_def by (intro map_of_is_SomeI) (auto simp: kv_def in_set_conv_nth intro!: image_eqI [of _ _ "chain ! i"])
qed

lemma find_in_chain:
  assumes "d = C @ zint_pack (of_nat (length chain)) @ records vl (length C + 4) chain @ T"
    and "nodes_ok (length key) vl chain" "sorted_wrt (<) (map nkey chain)" "chain \<noteq> []" "length d < 2 ^ 30"
    and "c_data cdb = d" "c_val_length cdb = int vl" "key \<noteq> []"
  shows "\<exists>r. find_partD cdb key (int (length C)) = Some r \<and> answers d r (chain_answer chain key)"
proof -
  let ?A = "C @ zint_pack (of_nat (length chain))"
  let ?ks = "map nkey chain"
  let ?st = "step_of vl (length key)"
  have d: "d = ?A @ records vl (length ?A) chain @ T" using assms(1) by simp
  note rec = record_nth [OF d assms(2) _ assms(5-7)]
  have ra: "recs_at d (length ?A) ?st ?ks" unfolding recs_at_def
  proof (intro allI impI)
    fix i
    assume i: "i < length ?ks"
    then obtain B S where "d = B @ nkey (chain ! i) @ S" "length B = length ?A + ?st * i" using rec [of i] by auto
    then show "\<exists>A R. d = A @ ?ks ! i @ R \<and> length A = length ?A + ?st * i" using i by auto
  qed
  have K: "\<forall>k \<in> set ?ks. length k = length key" using assms(2) by (auto simp: nodes_ok_def node_ok_def)
  have n: "length chain < 2 ^ 31"
  proof (rule ccontr)
    assume "\<not> length chain < 2 ^ 31"
    then obtain B S where "d = B @ nkey (chain ! (2 ^ 31 - 1)) @ S" "length B = length ?A + ?st * (2 ^ 31 - 1)"
      using rec [of "2 ^ 31 - 1"] by auto
    moreover have "1 * (2 ^ 31 - 1) \<le> ?st * (2 ^ 31 - 1)" using assms(8) by (intro mult_le_mono1) (cases key; simp add: step_of_def)
    ultimately show False using assms(5) by simp
  qed
  have rn: "rd4 d (int (length C)) = Some (int (length chain))"
    using rd4_pack [of d C "length chain"] assms(1) n by simp
  note se = search_ok [OF ra assms(3) K]
  have pos: "int (length C) + 4 = int (length ?A)" by simp
  have st: "int (length key) + (if c_val_length cdb = 536870912 then 4 else c_val_length cdb) = int ?st"
    using assms(7) by (simp add: step_of_def)
  have "length chain > 0" using assms(4) by simp
  then have fD: "find_partD cdb key (int (length C)) = do {
      r \<leftarrow> search_loop d (int (length C) + 4) (int ?st) key 0 (int (length chain) - 1);
      (case r of None \<Rightarrow> Some None | Some key_p \<Rightarrow> map_option Some (zcdb_value cdb (key_p + int (length key)))) }"
    unfolding find_partD_def assms(6) rn st Let_def by simp
  show ?thesis
  proof (cases "key \<in> set ?ks")
    case False
    then have "search_loop d (int (length C) + 4) (int ?st) key 0 (int (length chain) - 1) = Some None"
      using se unfolding pos by simp
    then show ?thesis using chain_answer_nth(1) [OF assms(3) False] fD by (simp add: answers_def)
  next
    case True
    then obtain i where i: "i < length chain" "nkey (chain ! i) = key" by (auto simp: in_set_conv_nth)
    then have s: "search_loop d (int (length C) + 4) (int ?st) key 0 (int (length chain) - 1) = Some (Some (int (length ?A + ?st * i)))"
      using se [of i] unfolding pos by simp
    from rec [OF i(1)] obtain B :: bytes and r where r: "length B = length ?A + ?st * i"
      "zcdb_value cdb (int (length B + length key)) = Some r" "answers d (Some r) (Some (nval (chain ! i)))" by blast
    have "zcdb_value cdb (int (length ?A + ?st * i) + int (length key)) = Some r" using r(2) unfolding r(1) by simp
    then show ?thesis using s r(3) chain_answer_nth(2) [OF assms(3) i] fD by simp
  qed
qed

lemma nodes_ok_chain: "chain_ok klen chain \<Longrightarrow> nodes_ok klen vl chain \<Longrightarrow> sorted_wrt (<) (map nkey chain)"
  by (simp add: chain_ok_def)

text \<open>The database of a builder: its file and the fields the reader has taken from it.\<close>

definition opened :: "zcdb_builder \<Rightarrow> zcdb \<Rightarrow> bool" where
  "opened b cdb \<longleftrightarrow> c_data cdb = cdb_layout b \<and> max_key_length cdb = int (max_klen b)
     \<and> c_val_length cdb = int (compiled_val_length b) \<and> c_count cdb = sint (of_int (b_count b) :: 32 word)"

definition cdb_ready :: "zcdb_builder \<Rightarrow> bool" where
  "cdb_ready b \<longleftrightarrow> builder_ok b \<and> length (cdb_layout b) < 2 ^ 30 \<and> compiled_val_length b < 2 ^ 31
     \<and> (\<forall>i t. i \<le> max_klen b \<longrightarrow> table_vector b ! i = Some t \<longrightarrow> table_fits (compiled_val_length b) i t)"

lemma mem_eq_prefix: "mem_eq (lit @ rest) lit = Some True"
  by (induction lit) simp_all

lemma open_layout:
  assumes "cdb_ready b"
  shows "\<exists>cdb. zcdb_open_from_data (cdb_layout b) = Some (Some cdb) \<and> zcdb_open (Some (cdb_layout b)) = Some (Some cdb)
    \<and> opened b cdb"
proof -
  let ?vl = "compiled_val_length b"
  let ?ts = "take (max_klen b + 1) (table_vector b)"
  let ?body = "placed (table_block ?vl) 24 (offsets ?ts) ?ts"
  let ?d = "cdb_layout b"
  let ?m = "cstr ''ZCDB'' @ cstr ''0001''"
  let ?n = "24 + length ?body"
  have d: "?d = ?m @ zint_pack (of_nat ?n) @ zint_pack (of_int (b_count b)) @ zint_pack (of_nat (max_klen b))
      @ zint_pack (of_nat ?vl) @ ?body"
    by (simp add: cdb_layout_def Let_def)
  have m: "length ?m = 8" by (simp add: cstr_def)
  have len: "length ?d = ?n" using m by (simp add: d)
  have r8: "rd4 ?d 8 = Some (int ?n)"
    using rd4_pack(1) [of ?d ?m ?n _ 8] d m len assms by (simp add: cdb_ready_def)
  have "drop 12 ?d = zint_pack (of_int (b_count b)) @ zint_pack (of_nat (max_klen b)) @ zint_pack (of_nat ?vl) @ ?body"
    unfolding d using m by simp
  then have r12: "rd4 ?d 12 = Some (sint (of_int (b_count b) :: 32 word))" using len by (simp add: rd4_def rd4u_def)
  have r16: "rd4 ?d 16 = Some (int (max_klen b))"
    using rd4_pack(1) [of ?d "?m @ zint_pack (of_nat ?n) @ zint_pack (of_int (b_count b))" "max_klen b" "zint_pack (of_nat ?vl) @ ?body" 16] d m assms
    by (simp add: cdb_ready_def builder_ok_def zvar_zcdb_max_key_len_def)
  have r20: "rd4 ?d 20 = Some (int ?vl)"
    using rd4_pack(1) [of ?d "?m @ zint_pack (of_nat ?n) @ zint_pack (of_int (b_count b)) @ zint_pack (of_nat (max_klen b))" ?vl ?body 20] d m assms
    by (simp add: cdb_ready_def)
  have magic: "mem_eq ?d (cstr ''ZCDB'') = Some True" unfolding d append_assoc by (rule mem_eq_prefix)
  have "drop 4 ?d = cstr ''0001'' @ zint_pack (of_nat ?n) @ zint_pack (of_int (b_count b)) @ zint_pack (of_nat (max_klen b))
      @ zint_pack (of_nat ?vl) @ ?body" unfolding d by (simp add: cstr_def)
  then have version: "mem_eq (drop 4 ?d) (cstr ''0001'') = Some True" by (simp only: mem_eq_prefix)
  let ?cdb = "\<lparr>c_data = ?d, max_key_length = int (max_klen b), c_val_length = int ?vl, c_count = sint (of_int (b_count b) :: 32 word)\<rparr>"
  have o: "zcdb_open_from_data ?d = Some (Some ?cdb)"
    by (simp add: zcdb_open_from_data_def magic version r12 r16 r20)
  moreover have "zcdb_open (Some ?d) = Some (Some ?cdb)" using o r8 len by (simp add: zcdb_open_def)
  ultimately show ?thesis by (intro exI [of _ ?cdb]) (simp add: opened_def)
qed

text \<open>The part of the lookup behind the offset \<open>p\<close> of the table.\<close>

lemma find_in_table:
  assumes "d = C @ the (table_block vl p (Some t)) @ T" "length C = p" "0 < p"
    and "table_ok (length key) t" "table_fits vl (length key) t" "length d < 2 ^ 30"
    and "c_data cdb = d" "c_val_length cdb = int vl" "key = [] \<Longrightarrow> hash_node_vector t ! 0 = []"
  shows "\<exists>r. find_partC cdb key (int p) = Some r \<and> answers d r (if key = [] then None else bmap (hash_node_vector t) key)"
proof -
  let ?v = "hash_node_vector t"
  let ?n = "hash_node_size t"
  let ?h = "if length key \<noteq> 0 then zhash_djb key else 0"
  let ?i = "unat ?h mod ?n"
  let ?A = "C @ zint_pack (of_nat ?n)"
  have t: "length ?v = ?n" "buckets_ok (length key) ?v" using assms(4) by (simp_all add: table_ok_def)
  have "0 < ?n" using t by (metis buckets_ok_def length_greater_0_conv)
  then have i: "?i < length ?v" using t(1) by simp
  have ch: "chain_ok (length key) (?v ! ?i)" "nodes_ok (length key) vl (?v ! ?i)"
    using t i assms(5) by (simp_all add: buckets_ok_def table_fits_def)
  have d: "d = ?A @ placed (bucket_block vl) (length ?A) (offsets ?v) ?v @ T" using assms(1,2) by (simp add: table_block_def)
  have "4 * ?n \<le> length (placed (bucket_block vl) (length ?A) (offsets ?v) ?v)"
    using length_placed_ge [of "offsets ?v" ?v "bucket_block vl" "length ?A"] t(1) by simp
  also have "\<dots> \<le> length d" unfolding d by simp
  finally have n: "0 < ?n" "?n < 2 ^ 31" using i t(1) assms(6) by auto
  have rn: "rd4u d (int p) = Some (of_nat ?n)" using rd4_pack(2) [of d C ?n _ "int p"] d assms(2) n(2) by simp
  note bw = bucket_word(1) [OF n] bucket_word(2) [OF n, of ?h]
  have K0: "\<forall>x \<in> set (offsets ?v). length x = 0" using offsets_simps(3) by auto
  have un: "\<And>o2 o3 x. bucket_block vl o2 x = None \<longleftrightarrow> bucket_block vl o3 x = None" by (simp add: bucket_block_def)
  obtain q B S where B: "d = B @ zint_pack (of_nat q) @ S" "length B = length ?A + 4 * ?i"
    "case bucket_block vl q (?v ! ?i) of None \<Rightarrow> q = 0
      | Some bl \<Rightarrow> length ?A + 4 \<le> q \<and> (\<exists>C T. d = C @ bl @ T \<and> length C = q)"
    using placed_nth [OF d offsets_simps(1) K0 i un] i by auto
  have q: "q < 2 ^ 31" using B(3) assms(6) by (auto split: option.splits)
  have rq: "rd4 d (int p + 4 + 4 * sint (?h mod of_nat ?n)) = Some (int q)"
    using rd4_pack(1) [OF B(1) _ q] B(2) assms(2) bw(2) by simp
  have m: "(if key = [] then None else bmap ?v key) = chain_answer (?v ! ?i) key"
    using t(1) assms(9) by (auto simp: bmap_def chain_answer_def bucket_def)
  show ?thesis
  proof (cases "?v ! ?i = []")
    case True
    then have "q = 0" using B(3) by (simp add: bucket_block_def)
    then show ?thesis using rn bw(1) rq assms(7) unfolding m True
      by (simp add: answers_def chain_answer_def find_partC_def)
  next
    case False
    with B(3) obtain C' T' where C': "d = C' @ zint_pack (of_nat (length (?v ! ?i))) @ records vl (length C' + 4) (?v ! ?i) @ T'"
      "length C' = q" "0 < q" by (auto simp: bucket_block_def)
    have so: "sorted_wrt (<) (map nkey (?v ! ?i))" using ch(1) by (simp add: chain_ok_def)
    have "key \<noteq> []" using False assms(9) by auto
    from find_in_chain [OF C'(1) ch(2) so False assms(6-8) this]
    show ?thesis using rn bw(1) rq C'(3) assms(7) unfolding m C'(2) by (simp add: find_partC_def)
  qed
qed

lemma find_layout:
  assumes "cdb_ready b" "opened b cdb" "\<And>t. key = [] \<Longrightarrow> table_vector b ! 0 = Some t \<Longrightarrow> hash_node_vector t ! 0 = []"
  shows "\<exists>r. zcdb_find cdb key (int (length key)) = Some r \<and> answers (cdb_layout b) r (if key = [] then None else cdb_map b key)"
proof -
  let ?vl = "compiled_val_length b"
  let ?ts = "take (max_klen b + 1) (table_vector b)"
  let ?d = "cdb_layout b"
  let ?k = "length key"
  have o: "c_data cdb = ?d" "max_key_length cdb = int (max_klen b)" "c_val_length cdb = int ?vl"
    using assms(2) by (simp_all add: opened_def)
  have r: "builder_ok b" "length ?d < 2 ^ 30" using assms(1) by (simp_all add: cdb_ready_def)
  have mk: "max_klen b < length (table_vector b)" using r(1) by (simp add: builder_ok_def)
  show ?thesis
  proof (cases "?k > max_klen b")
    case True
    have "cdb_map b key = None"
    proof -
      have "table_vector b ! ?k = None" if "?k < length (table_vector b)"
        using r(1) True that unfolding builder_ok_def by (metis leD option.exhaust)
      then show ?thesis by (simp add: cdb_map_def)
    qed
    then show ?thesis using True o(2) by (simp add: zcdb_find_def answers_def)
  next
    case False
    then have k: "?k < length ?ts" "?ts ! ?k = table_vector b ! ?k" using mk by simp_all
    obtain H where H: "?d = H @ placed (table_block ?vl) (length H) (offsets ?ts) ?ts @ []" "length H = 24"
    proof -
      have "length (cstr ''ZCDB'' @ cstr ''0001'' @ zint_pack x @ zint_pack y @ zint_pack z @ zint_pack u) = 24" for x y z u
        by (simp add: cstr_def)
      then show thesis using that by (simp add: cdb_layout_def Let_def)
    qed
    have K0: "\<forall>x \<in> set (offsets xs). length x = 0" for xs :: "'x list" using offsets_simps(3) by auto
    have un: "\<And>o2 o3 x. table_block ?vl o2 x = None \<longleftrightarrow> table_block ?vl o3 x = None" by (simp add: table_block_def)
    obtain p B S where B: "?d = B @ zint_pack (of_nat p) @ S" "length B = 24 + 4 * ?k"
      "case table_block ?vl p (?ts ! ?k) of None \<Rightarrow> p = 0
        | Some bl \<Rightarrow> length H + 4 \<le> p \<and> (\<exists>C T. ?d = C @ bl @ T \<and> length C = p)"
      using placed_nth [OF H(1) offsets_simps(1) K0 k(1) un] k(1) H(2) by auto
    have p: "p < 2 ^ 30" using B(3) r(2) by (auto split: option.splits)
    have rdp: "rd4 ?d (24 + 4 * int ?k) = Some (int p)" using rd4_pack(1) [OF B(1)] B(2) p by simp
    show ?thesis
    proof (cases "table_vector b ! ?k")
      case None
      then have "p = 0" "cdb_map b key = None" using B(3) k by (simp_all add: table_block_def cdb_map_def)
      then show ?thesis using False o rdp by (simp add: zcdb_find_def answers_def)
    next
      case (Some t)
      then have t: "table_ok ?k t" "table_fits ?vl ?k t"
        using r(1) assms(1) k(1) False unfolding builder_ok_def cdb_ready_def by auto
      from Some B(3) k(2) obtain C T where C: "?d = C @ the (table_block ?vl p (Some t)) @ T" "length C = p" "0 < p"
        using H(2) by (auto simp: table_block_def)
      have "cdb_map b key = bmap (hash_node_vector t) key" using Some k(1) mk by (simp add: cdb_map_def table_map_def)
      moreover have "key = [] \<Longrightarrow> hash_node_vector t ! 0 = []" using assms(3) [of t] Some by simp
      note find_in_table [OF C t r(2) o(1,3) this]
      ultimately show ?thesis using False rdp o C(3) by (simp only: zcdb_find_def src_bytes_all Let_def) simp
    qed
  qed
qed

end
