(* ===== verification/CdbProps.thy ===== *)
theory CdbProps
  imports CdbFind
begin

text \<open>
  The properties of the constant database: what the builder stores, and what a reader finds in the
  compiled file.
\<close>

section \<open>From updates to a file\<close>

definition cdb_updates :: "(bytes \<times> bytes) list \<Rightarrow> zcdb_builder \<Rightarrow> zcdb_builder option" where
  "cdb_updates kvs b = foldM (\<lambda>e b. zcdb_builder_update b (fst e) (int (length (fst e))) (snd e) (int (length (snd e)))) kvs b"

text \<open>What holds of a builder that has not been compiled yet.\<close>

definition building :: "zcdb_builder \<Rightarrow> bool" where
  "building b \<longleftrightarrow> builder_ok b \<and> fresh b"

lemma building_create: "building zcdb_builder_create" "lengths_ok zcdb_builder_create"
proof -
  have "file_at zcdb_builder_create [] 0"
    unfolding file_at_def by (simp add: zcdb_builder_create_def, intro exI [of _ 0], simp)
  then show "building zcdb_builder_create"
    using builder_create_ok(1) by (simp add: building_def fresh_def zcdb_builder_create_def)
  show "lengths_ok zcdb_builder_create"
    using builder_create_ok(2) by (simp add: lengths_ok_def zcdb_builder_create_def)
qed

lemma building_update:
  assumes "building b" "length key \<le> zvar_zcdb_max_key_len"
  shows "\<exists>b'. zcdb_builder_update b key (int (length key)) val (int (length val)) = Some b' \<and> building b'
    \<and> cdb_map b' = (cdb_map b)(key \<mapsto> val) \<and> b_count b' = b_count b + (if cdb_map b key = None then 1 else 0)
    \<and> (\<forall>i. i \<noteq> length key \<longrightarrow> table_vector b' ! i = table_vector b ! i)
    \<and> (val \<noteq> [] \<longrightarrow> length val < 2 ^ 31 \<longrightarrow> lengths_ok b \<longrightarrow> lengths_ok b')"
proof -
  have b: "builder_ok b" "file_at b [] 0" "\<not> b_over b" using assms(1) by (simp_all add: building_def fresh_def)
  from builder_update_ok [OF b(1) assms(2)] obtain b' where
    u: "zcdb_builder_update b key (int (length key)) val (int (length val)) = Some b'" "builder_ok b'"
    "cdb_map b' = (cdb_map b)(key \<mapsto> val)" "b_data b' = b_data b" "b_capability b' = b_capability b" "b_size b' = b_size b"
    "b_cursor b' = b_cursor b" "b_error b' = b_error b" "b_over b' = b_over b"
    "b_count b' = b_count b + (if cdb_map b key = None then 1 else 0)"
    "\<forall>i. i \<noteq> length key \<longrightarrow> table_vector b' ! i = table_vector b ! i"
    "val \<noteq> [] \<longrightarrow> length val < 2 ^ 31 \<longrightarrow> lengths_ok b \<longrightarrow> lengths_ok b'"
    by blast
  have "building b'" using b u(2,4-9) by (simp add: building_def fresh_def file_at_def)
  with u show ?thesis by blast
qed

section \<open>The buffers of the builder fit\<close>

text \<open>Keys and values are kept in buffers with 31-bit fields. With values below \<open>2 ^ 29\<close> bytes they never
  overflow.\<close>

definition node_fits :: "builder_node \<Rightarrow> bool" where
  "node_fits n \<longleftrightarrow> zbuf_ok (bn_key n) \<and> zbuf_fits (bn_key n) \<and> zbuf_ok (bn_val n) \<and> zbuf_fits (bn_val n)"

definition buffers_fit :: "zcdb_builder \<Rightarrow> bool" where
  "buffers_fit b \<longleftrightarrow> (\<forall>t. Some t \<in> set (table_vector b) \<longrightarrow> (\<forall>n \<in> set (concat (hash_node_vector t)). node_fits n))"

lemma memcpy_fits:
  assumes "zbuf_ok bf" "zbuf_fits bf" "length xs + 1 < 2 ^ 29"
  shows "zbuf_ok (zbuf_memcpy bf xs (int (length xs)))" "zbuf_fits (zbuf_memcpy bf xs (int (length xs)))"
  using fitting_writeI [OF zbuf_memcpy_writes [OF assms(1), of xs "int (length xs)"] assms(2)] assms(3)
  by (simp_all add: fitting_write_def writes_def)

lemma zbuf_fits_init: "n < 2 ^ 30 \<Longrightarrow> zbuf_fits (zbuf_init n)"
  by (auto simp: zbuf_fits_def zbuf_init_def Let_def)

lemma node_new_fits: "length key + 1 < 2 ^ 29 \<Longrightarrow> length val + 1 < 2 ^ 29 \<Longrightarrow> node_fits (node_new key val)"
  using memcpy_fits [OF zbuf_ok_init zbuf_fits_init, of "int (length key)" key]
    memcpy_fits [OF zbuf_ok_init zbuf_fits_init, of "int (length val)" val]
  by (simp add: node_fits_def node_new_def)

lemma chain_update_fits:
  assumes "\<forall>n \<in> set chain. node_fits n" "length key + 1 < 2 ^ 29" "length val + 1 < 2 ^ 29"
  shows "\<forall>n \<in> set (fst (chain_update key val chain)). node_fits n"
  using assms(1)
proof (induction chain)
  case (Cons n chain)
  have "node_fits (n\<lparr>bn_val := zbuf_memcpy (bn_val n) val (int (length val))\<rparr>)"
    using Cons.prems memcpy_fits [of "bn_val n" val] assms(3) by (simp add: node_fits_def)
  with Cons node_new_fits [OF assms(2,3)] show ?case by (auto simp: Let_def split: prod.splits)
qed (use node_new_fits [OF assms(2,3)] in simp)

lemma chain_insert_set: "chain_insert n klen chain = Some chain' \<Longrightarrow> set chain' = insert n (set chain)"
  by (induction n klen chain arbitrary: chain' rule: chain_insert.induct) (auto simp: Let_def split: if_splits)

lemma set_concat_update: "set (concat (xss[i := ys])) \<subseteq> set (concat xss) \<union> set ys"
  using set_update_subset_insert [of xss i ys] by auto

lemma rehash_set:
  "foldM (rehash_node klen hsize) ns hv = Some hv' \<Longrightarrow> \<forall>c \<in> set hv. \<forall>n \<in> set c. P n \<Longrightarrow> hsize = length hv \<Longrightarrow> 0 < hsize
   \<Longrightarrow> \<forall>n \<in> set ns. P n \<Longrightarrow> \<forall>n \<in> set (concat hv'). P n"
proof (induction ns arbitrary: hv)
  case (Cons n ns)
  let ?i = "unat (zhash_djb (take klen (zbuf_bytes (bn_key n)))) mod hsize"
  from Cons.prems(1) obtain c where c: "chain_insert n klen (hv ! ?i) = Some c" "foldM (rehash_node klen hsize) ns (hv[?i := c]) = Some hv'"
    by (auto simp: rehash_node_def [of klen hsize n hv] Let_def bind_eq_Some_conv)
  have "?i < length hv" using Cons.prems(3,4) by simp
  then have "hv ! ?i \<in> set hv" by simp
  then have "\<forall>n \<in> set c. P n" using chain_insert_set [OF c(1)] Cons.prems(2,5) by auto
  then have "\<forall>d \<in> set (hv[?i := c]). \<forall>n \<in> set d. P n"
    using Cons.prems(2) set_update_subset_insert [of hv ?i c] by blast
  from Cons.IH [OF c(2) this] Cons.prems(3-5) show ?case by simp
qed auto

lemma update_token_fits:
  assumes "builder_table_update_token t key val = Some t'" "\<forall>n \<in> set (concat (hash_node_vector t)). node_fits n"
    and "0 < hash_node_size t" "length (hash_node_vector t) = hash_node_size t"
    and "length key + 1 < 2 ^ 29" "length val + 1 < 2 ^ 29"
  shows "\<forall>n \<in> set (concat (hash_node_vector t')). node_fits n"
proof -
  let ?i = "unat (zhash_djb key) mod hash_node_size t"
  let ?c = "fst (chain_update key val (hash_node_vector t ! ?i))"
  have "?i < length (hash_node_vector t)" using assms(3,4) by simp
  then have "hash_node_vector t ! ?i \<in> set (hash_node_vector t)" by simp
  then have "\<forall>n \<in> set (hash_node_vector t ! ?i). node_fits n" using assms(2) by auto
  then have "\<forall>n \<in> set ?c. node_fits n" by (rule chain_update_fits [OF _ assms(5,6)])
  then have v: "\<forall>n \<in> set (concat ((hash_node_vector t)[?i := ?c])). node_fits n"
    using set_concat_update [of "hash_node_vector t" ?i ?c] assms(2) by blast
  have r: "\<forall>n \<in> set (concat hv'). node_fits n"
    if "foldM (rehash_node klen hsize) (concat ((hash_node_vector t)[?i := ?c])) (replicate hsize []) = Some hv'" "0 < hsize" for klen hsize hv'
    using that(2) by (intro rehash_set [OF that(1) _ _ _ v]) auto
  show ?thesis
    using assms(1) v r [of _ "hash_node_size t * 2 + 1"]
    by (auto simp: builder_table_update_token_def builder_table_reset_hash_node_size_def Let_def bind_eq_Some_conv
        split: prod.splits if_splits)
qed

lemma table_ok_size: "table_ok klen t \<Longrightarrow> 0 < hash_node_size t \<and> length (hash_node_vector t) = hash_node_size t"
  using length_greater_0_conv [of "hash_node_vector t"] by (simp add: table_ok_def buckets_ok_def)

lemma builder_update_fits:
  assumes "zcdb_builder_update b key (int (length key)) val (int (length val)) = Some b'" "builder_ok b" "buffers_fit b"
    and "length key \<le> zvar_zcdb_max_key_len" "length val + 1 < 2 ^ 29"
  shows "buffers_fit b'"
proof -
  let ?tv = "table_vector b" and ?k = "length key"
  let ?t = "case ?tv ! ?k of None \<Rightarrow> builder_table_create ?k | Some t \<Rightarrow> t"
  have k: "?k < length ?tv" using assms(2,4) by (simp add: builder_ok_def)
  then have mem: "?tv ! ?k \<in> set ?tv" by simp
  from assms(1,4) obtain t' where t': "builder_table_update_token ?t key val = Some t'" "table_vector b' = ?tv[?k := Some t']"
    by (auto simp: zcdb_builder_update_def Let_def bind_eq_Some_conv split: if_splits)
  have ok: "table_ok ?k ?t" using assms(2) k table_create_ok [of ?k] by (auto simp: builder_ok_def split: option.splits)
  have "\<forall>n \<in> set (concat (hash_node_vector ?t)). node_fits n"
  proof (cases "?tv ! ?k")
    case (Some t)
    then have "Some t \<in> set ?tv" using mem by simp
    then show ?thesis using Some assms(3) by (simp add: buffers_fit_def)
  qed (simp add: builder_table_create_def)
  moreover have "0 < hash_node_size ?t" "length (hash_node_vector ?t) = hash_node_size ?t"
    using table_ok_size [OF ok] by blast+
  moreover have "?k + 1 < 2 ^ 29" using assms(4) by (simp add: zvar_zcdb_max_key_len_def)
  ultimately have f: "\<forall>n \<in> set (concat (hash_node_vector t')). node_fits n"
    using update_token_fits [OF t'(1)] assms(5) by blast
  show ?thesis unfolding buffers_fit_def t'(2)
  proof (intro allI impI)
    fix u assume "Some u \<in> set (?tv[?k := Some t'])"
    then have "u = t' \<or> Some u \<in> set ?tv" using set_update_subset_insert [of ?tv ?k "Some t'"] by auto
    then show "\<forall>n \<in> set (concat (hash_node_vector u)). node_fits n" using f assms(3) unfolding buffers_fit_def by blast
  qed
qed

lemma updates_fit:
  assumes "cdb_updates kvs b = Some b'" "building b" "buffers_fit b"
    and "\<forall>(k, v) \<in> set kvs. length k \<le> zvar_zcdb_max_key_len \<and> length v + 1 < 2 ^ 29"
  shows "buffers_fit b'"
  using assms
proof (induction kvs arbitrary: b)
  case (Cons e kvs)
  obtain k v where e: "e = (k, v)" by (cases e)
  have kv: "length k \<le> zvar_zcdb_max_key_len" "length v + 1 < 2 ^ 29" using Cons.prems(4) e by simp_all
  from building_update [OF Cons.prems(2) kv(1), of v] obtain b1 where
    b1: "zcdb_builder_update b k (int (length k)) v (int (length v)) = Some b1" "building b1" by blast
  have "builder_ok b" using Cons.prems(2) by (simp add: building_def)
  from builder_update_fits [OF b1(1) this Cons.prems(3) kv] have "buffers_fit b1" .
  moreover have "cdb_updates kvs b1 = Some b'" using Cons.prems(1) b1(1) e by (simp add: cdb_updates_def)
  ultimately show ?case using Cons.IH [OF _ b1(2)] Cons.prems(4) by simp
qed (simp add: cdb_updates_def)

lemma create_fits: "buffers_fit zcdb_builder_create"
  by (simp add: buffers_fit_def zcdb_builder_create_def)

definition counted :: "zcdb_builder \<Rightarrow> bool" where
  "counted b \<longleftrightarrow> finite (dom (cdb_map b)) \<and> b_count b = int (card (dom (cdb_map b)))"

lemma counted_create: "counted zcdb_builder_create"
  unfolding counted_def builder_create_ok(2) by (simp add: zcdb_builder_create_def)

lemma counted_update:
  assumes "counted b" "cdb_map b' = (cdb_map b)(key \<mapsto> val)" "b_count b' = b_count b + (if cdb_map b key = None then 1 else 0)"
  shows "counted b'"
  using assms by (auto simp: counted_def card_insert_if)

lemma updates_ok:
  assumes "building b" "\<forall>(k, v) \<in> set kvs. length k \<le> zvar_zcdb_max_key_len"
  shows "\<exists>b'. cdb_updates kvs b = Some b' \<and> building b' \<and> cdb_map b' = cdb_map b ++ map_of (rev kvs)
    \<and> ((\<forall>(k, v) \<in> set kvs. k \<noteq> []) \<longrightarrow> table_vector b' ! 0 = table_vector b ! 0)
    \<and> ((\<forall>(k, v) \<in> set kvs. v \<noteq> [] \<and> length v < 2 ^ 31) \<longrightarrow> lengths_ok b \<longrightarrow> lengths_ok b')
    \<and> (counted b \<longrightarrow> counted b')"
  using assms
proof (induction kvs arbitrary: b)
  case Nil
  then show ?case by (simp add: cdb_updates_def)
next
  case (Cons e kvs)
  obtain k v where e: "e = (k, v)" by (cases e)
  have "length k \<le> zvar_zcdb_max_key_len" using Cons.prems(2) e by simp
  from building_update [OF Cons.prems(1) this, of v] obtain b1 where b1: "zcdb_builder_update b k (int (length k)) v (int (length v)) = Some b1"
    "building b1" "cdb_map b1 = (cdb_map b)(k \<mapsto> v)" "\<forall>i. i \<noteq> length k \<longrightarrow> table_vector b1 ! i = table_vector b ! i"
    "v \<noteq> [] \<longrightarrow> length v < 2 ^ 31 \<longrightarrow> lengths_ok b \<longrightarrow> lengths_ok b1"
    "b_count b1 = b_count b + (if cdb_map b k = None then 1 else 0)" by blast
  have "\<forall>(k, v) \<in> set kvs. length k \<le> zvar_zcdb_max_key_len" using Cons.prems(2) by simp
  from Cons.IH [OF b1(2) this] obtain b2 where b2: "cdb_updates kvs b1 = Some b2" "building b2"
    "cdb_map b2 = cdb_map b1 ++ map_of (rev kvs)"
    "(\<forall>(k, v) \<in> set kvs. k \<noteq> []) \<longrightarrow> table_vector b2 ! 0 = table_vector b1 ! 0"
    "(\<forall>(k, v) \<in> set kvs. v \<noteq> [] \<and> length v < 2 ^ 31) \<longrightarrow> lengths_ok b1 \<longrightarrow> lengths_ok b2"
    "counted b1 \<longrightarrow> counted b2" by blast
  have "cdb_updates (e # kvs) b = Some b2" using b1(1) b2(1) e by (simp add: cdb_updates_def)
  moreover have "cdb_map b2 = cdb_map b ++ map_of (rev (e # kvs))"
    unfolding b2(3) b1(3) by (simp add: e fun_eq_iff map_add_def split: option.splits)
  moreover have "counted b \<longrightarrow> counted b2" using counted_update [OF _ b1(3,6)] b2(6) by blast
  ultimately show ?case using b2(2,4,5) b1(4,5) e by auto
qed

text \<open>With values of one kind, the layout the builder chooses fits every value.\<close>

lemma ran_cdb_map:
  assumes "builder_ok b" "i \<le> max_klen b" "table_vector b ! i = Some t" "chain \<in> set (hash_node_vector t)" "n \<in> set chain"
  shows "nval n \<in> ran (cdb_map b)"
proof -
  have i: "i < length (table_vector b)" using assms(1,2) by (simp add: builder_ok_def)
  then have t: "buckets_ok i (hash_node_vector t)" using assms(1,3) by (simp add: builder_ok_def table_ok_def)
  have n: "n \<in> set (concat (hash_node_vector t))" using assms(4,5) by auto
  have k: "length (nkey n) = i" using bspec [OF buckets_nodes(1) [OF t] n] by (simp only: node_ok_def)
  have "distinct (map fst (map kv (concat (hash_node_vector t))))" using buckets_nodes(2) [OF t] by (simp add: comp_def)
  moreover have "(nkey n, nval n) \<in> set (map kv (concat (hash_node_vector t)))"
    using n by (metis kv_def imageI list.set_map)
  ultimately have "map_of (map kv (concat (hash_node_vector t))) (nkey n) = Some (nval n)" by (rule map_of_is_SomeI)
  then have "table_map t (nkey n) = Some (nval n)" using buckets_nodes(3) [OF t] by (simp only: table_map_def)
  then have "cdb_map b (nkey n) = Some (nval n)" using i k assms(3) by (simp add: cdb_map_def)
  then show ?thesis by (rule ranI)
qed

lemma ready:
  assumes "builder_ok b" "lengths_ok b" "length (cdb_layout b) < 2 ^ 30"
  shows "cdb_ready b"
proof -
  let ?vl = "compiled_val_length b"
  have "table_fits ?vl i t" if i: "i \<le> max_klen b" "table_vector b ! i = Some t" for i t
  proof -
    have "i < length (table_vector b)" using assms(1) i(1) by (simp add: builder_ok_def)
    then have t: "table_ok i t" using assms(1) i(2) by (simp add: builder_ok_def)
    have "nodes_ok i ?vl chain" if chain: "chain \<in> set (hash_node_vector t)" for chain
      unfolding nodes_ok_def
    proof
      fix n
      assume n: "n \<in> set chain"
      have "val_length_min b \<le> length (nval n) \<and> length (nval n) \<le> val_length_max b"
        using ran_cdb_map [OF assms(1) i chain n] assms(2) by (simp add: lengths_ok_def)
      moreover have "node_ok i n" using buckets_nodes(1) [of i "hash_node_vector t"] t chain n by (auto simp: table_ok_def)
      ultimately show "node_ok i n \<and> (?vl \<noteq> 536870912 \<longrightarrow> length (nval n) = ?vl)"
        by (auto simp: compiled_val_length_def split: if_splits)
    qed
    then show ?thesis using t by (simp add: table_fits_def table_ok_def)
  qed
  moreover have "?vl < 2 ^ 31" using assms(2) by (simp add: lengths_ok_def compiled_val_length_def)
  ultimately show ?thesis using assms(1,3) by (simp add: cdb_ready_def)
qed

lemma ready_compiles:
  assumes "fresh b" "cdb_ready b"
  shows "\<exists>b'. compiles b (cdb_layout b) b'"
proof (rule compile_layout [OF assms(1)])
  show "max_klen b < length (table_vector b)" using assms(2) by (simp add: cdb_ready_def builder_ok_def)
qed (use assms(2) in \<open>simp_all add: cdb_ready_def\<close>)

section \<open>The size of a file\<close>

text \<open>
  Four bytes for every key length up to the longest one, sixteen for every table, and for every entry the
  key, the value and at most twenty-one bytes more: the file is as small as what was put in.
\<close>

definition entry_weight :: "bytes \<times> bytes \<Rightarrow> nat" where
  "entry_weight e = length (fst e) + length (snd e) + 21"

definition cdb_bound :: "(bytes \<times> bytes) list \<Rightarrow> nat" where
  "cdb_bound kvs = 24 + 20 * (zvar_zcdb_max_key_len + 1) + sum_list (map entry_weight kvs)"

lemma length_place_le:
  assumes "\<And>o2 x. x \<in> set xs \<Longrightarrow> block_len blk o2 x \<le> w x"
  shows "length (snd (place blk o1 xs)) \<le> sum_list (map w xs)"
  using assms
proof (induction xs arbitrary: o1)
  case (Cons x xs)
  have x: "block_len blk o1 x \<le> w x" using Cons.prems by simp
  have "length (snd (place blk o2 xs)) \<le> sum_list (map w xs)" for o2 using Cons.IH Cons.prems by simp
  from add_mono [OF x this] show ?case
    by (auto simp: block_len_def split: option.splits prod.splits) (metis add_leD2 snd_conv)+
qed simp

lemma length_placed_le:
  assumes "length ks = length xs" "\<And>o2 x. x \<in> set xs \<Longrightarrow> block_len blk o2 x \<le> w x"
  shows "length (placed blk o1 ks xs) \<le> length (concat ks) + 4 * length xs + sum_list (map w xs)"
proof -
  let ?o = "o1 + length (concat ks) + 4 * length xs"
  have "length (slots ks (fst (place blk ?o xs))) = length (concat ks) + 4 * length xs" using assms(1) by (simp add: length_slots)
  moreover have "length (snd (place blk ?o xs)) \<le> sum_list (map w xs)" by (rule length_place_le [OF assms(2)])
  ultimately show ?thesis by (cases "place blk ?o xs") (simp add: placed_def)
qed

lemma length_cint_bytes: "n < 128 ^ Suc k \<Longrightarrow> length (cint_bytes n) \<le> Suc k"
proof (induction n arbitrary: k rule: cint_bytes.induct)
  case (1 n)
  show ?case
  proof (cases "n div 128 = 0")
    case False
    then have "128 \<le> n" by (simp add: div_eq_0_iff)
    then obtain j where k: "k = Suc j" using "1.prems" by (cases k) auto
    then have "n div 128 < 128 ^ Suc j" using "1.prems" by (simp add: less_mult_imp_div_less mult.commute)
    with "1.IH" [OF False this] k False show ?thesis by (subst cint_bytes.simps) simp
  next
    case True
    then show ?thesis by (subst cint_bytes.simps) simp
  qed
qed

definition node_weight :: "builder_node \<Rightarrow> nat" where
  "node_weight n = length (nkey n) + length (nval n) + 9"

lemma length_records:
  assumes "\<forall>n \<in> set chain. length (nval n) < 2 ^ 31"
  shows "length (records vl o1 chain) \<le> sum_list (map node_weight chain)"
proof (cases "vl = 536870912")
  case True
  have "block_len val_block o2 n \<le> length (nval n) + 5" if n: "n \<in> set chain" for o2 n
  proof -
    have "length (nval n) < 128 ^ Suc 4" using assms n by fastforce
    from length_cint_bytes [OF this] show ?thesis by (simp add: block_len_def val_block_def cint_text_def)
  qed
  from length_placed_le [of "map nkey chain" chain val_block _ o1, OF _ this]
  have "length (placed val_block o1 (map nkey chain) chain)
    \<le> length (concat (map nkey chain)) + 4 * length chain + sum_list (map (\<lambda>n. length (nval n) + 5) chain)" by simp
  also have "\<dots> = sum_list (map node_weight chain)" by (induction chain) (simp_all add: node_weight_def)
  finally show ?thesis using True by (simp add: records_def)
next
  case False
  have "length (concat (map (\<lambda>n. nkey n @ nval n) chain)) \<le> sum_list (map node_weight chain)"
    by (induction chain) (simp_all add: node_weight_def)
  then show ?thesis using False by (simp add: records_def)
qed

lemma sum_list_concat: "sum_list (map (\<lambda>xs. sum_list (map f xs)) xss) = sum_list (map f (concat xss))"
  by (induction xss) simp_all

lemma length_table_block:
  assumes "table_ok klen t" "\<forall>n \<in> set (concat (hash_node_vector t)). length (nval n) < 2 ^ 31"
  shows "block_len (table_block vl) o1 (Some t) \<le> 16 + sum_list (map (entry_weight \<circ> kv) (concat (hash_node_vector t)))"
proof -
  let ?v = "hash_node_vector t"
  let ?w = "\<lambda>chain. sum_list (map (\<lambda>n. node_weight n + 4) chain)"
  have "block_len (bucket_block vl) o2 chain \<le> ?w chain" if c: "chain \<in> set ?v" for o2 chain
  proof -
    have "length (records vl (o2 + 4) chain) \<le> sum_list (map node_weight chain)" using assms(2) c by (intro length_records) auto
    moreover have "chain \<noteq> [] \<Longrightarrow> 4 \<le> 4 * length chain" by (cases chain) simp_all
    ultimately show ?thesis by (auto simp: block_len_def bucket_block_def sum_list_addf sum_list_triv)
  qed
  from length_placed_le [of "offsets ?v" ?v "bucket_block vl" _ "o1 + 4", OF _ this]
  have "block_len (table_block vl) o1 (Some t) \<le> 4 + 4 * length ?v + sum_list (map ?w ?v)"
    by (simp add: block_len_def table_block_def)
  also have "sum_list (map ?w ?v) = sum_list (map (\<lambda>n. node_weight n + 4) (concat ?v))" by (rule sum_list_concat)
  also have "4 + 4 * length ?v \<le> 16 + 8 * length (concat ?v)" using assms(1) by (simp add: table_ok_def)
  also have "16 + 8 * length (concat ?v) + sum_list (map (\<lambda>n. node_weight n + 4) (concat ?v))
    = 16 + sum_list (map (entry_weight \<circ> kv) (concat ?v))"
    by (simp add: sum_list_addf sum_list_triv entry_weight_def node_weight_def comp_def)
  finally show ?thesis by simp
qed

definition table_entries :: "builder_table option \<Rightarrow> (bytes \<times> bytes) list" where
  "table_entries t = (case t of None \<Rightarrow> [] | Some t \<Rightarrow> map kv (concat (hash_node_vector t)))"

lemma table_entries_ok:
  assumes "builder_ok b" "i < length (table_vector b)"
  shows "distinct (table_entries (table_vector b ! i))"
    "(k, v) \<in> set (table_entries (table_vector b ! i)) \<Longrightarrow> length k = i \<and> cdb_map b k = Some v"
proof -
  show "distinct (table_entries (table_vector b ! i))"
  proof (cases "table_vector b ! i")
    case (Some t)
    then have "buckets_ok i (hash_node_vector t)" using assms by (simp add: builder_ok_def table_ok_def)
    from buckets_nodes(2) [OF this] have "distinct (map fst (map kv (concat (hash_node_vector t))))" by (simp add: comp_def)
    then show ?thesis using Some by (simp only: table_entries_def option.case distinct_map simp_thms)
  qed (simp add: table_entries_def)
  assume kv: "(k, v) \<in> set (table_entries (table_vector b ! i))"
  then obtain t where t: "table_vector b ! i = Some t" by (cases "table_vector b ! i") (simp_all add: table_entries_def)
  then have ok: "buckets_ok i (hash_node_vector t)" using assms by (simp add: builder_ok_def table_ok_def)
  have m: "(k, v) \<in> set (map kv (concat (hash_node_vector t)))" using kv t by (simp only: table_entries_def option.case)
  then have "length k = i" using buckets_nodes(1) [OF ok] by (auto simp: node_ok_def kv_def)
  moreover have "table_map t k = Some v"
    using buckets_nodes(2,3) [OF ok] m map_of_is_SomeI [of "map kv (concat (hash_node_vector t))" k v]
    by (simp add: table_map_def comp_def)
  ultimately show "length k = i \<and> cdb_map b k = Some v" using t assms(2) by (simp add: cdb_map_def)
qed

lemma sum_entries_le:
  assumes "builder_ok b" "n \<le> length (table_vector b)" "\<And>k v. cdb_map b k = Some v \<Longrightarrow> (k, v) \<in> set kvs"
  shows "(\<Sum>i<n. sum_list (map entry_weight (table_entries (table_vector b ! i)))) \<le> sum_list (map entry_weight kvs)"
proof -
  let ?S = "\<lambda>i. set (table_entries (table_vector b ! i))"
  note ok = table_entries_ok [OF assms(1)]
  have "(\<Sum>i<n. sum_list (map entry_weight (table_entries (table_vector b ! i)))) = (\<Sum>i<n. sum entry_weight (?S i))"
    using ok(1) assms(2) by (intro sum.cong) (simp_all add: sum_list_distinct_conv_sum_set)
  also have "\<dots> = sum entry_weight (\<Union>i<n. ?S i)"
  proof (rule sum.UNION_disjoint [symmetric])
    show "\<forall>i\<in>{..<n}. \<forall>j\<in>{..<n}. i \<noteq> j \<longrightarrow> ?S i \<inter> ?S j = {}"
    proof (intro ballI impI)
      fix i j
      assume "i \<in> {..<n}" "j \<in> {..<n}" "i \<noteq> j"
      with ok(2) [of i] ok(2) [of j] assms(2) show "?S i \<inter> ?S j = {}" by fastforce
    qed
  qed simp_all
  also have "\<dots> \<le> sum entry_weight (set kvs)"
  proof (rule sum_mono2)
    show "(\<Union>i<n. ?S i) \<subseteq> set kvs"
    proof clarify
      fix k v i
      assume "i < n" "(k, v) \<in> ?S i"
      with ok(2) [of i k v] assms(2,3) show "(k, v) \<in> set kvs" by simp
    qed
  qed simp_all
  also have "\<dots> \<le> sum_list (map entry_weight kvs)"
    by (induction kvs) (auto simp: sum.insert_if)
  finally show ?thesis .
qed

lemma length_layout:
  assumes "builder_ok b" "lengths_ok b" "\<And>k v. cdb_map b k = Some v \<Longrightarrow> (k, v) \<in> set kvs"
  shows "length (cdb_layout b) \<le> cdb_bound kvs"
proof -
  let ?n = "max_klen b + 1"
  let ?ts = "take ?n (table_vector b)"
  let ?w = "\<lambda>t. 16 + sum_list (map entry_weight (table_entries t))"
  have n: "?n \<le> length (table_vector b)" "?n \<le> zvar_zcdb_max_key_len + 1" using assms(1) by (simp_all add: builder_ok_def)
  have "block_len (table_block vl) o1 t \<le> ?w t" if t: "t \<in> set ?ts" for vl o1 t
  proof (cases t)
    case (Some t')
    from t obtain i where i: "i \<le> max_klen b" "table_vector b ! i = Some t'" "i < length (table_vector b)"
      using Some by (auto simp: in_set_conv_nth less_Suc_eq_le)
    have "length (nval n) < 2 ^ 31" if n: "n \<in> set (concat (hash_node_vector t'))" for n
    proof -
      obtain c where c: "c \<in> set (hash_node_vector t')" "n \<in> set c" using n by auto
      from ran_cdb_map [OF assms(1) i(1,2) c] assms(2) show ?thesis by (fastforce simp: lengths_ok_def)
    qed
    moreover have "table_ok i t'" using assms(1) i by (simp add: builder_ok_def)
    ultimately have "block_len (table_block vl) o1 (Some t') \<le> 16 + sum_list (map (entry_weight \<circ> kv) (concat (hash_node_vector t')))"
      by (intro length_table_block) simp_all
    then show ?thesis using Some by (simp add: table_entries_def)
  qed (simp add: block_len_def table_block_def)
  from length_placed_le [of "offsets ?ts" ?ts "table_block (compiled_val_length b)" ?w 24, OF _ this]
  have "length (cdb_layout b) \<le> 24 + 4 * length ?ts + sum_list (map ?w ?ts)"
    by (simp add: cdb_layout_def Let_def cstr_def)
  also have "sum_list (map ?w ?ts) = 16 * ?n + (\<Sum>i<?n. sum_list (map entry_weight (table_entries (table_vector b ! i))))"
    using n(1) by (simp add: sum_list_sum_nth atLeast0LessThan sum.distrib)
  also have "(\<Sum>i<?n. sum_list (map entry_weight (table_entries (table_vector b ! i)))) \<le> sum_list (map entry_weight kvs)"
    by (rule sum_entries_le [OF assms(1) n(1) assms(3)])
  finally show ?thesis using n by (simp add: cdb_bound_def)
qed

section \<open>Compiling what was put in\<close>

definition cdb_input :: "(bytes \<times> bytes) list \<Rightarrow> bool" where
  "cdb_input kvs \<longleftrightarrow> (\<forall>(k, v) \<in> set kvs. length k \<le> zvar_zcdb_max_key_len \<and> v \<noteq> [] \<and> length v + 1 < 2 ^ 29)
     \<and> cdb_bound kvs < 2 ^ 30"

lemma compile_updates:
  assumes "cdb_input kvs"
  shows "\<exists>b b' cdb. cdb_updates kvs zcdb_builder_create = Some b \<and> buffers_fit b \<and> cdb_map b = map_of (rev kvs) \<and> counted b \<and> cdb_ready b
    \<and> compiles b (cdb_layout b) b' \<and> zcdb_open_from_data (cdb_layout b) = Some (Some cdb)
    \<and> zcdb_open (Some (cdb_layout b)) = Some (Some cdb) \<and> opened b cdb \<and> zcdb_get_count cdb = int (card (fst ` set kvs))
    \<and> ((\<forall>(k, v) \<in> set kvs. k \<noteq> []) \<longrightarrow> table_vector b ! 0 = None)"
proof -
  have a: "\<forall>(k, v) \<in> set kvs. length k \<le> zvar_zcdb_max_key_len \<and> v \<noteq> [] \<and> length v + 1 < 2 ^ 29" "cdb_bound kvs < 2 ^ 30"
    using assms by (simp_all add: cdb_input_def)
  have c: "length kvs < 2 ^ 31"
  proof -
    have "length kvs \<le> sum_list (map entry_weight kvs)" by (induction kvs) (simp_all add: entry_weight_def)
    then show ?thesis using a(2) by (simp add: cdb_bound_def)
  qed
  have "\<forall>(k, v) \<in> set kvs. length k \<le> zvar_zcdb_max_key_len" using a(1) by auto
  from updates_ok [OF building_create(1) this] obtain b where
    u: "cdb_updates kvs zcdb_builder_create = Some b" "building b" "cdb_map b = cdb_map zcdb_builder_create ++ map_of (rev kvs)"
    "(\<forall>(k, v) \<in> set kvs. k \<noteq> []) \<longrightarrow> table_vector b ! 0 = table_vector zcdb_builder_create ! 0"
    "(\<forall>(k, v) \<in> set kvs. v \<noteq> [] \<and> length v < 2 ^ 31) \<longrightarrow> lengths_ok zcdb_builder_create \<longrightarrow> lengths_ok b"
    "counted zcdb_builder_create \<longrightarrow> counted b" by blast
  have "\<forall>(k, v) \<in> set kvs. v \<noteq> [] \<and> length v < 2 ^ 31" using a(1) by fastforce
  then have b: "cdb_updates kvs zcdb_builder_create = Some b" "building b" "cdb_map b = map_of (rev kvs)"
    "(\<forall>(k, v) \<in> set kvs. k \<noteq> []) \<longrightarrow> table_vector b ! 0 = None" "lengths_ok b" "counted b"
    using u building_create(2) counted_create builder_create_ok(2) by (simp_all add: zcdb_builder_create_def)
  have ok: "builder_ok b" "fresh b" using b(2) by (simp_all add: building_def)
  have "(k, v) \<in> set kvs" if "cdb_map b k = Some v" for k v using map_of_SomeD [of "rev kvs"] that b(3) by simp
  from length_layout [OF ok(1) b(5) this] a(2) have rd: "cdb_ready b" by (intro ready [OF ok(1) b(5)]) simp
  from ready_compiles [OF ok(2) rd] obtain b' where b': "compiles b (cdb_layout b) b'" by blast
  from open_layout [OF rd] obtain cdb where
    o: "zcdb_open_from_data (cdb_layout b) = Some (Some cdb)" "zcdb_open (Some (cdb_layout b)) = Some (Some cdb)" "opened b cdb" by blast
  have "dom (cdb_map b) = fst ` set kvs" using b(3) by (simp add: dom_map_of_conv_image_fst)
  then have n: "b_count b = int (card (fst ` set kvs))" using b(6) by (simp add: counted_def)
  have "card (fst ` set kvs) < 2 ^ 31" using c card_length [of "map fst kvs"] by simp
  then have "zcdb_get_count cdb = int (card (fst ` set kvs))"
    using o(3) n sint_of_nat_small by (simp add: opened_def zcdb_get_count_def)
  moreover have "buffers_fit b" using a(1) by (intro updates_fit [OF b(1) building_create(1) create_fits]) auto
  ultimately show ?thesis using b b' o rd by blast
qed

section \<open>Small databases\<close>

text \<open>The builder after one update of a new one.\<close>

definition one_table :: "bytes \<Rightarrow> bytes \<Rightarrow> builder_table" where
  "one_table key val =
     \<lparr>hash_node_vector = (replicate 3 [])[bucket 3 key := [node_new key val]], hash_node_size = 3, bt_count = 1,
      bt_klen = length key\<rparr>"

definition one_entry :: "bytes \<Rightarrow> bytes \<Rightarrow> zcdb_builder" where
  "one_entry key val = zcdb_builder_create\<lparr>max_klen := length key,
     table_vector := (table_vector zcdb_builder_create)[length key := Some (one_table key val)],
     val_length_min := length val, val_length_max := length val, b_count := 1\<rparr>"

lemma one_update:
  assumes "length key \<le> zvar_zcdb_max_key_len"
  shows "cdb_updates [(key, val)] zcdb_builder_create = Some (one_entry key val)"
proof -
  have "bucket 3 key < 3" by (simp add: bucket_def)
  then have r: "(replicate 3 [] :: builder_node list list) ! bucket 3 key = []" by (rule nth_replicate)
  have "length key < zvar_zcdb_max_key_len + 1" using assms by simp
  then have n: "replicate (zvar_zcdb_max_key_len + 1) None ! length key = None" by (rule nth_replicate)
  have t: "builder_table_update_token (builder_table_create (length key)) key val = Some (one_table key val)"
    using r by (simp add: builder_table_update_token_def builder_table_create_def one_table_def bucket_def Let_def del: replicate.simps)
  have c: "bt_count (one_table k v) = 1" for k v by (simp add: one_table_def)
  show ?thesis using assms n t c
    by (simp add: cdb_updates_def zcdb_builder_update_def zcdb_builder_create_def one_entry_def Let_def builder_table_create_def
        del: replicate.simps add_2_eq_Suc' One_nat_def)
qed

lemma one_entry_ok:
  assumes "length key \<le> zvar_zcdb_max_key_len" "val \<noteq> []" "length val < 2 ^ 29"
  shows "building (one_entry key val)" "cdb_ready (one_entry key val)" "cdb_map (one_entry key val) = [key \<mapsto> val]"
proof -
  have "\<forall>(k, v) \<in> set [(key, val)]. length k \<le> zvar_zcdb_max_key_len" using assms(1) by simp
  from updates_ok [OF building_create(1) this] one_update [OF assms(1), of val]
  have u: "building (one_entry key val)" "cdb_map (one_entry key val) = [key \<mapsto> val]" "lengths_ok (one_entry key val)"
    using assms(2,3) building_create(2) builder_create_ok(2) by auto
  have ok: "builder_ok (one_entry key val)" using u(1) by (simp add: building_def)
  have "\<And>k v. cdb_map (one_entry key val) k = Some v \<Longrightarrow> (k, v) \<in> set [(key, val)]" unfolding u(2) by (simp split: if_splits)
  from length_layout [OF ok u(3) this] have "length (cdb_layout (one_entry key val)) \<le> cdb_bound [(key, val)]" .
  also have "\<dots> < 2 ^ 30" using assms(1,3) by (simp add: cdb_bound_def entry_weight_def zvar_zcdb_max_key_len_def)
  finally have "cdb_ready (one_entry key val)" by (rule ready [OF ok u(3)])
  with u show "building (one_entry key val)" "cdb_ready (one_entry key val)" "cdb_map (one_entry key val) = [key \<mapsto> val]"
    by simp_all
qed

section \<open>Properties\<close>

text \<open>C11: zcdb_builder_create makes a well-formed builder of the empty map, and zcdb_builder_update keeps it
  well-formed: every table holds keys of its own length only, every bucket holds the nodes whose hash belongs there
  in increasing order of the keys and without duplicates, across all growth of the hash tables, and the counters are
  exact. The update puts the value under its key, replaces an older one, and touches no table of another length.\<close>

theorem zcdb_builder_invariant:
  assumes "building b" "length key \<le> zvar_zcdb_max_key_len"
  shows "building zcdb_builder_create \<and> cdb_map zcdb_builder_create = Map.empty
    \<and> (\<exists>b'. zcdb_builder_update b key (int (length key)) val (int (length val)) = Some b' \<and> building b'
        \<and> cdb_map b' = (cdb_map b)(key \<mapsto> val) \<and> b_count b' = b_count b + (if cdb_map b key = None then 1 else 0)
        \<and> (\<forall>i. i \<noteq> length key \<longrightarrow> table_vector b' ! i = table_vector b ! i))"
  using building_create(1) builder_create_ok(2) building_update [OF assms, of val] by blast

theorem zcdb_builder_invariant_witness:
  "building (one_entry [97] [49]) \<and> length [98 :: byte] \<le> zvar_zcdb_max_key_len
   \<and> (\<exists>b'. zcdb_builder_update (one_entry [97] [49]) [98] 1 [50, 51] 2 = Some b' \<and> building b' \<and> cdb_map b' = [[97] \<mapsto> [49], [98] \<mapsto> [50, 51]])"
proof -
  have "length [97 :: byte] \<le> zvar_zcdb_max_key_len" "length [49 :: byte] < 2 ^ 29" by (simp_all add: zvar_zcdb_max_key_len_def)
  from one_entry_ok [OF this(1) _ this(2)]
  have o: "building (one_entry [97] [49])" "cdb_map (one_entry [97] [49]) = [[97] \<mapsto> [49]]" by simp_all
  moreover have k: "length [98 :: byte] \<le> zvar_zcdb_max_key_len" by (simp add: zvar_zcdb_max_key_len_def)
  ultimately show ?thesis using zcdb_builder_invariant [OF o(1) k, of "[50, 51]"] by auto
qed

text \<open>C3: What was put into a constant database is what is found in it: after any sequence of updates with
  non-empty keys and values, each value below half a gigabyte and all together below one, no buffer of the builder
  overflows its 31-bit fields, zcdb_builder_compile succeeds, the bytes it made are accepted by zcdb_open_from_data and zcdb_open, zcdb_get_count is the number of different keys, and
  zcdb_find finds for every key whatsoever the last value stored under it and reports every other key as absent,
  never reading outside the file.\<close>

theorem zcdb_lookup:
  assumes "cdb_input kvs" "\<forall>(k, v) \<in> set kvs. k \<noteq> []"
  shows "\<exists>b b' d cdb. cdb_updates kvs zcdb_builder_create = Some b \<and> buffers_fit b \<and> zcdb_builder_compile b = Some (b', 1)
    \<and> take (zcdb_builder_get_compiled_len b') (zcdb_builder_get_compiled_data b') = map Some d
    \<and> zcdb_open_from_data d = Some (Some cdb) \<and> zcdb_open (Some d) = Some (Some cdb)
    \<and> zcdb_get_count cdb = int (card (fst ` set kvs))
    \<and> (\<forall>key. \<exists>r. zcdb_find cdb key (int (length key)) = Some r \<and> answers d r (map_of (rev kvs) key))"
proof -
  from compile_updates [OF assms(1)] obtain b b' cdb where
    f: "buffers_fit b" and b: "cdb_updates kvs zcdb_builder_create = Some b" "cdb_map b = map_of (rev kvs)" "cdb_ready b"
    "compiles b (cdb_layout b) b'" "zcdb_open_from_data (cdb_layout b) = Some (Some cdb)" "zcdb_open (Some (cdb_layout b)) = Some (Some cdb)"
    "opened b cdb" "zcdb_get_count cdb = int (card (fst ` set kvs))" "(\<forall>(k, v) \<in> set kvs. k \<noteq> []) \<longrightarrow> table_vector b ! 0 = None" by blast
  note ne = assms(2)
  have "\<exists>r. zcdb_find cdb key (int (length key)) = Some r \<and> answers (cdb_layout b) r (map_of (rev kvs) key)" for key
  proof -
    have "[] \<notin> fst ` set (rev kvs)" using ne by force
    then have "map_of (rev kvs) [] = None" by (metis map_of_eq_None_iff)
    then have "(if key = [] then None else cdb_map b key) = map_of (rev kvs) key" by (simp add: b(2))
    with find_layout [OF b(3,7), of key] b(9) ne show ?thesis by simp
  qed
  then show ?thesis using f b(1,4,5,6,8) unfolding compiles_def by blast
qed

theorem zcdb_lookup_witness:
  "\<exists>b b' d cdb. cdb_updates [([97], [49]), ([98, 99], [50, 51]), ([97], [52])] zcdb_builder_create = Some b
    \<and> zcdb_builder_compile b = Some (b', 1) \<and> zcdb_open_from_data d = Some (Some cdb) \<and> zcdb_get_count cdb = 2
    \<and> (\<exists>r. zcdb_find cdb [97] 1 = Some r \<and> answers d r (Some [52])) \<and> zcdb_find cdb [98] 1 = Some None"
proof -
  let ?kvs = "[([97], [49]), ([98, 99], [50, 51]), ([97], [52])] :: (bytes \<times> bytes) list"
  have a: "cdb_input ?kvs" "\<forall>(k, v) \<in> set ?kvs. k \<noteq> []"
    by (simp_all add: cdb_input_def cdb_bound_def entry_weight_def zvar_zcdb_max_key_len_def)
  from zcdb_lookup [OF a] obtain b b' d cdb where
    l: "cdb_updates ?kvs zcdb_builder_create = Some b" "zcdb_builder_compile b = Some (b', 1)"
    "zcdb_open_from_data d = Some (Some cdb)" "zcdb_get_count cdb = int (card (fst ` set ?kvs))"
    "\<And>key. \<exists>r. zcdb_find cdb key (int (length key)) = Some r \<and> answers d r (map_of (rev ?kvs) key)" by blast
  have "fst ` set ?kvs = {[97], [98, 99]}" by auto
  then have "card (fst ` set ?kvs) = 2" by simp
  moreover have "\<exists>r. zcdb_find cdb [97] 1 = Some r \<and> answers d r (Some [52])" using l(5) [of "[97]"] by simp
  moreover have "zcdb_find cdb [98] 1 = Some None" using l(5) [of "[98]"] by (simp add: answers_def)
  ultimately show ?thesis using l(1-4) by (metis of_nat_numeral)
qed

text \<open>An entry with the empty key is stored and lost: the builder files it under the hash of the empty string,
  5381, in bucket 2 of its table of three, while zcdb_find looks into bucket 0 for an empty key; so the database that
  holds just this entry counts one entry and reports its key as absent.\<close>

theorem zcdb_empty_key_lost:
  assumes "val \<noteq> []" "length val < 2 ^ 29"
  shows "\<exists>b b' d cdb. zcdb_builder_update zcdb_builder_create [] 0 val (int (length val)) = Some b \<and> cdb_map b [] = Some val
    \<and> zcdb_builder_compile b = Some (b', 1)
    \<and> take (zcdb_builder_get_compiled_len b') (zcdb_builder_get_compiled_data b') = map Some d
    \<and> zcdb_open_from_data d = Some (Some cdb) \<and> zcdb_get_count cdb = 1 \<and> zcdb_find cdb [] 0 = Some None"
proof -
  let ?b = "one_entry [] val"
  have z: "length ([] :: bytes) \<le> zvar_zcdb_max_key_len" by simp
  note o = one_entry_ok [OF z assms]
  have u: "zcdb_builder_update zcdb_builder_create [] 0 val (int (length val)) = Some ?b"
    using one_update [OF z, of val] by (simp add: cdb_updates_def split: bind_splits)
  have f: "fresh ?b" using o(1) by (simp add: building_def)
  from ready_compiles [OF f o(2)] obtain b' where b': "compiles ?b (cdb_layout ?b) b'" by blast
  from open_layout [OF o(2)] obtain cdb where c: "zcdb_open_from_data (cdb_layout ?b) = Some (Some cdb)" "opened ?b cdb" by blast
  have "bucket 3 [] = 2" by (simp add: bucket_def zhash_djb_def zhash_djb_with_initial_def)
  then have "hash_node_vector t ! 0 = []" if "table_vector ?b ! 0 = Some t" for t
    using that by (simp add: one_entry_def one_table_def zcdb_builder_create_def numeral_3_eq_3) auto
  with find_layout [OF o(2) c(2), of "[]"] have "zcdb_find cdb [] 0 = Some None" by (simp add: answers_def)
  moreover have "zcdb_get_count cdb = 1" using c(2) by (simp add: opened_def zcdb_get_count_def one_entry_def)
  moreover have "cdb_map ?b [] = Some val" by (simp add: o(3))
  ultimately show ?thesis using u b' c(1) unfolding compiles_def by blast
qed

end
