(* ===== verification/CdbWalk.thy ===== *)
theory CdbWalk
  imports CdbProps
begin

text \<open>
  The walker of \<open>src/cdb/reader.c\<close>: an iterator that keeps its place in the three nested loops over key
  lengths, buckets and nodes. \<open>None\<close> is a read outside of the file or a walk that does not return.
\<close>

section \<open>The walker\<close>

record zcdb_walker =
  w_klen :: int
  w_hash_vector_data :: int
  w_hash_vector_size :: int
  w_hash_vector_i :: int
  w_ndata :: int
  w_ncount :: int
  w_ni :: int

definition zcdb_walker_create :: zcdb_walker where
  "zcdb_walker_create =
     \<lparr>w_klen = - 1, w_hash_vector_data = 0, w_hash_vector_size = 0, w_hash_vector_i = 0, w_ndata = 0, w_ncount = 0, w_ni = 0\<rparr>"

definition zcdb_walker_reset :: "zcdb_walker \<Rightarrow> zcdb_walker" where
  "zcdb_walker_reset w = zcdb_walker_create"

text \<open>The position and length of the key, and the value.\<close>

type_synonym cdb_entry = "(int \<times> int) \<times> int option \<times> int"

definition zcdb_walker_get_next_ok :: "zcdb \<Rightarrow> int \<Rightarrow> int \<Rightarrow> int \<Rightarrow> cdb_entry option" where
  "zcdb_walker_get_next_ok cdb data0 sn key_length = do {
     let data = data0 + (key_length + (if c_val_length cdb = 536870912 then 4 else c_val_length cdb)) * sn;
     v \<leftarrow> zcdb_value cdb (data + key_length);
     Some ((data, key_length), v) }"

definition walk_nodes :: "zcdb \<Rightarrow> zcdb_walker \<Rightarrow> int \<Rightarrow> (zcdb_walker \<times> cdb_entry option) option" where
  "walk_nodes cdb w offset = do {
     w \<leftarrow> (if w_ni w = - 1 then do {
             ncount \<leftarrow> rd4 (c_data cdb) offset;
             Some (w\<lparr>w_ndata := offset + 4, w_ncount := ncount, w_ni := 0\<rparr>) }
           else Some w);
     (if w_ni w < w_ncount w then do {
        e \<leftarrow> zcdb_walker_get_next_ok cdb (w_ndata w) (w_ni w) (w_klen w);
        Some (w\<lparr>w_ni := w_ni w + 1\<rparr>, Some e) }
      else Some (w\<lparr>w_ni := - 1\<rparr>, None)) }"

partial_function (option) walk_buckets :: "zcdb \<Rightarrow> zcdb_walker \<Rightarrow> (zcdb_walker \<times> cdb_entry option) option" where
  "walk_buckets cdb w =
     (if w_hash_vector_i w < w_hash_vector_size w then do {
        offset \<leftarrow> rd4 (c_data cdb) (w_hash_vector_data w + 4 * w_hash_vector_i w);
        if offset = 0 then walk_buckets cdb (w\<lparr>w_hash_vector_i := w_hash_vector_i w + 1\<rparr>)
        else do {
          (w1, e) \<leftarrow> walk_nodes cdb w offset;
          (case e of Some _ \<Rightarrow> Some (w1, e) | None \<Rightarrow> walk_buckets cdb (w1\<lparr>w_hash_vector_i := w_hash_vector_i w1 + 1\<rparr>)) } }
      else Some (w, None))"

partial_function (option) walk_tables :: "zcdb \<Rightarrow> zcdb_walker \<Rightarrow> (zcdb_walker \<times> cdb_entry option) option" where
  "walk_tables cdb w =
     (if w_klen w \<le> max_key_length cdb then do {
        offset \<leftarrow> rd4 (c_data cdb) (24 + 4 * w_klen w);
        if offset = 0 then walk_tables cdb (w\<lparr>w_klen := w_klen w + 1\<rparr>)
        else do {
          w1 \<leftarrow> (if w_hash_vector_i w = - 1 then do {
                   hsize \<leftarrow> rd4 (c_data cdb) offset;
                   Some (w\<lparr>w_hash_vector_data := offset + 4, w_hash_vector_size := hsize, w_hash_vector_i := 0, w_ni := - 1\<rparr>) }
                 else Some w);
          (w2, e) \<leftarrow> walk_buckets cdb w1;
          (case e of
             Some _ \<Rightarrow> Some (w2, e)
           | None \<Rightarrow> walk_tables cdb (w2\<lparr>w_hash_vector_i := - 1, w_klen := w_klen w2 + 1\<rparr>)) } }
      else Some (w\<lparr>w_klen := - 2\<rparr>, None))"

definition zcdb_walker_walk :: "zcdb \<Rightarrow> zcdb_walker \<Rightarrow> (zcdb_walker \<times> cdb_entry option) option" where
  "zcdb_walker_walk cdb w =
     (if w_klen w = - 2 then Some (w, None)
      else walk_tables cdb (if w_klen w = - 1 then w\<lparr>w_klen := 0, w_hash_vector_i := - 1, w_ni := - 1\<rparr> else w))"

section \<open>The file as the walker reads it\<close>

definition entry_bytes :: "bytes \<Rightarrow> cdb_entry \<Rightarrow> bytes \<times> bytes" where
  "entry_bytes d e = (take (nat (snd (fst e))) (drop (nat (fst (fst e))) d), value_bytes d (snd e))"

lemma table_at:
  assumes "cdb_ready b" "i \<le> max_klen b"
  shows "\<exists>p. rd4 (cdb_layout b) (24 + 4 * int i) = Some (int p)
    \<and> (case table_vector b ! i of None \<Rightarrow> p = 0
       | Some t \<Rightarrow> 0 < p \<and> (\<exists>C T. cdb_layout b = C @ the (table_block (compiled_val_length b) p (Some t)) @ T \<and> length C = p))"
proof -
  let ?vl = "compiled_val_length b"
  let ?ts = "take (max_klen b + 1) (table_vector b)"
  let ?d = "cdb_layout b"
  have r: "builder_ok b" "length ?d < 2 ^ 30" using assms(1) by (simp_all add: cdb_ready_def)
  then have k: "i < length ?ts" "?ts ! i = table_vector b ! i" using assms(2) by (simp_all add: builder_ok_def)
  obtain H where H: "?d = H @ placed (table_block ?vl) (length H) (offsets ?ts) ?ts @ []" "length H = 24"
  proof -
    have "length (cstr ''ZCDB'' @ cstr ''0001'' @ zint_pack x @ zint_pack y @ zint_pack z @ zint_pack u) = 24" for x y z u
      by (simp add: cstr_def)
    then show thesis using that by (simp add: cdb_layout_def Let_def)
  qed
  have K0: "\<forall>x \<in> set (offsets xs). length x = 0" for xs :: "'x list" using offsets_simps(3) by auto
  have un: "\<And>o2 o3 x. table_block ?vl o2 x = None \<longleftrightarrow> table_block ?vl o3 x = None" by (simp add: table_block_def)
  obtain p B S where B: "?d = B @ zint_pack (of_nat p) @ S" "length B = 24 + 4 * i"
    "case table_block ?vl p (?ts ! i) of None \<Rightarrow> p = 0
      | Some bl \<Rightarrow> length H + 4 \<le> p \<and> (\<exists>C T. ?d = C @ bl @ T \<and> length C = p)"
    using placed_nth [OF H(1) offsets_simps(1) K0 k(1) un] k(1) H(2) by auto
  have p: "p < 2 ^ 30" using B(3) r(2) by (auto split: option.splits)
  have "rd4 ?d (24 + 4 * int i) = Some (int p)" using rd4_pack(1) [OF B(1)] B(2) p by simp
  moreover have "case table_vector b ! i of None \<Rightarrow> p = 0
      | Some t \<Rightarrow> 0 < p \<and> (\<exists>C T. ?d = C @ the (table_block ?vl p (Some t)) @ T \<and> length C = p)"
    using B(3) k(2) H(2) by (auto simp: table_block_def split: option.splits)
  ultimately show ?thesis by blast
qed

lemma short_chain:
  fixes cdb :: zcdb
  assumes "d = A @ records vl (length A) chain @ R" "chain_ok klen chain" "nodes_ok klen vl chain" "length d < 2 ^ 30"
    "c_data cdb = d" "c_val_length cdb = int vl"
  shows "length chain < 2 ^ 31"
proof (rule ccontr)
  assume big: "\<not> length chain < 2 ^ 31"
  show False
  proof (cases "klen = 0")
    case True
    have "(1 :: nat) < 2 ^ 31" by simp
    also have "\<dots> \<le> length chain" using big by (simp only: not_less)
    finally have two: "0 < length chain" "1 < length chain" by linarith+
    have "nkey (chain ! 0) = []" "nkey (chain ! 1) = []"
      using assms(2) True nth_mem [OF two(1)] nth_mem [OF two(2)] by (simp_all add: chain_ok_def node_ok_def)
    moreover have "nkey (chain ! 0) < nkey (chain ! 1)"
      using assms(2) two sorted_wrt_nth_less [of "(<)" "map nkey chain" 0 1] by (simp add: chain_ok_def nth_map [OF two(1)])
    ultimately show False by simp
  next
    case False
    obtain B S where "d = B @ nkey (chain ! (2 ^ 31 - 1)) @ S" "length B = length A + step_of vl klen * (2 ^ 31 - 1)"
      using record_nth [OF assms(1,3) _ assms(4-6), of "2 ^ 31 - 1"] big by auto
    moreover have "1 * (2 ^ 31 - 1) \<le> step_of vl klen * (2 ^ 31 - 1)" using False by (intro mult_le_mono1) (simp add: step_of_def)
    ultimately show False using assms(4) by simp
  qed
qed

text \<open>What the walker finds at bucket \<open>j\<close> of a table.\<close>

definition bucket_at :: "zcdb \<Rightarrow> nat \<Rightarrow> nat \<Rightarrow> nat \<Rightarrow> builder_node list \<Rightarrow> nat \<Rightarrow> bool" where
  "bucket_at cdb klen p j chain q \<longleftrightarrow> rd4 (c_data cdb) (int p + 4 + 4 * int j) = Some (int q)
     \<and> (if chain = [] then q = 0
        else 0 < q \<and> rd4 (c_data cdb) (int q) = Some (int (length chain))
          \<and> (\<forall>m < length chain. \<exists>e. zcdb_walker_get_next_ok cdb (int q + 4) (int m) (int klen) = Some e
               \<and> entry_bytes (c_data cdb) e = kv (chain ! m)))"

lemma buckets_at:
  assumes "d = C @ the (table_block vl p (Some t)) @ T" "length C = p"
    and "table_ok klen t" "table_fits vl klen t" "length d < 2 ^ 30" "c_data cdb = d" "c_val_length cdb = int vl"
  shows "rd4 d (int p) = Some (int (hash_node_size t))"
    "j < hash_node_size t \<Longrightarrow> \<exists>q. bucket_at cdb klen p j (hash_node_vector t ! j) q"
proof -
  let ?v = "hash_node_vector t"
  let ?n = "hash_node_size t"
  let ?A = "C @ zint_pack (of_nat ?n)"
  have t: "length ?v = ?n" "buckets_ok klen ?v" using assms(3) by (simp_all add: table_ok_def)
  have d: "d = ?A @ placed (bucket_block vl) (length ?A) (offsets ?v) ?v @ T" using assms(1,2) by (simp add: table_block_def)
  have "4 * ?n \<le> length (placed (bucket_block vl) (length ?A) (offsets ?v) ?v)"
    using length_placed_ge [of "offsets ?v" ?v "bucket_block vl" "length ?A"] t(1) by simp
  also have "\<dots> \<le> length d" unfolding d by simp
  finally have n: "?n < 2 ^ 31" using assms(5) by simp
  show "rd4 d (int p) = Some (int ?n)" using rd4_pack(1) [of d C ?n _ "int p"] d assms(2) n by simp
  assume j: "j < ?n"
  then have i: "j < length ?v" using t(1) by simp
  have ch: "chain_ok klen (?v ! j)" "nodes_ok klen vl (?v ! j)"
    using t i assms(4) by (simp_all add: buckets_ok_def table_fits_def)
  have K0: "\<forall>x \<in> set (offsets ?v). length x = 0" using offsets_simps(3) by auto
  have un: "\<And>o2 o3 x. bucket_block vl o2 x = None \<longleftrightarrow> bucket_block vl o3 x = None" by (simp add: bucket_block_def)
  obtain q B S where B: "d = B @ zint_pack (of_nat q) @ S" "length B = length ?A + 4 * j"
    "case bucket_block vl q (?v ! j) of None \<Rightarrow> q = 0
      | Some bl \<Rightarrow> length ?A + 4 \<le> q \<and> (\<exists>C T. d = C @ bl @ T \<and> length C = q)"
    using placed_nth [OF d offsets_simps(1) K0 i un] i by auto
  have q: "q < 2 ^ 31" using B(3) assms(5) by (auto split: option.splits)
  have rq: "rd4 d (int p + 4 + 4 * int j) = Some (int q)" using rd4_pack(1) [OF B(1) _ q] B(2) assms(2) by simp
  show "\<exists>q. bucket_at cdb klen p j (?v ! j) q"
  proof (cases "?v ! j = []")
    case True
    then have "q = 0" using B(3) by (simp add: bucket_block_def)
    then show ?thesis using rq True assms(6) by (auto simp: bucket_at_def)
  next
    case False
    with B(3) obtain C' T' where C': "d = C' @ zint_pack (of_nat (length (?v ! j))) @ records vl (length C' + 4) (?v ! j) @ T'"
      "length C' = q" "0 < q" by (auto simp: bucket_block_def)
    let ?A' = "C' @ zint_pack (of_nat (length (?v ! j)))"
    have d': "d = ?A' @ records vl (length ?A') (?v ! j) @ T'" using C'(1) by simp
    have "length (?v ! j) < 2 ^ 31" by (rule short_chain [OF d' ch assms(5-7)])
    then have rn: "rd4 d (int q) = Some (int (length (?v ! j)))" using rd4_pack(1) [of d C' "length (?v ! j)"] C'(1,2) by simp
    have "\<exists>e. zcdb_walker_get_next_ok cdb (int q + 4) (int m) (int klen) = Some e \<and> entry_bytes d e = kv (?v ! j ! m)"
      if m: "m < length (?v ! j)" for m
    proof -
      from record_nth [OF d' ch(2) m assms(5-7)] obtain B' S' r where
        r: "d = B' @ nkey (?v ! j ! m) @ S'" "length B' = length ?A' + step_of vl klen * m"
        "zcdb_value cdb (int (length B' + klen)) = Some r" "answers d (Some r) (Some (nval (?v ! j ! m)))" by blast
      have l: "length (nkey (?v ! j ! m)) = klen" using ch(2) m by (simp add: nodes_ok_def node_ok_def)
      have pos: "int q + 4 + (int klen + (if c_val_length cdb = 536870912 then 4 else c_val_length cdb)) * int m = int (length B')"
        using r(2) C'(2) assms(7) by (simp add: step_of_def)
      have v: "value_bytes d r = nval (?v ! j ! m)" using r(4) by (cases r) (simp add: answers_def)
      have "take klen (drop (length B') d) = nkey (?v ! j ! m)" unfolding r(1) using l by simp
      moreover have "zcdb_walker_get_next_ok cdb (int q + 4) (int m) (int klen) = Some ((int (length B'), int klen), r)"
        using r(3) unfolding zcdb_walker_get_next_ok_def Let_def pos by simp
      ultimately show ?thesis using v by (simp add: entry_bytes_def kv_def)
    qed
    then show ?thesis using rq False C'(3) rn assms(6) by (auto simp: bucket_at_def)
  qed
qed

section \<open>Walking\<close>

definition in_table :: "zcdb_builder \<Rightarrow> zcdb \<Rightarrow> nat \<Rightarrow> builder_table \<Rightarrow> nat \<Rightarrow> bool" where
  "in_table b cdb i t p \<longleftrightarrow> i \<le> max_klen b \<and> table_vector b ! i = Some t
     \<and> rd4 (c_data cdb) (24 + 4 * int i) = Some (int p) \<and> 0 < p \<and> rd4 (c_data cdb) (int p) = Some (int (hash_node_size t))
     \<and> length (hash_node_vector t) = hash_node_size t
     \<and> (\<forall>j < hash_node_size t. \<exists>q. bucket_at cdb i p j (hash_node_vector t ! j) q)"

lemma in_table_ex:
  assumes "cdb_ready b" "opened b cdb" "i \<le> max_klen b" "table_vector b ! i = Some t"
  shows "\<exists>p. in_table b cdb i t p"
proof -
  let ?d = "cdb_layout b"
  have o: "c_data cdb = ?d" "c_val_length cdb = int (compiled_val_length b)" using assms(2) by (simp_all add: opened_def)
  have r: "builder_ok b" "length ?d < 2 ^ 30" using assms(1) by (simp_all add: cdb_ready_def)
  have "i < length (table_vector b)" using r(1) assms(3) by (simp add: builder_ok_def)
  then have t: "table_ok i t" "table_fits (compiled_val_length b) i t"
    using r(1) assms(1,3,4) unfolding builder_ok_def cdb_ready_def by auto
  from table_at [OF assms(1,3)] assms(4) obtain p C T where p: "rd4 ?d (24 + 4 * int i) = Some (int p)" "0 < p"
    "?d = C @ the (table_block (compiled_val_length b) p (Some t)) @ T" "length C = p" by auto
  note b = buckets_at [OF p(3,4) t r(2) o]
  show ?thesis using p(1,2) b assms(3,4) t(1) o(1) by (auto simp: in_table_def table_ok_def)
qed

text \<open>The walker before bucket \<open>j\<close>, and behind the first \<open>m\<close> nodes of bucket \<open>j\<close>.\<close>

definition at_bucket :: "zcdb_walker \<Rightarrow> nat \<Rightarrow> builder_table \<Rightarrow> nat \<Rightarrow> nat \<Rightarrow> bool" where
  "at_bucket w i t p j \<longleftrightarrow> w_klen w = int i \<and> w_hash_vector_data w = int p + 4 \<and> w_hash_vector_size w = int (hash_node_size t)
     \<and> w_hash_vector_i w = int j \<and> w_ni w = - 1"

definition at_node :: "zcdb \<Rightarrow> zcdb_walker \<Rightarrow> nat \<Rightarrow> builder_table \<Rightarrow> nat \<Rightarrow> nat \<Rightarrow> nat \<Rightarrow> nat \<Rightarrow> bool" where
  "at_node cdb w i t p j q m \<longleftrightarrow> w_klen w = int i \<and> w_hash_vector_data w = int p + 4 \<and> w_hash_vector_size w = int (hash_node_size t)
     \<and> w_hash_vector_i w = int j \<and> j < hash_node_size t \<and> w_ndata w = int q + 4 \<and> w_ncount w = int (length (hash_node_vector t ! j))
     \<and> w_ni w = int m \<and> m \<le> length (hash_node_vector t ! j) \<and> hash_node_vector t ! j \<noteq> [] \<and> bucket_at cdb i p j (hash_node_vector t ! j) q"

definition table_tail :: "builder_table \<Rightarrow> nat \<Rightarrow> (bytes \<times> bytes) list" where
  "table_tail t j = map kv (concat (drop j (hash_node_vector t)))"

lemma table_tail_Suc:
  "j < length (hash_node_vector t) \<Longrightarrow> table_tail t j = map kv (hash_node_vector t ! j) @ table_tail t (Suc j)"
  by (simp add: table_tail_def Cons_nth_drop_Suc [symmetric])

lemma table_tail_end: "length (hash_node_vector t) \<le> j \<Longrightarrow> table_tail t j = []"
  by (simp add: table_tail_def)

text \<open>The walker handed out the first of the entries \<open>xs\<close>, and is at the rest.\<close>

definition bucket_step :: "zcdb \<Rightarrow> nat \<Rightarrow> builder_table \<Rightarrow> nat \<Rightarrow> (bytes \<times> bytes) list \<Rightarrow> (zcdb_walker \<times> cdb_entry option) option \<Rightarrow> bool" where
  "bucket_step cdb i t p xs res \<longleftrightarrow> (case xs of
      [] \<Rightarrow> \<exists>w'. res = Some (w', None) \<and> w_klen w' = int i
    | x # xs \<Rightarrow> \<exists>w' e j q m. res = Some (w', Some e) \<and> entry_bytes (c_data cdb) e = x \<and> at_node cdb w' i t p j q m
        \<and> xs = map kv (drop m (hash_node_vector t ! j)) @ table_tail t (Suc j))"

lemma walk_nodes_step:
  assumes "at_node cdb w i t p j q m" "m < length (hash_node_vector t ! j)"
  shows "\<exists>w' e. walk_nodes cdb w x = Some (w', Some e) \<and> entry_bytes (c_data cdb) e = kv (hash_node_vector t ! j ! m)
    \<and> at_node cdb w' i t p j q (Suc m)"
proof -
  from assms obtain e where "zcdb_walker_get_next_ok cdb (int q + 4) (int m) (int i) = Some e"
    "entry_bytes (c_data cdb) e = kv (hash_node_vector t ! j ! m)"
    unfolding at_node_def bucket_at_def by metis
  then show ?thesis using assms by (auto simp: walk_nodes_def at_node_def)
qed

lemma walk_nodes_start:
  assumes "at_bucket w i t p j" "bucket_at cdb i p j (hash_node_vector t ! j) q" "hash_node_vector t ! j \<noteq> []" "j < hash_node_size t"
  shows "\<exists>w' e. walk_nodes cdb w (int q) = Some (w', Some e) \<and> entry_bytes (c_data cdb) e = kv (hash_node_vector t ! j ! 0)
    \<and> at_node cdb w' i t p j q 1"
proof -
  let ?w = "w\<lparr>w_ndata := int q + 4, w_ncount := int (length (hash_node_vector t ! j)), w_ni := 0\<rparr>"
  have n: "at_node cdb ?w i t p j q 0" using assms by (simp add: at_node_def at_bucket_def)
  have "rd4 (c_data cdb) (int q) = Some (int (length (hash_node_vector t ! j)))" using assms(2,3) by (simp add: bucket_at_def)
  then have "walk_nodes cdb w (int q) = walk_nodes cdb ?w (int q)" using assms(1) by (simp add: walk_nodes_def at_bucket_def)
  then show ?thesis using walk_nodes_step [OF n, of "int q"] assms(3) by simp
qed

lemma walk_buckets_ok:
  assumes "in_table b cdb i t p" "at_bucket w i t p j"
  shows "bucket_step cdb i t p (table_tail t j) (walk_buckets cdb w)"
  using assms(2)
proof (induction "hash_node_size t - j" arbitrary: j w rule: less_induct)
  case less
  let ?v = "hash_node_vector t"
  have l: "length ?v = hash_node_size t" using assms(1) by (simp add: in_table_def)
  note wb = walk_buckets.simps [of cdb w]
  show ?case
  proof (cases "j < hash_node_size t")
    case False
    then show ?thesis using less.prems table_tail_end [of t j] l by (simp add: wb at_bucket_def bucket_step_def)
  next
    case True
    then obtain q where q: "bucket_at cdb i p j (?v ! j) q" using assms(1) by (auto simp: in_table_def)
    have rd: "rd4 (c_data cdb) (w_hash_vector_data w + 4 * w_hash_vector_i w) = Some (int q)" "w_hash_vector_i w < w_hash_vector_size w"
      using q less.prems True by (simp_all add: bucket_at_def at_bucket_def)
    have tail: "table_tail t j = map kv (?v ! j) @ table_tail t (Suc j)" using True l by (simp add: table_tail_Suc)
    show ?thesis
    proof (cases "?v ! j = []")
      case empty: True
      let ?w = "w\<lparr>w_hash_vector_i := w_hash_vector_i w + 1\<rparr>"
      have "at_bucket ?w i t p (Suc j)" using less.prems by (simp add: at_bucket_def)
      moreover have "walk_buckets cdb w = walk_buckets cdb ?w" using rd q empty by (simp add: wb bucket_at_def)
      ultimately show ?thesis using less.hyps [of "Suc j" ?w] True empty tail by simp
    next
      case False
      have "int q \<noteq> 0" using q False by (simp add: bucket_at_def)
      moreover from walk_nodes_start [OF less.prems q False True] obtain w' e where
        n: "walk_nodes cdb w (int q) = Some (w', Some e)" "entry_bytes (c_data cdb) e = kv (?v ! j ! 0)" "at_node cdb w' i t p j q 1" by blast
      ultimately have "walk_buckets cdb w = Some (w', Some e)" using rd by (simp add: wb)
      moreover have "table_tail t j = kv (?v ! j ! 0) # map kv (drop 1 (?v ! j)) @ table_tail t (Suc j)"
        unfolding tail using False by (cases "?v ! j") simp_all
      ultimately show ?thesis using n(2,3) unfolding bucket_step_def by (simp only: list.case) blast
    qed
  qed
qed

lemma walk_buckets_node:
  assumes "in_table b cdb i t p" "at_node cdb w i t p j q m"
  shows "bucket_step cdb i t p (map kv (drop m (hash_node_vector t ! j)) @ table_tail t (Suc j)) (walk_buckets cdb w)"
proof -
  let ?v = "hash_node_vector t"
  note wb = walk_buckets.simps [of cdb w]
  have rd: "rd4 (c_data cdb) (w_hash_vector_data w + 4 * w_hash_vector_i w) = Some (int q)" "w_hash_vector_i w < w_hash_vector_size w" "0 < q"
    using assms(2) by (simp_all add: bucket_at_def at_node_def)
  show ?thesis
  proof (cases "m < length (?v ! j)")
    case True
    from walk_nodes_step [OF assms(2) True, of "int q"] obtain w' e where
      n: "walk_nodes cdb w (int q) = Some (w', Some e)" "entry_bytes (c_data cdb) e = kv (?v ! j ! m)" "at_node cdb w' i t p j q (Suc m)" by blast
    then have "walk_buckets cdb w = Some (w', Some e)" using rd by (simp add: wb)
    moreover have "map kv (drop m (?v ! j)) = kv (?v ! j ! m) # map kv (drop (Suc m) (?v ! j))"
      using True by (simp add: Cons_nth_drop_Suc [symmetric])
    ultimately show ?thesis using n(2,3) unfolding bucket_step_def by (simp only: list.case append_Cons) blast
  next
    case False
    let ?w = "w\<lparr>w_ni := - 1, w_hash_vector_i := w_hash_vector_i w + 1\<rparr>"
    have "walk_nodes cdb w (int q) = Some (w\<lparr>w_ni := - 1\<rparr>, None)" using assms(2) False by (simp add: walk_nodes_def at_node_def)
    then have "walk_buckets cdb w = walk_buckets cdb ?w" using rd by (simp add: wb)
    moreover have "at_bucket ?w i t p (Suc j)" using assms(2) by (simp add: at_bucket_def at_node_def)
    ultimately show ?thesis using walk_buckets_ok [OF assms(1), of ?w "Suc j"] False by simp
  qed
qed

text \<open>The entries from key length \<open>i\<close> on, and a walker that has \<open>rest\<close> before it.\<close>

definition tables_tail :: "zcdb_builder \<Rightarrow> nat \<Rightarrow> (bytes \<times> bytes) list" where
  "tables_tail b i = concat (map table_entries (drop i (take (max_klen b + 1) (table_vector b))))"

definition walking :: "zcdb_builder \<Rightarrow> zcdb \<Rightarrow> zcdb_walker \<Rightarrow> (bytes \<times> bytes) list \<Rightarrow> bool" where
  "walking b cdb w rest \<longleftrightarrow> w_klen w = - 1 \<and> rest = tables_tail b 0 \<or> w_klen w = - 2 \<and> rest = []
     \<or> (\<exists>i t p j q m. in_table b cdb i t p \<and> at_node cdb w i t p j q m
          \<and> rest = map kv (drop m (hash_node_vector t ! j)) @ table_tail t (Suc j) @ tables_tail b (Suc i))"

definition walk_step :: "zcdb_builder \<Rightarrow> zcdb \<Rightarrow> (bytes \<times> bytes) list \<Rightarrow> (zcdb_walker \<times> cdb_entry option) option \<Rightarrow> bool" where
  "walk_step b cdb xs res \<longleftrightarrow> (case xs of
      [] \<Rightarrow> \<exists>w'. res = Some (w', None) \<and> w_klen w' = - 2
    | x # xs \<Rightarrow> \<exists>w' e. res = Some (w', Some e) \<and> entry_bytes (c_data cdb) e = x \<and> walking b cdb w' xs)"

lemma tables_tail_Suc:
  assumes "builder_ok b" "i \<le> max_klen b"
  shows "tables_tail b i = table_entries (table_vector b ! i) @ tables_tail b (Suc i)"
proof -
  have "i < length (take (max_klen b + 1) (table_vector b))" using assms by (simp add: builder_ok_def)
  from Cons_nth_drop_Suc [OF this, symmetric] show ?thesis using assms by (simp add: tables_tail_def)
qed

text \<open>When the buckets of a table are done, the walk goes on with the next key length.\<close>

lemma walk_tables_step:
  assumes "in_table b cdb i t p" "max_key_length cdb = int (max_klen b)" "bucket_step cdb i t p xs (walk_buckets cdb w1)" "w_klen w = int i"
    and "(if w_hash_vector_i w = - 1 then do {
            hsize \<leftarrow> rd4 (c_data cdb) (int p);
            Some (w\<lparr>w_hash_vector_data := int p + 4, w_hash_vector_size := hsize, w_hash_vector_i := 0, w_ni := - 1\<rparr>) }
          else Some w) = Some w1"
    and "\<And>w. w_klen w = int (Suc i) \<Longrightarrow> w_hash_vector_i w = - 1 \<Longrightarrow> walk_step b cdb (tables_tail b (Suc i)) (walk_tables cdb w)"
  shows "walk_step b cdb (xs @ tables_tail b (Suc i)) (walk_tables cdb w)"
proof -
  have t: "rd4 (c_data cdb) (24 + 4 * w_klen w) = Some (int p)" "w_klen w \<le> max_key_length cdb" "0 < p"
    using assms(1,2,4) by (simp_all add: in_table_def)
  have wt: "walk_tables cdb w = do {
      (w2, e) \<leftarrow> walk_buckets cdb w1;
      (case e of Some _ \<Rightarrow> Some (w2, e) | None \<Rightarrow> walk_tables cdb (w2\<lparr>w_hash_vector_i := - 1, w_klen := w_klen w2 + 1\<rparr>)) }"
    using t assms(5) by (subst walk_tables.simps) simp
  show ?thesis
  proof (cases xs)
    case Nil
    then obtain w2 where "walk_buckets cdb w1 = Some (w2, None)" "w_klen w2 = int i" using assms(3) by (auto simp: bucket_step_def)
    then show ?thesis using wt Nil assms(6) [of "w2\<lparr>w_hash_vector_i := - 1, w_klen := w_klen w2 + 1\<rparr>"] by simp
  next
    case (Cons x ys)
    then obtain w2 e j q m where w2: "walk_buckets cdb w1 = Some (w2, Some e)" "entry_bytes (c_data cdb) e = x"
      "at_node cdb w2 i t p j q m" "ys = map kv (drop m (hash_node_vector t ! j)) @ table_tail t (Suc j)"
      using assms(3) by (auto simp: bucket_step_def)
    have "walking b cdb w2 (ys @ tables_tail b (Suc i))" using assms(1) w2(3) unfolding walking_def w2(4) append_assoc by blast
    then show ?thesis using wt w2(1,2) Cons by (simp add: walk_step_def)
  qed
qed

lemma walk_tables_ok:
  assumes "cdb_ready b" "opened b cdb" "w_klen w = int i" "w_hash_vector_i w = - 1" "i \<le> Suc (max_klen b)"
  shows "walk_step b cdb (tables_tail b i) (walk_tables cdb w)"
  using assms(3-5)
proof (induction "Suc (max_klen b) - i" arbitrary: i w rule: less_induct)
  case less
  have r: "builder_ok b" using assms(1) by (simp add: cdb_ready_def)
  have o: "max_key_length cdb = int (max_klen b)" "c_data cdb = cdb_layout b" using assms(2) by (simp_all add: opened_def)
  note wt = walk_tables.simps [of cdb w]
  show ?case
  proof (cases "i \<le> max_klen b")
    case False
    then have "tables_tail b i = []" by (simp add: tables_tail_def)
    then show ?thesis using less.prems False o(1) by (simp add: wt walk_step_def)
  next
    case True
    have IH: "walk_step b cdb (tables_tail b (Suc i)) (walk_tables cdb w)" if "w_klen w = int (Suc i)" "w_hash_vector_i w = - 1" for w
      using less.hyps [of "Suc i" w] that True by simp
    show ?thesis
    proof (cases "table_vector b ! i")
      case None
      with table_at [OF assms(1) True] have "rd4 (c_data cdb) (24 + 4 * w_klen w) = Some 0" using o(2) less.prems(1) by simp
      then have "walk_tables cdb w = walk_tables cdb (w\<lparr>w_klen := w_klen w + 1\<rparr>)" using less.prems(1) True o(1) by (simp add: wt)
      then show ?thesis using IH [of "w\<lparr>w_klen := w_klen w + 1\<rparr>"] less.prems tables_tail_Suc [OF r True] None
        by (simp add: table_entries_def)
    next
      case (Some t)
      from in_table_ex [OF assms(1,2) True Some] obtain p where p: "in_table b cdb i t p" by blast
      let ?w = "w\<lparr>w_hash_vector_data := int p + 4, w_hash_vector_size := int (hash_node_size t), w_hash_vector_i := 0, w_ni := - 1\<rparr>"
      have "at_bucket ?w i t p 0" using less.prems(1) by (simp add: at_bucket_def)
      note bs = walk_buckets_ok [OF p this]
      have "tables_tail b i = table_tail t 0 @ tables_tail b (Suc i)"
        using tables_tail_Suc [OF r True] Some by (simp add: table_entries_def table_tail_def)
      moreover have "walk_step b cdb (table_tail t 0 @ tables_tail b (Suc i)) (walk_tables cdb w)"
        using p less.prems by (intro walk_tables_step [OF p o(1) bs less.prems(1) _ IH]) (simp_all add: in_table_def)
      ultimately show ?thesis by simp
    qed
  qed
qed

lemma walk_ok:
  assumes "cdb_ready b" "opened b cdb" "walking b cdb w rest"
  shows "walk_step b cdb rest (zcdb_walker_walk cdb w)"
proof -
  have o: "max_key_length cdb = int (max_klen b)" using assms(2) by (simp add: opened_def)
  from assms(3) consider (start) "w_klen w = - 1" "rest = tables_tail b 0" | (over) "w_klen w = - 2" "rest = []"
    | (on) i t p j q m where "in_table b cdb i t p" "at_node cdb w i t p j q m"
        "rest = map kv (drop m (hash_node_vector t ! j)) @ table_tail t (Suc j) @ tables_tail b (Suc i)"
    unfolding walking_def by blast
  then show ?thesis
  proof cases
    case start
    then show ?thesis using walk_tables_ok [OF assms(1,2), of "w\<lparr>w_klen := 0, w_hash_vector_i := - 1, w_ni := - 1\<rparr>" 0]
      by (simp add: zcdb_walker_walk_def)
  next
    case over
    then show ?thesis by (simp add: zcdb_walker_walk_def walk_step_def)
  next
    case on
    have k: "w_klen w = int i" "w_hash_vector_i w \<noteq> - 1" using on(2) by (simp_all add: at_node_def)
    have "walk_step b cdb (tables_tail b (Suc i)) (walk_tables cdb w')" if "w_klen w' = int (Suc i)" "w_hash_vector_i w' = - 1" for w'
      using walk_tables_ok [OF assms(1,2) that] on(1) by (simp add: in_table_def)
    then have "walk_step b cdb ((map kv (drop m (hash_node_vector t ! j)) @ table_tail t (Suc j)) @ tables_tail b (Suc i)) (walk_tables cdb w)"
      using k(2) by (intro walk_tables_step [OF on(1) o walk_buckets_node [OF on(1,2)] k(1)]) simp_all
    moreover have "zcdb_walker_walk cdb w = walk_tables cdb w" using k(1) by (simp add: zcdb_walker_walk_def)
    ultimately show ?thesis using on(3) by simp
  qed
qed

section \<open>All entries\<close>

lemma tables_tail_keys:
  assumes "builder_ok b" "i \<le> Suc (max_klen b)"
  shows "distinct (map fst (tables_tail b i)) \<and> (\<forall>k \<in> fst ` set (tables_tail b i). i \<le> length k)"
  using assms(2)
proof (induction "Suc (max_klen b) - i" arbitrary: i rule: less_induct)
  case less
  show ?case
  proof (cases "i \<le> max_klen b")
    case False
    then show ?thesis by (simp add: tables_tail_def)
  next
    case True
    then have i: "i < length (table_vector b)" using assms(1) by (simp add: builder_ok_def)
    let ?e = "table_entries (table_vector b ! i)"
    have IH: "distinct (map fst (tables_tail b (Suc i)))" "\<And>k. k \<in> fst ` set (tables_tail b (Suc i)) \<Longrightarrow> Suc i \<le> length k"
      using less.hyps [of "Suc i"] True by (simp_all add: Suc_diff_le, blast)
    have k: "k \<in> fst ` set ?e \<Longrightarrow> length k = i" for k using table_entries_ok(2) [OF assms(1) i] by auto
    have d: "distinct (map fst ?e)"
    proof (cases "table_vector b ! i")
      case (Some t)
      then have "buckets_ok i (hash_node_vector t)" using assms(1) i by (simp add: builder_ok_def table_ok_def)
      from buckets_nodes(2) [OF this] show ?thesis using Some by (simp add: table_entries_def comp_def)
    qed (simp add: table_entries_def)
    have "fst ` set ?e \<inter> fst ` set (tables_tail b (Suc i)) = {}" using k IH(2) by fastforce
    then have "distinct (map fst (?e @ tables_tail b (Suc i)))" using d IH(1) by (simp only: map_append distinct_append set_map simp_thms)
    moreover have "i \<le> length k" if "k \<in> fst ` set (?e @ tables_tail b (Suc i))" for k
    proof (cases "k \<in> fst ` set ?e")
      case False
      then have "k \<in> fst ` set (tables_tail b (Suc i))" using that by (simp only: set_append image_Un Un_iff simp_thms)
      from IH(2) [OF this] show ?thesis by simp
    qed (simp add: k)
    ultimately show ?thesis unfolding tables_tail_Suc [OF assms(1) True] by blast
  qed
qed

lemma tables_tail_map:
  assumes "builder_ok b"
  shows "map_of (tables_tail b 0) = cdb_map b"
proof
  fix k
  have d: "distinct (map fst (tables_tail b 0))" using tables_tail_keys [OF assms] by simp
  have mem: "(k, v) \<in> set (tables_tail b 0) \<longleftrightarrow> cdb_map b k = Some v" for v
  proof
    assume "(k, v) \<in> set (tables_tail b 0)"
    then obtain t where t: "t \<in> set (take (max_klen b + 1) (table_vector b))" "(k, v) \<in> set (table_entries t)"
      by (auto simp: tables_tail_def)
    then obtain i where "i < length (table_vector b)" "(k, v) \<in> set (table_entries (table_vector b ! i))"
      by (metis in_set_takeD in_set_conv_nth)
    then show "cdb_map b k = Some v" using table_entries_ok(2) [OF assms] by blast
  next
    assume v: "cdb_map b k = Some v"
    then obtain t where t: "length k < length (table_vector b)" "table_vector b ! length k = Some t" "table_map t k = Some v"
      by (auto simp: cdb_map_def split: if_splits option.splits)
    then have ok: "buckets_ok (length k) (hash_node_vector t)" "length k \<le> max_klen b"
      using assms by (auto simp: builder_ok_def table_ok_def)
    have "(k, v) \<in> set (table_entries (table_vector b ! length k))"
      using t buckets_nodes(3) [OF ok(1)] map_of_SomeD [of "map kv (concat (hash_node_vector t))" k v]
      by (simp add: table_entries_def table_map_def)
    moreover have "table_vector b ! length k \<in> set (take (max_klen b + 1) (table_vector b))"
      using ok(2) t(1) by (auto simp: in_set_conv_nth intro!: exI [of _ "length k"])
    ultimately show "(k, v) \<in> set (tables_tail b 0)" by (auto simp: tables_tail_def)
  qed
  show "map_of (tables_tail b 0) k = cdb_map b k"
  proof (cases "cdb_map b k")
    case None
    then have "k \<notin> fst ` set (tables_tail b 0)" using mem by auto
    then show ?thesis using None by (simp add: map_of_eq_None_iff)
  next
    case (Some v)
    then show ?thesis using map_of_is_SomeI [OF d] mem by simp
  qed
qed

text \<open>Calling the walker until it returns 0, at most \<open>n\<close> times.\<close>

fun walk_all :: "zcdb \<Rightarrow> zcdb_walker \<Rightarrow> nat \<Rightarrow> (cdb_entry list \<times> bool) option" where
  "walk_all cdb w 0 = Some ([], False)"
| "walk_all cdb w (Suc n) = do {
     (w, e) \<leftarrow> zcdb_walker_walk cdb w;
     (case e of
        None \<Rightarrow> Some ([], True)
      | Some e \<Rightarrow> do { (es, over) \<leftarrow> walk_all cdb w n; Some (e # es, over) }) }"

lemma walk_all_ok:
  assumes "cdb_ready b" "opened b cdb" "walking b cdb w rest" "length rest < n"
  shows "\<exists>es. walk_all cdb w n = Some (es, True) \<and> map (entry_bytes (c_data cdb)) es = rest"
  using assms(3,4)
proof (induction rest arbitrary: w n)
  case Nil
  then obtain n' where "n = Suc n'" by (cases n) auto
  then show ?case using walk_ok [OF assms(1,2) Nil.prems(1)] by (auto simp: walk_step_def)
next
  case (Cons x rest)
  then obtain n' where n: "n = Suc n'" "length rest < n'" by (cases n) auto
  from walk_ok [OF assms(1,2) Cons.prems(1)] obtain w' e where
    w: "zcdb_walker_walk cdb w = Some (w', Some e)" "entry_bytes (c_data cdb) e = x" "walking b cdb w' rest" by (auto simp: walk_step_def)
  from Cons.IH [OF w(3) n(2)] obtain es where "walk_all cdb w' n' = Some (es, True)" "map (entry_bytes (c_data cdb)) es = rest" by blast
  then show ?case using n w by simp
qed

section \<open>Property\<close>

text \<open>C12: The walker of a compiled database visits every entry exactly once and then reports the end: the keys and
  values it hands out, read from the file, are the keys that were stored, each with its last value and each once, the
  empty key included, and zcdb_get_count is their number. The input is bounded as for the lookup, so that the buffers
  of the builder fit.\<close>

theorem zcdb_walker_visits_all:
  assumes "cdb_input kvs" "length kvs < n"
  shows "\<exists>b b' d cdb es. cdb_updates kvs zcdb_builder_create = Some b \<and> buffers_fit b \<and> zcdb_builder_compile b = Some (b', 1)
    \<and> take (zcdb_builder_get_compiled_len b') (zcdb_builder_get_compiled_data b') = map Some d
    \<and> zcdb_open_from_data d = Some (Some cdb) \<and> walk_all cdb zcdb_walker_create n = Some (es, True)
    \<and> distinct (map (fst \<circ> entry_bytes d) es) \<and> map_of (map (entry_bytes d) es) = map_of (rev kvs)
    \<and> zcdb_get_count cdb = int (length es)"
proof -
  from compile_updates [OF assms(1)] obtain b b' cdb where
    f: "buffers_fit b" and b: "cdb_updates kvs zcdb_builder_create = Some b" "cdb_map b = map_of (rev kvs)" "counted b" "cdb_ready b"
    "compiles b (cdb_layout b) b'" "zcdb_open_from_data (cdb_layout b) = Some (Some cdb)" "opened b cdb"
    "zcdb_get_count cdb = int (card (fst ` set kvs))" by blast
  have ok: "builder_ok b" using b(4) by (simp add: cdb_ready_def)
  note k = tables_tail_keys [OF ok, of 0] tables_tail_map [OF ok]
  let ?es = "tables_tail b 0"
  have c: "fst ` set ?es = fst ` set kvs" using k(2) b(2) by (metis dom_map_of_conv_image_fst set_rev)
  then have len: "length ?es = card (fst ` set kvs)" using k(1) by (metis distinct_card length_map list.set_map le0)
  have "card (fst ` set kvs) \<le> length kvs" using card_length [of "map fst kvs"] by simp
  then have "length ?es < n" using len assms(2) by simp
  moreover have "walking b cdb zcdb_walker_create ?es" by (simp add: walking_def zcdb_walker_create_def)
  ultimately obtain es where es: "walk_all cdb zcdb_walker_create n = Some (es, True)" "map (entry_bytes (c_data cdb)) es = ?es"
    using walk_all_ok [OF b(4,7)] by blast
  have d: "c_data cdb = cdb_layout b" using b(7) by (simp add: opened_def)
  have "distinct (map (fst \<circ> entry_bytes (cdb_layout b)) es)" using k(1) es(2) d by (simp flip: map_map)
  moreover have "map_of (map (entry_bytes (cdb_layout b)) es) = map_of (rev kvs)" using k(2) es(2) d b(2) by simp
  moreover have "zcdb_get_count cdb = int (length es)" using b(8) len es(2) by (metis length_map)
  ultimately show ?thesis using f b(1,5,6) es(1) unfolding compiles_def by blast
qed

theorem zcdb_walker_visits_all_witness:
  "\<exists>d cdb es. zcdb_open_from_data d = Some (Some cdb) \<and> walk_all cdb zcdb_walker_create 5 = Some (es, True)
    \<and> map_of (map (entry_bytes d) es) = [[] \<mapsto> [52], [98, 99] \<mapsto> [50, 51]] \<and> zcdb_get_count cdb = int (length es)"
proof -
  let ?kvs = "[([], [49]), ([98, 99], [50, 51]), ([], [52])] :: (bytes \<times> bytes) list"
  have a: "cdb_input ?kvs" "length ?kvs < 5"
    by (simp_all add: cdb_input_def cdb_bound_def entry_weight_def zvar_zcdb_max_key_len_def)
  have "map_of (rev ?kvs) = [[] \<mapsto> [52], [98, 99] \<mapsto> [50, 51]]" by (rule ext) simp
  with zcdb_walker_visits_all [OF a] show ?thesis by metis
qed

end
