(* ===== verification/TimedIo.thy ===== *)
theory TimedIo
  imports Prelude "HOL-Library.Monad_Syntax"
begin

text \<open>
  Reads and writes with a timeout (\<open>src/stdlib/timed_io.c\<close>, with the deadlines of \<open>src/stdlib/time.c\<close>)
  over a kernel that is a parameter: the four system calls of the code on the state \<open>'k\<close> of one file
  descriptor. \<open>None\<close> is a loop that never ends, or \<open>zfatal\<close>. The branches for Windows are not modelled.
\<close>

unbundle bit_operations_syntax

section \<open>System calls\<close>

datatype errno = EINTR | EAGAIN | EOTHER

text \<open>\<open>sys_poll\<close> returns the events, 0 when it timed out; \<open>sys_time\<close> the time of day in milliseconds.\<close>

record 'k kernel =
  sys_read :: "'k \<Rightarrow> nat \<Rightarrow> 'k \<times> (errno + bytes)"
  sys_write :: "'k \<Rightarrow> bytes \<Rightarrow> 'k \<times> (errno + nat)"
  sys_poll :: "'k \<Rightarrow> 16 word \<Rightarrow> int \<Rightarrow> 'k \<times> (errno + 16 word)"
  sys_time :: "'k \<Rightarrow> 'k \<times> int"

definition POLLIN :: "16 word" where "POLLIN = 0x001"
definition POLLOUT :: "16 word" where "POLLOUT = 0x004"
definition POLLERR :: "16 word" where "POLLERR = 0x008"
definition POLLHUP :: "16 word" where "POLLHUP = 0x010"
definition POLLNVAL :: "16 word" where "POLLNVAL = 0x020"
definition POLLRDNORM :: "16 word" where "POLLRDNORM = 0x040"
definition POLLWRNORM :: "16 word" where "POLLWRNORM = 0x100"

section \<open>Deadlines\<close>

definition zvar_max_timeout_millisecond :: int where
  "zvar_max_timeout_millisecond = 3600 * 24 * 365 * 10 * 1000"

definition ztimeout_set_millisecond :: "'k kernel \<Rightarrow> 'k \<Rightarrow> int \<Rightarrow> 'k \<times> int" where
  "ztimeout_set_millisecond K k timeout0 =
     (let timeout = (if timeout0 < 0 then zvar_max_timeout_millisecond else timeout0);
          (k1, r) = sys_time K k
      in (k1, r + timeout))"

definition ztimeout_left_millisecond :: "'k kernel \<Rightarrow> 'k \<Rightarrow> int \<Rightarrow> 'k \<times> int" where
  "ztimeout_left_millisecond K k stamp =
     (let (k1, r) = sys_time K k; timeout = stamp - r + 1
      in (k1, if timeout > zvar_max_timeout_millisecond then zvar_max_timeout_millisecond else timeout))"

section \<open>Waiting\<close>

text \<open>The timeout of the next \<open>poll\<close>, none when the deadline has passed.\<close>

definition poll_timeout :: "'k kernel \<Rightarrow> 'k \<Rightarrow> int \<Rightarrow> int \<Rightarrow> 'k \<times> int option" where
  "poll_timeout K k wait stamp =
     (if wait < 0 then (k, Some (- 1))
      else if wait = 0 then (k, Some 0)
      else let (k1, left_timeout) = ztimeout_left_millisecond K k stamp in
        (k1, if left_timeout < 1 then None
             else if left_timeout > 1000 * 3600 then Some (1000 * 3600)
             else Some left_timeout))"

partial_function (option) wait_loop ::
  "'k kernel \<Rightarrow> 'k \<Rightarrow> int \<Rightarrow> int \<Rightarrow> bool \<Rightarrow> bool \<Rightarrow> ('k \<times> int \<times> bool \<times> bool) option" where
  "wait_loop K k wait stamp readable writeable =
     (case poll_timeout K k wait stamp of
        (k1, None) \<Rightarrow> Some (k1, 0, False, False)
      | (k1, Some timeout) \<Rightarrow>
          (case sys_poll K k1 ((if readable then POLLIN else 0) OR (if writeable then POLLOUT else 0)) timeout of
             (k2, Inl ec) \<Rightarrow> if ec \<noteq> EINTR then None else wait_loop K k2 wait stamp readable writeable
           | (k2, Inr revents) \<Rightarrow>
               if revents = 0 then
                 (if wait \<le> 0 then Some (k2, 0, False, False) else wait_loop K k2 wait stamp readable writeable)
               else if revents AND POLLNVAL \<noteq> 0 then Some (k2, - 1, False, False)
               else Some (k2, 1,
                 readable \<and> revents AND (POLLIN OR POLLHUP OR POLLERR OR POLLRDNORM OR POLLWRNORM) \<noteq> 0,
                 writeable \<and> revents AND POLLOUT \<noteq> 0)))"

definition ztimed_read_write_wait_millisecond ::
  "'k kernel \<Rightarrow> 'k \<Rightarrow> int \<Rightarrow> bool \<Rightarrow> bool \<Rightarrow> ('k \<times> int \<times> bool \<times> bool) option" where
  "ztimed_read_write_wait_millisecond K k wait readable writeable =
     (let (k1, stamp) = ztimeout_set_millisecond K k wait in wait_loop K k1 wait stamp readable writeable)"

definition ztimed_read_wait_millisecond :: "'k kernel \<Rightarrow> 'k \<Rightarrow> int \<Rightarrow> ('k \<times> int) option" where
  "ztimed_read_wait_millisecond K k wait = do {
     (k1, ret, want_read, _) \<leftarrow> ztimed_read_write_wait_millisecond K k wait True False;
     Some (k1, if ret < 1 then ret else of_bool want_read) }"

definition ztimed_read_wait :: "'k kernel \<Rightarrow> 'k \<Rightarrow> int \<Rightarrow> ('k \<times> int) option" where
  "ztimed_read_wait K k wait = do {
     (k1, ret, want_read, _) \<leftarrow> ztimed_read_write_wait_millisecond K k (1000 * wait) True False;
     Some (k1, if ret < 1 then ret else of_bool want_read) }"

definition ztimed_write_wait_millisecond :: "'k kernel \<Rightarrow> 'k \<Rightarrow> int \<Rightarrow> ('k \<times> int) option" where
  "ztimed_write_wait_millisecond K k wait = do {
     (k1, ret, _, want_write) \<leftarrow> ztimed_read_write_wait_millisecond K k wait False True;
     Some (k1, if ret < 1 then ret else of_bool want_write) }"

definition ztimed_write_wait :: "'k kernel \<Rightarrow> 'k \<Rightarrow> int \<Rightarrow> ('k \<times> int) option" where
  "ztimed_write_wait K k wait = do {
     (k1, ret, _, want_write) \<leftarrow> ztimed_read_write_wait_millisecond K k (1000 * wait) False True;
     Some (k1, if ret < 1 then ret else of_bool want_write) }"

section \<open>Reading and writing\<close>

text \<open>A result is the return value and the bytes that were put into the buffer.\<close>

partial_function (option) read_now_loop :: "'k kernel \<Rightarrow> 'k \<Rightarrow> nat \<Rightarrow> ('k \<times> int \<times> bytes) option" where
  "read_now_loop K k n =
     (case sys_read K k n of
        (k1, Inl ec) \<Rightarrow> if ec = EINTR then read_now_loop K k1 n else Some (k1, - 1, [])
      | (k1, Inr d) \<Rightarrow> Some (k1, int (length d), d))"

partial_function (option) read_wait_loop :: "'k kernel \<Rightarrow> 'k \<Rightarrow> nat \<Rightarrow> int \<Rightarrow> ('k \<times> int \<times> bytes) option" where
  "read_wait_loop K k n wait = do {
     (k1, ret) \<leftarrow> ztimed_read_wait_millisecond K k (1000 * wait);
     if ret = 0 then Some (k1, - 1, [])
     else
       (case sys_read K k1 n of
          (k2, Inl ec) \<Rightarrow> if ec = EINTR \<or> ec = EAGAIN then read_wait_loop K k2 n wait else Some (k2, - 1, [])
        | (k2, Inr d) \<Rightarrow> Some (k2, int (length d), d)) }"

definition ztimed_read :: "'k kernel \<Rightarrow> 'k \<Rightarrow> nat \<Rightarrow> int \<Rightarrow> ('k \<times> int \<times> bytes) option" where
  "ztimed_read K k n wait = (if wait = 0 then read_now_loop K k n else read_wait_loop K k n wait)"

partial_function (option) write_now_loop :: "'k kernel \<Rightarrow> 'k \<Rightarrow> bytes \<Rightarrow> ('k \<times> int) option" where
  "write_now_loop K k buf =
     (case sys_write K k buf of
        (k1, Inl ec) \<Rightarrow> if ec = EINTR then write_now_loop K k1 buf else Some (k1, - 1)
      | (k1, Inr m) \<Rightarrow> Some (k1, int m))"

partial_function (option) write_wait_loop :: "'k kernel \<Rightarrow> 'k \<Rightarrow> bytes \<Rightarrow> int \<Rightarrow> ('k \<times> int) option" where
  "write_wait_loop K k buf wait = do {
     (k1, ret) \<leftarrow> ztimed_write_wait_millisecond K k (1000 * wait);
     if ret = 0 then Some (k1, - 1)
     else
       (case sys_write K k1 buf of
          (k2, Inl ec) \<Rightarrow> if ec = EINTR \<or> ec = EAGAIN then write_wait_loop K k2 buf wait else Some (k2, - 1)
        | (k2, Inr m) \<Rightarrow> if m = 0 then write_wait_loop K k2 buf wait else Some (k2, int m)) }"

definition ztimed_write :: "'k kernel \<Rightarrow> 'k \<Rightarrow> bytes \<Rightarrow> int \<Rightarrow> ('k \<times> int) option" where
  "ztimed_write K k buf wait = (if wait = 0 then write_now_loop K k buf else write_wait_loop K k buf wait)"

section \<open>What the code relies on\<close>

text \<open>
  The documented behaviour of the system calls, seen through the bytes \<open>src k\<close> the descriptor will still
  deliver, the bytes \<open>sink k\<close> it has taken and the time of day \<open>now k\<close> in milliseconds: \<open>read\<close> delivers the
  next bytes, none only at the end; \<open>write\<close> takes a prefix; a failed call moves no byte; \<open>poll\<close> of one
  valid structure fails by interruption only, reports only what was asked for and errors, and expires
  when its timeout has gone by, a negative one never; the clock does not go back. \<open>pend k\<close> bounds the
  interruptions, the calls that would block and the empty writes that still come in a row; nothing bounds the
  polls that expire.
\<close>

definition read_ok :: "'k kernel \<Rightarrow> ('k \<Rightarrow> bytes) \<Rightarrow> ('k \<Rightarrow> bytes) \<Rightarrow> ('k \<Rightarrow> nat) \<Rightarrow> ('k \<Rightarrow> int) \<Rightarrow> bool" where
  "read_ok K src sink pend now \<longleftrightarrow> (\<forall>k n k'. 0 < n \<longrightarrow>
     (\<forall>ec. sys_read K k n = (k', Inl ec) \<longrightarrow> src k' = src k \<and> sink k' = sink k \<and> now k \<le> now k' \<and> (ec \<noteq> EOTHER \<longrightarrow> pend k' < pend k))
   \<and> (\<forall>d. sys_read K k n = (k', Inr d) \<longrightarrow> length d \<le> n \<and> src k = d @ src k' \<and> (d = [] \<longrightarrow> src k' = []) \<and> sink k' = sink k))"

definition write_ok :: "'k kernel \<Rightarrow> ('k \<Rightarrow> bytes) \<Rightarrow> ('k \<Rightarrow> bytes) \<Rightarrow> ('k \<Rightarrow> nat) \<Rightarrow> ('k \<Rightarrow> int) \<Rightarrow> bool" where
  "write_ok K src sink pend now \<longleftrightarrow> (\<forall>k d k'. d \<noteq> [] \<longrightarrow>
     (\<forall>ec. sys_write K k d = (k', Inl ec) \<longrightarrow> src k' = src k \<and> sink k' = sink k \<and> now k \<le> now k' \<and> (ec \<noteq> EOTHER \<longrightarrow> pend k' < pend k))
   \<and> (\<forall>m. sys_write K k d = (k', Inr m) \<longrightarrow> m \<le> length d \<and> sink k' = sink k @ take m d \<and> src k' = src k
        \<and> now k \<le> now k' \<and> (m = 0 \<longrightarrow> pend k' < pend k)))"

definition poll_reports :: "16 word \<Rightarrow> 16 word \<Rightarrow> bool" where
  "poll_reports ev r \<longleftrightarrow> r AND NOT (ev OR (POLLERR OR POLLHUP OR POLLNVAL)) = 0"

definition wait_ok :: "'k kernel \<Rightarrow> ('k \<Rightarrow> bytes) \<Rightarrow> ('k \<Rightarrow> bytes) \<Rightarrow> ('k \<Rightarrow> nat) \<Rightarrow> ('k \<Rightarrow> int) \<Rightarrow> bool" where
  "wait_ok K src sink pend now \<longleftrightarrow> (\<forall>k ev t k'.
     (\<forall>ec. sys_poll K k ev t = (k', Inl ec) \<longrightarrow> ec = EINTR \<and> src k' = src k \<and> sink k' = sink k \<and> now k \<le> now k' \<and> pend k' < pend k)
   \<and> (\<forall>r. sys_poll K k ev t = (k', Inr r) \<longrightarrow> src k' = src k \<and> sink k' = sink k \<and> now k \<le> now k' \<and> pend k' \<le> pend k
        \<and> poll_reports ev r \<and> (r = 0 \<longrightarrow> 0 \<le> t \<and> now k + t \<le> now k'))
   \<and> (\<forall>r. sys_time K k = (k', r) \<longrightarrow> src k' = src k \<and> sink k' = sink k \<and> now k \<le> now k' \<and> pend k' \<le> pend k \<and> r = now k'))"

definition kernel_ok :: "'k kernel \<Rightarrow> ('k \<Rightarrow> bytes) \<Rightarrow> ('k \<Rightarrow> bytes) \<Rightarrow> ('k \<Rightarrow> nat) \<Rightarrow> ('k \<Rightarrow> int) \<Rightarrow> bool" where
  "kernel_ok K src sink pend now \<longleftrightarrow> read_ok K src sink pend now \<and> write_ok K src sink pend now \<and> wait_ok K src sink pend now"

text \<open>A kernel that returns from \<open>poll\<close> as soon as the timeout has gone by, and takes no time for the clock.\<close>

definition punctual :: "'k kernel \<Rightarrow> ('k \<Rightarrow> int) \<Rightarrow> bool" where
  "punctual K now \<longleftrightarrow> (\<forall>k ev t k' r. 0 \<le> t \<longrightarrow> sys_poll K k ev t = (k', r) \<longrightarrow> now k' \<le> now k + t)
     \<and> (\<forall>k k' r. sys_time K k = (k', r) \<longrightarrow> now k' = now k)"

text \<open>The descriptor after calls that move no byte.\<close>

definition quiet :: "('k \<Rightarrow> bytes) \<Rightarrow> ('k \<Rightarrow> bytes) \<Rightarrow> ('k \<Rightarrow> nat) \<Rightarrow> ('k \<Rightarrow> int) \<Rightarrow> 'k \<Rightarrow> 'k \<Rightarrow> bool" where
  "quiet src sink pend now k k' \<longleftrightarrow> src k' = src k \<and> sink k' = sink k \<and> pend k' \<le> pend k \<and> now k \<le> now k'"

lemma quiet_refl [simp]: "quiet src sink pend now k k"
  by (simp add: quiet_def)

lemma quiet_trans: "quiet src sink pend now a b \<Longrightarrow> quiet src sink pend now b c \<Longrightarrow> quiet src sink pend now a c"
  by (simp add: quiet_def)

lemma kernel_okD:
  assumes "kernel_ok K src sink pend now"
  shows "sys_poll K k ev t = (k', Inl ec) \<Longrightarrow> ec = EINTR \<and> quiet src sink pend now k k' \<and> pend k' < pend k"
    "sys_poll K k ev t = (k', Inr r) \<Longrightarrow> quiet src sink pend now k k' \<and> poll_reports ev r \<and> (r = 0 \<longrightarrow> 0 \<le> t \<and> now k + t \<le> now k')"
    "sys_time K k = (k', s) \<Longrightarrow> quiet src sink pend now k k' \<and> s = now k'"
    "0 < n \<Longrightarrow> sys_read K k n = (k', Inl ec) \<Longrightarrow> src k' = src k \<and> sink k' = sink k \<and> now k \<le> now k' \<and> (ec \<noteq> EOTHER \<longrightarrow> pend k' < pend k)"
    "0 < n \<Longrightarrow> sys_read K k n = (k', Inr d) \<Longrightarrow> length d \<le> n \<and> src k = d @ src k' \<and> (d = [] \<longrightarrow> src k' = []) \<and> sink k' = sink k"
    "d \<noteq> [] \<Longrightarrow> sys_write K k d = (k', Inl ec) \<Longrightarrow> src k' = src k \<and> sink k' = sink k \<and> now k \<le> now k' \<and> (ec \<noteq> EOTHER \<longrightarrow> pend k' < pend k)"
    "d \<noteq> [] \<Longrightarrow> sys_write K k d = (k', Inr m) \<Longrightarrow> m \<le> length d \<and> sink k' = sink k @ take m d \<and> src k' = src k
       \<and> now k \<le> now k' \<and> (m = 0 \<longrightarrow> pend k' < pend k)"
proof -
  have r: "read_ok K src sink pend now" and w: "write_ok K src sink pend now" and p: "wait_ok K src sink pend now"
    using assms by (simp_all add: kernel_ok_def)
  note r = r [unfolded read_ok_def, THEN spec, of k, THEN spec, of n, THEN spec, of k']
    and w = w [unfolded write_ok_def, THEN spec, of k, THEN spec, of d, THEN spec, of k']
    and p = p [unfolded wait_ok_def, THEN spec, of k, THEN spec, of ev, THEN spec, of t, THEN spec, of k']
  show "sys_poll K k ev t = (k', Inl ec) \<Longrightarrow> ec = EINTR \<and> quiet src sink pend now k k' \<and> pend k' < pend k"
    "sys_poll K k ev t = (k', Inr r) \<Longrightarrow> quiet src sink pend now k k' \<and> poll_reports ev r \<and> (r = 0 \<longrightarrow> 0 \<le> t \<and> now k + t \<le> now k')"
    "sys_time K k = (k', s) \<Longrightarrow> quiet src sink pend now k k' \<and> s = now k'"
    using p by (simp_all add: quiet_def)
  show "0 < n \<Longrightarrow> sys_read K k n = (k', Inl ec) \<Longrightarrow> src k' = src k \<and> sink k' = sink k \<and> now k \<le> now k' \<and> (ec \<noteq> EOTHER \<longrightarrow> pend k' < pend k)"
    "0 < n \<Longrightarrow> sys_read K k n = (k', Inr d) \<Longrightarrow> length d \<le> n \<and> src k = d @ src k' \<and> (d = [] \<longrightarrow> src k' = []) \<and> sink k' = sink k"
    using r by simp_all
  show "d \<noteq> [] \<Longrightarrow> sys_write K k d = (k', Inl ec) \<Longrightarrow> src k' = src k \<and> sink k' = sink k \<and> now k \<le> now k' \<and> (ec \<noteq> EOTHER \<longrightarrow> pend k' < pend k)"
    "d \<noteq> [] \<Longrightarrow> sys_write K k d = (k', Inr m) \<Longrightarrow> m \<le> length d \<and> sink k' = sink k @ take m d \<and> src k' = src k
       \<and> now k \<le> now k' \<and> (m = 0 \<longrightarrow> pend k' < pend k)"
    using w by simp_all
qed

section \<open>The wait ends by its deadline\<close>

abbreviation poll_events :: "bool \<Rightarrow> bool \<Rightarrow> 16 word" where
  "poll_events readable writeable \<equiv> (if readable then POLLIN else 0) OR (if writeable then POLLOUT else 0)"

abbreviation read_events :: "16 word" where
  "read_events \<equiv> POLLIN OR POLLHUP OR POLLERR OR POLLRDNORM OR POLLWRNORM"

text \<open>What a wait may return: 0 only behind the deadline, or at once when no time was given; otherwise
  what the last \<open>poll\<close> has reported. On a punctual kernel the deadline is kept.\<close>

definition wait_promise ::
  "'k kernel \<Rightarrow> ('k \<Rightarrow> int) \<Rightarrow> int \<Rightarrow> int \<Rightarrow> bool \<Rightarrow> bool \<Rightarrow> 'k \<times> int \<times> bool \<times> bool \<Rightarrow> bool" where
  "wait_promise K now wait stamp readable writeable = (\<lambda>(k', ret, r, w).
     (ret = 0 \<and> \<not> r \<and> \<not> w \<and> (if 0 < wait then stamp < now k' else wait = 0)
      \<or> (\<exists>k1 t rev. sys_poll K k1 (poll_events readable writeable) t = (k', Inr rev) \<and> rev \<noteq> 0
          \<and> (if rev AND POLLNVAL \<noteq> 0 then ret = - 1 \<and> \<not> r \<and> \<not> w
             else ret = 1 \<and> (r \<longleftrightarrow> readable \<and> rev AND read_events \<noteq> 0) \<and> (w \<longleftrightarrow> writeable \<and> rev AND POLLOUT \<noteq> 0)))))"

lemma wait_promiseI:
  assumes "sys_poll K k1 (poll_events readable writeable) t = (k', Inr rv)" "rv \<noteq> 0"
  shows "wait_promise K now wait stamp readable writeable
    (if rv AND POLLNVAL \<noteq> 0 then (k', - 1, False, False)
     else (k', 1, readable \<and> rv AND read_events \<noteq> 0, writeable \<and> rv AND POLLOUT \<noteq> 0))"
proof (cases "rv AND POLLNVAL = 0")
  case True
  then have n: "\<not> rv AND POLLNVAL \<noteq> 0" by simp
  show ?thesis unfolding wait_promise_def if_not_P [OF n] prod.case
    using assms True by (intro disjI2 exI [of _ k1] exI [of _ t] exI [of _ rv]) simp
next
  case False
  show ?thesis unfolding wait_promise_def if_P [OF False] prod.case
    using assms False by (intro disjI2 exI [of _ k1] exI [of _ t] exI [of _ rv]) simp
qed

lemma poll_timeout_cases:
  assumes "kernel_ok K src sink pend now" "poll_timeout K k wait stamp = (k1, t)"
  shows "quiet src sink pend now k k1"
    "t = None \<Longrightarrow> 0 < wait \<and> stamp < now k1"
    "t = Some u \<Longrightarrow> if wait < 0 then u < 0 else if wait = 0 then u = 0 else 0 < u \<and> u \<le> stamp - now k1 + 1"
    "punctual K now \<Longrightarrow> now k1 = now k"
proof -
  obtain k2 r where s: "sys_time K k = (k2, r)" by (cases "sys_time K k")
  note q = kernel_okD(3) [OF assms(1) s]
  have p: "punctual K now \<Longrightarrow> now k2 = now k" using s by (simp add: punctual_def)
  consider "wait < 0" "k1 = k" "t = Some (- 1)" | "wait = 0" "k1 = k" "t = Some 0"
    | "0 < wait" "k1 = k2" "t = (let left = min (stamp - r + 1) zvar_max_timeout_millisecond in
        if left < 1 then None else Some (min left (1000 * 3600)))"
    using assms(2) s by (fastforce simp: poll_timeout_def ztimeout_left_millisecond_def Let_def min_def split: if_splits)
  then have "quiet src sink pend now k k1 \<and> (t = None \<longrightarrow> 0 < wait \<and> stamp < now k1)
    \<and> (t = Some u \<longrightarrow> (if wait < 0 then u < 0 else if wait = 0 then u = 0 else 0 < u \<and> u \<le> stamp - now k1 + 1))
    \<and> (punctual K now \<longrightarrow> now k1 = now k)"
    by cases (use q p in \<open>auto simp: Let_def zvar_max_timeout_millisecond_def split: if_splits\<close>)
  then show "quiet src sink pend now k k1" "t = None \<Longrightarrow> 0 < wait \<and> stamp < now k1"
    "t = Some u \<Longrightarrow> if wait < 0 then u < 0 else if wait = 0 then u = 0 else 0 < u \<and> u \<le> stamp - now k1 + 1"
    "punctual K now \<Longrightarrow> now k1 = now k" by blast+
qed

lemma wait_loop_returns:
  assumes "kernel_ok K src sink pend now"
  shows "\<exists>k' ret r w. wait_loop K k wait stamp readable writeable = Some (k', ret, r, w) \<and> quiet src sink pend now k k'
    \<and> wait_promise K now wait stamp readable writeable (k', ret, r, w)
    \<and> (punctual K now \<longrightarrow> 0 \<le> wait \<longrightarrow> now k' \<le> max (now k) (stamp + 1))"
proof (induction "pend k + nat (stamp + 1 - now k)" arbitrary: k rule: less_induct)
  case less
  note d = kernel_okD [OF assms]
  obtain k1 t where p: "poll_timeout K k wait stamp = (k1, t)" by (cases "poll_timeout K k wait stamp")
  note pt = poll_timeout_cases [OF assms p]
  show ?case
  proof (cases t)
    case None
    then have "wait_loop K k wait stamp readable writeable = Some (k1, 0, False, False)" using p by (simp add: wait_loop.simps [of K k])
    moreover have "wait_promise K now wait stamp readable writeable (k1, 0, False, False)"
      using pt(2) [OF None] by (simp add: wait_promise_def)
    ultimately show ?thesis using pt(1,4) by (metis max.cobounded1)
  next
    case (Some u)
    note tu = pt(3) [OF Some]
    obtain k2 x where s: "sys_poll K k1 (poll_events readable writeable) u = (k2, x)"
      by (cases "sys_poll K k1 (poll_events readable writeable) u")
    have late: "now k2 \<le> max (now k) (stamp + 1)" if "punctual K now" "0 \<le> wait"
    proof -
      have "0 \<le> u" using tu that(2) by (auto split: if_splits)
      then have "now k2 \<le> now k1 + u" using that(1) s unfolding punctual_def by blast
      then show ?thesis using tu that pt(4) by (auto split: if_splits)
    qed
    have again: ?thesis if "quiet src sink pend now k1 k2" "wait_loop K k wait stamp readable writeable = wait_loop K k2 wait stamp readable writeable"
      "pend k2 < pend k1 \<or> now k2 > now k1 \<and> now k1 \<le> stamp"
    proof -
      have q: "quiet src sink pend now k k2" using quiet_trans [OF pt(1) that(1)] .
      have "pend k2 + nat (stamp + 1 - now k2) < pend k + nat (stamp + 1 - now k)"
        using that(1,3) pt(1) by (auto simp: quiet_def)
      from less [OF this] obtain k' ret r w where
        k': "wait_loop K k2 wait stamp readable writeable = Some (k', ret, r, w)" "quiet src sink pend now k2 k'"
        "wait_promise K now wait stamp readable writeable (k', ret, r, w)"
        "punctual K now \<longrightarrow> 0 \<le> wait \<longrightarrow> now k' \<le> max (now k2) (stamp + 1)" by blast
      have "now k' \<le> max (now k) (stamp + 1)" if "punctual K now" "0 \<le> wait" using late [OF that] k'(4) that by simp
      then show ?thesis using k'(1,3) quiet_trans [OF q k'(2)] that(2) by auto
    qed
    show ?thesis
    proof (cases x)
      case (Inl ec)
      note e = d(1) [OF s [unfolded Inl]]
      have "wait_loop K k wait stamp readable writeable = wait_loop K k2 wait stamp readable writeable"
        using p Some s Inl e by (simp add: wait_loop.simps [of K k])
      then show ?thesis using again e by blast
    next
      case (Inr rev)
      note e = d(2) [OF s [unfolded Inr]]
      have q: "quiet src sink pend now k k2" using quiet_trans [OF pt(1)] e by blast
      consider "rev = 0" "0 < wait" | "rev = 0" "wait \<le> 0" | "rev \<noteq> 0" by linarith
      then show ?thesis
      proof cases
        case 1
        have "wait_loop K k wait stamp readable writeable = wait_loop K k2 wait stamp readable writeable"
          using p Some s Inr 1 by (simp add: wait_loop.simps [of K k])
        moreover have "now k2 > now k1 \<and> now k1 \<le> stamp" using e 1 tu by auto
        ultimately show ?thesis using again e by blast
      next
        case 2
        then have "wait_loop K k wait stamp readable writeable = Some (k2, 0, False, False)"
          using p Some s Inr by (simp add: wait_loop.simps [of K k])
        moreover have "wait = 0" using e 2 tu by (auto split: if_splits)
        then have "wait_promise K now wait stamp readable writeable (k2, 0, False, False)" by (simp add: wait_promise_def)
        ultimately show ?thesis using q late by blast
      next
        case 3
        let ?r = "readable \<and> rev AND read_events \<noteq> 0" and ?w = "writeable \<and> rev AND POLLOUT \<noteq> 0"
        have "wait_loop K k wait stamp readable writeable
            = (if rev AND POLLNVAL \<noteq> 0 then Some (k2, - 1, False, False) else Some (k2, 1, ?r, ?w))"
          using p Some s Inr 3 by (simp add: wait_loop.simps [of K k])
        moreover have "wait_promise K now wait stamp readable writeable
            (if rev AND POLLNVAL \<noteq> 0 then (k2, - 1, False, False) else (k2, 1, ?r, ?w))"
          by (rule wait_promiseI [OF s [unfolded Inr] 3])
        ultimately show ?thesis using q late by (cases "rev AND POLLNVAL = 0") auto
      qed
    qed
  qed
qed

lemma wait_promise_mono:
  assumes "wait_promise K now wait stamp readable writeable (k', ret, r, w)"
    "0 < wait \<Longrightarrow> stamp < now k' \<Longrightarrow> stamp' < now k'"
  shows "wait_promise K now wait stamp' readable writeable (k', ret, r, w)"
  using assms(1) unfolding wait_promise_def prod.case by (elim disjE) (intro disjI1, use assms(2) in simp, erule disjI2)

lemma wait_returns:
  assumes "kernel_ok K src sink pend now"
  shows "\<exists>k' ret r w. ztimed_read_write_wait_millisecond K k wait readable writeable = Some (k', ret, r, w)
    \<and> quiet src sink pend now k k' \<and> wait_promise K now wait (now k + wait) readable writeable (k', ret, r, w)
    \<and> (punctual K now \<longrightarrow> 0 \<le> wait \<longrightarrow> now k' \<le> now k + wait + 1)"
proof -
  obtain k1 s where t: "sys_time K k = (k1, s)" by (cases "sys_time K k")
  note q = kernel_okD(3) [OF assms t]
  obtain stamp where stamp: "ztimeout_set_millisecond K k wait = (k1, stamp)" "0 \<le> wait \<Longrightarrow> stamp = now k1 + wait"
    using t q by (simp add: ztimeout_set_millisecond_def)
  have l: "ztimed_read_write_wait_millisecond K k wait readable writeable = wait_loop K k1 wait stamp readable writeable"
    using stamp(1) by (simp add: ztimed_read_write_wait_millisecond_def)
  from wait_loop_returns [OF assms, of k1 wait stamp readable writeable] obtain k' ret r w where
    k': "wait_loop K k1 wait stamp readable writeable = Some (k', ret, r, w)" "quiet src sink pend now k1 k'"
    "wait_promise K now wait stamp readable writeable (k', ret, r, w)"
    "punctual K now \<longrightarrow> 0 \<le> wait \<longrightarrow> now k' \<le> max (now k1) (stamp + 1)" by blast
  have "0 < wait \<Longrightarrow> stamp < now k' \<Longrightarrow> now k + wait < now k'" using stamp(2) q by (simp add: quiet_def)
  then have "wait_promise K now wait (now k + wait) readable writeable (k', ret, r, w)"
    using wait_promise_mono [OF k'(3)] by blast
  moreover have "now k' \<le> now k + wait + 1" if "punctual K now" "0 \<le> wait"
  proof -
    have "now k1 = now k" using that(1) t by (simp add: punctual_def)
    then show ?thesis using k'(4) stamp(2) that by simp
  qed
  moreover have "quiet src sink pend now k k'" using quiet_trans [OF _ k'(2)] q by blast
  ultimately show ?thesis using k'(1) unfolding l by blast
qed

text \<open>The last \<open>poll\<close> for the events \<open>ev\<close> has left the descriptor in \<open>k'\<close> and reported such a set.\<close>

definition polled :: "'k kernel \<Rightarrow> 'k \<Rightarrow> 16 word \<Rightarrow> (16 word \<Rightarrow> bool) \<Rightarrow> bool" where
  "polled K k' ev P \<longleftrightarrow> (\<exists>k1 t r. sys_poll K k1 ev t = (k', Inr r) \<and> P r)"

text \<open>The two results: waiting to read is vain only when the time is over; waiting to write also when
  the descriptor has an error or its other end is closed.\<close>

abbreviation time_over :: "('k \<Rightarrow> int) \<Rightarrow> 'k \<Rightarrow> int \<Rightarrow> 'k \<Rightarrow> bool" where
  "time_over now k wait k' \<equiv> if 0 < wait then now k + wait < now k' else wait = 0"

definition read_waited :: "'k kernel \<Rightarrow> ('k \<Rightarrow> int) \<Rightarrow> 'k \<Rightarrow> int \<Rightarrow> 'k \<times> int \<Rightarrow> bool" where
  "read_waited K now k wait = (\<lambda>(k', ret).
     ret = 0 \<and> time_over now k wait k'
   \<or> ret = 1 \<and> polled K k' POLLIN (\<lambda>r. r AND (POLLIN OR POLLHUP OR POLLERR) \<noteq> 0)
   \<or> ret = - 1 \<and> polled K k' POLLIN (\<lambda>r. r AND POLLNVAL \<noteq> 0))"

definition write_waited :: "'k kernel \<Rightarrow> ('k \<Rightarrow> int) \<Rightarrow> 'k \<Rightarrow> int \<Rightarrow> 'k \<times> int \<Rightarrow> bool" where
  "write_waited K now k wait = (\<lambda>(k', ret).
     ret = 0 \<and> (time_over now k wait k' \<or> polled K k' POLLOUT (\<lambda>r. r \<noteq> 0 \<and> r AND (POLLOUT OR POLLNVAL) = 0))
   \<or> ret = 1 \<and> polled K k' POLLOUT (\<lambda>r. r AND POLLOUT \<noteq> 0)
   \<or> ret = - 1 \<and> polled K k' POLLOUT (\<lambda>r. r AND POLLNVAL \<noteq> 0))"

lemmas poll_flag_defs = POLLIN_def POLLOUT_def POLLERR_def POLLHUP_def POLLNVAL_def POLLRDNORM_def POLLWRNORM_def

lemma poll_reports_read:
  assumes "poll_reports POLLIN r" "r \<noteq> 0" "r AND POLLNVAL = 0"
  shows "r AND read_events \<noteq> 0" "r AND (POLLIN OR POLLHUP OR POLLERR) \<noteq> 0"
proof -
  let ?e = "POLLIN OR POLLHUP OR POLLERR"
  have part: "r = (r AND m) OR (r AND NOT m)" for m by (simp only: bit.conj_disj_distrib [symmetric]) simp
  have e: "POLLIN OR (POLLERR OR POLLHUP OR POLLNVAL) = ?e OR POLLNVAL" by (simp add: ac_simps)
  have "r AND NOT (?e OR POLLNVAL) = 0" using assms(1) unfolding poll_reports_def e .
  then have "r = r AND (?e OR POLLNVAL)" using part [of "?e OR POLLNVAL"] by (simp only: or.right_neutral)
  then have "r = (r AND ?e) OR (r AND POLLNVAL)" by (simp only: bit.conj_disj_distrib)
  then have n: "r AND ?e \<noteq> 0" using assms(2,3) by auto
  then show "r AND (POLLIN OR POLLHUP OR POLLERR) \<noteq> 0" .
  show "r AND read_events \<noteq> 0"
  proof
    assume "r AND read_events = 0"
    moreover have "read_events = ?e OR (POLLRDNORM OR POLLWRNORM)" by (simp add: ac_simps)
    ultimately have "r AND ?e = 0" by (simp add: bit.conj_disj_distrib or_eq_0_iff)
    with n show False ..
  qed
qed

lemma read_wait_returns1:
  assumes "kernel_ok K src sink pend now"
  shows "\<exists>k' ret. ztimed_read_wait_millisecond K k wait = Some (k', ret) \<and> quiet src sink pend now k k'
    \<and> read_waited K now k wait (k', ret) \<and> (punctual K now \<longrightarrow> 0 \<le> wait \<longrightarrow> now k' \<le> now k + wait + 1)"
proof -
  from wait_returns [OF assms, of k wait True False] obtain k' ret r w where
    w: "ztimed_read_write_wait_millisecond K k wait True False = Some (k', ret, r, w)" "quiet src sink pend now k k'"
    "wait_promise K now wait (now k + wait) True False (k', ret, r, w)"
    "punctual K now \<longrightarrow> 0 \<le> wait \<longrightarrow> now k' \<le> now k + wait + 1" by blast
  have "read_waited K now k wait (k', if ret < 1 then ret else of_bool r)"
    using w(3) unfolding wait_promise_def prod.case
  proof (elim disjE conjE exE)
    assume "ret = 0" "time_over now k wait k'"
    then show ?thesis by (simp add: read_waited_def)
  next
    fix k1 t rv
    assume s: "sys_poll K k1 (poll_events True False) t = (k', Inr rv)" and n: "rv \<noteq> 0"
      and c: "if rv AND POLLNVAL \<noteq> 0 then ret = - 1 \<and> \<not> r \<and> \<not> w
        else ret = 1 \<and> (r \<longleftrightarrow> True \<and> rv AND read_events \<noteq> 0) \<and> (w \<longleftrightarrow> False \<and> rv AND POLLOUT \<noteq> 0)"
    have s': "sys_poll K k1 POLLIN t = (k', Inr rv)" using s by simp
    note e = kernel_okD(2) [OF assms s']
    show ?thesis
    proof (cases "rv AND POLLNVAL = 0")
      case True
      then have "polled K k' POLLIN (\<lambda>r. r AND (POLLIN OR POLLHUP OR POLLERR) \<noteq> 0)" "r" "ret = 1"
        unfolding polled_def using poll_reports_read [OF _ n True] e s' c by auto
      then show ?thesis by (simp add: read_waited_def)
    next
      case False
      then have "polled K k' POLLIN (\<lambda>r. r AND POLLNVAL \<noteq> 0)" "ret = - 1" unfolding polled_def using s' c by auto
      then show ?thesis by (simp add: read_waited_def)
    qed
  qed
  with w show ?thesis by (simp add: ztimed_read_wait_millisecond_def)
qed

lemma write_wait_returns1:
  assumes "kernel_ok K src sink pend now"
  shows "\<exists>k' ret. ztimed_write_wait_millisecond K k wait = Some (k', ret) \<and> quiet src sink pend now k k'
    \<and> write_waited K now k wait (k', ret) \<and> (punctual K now \<longrightarrow> 0 \<le> wait \<longrightarrow> now k' \<le> now k + wait + 1)"
proof -
  from wait_returns [OF assms, of k wait False True] obtain k' ret r w where
    w: "ztimed_read_write_wait_millisecond K k wait False True = Some (k', ret, r, w)" "quiet src sink pend now k k'"
    "wait_promise K now wait (now k + wait) False True (k', ret, r, w)"
    "punctual K now \<longrightarrow> 0 \<le> wait \<longrightarrow> now k' \<le> now k + wait + 1" by blast
  have "write_waited K now k wait (k', if ret < 1 then ret else of_bool w)"
    using w(3) unfolding wait_promise_def prod.case
  proof (elim disjE conjE exE)
    assume "ret = 0" "time_over now k wait k'"
    then show ?thesis by (simp add: write_waited_def)
  next
    fix k1 t rv
    assume s: "sys_poll K k1 (poll_events False True) t = (k', Inr rv)" and n: "rv \<noteq> 0"
      and c: "if rv AND POLLNVAL \<noteq> 0 then ret = - 1 \<and> \<not> r \<and> \<not> w
        else ret = 1 \<and> (r \<longleftrightarrow> False \<and> rv AND read_events \<noteq> 0) \<and> (w \<longleftrightarrow> True \<and> rv AND POLLOUT \<noteq> 0)"
    have s': "sys_poll K k1 POLLOUT t = (k', Inr rv)" using s by simp
    consider "rv AND POLLNVAL \<noteq> 0" "ret = - 1" | "rv AND POLLNVAL = 0" "rv AND POLLOUT = 0" "ret = 1" "\<not> w"
      | "rv AND POLLOUT \<noteq> 0" "ret = 1" "w" using c by (auto split: if_splits)
    then show ?thesis
    proof cases
      case 1
      then have "polled K k' POLLOUT (\<lambda>r. r AND POLLNVAL \<noteq> 0)" unfolding polled_def using s' by blast
      then show ?thesis using 1 by (simp add: write_waited_def)
    next
      case 2
      then have "rv AND (POLLOUT OR POLLNVAL) = 0" by (simp only: bit.conj_disj_distrib or.right_neutral)
      then have "polled K k' POLLOUT (\<lambda>r. r \<noteq> 0 \<and> r AND (POLLOUT OR POLLNVAL) = 0)" unfolding polled_def using s' n by blast
      then show ?thesis using 2 by (simp add: write_waited_def)
    next
      case 3
      then have "polled K k' POLLOUT (\<lambda>r. r AND POLLOUT \<noteq> 0)" unfolding polled_def using s' by blast
      then show ?thesis using 3 by (simp add: write_waited_def)
    qed
  qed
  with w show ?thesis by (simp add: ztimed_write_wait_millisecond_def)
qed

section \<open>Reading and writing end\<close>

text \<open>What a reader and a writer of the descriptor are promised.\<close>

definition read_promise :: "('k \<Rightarrow> bytes) \<Rightarrow> ('k \<Rightarrow> bytes) \<Rightarrow> 'k \<Rightarrow> nat \<Rightarrow> 'k \<times> int \<times> bytes \<Rightarrow> bool" where
  "read_promise src sink k n = (\<lambda>(k', ret, d). sink k' = sink k
     \<and> (if ret < 0 then d = [] \<and> src k' = src k
        else ret = int (length d) \<and> length d \<le> n \<and> src k = d @ src k' \<and> (d = [] \<longrightarrow> src k' = [])))"

definition write_promise :: "('k \<Rightarrow> bytes) \<Rightarrow> ('k \<Rightarrow> bytes) \<Rightarrow> ('k \<Rightarrow> nat) \<Rightarrow> 'k \<Rightarrow> bytes \<Rightarrow> 'k \<times> int \<Rightarrow> bool" where
  "write_promise src sink pend k d = (\<lambda>(k', ret). src k' = src k
     \<and> (if ret < 0 then sink k' = sink k
        else nat ret \<le> length d \<and> sink k' = sink k @ take (nat ret) d \<and> (ret = 0 \<longrightarrow> pend k' < pend k)))"

text \<open>Why they may fail: the call itself failed, not by an interruption and, where the code waits, not
  because it would block; or the time is over; or \<open>poll\<close> has reported an error where a write was waited for.\<close>

definition fatal :: "int \<Rightarrow> errno \<Rightarrow> bool" where
  "fatal wait ec \<longleftrightarrow> ec \<noteq> EINTR \<and> (wait \<noteq> 0 \<longrightarrow> ec \<noteq> EAGAIN)"

definition read_failure :: "'k kernel \<Rightarrow> ('k \<Rightarrow> int) \<Rightarrow> 'k \<Rightarrow> nat \<Rightarrow> int \<Rightarrow> 'k \<Rightarrow> bool" where
  "read_failure K now k n wait k' \<longleftrightarrow>
     (\<exists>k1 ec. sys_read K k1 n = (k', Inl ec) \<and> fatal wait ec) \<or> (0 < wait \<and> now k + 1000 * wait < now k')"

definition write_failure :: "'k kernel \<Rightarrow> ('k \<Rightarrow> int) \<Rightarrow> 'k \<Rightarrow> bytes \<Rightarrow> int \<Rightarrow> 'k \<Rightarrow> bool" where
  "write_failure K now k d wait k' \<longleftrightarrow>
     (\<exists>k1 ec. sys_write K k1 d = (k', Inl ec) \<and> fatal wait ec) \<or> (0 < wait \<and> now k + 1000 * wait < now k')
   \<or> (wait \<noteq> 0 \<and> polled K k' POLLOUT (\<lambda>r. r \<noteq> 0 \<and> r AND (POLLOUT OR POLLNVAL) = 0))"

definition read_result ::
  "'k kernel \<Rightarrow> ('k \<Rightarrow> bytes) \<Rightarrow> ('k \<Rightarrow> bytes) \<Rightarrow> ('k \<Rightarrow> int) \<Rightarrow> 'k \<Rightarrow> nat \<Rightarrow> int \<Rightarrow> 'k \<times> int \<times> bytes \<Rightarrow> bool" where
  "read_result K src sink now k n wait = (\<lambda>(k', ret, d). read_promise src sink k n (k', ret, d)
     \<and> (ret < 0 \<longrightarrow> ret = - 1 \<and> read_failure K now k n wait k'))"

definition write_result ::
  "'k kernel \<Rightarrow> ('k \<Rightarrow> bytes) \<Rightarrow> ('k \<Rightarrow> bytes) \<Rightarrow> ('k \<Rightarrow> nat) \<Rightarrow> ('k \<Rightarrow> int) \<Rightarrow> 'k \<Rightarrow> bytes \<Rightarrow> int \<Rightarrow> 'k \<times> int \<Rightarrow> bool" where
  "write_result K src sink pend now k d wait = (\<lambda>(k', ret). write_promise src sink pend k d (k', ret)
     \<and> (ret < 0 \<longrightarrow> ret = - 1 \<and> write_failure K now k d wait k') \<and> (wait \<noteq> 0 \<longrightarrow> ret \<noteq> 0))"

lemma read_result_quiet:
  assumes "quiet src sink pend now k k1" "read_result K src sink now k1 n wait r"
  shows "read_result K src sink now k n wait r"
proof -
  have "read_promise src sink k1 n r \<Longrightarrow> read_promise src sink k n r"
    using assms(1) unfolding read_promise_def quiet_def by (cases r) (simp only: prod.case simp_thms, elim conjE)
  moreover have "read_failure K now k1 n wait k' \<Longrightarrow> read_failure K now k n wait k'" for k'
    using assms(1) unfolding read_failure_def quiet_def by (elim disjE) (blast, linarith)
  ultimately show ?thesis using assms(2) unfolding read_result_def by (cases r) blast
qed

lemma write_result_quiet:
  assumes "quiet src sink pend now k k1" "write_result K src sink pend now k1 d wait r"
  shows "write_result K src sink pend now k d wait r"
proof -
  have "write_promise src sink pend k1 d r \<Longrightarrow> write_promise src sink pend k d r"
    using assms(1) unfolding write_promise_def quiet_def by (cases r) (simp only: prod.case, auto)
  moreover have "write_failure K now k1 d wait k' \<Longrightarrow> write_failure K now k d wait k'" for k'
    using assms(1) unfolding write_failure_def quiet_def by auto
  ultimately show ?thesis using assms(2) unfolding write_result_def by (cases r) (simp only: prod.case, metis)
qed

lemma sys_read_result:
  assumes "kernel_ok K src sink pend now" "0 < n"
  shows "sys_read K k n = (k', Inl ec) \<Longrightarrow> fatal wait ec \<Longrightarrow> read_result K src sink now k n wait (k', - 1, [])"
    "sys_read K k n = (k', Inr d) \<Longrightarrow> read_result K src sink now k n wait (k', int (length d), d)"
proof -
  assume s: "sys_read K k n = (k', Inl ec)" "fatal wait ec"
  then have "read_failure K now k n wait k'" unfolding read_failure_def by blast
  then show "read_result K src sink now k n wait (k', - 1, [])"
    using kernel_okD(4) [OF assms s(1)] by (simp add: read_result_def read_promise_def)
qed (use kernel_okD(5) [OF assms] in \<open>simp add: read_result_def read_promise_def\<close>)

lemma read_now_returns:
  assumes "kernel_ok K src sink pend now" "0 < n"
  shows "\<exists>r. read_now_loop K k n = Some r \<and> read_result K src sink now k n 0 r"
proof (induction "pend k" arbitrary: k rule: less_induct)
  case less
  obtain k1 x where s: "sys_read K k n = (k1, x)" by (cases "sys_read K k n")
  note l = read_now_loop.simps [of K k] and res = sys_read_result [OF assms, of k k1]
  show ?case
  proof (cases x)
    case (Inl ec)
    note e = kernel_okD(4) [OF assms s [unfolded Inl]]
    show ?thesis
    proof (cases "ec = EINTR")
      case True
      then have "quiet src sink pend now k k1" "pend k1 < pend k" using e by (simp_all add: quiet_def)
      moreover have "read_now_loop K k n = read_now_loop K k1 n" using s Inl True by (simp add: l)
      ultimately show ?thesis using less [of k1] read_result_quiet by metis
    next
      case False
      then show ?thesis using res(1) [OF s [unfolded Inl], of 0] s Inl by (simp add: l fatal_def)
    qed
  next
    case (Inr d)
    with res(2) [OF s [unfolded Inr], of 0] s show ?thesis by (simp add: l)
  qed
qed

lemma read_wait_returns:
  assumes "kernel_ok K src sink pend now" "0 < n" "wait \<noteq> 0"
  shows "\<exists>r. read_wait_loop K k n wait = Some r \<and> read_result K src sink now k n wait r"
proof (induction "pend k" arbitrary: k rule: less_induct)
  case less
  from read_wait_returns1 [OF assms(1)] obtain k1 ret where
    w: "ztimed_read_wait_millisecond K k (1000 * wait) = Some (k1, ret)" "quiet src sink pend now k k1"
      "read_waited K now k (1000 * wait) (k1, ret)" by blast
  obtain k2 x where s: "sys_read K k1 n = (k2, x)" by (cases "sys_read K k1 n")
  note l = read_wait_loop.simps [of K k n wait] and res = sys_read_result [OF assms(1,2), of k1 k2]
  show ?case
  proof (cases "ret = 0")
    case True
    then have "time_over now k (1000 * wait) k1" using w(3) by (simp add: read_waited_def)
    then have "read_failure K now k n wait k1" using assms(3) by (simp add: read_failure_def split: if_splits)
    then show ?thesis using w True by (simp add: l read_result_def read_promise_def quiet_def)
  next
    case ret: False
    show ?thesis
    proof (cases x)
      case (Inl ec)
      note e = kernel_okD(4) [OF assms(1,2) s [unfolded Inl]]
      show ?thesis
      proof (cases "ec = EOTHER")
        case False
        then have q: "quiet src sink pend now k k2" "pend k2 < pend k" using e w(2) by (simp_all add: quiet_def)
        have "read_wait_loop K k n wait = read_wait_loop K k2 n wait"
          using w(1) s Inl False ret by (cases ec) (simp_all add: l)
        with less [OF q(2)] read_result_quiet [OF q(1)] show ?thesis by auto
      next
        case True
        then show ?thesis using read_result_quiet [OF w(2) res(1) [OF s [unfolded Inl], of wait]] w(1) s Inl ret
          by (simp add: l fatal_def)
      qed
    next
      case (Inr d)
      with read_result_quiet [OF w(2) res(2) [OF s [unfolded Inr], of wait]] w(1) s ret show ?thesis by (simp add: l)
    qed
  qed
qed

lemma ztimed_read_returns:
  assumes "kernel_ok K src sink pend now" "0 < n"
  shows "\<exists>r. ztimed_read K k n wait = Some r \<and> read_result K src sink now k n wait r"
  using read_now_returns [OF assms] read_wait_returns [OF assms] by (simp add: ztimed_read_def)

lemma sys_write_result:
  assumes "kernel_ok K src sink pend now" "d \<noteq> []"
  shows "sys_write K k d = (k', Inl ec) \<Longrightarrow> fatal wait ec \<Longrightarrow> write_result K src sink pend now k d wait (k', - 1)"
    "sys_write K k d = (k', Inr m) \<Longrightarrow> wait \<noteq> 0 \<longrightarrow> m \<noteq> 0 \<Longrightarrow> write_result K src sink pend now k d wait (k', int m)"
proof -
  assume s: "sys_write K k d = (k', Inl ec)" "fatal wait ec"
  then have "write_failure K now k d wait k'" unfolding write_failure_def by blast
  then show "write_result K src sink pend now k d wait (k', - 1)"
    using kernel_okD(6) [OF assms s(1)] by (simp add: write_result_def write_promise_def)
qed (use kernel_okD(7) [OF assms] in \<open>simp add: write_result_def write_promise_def\<close>)

lemma write_now_returns:
  assumes "kernel_ok K src sink pend now" "d \<noteq> []"
  shows "\<exists>r. write_now_loop K k d = Some r \<and> write_result K src sink pend now k d 0 r"
proof (induction "pend k" arbitrary: k rule: less_induct)
  case less
  obtain k1 x where s: "sys_write K k d = (k1, x)" by (cases "sys_write K k d")
  note l = write_now_loop.simps [of K k] and res = sys_write_result [OF assms, of k k1]
  show ?case
  proof (cases x)
    case (Inl ec)
    note e = kernel_okD(6) [OF assms s [unfolded Inl]]
    show ?thesis
    proof (cases "ec = EINTR")
      case True
      then have "quiet src sink pend now k k1" "pend k1 < pend k" using e by (simp_all add: quiet_def)
      moreover have "write_now_loop K k d = write_now_loop K k1 d" using s Inl True by (simp add: l)
      ultimately show ?thesis using less [of k1] write_result_quiet by metis
    next
      case False
      then show ?thesis using res(1) [OF s [unfolded Inl], of 0] s Inl by (simp add: l fatal_def)
    qed
  next
    case (Inr m)
    with res(2) [OF s [unfolded Inr], of 0] s show ?thesis by (simp add: l)
  qed
qed

lemma write_wait_returns:
  assumes "kernel_ok K src sink pend now" "d \<noteq> []" "wait \<noteq> 0"
  shows "\<exists>r. write_wait_loop K k d wait = Some r \<and> write_result K src sink pend now k d wait r"
proof (induction "pend k" arbitrary: k rule: less_induct)
  case less
  from write_wait_returns1 [OF assms(1)] obtain k1 ret where
    w: "ztimed_write_wait_millisecond K k (1000 * wait) = Some (k1, ret)" "quiet src sink pend now k k1"
      "write_waited K now k (1000 * wait) (k1, ret)" by blast
  obtain k2 x where s: "sys_write K k1 d = (k2, x)" by (cases "sys_write K k1 d")
  note l = write_wait_loop.simps [of K k d wait] and res = sys_write_result [OF assms(1,2), of k1 k2]
  have again: ?case if "quiet src sink pend now k1 k2" "pend k2 < pend k1" "write_wait_loop K k d wait = write_wait_loop K k2 d wait"
  proof -
    have q: "quiet src sink pend now k k2" "pend k2 < pend k" using w(2) that by (simp_all add: quiet_def)
    from less [OF q(2)] write_result_quiet [OF q(1)] that(3) show ?thesis by auto
  qed
  show ?case
  proof (cases "ret = 0")
    case True
    then have "time_over now k (1000 * wait) k1 \<or> polled K k1 POLLOUT (\<lambda>r. r \<noteq> 0 \<and> r AND (POLLOUT OR POLLNVAL) = 0)"
      using w(3) by (simp add: write_waited_def)
    then have "write_failure K now k d wait k1" unfolding write_failure_def using assms(3) by (auto split: if_splits)
    then show ?thesis using w True by (simp add: l write_result_def write_promise_def quiet_def)
  next
    case ret: False
    show ?thesis
    proof (cases x)
      case (Inl ec)
      note e = kernel_okD(6) [OF assms(1,2) s [unfolded Inl]]
      show ?thesis
      proof (cases "ec = EOTHER")
        case False
        then have ec: "ec = EINTR \<or> ec = EAGAIN" by (cases ec) simp_all
        then show ?thesis using False e w(1) s Inl ret by (intro again) (auto simp: l quiet_def)
      next
        case True
        then show ?thesis using write_result_quiet [OF w(2) res(1) [OF s [unfolded Inl], of wait]] w(1) s Inl ret
          by (simp add: l fatal_def)
      qed
    next
      case (Inr m)
      note e = kernel_okD(7) [OF assms(1,2) s [unfolded Inr]]
      show ?thesis
      proof (cases "m = 0")
        case True
        then show ?thesis using e w(1) s Inr ret by (intro again) (simp_all add: l quiet_def)
      next
        case False
        then show ?thesis using write_result_quiet [OF w(2) res(2) [OF s [unfolded Inr], of wait]] w(1) s Inr ret by (simp add: l)
      qed
    qed
  qed
qed

lemma ztimed_write_returns:
  assumes "kernel_ok K src sink pend now" "d \<noteq> []"
  shows "\<exists>r. ztimed_write K k d wait = Some r \<and> write_result K src sink pend now k d wait r"
  using write_now_returns [OF assms] write_wait_returns [OF assms] by (simp add: ztimed_write_def)

end
