(* ===== verification/Stream.thy ===== *)
theory Stream
  imports Pack TimedIo
begin

text \<open>
  Buffered streams (\<open>src/stream/stream.c\<close>, \<open>src/stream/fd.c\<close> and the stream macros of \<open>zc.h\<close>) over an
  engine, the record of functions that a stream calls: its state \<open>'io\<close> stands for what \<open>fp->ioctx\<close> leads
  to. \<open>None\<close> is a call that never returns, or \<open>zfatal\<close>.
\<close>

section \<open>The stream and its engine\<close>

text \<open>\<open>read_fn\<close> and \<open>write_fn\<close> are also given the timeouts of the stream.\<close>

record 'io zstream_engine =
  close_fn :: "'io \<Rightarrow> bool \<Rightarrow> 'io \<times> int"
  read_fn :: "'io \<Rightarrow> int \<Rightarrow> nat \<Rightarrow> ('io \<times> int \<times> bytes) option"
  write_fn :: "'io \<Rightarrow> int \<Rightarrow> bytes \<Rightarrow> ('io \<times> int) option"
  timed_read_wait_fn :: "'io \<Rightarrow> int \<Rightarrow> ('io \<times> int) option"
  timed_write_wait_fn :: "'io \<Rightarrow> int \<Rightarrow> ('io \<times> int) option"

definition zvar_stream_rbuf_size :: nat where
  "zvar_stream_rbuf_size = 4096"

definition zvar_stream_wbuf_size :: nat where
  "zvar_stream_wbuf_size = 4096"

record 'io zstream =
  read_wait_timeout :: int
  write_wait_timeout :: int
  ioctx :: 'io
  read_buf_p1 :: nat
  read_buf_p2 :: nat
  write_buf_len :: nat
  s_error :: bool
  s_eof :: bool
  read_buf :: bytes
  write_buf :: bytes

text \<open>The engine of a descriptor, and a stream over it.\<close>

definition fd_engine :: "'k kernel \<Rightarrow> ('k \<Rightarrow> bool \<Rightarrow> 'k \<times> int) \<Rightarrow> 'k zstream_engine" where
  "fd_engine K close =
     \<lparr>close_fn = close,
      read_fn = (\<lambda>k read_wait_timeout len. ztimed_read K k len read_wait_timeout),
      write_fn = (\<lambda>k write_wait_timeout buf. ztimed_write K k buf write_wait_timeout),
      timed_read_wait_fn = ztimed_read_wait K,
      timed_write_wait_fn = ztimed_write_wait K\<rparr>"

definition zstream_open_fd :: "'k \<Rightarrow> 'k zstream" where
  "zstream_open_fd k =
     \<lparr>read_wait_timeout = - 1, write_wait_timeout = - 1, ioctx = k, read_buf_p1 = 0, read_buf_p2 = 0,
      write_buf_len = 0, s_error = False, s_eof = False,
      read_buf = replicate zvar_stream_rbuf_size 0, write_buf = replicate zvar_stream_wbuf_size 0\<rparr>"

definition zstream_set_read_wait_timeout :: "'io zstream \<Rightarrow> int \<Rightarrow> 'io zstream" where
  "zstream_set_read_wait_timeout fp t = fp\<lparr>read_wait_timeout := t\<rparr>"

definition zstream_set_write_wait_timeout :: "'io zstream \<Rightarrow> int \<Rightarrow> 'io zstream" where
  "zstream_set_write_wait_timeout fp t = fp\<lparr>write_wait_timeout := t\<rparr>"

definition zstream_timed_read_wait :: "'io zstream_engine \<Rightarrow> 'io zstream \<Rightarrow> int \<Rightarrow> ('io zstream \<times> int) option" where
  "zstream_timed_read_wait e fp timeout =
     (if read_buf_p1 fp < read_buf_p2 fp then Some (fp, 1)
      else do { (io, ret) \<leftarrow> timed_read_wait_fn e (ioctx fp) timeout; Some (fp\<lparr>ioctx := io\<rparr>, ret) })"

definition zstream_timed_write_wait :: "'io zstream_engine \<Rightarrow> 'io zstream \<Rightarrow> int \<Rightarrow> ('io zstream \<times> int) option" where
  "zstream_timed_write_wait e fp timeout =
     do { (io, ret) \<leftarrow> timed_write_wait_fn e (ioctx fp) timeout; Some (fp\<lparr>ioctx := io\<rparr>, ret) }"

definition zstream_is_exception :: "'io zstream \<Rightarrow> bool" where
  "zstream_is_exception fp = (s_eof fp \<or> s_error fp)"

definition zstream_get_read_cache_len :: "'io zstream \<Rightarrow> nat" where
  "zstream_get_read_cache_len fp = read_buf_p2 fp - read_buf_p1 fp"

section \<open>Flushing\<close>

text \<open>The loop returns the number of bytes that were not written.\<close>

partial_function (option) flush_loop :: "'io zstream_engine \<Rightarrow> int \<Rightarrow> 'io \<Rightarrow> bytes \<Rightarrow> ('io \<times> nat) option" where
  "flush_loop e t io data =
     (if data = [] then Some (io, 0)
      else do {
        (io1, ret) \<leftarrow> write_fn e io t data;
        if ret < 0 then Some (io1, length data) else flush_loop e t io1 (drop (nat ret) data) })"

definition zstream_flush :: "'io zstream_engine \<Rightarrow> 'io zstream \<Rightarrow> ('io zstream \<times> int) option" where
  "zstream_flush e fp =
     (if s_error fp then Some (fp, - 1)
      else do {
        (io, left) \<leftarrow> flush_loop e (write_wait_timeout fp) (ioctx fp) (take (write_buf_len fp) (write_buf fp));
        let fp1 = fp\<lparr>ioctx := io, write_buf_len := 0\<rparr>;
        if left > 0 then Some (fp1\<lparr>s_error := True\<rparr>, - 1) else Some (fp1, 1) })"

text \<open>Closing: the stream is gone afterwards, so only the state of its engine is returned.\<close>

definition zstream_close :: "'io zstream_engine \<Rightarrow> 'io zstream \<Rightarrow> bool \<Rightarrow> ('io \<times> int) option" where
  "zstream_close e fp release_ioctx = do {
     (fp1, ret) \<leftarrow> zstream_flush e fp;
     Some (fst (close_fn e (ioctx fp1) release_ioctx), ret) }"

section \<open>Reading\<close>

definition zstream_getc_do :: "'io zstream_engine \<Rightarrow> 'io zstream \<Rightarrow> ('io zstream \<times> int) option" where
  "zstream_getc_do e fp =
     (if read_buf_p1 fp < read_buf_p2 fp
      then Some (fp\<lparr>read_buf_p1 := read_buf_p1 fp + 1\<rparr>, uint (read_buf fp ! read_buf_p1 fp))
      else if s_error fp \<or> s_eof fp then Some (fp, - 1)
      else do {
        (fp1, fl) \<leftarrow> (if write_buf_len fp > 0 then zstream_flush e fp else Some (fp, 1));
        if fl = - 1 then Some (fp1, - 1)
        else do {
          let fp2 = fp1\<lparr>read_buf_p1 := 0, read_buf_p2 := 0\<rparr>;
          (io, ret, d) \<leftarrow> read_fn e (ioctx fp2) (read_wait_timeout fp2) zvar_stream_rbuf_size;
          let fp3 = fp2\<lparr>ioctx := io, read_buf := d @ drop (length d) (read_buf fp2)\<rparr>;
          if ret = 0 then Some (fp3\<lparr>s_eof := True\<rparr>, - 1)
          else if ret < 0 then Some (fp3\<lparr>s_error := True\<rparr>, - 1)
          else Some (fp3\<lparr>read_buf_p1 := 1, read_buf_p2 := nat ret\<rparr>, uint (read_buf fp3 ! 0)) } })"

definition ZSTREAM_GETC :: "'io zstream_engine \<Rightarrow> 'io zstream \<Rightarrow> ('io zstream \<times> int) option" where
  "ZSTREAM_GETC e fp =
     (if read_buf_p1 fp < read_buf_p2 fp
      then Some (fp\<lparr>read_buf_p1 := read_buf_p1 fp + 1\<rparr>, uint (read_buf fp ! read_buf_p1 fp))
      else zstream_getc_do e fp)"

definition zstream_ungetc :: "'io zstream \<Rightarrow> 'io zstream option" where
  "zstream_ungetc fp = (if read_buf_p1 fp > 0 then Some (fp\<lparr>read_buf_p1 := read_buf_p1 fp - 1\<rparr>) else None)"

definition zstream_read :: "'io zstream_engine \<Rightarrow> 'io zstream \<Rightarrow> zbuf \<Rightarrow> int \<Rightarrow> ('io zstream \<times> zbuf \<times> int) option" where
  "zstream_read e fp bf max_len =
     (if max_len < 1 then Some (fp, bf, 0)
      else
        let bf = zbuf_reset bf; have_len = int (read_buf_p2 fp) - int (read_buf_p1 fp) in do {
          (fp, ch) \<leftarrow> (if have_len = 0 then zstream_getc_do e fp else Some (fp, 0));
          if have_len = 0 \<and> ch = - 1 then Some (fp, bf, if s_eof fp then 0 else - 1)
          else do {
            let (bf, have_len, left_len) =
              (if have_len = 0 then (ZBUF_PUT bf (of_int ch), int (read_buf_p2 fp) - int (read_buf_p1 fp), max_len - 1)
               else (bf, have_len, max_len));
            let bf = zbuf_terminate bf;
            let left_len = (if left_len > have_len then have_len else left_len);
            let bf = zbuf_memcat bf (drop (read_buf_p1 fp) (read_buf fp)) left_len;
            Some (fp\<lparr>read_buf_p1 := read_buf_p1 fp + nat left_len\<rparr>, bf, int (zb_len bf)) } })"

text \<open>The bytes written to \<open>mem\<close> are part of the result.\<close>

definition zstream_read_to_mem :: "'io zstream_engine \<Rightarrow> 'io zstream \<Rightarrow> int \<Rightarrow> ('io zstream \<times> bytes \<times> int) option" where
  "zstream_read_to_mem e fp max_len =
     (if max_len < 1 then Some (fp, [], 0)
      else
        let have_len = int (read_buf_p2 fp) - int (read_buf_p1 fp) in do {
          (fp, ch) \<leftarrow> (if have_len = 0 then zstream_getc_do e fp else Some (fp, 0));
          if have_len = 0 \<and> ch = - 1 then Some (fp, [], if s_eof fp then 0 else - 1)
          else do {
            let (ps, have_len, left_len, ret_len) =
              (if have_len = 0 then ([of_int ch], int (read_buf_p2 fp) - int (read_buf_p1 fp), max_len - 1, 1)
               else ([], have_len, max_len, 0));
            let left_len = (if left_len > have_len then have_len else left_len);
            Some (fp\<lparr>read_buf_p1 := read_buf_p1 fp + nat left_len\<rparr>,
              ps @ take (nat left_len) (drop (read_buf_p1 fp) (read_buf fp)), ret_len + left_len) } })"

text \<open>The loops return \<open>left_len\<close>; the destination is optional. The last argument of \<open>delimiter_loop\<close>
  counts \<open>left_len\<close> down.\<close>

fun readn_loop :: "'io zstream_engine \<Rightarrow> 'io zstream \<Rightarrow> zbuf option \<Rightarrow> nat \<Rightarrow> ('io zstream \<times> zbuf option \<times> nat) option" where
  "readn_loop e fp bf 0 = Some (fp, bf, 0)"
| "readn_loop e fp bf (Suc left_len) = do {
     (fp, ch) \<leftarrow> ZSTREAM_GETC e fp;
     if ch = - 1 then Some (fp, bf, Suc left_len)
     else readn_loop e fp (map_option (\<lambda>b. ZBUF_PUT b (of_int ch)) bf) left_len }"

definition zstream_readn :: "'io zstream_engine \<Rightarrow> 'io zstream \<Rightarrow> zbuf option \<Rightarrow> int \<Rightarrow> ('io zstream \<times> zbuf option \<times> int) option" where
  "zstream_readn e fp bf strict_len =
     (if strict_len < 1 then Some (fp, bf, 0)
      else do {
        (fp, bf, left_len) \<leftarrow> readn_loop e fp (map_option zbuf_reset bf) (nat strict_len);
        let bf = map_option zbuf_terminate bf;
        Some (fp, bf, if strict_len > int left_len then strict_len - int left_len else if s_eof fp then 0 else - 1) })"

fun readn_mem_loop :: "'io zstream_engine \<Rightarrow> 'io zstream \<Rightarrow> bytes option \<Rightarrow> nat \<Rightarrow> ('io zstream \<times> bytes option \<times> nat) option" where
  "readn_mem_loop e fp ps 0 = Some (fp, ps, 0)"
| "readn_mem_loop e fp ps (Suc left_len) = do {
     (fp, ch) \<leftarrow> ZSTREAM_GETC e fp;
     if ch = - 1 then Some (fp, ps, Suc left_len)
     else readn_mem_loop e fp (map_option (\<lambda>p. p @ [of_int ch]) ps) left_len }"

definition zstream_readn_to_mem :: "'io zstream_engine \<Rightarrow> 'io zstream \<Rightarrow> bool \<Rightarrow> int \<Rightarrow> ('io zstream \<times> bytes option \<times> int) option" where
  "zstream_readn_to_mem e fp mem strict_len =
     (if strict_len < 1 then Some (fp, if mem then Some [] else None, 0)
      else do {
        (fp, ps, left_len) \<leftarrow> readn_mem_loop e fp (if mem then Some [] else None) (nat strict_len);
        Some (fp, ps, if strict_len > int left_len then strict_len - int left_len else if s_eof fp then 0 else - 1) })"

fun delimiter_loop :: "'io zstream_engine \<Rightarrow> 'io zstream \<Rightarrow> zbuf option \<Rightarrow> int \<Rightarrow> nat \<Rightarrow> ('io zstream \<times> zbuf option \<times> nat) option" where
  "delimiter_loop e fp bf delimiter 0 = Some (fp, bf, 0)"
| "delimiter_loop e fp bf delimiter (Suc left_len) = do {
     (fp, ch) \<leftarrow> ZSTREAM_GETC e fp;
     if ch = - 1 then Some (fp, bf, Suc left_len)
     else do {
       let bf = map_option (\<lambda>b. ZBUF_PUT b (of_int ch)) bf;
       if ch = delimiter then Some (fp, bf, left_len) else delimiter_loop e fp bf delimiter left_len } }"

definition zstream_read_delimiter :: "'io zstream_engine \<Rightarrow> 'io zstream \<Rightarrow> zbuf option \<Rightarrow> int \<Rightarrow> int \<Rightarrow> ('io zstream \<times> zbuf option \<times> int) option" where
  "zstream_read_delimiter e fp bf delimiter max_len =
     (if max_len < 1 then Some (fp, bf, 0)
      else do {
        (fp, bf, left_len) \<leftarrow> delimiter_loop e fp (map_option zbuf_reset bf) delimiter (nat max_len);
        let bf = map_option zbuf_terminate bf;
        Some (fp, bf, if max_len > int left_len then max_len - int left_len else if s_eof fp then 0 else - 1) })"

definition zstream_gets :: "'io zstream_engine \<Rightarrow> 'io zstream \<Rightarrow> zbuf option \<Rightarrow> int \<Rightarrow> ('io zstream \<times> zbuf option \<times> int) option" where
  "zstream_gets e fp bf max_len = zstream_read_delimiter e fp bf 10 max_len"

fun delimiter_mem_loop :: "'io zstream_engine \<Rightarrow> 'io zstream \<Rightarrow> bytes option \<Rightarrow> int \<Rightarrow> nat \<Rightarrow> ('io zstream \<times> bytes option \<times> nat) option" where
  "delimiter_mem_loop e fp ps delimiter 0 = Some (fp, ps, 0)"
| "delimiter_mem_loop e fp ps delimiter (Suc left_len) = do {
     (fp, ch) \<leftarrow> ZSTREAM_GETC e fp;
     if ch = - 1 then Some (fp, ps, Suc left_len)
     else do {
       let ps = map_option (\<lambda>p. p @ [of_int ch]) ps;
       if ch = delimiter then Some (fp, ps, left_len) else delimiter_mem_loop e fp ps delimiter left_len } }"

text \<open>\<open>*ps = 0\<close> at the end is executed for a missing destination too: a fault.\<close>

definition zstream_read_delimiter_to_mem :: "'io zstream_engine \<Rightarrow> 'io zstream \<Rightarrow> bool \<Rightarrow> int \<Rightarrow> int \<Rightarrow> ('io zstream \<times> bytes option \<times> int) option" where
  "zstream_read_delimiter_to_mem e fp mem delimiter max_len =
     (if max_len < 1 then Some (fp, if mem then Some [] else None, 0)
      else do {
        (fp, ps, left_len) \<leftarrow> delimiter_mem_loop e fp (if mem then Some [] else None) delimiter (nat max_len);
        ps \<leftarrow> ps;
        Some (fp, Some (ps @ [0]), if max_len > int left_len then max_len - int left_len else if s_eof fp then 0 else - 1) })"

partial_function (option) get_cint_loop :: "'io zstream_engine \<Rightarrow> 'io zstream \<Rightarrow> 32 word \<Rightarrow> nat \<Rightarrow> ('io zstream \<times> int) option" where
  "get_cint_loop e fp n shift = do {
     (fp, ch) \<leftarrow> ZSTREAM_GETC e fp;
     if ch = - 1 then Some (fp, - 1)
     else do {
       let n = n OR push_bit shift (of_int (ch AND 127));
       if ch AND 128 \<noteq> 0 then Some (fp, sint n) else get_cint_loop e fp n (shift + 7) } }"

definition zstream_get_cint :: "'io zstream_engine \<Rightarrow> 'io zstream \<Rightarrow> ('io zstream \<times> int) option" where
  "zstream_get_cint e fp = get_cint_loop e fp 0 0"

section \<open>Writing\<close>

definition zstream_putc_do :: "'io zstream_engine \<Rightarrow> 'io zstream \<Rightarrow> int \<Rightarrow> ('io zstream \<times> int) option" where
  "zstream_putc_do e fp c =
     (if s_error fp then Some (fp, - 1)
      else do {
        (fp, ret) \<leftarrow> (if write_buf_len fp \<ge> zvar_stream_rbuf_size then zstream_flush e fp else Some (fp, 1));
        if ret = - 1 then Some (fp, - 1)
        else Some (fp\<lparr>write_buf := (write_buf fp)[write_buf_len fp := of_int c], write_buf_len := write_buf_len fp + 1\<rparr>, c) })"

definition ZSTREAM_PUTC :: "'io zstream_engine \<Rightarrow> 'io zstream \<Rightarrow> int \<Rightarrow> ('io zstream \<times> int) option" where
  "ZSTREAM_PUTC e fp c =
     (if write_buf_len fp < zvar_stream_wbuf_size
      then Some (fp\<lparr>write_buf := (write_buf fp)[write_buf_len fp := of_int c], write_buf_len := write_buf_len fp + 1\<rparr>, c)
      else zstream_putc_do e fp c)"

text \<open>\<open>char\<close> is signed. The loop returns whether it came to the end; \<open>zstream_puts\<close> runs it on the bytes
  before the NUL.\<close>

fun write_loop :: "'io zstream_engine \<Rightarrow> 'io zstream \<Rightarrow> bytes \<Rightarrow> ('io zstream \<times> bool) option" where
  "write_loop e fp [] = Some (fp, True)"
| "write_loop e fp (c # str) = do {
     (fp, _) \<leftarrow> ZSTREAM_PUTC e fp (sint c);
     if s_error fp \<or> s_eof fp then Some (fp, False) else write_loop e fp str }"

definition zstream_puts :: "'io zstream_engine \<Rightarrow> 'io zstream \<Rightarrow> bytes \<Rightarrow> ('io zstream \<times> int) option" where
  "zstream_puts e fp s = do {
     (fp, fin) \<leftarrow> write_loop e fp (src_bytes s (- 1));
     Some (fp, if fin then int (length (src_bytes s (- 1))) else - 1) }"

definition zstream_write :: "'io zstream_engine \<Rightarrow> 'io zstream \<Rightarrow> bytes \<Rightarrow> int \<Rightarrow> ('io zstream \<times> int) option" where
  "zstream_write e fp buf len =
     (if len < 1 then Some (fp, 0)
      else do {
        (fp, fin) \<leftarrow> write_loop e fp (take (nat len) buf);
        Some (fp, if fin then len else - 1) })"

text \<open>The counter \<open>len\<close> of \<open>zstream_write_cint\<close> is never moved; the result is 0. A negative number
  is written for ever.\<close>

partial_function (option) write_cint_loop :: "'io zstream_engine \<Rightarrow> 'io zstream \<Rightarrow> int \<Rightarrow> 'io zstream option" where
  "write_cint_loop e fp left = do {
     (fp, _) \<leftarrow> ZSTREAM_PUTC e fp (let ch = left AND 127 in if drop_bit 7 left = 0 then ch OR 128 else ch);
     if drop_bit 7 left = 0 then Some fp else write_cint_loop e fp (drop_bit 7 left) }"

definition zstream_write_cint :: "'io zstream_engine \<Rightarrow> 'io zstream \<Rightarrow> int \<Rightarrow> ('io zstream \<times> int) option" where
  "zstream_write_cint e fp n = do { fp \<leftarrow> write_cint_loop e fp n; Some (fp, 0) }"

definition zstream_write_cint_and_data :: "'io zstream_engine \<Rightarrow> 'io zstream \<Rightarrow> bytes \<Rightarrow> int \<Rightarrow> ('io zstream \<times> int) option" where
  "zstream_write_cint_and_data e fp buf len0 = do {
     let len = (if len0 < 0 then int (length (src_bytes buf (- 1))) else len0);
     (fp, _) \<leftarrow> zstream_write_cint e fp len;
     (fp, _) \<leftarrow> zstream_write e fp buf len;
     Some (fp, len) }"

definition zstream_write_cint_and_pp :: "'io zstream_engine \<Rightarrow> 'io zstream \<Rightarrow> bytes list \<Rightarrow> ('io zstream \<times> int) option" where
  "zstream_write_cint_and_pp e fp pp = do {
     fp \<leftarrow> foldM (\<lambda>s fp. map_option fst (zstream_write_cint_and_data e fp s (- 1))) pp fp;
     Some (fp, 1) }"

end
