(* ===== verification/StreamOk.thy ===== *)
theory StreamOk
  imports Stream "HOL-Library.Sublist"
begin

text \<open>
  What a stream promises over an engine that keeps its own promises: the bytes it hands out are the bytes
  of the engine in order, and the bytes given to it reach the engine in order.
\<close>

section \<open>Engines\<close>

text \<open>\<open>src io\<close> is what the engine will still deliver, \<open>sink io\<close> what it has taken; \<open>pend\<close> bounds the
  writes of nothing that still come in a row.\<close>

definition engine_ok :: "'io zstream_engine \<Rightarrow> ('io \<Rightarrow> bytes) \<Rightarrow> ('io \<Rightarrow> bytes) \<Rightarrow> ('io \<Rightarrow> nat) \<Rightarrow> bool" where
  "engine_ok e src sink pend \<longleftrightarrow>
     (\<forall>io t n. 0 < n \<longrightarrow> (\<exists>r. read_fn e io t n = Some r \<and> read_promise src sink io n r))
   \<and> (\<forall>io t d. d \<noteq> [] \<longrightarrow> (\<exists>r. write_fn e io t d = Some r \<and> write_promise src sink pend io d r))"

lemma fd_engine_ok:
  assumes "kernel_ok K src sink pend now"
  shows "engine_ok (fd_engine K close) src sink pend"
proof -
  have "\<exists>r. ztimed_read K io n t = Some r \<and> read_promise src sink io n r" if "0 < n" for io t n
    using ztimed_read_returns [OF assms that, of io t] by (auto simp: read_result_def)
  moreover have "\<exists>r. ztimed_write K io d t = Some r \<and> write_promise src sink pend io d r" if "d \<noteq> []" for io t d
    using ztimed_write_returns [OF assms that, of io t] by (auto simp: write_result_def)
  ultimately show ?thesis by (simp add: engine_ok_def fd_engine_def)
qed

lemma engine_okD:
  assumes "engine_ok e src sink pend" "0 < n"
  obtains io' ret d where "read_fn e io t n = Some (io', ret, d)" "read_promise src sink io n (io', ret, d)"
proof -
  have "\<exists>r. read_fn e io t n = Some r \<and> read_promise src sink io n r" using assms unfolding engine_ok_def by blast
  then show thesis using that by (metis prod_cases3)
qed

lemma engine_okW:
  assumes "engine_ok e src sink pend" "d \<noteq> []"
  obtains io' ret where "write_fn e io t d = Some (io', ret)" "write_promise src sink pend io d (io', ret)"
proof -
  have "\<exists>r. write_fn e io t d = Some r \<and> write_promise src sink pend io d r" using assms unfolding engine_ok_def by blast
  then show thesis using that by (metis surj_pair)
qed

lemma uint_byte_nonneg [simp]: "uint (b :: byte) \<noteq> - 1"
  using uint_nonnegative [of b] by linarith

section \<open>The state of a stream\<close>

definition stream_ok :: "('io \<Rightarrow> bytes) \<Rightarrow> 'io zstream \<Rightarrow> bool" where
  "stream_ok src fp \<longleftrightarrow> length (read_buf fp) = zvar_stream_rbuf_size \<and> length (write_buf fp) = zvar_stream_wbuf_size
     \<and> read_buf_p1 fp \<le> read_buf_p2 fp \<and> read_buf_p2 fp \<le> zvar_stream_rbuf_size
     \<and> write_buf_len fp \<le> zvar_stream_wbuf_size \<and> (s_eof fp \<longrightarrow> src (ioctx fp) = [])"

text \<open>What a reader will still get.\<close>

definition input :: "('io \<Rightarrow> bytes) \<Rightarrow> 'io zstream \<Rightarrow> bytes" where
  "input src fp = drop (read_buf_p1 fp) (take (read_buf_p2 fp) (read_buf fp)) @ src (ioctx fp)"

text \<open>The engine has taken, or will take at the next flush, exactly \<open>h\<close>; after an error it has taken a
  prefix of it.\<close>

definition delivers :: "('io \<Rightarrow> bytes) \<Rightarrow> bytes \<Rightarrow> 'io zstream \<Rightarrow> bool" where
  "delivers sink h fp \<longleftrightarrow>
     (if s_error fp then prefix (sink (ioctx fp)) h
      else sink (ioctx fp) @ take (write_buf_len fp) (write_buf fp) = h)"

lemma open_fd_ok: "stream_ok src (zstream_open_fd k)" "input src (zstream_open_fd k) = src k"
  "delivers sink (sink k) (zstream_open_fd k)"
  by (simp_all add: stream_ok_def input_def delivers_def zstream_open_fd_def)

section \<open>Flushing\<close>

lemma flush_loop_ok:
  assumes "engine_ok e src sink pend"
  shows "\<exists>io' left. flush_loop e t io data = Some (io', left) \<and> src io' = src io \<and> left \<le> length data
    \<and> sink io' = sink io @ take (length data - left) data"
proof (induction "length data" arbitrary: data io rule: less_induct)
  case outer: less
  show ?case
  proof (induction "pend io" arbitrary: io rule: less_induct)
    case inner: less
    note l = flush_loop.simps [of e t io data]
    show ?case
    proof (cases "data = []")
      case False
      obtain io1 ret where w: "write_fn e io t data = Some (io1, ret)" "write_promise src sink pend io data (io1, ret)"
        by (rule engine_okW [OF assms False])
      show ?thesis
      proof (cases "ret < 0")
        case True
        then show ?thesis using w False by (simp add: l write_promise_def)
      next
        case pos: False
        have p: "nat ret \<le> length data" "sink io1 = sink io @ take (nat ret) data" "src io1 = src io" "ret = 0 \<longrightarrow> pend io1 < pend io"
          using w(2) pos by (simp_all add: write_promise_def)
        have eq: "flush_loop e t io data = flush_loop e t io1 (drop (nat ret) data)" using w(1) False pos by (simp add: l)
        show ?thesis
        proof (cases "ret = 0")
          case True
          then show ?thesis using inner [of io1] p eq by simp
        next
          case False
          then have "length (drop (nat ret) data) < length data" using pos \<open>data \<noteq> []\<close> by simp
          from outer [OF this, of io1] obtain io' left where o: "flush_loop e t io1 (drop (nat ret) data) = Some (io', left)"
            "src io' = src io1" "left \<le> length data - nat ret"
            "sink io' = sink io1 @ take (length data - nat ret - left) (drop (nat ret) data)" by auto
          have "nat ret + (length data - nat ret - left) = length data - left" using p(1) o(3) by simp
          then have "take (nat ret) data @ take (length data - nat ret - left) (drop (nat ret) data) = take (length data - left) data"
            by (metis take_add)
          then show ?thesis using o p eq by (intro exI [of _ io'] exI [of _ left]) auto
        qed
      qed
    qed (simp add: flush_loop.simps)
  qed
qed

lemma flush_ok:
  assumes "engine_ok e src sink pend" "stream_ok src fp" "delivers sink h fp"
  shows "\<exists>fp' r. zstream_flush e fp = Some (fp', r) \<and> stream_ok src fp' \<and> input src fp' = input src fp \<and> delivers sink h fp'
    \<and> (s_error fp \<longrightarrow> s_error fp') \<and> (if s_error fp' then r = - 1 else r = 1 \<and> sink (ioctx fp') = h \<and> write_buf_len fp' = 0)
    \<and> s_eof fp' = s_eof fp \<and> read_buf_p1 fp' = read_buf_p1 fp \<and> read_buf_p2 fp' = read_buf_p2 fp"
proof (cases "s_error fp")
  case True
  then show ?thesis using assms by (simp add: zstream_flush_def)
next
  case False
  let ?d = "take (write_buf_len fp) (write_buf fp)"
  from flush_loop_ok [OF assms(1), of "write_wait_timeout fp" "ioctx fp" ?d] obtain io left where
    f: "flush_loop e (write_wait_timeout fp) (ioctx fp) ?d = Some (io, left)" "src io = src (ioctx fp)"
    "left \<le> length ?d" "sink io = sink (ioctx fp) @ take (length ?d - left) ?d" by blast
  have h: "h = sink (ioctx fp) @ ?d" using assms(3) False by (simp add: delivers_def)
  have "prefix (sink io) h" unfolding h f(4) by (simp add: take_is_prefix del: take_take)
  then show ?thesis using False f assms(2) h
    by (cases "left = 0") (simp_all add: zstream_flush_def stream_ok_def input_def delivers_def)
qed

section \<open>Reading\<close>

lemma input_step:
  "stream_ok src fp \<Longrightarrow> read_buf_p1 fp < read_buf_p2 fp \<Longrightarrow>
     input src fp = (read_buf fp ! read_buf_p1 fp) # input src (fp\<lparr>read_buf_p1 := read_buf_p1 fp + 1\<rparr>)"
  by (simp add: input_def stream_ok_def Cons_nth_drop_Suc [symmetric])

text \<open>The outcome of reading one character.\<close>

definition got :: "('io \<Rightarrow> bytes) \<Rightarrow> ('io \<Rightarrow> bytes) \<Rightarrow> bytes \<Rightarrow> 'io zstream \<Rightarrow> 'io zstream \<times> int \<Rightarrow> bool" where
  "got src sink h fp = (\<lambda>(fp', c). stream_ok src fp' \<and> delivers sink h fp' \<and> (s_error fp \<longrightarrow> s_error fp')
     \<and> (if c = - 1 then input src fp' = input src fp \<and> (s_error fp' \<or> s_eof fp' \<and> input src fp = [])
        else \<exists>b. c = uint b \<and> input src fp = b # input src fp'))"

lemma getc_do_ok:
  assumes "engine_ok e src sink pend" "stream_ok src fp" "delivers sink h fp"
  shows "\<exists>r. zstream_getc_do e fp = Some r \<and> got src sink h fp r"
proof -
  consider (buffered) "read_buf_p1 fp < read_buf_p2 fp" | (over) "\<not> read_buf_p1 fp < read_buf_p2 fp" "s_error fp \<or> s_eof fp"
    | (fill) "\<not> read_buf_p1 fp < read_buf_p2 fp" "\<not> s_error fp" "\<not> s_eof fp" by blast
  then show ?thesis
  proof cases
    case buffered
    then show ?thesis using assms(2,3) input_step [OF assms(2) buffered]
      by (auto simp: zstream_getc_do_def got_def stream_ok_def delivers_def)
  next
    case over
    then show ?thesis using assms(2,3) by (auto simp: zstream_getc_do_def got_def stream_ok_def input_def)
  next
    case fill
    have "\<exists>fp1 fl. (if write_buf_len fp > 0 then zstream_flush e fp else Some (fp, 1)) = Some (fp1, fl) \<and> stream_ok src fp1
      \<and> input src fp1 = input src fp \<and> delivers sink h fp1 \<and> (s_error fp1 \<longleftrightarrow> fl = - 1) \<and> \<not> s_eof fp1
      \<and> read_buf_p1 fp1 = read_buf_p1 fp \<and> read_buf_p2 fp1 = read_buf_p2 fp"
      using flush_ok [OF assms] fill assms(2,3) by (auto split: if_splits)
    then obtain fp1 fl where f: "(if write_buf_len fp > 0 then zstream_flush e fp else Some (fp, 1)) = Some (fp1, fl)"
      "stream_ok src fp1" "input src fp1 = input src fp" "delivers sink h fp1" "s_error fp1 \<longleftrightarrow> fl = - 1" "\<not> s_eof fp1"
      "read_buf_p1 fp1 = read_buf_p1 fp" "read_buf_p2 fp1 = read_buf_p2 fp" by blast
    show ?thesis
    proof (cases "fl = - 1")
      case True
      then show ?thesis using f fill by (simp add: zstream_getc_do_def got_def)
    next
      case False
      let ?fp = "fp1\<lparr>read_buf_p1 := 0, read_buf_p2 := 0\<rparr>"
      have i: "input src fp = src (ioctx fp1)" using f(3,7,8) fill(1) by (simp add: input_def flip: f(3))
      have n: "0 < zvar_stream_rbuf_size" by (simp add: zvar_stream_rbuf_size_def)
      obtain io ret d where
        r: "read_fn e (ioctx ?fp) (read_wait_timeout ?fp) zvar_stream_rbuf_size = Some (io, ret, d)"
        "read_promise src sink (ioctx fp1) zvar_stream_rbuf_size (io, ret, d)"
        using engine_okD [OF assms(1) n, of "ioctx fp1" "read_wait_timeout fp1"] by auto
      let ?fp3 = "?fp\<lparr>ioctx := io, read_buf := d @ drop (length d) (read_buf ?fp)\<rparr>"
      have g: "zstream_getc_do e fp =
          (if ret = 0 then Some (?fp3\<lparr>s_eof := True\<rparr>, - 1)
           else if ret < 0 then Some (?fp3\<lparr>s_error := True\<rparr>, - 1)
           else Some (?fp3\<lparr>read_buf_p1 := 1, read_buf_p2 := nat ret\<rparr>, uint (read_buf ?fp3 ! 0)))"
        using f(1) fill False r(1) by (simp add: zstream_getc_do_def)
      have ne: "\<not> s_error fp1" using f(5) False by simp
      have sk: "sink io = sink (ioctx fp1)" using r(2) by (simp add: read_promise_def)
      have dl: "sink io @ take (write_buf_len fp1) (write_buf fp1) = h" using f(4) ne sk by (simp add: delivers_def)
      have len: "length d \<le> zvar_stream_rbuf_size" using r(2) by (simp add: read_promise_def split: if_splits)
      have bufs: "length (read_buf fp1) = zvar_stream_rbuf_size" "length (write_buf fp1) = zvar_stream_wbuf_size"
        "write_buf_len fp1 \<le> zvar_stream_wbuf_size" using f(2) by (simp_all add: stream_ok_def)
      consider (eof) "ret = 0" | (err) "ret < 0" | (data) "0 < ret" by linarith
      then show ?thesis
      proof cases
        case eof
        then have "d = []" "src io = []" "src (ioctx fp1) = []" using r(2) by (simp_all add: read_promise_def)
        then show ?thesis using eof g i ne dl bufs fill(2) f(6) by (simp add: got_def stream_ok_def delivers_def input_def)
      next
        case err
        then have "d = []" "src io = src (ioctx fp1)" using r(2) by (simp_all add: read_promise_def)
        moreover have "prefix (sink io) h" using dl by auto
        ultimately show ?thesis using err g i ne bufs fill(2) f(6) by (simp add: got_def stream_ok_def delivers_def input_def)
      next
        case data
        then have d: "ret = int (length d)" "src (ioctx fp1) = d @ src io" using r(2) by (simp_all add: read_promise_def)
        then obtain b ds where b: "d = b # ds" using data by (cases d) simp_all
        have nr: "nat (1 + int (length ds)) = Suc (length ds)" by simp
        show ?thesis using b data d g i ne dl bufs len fill(2) f(6)
          by (simp add: got_def stream_ok_def delivers_def input_def nr)
      qed
    qed
  qed
qed

lemma getc_ok:
  assumes "engine_ok e src sink pend" "stream_ok src fp" "delivers sink h fp"
  shows "\<exists>fp' c. ZSTREAM_GETC e fp = Some (fp', c) \<and> got src sink h fp (fp', c)"
proof -
  have "ZSTREAM_GETC e fp = zstream_getc_do e fp" by (simp add: ZSTREAM_GETC_def zstream_getc_do_def)
  then show ?thesis using getc_do_ok [OF assms] by auto
qed

text \<open>The bytes that a reading loop takes from the input: up to \<open>n\<close>, and not beyond a byte that
  stops it.\<close>

fun until :: "(byte \<Rightarrow> bool) \<Rightarrow> nat \<Rightarrow> bytes \<Rightarrow> bytes" where
  "until stop 0 xs = []"
| "until stop (Suc n) [] = []"
| "until stop (Suc n) (x # xs) = x # (if stop x then [] else until stop n xs)"

lemma until_take [simp]: "until (\<lambda>_. False) n xs = take n xs"
  by (induction "\<lambda>_ :: byte. False" n xs rule: until.induct) simp_all

lemma until_Nil [simp]: "until stop n [] = []"
  by (cases n) simp_all

lemma length_until: "length (until stop n xs) \<le> n"
  by (induction stop n xs rule: until.induct) simp_all

fun pull :: "'io zstream_engine \<Rightarrow> 'io zstream \<Rightarrow> (byte \<Rightarrow> bool) \<Rightarrow> nat \<Rightarrow> ('io zstream \<times> bytes \<times> nat) option" where
  "pull e fp stop 0 = Some (fp, [], 0)"
| "pull e fp stop (Suc n) = do {
     (fp, c) \<leftarrow> ZSTREAM_GETC e fp;
     if c = - 1 then Some (fp, [], Suc n)
     else if stop (of_int c) then Some (fp, [of_int c], n)
     else do { (fp, xs, left) \<leftarrow> pull e fp stop n; Some (fp, of_int c # xs, left) } }"

definition pulled :: "('io \<Rightarrow> bytes) \<Rightarrow> ('io \<Rightarrow> bytes) \<Rightarrow> bytes \<Rightarrow> 'io zstream \<Rightarrow> (byte \<Rightarrow> bool) \<Rightarrow> nat \<Rightarrow> 'io zstream \<Rightarrow> bytes \<Rightarrow> nat \<Rightarrow> bool" where
  "pulled src sink h fp stop n fp' xs left \<longleftrightarrow> stream_ok src fp' \<and> delivers sink h fp' \<and> (s_error fp \<longrightarrow> s_error fp')
     \<and> length xs + left = n \<and> input src fp = xs @ input src fp' \<and> prefix xs (until stop n (input src fp))
     \<and> (\<not> s_error fp' \<longrightarrow> xs = until stop n (input src fp)) \<and> (xs = [] \<longrightarrow> 0 < n \<longrightarrow> s_error fp' \<or> s_eof fp')"

lemma pull_ok:
  assumes "engine_ok e src sink pend" "stream_ok src fp" "delivers sink h fp"
  shows "\<exists>fp' xs left. pull e fp stop n = Some (fp', xs, left) \<and> pulled src sink h fp stop n fp' xs left"
  using assms(2,3)
proof (induction n arbitrary: fp)
  case 0
  then show ?case by (simp add: pulled_def)
next
  case (Suc n)
  from getc_ok [OF assms(1) Suc.prems] obtain fp1 c where g: "ZSTREAM_GETC e fp = Some (fp1, c)" "got src sink h fp (fp1, c)" by blast
  then have ok: "stream_ok src fp1" "delivers sink h fp1" "s_error fp \<longrightarrow> s_error fp1" by (simp_all add: got_def)
  show ?case
  proof (cases "c = - 1")
    case True
    then show ?thesis using g ok by (auto simp: got_def pulled_def)
  next
    case False
    then obtain b where b: "c = uint b" "input src fp = b # input src fp1" using g(2) by (auto simp: got_def)
    show ?thesis
    proof (cases "stop b")
      case True
      then show ?thesis using g(1) b ok False by (simp add: pulled_def)
    next
      case nostop: False
      from Suc.IH [OF ok(1,2)] obtain fp' xs left where
        p: "pull e fp1 stop n = Some (fp', xs, left)" "pulled src sink h fp1 stop n fp' xs left" by blast
      have "pull e fp stop (Suc n) = Some (fp', b # xs, left)" using g(1) b(1) nostop p(1) by simp
      moreover have "pulled src sink h fp stop (Suc n) fp' (b # xs) left"
      proof -
        have u: "until stop (Suc n) (b # input src fp1) = b # until stop n (input src fp1)" using nostop by simp
        have q: "stream_ok src fp'" "delivers sink h fp'" "s_error fp1 \<longrightarrow> s_error fp'" "length xs + left = n"
          "input src fp1 = xs @ input src fp'" "prefix xs (until stop n (input src fp1))"
          "\<not> s_error fp' \<longrightarrow> xs = until stop n (input src fp1)" using p(2) unfolding pulled_def by blast+
        show ?thesis unfolding pulled_def b(2) u using q(1-4,6,7) ok(3) q(5) [THEN arg_cong, of "Cons b"] by (simp del: q(5))
      qed
      ultimately show ?thesis by blast
    qed
  qed
qed

lemma getc_byte:
  assumes "ZSTREAM_GETC e fp = Some (fp', c)"
  shows "c = - 1 \<or> uint (of_int c :: byte) = c"
  using assms by (auto simp: ZSTREAM_GETC_def zstream_getc_do_def Let_def split: if_splits bind_splits)

lemma readn_loop_pull:
  "readn_loop e fp bf n = map_option (\<lambda>(fp', xs, left). (fp', map_option (\<lambda>b. foldl ZBUF_PUT b xs) bf, left)) (pull e fp (\<lambda>_. False) n)"
proof (induction n arbitrary: fp bf)
  case (Suc n)
  show ?case
  proof (cases "ZSTREAM_GETC e fp")
    case (Some r)
    then show ?thesis using Suc by (cases r, cases bf) (auto simp: option.map_comp comp_def split: bind_splits prod.splits)
  qed simp
qed (simp add: option.map_ident)

lemma readn_mem_loop_pull:
  "readn_mem_loop e fp ps n = map_option (\<lambda>(fp', xs, left). (fp', map_option (\<lambda>p. p @ xs) ps, left)) (pull e fp (\<lambda>_. False) n)"
proof (induction n arbitrary: fp ps)
  case (Suc n)
  show ?case
  proof (cases "ZSTREAM_GETC e fp")
    case (Some r)
    then show ?thesis using Suc by (cases r, cases ps) (auto simp: option.map_comp comp_def split: bind_splits prod.splits)
  qed simp
qed (simp add: option.map_ident)

lemma delimiter_loop_pull:
  "delimiter_loop e fp bf delimiter n
     = map_option (\<lambda>(fp', xs, left). (fp', map_option (\<lambda>b. foldl ZBUF_PUT b xs) bf, left)) (pull e fp (\<lambda>b. uint b = delimiter) n)"
proof (induction n arbitrary: fp bf)
  case (Suc n)
  show ?case
  proof (cases "ZSTREAM_GETC e fp")
    case (Some r)
    obtain fp' c where r: "r = (fp', c)" by (cases r)
    with getc_byte Some have "c = - 1 \<or> uint (of_int c :: byte) = c" by blast
    then show ?thesis using Suc Some r by (cases bf) (auto simp: option.map_comp comp_def split: bind_splits prod.splits)
  qed simp
qed (simp add: option.map_ident)

lemma delimiter_mem_loop_pull:
  "delimiter_mem_loop e fp ps delimiter n
     = map_option (\<lambda>(fp', xs, left). (fp', map_option (\<lambda>p. p @ xs) ps, left)) (pull e fp (\<lambda>b. uint b = delimiter) n)"
proof (induction n arbitrary: fp ps)
  case (Suc n)
  show ?case
  proof (cases "ZSTREAM_GETC e fp")
    case (Some r)
    obtain fp' c where r: "r = (fp', c)" by (cases r)
    with getc_byte Some have "c = - 1 \<or> uint (of_int c :: byte) = c" by blast
    then show ?thesis using Suc Some r by (cases ps) (auto simp: option.map_comp comp_def split: bind_splits prod.splits)
  qed simp
qed (simp add: option.map_ident)

text \<open>A reading operation hands out \<open>want\<close>, or less after an error, in the buffer, and returns the number of
  bytes.\<close>

definition hands_out ::
  "('io \<Rightarrow> bytes) \<Rightarrow> ('io \<Rightarrow> bytes) \<Rightarrow> bytes \<Rightarrow> 'io zstream \<Rightarrow> bytes \<Rightarrow> ('io zstream \<times> zbuf option \<times> int) option \<Rightarrow> bool" where
  "hands_out src sink h fp want res \<longleftrightarrow> (\<exists>fp' bf' r. res = Some (fp', Some bf', r) \<and> stream_ok src fp' \<and> delivers sink h fp'
     \<and> zbuf_ok bf' \<and> input src fp = zbuf_bytes bf' @ input src fp' \<and> prefix (zbuf_bytes bf') want
     \<and> (\<not> s_error fp' \<longrightarrow> zbuf_bytes bf' = want)
     \<and> r = (if zbuf_bytes bf' \<noteq> [] then int (length (zbuf_bytes bf')) else if s_eof fp' then 0 else - 1))"

lemma hands_outI:
  assumes "pulled src sink h fp stop n fp' xs left" "zbuf_ok bf" "zbuf_cap bf = None"
  shows "hands_out src sink h fp (until stop n (input src fp))
    (Some (fp', Some (zbuf_terminate (foldl ZBUF_PUT (zbuf_reset bf) xs)),
       if int n > int left then int n - int left else if s_eof fp' then 0 else - 1))"
proof -
  let ?b = "zbuf_terminate (foldl ZBUF_PUT (zbuf_reset bf) xs)"
  have app: "appends (zbuf_reset bf) (foldl ZBUF_PUT (zbuf_reset bf) xs) xs" by (rule appends_raw) (simp add: assms(2))
  have buf: "zbuf_ok ?b" "zbuf_bytes ?b = xs" using appends_ok [OF app] appends_growing [OF app] assms(3) by simp_all
  have q: "stream_ok src fp'" "delivers sink h fp'" "length xs + left = n" "input src fp = xs @ input src fp'"
    "prefix xs (until stop n (input src fp))" "\<not> s_error fp' \<longrightarrow> xs = until stop n (input src fp)"
    using assms(1) unfolding pulled_def by blast+
  have "int n > int left \<longleftrightarrow> xs \<noteq> []" "int n - int left = int (length xs)" using q(3) by (cases xs; simp)+
  then show ?thesis unfolding hands_out_def
    by (intro exI [of _ fp'] exI [of _ ?b] exI conjI) (use q buf in \<open>simp_all only: simp_thms\<close>)
qed

lemma readn_ok:
  assumes "engine_ok e src sink pend" "stream_ok src fp" "delivers sink h fp" "zbuf_ok bf" "zbuf_cap bf = None" "0 < n"
  shows "hands_out src sink h fp (take n (input src fp)) (zstream_readn e fp (Some bf) (int n))"
proof -
  from pull_ok [OF assms(1-3)] obtain fp' xs left where
    p: "pull e fp (\<lambda>_. False) n = Some (fp', xs, left)" "pulled src sink h fp (\<lambda>_. False) n fp' xs left" by blast
  then show ?thesis using hands_outI [OF p(2) assms(4,5)] assms(6) by (simp add: zstream_readn_def readn_loop_pull)
qed

lemma readn_sized:
  assumes "zstream_readn e fp (Some bf) n = Some (fp', Some bf', m)" "zbuf_ok bf"
  shows "sized bf bf'"
proof (cases "n < 1")
  case False
  then obtain xs where "bf' = zbuf_terminate (foldl ZBUF_PUT (zbuf_reset bf) xs)"
    using assms(1) by (auto simp: zstream_readn_def readn_loop_pull bind_eq_Some_conv)
  then show ?thesis using sized_reset_writes(2) [OF assms(2)] by simp
qed (use assms(1) in \<open>simp add: zstream_readn_def\<close>)

lemma read_delimiter_ok:
  assumes "engine_ok e src sink pend" "stream_ok src fp" "delivers sink h fp" "zbuf_ok bf" "zbuf_cap bf = None" "0 < n"
  shows "hands_out src sink h fp (until (\<lambda>b. b = c) n (input src fp)) (zstream_read_delimiter e fp (Some bf) (uint c) (int n))"
proof -
  have c: "(\<lambda>b. uint b = uint c) = (\<lambda>b. b = c)" by (simp add: fun_eq_iff word_uint_eq_iff)
  from pull_ok [OF assms(1-3)] obtain fp' xs left where
    p: "pull e fp (\<lambda>b. b = c) n = Some (fp', xs, left)" "pulled src sink h fp (\<lambda>b. b = c) n fp' xs left" by blast
  then show ?thesis using hands_outI [OF p(2) assms(4,5)] assms(6) by (simp add: zstream_read_delimiter_def delimiter_loop_pull c)
qed

text \<open>\<open>zstream_read\<close> and \<open>zstream_read_to_mem\<close> hand out what is there, asking the engine only when nothing is.\<close>

lemma input_skip:
  assumes "stream_ok src fp" "delivers sink h fp" "k \<le> read_buf_p2 fp - read_buf_p1 fp"
  shows "input src fp = take k (drop (read_buf_p1 fp) (read_buf fp)) @ input src (fp\<lparr>read_buf_p1 := read_buf_p1 fp + k\<rparr>)"
    "stream_ok src (fp\<lparr>read_buf_p1 := read_buf_p1 fp + k\<rparr>)" "delivers sink h (fp\<lparr>read_buf_p1 := read_buf_p1 fp + k\<rparr>)"
    "length (take k (drop (read_buf_p1 fp) (read_buf fp))) = k"
proof -
  let ?x = "drop (read_buf_p1 fp) (take (read_buf_p2 fp) (read_buf fp))"
  have "take k ?x = take k (drop (read_buf_p1 fp) (read_buf fp))" using assms(3) by (simp add: drop_take min_absorb1)
  moreover have "drop k ?x = drop (read_buf_p1 fp + k) (take (read_buf_p2 fp) (read_buf fp))" by (simp add: add.commute)
  ultimately show "input src fp = take k (drop (read_buf_p1 fp) (read_buf fp)) @ input src (fp\<lparr>read_buf_p1 := read_buf_p1 fp + k\<rparr>)"
    using append_take_drop_id [of k ?x] by (simp add: input_def)
  show "stream_ok src (fp\<lparr>read_buf_p1 := read_buf_p1 fp + k\<rparr>)" "delivers sink h (fp\<lparr>read_buf_p1 := read_buf_p1 fp + k\<rparr>)"
    "length (take k (drop (read_buf_p1 fp) (read_buf fp))) = k"
    using assms by (auto simp: stream_ok_def delivers_def)
qed

definition hands_some :: "('io \<Rightarrow> bytes) \<Rightarrow> ('io \<Rightarrow> bytes) \<Rightarrow> bytes \<Rightarrow> 'io zstream \<Rightarrow> nat \<Rightarrow> 'io zstream \<Rightarrow> bytes \<Rightarrow> int \<Rightarrow> bool" where
  "hands_some src sink h fp n fp' xs r \<longleftrightarrow> stream_ok src fp' \<and> delivers sink h fp' \<and> input src fp = xs @ input src fp' \<and> length xs \<le> n
     \<and> r = (if xs \<noteq> [] then int (length xs) else if s_eof fp' then 0 else - 1) \<and> (xs = [] \<longrightarrow> s_error fp' \<or> s_eof fp' \<and> input src fp = [])"

lemma memcat_room:
  assumes "zbuf_ok b" "zbuf_cap b = None"
  shows "zbuf_ok (zbuf_memcat (zbuf_terminate b) d (int k)) \<and> zbuf_bytes (zbuf_memcat (zbuf_terminate b) d (int k)) = zbuf_bytes b @ take k d
    \<and> zb_len (zbuf_memcat (zbuf_terminate b) d (int k)) = length (zbuf_bytes b @ take k d)"
proof -
  let ?c = "zbuf_memcat (zbuf_terminate b) d (int k)"
  have a: "appends (zbuf_terminate b) ?c (take k d)" using appends_memcat [of "zbuf_terminate b" d "int k"] assms(1) by simp
  have c: "zbuf_ok ?c" "zbuf_bytes ?c = zbuf_bytes b @ take k d" using appends_ok [OF a] appends_growing [OF a] assms(2) by simp_all
  have "zb_len ?c = length (zbuf_bytes ?c)" using c(1) by (simp add: zbuf_ok_def zbuf_bytes_def)
  then show ?thesis using c by (simp only: simp_thms)
qed

lemma put_first:
  assumes "zbuf_ok bf" "zbuf_cap bf = None"
  shows "zbuf_ok (ZBUF_PUT (zbuf_reset bf) x)" "zbuf_bytes (ZBUF_PUT (zbuf_reset bf) x) = [x]" "zbuf_cap (ZBUF_PUT (zbuf_reset bf) x) = None"
  using appends_raw [of "zbuf_reset bf" "[x]"] assms by (simp_all add: appends_def)

lemma read_ok':
  assumes "engine_ok e src sink pend" "stream_ok src fp" "delivers sink h fp" "zbuf_ok bf" "zbuf_cap bf = None" "0 < n"
  shows "\<exists>fp' xs r bf'. zstream_read_to_mem e fp (int n) = Some (fp', xs, r) \<and> zstream_read e fp bf (int n) = Some (fp', bf', r)
    \<and> zbuf_ok bf' \<and> zbuf_bytes bf' = xs \<and> hands_some src sink h fp n fp' xs r"
proof (cases "read_buf_p1 fp < read_buf_p2 fp")
  case True
  let ?k = "min n (read_buf_p2 fp - read_buf_p1 fp)"
  let ?d = "drop (read_buf_p1 fp) (read_buf fp)"
  have k: "?k \<le> read_buf_p2 fp - read_buf_p1 fp" by simp
  note sk = input_skip [OF assms(2,3) k]
  have l: "(if int n > int (read_buf_p2 fp) - int (read_buf_p1 fp) then int (read_buf_p2 fp) - int (read_buf_p1 fp) else int n) = int ?k"
    using True by auto
  have len: "length (take ?k ?d) = ?k" "0 < ?k" using sk(4) True assms(6) by simp_all
  have "zbuf_ok (zbuf_reset bf)" "zbuf_cap (zbuf_reset bf) = None" "zbuf_bytes (zbuf_reset bf) = []" using assms(4,5) by simp_all
  with memcat_room [of "zbuf_reset bf" ?d ?k] obtain bf' where bf': "bf' = zbuf_memcat (zbuf_terminate (zbuf_reset bf)) ?d (int ?k)"
    "zbuf_ok bf'" "zbuf_bytes bf' = take ?k ?d" "zb_len bf' = length (take ?k ?d)" by simp
  have "zstream_read_to_mem e fp (int n) = Some (fp\<lparr>read_buf_p1 := read_buf_p1 fp + ?k\<rparr>, take ?k ?d, int ?k)"
    using True assms(6) by (simp add: zstream_read_to_mem_def l)
  moreover have "zstream_read e fp bf (int n) = Some (fp\<lparr>read_buf_p1 := read_buf_p1 fp + ?k\<rparr>, bf', int (zb_len bf'))"
    using True assms(6) unfolding bf'(1) by (simp add: zstream_read_def l) (simp only: Let_def)
  then have "zstream_read e fp bf (int n) = Some (fp\<lparr>read_buf_p1 := read_buf_p1 fp + ?k\<rparr>, bf', int ?k)"
    unfolding bf'(4) len(1) .
  moreover have "hands_some src sink h fp n (fp\<lparr>read_buf_p1 := read_buf_p1 fp + ?k\<rparr>) (take ?k ?d) (int ?k)"
  proof -
    have ne: "take ?k ?d \<noteq> []" using len by (metis list.size(3) less_irrefl)
    have r: "int ?k = (if take ?k ?d \<noteq> [] then int (length (take ?k ?d))
        else if s_eof (fp\<lparr>read_buf_p1 := read_buf_p1 fp + ?k\<rparr>) then 0 else - 1)" unfolding len(1) using ne by (simp only: if_True simp_thms)
    have le: "length (take ?k ?d) \<le> n" unfolding len(1) by (rule min.cobounded1)
    show ?thesis unfolding hands_some_def using sk(1-3) ne r le by blast
  qed
  ultimately show ?thesis using bf'(2,3) by blast
next
  case False
  then have z: "int (read_buf_p2 fp) - int (read_buf_p1 fp) = 0" using assms(2) by (simp add: stream_ok_def)
  from getc_do_ok [OF assms(1-3)] obtain fp1 c where g: "zstream_getc_do e fp = Some (fp1, c)" "got src sink h fp (fp1, c)" by auto
  show ?thesis
  proof (cases "c = - 1")
    case True
    then show ?thesis using g z assms(4,6) by (auto simp: zstream_read_to_mem_def zstream_read_def got_def hands_some_def)
  next
    case c: False
    then obtain b where b: "c = uint b" "input src fp = b # input src fp1" using g(2) by (auto simp: got_def)
    have ok: "stream_ok src fp1" "delivers sink h fp1" using g(2) by (simp_all add: got_def)
    let ?k = "min (n - 1) (read_buf_p2 fp1 - read_buf_p1 fp1)"
    let ?d = "drop (read_buf_p1 fp1) (read_buf fp1)"
    let ?fp = "fp1\<lparr>read_buf_p1 := read_buf_p1 fp1 + ?k\<rparr>"
    have k: "?k \<le> read_buf_p2 fp1 - read_buf_p1 fp1" by simp
    note sk = input_skip [OF ok k]
    have l: "(if int n - 1 > int (read_buf_p2 fp1) - int (read_buf_p1 fp1) then int (read_buf_p2 fp1) - int (read_buf_p1 fp1) else int n - 1) = int ?k"
      using ok(1) assms(6) by (auto simp: stream_ok_def)
    note put = put_first [OF assms(4,5), of b]
    from memcat_room [OF put(1,3), of ?d ?k] obtain bf' where bf': "bf' = zbuf_memcat (zbuf_terminate (ZBUF_PUT (zbuf_reset bf) b)) ?d (int ?k)"
      "zbuf_ok bf'" "zbuf_bytes bf' = b # take ?k ?d" "zb_len bf' = Suc (length (take ?k ?d))" unfolding put(2) by auto
    have "zstream_read_to_mem e fp (int n) = Some (?fp, b # take ?k ?d, 1 + int ?k)"
      using g(1) z b(1) assms(6) by (simp add: zstream_read_to_mem_def l)
    moreover have "zstream_read e fp bf (int n) = Some (?fp, bf', int (zb_len bf'))"
      using g(1) z b(1) assms(6) unfolding bf'(1) by (simp add: zstream_read_def l) (simp only: Let_def)
    then have "zstream_read e fp bf (int n) = Some (?fp, bf', 1 + int ?k)" unfolding bf'(4) sk(4) by simp
    moreover have "hands_some src sink h fp n ?fp (b # take ?k ?d) (1 + int ?k)"
    proof -
      have i: "b # input src fp1 = (b # take ?k ?d) @ input src ?fp" unfolding append_Cons sk(1) [symmetric] by (rule refl)
      have r: "1 + int ?k = int (length (b # take ?k ?d))" unfolding list.size sk(4) by simp
      have le: "length (b # take ?k ?d) \<le> n" unfolding list.size sk(4) using assms(6) by linarith
      show ?thesis unfolding hands_some_def b(2) using sk(2,3) i r le by simp
    qed
    ultimately show ?thesis using bf'(2,3) by blast
  qed
qed

section \<open>Writing\<close>

lemma delivers_more: "s_error fp \<Longrightarrow> delivers sink h fp \<Longrightarrow> delivers sink (h @ ys) fp"
  by (simp add: delivers_def prefix_append)

text \<open>Bytes were taken from the caller.\<close>

definition took :: "('io \<Rightarrow> bytes) \<Rightarrow> ('io \<Rightarrow> bytes) \<Rightarrow> bytes \<Rightarrow> 'io zstream \<Rightarrow> 'io zstream \<Rightarrow> bool" where
  "took src sink h fp fp' \<longleftrightarrow> stream_ok src fp' \<and> delivers sink h fp' \<and> input src fp' = input src fp
     \<and> s_eof fp' = s_eof fp \<and> (s_error fp \<longrightarrow> s_error fp')"

lemma took_trans: "took src sink h1 fp fp1 \<Longrightarrow> took src sink h2 fp1 fp2 \<Longrightarrow> took src sink h2 fp fp2"
  by (simp add: took_def)

lemma tookD: "took src sink h fp fp' \<Longrightarrow> stream_ok src fp'" "took src sink h fp fp' \<Longrightarrow> delivers sink h fp'"
  by (simp_all add: took_def)

lemma put_room:
  assumes "stream_ok src fp" "delivers sink h fp" "write_buf_len fp < zvar_stream_wbuf_size"
  shows "took src sink (h @ [b]) fp (fp\<lparr>write_buf := (write_buf fp)[write_buf_len fp := b], write_buf_len := write_buf_len fp + 1\<rparr>)"
  using assms by (auto simp: took_def stream_ok_def delivers_def input_def take_Suc_conv_app_nth prefix_append)

lemma putc_ok:
  assumes "engine_ok e src sink pend" "stream_ok src fp" "delivers sink h fp"
  shows "\<exists>fp' r. ZSTREAM_PUTC e fp c = Some (fp', r) \<and> took src sink (h @ [of_int c]) fp fp'"
proof (cases "write_buf_len fp < zvar_stream_wbuf_size")
  case True
  then show ?thesis using put_room [OF assms(2,3)] by (simp add: ZSTREAM_PUTC_def)
next
  case full: False
  show ?thesis
  proof (cases "s_error fp")
    case True
    then show ?thesis using full assms(2,3) delivers_more by (simp add: ZSTREAM_PUTC_def zstream_putc_do_def took_def)
  next
    case False
    from flush_ok [OF assms] obtain fp1 r where f: "zstream_flush e fp = Some (fp1, r)" "took src sink h fp fp1"
      "if s_error fp1 then r = - 1 else r = 1 \<and> write_buf_len fp1 = 0" unfolding took_def by metis
    have full': "zvar_stream_rbuf_size \<le> write_buf_len fp"
      using full by (simp add: zvar_stream_rbuf_size_def zvar_stream_wbuf_size_def)
    show ?thesis
    proof (cases "s_error fp1")
      case True
      then show ?thesis using full full' False f delivers_more tookD(2) [OF f(2)]
        by (simp add: ZSTREAM_PUTC_def zstream_putc_do_def took_def)
    next
      case ok: False
      then have z: "write_buf_len fp1 = 0" "r = 1" using f(3) by simp_all
      then have "write_buf_len fp1 < zvar_stream_wbuf_size" by (simp add: zvar_stream_wbuf_size_def)
      note took_trans [OF f(2) put_room [OF tookD [OF f(2)] this, of "of_int c"]]
      then show ?thesis using full full' False f(1) z by (simp add: ZSTREAM_PUTC_def zstream_putc_do_def)
    qed
  qed
qed

lemma write_loop_ok:
  assumes "engine_ok e src sink pend" "stream_ok src fp" "delivers sink h fp" "\<not> s_eof fp"
  shows "\<exists>fp' fin. write_loop e fp xs = Some (fp', fin) \<and> took src sink (h @ xs) fp fp'
    \<and> (fin \<longleftrightarrow> xs = [] \<or> \<not> s_error fp')"
  using assms(2-4)
proof (induction xs arbitrary: fp h)
  case Nil
  then show ?case by (intro exI [of _ fp] exI [of _ True]) (simp add: took_def)
next
  case (Cons c xs)
  from putc_ok [OF assms(1) Cons.prems(1,2), of "sint c"] obtain fp1 r where
    p: "ZSTREAM_PUTC e fp (sint c) = Some (fp1, r)" "took src sink (h @ [c]) fp fp1" by auto
  have eof: "\<not> s_eof fp1" using p(2) Cons.prems(3) by (simp add: took_def)
  show ?case
  proof (cases "s_error fp1")
    case True
    have "took src sink (h @ c # xs) fp fp1" using p(2) delivers_more [OF True tookD(2) [OF p(2)], of xs] by (simp add: took_def)
    then show ?thesis using p(1) True by simp
  next
    case False
    from Cons.IH [OF tookD [OF p(2)] eof] obtain fp' fin where
      w: "write_loop e fp1 xs = Some (fp', fin)" "took src sink (h @ c # xs) fp1 fp'" "fin \<longleftrightarrow> xs = [] \<or> \<not> s_error fp'" by auto
    have "xs = [] \<Longrightarrow> \<not> s_error fp'" using w(1) False by simp
    then show ?thesis using p(1) w took_trans [OF p(2) w(2)] False eof by auto
  qed
qed

lemma write_ok':
  assumes "engine_ok e src sink pend" "stream_ok src fp" "delivers sink h fp" "\<not> s_eof fp"
  shows "\<exists>fp' r. zstream_write e fp buf (int (length buf)) = Some (fp', r) \<and> took src sink (h @ buf) fp fp'
    \<and> (r = (if buf \<noteq> [] \<and> s_error fp' then - 1 else int (length buf)))"
proof (cases "buf = []")
  case True
  then show ?thesis using assms(2,3) by (simp add: zstream_write_def took_def)
next
  case False
  then have "\<not> int (length buf) < 1" by (cases buf) simp_all
  then show ?thesis using write_loop_ok [OF assms, of buf] False by (auto simp: zstream_write_def)
qed

lemma write_cint_loop_ok:
  assumes "engine_ok e src sink pend" "stream_ok src fp" "delivers sink h fp"
  shows "\<exists>fp'. write_cint_loop e fp (int n) = Some fp' \<and> took src sink (h @ cint_bytes n) fp fp'"
  using assms(2,3)
proof (induction n arbitrary: fp h rule: cint_bytes.induct)
  case (1 n)
  let ?c = "let ch = int n AND 127 in if drop_bit 7 (int n) = 0 then ch OR 128 else ch"
  note l = write_cint_loop.simps [of e fp "int n"]
  have c: "of_int ?c = cint_byte (int n)" by (simp add: cint_byte_def Let_def)
  from putc_ok [OF assms(1) "1.prems", of ?c] obtain fp1 r where
    p: "ZSTREAM_PUTC e fp ?c = Some (fp1, r)" "took src sink (h @ [cint_byte (int n)]) fp fp1" unfolding c by blast
  show ?case
  proof (cases "n div 128 = 0")
    case True
    then show ?thesis using p by (simp add: l drop_bit_7_nat cint_bytes.simps [of n] cint_byte_nat)
  next
    case False
    from "1.IH" [OF False tookD [OF p(2)]] obtain fp2 where
      q: "write_cint_loop e fp1 (int (n div 128)) = Some fp2" "took src sink ((h @ [cint_byte (int n)]) @ cint_bytes (n div 128)) fp1 fp2" by blast
    have "write_cint_loop e fp (int n) = Some fp2" using p(1) q(1) False by (simp add: l drop_bit_7_nat)
    moreover have "took src sink (h @ cint_bytes n) fp fp2"
      using took_trans [OF p(2) q(2)] False by (simp add: cint_bytes.simps [of n] cint_byte_nat)
    ultimately show ?thesis by blast
  qed
qed

lemma write_cint_and_data_ok:
  assumes "engine_ok e src sink pend" "stream_ok src fp" "delivers sink h fp" "\<not> s_eof fp"
  shows "\<exists>fp'. zstream_write_cint_and_data e fp buf (int (length buf)) = Some (fp', int (length buf)) \<and> took src sink (h @ cint_text buf) fp fp'"
proof -
  from write_cint_loop_ok [OF assms(1-3), of "length buf"] obtain fp1 where
    c: "write_cint_loop e fp (int (length buf)) = Some fp1" "took src sink (h @ cint_bytes (length buf)) fp fp1" by blast
  have "\<not> s_eof fp1" using c(2) assms(4) by (simp add: took_def)
  from write_ok' [OF assms(1) tookD [OF c(2)] this, of buf] obtain fp2 r where
    w: "zstream_write e fp1 buf (int (length buf)) = Some (fp2, r)" "took src sink ((h @ cint_bytes (length buf)) @ buf) fp1 fp2" by blast
  show ?thesis using c(1) w(1) took_trans [OF c(2) w(2)]
    by (simp add: zstream_write_cint_and_data_def zstream_write_cint_def cint_text_def)
qed

section \<open>Reading a number\<close>

lemma byte_bits: "of_int (uint (b :: byte) AND 127) = (ucast (b AND 127) :: 32 word)" "uint b AND 128 = 0 \<longleftrightarrow> b AND 128 = 0"
proof -
  have "uint (b AND 127) = uint b AND 127" "uint (b AND 128) = uint b AND 128" by (simp_all add: uint_and)
  then show "of_int (uint b AND 127) = (ucast (b AND 127) :: 32 word)" "uint b AND 128 = 0 \<longleftrightarrow> b AND 128 = 0"
    by (metis ucast_eq, metis uint_0_iff)
qed

lemma get_cint_ok:
  assumes "engine_ok e src sink pend" "stream_ok src fp" "delivers sink h fp" "input src fp = cint_bytes n @ rest"
  shows "\<exists>fp' r. get_cint_loop e fp acc shift = Some (fp', r) \<and> stream_ok src fp' \<and> delivers sink h fp'
    \<and> (\<not> s_error fp' \<longrightarrow> r = sint (acc OR push_bit shift (of_nat n)) \<and> input src fp' = rest)"
  using assms(2-4)
proof (induction n arbitrary: fp acc shift rule: cint_bytes.induct)
  case (1 n)
  from getc_ok [OF assms(1) "1.prems"(1,2)] obtain fp1 c where g: "ZSTREAM_GETC e fp = Some (fp1, c)" "got src sink h fp (fp1, c)" by blast
  note l = get_cint_loop.simps [of e fp acc shift]
  have ok: "stream_ok src fp1" "delivers sink h fp1" using g(2) by (simp_all add: got_def)
  obtain x xs where x: "cint_bytes n = x # xs" by (cases "cint_bytes n") (simp_all add: cint_bytes.simps [of n] split: if_splits)
  show ?case
  proof (cases "c = - 1")
    case True
    then show ?thesis using g ok "1.prems"(3) x by (auto simp: l got_def)
  next
    case False
    then have b: "c = uint x" "input src fp1 = xs @ rest" using g(2) "1.prems"(3) x by (auto simp: got_def)
    show ?thesis
    proof (cases "n div 128 = 0")
      case True
      then have n: "n < 128" by (simp add: div_eq_0_iff)
      have "x = of_nat (n + 128)" "xs = []" using x True by (simp_all add: cint_bytes.simps [of n])
      then show ?thesis using g(1) b ok False cint_digit(3,4) [OF n] by (simp add: l byte_bits Let_def)
    next
      case more: False
      have xs: "x = of_nat (n mod 128)" "xs = cint_bytes (n div 128)" using x more by (simp_all add: cint_bytes.simps [of n])
      have d: "push_bit shift (of_nat n :: 32 word) = push_bit shift (of_nat (n mod 128)) OR push_bit (shift + 7) (of_nat (n div 128))"
        by (subst of_nat_digits) (simp add: push_bit_or push_bit_push_bit)
      have "get_cint_loop e fp acc shift = get_cint_loop e fp1 (acc OR push_bit shift (of_nat (n mod 128))) (shift + 7)"
        using g(1) b(1) False cint_digit(1,2) [of "n mod 128"] xs(1) by (simp add: l byte_bits Let_def)
      with "1.IH" [OF more ok b(2) [unfolded xs(2)], of "acc OR push_bit shift (of_nat (n mod 128))" "shift + 7"]
      show ?thesis by (simp add: d or.assoc)
    qed
  qed
qed

end
