(* ===== verification/StreamProps.thy ===== *)
theory StreamProps
  imports StreamOk
begin

text \<open>The properties of timed I/O and of buffered streams.\<close>

section \<open>A kernel\<close>

text \<open>
  A descriptor with a given input, which delivers at most two bytes a call and takes at most three, and which
  interrupts the next \<open>n\<close> calls: the assumptions on the system calls can be met.
\<close>

type_synonym pipe = "bytes \<times> bytes \<times> nat"

definition pipe_kernel :: "pipe kernel" where
  "pipe_kernel =
     \<lparr>sys_read = (\<lambda>(i, out, n) m. if n = 0 then ((drop (min 2 m) i, out, n), Inr (take (min 2 m) i)) else ((i, out, n - 1), Inl EINTR)),
      sys_write = (\<lambda>(i, out, n) d. if n = 0 then ((i, out @ take 3 d, n), Inr (length (take 3 d))) else ((i, out, n - 1), Inl EAGAIN)),
      sys_poll = (\<lambda>(i, out, n) ev t. if n = 0 then ((i, out, n), Inr (if ev = 0 then POLLHUP else ev)) else ((i, out, n - 1), Inl EINTR)),
      sys_time = (\<lambda>k. (k, 0))\<rparr>"

definition pipe_src :: "pipe \<Rightarrow> bytes" where
  "pipe_src = (\<lambda>(i, out, n). i)"

definition pipe_sink :: "pipe \<Rightarrow> bytes" where
  "pipe_sink = (\<lambda>(i, out, n). out)"

definition pipe_pend :: "pipe \<Rightarrow> nat" where
  "pipe_pend = (\<lambda>(i, out, n). n)"

lemma poll_reports_simps [simp]: "poll_reports ev ev" "poll_reports ev 0" "poll_reports ev POLLHUP"
proof -
  have "x AND NOT (x OR y) = 0" for x y :: "16 word" by (simp add: bit.conj_disj_distrib and.assoc [symmetric])
  then show "poll_reports ev ev" unfolding poll_reports_def .
  have "ev OR (POLLERR OR POLLHUP OR POLLNVAL) = POLLHUP OR (ev OR (POLLERR OR POLLNVAL))" by (simp add: ac_simps)
  with \<open>\<And>x y. x AND NOT (x OR y) = 0\<close> show "poll_reports ev POLLHUP" unfolding poll_reports_def by metis
qed (simp add: poll_reports_def)

lemma POLLHUP_nz [simp]: "POLLHUP \<noteq> 0"
  by (simp add: POLLHUP_def)

lemma pipe_kernel_ok: "kernel_ok pipe_kernel pipe_src pipe_sink pipe_pend (\<lambda>_. 0)"
proof -
  note d = pipe_kernel_def pipe_src_def pipe_sink_def pipe_pend_def
  have "read_ok pipe_kernel pipe_src pipe_sink pipe_pend (\<lambda>_. 0)"
    by (auto simp: read_ok_def d split: if_splits)
  moreover have "write_ok pipe_kernel pipe_src pipe_sink pipe_pend (\<lambda>_. 0)"
    by (auto simp: write_ok_def d min_def split: if_splits)
  moreover have "wait_ok pipe_kernel pipe_src pipe_sink pipe_pend (\<lambda>_. 0)"
    by (auto simp: wait_ok_def d split: if_splits)
  ultimately show ?thesis by (simp add: kernel_ok_def)
qed

text \<open>A descriptor whose input \<open>i\<close> comes at the millisecond \<open>due\<close>: until then \<open>poll\<close> expires, and the clock runs.\<close>

type_synonym late = "bytes \<times> bytes \<times> int"

definition late_poll :: "int \<Rightarrow> late \<Rightarrow> 16 word \<Rightarrow> int \<Rightarrow> late \<times> (errno + 16 word)" where
  "late_poll due = (\<lambda>(i, out, c) ev t. if 0 \<le> t \<and> c + t < due then ((i, out, c + t), Inr 0)
     else ((i, out, max c due), Inr (if ev = 0 then POLLHUP else ev)))"

definition late_kernel :: "int \<Rightarrow> late kernel" where
  "late_kernel due =
     \<lparr>sys_read = (\<lambda>(i, out, c) m. ((drop m i, out, c), Inr (take m i))),
      sys_write = (\<lambda>(i, out, c) d. ((i, out @ d, c), Inr (length d))),
      sys_poll = late_poll due, sys_time = (\<lambda>(i, out, c). ((i, out, c), c))\<rparr>"

abbreviation late_clock :: "late \<Rightarrow> int" where
  "late_clock \<equiv> \<lambda>(i, out, c). c"

lemma late_kernel_ok:
  "kernel_ok (late_kernel due) fst (\<lambda>(i, out, c). out) (\<lambda>_. 0) late_clock" "punctual (late_kernel due) late_clock"
proof -
  have "read_ok (late_kernel due) fst (\<lambda>(i, out, c). out) (\<lambda>_. 0) late_clock"
    by (auto simp: read_ok_def late_kernel_def)
  moreover have "write_ok (late_kernel due) fst (\<lambda>(i, out, c). out) (\<lambda>_. 0) late_clock"
    by (auto simp: write_ok_def late_kernel_def)
  moreover have "wait_ok (late_kernel due) fst (\<lambda>(i, out, c). out) (\<lambda>_. 0) late_clock"
    by (auto simp: wait_ok_def late_kernel_def late_poll_def split: if_splits)
  ultimately show "kernel_ok (late_kernel due) fst (\<lambda>(i, out, c). out) (\<lambda>_. 0) late_clock" by (simp add: kernel_ok_def)
  show "punctual (late_kernel due) late_clock"
    by (auto simp: punctual_def late_kernel_def late_poll_def split: if_splits)
qed

abbreviation pipe_engine :: "pipe zstream_engine" where
  "pipe_engine \<equiv> fd_engine pipe_kernel (\<lambda>k _. (k, 0))"

abbreviation pipe_stream :: "bytes \<Rightarrow> nat \<Rightarrow> pipe zstream" where
  "pipe_stream i n \<equiv> zstream_open_fd (i, [], n)"

lemma pipe_stream_ok:
  "engine_ok pipe_engine pipe_src pipe_sink pipe_pend" "stream_ok pipe_src (pipe_stream i n)"
  "input pipe_src (pipe_stream i n) = i" "delivers pipe_sink [] (pipe_stream i n)" "\<not> s_error (pipe_stream i n)" "\<not> s_eof (pipe_stream i n)"
proof -
  show "engine_ok pipe_engine pipe_src pipe_sink pipe_pend" by (rule fd_engine_ok [OF pipe_kernel_ok])
  show "stream_ok pipe_src (pipe_stream i n)" by (rule open_fd_ok)
  show "input pipe_src (pipe_stream i n) = i" by (simp add: open_fd_ok pipe_src_def)
  have "pipe_sink (i, [], n) = []" by (simp add: pipe_sink_def)
  then show "delivers pipe_sink [] (pipe_stream i n)" using open_fd_ok(3) [of pipe_sink "(i, [], n)"] by simp
  show "\<not> s_error (pipe_stream i n)" "\<not> s_eof (pipe_stream i n)" by (simp_all add: zstream_open_fd_def)
qed

text \<open>A message over two such pipes, step by step.\<close>

lemma pipe_polled:
  "ztimed_write_wait_millisecond pipe_kernel (i, out, 0) (- 1000) = Some ((i, out, 0), 1)"
  "ztimed_read_wait_millisecond pipe_kernel (i, out, 0) (- 1000) = Some ((i, out, 0), 1)"
proof -
  have s: "ztimeout_set_millisecond pipe_kernel (i, out, 0) (- 1000) = ((i, out, 0), zvar_max_timeout_millisecond)"
    "poll_timeout pipe_kernel (i, out, 0) (- 1000) s = ((i, out, 0), Some (- 1))"
    "sys_poll pipe_kernel (i, out, 0) ev t = ((i, out, 0), Inr (if ev = 0 then POLLHUP else ev))" for s ev t
    by (simp_all add: ztimeout_set_millisecond_def poll_timeout_def pipe_kernel_def)
  have f: "POLLOUT \<noteq> 0" "POLLOUT AND POLLNVAL = 0" "POLLOUT AND POLLOUT \<noteq> 0" "POLLIN \<noteq> 0" "POLLIN AND POLLNVAL = 0" "POLLIN AND read_events \<noteq> 0"
    by (simp_all add: poll_flag_defs)
  have l: "wait_loop pipe_kernel (i, out, 0) (- 1000) s False True = Some ((i, out, 0), 1, False, True)"
    "wait_loop pipe_kernel (i, out, 0) (- 1000) s True False = Some ((i, out, 0), 1, True, False)" for s
    by (subst wait_loop.simps, simp only: s prod.case option.case sum.case if_True if_False or.left_neutral or.right_neutral f simp_thms)+
  show "ztimed_write_wait_millisecond pipe_kernel (i, out, 0) (- 1000) = Some ((i, out, 0), 1)"
    "ztimed_read_wait_millisecond pipe_kernel (i, out, 0) (- 1000) = Some ((i, out, 0), 1)"
    by (simp_all only: ztimed_write_wait_millisecond_def ztimed_read_wait_millisecond_def ztimed_read_write_wait_millisecond_def s l Let_def prod.case) simp_all
qed

lemma pipe_io:
  "d \<noteq> [] \<Longrightarrow> ztimed_write pipe_kernel (i, out, 0) d (- 1) = Some ((i, out @ take 3 d, 0), int (min (length d) 3))"
  "2 \<le> n \<Longrightarrow> ztimed_read pipe_kernel (i, out, 0) n (- 1) = Some ((drop 2 i, out, 0), int (length (take 2 i)), take 2 i)"
proof -
  show "d \<noteq> [] \<Longrightarrow> ztimed_write pipe_kernel (i, out, 0) d (- 1) = Some ((i, out @ take 3 d, 0), int (min (length d) 3))"
    unfolding ztimed_write_def
    by (subst write_wait_loop.simps) (cases d, simp, simp add: pipe_polled, simp add: pipe_kernel_def min_def)
  show "2 \<le> n \<Longrightarrow> ztimed_read pipe_kernel (i, out, 0) n (- 1) = Some ((drop 2 i, out, 0), int (length (take 2 i)), take 2 i)"
    unfolding ztimed_read_def
    by (subst read_wait_loop.simps) (simp add: pipe_polled, simp add: pipe_kernel_def min_def)
qed

lemma pipe_sends:
  "\<exists>w1 w2. zstream_write_cint_and_data pipe_engine (pipe_stream [] 0) [104, 105] 2 = Some (w1, 2)
    \<and> zstream_flush pipe_engine w1 = Some (w2, 1) \<and> pipe_sink (ioctx w2) = [130, 104, 105]"
proof -
  let ?b = "(replicate zvar_stream_wbuf_size 0)[0 := 130, Suc 0 := 104, Suc (Suc 0) := (105 :: byte)]"
  let ?w = "(pipe_stream [] 0)\<lparr>write_buf := ?b, write_buf_len := 3\<rparr>"
  have b: "take 3 ?b = [130, 104, 105]" by (simp add: zvar_stream_wbuf_size_def take_update_swap numeral_3_eq_3)
  have "zstream_write_cint_and_data pipe_engine (pipe_stream [] 0) [104, 105] 2 = Some (?w, 2)"
    by (simp add: zstream_write_cint_and_data_def zstream_write_cint_def write_cint_loop.simps [of _ _ 2] zstream_write_def
      zstream_open_fd_def ZSTREAM_PUTC_def zvar_stream_wbuf_size_def)
  moreover have "flush_loop pipe_engine (- 1) ([], [], 0) [130, 104, 105] = Some (([], [130, 104, 105], 0), 0)"
    by (subst flush_loop.simps, simp add: fd_engine_def pipe_io, subst flush_loop.simps, simp)
  then have "zstream_flush pipe_engine ?w = Some (?w\<lparr>ioctx := ([], [130, 104, 105], 0), write_buf_len := 0\<rparr>, 1)"
    using b by (simp add: zstream_flush_def zstream_open_fd_def)
  ultimately show ?thesis by (intro exI conjI) (assumption | simp add: pipe_sink_def)+
qed

lemma pipe_arrives:
  "\<exists>r1 r2 bf. zstream_get_cint pipe_engine (pipe_stream [130, 104, 105] 0) = Some (r1, 2) \<and> \<not> s_error r1
    \<and> zstream_readn pipe_engine r1 (Some (zbuf_init 8)) 2 = Some (r2, bf, 2) \<and> \<not> s_error r2"
proof -
  let ?r0 = "pipe_stream [130, 104, 105] 0"
  let ?r1 = "?r0\<lparr>ioctx := ([105], [], 0), read_buf_p1 := 1, read_buf_p2 := 2, read_buf := [130, 104] @ drop 2 (read_buf ?r0)\<rparr>"
  have "zstream_getc_do pipe_engine ?r0 = Some (?r1, 130)"
    by (simp add: zstream_getc_do_def zstream_open_fd_def fd_engine_def pipe_io zvar_stream_rbuf_size_def)
  then have "ZSTREAM_GETC pipe_engine ?r0 = Some (?r1, 130)" by (simp add: ZSTREAM_GETC_def zstream_open_fd_def)
  then have 1: "zstream_get_cint pipe_engine ?r0 = Some (?r1, 2)" unfolding zstream_get_cint_def
    by (subst get_cint_loop.simps) simp
  let ?r2 = "?r1\<lparr>read_buf_p1 := 2\<rparr>"
  let ?r3 = "?r2\<lparr>ioctx := ([], [], 0), read_buf_p1 := 1, read_buf_p2 := 1, read_buf := [105] @ drop 1 (read_buf ?r2)\<rparr>"
  have "ZSTREAM_GETC pipe_engine ?r1 = Some (?r2, 104)" by (simp add: ZSTREAM_GETC_def)
  moreover have "zstream_getc_do pipe_engine ?r2 = Some (?r3, 105)"
    by (simp add: zstream_getc_do_def zstream_open_fd_def fd_engine_def pipe_io zvar_stream_rbuf_size_def)
  then have "ZSTREAM_GETC pipe_engine ?r2 = Some (?r3, 105)" by (simp add: ZSTREAM_GETC_def)
  ultimately have "zstream_readn pipe_engine ?r1 (Some (zbuf_init 8)) 2
    = Some (?r3, Some (zbuf_terminate (ZBUF_PUT (ZBUF_PUT (zbuf_reset (zbuf_init 8)) 104) 105)), 2)"
    by (simp add: zstream_readn_def numeral_2_eq_2)
  moreover have "\<not> s_error ?r1" "\<not> s_error ?r3" by (simp_all add: zstream_open_fd_def)
  ultimately show ?thesis using 1 by blast
qed

section \<open>Properties\<close>



text \<open>C8: Reading from a stream yields the bytes of its engine in order and once: zstream_readn returns the next
  strict_len bytes, or all that are left before the end; zstream_read_delimiter returns the bytes up to and
  including the first delimiter, at most max_len of them; zstream_read and zstream_read_to_mem return what is
  there, at least one byte unless the input has ended or failed. The result is their number, 0 at the end of the input and -1
  after an error; an error can only cut the result short. What was written before is flushed, not lost.\<close>

theorem zstream_reads_spec:
  assumes "engine_ok e src sink pend" "stream_ok src fp" "delivers sink h fp" "zbuf_ok bf" "zbuf_cap bf = None" "0 < n"
  shows "hands_out src sink h fp (take n (input src fp)) (zstream_readn e fp (Some bf) (int n))
    \<and> hands_out src sink h fp (until (\<lambda>b. b = c) n (input src fp)) (zstream_read_delimiter e fp (Some bf) (uint c) (int n))
    \<and> (\<exists>fp' xs r bf'. zstream_read_to_mem e fp (int n) = Some (fp', xs, r) \<and> zstream_read e fp bf (int n) = Some (fp', bf', r)
        \<and> zbuf_ok bf' \<and> zbuf_bytes bf' = xs \<and> hands_some src sink h fp n fp' xs r)"
  using readn_ok [OF assms] read_delimiter_ok [OF assms] read_ok' [OF assms] by blast

theorem zstream_reads_spec_witness:
  "hands_out pipe_src pipe_sink [] (pipe_stream [97, 10, 98] 4) [97, 10]
    (zstream_read_delimiter pipe_engine (pipe_stream [97, 10, 98] 4) (Some (zbuf_init 4)) (uint (10 :: byte)) (int 80))"
proof -
  have "until (\<lambda>b. b = 10) 80 [97, 10, 98] = [97, 10]" by code_simp
  then show ?thesis using zstream_reads_spec [OF pipe_stream_ok(1,2,4) zbuf_ok_init zbuf_init_empty(2), of 80 "[97, 10, 98]" 4 4 10]
    by (simp add: pipe_stream_ok(3))
qed

text \<open>C9: Writing to a stream: the bytes given to zstream_write reach the engine after those written before, in
  order and complete, by the time zstream_flush or zstream_close returns 1; the writes return the number of bytes. When
  the engine fails, zstream_flush and zstream_close return -1 and the engine has taken a prefix of all that was written.
  What can be read is not affected.\<close>

theorem zstream_write_spec:
  assumes "engine_ok e src sink pend" "stream_ok src fp" "delivers sink h fp" "\<not> s_error fp" "\<not> s_eof fp" "buf \<noteq> []"
  shows "\<exists>fp1 fp2 n r. zstream_write e fp buf (int (length buf)) = Some (fp1, n) \<and> zstream_flush e fp1 = Some (fp2, r)
    \<and> stream_ok src fp2 \<and> input src fp2 = input src fp \<and> zstream_close e fp1 rel = Some (fst (close_fn e (ioctx fp2) rel), r)
    \<and> n = (if s_error fp1 then - 1 else int (length buf))
    \<and> (if s_error fp2 then r = - 1 \<and> prefix (sink (ioctx fp2)) (h @ buf)
       else r = 1 \<and> n = int (length buf) \<and> sink (ioctx fp2) = h @ buf)"
proof -
  from write_ok' [OF assms(1-3,5)] obtain fp1 n where
    w: "zstream_write e fp buf (int (length buf)) = Some (fp1, n)" "took src sink (h @ buf) fp fp1"
    "n = (if buf \<noteq> [] \<and> s_error fp1 then - 1 else int (length buf))" by blast
  from flush_ok [OF assms(1) tookD [OF w(2)]] obtain fp2 r where
    f: "zstream_flush e fp1 = Some (fp2, r)" "stream_ok src fp2" "input src fp2 = input src fp1" "delivers sink (h @ buf) fp2"
    "s_error fp1 \<longrightarrow> s_error fp2" "if s_error fp2 then r = - 1 else r = 1 \<and> sink (ioctx fp2) = h @ buf \<and> write_buf_len fp2 = 0" by blast
  have "zstream_close e fp1 rel = Some (fst (close_fn e (ioctx fp2) rel), r)" using f(1) by (simp add: zstream_close_def)
  moreover have "input src fp1 = input src fp" using w(2) by (simp add: took_def)
  moreover have "s_error fp2 \<Longrightarrow> prefix (sink (ioctx fp2)) (h @ buf)" using f(4) by (simp add: delivers_def)
  ultimately have "zstream_close e fp1 rel = Some (fst (close_fn e (ioctx fp2) rel), r) \<and> input src fp2 = input src fp
    \<and> (if s_error fp2 then r = - 1 \<and> prefix (sink (ioctx fp2)) (h @ buf) else r = 1 \<and> n = int (length buf) \<and> sink (ioctx fp2) = h @ buf)"
    using f(3,5,6) w(3) by simp
  moreover have "n = (if s_error fp1 then - 1 else int (length buf))" using w(3) assms(6) by simp
  ultimately show ?thesis using w(1) f(1,2) by blast
qed

theorem zstream_write_spec_witness:
  "\<exists>fp1 fp2 n r. zstream_write pipe_engine (pipe_stream [] 9) [104, 105] 2 = Some (fp1, n) \<and> zstream_flush pipe_engine fp1 = Some (fp2, r)
    \<and> (if s_error fp2 then r = - 1 else r = 1 \<and> n = 2 \<and> pipe_sink (ioctx fp2) = [104, 105])"
proof -
  have "\<exists>fp1 fp2 n r. zstream_write pipe_engine (pipe_stream [] 9) [104, 105] (int (length [104, 105 :: byte])) = Some (fp1, n)
    \<and> zstream_flush pipe_engine fp1 = Some (fp2, r)
    \<and> (if s_error fp2 then r = - 1 else r = 1 \<and> n = int (length [104, 105 :: byte]) \<and> pipe_sink (ioctx fp2) = [] @ [104, 105])"
    using zstream_write_spec [OF pipe_stream_ok(1,2,4,5,6), of "[104, 105]" "[]" 9 True] by (metis (no_types, lifting) list.distinct(1))
  moreover have "int (length [104, 105 :: byte]) = 2" by simp
  ultimately show ?thesis by (simp only: append_Nil)
qed

text \<open>C7: A message sent over a stream arrives: what zstream_write_cint_and_data and zstream_flush wrote on one side
  is, on the other side of the connection, the number and then the bytes that zstream_get_cint and zstream_readn return,
  whatever the sizes in which the two engines move the bytes, and the input goes on behind the message, unless an
  engine reports an error. The message has less than 2^29 - 1 bytes, so that the fields of the receiving buffer, signed
  fields of 31 bits in the code, hold its length and its capacity, which is part of the conclusion.\<close>

theorem zstream_message_roundtrip:
  assumes "engine_ok e1 src1 sink1 pend1" "stream_ok src1 w" "delivers sink1 [] w" "\<not> s_eof w"
    and "engine_ok e2 src2 sink2 pend2" "stream_ok src2 r" "delivers sink2 h r" "zbuf_ok bf" "zbuf_cap bf = None"
    and "data \<noteq> []" "length data + 1 < 2 ^ 29" "zbuf_fits bf"
  shows "\<exists>w1 w2 c. zstream_write_cint_and_data e1 w data (int (length data)) = Some (w1, int (length data))
    \<and> zstream_flush e1 w1 = Some (w2, c) \<and> c = (if s_error w2 then - 1 else 1)
    \<and> (c = 1 \<longrightarrow> input src2 r = sink1 (ioctx w2) @ rest \<longrightarrow>
        (\<exists>r1 n. zstream_get_cint e2 r = Some (r1, n)
          \<and> (\<not> s_error r1 \<longrightarrow> n = int (length data)
            \<and> (\<exists>r2 bf' m. zstream_readn e2 r1 (Some bf) n = Some (r2, Some bf', m) \<and> zbuf_fits bf'
              \<and> (\<not> s_error r2 \<longrightarrow> m = n \<and> zbuf_bytes bf' = data \<and> input src2 r2 = rest)))))"
proof -
  from write_cint_and_data_ok [OF assms(1-4)] obtain w1 where
    w: "zstream_write_cint_and_data e1 w data (int (length data)) = Some (w1, int (length data))" "took src1 sink1 ([] @ cint_text data) w w1" by blast
  from flush_ok [OF assms(1) tookD [OF w(2)]] obtain w2 c where
    f: "zstream_flush e1 w1 = Some (w2, c)" "if s_error w2 then c = - 1 else c = 1 \<and> sink1 (ioctx w2) = [] @ cint_text data" by metis
  have "\<exists>r1 n. zstream_get_cint e2 r = Some (r1, n)
      \<and> (\<not> s_error r1 \<longrightarrow> n = int (length data)
        \<and> (\<exists>r2 bf' m. zstream_readn e2 r1 (Some bf) n = Some (r2, Some bf', m) \<and> zbuf_fits bf'
          \<and> (\<not> s_error r2 \<longrightarrow> m = n \<and> zbuf_bytes bf' = data \<and> input src2 r2 = rest)))"
    if c: "c = 1" and i: "input src2 r = sink1 (ioctx w2) @ rest"
  proof -
    have "sink1 (ioctx w2) = cint_text data" using f(2) c by (simp split: if_splits)
    then have "input src2 r = cint_bytes (length data) @ data @ rest" using i by (simp add: cint_text_def)
    from get_cint_ok [OF assms(5-7) this, of 0 0] obtain r1 n where
      g: "zstream_get_cint e2 r = Some (r1, n)" "stream_ok src2 r1" "delivers sink2 h r1"
      "\<not> s_error r1 \<longrightarrow> n = sint (of_nat (length data) :: 32 word) \<and> input src2 r1 = data @ rest" by (auto simp: zstream_get_cint_def)
    have n: "sint (of_nat (length data) :: 32 word) = int (length data)" by (rule sint_of_nat_small) (use assms(11) in simp)
    have "\<exists>r2 bf' m. zstream_readn e2 r1 (Some bf) (int (length data)) = Some (r2, Some bf', m) \<and> zbuf_fits bf'
        \<and> (\<not> s_error r2 \<longrightarrow> m = int (length data) \<and> zbuf_bytes bf' = data \<and> input src2 r2 = rest)" if "\<not> s_error r1"
    proof -
      have i1: "input src2 r1 = data @ rest" using g(4) that by blast
      have "0 < length data" using assms(10) by simp
      from readn_ok [OF assms(5) g(2,3) assms(8,9) this] obtain r2 bf' m where
        q: "zstream_readn e2 r1 (Some bf) (int (length data)) = Some (r2, Some bf', m)" "input src2 r1 = zbuf_bytes bf' @ input src2 r2"
        "prefix (zbuf_bytes bf') (take (length data) (input src2 r1))"
        "\<not> s_error r2 \<longrightarrow> zbuf_bytes bf' = take (length data) (input src2 r1)"
        "m = (if zbuf_bytes bf' \<noteq> [] then int (length (zbuf_bytes bf')) else if s_eof r2 then 0 else - 1)"
        unfolding hands_out_def by blast
      have "length (zbuf_bytes bf') \<le> length data" using q(3) i1 prefix_length_le by fastforce
      then have "zbuf_fits bf'" using sized_fits [OF readn_sized [OF q(1) assms(8)] assms(12)] assms(11) by simp
      moreover have "\<not> s_error r2 \<Longrightarrow> zbuf_bytes bf' = data" using q(4) i1 by simp
      ultimately show ?thesis using q(1,2,5) i1 assms(10) by auto
    qed
    then show ?thesis using g(1,4) n by auto
  qed
  moreover have "c = (if s_error w2 then - 1 else 1)" using f(2) by simp
  ultimately show ?thesis using w(1) f(1) by blast
qed

theorem zstream_message_roundtrip_witness:
  "\<exists>w1 w2. zstream_write_cint_and_data pipe_engine (pipe_stream [] 0) [104, 105] 2 = Some (w1, 2)
    \<and> zstream_flush pipe_engine w1 = Some (w2, 1) \<and> pipe_sink (ioctx w2) = [130, 104, 105]
    \<and> (\<exists>r1 r2 bf'. zstream_get_cint pipe_engine (pipe_stream [130, 104, 105] 0) = Some (r1, 2) \<and> \<not> s_error r1
        \<and> zstream_readn pipe_engine r1 (Some (zbuf_init 8)) 2 = Some (r2, Some bf', 2) \<and> \<not> s_error r2
        \<and> zbuf_bytes bf' = [104, 105] \<and> zbuf_fits bf' \<and> input pipe_src r2 = [])"
proof -
  obtain w1 w2 where w: "zstream_write_cint_and_data pipe_engine (pipe_stream [] 0) [104, 105] 2 = Some (w1, 2)"
    "zstream_flush pipe_engine w1 = Some (w2, 1)" "pipe_sink (ioctx w2) = [130, 104, 105]" using pipe_sends by blast
  obtain r1 r2 bf where r: "zstream_get_cint pipe_engine (pipe_stream [130, 104, 105] 0) = Some (r1, 2)" "\<not> s_error r1"
    "zstream_readn pipe_engine r1 (Some (zbuf_init 8)) 2 = Some (r2, bf, 2)" "\<not> s_error r2" using pipe_arrives by blast
  have "zbuf_fits (zbuf_init 8)" by (simp add: zbuf_fits_def zbuf_init_def)
  from zstream_message_roundtrip [OF pipe_stream_ok(1,2,4,6) pipe_stream_ok(1,2,4) zbuf_ok_init zbuf_init_empty(2) _ _ this,
      of "[104, 105]" "[]" 0 "[130, 104, 105]" 0 "[]"]
  have "\<exists>bf'. bf = Some bf' \<and> zbuf_bytes bf' = [104, 105] \<and> zbuf_fits bf' \<and> input pipe_src r2 = []"
    using w r by (auto simp: pipe_stream_ok(3))
  then show ?thesis using w r by blast
qed

end
