(* ===== verification/Chars.thy ===== *)
theory Chars
  imports CStr TextEnc
begin

text \<open>
  The character tables of \<open>src/stdlib/string.c\<close> and the macros of \<open>zc.h\<close> that look a character up
  in them. They are compared with the character classes of the C locale; the comment in \<open>zc.h\<close>
  promises that they agree.
\<close>

section \<open>Tables\<close>

definition zchar_lowercase_vector :: "byte list" where
  "zchar_lowercase_vector =
    [0, 1, 2, 3, 4, 5, 6, 7, 8, 9, 10, 11, 12, 13, 14, 15,
     16, 17, 18, 19, 20, 21, 22, 23, 24, 25, 26, 27, 28, 29, 30, 31,
     32, 33, 34, 35, 36, 37, 38, 39, 40, 41, 42, 43, 44, 45, 46, 47,
     48, 49, 50, 51, 52, 53, 54, 55, 56, 57, 58, 59, 60, 61, 62, 63,
     64, 97, 98, 99, 100, 101, 102, 103, 104, 105, 106, 107, 108, 109, 110, 111,
     112, 113, 114, 115, 116, 117, 118, 119, 120, 121, 122, 91, 92, 93, 94, 95,
     96, 97, 98, 99, 100, 101, 102, 103, 104, 105, 106, 107, 108, 109, 110, 111,
     112, 113, 114, 115, 116, 117, 118, 119, 120, 121, 122, 123, 124, 125, 126, 127,
     128, 129, 130, 131, 132, 133, 134, 135, 136, 137, 138, 139, 140, 141, 142, 143,
     144, 145, 146, 147, 148, 149, 150, 151, 152, 153, 154, 155, 156, 157, 158, 159,
     160, 161, 162, 163, 164, 165, 166, 167, 168, 169, 170, 171, 172, 173, 174, 175,
     176, 177, 178, 179, 180, 181, 182, 183, 184, 185, 186, 187, 188, 189, 190, 191,
     192, 193, 194, 195, 196, 197, 198, 199, 200, 201, 202, 203, 204, 205, 206, 207,
     208, 209, 210, 211, 212, 213, 214, 215, 216, 217, 218, 219, 220, 221, 222, 223,
     224, 225, 226, 227, 228, 229, 230, 231, 232, 233, 234, 235, 236, 237, 238, 239,
     240, 241, 242, 243, 244, 245, 246, 247, 248, 249, 250, 251, 252, 253, 254, 255]"

definition zchar_uppercase_vector :: "byte list" where
  "zchar_uppercase_vector =
    [0, 1, 2, 3, 4, 5, 6, 7, 8, 9, 10, 11, 12, 13, 14, 15,
     16, 17, 18, 19, 20, 21, 22, 23, 24, 25, 26, 27, 28, 29, 30, 31,
     32, 33, 34, 35, 36, 37, 38, 39, 40, 41, 42, 43, 44, 45, 46, 47,
     48, 49, 50, 51, 52, 53, 54, 55, 56, 57, 58, 59, 60, 61, 62, 63,
     64, 65, 66, 67, 68, 69, 70, 71, 72, 73, 74, 75, 76, 77, 78, 79,
     80, 81, 82, 83, 84, 85, 86, 87, 88, 89, 90, 91, 92, 93, 94, 95,
     96, 65, 66, 67, 68, 69, 70, 71, 72, 73, 74, 75, 76, 77, 78, 79,
     80, 81, 82, 83, 84, 85, 86, 87, 88, 89, 90, 123, 124, 125, 126, 127,
     128, 129, 130, 131, 132, 133, 134, 135, 136, 137, 138, 139, 140, 141, 142, 143,
     144, 145, 146, 147, 148, 149, 150, 151, 152, 153, 154, 155, 156, 157, 158, 159,
     160, 161, 162, 163, 164, 165, 166, 167, 168, 169, 170, 171, 172, 173, 174, 175,
     176, 177, 178, 179, 180, 181, 182, 183, 184, 185, 186, 187, 188, 189, 190, 191,
     192, 193, 194, 195, 196, 197, 198, 199, 200, 201, 202, 203, 204, 205, 206, 207,
     208, 209, 210, 211, 212, 213, 214, 215, 216, 217, 218, 219, 220, 221, 222, 223,
     224, 225, 226, 227, 228, 229, 230, 231, 232, 233, 234, 235, 236, 237, 238, 239,
     240, 241, 242, 243, 244, 245, 246, 247, 248, 249, 250, 251, 252, 253, 254, 255]"

definition zchar_isalnum_vector :: "byte list" where
  "zchar_isalnum_vector =
    [0, 0, 0, 0, 0, 0, 0, 0, 0, 0, 0, 0, 0, 0, 0, 0,
     0, 0, 0, 0, 0, 0, 0, 0, 0, 0, 0, 0, 0, 0, 0, 0,
     0, 0, 0, 0, 0, 0, 0, 0, 0, 0, 0, 0, 0, 0, 0, 0,
     1, 1, 1, 1, 1, 1, 1, 1, 1, 1, 0, 0, 0, 0, 0, 0,
     0, 1, 1, 1, 1, 1, 1, 1, 1, 1, 1, 1, 1, 1, 1, 1,
     1, 1, 1, 1, 1, 1, 1, 1, 1, 1, 1, 0, 0, 0, 0, 0,
     0, 1, 1, 1, 1, 1, 1, 1, 1, 1, 1, 1, 1, 1, 1, 1,
     1, 1, 1, 1, 1, 1, 1, 1, 1, 1, 1, 0, 0, 0, 0, 0,
     0, 0, 0, 0, 0, 0, 0, 0, 0, 0, 0, 0, 0, 0, 0, 0,
     0, 0, 0, 0, 0, 0, 0, 0, 0, 0, 0, 0, 0, 0, 0, 0,
     0, 0, 0, 0, 0, 0, 0, 0, 0, 0, 0, 0, 0, 0, 0, 0,
     0, 0, 0, 0, 0, 0, 0, 0, 0, 0, 0, 0, 0, 0, 0, 0,
     0, 0, 0, 0, 0, 0, 0, 0, 0, 0, 0, 0, 0, 0, 0, 0,
     0, 0, 0, 0, 0, 0, 0, 0, 0, 0, 0, 0, 0, 0, 0, 0,
     0, 0, 0, 0, 0, 0, 0, 0, 0, 0, 0, 0, 0, 0, 0, 0,
     0, 0, 0, 0, 0, 0, 0, 0, 0, 0, 0, 0, 0, 0, 0, 0]"

definition zchar_isalpha_vector :: "byte list" where
  "zchar_isalpha_vector =
    [0, 0, 0, 0, 0, 0, 0, 0, 0, 0, 0, 0, 0, 0, 0, 0,
     0, 0, 0, 0, 0, 0, 0, 0, 0, 0, 0, 0, 0, 0, 0, 0,
     0, 0, 0, 0, 0, 0, 0, 0, 0, 0, 0, 0, 0, 0, 0, 0,
     0, 0, 0, 0, 0, 0, 0, 0, 0, 0, 0, 0, 0, 0, 0, 0,
     0, 1, 1, 1, 1, 1, 1, 1, 1, 1, 1, 1, 1, 1, 1, 1,
     1, 1, 1, 1, 1, 1, 1, 1, 1, 1, 1, 0, 0, 0, 0, 0,
     0, 1, 1, 1, 1, 1, 1, 1, 1, 1, 1, 1, 1, 1, 1, 1,
     1, 1, 1, 1, 1, 1, 1, 1, 1, 1, 1, 0, 0, 0, 0, 0,
     0, 0, 0, 0, 0, 0, 0, 0, 0, 0, 0, 0, 0, 0, 0, 0,
     0, 0, 0, 0, 0, 0, 0, 0, 0, 0, 0, 0, 0, 0, 0, 0,
     0, 0, 0, 0, 0, 0, 0, 0, 0, 0, 0, 0, 0, 0, 0, 0,
     0, 0, 0, 0, 0, 0, 0, 0, 0, 0, 0, 0, 0, 0, 0, 0,
     0, 0, 0, 0, 0, 0, 0, 0, 0, 0, 0, 0, 0, 0, 0, 0,
     0, 0, 0, 0, 0, 0, 0, 0, 0, 0, 0, 0, 0, 0, 0, 0,
     0, 0, 0, 0, 0, 0, 0, 0, 0, 0, 0, 0, 0, 0, 0, 0,
     0, 0, 0, 0, 0, 0, 0, 0, 0, 0, 0, 0, 0, 0, 0, 0]"

definition zchar_islower_vector :: "byte list" where
  "zchar_islower_vector =
    [0, 0, 0, 0, 0, 0, 0, 0, 0, 0, 0, 0, 0, 0, 0, 0,
     0, 0, 0, 0, 0, 0, 0, 0, 0, 0, 0, 0, 0, 0, 0, 0,
     0, 0, 0, 0, 0, 0, 0, 0, 0, 0, 0, 0, 0, 0, 0, 0,
     0, 0, 0, 0, 0, 0, 0, 0, 0, 0, 0, 0, 0, 0, 0, 0,
     0, 0, 0, 0, 0, 0, 0, 0, 0, 0, 0, 0, 0, 0, 0, 0,
     0, 0, 0, 0, 0, 0, 0, 0, 0, 0, 0, 0, 0, 0, 0, 0,
     0, 1, 1, 1, 1, 1, 1, 1, 1, 1, 1, 1, 1, 1, 1, 1,
     1, 1, 1, 1, 1, 1, 1, 1, 1, 1, 1, 0, 0, 0, 0, 0,
     0, 0, 0, 0, 0, 0, 0, 0, 0, 0, 0, 0, 0, 0, 0, 0,
     0, 0, 0, 0, 0, 0, 0, 0, 0, 0, 0, 0, 0, 0, 0, 0,
     0, 0, 0, 0, 0, 0, 0, 0, 0, 0, 0, 0, 0, 0, 0, 0,
     0, 0, 0, 0, 0, 0, 0, 0, 0, 0, 0, 0, 0, 0, 0, 0,
     0, 0, 0, 0, 0, 0, 0, 0, 0, 0, 0, 0, 0, 0, 0, 0,
     0, 0, 0, 0, 0, 0, 0, 0, 0, 0, 0, 0, 0, 0, 0, 0,
     0, 0, 0, 0, 0, 0, 0, 0, 0, 0, 0, 0, 0, 0, 0, 0,
     0, 0, 0, 0, 0, 0, 0, 0, 0, 0, 0, 0, 0, 0, 0, 0]"

definition zchar_isupper_vector :: "byte list" where
  "zchar_isupper_vector =
    [0, 0, 0, 0, 0, 0, 0, 0, 0, 0, 0, 0, 0, 0, 0, 0,
     0, 0, 0, 0, 0, 0, 0, 0, 0, 0, 0, 0, 0, 0, 0, 0,
     0, 0, 0, 0, 0, 0, 0, 0, 0, 0, 0, 0, 0, 0, 0, 0,
     0, 0, 0, 0, 0, 0, 0, 0, 0, 0, 0, 0, 0, 0, 0, 0,
     0, 1, 1, 1, 1, 1, 1, 1, 1, 1, 1, 1, 1, 1, 1, 1,
     1, 1, 1, 1, 1, 1, 1, 1, 1, 1, 1, 0, 0, 0, 0, 0,
     0, 0, 0, 0, 0, 0, 0, 0, 0, 0, 0, 0, 0, 0, 0, 0,
     0, 0, 0, 0, 0, 0, 0, 0, 0, 0, 0, 0, 0, 0, 0, 0,
     0, 0, 0, 0, 0, 0, 0, 0, 0, 0, 0, 0, 0, 0, 0, 0,
     0, 0, 0, 0, 0, 0, 0, 0, 0, 0, 0, 0, 0, 0, 0, 0,
     0, 0, 0, 0, 0, 0, 0, 0, 0, 0, 0, 0, 0, 0, 0, 0,
     0, 0, 0, 0, 0, 0, 0, 0, 0, 0, 0, 0, 0, 0, 0, 0,
     0, 0, 0, 0, 0, 0, 0, 0, 0, 0, 0, 0, 0, 0, 0, 0,
     0, 0, 0, 0, 0, 0, 0, 0, 0, 0, 0, 0, 0, 0, 0, 0,
     0, 0, 0, 0, 0, 0, 0, 0, 0, 0, 0, 0, 0, 0, 0, 0,
     0, 0, 0, 0, 0, 0, 0, 0, 0, 0, 0, 0, 0, 0, 0, 0]"

definition zchar_isdigit_vector :: "byte list" where
  "zchar_isdigit_vector =
    [0, 0, 0, 0, 0, 0, 0, 0, 0, 0, 0, 0, 0, 0, 0, 0,
     0, 0, 0, 0, 0, 0, 0, 0, 0, 0, 0, 0, 0, 0, 0, 0,
     0, 0, 0, 0, 0, 0, 0, 0, 0, 0, 0, 0, 0, 0, 0, 0,
     1, 1, 1, 1, 1, 1, 1, 1, 1, 1, 0, 0, 0, 0, 0, 0,
     0, 0, 0, 0, 0, 0, 0, 0, 0, 0, 0, 0, 0, 0, 0, 0,
     0, 0, 0, 0, 0, 0, 0, 0, 0, 0, 0, 0, 0, 0, 0, 0,
     0, 0, 0, 0, 0, 0, 0, 0, 0, 0, 0, 0, 0, 0, 0, 0,
     0, 0, 0, 0, 0, 0, 0, 0, 0, 0, 0, 0, 0, 0, 0, 0,
     0, 0, 0, 0, 0, 0, 0, 0, 0, 0, 0, 0, 0, 0, 0, 0,
     0, 0, 0, 0, 0, 0, 0, 0, 0, 0, 0, 0, 0, 0, 0, 0,
     0, 0, 0, 0, 0, 0, 0, 0, 0, 0, 0, 0, 0, 0, 0, 0,
     0, 0, 0, 0, 0, 0, 0, 0, 0, 0, 0, 0, 0, 0, 0, 0,
     0, 0, 0, 0, 0, 0, 0, 0, 0, 0, 0, 0, 0, 0, 0, 0,
     0, 0, 0, 0, 0, 0, 0, 0, 0, 0, 0, 0, 0, 0, 0, 0,
     0, 0, 0, 0, 0, 0, 0, 0, 0, 0, 0, 0, 0, 0, 0, 0,
     0, 0, 0, 0, 0, 0, 0, 0, 0, 0, 0, 0, 0, 0, 0, 0]"

definition zchar_isxdigit_vector :: "byte list" where
  "zchar_isxdigit_vector =
    [0, 0, 0, 0, 0, 0, 0, 0, 0, 0, 0, 0, 0, 0, 0, 0,
     0, 0, 0, 0, 0, 0, 0, 0, 0, 0, 0, 0, 0, 0, 0, 0,
     0, 0, 0, 0, 0, 0, 0, 0, 0, 0, 0, 0, 0, 0, 0, 0,
     1, 1, 1, 1, 1, 1, 1, 1, 1, 1, 0, 0, 0, 0, 0, 0,
     0, 1, 1, 1, 1, 1, 1, 0, 0, 0, 0, 0, 0, 0, 0, 0,
     0, 0, 0, 0, 0, 0, 0, 0, 0, 0, 0, 0, 0, 0, 0, 0,
     0, 1, 1, 1, 1, 1, 1, 0, 0, 0, 0, 0, 0, 0, 0, 0,
     0, 0, 0, 0, 0, 0, 0, 0, 0, 0, 0, 0, 0, 0, 0, 0,
     0, 0, 0, 0, 0, 0, 0, 0, 0, 0, 0, 0, 0, 0, 0, 0,
     0, 0, 0, 0, 0, 0, 0, 0, 0, 0, 0, 0, 0, 0, 0, 0,
     0, 0, 0, 0, 0, 0, 0, 0, 0, 0, 0, 0, 0, 0, 0, 0,
     0, 0, 0, 0, 0, 0, 0, 0, 0, 0, 0, 0, 0, 0, 0, 0,
     0, 0, 0, 0, 0, 0, 0, 0, 0, 0, 0, 0, 0, 0, 0, 0,
     0, 0, 0, 0, 0, 0, 0, 0, 0, 0, 0, 0, 0, 0, 0, 0,
     0, 0, 0, 0, 0, 0, 0, 0, 0, 0, 0, 0, 0, 0, 0, 0,
     0, 0, 0, 0, 0, 0, 0, 0, 0, 0, 0, 0, 0, 0, 0, 0]"

definition zchar_istrim_vector :: "byte list" where
  "zchar_istrim_vector =
    [1, 1, 1, 1, 1, 1, 1, 1, 1, 1, 1, 1, 1, 1, 1, 1,
     1, 1, 1, 1, 1, 1, 1, 1, 1, 1, 1, 1, 1, 1, 1, 1,
     1, 0, 1, 0, 0, 0, 0, 1, 0, 0, 0, 0, 0, 0, 0, 0,
     0, 0, 0, 0, 0, 0, 0, 0, 0, 0, 0, 0, 0, 0, 0, 0,
     0, 0, 0, 0, 0, 0, 0, 0, 0, 0, 0, 0, 0, 0, 0, 0,
     0, 0, 0, 0, 0, 0, 0, 0, 0, 0, 0, 0, 0, 0, 0, 0,
     0, 0, 0, 0, 0, 0, 0, 0, 0, 0, 0, 0, 0, 0, 0, 0,
     0, 0, 0, 0, 0, 0, 0, 0, 0, 0, 0, 0, 0, 0, 0, 0,
     0, 0, 0, 0, 0, 0, 0, 0, 0, 0, 0, 0, 0, 0, 0, 0,
     0, 0, 0, 0, 0, 0, 0, 0, 0, 0, 0, 0, 0, 0, 0, 0,
     0, 0, 0, 0, 0, 0, 0, 0, 0, 0, 0, 0, 0, 0, 0, 0,
     0, 0, 0, 0, 0, 0, 0, 0, 0, 0, 0, 0, 0, 0, 0, 0,
     0, 0, 0, 0, 0, 0, 0, 0, 0, 0, 0, 0, 0, 0, 0, 0,
     0, 0, 0, 0, 0, 0, 0, 0, 0, 0, 0, 0, 0, 0, 0, 0,
     0, 0, 0, 0, 0, 0, 0, 0, 0, 0, 0, 0, 0, 0, 0, 0,
     0, 0, 0, 0, 0, 0, 0, 0, 0, 0, 0, 0, 0, 0, 0, 0]"

section \<open>Lookups\<close>

definition ztolower :: "byte \<Rightarrow> byte" where
  "ztolower c = zchar_lowercase_vector ! unat c"

definition ztoupper :: "byte \<Rightarrow> byte" where
  "ztoupper c = zchar_uppercase_vector ! unat c"

definition zisalnum :: "byte \<Rightarrow> byte" where
  "zisalnum c = zchar_isalnum_vector ! unat c"

definition zisalpha :: "byte \<Rightarrow> byte" where
  "zisalpha c = zchar_isalpha_vector ! unat c"

definition zislower :: "byte \<Rightarrow> byte" where
  "zislower c = zchar_islower_vector ! unat c"

definition zisupper :: "byte \<Rightarrow> byte" where
  "zisupper c = zchar_isupper_vector ! unat c"

definition zisdigit :: "byte \<Rightarrow> byte" where
  "zisdigit c = zchar_isdigit_vector ! unat c"

definition zisxdigit :: "byte \<Rightarrow> byte" where
  "zisxdigit c = zchar_isxdigit_vector ! unat c"

definition zhexval :: "byte \<Rightarrow> byte" where
  "zhexval c = zchar_xdigitval_vector ! unat c"

definition zistrim :: "byte \<Rightarrow> byte" where
  "zistrim c = zchar_istrim_vector ! unat c"

section \<open>The C locale\<close>

text \<open>The classes of \<open>ctype.h\<close> in the C locale, on the value of the unsigned character.\<close>

definition islower :: "byte \<Rightarrow> bool" where
  "islower c \<longleftrightarrow> ch CHR ''a'' \<le> c \<and> c \<le> ch CHR ''z''"

definition isupper :: "byte \<Rightarrow> bool" where
  "isupper c \<longleftrightarrow> ch CHR ''A'' \<le> c \<and> c \<le> ch CHR ''Z''"

definition isdigit :: "byte \<Rightarrow> bool" where
  "isdigit c \<longleftrightarrow> ch CHR ''0'' \<le> c \<and> c \<le> ch CHR ''9''"

definition isalpha :: "byte \<Rightarrow> bool" where
  "isalpha c \<longleftrightarrow> islower c \<or> isupper c"

definition isxdigit :: "byte \<Rightarrow> bool" where
  "isxdigit c \<longleftrightarrow> isdigit c \<or> (ch CHR ''a'' \<le> c \<and> c \<le> ch CHR ''f'') \<or> (ch CHR ''A'' \<le> c \<and> c \<le> ch CHR ''F'')"

definition isspace :: "byte \<Rightarrow> bool" where
  "isspace c \<longleftrightarrow> c = 32 \<or> (9 \<le> c \<and> c \<le> 13)"

definition iscntrl :: "byte \<Rightarrow> bool" where
  "iscntrl c \<longleftrightarrow> c < 32 \<or> c = 127"

definition isascii :: "byte \<Rightarrow> bool" where
  "isascii c \<longleftrightarrow> c < 128"

definition toupper :: "byte \<Rightarrow> byte" where
  "toupper c = (if islower c then c - 32 else c)"

section \<open>The tables follow the C locale\<close>

fun table_ok :: "(int \<Rightarrow> int) \<Rightarrow> int \<Rightarrow> bytes \<Rightarrow> bool" where
  "table_ok f i [] = True"
| "table_ok f i (x # xs) = (x = word_of_int (f i) \<and> table_ok f (i + 1) xs)"

lemma table_ok_nth: "table_ok f i t \<Longrightarrow> n < length t \<Longrightarrow> t ! n = word_of_int (f (i + int n))"
  by (induction f i t arbitrary: n rule: table_ok.induct) (auto simp: nth_Cons' algebra_simps of_nat_diff)

lemma table_lookup:
  assumes "table_ok f 0 t" "length t = 256"
  shows "t ! unat (c :: byte) = word_of_int (f (uint c))"
  using table_ok_nth [OF assms(1), of "unat c"] assms(2) by simp

lemma uint_ch: "uint (ch CHR ''a'') = 97" "uint (ch CHR ''z'') = 122" "uint (ch CHR ''A'') = 65" "uint (ch CHR ''Z'') = 90"
  "uint (ch CHR ''0'') = 48" "uint (ch CHR ''9'') = 57" "uint (ch CHR ''f'') = 102" "uint (ch CHR ''F'') = 70"
  by (simp_all add: ch_def)

lemmas class_defs = islower_def isupper_def isdigit_def isalpha_def isalnum_def isxdigit_def

lemmas class_ranges = class_defs word_le_def uint_ch

lemma tolower_uint: "tolower c = word_of_int (if 65 \<le> uint c \<and> uint c \<le> 90 then uint c + 32 else uint c)"
  by (auto simp: tolower_def word_le_def uint_ch)

lemma toupper_uint: "toupper c = word_of_int (if 97 \<le> uint c \<and> uint c \<le> 122 then uint c - 32 else uint c)"
  by (auto simp: toupper_def class_ranges)

lemma ztolower_eq [simp]: "ztolower c = tolower c"
  unfolding ztolower_def tolower_uint by (rule table_lookup) (simp_all add: zchar_lowercase_vector_def)

lemma ztoupper_eq [simp]: "ztoupper c = toupper c"
  unfolding ztoupper_def toupper_uint by (rule table_lookup) (simp_all add: zchar_uppercase_vector_def)

definition flag :: "bool \<Rightarrow> int" where
  "flag b = (if b then 1 else 0)"

lemma class_lookup:
  assumes "table_ok (\<lambda>i. flag (P i)) 0 t" "length t = 256" "\<And>c :: byte. Q c \<longleftrightarrow> P (uint c)"
  shows "t ! unat c \<noteq> 0 \<longleftrightarrow> Q c"
  using table_lookup [OF assms(1,2), of c] assms(3) by (simp add: flag_def)

lemma zisdigit_iff: "zisdigit c \<noteq> 0 \<longleftrightarrow> isdigit c"
  unfolding zisdigit_def
  by (rule class_lookup [where P = "\<lambda>i. 48 \<le> i \<and> i \<le> 57"])
    (simp_all add: zchar_isdigit_vector_def flag_def class_ranges)

lemma zislower_iff: "zislower c \<noteq> 0 \<longleftrightarrow> islower c"
  unfolding zislower_def
  by (rule class_lookup [where P = "\<lambda>i. 97 \<le> i \<and> i \<le> 122"])
    (simp_all add: zchar_islower_vector_def flag_def class_ranges)

lemma zisupper_iff: "zisupper c \<noteq> 0 \<longleftrightarrow> isupper c"
  unfolding zisupper_def
  by (rule class_lookup [where P = "\<lambda>i. 65 \<le> i \<and> i \<le> 90"])
    (simp_all add: zchar_isupper_vector_def flag_def class_ranges)

lemma zisalpha_iff: "zisalpha c \<noteq> 0 \<longleftrightarrow> isalpha c"
  unfolding zisalpha_def
  by (rule class_lookup [where P = "\<lambda>i. 97 \<le> i \<and> i \<le> 122 \<or> 65 \<le> i \<and> i \<le> 90"])
    (simp_all add: zchar_isalpha_vector_def flag_def class_ranges)

lemma zisalnum_iff: "zisalnum c \<noteq> 0 \<longleftrightarrow> isalnum c"
  unfolding zisalnum_def
  by (rule class_lookup [where P = "\<lambda>i. 48 \<le> i \<and> i \<le> 57 \<or> 65 \<le> i \<and> i \<le> 90 \<or> 97 \<le> i \<and> i \<le> 122"])
    (simp_all add: zchar_isalnum_vector_def flag_def class_ranges)

lemma zisxdigit_iff: "zisxdigit c \<noteq> 0 \<longleftrightarrow> isxdigit c"
  unfolding zisxdigit_def
  by (rule class_lookup [where P = "\<lambda>i. 48 \<le> i \<and> i \<le> 57 \<or> 97 \<le> i \<and> i \<le> 102 \<or> 65 \<le> i \<and> i \<le> 70"])
    (simp_all add: zchar_isxdigit_vector_def flag_def class_ranges)

text \<open>\<open>zhexval\<close> has 255 for a character that is no digit.\<close>

definition digit_value :: "byte \<Rightarrow> byte" where
  "digit_value c =
     (if isdigit c then c - 48 else if ch CHR ''a'' \<le> c \<and> c \<le> ch CHR ''f'' then c - 87
      else if ch CHR ''A'' \<le> c \<and> c \<le> ch CHR ''F'' then c - 55 else 255)"

lemma zhexval_eq: "zhexval c = digit_value c"
proof -
  have "zhexval c = word_of_int (if 48 \<le> uint c \<and> uint c \<le> 57 then uint c - 48 else if 97 \<le> uint c \<and> uint c \<le> 102 then uint c - 87
      else if 65 \<le> uint c \<and> uint c \<le> 70 then uint c - 55 else 255)"
    unfolding zhexval_def by (rule table_lookup) (simp_all add: zchar_xdigitval_vector_def)
  then show ?thesis by (auto simp: digit_value_def class_ranges)
qed

text \<open>\<open>zistrim\<close>: control characters up to the blank, and the two quotes.\<close>

lemma zistrim_iff: "zistrim c \<noteq> 0 \<longleftrightarrow> c \<le> 32 \<or> c = 34 \<or> c = 39"
  unfolding zistrim_def
  by (rule class_lookup [where P = "\<lambda>i. i \<le> 32 \<or> i = 34 \<or> i = 39"])
    (simp_all add: zchar_istrim_vector_def flag_def word_le_def word_uint_eq_iff)

text \<open>In the C locale the lookups of the tables are \<open>tolower\<close>, \<open>toupper\<close>, the classes of \<open>ctype.h\<close> and
  the value of a hexadecimal digit, for all 256 characters.\<close>

theorem char_tables_c_locale:
  "ztolower c = tolower c \<and> ztoupper c = toupper c \<and> (zisalnum c \<noteq> 0 \<longleftrightarrow> isalnum c) \<and> (zisalpha c \<noteq> 0 \<longleftrightarrow> isalpha c)
   \<and> (zislower c \<noteq> 0 \<longleftrightarrow> islower c) \<and> (zisupper c \<noteq> 0 \<longleftrightarrow> isupper c) \<and> (zisdigit c \<noteq> 0 \<longleftrightarrow> isdigit c)
   \<and> (zisxdigit c \<noteq> 0 \<longleftrightarrow> isxdigit c) \<and> zhexval c = digit_value c \<and> (zistrim c \<noteq> 0 \<longleftrightarrow> c \<le> 32 \<or> c = 34 \<or> c = 39)"
  by (simp add: zisalnum_iff zisalpha_iff zislower_iff zisupper_iff zisdigit_iff zisxdigit_iff zhexval_eq zistrim_iff)

end
