(* ===== verification/Strs.thy ===== *)
theory Strs
  imports Chars "HOL-Library.Monad_Syntax"
begin

text \<open>
  The string functions of \<open>src/stdlib/string.c\<close>, the argument vectors of \<open>src/stdlib/argv.c\<close> and the
  string copies of \<open>src/malloc/malloc.c\<close>.

  A \<open>char *\<close> to a string is the list of its characters: the end of the list is the NUL, and the strings
  of the model have no other NUL. A pointer into a string is the rest of the string from there.
\<close>

section \<open>Case conversion\<close>

fun zstr_tolower :: "bytes \<Rightarrow> bytes" where
  "zstr_tolower [] = []"
| "zstr_tolower (c # s) = (if c = 0 then c # s else ztolower c # zstr_tolower s)"

fun zstr_toupper :: "bytes \<Rightarrow> bytes" where
  "zstr_toupper [] = []"
| "zstr_toupper (c # s) = (if c = 0 then c # s else ztoupper c # zstr_toupper s)"

lemma zstr_tolower_map: "0 \<notin> set s \<Longrightarrow> zstr_tolower s = map tolower s"
  by (induction s) auto

lemma zstr_toupper_map: "0 \<notin> set s \<Longrightarrow> zstr_toupper s = map toupper s"
  by (induction s) auto

section \<open>Trimming\<close>

definition TRIM_DELETE :: "byte \<Rightarrow> bool" where
  "TRIM_DELETE c \<longleftrightarrow> isascii c \<and> isspace c \<or> iscntrl c"

fun TRIM_SKIP :: "bytes \<Rightarrow> bytes" where
  "TRIM_SKIP [] = []"
| "TRIM_SKIP (c # s) = (if c \<noteq> 0 \<and> TRIM_DELETE c then TRIM_SKIP s else c # s)"

text \<open>The loop of \<open>___TRIM\<close> goes back from the end \<open>n\<close> and cuts the string there.\<close>

fun TRIM_END :: "bytes \<Rightarrow> nat \<Rightarrow> nat" where
  "TRIM_END s 0 = 0"
| "TRIM_END s (Suc n) = (if TRIM_DELETE (s ! n) then TRIM_END s n else Suc n)"

definition ztrim_left :: "bytes \<Rightarrow> bytes" where
  "ztrim_left str = TRIM_SKIP str"

definition ztrim_right :: "bytes \<Rightarrow> bytes" where
  "ztrim_right str = take (TRIM_END str (length str)) str"

definition ztrim :: "bytes \<Rightarrow> bytes" where
  "ztrim str = (let np = TRIM_SKIP str in take (TRIM_END np (length np)) np)"

section \<open>Skipping\<close>

text \<open>\<open>strchr(ignores, c)\<close> also finds the NUL at the end of \<open>ignores\<close>.\<close>

definition strchr_in :: "bytes \<Rightarrow> byte \<Rightarrow> bool" where
  "strchr_in ignores c \<longleftrightarrow> c \<in> set ignores \<or> c = 0"

fun zskip_left :: "bytes \<Rightarrow> bytes \<Rightarrow> bytes option" where
  "zskip_left [] ignores = None"
| "zskip_left (c # s) ignores =
     (if c = 0 then None else if strchr_in ignores c then zskip_left s ignores else Some (c # s))"

fun skip_right_from :: "bytes \<Rightarrow> bytes \<Rightarrow> nat \<Rightarrow> nat" where
  "skip_right_from s ignores 0 = 0"
| "skip_right_from s ignores (Suc n) = (if strchr_in ignores (s ! n) then skip_right_from s ignores n else Suc n)"

definition zskip_right :: "bytes \<Rightarrow> int \<Rightarrow> bytes \<Rightarrow> nat" where
  "zskip_right str len ignores = (let s = src_bytes str len in skip_right_from s ignores (length s))"

fun skip_left_from :: "bytes \<Rightarrow> bytes \<Rightarrow> bytes" where
  "skip_left_from [] ignores = []"
| "skip_left_from (c # s) ignores = (if strchr_in ignores c then skip_left_from s ignores else c # s)"

text \<open>The result is the returned length and what is stored through \<open>start\<close>, \<open>None\<close> when nothing is.
  \<open>ignores_right\<close> may be NULL.\<close>

definition zskip :: "bytes \<Rightarrow> int \<Rightarrow> bytes \<Rightarrow> bytes option \<Rightarrow> nat \<times> bytes option" where
  "zskip line len ignores_left ignores_right =
     (let ps = skip_left_from (src_bytes line len) ignores_left in
      if ps = [] then (0, None)
      else let ir = (case ignores_right of None \<Rightarrow> ignores_left | Some x \<Rightarrow> x);
               n = skip_right_from ps ir (length ps) in
        if n = 0 then (0, None) else (n, Some ps))"

section \<open>Tokens\<close>

record zstrtok_t =
  sstr :: bytes
  tok_str :: "bytes option"
  tok_len :: nat

definition zstrtok_init :: "bytes \<Rightarrow> zstrtok_t" where
  "zstrtok_init s = \<lparr>sstr = s, tok_str = None, tok_len = 0\<rparr>"

definition strspn :: "bytes \<Rightarrow> bytes \<Rightarrow> nat" where
  "strspn s accept = length (takeWhile (\<lambda>c. c \<in> set accept) s)"

definition strcspn :: "bytes \<Rightarrow> bytes \<Rightarrow> nat" where
  "strcspn s reject = length (takeWhile (\<lambda>c. c \<notin> set reject) s)"

definition zstrtok :: "zstrtok_t \<Rightarrow> bytes \<Rightarrow> zstrtok_t option" where
  "zstrtok k delim =
     (let r = drop (strspn (sstr k) delim) (sstr k) in
      if r = [] then None
      else let n = strcspn r delim in
        if n = 0 then None
        else Some (k\<lparr>tok_len := n, sstr := drop n r, tok_str := Some r\<rparr>))"

section \<open>Copies\<close>

text \<open>A new string with the given characters; the argument is \<open>None\<close> for NULL.\<close>

definition zstrdup :: "bytes option \<Rightarrow> bytes" where
  "zstrdup p = (case p of None \<Rightarrow> [] | Some s \<Rightarrow> takeWhile (\<lambda>c. c \<noteq> 0) s)"

definition zmemdupnull :: "bytes option \<Rightarrow> int \<Rightarrow> bytes" where
  "zmemdupnull p n = (case p of None \<Rightarrow> [] | Some s \<Rightarrow> take (nat n) s)"

fun strndup_len :: "bytes \<Rightarrow> nat \<Rightarrow> nat" where
  "strndup_len (c # s) (Suc n) = (if c = 0 then 0 else Suc (strndup_len s n))"
| "strndup_len _ _ = 0"

definition zstrndup :: "bytes option \<Rightarrow> int \<Rightarrow> bytes" where
  "zstrndup p n =
     (let s = (case p of None \<Rightarrow> [] | Some s \<Rightarrow> s)
      in zmemdupnull (Some s) (int (strndup_len s (nat n))))"

section \<open>Argument vectors\<close>

text \<open>The array holds string pointers: a cell is \<open>None\<close> while it is indeterminate, \<open>Some None\<close> is NULL. Its
  size in bytes, which the code passes as an \<open>int\<close>, is kept below \<open>2 ^ 31\<close> by \<open>argv_fits\<close> below.\<close>

record zargv =
  argv :: "bytes option option list"
  argc :: nat
  asize :: nat

definition zargv_init :: "int \<Rightarrow> zargv" where
  "zargv_init size0 =
     (let sane_size = (if size0 < 0 then 13 else nat size0)
      in \<lparr>argv = (zmalloc (sane_size + 1))[0 := Some None], argc = 0, asize = sane_size\<rparr>)"

definition zargv_create :: "int \<Rightarrow> zargv" where
  "zargv_create size0 = zargv_init size0"

definition zargv_extend :: "zargv \<Rightarrow> zargv" where
  "zargv_extend a =
     (let new_size = (if asize a * 2 < 1 then 2 else asize a * 2)
      in a\<lparr>argv := zrealloc (argv a) (new_size + 1), asize := new_size\<rparr>)"

definition argv_push :: "zargv \<Rightarrow> bytes \<Rightarrow> zargv" where
  "argv_push a s = a\<lparr>argv := (argv a)[argc a := Some (Some s), argc a + 1 := Some None], argc := argc a + 1\<rparr>"

definition zargv_add :: "zargv \<Rightarrow> bytes option \<Rightarrow> zargv" where
  "zargv_add a ns = argv_push (if argc a \<ge> asize a then zargv_extend a else a) (zstrdup ns)"

definition zargv_addn :: "zargv \<Rightarrow> bytes option \<Rightarrow> int \<Rightarrow> zargv" where
  "zargv_addn a ns nlen = argv_push (if argc a \<ge> asize a then zargv_extend a else a) (zstrndup ns nlen)"

text \<open>The strings behind \<open>len\<close> are released. For a negative length the loop starts before the array.\<close>

definition zargv_truncate :: "zargv \<Rightarrow> int \<Rightarrow> zargv option" where
  "zargv_truncate a n =
     (if n < int (argc a) then
        if n < 0 then None else Some (a\<lparr>argc := nat n, argv := (argv a)[nat n := Some None]\<rparr>)
      else Some a)"

definition zargv_reset :: "zargv \<Rightarrow> zargv option" where
  "zargv_reset a = zargv_truncate a 0"

lemma zstrtok_shrinks: "zstrtok k delim = Some k' \<Longrightarrow> length (sstr k') < length (sstr k)"
  by (auto simp: zstrtok_def Let_def split: if_splits)

function split_loop :: "zargv \<Rightarrow> zstrtok_t \<Rightarrow> bytes \<Rightarrow> zargv" where
  "split_loop a stok delim =
     (case zstrtok stok delim of
        None \<Rightarrow> a
      | Some k \<Rightarrow> split_loop (zargv_addn a (tok_str k) (int (tok_len k))) k delim)"
  by pat_completeness auto
termination
  by (relation "measure (\<lambda>(a, k, d). length (sstr k))") (auto dest: zstrtok_shrinks)

declare split_loop.simps [simp del]

definition zargv_split_append :: "zargv option \<Rightarrow> bytes \<Rightarrow> bytes \<Rightarrow> zargv" where
  "zargv_split_append a s delim =
     split_loop (case a of None \<Rightarrow> zargv_create (- 1) | Some a' \<Rightarrow> a') (zstrtok_init s) delim"

section \<open>What trimming and skipping leave\<close>

lemma TRIM_SKIP_dropWhile: "0 \<notin> set s \<Longrightarrow> TRIM_SKIP s = dropWhile TRIM_DELETE s"
  by (induction s) auto

lemma TRIM_END_prefix: "n \<le> length s \<Longrightarrow> take (TRIM_END s n) s = rev (dropWhile TRIM_DELETE (rev (take n s)))"
  by (induction n) (auto simp: take_Suc_conv_app_nth)

lemma skip_left_from_dropWhile: "0 \<notin> set s \<Longrightarrow> skip_left_from s ig = dropWhile (\<lambda>c. c \<in> set ig) s"
  by (induction s) (auto simp: strchr_in_def)

lemma skip_right_from_prefix:
  "n \<le> length s \<Longrightarrow> skip_right_from s ig n \<le> n
     \<and> take (skip_right_from s ig n) s = rev (dropWhile (strchr_in ig) (rev (take n s)))"
  by (induction n) (auto simp: take_Suc_conv_app_nth)

lemma zskip_left_dropWhile:
  "0 \<notin> set s \<Longrightarrow> zskip_left s ig = (let r = dropWhile (\<lambda>c. c \<in> set ig) s in if r = [] then None else Some r)"
  by (induction s) (auto simp: strchr_in_def Let_def)

lemma cut_at:
  assumes "x \<notin> set a"
  shows "takeWhile (\<lambda>c. c \<noteq> x) (a @ x # b) = a" "dropWhile (\<lambda>c. c \<noteq> x) (a @ x # b) = x # b"
  using assms by (induction a) auto

text \<open>\<open>strip P s\<close> without its ends in \<open>P\<close>.\<close>

definition strip :: "(byte \<Rightarrow> bool) \<Rightarrow> bytes \<Rightarrow> bytes" where
  "strip P s = rev (dropWhile P (rev (dropWhile P s)))"

lemma strip_middle:
  assumes "\<forall>c \<in> set a. P c" "\<forall>c \<in> set b. P c" "m = [] \<or> \<not> P (hd m) \<and> \<not> P (last m)"
  shows "strip P (a @ m @ b) = m"
proof -
  have a: "dropWhile P (a @ xs) = dropWhile P xs" for xs
    using assms(1) by (simp add: dropWhile_append2)
  have b: "dropWhile P (rev b @ xs) = dropWhile P xs" for xs
    using assms(2) by (subst dropWhile_append2) auto
  show ?thesis
  proof (cases "m = []")
    case True
    have "\<forall>c \<in> set (a @ b). P c" using assms(1,2) by auto
    then have "dropWhile P (a @ b) = []" by (simp only: dropWhile_eq_Nil_conv)
    then show ?thesis by (simp only: strip_def True append_Nil rev.simps dropWhile.simps)
  next
    case False
    then obtain x m' where m: "m = x # m'" by (cases m) auto
    have "dropWhile P (rev m) = rev m"
      using assms(3) False by (cases "rev m") (auto simp: last_rev hd_rev [symmetric] simp del: hd_rev)
    moreover have "dropWhile P (m @ b) = m @ b" using assms(3) by (simp add: m)
    ultimately show ?thesis by (simp add: strip_def a b)
  qed
qed

lemma ztrim_strip: "0 \<notin> set s \<Longrightarrow> ztrim s = strip TRIM_DELETE s"
  by (simp add: ztrim_def Let_def TRIM_SKIP_dropWhile TRIM_END_prefix strip_def)

lemma ztrim_right_end: "ztrim_right s = rev (dropWhile TRIM_DELETE (rev s))"
  by (simp add: ztrim_right_def TRIM_END_prefix)

section \<open>Splitting\<close>

text \<open>The pieces between delimiters, empty ones included.\<close>

fun pieces :: "bytes \<Rightarrow> bytes \<Rightarrow> bytes list" where
  "pieces d [] = [[]]"
| "pieces d (c # s) = (if c \<in> set d then [] # pieces d s else (c # hd (pieces d s)) # tl (pieces d s))"

definition words :: "bytes \<Rightarrow> bytes \<Rightarrow> bytes list" where
  "words d s = filter (\<lambda>f. f \<noteq> []) (pieces d s)"

lemma pieces_nonempty [simp]: "pieces d s \<noteq> []"
  by (induction s) auto

lemma words_skip: "words d (dropWhile (\<lambda>c. c \<in> set d) s) = words d s"
  by (induction s) (auto simp: words_def)

lemma pieces_append: "set t \<inter> set d = {} \<Longrightarrow> pieces d (t @ s) = (t @ hd (pieces d s)) # tl (pieces d s)"
  by (induction t) auto

lemma words_token:
  assumes "set t \<inter> set d = {}" "t \<noteq> []" "s = [] \<or> hd s \<in> set d"
  shows "words d (t @ s) = t # words d s"
  unfolding words_def pieces_append [OF assms(1)] using assms(2,3) by (cases s) auto

lemma zstrtok_words:
  assumes "0 \<notin> set (sstr k)"
  shows "case zstrtok k d of
      None \<Rightarrow> words d (sstr k) = []
    | Some k' \<Rightarrow> (\<exists>r. tok_str k' = Some r \<and> 0 \<notin> set r \<and> 0 \<notin> set (sstr k') \<and> tok_len k' \<le> length r
        \<and> words d (sstr k) = take (tok_len k') r # words d (sstr k'))"
proof -
  define r where "r = dropWhile (\<lambda>c. c \<in> set d) (sstr k)"
  have r: "drop (strspn (sstr k) d) (sstr k) = r"
    by (simp add: r_def strspn_def dropWhile_eq_drop)
  have nf: "words d (sstr k) = words d r" by (simp add: r_def words_skip)
  have nul: "0 \<notin> set r" using assms by (auto simp: r_def dest: set_dropWhileD)
  define t where "t = takeWhile (\<lambda>c. c \<notin> set d) r"
  define u where "u = dropWhile (\<lambda>c. c \<notin> set d) r"
  have tu: "r = t @ u" by (simp add: t_def u_def)
  have n: "strcspn r d = length t" by (simp add: strcspn_def t_def)
  show ?thesis
  proof (cases "r = []")
    case True
    then show ?thesis by (simp add: zstrtok_def r nf) (simp add: words_def)
  next
    case False
    then have "hd r \<notin> set d" using hd_dropWhile [of "\<lambda>c. c \<in> set d" "sstr k"] by (auto simp: r_def)
    with False have t: "t \<noteq> []" by (cases r) (auto simp: t_def)
    have "set t \<inter> set d = {}" by (auto simp: t_def dest: set_takeWhileD)
    moreover have "u = [] \<or> hd u \<in> set d" using hd_dropWhile [of "\<lambda>c. c \<notin> set d" r] by (auto simp: u_def)
    ultimately have "words d r = t # words d u"
      unfolding tu using t by (intro words_token)
    then show ?thesis using False t nul by (simp add: zstrtok_def r nf n) (simp add: tu nf)
  qed
qed

section \<open>Argument vectors are lists of strings\<close>

text \<open>\<open>argv_holds a ss\<close>: the array has room for the terminating NULL, and holds the strings and the NULL.\<close>

definition argv_holds :: "zargv \<Rightarrow> bytes list \<Rightarrow> bool" where
  "argv_holds a ss \<longleftrightarrow> length (argv a) = asize a + 1 \<and> argc a = length ss \<and> argc a \<le> asize a
     \<and> take (argc a + 1) (argv a) = map (\<lambda>s. Some (Some s)) ss @ [Some None]"

lemma argv_holds_create: "argv_holds (zargv_create n) []"
  by (simp add: argv_holds_def zargv_create_def zargv_init_def zmalloc_def Let_def)

text \<open>The array is as large as it says while its size in bytes is an \<open>int\<close>: with more, the product that the code
  passes to \<open>zmalloc\<close> and \<open>zrealloc\<close> is cut off. It never shrinks, and grows only when it is full.\<close>

definition argv_fits :: "zargv \<Rightarrow> bool" where
  "argv_fits a \<longleftrightarrow> (asize a + 1) * 8 < 2 ^ 31"

definition grown :: "zargv \<Rightarrow> zargv \<Rightarrow> bool" where
  "grown a a' \<longleftrightarrow> asize a \<le> asize a' \<and> asize a' \<le> max (asize a) (2 * argc a' + 2) \<and> argc a \<le> argc a'"

lemma grown_refl [simp]: "grown a a"
  by (simp add: grown_def)

lemma grown_trans: "grown a b \<Longrightarrow> grown b c \<Longrightarrow> grown a c"
  by (auto simp: grown_def)

lemma grown_add: "argc a \<le> asize a \<Longrightarrow> grown a (zargv_add a ns)" "argc a \<le> asize a \<Longrightarrow> grown a (zargv_addn a ns n)"
  by (auto simp: grown_def zargv_add_def zargv_addn_def argv_push_def zargv_extend_def Let_def)

lemma grown_fits: "grown a a' \<Longrightarrow> argv_fits a \<Longrightarrow> argc a' + 2 < 2 ^ 27 \<Longrightarrow> argv_fits a'"
  by (auto simp: grown_def argv_fits_def max_def split: if_splits)

lemma create_fits_argv: "n < 2 ^ 28 - 1 \<Longrightarrow> argv_fits (zargv_create n)"
  by (auto simp: argv_fits_def zargv_create_def zargv_init_def Let_def)

definition now_holds :: "zargv \<Rightarrow> bytes list \<Rightarrow> bool" where
  "now_holds a ss \<longleftrightarrow> argv_holds a ss \<and> argv_fits a"

lemma argv_holds_take:
  assumes "argv_holds a ss" "m \<le> length ss"
  shows "take m (argv a) = map (\<lambda>s. Some (Some s)) (take m ss)"
proof -
  have e: "take (length ss + 1) (argv a) = map (\<lambda>s. Some (Some s)) ss @ [Some None]"
    using assms(1) unfolding argv_holds_def by metis
  have "take m (argv a) = take m (take (length ss + 1) (argv a))" using assms(2) by (simp add: min_def)
  also have "\<dots> = map (\<lambda>s. Some (Some s)) (take m ss)" unfolding e using assms(2) by (simp add: take_map)
  finally show ?thesis .
qed

lemma argv_holds_push:
  assumes "argv_holds a ss" "argc a < asize a"
  shows "argv_holds (argv_push a s) (ss @ [s])"
proof -
  let ?n = "length ss"
  have "take (?n + 2) ((argv a)[?n := Some (Some s), ?n + 1 := Some None])
      = take ?n (argv a) @ [Some (Some s), Some None]"
    using assms take_list_update_snoc [of "?n + 1" "(argv a)[?n := Some (Some s)]" "Some None"]
      take_list_update_snoc [of ?n "argv a" "Some (Some s)"]
    by (simp add: argv_holds_def)
  moreover have "take ?n (argv a) = map (\<lambda>s. Some (Some s)) ss"
    using argv_holds_take [OF assms(1), of ?n] by simp
  ultimately show ?thesis using assms by (simp add: argv_holds_def argv_push_def)
qed

lemma argv_holds_extend:
  assumes "argv_holds a ss"
  shows "argv_holds (zargv_extend a) ss" "argc a \<le> asize a \<Longrightarrow> argc (zargv_extend a) < asize (zargv_extend a)"
  using assms by (auto simp: argv_holds_def zargv_extend_def Let_def min_def)

lemma argv_grown_push:
  assumes "argv_holds a ss"
  shows "argv_holds (argv_push (if argc a \<ge> asize a then zargv_extend a else a) s) (ss @ [s])"
proof -
  have "argc a \<le> asize a" using assms by (simp add: argv_holds_def)
  with argv_holds_extend [OF assms] assms show ?thesis by (auto intro: argv_holds_push)
qed

lemma zargv_add_holds: "argv_holds a ss \<Longrightarrow> argv_holds (zargv_add a ns) (ss @ [zstrdup ns])"
  unfolding zargv_add_def by (rule argv_grown_push)

lemma zargv_addn_holds: "argv_holds a ss \<Longrightarrow> argv_holds (zargv_addn a ns n) (ss @ [zstrndup ns n])"
  unfolding zargv_addn_def by (rule argv_grown_push)

lemma zargv_truncate_holds:
  assumes "argv_holds a ss" "0 \<le> n"
  shows "\<exists>a'. zargv_truncate a n = Some a' \<and> argv_holds a' (take (nat n) ss)"
proof (cases "n < int (argc a)")
  case True
  with assms obtain m where m: "n = int m" "m < length ss" by (auto simp: argv_holds_def intro: that [of "nat n"])
  have "take m (argv a) = map (\<lambda>s. Some (Some s)) (take m ss)"
    using argv_holds_take [OF assms(1), of m] m(2) by simp
  then have "take (m + 1) ((argv a)[m := Some None]) = map (\<lambda>s. Some (Some s)) (take m ss) @ [Some None]"
    using assms(1) m(2) take_list_update_snoc [of m "argv a" "Some None"] by (simp add: argv_holds_def)
  then show ?thesis using assms(1) m True by (auto simp: zargv_truncate_def argv_holds_def)
next
  case False
  with assms show ?thesis by (auto simp: zargv_truncate_def argv_holds_def)
qed

lemma strndup_len_take: "0 \<notin> set s \<Longrightarrow> strndup_len s n = min n (length s)"
  by (induction s n rule: strndup_len.induct) auto

lemma zstrndup_take: "0 \<notin> set s \<Longrightarrow> zstrndup (Some s) n = take (nat n) s"
  by (simp add: zstrndup_def zmemdupnull_def strndup_len_take min_def)

lemma split_loop_holds:
  assumes "argv_holds a ss" "0 \<notin> set (sstr k)"
  shows "argv_holds (split_loop a k d) (ss @ words d (sstr k))"
  using assms
proof (induction a k d arbitrary: ss rule: split_loop.induct)
  case (1 a k d)
  show ?case
  proof (cases "zstrtok k d")
    case None
    with zstrtok_words [OF 1(3), of d] 1(2) show ?thesis by (simp add: split_loop.simps)
  next
    case (Some k')
    with zstrtok_words [OF 1(3), of d] obtain r where r: "tok_str k' = Some r" "0 \<notin> set r" "0 \<notin> set (sstr k')"
        "words d (sstr k) = take (tok_len k') r # words d (sstr k')"
      by auto
    from zargv_addn_holds [OF 1(2), of "Some r" "int (tok_len k')"] r(2)
    have "argv_holds (zargv_addn a (tok_str k') (int (tok_len k'))) (ss @ [take (tok_len k') r])"
      by (simp add: r(1) zstrndup_take)
    from 1(1) [OF Some this r(3)] r(4) show ?thesis by (simp add: split_loop.simps [of a] Some)
  qed
qed

lemma split_loop_grown: "argv_holds a ss \<Longrightarrow> 0 \<notin> set (sstr k) \<Longrightarrow> grown a (split_loop a k d)"
proof (induction a k d arbitrary: ss rule: split_loop.induct)
  case (1 a k d)
  show ?case
  proof (cases "zstrtok k d")
    case None
    then show ?thesis by (simp add: split_loop.simps [of a])
  next
    case (Some k')
    with zstrtok_words [OF 1(3), of d] have "0 \<notin> set (sstr k')" by auto
    from 1(1) [OF Some zargv_addn_holds [OF 1(2)] this]
    have "grown (zargv_addn a (tok_str k') (int (tok_len k'))) (split_loop a k d)" by (simp add: split_loop.simps [of a] Some)
    moreover have "argc a \<le> asize a" using 1(2) by (simp add: argv_holds_def)
    ultimately show ?thesis using grown_trans grown_add(2) by blast
  qed
qed

lemma now_holdsI:
  assumes "grown a a'" "argv_fits a" "argv_holds a' ss" "length ss + 2 < 2 ^ 27"
  shows "now_holds a' ss"
proof -
  have "argc a' = length ss" using assms(3) by (simp add: argv_holds_def)
  then show ?thesis using assms grown_fits [OF assms(1,2)] by (simp add: now_holds_def)
qed

section \<open>Properties\<close>

text \<open>The trimming functions: \<open>ztrim\<close> leaves the string without the white space and control characters
  at its ends, \<open>ztrim_left\<close> and \<open>ztrim_right\<close> work on one end, and \<open>zskip\<close> finds the part of a string
  without given characters at its ends, reporting 0 exactly when nothing is left.\<close>

theorem ztrim_zskip_spec:
  assumes "0 \<notin> set s"
  shows "ztrim s = strip TRIM_DELETE s
    \<and> ztrim_left s = dropWhile TRIM_DELETE s \<and> ztrim_right s = rev (dropWhile TRIM_DELETE (rev s))
    \<and> (case zskip s (- 1) ig None of
        (n, None) \<Rightarrow> n = 0 \<and> strip (\<lambda>c. c \<in> set ig) s = []
      | (n, Some ps) \<Rightarrow> n > 0 \<and> take n ps = strip (\<lambda>c. c \<in> set ig) s \<and> (\<exists>l. s = l @ ps))"
proof -
  have src: "src_bytes s (- 1) = s" using assms by (auto simp: src_bytes_def intro: takeWhile_eq_all_conv [THEN iffD2])
  define ps where "ps = dropWhile (\<lambda>c. c \<in> set ig) s"
  have ps: "skip_left_from s ig = ps" using assms by (simp add: ps_def skip_left_from_dropWhile)
  have nul: "0 \<notin> set ps" using assms by (auto simp: ps_def dest: set_dropWhileD)
  then have "dropWhile (strchr_in ig) (rev ps) = dropWhile (\<lambda>c. c \<in> set ig) (rev ps)"
    by (intro dropWhile_cong) (auto simp: strchr_in_def)
  then have r: "take (skip_right_from ps ig (length ps)) ps = strip (\<lambda>c. c \<in> set ig) s"
    using skip_right_from_prefix [of "length ps" ps ig] by (simp add: strip_def ps_def)
  have sp: "\<exists>l. s = l @ ps" unfolding ps_def by (metis takeWhile_dropWhile_id)
  define n where "n = skip_right_from ps ig (length ps)"
  have "zskip s (- 1) ig None = (if ps = [] \<or> n = 0 then (0, None) else (n, Some ps))"
    by (simp add: zskip_def src ps Let_def n_def)
  moreover have "take n ps = strip (\<lambda>c. c \<in> set ig) s" using r by (simp add: n_def)
  ultimately have "case zskip s (- 1) ig None of
        (n, None) \<Rightarrow> n = 0 \<and> strip (\<lambda>c. c \<in> set ig) s = []
      | (n, Some ps) \<Rightarrow> n > 0 \<and> take n ps = strip (\<lambda>c. c \<in> set ig) s \<and> (\<exists>l. s = l @ ps)"
    using sp by (cases "ps = []"; cases "n = 0") simp_all
  then show ?thesis
    using assms by (simp only: ztrim_strip ztrim_left_def TRIM_SKIP_dropWhile ztrim_right_end simp_thms)
qed

text \<open>C34: An argument vector holds a list of strings followed by a NULL: adding appends a copy, truncating
  keeps a prefix (a negative length breaks it), and splitting a string appends its non-empty parts between
  delimiters in order, to a given or to a new vector. The array always has room for the terminator, and, for a
  vector created for less than 2^28 - 1 strings and holding less than 2^27 - 2 of them, its size in bytes is an int.\<close>

theorem zargv_contract:
  assumes "now_holds a ss" "0 \<notin> set s" "length s < 2 ^ 31" "length ss + length (words d s) + 3 < 2 ^ 27" "n < 2 ^ 28 - 1"
  shows "now_holds (zargv_create n) []
    \<and> now_holds (zargv_add a (Some s)) (ss @ [s]) \<and> now_holds (zargv_addn a (Some s) m) (ss @ [take (nat m) s])
    \<and> (if i < 0 then zargv_truncate a i = None
       else \<exists>a'. zargv_truncate a i = Some a' \<and> now_holds a' (take (nat i) ss))
    \<and> now_holds (zargv_split_append (Some a) s d) (ss @ words d s) \<and> now_holds (zargv_split_append None s d) (words d s)"
proof -
  have dup: "zstrdup (Some s) = s" using assms(2) by (auto simp: zstrdup_def intro: takeWhile_eq_all_conv [THEN iffD2])
  have k: "sstr (zstrtok_init s) = s" "0 \<notin> set (sstr (zstrtok_init s))" using assms(2) by (simp_all add: zstrtok_init_def)
  have h: "argv_holds a ss" and f: "argv_fits a" using assms(1) by (simp_all add: now_holds_def)
  have c: "argc a \<le> asize a" using h by (simp add: argv_holds_def)
  have f13: "argv_fits (zargv_create (- 1))" by (rule create_fits_argv) simp
  have add: "now_holds (zargv_add a (Some s)) (ss @ [s])" "now_holds (zargv_addn a (Some s) m) (ss @ [take (nat m) s])"
    using zargv_add_holds [OF h, of "Some s"] zargv_addn_holds [OF h, of "Some s" m] assms(2,4)
    by (auto simp: dup zstrndup_take intro: now_holdsI [OF grown_add(1) [OF c] f] now_holdsI [OF grown_add(2) [OF c] f])
  have tr: "if i < 0 then zargv_truncate a i = None
       else \<exists>a'. zargv_truncate a i = Some a' \<and> now_holds a' (take (nat i) ss)"
  proof (cases "i < 0")
    case False
    then obtain a' where "zargv_truncate a i = Some a'" "argv_holds a' (take (nat i) ss)" using zargv_truncate_holds [OF h, of i] by auto
    moreover from this have "asize a' = asize a" using False by (auto simp: zargv_truncate_def split: if_splits)
    ultimately show ?thesis using False f by (simp add: now_holds_def argv_fits_def)
  qed (use c in \<open>simp add: zargv_truncate_def\<close>)
  have "now_holds (zargv_split_append (Some a) s d) (ss @ words d s)"
    using now_holdsI [OF split_loop_grown [OF h k(2)] f split_loop_holds [OF h k(2)], of d] assms(4)
    by (simp add: k zargv_split_append_def)
  moreover have "now_holds (zargv_split_append None s d) (words d s)"
    using now_holdsI [OF split_loop_grown [OF argv_holds_create k(2)] f13 split_loop_holds [OF argv_holds_create k(2)], of d] assms(4)
    by (simp add: k zargv_split_append_def)
  moreover have "now_holds (zargv_create n) []" using argv_holds_create create_fits_argv [OF assms(5)] by (simp add: now_holds_def)
  ultimately show ?thesis using add tr by blast
qed

theorem zargv_contract_witness:
  "now_holds (zargv_split_append (Some (zargv_create 0)) [44, 97, 98, 44, 44, 99] [44]) [[97, 98], [99]]"
proof -
  have "now_holds (zargv_create 0) []" using argv_holds_create [of 0] create_fits_argv [of 0] by (simp add: now_holds_def)
  from zargv_contract [OF this, of "[44, 97, 98, 44, 44, 99]" "[44]" 0 0 0] show ?thesis by (simp add: words_def)
qed

end
