(* ===== verification/Config.thy ===== *)
theory Config
  imports Strs Dict
begin

text \<open>
  Configuration: numbers with units (\<open>src/stdlib/string.c\<close>), the typed getters of dictionaries
  (\<open>src/stdlib/dict.c\<close>), configuration files (\<open>src/stdlib/config.c\<close>) and the command line
  (\<open>src/stdlib/main_argument.c\<close>).

  A configuration is a \<open>zdict\<close>; here it is the list of its entries in the order of their keys, with
  \<open>obj_put\<close> for \<open>zconfig_update\<close> and \<open>zconfig_update_string\<close> (the contract of \<open>zdict\<close>, theory \<open>MapProps\<close>).
\<close>

section \<open>Numbers\<close>

text \<open>The decimal number that \<open>strtol\<close> and the conversion \<open>%zd\<close> read, clipped to 64 bits, and the rest
  of the text. \<open>None\<close> when there is no digit.\<close>

definition clip64 :: "int \<Rightarrow> 64 word" where
  "clip64 v = word_of_int (max (- (2 ^ 63)) (min (2 ^ 63 - 1) v))"

fun dec_value :: "int \<Rightarrow> bytes \<Rightarrow> int" where
  "dec_value acc [] = acc"
| "dec_value acc (c # s) = dec_value (acc * 10 + (uint c - 48)) s"

definition scan_sign :: "bytes \<Rightarrow> int \<times> bytes" where
  "scan_sign s = (case s of c # r \<Rightarrow> if c = ch CHR ''-'' then (- 1, r) else if c = ch CHR ''+'' then (1, r) else (1, s)
                  | [] \<Rightarrow> (1, []))"

definition scan_zd :: "bytes \<Rightarrow> (64 word \<times> bytes) option" where
  "scan_zd s0 =
     (let (sign, s) = scan_sign (dropWhile isspace s0); ds = takeWhile isdigit s
      in if ds = [] then None else Some (clip64 (sign * dec_value 0 ds), dropWhile isdigit s))"

definition atol :: "bytes \<Rightarrow> 64 word" where
  "atol s = (case scan_zd s of None \<Rightarrow> 0 | Some (v, _) \<Rightarrow> v)"

definition atoi :: "bytes \<Rightarrow> 32 word" where
  "atoi s = ucast (atol s)"

text \<open>\<open>sscanf(s, "%zd%c%c", ...)\<close> with one result (the default unit) or two; anything else is the default.\<close>

definition with_unit :: "(byte \<Rightarrow> 64 word) \<Rightarrow> byte \<Rightarrow> bytes \<Rightarrow> 64 word \<Rightarrow> 64 word" where
  "with_unit factor unit0 s def =
     (case scan_zd s of
        None \<Rightarrow> def
      | Some (v, []) \<Rightarrow> v * factor (ztolower unit0)
      | Some (v, [u]) \<Rightarrow> v * factor (ztolower u)
      | Some (v, _) \<Rightarrow> def)"

definition second_factor :: "byte \<Rightarrow> 64 word" where
  "second_factor u =
     (if u = ch CHR ''w'' then 7 * 24 * 3600 else if u = ch CHR ''d'' then 24 * 3600
      else if u = ch CHR ''h'' then 3600 else if u = ch CHR ''m'' then 60 else 1)"

definition zstr_to_second :: "bytes \<Rightarrow> 64 word \<Rightarrow> 64 word" where
  "zstr_to_second = with_unit second_factor (ch CHR ''s'')"

definition size_factor :: "byte \<Rightarrow> 64 word" where
  "size_factor u =
     (if u = ch CHR ''g'' then 1024 * 1024 * 1024 else if u = ch CHR ''m'' then 1024 * 1024
      else if u = ch CHR ''k'' then 1024 else 1)"

definition zstr_to_size :: "bytes \<Rightarrow> 64 word \<Rightarrow> 64 word" where
  "zstr_to_size = with_unit size_factor (ch CHR ''b'')"

section \<open>Typed getters\<close>

definition get_with :: "zbuf env \<Rightarrow> zdict option \<Rightarrow> cstring \<Rightarrow> (bytes \<Rightarrow> 'a) \<Rightarrow> 'a \<Rightarrow> 'a option" where
  "get_with e dict name conv def = do {
     str_val \<leftarrow> zdict_get_str e dict name None;
     Some (case str_val of None \<Rightarrow> def | Some s \<Rightarrow> if str_bytes s \<noteq> [] then conv (str_bytes s) else def) }"

definition zdict_get_int :: "zbuf env \<Rightarrow> zdict option \<Rightarrow> cstring \<Rightarrow> 32 word \<Rightarrow> 32 word option" where
  "zdict_get_int e dict name def = get_with e dict name atoi def"

definition zdict_get_long :: "zbuf env \<Rightarrow> zdict option \<Rightarrow> cstring \<Rightarrow> 64 word \<Rightarrow> 64 word option" where
  "zdict_get_long e dict name def = get_with e dict name atol def"

definition zdict_get_second :: "zbuf env \<Rightarrow> zdict option \<Rightarrow> cstring \<Rightarrow> 64 word \<Rightarrow> 64 word option" where
  "zdict_get_second e dict name def = get_with e dict name (\<lambda>s. zstr_to_second s def) def"

definition zdict_get_size :: "zbuf env \<Rightarrow> zdict option \<Rightarrow> cstring \<Rightarrow> 64 word \<Rightarrow> 64 word option" where
  "zdict_get_size e dict name def = get_with e dict name (\<lambda>s. zstr_to_size s def) def"

section \<open>Configuration files\<close>

type_synonym zconfig = "(cstring \<times> bytes) list"

definition zconfig_update_string :: "zconfig \<Rightarrow> bytes \<Rightarrow> bytes \<Rightarrow> int \<Rightarrow> zconfig" where
  "zconfig_update_string cf k v n = obj_put (cs k) (src_bytes v n) cf"

text \<open>\<open>fgets(buf, n + 1, fp)\<close>: the line it stores and what is left of the file.\<close>

fun fgets :: "nat \<Rightarrow> bytes \<Rightarrow> bytes \<times> bytes" where
  "fgets (Suc n) (c # d) = (if c = 10 then ([c], d) else let (l, r) = fgets n d in (c # l, r))"
| "fgets _ d = ([], d)"

definition config_line :: "zconfig \<Rightarrow> bytes \<Rightarrow> zconfig" where
  "config_line cf line_buf =
     (let name = ztrim_left line_buf in
      if name = [] \<or> hd name = ch CHR ''#'' then cf
      else let before = takeWhile (\<lambda>c. c \<noteq> ch CHR ''='') name;
               value = (case dropWhile (\<lambda>c. c \<noteq> ch CHR ''='') name of [] \<Rightarrow> [] | _ # v \<Rightarrow> v)
           in zconfig_update_string cf (ztrim_right before) (if value \<noteq> [] then ztrim value else value) (- 1))"

lemma fgets_rest: "length (snd (fgets n d)) \<le> length d"
  by (induction n d rule: fgets.induct) (auto simp: Let_def split: prod.splits)

lemma fgets_shrinks: "0 < n \<Longrightarrow> d \<noteq> [] \<Longrightarrow> length (snd (fgets n d)) < length d"
  using fgets_rest [of "n - 1" "tl d"] by (cases n; cases d) (auto simp: Let_def less_Suc_eq_le split: prod.splits)

function load_loop :: "zconfig \<Rightarrow> bytes \<Rightarrow> zconfig" where
  "load_loop cf d =
     (if d = [] then cf
      else load_loop (config_line cf (takeWhile (\<lambda>c. c \<noteq> 0) (fst (fgets 10239 d)))) (snd (fgets 10239 d)))"
  by pat_completeness auto
termination
  by (relation "measure (length \<circ> snd)") (simp_all add: fgets_shrinks)

declare load_loop.simps [simp del]

text \<open>\<open>None\<close> for a file that cannot be opened, where the result is -1.\<close>

definition zconfig_load_from_pathname :: "zconfig \<Rightarrow> bytes option \<Rightarrow> zconfig \<times> int" where
  "zconfig_load_from_pathname cf file = (case file of None \<Rightarrow> (cf, - 1) | Some d \<Rightarrow> (load_loop cf d, 0))"

definition zconfig_load_another :: "zconfig \<Rightarrow> zconfig \<Rightarrow> zconfig" where
  "zconfig_load_another cf another = fold (\<lambda>(k, v). obj_put k v) another cf"

section \<open>The command line\<close>

record main_args =
  main_kv :: "bytes list"
  main_redundant :: "bytes list"
  cmd_cf :: zconfig
  default_cf :: zconfig

text \<open>\<open>files\<close> is the content of the file with a given name. \<open>None\<close> is \<open>exit(1)\<close>.\<close>

fun prepare_loop :: "(bytes \<Rightarrow> bytes option) \<Rightarrow> bytes list \<Rightarrow> main_args \<Rightarrow> main_args option" where
  "prepare_loop files [] st = Some st"
| "prepare_loop files (optname # args) st =
     (if optname = [] \<or> hd optname \<noteq> ch CHR ''-'' \<or> tl optname = []
      then prepare_loop files args (st\<lparr>main_redundant := main_redundant st @ [optname]\<rparr>)
      else if optname ! 1 = ch CHR ''-''
      then prepare_loop files args (st\<lparr>
             main_kv := main_kv st @ [drop 2 optname, cstr ''yes''],
             cmd_cf := zconfig_update_string (cmd_cf st) (drop 2 optname) (cstr ''yes'') 3\<rparr>)
      else case args of
          [] \<Rightarrow> None
        | optval # args' \<Rightarrow>
            let st1 = st\<lparr>main_kv := main_kv st @ [drop 1 optname, optval]\<rparr> in
            if optname = cstr ''-config''
            then let (cf, ret) = zconfig_load_from_pathname (default_cf st1) (files optval) in
                 if ret < 0 then None else prepare_loop files args' (st1\<lparr>default_cf := cf\<rparr>)
            else prepare_loop files args' (st1\<lparr>cmd_cf := zconfig_update_string (cmd_cf st1) (drop 1 optname) optval (- 1)\<rparr>))"

definition zmain_argument_prepare_config :: "(bytes \<Rightarrow> bytes option) \<Rightarrow> bytes list \<Rightarrow> main_args option" where
  "zmain_argument_prepare_config files args = do {
     st \<leftarrow> prepare_loop files (tl args) \<lparr>main_kv = [], main_redundant = [], cmd_cf = [], default_cf = []\<rparr>;
     Some (st\<lparr>default_cf := zconfig_load_another (default_cf st) (cmd_cf st)\<rparr>) }"

section \<open>Reading a configuration file\<close>

text \<open>The lines of a configuration file: blank lines, comments and assignments, with blanks around
  the parts.\<close>

datatype cfg_item =
    CBlank bytes
  | CComment bytes bytes
  | CAssign bytes bytes bytes bytes bytes bytes

definition blanks :: "bytes \<Rightarrow> bool" where
  "blanks w \<longleftrightarrow> (\<forall>c \<in> set w. c \<noteq> 0 \<and> c \<noteq> 10 \<and> TRIM_DELETE c)"

text \<open>A text of one line with no blank at its ends.\<close>

definition trimmed :: "bytes \<Rightarrow> bool" where
  "trimmed s \<longleftrightarrow> 0 \<notin> set s \<and> 10 \<notin> set s \<and> (s = [] \<or> \<not> TRIM_DELETE (hd s) \<and> \<not> TRIM_DELETE (last s))"

fun item_line :: "cfg_item \<Rightarrow> bytes" where
  "item_line (CBlank w) = w"
| "item_line (CComment w t) = w @ ch CHR ''#'' # t"
| "item_line (CAssign w1 k w2 w3 v w4) = w1 @ k @ w2 @ ch CHR ''='' # w3 @ v @ w4"

fun item_ok :: "cfg_item \<Rightarrow> bool" where
  "item_ok (CBlank w) = blanks w"
| "item_ok (CComment w t) = (blanks w \<and> 0 \<notin> set t \<and> 10 \<notin> set t)"
| "item_ok (CAssign w1 k w2 w3 v w4) =
     (blanks w1 \<and> blanks w2 \<and> blanks w3 \<and> blanks w4 \<and> trimmed k \<and> trimmed v
      \<and> k \<noteq> [] \<and> hd k \<noteq> ch CHR ''#'' \<and> ch CHR ''='' \<notin> set k)"

fun item_apply :: "cfg_item \<Rightarrow> zconfig \<Rightarrow> zconfig" where
  "item_apply (CAssign w1 k w2 w3 v w4) cf = obj_put (cs k) v cf"
| "item_apply _ cf = cf"

definition cfg_text :: "cfg_item list \<Rightarrow> bytes" where
  "cfg_text items = concat (map (\<lambda>i. item_line i @ [10]) items)"

lemma fgets_line: "10 \<notin> set l \<Longrightarrow> length l < n \<Longrightarrow> fgets n (l @ 10 # r) = (l @ [10], r)"
proof (induction l arbitrary: n)
  case Nil
  then show ?case by (cases n) auto
next
  case (Cons c l)
  then show ?case by (cases n) auto
qed

lemma special_chars: "TRIM_DELETE 10" "\<not> TRIM_DELETE (ch CHR ''='')" "\<not> TRIM_DELETE (ch CHR ''#'')"
  "ch CHR ''='' \<noteq> 0" "ch CHR ''='' \<noteq> 10" "ch CHR ''#'' \<noteq> 0" "ch CHR ''#'' \<noteq> 10"
  by (simp_all add: TRIM_DELETE_def isascii_def isspace_def iscntrl_def ch_def)

lemma blanks_chars: "blanks w \<Longrightarrow> 0 \<notin> set w \<and> 10 \<notin> set w \<and> (\<forall>c \<in> set w. TRIM_DELETE c) \<and> ch CHR ''='' \<notin> set w"
  using special_chars(2) by (auto simp: blanks_def)

lemma trim_left_blanks:
  assumes "blanks w" "0 \<notin> set s" "s = [] \<or> \<not> TRIM_DELETE (hd s)"
  shows "ztrim_left (w @ s) = s"
proof -
  have "dropWhile TRIM_DELETE (w @ s) = dropWhile TRIM_DELETE s"
    using blanks_chars [OF assms(1)] by (simp add: dropWhile_append2)
  also have "\<dots> = s" using assms(3) by (cases s) auto
  finally show ?thesis
    using blanks_chars [OF assms(1)] assms(2) by (simp add: ztrim_left_def TRIM_SKIP_dropWhile)
qed

lemma trim_right_blanks:
  assumes "blanks w" "s = [] \<or> \<not> TRIM_DELETE (last s)"
  shows "ztrim_right (s @ w) = s"
proof -
  have "dropWhile TRIM_DELETE (rev w @ rev s) = dropWhile TRIM_DELETE (rev s)"
    using blanks_chars [OF assms(1)] by (subst dropWhile_append2) auto
  also have "\<dots> = rev s" using assms(2) by (cases s rule: rev_cases) auto
  finally show ?thesis by (simp add: ztrim_right_end)
qed

lemma trim_both_blanks:
  assumes "blanks w" "blanks w'" "trimmed s"
  shows "ztrim (w @ s @ w' @ [10]) = s"
proof -
  have "0 \<notin> set (w @ s @ w' @ [10])"
    using blanks_chars [OF assms(1)] blanks_chars [OF assms(2)] assms(3) by (simp add: trimmed_def)
  moreover have "strip TRIM_DELETE (w @ s @ (w' @ [10])) = s"
    using blanks_chars [OF assms(1)] blanks_chars [OF assms(2)] assms(3) special_chars(1)
    by (intro strip_middle) (auto simp: trimmed_def)
  ultimately show ?thesis by (simp add: ztrim_strip)
qed

lemma config_line_item:
  assumes "item_ok i"
  shows "config_line cf (item_line i @ [10]) = item_apply i cf"
proof (cases i)
  case (CBlank w)
  then have "ztrim_left (w @ [10]) = []"
    using assms blanks_chars [of w] special_chars(1)
    by (simp add: ztrim_left_def TRIM_SKIP_dropWhile dropWhile_append2)
  then show ?thesis by (simp add: CBlank config_line_def)
next
  case (CComment w t)
  have "ztrim_left (w @ ch CHR ''#'' # t @ [10]) = ch CHR ''#'' # t @ [10]"
    using assms special_chars by (intro trim_left_blanks) (auto simp: CComment)
  then show ?thesis by (simp add: CComment config_line_def)
next
  case (CAssign w1 k w2 w3 v w4)
  let ?tail = "w3 @ v @ w4 @ [10]"
  have k: "trimmed k" "k \<noteq> []" "hd k \<noteq> ch CHR ''#''" "ch CHR ''='' \<notin> set k"
    and v: "trimmed v" and w: "blanks w1" "blanks w2" "blanks w3" "blanks w4"
    using assms by (auto simp: CAssign)
  note b = blanks_chars [OF w(2)] blanks_chars [OF w(3)] blanks_chars [OF w(4)]
  have name: "ztrim_left (w1 @ k @ w2 @ ch CHR ''='' # ?tail) = k @ w2 @ ch CHR ''='' # ?tail"
    using k v b special_chars by (intro trim_left_blanks w) (auto simp: trimmed_def)
  have "ch CHR ''='' \<notin> set (k @ w2)" using k(4) b(1) by simp
  note tw = cut_at [OF this, of ?tail, unfolded append_assoc]
  have "ztrim_right (k @ w2) = k" using k w(2) by (intro trim_right_blanks) (auto simp: trimmed_def)
  moreover have "ztrim ?tail = v" by (rule trim_both_blanks [OF w(3,4) v])
  moreover have "src_bytes v (- 1) = v"
    using v by (auto simp: trimmed_def src_bytes_def takeWhile_eq_all_conv intro: takeWhile_eq_all_conv [THEN iffD2])
  ultimately show ?thesis
    using k(2,3) unfolding CAssign config_line_def item_line.simps append_assoc append_Cons name Let_def tw
    by (simp add: zconfig_update_string_def)
qed

lemma item_line_chars: "item_ok i \<Longrightarrow> 0 \<notin> set (item_line i) \<and> 10 \<notin> set (item_line i)"
  using special_chars by (cases i) (auto simp: blanks_def trimmed_def)

lemma load_loop_items:
  assumes "\<forall>i \<in> set items. item_ok i \<and> length (item_line i) < 10239"
  shows "load_loop cf (cfg_text items) = fold item_apply items cf"
  using assms
proof (induction items arbitrary: cf)
  case Nil
  then show ?case by (simp add: cfg_text_def load_loop.simps)
next
  case (Cons i items)
  then have i: "item_ok i" "length (item_line i) < 10239" by auto
  have tx: "cfg_text (i # items) = item_line i @ 10 # cfg_text items" by (simp add: cfg_text_def)
  have f: "fgets 10239 (cfg_text (i # items)) = (item_line i @ [10], cfg_text items)"
    unfolding tx using item_line_chars [OF i(1)] i(2) by (intro fgets_line) auto
  have "takeWhile (\<lambda>c. c \<noteq> 0) (item_line i @ [10]) = item_line i @ [10]"
    using item_line_chars [OF i(1)] by (auto intro: takeWhile_eq_all_conv [THEN iffD2])
  moreover have "cfg_text (i # items) \<noteq> []" by (simp add: tx)
  ultimately have "load_loop cf (cfg_text (i # items)) = load_loop (item_apply i cf) (cfg_text items)"
    by (subst load_loop.simps) (simp only: f if_False fst_conv snd_conv config_line_item [OF i(1)])
  with Cons show ?case by simp
qed

lemma config_line_sorted: "sorted_wrt (<) (map fst cf) \<Longrightarrow> sorted_wrt (<) (map fst (config_line cf l))"
  by (simp add: config_line_def Let_def zconfig_update_string_def obj_put_sorted)

lemma load_loop_sorted: "sorted_wrt (<) (map fst cf) \<Longrightarrow> sorted_wrt (<) (map fst (load_loop cf d))"
proof (induction cf d rule: load_loop.induct)
  case (1 cf d)
  then show ?case by (subst load_loop.simps) (simp add: config_line_sorted)
qed

section \<open>Reading the command line\<close>

lemma puts_map_of:
  assumes "sorted_wrt (<) (map fst cf)"
  shows "sorted_wrt (<) (map fst (fold (\<lambda>(k, v). obj_put k v) kvs cf))"
    "map_of (fold (\<lambda>(k, v). obj_put k v) kvs cf) = map_of cf ++ map_of (rev kvs)"
proof -
  have "sorted_wrt (<) (map fst (fold (\<lambda>(k, v). obj_put k v) kvs cf))
      \<and> map_of (fold (\<lambda>(k, v). obj_put k v) kvs cf) = map_of cf ++ map_of (rev kvs)"
    using assms
  proof (induction kvs arbitrary: cf)
    case (Cons kv kvs)
    obtain k v where kv: "kv = (k, v)" by (cases kv)
    have "map_of cf ++ map_of (rev (kv # kvs)) = (map_of cf)(k \<mapsto> v) ++ map_of (rev kvs)"
      by (simp add: kv map_add_assoc)
    with Cons.IH [of "obj_put k v cf"] obj_put_sorted [OF Cons.prems, of k v] obj_put_map_of [OF Cons.prems, of k v]
    show ?case by (simp add: kv fun_upd_def)
  qed simp
  then show "sorted_wrt (<) (map fst (fold (\<lambda>(k, v). obj_put k v) kvs cf))"
    "map_of (fold (\<lambda>(k, v). obj_put k v) kvs cf) = map_of cf ++ map_of (rev kvs)" by auto
qed

lemma map_of_rev_sorted:
  fixes cf :: "('k::linorder \<times> 'v) list"
  assumes "sorted_wrt (<) (map fst cf)"
  shows "map_of (rev cf) = map_of cf"
proof -
  have "distinct (map fst cf)" using assms by (simp add: strict_sorted_iff)
  then have "distinct (map fst (rev cf))" by (simp add: rev_map [symmetric])
  with \<open>distinct (map fst cf)\<close> show ?thesis by (intro ext) (metis map_of_eq_Some_iff option.exhaust set_rev not_None_eq)
qed

text \<open>What the arguments mean: operands, flags, options with a value, and configuration files.\<close>

datatype arg_event =
    AExtra bytes
  | AFlag bytes
  | AOpt bytes bytes
  | AConfig bytes

fun event_args :: "arg_event \<Rightarrow> bytes list" where
  "event_args (AExtra s) = [s]"
| "event_args (AFlag n) = [ch CHR ''-'' # ch CHR ''-'' # n]"
| "event_args (AOpt n v) = [ch CHR ''-'' # n, v]"
| "event_args (AConfig p) = [cstr ''-config'', p]"

definition opt_name :: "bytes \<Rightarrow> bool" where
  "opt_name n \<longleftrightarrow> n \<noteq> [] \<and> hd n \<noteq> ch CHR ''-'' \<and> n \<noteq> cstr ''config''"

fun event_ok :: "(bytes \<Rightarrow> bytes option) \<Rightarrow> arg_event \<Rightarrow> bool" where
  "event_ok files (AExtra s) = (s = [] \<or> hd s \<noteq> ch CHR ''-'' \<or> s = cstr ''-'')"
| "event_ok files (AFlag n) = True"
| "event_ok files (AOpt n v) = (opt_name n \<and> 0 \<notin> set v)"
| "event_ok files (AConfig p) = (files p \<noteq> None)"

definition extras :: "arg_event list \<Rightarrow> bytes list" where
  "extras es = concat (map (\<lambda>e. case e of AExtra s \<Rightarrow> [s] | _ \<Rightarrow> []) es)"

definition kv_args :: "arg_event list \<Rightarrow> bytes list" where
  "kv_args es = concat (map (\<lambda>e. case e of AExtra s \<Rightarrow> [] | AFlag n \<Rightarrow> [n, cstr ''yes''] | AOpt n v \<Rightarrow> [n, v]
                                       | AConfig p \<Rightarrow> [cstr ''config'', p]) es)"

definition settings :: "arg_event list \<Rightarrow> (cstring \<times> bytes) list" where
  "settings es = concat (map (\<lambda>e. case e of AFlag n \<Rightarrow> [(cs n, cstr ''yes'')] | AOpt n v \<Rightarrow> [(cs n, v)] | _ \<Rightarrow> []) es)"

definition loads :: "(bytes \<Rightarrow> bytes option) \<Rightarrow> arg_event list \<Rightarrow> zconfig \<Rightarrow> zconfig" where
  "loads files es = fold (\<lambda>e cf. case e of AConfig p \<Rightarrow> load_loop cf (the (files p)) | _ \<Rightarrow> cf) es"

lemma arg_chars: "cstr ''-config'' = ch CHR ''-'' # cstr ''config''" "cstr ''config'' \<noteq> []"
  "hd (cstr ''config'') \<noteq> ch CHR ''-''" "cstr ''-'' = [ch CHR ''-'']" "length (cstr ''yes'') = 3" "cstr ''config'' ! 0 \<noteq> ch CHR ''-''"
  by (simp_all add: cstr_def ch_def)

lemma prepare_event:
  assumes "event_ok files e"
  shows "prepare_loop files (event_args e @ args) st = prepare_loop files args (st\<lparr>
    main_redundant := main_redundant st @ extras [e], main_kv := main_kv st @ kv_args [e],
    cmd_cf := fold (\<lambda>(k, v). obj_put k v) (settings [e]) (cmd_cf st), default_cf := loads files [e] (default_cf st)\<rparr>)"
proof (cases e)
  case (AExtra s)
  then show ?thesis using assms by (auto simp: extras_def kv_args_def settings_def loads_def arg_chars(4))
next
  case (AFlag n)
  have "src_bytes (cstr ''yes'') 3 = cstr ''yes''" by (simp add: src_bytes_def arg_chars(5))
  then show ?thesis
    by (simp add: AFlag extras_def kv_args_def settings_def loads_def zconfig_update_string_def)
next
  case (AOpt n v)
  then have n: "n \<noteq> []" "hd n \<noteq> ch CHR ''-''" "n \<noteq> cstr ''config''" "0 \<notin> set v" using assms by (auto simp: opt_name_def)
  then have "src_bytes v (- 1) = v" by (auto simp: src_bytes_def intro: takeWhile_eq_all_conv [THEN iffD2])
  then show ?thesis using n
    by (simp add: AOpt extras_def kv_args_def settings_def loads_def zconfig_update_string_def arg_chars(1) hd_conv_nth Let_def)
next
  case (AConfig p)
  then obtain d where "files p = Some d" using assms by auto
  then show ?thesis
    by (simp add: AConfig extras_def kv_args_def settings_def loads_def arg_chars(1,2,6) Let_def zconfig_load_from_pathname_def)
qed

lemma extras_Cons: "extras (e # es) = extras [e] @ extras es"
  and kv_args_Cons: "kv_args (e # es) = kv_args [e] @ kv_args es"
  and settings_Cons: "settings (e # es) = settings [e] @ settings es"
  and loads_Cons: "loads files (e # es) cf = loads files es (loads files [e] cf)"
  by (simp_all add: extras_def kv_args_def settings_def loads_def)

lemma prepare_events:
  assumes "\<forall>e \<in> set es. event_ok files e"
  shows "prepare_loop files (concat (map event_args es) @ args) st = prepare_loop files args (st\<lparr>
    main_redundant := main_redundant st @ extras es, main_kv := main_kv st @ kv_args es,
    cmd_cf := fold (\<lambda>(k, v). obj_put k v) (settings es) (cmd_cf st), default_cf := loads files es (default_cf st)\<rparr>)"
  using assms
proof (induction es arbitrary: st)
  case Nil
  then show ?case by (simp add: extras_def kv_args_def settings_def loads_def)
next
  case (Cons e es)
  then have "event_ok files e" by simp
  from prepare_event [OF this, of "concat (map event_args es) @ args" st] Cons
  show ?case by (simp only: extras_Cons [of e es] kv_args_Cons [of e es] settings_Cons [of e es] loads_Cons [of files e es])
    simp
qed

lemma loads_sorted: "sorted_wrt (<) (map fst cf) \<Longrightarrow> sorted_wrt (<) (map fst (loads files es cf))"
proof (induction es arbitrary: cf)
  case (Cons e es)
  have "sorted_wrt (<) (map fst (loads files [e] cf))"
    using Cons.prems by (cases e) (simp_all add: loads_def load_loop_sorted)
  from Cons.IH [OF this] show ?case by (simp only: loads_Cons [of files e es])
qed (simp add: loads_def)

section \<open>Properties\<close>

text \<open>C35: Loading a configuration file: comments and blank lines are skipped, every assignment of a line
  of less than 10239 bytes sets its trimmed key to its trimmed value, in the order of the file; a file
  that cannot be opened gives -1 and changes nothing.\<close>

theorem zconfig_load_spec:
  assumes "\<forall>i \<in> set items. item_ok i \<and> length (item_line i) < 10239"
  shows "zconfig_load_from_pathname cf (Some (cfg_text items)) = (fold item_apply items cf, 0)
    \<and> zconfig_load_from_pathname cf None = (cf, - 1)"
  by (simp add: zconfig_load_from_pathname_def load_loop_items [OF assms])

theorem zconfig_load_spec_witness:
  "zconfig_load_from_pathname [] (Some (cfg_text [CComment [32] [120], CAssign [] [107] [32] [9] [118, 32, 119] [32], CBlank []]))
     = ([(cs [107], [118, 32, 119])], 0)"
proof -
  have "\<forall>i \<in> set [CComment [32] [120], CAssign [] [107] [32] [9] [118, 32, 119] [32], CBlank []].
      item_ok i \<and> length (item_line i) < 10239"
    by (simp add: blanks_def trimmed_def TRIM_DELETE_def isascii_def isspace_def iscntrl_def ch_def)
  from zconfig_load_spec [OF this, of "[]"] show ?thesis by simp
qed

text \<open>The command line: operands are collected in order, options and flags are recorded and, whatever
  their position, take precedence over the configuration files, which are loaded in the order they are
  given; among options of the same name the last one counts. An option without its value ends the
  program.\<close>

theorem zmain_argument_spec:
  assumes "\<forall>e \<in> set es. event_ok files e"
  shows "(\<exists>st. zmain_argument_prepare_config files (prog # concat (map event_args es)) = Some st
      \<and> main_redundant st = extras es \<and> main_kv st = kv_args es
      \<and> map_of (default_cf st) = map_of (loads files es []) ++ map_of (rev (settings es)))
    \<and> (opt_name n \<longrightarrow>
        zmain_argument_prepare_config files (prog # concat (map event_args es) @ [ch CHR ''-'' # n]) = None)"
proof (intro conjI impI)
  let ?st0 = "\<lparr>main_kv = [], main_redundant = [], cmd_cf = [], default_cf = []\<rparr>"
  let ?cmd = "fold (\<lambda>(k, v). obj_put k v) (settings es) ([] :: zconfig)"
  have run: "prepare_loop files (concat (map event_args es) @ args) ?st0 = prepare_loop files args
      (\<lparr>main_kv = kv_args es, main_redundant = extras es, cmd_cf = ?cmd, default_cf = loads files es []\<rparr>)" for args
    using prepare_events [OF assms, of args ?st0] by simp
  have cmd: "sorted_wrt (<) (map fst ?cmd)" "map_of ?cmd = map_of (rev (settings es))"
    using puts_map_of [of "[] :: zconfig" "settings es"] by auto
  have "map_of (zconfig_load_another (loads files es []) ?cmd) = map_of (loads files es []) ++ map_of ?cmd"
    using puts_map_of(2) [OF loads_sorted [of "[]" files es], of ?cmd] map_of_rev_sorted [OF cmd(1)]
    by (simp add: zconfig_load_another_def)
  then show "\<exists>st. zmain_argument_prepare_config files (prog # concat (map event_args es)) = Some st
      \<and> main_redundant st = extras es \<and> main_kv st = kv_args es
      \<and> map_of (default_cf st) = map_of (loads files es []) ++ map_of (rev (settings es))"
    using run [of "[]"] by (simp add: zmain_argument_prepare_config_def cmd(2))
  assume "opt_name n"
  then have n: "n \<noteq> []" "n ! 0 \<noteq> ch CHR ''-''" by (auto simp: opt_name_def hd_conv_nth)
  then show "zmain_argument_prepare_config files (prog # concat (map event_args es) @ [ch CHR ''-'' # n]) = None"
    by (simp add: zmain_argument_prepare_config_def run)
qed

end
