(* ===== verification/Url.thy ===== *)
theory Url
  imports Config JsonText
begin

text \<open>
  URLs, query strings and cookies: \<open>src/http/url.c\<close> and \<open>src/http/cookie.c\<close>. A dictionary is the list
  of its entries in the order of the keys, as in theory \<open>Config\<close>.
\<close>

section \<open>URLs\<close>

record zurl =
  scheme :: bytes
  destination :: bytes
  host :: bytes
  path :: bytes
  query :: bytes
  fragment :: bytes
  port :: "32 word"

text \<open>\<open>strstr\<close>: what is before the first occurrence, and the text from there.\<close>

fun strstr :: "bytes \<Rightarrow> bytes \<Rightarrow> (bytes \<times> bytes) option" where
  "strstr s needle =
     (if take (length needle) s = needle then Some ([], s)
      else case s of [] \<Rightarrow> None | c # s' \<Rightarrow> map_option (\<lambda>(a, r). (c # a, r)) (strstr s' needle))"

declare strstr.simps [simp del]

abbreviation c_qm :: byte where "c_qm \<equiv> ch CHR ''?''"
abbreviation c_hash :: byte where "c_hash \<equiv> ch CHR ''#''"
abbreviation c_slash :: byte where "c_slash \<equiv> ch CHR ''/''"
abbreviation c_colon :: byte where "c_colon \<equiv> ch CHR '':''"

definition cut_before :: "bytes \<Rightarrow> bytes \<Rightarrow> bytes \<times> bytes" where
  "cut_before stops s = (takeWhile (\<lambda>c. c \<notin> set stops) s, dropWhile (\<lambda>c. c \<notin> set stops) s)"

text \<open>The labels of the function, in the order they jump to each other.\<close>

definition url_fragment :: "zurl \<Rightarrow> bytes \<Rightarrow> zurl" where
  "url_fragment ru ps = ru\<lparr>fragment := zstrdup (Some ps)\<rparr>"

definition url_query :: "zurl \<Rightarrow> bytes \<Rightarrow> zurl" where
  "url_query ru ps =
     (let (q, p) = cut_before [c_hash] ps; ru1 = ru\<lparr>query := q\<rparr>
      in case p of [] \<Rightarrow> ru1 | _ # ps1 \<Rightarrow> url_fragment ru1 ps1)"

text \<open>The tests after a part: a question mark, a hash sign, or the end.\<close>

definition url_rest :: "zurl \<Rightarrow> bytes \<Rightarrow> zurl" where
  "url_rest ru p = (case p of [] \<Rightarrow> ru | c # ps \<Rightarrow> if c = c_qm then url_query ru ps else url_fragment ru ps)"

definition url_path :: "zurl \<Rightarrow> bytes \<Rightarrow> zurl" where
  "url_path ru ps = (let (d, p) = cut_before [c_qm, c_hash] ps in url_rest (ru\<lparr>path := d\<rparr>) p)"

definition url_port :: "zurl \<Rightarrow> bytes \<Rightarrow> bytes \<Rightarrow> zurl" where
  "url_port ru tmp_destination ps =
     (let (d, p) = cut_before [c_qm, c_hash, c_slash] ps;
          ru1 = ru\<lparr>destination := take (length tmp_destination - length p) tmp_destination, port := atoi ps\<rparr>
      in case p of c # ps1 \<Rightarrow> if c = c_slash then url_path ru1 ps1 else url_rest ru1 p | [] \<Rightarrow> ru1)"

definition url_local :: "zurl \<Rightarrow> bytes \<Rightarrow> zurl" where
  "url_local ru ps =
     (let (d, p) = cut_before [c_qm, c_hash] (drop 6 ps)
      in url_rest (ru\<lparr>host := cstr ''local'', path := d, destination := take 6 ps @ d\<rparr>) p)"

definition url_host :: "zurl \<Rightarrow> bytes \<Rightarrow> zurl" where
  "url_host ru ps =
     (let (d, p) = cut_before [c_qm, c_hash, c_slash, c_colon] ps in
      case p of
        c # ps1 \<Rightarrow>
          if c = c_colon then url_port (ru\<lparr>host := d\<rparr>) ps ps1
          else let ru1 = ru\<lparr>destination := d, host := d\<rparr>
               in if c = c_slash then url_path ru1 ps1 else url_rest ru1 p
      | [] \<Rightarrow> ru\<lparr>destination := d, host := d\<rparr>)"

definition zurl_parse :: "bytes \<Rightarrow> zurl" where
  "zurl_parse url_string =
     (let ru = \<lparr>scheme = [], destination = [], host = [], path = [], query = [], fragment = [], port = - 1\<rparr>;
          (ru1, ps) = (case strstr url_string (cstr ''://'') of
              None \<Rightarrow> if take 2 url_string = cstr ''//'' then (ru\<lparr>scheme := cstr ''http''\<rparr>, drop 2 url_string)
                      else (ru, url_string)
            | Some (a, p) \<Rightarrow> (ru\<lparr>scheme := zstr_tolower a\<rparr>, drop 3 p))
      in if take 6 ps = cstr ''local:'' then url_local ru1 ps else url_host ru1 ps)"

section \<open>Query strings and cookies\<close>

text \<open>The pair of one item. Without an equals sign the buffers keep what the item before left in them.
  \<open>None\<close>: \<open>zurl_hex_decode\<close> reads outside of its table.\<close>

definition var_item :: "bytes \<Rightarrow> zbuf \<Rightarrow> bytes \<Rightarrow> (bytes \<times> zbuf) option" where
  "var_item name value item =
     (case cut_before [ch CHR ''=''] item of
        (n, []) \<Rightarrow> Some (name, value)
      | (n, _ # q) \<Rightarrow> do {
          v \<leftarrow> zurl_hex_decode q (int (length q)) (zbuf_reset value);
          Some (zstr_tolower n, v) })"

text \<open>The loops of \<open>zurl_query_parse\<close> and \<open>zhttp_cookie_parse\<close> differ in the separator and in the blanks
  that are skipped before an item.\<close>

function vars_loop :: "byte \<Rightarrow> bytes \<Rightarrow> bytes \<Rightarrow> zbuf \<Rightarrow> bytes \<Rightarrow> zconfig \<Rightarrow> zconfig option" where
  "vars_loop sep skip name value ps0 vars =
     (let ps = dropWhile (\<lambda>c. c \<in> set skip) ps0; (item, p) = cut_before [sep] ps in
      Option.bind (var_item name value item) (\<lambda>(name1, value1).
        let vars1 = obj_put (cs name1) (zbuf_bytes value1) vars in
        case p of [] \<Rightarrow> Some vars1 | _ # ps1 \<Rightarrow> vars_loop sep skip name1 value1 ps1 vars1))"
  by pat_completeness auto
termination
proof (relation "measure (\<lambda>(sep, skip, name, value, ps, vars). length ps)", simp, clarsimp)
  fix sep :: byte and skip ps0 :: bytes and ps1 item x
  assume "(item, x # ps1) = cut_before [sep] (dropWhile (\<lambda>c. c \<in> set skip) ps0)"
  then have "length (x # ps1) \<le> length (dropWhile (\<lambda>c. c \<in> set skip) ps0)"
    by (simp add: cut_before_def length_dropWhile_le)
  also have "\<dots> \<le> length ps0" by (rule length_dropWhile_le)
  finally show "length ps1 < length ps0" by simp
qed

declare vars_loop.simps [simp del]

definition zurl_query_parse :: "bytes \<Rightarrow> zconfig option \<Rightarrow> zconfig option" where
  "zurl_query_parse q query_vars =
     vars_loop (ch CHR ''&'') [] [] (zbuf_init 128) q (case query_vars of None \<Rightarrow> [] | Some vars \<Rightarrow> vars)"

definition zhttp_cookie_parse :: "bytes \<Rightarrow> zconfig option \<Rightarrow> zconfig option" where
  "zhttp_cookie_parse raw_cookie cookies =
     vars_loop (ch CHR '';'') [32, 9] [] (zbuf_init 128) raw_cookie (case cookies of None \<Rightarrow> [] | Some c \<Rightarrow> c)"

definition query_pair :: "bool \<Rightarrow> cstring \<times> bytes \<Rightarrow> zbuf \<Rightarrow> zbuf" where
  "query_pair strict kv bf =
     (let bf1 = zurl_hex_encode (str_bytes (fst kv)) (int (length (str_bytes (fst kv)))) bf strict;
          bf2 = zbuf_put bf1 (ch CHR ''='')
      in zurl_hex_encode (snd kv) (int (length (snd kv))) bf2 strict)"

fun query_build_loop :: "bool \<Rightarrow> bool \<Rightarrow> zconfig \<Rightarrow> zbuf \<Rightarrow> zbuf" where
  "query_build_loop strict first [] bf = bf"
| "query_build_loop strict first (kv # vars) bf =
     query_build_loop strict False vars (query_pair strict kv (if first then bf else zbuf_put bf (ch CHR ''&'')))"

definition zurl_query_build :: "zconfig \<Rightarrow> zbuf \<Rightarrow> bool \<Rightarrow> zbuf" where
  "zurl_query_build query_vars query_buf strict = query_build_loop strict True query_vars query_buf"

section \<open>Cookie items\<close>

text \<open>The escape writes the two nibbles themselves, not their digits.\<close>

fun cookie_escape :: "bytes \<Rightarrow> zbuf \<Rightarrow> bytes \<Rightarrow> zbuf" where
  "cookie_escape extra bf [] = bf"
| "cookie_escape extra bf (c # p) =
     cookie_escape extra
       (if c = 32 then zbuf_put bf (ch CHR ''+'')
        else if isalnum c \<or> c \<in> set extra then zbuf_put bf c
        else zbuf_put (zbuf_put (zbuf_put bf (ch CHR ''%'')) (push_bit 4 c)) (c AND 15)) p"

text \<open>\<open>gmt\<close> is the text \<open>strftime\<close> gives for a time, \<open>now\<close> the current time. The strings are \<open>None\<close> for NULL.\<close>

definition opt_str :: "bytes option \<Rightarrow> bytes" where
  "opt_str s = (case s of None \<Rightarrow> [] | Some b \<Rightarrow> b)"

definition zhttp_cookie_build_item ::
    "(64 word \<Rightarrow> bytes) \<Rightarrow> 64 word \<Rightarrow> bytes \<Rightarrow> bytes option \<Rightarrow> 64 word \<Rightarrow> bytes option \<Rightarrow> bytes option \<Rightarrow> bool \<Rightarrow> bool
      \<Rightarrow> zbuf \<Rightarrow> zbuf" where
  "zhttp_cookie_build_item gmt now name val_opt expires path_opt domain secure httponly bf0 =
     (let bf1 = zbuf_put (zbuf_strcat bf0 (name @ [0])) (ch CHR ''='') in
      if opt_str val_opt = [] then zbuf_strcat bf1 (cstr ''deleted; expires=Thu, 01-Jan-1970 00:00:01 GMT; Max-Age=0;'' @ [0])
      else
        let bf2 = cookie_escape [] bf1 (opt_str val_opt);
            bf3 = (if sint expires > 0 then
                     zbuf_printf_1024 (zbuf_strcat (zbuf_strcat (zbuf_strcat bf2 (cstr ''; expires='' @ [0]))
                       (gmt expires @ [0])) (cstr ''; Max-Age='' @ [0])) (fmt_zd (expires - now))
                   else bf2);
            bf4 = (if opt_str path_opt \<noteq> [] then
                     cookie_escape [c_slash] (zbuf_strcat bf3 (cstr ''; path='' @ [0])) (opt_str path_opt)
                   else bf3);
            bf5 = (if opt_str domain \<noteq> [] then
                     cookie_escape [] (zbuf_strcat bf4 (cstr ''; domain='' @ [0])) (opt_str domain)
                   else bf4);
            bf6 = (if secure then zbuf_strcat bf5 (cstr ''; secure'' @ [0]) else bf5)
        in if httponly then zbuf_strcat bf6 (cstr ''; httponly'' @ [0]) else bf6)"

section \<open>Parsing a URL\<close>

lemma cut_before_stop:
  assumes "set a \<inter> set stops = {}" "c \<in> set stops"
  shows "cut_before stops (a @ c # r) = (a, c # r)"
proof -
  have "takeWhile (\<lambda>c. c \<notin> set stops) (a @ c # r) = a" "dropWhile (\<lambda>c. c \<notin> set stops) (a @ c # r) = c # r"
    using assms by (induction a) auto
  then show ?thesis by (simp add: cut_before_def)
qed

lemma cut_before_end:
  assumes "set a \<inter> set stops = {}"
  shows "cut_before stops a = (a, [])"
proof -
  have "takeWhile (\<lambda>c. c \<notin> set stops) a = a" "dropWhile (\<lambda>c. c \<notin> set stops) a = []"
    using assms by (induction a) auto
  then show ?thesis by (simp add: cut_before_def)
qed

lemma cut_before_tail:
  assumes "set a \<inter> set stops = {}" "r = [] \<or> hd r \<in> set stops"
  shows "cut_before stops (a @ r) = (a, r)"
  using assms by (cases r) (simp_all add: cut_before_stop cut_before_end)

text \<open>The parts of a URL after the scheme; an absent part leaves no trace.\<close>

definition part :: "byte \<Rightarrow> bytes option \<Rightarrow> bytes" where
  "part c x = (case x of None \<Rightarrow> [] | Some s \<Rightarrow> c # s)"

definition tail_f :: "bytes option \<Rightarrow> bytes" where
  "tail_f f = part c_hash f"

definition tail_q :: "bytes option \<Rightarrow> bytes option \<Rightarrow> bytes" where
  "tail_q q f = part c_qm q @ tail_f f"

definition tail_p :: "bytes option \<Rightarrow> bytes option \<Rightarrow> bytes option \<Rightarrow> bytes" where
  "tail_p p q f = part c_slash p @ tail_q q f"

definition zurl_text :: "bytes \<Rightarrow> bytes \<Rightarrow> nat option \<Rightarrow> bytes option \<Rightarrow> bytes option \<Rightarrow> bytes option \<Rightarrow> bytes" where
  "zurl_text sch h n p q f = sch @ cstr ''://'' @ h @ part c_colon (map_option dec_digits n) @ tail_p p q f"

definition without :: "bytes \<Rightarrow> bytes \<Rightarrow> bool" where
  "without stops s \<longleftrightarrow> set s \<inter> set stops = {} \<and> 0 \<notin> set s"

lemma url_chars [simp]: "c_qm \<noteq> c_hash" "c_hash \<noteq> c_qm" "c_qm \<noteq> c_slash" "c_slash \<noteq> c_qm" "c_qm \<noteq> c_colon" "c_colon \<noteq> c_qm"
  "c_hash \<noteq> c_slash" "c_slash \<noteq> c_hash" "c_hash \<noteq> c_colon" "c_colon \<noteq> c_hash" "c_slash \<noteq> c_colon" "c_colon \<noteq> c_slash"
  by (simp_all add: ch_def)

lemma url_fragment_eq: "0 \<notin> set s \<Longrightarrow> url_fragment ru s = ru\<lparr>fragment := s\<rparr>"
  by (auto simp: url_fragment_def zstrdup_def intro!: arg_cong [where f = "\<lambda>x. ru\<lparr>fragment := x\<rparr>"] takeWhile_eq_all_conv [THEN iffD2])

definition opt_without :: "bytes \<Rightarrow> bytes option \<Rightarrow> bool" where
  "opt_without stops x \<longleftrightarrow> without stops (opt_str x)"

lemma opt_without_Some: "opt_without stops (Some s) \<longleftrightarrow> without stops s"
  by (simp add: opt_without_def opt_str_def)

lemma url_query_eq:
  assumes "without [c_hash] s" "opt_without [] f" "fragment ru = []"
  shows "url_query ru (s @ tail_f f) = ru\<lparr>query := s, fragment := opt_str f\<rparr>"
proof -
  have "cut_before [c_hash] (s @ tail_f f) = (s, tail_f f)"
    using assms(1) by (intro cut_before_tail) (auto simp: without_def tail_f_def part_def split: option.splits)
  then show ?thesis using assms
    by (cases f) (simp_all add: url_query_def tail_f_def part_def opt_str_def opt_without_Some without_def url_fragment_eq)
qed

lemma url_rest_eq:
  assumes "opt_without [c_hash] q" "opt_without [] f" "fragment ru = []" "query ru = []"
  shows "url_rest ru (tail_q q f) = ru\<lparr>query := opt_str q, fragment := opt_str f\<rparr>"
proof (cases q)
  case None
  then show ?thesis using assms
    by (cases f) (simp_all add: url_rest_def tail_q_def tail_f_def part_def opt_str_def opt_without_Some without_def url_fragment_eq)
next
  case (Some s)
  then show ?thesis using assms url_query_eq [of s f ru]
    by (simp add: url_rest_def tail_q_def part_def opt_without_Some opt_str_def [of "Some s"])
qed

lemma tail_q_head: "tail_q q f = [] \<or> hd (tail_q q f) \<in> {c_qm, c_hash}"
  by (auto simp: tail_q_def tail_f_def part_def split: option.splits)

lemma url_path_eq:
  assumes "without [c_qm, c_hash] s" "opt_without [c_hash] q" "opt_without [] f" "fragment ru = []" "query ru = []"
  shows "url_path ru (s @ tail_q q f) = ru\<lparr>path := s, query := opt_str q, fragment := opt_str f\<rparr>"
proof -
  have "cut_before [c_qm, c_hash] (s @ tail_q q f) = (s, tail_q q f)"
    using assms(1) tail_q_head [of q f] by (intro cut_before_tail) (auto simp: without_def)
  then show ?thesis using url_rest_eq [OF assms(2,3), of "ru\<lparr>path := s\<rparr>"] assms(4,5) by (simp add: url_path_def)
qed

text \<open>The dispatch after a host or a port.\<close>

lemma url_dispatch_eq:
  assumes "opt_without [c_qm, c_hash] p" "opt_without [c_hash] q" "opt_without [] f" "fragment ru = []" "query ru = []" "path ru = []"
  shows "(case tail_p p q f of c # ps1 \<Rightarrow> if c = c_slash then url_path ru ps1 else url_rest ru (tail_p p q f) | [] \<Rightarrow> ru)
    = ru\<lparr>path := opt_str p, query := opt_str q, fragment := opt_str f\<rparr>"
proof (cases p)
  case None
  have "(case tail_q q f of c # ps1 \<Rightarrow> if c = c_slash then url_path ru ps1 else url_rest ru (tail_q q f) | [] \<Rightarrow> ru) = url_rest ru (tail_q q f)"
    using tail_q_head [of q f] by (cases "tail_q q f") (auto simp: url_rest_def)
  moreover have t: "tail_p p q f = tail_q q f" by (simp add: None tail_p_def part_def)
  moreover have "ru\<lparr>path := opt_str p\<rparr> = ru" using assms(6) by (simp add: None opt_str_def)
  ultimately show ?thesis using url_rest_eq [OF assms(2-5)] unfolding t by simp
next
  case (Some s)
  then show ?thesis using url_path_eq [of s q f ru] assms by (simp add: tail_p_def part_def opt_without_Some opt_str_def [of "Some s"])
qed

lemma tail_p_head: "tail_p p q f = [] \<or> hd (tail_p p q f) \<in> {c_slash, c_qm, c_hash}"
  using tail_q_head [of q f] by (auto simp: tail_p_def part_def split: option.splits)

lemma dec_digits_digits: "(\<forall>c \<in> set (dec_digits n). isdigit c) \<and> dec_digits n \<noteq> []"
proof (induction n rule: dec_digits.induct)
  case (1 n)
  have d: "isdigit (48 + of_nat m)" if "m < 10" for m :: nat
  proof -
    have "m \<in> {0, 1, 2, 3, 4, 5, 6, 7, 8, 9}" using that by auto
    then show ?thesis by (auto simp: isdigit_def ch_def)
  qed
  show ?case using 1 d [of n] d [of "n mod 10"] by (subst dec_digits.simps) (auto simp: dec_digits.simps [of n])
qed

lemma dec_value_append: "dec_value acc (a @ b) = dec_value (dec_value acc a) b"
  by (induction acc a rule: dec_value.induct) auto

lemma dec_value_digits: "dec_value 0 (dec_digits n) = int n"
proof (induction n rule: dec_digits.induct)
  case (1 n)
  have d: "uint (48 + of_nat m :: byte) - 48 = int m" if "m < 10" for m :: nat
  proof -
    have "m \<in> {0, 1, 2, 3, 4, 5, 6, 7, 8, 9}" using that by auto
    then show ?thesis by auto
  qed
  show ?case
  proof (cases "n < 10")
    case True
    then show ?thesis using d [of n] by (simp add: dec_digits.simps [of n])
  next
    case False
    have "dec_digits n = dec_digits (n div 10) @ [48 + of_nat (n mod 10)]" using False by (subst dec_digits.simps) simp
    then show ?thesis using 1 [OF False] d [of "n mod 10"] by (simp add: dec_value_append zdiv_int zmod_int)
  qed
qed

lemma atoi_digits:
  assumes "n < 2 ^ 31" "r = [] \<or> \<not> isdigit (hd r)"
  shows "atoi (dec_digits n @ r) = of_nat n"
proof -
  let ?d = "dec_digits n"
  have d: "\<forall>c \<in> set ?d. isdigit c" "?d \<noteq> []" using dec_digits_digits by auto
  obtain c ds where cd: "?d = c # ds" using d(2) by (cases ?d) auto
  have c: "isdigit c" using d(1) cd by simp
  then have c': "\<not> isspace c" "c \<noteq> ch CHR ''-''" "c \<noteq> ch CHR ''+''"
    by (auto simp: isdigit_def isspace_def ch_def word_le_def word_uint_eq_iff)
  have sign: "scan_sign (dropWhile isspace (?d @ r)) = (1, ?d @ r)" using c' by (simp add: cd scan_sign_def)
  have "takeWhile isdigit (?d @ r) = ?d" using d(1) assms(2) by (cases r) (auto simp: takeWhile_append takeWhile_eq_all_conv)
  then have "scan_zd (?d @ r) = Some (clip64 (int n), dropWhile isdigit (?d @ r))"
    using d(2) by (simp add: scan_zd_def sign dec_value_digits)
  moreover have "clip64 (int n) = word_of_int (int n)" using assms(1) by (simp add: clip64_def)
  moreover have "ucast (of_nat n :: 64 word) = (of_nat n :: 32 word)"
    using assms(1) by (simp add: unsigned_of_nat take_bit_nat_eq_self)
  ultimately show ?thesis by (simp add: atoi_def atol_def)
qed

lemma strstr_scheme:
  assumes "c_colon \<notin> set sch"
  shows "strstr (sch @ cstr ''://'' @ r) (cstr ''://'') = Some (sch, cstr ''://'' @ r)"
  using assms
proof (induction sch)
  case Nil
  then show ?case by (subst strstr.simps) (simp add: cstr_def)
next
  case (Cons c sch)
  then have "take (length (cstr ''://'')) ((c # sch) @ cstr ''://'' @ r) \<noteq> cstr ''://''" by (auto simp: cstr_def)
  with Cons show ?case by (subst strstr.simps) simp
qed

lemma url_port_eq:
  assumes "n < 2 ^ 31" "opt_without [c_qm, c_hash] p" "opt_without [c_hash] q" "opt_without [] f"
    "fragment ru = []" "query ru = []" "path ru = []" "tmp = h @ c_colon # dec_digits n @ tail_p p q f"
  shows "url_port ru tmp (dec_digits n @ tail_p p q f) = ru\<lparr>destination := h @ c_colon # dec_digits n, port := of_nat n,
    path := opt_str p, query := opt_str q, fragment := opt_str f\<rparr>"
proof -
  have s: "\<not> isdigit c_slash" "\<not> isdigit c_qm" "\<not> isdigit c_hash" by (simp_all add: isdigit_def ch_def)
  have c: "cut_before [c_qm, c_hash, c_slash] (dec_digits n @ tail_p p q f) = (dec_digits n, tail_p p q f)"
    using tail_p_head [of p q f] dec_digits_digits [of n] s by (intro cut_before_tail) auto
  have at: "atoi (dec_digits n @ tail_p p q f) = of_nat n"
    using tail_p_head [of p q f] s by (intro atoi_digits assms(1)) auto
  have tk: "take (length tmp - length (tail_p p q f)) tmp = h @ c_colon # dec_digits n" by (simp add: assms(8))
  show ?thesis unfolding url_port_def c at tk Let_def prod.case
    using url_dispatch_eq [OF assms(2-4), of "ru\<lparr>destination := h @ c_colon # dec_digits n, port := of_nat n\<rparr>"] assms(5-7)
    by simp
qed

lemma url_host_eq:
  assumes "set h \<inter> {c_qm, c_hash, c_slash, c_colon} = {}" "\<And>m. n = Some m \<Longrightarrow> m < 2 ^ 31"
    "opt_without [c_qm, c_hash] p" "opt_without [c_hash] q" "opt_without [] f" "fragment ru = []" "query ru = []" "path ru = []"
    "port ru = - 1"
  shows "url_host ru (h @ part c_colon (map_option dec_digits n) @ tail_p p q f) = ru\<lparr>
    host := h, destination := h @ part c_colon (map_option dec_digits n), port := (case n of None \<Rightarrow> - 1 | Some m \<Rightarrow> of_nat m),
    path := opt_str p, query := opt_str q, fragment := opt_str f\<rparr>"
proof (cases n)
  case None
  let ?ru = "ru\<lparr>destination := h, host := h\<rparr>"
  have c: "cut_before [c_qm, c_hash, c_slash, c_colon] (h @ tail_p p q f) = (h, tail_p p q f)"
    using tail_p_head [of p q f] assms(1) by (intro cut_before_tail) auto
  have "url_host ru (h @ tail_p p q f) = (case tail_p p q f of c # ps1 \<Rightarrow> if c = c_slash then url_path ?ru ps1
      else url_rest ?ru (tail_p p q f) | [] \<Rightarrow> ?ru)"
    unfolding url_host_def c using tail_p_head [of p q f] by (cases "tail_p p q f") (auto simp: Let_def)
  with url_dispatch_eq [OF assms(3-5), of ?ru] assms(6-9) show ?thesis by (simp add: None part_def)
next
  case (Some m)
  let ?r = "dec_digits m @ tail_p p q f"
  have "cut_before [c_qm, c_hash, c_slash, c_colon] (h @ c_colon # ?r) = (h, c_colon # ?r)"
    using assms(1) by (intro cut_before_stop) auto
  then have "url_host ru (h @ c_colon # ?r) = url_port (ru\<lparr>host := h\<rparr>) (h @ c_colon # ?r) ?r"
    by (simp add: url_host_def)
  with url_port_eq [OF assms(2) [OF Some] assms(3-5), of "ru\<lparr>host := h\<rparr>" "h @ c_colon # ?r" h] assms(6-9)
  show ?thesis by (simp add: Some part_def)
qed

lemma not_local:
  assumes "set h \<inter> {c_qm, c_hash, c_slash, c_colon} = {}" "h \<noteq> cstr ''local'' \<or> n = None"
  shows "take 6 (h @ part c_colon (map_option dec_digits n) @ tail_p p q f) \<noteq> cstr ''local:''"
proof
  let ?t = "part c_colon (map_option dec_digits n) @ tail_p p q f"
  assume "take 6 (h @ ?t) = cstr ''local:''"
  then have "h @ ?t = cstr ''local:'' @ drop 6 (h @ ?t)" using append_take_drop_id [of 6 "h @ ?t"] by simp
  then obtain r where s: "h @ ?t = cstr ''local'' @ c_colon # r" by (simp add: cstr_def)
  let ?stops = "[c_qm, c_hash, c_slash, c_colon]"
  have t: "?t = [] \<or> hd ?t \<in> set ?stops" using tail_p_head [of p q f] by (auto simp: part_def split: option.splits)
  have "cut_before ?stops (h @ ?t) = (h, ?t)" by (rule cut_before_tail [OF _ t]) (use assms(1) in auto)
  moreover have "cut_before ?stops (cstr ''local'' @ c_colon # r) = (cstr ''local'', c_colon # r)"
    by (rule cut_before_stop) (auto simp: cstr_def ch_def)
  ultimately have h: "h = cstr ''local''" "?t = c_colon # r" unfolding s by simp_all
  with assms(2) have "tail_p p q f = c_colon # r" by (simp add: part_def)
  with tail_p_head [of p q f] show False by simp
qed

section \<open>Parsing variables\<close>

definition pair_text :: "bool \<Rightarrow> bytes \<times> bytes \<Rightarrow> bytes" where
  "pair_text strict kv = fst kv @ ch CHR ''='' # url_text strict (snd kv)"

text \<open>The pairs one after another, with the separator and maybe blanks in between.\<close>

fun vars_text :: "bytes \<Rightarrow> bool \<Rightarrow> (bytes \<times> bytes) list \<Rightarrow> bytes" where
  "vars_text glue strict [] = []"
| "vars_text glue strict [kv] = pair_text strict kv"
| "vars_text glue strict (kv # kvs) = pair_text strict kv @ glue @ vars_text glue strict kvs"

definition pair_ok :: "byte \<Rightarrow> bytes \<Rightarrow> bool \<Rightarrow> bytes \<times> bytes \<Rightarrow> bool" where
  "pair_ok sep skip strict kv \<longleftrightarrow> set (fst kv) \<inter> {sep, ch CHR ''='', 0} = {} \<and> map tolower (fst kv) = fst kv
     \<and> (fst kv = [] \<or> hd (fst kv) \<notin> set skip) \<and> (strict \<or> 0 \<notin> set (snd kv))"

lemma hex_alnum: "isalnum (hex_hi b)" "isalnum (hex_lo b)"
proof -
  have "isalnum c" if "unat c \<in> {48..57} \<union> {65..70}" for c :: byte
    using that by (auto simp: isalnum_def ch_def word_le_nat_alt)
  then show "isalnum (hex_hi b)" "isalnum (hex_lo b)" using hex_small [of b] by blast+
qed

lemma url_text_chars:
  assumes "c \<in> set (url_text strict v)"
  shows "isalnum c \<or> c = ch CHR ''%'' \<or> c > 127 \<or> c \<in> set (cstr ''._-'') \<or> \<not> strict \<and> c = 0 \<and> 0 \<in> set v"
  using assms hex_alnum by (auto simp: url_text_def url_char_def percent_def split: if_splits)

lemma url_text_safe:
  assumes "c \<in> {ch CHR ''&'', ch CHR '';'', ch CHR ''='', 0}" "strict \<or> 0 \<notin> set v"
  shows "c \<notin> set (url_text strict v)"
proof
  assume "c \<in> set (url_text strict v)"
  from url_text_chars [OF this] assms show False
    by (auto simp: isalnum_def ch_def cstr_def)
qed

lemma value_ok_reset: "value_ok b \<Longrightarrow> value_ok (zbuf_reset b) \<and> zbuf_bytes (zbuf_reset b) = []"
  by (auto simp: value_ok_def zbuf_ok_def zbuf_cap_def zbuf_bytes_def zbuf_reset_def)

lemma zurl_hex_decode_value:
  assumes "value_ok b" "zbuf_bytes b = []"
  shows "\<exists>b'. zurl_hex_decode (url_text strict v) (int (length (url_text strict v))) b = Some b' \<and> value_ok b' \<and> zbuf_bytes b' = v"
proof -
  have "zbuf_ok b" "zbuf_cap b = None" using assms(1) by (auto simp: value_ok_def)
  with appends_writes [OF appends_puts, of b v] assms(2)
  show ?thesis by (auto simp: zurl_hex_decode_def zurl_hex_decode_loop_foldl url_plain_text value_ok_def writes_def)
qed

lemma var_item_pair:
  assumes "value_ok b" "pair_ok sep skip strict kv"
  shows "\<exists>b'. var_item name b (pair_text strict kv) = Some (fst kv, b') \<and> value_ok b' \<and> zbuf_bytes b' = snd kv"
proof -
  obtain k v where kv: "kv = (k, v)" by (cases kv)
  have k: "ch CHR ''='' \<notin> set k" "0 \<notin> set k" "map tolower k = k" using assms(2) by (auto simp: pair_ok_def kv)
  have "cut_before [ch CHR ''=''] (pair_text strict kv) = (k, ch CHR ''='' # url_text strict v)"
    unfolding pair_text_def kv using k(1) by (auto intro: cut_before_stop)
  moreover have "value_ok (zbuf_reset b)" "zbuf_bytes (zbuf_reset b) = []" using value_ok_reset [OF assms(1)] by auto
  ultimately show ?thesis
    using zurl_hex_decode_value [of "zbuf_reset b" strict v] k(2,3) by (auto simp: var_item_def kv zstr_tolower_map)
qed

lemma pair_text_skip: "pair_ok sep skip strict kv \<Longrightarrow> ch CHR ''='' \<notin> set skip \<Longrightarrow>
    dropWhile (\<lambda>c. c \<in> set skip) (pair_text strict kv @ r) = pair_text strict kv @ r"
  by (cases "fst kv") (auto simp: pair_ok_def pair_text_def)

lemma pair_text_sep: "pair_ok sep skip strict kv \<Longrightarrow> sep \<in> {ch CHR ''&'', ch CHR '';''} \<Longrightarrow> sep \<notin> set (pair_text strict kv)"
  using url_text_safe [of sep strict "snd kv"] by (auto simp: pair_ok_def pair_text_def ch_def)

lemma vars_loop_pairs:
  assumes "sep \<in> {ch CHR ''&'', ch CHR '';''}" "set w \<subseteq> set skip" "ch CHR ''='' \<notin> set skip"
    and "kvs \<noteq> []" "\<forall>kv \<in> set kvs. pair_ok sep skip strict kv" "value_ok b" "set u \<subseteq> set skip"
  shows "vars_loop sep skip name b (u @ vars_text (sep # w) strict kvs) vars = Some (fold (\<lambda>(k, v). obj_put (cs k) v) kvs vars)"
  using assms(4-)
proof (induction kvs arbitrary: name b vars u)
  case (Cons kv kvs)
  then have kv: "pair_ok sep skip strict kv" by simp
  obtain b' where b': "var_item name b (pair_text strict kv) = Some (fst kv, b')" "value_ok b'" "zbuf_bytes b' = snd kv"
    using var_item_pair [OF Cons.prems(3) kv] by blast
  have sk: "dropWhile (\<lambda>c. c \<in> set skip) (u @ pair_text strict kv @ r) = pair_text strict kv @ r" for r
  proof -
    have "dropWhile (\<lambda>c. c \<in> set skip) (u @ pair_text strict kv @ r) = dropWhile (\<lambda>c. c \<in> set skip) (pair_text strict kv @ r)"
      using Cons.prems(4) by (intro dropWhile_append2) auto
    then show ?thesis using pair_text_skip [OF kv assms(3)] by simp
  qed
  have sep: "set (pair_text strict kv) \<inter> set [sep] = {}" using pair_text_sep [OF kv assms(1)] by simp
  show ?case
  proof (cases kvs)
    case Nil
    then show ?thesis using sk [of "[]"] cut_before_end [OF sep] b'
      by (subst vars_loop.simps) (simp add: Let_def split_def)
  next
    case (Cons kv2 kvs2)
    have tx: "vars_text (sep # w) strict (kv # kvs) = pair_text strict kv @ sep # w @ vars_text (sep # w) strict kvs"
      by (simp add: Cons)
    have "kvs \<noteq> []" by (simp add: Cons)
    then show ?thesis unfolding tx
      using sk [of "sep # w @ vars_text (sep # w) strict kvs"] cut_before_stop [OF sep, of sep "w @ vars_text (sep # w) strict kvs"] b'
        Cons.IH [of b' w] assms(2) Cons.prems
      by (subst vars_loop.simps) (simp add: Let_def split_def)
  qed
qed simp

section \<open>Building a query\<close>

lemma query_pair_appends:
  assumes "zbuf_ok bf"
  shows "appends bf (query_pair strict kv bf) (pair_text strict (url_text strict (str_bytes (fst kv)), snd kv))"
proof -
  let ?k = "str_bytes (fst kv)" and ?v = "snd kv"
  have enc: "appends b (zurl_hex_encode x (int (length x)) b strict) (url_text strict x)" if "zbuf_ok b" for b x
    using zurl_hex_encode_writes [OF that, of x "int (length x)" strict] by (simp add: writes_def appends_def)
  note a1 = enc [OF assms, of ?k]
  note a2 = appends_put [OF appends_ok [OF a1], of "ch CHR ''=''"]
  note a3 = enc [OF appends_ok [OF a2], of ?v]
  from appends_trans [OF a1 appends_trans [OF a2 a3]] show ?thesis
    by (simp add: query_pair_def pair_text_def Let_def)
qed

lemma query_build_appends:
  assumes "zbuf_ok bf"
  shows "appends bf (query_build_loop strict first vars bf)
    ((if first \<or> vars = [] then [] else [ch CHR ''&'']) @ vars_text [ch CHR ''&''] strict (map (\<lambda>(k, v). (url_text strict (str_bytes k), v)) vars))"
  using assms
proof (induction vars arbitrary: bf first)
  case Nil
  then show ?case by (simp add: appends_Nil)
next
  case (Cons kv vars)
  let ?sep = "if first then [] else [ch CHR ''&'']"
  have a1: "appends bf (if first then bf else zbuf_put bf (ch CHR ''&'')) ?sep"
    using appends_Nil [OF Cons.prems] appends_put [OF Cons.prems] by simp
  note a2 = query_pair_appends [OF appends_ok [OF a1], of strict kv]
  note a3 = Cons.IH [OF appends_ok [OF a2], of False]
  from appends_trans [OF a1 appends_trans [OF a2 a3]] show ?case
    by (cases vars) (simp_all add: split_def)
qed

lemma puts_sorted:
  fixes d :: "('k::linorder \<times> 'v) list"
  assumes "sorted_wrt (<) (map fst (acc @ d))"
  shows "fold (\<lambda>(k, v). obj_put k v) d acc = acc @ d"
  using assms
proof (induction d arbitrary: acc)
  case (Cons kv d)
  obtain k v where kv: "kv = (k, v)" by (cases kv)
  have "obj_put k v acc = acc @ [(k, v)]" if "\<forall>x \<in> set (map fst acc). x < k"
    using that by (induction acc) auto
  moreover have "\<forall>x \<in> set (map fst acc). x < k" using Cons.prems by (auto simp: sorted_wrt_append kv)
  ultimately show ?case using Cons.IH [of "acc @ [kv]"] Cons.prems by (simp add: kv)
qed simp

section \<open>Cookie items\<close>

definition cookie_char :: "bytes \<Rightarrow> byte \<Rightarrow> bytes" where
  "cookie_char extra c = (if c = 32 then [ch CHR ''+''] else if isalnum c \<or> c \<in> set extra then [c]
     else [ch CHR ''%'', push_bit 4 c, c AND 15])"

lemma cookie_escape_foldl: "cookie_escape extra bf p = foldl zbuf_put bf (concat (map (cookie_char extra) p))"
  by (induction extra bf p rule: cookie_escape.induct) (auto simp: cookie_char_def)

text \<open>A cookie item without attributes: a character that is not alphanumeric does not come out as an
  escape sequence that \<open>zhttp_cookie_parse\<close> could read.\<close>

lemma cookie_item_text:
  assumes "zbuf_ok bf" "zbuf_cap bf = None" "0 \<notin> set name" "v \<noteq> []"
  shows "zbuf_bytes (zhttp_cookie_build_item gmt now name (Some v) 0 None None False False bf)
    = zbuf_bytes bf @ name @ ch CHR ''='' # concat (map (cookie_char []) v)"
proof -
  have s: "src_bytes (name @ [0]) (- 1) = name" using src_bytes_strlen [OF assms(3), of "[]"] by simp
  note a1 = appends_strcat [OF assms(1), of "name @ [0]", unfolded s]
  note a2 = appends_put [OF appends_ok [OF a1], of "ch CHR ''=''"]
  note a3 = appends_puts [OF appends_ok [OF a2], of "concat (map (cookie_char []) v)"]
  from appends_growing [OF appends_trans [OF a1 appends_trans [OF a2 a3]] assms(2)] assms(4)
  show ?thesis by (simp add: zhttp_cookie_build_item_def opt_str_def cookie_escape_foldl Let_def)
qed

section \<open>Properties\<close>

text \<open>C36: \<open>zurl_parse\<close> takes apart what it is given: a URL with a scheme, a host, and optionally a port, a
  path, a query and a fragment, and a local address with a path. Absent parts are empty, an absent port
  is -1, the scheme comes in lower case. Of the URL in the example of doc/url.md, which has no fragment, the
  code makes an empty fragment, where the manual prints one.\<close>

theorem zurl_parse_spec:
  assumes "without [c_colon] sch" "without [c_qm, c_hash, c_slash, c_colon] h" "h \<noteq> cstr ''local'' \<or> n = None"
    and "\<And>m. n = Some m \<Longrightarrow> m < 2 ^ 31"
    and "opt_without [c_qm, c_hash] p" "opt_without [c_hash] q" "opt_without [] f"
  shows "zurl_parse (zurl_text sch h n p q f) = \<lparr>scheme = map tolower sch,
      destination = h @ part c_colon (map_option dec_digits n), host = h, path = opt_str p, query = opt_str q,
      fragment = opt_str f, port = (case n of None \<Rightarrow> - 1 | Some m \<Rightarrow> of_nat m)\<rparr>
    \<and> zurl_parse (sch @ cstr ''://local:'' @ opt_str p @ tail_q q f) = \<lparr>scheme = map tolower sch,
      destination = cstr ''local:'' @ opt_str p, host = cstr ''local'', path = opt_str p, query = opt_str q,
      fragment = opt_str f, port = - 1\<rparr>"
proof
  let ?ru = "\<lparr>scheme = map tolower sch, destination = [], host = [], path = [], query = [], fragment = [], port = - 1\<rparr>"
  have sch: "c_colon \<notin> set sch" "zstr_tolower sch = map tolower sch" using assms(1) by (auto simp: without_def zstr_tolower_map)
  have parse: "zurl_parse (sch @ cstr ''://'' @ ps) = (if take 6 ps = cstr ''local:'' then url_local ?ru ps else url_host ?ru ps)" for ps
  proof -
    have "drop 3 (cstr ''://'' @ ps) = ps" by (simp add: cstr_def)
    then show ?thesis by (simp add: zurl_parse_def strstr_scheme [OF sch(1)] sch(2) Let_def)
  qed
  have h: "set h \<inter> {c_qm, c_hash, c_slash, c_colon} = {}" using assms(2) by (auto simp: without_def)
  show "zurl_parse (zurl_text sch h n p q f) = \<lparr>scheme = map tolower sch,
      destination = h @ part c_colon (map_option dec_digits n), host = h, path = opt_str p, query = opt_str q,
      fragment = opt_str f, port = (case n of None \<Rightarrow> - 1 | Some m \<Rightarrow> of_nat m)\<rparr>"
    using url_host_eq [where ru = ?ru, OF h assms(4-7)] not_local [OF h assms(3), of p q f]
    unfolding zurl_text_def parse by simp
  have d: "length (cstr ''local:'') = 6" by (simp add: cstr_def)
  have "cut_before [c_qm, c_hash] (opt_str p @ tail_q q f) = (opt_str p, tail_q q f)"
    using assms(5) tail_q_head [of q f] by (intro cut_before_tail) (auto simp: opt_without_def without_def)
  moreover have "cstr ''://local:'' = cstr ''://'' @ cstr ''local:''" by (simp add: cstr_def)
  ultimately show "zurl_parse (sch @ cstr ''://local:'' @ opt_str p @ tail_q q f) = \<lparr>scheme = map tolower sch,
      destination = cstr ''local:'' @ opt_str p, host = cstr ''local'', path = opt_str p, query = opt_str q,
      fragment = opt_str f, port = - 1\<rparr>"
    using url_rest_eq [OF assms(6,7), of "?ru\<lparr>host := cstr ''local'', path := opt_str p, destination := cstr ''local:'' @ opt_str p\<rparr>"]
    by (simp add: parse url_local_def d)
qed

theorem zurl_parse_spec_witness:
  "zurl_parse (zurl_text (cstr ''HTTP'') (cstr ''zc.cn'') (Some 80) (Some (cstr ''a/b'')) None (Some (cstr ''top''))) =
     \<lparr>scheme = cstr ''http'', destination = cstr ''zc.cn'' @ c_colon # dec_digits 80, host = cstr ''zc.cn'', path = cstr ''a/b'',
      query = [], fragment = cstr ''top'', port = 80\<rparr>"
proof -
  have "without [c_colon] (cstr ''HTTP'')" "without [c_qm, c_hash, c_slash, c_colon] (cstr ''zc.cn'')"
    "cstr ''zc.cn'' \<noteq> cstr ''local''" "opt_without [c_qm, c_hash] (Some (cstr ''a/b''))" "opt_without [c_hash] None"
    "opt_without [] (Some (cstr ''top''))" "map tolower (cstr ''HTTP'') = cstr ''http''"
    by (simp_all add: without_def opt_without_def opt_str_def cstr_def ch_def tolower_def)
  with zurl_parse_spec [of "cstr ''HTTP''" "cstr ''zc.cn''" "Some 80" "Some (cstr ''a/b'')" None "Some (cstr ''top'')"]
  show ?thesis by (simp add: opt_str_def part_def)
qed

text \<open>C37: \<open>zurl_query_parse\<close> reads back what \<open>zurl_query_build\<close> wrote: the same dictionary, for keys in lower case
  that need no escape and arbitrary values (without NUL bytes unless the strict mode escapes them); added
  to an existing dictionary the parsed entries replace those with the same key.\<close>

theorem zurl_query_roundtrip:
  assumes "d \<noteq> []" "sorted_wrt (<) (map fst d)"
    and "\<forall>(k, v) \<in> set d. url_text strict (str_bytes k) = str_bytes k \<and> map tolower (str_bytes k) = str_bytes k \<and> (strict \<or> 0 \<notin> set v)"
    and "value_ok b" "zbuf_bytes b = []"
  shows "zurl_query_parse (zbuf_bytes (zurl_query_build d b strict)) None = Some d
    \<and> zurl_query_parse (zbuf_bytes (zurl_query_build d b strict)) (Some vars) = Some (fold (\<lambda>(k, v). obj_put k v) d vars)"
proof -
  let ?kvs = "map (\<lambda>(k, v). (str_bytes k, v)) d"
  have b: "zbuf_ok b" "zbuf_cap b = None" using assms(4) by (auto simp: value_ok_def)
  have "map (\<lambda>(k, v). (url_text strict (str_bytes k), v)) d = ?kvs" using assms(3) by auto
  with appends_growing [OF query_build_appends [OF b(1), of strict True d] b(2)] assms(5)
  have tx: "zbuf_bytes (zurl_query_build d b strict) = vars_text [ch CHR ''&''] strict ?kvs"
    by (simp add: zurl_query_build_def)
  have ok: "\<forall>kv \<in> set ?kvs. pair_ok (ch CHR ''&'') [] strict kv"
  proof
    fix kv assume "kv \<in> set ?kvs"
    then obtain k v where kv: "kv = (str_bytes k, v)" "(k, v) \<in> set d" by auto
    then have k: "url_text strict (str_bytes k) = str_bytes k" "map tolower (str_bytes k) = str_bytes k" "strict \<or> 0 \<notin> set v"
      using assms(3) by auto
    have "c \<notin> set (str_bytes k)" if "c \<in> {ch CHR ''&'', ch CHR ''='', 0}" for c
      using url_text_safe [of c strict "str_bytes k"] that k(1) by auto
    with k(2,3) show "pair_ok (ch CHR ''&'') [] strict kv" by (auto simp: pair_ok_def kv(1))
  qed
  have "value_ok (zbuf_init 128)" by (rule value_ok_init)
  from vars_loop_pairs [of "ch CHR ''&''" "[]" "[]" ?kvs strict "zbuf_init 128" "[]", OF _ _ _ _ ok this] assms(1)
  have run: "vars_loop (ch CHR ''&'') [] [] (zbuf_init 128) (vars_text [ch CHR ''&''] strict ?kvs) vs
      = Some (fold (\<lambda>(k, v). obj_put k v) d vs)" for vs
    by (simp add: fold_map comp_def split_def)
  from puts_sorted [of "[]" d] assms(2) show ?thesis unfolding tx zurl_query_parse_def by (simp add: run)
qed

theorem zurl_query_roundtrip_witness:
  "zurl_query_parse (zbuf_bytes (zurl_query_build [(cs [97], [38, 61, 37]), (cs [98], [])] (zbuf_init 8) True)) None
     = Some [(cs [97], [38, 61, 37]), (cs [98], [])]"
proof -
  have "sorted_wrt (<) (map fst [(cs [97], [38, 61, 37 :: byte]), (cs [98], [])])" by (simp add: less_cstring_def)
  moreover have "url_text True [97] = [97]" "url_text True [98] = [98]" by (simp_all add: url_text_def url_char_def isalnum_def ch_def)
  ultimately show ?thesis
    using zurl_query_roundtrip [of "[(cs [97], [38, 61, 37]), (cs [98], [])]" True "zbuf_init 8" "[]"] value_ok_init [of 8]
    by (simp add: tolower_def ch_def)
qed

text \<open>\<open>zhttp_cookie_parse\<close> on a list of cookies, separated by semicolons with or without blanks, sets every
  name to its decoded value; the last one of the same name counts.\<close>

theorem zhttp_cookie_parse_spec:
  assumes "kvs \<noteq> []" "\<forall>kv \<in> set kvs. pair_ok (ch CHR '';'') [32, 9] strict kv" "set w \<subseteq> {32, 9}" "set u \<subseteq> {32, 9}"
  shows "zhttp_cookie_parse (u @ vars_text (ch CHR '';'' # w) strict kvs) (Some cookies)
    = Some (fold (\<lambda>(k, v). obj_put (cs k) v) kvs cookies)"
  unfolding zhttp_cookie_parse_def option.case
  using vars_loop_pairs [of "ch CHR '';''" w "[32, 9]" kvs strict "zbuf_init 128" u] assms value_ok_init [of 128]
  by (simp add: ch_def)

end
