(* ===== verification/Entities.thy ===== *)
theory Entities
  imports Chars Dict JsonText
begin

text \<open>
  Three small decoders: numeric character references to UTF-8 (\<open>src/encode/ncr.c\<close>), XML entities
  (\<open>src/xml/utils.c\<close>) and uuencoded data (\<open>src/encode/uu.c\<close>).
\<close>

section \<open>Character references\<close>

text \<open>The bytes stored through \<open>wchar\<close>; the returned length is their number.\<close>

definition zncr_decode :: "int \<Rightarrow> bytes" where
  "zncr_decode ins =
     (if ins < 128 then [word_of_int ins]
      else if ins < 2048 then [word_of_int (drop_bit 6 ins + 192), word_of_int ((ins AND 63) + 128)]
      else if ins < 65536 then
        [word_of_int (drop_bit 12 ins + 224), word_of_int ((drop_bit 6 ins AND 63) + 128), word_of_int ((ins AND 63) + 128)]
      else if ins < 2097152 then
        [word_of_int (drop_bit 18 ins + 240), word_of_int ((drop_bit 12 ins AND 63) + 128),
         word_of_int ((drop_bit 6 ins AND 63) + 128), word_of_int ((ins AND 63) + 128)]
      else [])"

section \<open>XML entities\<close>

text \<open>A pointer is the memory from there, \<open>lft\<close> is \<open>end - ps\<close>. \<open>None\<close> is a read outside of the memory.
  The number of a reference is an \<open>int\<close> that wraps around.\<close>

fun xml_digits :: "32 word \<Rightarrow> 32 word \<Rightarrow> bytes \<Rightarrow> int \<Rightarrow> (32 word \<times> bytes \<times> int) option" where
  "xml_digits u x [] lft = (if lft > 0 then None else Some (u, [], lft))"
| "xml_digits u x (c # m) lft =
     (if lft > 0 then
        if c = ch CHR '';'' then Some (u, c # m, lft)
        else xml_digits (u * x + ucast (zhexval c)) x m (lft - 1)
      else Some (u, c # m, lft))"

definition xml_number :: "zbuf \<Rightarrow> bytes \<Rightarrow> int \<Rightarrow> (zbuf \<times> bytes \<times> int) option" where
  "xml_number content m lft =
     (case m of [] \<Rightarrow> None
      | c # m1 \<Rightarrow>
          map_option (\<lambda>(u, m2, lft2). (let w = zncr_decode (sint u) in
              if length w > 0 then zbuf_memcat content w (int (length w)) else content, m2, lft2))
            (if c = ch CHR ''x'' \<or> c = ch CHR ''X'' then xml_digits 0 16 m1 (lft - 1) else xml_digits 0 10 m lft))"

text \<open>\<open>strncmp(ps, lit, strlen(lit))\<close>; the memory is a string with its NUL.\<close>

fun strn_eq :: "bytes \<Rightarrow> bytes \<Rightarrow> bool option" where
  "strn_eq m [] = Some True"
| "strn_eq [] (x # lit) = None"
| "strn_eq (y # m) (x # lit) = (if y = x then strn_eq m lit else Some False)"

fun xml_names :: "(bytes \<times> byte) list \<Rightarrow> bytes \<Rightarrow> (nat \<times> byte) option" where
  "xml_names [] m = Some (0, 0)"
| "xml_names ((lit, c) # names) m =
     Option.bind (strn_eq m lit) (\<lambda>b. if b then Some (length lit, c) else xml_names names m)"

definition xml_entities :: "(bytes \<times> byte) list" where
  "xml_entities = [(cstr ''lt;'', ch CHR ''<''), (cstr ''gt;'', ch CHR ''>''), (cstr ''amp;'', ch CHR ''&''),
     (cstr ''apos;'', 39), (cstr ''quot;'', 34)]"

lemma xml_digits_left: "xml_digits u x m lft = Some (v, m', lft') \<Longrightarrow> lft' \<le> lft"
  by (induction u x m lft rule: xml_digits.induct) (force split: if_splits)+

lemma xml_number_left: "xml_number content m lft = Some (content', m', lft') \<Longrightarrow> lft' \<le> lft"
  using xml_digits_left by (fastforce simp: xml_number_def split: list.splits if_splits)

function xml_loop :: "zbuf \<Rightarrow> bytes \<Rightarrow> int \<Rightarrow> zbuf option" where
  "xml_loop content m lft =
     (if lft \<le> 0 then Some content
      else case m of [] \<Rightarrow> None
      | c # m1 \<Rightarrow>
          if c = ch CHR ''<'' then Some content
          else if c = ch CHR ''&'' then
            (case m1 of [] \<Rightarrow> None
             | c1 # m2 \<Rightarrow>
                 if c1 = ch CHR ''#'' then
                   (case xml_number content m2 (lft - 2) of None \<Rightarrow> None
                    | Some (content', m3, lft3) \<Rightarrow> xml_loop content' m3 lft3)
                 else
                   (case xml_names xml_entities m1 of None \<Rightarrow> None
                    | Some (n, c2) \<Rightarrow> xml_loop (if c2 \<noteq> 0 then zbuf_put content c2 else content) (drop n m1) (lft - 1 - int n)))
          else xml_loop (zbuf_put content c) m1 (lft - 1))"
  by pat_completeness auto
termination
  by (relation "measure (\<lambda>(content, m, lft). nat lft)") (auto dest!: xml_number_left)

declare xml_loop.simps [simp del]

definition zxml_unescape_string :: "zbuf \<Rightarrow> bytes \<Rightarrow> int \<Rightarrow> zbuf option" where
  "zxml_unescape_string content src n =
     xml_loop content src (if n < 0 then int (length (takeWhile (\<lambda>c. c \<noteq> 0) src)) else n)"

section \<open>uuencode\<close>

text \<open>Four characters give 24 bits; the bytes are written from the lowest one.\<close>

definition uu_group :: "byte \<Rightarrow> byte \<Rightarrow> byte \<Rightarrow> byte \<Rightarrow> bytes" where
  "uu_group a b c d =
     (let six = (\<lambda>x :: byte. (uint x - 32) AND 63);
          v = ((six a * 64 + six b) * 64 + six c) * 64 + six d
      in [word_of_int v, word_of_int (v div 256), word_of_int (v div 65536)])"

fun uu_loop :: "zbuf \<Rightarrow> bytes \<Rightarrow> zbuf" where
  "uu_loop str (a # b # c # d # e # s) = uu_loop (foldl zbuf_put str (uu_group a b c d)) (e # s)"
| "uu_loop str s = foldl zbuf_put str s"

definition zuudecode :: "bytes \<Rightarrow> int \<Rightarrow> zbuf \<Rightarrow> zbuf" where
  "zuudecode src src_size str = zbuf_terminate (uu_loop str (src_bytes src src_size))"

section \<open>UTF-8\<close>

text \<open>The number a sequence of UTF-8 bytes stands for, with the checks of the lead byte and of the
  continuation bytes.\<close>

definition cont_byte :: "byte \<Rightarrow> bool" where
  "cont_byte c \<longleftrightarrow> 128 \<le> c \<and> c < 192"

fun utf8_value :: "bytes \<Rightarrow> int option" where
  "utf8_value [a] = (if a < 128 then Some (uint a) else None)"
| "utf8_value [a, b] =
     (if 192 \<le> a \<and> a < 224 \<and> cont_byte b then Some ((uint a - 192) * 64 + (uint b - 128)) else None)"
| "utf8_value [a, b, c] =
     (if 224 \<le> a \<and> a < 240 \<and> cont_byte b \<and> cont_byte c
      then Some (((uint a - 224) * 64 + (uint b - 128)) * 64 + (uint c - 128)) else None)"
| "utf8_value [a, b, c, d] =
     (if 240 \<le> a \<and> a < 248 \<and> cont_byte b \<and> cont_byte c \<and> cont_byte d
      then Some ((((uint a - 240) * 64 + (uint b - 128)) * 64 + (uint c - 128)) * 64 + (uint d - 128)) else None)"
| "utf8_value _ = None"

lemma and_63: "i AND 63 = i mod (64 :: int)"
  using take_bit_eq_mask [of 6 i] by (simp add: take_bit_eq_mod mask_eq_exp_minus_1 and.commute)

lemma lead_byte:
  assumes "0 \<le> i" "i < n" "base + n \<le> 256" "0 \<le> base"
  shows "uint (word_of_int (i + base) :: byte) = i + base"
  using assms by (simp add: uint_word_of_int del: of_int_add)

lemma radix_64:
  "(u div 4096 * 64 + u div 64 mod 64) * 64 + u mod 64 = (u :: int)"
  "((u div 262144 * 64 + u div 4096 mod 64) * 64 + u div 64 mod 64) * 64 + u mod 64 = u"
proof -
  have e: "u div 4096 = u div 64 div 64" "u div 262144 = u div 4096 div 64" by (simp_all add: zdiv_zmult2_eq [symmetric])
  show s: "(u div 4096 * 64 + u div 64 mod 64) * 64 + u mod 64 = u" by (simp only: e(1) div_mult_mod_eq)
  have "u div 262144 * 64 + u div 4096 mod 64 = u div 4096" by (simp only: e(2) div_mult_mod_eq)
  with s show "((u div 262144 * 64 + u div 4096 mod 64) * 64 + u div 64 mod 64) * 64 + u mod 64 = u" by (simp only:)
qed

text \<open>The values of lead and continuation bytes.\<close>

lemma cont_value:
  "uint (word_of_int (i mod 64 + 128) :: byte) = i mod 64 + 128" "cont_byte (word_of_int (i mod 64 + 128))"
proof -
  show v: "uint (word_of_int (i mod 64 + 128) :: byte) = i mod 64 + 128" by (rule lead_byte [of _ 64]) auto
  show "cont_byte (word_of_int (i mod 64 + 128))"
    using pos_mod_bound [of 64 i] pos_mod_sign [of 64 i] by (simp add: cont_byte_def word_le_def word_less_def v del: of_int_add)
qed

lemma utf8_lead:
  assumes "0 \<le> a"
  shows "a < 128 \<Longrightarrow> utf8_value [word_of_int a] = Some a"
    "a < 32 \<Longrightarrow> utf8_value [word_of_int (a + 192), word_of_int (i mod 64 + 128)] = Some (a * 64 + i mod 64)"
    "a < 16 \<Longrightarrow> utf8_value [word_of_int (a + 224), word_of_int (i mod 64 + 128), word_of_int (j mod 64 + 128)]
      = Some ((a * 64 + i mod 64) * 64 + j mod 64)"
    "a < 8 \<Longrightarrow> utf8_value [word_of_int (a + 240), word_of_int (i mod 64 + 128), word_of_int (j mod 64 + 128), word_of_int (k mod 64 + 128)]
      = Some (((a * 64 + i mod 64) * 64 + j mod 64) * 64 + k mod 64)"
  using assms lead_byte [of a 128 0] lead_byte [of a 32 192] lead_byte [of a 16 224] lead_byte [of a 8 240]
  by (simp_all add: cont_value word_le_def word_less_def del: of_int_add)

lemma utf8_ncr:
  assumes "0 \<le> u" "u < 2097152"
  shows "utf8_value (zncr_decode u) = Some u"
proof -
  note bits = zncr_decode_def drop_bit_eq_div and_63
  consider "u < 128" | "128 \<le> u" "u < 2048" | "2048 \<le> u" "u < 65536" | "65536 \<le> u" by linarith
  then show ?thesis
  proof cases
    case 1
    then show ?thesis using utf8_lead(1) [OF assms(1)] by (simp add: bits)
  next
    case 2
    have z: "zncr_decode u = [word_of_int (u div 64 + 192), word_of_int (u mod 64 + 128)]"
      using 2 by (simp add: bits del: of_int_add)
    have "0 \<le> u div 64" "u div 64 < 32" using 2 by auto
    from utf8_lead(2) [OF this, of u] show ?thesis by (simp only: z div_mult_mod_eq)
  next
    case 3
    have z: "zncr_decode u = [word_of_int (u div 4096 + 224), word_of_int (u div 64 mod 64 + 128), word_of_int (u mod 64 + 128)]"
      using 3 by (simp add: bits del: of_int_add)
    have "0 \<le> u div 4096" "u div 4096 < 16" using 3 by auto
    from utf8_lead(3) [OF this, of "u div 64" u] show ?thesis by (simp only: z radix_64)
  next
    case 4
    have z: "zncr_decode u = [word_of_int (u div 262144 + 240), word_of_int (u div 4096 mod 64 + 128),
        word_of_int (u div 64 mod 64 + 128), word_of_int (u mod 64 + 128)]"
      using 4 assms by (simp add: bits del: of_int_add)
    have "0 \<le> u div 262144" "u div 262144 < 8" using 4 assms by auto
    from utf8_lead(4) [OF this, of "u div 4096" "u div 64" u] show ?thesis by (simp only: z radix_64)
  qed
qed

section \<open>Unescaping an escaped text\<close>

definition xml_esc :: "byte \<Rightarrow> bytes" where
  "xml_esc c = (if c = ch CHR ''<'' then cstr ''&lt;'' else if c = ch CHR ''>'' then cstr ''&gt;''
     else if c = ch CHR ''&'' then cstr ''&amp;'' else if c = 39 then cstr ''&apos;'' else if c = 34 then cstr ''&quot;'' else [c])"

lemma xml_loop_entity:
  assumes "(lit, c) \<in> set xml_entities" "0 \<le> n"
  shows "xml_loop b (ch CHR ''&'' # lit @ m) (1 + int (length lit) + n) = xml_loop (zbuf_put b c) m n"
proof -
  have h: "lit \<noteq> []" "hd lit \<noteq> ch CHR ''#''" "c \<noteq> 0" using assms(1) by (auto simp: xml_entities_def cstr_def ch_def)
  obtain c1 l2 where l: "lit = c1 # l2" using h(1) by (cases lit) auto
  have "xml_names xml_entities (lit @ m) = Some (length lit, c)"
    using assms(1) by (auto simp: xml_entities_def cstr_def ch_def)
  then show ?thesis using assms(2) h
    by (subst xml_loop.simps) (simp add: l ch_def)
qed

lemma xml_loop_char:
  "c \<noteq> ch CHR ''<'' \<Longrightarrow> c \<noteq> ch CHR ''&'' \<Longrightarrow> 0 \<le> n \<Longrightarrow> xml_loop b (c # m) (1 + n) = xml_loop (zbuf_put b c) m n"
  by (subst xml_loop.simps) simp

lemma xml_loop_esc:
  assumes "0 \<le> n"
  shows "xml_loop b (xml_esc c @ m) (int (length (xml_esc c)) + n) = xml_loop (zbuf_put b c) m n"
proof (cases "\<exists>lit. (lit, c) \<in> set xml_entities")
  case True
  then obtain lit where l: "(lit, c) \<in> set xml_entities" by blast
  then have "xml_esc c = ch CHR ''&'' # lit" by (auto simp: xml_entities_def xml_esc_def cstr_def ch_def)
  with xml_loop_entity [OF l assms, of b m] show ?thesis by simp
next
  case False
  then have "xml_esc c = [c]" "c \<noteq> ch CHR ''<''" "c \<noteq> ch CHR ''&''" by (auto simp: xml_entities_def xml_esc_def)
  with xml_loop_char [OF this(2,3) assms, of b m] show ?thesis by simp
qed

lemma xml_loop_text:
  "xml_loop b (concat (map xml_esc s) @ m) (int (length (concat (map xml_esc s)))) = Some (foldl zbuf_put b s)"
proof (induction s arbitrary: b)
  case Nil
  then show ?case by (subst xml_loop.simps) simp
next
  case (Cons c s)
  from xml_loop_esc [of "int (length (concat (map xml_esc s)))" b c "concat (map xml_esc s) @ m"] Cons [of "zbuf_put b c"]
  show ?case by simp
qed

section \<open>Numbers\<close>

lemma xml_digits_append:
  "ch CHR '';'' \<notin> set ds \<Longrightarrow> int (length ds) \<le> lft \<Longrightarrow>
   xml_digits u x (ds @ m) lft = xml_digits (foldl (\<lambda>u c. u * x + ucast (zhexval c)) u ds) x m (lft - int (length ds))"
  by (induction ds arbitrary: u lft) (auto simp: algebra_simps)

lemma dec_digit:
  assumes "m < 10"
  shows "ucast (zhexval (48 + of_nat m)) = (of_nat m :: 32 word)" "ch CHR '';'' \<noteq> 48 + of_nat m"
    "48 + of_nat m \<noteq> ch CHR ''x''" "48 + of_nat m \<noteq> ch CHR ''X''" "(0 :: byte) \<noteq> 48 + of_nat m"
proof -
  have c: "(48 + of_nat m :: byte) = of_nat (48 + m)" by simp
  have u: "uint (48 + of_nat m :: byte) = 48 + int m"
    unfolding c using assms by (simp add: unsigned_of_nat take_bit_nat_eq_self del: of_nat_add)
  have "isdigit (48 + of_nat m)" using assms by (simp add: class_ranges u)
  then have "zhexval (48 + of_nat m) = of_nat m" by (simp add: zhexval_eq digit_value_def)
  then show "ucast (zhexval (48 + of_nat m)) = (of_nat m :: 32 word)"
    using assms by (simp add: unsigned_of_nat take_bit_nat_eq_self)
  show "(0 :: byte) \<noteq> 48 + of_nat m" using u by auto
  show "ch CHR '';'' \<noteq> 48 + of_nat m" "48 + of_nat m \<noteq> ch CHR ''x''" "48 + of_nat m \<noteq> ch CHR ''X''"
    using assms by (auto simp: word_uint_eq_iff u) (simp_all add: ch_def)
qed

lemma dec_digits_value:
  "foldl (\<lambda>u c. u * 10 + ucast (zhexval c)) (0 :: 32 word) (dec_digits n) = of_nat n
   \<and> ch CHR '';'' \<notin> set (dec_digits n) \<and> dec_digits n \<noteq> [] \<and> hd (dec_digits n) \<notin> {ch CHR ''x'', ch CHR ''X''}
   \<and> 0 \<notin> set (dec_digits n)"
proof (induction n rule: dec_digits.induct)
  case (1 n)
  show ?case
  proof (cases "n < 10")
    case True
    then show ?thesis using dec_digit [of n] by (simp add: dec_digits.simps [of n])
  next
    case False
    have d: "dec_digits n = dec_digits (n div 10) @ [48 + of_nat (n mod 10)]" using False by (subst dec_digits.simps) simp
    have "(of_nat n :: 32 word) = of_nat (n div 10 * 10 + n mod 10)" by (simp only: div_mult_mod_eq)
    also have "\<dots> = of_nat (n div 10) * 10 + of_nat (n mod 10)" by (simp only: of_nat_add of_nat_mult of_nat_numeral)
    finally show ?thesis unfolding d using 1 [OF False] dec_digit [of "n mod 10"] by simp
  qed
qed

lemma xml_number_decimal:
  assumes "n < 2 ^ 31" "lft = int (length (dec_digits n)) + 1 + k" "0 \<le> k"
  shows "xml_number b (dec_digits n @ ch CHR '';'' # m) lft = Some
    (if zncr_decode (int n) = [] then b else zbuf_memcat b (zncr_decode (int n)) (int (length (zncr_decode (int n)))), ch CHR '';'' # m, 1 + k)"
proof -
  have d: "foldl (\<lambda>u c. u * 10 + ucast (zhexval c)) (0 :: 32 word) (dec_digits n) = of_nat n"
    "ch CHR '';'' \<notin> set (dec_digits n)" "dec_digits n \<noteq> []" "hd (dec_digits n) \<notin> {ch CHR ''x'', ch CHR ''X''}"
    using dec_digits_value [of n] by auto
  have x: "xml_digits 0 10 (dec_digits n @ ch CHR '';'' # m) lft = Some (of_nat n, ch CHR '';'' # m, 1 + k)"
    using xml_digits_append [OF d(2), of lft 0 10 "ch CHR '';'' # m"] assms(2,3) d(1) by simp
  have "sint (of_nat n :: 32 word) = int n"
    using assms(1) by (simp add: signed_of_nat signed_take_bit_int_eq_self)
  moreover obtain c ds where cd: "dec_digits n = c # ds" using d(3) by (cases "dec_digits n") auto
  ultimately show ?thesis using x d(4) by (simp add: xml_number_def cd Let_def)
qed

section \<open>Properties\<close>

text \<open>C38: \<open>zxml_unescape_string\<close> inverts the escaping of the five special characters, for every text; what is
  behind the given length is not touched.\<close>

theorem zxml_unescape_roundtrip:
  assumes "value_ok b"
  shows "\<exists>b'. zxml_unescape_string b (concat (map xml_esc s) @ m) (int (length (concat (map xml_esc s)))) = Some b'
    \<and> value_ok b' \<and> zbuf_bytes b' = zbuf_bytes b @ s"
proof -
  have b: "zbuf_ok b" "zbuf_cap b = None" using assms by (auto simp: value_ok_def)
  have "value_ok (foldl zbuf_put b s)" using b zb.ok_puts [of b s] zb.capacity_puts [of b s] by (simp add: value_ok_def)
  with zb.content_puts_growing [OF b, of s] show ?thesis by (simp add: zxml_unescape_string_def xml_loop_text)
qed

theorem zxml_unescape_roundtrip_witness:
  "\<exists>b'. zxml_unescape_string (zbuf_init 1) (cstr ''a&lt;b'') 6 = Some b' \<and> value_ok b' \<and> zbuf_bytes b' = cstr ''a<b''"
proof -
  have e: "concat (map xml_esc (cstr ''a<b'')) = cstr ''a&lt;b''" by (simp add: xml_esc_def cstr_def ch_def)
  have l: "length (cstr ''a&lt;b'') = 6" by (simp add: cstr_def)
  show ?thesis using zxml_unescape_roundtrip [OF value_ok_init [of 1], of "cstr ''a<b''" "[]", unfolded e l] by simp
qed

text \<open>A decimal character reference is replaced by the UTF-8 encoding of its number, but the semicolon
  that ends it stays in the text.\<close>

theorem zxml_reference_keeps_semicolon:
  assumes "value_ok b" "n < 2097152"
  shows "\<exists>b' w. zxml_unescape_string b (cstr ''&#'' @ dec_digits n @ [ch CHR '';'', 0]) (- 1) = Some b'
    \<and> zbuf_bytes b' = zbuf_bytes b @ w @ [ch CHR '';''] \<and> utf8_value w = Some (int n)"
proof -
  have b: "zbuf_ok b" "zbuf_cap b = None" using assms(1) by (auto simp: value_ok_def)
  let ?w = "zncr_decode (int n)" and ?m = "dec_digits n @ [ch CHR '';'', 0]"
  let ?b1 = "zbuf_memcat b ?w (int (length ?w))"
  have w: "utf8_value ?w = Some (int n)" by (rule utf8_ncr) (use assms(2) in auto)
  then have ne: "?w \<noteq> []" by auto
  have num: "xml_number b ?m (1 + int (length (dec_digits n))) = Some (?b1, [ch CHR '';'', 0], 1)"
    using xml_number_decimal [of n "1 + int (length (dec_digits n))" 0 b "[0]"] assms(2) ne by simp
  have z: "0 \<notin> set (dec_digits n)" using dec_digits_value [of n] by blast
  have len: "int (length (takeWhile (\<lambda>c. c \<noteq> 0) (cstr ''&#'' @ ?m))) = int (length (dec_digits n)) + 3"
  proof -
    have "cstr ''&#'' @ ?m = (cstr ''&#'' @ dec_digits n @ [ch CHR '';'']) @ 0 # []" by simp
    moreover have "0 \<notin> set (cstr ''&#'' @ dec_digits n @ [ch CHR '';''])" using z by (simp add: cstr_def ch_def)
    ultimately have "takeWhile (\<lambda>c. c \<noteq> 0) (cstr ''&#'' @ ?m) = cstr ''&#'' @ dec_digits n @ [ch CHR '';'']"
      using src_bytes_strlen [of "cstr ''&#'' @ dec_digits n @ [ch CHR '';'']" "[]"] by (simp add: src_bytes_def)
    then show ?thesis by (simp add: cstr_def)
  qed
  have "xml_loop b (cstr ''&#'' @ ?m) (int (length (dec_digits n)) + 3) = xml_loop ?b1 [ch CHR '';'', 0] 1"
    using num by (subst xml_loop.simps) (simp add: cstr_def ch_def)
  also have "\<dots> = xml_loop (zbuf_put ?b1 (ch CHR '';'')) [0] 0"
    using xml_loop_char [of "ch CHR '';''" 0 ?b1 "[0]"] by (simp add: ch_def)
  also have "\<dots> = Some (zbuf_put ?b1 (ch CHR '';''))" by (subst xml_loop.simps) simp
  finally have run: "zxml_unescape_string b (cstr ''&#'' @ ?m) (- 1) = Some (zbuf_put ?b1 (ch CHR '';''))"
    by (simp add: zxml_unescape_string_def len)
  note a = appends_memcat [OF b(1), of ?w "int (length ?w)"]
  from appends_growing [OF appends_trans [OF a appends_put [OF appends_ok [OF a], of "ch CHR '';''"]] b(2)] run w
  show ?thesis by auto
qed

end
