(* ===== verification/Pools.thy ===== *)
theory Pools
  imports Prelude "HOL-Library.Monad_Syntax"
begin

text \<open>
  Two allocators of \<open>src/malloc\<close>: the queue of equal elements (\<open>queue.c\<close>) and the greedy pool
  (\<open>greedy_mpool.c\<close>). Addresses are naturals, 0 is NULL; the addresses \<open>zmalloc\<close> returns are arguments.
  An access to a block that is not allocated is \<open>None\<close>.
\<close>

section \<open>Queue of elements\<close>

text \<open>\<open>mq_nodes\<close> is the memory of the blocks: the \<open>next\<close> field of each. The indices are \<open>short\<close>s; they are
  at most 4096, so they do not wrap. The size of an element is cut to a \<open>short\<close>, which is signed: from 32768
  on it is negative or too small.\<close>

record zmqueue =
  mq_head :: nat
  mq_tail :: nat
  head_put_idx :: nat
  tail_get_idx :: nat
  element_size :: int
  element_count_per_queue :: nat
  mq_nodes :: "nat \<rightharpoonup> nat"

abbreviation mq_header :: nat where "mq_header \<equiv> 8"

definition zmqueue_create :: "int \<Rightarrow> int \<Rightarrow> zmqueue" where
  "zmqueue_create esize count =
     (let c1 = (if count > 4096 then 4096 else count); c2 = (if c1 < 32 then 32 else c1)
      in \<lparr>mq_head = 0, mq_tail = 0, head_put_idx = 0, tail_get_idx = 0, element_size = sint (of_int esize :: 16 word),
          element_count_per_queue = nat c2, mq_nodes = Map.empty\<rparr>)"

definition mq_slot :: "zmqueue \<Rightarrow> nat \<Rightarrow> nat \<Rightarrow> int" where
  "mq_slot mq node idx = int node + int mq_header + element_size mq * int idx"

text \<open>\<open>a1\<close> and \<open>a2\<close> are what the first and the second call of \<open>zmalloc\<close> return.\<close>

definition zmqueue_require_and_push :: "zmqueue \<Rightarrow> nat \<Rightarrow> nat \<Rightarrow> (zmqueue \<times> int) option" where
  "zmqueue_require_and_push mq a1 a2 = do {
     let mq1 = (if mq_tail mq = 0 then mq\<lparr>mq_nodes := (mq_nodes mq)(a1 \<mapsto> 0), mq_head := a1, mq_tail := a1\<rparr> else mq);
     mq2 \<leftarrow> (if tail_get_idx mq1 \<ge> element_count_per_queue mq1 then
               (case mq_nodes mq1 (mq_tail mq1) of
                  None \<Rightarrow> None
                | Some _ \<Rightarrow> Some (mq1\<lparr>mq_nodes := (mq_nodes mq1)(a2 \<mapsto> 0, mq_tail mq1 \<mapsto> a2), mq_tail := a2, tail_get_idx := 0\<rparr>))
             else Some mq1);
     Some (mq2\<lparr>tail_get_idx := tail_get_idx mq2 + 1\<rparr>, mq_slot mq2 (mq_tail mq2) (tail_get_idx mq2)) }"

definition zmqueue_release_and_shift :: "zmqueue \<Rightarrow> zmqueue option" where
  "zmqueue_release_and_shift mq =
     (if mq_head mq = 0 then Some mq
      else let mq1 = mq\<lparr>head_put_idx := head_put_idx mq + 1\<rparr> in
        if mq_head mq1 \<noteq> mq_tail mq1 then
          if head_put_idx mq1 \<ge> element_count_per_queue mq1 then do {
            node \<leftarrow> mq_nodes mq1 (mq_head mq1);
            let mq2 = mq1\<lparr>mq_nodes := (mq_nodes mq1)(mq_head mq1 := None), mq_head := node\<rparr>;
            let mq3 = (if mq_head mq2 = 0 then mq2\<lparr>mq_tail := 0\<rparr> else mq2);
            Some (mq3\<lparr>head_put_idx := 0\<rparr>) }
          else Some mq1
        else if head_put_idx mq1 \<ge> tail_get_idx mq1
        then Some (mq1\<lparr>mq_nodes := (mq_nodes mq1)(mq_head mq1 := None), mq_head := 0, mq_tail := 0,
                       head_put_idx := 0, tail_get_idx := 0\<rparr>)
        else Some mq1)"

definition zmqueue_get_head :: "zmqueue \<Rightarrow> int" where
  "zmqueue_get_head mq = (if mq_head mq = 0 then 0 else mq_slot mq (mq_head mq) (head_put_idx mq))"

text \<open>\<open>zmqueue_free\<close> up to the release of the queue itself: the blocks that stay allocated.\<close>

partial_function (option) mq_free_loop :: "(nat \<rightharpoonup> nat) \<Rightarrow> nat \<Rightarrow> (nat \<rightharpoonup> nat) option" where
  "mq_free_loop h node =
     (if node = 0 then Some h else Option.bind (h node) (\<lambda>next. mq_free_loop (h(node := None)) next))"

definition zmqueue_free :: "zmqueue \<Rightarrow> (nat \<rightharpoonup> nat) option" where
  "zmqueue_free mq = mq_free_loop (mq_nodes mq) (mq_head mq)"

section \<open>Greedy pool\<close>

text \<open>The lists of blocks, in order, with the number of bytes used in each; a direct block has its own length.\<close>

record greedy_pool =
  gp_ones :: "(nat \<times> nat) list"
  gp_direct :: "(nat \<times> nat) list"
  single_buf_size :: nat
  once_malloc_max_size :: nat

abbreviation one_header :: nat where "one_header \<equiv> 24"
abbreviation direct_header :: nat where "direct_header \<equiv> 16"

definition zmpool_create_greedy_pool :: "nat \<Rightarrow> nat \<Rightarrow> greedy_pool" where
  "zmpool_create_greedy_pool sz mx = \<lparr>gp_ones = [], gp_direct = [], single_buf_size = sz, once_malloc_max_size = mx\<rparr>"

definition zmem_greedy_pool_malloc :: "greedy_pool \<Rightarrow> int \<Rightarrow> nat \<Rightarrow> greedy_pool \<times> nat" where
  "zmem_greedy_pool_malloc mp len0 a =
     (let len = nat (if len0 < 1 then 1 else len0) in
      if len > once_malloc_max_size mp
      then (mp\<lparr>gp_direct := gp_direct mp @ [(a, len)]\<rparr>, a + direct_header)
      else
        let ones = (if gp_ones mp = [] \<or> int len > int (single_buf_size mp) - int (snd (last (gp_ones mp)))
                    then gp_ones mp @ [(a, 0)] else gp_ones mp);
            (one, used) = last ones
        in (mp\<lparr>gp_ones := butlast ones @ [(one, used + len)]\<rparr>, one + one_header + used))"

text \<open>Both loops take the blocks from the head of their list and release them.\<close>

definition zmem_greedy_pool_reset :: "greedy_pool \<Rightarrow> greedy_pool \<times> nat list" where
  "zmem_greedy_pool_reset mp = (mp\<lparr>gp_ones := [], gp_direct := []\<rparr>, map fst (gp_ones mp) @ map fst (gp_direct mp))"

section \<open>The queue is first in, first out\<close>

fun mq_chain :: "(nat \<rightharpoonup> nat) \<Rightarrow> nat list \<Rightarrow> bool" where
  "mq_chain h [] = True"
| "mq_chain h [n] = (h n = Some 0)"
| "mq_chain h (n # m # ns) = (h n = Some m \<and> mq_chain h (m # ns))"

text \<open>The blocks of a queue are linked in order, and nothing else is allocated. The head block has a slot in
  use, every block but the last one is full.\<close>

definition mq_ok :: "zmqueue \<Rightarrow> nat list \<Rightarrow> bool" where
  "mq_ok mq ns \<longleftrightarrow> mq_chain (mq_nodes mq) ns \<and> distinct ns \<and> 0 \<notin> set ns \<and> dom (mq_nodes mq) = set ns
     \<and> mq_head mq = (if ns = [] then 0 else hd ns) \<and> mq_tail mq = (if ns = [] then 0 else last ns)
     \<and> 0 < element_count_per_queue mq
     \<and> (if ns = [] then head_put_idx mq = 0 \<and> tail_get_idx mq = 0
        else tail_get_idx mq \<le> element_count_per_queue mq \<and> 0 < tail_get_idx mq
          \<and> (if tl ns = [] then head_put_idx mq < tail_get_idx mq else head_put_idx mq < element_count_per_queue mq))"

definition block_slots :: "nat \<Rightarrow> nat \<Rightarrow> (nat \<times> nat) list" where
  "block_slots k n = map (Pair n) [0..<k]"

definition mq_slots :: "zmqueue \<Rightarrow> nat list \<Rightarrow> (nat \<times> nat) list" where
  "mq_slots mq ns = (if ns = [] then [] else drop (head_put_idx mq)
     (concat (map (block_slots (element_count_per_queue mq)) (butlast ns)) @ block_slots (tail_get_idx mq) (last ns)))"

definition mq_holds :: "zmqueue \<Rightarrow> (nat \<times> nat) list \<Rightarrow> bool" where
  "mq_holds mq xs \<longleftrightarrow> (\<exists>ns. mq_ok mq ns \<and> xs = mq_slots mq ns)"

lemma length_block_slots [simp]: "length (block_slots k n) = k"
  by (simp add: block_slots_def)

lemma block_slots_Suc: "block_slots (Suc k) n = block_slots k n @ [(n, k)]"
  by (simp add: block_slots_def)

lemma mq_chain_upd: "a \<notin> set ns \<Longrightarrow> mq_chain (h(a := x)) ns = mq_chain h ns"
  by (induction h ns rule: mq_chain.induct) auto

lemma mq_chain_snoc:
  assumes "mq_chain h ns" "distinct ns" "ns \<noteq> []" "a \<notin> set ns"
  shows "mq_chain (h(a \<mapsto> 0, last ns \<mapsto> a)) (ns @ [a])"
  using assms
proof (induction h ns rule: mq_chain.induct)
  case (3 h n m ns)
  let ?g = "h(a \<mapsto> 0, last (m # ns) \<mapsto> a)"
  have c: "mq_chain ?g ((m # ns) @ [a])" using 3 by (simp del: last.simps fun_upd_apply)
  have "last (m # ns) \<in> set (m # ns)" by (rule last_in_set) simp
  then have "n \<noteq> a" "n \<noteq> last (m # ns)" using "3.prems"(2,4) by auto
  then have "?g n = Some m" using "3.prems"(1) by (simp del: last.simps)
  with c have "mq_chain ?g (n # m # ns @ [a])" by (simp del: last.simps fun_upd_apply)
  moreover have "last (n # m # ns) = last (m # ns)" by simp
  ultimately show ?case by (simp only: append_Cons)
qed auto

lemma mq_create_holds: "mq_holds (zmqueue_create esize count) []"
  unfolding mq_holds_def by (rule exI [of _ "[]"]) (simp add: mq_ok_def mq_slots_def zmqueue_create_def Let_def)

lemma mq_slots_fresh:
  assumes "mq_ok mq ns" "(n, i) \<in> set (mq_slots mq ns)"
  shows "n \<in> set ns" "i < element_count_per_queue mq" "n = last ns \<Longrightarrow> i < tail_get_idx mq"
proof -
  have ne: "ns \<noteq> []" using assms(2) by (auto simp: mq_slots_def)
  have "(n, i) \<in> set (concat (map (block_slots (element_count_per_queue mq)) (butlast ns))) \<union> set (block_slots (tail_get_idx mq) (last ns))"
    using assms(2) ne by (auto simp: mq_slots_def dest: in_set_dropD)
  then consider "n \<in> set (butlast ns)" "i < element_count_per_queue mq" | "n = last ns" "i < tail_get_idx mq"
    by (auto simp: block_slots_def)
  then have "n \<in> set ns \<and> i < element_count_per_queue mq \<and> (n = last ns \<longrightarrow> i < tail_get_idx mq)"
  proof cases
    case 1
    have "distinct (butlast ns @ [last ns])" using assms(1) ne by (simp add: mq_ok_def)
    then have "n \<noteq> last ns" using 1(1) by auto
    with 1 show ?thesis by (auto dest: in_set_butlastD)
  next
    case 2
    then show ?thesis using assms(1) ne by (auto simp: mq_ok_def)
  qed
  then show "n \<in> set ns" "i < element_count_per_queue mq" "n = last ns \<Longrightarrow> i < tail_get_idx mq" by auto
qed

lemma mq_push_tail:
  assumes "mq_ok mq ns" "ns \<noteq> []" "tail_get_idx mq < element_count_per_queue mq"
  shows "mq_ok (mq\<lparr>tail_get_idx := tail_get_idx mq + 1\<rparr>) ns"
    "mq_slots (mq\<lparr>tail_get_idx := tail_get_idx mq + 1\<rparr>) ns = mq_slots mq ns @ [(last ns, tail_get_idx mq)]"
proof -
  show "mq_ok (mq\<lparr>tail_get_idx := tail_get_idx mq + 1\<rparr>) ns" using assms by (auto simp: mq_ok_def)
  have "head_put_idx mq \<le> length (concat (map (block_slots (element_count_per_queue mq)) (butlast ns)) @ block_slots (tail_get_idx mq) (last ns))"
  proof (cases "tl ns = []")
    case True
    then show ?thesis using assms(1,2) by (auto simp: mq_ok_def)
  next
    case False
    then obtain n m r where ns: "ns = n # m # r" using assms(2) by (cases ns; cases "tl ns") auto
    then show ?thesis using assms(1) by (auto simp: mq_ok_def)
  qed
  then show "mq_slots (mq\<lparr>tail_get_idx := tail_get_idx mq + 1\<rparr>) ns = mq_slots mq ns @ [(last ns, tail_get_idx mq)]"
    using assms(2) by (simp add: mq_slots_def block_slots_Suc)
qed

text \<open>A new block at the end, with no slot in use yet.\<close>

lemma mq_push_block:
  assumes "mq_ok mq ns" "ns \<noteq> []" "tail_get_idx mq = element_count_per_queue mq" "a \<noteq> 0" "a \<notin> dom (mq_nodes mq)"
  defines "mq' \<equiv> mq\<lparr>mq_nodes := (mq_nodes mq)(a \<mapsto> 0, mq_tail mq \<mapsto> a), mq_tail := a, tail_get_idx := 1\<rparr>"
  shows "mq_ok mq' (ns @ [a])" "mq_slots mq' (ns @ [a]) = mq_slots mq ns @ [(a, 0)]"
proof -
  have ok: "mq_chain (mq_nodes mq) ns" "distinct ns" "0 \<notin> set ns" "dom (mq_nodes mq) = set ns" "mq_tail mq = last ns"
      "mq_head mq = hd ns" "0 < element_count_per_queue mq" "head_put_idx mq < element_count_per_queue mq"
    using assms(1-3) by (auto simp: mq_ok_def split: if_splits)
  have "tl (ns @ [a]) \<noteq> []" using assms(2) by (cases ns) auto
  moreover have "insert (last ns) (insert a (set ns)) = insert a (set ns)" using assms(2) by (simp add: insert_absorb insert_commute)
  ultimately show "mq_ok mq' (ns @ [a])"
    using mq_chain_snoc [OF ok(1,2) assms(2), of a] ok assms(2,4,5) by (auto simp: mq_ok_def mq'_def simp del: fun_upd_apply)
  have l: "ns = butlast ns @ [last ns]" using assms(2) by simp
  have "concat (map (block_slots k) ns) = concat (map (block_slots k) (butlast ns)) @ block_slots k (last ns)" for k
    by (subst l) (simp only: map_append concat_append list.map concat.simps append_Nil2)
  moreover have "head_put_idx mq \<le> length (concat (map (block_slots (element_count_per_queue mq)) (butlast ns)))
      + element_count_per_queue mq" using ok(8) by simp
  ultimately show "mq_slots mq' (ns @ [a]) = mq_slots mq ns @ [(a, 0)]"
    using assms(2,3) by (simp add: mq_slots_def mq'_def block_slots_def)
qed

lemma mq_push_holds:
  assumes "mq_holds mq xs" "a1 \<noteq> 0" "a1 \<notin> dom (mq_nodes mq)" "a2 \<noteq> 0" "a2 \<notin> dom (mq_nodes mq)"
  shows "\<exists>mq' n i. zmqueue_require_and_push mq a1 a2 = Some (mq', mq_slot mq n i) \<and> mq_holds mq' (xs @ [(n, i)])
    \<and> (n, i) \<notin> set xs \<and> dom (mq_nodes mq') \<in> {dom (mq_nodes mq), insert a1 (dom (mq_nodes mq)), insert a2 (dom (mq_nodes mq))}
    \<and> element_size mq' = element_size mq \<and> element_count_per_queue mq' = element_count_per_queue mq"
proof -
  from assms(1) obtain ns where ns: "mq_ok mq ns" "xs = mq_slots mq ns" by (auto simp: mq_holds_def)
  let ?c = "element_count_per_queue mq"
  show ?thesis
  proof (cases "ns = []")
    case True
    let ?m = "mq\<lparr>mq_nodes := (mq_nodes mq)(a1 \<mapsto> 0), mq_head := a1, mq_tail := a1, tail_get_idx := 1\<rparr>"
    have "zmqueue_require_and_push mq a1 a2 = Some (?m, mq_slot mq a1 0)"
      using ns(1) True by (simp add: zmqueue_require_and_push_def mq_ok_def mq_slot_def Let_def)
    moreover have "mq_ok ?m [a1]" "mq_slots ?m [a1] = [(a1, 0)]"
      using ns(1) True assms(2) by (auto simp: mq_ok_def mq_slots_def block_slots_def)
    then have "mq_holds ?m [(a1, 0)]" unfolding mq_holds_def by metis
    ultimately show ?thesis using ns True by (auto simp: mq_slots_def mq_ok_def)
  next
    case False
    then have "last ns \<in> set ns" by simp
    then have l: "last ns \<noteq> 0" using ns(1) unfolding mq_ok_def by metis
    have t: "mq_tail mq = last ns" "mq_tail mq \<noteq> 0" "mq_nodes mq (last ns) \<noteq> None" "tail_get_idx mq \<le> ?c" "0 < ?c"
      using ns(1) False l \<open>last ns \<in> set ns\<close> by (auto simp: mq_ok_def)
    show ?thesis
    proof (cases "tail_get_idx mq < ?c")
      case True
      let ?m = "mq\<lparr>tail_get_idx := tail_get_idx mq + 1\<rparr>"
      have "zmqueue_require_and_push mq a1 a2 = Some (?m, mq_slot mq (last ns) (tail_get_idx mq))"
        using True t by (simp add: zmqueue_require_and_push_def Let_def)
      moreover have "mq_holds ?m (xs @ [(last ns, tail_get_idx mq)])"
        using mq_push_tail [OF ns(1) False True] ns(2) unfolding mq_holds_def by metis
      moreover have "(last ns, tail_get_idx mq) \<notin> set xs"
        using mq_slots_fresh(3) [OF ns(1)] ns(2) by blast
      ultimately show ?thesis using True by auto
    next
      case full: False
      then have f: "tail_get_idx mq = ?c" using t(4) by simp
      let ?m = "mq\<lparr>mq_nodes := (mq_nodes mq)(a2 \<mapsto> 0, mq_tail mq \<mapsto> a2), mq_tail := a2, tail_get_idx := 1\<rparr>"
      have "zmqueue_require_and_push mq a1 a2 = Some (?m, mq_slot mq a2 0)"
        using f t by (auto simp: zmqueue_require_and_push_def mq_slot_def Let_def split: option.splits)
      moreover have "mq_holds ?m (xs @ [(a2, 0)])"
        using mq_push_block [OF ns(1) False f assms(4,5)] ns(2) unfolding mq_holds_def by metis
      moreover have "(a2, 0) \<notin> set xs"
        using mq_slots_fresh(1) [OF ns(1)] ns assms(5) by (auto simp: mq_ok_def)
      moreover have "dom (mq_nodes ?m) = insert a2 (dom (mq_nodes mq))" using t(1,3) by auto
      ultimately show ?thesis by (intro exI [of _ ?m] exI [of _ a2] exI [of _ 0]) simp
    qed
  qed
qed

definition mq_rest :: "zmqueue \<Rightarrow> nat list \<Rightarrow> (nat \<times> nat) list" where
  "mq_rest mq r = (if r = [] then [] else concat (map (block_slots (element_count_per_queue mq)) (butlast r)) @ block_slots (tail_get_idx mq) (last r))"

lemma mq_slots_rest: "ns \<noteq> [] \<Longrightarrow> mq_slots mq ns = drop (head_put_idx mq) (mq_rest mq ns)"
  by (simp add: mq_slots_def mq_rest_def del: drop_append)

lemma mq_rest_Cons:
  "mq_rest mq (n # r) = block_slots (if r = [] then tail_get_idx mq else element_count_per_queue mq) n @ mq_rest mq r"
  by (simp add: mq_rest_def)

lemma mq_shift_holds:
  assumes "mq_holds mq xs"
  shows "\<exists>mq'. zmqueue_release_and_shift mq = Some mq' \<and> mq_holds mq' (tl xs) \<and> dom (mq_nodes mq') \<subseteq> dom (mq_nodes mq)
    \<and> element_size mq' = element_size mq \<and> element_count_per_queue mq' = element_count_per_queue mq"
proof -
  from assms obtain ns where ns: "mq_ok mq ns" "xs = mq_slots mq ns" by (auto simp: mq_holds_def)
  let ?c = "element_count_per_queue mq"
  consider "ns = []" | n where "ns = [n]" | n m r where "ns = n # m # r" by (cases ns; cases "tl ns") auto
  then show ?thesis
  proof cases
    case 1
    then have "zmqueue_release_and_shift mq = Some mq" "tl xs = xs" using ns by (simp_all add: zmqueue_release_and_shift_def mq_ok_def mq_slots_def)
    then show ?thesis using assms by auto
  next
    case 2
    then have ok: "n \<noteq> 0" "mq_head mq = n" "mq_tail mq = n" "dom (mq_nodes mq) = {n}" "mq_nodes mq n = Some 0" "0 < ?c"
        "head_put_idx mq < tail_get_idx mq" "tail_get_idx mq \<le> ?c"
      using ns(1) by (auto simp: mq_ok_def)
    have sl: "tl xs = drop (Suc (head_put_idx mq)) (block_slots (tail_get_idx mq) n)"
      using ns(2) 2 by (simp add: mq_slots_rest mq_rest_Cons mq_rest_def [of _ "[]"] drop_Suc tl_drop)
    show ?thesis
    proof (cases "Suc (head_put_idx mq) = tail_get_idx mq")
      case True
      let ?m = "mq\<lparr>head_put_idx := 0, mq_nodes := (mq_nodes mq)(n := None), mq_head := 0, mq_tail := 0, tail_get_idx := 0\<rparr>"
      have "zmqueue_release_and_shift mq = Some ?m" using ok True by (simp add: zmqueue_release_and_shift_def Let_def)
      moreover have "mq_ok ?m []" using ok by (simp add: mq_ok_def)
      then have "mq_holds ?m []" unfolding mq_holds_def by (intro exI [of _ "[]"]) (simp add: mq_slots_def)
      moreover have "tl xs = []" using sl True by simp
      ultimately show ?thesis by auto
    next
      case False
      let ?m = "mq\<lparr>head_put_idx := Suc (head_put_idx mq)\<rparr>"
      have "zmqueue_release_and_shift mq = Some ?m" using ok False by (simp add: zmqueue_release_and_shift_def Let_def)
      moreover have "mq_ok ?m [n]" using ns(1) 2 False by (auto simp: mq_ok_def)
      then have "mq_holds ?m (tl xs)" unfolding mq_holds_def by (intro exI [of _ "[n]"]) (simp add: mq_slots_def sl)
      ultimately show ?thesis by auto
    qed
  next
    case 3
    let ?rest = "mq_rest mq (m # r)"
    have ok: "n \<noteq> 0" "m \<noteq> 0" "mq_head mq = n" "mq_tail mq = last (m # r)" "n \<noteq> last (m # r)" "mq_nodes mq n = Some m"
        "head_put_idx mq < ?c" "n \<notin> set (m # r)"
      using ns(1) 3 last_in_set [of "m # r"] by (auto simp: mq_ok_def)
    have sl: "tl xs = drop (Suc (head_put_idx mq)) (block_slots ?c n @ ?rest)"
      using ns(2) 3 by (simp add: mq_slots_rest mq_rest_Cons [of mq n] drop_Suc tl_drop del: drop_append)
    show ?thesis
    proof (cases "Suc (head_put_idx mq) = ?c")
      case True
      let ?m = "mq\<lparr>head_put_idx := 0, mq_nodes := (mq_nodes mq)(n := None), mq_head := m\<rparr>"
      have "zmqueue_release_and_shift mq = Some ?m" using ok True by (simp add: zmqueue_release_and_shift_def Let_def)
      moreover have "mq_ok ?m (m # r)"
        using ns(1) 3 mq_chain_upd [OF ok(8), of "mq_nodes mq" None] by (auto simp: mq_ok_def)
      then have "mq_holds ?m (tl xs)" unfolding mq_holds_def by (intro exI [of _ "m # r"]) (simp add: mq_slots_rest sl True, simp add: mq_rest_def)
      ultimately show ?thesis by auto
    next
      case False
      let ?m = "mq\<lparr>head_put_idx := Suc (head_put_idx mq)\<rparr>"
      have "zmqueue_release_and_shift mq = Some ?m" using ok False by (simp add: zmqueue_release_and_shift_def Let_def)
      moreover have "mq_ok ?m (n # m # r)" using ns(1) 3 False by (auto simp: mq_ok_def)
      then have "mq_holds ?m (tl xs)" unfolding mq_holds_def by (intro exI [of _ "n # m # r"]) (simp add: mq_slots_rest mq_rest_Cons [of _ n] sl del: drop_append, simp add: mq_rest_def)
      ultimately show ?thesis by auto
    qed
  qed
qed

lemma mq_get_head:
  assumes "mq_holds mq xs"
  shows "zmqueue_get_head mq = (case xs of [] \<Rightarrow> 0 | (n, i) # _ \<Rightarrow> mq_slot mq n i)"
proof -
  from assms obtain ns where ns: "mq_ok mq ns" "xs = mq_slots mq ns" by (auto simp: mq_holds_def)
  let ?c = "element_count_per_queue mq" and ?p = "head_put_idx mq"
  show ?thesis
  proof (cases ns)
    case Nil
    then show ?thesis using ns by (simp add: zmqueue_get_head_def mq_ok_def mq_slots_def)
  next
    case (Cons n r)
    define k where "k = (if r = [] then tail_get_idx mq else ?c)"
    have ok: "mq_head mq = n" "n \<noteq> 0" "?p < k" using ns(1) Cons by (auto simp: mq_ok_def k_def split: if_splits)
    have x: "xs = drop ?p (block_slots k n @ mq_rest mq r)"
      using ns(2) Cons by (simp only: mq_slots_rest list.simps not_False_eq_True mq_rest_Cons k_def)
    have "drop ?p (block_slots k n @ mq_rest mq r) = (n, ?p) # drop (Suc ?p) (block_slots k n @ mq_rest mq r)"
      using ok(3) Cons_nth_drop_Suc [of ?p "block_slots k n @ mq_rest mq r"]
      by (simp add: block_slots_def nth_append del: drop_append)
    then show ?thesis using ok(1,2) unfolding x zmqueue_get_head_def by (simp del: drop_append)
  qed
qed

lemma mq_free_all: "mq_ok mq ns \<Longrightarrow> zmqueue_free mq = Some Map.empty"
proof -
  have "mq_free_loop h (if ns = [] then 0 else hd ns) = Some Map.empty"
    if "mq_chain h ns" "distinct ns" "0 \<notin> set ns" "dom h = set ns" for h ns
    using that
  proof (induction ns arbitrary: h)
    case Nil
    then show ?case by (subst mq_free_loop.simps) simp
  next
    case (Cons n ns)
    have "h n = Some (if ns = [] then 0 else hd ns)" using Cons.prems(1) by (cases ns) auto
    moreover have "mq_chain (h(n := None)) ns"
      using Cons.prems(1,2) mq_chain_upd [of n ns h None] by (cases ns) auto
    moreover have "dom (h(n := None)) = set ns" using Cons.prems(2,4) by auto
    ultimately show ?case using Cons.IH [of "h(n := None)"] Cons.prems(2,3)
      by (subst mq_free_loop.simps) (simp del: fun_upd_apply split del: if_split)
  qed
  then show "mq_ok mq ns \<Longrightarrow> zmqueue_free mq = Some Map.empty" by (auto simp: zmqueue_free_def mq_ok_def)
qed

subsection \<open>The memory of the elements\<close>

text \<open>The memory of a block and of a slot. \<open>mq_queue mq rs\<close>: the slots in use, from the oldest, are at the
  addresses \<open>rs\<close>; the blocks are separate, and the slots lie behind the headers of allocated blocks and are
  separate.\<close>

definition mq_block :: "zmqueue \<Rightarrow> nat \<Rightarrow> int set" where
  "mq_block mq n = {int n..<int n + int mq_header + element_size mq * int (element_count_per_queue mq)}"

definition mq_element :: "zmqueue \<Rightarrow> int \<Rightarrow> int set" where
  "mq_element mq r = {r..<r + element_size mq}"

definition mq_inside :: "zmqueue \<Rightarrow> int \<Rightarrow> bool" where
  "mq_inside mq r \<longleftrightarrow> (\<exists>n \<in> dom (mq_nodes mq). mq_element mq r \<subseteq> mq_block mq n \<and> int n + int mq_header \<le> r)"

definition mq_apart :: "zmqueue \<Rightarrow> bool" where
  "mq_apart mq \<longleftrightarrow> (\<forall>n \<in> dom (mq_nodes mq). \<forall>m \<in> dom (mq_nodes mq). n \<noteq> m \<longrightarrow> mq_block mq n \<inter> mq_block mq m = {})"

definition mq_queue :: "zmqueue \<Rightarrow> int list \<Rightarrow> bool" where
  "mq_queue mq rs \<longleftrightarrow> 0 < element_size mq \<and> mq_apart mq \<and> (\<forall>r \<in> set rs. mq_inside mq r)
     \<and> sorted_wrt (\<lambda>r r'. mq_element mq r \<inter> mq_element mq r' = {}) rs
     \<and> (\<exists>xs. mq_holds mq xs \<and> distinct xs \<and> rs = map (\<lambda>(n, i). mq_slot mq n i) xs)"

text \<open>What \<open>zmalloc\<close> returns: a block that is separate from the allocated ones.\<close>

definition mq_fresh :: "zmqueue \<Rightarrow> nat \<Rightarrow> bool" where
  "mq_fresh mq a \<longleftrightarrow> a \<noteq> 0 \<and> (\<forall>n \<in> dom (mq_nodes mq). mq_block mq a \<inter> mq_block mq n = {})"

lemma mq_holds_slot:
  assumes "mq_holds mq xs" "(n, i) \<in> set xs"
  shows "n \<in> dom (mq_nodes mq)" "i < element_count_per_queue mq"
proof -
  obtain ns where ns: "mq_ok mq ns" "xs = mq_slots mq ns" using assms(1) by (auto simp: mq_holds_def)
  then have "(n, i) \<in> set (mq_slots mq ns)" using assms(2) by simp
  note f = mq_slots_fresh [OF ns(1) this]
  have "dom (mq_nodes mq) = set ns" using ns(1) unfolding mq_ok_def by blast
  then show "n \<in> dom (mq_nodes mq)" "i < element_count_per_queue mq" using f(1,2) by simp_all
qed

lemma mq_slot_inside:
  assumes "0 < element_size mq" "n \<in> dom (mq_nodes mq)" "i < element_count_per_queue mq"
  shows "mq_inside mq (mq_slot mq n i)" "mq_element mq (mq_slot mq n i) \<subseteq> mq_block mq n"
proof -
  have "0 \<le> element_size mq * int i" using assms(1) by simp
  moreover have "int i + 1 \<le> int (element_count_per_queue mq)" using assms(3) by simp
  then have "element_size mq * (int i + 1) \<le> element_size mq * int (element_count_per_queue mq)"
    using assms(1) by (intro mult_left_mono) simp_all
  then have "element_size mq * int i + element_size mq \<le> element_size mq * int (element_count_per_queue mq)"
    by (simp only: distrib_left mult_1_right)
  ultimately have "mq_element mq (mq_slot mq n i) \<subseteq> mq_block mq n" "int n + int mq_header \<le> mq_slot mq n i"
    by (auto simp: mq_element_def mq_block_def mq_slot_def)
  then show "mq_element mq (mq_slot mq n i) \<subseteq> mq_block mq n" "mq_inside mq (mq_slot mq n i)"
    unfolding mq_inside_def using assms(2) by blast+
qed

lemma mq_slots_apart:
  assumes "0 < element_size mq" "mq_apart mq" "n \<in> dom (mq_nodes mq)" "m \<in> dom (mq_nodes mq)"
    "i < element_count_per_queue mq" "j < element_count_per_queue mq" "(n, i) \<noteq> (m, j)"
  shows "mq_element mq (mq_slot mq n i) \<inter> mq_element mq (mq_slot mq m j) = {}"
proof (cases "n = m")
  case True
  have le: "element_size mq * int a + element_size mq \<le> element_size mq * int b" if "a < b" for a b
  proof -
    have "element_size mq * (int a + 1) \<le> element_size mq * int b" using assms(1) that by (intro mult_left_mono) simp_all
    then show ?thesis by (simp only: distrib_left mult_1_right)
  qed
  have "i < j \<or> j < i" using assms(7) True by auto
  then show ?thesis using le [of i j] le [of j i] True by (auto simp: mq_element_def mq_slot_def)
next
  case False
  then have "mq_block mq n \<inter> mq_block mq m = {}" using assms(2-4) by (simp add: mq_apart_def)
  then show ?thesis using mq_slot_inside(2) [OF assms(1,3,5)] mq_slot_inside(2) [OF assms(1,4,6)] by blast
qed

lemma mq_queueI:
  assumes "0 < element_size mq" "mq_apart mq" "mq_holds mq xs" "distinct xs"
  shows "mq_queue mq (map (\<lambda>(n, i). mq_slot mq n i) xs)"
proof -
  have "\<forall>r \<in> set (map (\<lambda>(n, i). mq_slot mq n i) xs). mq_inside mq r"
    using mq_slot_inside(1) [OF assms(1)] mq_holds_slot [OF assms(3)] by auto
  moreover have "mq_element mq (case xs ! a of (n, i) \<Rightarrow> mq_slot mq n i) \<inter> mq_element mq (case xs ! b of (n, i) \<Rightarrow> mq_slot mq n i) = {}"
    if "a < b" "b < length xs" for a b
  proof -
    obtain n i m j where x: "xs ! a = (n, i)" "xs ! b = (m, j)" by (metis surj_pair)
    have "(n, i) \<in> set xs" "(m, j) \<in> set xs" using that x by (metis nth_mem order_less_trans)+
    moreover have "(n, i) \<noteq> (m, j)" using that x assms(4) nth_eq_iff_index_eq [OF assms(4), of a b] by auto
    ultimately show ?thesis
      unfolding x prod.case by (intro mq_slots_apart [OF assms(1,2)] mq_holds_slot [OF assms(3)])
  qed
  then have "sorted_wrt (\<lambda>r r'. mq_element mq r \<inter> mq_element mq r' = {}) (map (\<lambda>(n, i). mq_slot mq n i) xs)"
    by (simp add: sorted_wrt_iff_nth_less)
  ultimately show ?thesis unfolding mq_queue_def using assms by blast
qed

lemma mq_same:
  assumes "element_size mq' = element_size mq" "element_count_per_queue mq' = element_count_per_queue mq"
  shows "mq_slot mq' = mq_slot mq" "mq_block mq' = mq_block mq" "mq_element mq' = mq_element mq"
  using assms by (simp_all add: fun_eq_iff mq_slot_def mq_block_def mq_element_def)

lemma mq_fresh_notin:
  assumes "mq_queue mq rs" "mq_fresh mq a"
  shows "a \<noteq> 0" "a \<notin> dom (mq_nodes mq)"
proof -
  have "0 < element_size mq" using assms(1) by (simp add: mq_queue_def)
  then have "0 \<le> element_size mq * int (element_count_per_queue mq)" by simp
  then have "int a \<in> mq_block mq a" by (simp add: mq_block_def)
  then show "a \<noteq> 0" "a \<notin> dom (mq_nodes mq)" using assms(2) unfolding mq_fresh_def by blast+
qed

lemma mq_queue_create:
  assumes "0 < esize" "esize < 2 ^ 15"
  shows "mq_queue (zmqueue_create esize count) []" "element_size (zmqueue_create esize count) = esize"
proof -
  show e: "element_size (zmqueue_create esize count) = esize"
    using assms by (simp add: zmqueue_create_def Let_def sint_word_ariths signed_of_int signed_take_bit_int_eq_self)
  have "mq_apart (zmqueue_create esize count)" by (simp add: mq_apart_def zmqueue_create_def Let_def)
  from mq_queueI [OF _ this mq_create_holds] e assms(1) show "mq_queue (zmqueue_create esize count) []" by simp
qed

lemma mq_queue_push:
  assumes "mq_queue mq rs" "mq_fresh mq a1" "mq_fresh mq a2"
  shows "\<exists>mq' r. zmqueue_require_and_push mq a1 a2 = Some (mq', r) \<and> mq_queue mq' (rs @ [r]) \<and> element_size mq' = element_size mq"
proof -
  from assms(1) obtain xs where q: "0 < element_size mq" "mq_apart mq" "mq_holds mq xs" "distinct xs" "rs = map (\<lambda>(n, i). mq_slot mq n i) xs"
    by (auto simp: mq_queue_def)
  from mq_push_holds [OF q(3) mq_fresh_notin [OF assms(1,2)] mq_fresh_notin [OF assms(1,3)]] obtain mq' n i where
    p: "zmqueue_require_and_push mq a1 a2 = Some (mq', mq_slot mq n i)" "mq_holds mq' (xs @ [(n, i)])" "(n, i) \<notin> set xs"
      "dom (mq_nodes mq') \<in> {dom (mq_nodes mq), insert a1 (dom (mq_nodes mq)), insert a2 (dom (mq_nodes mq))}"
      "element_size mq' = element_size mq" "element_count_per_queue mq' = element_count_per_queue mq" by blast
  note same = mq_same [OF p(5,6)]
  obtain a where a: "dom (mq_nodes mq') \<subseteq> insert a (dom (mq_nodes mq))" "mq_fresh mq a" using p(4) assms(2,3) by blast
  have "mq_apart mq'" unfolding mq_apart_def same
  proof (intro ballI impI)
    fix m n
    assume "m \<in> dom (mq_nodes mq')" "n \<in> dom (mq_nodes mq')" "m \<noteq> n"
    then consider "m \<in> dom (mq_nodes mq)" "n \<in> dom (mq_nodes mq)" | "m = a" "n \<in> dom (mq_nodes mq)" | "m \<in> dom (mq_nodes mq)" "n = a"
      using a(1) by blast
    then show "mq_block mq m \<inter> mq_block mq n = {}"
      by cases (use q(2) a(2) \<open>m \<noteq> n\<close> in \<open>unfold mq_apart_def mq_fresh_def, blast+\<close>)
  qed
  from mq_queueI [OF _ this p(2)] q(1,4) p(3,5) have "mq_queue mq' (rs @ [mq_slot mq n i])" by (simp add: q(5) same)
  with p(1,5) show ?thesis by blast
qed

lemma mq_queue_shift:
  assumes "mq_queue mq rs"
  shows "\<exists>mq'. zmqueue_release_and_shift mq = Some mq' \<and> mq_queue mq' (tl rs) \<and> element_size mq' = element_size mq"
proof -
  from assms(1) obtain xs where q: "0 < element_size mq" "mq_apart mq" "mq_holds mq xs" "distinct xs" "rs = map (\<lambda>(n, i). mq_slot mq n i) xs"
    by (auto simp: mq_queue_def)
  from mq_shift_holds [OF q(3)] obtain mq' where p: "zmqueue_release_and_shift mq = Some mq'" "mq_holds mq' (tl xs)"
    "dom (mq_nodes mq') \<subseteq> dom (mq_nodes mq)" "element_size mq' = element_size mq" "element_count_per_queue mq' = element_count_per_queue mq"
    by blast
  note same = mq_same [OF p(4,5)]
  have "mq_apart mq'" using p(3) q(2) unfolding mq_apart_def same by blast
  from mq_queueI [OF _ this p(2)] q(1,4) p(4) have "mq_queue mq' (tl rs)" by (simp add: q(5) same distinct_tl map_tl)
  with p(1,4) show ?thesis by blast
qed

section \<open>Regions of a greedy pool\<close>

definition region :: "nat \<Rightarrow> nat \<Rightarrow> nat set" where
  "region a n = {a..<a + n}"

definition disjoint_list :: "nat set list \<Rightarrow> bool" where
  "disjoint_list rs = sorted_wrt (\<lambda>r r'. r \<inter> r' = {}) rs"

text \<open>The memory \<open>zmalloc\<close> gave to the pool: a block has a header, the bytes and one more.\<close>

definition gp_blocks :: "greedy_pool \<Rightarrow> nat set list" where
  "gp_blocks mp = map (\<lambda>(a, u). region a (one_header + single_buf_size mp + 1)) (gp_ones mp)
     @ map (\<lambda>(a, n). region a (direct_header + n)) (gp_direct mp)"

definition in_pool :: "greedy_pool \<Rightarrow> nat \<times> nat \<Rightarrow> bool" where
  "in_pool mp x \<longleftrightarrow> (\<exists>(a, u) \<in> set (gp_ones mp). a + one_header \<le> fst x \<and> fst x + snd x \<le> a + one_header + u)
     \<or> (\<exists>(a, n) \<in> set (gp_direct mp). fst x = a + direct_header \<and> snd x = n)"

text \<open>\<open>gp_holds mp al\<close>: the blocks are separate, no block is used beyond its size, and the regions \<open>al\<close> that
  were handed out lie in the blocks and are separate.\<close>

definition gp_holds :: "greedy_pool \<Rightarrow> (nat \<times> nat) list \<Rightarrow> bool" where
  "gp_holds mp al \<longleftrightarrow> (\<forall>(a, u) \<in> set (gp_ones mp). u \<le> single_buf_size mp) \<and> disjoint_list (gp_blocks mp)
     \<and> disjoint_list (map (\<lambda>(r, n). region r n) al) \<and> (\<forall>x \<in> set al. in_pool mp x)"

definition block_size :: "greedy_pool \<Rightarrow> nat \<Rightarrow> nat" where
  "block_size mp n = (if n > once_malloc_max_size mp then direct_header + n else one_header + single_buf_size mp + 1)"

lemma region_disjoint: "region a n \<inter> region b m = {} \<longleftrightarrow> n = 0 \<or> m = 0 \<or> a + n \<le> b \<or> b + m \<le> a"
  by (auto simp: region_def)

lemma disjoint_list_snoc: "disjoint_list (rs @ [r]) \<longleftrightarrow> disjoint_list rs \<and> (\<forall>r' \<in> set rs. r' \<inter> r = {})"
  by (auto simp: disjoint_list_def sorted_wrt_append)

text \<open>A region of the pool lies in one of the blocks.\<close>

lemma in_pool_block:
  assumes "gp_holds mp al" "x \<in> set al"
  obtains b where "b \<in> set (gp_blocks mp)" "region (fst x) (snd x) \<subseteq> b"
proof -
  consider a u where "(a, u) \<in> set (gp_ones mp)" "a + one_header \<le> fst x" "fst x + snd x \<le> a + one_header + u" "u \<le> single_buf_size mp"
    | a n where "(a, n) \<in> set (gp_direct mp)" "fst x = a + direct_header" "snd x = n"
    using assms by (fastforce simp: gp_holds_def in_pool_def)
  then show ?thesis
  proof cases
    case 1
    show ?thesis
      by (rule that [of "region a (one_header + single_buf_size mp + 1)"]) (use 1 in \<open>force simp: gp_blocks_def region_def\<close>)+
  next
    case 2
    show ?thesis
      by (rule that [of "region a (direct_header + n)"]) (use 2 in \<open>force simp: gp_blocks_def region_def\<close>)+
  qed
qed

lemma gp_holds_direct:
  assumes "gp_holds mp al" "\<forall>b \<in> set (gp_blocks mp). region a (direct_header + n) \<inter> b = {}"
  shows "gp_holds (mp\<lparr>gp_direct := gp_direct mp @ [(a, n)]\<rparr>) (al @ [(a + direct_header, n)])"
proof -
  let ?mp = "mp\<lparr>gp_direct := gp_direct mp @ [(a, n)]\<rparr>"
  have "gp_blocks ?mp = gp_blocks mp @ [region a (direct_header + n)]" by (simp add: gp_blocks_def)
  then have "disjoint_list (gp_blocks ?mp)" using assms by (auto simp: disjoint_list_snoc gp_holds_def)
  moreover have "r \<inter> region (a + direct_header) n = {}" if "r \<in> set (map (\<lambda>(r, n). region r n) al)" for r
  proof -
    from that obtain x where x: "x \<in> set al" "r = region (fst x) (snd x)" by auto
    obtain b where "b \<in> set (gp_blocks mp)" "r \<subseteq> b" using in_pool_block [OF assms(1) x(1)] x(2) by blast
    moreover have "region (a + direct_header) n \<subseteq> region a (direct_header + n)" by (auto simp: region_def)
    ultimately show ?thesis using assms(2) by blast
  qed
  moreover have "in_pool ?mp x" if "in_pool mp x" for x using that by (auto simp: in_pool_def)
  moreover have "in_pool ?mp (a + direct_header, n)" by (auto simp: in_pool_def)
  ultimately show ?thesis using assms(1) by (auto simp: gp_holds_def disjoint_list_snoc)
qed

lemma gp_holds_block:
  assumes "gp_holds mp al" "gp_ones mp = ones @ [(a, u)]" "u + n \<le> single_buf_size mp"
  shows "gp_holds (mp\<lparr>gp_ones := ones @ [(a, u + n)]\<rparr>) (al @ [(a + one_header + u, n)])"
proof -
  let ?mp = "mp\<lparr>gp_ones := ones @ [(a, u + n)]\<rparr>" and ?B = "region a (one_header + single_buf_size mp + 1)"
  have b: "gp_blocks ?mp = gp_blocks mp" using assms(2) by (simp add: gp_blocks_def)
  have other: "b \<inter> ?B = {}" if "b \<in> set (map (\<lambda>(a, u). region a (one_header + single_buf_size mp + 1)) ones)
      \<or> b \<in> set (map (\<lambda>(a, n). region a (direct_header + n)) (gp_direct mp))" for b
    using assms(1) that by (auto simp: gp_holds_def gp_blocks_def disjoint_list_def sorted_wrt_append assms(2))
  have new: "region (a + one_header + u) n \<subseteq> ?B" using assms(3) by (auto simp: region_def)
  have "r \<inter> region (a + one_header + u) n = {}" if "r \<in> set (map (\<lambda>(r, n). region r n) al)" for r
  proof -
    from that obtain x where x: "x \<in> set al" "r = region (fst x) (snd x)" by auto
    then have "in_pool mp x" using assms(1) by (simp add: gp_holds_def)
    then consider a' u' where "(a', u') \<in> set ones" "a' + one_header \<le> fst x" "fst x + snd x \<le> a' + one_header + u'"
      | "fst x + snd x \<le> a + one_header + u"
      | a' n' where "(a', n') \<in> set (gp_direct mp)" "fst x = a' + direct_header" "snd x = n'"
      by (auto simp: in_pool_def assms(2))
    then show ?thesis
    proof cases
      case 1
      have "u' \<le> single_buf_size mp" using 1(1) assms(1) by (auto simp: gp_holds_def assms(2))
      then have "r \<subseteq> region a' (one_header + single_buf_size mp + 1)" using 1 x(2) by (auto simp: region_def)
      moreover have "region a' (one_header + single_buf_size mp + 1) \<inter> ?B = {}"
        using 1(1) by (intro other disjI1) force
      ultimately show ?thesis using new by blast
    next
      case 2
      then show ?thesis using x(2) by (auto simp: region_disjoint)
    next
      case 3
      have "r \<subseteq> region a' (direct_header + n')" using 3 x(2) by (auto simp: region_def)
      moreover have "region a' (direct_header + n') \<inter> ?B = {}" using 3(1) by (intro other disjI2) force
      ultimately show ?thesis using new by blast
    qed
  qed
  moreover have "in_pool ?mp x" if "in_pool mp x" for x using that by (fastforce simp: in_pool_def assms(2))
  moreover have "in_pool ?mp (a + one_header + u, n)" by (auto simp: in_pool_def)
  ultimately show ?thesis using assms(1,3) b by (auto simp: gp_holds_def disjoint_list_snoc assms(2))
qed

lemma gp_holds_new_block:
  assumes "gp_holds mp al" "\<forall>b \<in> set (gp_blocks mp). region a (one_header + single_buf_size mp + 1) \<inter> b = {}"
  shows "gp_holds (mp\<lparr>gp_ones := gp_ones mp @ [(a, 0)]\<rparr>) al"
proof -
  let ?mp = "mp\<lparr>gp_ones := gp_ones mp @ [(a, 0)]\<rparr>"
  have "disjoint_list (gp_blocks ?mp)"
    using assms by (fastforce simp: gp_holds_def gp_blocks_def disjoint_list_def sorted_wrt_append)
  moreover have "in_pool ?mp x" if "in_pool mp x" for x using that by (auto simp: in_pool_def)
  ultimately show ?thesis using assms(1) by (auto simp: gp_holds_def)
qed

section \<open>Properties\<close>

text \<open>C39: The queue of elements is first in, first out: \<open>zmqueue_require_and_push\<close> hands out the address of an
  element and appends it, \<open>zmqueue_get_head\<close> is the oldest address or NULL, \<open>zmqueue_release_and_shift\<close> gives up
  exactly that one, across the borders of the blocks, and \<open>zmqueue_free\<close> releases every block. At all times the
  elements in use lie inside of allocated blocks, behind the headers, and their memory is separate, provided that
  \<open>zmalloc\<close> returns memory that is separate from the blocks of the queue and that the size of an element is
  positive as a \<open>short\<close>, as it is after \<open>zmqueue_create\<close> with a size below 32768.\<close>

theorem zmqueue_fifo:
  assumes "mq_queue mq rs" "mq_fresh mq a1" "mq_fresh mq a2" "0 < esize \<and> esize < 2 ^ 15"
  shows "mq_queue (zmqueue_create esize count) [] \<and> element_size (zmqueue_create esize count) = esize
    \<and> (\<exists>mq' r. zmqueue_require_and_push mq a1 a2 = Some (mq', r) \<and> mq_queue mq' (rs @ [r]) \<and> element_size mq' = element_size mq)
    \<and> zmqueue_get_head mq = (case rs of [] \<Rightarrow> 0 | r # _ \<Rightarrow> r)
    \<and> (\<exists>mq'. zmqueue_release_and_shift mq = Some mq' \<and> mq_queue mq' (tl rs) \<and> element_size mq' = element_size mq)
    \<and> zmqueue_free mq = Some Map.empty"
proof -
  obtain xs where xs: "mq_holds mq xs" "rs = map (\<lambda>(n, i). mq_slot mq n i) xs" using assms(1) by (auto simp: mq_queue_def)
  have "zmqueue_free mq = Some Map.empty" using xs(1) mq_free_all by (auto simp: mq_holds_def)
  moreover have "zmqueue_get_head mq = (case rs of [] \<Rightarrow> 0 | r # _ \<Rightarrow> r)"
    using mq_get_head [OF xs(1)] by (simp add: xs(2) split: list.splits prod.splits)
  ultimately show ?thesis
    using mq_queue_create [of esize count] mq_queue_push [OF assms(1-3)] mq_queue_shift [OF assms(1)] assms(4) by blast
qed

theorem zmqueue_fifo_witness:
  "\<exists>mq' r. zmqueue_require_and_push (zmqueue_create 16 100) 4096 8192 = Some (mq', r)
     \<and> mq_queue mq' [r] \<and> element_size mq' = 16"
proof -
  have n: "mq_nodes (zmqueue_create 16 100) = Map.empty" by (simp add: zmqueue_create_def Let_def)
  have q: "mq_queue (zmqueue_create 16 100) []" "element_size (zmqueue_create 16 100) = 16" by (rule mq_queue_create; simp)+
  have "mq_fresh (zmqueue_create 16 100) 4096" "mq_fresh (zmqueue_create 16 100) 8192" by (simp_all add: mq_fresh_def n)
  from zmqueue_fifo [OF q(1) this, of 16 100] q(2) show ?thesis by auto
qed

text \<open>C40: The greedy pool, when no request taken from a block is larger than a block: the memory of every
  request (at least one byte) lies in a block of the pool and is separate from the memory of all earlier
  requests, provided that \<open>zmalloc\<close> returns memory that is separate from the blocks the pool already has.\<close>

theorem greedy_pool_separate:
  assumes "gp_holds mp al" "once_malloc_max_size mp \<le> single_buf_size mp"
    and "\<forall>b \<in> set (gp_blocks mp). region a (block_size mp (nat (max 1 n))) \<inter> b = {}"
    and "zmem_greedy_pool_malloc mp n a = (mp', r)"
  shows "gp_holds mp' (al @ [(r, nat (max 1 n))]) \<and> once_malloc_max_size mp' = once_malloc_max_size mp
    \<and> single_buf_size mp' = single_buf_size mp"
proof -
  let ?n = "nat (max 1 n)"
  have n: "nat (if n < 1 then 1 else n) = ?n" by auto
  show ?thesis
  proof (cases "?n > once_malloc_max_size mp")
    case True
    then have "mp' = mp\<lparr>gp_direct := gp_direct mp @ [(a, ?n)]\<rparr>" "r = a + direct_header"
      using assms(4) by (simp_all add: zmem_greedy_pool_malloc_def n Let_def)
    with gp_holds_direct [OF assms(1), of a ?n] assms(3) True show ?thesis by (simp add: block_size_def)
  next
    case False
    define ones where "ones = (if gp_ones mp = [] \<or> int ?n > int (single_buf_size mp) - int (snd (last (gp_ones mp)))
                    then gp_ones mp @ [(a, 0)] else gp_ones mp)"
    obtain one used where last: "last ones = (one, used)" by (cases "last ones")
    have ne: "ones \<noteq> []" by (simp add: ones_def)
    have res: "mp' = mp\<lparr>gp_ones := butlast ones @ [(one, used + ?n)]\<rparr>" "r = one + one_header + used"
      using assms(4) False last by (auto simp: zmem_greedy_pool_malloc_def n Let_def ones_def)
    have holds: "gp_holds (mp\<lparr>gp_ones := ones\<rparr>) al"
      using gp_holds_new_block [OF assms(1), of a] assms(1,3) False by (simp add: ones_def block_size_def)
    have o: "ones = butlast ones @ [(one, used)]" using append_butlast_last_id [OF ne] last by simp
    have "used + ?n \<le> single_buf_size mp"
    proof (cases "gp_ones mp = [] \<or> int ?n > int (single_buf_size mp) - int (snd (last (gp_ones mp)))")
      case True
      then show ?thesis using last False assms(2) by (auto simp: ones_def)
    next
      case False
      then have l: "last (gp_ones mp) = (one, used)" using last by (simp add: ones_def)
      from False have "\<not> int ?n > int (single_buf_size mp) - int (snd (last (gp_ones mp)))" by blast
      then show ?thesis unfolding l snd_conv by linarith
    qed
    with gp_holds_block [OF holds, of "butlast ones" one used ?n] o show ?thesis by (simp add: res)
  qed
qed

theorem greedy_pool_separate_witness:
  "gp_holds (fst (zmem_greedy_pool_malloc (zmpool_create_greedy_pool 100 50) 10 4096)) [(4096 + one_header, 10)]"
proof -
  have "gp_holds (zmpool_create_greedy_pool 100 50) []"
    by (simp add: gp_holds_def zmpool_create_greedy_pool_def gp_blocks_def disjoint_list_def)
  from greedy_pool_separate [OF this, of 4096 10] show ?thesis
    by (simp add: zmpool_create_greedy_pool_def gp_blocks_def zmem_greedy_pool_malloc_def)
qed

end
