(* ===== verification/MSearch.thy ===== *)
theory MSearch
  imports CdbBuild Strs "HOL-Library.Sublist"
begin

text \<open>
  The multi-pattern search of \<open>src/search/msearch.c\<close>: tokens are collected in a builder, laid out in one
  block of memory (the engine) that can be stored in a file, and searched in a text.

  The block is a list of bytes and pointers into it are offsets; an access outside of it is \<open>None\<close>, and
  so are \<open>zfatal\<close>, a division by zero and the use of a pointer into the block after the block may have
  moved. Integers in the block have the byte order of a little-endian machine. The two maps of the
  builder only hold keys; here they are the keys in the order of the map (the contract of \<open>zmap\<close>, theory
  \<open>MapProps\<close>).
\<close>

section \<open>Memory\<close>

definition mread :: "bytes \<Rightarrow> nat \<Rightarrow> nat \<Rightarrow> bytes option" where
  "mread m p n = (if p + n \<le> length m then Some (take n (drop p m)) else None)"

definition mwrite :: "bytes \<Rightarrow> nat \<Rightarrow> bytes \<Rightarrow> bytes option" where
  "mwrite m p bs = (if p + length bs \<le> length m then Some (take p m @ bs @ drop (p + length bs) m) else None)"

definition get_int :: "bytes \<Rightarrow> nat \<Rightarrow> 32 word option" where
  "get_int m p = map_option (\<lambda>bs. zint_unpack (rev bs)) (mread m p 4)"

definition put_int :: "bytes \<Rightarrow> nat \<Rightarrow> 32 word \<Rightarrow> bytes option" where
  "put_int m p v = mwrite m p (rev (zint_pack v))"

definition get_short :: "bytes \<Rightarrow> nat \<Rightarrow> 16 word option" where
  "get_short m p = map_option (\<lambda>bs. ucast (zint_unpack2 (rev bs))) (mread m p 2)"

definition put_short :: "bytes \<Rightarrow> nat \<Rightarrow> 16 word \<Rightarrow> bytes option" where
  "put_short m p v = mwrite m p (rev (zint_pack2 (ucast v)))"

section \<open>The builder\<close>

abbreviation MAX_LINE_SIZE :: nat where "MAX_LINE_SIZE \<equiv> 4096"

record ms_builder =
  a_flags :: bytes
  ab_data_tmp :: "bytes list"
  abc_data_tmp :: "bytes list"
  mem_data :: bytes
  mem_capability :: nat

text \<open>\<open>builder\<close> is NULL, one of the marks \<open>-1\<close> and \<open>-2\<close> of an engine that belongs to somebody else, or
  a pointer to a builder.\<close>

datatype ms_mode = BNull | BForeign | BMapped | Building ms_builder

record zmsearch =
  engine :: "bytes option"
  mode :: ms_mode

definition zmsearch_create :: zmsearch where
  "zmsearch_create =
     \<lparr>engine = None, mode = Building \<lparr>a_flags = replicate 256 0, ab_data_tmp = [], abc_data_tmp = [],
        mem_data = [], mem_capability = 0\<rparr>\<rparr>"

text \<open>\<open>zmap_update(map, key, 0, 0)\<close>: the key ends at its NUL.\<close>

definition key_put :: "bytes \<Rightarrow> bytes list \<Rightarrow> bytes list" where
  "key_put k ks = insort_insert (takeWhile (\<lambda>b. b \<noteq> 0) k) ks"

definition or_flag :: "byte \<Rightarrow> byte \<Rightarrow> ms_builder \<Rightarrow> ms_builder" where
  "or_flag c f b = b\<lparr>a_flags := (a_flags b)[unat c := (a_flags b ! unat c) OR f]\<rparr>"

definition zmsearch_add_token :: "zmsearch \<Rightarrow> bytes \<Rightarrow> int \<Rightarrow> zmsearch option" where
  "zmsearch_add_token ms word len0 =
     (if mode ms = BNull then None
      else let len = (if len0 < 0 then int (length (src_bytes word len0)) else len0) in
        if len < 1 then Some ms
        else if len > int MAX_LINE_SIZE then Some ms
        else if len > int (length word) then None
        else case mode ms of
          Building b \<Rightarrow>
            let k = take (nat len) word in
            if len = 1 then Some (ms\<lparr>mode := Building (or_flag (k ! 0) 0x01 b)\<rparr>)
            else if len = 2 then
              let b = or_flag (k ! 1) 0x04 (or_flag (k ! 0) 0x02 b)
              in Some (ms\<lparr>mode := Building (b\<lparr>ab_data_tmp := key_put k (ab_data_tmp b)\<rparr>)\<rparr>)
            else
              let b = or_flag (k ! 2) 0x20 (or_flag (k ! 1) 0x10 (or_flag (k ! 0) 0x08 b))
              in Some (ms\<lparr>mode := Building (b\<lparr>abc_data_tmp := key_put k (abc_data_tmp b)\<rparr>)\<rparr>)
        | _ \<Rightarrow> None)"

text \<open>A file of tokens, one a line: \<open>fgets\<close> with a buffer of 4096 bytes hands out the lines in pieces of
  at most 4095 bytes.\<close>

function fgets_lines :: "bytes \<Rightarrow> bytes list" where
  "fgets_lines s =
     (if s = [] then []
      else let n = min 4095 (length (takeWhile (\<lambda>b. b \<noteq> 10) s) + 1)
           in take n s # fgets_lines (drop n s))"
  by pat_completeness auto
termination by (relation "measure length") (auto simp: min_def)

declare fgets_lines.simps [simp del]

definition token_line :: "bytes \<Rightarrow> zmsearch \<Rightarrow> zmsearch option" where
  "token_line buf ms =
     (let ps = ztrim (takeWhile (\<lambda>b. b \<noteq> 0) buf) in
      if ps = [] then Some ms
      else if take 3 ps = cstr ''###'' then Some ms
      else zmsearch_add_token ms ps (- 1))"

text \<open>The argument is the content of the file, \<open>None\<close> when it does not open.\<close>

definition zmsearch_add_token_from_pathname :: "zmsearch \<Rightarrow> bytes option \<Rightarrow> (zmsearch \<times> int) option" where
  "zmsearch_add_token_from_pathname ms content =
     (case content of
        None \<Rightarrow> Some (ms, - 1)
      | Some c \<Rightarrow> map_option (\<lambda>ms. (ms, 1)) (foldM token_line (fgets_lines c) ms))"

section \<open>Laying out the engine\<close>

function mem_grow :: "nat \<Rightarrow> nat \<Rightarrow> nat \<Rightarrow> nat" where
  "mem_grow cap mem_len n = (if cap - mem_len < n then mem_grow (2 * cap + 1) mem_len n else cap)"
  by pat_completeness auto
termination by (relation "measure (\<lambda>(cap, mem_len, n). mem_len + n - cap)") auto

declare mem_grow.simps [simp del]

text \<open>The offset of the new piece, and whether the block was reallocated; a capacity beyond \<open>int\<close> is \<open>None\<close>.\<close>

definition mem_malloc :: "ms_builder \<Rightarrow> nat \<Rightarrow> (ms_builder \<times> nat \<times> bool) option" where
  "mem_malloc b n =
     (let cap = mem_grow (mem_capability b) (length (mem_data b)) n in
      if cap \<ge> 2 ^ 31 - 1 then None
      else Some (b\<lparr>mem_data := mem_data b @ replicate n 0, mem_capability := cap\<rparr>, length (mem_data b),
        cap \<noteq> mem_capability b))"

text \<open>A call of \<open>_mem_malloc\<close> between the computation of a pointer into the block and its use.\<close>

definition mem_malloc_held :: "ms_builder \<Rightarrow> nat \<Rightarrow> (ms_builder \<times> nat) option" where
  "mem_malloc_held b n = do {
     (b, p, moved) \<leftarrow> mem_malloc b n;
     (if moved then None else Some (b, p)) }"

definition bput :: "(bytes \<Rightarrow> bytes option) \<Rightarrow> ms_builder \<Rightarrow> ms_builder option" where
  "bput f b = map_option (\<lambda>m. b\<lparr>mem_data := m\<rparr>) (f (mem_data b))"

text \<open>The structure at the start of the block: 4 bytes of identification, 4 of version, the length at 8,
  256 flags at 12, then four integers; 284 bytes.\<close>

abbreviation eng_data_len :: nat where "eng_data_len \<equiv> 8"
abbreviation eng_a_data :: nat where "eng_a_data \<equiv> 12"
abbreviation eng_ab_data_offset :: nat where "eng_ab_data_offset \<equiv> 268"
abbreviation eng_ab_size :: nat where "eng_ab_size \<equiv> 272"
abbreviation eng_abc_data_offset :: nat where "eng_abc_data_offset \<equiv> 276"
abbreviation eng_abc_size :: nat where "eng_abc_size \<equiv> 280"
abbreviation sizeof_engine :: nat where "sizeof_engine \<equiv> 284"

definition zmsearch_add_over_1 :: "ms_builder \<Rightarrow> ms_builder option" where
  "zmsearch_add_over_1 b = do {
     (b, _, _) \<leftarrow> mem_malloc (b\<lparr>mem_capability := 1024 * 1024\<rparr>) sizeof_engine;
     bput (\<lambda>m. mwrite m eng_a_data (a_flags b)) b }"

text \<open>The byte at an index of a key, whose memory ends with its NUL.\<close>

definition key_char :: "bytes \<Rightarrow> nat \<Rightarrow> nat option" where
  "key_char w i = (if i < length w then Some (unat (w ! i)) else if i = length w then Some 0 else None)"

definition hv2 :: "bytes \<Rightarrow> nat option" where
  "hv2 w = do { c0 \<leftarrow> key_char w 0; c1 \<leftarrow> key_char w 1; Some (c0 * 256 + c1) }"

definition hv3 :: "bytes \<Rightarrow> nat option" where
  "hv3 w = do { c0 \<leftarrow> key_char w 0; c1 \<leftarrow> key_char w 1; c2 \<leftarrow> key_char w 2; Some ((c0 * 256 + c1) * 256 + c2) }"

text \<open>The address of entry \<open>i\<close> of the table whose offset stands at \<open>fld\<close>.\<close>

definition entry :: "bytes \<Rightarrow> nat \<Rightarrow> nat \<Rightarrow> nat option" where
  "entry m fld i = do { p \<leftarrow> get_int m fld; Some (unat p + 4 * i) }"

definition count_word :: "nat \<Rightarrow> (bytes \<Rightarrow> nat option) \<Rightarrow> nat \<Rightarrow> bytes \<Rightarrow> ms_builder \<Rightarrow> ms_builder option" where
  "count_word fld hvf siz word b = do {
     hv \<leftarrow> hvf word;
     p \<leftarrow> entry (mem_data b) fld (hv mod siz);
     n \<leftarrow> get_int (mem_data b) p;
     bput (\<lambda>m. put_int m p (n + 1)) b }"

definition ab_alloc :: "nat \<Rightarrow> ms_builder \<Rightarrow> ms_builder option" where
  "ab_alloc i b = do {
     p \<leftarrow> entry (mem_data b) eng_ab_data_offset i;
     n \<leftarrow> get_int (mem_data b) p;
     (if n \<noteq> 0 then do {
        (b, s) \<leftarrow> mem_malloc_held b (2 + 2 * unat n);
        b \<leftarrow> bput (\<lambda>m. put_int m p (of_nat s)) b;
        bput (\<lambda>m. put_short m s 0) b }
      else Some b) }"

definition ab_fill :: "nat \<Rightarrow> bytes \<Rightarrow> ms_builder \<Rightarrow> ms_builder option" where
  "ab_fill siz word b = do {
     hv \<leftarrow> hv2 word;
     p \<leftarrow> entry (mem_data b) eng_ab_data_offset (hv mod siz);
     s \<leftarrow> get_int (mem_data b) p;
     i \<leftarrow> get_short (mem_data b) (unat s);
     b \<leftarrow> bput (\<lambda>m. mwrite m (unat s + 2 + 2 * unat i) [of_nat (hv div 256), of_nat (hv mod 256)]) b;
     i \<leftarrow> get_short (mem_data b) (unat s);
     bput (\<lambda>m. put_short m (unat s) (i + 1)) b }"

definition zmsearch_add_over_2 :: "ms_builder \<Rightarrow> ms_builder option" where
  "zmsearch_add_over_2 b =
     (if ab_data_tmp b = [] then Some b
      else do {
        let siz = 2 * length (ab_data_tmp b) + 1;
        b \<leftarrow> bput (\<lambda>m. put_int m eng_ab_size (of_nat siz)) b;
        (b, p) \<leftarrow> mem_malloc_held b (4 * siz);
        b \<leftarrow> bput (\<lambda>m. put_int m eng_ab_data_offset (of_nat p)) b;
        b \<leftarrow> foldM (count_word eng_ab_data_offset hv2 siz) (ab_data_tmp b) b;
        b \<leftarrow> foldM ab_alloc [0..<siz] b;
        foldM (ab_fill siz) (ab_data_tmp b) b })"

text \<open>Tokens that continue another token are not needed: \<open>strncmp(last, word, llen)\<close> finds them in the
  ascending order of the map.\<close>

fun del_keys :: "bytes option \<Rightarrow> bytes list \<Rightarrow> bytes list \<Rightarrow> bytes list" where
  "del_keys lst [] del = del"
| "del_keys None (word # ws) del = del_keys (Some word) ws del"
| "del_keys (Some lst) (word # ws) del =
     (if bytes_cmp (take (length lst) lst) (take (length lst) word) = 0
      then del_keys (Some lst) ws (key_put word del)
      else del_keys (Some word) ws del)"

definition zmsearch_add_over_3_clear :: "ms_builder \<Rightarrow> ms_builder" where
  "zmsearch_add_over_3_clear b =
     b\<lparr>abc_data_tmp := foldl (\<lambda>ks w. filter (\<lambda>k. k \<noteq> w) ks) (abc_data_tmp b) (del_keys None (abc_data_tmp b) [])\<rparr>"

definition abc_alloc :: "nat \<Rightarrow> ms_builder \<Rightarrow> ms_builder option" where
  "abc_alloc i b = do {
     p \<leftarrow> entry (mem_data b) eng_abc_data_offset i;
     n \<leftarrow> get_int (mem_data b) p;
     (if n \<noteq> 0 then do {
        (b, s) \<leftarrow> mem_malloc_held b (4 + 4 * unat n);
        b \<leftarrow> bput (\<lambda>m. put_int m p (of_nat s)) b;
        bput (\<lambda>m. put_int m s 0) b }
      else Some b) }"

definition abc_fill :: "nat \<Rightarrow> bytes \<Rightarrow> ms_builder \<Rightarrow> ms_builder option" where
  "abc_fill siz word b = do {
     hv \<leftarrow> hv3 word;
     let len = length word;
     (b, off, _) \<leftarrow> mem_malloc b (2 + len);
     p \<leftarrow> entry (mem_data b) eng_abc_data_offset (hv mod siz);
     s \<leftarrow> get_int (mem_data b) p;
     i \<leftarrow> get_int (mem_data b) (unat s);
     b \<leftarrow> bput (\<lambda>m. put_int m (unat s + 4 + 4 * unat i) (of_nat off)) b;
     b \<leftarrow> bput (\<lambda>m. put_short m off (of_nat len)) b;
     b \<leftarrow> bput (\<lambda>m. mwrite m (off + 2) word) b;
     s \<leftarrow> get_int (mem_data b) p;
     i \<leftarrow> get_int (mem_data b) (unat s);
     bput (\<lambda>m. put_int m (unat s) (i + 1)) b }"

definition zmsearch_add_over_3 :: "ms_builder \<Rightarrow> ms_builder option" where
  "zmsearch_add_over_3 b =
     (if abc_data_tmp b = [] then Some b
      else do {
        let siz = 2 * length (abc_data_tmp b) + 1;
        b \<leftarrow> bput (\<lambda>m. put_int m eng_abc_size (of_nat siz)) b;
        (b, p, _) \<leftarrow> mem_malloc b (4 * siz);
        b \<leftarrow> bput (\<lambda>m. put_int m eng_abc_data_offset (of_nat p)) b;
        b \<leftarrow> foldM (count_word eng_abc_data_offset hv3 siz) (abc_data_tmp b) b;
        b \<leftarrow> foldM abc_alloc [0..<siz] b;
        foldM (abc_fill siz) (abc_data_tmp b) b })"

definition code_id :: bytes where "code_id = cstr ''ZMSH''"
definition code_version :: bytes where "code_version = [0, 1, 0, 1]"

definition zmsearch_add_over_finished :: "ms_builder \<Rightarrow> zmsearch option" where
  "zmsearch_add_over_finished b = do {
     let m = mem_data b;
     m \<leftarrow> put_int m eng_data_len (of_nat (length (mem_data b)));
     m \<leftarrow> mwrite m 0 code_id;
     m \<leftarrow> mwrite m 4 code_version;
     Some \<lparr>engine = Some m, mode = BNull\<rparr> }"

definition zmsearch_add_over :: "zmsearch \<Rightarrow> zmsearch option" where
  "zmsearch_add_over ms =
     (case mode ms of
        Building b \<Rightarrow> do {
          b \<leftarrow> zmsearch_add_over_1 b;
          b \<leftarrow> zmsearch_add_over_2 b;
          let b = zmsearch_add_over_3_clear b;
          b \<leftarrow> zmsearch_add_over_3 b;
          zmsearch_add_over_finished b }
      | _ \<Rightarrow> None)"

section \<open>Search\<close>

function ab_search :: "bytes \<Rightarrow> nat \<Rightarrow> nat \<Rightarrow> nat \<Rightarrow> nat \<Rightarrow> bool option" where
  "ab_search m base hv sti edi =
     (if sti < edi then
        let mdi = (sti + edi) div 2 in
        Option.bind (mread m (base + 2 * mdi) 2) (\<lambda>d.
          let v = unat (d ! 0) * 256 + unat (d ! 1) in
          if hv = v then Some True
          else if hv < v then ab_search m base hv sti (edi - 1)
          else ab_search m base hv (sti + 1) edi)
      else Some False)"
  by pat_completeness auto
termination by (relation "measure (\<lambda>(m, base, hv, sti, edi). edi - sti)") auto

declare ab_search.simps [simp del]

text \<open>The search among the tokens of one bucket; the result is the length of the token found.\<close>

function abc_search :: "bytes \<Rightarrow> nat \<Rightarrow> bytes \<Rightarrow> nat \<Rightarrow> nat \<Rightarrow> nat option option" where
  "abc_search m base ps sti edi =
     (if sti < edi then
        let mdi = (sti + edi) div 2 in
        Option.bind (get_int m (base + 4 * mdi)) (\<lambda>token.
        Option.bind (get_short m (unat token)) (\<lambda>tl.
        let tlen = nat (sint tl); plen = length ps in
        if int plen < sint tl then
          Option.bind (mread m (unat token + 2) plen) (\<lambda>tdata.
            if memcmp ps tdata plen \<le> 0 then abc_search m base ps sti mdi
            else abc_search m base ps (mdi + 1) edi)
        else
          Option.bind (mread m (unat token + 2) tlen) (\<lambda>tdata.
            let r = memcmp ps tdata tlen in
            if r = 0 then Some (Some tlen)
            else if r < 0 then abc_search m base ps sti mdi
            else abc_search m base ps (mdi + 1) edi)))
      else Some None)"
  by pat_completeness auto
termination by (relation "measure (\<lambda>(m, base, ps, sti, edi). edi - sti)") auto

declare abc_search.simps [simp del]

text \<open>One position of the text: \<open>Some (Some (r, len))\<close> returns \<open>r\<close> with \<open>*matched_len = len\<close>,
  \<open>Some None\<close> goes on.\<close>

definition flag_of :: "bytes \<Rightarrow> byte \<Rightarrow> byte option" where
  "flag_of m c = map_option hd (mread m (eng_a_data + unat c) 1)"

definition table_entry :: "bytes \<Rightarrow> nat \<Rightarrow> nat \<Rightarrow> nat \<Rightarrow> nat option" where
  "table_entry m fld szfld hv = do {
     siz \<leftarrow> get_int m szfld;
     (if siz = 0 then None
      else do {
        p \<leftarrow> entry m fld (nat (int hv mod \<bar>sint siz\<bar>));
        off \<leftarrow> get_int m p;
        Some (unat off) }) }"

definition match_ab :: "bytes \<Rightarrow> byte \<Rightarrow> bytes \<Rightarrow> bool option" where
  "match_ab m firstch ps =
     (if length ps > 1 \<and> firstch AND 0x02 \<noteq> 0 then do {
        f1 \<leftarrow> flag_of m (ps ! 1);
        (if f1 AND 0x04 \<noteq> 0 then do {
           let hv = unat (ps ! 0) * 256 + unat (ps ! 1);
           off \<leftarrow> table_entry m eng_ab_data_offset eng_ab_size hv;
           (if off = 0 then Some False
            else do {
              edi \<leftarrow> get_short m off;
              ab_search m (off + 2) hv 0 (nat (sint edi)) }) }
         else Some False) }
      else Some False)"

definition match_abc :: "bytes \<Rightarrow> byte \<Rightarrow> bytes \<Rightarrow> nat option option" where
  "match_abc m firstch ps =
     (if length ps > 2 \<and> firstch AND 0x08 \<noteq> 0 then do {
        f1 \<leftarrow> flag_of m (ps ! 1);
        (if f1 AND 0x10 \<noteq> 0 then do {
           f2 \<leftarrow> flag_of m (ps ! 2);
           (if f2 AND 0x20 \<noteq> 0 then do {
              let hv = (unat (ps ! 0) * 256 + unat (ps ! 1)) * 256 + unat (ps ! 2);
              off \<leftarrow> table_entry m eng_abc_data_offset eng_abc_size hv;
              (if off = 0 then Some None
               else do {
                 edi \<leftarrow> get_int m off;
                 abc_search m (off + 4) ps 0 (nat (sint edi)) }) }
            else Some None) }
         else Some None) }
      else Some None)"

definition match_at :: "bytes \<Rightarrow> bytes \<Rightarrow> (int \<times> nat) option option" where
  "match_at m ps = do {
     firstch \<leftarrow> flag_of m (hd ps);
     (if firstch AND 0x01 \<noteq> 0 then Some (Some (1, 1))
      else do {
        two \<leftarrow> match_ab m firstch ps;
        (if two then Some (Some (2, 2))
         else map_option (map_option (\<lambda>tlen. (1, tlen))) (match_abc m firstch ps)) }) }"

text \<open>The return value, and what is stored through \<open>matched_ptr\<close> (as an index) and \<open>matched_len\<close>.\<close>

fun match_loop :: "bytes \<Rightarrow> nat option \<Rightarrow> nat \<Rightarrow> bytes \<Rightarrow> (int \<times> nat option \<times> nat option) option" where
  "match_loop m ptr i [] = Some (0, ptr, None)"
| "match_loop m ptr i (c # ps) =
     Option.bind (match_at m (c # ps)) (\<lambda>r. case r of
       Some (ret, len) \<Rightarrow> Some (ret, Some i, Some len)
     | None \<Rightarrow> match_loop m (Some i) (i + 1) ps)"

definition zmsearch_match :: "zmsearch \<Rightarrow> bytes \<Rightarrow> int \<Rightarrow> (int \<times> nat option \<times> nat option) option" where
  "zmsearch_match ms str len =
     (let s = src_bytes str len in
      if s = [] then Some (0, None, None)
      else Option.bind (engine ms) (\<lambda>m. match_loop m None 0 s))"

section \<open>Compiled data\<close>

definition zmsearch_create_from_data :: "bytes \<Rightarrow> zmsearch option option" where
  "zmsearch_create_from_data d = do {
     cid \<leftarrow> mread d 0 4;
     (if memcmp cid code_id 4 \<noteq> 0 then Some None
      else do {
        ver \<leftarrow> mread d 4 4;
        (if memcmp ver code_version 4 \<noteq> 0 then Some None
         else Some (Some \<lparr>engine = Some d, mode = BForeign\<rparr>)) }) }"

text \<open>The argument is the mapped file, \<open>None\<close> when \<open>zmmap_reader_init\<close> fails.\<close>

definition zmsearch_create_from_pathname :: "bytes option \<Rightarrow> zmsearch option option" where
  "zmsearch_create_from_pathname content =
     (case content of
        None \<Rightarrow> Some None
      | Some d \<Rightarrow>
          if length d < 8 then Some None
          else do {
            cid \<leftarrow> mread d 0 4;
            (if memcmp cid code_id 4 \<noteq> 0 then Some None
             else do {
               ver \<leftarrow> mread d 4 4;
               (if memcmp ver code_version 4 \<noteq> 0 then Some None
                else Some (Some \<lparr>engine = Some d, mode = BMapped\<rparr>)) }) })"

definition zmsearch_get_compiled_data :: "zmsearch \<Rightarrow> bytes option" where
  "zmsearch_get_compiled_data ms = engine ms"

definition zmsearch_get_compiled_len :: "zmsearch \<Rightarrow> int option" where
  "zmsearch_get_compiled_len ms =
     (case engine ms of None \<Rightarrow> Some 0 | Some m \<Rightarrow> map_option sint (get_int m eng_data_len))"

text \<open>\<open>zmsearch_build\<close>: the bytes given to \<open>zfile_put_contents\<close>.\<close>

definition zmsearch_build :: "zmsearch \<Rightarrow> bytes option" where
  "zmsearch_build ms = do {
     m \<leftarrow> engine ms;
     n \<leftarrow> get_int m eng_data_len;
     mread m 0 (unat n) }"

section \<open>Walker\<close>

record ms_walker =
  w_stage :: int
  w_hv :: nat
  w_idx :: nat

definition walker_init :: ms_walker where
  "walker_init = \<lparr>w_stage = 0, w_hv = 0, w_idx = 0\<rparr>"

function walk_a :: "bytes \<Rightarrow> nat \<Rightarrow> nat option option" where
  "walk_a m hv =
     (if hv < 256 then
        Option.bind (mread m (eng_a_data + hv) 1) (\<lambda>f.
          if hd f AND 0x01 \<noteq> 0 then Some (Some hv) else walk_a m (hv + 1))
      else Some None)"
  by pat_completeness auto
termination by (relation "measure (\<lambda>(m, hv). 256 - hv)") auto

text \<open>The bucket and the index in it of the next token; \<open>walker->idx\<close> is only reset at an empty bucket.\<close>

function walk_ab :: "bytes \<Rightarrow> nat \<Rightarrow> nat \<Rightarrow> nat \<Rightarrow> (nat \<times> nat \<times> bytes) option option" where
  "walk_ab m siz hv idx =
     (if hv < siz then
        Option.bind (Option.bind (entry m eng_ab_data_offset hv) (get_int m)) (\<lambda>off.
          if off = 0 then walk_ab m siz (hv + 1) 0
          else Option.bind (get_short m (unat off)) (\<lambda>edi.
            if int idx < sint edi then
              map_option (\<lambda>t. Some (hv, idx + 1, t)) (mread m (unat off + 2 + 2 * idx) 2)
            else walk_ab m siz (hv + 1) idx))
      else Some None)"
  by pat_completeness auto
termination by (relation "measure (\<lambda>(m, siz, hv, idx). siz - hv)") auto

function walk_abc :: "bytes \<Rightarrow> nat \<Rightarrow> nat \<Rightarrow> nat \<Rightarrow> (nat \<times> nat \<times> bytes) option option" where
  "walk_abc m siz hv idx =
     (if hv < siz then
        Option.bind (Option.bind (entry m eng_abc_data_offset hv) (get_int m)) (\<lambda>off.
          if off = 0 then walk_abc m siz (hv + 1) 0
          else Option.bind (get_int m (unat off)) (\<lambda>edi.
            if int idx < sint edi then
              Option.bind (get_int m (unat off + 4 + 4 * idx)) (\<lambda>t.
              Option.bind (get_short m (unat t)) (\<lambda>tlen.
                map_option (\<lambda>w. Some (hv, idx + 1, w)) (mread m (unat t + 2) (nat (sint tlen)))))
            else walk_abc m siz (hv + 1) 0))
      else Some None)"
  by pat_completeness auto
termination by (relation "measure (\<lambda>(m, siz, hv, idx). siz - hv)") auto

declare walk_a.simps [simp del] walk_ab.simps [simp del] walk_abc.simps [simp del]

definition walk_stage_abc :: "bytes \<Rightarrow> ms_walker \<Rightarrow> (ms_walker \<times> bytes option) option" where
  "walk_stage_abc m w =
     (if w_stage w = 3 then do {
        siz \<leftarrow> get_int m eng_abc_size;
        r \<leftarrow> walk_abc m (nat (sint siz)) (w_hv w) (w_idx w);
        (case r of
           Some (hv, idx, t) \<Rightarrow> Some (w\<lparr>w_hv := hv, w_idx := idx\<rparr>, Some t)
         | None \<Rightarrow> Some (w\<lparr>w_stage := - 1\<rparr>, None)) }
      else Some (w, None))"

definition walk_stage_ab :: "bytes \<Rightarrow> ms_walker \<Rightarrow> (ms_walker \<times> bytes option) option" where
  "walk_stage_ab m w =
     (if w_stage w = 1 then do {
        siz \<leftarrow> get_int m eng_ab_size;
        r \<leftarrow> walk_ab m (nat (sint siz)) (w_hv w) (w_idx w);
        (case r of
           Some (hv, idx, t) \<Rightarrow> Some (w\<lparr>w_hv := hv, w_idx := idx\<rparr>, Some t)
         | None \<Rightarrow> walk_stage_abc m \<lparr>w_stage = 3, w_hv = 0, w_idx = 0\<rparr>) }
      else walk_stage_abc m w)"

text \<open>The walker and the token of the call, \<open>None\<close> when it returns 0.\<close>

definition zmsearch_walker_walk :: "zmsearch \<Rightarrow> ms_walker \<Rightarrow> (ms_walker \<times> bytes option) option" where
  "zmsearch_walker_walk ms w = do {
     m \<leftarrow> engine ms;
     (if w_stage w = 0 then do {
        r \<leftarrow> walk_a m (w_hv w);
        (case r of
           Some hv \<Rightarrow> Some (w\<lparr>w_hv := hv + 1\<rparr>, Some [of_nat hv])
         | None \<Rightarrow> walk_stage_ab m \<lparr>w_stage = 1, w_hv = 0, w_idx = 0\<rparr>) }
      else walk_stage_ab m w) }"

end
