(* ===== verification/MSearchMem.thy ===== *)
theory MSearchMem
  imports MSearch
begin

text \<open>
  Reasoning about the block of \<open>MSearch\<close>: what a read returns after a write or an allocation, and the
  first two passes over the tokens, which count the tokens of every bucket and reserve the buckets.
\<close>

section \<open>Reads and writes\<close>

lemma mwrite_SomeD:
  assumes "mwrite m p bs = Some m'"
  shows "length m' = length m" "p + length bs \<le> length m"
  using assms by (auto simp: mwrite_def split: if_splits)

lemma mwrite_ok: "p + length bs \<le> length m \<Longrightarrow> \<exists>m'. mwrite m p bs = Some m'"
  by (simp add: mwrite_def)

lemma mread_mwrite_same: "mwrite m p bs = Some m' \<Longrightarrow> mread m' p (length bs) = Some bs"
  by (auto simp: mwrite_def mread_def split: if_splits)

lemma mread_mwrite_other:
  assumes "mwrite m p bs = Some m'" "q + n \<le> p \<or> p + length bs \<le> q"
  shows "mread m' q n = mread m q n"
proof -
  have m': "m' = take p m @ bs @ drop (p + length bs) m" and le: "p + length bs \<le> length m"
    using assms(1) by (auto simp: mwrite_def split: if_splits)
  have len: "length m' = length m" using m' le by simp
  from assms(2) have "take n (drop q m') = take n (drop q m)" if "q + n \<le> length m"
  proof
    assume "q + n \<le> p"
    then show ?thesis using le by (simp add: m' take_drop add.commute)
  next
    assume q: "p + length bs \<le> q"
    then have "drop q m' = drop (q - p - length bs) (drop (p + length bs) m)" using le by (simp add: m')
    also have "\<dots> = drop q m" using q by (simp add: add.commute)
    finally show ?thesis by simp
  qed
  then show ?thesis by (simp add: mread_def len)
qed

lemma mread_append: "p + n \<le> length m \<Longrightarrow> mread (m @ z) p n = mread m p n"
  by (simp add: mread_def)

lemma mread_zeros:
  assumes "length m \<le> p" "p + n \<le> length m + k"
  shows "mread (m @ replicate k 0) p n = Some (replicate n 0)"
  using assms by (simp add: mread_def min_def)

lemma get_put_int: "put_int m p v = Some m' \<Longrightarrow> get_int m' p = Some v"
  using mread_mwrite_same [of m p "rev (zint_pack v)" m'] zint_unpack_pack [of v "[]"]
  by (simp add: put_int_def get_int_def)

lemma get_put_short: "put_short m p v = Some m' \<Longrightarrow> get_short m' p = Some v"
proof -
  have "ucast (take_bit 16 (ucast v :: 32 word)) = (v :: 16 word)"
    by (rule bit_word_eqI) (auto simp: bit_simps)
  then show "put_short m p v = Some m' \<Longrightarrow> get_short m' p = Some v"
    using mread_mwrite_same [of m p "rev (zint_pack2 (ucast v))" m'] zint_unpack2_pack [of "ucast v" "[]"]
    by (simp add: put_short_def get_short_def)
qed

lemma put_int_ok: "p + 4 \<le> length m \<Longrightarrow> \<exists>m'. put_int m p v = Some m' \<and> length m' = length m"
  using mwrite_ok [of p "rev (zint_pack v)" m] by (auto simp: put_int_def dest: mwrite_SomeD)

lemma put_short_ok: "p + 2 \<le> length m \<Longrightarrow> \<exists>m'. put_short m p v = Some m' \<and> length m' = length m"
  using mwrite_ok [of p "rev (zint_pack2 (ucast v))" m] by (auto simp: put_short_def dest: mwrite_SomeD)

text \<open>Two blocks that agree except for the bytes from \<open>p\<close> to \<open>p + k\<close> and what came behind the first.\<close>

definition agree :: "bytes \<Rightarrow> bytes \<Rightarrow> nat \<Rightarrow> nat \<Rightarrow> bool" where
  "agree m m' p k \<longleftrightarrow> (\<forall>q n. q + n \<le> length m \<longrightarrow> q + n \<le> p \<or> p + k \<le> q \<longrightarrow> mread m' q n = mread m q n)"

lemma agreeD: "agree m m' p k \<Longrightarrow> q + n \<le> length m \<Longrightarrow> q + n \<le> p \<or> p + k \<le> q \<Longrightarrow> mread m' q n = mread m q n"
  unfolding agree_def by blast

lemma agree_int: "agree m m' p k \<Longrightarrow> q + 4 \<le> length m \<Longrightarrow> q + 4 \<le> p \<or> p + k \<le> q \<Longrightarrow> get_int m' q = get_int m q"
  by (simp add: get_int_def agreeD)

lemma agree_short: "agree m m' p k \<Longrightarrow> q + 2 \<le> length m \<Longrightarrow> q + 2 \<le> p \<or> p + k \<le> q \<Longrightarrow> get_short m' q = get_short m q"
  by (simp add: get_short_def agreeD)

lemma agree_refl: "agree m m p k"
  by (simp add: agree_def)

lemma agree_trans: "agree m m1 p k \<Longrightarrow> agree m1 m2 p k \<Longrightarrow> length m \<le> length m1 \<Longrightarrow> agree m m2 p k"
  unfolding agree_def by (metis order_trans)

lemma agree_mono: "agree m m' p k \<Longrightarrow> p' \<le> p \<Longrightarrow> p + k \<le> p' + k' \<Longrightarrow> agree m m' p' k'"
  unfolding agree_def by (meson order_trans)

lemma agree_mwrite: "mwrite m p bs = Some m' \<Longrightarrow> agree m m' p (length bs)"
  by (simp add: agree_def mread_mwrite_other)

lemma agree_put_int: "put_int m p v = Some m' \<Longrightarrow> agree m m' p 4"
  using agree_mwrite [of m p "rev (zint_pack v)" m'] by (simp add: put_int_def)

lemma agree_put_short: "put_short m p v = Some m' \<Longrightarrow> agree m m' p 2"
  using agree_mwrite [of m p "rev (zint_pack2 (ucast v))" m'] by (simp add: put_short_def)

lemma agree_append: "agree m (m @ z) (length m) 0"
  by (simp add: agree_def mread_append)

lemma agree_append_any: "agree m (m @ z) p k"
  by (simp add: agree_def mread_append)

text \<open>A step of the builder that only changes the block, between \<open>p\<close> and \<open>p + k\<close>.\<close>

definition in_block :: "ms_builder \<Rightarrow> ms_builder \<Rightarrow> nat \<Rightarrow> nat \<Rightarrow> bool" where
  "in_block b b' p k \<longleftrightarrow> b' = b\<lparr>mem_data := mem_data b'\<rparr> \<and> length (mem_data b') = length (mem_data b)
     \<and> agree (mem_data b) (mem_data b') p k"

lemma in_block_refl: "in_block b b p k"
  by (simp add: in_block_def agree_refl)

lemma in_block_trans:
  assumes "in_block b b1 p k" "in_block b1 b2 p k"
  shows "in_block b b2 p k"
proof -
  have "b2 = b\<lparr>mem_data := mem_data b2\<rparr>" using assms unfolding in_block_def by (metis ms_builder.update_convs(4) ms_builder.surjective)
  then show ?thesis using assms agree_trans unfolding in_block_def by (metis order_refl)
qed

lemma in_block_mono: "in_block b b' p k \<Longrightarrow> p' \<le> p \<Longrightarrow> p + k \<le> p' + k' \<Longrightarrow> in_block b b' p' k'"
  by (auto simp: in_block_def intro: agree_mono)

lemma bput_int:
  assumes "p + 4 \<le> length (mem_data b)"
  obtains b' where "bput (\<lambda>m. put_int m p v) b = Some b'" "in_block b b' p 4" "get_int (mem_data b') p = Some v"
proof -
  from put_int_ok [OF assms] obtain m' where "put_int (mem_data b) p v = Some m'" "length m' = length (mem_data b)"
    by blast
  then show thesis
    using that [of "b\<lparr>mem_data := m'\<rparr>"] agree_put_int get_put_int by (simp add: bput_def in_block_def)
qed

lemma bput_short:
  assumes "p + 2 \<le> length (mem_data b)"
  obtains b' where "bput (\<lambda>m. put_short m p v) b = Some b'" "in_block b b' p 2" "get_short (mem_data b') p = Some v"
proof -
  from put_short_ok [OF assms] obtain m' where "put_short (mem_data b) p v = Some m'" "length m' = length (mem_data b)"
    by blast
  then show thesis
    using that [of "b\<lparr>mem_data := m'\<rparr>"] agree_put_short get_put_short by (simp add: bput_def in_block_def)
qed

lemma bput_bytes:
  assumes "p + length bs \<le> length (mem_data b)"
  obtains b' where "bput (\<lambda>m. mwrite m p bs) b = Some b'" "in_block b b' p (length bs)"
    "mread (mem_data b') p (length bs) = Some bs"
proof -
  from mwrite_ok [OF assms] obtain m' where "mwrite (mem_data b) p bs = Some m'" by blast
  then show thesis
    using that [of "b\<lparr>mem_data := m'\<rparr>"] agree_mwrite mread_mwrite_same mwrite_SomeD
    by (simp add: bput_def in_block_def)
qed

section \<open>Counting the tokens of the buckets\<close>

definition hbucket :: "(bytes \<Rightarrow> nat) \<Rightarrow> nat \<Rightarrow> bytes list \<Rightarrow> nat \<Rightarrow> bytes list" where
  "hbucket h siz ws j = filter (\<lambda>w. h w mod siz = j) ws"

lemma hbucket_Cons: "hbucket h siz (w # ws) j = (if h w mod siz = j then w # hbucket h siz ws j else hbucket h siz ws j)"
  by (simp add: hbucket_def)

lemma hbucket_snoc: "hbucket h siz (ws @ [w]) j = (if h w mod siz = j then hbucket h siz ws j @ [w] else hbucket h siz ws j)"
  by (simp add: hbucket_def)

lemma unat_small: "n < 2 ^ 31 \<Longrightarrow> unat (of_nat n :: 32 word) = n"
  by (simp add: unat_of_nat)

lemma entry_ok: "get_int m fld = Some (of_nat base) \<Longrightarrow> base < 2 ^ 31 \<Longrightarrow> entry m fld i = Some (base + 4 * i)"
  by (simp add: entry_def unat_small)

lemma table_apart: "j \<noteq> j' \<Longrightarrow> base + 4 * j + 4 \<le> base + 4 * j' \<or> base + 4 * j' + 4 \<le> base + 4 * (j :: nat)"
  by linarith

lemma count_loop:
  assumes "\<forall>w \<in> set ws. hvf w = Some (h w)" "0 < siz" "get_int (mem_data b) fld = Some (of_nat base)"
    and "base < 2 ^ 31" "fld + 4 \<le> base" "base + 4 * siz \<le> length (mem_data b)"
    and "\<forall>j < siz. get_int (mem_data b) (base + 4 * j) = Some (of_nat (c j))"
  shows "\<exists>b'. foldM (count_word fld hvf siz) ws b = Some b' \<and> in_block b b' base (4 * siz)
    \<and> (\<forall>j < siz. get_int (mem_data b') (base + 4 * j) = Some (of_nat (c j + length (hbucket h siz ws j))))"
  using assms
proof (induction ws arbitrary: b c)
  case Nil
  then show ?case by (simp add: in_block_refl hbucket_def)
next
  case (Cons w ws)
  define j where "j = h w mod siz"
  have j: "j < siz" using Cons.prems(2) by (simp add: j_def)
  have le: "base + 4 * j + 4 \<le> length (mem_data b)" using j Cons.prems(6) by linarith
  from bput_int [OF le, of "of_nat (c j) + 1"] obtain b1 where
    b1: "bput (\<lambda>m. put_int m (base + 4 * j) (of_nat (c j) + 1)) b = Some b1" "in_block b b1 (base + 4 * j) 4"
      "get_int (mem_data b1) (base + 4 * j) = Some (of_nat (c j) + 1)" .
  have len: "length (mem_data b1) = length (mem_data b)" and ag: "agree (mem_data b) (mem_data b1) (base + 4 * j) 4"
    using b1(2) by (auto simp: in_block_def)
  have step: "count_word fld hvf siz w b = Some b1"
    using Cons.prems(1,7) j b1(1) entry_ok [OF Cons.prems(3,4)] by (simp add: count_word_def j_def)
  have tab: "get_int (mem_data b1) (base + 4 * i) = Some (of_nat ((c(j := c j + 1)) i))" if "i < siz" for i
  proof (cases "i = j")
    case False
    have "base + 4 * i + 4 \<le> length (mem_data b)" using that Cons.prems(6) by linarith
    then show ?thesis using agree_int [OF ag] table_apart [OF False, of base] Cons.prems(7) that False by simp
  qed (use b1(3) in \<open>simp add: add.commute\<close>)
  have "get_int (mem_data b1) fld = Some (of_nat base)"
    using agree_int [OF ag, of fld] Cons.prems(3,5,6) by simp
  from Cons.IH [OF _ Cons.prems(2) this Cons.prems(4,5), of "c(j := c j + 1)"] Cons.prems(1,6) tab len
  obtain b' where b': "foldM (count_word fld hvf siz) ws b1 = Some b'" "in_block b1 b' base (4 * siz)"
    "\<forall>i < siz. get_int (mem_data b') (base + 4 * i) = Some (of_nat ((c(j := c j + 1)) i + length (hbucket h siz ws i)))"
    by auto
  have "in_block b b1 base (4 * siz)" by (rule in_block_mono [OF b1(2)]) (use j in linarith)+
  then have "in_block b b' base (4 * siz)" using b'(2) by (rule in_block_trans)
  moreover have "get_int (mem_data b') (base + 4 * i) = Some (of_nat (c i + length (hbucket h siz (w # ws) i)))"
    if "i < siz" for i
    using b'(3) that by (auto simp: hbucket_Cons j_def)
  ultimately show ?case using step b'(1) by auto
qed

section \<open>Reserving the buckets\<close>

text \<open>The offset of bucket \<open>j\<close> when bucket \<open>k\<close> has \<open>e + wd * c k\<close> bytes and empty ones have none.\<close>

definition boff :: "nat \<Rightarrow> nat \<Rightarrow> nat \<Rightarrow> (nat \<Rightarrow> nat) \<Rightarrow> nat \<Rightarrow> nat" where
  "boff L e wd c j = L + (\<Sum>k \<in> {..<j}. if c k = 0 then 0 else e + wd * c k)"

lemma boff_0 [simp]: "boff L e wd c 0 = L"
  by (simp add: boff_def)

lemma boff_Suc: "boff L e wd c (Suc j) = boff L e wd c j + (if c j = 0 then 0 else e + wd * c j)"
  by (simp add: boff_def)

lemma boff_mono: "j \<le> j' \<Longrightarrow> boff L e wd c j \<le> boff L e wd c j'"
  unfolding boff_def by (intro add_left_mono sum_mono2) auto

lemma boff_apart: "j < j' \<Longrightarrow> c j \<noteq> 0 \<Longrightarrow> boff L e wd c j + (e + wd * c j) \<le> boff L e wd c j'"
  using boff_mono [of "Suc j" j' L e wd c] by (simp add: boff_Suc)

lemma boff_ge: "L \<le> boff L e wd c j"
  by (simp add: boff_def)

lemma boff_bound:
  assumes "\<And>j. c j = length (hbucket h siz ws j)" "0 < siz"
  shows "boff L e wd c siz \<le> L + (e + wd) * length ws"
proof -
  have "(\<Sum>k \<in> {..<siz}. length (hbucket h siz ws k)) = length ws"
  proof (induction ws)
    case (Cons w ws)
    have "(\<Sum>k \<in> {..<siz}. length (hbucket h siz (w # ws) k))
        = (\<Sum>k \<in> {..<siz}. length (hbucket h siz ws k) + (if k = h w mod siz then 1 else 0))"
      by (intro sum.cong) (auto simp: hbucket_Cons)
    also have "\<dots> = length ws + 1" using Cons assms(2) by (simp add: sum.distrib)
    finally show ?case by simp
  qed (simp add: hbucket_def)
  moreover have "(\<Sum>k \<in> {..<siz}. if c k = 0 then 0 else e + wd * c k) \<le> (\<Sum>k \<in> {..<siz}. (e + wd) * length (hbucket h siz ws k))"
    by (intro sum_mono) (auto simp: assms(1) add_mult_distrib Suc_le_eq)
  ultimately show ?thesis by (simp add: boff_def flip: sum_distrib_left)
qed

lemma mem_malloc_fits:
  assumes "length (mem_data b) + n \<le> mem_capability b" "mem_capability b < 2 ^ 31 - 1"
  shows "mem_malloc b n = Some (b\<lparr>mem_data := mem_data b @ replicate n 0\<rparr>, length (mem_data b), False)"
proof -
  have "mem_grow (mem_capability b) (length (mem_data b)) n = mem_capability b"
    using assms(1) by (subst mem_grow.simps) auto
  then show ?thesis using assms(2) by (simp add: mem_malloc_def)
qed

lemma zeros_part:
  assumes "mread m L K = Some (replicate K 0)" "L \<le> q" "q + n \<le> L + K"
  shows "mread m q n = Some (replicate n 0)"
proof -
  have "L + K \<le> length m" and t: "take K (drop L m) = replicate K 0"
    using assms(1) by (auto simp: mread_def split: if_splits)
  have "take n (drop q m) = take n (drop (q - L) (take K (drop L m)))"
    using assms(2,3) by (simp add: drop_take min_def add.commute)
  also have "\<dots> = replicate n 0" using assms(2,3) by (simp add: t min_def)
  finally show ?thesis using assms \<open>L + K \<le> length m\<close> by (simp add: mread_def)
qed

lemma zeros_grow:
  assumes "mread m L (length m - L) = Some (replicate (length m - L) 0)" "L \<le> length m"
  shows "mread (m @ replicate k 0) L (length m + k - L) = Some (replicate (length m + k - L) 0)"
proof -
  have "drop L m = replicate (length m - L) 0" using assms by (simp add: mread_def)
  then show ?thesis using assms(2) by (simp add: mread_def flip: replicate_add)
qed

definition gen_alloc :: "nat \<Rightarrow> nat \<Rightarrow> nat \<Rightarrow> (bytes \<Rightarrow> nat \<Rightarrow> bytes option) \<Rightarrow> nat \<Rightarrow> ms_builder \<Rightarrow> ms_builder option" where
  "gen_alloc fld e wd z i b = do {
     p \<leftarrow> entry (mem_data b) fld i;
     n \<leftarrow> get_int (mem_data b) p;
     (if n \<noteq> 0 then do {
        (b, s) \<leftarrow> mem_malloc_held b (e + wd * unat n);
        b \<leftarrow> bput (\<lambda>m. put_int m p (of_nat s)) b;
        bput (\<lambda>m. z m s) b }
      else Some b) }"

text \<open>What the pass has reached at bucket \<open>i\<close>.\<close>

definition reserved :: "ms_builder \<Rightarrow> nat \<Rightarrow> nat \<Rightarrow> nat \<Rightarrow> nat \<Rightarrow> nat \<Rightarrow> (nat \<Rightarrow> nat) \<Rightarrow> nat \<Rightarrow> ms_builder \<Rightarrow> bool" where
  "reserved b0 base siz L e wd c i b \<longleftrightarrow> b = b0\<lparr>mem_data := mem_data b\<rparr> \<and> length (mem_data b) = boff L e wd c i
     \<and> agree (mem_data b0) (mem_data b) base (4 * siz)
     \<and> (\<forall>j < siz. get_int (mem_data b) (base + 4 * j)
          = Some (of_nat (if j < i then if c j = 0 then 0 else boff L e wd c j else c j)))
     \<and> mread (mem_data b) L (length (mem_data b) - L) = Some (replicate (length (mem_data b) - L) 0)"

lemma reserve_step:
  assumes r: "reserved b0 base siz L e wd c i b" and i: "i < siz"
    and z: "\<And>m s. mread m s e = Some (replicate e 0) \<Longrightarrow> z m s = Some m"
    and fld: "get_int (mem_data b0) fld = Some (of_nat base)" "fld + 4 \<le> base"
    and L: "length (mem_data b0) = L" "base + 4 * siz \<le> L" "\<forall>j. c j < 2 ^ 31"
    and cap: "boff L e wd c siz \<le> mem_capability b0" "mem_capability b0 < 2 ^ 31 - 1"
  shows "\<exists>b'. gen_alloc fld e wd z i b = Some b' \<and> reserved b0 base siz L e wd c (Suc i) b'"
proof -
  let ?m = "mem_data b" and ?p = "base + 4 * i"
  have b: "b = b0\<lparr>mem_data := ?m\<rparr>" "length ?m = boff L e wd c i" "agree (mem_data b0) ?m base (4 * siz)"
    and tab: "\<And>j. j < siz \<Longrightarrow> get_int ?m (base + 4 * j)
          = Some (of_nat (if j < i then if c j = 0 then 0 else boff L e wd c j else c j))"
    and zs: "mread ?m L (length ?m - L) = Some (replicate (length ?m - L) 0)"
    using r unfolding reserved_def by blast+
  have bs: "base < 2 ^ 31" using L(2) cap boff_ge [of L e wd c siz] by linarith
  have "get_int ?m fld = Some (of_nat base)" using agree_int [OF b(3), of fld] fld L by simp
  then have p: "entry ?m fld i = Some ?p" using bs by (rule entry_ok)
  have n: "get_int ?m ?p = Some (of_nat (c i))" using tab [OF i] by simp
  have "c i < 2 ^ 31" using L(3) by blast
  then have un: "unat (of_nat (c i) :: 32 word) = c i" by (rule unat_small)
  have z0: "(of_nat (c i) :: 32 word) = 0 \<longleftrightarrow> c i = 0"
    using un unat_eq_zero [of "of_nat (c i) :: 32 word"] by simp
  show ?thesis
  proof (cases "c i = 0")
    case True
    have "gen_alloc fld e wd z i b = Some b" using p n True by (simp add: gen_alloc_def)
    moreover have "reserved b0 base siz L e wd c (Suc i) b"
      unfolding reserved_def
    proof (intro conjI allI impI)
      fix j assume j: "j < siz"
      show "get_int ?m (base + 4 * j)
          = Some (of_nat (if j < Suc i then if c j = 0 then 0 else boff L e wd c j else c j))"
        using tab [OF j] True by (auto simp: less_Suc_eq)
    qed (use b zs True in \<open>simp_all add: boff_Suc\<close>)
    ultimately show ?thesis by blast
  next
    case False
    define k where "k = e + wd * c i"
    define b1 where "b1 = b\<lparr>mem_data := ?m @ replicate k 0\<rparr>"
    have nxt: "boff L e wd c (Suc i) = length ?m + k" using False b(2) by (simp add: boff_Suc k_def)
    have "boff L e wd c (Suc i) \<le> boff L e wd c siz" using i by (intro boff_mono) simp
    then have fit: "length ?m + k \<le> mem_capability b" "mem_capability b < 2 ^ 31 - 1"
      using nxt cap b(1) by (metis order_trans ms_builder.select_convs(5) ms_builder.surjective ms_builder.update_convs(4))+
    have held: "mem_malloc_held b k = Some (b1, length ?m)"
      using mem_malloc_fits [OF fit] by (simp add: mem_malloc_held_def b1_def)
    have Lm: "L \<le> length ?m" using b(2) boff_ge by simp
    have pl: "?p + 4 \<le> L" using i L(2) by linarith
    then have "?p + 4 \<le> length (mem_data b1)" using Lm by (simp add: b1_def)
    from bput_int [OF this, of "of_nat (length ?m)"] obtain b2 where
      b2: "bput (\<lambda>m. put_int m ?p (of_nat (length ?m))) b1 = Some b2" "in_block b1 b2 ?p 4"
        "get_int (mem_data b2) ?p = Some (of_nat (length ?m))" .
    have ag2: "agree (mem_data b1) (mem_data b2) ?p 4" and len2: "length (mem_data b2) = length ?m + k"
      using b2(2) by (simp_all add: in_block_def b1_def)
    have "mread (mem_data b1) L (length ?m + k - L) = Some (replicate (length ?m + k - L) 0)"
      unfolding b1_def using zeros_grow [OF zs Lm, of k] by simp
    then have z2: "mread (mem_data b2) L (length (mem_data b2) - L) = Some (replicate (length (mem_data b2) - L) 0)"
      using agreeD [OF ag2, of L "length ?m + k - L"] Lm pl by (simp add: b1_def len2)
    have "mread (mem_data b2) (length ?m) e = Some (replicate e 0)"
      by (rule zeros_part [OF z2]) (use Lm in \<open>simp_all add: len2 k_def\<close>)
    from z [OF this] have b3: "bput (\<lambda>m. z m (length ?m)) b2 = Some b2" by (simp add: bput_def)
    have step: "gen_alloc fld e wd z i b = Some b2"
      using p n False held b2(1) b3 by (simp add: gen_alloc_def un z0 k_def)
    have tab1: "get_int (mem_data b1) (base + 4 * j) = get_int ?m (base + 4 * j)" if "j < siz" for j
    proof -
      have "base + 4 * j + 4 \<le> length ?m" using that L(2) Lm by linarith
      then show ?thesis by (simp add: b1_def get_int_def mread_append)
    qed
    have tab2: "get_int (mem_data b2) (base + 4 * j)
          = Some (of_nat (if j < Suc i then if c j = 0 then 0 else boff L e wd c j else c j))" if j: "j < siz" for j
    proof (cases "j = i")
      case neq: False
      have "base + 4 * j + 4 \<le> length (mem_data b1)" using j L(2) Lm unfolding b1_def by simp
      then have "get_int (mem_data b2) (base + 4 * j) = get_int (mem_data b1) (base + 4 * j)"
        using agree_int [OF ag2] table_apart [OF neq, of base] by blast
      then show ?thesis using tab1 [OF j] tab [OF j] neq by (auto simp: less_Suc_eq)
    qed (use b2(3) b(2) False in simp)
    have "agree ?m (mem_data b1) base (4 * siz)" by (simp add: b1_def agree_append_any)
    moreover have "agree (mem_data b1) (mem_data b2) base (4 * siz)"
      by (rule agree_mono [OF ag2]) (use i in linarith)+
    ultimately have "agree ?m (mem_data b2) base (4 * siz)" by (rule agree_trans) (simp add: b1_def)
    then have ag: "agree (mem_data b0) (mem_data b2) base (4 * siz)"
      using b(3) agree_trans Lm L(1) by blast
    have "b2 = b0\<lparr>mem_data := mem_data b2\<rparr>"
    proof -
      have "b2 = b1\<lparr>mem_data := mem_data b2\<rparr>" using b2(2) by (simp add: in_block_def)
      then show ?thesis unfolding b1_def by (subst (asm) b(1)) simp
    qed
    then have "reserved b0 base siz L e wd c (Suc i) b2"
      unfolding reserved_def using len2 nxt ag tab2 z2 by simp
    with step show ?thesis by blast
  qed
qed

lemma reserve_loop:
  assumes z: "\<And>m s. mread m s e = Some (replicate e 0) \<Longrightarrow> z m s = Some m"
    and fld: "get_int (mem_data b0) fld = Some (of_nat base)" "fld + 4 \<le> base"
    and L: "length (mem_data b0) = L" "base + 4 * siz \<le> L" "\<forall>j. c j < 2 ^ 31"
    and cap: "boff L e wd c siz \<le> mem_capability b0" "mem_capability b0 < 2 ^ 31 - 1"
    and tab: "\<forall>j < siz. get_int (mem_data b0) (base + 4 * j) = Some (of_nat (c j))"
    and i: "i \<le> siz"
  shows "\<exists>b. foldM (gen_alloc fld e wd z) [0..<i] b0 = Some b \<and> reserved b0 base siz L e wd c i b"
  using i
proof (induction i)
  case 0
  show ?case using tab L(1) by (simp add: reserved_def agree_refl mread_def)
next
  case (Suc i)
  then obtain b where b: "foldM (gen_alloc fld e wd z) [0..<i] b0 = Some b" "reserved b0 base siz L e wd c i b"
    by auto
  have "i < siz" using Suc.prems by simp
  from reserve_step [OF b(2) this, of z fld, OF z fld L cap] obtain b' where
    "gen_alloc fld e wd z i b = Some b'" "reserved b0 base siz L e wd c (Suc i) b'" by blast
  then show ?case using b(1) by (simp add: foldM_append)
qed

lemma zero_writes:
  "mread m s 2 = Some (replicate 2 0) \<Longrightarrow> put_short m s 0 = Some m"
  "mread m s 4 = Some (replicate 4 0) \<Longrightarrow> put_int m s 0 = Some m"
proof -
  have w: "mwrite m s bs = Some m" if "mread m s (length bs) = Some bs" for bs
    using that id_take_nth_drop append_take_drop_id [of s m] append_take_drop_id [of "length bs" "drop s m"]
    by (auto simp: mread_def mwrite_def add.commute split: if_splits)
  have "rev (zint_pack2 (ucast (0 :: 16 word))) = replicate 2 0" "rev (zint_pack 0) = replicate 4 0"
    by (simp_all add: zint_pack2_def zint_pack_def numeral_eq_Suc)
  then show "mread m s 2 = Some (replicate 2 0) \<Longrightarrow> put_short m s 0 = Some m"
    "mread m s 4 = Some (replicate 4 0) \<Longrightarrow> put_int m s 0 = Some m"
    using w [of "replicate 2 0"] w [of "replicate 4 0"] by (simp_all add: put_short_def put_int_def)
qed

end
