(* ===== verification/MSearchFill.thy ===== *)
theory MSearchFill
  imports MSearchMem
begin

text \<open>
  The third pass over the tokens of \<open>MSearch\<close>: the buckets are filled, with the tokens of two bytes
  themselves or with the offsets of longer tokens.
\<close>

section \<open>Buckets in memory\<close>

definition ab_bucket :: "bytes \<Rightarrow> nat \<Rightarrow> bytes list \<Rightarrow> bool" where
  "ab_bucket m p us \<longleftrightarrow> get_short m p = Some (of_nat (length us))
     \<and> (\<forall>i < length us. mread m (p + 2 + 2 * i) 2 = Some (us ! i))"

definition tok_at :: "bytes \<Rightarrow> nat \<Rightarrow> 32 word \<Rightarrow> bytes \<Rightarrow> bool" where
  "tok_at m T t w \<longleftrightarrow> T \<le> unat t \<and> unat t + 2 + length w \<le> length m
     \<and> get_short m (unat t) = Some (of_nat (length w)) \<and> mread m (unat t + 2) (length w) = Some w"

definition abc_bucket :: "bytes \<Rightarrow> nat \<Rightarrow> nat \<Rightarrow> bytes list \<Rightarrow> bool" where
  "abc_bucket m T p us \<longleftrightarrow> get_int m p = Some (of_nat (length us))
     \<and> (\<forall>i < length us. \<exists>t. get_int m (p + 4 + 4 * i) = Some t \<and> tok_at m T t (us ! i))"

lemma ab_bucket_agree:
  assumes "ab_bucket m p us" "agree m m' q k" "p + 2 + 2 * length us \<le> q \<or> q + k \<le> p"
    and "p + 2 + 2 * length us \<le> length m"
  shows "ab_bucket m' p us"
proof -
  have "get_short m' p = get_short m p" using assms(3,4) by (intro agree_short [OF assms(2)]) auto
  moreover have "mread m' (p + 2 + 2 * i) 2 = mread m (p + 2 + 2 * i) 2" if "i < length us" for i
    using assms(3,4) that by (intro agreeD [OF assms(2)]) auto
  ultimately show ?thesis using assms(1) by (simp add: ab_bucket_def)
qed

lemma tok_at_agree:
  assumes "tok_at m T t w" "agree m m' q k" "q + k \<le> T" "length m \<le> length m'"
  shows "tok_at m' T t w"
proof -
  have "get_short m' (unat t) = get_short m (unat t)"
    using assms(1,3) by (intro agree_short [OF assms(2)]) (auto simp: tok_at_def)
  moreover have "mread m' (unat t + 2) (length w) = mread m (unat t + 2) (length w)"
    using assms(1,3) by (intro agreeD [OF assms(2)]) (auto simp: tok_at_def)
  ultimately show ?thesis using assms(1,4) by (simp add: tok_at_def)
qed

lemma abc_bucket_agree:
  assumes "abc_bucket m T p us" "agree m m' q k" "p + 4 + 4 * length us \<le> q \<or> q + k \<le> p"
    and "p + 4 + 4 * length us \<le> length m" "q + k \<le> T" "length m \<le> length m'"
  shows "abc_bucket m' T p us"
proof -
  have "get_int m' p = get_int m p" using assms(3,4) by (intro agree_int [OF assms(2)]) auto
  moreover have "get_int m' (p + 4 + 4 * i) = get_int m (p + 4 + 4 * i)" if "i < length us" for i
    using assms(3,4) that by (intro agree_int [OF assms(2)]) auto
  ultimately show ?thesis using assms(1) tok_at_agree [OF _ assms(2,5,6)] unfolding abc_bucket_def by metis
qed

text \<open>A token is put at the end of a bucket: its entry, then the counter.\<close>

lemma ab_bucket_snoc:
  assumes "ab_bucket m p us" "p + 4 + 2 * length us \<le> length m"
    and 1: "agree m m1 (p + 2 + 2 * length us) 2" "length m1 = length m"
      "mread m1 (p + 2 + 2 * length us) 2 = Some w"
    and 2: "agree m1 m2 p 2" "get_short m2 p = Some (of_nat (length us) + 1)"
  shows "ab_bucket m2 p (us @ [w])"
proof -
  have "mread m2 (p + 2 + 2 * i) 2 = Some ((us @ [w]) ! i)" if i: "i < Suc (length us)" for i
  proof -
    have "p + 2 + 2 * i + 2 \<le> length m1" using i assms(2) 1(2) by linarith
    then have "mread m2 (p + 2 + 2 * i) 2 = mread m1 (p + 2 + 2 * i) 2" by (intro agreeD [OF 2(1)]) auto
    also have "\<dots> = Some ((us @ [w]) ! i)"
    proof (cases "i = length us")
      case False
      then have "mread m1 (p + 2 + 2 * i) 2 = mread m (p + 2 + 2 * i) 2"
        using i assms(2) by (intro agreeD [OF 1(1)]) auto
      then show ?thesis using assms(1) i False by (simp add: ab_bucket_def nth_append)
    qed (use 1(3) in simp)
    finally show ?thesis .
  qed
  then show ?thesis using 2(2) by (simp add: ab_bucket_def add.commute)
qed

lemma abc_bucket_snoc:
  assumes "abc_bucket m T p us" "p + 8 + 4 * length us \<le> T" "T \<le> length m"
    and 1: "agree m ma (p + 4 + 4 * length us) 4" "length m \<le> length ma" "tok_at ma T t w"
      "get_int ma (p + 4 + 4 * length us) = Some t"
    and 2: "agree ma mb p 4" "get_int mb p = Some (of_nat (length us) + 1)" "length mb = length ma"
  shows "abc_bucket mb T p (us @ [w])"
proof -
  have "\<exists>t. get_int mb (p + 4 + 4 * i) = Some t \<and> tok_at mb T t ((us @ [w]) ! i)" if i: "i < Suc (length us)" for i
  proof -
    have "p + 4 + 4 * i + 4 \<le> length ma" using i assms(2,3) 1(2) by linarith
    then have e: "get_int mb (p + 4 + 4 * i) = get_int ma (p + 4 + 4 * i)" by (intro agree_int [OF 2(1)]) auto
    have "\<exists>t. get_int ma (p + 4 + 4 * i) = Some t \<and> tok_at ma T t ((us @ [w]) ! i)"
    proof (cases "i = length us")
      case False
      then have il: "i < length us" using i by simp
      have "get_int ma (p + 4 + 4 * i) = get_int m (p + 4 + 4 * i)"
        using il assms(2,3) by (intro agree_int [OF 1(1)]) auto
      moreover obtain t' where "get_int m (p + 4 + 4 * i) = Some t'" "tok_at m T t' (us ! i)"
        using assms(1) il unfolding abc_bucket_def by blast
      moreover from this(2) have "tok_at ma T t' (us ! i)"
        using assms(2) 1(2) by (intro tok_at_agree [OF _ 1(1)]) auto
      ultimately show ?thesis using il by (simp add: nth_append)
    qed (use 1(3,4) in simp)
    then obtain t' where t': "get_int ma (p + 4 + 4 * i) = Some t'" "tok_at ma T t' ((us @ [w]) ! i)" by blast
    have "tok_at mb T t' ((us @ [w]) ! i)" using t'(2) assms(2) 2(3) by (intro tok_at_agree [OF _ 2(1)]) auto
    with e t'(1) show ?thesis by auto
  qed
  then show ?thesis using 2(2) by (simp add: abc_bucket_def add.commute)
qed

section \<open>Tokens of two bytes\<close>

definition h2 :: "bytes \<Rightarrow> nat" where
  "h2 w = unat (w ! 0) * 256 + unat (w ! 1)"

definition h3 :: "bytes \<Rightarrow> nat" where
  "h3 w = (unat (w ! 0) * 256 + unat (w ! 1)) * 256 + unat (w ! 2)"

lemma hv2_ok: "length w = 2 \<Longrightarrow> hv2 w = Some (h2 w)"
  by (simp add: hv2_def h2_def key_char_def)

lemma hv3_ok: "3 \<le> length w \<Longrightarrow> hv3 w = Some (h3 w)"
proof -
  assume "3 \<le> length w"
  then have "0 < length w" "1 < length w" "2 < length w" by linarith+
  then show ?thesis by (simp only: hv3_def h3_def key_char_def if_True bind.bind_lunit)
qed

lemma h2_bytes: "length w = 2 \<Longrightarrow> [of_nat (h2 w div 256), of_nat (h2 w mod 256)] = w"
proof -
  assume l: "length w = 2"
  have "h2 w div 256 = unat (w ! 0)" "h2 w mod 256 = unat (w ! 1)" by (simp_all add: h2_def)
  then have "[of_nat (h2 w div 256), of_nat (h2 w mod 256)] = [w ! 0, w ! 1]" by simp
  then show ?thesis using l by (cases w; cases "tl w") auto
qed

text \<open>The buckets hold the tokens \<open>us\<close>; \<open>b1\<close> is the builder before the pass.\<close>

definition ab_filled :: "ms_builder \<Rightarrow> nat \<Rightarrow> nat \<Rightarrow> (nat \<Rightarrow> nat) \<Rightarrow> bytes list \<Rightarrow> ms_builder \<Rightarrow> bool" where
  "ab_filled b1 siz L c us b \<longleftrightarrow> in_block b1 b L (boff L 2 2 c siz - L)
     \<and> (\<forall>j < siz. c j \<noteq> 0 \<longrightarrow> ab_bucket (mem_data b) (boff L 2 2 c j) (hbucket h2 siz us j))"

lemma ab_fill_step:
  assumes f: "ab_filled b1 siz L c us b" and w: "length w = 2" and siz: "0 < siz"
    and c: "\<And>j. length (hbucket h2 siz (us @ [w]) j) \<le> c j" "\<And>j. c j < 2 ^ 15"
    and fld: "get_int (mem_data b1) eng_ab_data_offset = Some (of_nat base)" "eng_ab_data_offset + 4 \<le> base"
    and L: "base + 4 * siz \<le> L" "length (mem_data b1) = boff L 2 2 c siz" "boff L 2 2 c siz < 2 ^ 31"
    and tab: "\<And>j. j < siz \<Longrightarrow> c j \<noteq> 0 \<Longrightarrow> get_int (mem_data b1) (base + 4 * j) = Some (of_nat (boff L 2 2 c j))"
  shows "\<exists>b'. ab_fill siz w b = Some b' \<and> ab_filled b1 siz L c (us @ [w]) b'"
proof -
  let ?m = "mem_data b"
  define j where "j = h2 w mod siz"
  define s where "s = boff L 2 2 c j"
  define i where "i = length (hbucket h2 siz us j)"
  have j: "j < siz" using siz by (simp add: j_def)
  have Lle: "L \<le> boff L 2 2 c siz" by (rule boff_ge)
  have ib: "in_block b1 b L (boff L 2 2 c siz - L)" and
    bk: "\<And>j. j < siz \<Longrightarrow> c j \<noteq> 0 \<Longrightarrow> ab_bucket ?m (boff L 2 2 c j) (hbucket h2 siz us j)"
    using f by (auto simp: ab_filled_def)
  have len: "length ?m = boff L 2 2 c siz" and ag: "agree (mem_data b1) ?m L (boff L 2 2 c siz - L)"
    using ib L(2) by (auto simp: in_block_def)
  have ic: "i < c j" using c(1) [of j] by (simp add: hbucket_snoc i_def j_def)
  have cj: "c j \<noteq> 0" using ic by simp
  have sT: "s + (2 + 2 * c j) \<le> boff L 2 2 c siz" unfolding s_def by (rule boff_apart [of j siz c, OF j cj])
  have "get_int ?m eng_ab_data_offset = Some (of_nat base)"
    using agree_int [OF ag, of eng_ab_data_offset] fld L Lle by simp
  then have p: "entry ?m eng_ab_data_offset j = Some (base + 4 * j)" using L Lle by (intro entry_ok) auto
  have "base + 4 * j + 4 \<le> L" using j L(1) by linarith
  then have sg: "get_int ?m (base + 4 * j) = Some (of_nat s)"
    using agree_int [OF ag, of "base + 4 * j"] tab [OF j cj] L Lle by (simp add: s_def)
  have us: "unat (of_nat s :: 32 word) = s" using sT L(3) by (intro unat_small) linarith
  have bj: "ab_bucket ?m s (hbucket h2 siz us j)" using bk [OF j cj] by (simp add: s_def)
  then have ig: "get_short ?m s = Some (of_nat i)" by (simp add: ab_bucket_def i_def)
  have ui: "unat (of_nat i :: 16 word) = i" using ic c(2) [of j] by (simp add: unat_of_nat)
  have le1: "s + 2 + 2 * i + length w \<le> length ?m" using ic sT len w by linarith
  from bput_bytes [OF le1] obtain b2 where b2: "bput (\<lambda>m. mwrite m (s + 2 + 2 * i) w) b = Some b2"
    "in_block b b2 (s + 2 + 2 * i) 2" "mread (mem_data b2) (s + 2 + 2 * i) 2 = Some w" using w by metis
  have ag2: "agree ?m (mem_data b2) (s + 2 + 2 * i) 2" and len2: "length (mem_data b2) = length ?m"
    using b2(2) by (auto simp: in_block_def)
  have ig2: "get_short (mem_data b2) s = Some (of_nat i)"
    using agree_short [OF ag2, of s] ig le1 by simp
  have "s + 2 \<le> length (mem_data b2)" using le1 len2 by linarith
  from bput_short [OF this, of "of_nat i + 1"] obtain b3 where
    b3: "bput (\<lambda>m. put_short m s (of_nat i + 1)) b2 = Some b3" "in_block b2 b3 s 2"
      "get_short (mem_data b3) s = Some (of_nat i + 1)" .
  have step: "ab_fill siz w b = Some b3"
    using hv2_ok [OF w] p sg us ig ui b2(1) ig2 b3(1) h2_bytes [OF w] by (simp add: ab_fill_def j_def)
  have inb: "in_block b b3 s (2 + 2 * c j)"
    by (rule in_block_trans [OF in_block_mono [OF b2(2)] in_block_mono [OF b3(2)]]) (use ic in linarith)+
  have "ab_bucket (mem_data b3) (boff L 2 2 c k) (hbucket h2 siz (us @ [w]) k)" if k: "k < siz" "c k \<noteq> 0" for k
  proof (cases "k = j")
    case True
    have "ab_bucket (mem_data b3) s (hbucket h2 siz us j @ [w])"
      using ab_bucket_snoc [OF bj _ ag2 [unfolded i_def] len2 b2(3) [unfolded i_def]] b3(2,3) le1 w
      by (simp add: in_block_def i_def)
    then show ?thesis using True by (simp add: hbucket_snoc j_def s_def)
  next
    case False
    then have "k < j \<or> j < k" by linarith
    then have "boff L 2 2 c k + (2 + 2 * c k) \<le> s \<or> s + (2 + 2 * c j) \<le> boff L 2 2 c k"
      using boff_apart [of k j c L 2 2] boff_apart [of j k c L 2 2] k(2) cj by (auto simp: s_def)
    moreover have "length (hbucket h2 siz us k) \<le> c k" using c(1) [of k] False by (simp add: hbucket_snoc j_def)
    moreover have "boff L 2 2 c k + (2 + 2 * c k) \<le> length ?m" using boff_apart [of k siz c L 2 2, OF k] len by simp
    ultimately have "ab_bucket (mem_data b3) (boff L 2 2 c k) (hbucket h2 siz us k)"
      using inb by (intro ab_bucket_agree [OF bk [OF k], where q = s and k = "2 + 2 * c j"]) (auto simp: in_block_def)
    then show ?thesis using False by (simp add: hbucket_snoc j_def)
  qed
  moreover have "in_block b1 b3 L (boff L 2 2 c siz - L)"
    by (rule in_block_trans [OF ib in_block_mono [OF inb]]) (use sT boff_ge [of L 2 2 c j] in \<open>simp_all add: s_def\<close>)
  ultimately show ?thesis using step by (auto simp: ab_filled_def)
qed

lemma ab_fill_loop:
  assumes siz: "0 < siz" and c: "c = (\<lambda>j. length (hbucket h2 siz ws j))" "\<And>j. c j < 2 ^ 15"
    and ws: "\<forall>w \<in> set ws. length w = 2"
    and fld: "get_int (mem_data b1) eng_ab_data_offset = Some (of_nat base)" "eng_ab_data_offset + 4 \<le> base"
    and L: "base + 4 * siz \<le> L" "length (mem_data b1) = boff L 2 2 c siz" "boff L 2 2 c siz < 2 ^ 31"
    and tab: "\<And>j. j < siz \<Longrightarrow> c j \<noteq> 0 \<Longrightarrow> get_int (mem_data b1) (base + 4 * j) = Some (of_nat (boff L 2 2 c j))"
    and us: "prefix us ws" and e: "ab_filled b1 siz L c [] b1"
  shows "\<exists>b. foldM (ab_fill siz) us b1 = Some b \<and> ab_filled b1 siz L c us b"
  using us
proof (induction us rule: rev_induct)
  case Nil
  show ?case using e by simp
next
  case (snoc w us)
  then obtain b where b: "foldM (ab_fill siz) us b1 = Some b" "ab_filled b1 siz L c us b"
    by (auto dest: append_prefixD)
  obtain zs where zs: "ws = (us @ [w]) @ zs" using snoc.prems by (auto simp: prefix_def)
  have "length (hbucket h2 siz (us @ [w]) j) \<le> c j" for j by (simp add: c(1) zs hbucket_def)
  moreover have "length w = 2" using ws zs by simp
  ultimately obtain b' where "ab_fill siz w b = Some b'" "ab_filled b1 siz L c (us @ [w]) b'"
    using ab_fill_step [OF b(2) _ siz _ c(2) fld L tab] by blast
  then show ?case using b(1) by (auto simp: foldM_append)
qed

section \<open>Longer tokens\<close>

definition tok_space :: "bytes list \<Rightarrow> nat" where
  "tok_space ws = (\<Sum>w \<leftarrow> ws. 2 + length w)"

definition abc_filled :: "ms_builder \<Rightarrow> nat \<Rightarrow> nat \<Rightarrow> (nat \<Rightarrow> nat) \<Rightarrow> bytes list \<Rightarrow> ms_builder \<Rightarrow> bool" where
  "abc_filled b1 siz L c us b \<longleftrightarrow> b = b1\<lparr>mem_data := mem_data b\<rparr>
     \<and> length (mem_data b) = boff L 4 4 c siz + tok_space us
     \<and> agree (mem_data b1) (mem_data b) L (boff L 4 4 c siz - L)
     \<and> (\<forall>j < siz. c j \<noteq> 0 \<longrightarrow>
          abc_bucket (mem_data b) (boff L 4 4 c siz) (boff L 4 4 c j) (hbucket h3 siz us j))"

lemma in_block_same: "in_block b b' p k \<Longrightarrow> b = b1\<lparr>mem_data := x\<rparr> \<Longrightarrow> b' = b1\<lparr>mem_data := mem_data b'\<rparr>"
  by (simp add: in_block_def)

text \<open>The token itself: its length and its bytes, behind everything else.\<close>

lemma abc_token:
  assumes fit: "length (mem_data b) + (2 + length w) \<le> mem_capability b" "mem_capability b < 2 ^ 31 - 1"
  defines "off \<equiv> length (mem_data b)"
  shows "\<exists>b2. mem_malloc b (2 + length w) = Some (b2, off, False) \<and> b2 = b\<lparr>mem_data := mem_data b2\<rparr>
    \<and> length (mem_data b2) = off + (2 + length w) \<and> (\<forall>p k. agree (mem_data b) (mem_data b2) p k)"
  using mem_malloc_fits [OF fit] agree_append_any by (auto simp: off_def)

lemma abc_fill_step:
  assumes f: "abc_filled b1 siz L c us b" and w: "3 \<le> length w" and siz: "0 < siz"
    and c: "\<And>j. length (hbucket h3 siz (us @ [w]) j) \<le> c j"
    and fld: "get_int (mem_data b1) eng_abc_data_offset = Some (of_nat base)" "eng_abc_data_offset + 4 \<le> base"
    and L: "base + 4 * siz \<le> L" "length (mem_data b1) = boff L 4 4 c siz"
    and cap: "boff L 4 4 c siz + tok_space (us @ [w]) \<le> mem_capability b1" "mem_capability b1 < 2 ^ 31 - 1"
    and tab: "\<And>j. j < siz \<Longrightarrow> c j \<noteq> 0 \<Longrightarrow> get_int (mem_data b1) (base + 4 * j) = Some (of_nat (boff L 4 4 c j))"
  shows "\<exists>b'. abc_fill siz w b = Some b' \<and> abc_filled b1 siz L c (us @ [w]) b'"
proof -
  let ?m = "mem_data b"
  define T where "T = boff L 4 4 c siz"
  define j where "j = h3 w mod siz"
  define s where "s = boff L 4 4 c j"
  define i where "i = length (hbucket h3 siz us j)"
  define off where "off = length ?m"
  have j: "j < siz" using siz by (simp add: j_def)
  have LT: "L \<le> T" unfolding T_def by (rule boff_ge)
  have b: "b = b1\<lparr>mem_data := ?m\<rparr>" and len: "length ?m = T + tok_space us"
    and ag: "agree (mem_data b1) ?m L (T - L)"
    and bk: "\<And>j. j < siz \<Longrightarrow> c j \<noteq> 0 \<Longrightarrow> abc_bucket ?m T (boff L 4 4 c j) (hbucket h3 siz us j)"
    using f unfolding abc_filled_def T_def by blast+
  have capb: "mem_capability b = mem_capability b1" by (subst b) simp
  have ic: "i < c j" using c [of j] by (simp add: hbucket_snoc i_def j_def)
  have cj: "c j \<noteq> 0" using ic by simp
  have sT: "s + (4 + 4 * c j) \<le> T" unfolding s_def T_def by (rule boff_apart [of j siz c, OF j cj])
  have offT: "T \<le> off" using len by (simp add: off_def)
  have fit: "off + (2 + length w) \<le> mem_capability b" using cap(1) len by (simp add: capb off_def tok_space_def T_def)
  then obtain b2 where b2: "mem_malloc b (2 + length w) = Some (b2, off, False)"
    "b2 = b\<lparr>mem_data := mem_data b2\<rparr>" "length (mem_data b2) = off + (2 + length w)"
    "\<And>p k. agree ?m (mem_data b2) p k"
    using abc_token [of b w] cap(2) by (auto simp: capb off_def)
  let ?m2 = "mem_data b2"
  have ag2: "agree (mem_data b1) ?m2 L (T - L)"
    using ag b2(4) agree_trans L(2) offT by (metis off_def T_def)
  have "get_int ?m2 eng_abc_data_offset = Some (of_nat base)"
    using agree_int [OF ag2, of eng_abc_data_offset] fld L LT by (simp add: T_def)
  moreover have "base < 2 ^ 31" using L(1) LT offT fit cap(2) capb by linarith
  ultimately have p: "entry ?m2 eng_abc_data_offset j = Some (base + 4 * j)" by (rule entry_ok)
  have bjL: "base + 4 * j + 4 \<le> L" using j L(1) by linarith
  then have sg: "get_int ?m2 (base + 4 * j) = Some (of_nat s)"
    using agree_int [OF ag2, of "base + 4 * j"] tab [OF j cj] L LT by (simp add: s_def T_def)
  have us: "unat (of_nat s :: 32 word) = s" using sT offT fit cap(2) capb by (intro unat_small) linarith
  have uo: "unat (of_nat off :: 32 word) = off" using fit cap(2) capb by (intro unat_small) linarith
  have bj: "abc_bucket ?m T s (hbucket h3 siz us j)" using bk [OF j cj] by (simp add: s_def)
  have ig: "get_int ?m2 s = Some (of_nat i)"
    using bj agree_int [OF b2(4), of s s 0] sT offT by (simp add: abc_bucket_def i_def off_def)
  have ui: "unat (of_nat i :: 32 word) = i" using ic sT offT fit cap(2) capb by (intro unat_small) linarith
  have "s + 4 + 4 * i + 4 \<le> length ?m2" using ic sT offT b2(3) by linarith
  from bput_int [OF this, of "of_nat off"] obtain b3 where
    b3: "bput (\<lambda>m. put_int m (s + 4 + 4 * i) (of_nat off)) b2 = Some b3" "in_block b2 b3 (s + 4 + 4 * i) 4"
      "get_int (mem_data b3) (s + 4 + 4 * i) = Some (of_nat off)" .
  have len3: "length (mem_data b3) = off + (2 + length w)" using b3(2) b2(3) by (simp add: in_block_def)
  then have "off + 2 \<le> length (mem_data b3)" by simp
  from bput_short [OF this, of "of_nat (length w)"] obtain b4 where
    b4: "bput (\<lambda>m. put_short m off (of_nat (length w))) b3 = Some b4" "in_block b3 b4 off 2"
      "get_short (mem_data b4) off = Some (of_nat (length w))" .
  have len4: "length (mem_data b4) = off + (2 + length w)" using b4(2) len3 by (simp add: in_block_def)
  then have "off + 2 + length w \<le> length (mem_data b4)" by simp
  from bput_bytes [OF this] obtain b5 where
    b5: "bput (\<lambda>m. mwrite m (off + 2) w) b4 = Some b5" "in_block b4 b5 (off + 2) (length w)"
      "mread (mem_data b5) (off + 2) (length w) = Some w" .
  have len5: "length (mem_data b5) = off + (2 + length w)" using b5(2) len4 by (simp add: in_block_def)
  have A: "agree ?m2 (mem_data b3) (s + 4 + 4 * i) 4" "agree (mem_data b3) (mem_data b4) off 2"
    "agree (mem_data b4) (mem_data b5) (off + 2) (length w)"
    using b3(2) b4(2) b5(2) by (auto simp: in_block_def)
  have old: "mread (mem_data b5) q n = mread (mem_data b3) q n" if "q + n \<le> off" for q n
    using agreeD [OF A(3), of q n] agreeD [OF A(2), of q n] that len3 len4 by simp
  then have oldi: "get_int (mem_data b5) q = get_int (mem_data b3) q" if "q + 4 \<le> off" for q
    using that by (simp add: get_int_def)
  have sl: "s + 4 + 4 * i + 4 \<le> off" using ic sT offT by linarith
  have bjs: "base + 4 * j + 4 \<le> s" using bjL boff_ge [of L 4 4 c j] by (simp add: s_def)
  have sg5: "get_int (mem_data b5) (base + 4 * j) = Some (of_nat s)" "get_int (mem_data b5) s = Some (of_nat i)"
    using oldi [of "base + 4 * j"] oldi [of s] agree_int [OF A(1), of "base + 4 * j"] agree_int [OF A(1), of s]
      sg ig sl bjs b2(3) by simp_all
  have "s + 4 \<le> length (mem_data b5)" using sl len5 by linarith
  from bput_int [OF this, of "of_nat i + 1"] obtain b6 where
    b6: "bput (\<lambda>m. put_int m s (of_nat i + 1)) b5 = Some b6" "in_block b5 b6 s 4"
      "get_int (mem_data b6) s = Some (of_nat i + 1)" .
  have A6: "agree (mem_data b5) (mem_data b6) s 4" and len6: "length (mem_data b6) = off + (2 + length w)"
    using b6(2) len5 by (auto simp: in_block_def)
  have step: "abc_fill siz w b = Some b6"
    using hv3_ok [OF w] b2(1) p sg us ig ui b3(1) b4(1) b5(1) sg5 b6(1) by (simp add: abc_fill_def j_def)
  have A5: "agree ?m (mem_data b5) (s + 4 + 4 * i) 4"
    unfolding agree_def
  proof (intro allI impI)
    fix q n assume q: "q + n \<le> length ?m" "q + n \<le> s + 4 + 4 * i \<or> s + 4 + 4 * i + 4 \<le> q"
    then have "mread (mem_data b5) q n = mread (mem_data b3) q n" by (intro old) (simp add: off_def)
    also have "\<dots> = mread ?m2 q n" using q b2(3) by (intro agreeD [OF A(1)]) (auto simp: off_def)
    also have "\<dots> = mread ?m q n" using q by (intro agreeD [OF b2(4)])
    finally show "mread (mem_data b5) q n = mread ?m q n" .
  qed
  have tok: "tok_at (mem_data b5) T (of_nat off) w"
  proof -
    have "get_short (mem_data b5) off = get_short (mem_data b4) off"
      using len4 by (intro agree_short [OF A(3)]) auto
    then show ?thesis using b4(3) b5(3) offT len5 by (simp add: tok_at_def uo)
  qed
  have agj: "agree ?m (mem_data b6) s (4 + 4 * c j)"
  proof (rule agree_trans [OF agree_mono [OF A5] agree_mono [OF A6]])
    show "length ?m \<le> length (mem_data b5)" using len5 by (simp add: off_def)
  qed (use ic in linarith)+
  have "abc_bucket (mem_data b6) T (boff L 4 4 c k) (hbucket h3 siz (us @ [w]) k)" if k: "k < siz" "c k \<noteq> 0" for k
  proof (cases "k = j")
    case True
    have "abc_bucket (mem_data b6) T s (hbucket h3 siz us j @ [w])"
    proof (rule abc_bucket_snoc [OF bj, where ma = "mem_data b5" and t = "of_nat off"])
      show "get_int (mem_data b5) (s + 4 + 4 * length (hbucket h3 siz us j)) = Some (of_nat off)"
        using oldi [of "s + 4 + 4 * i"] b3(3) sl by (simp add: i_def)
      show "s + 8 + 4 * length (hbucket h3 siz us j) \<le> T" using ic sT unfolding i_def by linarith
    qed (use A5 A6 tok b6(3) offT len5 len6 in \<open>simp_all add: i_def off_def\<close>)
    then show ?thesis using True by (simp add: hbucket_snoc j_def s_def)
  next
    case False
    then have "k < j \<or> j < k" by linarith
    then have "boff L 4 4 c k + (4 + 4 * c k) \<le> s \<or> s + (4 + 4 * c j) \<le> boff L 4 4 c k"
      using boff_apart [of k j c L 4 4] boff_apart [of j k c L 4 4] k(2) cj by (auto simp: s_def)
    moreover have "length (hbucket h3 siz us k) \<le> c k" using c [of k] False by (simp add: hbucket_snoc j_def)
    moreover have "boff L 4 4 c k + (4 + 4 * c k) \<le> off" using boff_apart [of k siz c L 4 4, OF k] offT by (simp add: T_def)
    ultimately have "abc_bucket (mem_data b6) T (boff L 4 4 c k) (hbucket h3 siz us k)"
      using sT len6 by (intro abc_bucket_agree [OF bk [OF k] agj]) (auto simp: off_def)
    then show ?thesis using False by (simp add: hbucket_snoc j_def)
  qed
  moreover have "agree (mem_data b1) (mem_data b6) L (T - L)"
  proof (rule agree_trans [OF ag agree_mono [OF agj]])
    show "L \<le> s" by (simp add: s_def boff_ge)
    show "s + (4 + 4 * c j) \<le> L + (T - L)" using sT LT by simp
    show "length (mem_data b1) \<le> length ?m" using L(2) offT by (simp add: off_def T_def)
  qed
  moreover have "b6 = b1\<lparr>mem_data := mem_data b6\<rparr>"
  proof -
    have "b2 = b1\<lparr>mem_data := ?m2\<rparr>" using b2(2) by (subst (asm) b) simp
    from in_block_same [OF b6(2) in_block_same [OF b5(2) in_block_same [OF b4(2) in_block_same [OF b3(2) this]]]]
    show ?thesis .
  qed
  ultimately show ?thesis using step len6 len by (simp add: abc_filled_def tok_space_def off_def T_def)
qed

lemma abc_fill_loop:
  assumes siz: "0 < siz" and c: "c = (\<lambda>j. length (hbucket h3 siz ws j))"
    and ws: "\<forall>w \<in> set ws. 3 \<le> length w"
    and fld: "get_int (mem_data b1) eng_abc_data_offset = Some (of_nat base)" "eng_abc_data_offset + 4 \<le> base"
    and L: "base + 4 * siz \<le> L" "length (mem_data b1) = boff L 4 4 c siz"
    and cap: "boff L 4 4 c siz + tok_space ws \<le> mem_capability b1" "mem_capability b1 < 2 ^ 31 - 1"
    and tab: "\<And>j. j < siz \<Longrightarrow> c j \<noteq> 0 \<Longrightarrow> get_int (mem_data b1) (base + 4 * j) = Some (of_nat (boff L 4 4 c j))"
    and us: "prefix us ws" and e: "abc_filled b1 siz L c [] b1"
  shows "\<exists>b. foldM (abc_fill siz) us b1 = Some b \<and> abc_filled b1 siz L c us b"
  using us
proof (induction us rule: rev_induct)
  case Nil
  show ?case using e by simp
next
  case (snoc w us)
  then obtain b where b: "foldM (abc_fill siz) us b1 = Some b" "abc_filled b1 siz L c us b"
    by (auto dest: append_prefixD)
  obtain zs where zs: "ws = (us @ [w]) @ zs" using snoc.prems by (auto simp: prefix_def)
  have "length (hbucket h3 siz (us @ [w]) j) \<le> c j" for j by (simp add: c(1) zs hbucket_def)
  moreover have "3 \<le> length w" using ws zs by simp
  moreover have "boff L 4 4 c siz + tok_space (us @ [w]) \<le> mem_capability b1"
    using cap(1) zs by (simp add: tok_space_def)
  ultimately obtain b' where "abc_fill siz w b = Some b'" "abc_filled b1 siz L c (us @ [w]) b'"
    using abc_fill_step [OF b(2) _ siz _ fld L _ cap(2) tab] by blast
  then show ?case using b(1) by (auto simp: foldM_append)
qed

end
