(* ===== verification/MSearchBuild.thy ===== *)
theory MSearchBuild
  imports MSearchFill
begin

text \<open>
  The engine that \<open>zmsearch_add_over\<close> builds: where its tables, buckets and tokens lie, and that a block
  of the initial capacity is never reallocated while pointers into it are held.
\<close>

section \<open>The tables\<close>

lemma table_phase:
  assumes base: "length (mem_data b) = base" "fld + 8 \<le> base"
    and ws: "\<forall>w \<in> set ws. hvf w = Some (h w)" "0 < siz"
    and c: "c = (\<lambda>j. length (hbucket h siz ws j))"
    and L: "L = base + 4 * siz" "boff L e wd c siz \<le> mem_capability b" "mem_capability b < 2 ^ 31 - 1"
    and z: "\<And>m s. mread m s e = Some (replicate e 0) \<Longrightarrow> z m s = Some m" and e: "0 < wd"
  shows "\<exists>b1 b2 b3 b4 b5. bput (\<lambda>m. put_int m (fld + 4) (of_nat siz)) b = Some b1
    \<and> mem_malloc b1 (4 * siz) = Some (b2, base, False)
    \<and> bput (\<lambda>m. put_int m fld (of_nat base)) b2 = Some b3
    \<and> foldM (count_word fld hvf siz) ws b3 = Some b4 \<and> foldM (gen_alloc fld e wd z) [0..<siz] b4 = Some b5
    \<and> reserved b4 base siz L e wd c siz b5 \<and> b5 = b\<lparr>mem_data := mem_data b5\<rparr>
    \<and> ab_data_tmp b3 = ab_data_tmp b \<and> ab_data_tmp b5 = ab_data_tmp b
    \<and> abc_data_tmp b3 = abc_data_tmp b \<and> abc_data_tmp b5 = abc_data_tmp b
    \<and> get_int (mem_data b5) fld = Some (of_nat base) \<and> get_int (mem_data b5) (fld + 4) = Some (of_nat siz)
    \<and> agree (mem_data b) (mem_data b5) fld 8"
proof -
  have LT: "L \<le> boff L e wd c siz" by (rule boff_ge)
  have bs: "base < 2 ^ 31" using L LT by linarith
  have "fld + 4 + 4 \<le> length (mem_data b)" using base by simp
  from bput_int [OF this, of "of_nat siz"] obtain b1 where
    b1: "bput (\<lambda>m. put_int m (fld + 4) (of_nat siz)) b = Some b1" "in_block b b1 (fld + 4) 4"
      "get_int (mem_data b1) (fld + 4) = Some (of_nat siz)" .
  have l1: "length (mem_data b1) = base" and s1: "b1 = b\<lparr>mem_data := mem_data b1\<rparr>"
    using b1(2) base by (simp_all add: in_block_def)
  define b2 where "b2 = b1\<lparr>mem_data := mem_data b1 @ replicate (4 * siz) 0\<rparr>"
  have cap1: "mem_capability b1 = mem_capability b" by (subst s1) simp
  have m2: "mem_malloc b1 (4 * siz) = Some (b2, base, False)"
    using mem_malloc_fits [of b1 "4 * siz"] L LT l1 cap1 by (simp add: b2_def)
  have l2: "length (mem_data b2) = L" using l1 L by (simp add: b2_def)
  have "fld + 4 \<le> length (mem_data b2)" using l2 base L by simp
  from bput_int [OF this, of "of_nat base"] obtain b3 where
    b3: "bput (\<lambda>m. put_int m fld (of_nat base)) b2 = Some b3" "in_block b2 b3 fld 4"
      "get_int (mem_data b3) fld = Some (of_nat base)" .
  have l3: "length (mem_data b3) = L" and a3: "agree (mem_data b2) (mem_data b3) fld 4"
    using b3(2) l2 by (simp_all add: in_block_def)
  have t3: "get_int (mem_data b3) (base + 4 * j) = Some (of_nat 0)" if "j < siz" for j
  proof -
    have q: "base \<le> base + 4 * j" "base + 4 * j + 4 \<le> base + 4 * siz" using that by auto
    have "mread (mem_data b2) (base + 4 * j) 4 = Some (replicate 4 0)"
      unfolding b2_def using mread_zeros [of "mem_data b1" "base + 4 * j" 4 "4 * siz"] q l1 by simp
    then have "mread (mem_data b3) (base + 4 * j) 4 = Some (replicate 4 0)"
      using agreeD [OF a3, of "base + 4 * j" 4] q base l2 L by simp
    then show ?thesis by (simp add: get_int_def zint_unpack_def numeral_eq_Suc Let_def)
  qed
  have "base + 4 * siz \<le> length (mem_data b3)" "fld + 4 \<le> base" using l3 L base by simp_all
  from count_loop [OF ws(1,2) b3(3) bs this(2,1), of "\<lambda>_. 0"] t3
  obtain b4 where b4: "foldM (count_word fld hvf siz) ws b3 = Some b4" "in_block b3 b4 base (4 * siz)"
    "\<forall>j < siz. get_int (mem_data b4) (base + 4 * j) = Some (of_nat (c j))" by (auto simp: c)
  have a4: "agree (mem_data b3) (mem_data b4) base (4 * siz)" and l4: "length (mem_data b4) = L"
    using b4(2) l3 by (simp_all add: in_block_def)
  have s2: "b2 = b\<lparr>mem_data := mem_data b2\<rparr>" unfolding b2_def by (subst s1) simp
  have s3: "b3 = b\<lparr>mem_data := mem_data b3\<rparr>" by (rule in_block_same [OF b3(2) s2])
  have s4: "b4 = b\<lparr>mem_data := mem_data b4\<rparr>" by (rule in_block_same [OF b4(2) s3])
  have f4: "get_int (mem_data b4) fld = Some (of_nat base)"
    using agree_int [OF a4, of fld] b3(3) base l3 L by simp
  have a: "agree (mem_data b1) (mem_data b2) fld 4" by (simp add: b2_def agree_append_any)
  have "get_int (mem_data b4) (fld + 4) = get_int (mem_data b1) (fld + 4)"
    using agree_int [OF a4, of "fld + 4"] agree_int [OF a3, of "fld + 4"] agree_int [OF a, of "fld + 4"]
      base l1 l2 l3 L by simp
  then have g4: "get_int (mem_data b4) (fld + 4) = Some (of_nat siz)" using b1(3) by simp
  have cl: "\<forall>j. c j < 2 ^ 31"
  proof
    fix j
    have "c j \<le> boff L e wd c siz" if "j < siz"
    proof (cases "c j = 0")
      case False
      have "c j \<le> wd * c j" using e by simp
      then show ?thesis using boff_apart [OF that, of c L e wd, OF False] by linarith
    qed simp
    moreover have "c j = 0" if "\<not> j < siz" using that ws(2) mod_less_divisor [of siz] by (auto simp: c hbucket_def filter_empty_conv)
    ultimately show "c j < 2 ^ 31" using L by (cases "j < siz") auto
  qed
  have cap4: "mem_capability b4 = mem_capability b" by (subst s4) simp
  have "\<exists>b5. foldM (gen_alloc fld e wd z) [0..<siz] b4 = Some b5 \<and> reserved b4 base siz L e wd c siz b5"
    using L cap4 base by (intro reserve_loop [OF z f4 _ l4 _ cl _ _ b4(3)]) simp_all
  then obtain b5 where b5: "foldM (gen_alloc fld e wd z) [0..<siz] b4 = Some b5" "reserved b4 base siz L e wd c siz b5"
    by blast
  have a5: "agree (mem_data b4) (mem_data b5) base (4 * siz)" and s5': "b5 = b4\<lparr>mem_data := mem_data b5\<rparr>"
    using b5(2) by (auto simp: reserved_def)
  have s5: "b5 = b\<lparr>mem_data := mem_data b5\<rparr>" using s5' by (subst (asm) s4) simp
  have f5: "get_int (mem_data b5) fld = Some (of_nat base)" "get_int (mem_data b5) (fld + 4) = Some (of_nat siz)"
    using agree_int [OF a5, of fld] agree_int [OF a5, of "fld + 4"] f4 g4 base l4 L by simp_all
  have ag: "agree (mem_data b) (mem_data b5) fld 8"
    unfolding agree_def
  proof (intro allI impI)
    fix q n assume q: "q + n \<le> length (mem_data b)" "q + n \<le> fld \<or> fld + 8 \<le> q"
    have "mread (mem_data b5) q n = mread (mem_data b4) q n" using q base l4 L by (intro agreeD [OF a5]) auto
    also have "\<dots> = mread (mem_data b3) q n" using q base l3 L by (intro agreeD [OF a4]) auto
    also have "\<dots> = mread (mem_data b2) q n" using q base l2 L by (intro agreeD [OF a3]) auto
    also have "\<dots> = mread (mem_data b1) q n" using q base l1 L by (intro agreeD [OF a]) auto
    also have "\<dots> = mread (mem_data b) q n" using q b1(2) by (intro agreeD [where p = "fld + 4" and k = 4]) (auto simp: in_block_def)
    finally show "mread (mem_data b5) q n = mread (mem_data b) q n" .
  qed
  have t: "ab_data_tmp b3 = ab_data_tmp b" "abc_data_tmp b3 = abc_data_tmp b"
    by (subst s3, simp)+
  have t5: "ab_data_tmp b5 = ab_data_tmp b" "abc_data_tmp b5 = abc_data_tmp b"
    by (subst s5, simp)+
  show ?thesis using b1(1) m2 b3(1) b4(1) b5 s5 t t5 f5 ag by blast
qed

lemma agree_low:
  "agree m m1 p k \<Longrightarrow> (\<And>q n. q + n \<le> length m \<Longrightarrow> mread m2 q n = mread m1 q n) \<Longrightarrow> agree m m2 p k"
  by (simp add: agree_def)

section \<open>The tokens of two bytes\<close>

abbreviation tab_size :: "bytes list \<Rightarrow> nat" where "tab_size ws \<equiv> 2 * length ws + 1"

abbreviation counts :: "(bytes \<Rightarrow> nat) \<Rightarrow> bytes list \<Rightarrow> nat \<Rightarrow> nat" where
  "counts h ws \<equiv> (\<lambda>j. length (hbucket h (tab_size ws) ws j))"

abbreviation bucket_off :: "(bytes \<Rightarrow> nat) \<Rightarrow> nat \<Rightarrow> nat \<Rightarrow> bytes list \<Rightarrow> nat \<Rightarrow> nat" where
  "bucket_off h w base ws \<equiv> boff (base + 4 * tab_size ws) w w (counts h ws)"

definition ab_lay :: "bytes \<Rightarrow> nat \<Rightarrow> bytes list \<Rightarrow> bool" where
  "ab_lay m base ws \<longleftrightarrow> get_int m eng_ab_data_offset = Some (of_nat base)
     \<and> get_int m eng_ab_size = Some (of_nat (tab_size ws))
     \<and> (\<forall>j < tab_size ws.
          get_int m (base + 4 * j) = Some (of_nat (if counts h2 ws j = 0 then 0 else bucket_off h2 2 base ws j))
          \<and> (counts h2 ws j \<noteq> 0 \<longrightarrow>
               ab_bucket m (bucket_off h2 2 base ws j) (hbucket h2 (tab_size ws) ws j)))"

definition abc_lay :: "bytes \<Rightarrow> nat \<Rightarrow> bytes list \<Rightarrow> bool" where
  "abc_lay m base ws \<longleftrightarrow> get_int m eng_abc_data_offset = Some (of_nat base)
     \<and> get_int m eng_abc_size = Some (of_nat (tab_size ws))
     \<and> (\<forall>j < tab_size ws.
          get_int m (base + 4 * j) = Some (of_nat (if counts h3 ws j = 0 then 0 else bucket_off h3 4 base ws j))
          \<and> (counts h3 ws j \<noteq> 0 \<longrightarrow>
               abc_bucket m (bucket_off h3 4 base ws (tab_size ws)) (bucket_off h3 4 base ws j)
                 (hbucket h3 (tab_size ws) ws j)))"

lemma h2_inj: "length v = 2 \<Longrightarrow> length w = 2 \<Longrightarrow> h2 v = h2 w \<Longrightarrow> v = w"
  using h2_bytes by metis

lemma h2_less: "h2 w < 65536"
  using unat_byte_less [of "w ! 0"] unat_byte_less [of "w ! 1"] unfolding h2_def by linarith

text \<open>A bucket never has more tokens than its 16-bit counter can count: with many tokens the table is
  longer than there are values of \<open>hv\<close>.\<close>

lemma ab_counts:
  assumes "distinct ws" "\<forall>w \<in> set ws. length w = 2"
  shows "counts h2 ws j < 2 ^ 15"
proof (cases "length ws < 2 ^ 15")
  case True
  have "counts h2 ws j \<le> length ws" by (simp add: hbucket_def)
  with True show ?thesis by linarith
next
  case False
  let ?B = "hbucket h2 (tab_size ws) ws j"
  have m: "h2 w mod tab_size ws = h2 w" for w using h2_less [of w] False by (intro mod_less) simp
  have "v = w" if "v \<in> set ?B" "w \<in> set ?B" for v w
    using that assms(2) h2_inj [of v w] by (simp only: hbucket_def set_filter mem_Collect_eq m)
  then have "card (set ?B) \<le> 1" by (metis card_le_Suc0_iff_eq finite_set One_nat_def)
  moreover have "distinct ?B" using assms(1) by (simp add: hbucket_def)
  ultimately have "length ?B \<le> 1" by (metis distinct_card)
  then show ?thesis by (rule le_less_trans) simp
qed

lemma bucket_off_bound: "0 < w \<Longrightarrow> bucket_off h w base ws (tab_size ws) \<le> base + 4 + (8 + 2 * w) * length ws"
  using boff_bound [where c = "counts h ws" and h = h and siz = "tab_size ws" and ws = ws and
    L = "base + 4 * tab_size ws" and e = w and wd = w] by (simp add: add_mult_distrib)

lemma zero_get: "mread m p 2 = Some (replicate 2 0) \<Longrightarrow> get_short m p = Some 0"
  "mread m p 4 = Some (replicate 4 0) \<Longrightarrow> get_int m p = Some 0"
  by (simp_all add: get_short_def get_int_def zint_unpack_def zint_unpack2_def numeral_eq_Suc Let_def)

lemma alloc_gen:
  "ab_alloc = gen_alloc eng_ab_data_offset 2 2 (\<lambda>m s. put_short m s 0)"
  "abc_alloc = gen_alloc eng_abc_data_offset 4 4 (\<lambda>m s. put_int m s 0)"
  by (simp_all add: fun_eq_iff ab_alloc_def abc_alloc_def gen_alloc_def)

lemma reserved_zero:
  assumes "reserved b0 base siz L e wd c siz b" "j < siz" "c j \<noteq> 0"
  shows "mread (mem_data b) (boff L e wd c j) e = Some (replicate e 0)"
proof (rule zeros_part)
  show "mread (mem_data b) L (length (mem_data b) - L) = Some (replicate (length (mem_data b) - L) 0)"
    using assms(1) unfolding reserved_def by blast
  show "L \<le> boff L e wd c j" by (rule boff_ge)
  have "length (mem_data b) = boff L e wd c siz" using assms(1) by (simp add: reserved_def)
  then show "boff L e wd c j + e \<le> L + (length (mem_data b) - L)"
    using boff_apart [OF assms(2), of c L e wd, OF assms(3)] boff_ge [of L e wd c siz] by simp
qed

lemma over_2:
  assumes m: "length (mem_data b) = base" "sizeof_engine \<le> base"
    and ws: "\<forall>w \<in> set (ab_data_tmp b). length w = 2" "distinct (ab_data_tmp b)" "ab_data_tmp b \<noteq> []"
    and cap: "base + 4 + 12 * length (ab_data_tmp b) \<le> mem_capability b" "mem_capability b < 2 ^ 31 - 1"
  shows "\<exists>b'. zmsearch_add_over_2 b = Some b' \<and> b' = b\<lparr>mem_data := mem_data b'\<rparr>
    \<and> ab_lay (mem_data b') base (ab_data_tmp b)
    \<and> length (mem_data b') = bucket_off h2 2 base (ab_data_tmp b) (tab_size (ab_data_tmp b))
    \<and> agree (mem_data b) (mem_data b') eng_ab_data_offset 8"
proof -
  define ws' where "ws' = ab_data_tmp b"
  define siz where "siz = tab_size ws'"
  define c where "c = (\<lambda>j. length (hbucket h2 siz ws' j))"
  define L where "L = base + 4 * siz"
  have hv: "\<forall>w \<in> set ws'. hv2 w = Some (h2 w)" using ws(1) hv2_ok by (simp add: ws'_def)
  have T: "boff L 2 2 c siz \<le> mem_capability b"
    using bucket_off_bound [where w = 2 and h = h2 and base = base and ws = ws'] cap(1) by (simp add: L_def c_def siz_def ws'_def)
  have siz: "0 < siz" by (simp add: siz_def)
  from table_phase [OF m(1) _ hv siz c_def L_def T cap(2), of eng_ab_data_offset "\<lambda>m s. put_short m s 0",
      OF _ zero_writes(1)] m(2)
  obtain b1 b2 b3 b4 b5 where p:
    "bput (\<lambda>m. put_int m eng_ab_size (of_nat siz)) b = Some b1"
    "mem_malloc b1 (4 * siz) = Some (b2, base, False)"
    "bput (\<lambda>m. put_int m eng_ab_data_offset (of_nat base)) b2 = Some b3"
    "foldM (count_word eng_ab_data_offset hv2 siz) ws' b3 = Some b4"
    "foldM ab_alloc [0..<siz] b4 = Some b5"
    "reserved b4 base siz L 2 2 c siz b5" "b5 = b\<lparr>mem_data := mem_data b5\<rparr>"
    "ab_data_tmp b3 = ws'" "ab_data_tmp b5 = ws'"
    "get_int (mem_data b5) eng_ab_data_offset = Some (of_nat base)"
    "get_int (mem_data b5) eng_ab_size = Some (of_nat siz)"
    "agree (mem_data b) (mem_data b5) eng_ab_data_offset 8"
    by (auto simp: alloc_gen ws'_def)
  have len5: "length (mem_data b5) = boff L 2 2 c siz" and tab5: "\<And>j. j < siz \<Longrightarrow>
      get_int (mem_data b5) (base + 4 * j) = Some (of_nat (if c j = 0 then 0 else boff L 2 2 c j))"
    using p(6) by (simp_all add: reserved_def)
  have e: "ab_filled b5 siz L c [] b5"
    using reserved_zero [OF p(6)] zero_get(1)
    by (simp add: ab_filled_def in_block_refl ab_bucket_def hbucket_def)
  have c15: "c j < 2 ^ 15" for j using ab_counts [OF ws(2,1), of j] by (simp add: c_def siz_def ws'_def)
  have "\<exists>b'. foldM (ab_fill siz) ws' b5 = Some b' \<and> ab_filled b5 siz L c ws' b'"
  proof (rule ab_fill_loop [OF siz c_def c15 _ p(10) _ _ len5 _ _ _ e])
    show "\<forall>w \<in> set ws'. length w = 2" using ws(1) by (simp add: ws'_def)
    show "eng_ab_data_offset + 4 \<le> base" "base + 4 * siz \<le> L" "boff L 2 2 c siz < 2 ^ 31"
      using m(2) T cap(2) by (simp_all add: L_def)
    show "get_int (mem_data b5) (base + 4 * j) = Some (of_nat (boff L 2 2 c j))" if "j < siz" "c j \<noteq> 0" for j
      using tab5 [OF that(1)] that(2) by simp
  qed simp
  then obtain b' where b': "foldM (ab_fill siz) ws' b5 = Some b'" "ab_filled b5 siz L c ws' b'" by blast
  have ib: "in_block b5 b' L (boff L 2 2 c siz - L)" and
    bk: "\<And>j. j < siz \<Longrightarrow> c j \<noteq> 0 \<Longrightarrow> ab_bucket (mem_data b') (boff L 2 2 c j) (hbucket h2 siz ws' j)"
    using b'(2) by (auto simp: ab_filled_def)
  have LT: "L \<le> boff L 2 2 c siz" by (rule boff_ge)
  have ag: "agree (mem_data b5) (mem_data b') L (boff L 2 2 c siz - L)" using ib by (simp add: in_block_def)
  have low: "mread (mem_data b') q n = mread (mem_data b5) q n" if "q + n \<le> L" for q n
    using that LT len5 by (intro agreeD [OF ag]) auto
  have "ab_lay (mem_data b') base ws'"
    unfolding ab_lay_def
  proof (intro conjI allI impI)
    show "get_int (mem_data b') eng_ab_data_offset = Some (of_nat base)"
      "get_int (mem_data b') eng_ab_size = Some (of_nat (tab_size ws'))"
      using p(10,11) low m(2) by (simp_all add: get_int_def siz_def L_def)
    fix j assume j: "j < tab_size ws'"
    then have "j < siz" by (simp only: siz_def)
    then have "base + 4 * j + 4 \<le> L" unfolding L_def by linarith
    then have "get_int (mem_data b') (base + 4 * j) = get_int (mem_data b5) (base + 4 * j)"
      by (simp add: get_int_def low)
    then show "get_int (mem_data b') (base + 4 * j) = Some (of_nat (if counts h2 ws' j = 0 then 0 else bucket_off h2 2 base ws' j))"
      using tab5 [of j] j unfolding siz_def c_def L_def by simp
    assume "counts h2 ws' j \<noteq> 0"
    then show "ab_bucket (mem_data b') (bucket_off h2 2 base ws' j) (hbucket h2 (tab_size ws') ws' j)"
      using bk [of j] j unfolding siz_def c_def L_def by simp
  qed
  moreover have "zmsearch_add_over_2 b = Some b'"
    using ws(3) p(1-5) p(8,9) b'(1)
    by (simp add: zmsearch_add_over_2_def mem_malloc_held_def Let_def siz_def ws'_def)
  moreover have "b' = b\<lparr>mem_data := mem_data b'\<rparr>" by (rule in_block_same [OF ib p(7)])
  moreover have "length (mem_data b') = boff L 2 2 c siz" using ib len5 by (simp add: in_block_def)
  moreover have "agree (mem_data b) (mem_data b') eng_ab_data_offset 8"
    by (rule agree_low [OF p(12)]) (simp add: low m(1) L_def)
  ultimately show ?thesis unfolding ws'_def siz_def c_def L_def by blast
qed

section \<open>Longer tokens\<close>

lemma over_3:
  assumes m: "length (mem_data b) = base" "sizeof_engine \<le> base"
    and ws: "\<forall>w \<in> set (abc_data_tmp b). 3 \<le> length w" "abc_data_tmp b \<noteq> []"
    and cap: "base + 4 + 16 * length (abc_data_tmp b) + tok_space (abc_data_tmp b) \<le> mem_capability b"
      "mem_capability b < 2 ^ 31 - 1"
  shows "\<exists>b'. zmsearch_add_over_3 b = Some b' \<and> b' = b\<lparr>mem_data := mem_data b'\<rparr>
    \<and> abc_lay (mem_data b') base (abc_data_tmp b)
    \<and> length (mem_data b') = bucket_off h3 4 base (abc_data_tmp b) (tab_size (abc_data_tmp b))
        + tok_space (abc_data_tmp b)
    \<and> agree (mem_data b) (mem_data b') eng_abc_data_offset 8"
proof -
  define ws' where "ws' = abc_data_tmp b"
  define siz where "siz = tab_size ws'"
  define c where "c = (\<lambda>j. length (hbucket h3 siz ws' j))"
  define L where "L = base + 4 * siz"
  have hv: "\<forall>w \<in> set ws'. hv3 w = Some (h3 w)" using ws(1) hv3_ok by (simp add: ws'_def)
  have T: "boff L 4 4 c siz + tok_space ws' \<le> mem_capability b"
    using bucket_off_bound [where w = 4 and h = h3 and base = base and ws = ws'] cap(1)
    by (simp add: L_def c_def siz_def ws'_def)
  have T': "boff L 4 4 c siz \<le> mem_capability b" using T by simp
  have siz: "0 < siz" by (simp add: siz_def)
  from table_phase [OF m(1) _ hv siz c_def L_def T' cap(2), of eng_abc_data_offset "\<lambda>m s. put_int m s 0",
      OF _ zero_writes(2)] m(2)
  obtain b1 b2 b3 b4 b5 where p:
    "bput (\<lambda>m. put_int m eng_abc_size (of_nat siz)) b = Some b1"
    "mem_malloc b1 (4 * siz) = Some (b2, base, False)"
    "bput (\<lambda>m. put_int m eng_abc_data_offset (of_nat base)) b2 = Some b3"
    "foldM (count_word eng_abc_data_offset hv3 siz) ws' b3 = Some b4"
    "foldM abc_alloc [0..<siz] b4 = Some b5"
    "reserved b4 base siz L 4 4 c siz b5" "b5 = b\<lparr>mem_data := mem_data b5\<rparr>"
    "abc_data_tmp b3 = ws'" "abc_data_tmp b5 = ws'"
    "get_int (mem_data b5) eng_abc_data_offset = Some (of_nat base)"
    "get_int (mem_data b5) eng_abc_size = Some (of_nat siz)"
    "agree (mem_data b) (mem_data b5) eng_abc_data_offset 8"
    by (auto simp: alloc_gen ws'_def)
  have len5: "length (mem_data b5) = boff L 4 4 c siz" and tab5: "\<And>j. j < siz \<Longrightarrow>
      get_int (mem_data b5) (base + 4 * j) = Some (of_nat (if c j = 0 then 0 else boff L 4 4 c j))"
    using p(6) by (simp_all add: reserved_def)
  have e: "abc_filled b5 siz L c [] b5"
    using reserved_zero [OF p(6)] zero_get(2) len5
    by (simp add: abc_filled_def agree_refl abc_bucket_def hbucket_def tok_space_def)
  have capb: "mem_capability b5 = mem_capability b" by (subst p(7)) simp
  have "\<exists>b'. foldM (abc_fill siz) ws' b5 = Some b' \<and> abc_filled b5 siz L c ws' b'"
  proof (rule abc_fill_loop [OF siz c_def _ p(10) _ _ len5 _ _ _ _ e])
    show "\<forall>w \<in> set ws'. 3 \<le> length w" using ws(1) by (simp add: ws'_def)
    show "eng_abc_data_offset + 4 \<le> base" "base + 4 * siz \<le> L" "mem_capability b5 < 2 ^ 31 - 1"
      "boff L 4 4 c siz + tok_space ws' \<le> mem_capability b5"
      using m(2) T cap(2) capb by (simp_all add: L_def)
    show "get_int (mem_data b5) (base + 4 * j) = Some (of_nat (boff L 4 4 c j))" if "j < siz" "c j \<noteq> 0" for j
      using tab5 [OF that(1)] that(2) by simp
  qed simp
  then obtain b' where b': "foldM (abc_fill siz) ws' b5 = Some b'" "abc_filled b5 siz L c ws' b'" by blast
  have ag: "agree (mem_data b5) (mem_data b') L (boff L 4 4 c siz - L)" and s': "b' = b5\<lparr>mem_data := mem_data b'\<rparr>"
    and l': "length (mem_data b') = boff L 4 4 c siz + tok_space ws'" and
    bk: "\<And>j. j < siz \<Longrightarrow> c j \<noteq> 0 \<Longrightarrow>
      abc_bucket (mem_data b') (boff L 4 4 c siz) (boff L 4 4 c j) (hbucket h3 siz ws' j)"
    using b'(2) unfolding abc_filled_def by blast+
  have LT: "L \<le> boff L 4 4 c siz" by (rule boff_ge)
  have low: "mread (mem_data b') q n = mread (mem_data b5) q n" if "q + n \<le> L" for q n
    using that LT len5 by (intro agreeD [OF ag]) auto
  have "abc_lay (mem_data b') base ws'"
    unfolding abc_lay_def
  proof (intro conjI allI impI)
    show "get_int (mem_data b') eng_abc_data_offset = Some (of_nat base)"
      "get_int (mem_data b') eng_abc_size = Some (of_nat (tab_size ws'))"
      using p(10,11) low m(2) by (simp_all add: get_int_def siz_def L_def)
    fix j assume j: "j < tab_size ws'"
    then have "j < siz" by (simp only: siz_def)
    then have "base + 4 * j + 4 \<le> L" unfolding L_def by linarith
    then have "get_int (mem_data b') (base + 4 * j) = get_int (mem_data b5) (base + 4 * j)"
      by (simp add: get_int_def low)
    then show "get_int (mem_data b') (base + 4 * j) = Some (of_nat (if counts h3 ws' j = 0 then 0 else bucket_off h3 4 base ws' j))"
      using tab5 [of j] j unfolding siz_def c_def L_def by simp
    assume "counts h3 ws' j \<noteq> 0"
    then show "abc_bucket (mem_data b') (bucket_off h3 4 base ws' (tab_size ws')) (bucket_off h3 4 base ws' j)
        (hbucket h3 (tab_size ws') ws' j)"
      using bk [of j] j unfolding siz_def c_def L_def by simp
  qed
  moreover have "zmsearch_add_over_3 b = Some b'"
    using ws(2) p(1-5) p(8,9) b'(1) by (simp add: zmsearch_add_over_3_def Let_def siz_def ws'_def)
  moreover have "b' = b\<lparr>mem_data := mem_data b'\<rparr>" using s' by (subst (asm) p(7)) simp
  moreover have "agree (mem_data b) (mem_data b') eng_abc_data_offset 8"
    by (rule agree_low [OF p(12)]) (simp add: low m(1) L_def)
  ultimately show ?thesis using l' unfolding ws'_def siz_def c_def L_def by blast
qed

section \<open>Layouts survive later writes\<close>

lemma ab_lay_mono:
  assumes "ab_lay m base ws" "sizeof_engine \<le> base"
    and "bucket_off h2 2 base ws (tab_size ws) \<le> length m"
    and ag: "\<And>q n. eng_ab_data_offset \<le> q \<Longrightarrow> q + n \<le> eng_abc_data_offset \<or> sizeof_engine \<le> q \<Longrightarrow>
      q + n \<le> length m \<Longrightarrow> mread m' q n = mread m q n"
  shows "ab_lay m' base ws"
proof -
  have "base + 4 * tab_size ws \<le> bucket_off h2 2 base ws (tab_size ws)" by (rule boff_ge)
  then have bl: "base + 4 * tab_size ws \<le> length m" using assms(3) by linarith
  have "get_int m' eng_ab_data_offset = get_int m eng_ab_data_offset" "get_int m' eng_ab_size = get_int m eng_ab_size"
    using assms(2) bl by (simp_all add: get_int_def ag)
  moreover have "get_int m' (base + 4 * j) = get_int m (base + 4 * j)" if "j < tab_size ws" for j
  proof -
    have "base + 4 * j + 4 \<le> length m" using bl mult_le_mono2 [OF Suc_leI [OF that], of 4] by simp
    then show ?thesis using assms(2) by (simp add: get_int_def ag)
  qed
  moreover have "ab_bucket m' (bucket_off h2 2 base ws j) (hbucket h2 (tab_size ws) ws j)"
    if j: "j < tab_size ws" "counts h2 ws j \<noteq> 0" and bk: "ab_bucket m (bucket_off h2 2 base ws j) (hbucket h2 (tab_size ws) ws j)" for j
  proof -
    define s where "s = bucket_off h2 2 base ws j"
    define n where "n = length (hbucket h2 (tab_size ws) ws j)"
    have s: "sizeof_engine \<le> s" using assms(2) boff_ge [of "base + 4 * tab_size ws" 2 2 "counts h2 ws" j] by (simp add: s_def)
    have l: "s + (2 + 2 * n) \<le> length m"
      using boff_apart [of j "tab_size ws" "counts h2 ws" "base + 4 * tab_size ws" 2 2, OF j] assms(3)
      unfolding s_def n_def by linarith
    have "get_short m' s = get_short m s" using s l by (simp add: get_short_def ag)
    moreover have "mread m' (s + 2 + 2 * i) 2 = mread m (s + 2 + 2 * i) 2" if "i < n" for i
      using s l that by (intro ag) linarith+
    ultimately show ?thesis using bk unfolding ab_bucket_def s_def [symmetric] n_def [symmetric] by simp
  qed
  ultimately show ?thesis using assms(1) unfolding ab_lay_def by simp
qed

lemma abc_lay_mono:
  assumes "abc_lay m base ws" "sizeof_engine \<le> base"
    and "bucket_off h3 4 base ws (tab_size ws) \<le> length m" and len: "length m \<le> length m'"
    and ag: "\<And>q n. eng_abc_data_offset \<le> q \<Longrightarrow> q + n \<le> length m \<Longrightarrow> mread m' q n = mread m q n"
  shows "abc_lay m' base ws"
proof -
  let ?T = "bucket_off h3 4 base ws (tab_size ws)"
  have "base + 4 * tab_size ws \<le> ?T" by (rule boff_ge)
  then have bl: "base + 4 * tab_size ws \<le> length m" using assms(3) by linarith
  have "get_int m' eng_abc_data_offset = get_int m eng_abc_data_offset" "get_int m' eng_abc_size = get_int m eng_abc_size"
    using assms(2) bl by (simp_all add: get_int_def ag)
  moreover have "get_int m' (base + 4 * j) = get_int m (base + 4 * j)" if "j < tab_size ws" for j
  proof -
    have "base + 4 * j + 4 \<le> length m" using bl mult_le_mono2 [OF Suc_leI [OF that], of 4] by simp
    then show ?thesis using assms(2) by (simp add: get_int_def ag)
  qed
  moreover have "abc_bucket m' ?T (bucket_off h3 4 base ws j) (hbucket h3 (tab_size ws) ws j)"
    if j: "j < tab_size ws" "counts h3 ws j \<noteq> 0"
      and bk: "abc_bucket m ?T (bucket_off h3 4 base ws j) (hbucket h3 (tab_size ws) ws j)" for j
  proof (rule abc_bucket_agree [OF bk, where q = 0 and k = eng_abc_data_offset])
    show "agree m m' 0 eng_abc_data_offset" using ag by (auto simp: agree_def) (simp add: mread_def)
    have b: "base + 4 * tab_size ws \<le> bucket_off h3 4 base ws j" by (rule boff_ge)
    then show "bucket_off h3 4 base ws j + 4 + 4 * length (hbucket h3 (tab_size ws) ws j) \<le> 0
      \<or> 0 + eng_abc_data_offset \<le> bucket_off h3 4 base ws j" using assms(2) by simp
    show "bucket_off h3 4 base ws j + 4 + 4 * length (hbucket h3 (tab_size ws) ws j) \<le> length m"
      using boff_apart [of j "tab_size ws" "counts h3 ws" "base + 4 * tab_size ws" 4 4, OF j] assms(3) by linarith
    show "0 + eng_abc_data_offset \<le> ?T" using \<open>base + 4 * tab_size ws \<le> ?T\<close> assms(2) by simp
  qed (rule len)
  ultimately show ?thesis using assms(1) unfolding abc_lay_def by simp
qed

end
