(* ===== verification/MSearchMatch.thy ===== *)
theory MSearchMatch
  imports MSearchBuild
begin

text \<open>
  The search of \<open>zmsearch_match\<close> at one position of the text: the two searches in a bucket, and what the
  tables of the engine make of them.
\<close>

section \<open>Prefixes in the order of strings\<close>

lemma prefix_le: "prefix v w \<Longrightarrow> v \<le> (w :: bytes)"
  by (induction v arbitrary: w) (auto simp: prefix_def)

lemma prefix_between: "prefix a c \<Longrightarrow> a < b \<Longrightarrow> b < c \<Longrightarrow> prefix a (b :: bytes)"
proof (induction a arbitrary: b c)
  case (Cons x a)
  obtain c' where c: "c = x # c'" "prefix a c'" using Cons.prems(1) by (cases c) auto
  obtain y b' where b: "b = y # b'" using Cons.prems(2) by (cases b) auto
  have "y = x" "a < b'" "b' < c'" using Cons.prems(2,3) by (auto simp: b c)
  then show ?case using Cons.IH c(2) b by simp
qed simp

lemma bytes_cmp_diff: "x \<noteq> y \<Longrightarrow> bytes_cmp (p @ x # a) (p @ y # b) = uint x - uint y"
  by (induction p) auto

lemma bytes_cmp_refl: "bytes_cmp a a = 0"
  by (induction a) auto

lemma bytes_cmp_zero: "length a = length b \<Longrightarrow> bytes_cmp a b = 0 \<longleftrightarrow> a = b"
  by (induction a b rule: list_induct2) (auto simp: word_uint_eq_iff)

lemma less_diff: "x \<noteq> y \<Longrightarrow> p @ x # a < p @ y # b \<longleftrightarrow> x < (y :: byte)"
  by (induction p) auto

text \<open>The comparison of the text with a token that is not its prefix points to the side where a token
  that is its prefix lies.\<close>

lemma memcmp_side:
  assumes "prefix w ps" "\<not> prefix w t" "\<not> prefix t w" "n = length ps \<or> n = length t"
  shows "w < t \<Longrightarrow> memcmp ps (take n t) n < 0" "t < w \<Longrightarrow> memcmp ps (take n t) n > 0"
proof -
  from assms(2,3) have "w \<parallel> t" by blast
  then obtain p x a y b where d: "x \<noteq> y" "w = p @ x # a" "t = p @ y # b" using parallel_decomp by metis
  obtain z where ps: "ps = p @ x # a @ z" using assms(1) d(2) by (auto simp: prefix_def)
  obtain k where n: "n = length p + Suc k" using assms(4) ps d(3) by auto
  have "take n ps = p @ x # take k (a @ z)" "take n (take n t) = p @ y # take k b" by (simp_all add: ps d(3) n)
  then have m: "memcmp ps (take n t) n = uint x - uint y" unfolding memcmp_def by (simp only: bytes_cmp_diff [OF d(1)])
  show "w < t \<Longrightarrow> memcmp ps (take n t) n < 0" "t < w \<Longrightarrow> memcmp ps (take n t) n > 0"
    using m less_diff [OF d(1)] less_diff [OF d(1) [symmetric]] by (simp_all add: d(2,3) word_less_def)
qed

section \<open>Search in a bucket\<close>

lemma h2_less_iff:
  assumes "length v = 2" "length w = 2" "v < w"
  shows "h2 v < h2 w"
proof -
  obtain a b where v: "v = [a, b]" using assms(1) by (cases v; cases "tl v") auto
  obtain c d where w: "w = [c, d]" using assms(2) by (cases w; cases "tl w") auto
  have "a < c \<or> a = c \<and> b < d" using assms(3) by (auto simp: v w)
  then show ?thesis
  proof
    assume "a < c"
    then have "unat a + 1 \<le> unat c" by (simp add: word_less_nat_alt)
    then have "unat a * 256 + unat b < unat c * 256 + unat d" using unat_byte_less [of b] by linarith
    then show ?thesis by (simp add: h2_def v w)
  qed (simp add: h2_def v w word_less_nat_alt)
qed

lemma ab_search_ok:
  assumes "ab_bucket m p us" "edi \<le> length us"
    and "\<And>i j. i \<le> j \<Longrightarrow> j < length us \<Longrightarrow> h2 (us ! i) \<le> h2 (us ! j)"
  shows "ab_search m (p + 2) hv sti edi = Some (\<exists>i. sti \<le> i \<and> i < edi \<and> h2 (us ! i) = hv)"
  using assms(2)
proof (induction "edi - sti" arbitrary: sti edi rule: less_induct)
  case less
  show ?case
  proof (cases "sti < edi")
    case False
    then show ?thesis by (subst ab_search.simps) auto
  next
    case True
    define mdi where "mdi = (sti + edi) div 2"
    have md: "sti \<le> mdi" "mdi < edi" using True unfolding mdi_def by linarith+
    have d: "mread m (p + 2 + 2 * mdi) 2 = Some (us ! mdi)"
      using assms(1) md(2) less.prems by (simp add: ab_bucket_def)
    let ?v = "h2 (us ! mdi)"
    have unf: "ab_search m (p + 2) hv sti edi =
        (if hv = ?v then Some True
         else if hv < ?v then ab_search m (p + 2) hv sti (edi - 1)
         else ab_search m (p + 2) hv (sti + 1) edi)"
      using True d by (subst ab_search.simps) (simp add: mdi_def [symmetric] h2_def)
    consider "hv = ?v" | "hv < ?v" | "?v < hv" by linarith
    then show ?thesis
    proof cases
      case 1
      then show ?thesis using unf md by auto
    next
      case 2
      have "h2 (us ! (edi - 1)) \<noteq> hv" using assms(3) [of mdi "edi - 1"] 2 md less.prems by linarith
      then have "(\<exists>i. sti \<le> i \<and> i < edi - 1 \<and> h2 (us ! i) = hv) = (\<exists>i. sti \<le> i \<and> i < edi \<and> h2 (us ! i) = hv)"
        by (metis Suc_diff_1 True less_SucE less_SucI less_zeroE not_gr_zero)
      then show ?thesis using unf 2 less.hyps [of "edi - 1" sti] True less.prems by simp
    next
      case 3
      have "h2 (us ! sti) \<noteq> hv" using assms(3) [of sti mdi] 3 md less.prems by linarith
      then have "(\<exists>i. sti + 1 \<le> i \<and> i < edi \<and> h2 (us ! i) = hv) = (\<exists>i. sti \<le> i \<and> i < edi \<and> h2 (us ! i) = hv)"
        by (metis Suc_eq_plus1 Suc_leD Suc_leI le_neq_implies_less)
      then show ?thesis using unf 3 less.hyps [of edi "sti + 1"] True less.prems by simp
    qed
  qed
qed

text \<open>Tokens none of which is a prefix of another.\<close>

definition antichain :: "bytes list \<Rightarrow> bool" where
  "antichain us \<longleftrightarrow> (\<forall>v \<in> set us. \<forall>w \<in> set us. prefix v w \<longrightarrow> v = w)"

lemma sint_short: "n < 2 ^ 15 \<Longrightarrow> sint (of_nat n :: 16 word) = int n"
  by (simp add: sint_uint signed_take_bit_int_eq_self unsigned_of_nat take_bit_nat_eq_self)

lemma abc_search_step:
  fixes ps :: bytes
  assumes "abc_bucket m T p us" "sti < edi" "edi \<le> length us" and short: "\<forall>w \<in> set us. length w < 2 ^ 15"
  defines "t \<equiv> us ! ((sti + edi) div 2)"
  defines "n \<equiv> min (length ps) (length t)"
  defines "r \<equiv> memcmp ps (take n t) n"
  shows "abc_search m (p + 4) ps sti edi =
    (if prefix t ps then Some (Some (length t))
     else if r \<le> 0 then abc_search m (p + 4) ps sti ((sti + edi) div 2)
     else abc_search m (p + 4) ps ((sti + edi) div 2 + 1) edi)"
proof -
  define mdi where "mdi = (sti + edi) div 2"
  have "mdi < edi" using assms(2) unfolding mdi_def by linarith
  then have md: "mdi < length us" using assms(3) by simp
  obtain tk where tk: "get_int m (p + 4 + 4 * mdi) = Some tk" "tok_at m T tk (us ! mdi)"
    using assms(1) md unfolding abc_bucket_def by blast
  have t: "t = us ! mdi" by (simp add: t_def mdi_def)
  have lt: "length t < 2 ^ 15" using short md by (simp add: t)
  have g: "get_short m (unat tk) = Some (of_nat (length t))" "mread m (unat tk + 2) (length t) = Some t"
    using tk(2) by (simp_all add: tok_at_def t)
  then have rd: "mread m (unat tk + 2) k = Some (take k t)" if "k \<le> length t" for k
  proof -
    have l: "unat tk + 2 + length t \<le> length m" and d: "take (length t) (drop (unat tk + 2) m) = t"
      using g(2) by (auto simp: mread_def split: if_splits)
    have "take k (drop (unat tk + 2) m) = take k (take (length t) (drop (unat tk + 2) m))" using that by (simp add: min_def)
    also have "\<dots> = take k t" by (simp only: d)
    finally show ?thesis using l that by (simp add: mread_def)
  qed
  show ?thesis
  proof (cases "length ps < length t")
    case True
    then have "\<not> prefix t ps" by (auto dest: prefix_length_le)
    moreover have "n = length ps" using True by (simp add: n_def)
    ultimately show ?thesis
      using assms(2) tk(1) g(1) rd [of "length ps"] True sint_short [OF lt]
      by (subst abc_search.simps) (simp add: mdi_def [symmetric] r_def)
  next
    case False
    then have n: "n = length t" by (simp add: n_def)
    have "r = bytes_cmp (take (length t) ps) t" by (simp add: r_def n memcmp_def)
    then have "r = 0 \<longleftrightarrow> take (length t) ps = t" using bytes_cmp_zero [of "take (length t) ps" t] False by simp
    also have "\<dots> \<longleftrightarrow> prefix t ps" by (metis append_take_drop_id prefix_def append_eq_conv_conj)
    finally have z: "r = 0 \<longleftrightarrow> prefix t ps" .
    have "memcmp ps t (length t) = r" by (simp add: r_def n)
    then show ?thesis
      using assms(2) tk(1) g False sint_short [OF lt] z
      by (subst abc_search.simps) (auto simp: mdi_def [symmetric] Let_def)
  qed
qed

lemma abc_search_ok:
  assumes "abc_bucket m T p us" and short: "\<forall>w \<in> set us. length w < 2 ^ 15"
    and us: "sorted_wrt (<) us" "antichain us" and "edi \<le> length us"
  shows "(\<forall>i. sti \<le> i \<longrightarrow> i < edi \<longrightarrow> prefix (us ! i) ps \<longrightarrow>
      abc_search m (p + 4) ps sti edi = Some (Some (length (us ! i))))
    \<and> ((\<forall>i. sti \<le> i \<longrightarrow> i < edi \<longrightarrow> \<not> prefix (us ! i) ps) \<longrightarrow> abc_search m (p + 4) ps sti edi = Some None)"
  using assms(5)
proof (induction "edi - sti" arbitrary: sti edi rule: less_induct)
  case less
  show ?case
  proof (cases "sti < edi")
    case False
    then show ?thesis by (subst (2) abc_search.simps) auto
  next
    case True
    define mdi where "mdi = (sti + edi) div 2"
    define t where "t = us ! mdi"
    define n where "n = min (length ps) (length t)"
    define r where "r = memcmp ps (take n t) n"
    have md: "sti \<le> mdi" "mdi < edi" using True unfolding mdi_def by linarith+
    have step: "abc_search m (p + 4) ps sti edi =
      (if prefix t ps then Some (Some (length t))
       else if r \<le> 0 then abc_search m (p + 4) ps sti mdi else abc_search m (p + 4) ps (mdi + 1) edi)"
      using abc_search_step [OF assms(1) True less.prems short, of ps]
      unfolding r_def n_def t_def mdi_def .
    have one: "i = mdi" if "i < edi" "prefix (us ! i) ps" "prefix t ps" for i
    proof -
      have "prefix (us ! i) t \<or> prefix t (us ! i)" using that prefix_same_cases by blast
      then have "us ! i = t" using us(2) that(1) md less.prems unfolding antichain_def t_def by (metis nth_mem order_less_le_trans)
      moreover have "distinct us" using us(1) strict_sorted_iff by blast
      ultimately show ?thesis using that(1) md less.prems by (simp add: t_def nth_eq_iff_index_eq)
    qed
    have side: "(i < mdi \<longrightarrow> r \<le> 0) \<and> (mdi < i \<longrightarrow> \<not> r \<le> 0)" if i: "i < edi" "i \<noteq> mdi" "prefix (us ! i) ps" for i
    proof -
      have in_us: "us ! i \<in> set us" "t \<in> set us" using i(1) md less.prems by (auto simp: t_def)
      have lt: "us ! i < t" if "i < mdi" using sorted_wrt_nth_less [OF us(1) that] md less.prems by (simp add: t_def)
      have gt: "t < us ! i" if "mdi < i" using sorted_wrt_nth_less [OF us(1) that] i(1) less.prems by (simp add: t_def)
      have ne: "us ! i \<noteq> t" using lt gt i(2) by (metis linorder_neqE_nat order_less_irrefl)
      then have "\<not> prefix (us ! i) t" "\<not> prefix t (us ! i)" using us(2) in_us unfolding antichain_def by metis+
      moreover have "n = length ps \<or> n = length t" by (auto simp: n_def)
      ultimately show ?thesis using memcmp_side [of "us ! i" ps t n] lt gt i(3) unfolding r_def by fastforce
    qed
    have L: "(\<forall>i. sti \<le> i \<longrightarrow> i < mdi \<longrightarrow> prefix (us ! i) ps \<longrightarrow>
        abc_search m (p + 4) ps sti mdi = Some (Some (length (us ! i))))
      \<and> ((\<forall>i. sti \<le> i \<longrightarrow> i < mdi \<longrightarrow> \<not> prefix (us ! i) ps) \<longrightarrow> abc_search m (p + 4) ps sti mdi = Some None)"
      using less.hyps [of mdi sti] md less.prems by auto
    have R: "(\<forall>i. mdi + 1 \<le> i \<longrightarrow> i < edi \<longrightarrow> prefix (us ! i) ps \<longrightarrow>
        abc_search m (p + 4) ps (mdi + 1) edi = Some (Some (length (us ! i))))
      \<and> ((\<forall>i. mdi + 1 \<le> i \<longrightarrow> i < edi \<longrightarrow> \<not> prefix (us ! i) ps) \<longrightarrow> abc_search m (p + 4) ps (mdi + 1) edi = Some None)"
      using less.hyps [of edi "mdi + 1"] md less.prems by auto
    show ?thesis
    proof (intro conjI allI impI)
      fix i assume i: "sti \<le> i" "i < edi" "prefix (us ! i) ps"
      show "abc_search m (p + 4) ps sti edi = Some (Some (length (us ! i)))"
      proof (cases "prefix t ps")
        case True
        then show ?thesis using step one [OF i(2,3)] by (simp add: t_def)
      next
        case False
        then have "i \<noteq> mdi" using i(3) by (auto simp: t_def)
        then show ?thesis using side [OF i(2) _ i(3)] step False L R i by (metis Suc_eq_plus1 Suc_leI linorder_neqE_nat)
      qed
    next
      assume none: "\<forall>i. sti \<le> i \<longrightarrow> i < edi \<longrightarrow> \<not> prefix (us ! i) ps"
      then have "\<not> prefix t ps" using md by (simp add: t_def)
      then show "abc_search m (p + 4) ps sti edi = Some None" using step L R none md by auto
    qed
  qed
qed

section \<open>Search at a position\<close>

lemma sint_small: "n < 2 ^ 31 \<Longrightarrow> sint (of_nat n :: 32 word) = int n"
  by (simp add: sint_uint signed_take_bit_int_eq_self unsigned_of_nat take_bit_nat_eq_self)

lemma table_entry_ok:
  assumes "get_int m fld = Some (of_nat base)" "get_int m szfld = Some (of_nat siz)" "0 < siz"
    and "siz < 2 ^ 31" "base < 2 ^ 31" "get_int m (base + 4 * (hv mod siz)) = Some (of_nat v)" "v < 2 ^ 31"
  shows "table_entry m fld szfld hv = Some v"
proof -
  have "(of_nat siz :: 32 word) \<noteq> 0" using unat_small [OF assms(4)] assms(3) by (metis gr_implies_not0 unat_0)
  moreover have "nat (int hv mod \<bar>sint (of_nat siz :: 32 word)\<bar>) = hv mod siz"
    by (simp add: sint_small [OF assms(4)] nat_mod_distrib)
  ultimately show ?thesis
    using assms(2,6) entry_ok [OF assms(1,5)] by (simp add: table_entry_def unat_small [OF assms(7)])
qed

lemma flag_bits:
  "(f :: byte) AND 0x01 \<noteq> 0 \<longleftrightarrow> bit f 0" "f AND 0x02 \<noteq> 0 \<longleftrightarrow> bit f 1" "f AND 0x04 \<noteq> 0 \<longleftrightarrow> bit f 2"
  "f AND 0x08 \<noteq> 0 \<longleftrightarrow> bit f 3" "f AND 0x10 \<noteq> 0 \<longleftrightarrow> bit f 4" "f AND 0x20 \<noteq> 0 \<longleftrightarrow> bit f 5"
  using and_exp_eq_0_iff_not_bit [of f 0] and_exp_eq_0_iff_not_bit [of f 1] and_exp_eq_0_iff_not_bit [of f 2]
    and_exp_eq_0_iff_not_bit [of f 3] and_exp_eq_0_iff_not_bit [of f 4] and_exp_eq_0_iff_not_bit [of f 5]
  by simp_all

lemma hbucket_mem: "w \<in> set (hbucket h siz ws (h w mod siz)) \<longleftrightarrow> w \<in> set ws"
  by (simp add: hbucket_def)

lemma match_ab_ok:
  assumes F: "\<And>c. flag_of m c = Some (F c)" "\<And>w. w \<in> set ws \<Longrightarrow> bit (F (w ! 0)) 1 \<and> bit (F (w ! 1)) 2"
      "\<And>c. bit (F c) 1 \<Longrightarrow> ws \<noteq> []"
    and ws: "sorted_wrt (<) ws" "\<forall>w \<in> set ws. length w = 2"
    and lay: "ws \<noteq> [] \<Longrightarrow> ab_lay m base ws" "bucket_off h2 2 base ws (tab_size ws) < 2 ^ 31" "0 < base"
  shows "match_ab m (F (ps ! 0)) ps = Some (1 < length ps \<and> take 2 ps \<in> set ws)"
proof (cases "1 < length ps \<and> bit (F (ps ! 0)) 1 \<and> bit (F (ps ! 1)) 2")
  case True
  then have ne: "ws \<noteq> []" using F(3) by blast
  define siz where "siz = tab_size ws"
  define hv where "hv = unat (ps ! 0) * 256 + unat (ps ! 1)"
  define j where "j = hv mod siz"
  define us where "us = hbucket h2 siz ws j"
  define p where "p = bucket_off h2 2 base ws j"
  have t2: "length (take 2 ps) = 2" "h2 (take 2 ps) = hv" using True by (simp_all add: h2_def hv_def)
  have j: "j < siz" by (simp add: j_def siz_def)
  have l: "get_int m eng_ab_data_offset = Some (of_nat base)" "get_int m eng_ab_size = Some (of_nat siz)"
    "get_int m (base + 4 * j) = Some (of_nat (if us = [] then 0 else p))" "us \<noteq> [] \<Longrightarrow> ab_bucket m p us"
    using lay(1) [OF ne] j unfolding ab_lay_def siz_def us_def p_def by simp_all
  have Lb: "base + 4 * siz \<le> p" unfolding p_def siz_def by (rule boff_ge)
  have pb: "p \<le> bucket_off h2 2 base ws (tab_size ws)" unfolding p_def using j siz_def by (intro boff_mono) simp
  have te: "table_entry m eng_ab_data_offset eng_ab_size hv = Some (if us = [] then 0 else p)"
    using table_entry_ok [OF l(1,2), of hv "if us = [] then 0 else p"] l(3) Lb pb lay(2) j by (simp add: j_def)
  have mem: "take 2 ps \<in> set ws \<longleftrightarrow> (\<exists>i < length us. h2 (us ! i) = hv)"
  proof
    assume "take 2 ps \<in> set ws"
    then have "take 2 ps \<in> set us" using t2(2) by (simp add: us_def hbucket_def j_def)
    then show "\<exists>i < length us. h2 (us ! i) = hv" using t2(2) by (metis in_set_conv_nth)
  next
    assume "\<exists>i < length us. h2 (us ! i) = hv"
    then obtain w where w: "w \<in> set us" "h2 w = hv" using nth_mem by blast
    then have "w \<in> set ws" by (simp add: us_def hbucket_def)
    then show "take 2 ps \<in> set ws" using h2_inj [of w "take 2 ps"] w(2) t2 ws(2) by simp
  qed
  have sus: "sorted_wrt (<) us" "\<forall>w \<in> set us. length w = 2"
    using ws by (auto simp: us_def hbucket_def sorted_wrt_filter)
  have ord: "h2 (us ! i) \<le> h2 (us ! k)" if "i \<le> k" "k < length us" for i k
  proof (cases "i = k")
    case False
    then have "us ! i < us ! k" using that sorted_wrt_nth_less [OF sus(1)] by simp
    then show ?thesis using h2_less_iff sus(2) that by (simp add: less_imp_le)
  qed simp
  have unf: "match_ab m (F (ps ! 0)) ps =
      (if us = [] then Some False
       else Option.bind (get_short m p) (\<lambda>edi. ab_search m (p + 2) hv 0 (nat (sint edi))))"
    using True te F(1) Lb lay(3) by (simp add: match_ab_def flag_bits hv_def)
  show ?thesis
  proof (cases "us = []")
    case False
    have "length us \<le> length (hbucket h2 siz ws j)" by (simp add: us_def)
    moreover have "counts h2 ws j < 2 ^ 15" using ab_counts ws strict_sorted_iff by blast
    ultimately have "length us < 2 ^ 15" by (simp add: siz_def)
    moreover have "get_short m p = Some (of_nat (length us))" using l(4) [OF False] by (simp add: ab_bucket_def)
    ultimately show ?thesis
      using unf False ab_search_ok [OF l(4) [OF False] order_refl ord, of hv 0] mem True by (simp add: sint_short)
  qed (use unf mem True in simp)
next
  case False
  have "\<not> (1 < length ps \<and> take 2 ps \<in> set ws)"
    using False F(2) [of "take 2 ps"] by auto
  then show ?thesis using False F(1) by (auto simp: match_ab_def flag_bits)
qed

lemma match_abc_ok:
  assumes F: "\<And>c. flag_of m c = Some (F c)"
      "\<And>w. w \<in> set ws \<Longrightarrow> bit (F (w ! 0)) 3 \<and> bit (F (w ! 1)) 4 \<and> bit (F (w ! 2)) 5"
      "\<And>c. bit (F c) 3 \<Longrightarrow> ws \<noteq> []"
    and ws: "sorted_wrt (<) ws" "antichain ws" "\<forall>w \<in> set ws. 3 \<le> length w \<and> length w < 2 ^ 15"
    and lay: "ws \<noteq> [] \<Longrightarrow> abc_lay m base ws" "bucket_off h3 4 base ws (tab_size ws) < 2 ^ 31" "0 < base"
  shows "(\<forall>t \<in> set ws. prefix t ps \<longrightarrow> match_abc m (F (ps ! 0)) ps = Some (Some (length t)))
    \<and> ((\<forall>t \<in> set ws. \<not> prefix t ps) \<longrightarrow> match_abc m (F (ps ! 0)) ps = Some None)"
proof (cases "2 < length ps \<and> bit (F (ps ! 0)) 3 \<and> bit (F (ps ! 1)) 4 \<and> bit (F (ps ! 2)) 5")
  case True
  then have ne: "ws \<noteq> []" using F(3) by blast
  define siz where "siz = tab_size ws"
  define hv where "hv = (unat (ps ! 0) * 256 + unat (ps ! 1)) * 256 + unat (ps ! 2)"
  define j where "j = hv mod siz"
  define us where "us = hbucket h3 siz ws j"
  define p where "p = bucket_off h3 4 base ws j"
  define T where "T = bucket_off h3 4 base ws (tab_size ws)"
  have j: "j < siz" by (simp add: j_def siz_def)
  have l: "get_int m eng_abc_data_offset = Some (of_nat base)" "get_int m eng_abc_size = Some (of_nat siz)"
    "get_int m (base + 4 * j) = Some (of_nat (if us = [] then 0 else p))" "us \<noteq> [] \<Longrightarrow> abc_bucket m T p us"
    using lay(1) [OF ne] j unfolding abc_lay_def siz_def us_def p_def T_def by simp_all
  have Lb: "base + 4 * siz \<le> p" unfolding p_def siz_def by (rule boff_ge)
  have pb: "p \<le> T" unfolding p_def T_def using j siz_def by (intro boff_mono) simp
  have te: "table_entry m eng_abc_data_offset eng_abc_size hv = Some (if us = [] then 0 else p)"
    using table_entry_ok [OF l(1,2), of hv "if us = [] then 0 else p"] l(3) Lb pb lay(2) j by (simp add: j_def T_def)
  have mem: "t \<in> set us" if t: "t \<in> set ws" "prefix t ps" for t
  proof -
    have "3 \<le> length t" using ws(3) t(1) by blast
    then have "h3 t = hv" using t(2) by (auto simp: prefix_def h3_def hv_def nth_append)
    then show ?thesis using t(1) by (simp add: us_def hbucket_def j_def)
  qed
  have sub: "t \<in> set ws" if "t \<in> set us" for t using that by (simp add: us_def hbucket_def)
  have unf: "match_abc m (F (ps ! 0)) ps =
      (if us = [] then Some None
       else Option.bind (get_int m p) (\<lambda>edi. abc_search m (p + 4) ps 0 (nat (sint edi))))"
    using True te F(1) Lb lay(3) by (simp add: match_abc_def flag_bits hv_def)
  show ?thesis
  proof (cases "us = []")
    case False
    have "4 * length us \<le> p + (4 + 4 * length us)" by simp
    also have "\<dots> \<le> T"
      using boff_apart [of j siz "counts h3 ws" "base + 4 * tab_size ws" 4 4, OF j] False
      unfolding T_def p_def us_def siz_def by simp
    finally have "length us < 2 ^ 31" using lay(2) unfolding T_def by linarith
    moreover have "get_int m p = Some (of_nat (length us))" using l(4) [OF False] by (simp add: abc_bucket_def)
    ultimately have m: "match_abc m (F (ps ! 0)) ps = abc_search m (p + 4) ps 0 (length us)"
      using unf False by (simp add: sint_small)
    have "sorted_wrt (<) us" unfolding us_def hbucket_def by (rule sorted_wrt_filter [OF ws(1)])
    moreover have "antichain us" using ws(2) sub unfolding antichain_def by blast
    moreover have "\<forall>w \<in> set us. length w < 2 ^ 15" using ws(3) sub by blast
    ultimately have q: "sorted_wrt (<) us" "antichain us" "\<forall>w \<in> set us. length w < 2 ^ 15" .
    from abc_search_ok [OF l(4) [OF False] q(3,1,2) order_refl, of 0 ps]
    have S: "\<And>i. i < length us \<Longrightarrow> prefix (us ! i) ps \<Longrightarrow> match_abc m (F (ps ! 0)) ps = Some (Some (length (us ! i)))"
      and N: "(\<And>i. i < length us \<Longrightarrow> \<not> prefix (us ! i) ps) \<Longrightarrow> match_abc m (F (ps ! 0)) ps = Some None"
      unfolding m by blast+
    show ?thesis
    proof (intro conjI ballI impI)
      fix t assume "t \<in> set ws" "prefix t ps"
      moreover from mem [OF this] obtain i where "i < length us" "us ! i = t" by (auto simp: in_set_conv_nth)
      ultimately show "match_abc m (F (ps ! 0)) ps = Some (Some (length t))" using S by blast
    qed (use N sub nth_mem in blast)
  qed (use unf mem in auto)
next
  case False
  have "\<not> prefix t ps" if t: "t \<in> set ws" for t
  proof
    assume p: "prefix t ps"
    have "3 \<le> length t" using ws(3) t by blast
    then have "2 < length ps" "t ! 0 = ps ! 0" "t ! 1 = ps ! 1" "t ! 2 = ps ! 2"
      using p by (auto simp: prefix_def nth_append)
    then show False using False F(2) [OF t] by simp
  qed
  moreover have "match_abc m (F (ps ! 0)) ps = Some None"
    using False F(1) by (auto simp: match_abc_def flag_bits)
  ultimately show ?thesis by blast
qed

end
