(* ===== verification/MSearchProps.thy ===== *)
theory MSearchProps
  imports MSearchMatch
begin

text \<open>
  The multi-pattern search as a whole: the tokens that were added, the engine \<open>zmsearch_add_over\<close> makes of
  them, and the occurrences \<open>zmsearch_match\<close> finds.
\<close>

section \<open>The tokens of a builder\<close>

definition token_ok :: "bytes \<Rightarrow> bool" where
  "token_ok t \<longleftrightarrow> t \<noteq> [] \<and> 0 \<notin> set t \<and> length t \<le> MAX_LINE_SIZE"

text \<open>Bit \<open>k\<close> of the flags of a character: some token has it at this place.\<close>

fun role :: "nat \<Rightarrow> bytes \<Rightarrow> byte \<Rightarrow> bool" where
  "role k t c \<longleftrightarrow>
     k = 0 \<and> length t = 1 \<and> t ! 0 = c \<or> (k = 1 \<or> k = 2) \<and> length t = 2 \<and> t ! (k - 1) = c
     \<or> (k = 3 \<or> k = 4 \<or> k = 5) \<and> 3 \<le> length t \<and> t ! (k - 3) = c"

definition tokens_in :: "bytes list \<Rightarrow> ms_builder \<Rightarrow> bool" where
  "tokens_in toks b \<longleftrightarrow> length (a_flags b) = 256
     \<and> (\<forall>k c. bit (a_flags b ! unat c) k \<longleftrightarrow> (\<exists>t \<in> set toks. role k t c))
     \<and> sorted_wrt (<) (ab_data_tmp b) \<and> set (ab_data_tmp b) = {t \<in> set toks. length t = 2}
     \<and> sorted_wrt (<) (abc_data_tmp b) \<and> set (abc_data_tmp b) = {t \<in> set toks. 3 \<le> length t}
     \<and> mem_data b = []"

lemma or_flag_bit:
  assumes "length (a_flags b) = 256"
  shows "bit (a_flags (or_flag d (2 ^ i) b) ! unat c) k \<longleftrightarrow> bit (a_flags b ! unat c) k \<or> k = i \<and> i < 8 \<and> c = d"
proof (cases "c = d")
  case True
  then show ?thesis using assms by (auto simp: or_flag_def bit_or_iff bit_exp_iff)
next
  case False
  then have "unat c \<noteq> unat d" by (simp add: word_unat_eq_iff)
  then show ?thesis using False by (simp add: or_flag_def)
qed

lemma or_flag_simps [simp]:
  "ab_data_tmp (or_flag d f b) = ab_data_tmp b" "abc_data_tmp (or_flag d f b) = abc_data_tmp b"
  "mem_data (or_flag d f b) = mem_data b" "length (a_flags (or_flag d f b)) = length (a_flags b)"
  by (simp_all add: or_flag_def)

lemma no_nul_whole: "0 \<notin> set t \<Longrightarrow> takeWhile (\<lambda>b. b \<noteq> 0) t = (t :: bytes)"
  by (auto simp: takeWhile_eq_all_conv)

lemma key_put_ok:
  assumes "0 \<notin> set t" "sorted_wrt (<) ks"
  shows "sorted_wrt (<) (key_put t ks)" "set (key_put t ks) = insert t (set ks)"
proof -
  have t: "takeWhile (\<lambda>b. b \<noteq> 0) t = t" by (rule no_nul_whole [OF assms(1)])
  show "set (key_put t ks) = insert t (set ks)" by (simp add: key_put_def t set_insort_insert)
  have "sorted ks" "distinct ks" using assms(2) by (simp_all add: strict_sorted_iff)
  then show "sorted_wrt (<) (key_put t ks)"
    by (simp add: key_put_def t strict_sorted_iff sorted_insort_insert distinct_insort_insert)
qed

lemma flag_powers: "(0x01 :: byte) = 2 ^ 0" "(0x02 :: byte) = 2 ^ 1" "(0x04 :: byte) = 2 ^ 2"
  "(0x08 :: byte) = 2 ^ 3" "(0x10 :: byte) = 2 ^ 4" "(0x20 :: byte) = 2 ^ 5"
  by simp_all

lemma add_token_ok:
  assumes b: "tokens_in toks b" "token_ok t" "mode ms = Building b"
  shows "\<exists>b'. zmsearch_add_token ms t (int (length t)) = Some (ms\<lparr>mode := Building b'\<rparr>) \<and> tokens_in (toks @ [t]) b'"
proof -
  have t: "t \<noteq> []" "0 \<notin> set t" "length t \<le> 4096" using b(2) by (simp_all add: token_ok_def)
  have l: "length (a_flags b) = 256" and f: "\<And>k c. bit (a_flags b ! unat c) k \<longleftrightarrow> (\<exists>t \<in> set toks. role k t c)"
    and s: "sorted_wrt (<) (ab_data_tmp b)" "set (ab_data_tmp b) = {t \<in> set toks. length t = 2}"
      "sorted_wrt (<) (abc_data_tmp b)" "set (abc_data_tmp b) = {t \<in> set toks. 3 \<le> length t}" "mem_data b = []"
    using b(1) unfolding tokens_in_def by blast+
  consider "length t = 1" | "length t = 2" | "3 \<le> length t" using t(1) by (cases t; cases "tl t"; cases "tl (tl t)") auto
  then show ?thesis
  proof cases
    case 1
    let ?b = "or_flag (t ! 0) (2 ^ 0) b"
    have "zmsearch_add_token ms t (int (length t)) = Some (ms\<lparr>mode := Building ?b\<rparr>)"
      using 1 b(3) by (simp add: zmsearch_add_token_def)
    moreover have "tokens_in (toks @ [t]) ?b"
      using 1 l f s or_flag_bit [OF l, of "t ! 0" 0] by (auto simp: tokens_in_def)
    ultimately show ?thesis by blast
  next
    case 2
    let ?b1 = "or_flag (t ! 0) (2 ^ 1) b"
    let ?b2 = "or_flag (t ! 1) (2 ^ 2) ?b1"
    let ?b = "?b2\<lparr>ab_data_tmp := key_put t (ab_data_tmp b)\<rparr>"
    have l1: "length (a_flags ?b1) = 256" using l by simp
    have "zmsearch_add_token ms t (int (length t)) = Some (ms\<lparr>mode := Building ?b\<rparr>)"
      using 2 b(3) by (simp add: zmsearch_add_token_def)
    moreover have "bit (a_flags ?b ! unat c) k \<longleftrightarrow> (\<exists>u \<in> set (toks @ [t]). role k u c)" for k c
    proof -
      have "bit (a_flags ?b ! unat c) k \<longleftrightarrow> (\<exists>u \<in> set toks. role k u c) \<or> k = 1 \<and> c = t ! 0 \<or> k = 2 \<and> c = t ! 1"
        using or_flag_bit [OF l1, of "t ! 1" 2] or_flag_bit [OF l, of "t ! 0" 1] f by auto
      also have "\<dots> \<longleftrightarrow> (\<exists>u \<in> set (toks @ [t]). role k u c)" using 2 by auto
      finally show ?thesis .
    qed
    then have "tokens_in (toks @ [t]) ?b"
      using 2 l s key_put_ok [OF t(2) s(1)] by (auto simp: tokens_in_def)
    ultimately show ?thesis by blast
  next
    case 3
    let ?b1 = "or_flag (t ! 0) (2 ^ 3) b"
    let ?b2 = "or_flag (t ! 1) (2 ^ 4) ?b1"
    let ?b3 = "or_flag (t ! 2) (2 ^ 5) ?b2"
    let ?b = "?b3\<lparr>abc_data_tmp := key_put t (abc_data_tmp b)\<rparr>"
    have l1: "length (a_flags ?b1) = 256" "length (a_flags ?b2) = 256" using l by simp_all
    have "zmsearch_add_token ms t (int (length t)) = Some (ms\<lparr>mode := Building ?b\<rparr>)"
    proof -
      have "int (length t) \<noteq> 1" "int (length t) \<noteq> 2" "\<not> int (length t) < 1" "\<not> int (length t) < 0" using 3 by linarith+
      then show ?thesis using b(3) t(3) by (simp add: zmsearch_add_token_def Let_def)
    qed
    moreover have "bit (a_flags ?b ! unat c) k \<longleftrightarrow> (\<exists>u \<in> set (toks @ [t]). role k u c)" for k c
    proof -
      have "bit (a_flags ?b ! unat c) k \<longleftrightarrow> (\<exists>u \<in> set toks. role k u c)
          \<or> k = 3 \<and> c = t ! 0 \<or> k = 4 \<and> c = t ! 1 \<or> k = 5 \<and> c = t ! 2"
        using or_flag_bit [OF l1(2), of "t ! 2" 5] or_flag_bit [OF l1(1), of "t ! 1" 4] or_flag_bit [OF l, of "t ! 0" 3] f
        by auto
      also have "\<dots> \<longleftrightarrow> (\<exists>u \<in> set (toks @ [t]). role k u c)" using 3 by auto
      finally show ?thesis .
    qed
    then have "tokens_in (toks @ [t]) ?b"
      using 3 l s key_put_ok [OF t(2) s(3)] by (auto simp: tokens_in_def)
    ultimately show ?thesis by blast
  qed
qed

definition add_tokens :: "bytes list \<Rightarrow> zmsearch \<Rightarrow> zmsearch option" where
  "add_tokens = foldM (\<lambda>t ms. zmsearch_add_token ms t (int (length t)))"

lemma add_tokens_ok:
  assumes "\<forall>t \<in> set us. token_ok t" "tokens_in toks b" "mode ms = Building b"
  shows "\<exists>b'. add_tokens us ms = Some (ms\<lparr>mode := Building b'\<rparr>) \<and> tokens_in (toks @ us) b'"
  using assms
proof (induction us arbitrary: toks b ms)
  case Nil
  then have "add_tokens [] ms = Some (ms\<lparr>mode := Building b\<rparr>)" by (simp add: add_tokens_def)
  then show ?case using Nil by (intro exI [of _ b]) simp
next
  case (Cons t us)
  from add_token_ok [OF Cons.prems(2) _ Cons.prems(3), of t] Cons.prems(1) obtain b1 where
    b1: "zmsearch_add_token ms t (int (length t)) = Some (ms\<lparr>mode := Building b1\<rparr>)" "tokens_in (toks @ [t]) b1"
    by auto
  from Cons.IH [OF _ b1(2), of "ms\<lparr>mode := Building b1\<rparr>"] Cons.prems(1) obtain b' where
    "add_tokens us (ms\<lparr>mode := Building b1\<rparr>) = Some (ms\<lparr>mode := Building b'\<rparr>)" "tokens_in ((toks @ [t]) @ us) b'"
    by auto
  then show ?case using b1(1) by (auto simp: add_tokens_def)
qed

lemma create_tokens: "\<exists>b. mode zmsearch_create = Building b \<and> tokens_in [] b"
proof -
  have "\<not> bit (replicate 256 (0 :: byte) ! unat c) k" for c :: byte and k
    by (simp only: nth_replicate [OF unat_byte_less] bit_0_eq bot_fun_def simp_thms) simp
  then show ?thesis by (simp add: zmsearch_create_def tokens_in_def)
qed

section \<open>Tokens that continue others\<close>

definition minimal :: "bytes list \<Rightarrow> bytes list" where
  "minimal ws = filter (\<lambda>w. \<not> (\<exists>v \<in> set ws. v \<noteq> w \<and> prefix v w)) ws"

lemma cmp_prefix:
  assumes "0 \<notin> set lst" "0 \<notin> set word"
  shows "bytes_cmp (take (length lst) lst) (take (length lst) word) = 0 \<longleftrightarrow> prefix lst word"
proof -
  have "0 \<notin> set (take (length lst) word)" using assms(2) by (meson in_set_takeD)
  from bytes_cmp_order [OF assms(1) this] have "bytes_cmp lst (take (length lst) word) = 0 \<longleftrightarrow> lst = take (length lst) word"
    by (metis bytes_cmp_refl linorder_neqE order_less_irrefl)
  also have "\<dots> \<longleftrightarrow> prefix lst word" by (metis append_take_drop_id append_eq_conv_conj prefix_def)
  finally show ?thesis by simp
qed

lemma set_key_put: "0 \<notin> set w \<Longrightarrow> set (key_put w del) = insert w (set del)"
  by (simp add: key_put_def set_insort_insert no_nul_whole)

lemma del_keys_some:
  assumes "sorted_wrt (<) (lst # ws)" "\<forall>w \<in> set (lst # ws). 0 \<notin> set w"
  shows "set (del_keys (Some lst) ws del)
    = set del \<union> {w \<in> set ws. \<exists>v \<in> set (lst # ws). v \<noteq> w \<and> prefix v w}"
  using assms
proof (induction ws arbitrary: lst del)
  case (Cons w ws)
  have lt: "lst < w" "\<And>u. u \<in> set ws \<Longrightarrow> w < u" "\<And>u. u \<in> set ws \<Longrightarrow> lst < u" using Cons.prems(1) by auto
  have cmp: "bytes_cmp (take (length lst) lst) (take (length lst) w) = 0 \<longleftrightarrow> prefix lst w"
    using Cons.prems(2) by (intro cmp_prefix) auto
  show ?case
  proof (cases "prefix lst w")
    case True
    have "set (del_keys (Some lst) (w # ws) del)
        = insert w (set del) \<union> {u \<in> set ws. \<exists>v \<in> set (lst # ws). v \<noteq> u \<and> prefix v u}"
      using Cons.IH [of lst "key_put w del"] Cons.prems cmp True set_key_put by simp
    also have "\<dots> = set del \<union> {u \<in> set (w # ws). \<exists>v \<in> set (lst # w # ws). v \<noteq> u \<and> prefix v u}"
    proof -
      have "prefix lst u \<and> lst \<noteq> u" if "u \<in> set ws" "prefix w u" for u
        using that True lt(3) [of u] by (auto dest: prefix_order.trans)
      then show ?thesis using True lt(1) by auto
    qed
    finally show ?thesis .
  next
    case False
    have "set (del_keys (Some lst) (w # ws) del) = set del \<union> {u \<in> set ws. \<exists>v \<in> set (w # ws). v \<noteq> u \<and> prefix v u}"
      using Cons.IH [of w del] Cons.prems cmp False by simp
    also have "\<dots> = set del \<union> {u \<in> set (w # ws). \<exists>v \<in> set (lst # w # ws). v \<noteq> u \<and> prefix v u}"
    proof -
      have "\<not> prefix lst u" if "u \<in> set ws" for u using prefix_between [of lst u w] lt that False by blast
      moreover have "\<not> prefix v w" if "v \<in> set ws" for v using prefix_le [of v w] lt(2) [OF that] by auto
      ultimately show ?thesis using False by auto
    qed
    finally show ?thesis .
  qed
qed simp

lemma foldl_filter: "foldl (\<lambda>ks w. filter (\<lambda>k. k \<noteq> w) ks) xs ds = filter (\<lambda>k. k \<notin> set ds) xs"
proof (induction ds arbitrary: xs)
  case (Cons d ds)
  then show ?case by (simp add: conj_commute)
qed simp

lemma clear_minimal:
  assumes "sorted_wrt (<) (abc_data_tmp b)" "\<forall>w \<in> set (abc_data_tmp b). 0 \<notin> set w"
  shows "zmsearch_add_over_3_clear b = b\<lparr>abc_data_tmp := minimal (abc_data_tmp b)\<rparr>"
proof -
  let ?ws = "abc_data_tmp b"
  have "set (del_keys None ?ws []) = {w \<in> set ?ws. \<exists>v \<in> set ?ws. v \<noteq> w \<and> prefix v w}"
  proof (cases ?ws)
    case (Cons lst ws)
    then have "set (del_keys None ?ws []) = {w \<in> set ws. \<exists>v \<in> set ?ws. v \<noteq> w \<and> prefix v w}"
      using del_keys_some [of lst ws "[]"] assms by simp
    moreover have "\<not> (v \<noteq> lst \<and> prefix v lst)" if "v \<in> set ?ws" for v
      using that assms(1) Cons prefix_le [of v lst] by auto
    ultimately show ?thesis using Cons by auto
  qed simp
  then have "filter (\<lambda>k. k \<notin> set (del_keys None ?ws [])) ?ws = minimal ?ws"
    unfolding minimal_def by (intro filter_cong) auto
  then show ?thesis by (simp add: zmsearch_add_over_3_clear_def foldl_filter)
qed

lemma minimal_props:
  assumes "sorted_wrt (<) ws"
  shows "sorted_wrt (<) (minimal ws)" "antichain (minimal ws)" "set (minimal ws) \<subseteq> set ws"
    "ws \<noteq> [] \<Longrightarrow> minimal ws \<noteq> []" "length (minimal ws) \<le> length ws"
proof -
  show "sorted_wrt (<) (minimal ws)" unfolding minimal_def by (rule sorted_wrt_filter [OF assms])
  show "antichain (minimal ws)" "set (minimal ws) \<subseteq> set ws" by (auto simp: antichain_def minimal_def)
  show "length (minimal ws) \<le> length ws" by (simp add: minimal_def)
  assume "ws \<noteq> []"
  then obtain w us where ws: "ws = w # us" by (cases ws) auto
  have "\<not> (v \<noteq> w \<and> prefix v w)" if "v \<in> set ws" for v
    using that assms ws prefix_le [of v w] by auto
  then show "minimal ws \<noteq> []" unfolding minimal_def ws by simp
qed

section \<open>The engine\<close>

lemma sum_list_subset:
  fixes f :: "'a \<Rightarrow> nat"
  assumes "distinct xs" "set xs \<subseteq> set ys"
  shows "(\<Sum>x \<leftarrow> xs. f x) \<le> (\<Sum>y \<leftarrow> ys. f y)"
proof -
  have "sum f (set ys) \<le> (\<Sum>y \<leftarrow> ys. f y)"
    by (induction ys) (auto simp: insert_absorb sum.insert_if)
  moreover have "(\<Sum>x \<leftarrow> xs. f x) = sum f (set xs)" using assms(1) by (simp add: sum_list_distinct_conv_sum_set)
  moreover have "sum f (set xs) \<le> sum f (set ys)" using assms(2) by (intro sum_mono2) auto
  ultimately show ?thesis by linarith
qed

text \<open>The block stays within its initial capacity of 1 MB.\<close>

definition ms_space :: "bytes list \<Rightarrow> nat" where
  "ms_space toks = sizeof_engine + 8 + (\<Sum>t \<leftarrow> toks. 18 + length t)"

lemma space_split:
  assumes "distinct ws2" "distinct ws3" "set ws2 \<subseteq> {t \<in> set toks. length t = 2}" "set ws3 \<subseteq> {t \<in> set toks. 3 \<le> length t}"
  shows "sizeof_engine + 8 + 12 * length ws2 + 16 * length ws3 + tok_space ws3 \<le> ms_space toks"
proof -
  have "length t = 2 \<and> 3 \<le> length t" if "t \<in> set ws2" "t \<in> set ws3" for t using assms(3,4) that by blast
  then have "set ws2 \<inter> set ws3 = {}" by fastforce
  then have "(\<Sum>t \<leftarrow> ws2 @ ws3. 18 + length t) \<le> (\<Sum>t \<leftarrow> toks. 18 + length t)"
    using assms by (intro sum_list_subset) auto
  moreover have "12 * length ws2 \<le> (\<Sum>t \<leftarrow> ws2. 18 + length t)" by (induction ws2) auto
  moreover have "16 * length ws3 + tok_space ws3 = (\<Sum>t \<leftarrow> ws3. 18 + length t)"
    by (induction ws3) (auto simp: tok_space_def)
  ultimately show ?thesis by (simp add: ms_space_def)
qed

lemma over_1:
  assumes "mem_data b = []" "length (a_flags b) = 256"
  shows "\<exists>b'. zmsearch_add_over_1 b = Some b' \<and> b' = b\<lparr>mem_capability := 2 ^ 20, mem_data := mem_data b'\<rparr>
    \<and> length (mem_data b') = sizeof_engine \<and> mread (mem_data b') eng_a_data 256 = Some (a_flags b)"
proof -
  let ?b = "b\<lparr>mem_capability := 1024 * 1024\<rparr>"
  define b1 where "b1 = ?b\<lparr>mem_data := replicate sizeof_engine 0\<rparr>"
  have "mem_malloc ?b sizeof_engine = Some (b1, 0, False)"
    using mem_malloc_fits [of ?b sizeof_engine] assms(1) by (simp add: b1_def)
  moreover have "eng_a_data + length (a_flags b1) \<le> length (mem_data b1)" by (simp add: b1_def assms(2))
  from bput_bytes [OF this] obtain b' where b': "bput (\<lambda>m. mwrite m eng_a_data (a_flags b1)) b1 = Some b'"
    "in_block b1 b' eng_a_data (length (a_flags b1))"
    "mread (mem_data b') eng_a_data (length (a_flags b1)) = Some (a_flags b1)" .
  ultimately show ?thesis using assms(2) by (auto simp: zmsearch_add_over_1_def in_block_def b1_def)
qed

definition engine_for :: "bytes \<Rightarrow> (byte \<Rightarrow> byte) \<Rightarrow> bytes list \<Rightarrow> nat \<Rightarrow> bytes list \<Rightarrow> bool" where
  "engine_for m F ws2 base ws3 \<longleftrightarrow> (\<forall>c. flag_of m c = Some (F c))
     \<and> (ws2 \<noteq> [] \<longrightarrow> ab_lay m sizeof_engine ws2) \<and> bucket_off h2 2 sizeof_engine ws2 (tab_size ws2) < 2 ^ 31
     \<and> (ws3 \<noteq> [] \<longrightarrow> abc_lay m base ws3) \<and> bucket_off h3 4 base ws3 (tab_size ws3) < 2 ^ 31 \<and> 0 < base"

lemma flag_of_read:
  assumes "mread m eng_a_data 256 = Some fl"
  shows "flag_of m c = Some (fl ! unat c)"
proof -
  have l: "12 + 256 \<le> length m" and fl: "fl = take 256 (drop 12 m)"
    using assms by (auto simp: mread_def split: if_splits)
  have "12 + unat c + 1 \<le> length m" using unat_byte_less [of c] l by linarith
  then have "mread m (12 + unat c) 1 = Some [m ! (12 + unat c)]"
    by (simp add: mread_def hd_drop_conv_nth take_Suc)
  then show ?thesis using l by (simp add: flag_of_def fl)
qed

lemma finish_ok:
  assumes "sizeof_engine \<le> length (mem_data b)"
  shows "\<exists>m. zmsearch_add_over_finished b = Some \<lparr>engine = Some m, mode = BNull\<rparr>
    \<and> length m = length (mem_data b) \<and> agree (mem_data b) m 0 12
    \<and> mread m 0 4 = Some code_id \<and> mread m 4 4 = Some code_version
    \<and> get_int m eng_data_len = Some (of_nat (length m))"
proof -
  let ?m = "mem_data b"
  obtain m1 where m1: "put_int ?m eng_data_len (of_nat (length ?m)) = Some m1" "length m1 = length ?m"
    using put_int_ok [of eng_data_len ?m] assms by auto
  obtain m2 where m2: "mwrite m1 0 code_id = Some m2"
    using mwrite_ok [of 0 code_id m1] assms m1(2) by (auto simp: code_id_def cstr_def)
  have l2: "length m2 = length ?m" using mwrite_SomeD [OF m2] m1(2) by simp
  obtain m3 where m3: "mwrite m2 4 code_version = Some m3"
    using mwrite_ok [of 4 code_version m2] assms l2 by (auto simp: code_version_def)
  have l3: "length m3 = length ?m" using mwrite_SomeD [OF m3] l2 by simp
  have c: "length code_id = 4" "length code_version = 4" by (simp_all add: code_id_def cstr_def code_version_def)
  have a: "agree ?m m1 0 12" "agree m1 m2 0 12" "agree m2 m3 0 12"
    using agree_mono [OF agree_put_int [OF m1(1)]] agree_mono [OF agree_mwrite [OF m2]] agree_mono [OF agree_mwrite [OF m3]]
    by (simp_all add: c)
  have ag: "agree ?m m3 0 12"
    by (rule agree_trans [OF agree_trans [OF a(1,2)] a(3)]) (simp_all add: m1(2) l2)
  have "mread m3 0 4 = Some code_id"
    using mread_mwrite_same [OF m2] mread_mwrite_other [OF m3, of 0 4] by (simp add: c)
  moreover have "mread m3 4 4 = Some code_version" using mread_mwrite_same [OF m3] by (simp add: c)
  moreover have "get_int m3 8 = Some (of_nat (length m3))"
    using get_put_int [OF m1(1)] mread_mwrite_other [OF m3, of 8 4] mread_mwrite_other [OF m2, of 8 4] l3
    by (simp add: get_int_def c)
  ultimately show ?thesis using m1 m2 m3 l3 ag by (simp add: zmsearch_add_over_finished_def Let_def)
qed

lemma over_2_any:
  assumes m: "length (mem_data b) = sizeof_engine"
    and ws: "\<forall>w \<in> set (ab_data_tmp b). length w = 2" "distinct (ab_data_tmp b)"
    and cap: "sizeof_engine + 4 + 12 * length (ab_data_tmp b) \<le> mem_capability b" "mem_capability b < 2 ^ 31 - 1"
  shows "\<exists>b'. zmsearch_add_over_2 b = Some b' \<and> b' = b\<lparr>mem_data := mem_data b'\<rparr>
    \<and> (ab_data_tmp b \<noteq> [] \<longrightarrow> ab_lay (mem_data b') sizeof_engine (ab_data_tmp b)
        \<and> bucket_off h2 2 sizeof_engine (ab_data_tmp b) (tab_size (ab_data_tmp b)) \<le> length (mem_data b'))
    \<and> sizeof_engine \<le> length (mem_data b') \<and> length (mem_data b') \<le> sizeof_engine + 4 + 12 * length (ab_data_tmp b)
    \<and> agree (mem_data b) (mem_data b') eng_ab_data_offset 8"
proof (cases "ab_data_tmp b = []")
  case True
  then show ?thesis using m by (simp add: zmsearch_add_over_2_def agree_refl)
next
  case False
  from over_2 [OF m order_refl ws False cap] obtain b' where b':
    "zmsearch_add_over_2 b = Some b'" "b' = b\<lparr>mem_data := mem_data b'\<rparr>"
    "ab_lay (mem_data b') sizeof_engine (ab_data_tmp b)"
    "length (mem_data b') = bucket_off h2 2 sizeof_engine (ab_data_tmp b) (tab_size (ab_data_tmp b))"
    "agree (mem_data b) (mem_data b') eng_ab_data_offset 8" by blast
  have "length (mem_data b') \<le> sizeof_engine + 4 + 12 * length (ab_data_tmp b)"
    using bucket_off_bound [where w = 2 and h = h2 and base = sizeof_engine and ws = "ab_data_tmp b"] b'(4) by simp
  moreover have "sizeof_engine + 4 * tab_size (ab_data_tmp b) \<le> length (mem_data b')" unfolding b'(4) by (rule boff_ge)
  ultimately show ?thesis using b' by (intro exI [of _ b']) linarith
qed

lemma over_3_any:
  assumes m: "sizeof_engine \<le> length (mem_data b)"
    and ws: "\<forall>w \<in> set (abc_data_tmp b). 3 \<le> length w"
    and cap: "length (mem_data b) + 4 + 16 * length (abc_data_tmp b) + tok_space (abc_data_tmp b) \<le> mem_capability b"
      "mem_capability b < 2 ^ 31 - 1"
  shows "\<exists>b'. zmsearch_add_over_3 b = Some b'
    \<and> (abc_data_tmp b \<noteq> [] \<longrightarrow> abc_lay (mem_data b') (length (mem_data b)) (abc_data_tmp b)
        \<and> bucket_off h3 4 (length (mem_data b)) (abc_data_tmp b) (tab_size (abc_data_tmp b)) \<le> length (mem_data b'))
    \<and> length (mem_data b) \<le> length (mem_data b') \<and> agree (mem_data b) (mem_data b') eng_abc_data_offset 8
    \<and> length (mem_data b') \<le> mem_capability b"
proof (cases "abc_data_tmp b = []")
  case True
  then show ?thesis using cap(1) by (simp add: zmsearch_add_over_3_def agree_refl)
next
  case False
  from over_3 [OF refl m ws False cap] obtain b' where b':
    "zmsearch_add_over_3 b = Some b'" "abc_lay (mem_data b') (length (mem_data b)) (abc_data_tmp b)"
    "length (mem_data b') = bucket_off h3 4 (length (mem_data b)) (abc_data_tmp b) (tab_size (abc_data_tmp b))
       + tok_space (abc_data_tmp b)"
    "agree (mem_data b) (mem_data b') eng_abc_data_offset 8" by blast
  have "length (mem_data b) + 4 * tab_size (abc_data_tmp b)
      \<le> bucket_off h3 4 (length (mem_data b)) (abc_data_tmp b) (tab_size (abc_data_tmp b))" by (rule boff_ge)
  moreover have "length (mem_data b') \<le> mem_capability b"
    using bucket_off_bound [where w = 4 and h = h3 and base = "length (mem_data b)" and ws = "abc_data_tmp b"] b'(3) cap(1)
    by simp
  ultimately show ?thesis using b' by (intro exI [of _ b']) linarith
qed

lemma add_over_ok:
  assumes b: "tokens_in toks b" "\<forall>t \<in> set toks. token_ok t" "mode ms = Building b" and space: "ms_space toks \<le> 2 ^ 20"
  shows "\<exists>m base. zmsearch_add_over ms = Some \<lparr>engine = Some m, mode = BNull\<rparr>
    \<and> engine_for m (\<lambda>c. a_flags b ! unat c) (ab_data_tmp b) base (minimal (abc_data_tmp b))
    \<and> mread m 0 4 = Some code_id \<and> mread m 4 4 = Some code_version \<and> length m < 2 ^ 31
    \<and> get_int m eng_data_len = Some (of_nat (length m))"
proof -
  let ?ws2 = "ab_data_tmp b" and ?ws3 = "minimal (abc_data_tmp b)"
  have t: "length (a_flags b) = 256" "sorted_wrt (<) ?ws2" "set ?ws2 = {t \<in> set toks. length t = 2}"
    "sorted_wrt (<) (abc_data_tmp b)" "set (abc_data_tmp b) = {t \<in> set toks. 3 \<le> length t}" "mem_data b = []"
    using b(1) unfolding tokens_in_def by blast+
  note mp = minimal_props [OF t(4)]
  have d: "distinct ?ws2" "distinct ?ws3" using t(2) mp(1) strict_sorted_iff by blast+
  have sp: "sizeof_engine + 8 + 12 * length ?ws2 + 16 * length ?ws3 + tok_space ?ws3 \<le> 2 ^ 20"
    using space_split [OF d, of toks] t(3,5) mp(3) space by simp
  obtain b1 where b1: "zmsearch_add_over_1 b = Some b1" "b1 = b\<lparr>mem_capability := 2 ^ 20, mem_data := mem_data b1\<rparr>"
    "length (mem_data b1) = sizeof_engine" "mread (mem_data b1) eng_a_data 256 = Some (a_flags b)"
    using over_1 [OF t(6,1)] by blast
  have f1: "ab_data_tmp b1 = ?ws2" "abc_data_tmp b1 = abc_data_tmp b" "mem_capability b1 = 2 ^ 20"
    by (subst b1(2), simp)+
  have c1: "\<forall>w \<in> set (ab_data_tmp b1). length w = 2" "distinct (ab_data_tmp b1)"
    "sizeof_engine + 4 + 12 * length (ab_data_tmp b1) \<le> mem_capability b1" "mem_capability b1 < 2 ^ 31 - 1"
    using t(3) d(1) sp by (simp_all add: f1)
  from over_2_any [OF b1(3) c1] obtain b2 where b2: "zmsearch_add_over_2 b1 = Some b2" "b2 = b1\<lparr>mem_data := mem_data b2\<rparr>"
    "?ws2 \<noteq> [] \<Longrightarrow> ab_lay (mem_data b2) sizeof_engine ?ws2
        \<and> bucket_off h2 2 sizeof_engine ?ws2 (tab_size ?ws2) \<le> length (mem_data b2)"
    "sizeof_engine \<le> length (mem_data b2)" "length (mem_data b2) \<le> sizeof_engine + 4 + 12 * length ?ws2"
    "agree (mem_data b1) (mem_data b2) eng_ab_data_offset 8"
    by (auto simp: f1)
  have f2: "abc_data_tmp b2 = abc_data_tmp b" "mem_capability b2 = 2 ^ 20"
    by (subst b2(2), simp add: f1)+
  have "\<forall>w \<in> set (abc_data_tmp b2). 0 \<notin> set w" using b(2) t(5) by (simp add: f2 token_ok_def)
  then have cl: "zmsearch_add_over_3_clear b2 = b2\<lparr>abc_data_tmp := ?ws3\<rparr>"
    using clear_minimal [of b2] t(4) by (simp add: f2)
  let ?b2 = "b2\<lparr>abc_data_tmp := ?ws3\<rparr>"
  have "\<forall>w \<in> set (abc_data_tmp ?b2). 3 \<le> length w" using mp(3) t(5) by auto
  moreover have "length (mem_data ?b2) + 4 + 16 * length (abc_data_tmp ?b2) + tok_space (abc_data_tmp ?b2)
      \<le> mem_capability ?b2" using sp b2(5) by (simp add: f2)
  moreover have "sizeof_engine \<le> length (mem_data ?b2)" "mem_capability ?b2 < 2 ^ 31 - 1" using b2(4) by (simp_all add: f2)
  ultimately obtain b3 where b3: "zmsearch_add_over_3 ?b2 = Some b3"
    "?ws3 \<noteq> [] \<Longrightarrow> abc_lay (mem_data b3) (length (mem_data b2)) ?ws3
        \<and> bucket_off h3 4 (length (mem_data b2)) ?ws3 (tab_size ?ws3) \<le> length (mem_data b3)"
    "length (mem_data b2) \<le> length (mem_data b3)" "agree (mem_data b2) (mem_data b3) eng_abc_data_offset 8"
    "length (mem_data b3) \<le> 2 ^ 20"
    using over_3_any [of ?b2] f2(2) by auto
  from b2(4) b3(3) have l3: "sizeof_engine \<le> length (mem_data b3)" by linarith
  from finish_ok [OF l3] obtain m where m: "zmsearch_add_over_finished b3 = Some \<lparr>engine = Some m, mode = BNull\<rparr>"
    "length m = length (mem_data b3)" "agree (mem_data b3) m 0 12" "mread m 0 4 = Some code_id"
    "mread m 4 4 = Some code_version" "get_int m eng_data_len = Some (of_nat (length m))" by blast
  have "mread m eng_a_data 256 = mread (mem_data b3) eng_a_data 256" using l3 by (intro agreeD [OF m(3)]) auto
  also have "\<dots> = mread (mem_data b2) eng_a_data 256" using b2(4) by (intro agreeD [OF b3(4)]) auto
  also have "\<dots> = mread (mem_data b1) eng_a_data 256" using b1(3) by (intro agreeD [OF b2(6)]) auto
  finally have fl: "flag_of m c = Some (a_flags b ! unat c)" for c
    using b1(4) by (intro flag_of_read) simp
  have ab: "ab_lay m sizeof_engine ?ws2" if ne: "?ws2 \<noteq> []"
  proof (rule ab_lay_mono)
    show "ab_lay (mem_data b2) sizeof_engine ?ws2" "bucket_off h2 2 sizeof_engine ?ws2 (tab_size ?ws2) \<le> length (mem_data b2)"
      using b2(3) [OF ne] by simp_all
    fix q n :: nat
    assume q: "eng_ab_data_offset \<le> q" "q + n \<le> eng_abc_data_offset \<or> sizeof_engine \<le> q" "q + n \<le> length (mem_data b2)"
    have "mread m q n = mread (mem_data b3) q n" using q b3(3) by (intro agreeD [OF m(3)]) auto
    also have "\<dots> = mread (mem_data b2) q n" using q by (intro agreeD [OF b3(4)]) auto
    finally show "mread m q n = mread (mem_data b2) q n" .
  qed simp
  have abc: "abc_lay m (length (mem_data b2)) ?ws3" if ne: "?ws3 \<noteq> []"
  proof (rule abc_lay_mono)
    show "abc_lay (mem_data b3) (length (mem_data b2)) ?ws3"
      "bucket_off h3 4 (length (mem_data b2)) ?ws3 (tab_size ?ws3) \<le> length (mem_data b3)"
      using b3(2) [OF ne] by simp_all
  qed (use b2(4) m(2) in \<open>auto intro: agreeD [OF m(3)]\<close>)
  have off2: "bucket_off h2 2 sizeof_engine ?ws2 (tab_size ?ws2) < 2 ^ 31"
    using bucket_off_bound [where w = 2 and h = h2 and base = sizeof_engine and ws = ?ws2] sp by simp
  have off3: "bucket_off h3 4 (length (mem_data b2)) ?ws3 (tab_size ?ws3) < 2 ^ 31"
    using bucket_off_bound [where w = 4 and h = h3 and base = "length (mem_data b2)" and ws = ?ws3] sp b2(5) by simp
  have "zmsearch_add_over ms = Some \<lparr>engine = Some m, mode = BNull\<rparr>"
    using b(3) b1(1) b2(1) cl b3(1) m(1) by (simp add: zmsearch_add_over_def)
  moreover have "engine_for m (\<lambda>c. a_flags b ! unat c) ?ws2 (length (mem_data b2)) ?ws3"
  proof -
    have "0 < length (mem_data b2)" using b2(4) by linarith
    then show ?thesis unfolding engine_for_def using fl ab abc off2 off3 by blast
  qed
  moreover have "length m < 2 ^ 31" using b3(5) m(2) by simp
  ultimately show ?thesis using m(4-6) by blast
qed

section \<open>The occurrences found\<close>

text \<open>The reference: the first position where a token begins, with the length of the shortest one there.\<close>

fun leftmost :: "bytes list \<Rightarrow> bytes \<Rightarrow> (nat \<times> nat) option" where
  "leftmost toks [] = None"
| "leftmost toks (c # s) =
     (case filter (\<lambda>t. prefix t (c # s)) toks of
        [] \<Rightarrow> map_option (\<lambda>(i, l). (Suc i, l)) (leftmost toks s)
      | us \<Rightarrow> Some (0, Min (set (map length us))))"

lemma match_at_ok:
  assumes b: "tokens_in toks b" "\<forall>t \<in> set toks. token_ok t"
    and e: "engine_for m (\<lambda>c. a_flags b ! unat c) (ab_data_tmp b) base (minimal (abc_data_tmp b))" and ps: "ps \<noteq> []"
  shows "(\<forall>t \<in> set toks. prefix t ps \<longrightarrow> (\<forall>u \<in> set toks. prefix u ps \<longrightarrow> length t \<le> length u) \<longrightarrow>
      match_at m ps = Some (Some (if length t = 2 then 2 else 1, length t)))
    \<and> ((\<forall>t \<in> set toks. \<not> prefix t ps) \<longrightarrow> match_at m ps = Some None)"
proof -
  let ?F = "\<lambda>c. a_flags b ! unat c" and ?ws2 = "ab_data_tmp b" and ?ws3 = "minimal (abc_data_tmp b)"
  have t: "sorted_wrt (<) ?ws2" "set ?ws2 = {t \<in> set toks. length t = 2}"
    "sorted_wrt (<) (abc_data_tmp b)" "set (abc_data_tmp b) = {t \<in> set toks. 3 \<le> length t}"
    and F: "\<And>k c. bit (?F c) k \<longleftrightarrow> (\<exists>t \<in> set toks. role k t c)"
    using b(1) unfolding tokens_in_def by blast+
  note mp = minimal_props [OF t(3)]
  have en: "\<And>c. flag_of m c = Some (?F c)" "?ws2 \<noteq> [] \<Longrightarrow> ab_lay m sizeof_engine ?ws2"
    "bucket_off h2 2 sizeof_engine ?ws2 (tab_size ?ws2) < 2 ^ 31" "?ws3 \<noteq> [] \<Longrightarrow> abc_lay m base ?ws3"
    "bucket_off h3 4 base ?ws3 (tab_size ?ws3) < 2 ^ 31" "0 < base"
    using e unfolding engine_for_def by blast+
  have ab: "match_ab m (?F (ps ! 0)) ps = Some (1 < length ps \<and> take 2 ps \<in> set ?ws2)"
  proof (rule match_ab_ok [OF en(1) _ _ t(1) _ en(2,3)])
    fix w assume w: "w \<in> set ?ws2"
    then have "w \<in> set toks" "length w = 2" using t(2) by auto
    then have "role 1 w (w ! 0)" "role 2 w (w ! 1)" by simp_all
    then show "bit (?F (w ! 0)) 1 \<and> bit (?F (w ! 1)) 2" using F \<open>w \<in> set toks\<close> by blast
  next
    fix c :: byte assume "bit (?F c) 1"
    then obtain u where "u \<in> set toks" "role 1 u c" using F by blast
    then have "u \<in> set ?ws2" using t(2) by simp
    then show "?ws2 \<noteq> []" by auto
  qed (use t(2) in auto)
  have abc: "(\<forall>t \<in> set ?ws3. prefix t ps \<longrightarrow> match_abc m (?F (ps ! 0)) ps = Some (Some (length t)))
    \<and> ((\<forall>t \<in> set ?ws3. \<not> prefix t ps) \<longrightarrow> match_abc m (?F (ps ! 0)) ps = Some None)"
  proof (rule match_abc_ok [OF en(1) _ _ mp(1,2) _ en(4-6)])
    fix w assume "w \<in> set ?ws3"
    then have w: "w \<in> set toks" "3 \<le> length w" using t(4) mp(3) by auto
    then have "role 3 w (w ! 0)" "role 4 w (w ! 1)" "role 5 w (w ! 2)" by simp_all
    then show "bit (?F (w ! 0)) 3 \<and> bit (?F (w ! 1)) 4 \<and> bit (?F (w ! 2)) 5" using F w(1) by blast
  next
    fix c :: byte assume "bit (?F c) 3"
    then obtain u where "u \<in> set toks" "role 3 u c" using F by blast
    then have "u \<in> set (abc_data_tmp b)" using t(4) by simp
    then show "?ws3 \<noteq> []" using mp(4) by fastforce
  next
    show "\<forall>w \<in> set ?ws3. 3 \<le> length w \<and> length w < 2 ^ 15"
      using mp(3) t(4) b(2) by (fastforce simp: token_ok_def)
  qed
  have hd: "hd ps = ps ! 0" using ps by (simp add: hd_conv_nth)
  have one: "bit (?F (ps ! 0)) 0 \<longleftrightarrow> [ps ! 0] \<in> set toks"
  proof
    assume "bit (?F (ps ! 0)) 0"
    then obtain u where "u \<in> set toks" "length u = 1" "u ! 0 = ps ! 0" using F by force
    moreover from this(2,3) have "u = [ps ! 0]" by (cases u) auto
    ultimately show "[ps ! 0] \<in> set toks" by simp
  next
    assume "[ps ! 0] \<in> set toks"
    moreover have "role 0 [ps ! 0] (ps ! 0)" by simp
    ultimately show "bit (?F (ps ! 0)) 0" using F by blast
  qed
  have unf: "match_at m ps =
      (if [ps ! 0] \<in> set toks then Some (Some (1, 1))
       else if 1 < length ps \<and> take 2 ps \<in> set ?ws2 then Some (Some (2, 2))
       else map_option (map_option (\<lambda>tlen. (1, tlen))) (match_abc m (?F (ps ! 0)) ps))"
    unfolding match_at_def using en(1) ab one by (simp add: hd flag_bits)
  have p1: "prefix [ps ! 0] ps" "prefix (take 2 ps) ps" using ps by (cases ps) (auto simp: take_is_prefix)
  have l2: "length (take 2 ps) = 2" if "take 2 ps \<in> set ?ws2" using that t(2) by blast
  show ?thesis
  proof (intro conjI ballI impI)
    fix w assume w: "w \<in> set toks" "prefix w ps" and min: "\<forall>u \<in> set toks. prefix u ps \<longrightarrow> length w \<le> length u"
    obtain z where z: "ps = w @ z" using w(2) by (auto simp: prefix_def)
    have "w \<noteq> []" using b(2) w(1) by (simp add: token_ok_def)
    then consider "length w = 1" | "length w = 2" | "3 \<le> length w" by (cases w; cases "tl w"; cases "tl (tl w)") auto
    then show "match_at m ps = Some (Some (if length w = 2 then 2 else 1, length w))"
    proof cases
      case 1
      then have "w = [ps ! 0]" using z by (cases w) auto
      then show ?thesis using unf w(1) by simp
    next
      case 2
      then have "[ps ! 0] \<notin> set toks" using min p1(1) by fastforce
      moreover have "take 2 ps = w" "1 < length ps" using z 2 by simp_all
      ultimately show ?thesis using unf w(1) t(2) 2 by simp
    next
      case 3
      then have "[ps ! 0] \<notin> set toks" using min p1(1) by fastforce
      moreover have "take 2 ps \<notin> set ?ws2" using 3 l2 min p1(2) t(2) by fastforce
      moreover have "w \<in> set ?ws3"
      proof -
        have "\<not> (v \<noteq> w \<and> prefix v w)" if "v \<in> set (abc_data_tmp b)" for v
        proof
          assume v: "v \<noteq> w \<and> prefix v w"
          then have "prefix v ps" using w(2) by (meson prefix_order.trans)
          then have "length w \<le> length v" using min that t(4) by blast
          then show False using v by (meson prefix_length_le prefix_length_less not_less strict_prefix_def)
        qed
        then show ?thesis using w(1) 3 t(4) by (simp add: minimal_def)
      qed
      ultimately show ?thesis using unf abc w(2) 3 by simp
    qed
  next
    assume none: "\<forall>t \<in> set toks. \<not> prefix t ps"
    then have "[ps ! 0] \<notin> set toks" "take 2 ps \<notin> set ?ws2" using p1 t(2) by auto
    moreover have "\<forall>t \<in> set ?ws3. \<not> prefix t ps" using none mp(3) t(4) by blast
    ultimately show "match_at m ps = Some None" using unf abc by simp
  qed
qed

lemma match_loop_ok:
  assumes b: "tokens_in toks b" "\<forall>t \<in> set toks. token_ok t"
    and e: "engine_for m (\<lambda>c. a_flags b ! unat c) (ab_data_tmp b) base (minimal (abc_data_tmp b))"
  shows "match_loop m ptr i s = Some
    (case leftmost toks s of
       None \<Rightarrow> (0, if s = [] then ptr else Some (i + length s - 1), None)
     | Some (j, l) \<Rightarrow> (if l = 2 then 2 else 1, Some (i + j), Some l))"
proof (induction s arbitrary: ptr i)
  case (Cons c s)
  note at = match_at_ok [OF b e, of "c # s"]
  show ?case
  proof (cases "filter (\<lambda>t. prefix t (c # s)) toks")
    case Nil
    then have "match_at m (c # s) = Some None" using at by (auto simp: filter_empty_conv)
    then show ?thesis
      using Cons.IH [of "Some i" "i + 1"] Nil by (auto simp: split: option.splits)
  next
    case (Cons u us)
    define fs where "fs = filter (\<lambda>t. prefix t (c # s)) toks"
    have ne: "fs \<noteq> []" using Cons by (simp add: fs_def)
    then have "Min (set (map length fs)) \<in> set (map length fs)" by (intro Min_in) auto
    then obtain w where w: "w \<in> set fs" "length w = Min (set (map length fs))" by auto
    have "length w \<le> length v" if "v \<in> set fs" for v using that w(2) by simp
    then have "match_at m (c # s) = Some (Some (if length w = 2 then 2 else 1, length w))"
      using at w(1) by (simp add: fs_def)
    moreover have "leftmost toks (c # s) = Some (0, length w)"
      using w(2) Cons fs_def by simp
    ultimately show ?thesis by simp
  qed
qed simp

text \<open>C13: Multi-pattern search, for any non-empty tokens of at most 4096 bytes without NUL that fit the
  first allocation of the builder: adding them and \<open>zmsearch_add_over\<close> build an engine without using a
  moved block, and \<open>zmsearch_match\<close> finds in every text the first position where a token begins and the
  length of the shortest token there (it returns 2 for a token of two bytes and 1 for others), or
  returns 0 when no token occurs. The compiled data are the whole block, and an engine made from them
  answers alike.\<close>

theorem zmsearch_match_spec:
  assumes "\<forall>t \<in> set toks. token_ok t" "ms_space toks \<le> 2 ^ 20"
  shows "\<exists>ms m. Option.bind (add_tokens toks zmsearch_create) zmsearch_add_over = Some ms
    \<and> zmsearch_get_compiled_data ms = Some m \<and> zmsearch_build ms = Some m
    \<and> zmsearch_get_compiled_len ms = Some (int (length m))
    \<and> (\<exists>ms'. zmsearch_create_from_data m = Some (Some ms') \<and> zmsearch_match ms' = zmsearch_match ms)
    \<and> (\<forall>s. zmsearch_match ms s (int (length s)) = Some
         (case leftmost toks s of
            None \<Rightarrow> (0, if s = [] then None else Some (length s - 1), None)
          | Some (i, l) \<Rightarrow> (if l = 2 then 2 else 1, Some i, Some l)))"
proof -
  obtain b0 where b0: "mode zmsearch_create = Building b0" "tokens_in [] b0" using create_tokens by blast
  from add_tokens_ok [OF assms(1) b0(2,1)] obtain b where
    b: "add_tokens toks zmsearch_create = Some (zmsearch_create\<lparr>mode := Building b\<rparr>)" "tokens_in toks b" by auto
  from add_over_ok [OF b(2) assms(1) _ assms(2), of "zmsearch_create\<lparr>mode := Building b\<rparr>"] obtain m base where
    m: "zmsearch_add_over (zmsearch_create\<lparr>mode := Building b\<rparr>) = Some \<lparr>engine = Some m, mode = BNull\<rparr>"
    "engine_for m (\<lambda>c. a_flags b ! unat c) (ab_data_tmp b) base (minimal (abc_data_tmp b))"
    "mread m 0 4 = Some code_id" "mread m 4 4 = Some code_version" "length m < 2 ^ 31"
    "get_int m eng_data_len = Some (of_nat (length m))" by auto
  let ?ms = "\<lparr>engine = Some m, mode = BNull\<rparr>" and ?ms' = "\<lparr>engine = Some m, mode = BForeign\<rparr>"
  have "zmsearch_build ?ms = Some m" "zmsearch_get_compiled_len ?ms = Some (int (length m))"
    using m(6) unat_small [OF m(5)] sint_small [OF m(5)]
    by (simp_all add: zmsearch_build_def zmsearch_get_compiled_len_def mread_def)
  moreover have "zmsearch_create_from_data m = Some (Some ?ms')"
    using m(3,4) by (simp add: zmsearch_create_from_data_def memcmp_def bytes_cmp_refl)
  moreover have "zmsearch_match ?ms' = zmsearch_match ?ms" by (simp add: fun_eq_iff zmsearch_match_def Let_def)
  moreover have "zmsearch_match ?ms s (int (length s)) = Some
         (case leftmost toks s of
            None \<Rightarrow> (0, if s = [] then None else Some (length s - 1), None)
          | Some (i, l) \<Rightarrow> (if l = 2 then 2 else 1, Some i, Some l))" for s
    using match_loop_ok [OF b(2) assms(1) m(2), of None 0 s]
    by (cases s) (simp_all only: zmsearch_match_def src_bytes_all Let_def if_True if_False add_0 list.distinct
      zmsearch.select_convs bind.bind_lunit leftmost.simps option.case simp_thms)
  moreover have "zmsearch_get_compiled_data ?ms = Some m" by (simp add: zmsearch_get_compiled_data_def)
  ultimately show ?thesis using b(1) m(1) by (intro exI [of _ ?ms] exI [of _ m]) auto
qed

theorem zmsearch_match_spec_witness:
  "\<exists>ms. Option.bind (add_tokens [cstr ''he'', cstr ''hers''] zmsearch_create) zmsearch_add_over = Some ms
    \<and> zmsearch_match ms (cstr ''usher'') 5 = Some (2, Some 2, Some 2)"
proof -
  let ?toks = "[cstr ''he'', cstr ''hers'']"
  have ok: "\<forall>t \<in> set ?toks. token_ok t" "ms_space ?toks \<le> 2 ^ 20"
    by (simp_all add: token_ok_def ms_space_def cstr_def ch_def of_char_def horner_sum_simps)
  have l: "leftmost ?toks (cstr ''usher'') = Some (2, 2)"
    by (simp add: cstr_def ch_def of_char_def horner_sum_simps)
  have n: "int (length (cstr ''usher'')) = 5" by (simp add: cstr_def)
  from zmsearch_match_spec [OF ok] obtain ms where
    ms: "Option.bind (add_tokens ?toks zmsearch_create) zmsearch_add_over = Some ms"
    "\<And>s. zmsearch_match ms s (int (length s)) = Some
         (case leftmost ?toks s of
            None \<Rightarrow> (0, if s = [] then None else Some (length s - 1), None)
          | Some (i, l) \<Rightarrow> (if l = 2 then 2 else 1, Some i, Some l))" by blast
  from ms(2) [of "cstr ''usher''"] have "zmsearch_match ms (cstr ''usher'') 5 = Some (2, Some 2, Some 2)"
    unfolding n l by simp
  with ms(1) show ?thesis by blast
qed

section \<open>The walker\<close>

text \<open>After the last token of a bucket of two-byte tokens the walker keeps its index, so that it passes
  over as many tokens of the next bucket: when the next hbucket has no more tokens than this one, it
  reports none of them.\<close>

lemma walk_ab_at:
  assumes "ab_lay m base ws" "bucket_off h2 2 base ws (tab_size ws) < 2 ^ 31" "0 < base" "distinct ws"
    "\<forall>w \<in> set ws. length w = 2" "hv < tab_size ws" "0 < counts h2 ws hv" "counts h2 ws hv \<le> idx"
  shows "walk_ab m (tab_size ws) hv idx = walk_ab m (tab_size ws) (hv + 1) idx"
proof -
  let ?p = "bucket_off h2 2 base ws hv"
  have Lb: "base + 4 * tab_size ws \<le> ?p" "base + 4 * tab_size ws \<le> bucket_off h2 2 base ws (tab_size ws)"
    by (rule boff_ge)+
  have pb: "?p \<le> bucket_off h2 2 base ws (tab_size ws)" using assms(6) by (intro boff_mono) simp
  have small: "base < 2 ^ 31" "?p < 2 ^ 31" "0 < ?p" using Lb pb assms(2,3) by linarith+
  have l: "get_int m eng_ab_data_offset = Some (of_nat base)" "get_int m (base + 4 * hv) = Some (of_nat ?p)"
    "get_short m ?p = Some (of_nat (counts h2 ws hv))"
    using assms(1,6,7) unfolding ab_lay_def ab_bucket_def by simp_all
  have "unat (of_nat ?p :: 32 word) = ?p" by (rule unat_small [OF small(2)])
  moreover from this have "(of_nat ?p :: 32 word) \<noteq> 0" using small(3) by (metis less_irrefl unat_0)
  moreover have "sint (of_nat (counts h2 ws hv) :: 16 word) = int (counts h2 ws hv)"
    by (rule sint_short [OF ab_counts [OF assms(4,5)]])
  ultimately show ?thesis
    using assms(6,8) l(2,3) entry_ok [OF l(1) small(1), of hv] by (subst walk_ab.simps) simp
qed

theorem walk_ab_skips:
  assumes "ab_lay m base ws" "bucket_off h2 2 base ws (tab_size ws) < 2 ^ 31" "0 < base" "distinct ws"
    "\<forall>w \<in> set ws. length w = 2" "hv + 1 < tab_size ws" "0 < counts h2 ws (hv + 1)"
    "counts h2 ws (hv + 1) \<le> counts h2 ws hv"
  shows "walk_ab m (tab_size ws) hv (counts h2 ws hv) = walk_ab m (tab_size ws) (hv + 2) (counts h2 ws hv)"
proof -
  have "0 < counts h2 ws hv" "hv < tab_size ws" using assms(6,7,8) by linarith+
  then have "walk_ab m (tab_size ws) hv (counts h2 ws hv) = walk_ab m (tab_size ws) (hv + 1) (counts h2 ws hv)"
    using walk_ab_at [OF assms(1-5)] by blast
  also have "\<dots> = walk_ab m (tab_size ws) (hv + 1 + 1) (counts h2 ws hv)"
    using walk_ab_at [OF assms(1-7,8)] by blast
  finally show ?thesis by (simp add: add.assoc)
qed

end
