(* ===== verification/MimeParam.thy ===== *)
theory MimeParam
  imports Config
begin

text \<open>
  The structured header fields of a mail: a value followed by parameters (\<open>src/mime/param.c\<close>). A line
  is the list of its bytes and a pointer into it the list from there, since the code never looks past
  the end it is given. Dictionaries are lists of entries in the order of the keys, as in \<open>Config\<close>.
\<close>

section \<open>The scanner\<close>

fun ignore_chs :: "bytes \<Rightarrow> bytes \<Rightarrow> bytes" where
  "ignore_chs [] ign = []"
| "ignore_chs (c # p) ign = (if c \<in> set ign then ignore_chs p ign else c # p)"

text \<open>What is before the delimiter, and the line from the delimiter.\<close>

fun find_delim :: "bytes \<Rightarrow> bytes \<Rightarrow> (bytes \<times> bytes) option" where
  "find_delim [] delim = None"
| "find_delim (c # p) delim =
     (if c \<in> set delim then Some ([], c # p) else map_option (\<lambda>(a, r). (c # a, r)) (find_delim p delim))"

fun quoted_value :: "zbuf \<Rightarrow> bytes \<Rightarrow> zbuf \<times> bytes" where
  "quoted_value value0 [] = (value0, [])"
| "quoted_value value0 (c # ps) =
     (if c = 34 then (value0, ps)
      else if c = 92 then
        (case ps of
           [] \<Rightarrow> (value0, [])
         | ch2 # ps2 \<Rightarrow>
             quoted_value (zbuf_put (if ch2 \<noteq> ch CHR ''*'' \<and> ch2 \<noteq> 92 then zbuf_put value0 c else value0) ch2) ps2)
      else quoted_value (zbuf_put value0 c) ps)"

text \<open>The buffer with the value, and the rest of the line; \<open>None\<close> when the function returns \<open>-1\<close>.\<close>

definition find_value :: "bytes \<Rightarrow> zbuf \<Rightarrow> zbuf \<times> bytes option" where
  "find_value buf value0 =
     (let value1 = zbuf_reset value0; ps = ignore_chs buf [32, 9] in
      case ps of
        [] \<Rightarrow> (value1, None)
      | c # ps1 \<Rightarrow>
          if c = 34 then (let (v, r) = quoted_value value1 ps1 in (v, Some r))
          else case find_delim ps [32, 9, ch CHR '';''] of
            None \<Rightarrow> (zbuf_memcat value1 ps (int (length ps)), Some [])
          | Some (a, p) \<Rightarrow> (zbuf_memcat value1 a (int (length a)), Some (tl p)))"

text \<open>The buffers with key and value, and the rest of the line; \<open>None\<close> when the function returns \<open>-1\<close>.\<close>

definition find_next_kv :: "bytes \<Rightarrow> zbuf \<Rightarrow> zbuf \<Rightarrow> (zbuf \<times> zbuf \<times> bytes) option" where
  "find_next_kv buf key0 value0 =
     (let key1 = zbuf_reset key0; value1 = zbuf_reset value0; ps = ignore_chs buf [32, 9, ch CHR '';''] in
      if ps = [] then None
      else case find_delim ps [ch CHR ''='', 32, 9] of
        None \<Rightarrow> Some (zbuf_memcat key1 ps (int (length ps)), value1, [])
      | Some (a, p) \<Rightarrow>
          (let key2 = zbuf_memcat key1 a (int (length a));
               ps2 = ignore_chs p [32, 9] in
           if hd p \<noteq> ch CHR ''='' \<and> ps2 = [] then Some (key2, value1, [])
           else if hd p \<noteq> ch CHR ''='' \<and> hd ps2 \<noteq> ch CHR ''='' then Some (key2, value1, ps2)
           else case find_value (tl (if hd p = ch CHR ''='' then p else ps2)) value1 of
             (value2, None) \<Rightarrow> Some (key2, value2, [])
           | (value2, Some r) \<Rightarrow> Some (key2, value2, r)))"

section \<open>The scanner moves on\<close>

lemma ignore_chs_dropWhile: "ignore_chs p ign = dropWhile (\<lambda>c. c \<in> set ign) p"
  by (induction p) auto

lemma ignore_chs_length: "length (ignore_chs p ign) \<le> length p"
  by (simp add: ignore_chs_dropWhile length_dropWhile_le)

lemma find_delim_length: "find_delim p d = Some (a, r) \<Longrightarrow> length a + length r = length p \<and> r \<noteq> [] \<and> hd r \<in> set d"
  by (induction p arbitrary: a r) (auto split: if_splits)

lemma quoted_value_length: "length (snd (quoted_value v ps)) \<le> length ps"
proof (induction v ps rule: quoted_value.induct)
  case (2 v c ps)
  then show ?case by (cases ps) (auto simp: le_SucI)
qed simp

lemma find_value_length: "snd (find_value buf v) = Some r \<Longrightarrow> length r \<le> length buf"
proof -
  assume r: "snd (find_value buf v) = Some r"
  define ps where "ps = ignore_chs buf [32, 9]"
  have l: "length ps \<le> length buf" by (simp add: ps_def ignore_chs_length)
  have "length r \<le> length ps"
    using r find_delim_length [of ps "[32, 9, ch CHR '';'']"] quoted_value_length [of "zbuf_reset v" "tl ps"]
    by (auto simp: find_value_def Let_def simp flip: ps_def split: list.splits if_splits option.splits prod.splits)
  then show ?thesis using l by simp
qed

lemma find_next_kv_length:
  assumes "find_next_kv buf k v = Some (k', v', r)" "buf \<noteq> []"
  shows "length r < length buf"
proof -
  define ps where "ps = ignore_chs buf [32, 9, ch CHR '';'']"
  have l: "length ps \<le> length buf" by (simp add: ps_def ignore_chs_length)
  have ne: "ps \<noteq> []" using assms(1) by (auto simp: find_next_kv_def ps_def)
  have h: "hd ps \<notin> set [32, 9, ch CHR '';'']"
    using ne unfolding ps_def ignore_chs_dropWhile by (rule hd_dropWhile)
  show ?thesis
  proof (cases "find_delim ps [ch CHR ''='', 32, 9]")
    case None
    then show ?thesis using assms ne by (simp add: find_next_kv_def Let_def flip: ps_def)
  next
    case (Some ap)
    obtain a p where ap: "ap = (a, p)" by force
    have d: "length a + length p = length ps" "p \<noteq> []" using find_delim_length [of ps _ a p] Some ap by auto
    let ?ps2 = "ignore_chs p [32, 9]"
    have l2: "length ?ps2 \<le> length p" by (rule ignore_chs_length)
    have fv: "length r \<le> length q" if "snd (find_value q x) = Some r" for q x using that by (rule find_value_length)
    consider "hd p \<noteq> ch CHR ''=''" "?ps2 = []" | "hd p \<noteq> ch CHR ''=''" "?ps2 \<noteq> []" "hd ?ps2 \<noteq> ch CHR ''=''"
      | "hd p = ch CHR ''='' \<or> ?ps2 \<noteq> []" "hd p = ch CHR ''='' \<or> hd ?ps2 = ch CHR ''=''" by blast
    then show ?thesis
    proof cases
      case 1
      then show ?thesis using assms ne Some ap by (simp add: find_next_kv_def Let_def flip: ps_def)
    next
      case 2
      then have r: "r = ?ps2" using assms ne Some ap by (simp add: find_next_kv_def Let_def flip: ps_def)
      have "a \<noteq> []"
      proof
        assume "a = []"
        then have "ps = p" using Some ap by (cases ps) (auto split: if_splits)
        moreover have "hd p \<in> set [ch CHR ''='', 32, 9]" using find_delim_length Some ap by blast
        ultimately show False using h 2(1) by auto
      qed
      then show ?thesis using r l2 d l by (cases a) auto
    next
      case 3
      let ?q = "tl (if hd p = ch CHR ''='' then p else ?ps2)"
      have q: "length ?q < length ps" using 3 d l2 by (cases p; cases ?ps2) auto
      have "r = [] \<or> snd (find_value ?q (zbuf_reset v)) = Some r"
        using assms ne Some ap 3 by (auto simp: find_next_kv_def Let_def simp flip: ps_def split: prod.splits option.splits if_splits)
      then show ?thesis using fv q l ne by fastforce
    qed
  qed
qed

section \<open>The header fields\<close>

function params_loop :: "bytes \<Rightarrow> zbuf \<Rightarrow> zbuf \<Rightarrow> zconfig \<Rightarrow> zconfig" where
  "params_loop ps param_key param_value params =
     (if ps = [] then params
      else case find_next_kv ps param_key param_value of
        None \<Rightarrow> params
      | Some (k, v, ps') \<Rightarrow> params_loop ps' k v (obj_put (cs (zbuf_bytes k)) (zbuf_bytes v) params))"
  by pat_completeness auto
termination by (relation "measure (\<lambda>(ps, k, v, params). length ps)") (auto dest: find_next_kv_length)

declare params_loop.simps [simp del]

definition zmime_header_line_get_params :: "bytes \<Rightarrow> zbuf \<Rightarrow> zconfig \<Rightarrow> zbuf \<times> zconfig" where
  "zmime_header_line_get_params in_line value0 params =
     (case find_value in_line value0 of
        (v, None) \<Rightarrow> (v, params)
      | (v, Some ps) \<Rightarrow> (v, params_loop ps (zbuf_init 64) (zbuf_init 128) params))"

text \<open>What the callers get through their pointers; \<open>None\<close> is NULL.\<close>

record content_type =
  ct_value :: "bytes option"
  ct_boundary :: "bytes option"
  ct_charset :: "bytes option"
  ct_name :: "bytes option"

definition content_type_param :: "bytes \<Rightarrow> bytes \<Rightarrow> content_type \<Rightarrow> content_type" where
  "content_type_param k v ct =
     (if length k = 8 \<and> strcaseeq k (cstr ''boundary'') then ct\<lparr>ct_boundary := Some v\<rparr>
      else if length k = 7 \<and> strcaseeq k (cstr ''charset'') then ct\<lparr>ct_charset := Some v\<rparr>
      else if length k = 4 \<and> strcaseeq k (cstr ''name'') then ct\<lparr>ct_name := Some v\<rparr>
      else ct)"

function content_type_loop :: "bytes \<Rightarrow> zbuf \<Rightarrow> zbuf \<Rightarrow> content_type \<Rightarrow> content_type" where
  "content_type_loop ps param_key param_value ct =
     (if ps = [] then ct
      else case find_next_kv ps param_key param_value of
        None \<Rightarrow> ct
      | Some (k, v, ps') \<Rightarrow> content_type_loop ps' k v (content_type_param (zbuf_bytes k) (zbuf_bytes v) ct))"
  by pat_completeness auto
termination by (relation "measure (\<lambda>(ps, k, v, ct). length ps)") (auto dest: find_next_kv_length)

declare content_type_loop.simps [simp del]

definition zmime_header_line_decode_content_type_inner :: "bytes \<Rightarrow> content_type \<Rightarrow> content_type" where
  "zmime_header_line_decode_content_type_inner line ct =
     (case find_value line (zbuf_init 128) of
        (v, None) \<Rightarrow> ct
      | (v, Some ps) \<Rightarrow> content_type_loop ps (zbuf_init 64) v (ct\<lparr>ct_value := Some (zbuf_bytes v)\<rparr>))"

record content_disposition =
  cd_value :: "bytes option"
  cd_filename :: "bytes option"
  cd_filename_2231 :: "bytes option"
  cd_2231_with_charset :: bool

text \<open>The state of the loop: \<open>filename\<close>, the collected pieces of \<open>filename*\<close>, and the flags.\<close>

definition disposition_param ::
  "bytes \<Rightarrow> bytes \<Rightarrow> bytes option \<times> bytes option \<times> bool \<times> bool \<Rightarrow> bytes option \<times> bytes option \<times> bool \<times> bool" where
  "disposition_param k v s =
     (let (fname, tmpbf, flag_2231, charset_2231) = s in
      if length k = 8 \<and> strcaseeq k (cstr ''filename'') then (Some v, tmpbf, flag_2231, charset_2231)
      else if length k > 8 \<and> strcaseeq (take 9 k) (cstr ''filename*'') then
        (fname, Some (case tmpbf of None \<Rightarrow> v | Some t \<Rightarrow> t @ v), True,
         if flag_2231 then charset_2231
         else if length k = 9 then length (filter (\<lambda>c. c = 39) v) > 1
         else if length k = 10 then False
         else if length k = 11 then True
         else charset_2231)
      else s)"

function disposition_loop :: "bytes \<Rightarrow> zbuf \<Rightarrow> zbuf \<Rightarrow> bytes option \<times> bytes option \<times> bool \<times> bool
    \<Rightarrow> bytes option \<times> bytes option \<times> bool \<times> bool" where
  "disposition_loop ps param_key param_value s =
     (if ps = [] then s
      else case find_next_kv ps param_key param_value of
        None \<Rightarrow> s
      | Some (k, v, ps') \<Rightarrow> disposition_loop ps' k v (disposition_param (zbuf_bytes k) (zbuf_bytes v) s))"
  by pat_completeness auto
termination by (relation "measure (\<lambda>(ps, k, v, s). length ps)") (auto dest: find_next_kv_length)

declare disposition_loop.simps [simp del]

definition zmime_header_line_decode_content_disposition_inner :: "bytes \<Rightarrow> content_disposition \<Rightarrow> content_disposition" where
  "zmime_header_line_decode_content_disposition_inner line cd =
     (case find_value line (zbuf_init 128) of
        (v, None) \<Rightarrow> cd
      | (v, Some ps) \<Rightarrow>
          (let (fname, tmpbf, _, charset_2231) =
             disposition_loop ps (zbuf_init 64) v (cd_filename cd, None, False, False)
           in cd\<lparr>cd_value := Some (zstr_tolower (zbuf_bytes v)), cd_filename := fname,
                cd_2231_with_charset := charset_2231,
                cd_filename_2231 := (case tmpbf of None \<Rightarrow> cd_filename_2231 cd | Some t \<Rightarrow> Some t)\<rparr>))"

definition zmime_header_line_decode_content_transfer_encoding_inner :: "bytes \<Rightarrow> bytes option \<Rightarrow> bytes option" where
  "zmime_header_line_decode_content_transfer_encoding_inner line value0 =
     (case find_value line (zbuf_init 128) of (v, None) \<Rightarrow> value0 | (v, Some ps) \<Rightarrow> Some (zbuf_bytes v))"

section \<open>Lines of a value and parameters\<close>

text \<open>A value is a token or a quoted text, in which backslashes are doubled.\<close>

definition quote_text :: "bytes \<Rightarrow> bytes" where
  "quote_text v = concat (map (\<lambda>c. if c = 92 then [92, 92] else [c]) v)"

definition value_text :: "bool \<Rightarrow> bytes \<Rightarrow> bytes" where
  "value_text q v = (if q then 34 # quote_text v @ [34] else v)"

definition token_text :: "bytes \<Rightarrow> bool" where
  "token_text v \<longleftrightarrow> v \<noteq> [] \<and> hd v \<noteq> 34 \<and> (\<forall>c \<in> set v. c \<noteq> 32 \<and> c \<noteq> 9 \<and> c \<noteq> ch CHR '';'')"

definition value_ok :: "bool \<Rightarrow> bytes \<Rightarrow> bool" where
  "value_ok q v \<longleftrightarrow> (if q then 34 \<notin> set v else token_text v)"

definition name_ok :: "bytes \<Rightarrow> bool" where
  "name_ok k \<longleftrightarrow> k \<noteq> [] \<and> (\<forall>c \<in> set k. c \<noteq> 0 \<and> c \<noteq> 32 \<and> c \<noteq> 9 \<and> c \<noteq> ch CHR '';'' \<and> c \<noteq> ch CHR ''='')"

fun param_text :: "bool \<times> bytes \<times> bytes \<Rightarrow> bytes" where
  "param_text (q, k, v) = cstr ''; '' @ k @ cstr ''='' @ value_text q v"

fun param_ok :: "bool \<times> bytes \<times> bytes \<Rightarrow> bool" where
  "param_ok (q, k, v) \<longleftrightarrow> name_ok k \<and> value_ok q v"

definition line_text :: "bytes \<Rightarrow> (bool \<times> bytes \<times> bytes) list \<Rightarrow> bytes" where
  "line_text v ps = v @ concat (map param_text ps)"

lemma find_delim_found:
  "(\<forall>c \<in> set a. c \<notin> set d) \<Longrightarrow> x \<in> set d \<Longrightarrow> find_delim (a @ x # r) d = Some (a, x # r)"
  by (induction a) auto

lemma find_delim_none: "(\<forall>c \<in> set a. c \<notin> set d) \<Longrightarrow> find_delim a d = None"
  by (induction a) auto

lemma quoted_value_text:
  assumes "34 \<notin> set v" "zbuf_ok b"
  shows "\<exists>b'. quoted_value b (quote_text v @ 34 # r) = (b', r) \<and> appends b b' v"
  using assms
proof (induction v arbitrary: b)
  case Nil
  then show ?case by (simp add: quote_text_def appends_Nil)
next
  case (Cons c v)
  have ok: "zbuf_ok (zbuf_put b c)" using appends_put [OF Cons.prems(2)] by (rule appends_ok)
  from Cons.IH [OF _ ok] Cons.prems(1) obtain b' where
    b': "quoted_value (zbuf_put b c) (quote_text v @ 34 # r) = (b', r)" "appends (zbuf_put b c) b' v" by auto
  have q: "quote_text (c # v) = (if c = 92 then [92, 92] else [c]) @ quote_text v" by (simp add: quote_text_def)
  have "quoted_value b (quote_text (c # v) @ 34 # r) = (b', r)"
    using b'(1) Cons.prems(1) unfolding q by auto
  moreover have "appends b b' (c # v)" using appends_trans [OF appends_put [OF Cons.prems(2)] b'(2)] by simp
  ultimately show ?case by blast
qed

text \<open>A growing buffer that holds a text.\<close>

definition holds :: "zbuf \<Rightarrow> bytes \<Rightarrow> bool" where
  "holds b xs \<longleftrightarrow> zbuf_ok b \<and> zbuf_cap b = None \<and> zbuf_bytes b = xs"

lemma holds_reset: "zbuf_ok b \<Longrightarrow> zbuf_cap b = None \<Longrightarrow> holds (zbuf_reset b) []"
  by (simp add: holds_def)

lemma holds_init: "holds (zbuf_init n) []"
  by (simp add: holds_def zbuf_ok_init)

lemma holds_appends: "holds b xs \<Longrightarrow> appends b b' ys \<Longrightarrow> holds b' (xs @ ys)"
  by (simp add: holds_def appends_def)

lemma holds_memcat: "holds b [] \<Longrightarrow> holds (zbuf_memcat b a (int (length a))) a"
  using holds_appends [of b "[]" "zbuf_memcat b a (int (length a))" a] appends_memcat [of b a "int (length a)"]
  by (simp add: holds_def)

text \<open>The rest of a line: nothing, or a further parameter.\<close>

definition line_rest :: "bytes \<Rightarrow> bool" where
  "line_rest r \<longleftrightarrow> r = [] \<or> (\<exists>r'. r = ch CHR '';'' # r')"

lemma line_rest_params: "line_rest (concat (map param_text ps))"
proof (cases ps)
  case (Cons p ps')
  obtain q k v where "p = (q, k, v)" by (cases p) auto
  then show ?thesis using Cons by (simp add: line_rest_def cstr_def)
qed (simp add: line_rest_def)

lemma find_value_text:
  assumes "value_ok q v" "zbuf_ok b" "zbuf_cap b = None" "line_rest r"
  shows "\<exists>b'. find_value (value_text q v @ r) b = (b', Some (if q then r else tl r)) \<and> holds b' v"
proof (cases q)
  case True
  have v: "34 \<notin> set v" using assms(1) True by (simp add: value_ok_def)
  from quoted_value_text [OF this, of "zbuf_reset b" r] assms(2) obtain b' where
    b': "quoted_value (zbuf_reset b) (quote_text v @ 34 # r) = (b', r)" "appends (zbuf_reset b) b' v" by auto
  have "holds b' v" using holds_appends [OF holds_reset [OF assms(2,3)] b'(2)] by simp
  then show ?thesis using b'(1) True by (simp add: find_value_def value_text_def)
next
  case False
  have t: "token_text v" using assms(1) False by (simp add: value_ok_def)
  have nb: "\<forall>c \<in> set v. c \<notin> set [32, 9, ch CHR '';'']" using t by (auto simp: token_text_def)
  obtain c v' where cv: "v = c # v'" "c \<noteq> 34" "c \<noteq> 32" "c \<noteq> 9" using t by (cases v) (auto simp: token_text_def)
  have ign: "ignore_chs (v @ r) [32, 9] = v @ r" using cv by simp
  have h: "holds (zbuf_memcat (zbuf_reset b) v (int (length v))) v"
    by (rule holds_memcat [OF holds_reset [OF assms(2,3)]])
  show ?thesis
  proof (cases r)
    case Nil
    have "find_delim v [32, 9, ch CHR '';''] = None" by (rule find_delim_none [OF nb])
    then show ?thesis using Nil False h cv ign by (simp add: find_value_def value_text_def)
  next
    case (Cons x r')
    then have x: "x = ch CHR '';''" using assms(4) by (auto simp: line_rest_def)
    have "find_delim (v @ x # r') [32, 9, ch CHR '';''] = Some (v, x # r')"
      by (rule find_delim_found [OF nb]) (simp add: x)
    then show ?thesis using Cons False h cv ign by (simp add: find_value_def value_text_def)
  qed
qed

lemma ch_neqs: "ch CHR '';'' = 59" "ch CHR ''='' = 61"
  by (simp_all add: ch_def)

lemma find_next_kv_text:
  assumes "param_ok (q, k, v)" "zbuf_ok kb" "zbuf_cap kb = None" "zbuf_ok vb" "zbuf_cap vb = None" "line_rest r"
    and pre: "pre = cstr ''; '' \<or> pre = cstr '' ''"
  shows "\<exists>kb' vb'. find_next_kv (pre @ k @ cstr ''='' @ value_text q v @ r) kb vb
      = Some (kb', vb', if q then r else tl r) \<and> holds kb' k \<and> holds vb' v"
proof -
  have nk: "\<forall>c \<in> set k. c \<notin> set [ch CHR ''='', 32, 9]" using assms(1) by (auto simp: name_ok_def)
  obtain c k' where ck: "k = c # k'" "c \<notin> set [32, 9, ch CHR '';'']"
    using assms(1) by (cases k) (auto simp: name_ok_def)
  let ?t = "k @ ch CHR ''='' # value_text q v @ r"
  have full: "pre @ k @ cstr ''='' @ value_text q v @ r = pre @ ?t" by (simp add: cstr_def)
  have ign: "ignore_chs (pre @ ?t) [32, 9, ch CHR '';''] = ?t"
    using pre ck by (auto simp: cstr_def ch_def)
  have fd: "find_delim ?t [ch CHR ''='', 32, 9] = Some (k, ch CHR ''='' # value_text q v @ r)"
    by (rule find_delim_found [OF nk]) simp
  from find_value_text [of q v "zbuf_reset vb" r] assms obtain vb' where
    vb: "find_value (value_text q v @ r) (zbuf_reset vb) = (vb', Some (if q then r else tl r))" "holds vb' v" by auto
  have "find_next_kv (pre @ ?t) kb vb = Some (zbuf_memcat (zbuf_reset kb) k (int (length k)), vb', if q then r else tl r)"
    using ign fd vb(1) ck(1) by (simp add: find_next_kv_def Let_def)
  then show ?thesis using holds_memcat [OF holds_reset [OF assms(2,3)], of k] vb(2) full by auto
qed

text \<open>The three loops over the parameters do the same scan.\<close>

function kv_list :: "bytes \<Rightarrow> zbuf \<Rightarrow> zbuf \<Rightarrow> (bytes \<times> bytes) list" where
  "kv_list ps kb vb =
     (if ps = [] then []
      else case find_next_kv ps kb vb of
        None \<Rightarrow> []
      | Some (k, v, ps') \<Rightarrow> (zbuf_bytes k, zbuf_bytes v) # kv_list ps' k v)"
  by pat_completeness auto
termination by (relation "measure (\<lambda>(ps, k, v). length ps)") (auto dest: find_next_kv_length)

declare kv_list.simps [simp del]

lemma params_loop_kv: "params_loop ps kb vb d = foldl (\<lambda>d (k, v). obj_put (cs k) v d) d (kv_list ps kb vb)"
  by (induction ps kb vb d rule: params_loop.induct)
    (subst params_loop.simps, subst kv_list.simps, auto split: option.splits)

lemma content_type_loop_kv: "content_type_loop ps kb vb ct = foldl (\<lambda>ct (k, v). content_type_param k v ct) ct (kv_list ps kb vb)"
  by (induction ps kb vb ct rule: content_type_loop.induct)
    (subst content_type_loop.simps, subst kv_list.simps, auto split: option.splits)

lemma disposition_loop_kv: "disposition_loop ps kb vb s = foldl (\<lambda>s (k, v). disposition_param k v s) s (kv_list ps kb vb)"
  by (induction ps kb vb s rule: disposition_loop.induct)
    (subst disposition_loop.simps, subst kv_list.simps, auto split: option.splits)

definition rest_text :: "bool \<Rightarrow> (bool \<times> bytes \<times> bytes) list \<Rightarrow> bytes" where
  "rest_text fl ps = (if fl then concat (map param_text ps) else tl (concat (map param_text ps)))"

lemma kv_list_text:
  assumes "\<forall>p \<in> set ps. param_ok p" "zbuf_ok kb" "zbuf_cap kb = None" "zbuf_ok vb" "zbuf_cap vb = None"
  shows "kv_list (rest_text fl ps) kb vb = map snd ps"
  using assms
proof (induction ps arbitrary: fl kb vb)
  case Nil
  then show ?case by (subst kv_list.simps) (simp add: rest_text_def)
next
  case (Cons p ps)
  obtain q k v where p: "p = (q, k, v)" by (cases p) auto
  have ok: "param_ok (q, k, v)" using Cons.prems(1) p by simp
  let ?r = "concat (map param_text ps)"
  define pre where "pre = (if fl then cstr ''; '' else cstr '' '')"
  have pre: "pre = cstr ''; '' \<or> pre = cstr '' ''" by (simp add: pre_def)
  have t: "rest_text fl (p # ps) = pre @ k @ cstr ''='' @ value_text q v @ ?r"
    by (simp add: rest_text_def pre_def p cstr_def)
  from find_next_kv_text [OF ok Cons.prems(2-5) line_rest_params pre, of ps] obtain kb' vb' where
    n: "find_next_kv (pre @ k @ cstr ''='' @ value_text q v @ ?r) kb vb = Some (kb', vb', if q then ?r else tl ?r)"
    "holds kb' k" "holds vb' v" by blast
  have "pre \<noteq> []" by (simp add: pre_def cstr_def)
  then have "kv_list (rest_text fl (p # ps)) kb vb = (k, v) # kv_list (rest_text q ps) kb' vb'"
    using n unfolding t by (subst kv_list.simps) (simp add: holds_def rest_text_def)
  moreover have "kv_list (rest_text q ps) kb' vb' = map snd ps"
    using Cons.IH [of kb' vb' q] Cons.prems(1) n(2,3) by (simp add: holds_def)
  ultimately show ?case by (simp add: p)
qed

lemma find_value_line:
  assumes "token_text v" "zbuf_ok b" "zbuf_cap b = None"
  shows "\<exists>b'. find_value (line_text v ps) b = (b', Some (rest_text False ps)) \<and> holds b' v"
  using find_value_text [of False v b "concat (map param_text ps)"] assms line_rest_params [of ps]
  by (simp add: line_text_def value_text_def value_ok_def rest_text_def)

text \<open>The last parameter of a name, in any case.\<close>

definition last_param :: "bytes \<Rightarrow> (bytes \<times> bytes) list \<Rightarrow> bytes option \<Rightarrow> bytes option" where
  "last_param name kvs old = foldl (\<lambda>r (k, v). if strcaseeq k name then Some v else r) old kvs"

lemma strcaseeq_length: "strcaseeq a b \<Longrightarrow> length a = length b"
  unfolding strcaseeq_def by (metis length_map)

lemma content_type_fold:
  "foldl (\<lambda>ct (k, v). content_type_param k v ct) ct kvs
   = ct\<lparr>ct_boundary := last_param (cstr ''boundary'') kvs (ct_boundary ct),
        ct_charset := last_param (cstr ''charset'') kvs (ct_charset ct),
        ct_name := last_param (cstr ''name'') kvs (ct_name ct)\<rparr>"
proof (induction kvs arbitrary: ct)
  case (Cons kv kvs)
  obtain k v where kv: "kv = (k, v)" by force
  have l: "length (cstr ''boundary'') = 8" "length (cstr ''charset'') = 7" "length (cstr ''name'') = 4" by (simp_all add: cstr_def)
  have "content_type_param k v ct =
      ct\<lparr>ct_boundary := if strcaseeq k (cstr ''boundary'') then Some v else ct_boundary ct,
         ct_charset := if strcaseeq k (cstr ''charset'') then Some v else ct_charset ct,
         ct_name := if strcaseeq k (cstr ''name'') then Some v else ct_name ct\<rparr>"
    using l strcaseeq_length [of k] by (auto simp: content_type_param_def)
  then show ?case using Cons.IH [of "content_type_param k v ct"] by (simp add: kv last_param_def)
qed (simp add: last_param_def)

text \<open>The pieces of a file name that is continued as in RFC 2231, in the order of the line.\<close>

definition name_pieces :: "(bytes \<times> bytes) list \<Rightarrow> bytes list" where
  "name_pieces kvs = map snd (filter (\<lambda>(k, v). length k > 8 \<and> strcaseeq (take 9 k) (cstr ''filename*'')) kvs)"

lemma disposition_fold:
  "fst (foldl (\<lambda>s (k, v). disposition_param k v s) s kvs) = last_param (cstr ''filename'') kvs (fst s)
   \<and> fst (snd (foldl (\<lambda>s (k, v). disposition_param k v s) s kvs))
     = (case fst (snd s) of
          None \<Rightarrow> if name_pieces kvs = [] then None else Some (concat (name_pieces kvs))
        | Some t \<Rightarrow> Some (t @ concat (name_pieces kvs)))"
proof (induction kvs arbitrary: s)
  case Nil
  show ?case by (cases "fst (snd s)") (simp_all add: last_param_def name_pieces_def)
next
  case (Cons kv kvs)
  obtain k v where kv: "kv = (k, v)" by force
  obtain f t a b where s: "s = (f, t, a, b)" by (cases s) auto
  define piece where "piece \<longleftrightarrow> length k > 8 \<and> strcaseeq (take 9 k) (cstr ''filename*'')"
  have l: "length (cstr ''filename'') = 8" by (simp add: cstr_def)
  let ?s' = "disposition_param k v s"
  have 1: "fst ?s' = (if strcaseeq k (cstr ''filename'') then Some v else fst s)"
    using l strcaseeq_length [of k] by (auto simp: disposition_param_def s)
  have 2: "fst (snd ?s') = (if piece then Some (case t of None \<Rightarrow> v | Some t \<Rightarrow> t @ v) else t)"
    by (simp add: disposition_param_def s piece_def)
  have 3: "name_pieces (kv # kvs) = (if piece then v # name_pieces kvs else name_pieces kvs)"
    by (simp add: name_pieces_def kv piece_def)
  have 4: "last_param (cstr ''filename'') (kv # kvs) (fst s) = last_param (cstr ''filename'') kvs (fst ?s')"
    by (simp only: last_param_def kv foldl_Cons prod.case 1)
  show ?case
    using Cons.IH [of ?s'] unfolding 3 4 by (simp add: kv 2) (simp add: s split: option.splits)
qed

text \<open>C17: Structured mail headers: from a line of a token and parameters \<open>; name=value\<close>, with tokens or
  quoted texts as values, \<open>zmime_header_line_get_params\<close> returns the token and puts every parameter into
  the dictionary in order, and the readers of the content type, the disposition and the transfer
  encoding return the value and the last boundary, charset, name or file name of the line.\<close>

theorem mime_params_roundtrip:
  assumes "token_text v" "\<forall>p \<in> set ps. param_ok p" "zbuf_ok b" "zbuf_cap b = None"
  shows "\<exists>b'. zmime_header_line_get_params (line_text v ps) b params
      = (b', foldl (\<lambda>d (k, x). obj_put (cs k) x d) params (map snd ps)) \<and> zbuf_ok b' \<and> zbuf_bytes b' = v
    \<and> zmime_header_line_decode_content_type_inner (line_text v ps) ct
      = ct\<lparr>ct_value := Some v, ct_boundary := last_param (cstr ''boundary'') (map snd ps) (ct_boundary ct),
           ct_charset := last_param (cstr ''charset'') (map snd ps) (ct_charset ct),
           ct_name := last_param (cstr ''name'') (map snd ps) (ct_name ct)\<rparr>
    \<and> cd_value (zmime_header_line_decode_content_disposition_inner (line_text v ps) cd) = Some (zstr_tolower v)
    \<and> cd_filename (zmime_header_line_decode_content_disposition_inner (line_text v ps) cd)
      = last_param (cstr ''filename'') (map snd ps) (cd_filename cd)
    \<and> cd_filename_2231 (zmime_header_line_decode_content_disposition_inner (line_text v ps) cd)
      = (if name_pieces (map snd ps) = [] then cd_filename_2231 cd else Some (concat (name_pieces (map snd ps))))
    \<and> zmime_header_line_decode_content_transfer_encoding_inner (line_text v ps) old = Some v"
proof -
  from find_value_line [OF assms(1,3,4)] obtain b1 where
    b1: "find_value (line_text v ps) b = (b1, Some (rest_text False ps))" "holds b1 v" by blast
  have i: "zbuf_ok (zbuf_init n)" "zbuf_cap (zbuf_init n) = None" for n by (simp_all add: zbuf_ok_init)
  from find_value_line [OF assms(1) i] obtain b2 where
    b2: "find_value (line_text v ps) (zbuf_init 128) = (b2, Some (rest_text False ps))" "holds b2 v" by blast
  have v: "zbuf_bytes b2 = v" using b2(2) by (simp add: holds_def)
  have kv1: "kv_list (rest_text False ps) (zbuf_init 64) (zbuf_init 128) = map snd ps"
    by (rule kv_list_text [OF assms(2) i i])
  have kv2: "kv_list (rest_text False ps) (zbuf_init 64) b2 = map snd ps"
    using b2(2) by (intro kv_list_text [OF assms(2) i]) (simp_all add: holds_def)
  let ?s = "foldl (\<lambda>s (k, v). disposition_param k v s) (cd_filename cd, None, False, False) (map snd ps)"
  have d: "zmime_header_line_decode_content_disposition_inner (line_text v ps) cd
      = cd\<lparr>cd_value := Some (zstr_tolower v), cd_filename := fst ?s, cd_2231_with_charset := snd (snd (snd ?s)),
           cd_filename_2231 := (case fst (snd ?s) of None \<Rightarrow> cd_filename_2231 cd | Some t \<Rightarrow> Some t)\<rparr>"
    by (simp only: zmime_header_line_decode_content_disposition_inner_def b2(1) prod.case option.case v
      disposition_loop_kv kv2 case_prod_unfold Let_def fst_conv snd_conv)
  have "zmime_header_line_get_params (line_text v ps) b params
      = (b1, foldl (\<lambda>d (k, x). obj_put (cs k) x d) params (map snd ps))"
    by (simp only: zmime_header_line_get_params_def b1(1) prod.case option.case params_loop_kv kv1)
  moreover have "zbuf_ok b1" "zbuf_bytes b1 = v" using b1(2) by (simp_all add: holds_def)
  moreover have "zmime_header_line_decode_content_type_inner (line_text v ps) ct
      = ct\<lparr>ct_value := Some v, ct_boundary := last_param (cstr ''boundary'') (map snd ps) (ct_boundary ct),
           ct_charset := last_param (cstr ''charset'') (map snd ps) (ct_charset ct),
           ct_name := last_param (cstr ''name'') (map snd ps) (ct_name ct)\<rparr>"
    by (simp add: zmime_header_line_decode_content_type_inner_def b2(1) v content_type_loop_kv kv2 content_type_fold)
  moreover have "zmime_header_line_decode_content_transfer_encoding_inner (line_text v ps) old = Some v"
    by (simp add: zmime_header_line_decode_content_transfer_encoding_inner_def b2(1) v)
  moreover have "fst ?s = last_param (cstr ''filename'') (map snd ps) (cd_filename cd)"
    "fst (snd ?s) = (if name_pieces (map snd ps) = [] then None else Some (concat (name_pieces (map snd ps))))"
    using disposition_fold [of "(cd_filename cd, None, False, False)" "map snd ps"] by simp_all
  ultimately show ?thesis unfolding d by simp
qed

theorem mime_params_roundtrip_witness:
  "ct_boundary (zmime_header_line_decode_content_type_inner
      (line_text (cstr ''multipart/mixed'') [(False, cstr ''charset'', cstr ''utf-8''), (True, cstr ''Boundary'', cstr ''a; b'')])
      \<lparr>ct_value = None, ct_boundary = None, ct_charset = None, ct_name = None\<rparr>) = Some (cstr ''a; b'')"
proof -
  let ?ps = "[(False, cstr ''charset'', cstr ''utf-8''), (True, cstr ''Boundary'', cstr ''a; b'')]"
  have 1: "token_text (cstr ''multipart/mixed'')" by (simp add: token_text_def cstr_def ch_def)
  have 2: "\<forall>p \<in> set ?ps. param_ok p" by (simp add: token_text_def name_ok_def value_ok_def cstr_def ch_def)
  have l: "last_param (cstr ''boundary'') (map snd ?ps) None = Some (cstr ''a; b'')"
    by (simp add: last_param_def strcaseeq_def cstr_def ch_def tolower_def)
  have i: "zbuf_ok (zbuf_init 1)" "zbuf_cap (zbuf_init 1) = None" by (simp_all add: zbuf_ok_init)
  let ?ct = "\<lparr>ct_value = None, ct_boundary = None, ct_charset = None, ct_name = None\<rparr> :: content_type"
  let ?cd = "\<lparr>cd_value = None, cd_filename = None, cd_filename_2231 = None, cd_2231_with_charset = False\<rparr> :: content_disposition"
  from mime_params_roundtrip [OF 1 2 i, of "[]" ?ct ?cd None]
  have "zmime_header_line_decode_content_type_inner (line_text (cstr ''multipart/mixed'') ?ps) ?ct
    = ?ct\<lparr>ct_value := Some (cstr ''multipart/mixed''),
       ct_boundary := last_param (cstr ''boundary'') (map snd ?ps) (ct_boundary ?ct),
       ct_charset := last_param (cstr ''charset'') (map snd ?ps) (ct_charset ?ct),
       ct_name := last_param (cstr ''name'') (map snd ?ps) (ct_name ?ct)\<rparr>" by blast
  then show ?thesis by (simp only: l content_type.simps)
qed

end
