(* ===== verification/MimeHeader.thy ===== *)
theory MimeHeader
  imports MimeParam Url Base64
begin

text \<open>
  Unstructured mail headers: unfolding, the first token, encoded words (\<open>src/mime/header_line.c\<close>) and
  the extended parameter values of RFC 2231 (\<open>src/mime/2231.c\<close>). The conversion between character sets
  is done by a library; \<open>conv charset data\<close> is the text \<open>zmime_iconv\<close> appends to its buffer.
\<close>

section \<open>Unfolding\<close>

fun unescape_loop :: "zbuf \<Rightarrow> bytes \<Rightarrow> zbuf" where
  "unescape_loop result [] = result"
| "unescape_loop result (c # s) =
     (if c = 0 then unescape_loop result s
      else if c = 13 then unescape_loop result s
      else if c = 10 then
        (case s of
           [] \<Rightarrow> result
         | d # s' \<Rightarrow>
             if d = 9 then unescape_loop result s'
             else if d = 32 then unescape_loop result s'
             else unescape_loop (ZBUF_PUT (ZBUF_PUT result 10) d) s')
      else unescape_loop (ZBUF_PUT result c) s)"

definition zmime_raw_header_line_unescape :: "bytes \<Rightarrow> zbuf \<Rightarrow> zbuf" where
  "zmime_raw_header_line_unescape in_line result = zbuf_terminate (unescape_loop (zbuf_reset result) in_line)"

text \<open>\<open>dest[rlen++] = ch\<close>, where \<open>dest\<close> has the bytes of the list.\<close>

definition dest_put :: "bytes \<Rightarrow> nat \<Rightarrow> byte \<Rightarrow> bytes option" where
  "dest_put dest rlen c = (if rlen < length dest then Some (dest[rlen := c]) else None)"

fun unescape_inner_loop :: "bytes \<Rightarrow> nat \<Rightarrow> bytes \<Rightarrow> (bytes \<times> nat) option" where
  "unescape_inner_loop dest rlen [] = Some (dest, rlen)"
| "unescape_inner_loop dest rlen (c # s) =
     (if c = 0 then unescape_inner_loop dest rlen s
      else if c = 13 then unescape_inner_loop dest rlen s
      else if c = 10 then
        (case s of
           [] \<Rightarrow> Some (dest, rlen)
         | d # s' \<Rightarrow>
             if d = 9 then unescape_inner_loop dest rlen s'
             else if d = 32 then unescape_inner_loop dest rlen s'
             else do {
               dest1 \<leftarrow> dest_put dest rlen 10;
               dest2 \<leftarrow> dest_put dest1 (rlen + 1) d;
               unescape_inner_loop dest2 (rlen + 2) s' })
      else do {
        dest1 \<leftarrow> dest_put dest rlen c;
        unescape_inner_loop dest1 (rlen + 1) s })"

definition zmime_raw_header_line_unescape_inner :: "bytes \<Rightarrow> bytes \<Rightarrow> nat \<Rightarrow> (bytes \<times> nat) option" where
  "zmime_raw_header_line_unescape_inner line dest dest_size =
     unescape_inner_loop dest 0 (if length line > dest_size then take dest_size line else line)"

section \<open>The first token\<close>

definition token_blank :: "byte \<Rightarrow> byte \<Rightarrow> bool" where
  "token_blank x c \<longleftrightarrow> c = 32 \<or> c = 9 \<or> c = 13 \<or> c = 10 \<or> c = x"

fun token_front :: "bytes \<Rightarrow> bytes" where
  "token_front [] = []"
| "token_front (c # s) = (if token_blank (ch CHR ''<'') c then token_front s else c # s)"

text \<open>\<open>i + 1\<close> of the second loop, counted down from the length.\<close>

fun token_back :: "bytes \<Rightarrow> nat \<Rightarrow> nat" where
  "token_back ps 0 = 0"
| "token_back ps (Suc i) = (if token_blank (ch CHR ''>'') (ps ! i) then token_back ps i else Suc i)"

definition zmime_header_line_get_first_token_inner :: "bytes \<Rightarrow> bytes" where
  "zmime_header_line_get_first_token_inner line =
     (let ps = token_front line in if ps = [] then [] else take (token_back ps (length ps)) ps)"

definition zmime_header_line_get_first_token :: "bytes \<Rightarrow> zbuf \<Rightarrow> zbuf" where
  "zmime_header_line_get_first_token in_line result =
     (let v = zmime_header_line_get_first_token_inner in_line; result1 = zbuf_reset result
      in if length v > 0 then zbuf_memcat result1 v (int (length v)) else result1)"

section \<open>Encoded words\<close>

text \<open>\<open>zmemmem\<close>: what is before the occurrence, and the text from there.\<close>

definition zmemmem :: "bytes \<Rightarrow> bytes \<Rightarrow> (bytes \<times> bytes) option" where
  "zmemmem s needle = strstr s needle"

record element2 =
  el_charset :: bytes
  el_data :: bytes
  el_encode :: byte

abbreviation enc_B :: byte where "enc_B \<equiv> ch CHR ''B''"
abbreviation enc_Q :: byte where "enc_Q \<equiv> ch CHR ''Q''"

lemma zmemmem_length: "zmemmem s n = Some (a, r) \<Longrightarrow> length a + length r = length s"
proof -
  have "strstr s n = Some (a, r) \<Longrightarrow> length a + length r = length s"
    by (induction s n arbitrary: a r rule: strstr.induct)
      (subst (asm) (2) strstr.simps, auto split: if_splits list.splits)
  then show "zmemmem s n = Some (a, r) \<Longrightarrow> length a + length r = length s" by (simp add: zmemmem_def)
qed

text \<open>The next encoded word: the text from it, its charset, encoding and data, and what follows it.\<close>

function find_word :: "bytes \<Rightarrow> (bytes \<times> bytes \<times> byte \<times> bytes \<times> bytes) option" where
  "find_word p_s =
     (if length p_s > 6 then
        case zmemmem p_s (cstr ''=?'') of
          None \<Rightarrow> None
        | Some (_, q) \<Rightarrow>
            if length q < 6 then None
            else case find_delim (drop 2 q) [c_qm] of
              None \<Rightarrow> None
            | Some (charset, p_encode) \<Rightarrow>
                if length p_encode < 3 then None
                else let encode = ztoupper (p_encode ! 1) in
                  if (encode \<noteq> enc_B \<and> encode \<noteq> enc_Q) \<or> p_encode ! 2 \<noteq> c_qm then find_word p_encode
                  else let p_data = drop 3 p_encode in
                    if p_data = [] then None
                    else case zmemmem p_data (cstr ''?='') of
                      Some (d, p) \<Rightarrow> Some (q, charset, encode, d, drop 2 p)
                    | None \<Rightarrow> Some (q, charset, encode, p_data, [])
      else None)"
  by pat_completeness auto
termination
proof (relation "measure length", goal_cases)
  case (2 p_s x a q b charset p_encode encode)
  then show ?case using zmemmem_length [of p_s "cstr ''=?''" a q] find_delim_length [of "drop 2 q" "[c_qm]" charset p_encode]
    by auto
qed simp

declare find_word.simps [simp del]

lemma find_word_shrinks:
  "find_word p_s = Some (q, charset, encode, d, nxt) \<Longrightarrow> length q \<le> length p_s \<and> length nxt < length q"
proof (induction p_s rule: find_word.induct)
  case (1 p_s)
  from 1(2) obtain a q' where z: "6 < length p_s" "zmemmem p_s (cstr ''=?'') = Some (a, q')" "\<not> length q' < 6"
    by (subst (asm) find_word.simps) (auto split: if_splits option.splits)
  have l: "length q' \<le> length p_s" using zmemmem_length [OF z(2)] by simp
  from 1(2) z obtain cs0 p where f: "find_delim (drop 2 q') [c_qm] = Some (cs0, p)" "\<not> length p < 3"
    by (subst (asm) find_word.simps) (auto split: if_splits option.splits)
  have lp: "length p \<le> length q' - 2" using find_delim_length [OF f(1)] by simp
  show ?case
  proof (cases "(ztoupper (p ! 1) \<noteq> enc_B \<and> ztoupper (p ! 1) \<noteq> enc_Q) \<or> p ! 2 \<noteq> c_qm")
    case True
    then have "find_word p = Some (q, charset, encode, d, nxt)"
      using 1(2) z f by (subst (asm) find_word.simps) simp
    then show ?thesis using "1.IH" z f True l lp by fastforce
  next
    case False
    show ?thesis
      using 1(2) z f False l lp zmemmem_length [of "drop 3 p" "cstr ''?=''"]
      by (subst (asm) find_word.simps) (fastforce simp: Let_def split: if_splits option.splits)
  qed
qed

definition plain_element :: "bytes \<Rightarrow> element2" where
  "plain_element d = \<lparr>el_charset = [], el_data = d, el_encode = 0\<rparr>"

function elements_loop :: "bytes \<Rightarrow> element2 list \<Rightarrow> element2 list \<times> bytes" where
  "elements_loop ps mvec =
     (if length ps > 6 then
        case find_word ps of
          None \<Rightarrow> (mvec, ps)
        | Some (q, charset, encode, d, nxt) \<Rightarrow>
            elements_loop nxt
              (mvec @ (if length q < length ps then [plain_element (take (length ps - length q) ps)] else [])
                @ [\<lparr>el_charset = charset, el_data = d, el_encode = encode\<rparr>])
      else (mvec, ps))"
  by pat_completeness auto
termination by (relation "measure (\<lambda>(ps, mvec). length ps)") (auto dest!: find_word_shrinks)

declare elements_loop.simps [simp del]

definition zmime_header_line_get_element_vector_inner :: "bytes \<Rightarrow> element2 list" where
  "zmime_header_line_get_element_vector_inner in_line =
     (if in_line = [] then []
      else let (mvec, ps) = elements_loop in_line [] in if ps = [] then mvec else mvec @ [plain_element ps])"

text \<open>The number of \<open>=?\<close>, from which the size of the array of elements is computed.\<close>

fun count_marks :: "bytes \<Rightarrow> nat" where
  "count_marks (c # d # s) = (if c \<noteq> ch CHR ''='' \<or> d \<noteq> c_qm then count_marks (d # s) else 1 + count_marks s)"
| "count_marks s = 0"

text \<open>The other loop looks at \<open>p[1]\<close> at the last byte too: \<open>None\<close> is a read outside of the memory.\<close>

fun count_marks_over :: "bytes \<Rightarrow> nat \<Rightarrow> nat option" where
  "count_marks_over m 0 = Some 0"
| "count_marks_over [] (Suc n) = None"
| "count_marks_over (c # m) (Suc n) =
     (if c \<noteq> ch CHR ''='' then count_marks_over m n
      else case m of
        [] \<Rightarrow> None
      | d # m' \<Rightarrow> if d \<noteq> c_qm then count_marks_over m n else map_option Suc (count_marks_over m' (n - 1)))"

definition zmime_header_line_get_element_vector :: "bytes \<Rightarrow> nat \<Rightarrow> element2 list option" where
  "zmime_header_line_get_element_vector m in_len = do {
     _ \<leftarrow> count_marks_over m in_len;
     Some (map (\<lambda>mt. mt\<lparr>el_charset := zstr_tolower (el_charset mt)\<rparr>)
       (zmime_header_line_get_element_vector_inner (take in_len m))) }"

definition same_word :: "element2 \<Rightarrow> element2 \<Rightarrow> bool" where
  "same_word mt mtn \<longleftrightarrow> length (el_charset mt) > 0 \<and> el_encode mt = el_encode mtn \<and> hd (el_charset mt) \<noteq> 0
     \<and> (el_charset mtn = [] \<or> hd (el_charset mtn) \<noteq> 0) \<and> length (el_charset mt) = length (el_charset mtn)
     \<and> strcaseeq (takeWhile (\<lambda>c. c \<noteq> 0) (el_charset mt)) (takeWhile (\<lambda>c. c \<noteq> 0) (el_charset mtn))"

fun join_words :: "element2 \<Rightarrow> element2 list \<Rightarrow> zbuf \<Rightarrow> zbuf \<times> element2 list" where
  "join_words mt [] bq_join = (bq_join, [])"
| "join_words mt (mtn # mts) bq_join =
     (if el_encode mtn = 0 then
        (if \<forall>c \<in> set (el_data mtn). c = 32 then join_words mt mts bq_join else (bq_join, mtn # mts))
      else if same_word mt mtn then
        join_words mt mts (zbuf_memcat bq_join (el_data mtn) (int (length (el_data mtn))))
      else (bq_join, mtn # mts))"

lemma join_words_length: "length (snd (join_words mt mts bq)) \<le> length mts"
  by (induction mt mts bq rule: join_words.induct) auto

abbreviation charset_name_max_size :: nat where "charset_name_max_size \<equiv> 32"

definition iconv_out :: "(bytes \<Rightarrow> bytes \<Rightarrow> bytes) \<Rightarrow> bytes \<Rightarrow> bytes \<Rightarrow> zbuf \<Rightarrow> zbuf" where
  "iconv_out conv charset d out_string = zbuf_memcat out_string (conv charset d) (int (length (conv charset d)))"

definition zbuf_append :: "zbuf \<Rightarrow> zbuf \<Rightarrow> zbuf" where
  "zbuf_append bf bf2 = zbuf_memcat bf (zbuf_bytes bf2) (int (length (zbuf_bytes bf2)))"

definition decode_word :: "(bytes \<Rightarrow> bytes \<Rightarrow> bytes) \<Rightarrow> element2 \<Rightarrow> zbuf \<Rightarrow> zbuf \<Rightarrow> zbuf \<Rightarrow> zbuf \<times> zbuf \<times> zbuf" where
  "decode_word conv mt result bq_join out_string =
     (let p = zbuf_bytes bq_join; plen = int (length p); out0 = zbuf_reset out_string;
          out1 = (if el_encode mt = enc_B then zbase64_decode p plen out0 else zqp_decode_2047 p plen out0)
      in if length (zbuf_bytes out1) < 1 then (result, bq_join, out1)
         else let bq2 = zbuf_memcpy bq_join (zbuf_bytes out1) (int (length (zbuf_bytes out1)));
                  charset = takeWhile (\<lambda>c. c \<noteq> 0) (take charset_name_max_size (el_charset mt));
                  out2 = iconv_out conv charset (zbuf_bytes bq2) (zbuf_reset out1)
              in (zbuf_append result out2, bq2, out2))"

function utf8_loop :: "(bytes \<Rightarrow> bytes \<Rightarrow> bytes) \<Rightarrow> bytes \<Rightarrow> element2 list \<Rightarrow> zbuf \<Rightarrow> zbuf \<Rightarrow> zbuf \<Rightarrow> zbuf" where
  "utf8_loop conv def [] result bq_join out_string = result"
| "utf8_loop conv def (mt # mts) result bq_join out_string =
     (if el_data mt = [] then utf8_loop conv def mts result bq_join out_string
      else if el_encode mt \<noteq> enc_B \<and> el_encode mt \<noteq> enc_Q then
        let out1 = iconv_out conv def (el_data mt) (zbuf_reset out_string)
        in utf8_loop conv def mts (zbuf_append result out1) bq_join out1
      else
        let (bq1, mts') = join_words mt mts (zbuf_memcpy bq_join (el_data mt) (int (length (el_data mt))));
            (result1, bq2, out2) = decode_word conv mt result bq1 out_string
        in utf8_loop conv def mts' result1 bq2 out2)"
  by pat_completeness auto
termination
proof (relation "measure (\<lambda>(conv, def, mts, _). length mts)", goal_cases)
  case (4 conv def mt mts result bq out x bq1 mts' y result1 z bq2 out2)
  then show ?case using join_words_length [of mt mts] by (metis (no_types, lifting) in_measure le_imp_less_Suc length_Cons case_prod_conv snd_conv)
qed auto

definition zmime_header_line_get_utf8_engine ::
  "(bytes \<Rightarrow> bytes \<Rightarrow> bytes) \<Rightarrow> bytes \<Rightarrow> bytes \<Rightarrow> zbuf \<Rightarrow> zbuf \<Rightarrow> zbuf \<Rightarrow> zbuf" where
  "zmime_header_line_get_utf8_engine conv src_charset_def in_line result bq_join out_string =
     (let result0 = zbuf_reset result in
      if in_line = [] then result0
      else utf8_loop conv src_charset_def (zmime_header_line_get_element_vector_inner in_line) result0 bq_join out_string)"

definition zmime_header_line_get_utf8 :: "(bytes \<Rightarrow> bytes \<Rightarrow> bytes) \<Rightarrow> bytes \<Rightarrow> bytes \<Rightarrow> zbuf \<Rightarrow> zbuf" where
  "zmime_header_line_get_utf8 conv src_charset_def in_line result =
     zmime_header_line_get_utf8_engine conv src_charset_def in_line result
       (zbuf_init (int (length in_line) + 16)) (zbuf_init (int (length in_line) + 16))"

section \<open>Extended values\<close>

text \<open>The memory from \<open>start\<close> and \<open>start_len - i\<close>. The digits after a percent sign are read without a test,
  and a \<open>char\<close> above 127 is a negative index: \<open>None\<close> is a read outside of the memory.\<close>

fun pct_loop :: "zbuf \<Rightarrow> bytes \<Rightarrow> nat \<Rightarrow> zbuf option" where
  "pct_loop tmps m 0 = Some tmps"
| "pct_loop tmps [] (Suc n) = None"
| "pct_loop tmps (c # m) (Suc n) =
     (if c \<noteq> ch CHR ''%'' then pct_loop (ZBUF_PUT tmps c) m n
      else case m of
        a # b # m' \<Rightarrow>
          if 128 \<le> a \<or> 128 \<le> b then None
          else pct_loop (ZBUF_PUT tmps (push_bit 4 (zhexval a) OR zhexval b)) m' (n - 2)
      | _ \<Rightarrow> None)"

definition zmime_header_line_get_utf8_2231 ::
  "(bytes \<Rightarrow> bytes \<Rightarrow> bytes) \<Rightarrow> bytes \<Rightarrow> bytes \<Rightarrow> int \<Rightarrow> zbuf \<Rightarrow> bool \<Rightarrow> zbuf option" where
  "zmime_header_line_get_utf8_2231 conv src_charset_def m in_len result with_charset_flag =
     (let n = (if in_len = - 1 then length (takeWhile (\<lambda>c. c \<noteq> 0) m) else nat in_len); s = take n m in
      if n < 1 then Some result
      else let result0 = zbuf_reset result in
        if \<not> with_charset_flag then Some (zmime_header_line_get_utf8 conv src_charset_def s result0)
        else case find_delim s [39] of
          None \<Rightarrow> Some (zbuf_memcpy result0 s (int n))
        | Some (a, p) \<Rightarrow>
            let charset_buf = zbuf_memcpy (zstack_buf (charset_name_max_size + 1)) s (int (length a) + 1) in
            case find_delim (tl p) [39] of
              None \<Rightarrow> Some (zbuf_memcpy result0 s (int n))
            | Some (_, p2) \<Rightarrow>
                let charset = takeWhile (\<lambda>c. c \<noteq> 0 \<and> c \<noteq> ch CHR ''*'') (zbuf_bytes charset_buf) in
                map_option (\<lambda>tmps. iconv_out conv charset (zbuf_bytes tmps) result0)
                  (pct_loop (zbuf_reset (zbuf_init (int n))) (drop (n - length p2 + 1) m) (length p2 - 1)))"

section \<open>Unfolding, as a function of the text\<close>

fun unfolded :: "bytes \<Rightarrow> bytes" where
  "unfolded [] = []"
| "unfolded (c # s) =
     (if c = 0 \<or> c = 13 then unfolded s
      else if c = 10 then
        (case s of [] \<Rightarrow> [] | d # s' \<Rightarrow> if d = 9 \<or> d = 32 then unfolded s' else 10 # d # unfolded s')
      else c # unfolded s)"

lemma unescape_loop_puts: "unescape_loop result s = foldl ZBUF_PUT result (unfolded s)"
proof (induction result s rule: unescape_loop.induct)
  case (2 result c s)
  then show ?case by (cases s) auto
qed simp

lemma unfolded_length: "length (unfolded s) \<le> length s"
proof (induction s rule: unfolded.induct)
  case (2 c s)
  then show ?case by (cases s) (auto simp: le_SucI)
qed simp

lemma unescape_inner_text:
  "rlen + length s \<le> length dest \<Longrightarrow>
   unescape_inner_loop dest rlen s
     = Some (take rlen dest @ unfolded s @ drop (rlen + length (unfolded s)) dest, rlen + length (unfolded s))"
proof (induction dest rlen s rule: unescape_inner_loop.induct)
  case (2 dest rlen c s)
  have put: "dest_put d r x = Some (take r d @ x # drop (Suc r) d)" if "r < length d" for d r x
    using that by (simp add: dest_put_def upd_conv_take_nth_drop)
  show ?case
  proof (cases "c = 0 \<or> c = 13")
    case True
    then show ?thesis using 2 by auto
  next
    case n0: False
    show ?thesis
    proof (cases "c = 10")
      case False
      have r: "rlen < length dest" using "2.prems" by simp
      let ?d1 = "take rlen dest @ c # drop (Suc rlen) dest"
      have "unescape_inner_loop ?d1 (rlen + 1) s
          = Some (take (rlen + 1) ?d1 @ unfolded s @ drop (rlen + 1 + length (unfolded s)) ?d1, rlen + 1 + length (unfolded s))"
        using "2.IH"(6) [OF _ _ _ put [OF r, of c]] n0 False "2.prems" by simp
      then show ?thesis using n0 False put [OF r, of c] r by (simp add: min_def add.commute)
    next
      case c10: True
      have ne: "(10 :: byte) \<noteq> 0" "(10 :: byte) \<noteq> 13" by simp_all
      show ?thesis
      proof (cases s)
        case (Cons d s')
        show ?thesis
        proof (cases "d = 9 \<or> d = 32")
          case True
          then show ?thesis using 2 c10 Cons by auto
        next
          case False
          have r: "rlen < length dest" "rlen + 1 < length dest" using "2.prems" Cons by simp_all
          let ?d1 = "take rlen dest @ 10 # drop (Suc rlen) dest"
          let ?d2 = "take rlen dest @ 10 # d # drop (rlen + 2) dest"
          have p1: "dest_put dest rlen 10 = Some ?d1" by (rule put [OF r(1)])
          have p2: "dest_put ?d1 (rlen + 1) d = Some ?d2"
            using put [of "rlen + 1" ?d1 d] r by (simp add: min_def)
          have "unescape_inner_loop ?d2 (rlen + 2) s'
              = Some (take (rlen + 2) ?d2 @ unfolded s' @ drop (rlen + 2 + length (unfolded s')) ?d2, rlen + 2 + length (unfolded s'))"
            using "2.IH"(5) [OF _ _ c10 Cons _ _ p1 p2] n0 False "2.prems" Cons r by simp
          then show ?thesis using c10 Cons False p1 p2 r ne by (simp add: min_def add.commute)
        qed
      qed (use c10 in simp)
    qed
  qed
qed simp

text \<open>Unfolding drops NUL and carriage return and joins the lines that begin with a blank; the form that
  writes into the caller's memory writes the same bytes and stays inside of it.\<close>

theorem mime_unfold_spec:
  assumes "zbuf_ok b" "zbuf_cap b = None" "length line \<le> length dest"
  shows "zbuf_bytes (zmime_raw_header_line_unescape line b) = unfolded line
    \<and> zmime_raw_header_line_unescape_inner line dest (length dest)
      = Some (unfolded line @ drop (length (unfolded line)) dest, length (unfolded line))"
proof -
  have "zbuf_bytes (foldl ZBUF_PUT (zbuf_reset b) (unfolded line)) = unfolded line"
    using assms(1,2) by (simp add: zraw.content_puts)
  moreover have "zmime_raw_header_line_unescape_inner line dest (length dest)
      = Some (unfolded line @ drop (length (unfolded line)) dest, length (unfolded line))"
    using unescape_inner_text [of 0 line dest] assms(3) by (simp add: zmime_raw_header_line_unescape_inner_def)
  ultimately show ?thesis by (simp add: zmime_raw_header_line_unescape_def unescape_loop_puts)
qed

section \<open>The array of elements is large enough\<close>

lemma zmemmem_split: "zmemmem s n = Some (a, r) \<Longrightarrow> s = a @ r \<and> take (length n) r = n"
proof -
  have "strstr s n = Some (a, r) \<Longrightarrow> s = a @ r \<and> take (length n) r = n"
    by (induction s n arbitrary: a r rule: strstr.induct)
      (subst (asm) (2) strstr.simps, auto split: if_splits list.splits)
  then show "zmemmem s n = Some (a, r) \<Longrightarrow> s = a @ r \<and> take (length n) r = n" by (simp add: zmemmem_def)
qed

lemma find_delim_split: "find_delim p d = Some (a, r) \<Longrightarrow> p = a @ r"
  by (induction p arbitrary: a r) (auto split: if_splits)

lemma count_marks_tail: "count_marks s \<le> count_marks (c # s)"
proof (cases s)
  case (Cons d s')
  have "count_marks (c_qm # s') = count_marks s'" by (cases s') (simp_all add: ch_def)
  then show ?thesis using Cons by simp
qed simp

lemma count_marks_suffix: "count_marks r \<le> count_marks (a @ r)"
proof (induction a)
  case (Cons c a)
  then show ?case using count_marks_tail [of "a @ r" c] by simp
qed simp

lemma count_marks_drop: "count_marks (drop n r) \<le> count_marks r"
  using count_marks_suffix [of "drop n r" "take n r"] by simp

lemma find_word_marks:
  "find_word p_s = Some (q, charset, encode, d, nxt) \<Longrightarrow> 1 + count_marks nxt \<le> count_marks p_s"
proof (induction p_s rule: find_word.induct)
  case (1 p_s)
  from 1(2) obtain a q' where z: "6 < length p_s" "zmemmem p_s (cstr ''=?'') = Some (a, q')" "\<not> length q' < 6"
    by (subst (asm) find_word.simps) (auto split: if_splits option.splits)
  have s: "p_s = a @ q'" "take 2 q' = cstr ''=?''" using zmemmem_split [OF z(2)] by (simp_all add: cstr_def numeral_2_eq_2)
  obtain q2 where q2: "q' = ch CHR ''='' # c_qm # q2" using s(2) by (cases q'; cases "tl q'") (auto simp: cstr_def)
  have m: "1 + count_marks q2 \<le> count_marks p_s" using count_marks_suffix [of q' a] by (simp add: s(1) q2)
  from 1(2) z obtain cs0 p where f: "find_delim (drop 2 q') [c_qm] = Some (cs0, p)" "\<not> length p < 3"
    by (subst (asm) find_word.simps) (auto split: if_splits option.splits)
  have p: "count_marks p \<le> count_marks q2" using find_delim_split [OF f(1)] count_marks_suffix by (simp add: q2)
  show ?case
  proof (cases "(ztoupper (p ! 1) \<noteq> enc_B \<and> ztoupper (p ! 1) \<noteq> enc_Q) \<or> p ! 2 \<noteq> c_qm")
    case True
    then have "find_word p = Some (q, charset, encode, d, nxt)"
      using 1(2) z f by (subst (asm) find_word.simps) simp
    then have "1 + count_marks nxt \<le> count_marks p" using "1.IH" z f True by fastforce
    then show ?thesis using m p by linarith
  next
    case False
    have "nxt = [] \<or> (\<exists>x y. zmemmem (drop 3 p) (cstr ''?='') = Some (x, y) \<and> nxt = drop 2 y)"
      using 1(2) z f False by (subst (asm) find_word.simps) (auto simp: Let_def split: if_splits option.splits)
    then have "count_marks nxt \<le> count_marks (drop 3 p)"
    proof
      assume "\<exists>x y. zmemmem (drop 3 p) (cstr ''?='') = Some (x, y) \<and> nxt = drop 2 y"
      then obtain x y where "drop 3 p = x @ y" "nxt = drop 2 y" using zmemmem_split by blast
      then show ?thesis using count_marks_drop [of 2 y] count_marks_suffix [of y x] by simp
    qed simp
    then show ?thesis using count_marks_drop [of 3 p] m p by linarith
  qed
qed

lemma elements_loop_bound:
  "elements_loop ps mvec = (mvec', r) \<Longrightarrow> length mvec' \<le> length mvec + 2 * count_marks ps"
proof (induction ps mvec arbitrary: mvec' r rule: elements_loop.induct)
  case (1 ps mvec)
  show ?case
  proof (cases "6 < length ps \<and> find_word ps \<noteq> None")
    case False
    then have "elements_loop ps mvec = (mvec, ps)" by (subst elements_loop.simps) (cases "find_word ps"; auto)
    then show ?thesis using "1.prems" by simp
  next
    case True
    then obtain q charset encode d nxt where f: "find_word ps = Some (q, charset, encode, d, nxt)" by auto
    let ?v = "mvec @ (if length q < length ps then [plain_element (take (length ps - length q) ps)] else [])
                @ [\<lparr>el_charset = charset, el_data = d, el_encode = encode\<rparr>]"
    have "elements_loop nxt ?v = (mvec', r)" using "1.prems" True f by (subst (asm) elements_loop.simps) simp
    then have "length mvec' \<le> length ?v + 2 * count_marks nxt" using "1.IH" True f by blast
    then show ?thesis using find_word_marks [OF f] by (simp split: if_splits)
  qed
qed

lemma elements_bound: "length (zmime_header_line_get_element_vector_inner s) \<le> 2 * count_marks s + 10"
  using elements_loop_bound [of s "[]"]
  by (auto simp: zmime_header_line_get_element_vector_inner_def split: prod.splits)

section \<open>Encoded words are read back\<close>

definition word_text :: "bytes \<Rightarrow> bytes \<Rightarrow> bytes" where
  "word_text charset d = cstr ''=?'' @ charset @ cstr ''?B?'' @ b64_text d False 0 @ cstr ''?=''"

fun words_text :: "bytes \<Rightarrow> bytes list \<Rightarrow> bytes" where
  "words_text charset [] = []"
| "words_text charset (d # ds) = word_text charset d @ (if ds = [] then [] else 32 # words_text charset ds)"

definition charset_ok :: "bytes \<Rightarrow> bool" where
  "charset_ok charset \<longleftrightarrow> charset \<noteq> [] \<and> 0 \<notin> set charset \<and> c_qm \<notin> set charset \<and> length charset \<le> charset_name_max_size"

definition word_element :: "bytes \<Rightarrow> bytes \<Rightarrow> element2" where
  "word_element charset d = \<lparr>el_charset = charset, el_data = b64_text d False 0, el_encode = enc_B\<rparr>"

fun word_elements :: "bytes \<Rightarrow> bytes \<Rightarrow> bytes list \<Rightarrow> element2 list" where
  "word_elements charset a [] = []"
| "word_elements charset a (d # ds) =
     (if a = [] then [] else [plain_element a]) @ word_element charset d # word_elements charset [32] ds"

lemma b64_val_qm: "b64_val c_qm = 255"
  by code_simp

lemma b64_no_qm: "c_qm \<notin> set (b64_text d f k)"
proof
  assume "c_qm \<in> set (b64_text d f k)"
  from b64_text_chars [OF this] show False using b64_val_qm by (simp add: b64_text_char_def ch_def)
qed

lemma b64_plain_append: "b64_plain (b64_text src f k @ rest) = src @ b64_plain rest"
proof (induction src f k rule: b64_text.induct)
  case (1 src f k)
  show ?case
  proof (cases "src = []")
    case False
    then show ?thesis using "1.IH" by (subst b64_text.simps) (simp add: b64_plain_quad b64_plain_fold)
  qed (simp add: b64_text.simps)
qed

lemma b64_plain_concat: "b64_plain (concat (map (\<lambda>d. b64_text d False 0) ds)) = concat ds"
  by (induction ds) (simp_all add: b64_plain_append)

lemma b64_text_nonempty: "d \<noteq> [] \<Longrightarrow> b64_text d False 0 \<noteq> []"
  using length_b64_quad [of d] by (subst b64_text.simps) auto

lemma find_mark:
  assumes "count_marks a = 0"
  shows "zmemmem (a @ cstr ''=?'' @ r) (cstr ''=?'') = Some (a, cstr ''=?'' @ r)"
proof -
  have neq: "c_qm \<noteq> ch CHR ''=''" by (simp add: ch_def)
  have "strstr (a @ ch CHR ''='' # c_qm # r) [ch CHR ''='', c_qm] = Some (a, ch CHR ''='' # c_qm # r)"
    using assms
  proof (induction a rule: count_marks.induct)
    case (1 c d s)
    then have "strstr ((d # s) @ ch CHR ''='' # c_qm # r) [ch CHR ''='', c_qm] = Some (d # s, ch CHR ''='' # c_qm # r)"
      by (simp split: if_splits)
    moreover have "\<not> (c = ch CHR ''='' \<and> d = c_qm)" using 1 by (auto split: if_splits)
    ultimately show ?case by (subst strstr.simps) auto
  next
    case "2_1"
    show ?case by (subst strstr.simps) simp
  next
    case "2_2"
    have "strstr (ch CHR ''='' # c_qm # r) [ch CHR ''='', c_qm] = Some ([], ch CHR ''='' # c_qm # r)"
      by (subst strstr.simps) simp
    then show ?case using neq by (subst strstr.simps) auto
  qed
  then show ?thesis by (simp add: zmemmem_def cstr_def)
qed

lemma find_end:
  assumes "c_qm \<notin> set t"
  shows "zmemmem (t @ cstr ''?='' @ r) (cstr ''?='') = Some (t, cstr ''?='' @ r)"
proof -
  have "strstr (t @ c_qm # ch CHR ''='' # r) [c_qm, ch CHR ''=''] = Some (t, c_qm # ch CHR ''='' # r)"
    using assms
  proof (induction t)
    case Nil
    show ?case by (subst strstr.simps) simp
  next
    case (Cons c t)
    then show ?case by (subst strstr.simps) auto
  qed
  then show ?thesis by (simp add: zmemmem_def cstr_def)
qed

lemma find_word_text:
  assumes a: "count_marks a = 0" and charset: "charset_ok charset" and d: "d \<noteq> []"
  shows "find_word (a @ word_text charset d @ r) = Some (word_text charset d @ r, charset, enc_B, b64_text d False 0, r)"
proof -
  let ?t = "b64_text d False 0"
  let ?tail = "enc_B # c_qm # ?t @ cstr ''?='' @ r"
  have w: "word_text charset d @ r = cstr ''=?'' @ charset @ c_qm # ?tail" by (simp add: word_text_def cstr_def)
  have t: "?t \<noteq> []" by (rule b64_text_nonempty [OF d])
  have "6 < length (a @ word_text charset d @ r)" "\<not> length (word_text charset d @ r) < 6"
    using t charset by (cases ?t; cases charset; simp add: word_text_def cstr_def charset_ok_def)+
  moreover have "zmemmem (a @ word_text charset d @ r) (cstr ''=?'') = Some (a, word_text charset d @ r)"
    unfolding w by (rule find_mark [OF a])
  moreover have "find_delim (drop 2 (word_text charset d @ r)) [c_qm] = Some (charset, c_qm # ?tail)"
    unfolding w using find_delim_found [of charset "[c_qm]" c_qm ?tail] charset
    by (auto simp: cstr_def charset_ok_def)
  moreover have "ztoupper ((c_qm # ?tail) ! 1) = enc_B" "(c_qm # ?tail) ! 2 = c_qm" "\<not> length (c_qm # ?tail) < 3"
    using t by (simp_all add: toupper_def islower_def ch_def)
  moreover have "zmemmem (drop 3 (c_qm # ?tail)) (cstr ''?='') = Some (?t, cstr ''?='' @ r)"
    using find_end [OF b64_no_qm, of d False 0 r] by simp
  moreover have "drop 3 (c_qm # ?tail) \<noteq> []" "drop 2 (cstr ''?='' @ r) = r" using t by (simp_all add: cstr_def)
  ultimately show ?thesis by (subst find_word.simps) (simp only: if_True if_False option.case prod.case Let_def simp_thms not_True_eq_False)
qed

lemma elements_loop_words:
  assumes "count_marks a = 0" "charset_ok charset" "\<forall>d \<in> set ds. d \<noteq> []" "ds \<noteq> []"
  shows "elements_loop (a @ words_text charset ds) mvec = (mvec @ word_elements charset a ds, [])"
  using assms
proof (induction ds arbitrary: a mvec)
  case (Cons d ds)
  let ?r = "if ds = [] then [] else 32 # words_text charset ds"
  have f: "find_word (a @ word_text charset d @ ?r) = Some (word_text charset d @ ?r, charset, enc_B, b64_text d False 0, ?r)"
    using Cons.prems by (intro find_word_text) auto
  have "6 < length (a @ word_text charset d @ ?r)"
    using b64_text_nonempty [of d] Cons.prems by (cases "b64_text d False 0"; cases charset; simp add: word_text_def cstr_def charset_ok_def)
  then have "elements_loop (a @ words_text charset (d # ds)) mvec
      = elements_loop ?r (mvec @ (if a = [] then [] else [plain_element a]) @ [word_element charset d])"
    using f by (subst elements_loop.simps) (simp add: word_element_def)
  also have "\<dots> = (mvec @ word_elements charset a (d # ds), [])"
  proof (cases "ds = []")
    case True
    then show ?thesis by (subst elements_loop.simps) simp
  next
    case False
    have "count_marks [32] = 0" by simp
    from Cons.IH [OF this Cons.prems(2) _ False] Cons.prems(3) show ?thesis using False by simp
  qed
  finally show ?case .
qed simp

lemma holds_cat: "holds b xs \<Longrightarrow> holds (zbuf_memcat b ys (int (length ys))) (xs @ ys)"
  using holds_appends [of b xs "zbuf_memcat b ys (int (length ys))" ys] appends_memcat [of b ys "int (length ys)"]
  by (simp add: holds_def)

lemma holds_memcpy: "holds b xs \<Longrightarrow> holds (zbuf_memcpy b ys (int (length ys))) ys"
  using zbuf_memcpy_writes [of b ys "int (length ys)"] by (simp add: holds_def writes_def)

lemma holds_emptied: "holds b xs \<Longrightarrow> holds (zbuf_reset b) []"
  by (simp add: holds_def)

lemma join_words_text:
  assumes "holds bq t" "charset_ok charset"
  shows "\<exists>bq'. join_words (word_element charset d) (word_elements charset [32] ds) bq = (bq', [])
    \<and> holds bq' (t @ concat (map (\<lambda>d. b64_text d False 0) ds))"
  using assms(1)
proof (induction ds arbitrary: bq t)
  case (Cons e ds)
  let ?b = "zbuf_memcat bq (b64_text e False 0) (int (length (b64_text e False 0)))"
  have "holds ?b (t @ b64_text e False 0)"
    by (rule holds_cat [OF Cons.prems])
  from Cons.IH [OF this] obtain bq' where
    bq': "join_words (word_element charset d) (word_elements charset [32] ds) ?b = (bq', [])"
    "holds bq' ((t @ b64_text e False 0) @ concat (map (\<lambda>d. b64_text d False 0) ds))" by blast
  have "same_word (word_element charset d) (word_element charset e)"
    using assms(2) by (cases charset) (auto simp: same_word_def word_element_def charset_ok_def strcaseeq_def)
  moreover have "enc_B \<noteq> 0" by (simp add: ch_def)
  ultimately have "join_words (word_element charset d) (word_elements charset [32] (e # ds)) bq = (bq', [])"
    using bq'(1) by (simp add: plain_element_def word_element_def)
  then show ?case using bq'(2) by auto
qed simp

lemma holds_b64: "holds b [] \<Longrightarrow> holds (zbase64_decode t (int (length t)) b) (b64_plain t)"
  using zbase64_decode_writes [of b t "int (length t)"] by (simp add: holds_def writes_def)

lemma iconv_out_holds: "holds b [] \<Longrightarrow> holds (iconv_out conv charset d b) (conv charset d)"
  using holds_cat [of b "[]"] by (simp add: iconv_out_def)

lemma zbuf_append_holds: "holds b xs \<Longrightarrow> holds b2 ys \<Longrightarrow> holds (zbuf_append b b2) (xs @ ys)"
  using holds_cat [of b xs ys] by (simp add: zbuf_append_def holds_def)

lemma decode_word_text:
  assumes "holds result xs" "holds bq (concat (map (\<lambda>d. b64_text d False 0) ds))" "holds out ys"
    and "concat ds \<noteq> []" "charset_ok charset"
  shows "\<exists>result' bq' out'. decode_word conv (word_element charset d) result bq out = (result', bq', out')
    \<and> holds result' (xs @ conv charset (concat ds)) \<and> holds bq' (concat ds) \<and> (\<exists>zs. holds out' zs)"
proof -
  define p where "p = concat (map (\<lambda>d. b64_text d False 0) ds)"
  define out1 where "out1 = zbase64_decode p (int (length p)) (zbuf_reset out)"
  have p: "zbuf_bytes bq = p" using assms(2) by (simp add: holds_def p_def)
  have o1: "holds out1 (concat ds)"
    using holds_b64 [OF holds_emptied [OF assms(3)], of p] by (simp add: out1_def p_def b64_plain_concat)
  then have ob: "zbuf_bytes out1 = concat ds" by (simp add: holds_def)
  define bq2 where "bq2 = zbuf_memcpy bq (concat ds) (int (length (concat ds)))"
  have b2: "holds bq2 (concat ds)" unfolding bq2_def by (rule holds_memcpy [OF assms(2)])
  have cs: "takeWhile (\<lambda>c. c \<noteq> 0) (take charset_name_max_size charset) = charset"
    using assms(5) by (auto simp: charset_ok_def takeWhile_eq_all_conv)
  define out2 where "out2 = iconv_out conv charset (zbuf_bytes bq2) (zbuf_reset out1)"
  have o2: "holds out2 (conv charset (concat ds))"
    using iconv_out_holds [OF holds_emptied [OF o1]] b2 by (simp add: out2_def holds_def)
  have "decode_word conv (word_element charset d) result bq out = (zbuf_append result out2, bq2, out2)"
    using assms(4) unfolding decode_word_def Let_def p out1_def [symmetric]
    by (auto simp: word_element_def ob cs out1_def [symmetric] bq2_def [symmetric] out2_def [symmetric])
  then show ?thesis using zbuf_append_holds [OF assms(1) o2] b2 o2 by blast
qed

text \<open>C16: Encoded words: from a header of plain text without the mark \<open>=?\<close> and base64 words of one
  charset separated by blanks, \<open>zmime_header_line_get_utf8\<close> makes the converted plain text and the
  conversion of all the encoded bytes together, so that a character may be split between two words; and
  for every header the number of elements the scan stores stays within the array that was allocated for
  them.\<close>

theorem mime_encoded_words:
  assumes "count_marks plain = 0" "charset_ok charset" "ds \<noteq> []" "\<forall>d \<in> set ds. d \<noteq> []"
    and "zbuf_ok b" "zbuf_cap b = None"
  shows "zbuf_bytes (zmime_header_line_get_utf8 conv def (plain @ words_text charset ds) b)
      = (if plain = [] then [] else conv def plain) @ conv charset (concat ds)
    \<and> length (zmime_header_line_get_element_vector_inner s) \<le> 2 * count_marks s + 10"
proof -
  obtain d ds' where ds: "ds = d # ds'" using assms(3) by (cases ds) auto
  let ?s = "plain @ words_text charset ds" and ?n = "int (length (plain @ words_text charset ds)) + 16"
  have ne: "?s \<noteq> []" by (simp add: ds word_text_def cstr_def)
  have els: "zmime_header_line_get_element_vector_inner ?s = word_elements charset plain ds"
    using elements_loop_words [OF assms(1,2,4,3), of "[]"] ne
    unfolding zmime_header_line_get_element_vector_inner_def by (simp only: if_False prod.case Let_def append_Nil if_True simp_thms)
  have dne: "d \<noteq> []" "concat (d # ds') \<noteq> []" using assms(4) by (auto simp: ds)
  have BQ: "enc_B \<noteq> 0" "enc_Q \<noteq> 0" by (simp_all add: ch_def)
  have word: "zbuf_bytes (utf8_loop conv def (word_element charset d # word_elements charset [32] ds') r bq out)
      = xs @ conv charset (concat (d # ds'))" if r: "holds r xs" and bq: "holds bq xb" and out: "holds out xo" for r bq out xs xb xo
  proof -
    have "holds (zbuf_memcpy bq (b64_text d False 0) (int (length (b64_text d False 0)))) (b64_text d False 0)"
      by (rule holds_memcpy [OF bq])
    from join_words_text [OF this assms(2), of d ds'] obtain bq1 where
      j: "join_words (word_element charset d) (word_elements charset [32] ds')
          (zbuf_memcpy bq (b64_text d False 0) (int (length (b64_text d False 0)))) = (bq1, [])"
      "holds bq1 (concat (map (\<lambda>d. b64_text d False 0) (d # ds')))" by auto
    from decode_word_text [OF r j(2) out dne(2) assms(2), of conv d] obtain r' bq' out' where
      w: "decode_word conv (word_element charset d) r bq1 out = (r', bq', out')"
      "holds r' (xs @ conv charset (concat (d # ds')))" by blast
    have "el_data (word_element charset d) = b64_text d False 0" "el_encode (word_element charset d) = enc_B"
      by (simp_all add: word_element_def)
    then have "utf8_loop conv def (word_element charset d # word_elements charset [32] ds') r bq out = r'"
      using b64_text_nonempty [OF dne(1)] j(1) w(1) by simp
    then show ?thesis using w(2) by (simp add: holds_def)
  qed
  have r0: "holds (zbuf_reset b) []" using assms(5,6) by (rule holds_reset)
  have "zbuf_bytes (utf8_loop conv def (word_elements charset plain ds) (zbuf_reset b) (zbuf_init ?n) (zbuf_init ?n))
      = (if plain = [] then [] else conv def plain) @ conv charset (concat ds)"
  proof (cases "plain = []")
    case True
    then have "word_elements charset plain ds = word_element charset d # word_elements charset [32] ds'" by (simp add: ds)
    then show ?thesis using True by (simp only: word [OF r0 holds_init holds_init] if_True ds [symmetric] simp_thms)
  next
    case False
    let ?out1 = "iconv_out conv def plain (zbuf_reset (zbuf_init ?n))"
    have o1: "holds ?out1 (conv def plain)" by (rule iconv_out_holds [OF holds_emptied [OF holds_init]])
    have r1: "holds (zbuf_append (zbuf_reset b) ?out1) (conv def plain)"
      using zbuf_append_holds [OF r0 o1] by simp
    have e: "word_elements charset plain ds = plain_element plain # word_element charset d # word_elements charset [32] ds'"
      using False by (simp add: ds)
    have "el_data (plain_element plain) = plain" "el_encode (plain_element plain) = 0" by (simp_all add: plain_element_def)
    then have "utf8_loop conv def (word_elements charset plain ds) (zbuf_reset b) (zbuf_init ?n) (zbuf_init ?n)
        = utf8_loop conv def (word_element charset d # word_elements charset [32] ds')
            (zbuf_append (zbuf_reset b) ?out1) (zbuf_init ?n) ?out1"
      unfolding e using False BQ BQ [symmetric] by (subst utf8_loop.simps) (simp only: if_True if_False simp_thms Let_def)
    then show ?thesis using False by (simp only: word [OF r1 holds_init o1] if_False ds [symmetric] simp_thms)
  qed
  then show ?thesis
    unfolding zmime_header_line_get_utf8_def zmime_header_line_get_utf8_engine_def Let_def
    by (simp only: els ne if_False elements_bound simp_thms)
qed

theorem mime_encoded_words_witness:
  "zbuf_bytes (zmime_header_line_get_utf8 (\<lambda>charset d. charset @ d) (cstr ''x'')
      (cstr ''Re: '' @ words_text (cstr ''utf-8'') [cstr ''a'', cstr ''bc'']) (zbuf_init 1))
    = cstr ''xRe: utf-8abc''"
proof -
  have 1: "count_marks (cstr ''Re: '') = 0" "charset_ok (cstr ''utf-8'')" "[cstr ''a'', cstr ''bc''] \<noteq> []"
    "\<forall>d \<in> set [cstr ''a'', cstr ''bc'']. d \<noteq> []"
    by (simp_all add: cstr_def ch_def charset_ok_def)
  have i: "zbuf_ok (zbuf_init 1)" "zbuf_cap (zbuf_init 1) = None" by (simp_all add: zbuf_ok_init)
  from mime_encoded_words [OF 1 i, of "\<lambda>charset d. charset @ d" "cstr ''x''" "[]"]
  show ?thesis by (simp add: cstr_def)
qed

end
