(* ===== verification/MimeAddr.thy ===== *)
theory MimeAddr
  imports MimeHeader
begin

text \<open>
  The addresses of a mail header (\<open>src/mime/address.c\<close>). The scratch area \<open>tmp_cache\<close> is the list of the
  bytes put into it. Name and address are parts of it that may overlap; \<open>address_split\<close> computes what
  both are after the last write to the area. \<open>conv\<close> is the conversion of charsets, as in \<open>MimeHeader\<close>.
\<close>

section \<open>The tokenizer\<close>

definition tok_put :: "nat \<Rightarrow> bytes \<Rightarrow> byte \<Rightarrow> bytes option" where
  "tok_put tmp_cache_size tmp_cache c = (if length tmp_cache > tmp_cache_size then None else Some (tmp_cache @ [c]))"

text \<open>The scratch area and the rest of the header, \<open>None\<close> when the area is full.\<close>

fun tok_scan :: "nat \<Rightarrow> bool \<Rightarrow> bool \<Rightarrow> bool \<Rightarrow> bytes \<Rightarrow> bytes \<Rightarrow> (bytes \<times> bytes) option" where
  "tok_scan n bsl inquote find_lt cache [] = Some (cache, [])"
| "tok_scan n bsl inquote find_lt cache (c # s) =
     (if bsl then do { k \<leftarrow> tok_put n cache c; tok_scan n False inquote find_lt k s }
      else if c = 92 then tok_scan n True inquote find_lt cache s
      else if c = 34 then
        (if inquote then do { k \<leftarrow> tok_put n cache c; tok_scan n False False find_lt k s }
         else tok_scan n False True False cache s)
      else if inquote then do { k \<leftarrow> tok_put n cache c; tok_scan n False True find_lt k s }
      else if c = ch CHR '','' then Some (cache, s)
      else if c = ch CHR '';'' then Some (cache, s)
      else do {
        k \<leftarrow> tok_put n cache c;
        if c = ch CHR ''>'' \<and> find_lt then Some (k, s)
        else tok_scan n False False (find_lt \<or> c = ch CHR ''<'') k s })"

text \<open>The loop that trims the text and turns a closing bracket at its end into a blank.\<close>

lemma filter_ztrim_length: "length (filter P (ztrim s)) \<le> length (filter P s)"
proof -
  have "length (filter P (TRIM_SKIP s)) \<le> length (filter P s)" by (induction s) auto
  moreover have "length (filter P (take k xs)) \<le> length (filter P xs)" for k and xs :: bytes
    by (metis append_take_drop_id filter_append le_add1 length_append)
  ultimately show ?thesis by (simp add: ztrim_def Let_def) (meson order_trans)
qed

function strip_gt :: "bytes \<Rightarrow> bytes" where
  "strip_gt s =
     (let t = ztrim s in
      if t = [] then []
      else if last t = ch CHR ''>'' then strip_gt (butlast t @ [32])
      else t)"
  by pat_completeness auto
termination
proof (relation "measure (\<lambda>s. length (filter (\<lambda>c. c = ch CHR ''>'') s))", goal_cases)
  case (2 s t)
  let ?n = "\<lambda>s. length (filter (\<lambda>c. c = ch CHR ''>'') s)"
  have t: "butlast t @ [ch CHR ''>''] = t" using 2(2,3) append_butlast_last_id [of t] by simp
  have "?n (butlast t @ [ch CHR ''>'']) = ?n (butlast t) + 1" by simp
  then have "?n (butlast t) + 1 \<le> ?n s"
    unfolding t using filter_ztrim_length [of "\<lambda>c. c = ch CHR ''>''" s] 2(1) by simp
  then show ?case by (simp add: ch_def)
qed simp

declare strip_gt.simps [simp del]

text \<open>\<open>findi\<close>: the last blank, quote, bracket or byte above 127.\<close>

definition addr_stop :: "byte \<Rightarrow> bool" where
  "addr_stop c \<longleftrightarrow> c = ch CHR ''<'' \<or> c = 32 \<or> c = 34 \<or> 128 \<le> c"

fun find_stop :: "bytes \<Rightarrow> nat \<Rightarrow> nat option" where
  "find_stop t 0 = None"
| "find_stop t (Suc i) = (if addr_stop (t ! i) then Some i else find_stop t i)"

abbreviation name_skip :: bytes where "name_skip \<equiv> [32, 9, 34, 39, 13, 10]"

text \<open>Name and address. A byte above 127 is not overwritten, so that the name then runs over the
  address; the NUL written behind the name (at \<open>cut\<close>) may cut the address too.\<close>

definition address_split :: "bytes \<Rightarrow> bytes \<times> bytes" where
  "address_split t =
     (case find_stop t (length t) of
        None \<Rightarrow> ([], t)
      | Some i \<Rightarrow>
          let mail = ztrim (drop (i + 1) t);
              name = map (\<lambda>c. if c \<noteq> 34 then c else 32) (if 128 \<le> t ! i then t else take i t)
          in case zskip name (int (length name)) name_skip None of
               (slen, Some ps) \<Rightarrow>
                 let cut = length name - length ps + slen; start = length t - length mail
                 in (take slen ps, if cut < start then mail else take (cut - start) mail)
             | (_, None) \<Rightarrow> (ztrim name, mail))"

datatype tok_result = TokEnd | TokBlank bytes | Tok bytes bytes bytes

definition zmime_header_line_address_tok :: "bytes \<Rightarrow> nat \<Rightarrow> tok_result" where
  "zmime_header_line_address_tok str tmp_cache_size =
     (if str = [] then TokEnd
      else case tok_scan tmp_cache_size False False False [] str of
        None \<Rightarrow> TokEnd
      | Some (tmp_cache, rest) \<Rightarrow>
          if tmp_cache = [] then TokBlank rest
          else let pstr = strip_gt (takeWhile (\<lambda>c. c \<noteq> 0) tmp_cache)
            in if pstr = [] then TokBlank rest else let (name, mail) = address_split pstr in Tok rest name mail)"

section \<open>The vector of addresses\<close>

record mime_address =
  ma_name :: bytes
  ma_name_utf8 :: bytes
  ma_address :: bytes

definition create_mime_address_simple :: "bytes \<Rightarrow> bytes \<Rightarrow> mime_address" where
  "create_mime_address_simple n a = \<lparr>ma_name = n, ma_name_utf8 = [], ma_address = zstr_tolower a\<rparr>"

text \<open>One address with the names of all the decoded ones.\<close>

fun join_names :: "zbuf \<Rightarrow> bool \<Rightarrow> mime_address list \<Rightarrow> zbuf" where
  "join_names tmpbf i [] = tmpbf"
| "join_names tmpbf i (ma # mas) =
     join_names (zbuf_strcat (if i then zbuf_strcat tmpbf [32] else tmpbf) (ma_name ma)) True mas"

definition create_mime_address_joined :: "zbuf \<Rightarrow> mime_address list \<Rightarrow> mime_address" where
  "create_mime_address_joined tmpbf mas =
     \<lparr>ma_name = zstrdup (Some (zbuf_bytes (join_names (zbuf_reset tmpbf) False mas))), ma_name_utf8 = [],
      ma_address = ma_address (hd mas)\<rparr>"

definition address_encoded :: "bytes \<Rightarrow> bytes \<Rightarrow> bool \<Rightarrow> bool" where
  "address_encoded n a loop_mode \<longleftrightarrow> \<not> (loop_mode \<or> n \<noteq> [] \<or> take 1 a \<noteq> cstr ''='' \<or> take 1 (drop 1 a) \<noteq> cstr ''?'')"

definition address_decoded :: "(bytes \<Rightarrow> bytes \<Rightarrow> bytes) \<Rightarrow> bytes \<Rightarrow> bytes \<Rightarrow> zbuf" where
  "address_decoded conv def a = zmime_header_line_get_utf8 conv def a (zbuf_init (2 * int (length a) + 100))"

text \<open>The loop of \<open>zmime_header_line_get_address_vector_engine\<close> with \<open>create_mime_address\<close>, which calls the
  engine again on a decoded text. The loop passes 0 for \<open>loop_mode\<close>, whatever its own mode is.\<close>

partial_function (option) address_loop ::
  "(bytes \<Rightarrow> bytes \<Rightarrow> bytes) \<Rightarrow> bytes \<Rightarrow> nat \<Rightarrow> bytes \<Rightarrow> mime_address list \<Rightarrow> mime_address list option" where
  "address_loop conv def n str mas =
     (case zmime_header_line_address_tok str n of
        TokEnd \<Rightarrow> Some mas
      | TokBlank rest \<Rightarrow> address_loop conv def n rest mas
      | Tok rest name mail \<Rightarrow>
          if address_encoded name mail False then
            let tmpbf = address_decoded conv def mail in
            Option.bind
              (if zbuf_bytes tmpbf = [] then Some []
               else address_loop conv def (length (zbuf_bytes tmpbf) + 1000) (zbuf_bytes tmpbf) [])
              (\<lambda>mas'. address_loop conv def n rest
                 (mas @ [if mas' = [] then create_mime_address_simple name mail
                         else create_mime_address_joined tmpbf mas']))
          else address_loop conv def n rest (mas @ [create_mime_address_simple name mail]))"

declare address_loop.simps [code]

definition zmime_header_line_get_address_vector ::
  "(bytes \<Rightarrow> bytes \<Rightarrow> bytes) \<Rightarrow> bytes \<Rightarrow> bytes \<Rightarrow> mime_address list option" where
  "zmime_header_line_get_address_vector conv src_charset_def in_str =
     (if in_str = [] then Some [] else address_loop conv src_charset_def (length in_str + 1000) in_str [])"

text \<open>The three buffers are emptied before each use.\<close>

definition address_utf8 :: "(bytes \<Rightarrow> bytes \<Rightarrow> bytes) \<Rightarrow> bytes \<Rightarrow> mime_address \<Rightarrow> mime_address" where
  "address_utf8 conv def addr =
     (if ma_name addr \<noteq> [] \<and> ma_name_utf8 addr = [] then
        addr\<lparr>ma_name_utf8 := zstrdup (Some (zbuf_bytes
          (zmime_header_line_get_utf8_engine conv def (ma_name addr) (zbuf_init 128) (zbuf_init (- 1)) (zbuf_init (- 1)))))\<rparr>
      else addr)"

definition zmime_header_line_get_address_vector_utf8 ::
  "(bytes \<Rightarrow> bytes \<Rightarrow> bytes) \<Rightarrow> bytes \<Rightarrow> bytes \<Rightarrow> mime_address list option" where
  "zmime_header_line_get_address_vector_utf8 conv src_charset_def in_str =
     map_option (map (address_utf8 conv src_charset_def)) (zmime_header_line_get_address_vector conv src_charset_def in_str)"

section \<open>Reading back a list of addresses\<close>

lemma tok_put_room: "length k \<le> n \<Longrightarrow> tok_put n k c = Some (k @ [c])"
  by (simp add: tok_put_def)

lemma scan_quoted:
  assumes "34 \<notin> set v" "length k + length v \<le> n"
  shows "tok_scan n False True lt k (quote_text v @ r) = tok_scan n False True lt (k @ v) r"
  using assms
proof (induction v arbitrary: k)
  case Nil
  then show ?case by (simp add: quote_text_def)
next
  case (Cons c v)
  have q: "quote_text (c # v) = (if c = 92 then [92, 92] else [c]) @ quote_text v" by (simp add: quote_text_def)
  have "tok_scan n False True lt k (quote_text (c # v) @ r) = tok_scan n False True lt (k @ [c]) (quote_text v @ r)"
    using Cons.prems unfolding q by (auto simp: tok_put_room)
  then show ?case using Cons.IH [of "k @ [c]"] Cons.prems by simp
qed

text \<open>Bytes that mean nothing to the tokenizer.\<close>

definition addr_chars :: "bytes \<Rightarrow> bool" where
  "addr_chars a \<longleftrightarrow> (\<forall>c \<in> set a. c \<noteq> 0 \<and> c \<noteq> 92 \<and> c \<noteq> ch CHR '','' \<and> c \<noteq> ch CHR '';'' \<and> c \<noteq> ch CHR ''>''
     \<and> \<not> addr_stop c \<and> \<not> TRIM_DELETE c)"

lemma scan_plain:
  assumes "addr_chars a" "length k + length a \<le> n"
  shows "tok_scan n False False lt k (a @ r) = tok_scan n False False lt (k @ a) r"
  using assms
proof (induction a arbitrary: k)
  case (Cons c a)
  have c: "c \<noteq> 92" "c \<noteq> 34" "c \<noteq> ch CHR '',''" "c \<noteq> ch CHR '';''" "c \<noteq> ch CHR ''>''" "c \<noteq> ch CHR ''<''"
    using Cons.prems(1) by (auto simp: addr_chars_def addr_stop_def)
  have "addr_chars a" using Cons.prems(1) by (simp add: addr_chars_def)
  then show ?case using Cons.IH [of "k @ [c]"] Cons.prems(2) c by (simp add: tok_put_room)
qed simp

definition addr_name_ok :: "bytes \<Rightarrow> bool" where
  "addr_name_ok v \<longleftrightarrow> v \<noteq> [] \<and> 0 \<notin> set v \<and> 34 \<notin> set v \<and> \<not> TRIM_DELETE (hd v) \<and> \<not> TRIM_DELETE (last v)
     \<and> hd v \<notin> set name_skip \<and> last v \<notin> set name_skip"

definition addr_ok :: "bytes \<times> bytes \<Rightarrow> bool" where
  "addr_ok e \<longleftrightarrow> addr_name_ok (fst e) \<and> snd e \<noteq> [] \<and> addr_chars (snd e)"

definition addr_text :: "bytes \<times> bytes \<Rightarrow> bytes" where
  "addr_text e = 34 # quote_text (fst e) @ [34, 32, ch CHR ''<''] @ snd e @ [ch CHR ''>'']"

fun addrs_text :: "(bytes \<times> bytes) list \<Rightarrow> bytes" where
  "addrs_text [] = []"
| "addrs_text (e # es) = addr_text e @ (if es = [] then [] else [ch CHR '','', 32] @ addrs_text es)"

lemma quote_text_length: "length v \<le> length (quote_text v)"
  by (induction v) (auto simp: quote_text_def)

lemma scan_entry:
  assumes "addr_ok e" "set w \<subseteq> {32}" "length w + length (addr_text e) \<le> n"
  shows "tok_scan n False False False [] (w @ addr_text e @ r)
    = Some (w @ fst e @ [34, 32, ch CHR ''<''] @ snd e @ [ch CHR ''>''], r)"
proof -
  obtain v a where e: "e = (v, a)" by force
  have v: "34 \<notin> set v" and a: "addr_chars a" using assms(1) by (simp_all add: addr_ok_def addr_name_ok_def e)
  have len: "length w + length v + length a + 5 \<le> n"
    using assms(3) quote_text_length [of v] by (simp add: addr_text_def e)
  have w: "tok_scan n False False False k (w @ x) = tok_scan n False False False (k @ w) x" if "length k + length w \<le> n" for k x
    using assms(2) that by (induction w arbitrary: k) (auto simp: tok_put_room ch_def)
  have "tok_scan n False False False [] (w @ addr_text e @ r)
      = tok_scan n False True False w (quote_text v @ [34, 32, ch CHR ''<''] @ a @ [ch CHR ''>''] @ r)"
    using w [of "[]"] len by (simp add: addr_text_def e)
  also have "\<dots> = tok_scan n False True False (w @ v) ([34, 32, ch CHR ''<''] @ a @ [ch CHR ''>''] @ r)"
    using len by (intro scan_quoted [OF v]) simp
  also have "\<dots> = tok_scan n False False True (w @ v @ [34, 32, ch CHR ''<'']) (a @ [ch CHR ''>''] @ r)"
    using len by (simp add: tok_put_room ch_def)
  also have "\<dots> = tok_scan n False False True ((w @ v @ [34, 32, ch CHR ''<'']) @ a) ([ch CHR ''>''] @ r)"
    using len by (intro scan_plain [OF a]) simp
  finally show ?thesis using len by (simp add: tok_put_room ch_def e)
qed

lemma trim_id: "0 \<notin> set s \<Longrightarrow> s = [] \<or> \<not> TRIM_DELETE (hd s) \<and> \<not> TRIM_DELETE (last s) \<Longrightarrow> ztrim s = s"
  using strip_middle [of "[]" TRIM_DELETE "[]" s] by (simp add: ztrim_strip)

lemma blank_delete: "TRIM_DELETE 32"
  by (simp add: TRIM_DELETE_def isascii_def isspace_def iscntrl_def)

lemma gt_not_delete: "\<not> TRIM_DELETE (ch CHR ''>'')"
  by (simp add: TRIM_DELETE_def isascii_def isspace_def iscntrl_def ch_def)

lemma strip_gt_end:
  assumes "set w \<subseteq> {32}" "0 \<notin> set s" "s \<noteq> []" "\<not> TRIM_DELETE (hd s)" "\<not> TRIM_DELETE (last s)" "last s \<noteq> ch CHR ''>''"
  shows "strip_gt (w @ s @ [ch CHR ''>'']) = s"
proof -
  let ?t = "s @ [ch CHR ''>'']"
  have "ztrim (w @ ?t) = ?t"
    using strip_middle [of w TRIM_DELETE "[]" ?t] assms blank_delete gt_not_delete
    by (subst ztrim_strip) (auto simp: ch_def)
  moreover have "ztrim (s @ [32]) = s"
    using strip_middle [of "[]" TRIM_DELETE "[32]" s] assms blank_delete by (subst ztrim_strip) auto
  ultimately show ?thesis
    using assms by (subst strip_gt.simps) (simp add: Let_def strip_gt.simps [of "s @ [32]"])
qed

lemma find_stop_skip:
  "k \<le> n \<Longrightarrow> (\<And>j. k \<le> j \<Longrightarrow> j < n \<Longrightarrow> \<not> addr_stop (t ! j)) \<Longrightarrow> find_stop t n = find_stop t k"
proof (induction n)
  case (Suc n)
  then show ?case by (cases "k = Suc n") auto
qed simp

lemma find_stop_last:
  assumes "\<forall>c \<in> set a. \<not> addr_stop c" "addr_stop x"
  shows "find_stop (u @ x # a) (length (u @ x # a)) = Some (length u)"
proof -
  have "find_stop (u @ x # a) (length (u @ x # a)) = find_stop (u @ x # a) (Suc (length u))"
    using assms(1) by (intro find_stop_skip) (auto simp: nth_append nth_Cons')
  then show ?thesis using assms(2) by simp
qed

lemma find_stop_none: "\<forall>c \<in> set a. \<not> addr_stop c \<Longrightarrow> find_stop a (length a) = None"
  using find_stop_skip [of 0 "length a" a] by auto

lemma zskip_name:
  assumes "addr_name_ok v" "set w \<subseteq> set name_skip"
  shows "zskip (v @ w) (int (length (v @ w))) name_skip None = (length v, Some (v @ w))"
proof -
  have v: "v \<noteq> []" "0 \<notin> set v" "hd v \<notin> set name_skip" "last v \<notin> set name_skip" using assms(1) by (simp_all add: addr_name_ok_def)
  have src: "src_bytes (v @ w) (int (length (v @ w))) = v @ w" by (simp add: src_bytes_def)
  have l: "skip_left_from (v @ w) name_skip = v @ w"
    using v by (cases v) (auto simp: strchr_in_def)
  have "dropWhile (strchr_in name_skip) (rev w @ rev v) = dropWhile (strchr_in name_skip) (rev v)"
    using assms(2) by (intro dropWhile_append2) (auto simp: strchr_in_def)
  also have "\<dots> = rev v"
    using v by (cases v rule: rev_cases) (auto simp: strchr_in_def)
  finally have "take (skip_right_from (v @ w) name_skip (length (v @ w))) (v @ w) = v"
    using skip_right_from_prefix [of "length (v @ w)" "v @ w" name_skip] by simp
  moreover have "skip_right_from (v @ w) name_skip (length (v @ w)) \<le> length (v @ w)"
    using skip_right_from_prefix [of "length (v @ w)" "v @ w" name_skip] by simp
  ultimately have "skip_right_from (v @ w) name_skip (length (v @ w)) = length v"
    by (metis length_take min.absorb2)
  then show ?thesis using v(1) by (simp only: zskip_def src l Let_def option.case) simp
qed

lemma split_entry:
  assumes "addr_ok (v, a)"
  shows "address_split (v @ [34, 32, ch CHR ''<''] @ a) = (v, a)"
proof -
  have v: "addr_name_ok v" "34 \<notin> set v" and a: "a \<noteq> []" "addr_chars a"
    using assms by (simp_all add: addr_ok_def addr_name_ok_def)
  let ?t = "(v @ [34, 32]) @ ch CHR ''<'' # a"
  have f: "find_stop ?t (length ?t) = Some (length (v @ [34, 32]))"
    using a(2) by (intro find_stop_last) (auto simp: addr_chars_def addr_stop_def)
  have m: "ztrim (drop (length (v @ [34, 32]) + 1) ?t) = a"
    using a trim_id [of a] by (auto simp: addr_chars_def)
  have x: "?t ! length (v @ [34, 32]) = ch CHR ''<''" by (simp only: nth_append_length)
  have n: "map (\<lambda>c. if c \<noteq> 34 then c else 32) (take (length (v @ [34, 32])) ?t) = v @ [32, 32]"
    using v(2) by (auto intro: map_idI)
  have z: "zskip (v @ [32, 32]) (int (length (v @ [32, 32]))) name_skip None = (length v, Some (v @ [32, 32]))"
    by (rule zskip_name [OF v(1)]) simp
  have h: "\<not> 128 \<le> (ch CHR ''<'')" by (simp add: ch_def)
  have "address_split ?t = (v, a)"
    unfolding address_split_def f option.case m x n Let_def using h z by (simp only: if_False n option.case prod.case z) simp
  then show ?thesis by simp
qed

lemma tok_entry:
  assumes "addr_ok e" "set w \<subseteq> {32}" "length w + length (addr_text e) \<le> n"
  shows "zmime_header_line_address_tok (w @ addr_text e @ r) n = Tok r (fst e) (snd e)"
proof -
  obtain v a where e: "e = (v, a)" by force
  let ?s = "v @ [34, 32, ch CHR ''<''] @ a"
  have ok: "addr_name_ok v" "a \<noteq> []" "addr_chars a" using assms(1) by (simp_all add: addr_ok_def e)
  have l: "last a \<in> set a" using ok(2) by simp
  have nul: "0 \<notin> set ?s" "\<not> TRIM_DELETE (hd ?s)" "\<not> TRIM_DELETE (last ?s)" "last ?s \<noteq> ch CHR ''>''" "?s \<noteq> []"
    using ok l by (auto simp: addr_name_ok_def addr_chars_def ch_def)
  have c: "takeWhile (\<lambda>c. c \<noteq> 0) (w @ ?s @ [ch CHR ''>'']) = w @ ?s @ [ch CHR ''>'']"
    using nul(1) assms(2) by (intro takeWhile_eq_all_conv [THEN iffD2]) (auto simp: ch_def)
  have s: "strip_gt (w @ ?s @ [ch CHR ''>'']) = ?s"
    by (rule strip_gt_end [OF assms(2) nul(1,5,2,3,4)])
  have x: "address_split ?s = (v, a)" using split_entry assms(1) by (simp add: e)
  have k: "tok_scan n False False False [] (w @ addr_text e @ r) = Some (w @ ?s @ [ch CHR ''>''], r)"
    using scan_entry [OF assms, of r] by (simp add: e)
  have ne: "w @ addr_text e @ r \<noteq> []" "w @ ?s @ [ch CHR ''>''] \<noteq> []" by (simp_all add: addr_text_def)
  show ?thesis
    unfolding zmime_header_line_address_tok_def k option.case prod.case c s Let_def x using ne nul(5)
    by (simp only: if_False e fst_conv snd_conv)
qed

lemma tok_comma: "zmime_header_line_address_tok (ch CHR '','' # r) n = TokBlank r"
  by (simp add: zmime_header_line_address_tok_def ch_def)

lemma address_loop_end: "address_loop conv def n [] mas = Some mas"
  by (subst address_loop.simps) (simp add: zmime_header_line_address_tok_def)

abbreviation simple_addrs :: "(bytes \<times> bytes) list \<Rightarrow> mime_address list" where
  "simple_addrs es \<equiv> map (\<lambda>e. create_mime_address_simple (fst e) (snd e)) es"

lemma address_loop_text:
  assumes "\<forall>e \<in> set es. addr_ok e" "set w \<subseteq> {32}" "length w + length (addrs_text es) \<le> n" "es \<noteq> []"
  shows "address_loop conv def n (w @ addrs_text es) mas = Some (mas @ simple_addrs es)"
  using assms
proof (induction es arbitrary: w mas)
  case (Cons e es)
  let ?r = "if es = [] then [] else [ch CHR '','', 32] @ addrs_text es"
  have ok: "addr_ok e" using Cons.prems(1) by simp
  then have ne: "fst e \<noteq> []" by (simp add: addr_ok_def addr_name_ok_def)
  have "zmime_header_line_address_tok (w @ addr_text e @ ?r) n = Tok ?r (fst e) (snd e)"
    using Cons.prems(3) by (intro tok_entry [OF ok Cons.prems(2)]) simp
  then have "address_loop conv def n (w @ addrs_text (e # es)) mas
      = address_loop conv def n ?r (mas @ [create_mime_address_simple (fst e) (snd e)])"
    using ne by (subst address_loop.simps) (simp add: address_encoded_def)
  also have "\<dots> = Some (mas @ simple_addrs (e # es))"
  proof (cases "es = []")
    case False
    have "address_loop conv def n ?r mas' = address_loop conv def n ([32] @ addrs_text es) mas'" for mas'
      using False by (subst address_loop.simps) (simp add: tok_comma)
    then show ?thesis using Cons.IH [of "[32]"] Cons.prems(1,3) False by simp
  qed (simp add: address_loop_end)
  finally show ?case .
qed simp

section \<open>Names without encoded words\<close>

lemma no_mark:
  assumes "count_marks a = 0"
  shows "zmemmem a (cstr ''=?'') = None"
proof -
  have "strstr a [ch CHR ''='', c_qm] = None"
    using assms
  proof (induction a rule: count_marks.induct)
    case (1 c d s)
    then have "strstr (d # s) [ch CHR ''='', c_qm] = None" by (simp split: if_splits)
    moreover have "\<not> (c = ch CHR ''='' \<and> d = c_qm)" using 1 by (auto split: if_splits)
    ultimately show ?case by (subst strstr.simps) auto
  next
    case "2_1"
    show ?case by (subst strstr.simps) simp
  next
    case "2_2"
    show ?case by (subst strstr.simps) (simp add: strstr.simps [of "[]"])
  qed
  then show ?thesis by (simp add: zmemmem_def cstr_def)
qed

lemma engine_plain:
  assumes "s \<noteq> []" "find_word s = None" "zbuf_ok b" "zbuf_cap b = None"
  shows "zbuf_bytes (zmime_header_line_get_utf8_engine conv def s b (zbuf_init m) (zbuf_init m)) = conv def s"
proof -
  have BQ: "enc_B \<noteq> 0" "enc_Q \<noteq> 0" by (simp_all add: ch_def)
  have "elements_loop s [] = ([], s)" using assms(2) by (subst elements_loop.simps) simp
  then have e: "zmime_header_line_get_element_vector_inner s = [plain_element s]"
    using assms(1) by (simp add: zmime_header_line_get_element_vector_inner_def)
  have r0: "holds (zbuf_reset b) []" using assms(3,4) by (rule holds_reset)
  let ?out1 = "iconv_out conv def s (zbuf_reset (zbuf_init m))"
  have o1: "holds ?out1 (conv def s)" by (rule iconv_out_holds [OF holds_emptied [OF holds_init]])
  have r1: "holds (zbuf_append (zbuf_reset b) ?out1) (conv def s)"
    using zbuf_append_holds [OF r0 o1] by simp
  have "el_data (plain_element s) = s" "el_encode (plain_element s) = 0" by (simp_all add: plain_element_def)
  then have "utf8_loop conv def [plain_element s] (zbuf_reset b) (zbuf_init m) (zbuf_init m) = zbuf_append (zbuf_reset b) ?out1"
    using assms(1) BQ BQ [symmetric] by (subst utf8_loop.simps) (simp add: Let_def)
  then show ?thesis
    using r1 assms(1) by (simp add: zmime_header_line_get_utf8_engine_def Let_def e holds_def)
qed

lemma find_word_none: "count_marks s = 0 \<Longrightarrow> find_word s = None"
  by (subst find_word.simps) (simp add: no_mark)

section \<open>The loop over the tokens returns\<close>

lemma tok_scan_rest:
  "tok_scan n b q lt k s = Some (k', r) \<Longrightarrow> length r \<le> length s - 1 \<and> set r \<subseteq> set s \<and> set k' \<subseteq> set k \<union> set s"
proof (induction s arbitrary: b q lt k)
  case (Cons c s)
  have put: "tok_put n k d = Some k2 \<longleftrightarrow> length k \<le> n \<and> k2 = k @ [d]" for d k2 by (auto simp: tok_put_def)
  consider "r = s" "k' = k \<or> k' = k @ [c]"
    | b' q' lt' k2 where "k2 = k \<or> k2 = k @ [c]" "tok_scan n b' q' lt' k2 s = Some (k', r)"
    using Cons.prems by (simp add: put bind_eq_Some_conv split: if_splits) metis+
  then show ?case
  proof cases
    case 2
    then show ?thesis using Cons.IH [OF 2(2)] by auto
  qed auto
qed simp

lemma set_ztrim: "set (ztrim s) \<subseteq> set s"
proof -
  have "set (TRIM_SKIP s) \<subseteq> set s" by (induction s) auto
  then show ?thesis using set_take_subset [of _ "TRIM_SKIP s"] by (auto simp: ztrim_def Let_def)
qed

lemma set_strip_gt: "set (strip_gt s) \<subseteq> set s \<union> {32}"
proof (induction s rule: strip_gt.induct)
  case (1 s)
  show ?case
  proof (cases "ztrim s \<noteq> [] \<and> last (ztrim s) = ch CHR ''>''")
    case True
    then have "strip_gt s = strip_gt (butlast (ztrim s) @ [32])" by (subst strip_gt.simps) (simp add: Let_def)
    then show ?thesis using "1.IH" [OF refl] True set_ztrim [of s] by (auto dest!: in_set_butlastD)
  next
    case False
    then have "strip_gt s = ztrim s" by (subst strip_gt.simps) (auto simp: Let_def)
    then show ?thesis using set_ztrim [of s] by auto
  qed
qed

lemma set_address_split: "set (snd (address_split t)) \<subseteq> set t"
proof (cases "find_stop t (length t)")
  case (Some i)
  have m: "set (ztrim (drop (i + 1) t)) \<subseteq> set t" using set_ztrim set_drop_subset by fast
  have "set (take k (ztrim (drop (i + 1) t))) \<subseteq> set t" for k using m set_take_subset by fast
  with m show ?thesis by (simp add: address_split_def Some Let_def split: prod.splits option.splits)
qed (simp add: address_split_def)

lemma tok_rest:
  shows "zmime_header_line_address_tok s n = TokBlank r \<Longrightarrow> length r < length s \<and> set r \<subseteq> set s"
    and "zmime_header_line_address_tok s n = Tok r name mail \<Longrightarrow>
      length r < length s \<and> set r \<subseteq> set s \<and> set mail \<subseteq> set s \<union> {32}"
proof -
  show "length r < length s \<and> set r \<subseteq> set s" if t: "zmime_header_line_address_tok s n = TokBlank r"
  proof -
    from t obtain k where "s \<noteq> []" "tok_scan n False False False [] s = Some (k, r)"
      by (auto simp: zmime_header_line_address_tok_def Let_def split: if_splits option.splits prod.splits)
    then show ?thesis using tok_scan_rest by (cases s) fastforce+
  qed
  show "length r < length s \<and> set r \<subseteq> set s \<and> set mail \<subseteq> set s \<union> {32}" if t: "zmime_header_line_address_tok s n = Tok r name mail"
  proof -
    from t obtain k where k: "s \<noteq> []" "tok_scan n False False False [] s = Some (k, r)"
      "address_split (strip_gt (takeWhile (\<lambda>c. c \<noteq> 0) k)) = (name, mail)"
      by (auto simp: zmime_header_line_address_tok_def Let_def split: if_splits option.splits prod.splits)
    have "set mail \<subseteq> set (takeWhile (\<lambda>c. c \<noteq> 0) k) \<union> {32}"
      using set_address_split [of "strip_gt (takeWhile (\<lambda>c. c \<noteq> 0) k)"] set_strip_gt k(3) by fastforce
    moreover have "set (takeWhile (\<lambda>c. c \<noteq> 0) k) \<subseteq> set k" by (auto dest: set_takeWhileD)
    ultimately show ?thesis using tok_scan_rest [OF k(2)] k(1) by (cases s) auto
  qed
qed

lemma address_loop_returns:
  assumes "ch CHR ''='' \<notin> set s"
  shows "\<exists>mas'. address_loop conv def n s mas = Some mas'"
  using assms
proof (induction "length s" arbitrary: s mas rule: less_induct)
  case less
  show ?case
  proof (cases "zmime_header_line_address_tok s n")
    case (TokBlank r)
    then show ?thesis using tok_rest(1) [OF TokBlank] less by (subst address_loop.simps) auto
  next
    case (Tok r name mail)
    have m: "ch CHR ''='' \<notin> set mail" using tok_rest(2) [OF Tok] less.prems by (auto simp: ch_def)
    then have "\<not> address_encoded name mail False"
      by (cases mail) (auto simp: address_encoded_def cstr_def)
    then show ?thesis using Tok tok_rest(2) [OF Tok] less by (subst address_loop.simps) auto
  qed (subst address_loop.simps, simp)
qed

section \<open>A mark without an encoded word\<close>

lemma tok_plain:
  assumes "addr_chars s" "s \<noteq> []" "length s \<le> n"
  shows "zmime_header_line_address_tok s n = Tok [] [] s"
proof -
  have k: "tok_scan n False False False [] s = Some (s, [])"
    using scan_plain [OF assms(1), of "[]" n False "[]"] assms(3) by simp
  have c: "takeWhile (\<lambda>c. c \<noteq> 0) s = s"
    using assms(1) by (intro takeWhile_eq_all_conv [THEN iffD2]) (auto simp: addr_chars_def)
  have "last s \<in> set s" "hd s \<in> set s" using assms(2) by auto
  then have "ztrim s = s" "last s \<noteq> ch CHR ''>''" using assms(1) by (auto simp: addr_chars_def intro!: trim_id)
  then have g: "strip_gt s = s" using assms(2) by (subst strip_gt.simps) (simp add: Let_def)
  have "address_split s = ([], s)" using find_stop_none [of s] assms(1) by (simp add: address_split_def addr_chars_def)
  then show ?thesis using assms(2) by (simp add: zmime_header_line_address_tok_def k c g Let_def)
qed

lemma find_word_mark: "c_qm \<notin> set t \<Longrightarrow> find_word (cstr ''=?'' @ t) = None"
proof -
  assume "c_qm \<notin> set t"
  then have "find_delim t [c_qm] = None" by (intro find_delim_none) auto
  then show ?thesis using find_mark [of "[]" t] by (subst find_word.simps) (simp add: cstr_def)
qed

lemma address_loop_stuck:
  assumes "addr_chars t" "c_qm \<notin> set t" "conv def (cstr ''=?'' @ t) = cstr ''=?'' @ t"
    and "length t + 2 \<le> n"
  shows "address_loop conv def n (cstr ''=?'' @ t) mas = None"
proof (rule ccontr)
  let ?s = "cstr ''=?'' @ t"
  have ac: "addr_chars ?s" using assms(1)
    by (auto simp: addr_chars_def addr_stop_def cstr_def ch_def TRIM_DELETE_def isascii_def isspace_def iscntrl_def)
  have ne: "?s \<noteq> []" by (simp add: cstr_def)
  have tok: "zmime_header_line_address_tok ?s m = Tok [] [] ?s" if "length t + 2 \<le> m" for m
    using that by (intro tok_plain [OF ac ne]) (simp add: cstr_def)
  have dec: "zbuf_bytes (address_decoded conv def ?s) = ?s"
    unfolding address_decoded_def zmime_header_line_get_utf8_def
    by (subst engine_plain [OF ne find_word_mark [OF assms(2)]]) (simp_all add: assms(3) zbuf_ok_init)
  have enc: "address_encoded [] ?s False" by (simp add: address_encoded_def cstr_def)
  assume "address_loop conv def n ?s mas \<noteq> None"
  then obtain y where y: "address_loop conv def n ?s mas = Some y" by blast
  have "c = conv \<longrightarrow> d = def \<longrightarrow> length t + 2 \<le> m \<longrightarrow> x \<noteq> ?s" if "address_loop c d m x ms = Some z" for c d m x ms z
  proof (rule address_loop.raw_induct [OF _ that, of "\<lambda>c d m x ms z. c = conv \<longrightarrow> d = def \<longrightarrow> length t + 2 \<le> m \<longrightarrow> x \<noteq> ?s"], goal_cases)
    case (1 f c d m x ms z)
    show ?case
    proof (intro impI notI)
      assume a: "c = conv" "d = def" "length t + 2 \<le> m" "x = ?s"
      from 1(2) have "Option.bind (f conv def (length ?s + 1000) ?s []) (\<lambda>mas'. f conv def m []
          (ms @ [if mas' = [] then create_mime_address_simple [] ?s
                 else create_mime_address_joined (address_decoded conv def ?s) mas'])) = Some z"
        unfolding a using tok [OF a(3)] enc ne dec by (simp only: tok_result.case if_True if_False Let_def)
      then obtain w where "f conv def (length ?s + 1000) ?s [] = Some w" by (auto simp: bind_eq_Some_conv)
      from 1(1) [OF this] show False by simp
    qed
  qed
  from this [OF y] assms(4) show False by simp
qed

section \<open>Properties\<close>

text \<open>C14: Address lists: from a list of addresses written as quoted names (with doubled backslashes) and
  addresses in brackets, separated by commas, \<open>zmime_header_line_get_address_vector\<close> makes exactly these
  names with the addresses in small letters, and \<open>zmime_header_line_get_address_vector_utf8\<close> adds the
  converted names.\<close>

theorem mime_addresses_roundtrip:
  assumes "\<forall>e \<in> set es. addr_ok e \<and> count_marks (fst e) = 0"
  shows "zmime_header_line_get_address_vector conv def (addrs_text es)
      = Some (map (\<lambda>e. \<lparr>ma_name = fst e, ma_name_utf8 = [], ma_address = map tolower (snd e)\<rparr>) es)
    \<and> zmime_header_line_get_address_vector_utf8 conv def (addrs_text es)
      = Some (map (\<lambda>e. \<lparr>ma_name = fst e, ma_name_utf8 = takeWhile (\<lambda>c. c \<noteq> 0) (conv def (fst e)),
                       ma_address = map tolower (snd e)\<rparr>) es)"
proof -
  have ok: "fst e \<noteq> []" "0 \<notin> set (snd e)" "count_marks (fst e) = 0" if "e \<in> set es" for e
    using assms that by (auto simp: addr_ok_def addr_name_ok_def addr_chars_def)
  have ne: "es \<noteq> [] \<Longrightarrow> addrs_text es \<noteq> []" by (cases es) (simp_all add: addr_text_def)
  have "zmime_header_line_get_address_vector conv def (addrs_text es) = Some (simple_addrs es)"
    using address_loop_text [of es "[]"] assms ne
    by (cases "es = []") (simp_all add: zmime_header_line_get_address_vector_def)
  moreover have "simple_addrs es = map (\<lambda>e. \<lparr>ma_name = fst e, ma_name_utf8 = [], ma_address = map tolower (snd e)\<rparr>) es"
    using ok by (simp add: create_mime_address_simple_def zstr_tolower_map)
  moreover have "address_utf8 conv def \<lparr>ma_name = fst e, ma_name_utf8 = [], ma_address = a\<rparr>
      = \<lparr>ma_name = fst e, ma_name_utf8 = takeWhile (\<lambda>c. c \<noteq> 0) (conv def (fst e)), ma_address = a\<rparr>"
    if "e \<in> set es" for e a
    using engine_plain [OF ok(1) find_word_none, of e "zbuf_init 128" conv def "- 1"] ok that
    by (simp add: address_utf8_def zstrdup_def zbuf_ok_init)
  ultimately show ?thesis by (simp add: zmime_header_line_get_address_vector_utf8_def)
qed

theorem mime_addresses_roundtrip_witness:
  "zmime_header_line_get_address_vector (\<lambda>charset d. d) (cstr ''GBK'')
      (cstr [CHR 0x22, CHR ''A'', CHR 0x5C, CHR 0x5C, CHR ''l'', CHR 0x22] @ cstr '' <Al@x>, '' @
       cstr [CHR 0x22, CHR ''B'', CHR 0x22] @ cstr '' <b@y>'')
    = Some [\<lparr>ma_name = cstr [CHR ''A'', CHR 0x5C, CHR ''l''], ma_name_utf8 = [], ma_address = cstr ''al@x''\<rparr>,
            \<lparr>ma_name = cstr ''B'', ma_name_utf8 = [], ma_address = cstr ''b@y''\<rparr>]"
proof -
  let ?es = "[(cstr [CHR ''A'', CHR 0x5C, CHR ''l''], cstr ''Al@x''), (cstr ''B'', cstr ''b@y'')]"
  have "\<forall>e \<in> set ?es. addr_ok e \<and> count_marks (fst e) = 0" by code_simp
  from mime_addresses_roundtrip [OF this, of "\<lambda>charset d. d" "cstr ''GBK''"] show ?thesis
    by (simp add: addr_text_def quote_text_def cstr_def ch_def tolower_def isupper_def)
qed

text \<open>C15: Recursion on encoded addresses: the scan of a header without the byte \<open>=\<close> returns. From a bare
  address that begins with \<open>=?\<close> and holds no encoded word, and that the conversion leaves as it is,
  \<open>zmime_header_line_get_address_vector\<close> never returns (\<open>None\<close>): the decoded text is the address
  again, and the engine calls itself with it since it passes on 0 instead of its own mode.\<close>

theorem mime_address_recursion:
  "(ch CHR ''='' \<notin> set s \<longrightarrow> (\<exists>mas. zmime_header_line_get_address_vector conv def s = Some mas))
   \<and> (addr_chars t \<and> c_qm \<notin> set t \<and> conv def (cstr ''=?'' @ t) = cstr ''=?'' @ t
      \<longrightarrow> zmime_header_line_get_address_vector conv def (cstr ''=?'' @ t) = None)"
proof (intro conjI impI)
  assume "ch CHR ''='' \<notin> set s"
  then show "\<exists>mas. zmime_header_line_get_address_vector conv def s = Some mas"
    using address_loop_returns by (auto simp: zmime_header_line_get_address_vector_def)
next
  assume t: "addr_chars t \<and> c_qm \<notin> set t \<and> conv def (cstr ''=?'' @ t) = cstr ''=?'' @ t"
  have "address_loop conv def (length (cstr ''=?'' @ t) + 1000) (cstr ''=?'' @ t) [] = None"
    using t by (intro address_loop_stuck) (simp_all add: cstr_def)
  then show "zmime_header_line_get_address_vector conv def (cstr ''=?'' @ t) = None"
    by (simp add: zmime_header_line_get_address_vector_def cstr_def)
qed

theorem mime_address_recursion_witness:
  "(\<exists>mas. zmime_header_line_get_address_vector (\<lambda>charset d. d) [] (cstr ''Al <al@x>; b@y'') = Some mas)
   \<and> zmime_header_line_get_address_vector (\<lambda>charset d. d) [] (cstr ''=?x'') = None"
proof -
  have "ch CHR ''='' \<notin> set (cstr ''Al <al@x>; b@y'')" "addr_chars (cstr ''x'')" "c_qm \<notin> set (cstr ''x'')"
    "cstr ''=?'' @ cstr ''x'' = cstr ''=?x''"
    by code_simp+
  then show ?thesis
    using mime_address_recursion [of "cstr ''Al <al@x>; b@y''" "\<lambda>charset d. d" "[]" "cstr ''x''"] by metis
qed

end
