(* ===== verification/Spec2Isabelle.thy ===== *)
theory Spec2Isabelle
  imports Buf Base64 TextEnc Crc RbProps MapProps Vector LinkList JsonProps CdbWalk StreamProps Url Entities Pools MSearchProps MimeAddr
begin

text \<open>
  \<^bold>\<open>Verification of the C library lib-zc.\<close>

  \<^bold>\<open>The program.\<close> lib-zc is a library for servers and mail software. Its core is a set of containers
  and codecs that the protocol code is built from: the byte buffer \<open>zbuf_t\<close>, into which every encoder,
  the JSON printer and the database builder write; an intrusive red-black tree, on which the four maps
  \<open>zdict\<close>, \<open>zmap\<close>, \<open>zdictlong\<close>, \<open>zlongmap\<close> rest; vectors and linked lists; text encodings, checksums
  and compressed integers; JSON values with a parser and a printer; a constant database with a builder,
  a reader and a walker; and buffered streams over descriptors. The calls go downwards in this list:
  maps call the tree, JSON calls vectors, maps and buffers, the database calls buffers and the integer
  packing, streams call the timed descriptor calls and the compressed integers.

  \<^bold>\<open>How the model is built.\<close> Every C function is one definition at the top level of the theory of its
  component, with the name it has in the source. A structure is a record, memory with pointers is a
  partial map from addresses to cells, and an access to a cell that does not exist is \<open>None\<close>: a theorem
  that a function returns \<open>Some\<close> says that it never follows a NULL or dangling pointer. Loops are
  structural recursion or have a termination proof; those that may run forever are
  \<open>partial_function (option)\<close>, where \<open>None\<close> is also the value of a computation that does not return, so
  that a theorem with \<open>Some\<close> says that it does return. Machine integers are words where wrap-around
  matters (colours in the low bit of parent pointers, checksums, hashes, packed integers) and \<open>nat\<close> or
  \<open>int\<close> elsewhere. Where a field or an argument of the code is narrower than the number of the model,
  a predicate says that the number fits: \<open>zbuf_fits\<close> for the signed fields of 31 bits of a buffer,
  \<open>vec_fits\<close> and \<open>argv_fits\<close> for sizes in bytes that \<open>zmalloc\<close> and \<open>zrealloc\<close> take as an \<open>int\<close>; the
  theorems on storage have it as a hypothesis and show that it is kept. What the environment decides is a parameter: the addresses that
  \<open>zmalloc\<close> returns (\<open>env\<close>), the comparison function of a tree, the text of \<open>printf\<close> for a double,
  and the answers of the kernel to \<open>poll\<close>, \<open>read\<close> and \<open>write\<close>.

  \<^bold>\<open>The theories.\<close>

  \<^item> \<open>Prelude\<close>: names of the machine types, lemmas on lists, options and words, association lists, and
    two interfaces: \<open>byte_sink\<close> (an output that takes one byte at a time, growing or clipped at a
    capacity) and \<open>codec\<close> (an encoder and a decoder that inverts it).

  \<^item> \<open>Buf\<close> (\<open>zc.h\<close>, \<open>src/stdlib/buf.c\<close>): \<open>zbuf_t\<close> with its static and growing forms. \<open>zbuf_ok\<close> is the
    invariant of the structure; \<open>ZBUF_PUT\<close> and \<open>zbuf_put\<close> interpret \<open>byte_sink\<close>, from which the effect
    of all writing operations follows. Bounds: the length and the size are signed fields of 31 bits in C
    and unbounded here; the two agree while \<open>zbuf_fits\<close> holds. Each contract of a writing operation
    bounds the new size by twice the data (\<open>sized\<close>), so a buffer with less than \<open>2^29\<close> bytes fits;
    beyond that C overflows (\<open>zbuf_need_space_overflow\<close>), and a theorem that writes into a buffer without
    naming a bound (printers, encoders) is about buffers below it.

  \<^item> \<open>CStr\<close>: C strings and \<open>strcmp\<close>, with the linear order they have.

  \<^item> \<open>Base64\<close> (\<open>src/encode/base64.c\<close>), \<open>TextEnc\<close> (\<open>src/encode/hex.c\<close>, \<open>quoted_printable.c\<close>): encoders
    into a buffer and decoders, with the text each produces as a reference function, and round trips;
    \<open>base64_min_len_fits\<close> shows that the advertised length is enough for a static buffer.

  \<^item> \<open>Crc\<close> (\<open>src/hash/crc16.c\<close>, \<open>crc32.c\<close>, \<open>crc64.c\<close>): the table-driven loops. The locales
    \<open>crc_lsb_table\<close> and \<open>crc_msb_table\<close> hold the argument that a table of one-byte steps computes the
    division by the polynomial, once for both bit orders; the three interpretations check the tables of
    the source. The length is an \<open>int\<close> that is counted down to zero, hence the bound \<open>2^31\<close>.

  \<^item> \<open>Rbtree\<close> (\<open>src/stdlib/rbtree.c\<close>, macros of \<open>zc.h\<close>): the pointer code. \<open>RbSpec\<close> is the abstract
    specification: insertion and removal on trees in a context (zipper), with their invariants;
    \<open>RbHeap\<close> says how a tree lies in memory; \<open>RbInsert\<close> and \<open>RbErase\<close> show that each case of the C
    code computes the abstract step; \<open>RbSearch\<close>, \<open>RbIndex\<close> and \<open>RbWalk\<close> treat lookup, attaching,
    iteration and the walk with its fixed stack; \<open>RbProps\<close> states the properties on the list of nodes.
    The walk has 64 stack entries; a tree of fewer than \<open>2^32 - 1\<close> nodes has height below 64. The early
    return of \<open>zrbtree_walk\<close> for a NULL function is left out.

  \<^item> \<open>NodeMap\<close>, \<open>Maps\<close>, \<open>Dict\<close>, \<open>MapProps\<close> (\<open>src/stdlib/map.c\<close>, \<open>longmap.c\<close>, \<open>dictlong.c\<close>, \<open>dict.c\<close>):
    the containers; \<open>NodeMap\<close> holds what they share and the locale \<open>assoc_store\<close>, their interface as a
    finite map, which the four containers interpret.

  \<^item> \<open>Vector\<close> (\<open>src/stdlib/vector.c\<close>) and \<open>LinkList\<close> (\<open>zc.h\<close>, \<open>src/stdlib/link.c\<close>, \<open>list.c\<close>): both are
    shown to be double-ended queues (locale \<open>deque\<close>); insertion and removal at a position; release. The
    allocation of a vector is at most twice the elements plus a constant, hence the bound \<open>2^27 - 400\<close>.

  \<^item> \<open>Json\<close>, \<open>JsonTree\<close> (\<open>src/json/json.c\<close>): nodes in a store and the documents they represent (\<open>rep\<close>),
    with release, insertion and path lookup (against paths cut at their slashes and decimal indices);
    \<open>JsonText\<close> and \<open>JsonParse\<close> (\<open>src/json/serialize.c\<close>): the
    iterative printer and parser with their stacks; \<open>JsonRound\<close>: the parser reads back what the printer
    wrote; \<open>JsonSafe\<close>: the parser on arbitrary bytes; \<open>JsonProps\<close>: the properties. New nodes come from
    a counter, so no address is used twice.

  \<^item> \<open>Pack\<close> (\<open>zc.h\<close>, \<open>src/stdlib/cint_and_data.c\<close>): big-endian integers, the string hash and the
    length-prefixed data. \<open>CdbBuild\<close> and \<open>CdbTable\<close> (\<open>src/cdb/builder.c\<close>): the hash tables of the
    builder, their invariant and the finite map they store; \<open>CdbFile\<close>: the bytes the compiler writes;
    \<open>CdbFind\<close> and \<open>CdbWalk\<close> (\<open>src/cdb/reader.c\<close>): lookup and walker; \<open>CdbProps\<close>: builder, compiler
    and reader together. The bound \<open>cdb_bound\<close> keeps every offset of the file below \<open>2^30\<close>, where
    the C code computes in \<open>int\<close>; each value has less than \<open>2^29 - 1\<close> bytes, so that the buffer of its
    node fits (\<open>cdb_input\<close>, \<open>buffers_fit\<close>).

  \<^item> \<open>TimedIo\<close> (\<open>src/stdlib/timed_io.c\<close>, \<open>time.c\<close>): the loops around \<open>poll\<close>, \<open>read\<close> and \<open>write\<close>, over
    a record of kernel answers. \<open>kernel_ok\<close> states what POSIX documents, with a clock \<open>now\<close> that an expired
    \<open>poll\<close> moves on by its timeout, and that the kernel does not interrupt a call forever (\<open>pend\<close> bounds the
    interruptions left, not the expired polls: a wait ends because of the deadline of the code, by the
    measure of the milliseconds left); \<open>Stream\<close>, \<open>StreamOk\<close>,
    \<open>StreamProps\<close> (\<open>src/stream/stream.c\<close>, \<open>fd.c\<close>): the buffered stream over it, in which order and
    completeness of the bytes are shown; the witnesses run it on a pipe.

  \<^item> \<open>Chars\<close>, \<open>Strs\<close> (\<open>src/stdlib/string.c\<close>, \<open>argv.c\<close>, \<open>malloc.c\<close>): the character tables against the C
    locale, trimming, skipping, case mapping and comparison, and argument vectors with their splitting.
    \<open>Config\<close> (\<open>src/stdlib/config.c\<close>, \<open>main_argument.c\<close>): units of sizes and times, the typed getters,
    configuration files line by line and the command line, both of which fill a \<open>zdict\<close>. An argument
    vector with less than \<open>2^27 - 2\<close> strings fits.

  \<^item> \<open>Url\<close> (\<open>src/http/url.c\<close>, \<open>cookie.c\<close>): parsing of addresses, the query as a round trip through a
    dictionary, and cookies; \<open>Entities\<close> (\<open>src/charset/ncr.c\<close>, \<open>src/xml/utils.c\<close>, \<open>src/encode/uu.c\<close>):
    numeric references, UTF-8, escaping of XML and uudecoding.

  \<^item> \<open>Pools\<close> (\<open>src/malloc/queue.c\<close>, \<open>greedy_mpool.c\<close>): the queue of preallocated nodes as a first-in
    first-out queue of addresses whose memory lies in the blocks and does not overlap, and the pool that
    only grows, whose pieces do not overlap.

  \<^item> \<open>MSearch\<close> (\<open>src/search/msearch.c\<close>): multi-pattern search over one block of bytes. \<open>MSearchMem\<close>,
    \<open>MSearchFill\<close> and \<open>MSearchBuild\<close> follow the passes that count, reserve and fill the buckets;
    \<open>MSearchMatch\<close> treats the searches in a bucket; \<open>MSearchProps\<close> compares the whole with the leftmost
    shortest occurrence. The bound \<open>ms_space\<close> is the first allocation of the builder, beyond which
    the code writes through pointers into a block that has moved.

  \<^item> \<open>MimeParam\<close> (\<open>src/mime/param.c\<close>): the value and the parameters of a structured mail header, read
    back from the text they are written as. \<open>MimeHeader\<close> (\<open>src/mime/header_line.c\<close>, \<open>2231.c\<close>): unfolding,
    first tokens, encoded words and extended values over the base64 and quoted-printable decoders.
    \<open>MimeAddr\<close> (\<open>src/mime/address.c\<close>): lists of addresses, whose engine calls itself on a decoded
    address and need not return. The conversion between charsets (\<open>zmime_iconv\<close> in \<open>src/mime/iconv.c\<close> and
    \<open>src/charset/iconv.c\<close>, which bind iconv) is the parameter \<open>conv\<close>, an arbitrary function; only the
    theorem on this recursion assumes something of it, that it leaves one text as it is.

  \<^bold>\<open>What the theorems show.\<close> Each component has the properties of its contract: a refinement of an
  abstract data type (tree, maps, vector, lists), round trips (encodings, JSON, database, messages on a
  stream), invariants (red-black tree, hash tables), termination where a loop depends on data or on the
  kernel, memory safety of the parser, bounds of fixed buffers and counters, equivalence with a bitwise
  reference (checksums), and the error behaviour where the code does not do what it means to.

  \<^bold>\<open>Not modelled.\<close> Threads, coroutines, event loops and process servers (interleaving with the kernel
  and assembly context switches); TLS, SQLite, iconv and DNS (bindings to other libraries); file-system
  and process calls; logging. These are calls to code outside of the repository with little logic of
  their own. The C++ part of the repository is a second implementation of the same services. Of the C
  part, the mail parser proper (dates, the tree of parts and its sections, TNEF), the common
  memory pool and the request loop of the http server are left out: they work on pointers into one
  shared scratch area or on the blocking calls above, and nothing that is modelled calls them.
\<close>

end
